(* ===== verification/Prelude.thy ===== *)
theory Prelude
  imports Main "HOL-Library.Char_ord" "HOL-Library.List_Lexorder" "HOL-Library.Word"
begin

text \<open>
  Shared vocabulary of the development: Go strings as byte strings, the helpers of the
  packages \<open>strings\<close>, \<open>strconv\<close> and \<open>encoding/hex\<close> that the modelled code
  calls, and the generic lemmas and hint collections the component theories use.

  A Go \<open>string\<close> is a sequence of bytes, and so is an HOL \<^typ>\<open>string\<close>: a
  \<^typ>\<open>char\<close> has eight bits.
\<close>

named_theorems text_simps "evaluation of the string helpers"
named_theorems audit_simps "definitions of the audit components"
named_theorems gate_simps "definitions of the enforcement gate"

type_synonym bytes = string
type_synonym u64 = "64 word"

text \<open>Bytes that have no literal of their own.\<close>

abbreviation byte :: "nat \<Rightarrow> char" where
  "byte n \<equiv> char_of n"

definition newline :: char where
  "newline = char_of (10::nat)"

subsection \<open>strings\<close>

definition has_prefix :: "bytes \<Rightarrow> bytes \<Rightarrow> bool" where
  "has_prefix s p \<longleftrightarrow> take (length p) s = p"

definition has_suffix :: "bytes \<Rightarrow> bytes \<Rightarrow> bool" where
  "has_suffix s p \<longleftrightarrow> length p \<le> length s \<and> drop (length s - length p) s = p"

definition trim_prefix :: "bytes \<Rightarrow> bytes \<Rightarrow> bytes" where
  "trim_prefix s p = (if has_prefix s p then drop (length p) s else s)"

definition contains_any :: "bytes \<Rightarrow> bytes \<Rightarrow> bool" where
  "contains_any s cs \<longleftrightarrow> list_ex (\<lambda>c. c \<in> set cs) s"

fun contains :: "bytes \<Rightarrow> bytes \<Rightarrow> bool" where
  "contains [] p \<longleftrightarrow> p = []"
| "contains (c # s) p \<longleftrightarrow> has_prefix (c # s) p \<or> contains s p"

text \<open>\<open>strings.Count\<close> for a non-empty pattern: non-overlapping occurrences.\<close>

fun count_sub_fuel :: "nat \<Rightarrow> bytes \<Rightarrow> bytes \<Rightarrow> nat" where
  "count_sub_fuel 0 s p = 0"
| "count_sub_fuel (Suc k) s p =
     (case s of [] \<Rightarrow> 0
      | _ # t \<Rightarrow> if has_prefix s p then Suc (count_sub_fuel k (drop (length p) s) p)
                 else count_sub_fuel k t p)"

definition count_sub :: "bytes \<Rightarrow> bytes \<Rightarrow> nat" where
  "count_sub s p = count_sub_fuel (length s) s p"

text \<open>\<open>strings.ReplaceAll\<close> for a non-empty pattern, leftmost first.\<close>

fun replace_fuel :: "nat \<Rightarrow> bytes \<Rightarrow> bytes \<Rightarrow> bytes \<Rightarrow> bytes" where
  "replace_fuel 0 s p r = s"
| "replace_fuel (Suc k) s p r =
     (case s of [] \<Rightarrow> []
      | c # t \<Rightarrow> if has_prefix s p then r @ replace_fuel k (drop (length p) s) p r
                 else c # replace_fuel k t p r)"

definition replace_all :: "bytes \<Rightarrow> bytes \<Rightarrow> bytes \<Rightarrow> bytes" where
  "replace_all s p r = replace_fuel (length s) s p r"

text \<open>\<open>strings.Split\<close> on a one-byte separator.\<close>

fun split_on :: "char \<Rightarrow> bytes \<Rightarrow> bytes list" where
  "split_on d [] = [[]]"
| "split_on d (c # s) =
     (if c = d then [] # split_on d s
      else (case split_on d s of [] \<Rightarrow> [[c]] | w # ws \<Rightarrow> (c # w) # ws))"

text \<open>The part of \<open>strings.Cut(s, "=")\<close> before the separator.\<close>

definition before_byte :: "char \<Rightarrow> bytes \<Rightarrow> bytes" where
  "before_byte d s = takeWhile (\<lambda>c. c \<noteq> d) s"

text \<open>
  ASCII case mapping. The code applies \<open>strings.ToLower\<close> and \<open>strings.ToUpper\<close>
  only to strings it also requires to be hexadecimal, or made of \<open>[A-Za-z0-9.-]\<close>.
\<close>

definition to_lower_byte :: "char \<Rightarrow> char" where
  "to_lower_byte c =
     (let n = of_char c :: nat in if 65 \<le> n \<and> n \<le> 90 then char_of (n + 32) else c)"

definition to_upper_byte :: "char \<Rightarrow> char" where
  "to_upper_byte c =
     (let n = of_char c :: nat in if 97 \<le> n \<and> n \<le> 122 then char_of (n - 32) else c)"

definition to_lower :: "bytes \<Rightarrow> bytes" where
  "to_lower s = map to_lower_byte s"

definition to_upper :: "bytes \<Rightarrow> bytes" where
  "to_upper s = map to_upper_byte s"

text \<open>The ASCII white space that \<open>strings.TrimSpace\<close> removes at both ends.\<close>

definition is_space_byte :: "char \<Rightarrow> bool" where
  "is_space_byte c \<longleftrightarrow> (let n = of_char c :: nat in n = 32 \<or> (9 \<le> n \<and> n \<le> 13))"

definition trim_space :: "bytes \<Rightarrow> bytes" where
  "trim_space s = rev (dropWhile is_space_byte (rev (dropWhile is_space_byte s)))"

subsection \<open>encoding/hex\<close>

definition hex_value :: "char \<Rightarrow> nat option" where
  "hex_value c =
     (let n = of_char c :: nat in
      if 48 \<le> n \<and> n \<le> 57 then Some (n - 48)
      else if 97 \<le> n \<and> n \<le> 102 then Some (n - 87)
      else if 65 \<le> n \<and> n \<le> 70 then Some (n - 55)
      else None)"

fun hex_decode :: "bytes \<Rightarrow> bytes option" where
  "hex_decode [] = Some []"
| "hex_decode [_] = None"
| "hex_decode (a # b # s) =
     (case (hex_value a, hex_value b, hex_decode s) of
        (Some x, Some y, Some r) \<Rightarrow> Some (char_of (16 * x + y) # r)
      | _ \<Rightarrow> None)"

definition hex_digit :: "nat \<Rightarrow> char" where
  "hex_digit n = (if n < 10 then char_of (48 + n) else char_of (87 + n))"

definition hex_encode :: "bytes \<Rightarrow> bytes" where
  "hex_encode s =
     concat (map (\<lambda>c. let n = of_char c :: nat in [hex_digit (n div 16), hex_digit (n mod 16)]) s)"

text \<open>The test \<open>strings.ToLower(x) == x && hex.DecodeString(x) succeeds\<close>.\<close>

definition lower_hex :: "bytes \<Rightarrow> bool" where
  "lower_hex s \<longleftrightarrow> to_lower s = s \<and> hex_decode s \<noteq> None"

subsection \<open>strconv\<close>

fun show_nat :: "nat \<Rightarrow> bytes" where
  "show_nat n =
     (if n < 10 then [char_of (48 + n)] else show_nat (n div 10) @ [char_of (48 + n mod 10)])"

declare show_nat.simps [simp del]

definition show_int :: "int \<Rightarrow> bytes" where
  "show_int i = (if i < 0 then CHR ''-'' # show_nat (nat (- i)) else show_nat (nat i))"

definition is_digit :: "char \<Rightarrow> bool" where
  "is_digit c \<longleftrightarrow> (let n = of_char c :: nat in 48 \<le> n \<and> n \<le> 57)"

definition digits_value :: "bytes \<Rightarrow> nat" where
  "digits_value s = foldl (\<lambda>acc c. 10 * acc + (of_char c - 48)) 0 s"

text \<open>\<open>strconv.ParseUint(s, 10, w)\<close>: non-empty, digits only, below \<open>2 ^ w\<close>.\<close>

definition parse_uint :: "nat \<Rightarrow> bytes \<Rightarrow> nat option" where
  "parse_uint w s =
     (if s \<noteq> [] \<and> list_all is_digit s \<and> digits_value s < 2 ^ w then Some (digits_value s)
      else None)"

text \<open>\<open>strconv.ParseInt(s, 10, 64)\<close> on a JSON number literal (no leading plus sign).\<close>

definition parse_int64 :: "bytes \<Rightarrow> int option" where
  "parse_int64 s =
     (case s of
        [] \<Rightarrow> None
      | c # t \<Rightarrow>
          if c = CHR ''-'' then
            (if t \<noteq> [] \<and> list_all is_digit t \<and> digits_value t \<le> 2 ^ 63
             then Some (- int (digits_value t)) else None)
          else
            (if list_all is_digit s \<and> digits_value s < 2 ^ 63
             then Some (int (digits_value s)) else None))"

text \<open>The decimal form is canonical: \<open>strconv.FormatUint(n, 10) == s\<close>.\<close>

definition canonical_decimal :: "nat \<Rightarrow> bytes \<Rightarrow> bool" where
  "canonical_decimal w s \<longleftrightarrow> (\<exists>n\<in>set_option (parse_uint w s). show_nat n = s)"

subsection \<open>Generic lemmas\<close>

lemma has_prefix_Nil [simp]: "has_prefix s []"
  by (simp add: has_prefix_def)

lemma has_prefix_append [simp]: "has_prefix (p @ s) p"
  by (simp add: has_prefix_def)

lemma has_prefix_iff: "has_prefix s p \<longleftrightarrow> (\<exists>r. s = p @ r)"
  by (metis append_take_drop_id has_prefix_append has_prefix_def)

lemma of_char_digit: "d < 10 \<Longrightarrow> (of_char (char_of (48 + d :: nat)) :: nat) = 48 + d"
  by (simp add: of_char_of)

lemma show_nat_nonempty [simp]: "show_nat n \<noteq> []"
  by (subst show_nat.simps) simp

lemma is_digit_char: "(d::nat) < 10 \<Longrightarrow> is_digit (char_of (48 + d))"
  by (simp add: is_digit_def of_char_digit)

lemma show_nat_digits: "list_all is_digit (show_nat n)"
proof (induction n rule: show_nat.induct)
  case (1 n)
  then show ?case
    by (subst show_nat.simps) (auto intro: is_digit_char)
qed

lemma digits_value_snoc: "digits_value (s @ [c]) = 10 * digits_value s + (of_char c - 48)"
  by (simp add: digits_value_def)

lemma digits_value_show_nat [simp]: "digits_value (show_nat n) = n"
proof (induction n rule: show_nat.induct)
  case (1 n)
  show ?case
  proof (cases "n < 10")
    case True
    then show ?thesis
      by (subst show_nat.simps) (simp add: digits_value_def of_char_digit)
  next
    case False
    with 1 show ?thesis
      by (subst show_nat.simps) (simp add: digits_value_snoc of_char_digit)
  qed
qed

lemma parse_show_nat: "n < 2 ^ w \<Longrightarrow> parse_uint w (show_nat n) = Some n"
  by (simp add: parse_uint_def show_nat_digits)

lemma canonical_decimal_show_nat: "n < 2 ^ w \<Longrightarrow> canonical_decimal w (show_nat n)"
  by (simp add: canonical_decimal_def parse_show_nat)

lemma show_nat_inj [simp]: "show_nat m = show_nat n \<longleftrightarrow> m = n"
  by (metis digits_value_show_nat)

lemma show_nat_no_dash: "hd (show_nat n) \<noteq> CHR ''-''"
proof -
  have "is_digit (hd (show_nat n))"
    using show_nat_digits [of n] by (cases "show_nat n") auto
  then show ?thesis
    by (auto simp: is_digit_def Let_def)
qed

lemma parse_show_int:
  assumes "- (2 ^ 63) \<le> i" and "i < 2 ^ 63"
  shows "parse_int64 (show_int i) = Some i"
proof (cases "i < 0")
  case True
  then show ?thesis
    using assms by (auto simp: show_int_def parse_int64_def show_nat_digits)
next
  case False
  then obtain c t where ct: "show_nat (nat i) = c # t"
    by (cases "show_nat (nat i)") auto
  with show_nat_no_dash [of "nat i"] have "c \<noteq> CHR ''-''" by simp
  moreover have "digits_value (c # t) = nat i" "list_all is_digit (c # t)"
    using ct digits_value_show_nat [of "nat i"] show_nat_digits [of "nat i"] by simp_all
  ultimately show ?thesis
    using assms False ct by (simp add: show_int_def parse_int64_def)
qed

lemma hex_value_digit [simp]: "k < 16 \<Longrightarrow> hex_value (hex_digit k) = Some k"
  by (auto simp: hex_digit_def hex_value_def Let_def)

lemma hex_encode_Cons:
  "hex_encode (c # s) =
     [hex_digit (of_char c div 16), hex_digit (of_char c mod 16)] @ hex_encode s"
  by (simp add: hex_encode_def Let_def)

lemma nibbles: "(of_char c :: nat) div 16 < 16" "(of_char c :: nat) mod 16 < 16"
  using nat_of_char_less_256 [of c] by (simp_all add: div_less_iff_less_mult)

lemma hex_decode_encode [simp]: "hex_decode (hex_encode s) = Some s"
proof (induction s)
  case (Cons c s)
  show ?case using Cons nibbles [of c] by (simp add: hex_encode_Cons)
qed (simp add: hex_encode_def)

lemma hex_encode_eq_Nil [simp]: "hex_encode s = [] \<longleftrightarrow> s = []"
  by (cases s) (simp_all add: hex_encode_Cons, simp add: hex_encode_def)

lemma hex_encode_inj [simp]: "hex_encode s = hex_encode t \<longleftrightarrow> s = t"
  by (metis hex_decode_encode option.inject)

lemma hex_digit_range: "k < 16 \<Longrightarrow> 48 \<le> (of_char (hex_digit k) :: nat) \<and> (of_char (hex_digit k) :: nat) \<le> 102"
  by (auto simp: hex_digit_def)

lemma hex_encode_range: "c \<in> set (hex_encode s) \<Longrightarrow> 48 \<le> (of_char c :: nat) \<and> (of_char c :: nat) \<le> 102"
proof (induction s)
  case (Cons a s)
  show ?case using Cons nibbles [of a] hex_digit_range by (auto simp: hex_encode_Cons)
qed (simp add: hex_encode_def)

lemma split_on_nonempty [simp]: "split_on d s \<noteq> []"
  by (induction s) (auto split: list.splits)

lemma split_on_no_sep: "d \<notin> set s \<Longrightarrow> split_on d s = [s]"
  by (induction s) auto

lemma split_on_append: "d \<notin> set s \<Longrightarrow> split_on d (s @ d # t) = s # split_on d t"
  by (induction s) auto

subsection \<open>int\<close>

text \<open>The result of an addition on Go's 64-bit \<open>int\<close>.\<close>

definition wrap64 :: "int \<Rightarrow> int" where
  "wrap64 i = (i + 2 ^ 63) mod 2 ^ 64 - 2 ^ 63"

lemma wrap64_id: "- (2 ^ 63) \<le> i \<Longrightarrow> i < 2 ^ 63 \<Longrightarrow> wrap64 i = i"
  by (simp add: wrap64_def)

lemma length_filter_mono:
  "(\<And>x. x \<in> set xs \<Longrightarrow> P x \<Longrightarrow> Q x) \<Longrightarrow> length (filter P xs) \<le> length (filter Q xs)"
  by (induction xs) (auto intro: le_SucI)

subsection \<open>Sequences of checks\<close>

text \<open>The first error of a sequence of checks.\<close>

fun first_error :: "'e option list \<Rightarrow> 'e option" where
  "first_error [] = None"
| "first_error (e # es) = (case e of Some x \<Rightarrow> Some x | None \<Rightarrow> first_error es)"

lemma first_error_None: "first_error es = None \<longleftrightarrow> (\<forall>e\<in>set es. e = None)"
  by (induction es) (auto split: option.splits)

end
