(* ===== verification/Utf8.thy ===== *)
theory Utf8
  imports Prelude
begin

text \<open>
  The parts of \<open>unicode/utf8\<close> and \<open>strings\<close> that the modelled code uses on runes:
  \<open>DecodeRuneInString\<close>, the replacement of invalid sequences that
  \<open>encoding/json\<close> performs when it marshals a string, and \<open>EqualFold\<close> against an
  ASCII field name.
\<close>

subsection \<open>DecodeRuneInString\<close>

definition rune_error :: nat where
  "rune_error = 65533"

definition cont_byte :: "char \<Rightarrow> bool" where
  "cont_byte c \<longleftrightarrow> (let n = of_char c :: nat in 128 \<le> n \<and> n \<le> 191)"

definition byte_in :: "nat \<Rightarrow> nat \<Rightarrow> char \<Rightarrow> bool" where
  "byte_in lo hi c \<longleftrightarrow> (let n = of_char c :: nat in lo \<le> n \<and> n \<le> hi)"

text \<open>The accepted range of the second byte, by the first byte of a longer sequence.\<close>

definition second_range :: "nat \<Rightarrow> nat \<times> nat" where
  "second_range b =
     (if b = 224 then (160, 191) else if b = 237 then (128, 159)
      else if b = 240 then (144, 191) else if b = 244 then (128, 143) else (128, 191))"

definition seq_length :: "nat \<Rightarrow> nat" where
  "seq_length b =
     (if b < 128 then 1 else if 194 \<le> b \<and> b \<le> 223 then 2
      else if 224 \<le> b \<and> b \<le> 239 then 3 else if 240 \<le> b \<and> b \<le> 244 then 4 else 0)"

fun decode_rune :: "bytes \<Rightarrow> nat \<times> nat" where
  "decode_rune [] = (rune_error, 0)"
| "decode_rune (a # s) =
     (let b = of_char a; (lo, hi) = second_range b in
      if seq_length b = 1 then (b, 1)
      else if seq_length b = 2 then
        (case s of
           c1 # _ \<Rightarrow> if byte_in lo hi c1
                     then ((b mod 32) * 64 + of_char c1 mod 64, 2) else (rune_error, 1)
         | _ \<Rightarrow> (rune_error, 1))
      else if seq_length b = 3 then
        (case s of
           c1 # c2 # _ \<Rightarrow>
             if byte_in lo hi c1 \<and> cont_byte c2
             then ((b mod 16) * 4096 + (of_char c1 mod 64) * 64 + of_char c2 mod 64, 3)
             else (rune_error, 1)
         | _ \<Rightarrow> (rune_error, 1))
      else if seq_length b = 4 then
        (case s of
           c1 # c2 # c3 # _ \<Rightarrow>
             if byte_in lo hi c1 \<and> cont_byte c2 \<and> cont_byte c3
             then ((b mod 8) * 262144 + (of_char c1 mod 64) * 4096
                   + (of_char c2 mod 64) * 64 + of_char c3 mod 64, 4)
             else (rune_error, 1)
         | _ \<Rightarrow> (rune_error, 1))
      else (rune_error, 1))"

declare decode_rune.simps(2) [simp del]

lemma decode_rune_size:
  "s \<noteq> [] \<Longrightarrow> 0 < snd (decode_rune s) \<and> snd (decode_rune s) \<le> length s"
  by (cases s) (auto simp: decode_rune.simps(2) Let_def split: prod.splits list.splits if_splits)

lemma decode_rune_size_pos [simp]: "s \<noteq> [] \<Longrightarrow> 0 < snd (decode_rune s)"
  using decode_rune_size by blast

lemma decode_rune_ascii: "of_char c < (128::nat) \<Longrightarrow> decode_rune (c # s) = (of_char c, 1)"
  by (simp add: decode_rune.simps(2) seq_length_def Let_def split: prod.splits)

text \<open>Only the bytes of the rune itself matter: the rest of the string can be replaced.\<close>

lemma decode_rune_local:
  assumes "decode_rune s = (r, n)" and "\<not> (r = rune_error \<and> n = 1)" and "s \<noteq> []"
  shows "decode_rune (take n s @ t) = (r, n)"
proof -
  obtain a u where s: "s = a # u" using assms(3) by (cases s) auto
  show ?thesis
  proof (cases "seq_length (of_char a) = 1")
    case True
    then have one: "decode_rune (a # v) = (of_char a, 1)" for v
      by (simp add: decode_rune.simps(2) Let_def split: prod.splits)
    have "n = 1" using one [of u] assms(1) s by simp
    then have "take n s @ t = a # t" using s by simp
    then show ?thesis
      using one [of t] one [of u] assms(1) s by simp
  next
    case False
    then show ?thesis
      using assms(1,2) s
      by (auto simp: decode_rune.simps(2) Let_def split: prod.splits list.splits if_splits)
  qed
qed

subsection \<open>Replacement of invalid sequences\<close>

definition replacement_char :: bytes where
  "replacement_char = [char_of (239::nat), char_of (191::nat), char_of (189::nat)]"

function coerce_utf8 :: "bytes \<Rightarrow> bytes" where
  "coerce_utf8 s =
     (if s = [] then []
      else let (r, n) = decode_rune s in
        (if r = rune_error \<and> n = 1 then replacement_char else take n s) @ coerce_utf8 (drop n s))"
  by pat_completeness auto
termination
proof (relation "measure length")
  fix s :: bytes and x r n
  assume "s \<noteq> []" and "x = decode_rune s" and "(r, n) = x"
  then show "(drop n s, s) \<in> measure length"
    using decode_rune_size_pos [of s] by (cases s) (auto simp: prod_eq_iff)
qed auto

declare coerce_utf8.simps [simp del]

lemma coerce_utf8_Nil [simp]: "coerce_utf8 [] = []"
  by (subst coerce_utf8.simps) simp

lemma coerce_utf8_ascii:
  "of_char c < (128::nat) \<Longrightarrow> coerce_utf8 (c # s) = c # coerce_utf8 s"
  by (subst coerce_utf8.simps) (auto simp: decode_rune_ascii rune_error_def)

lemma coerce_utf8_all_ascii: "\<forall>c\<in>set s. of_char c < (128::nat) \<Longrightarrow> coerce_utf8 s = s"
  by (induction s) (auto simp: coerce_utf8_ascii)

lemma decode_replacement: "decode_rune (replacement_char @ t) = (rune_error, 3)"
  by (simp add: replacement_char_def decode_rune.simps(2) seq_length_def second_range_def
      byte_in_def cont_byte_def rune_error_def)

lemma coerce_utf8_unfold:
  "s \<noteq> [] \<Longrightarrow> decode_rune s = (r, n) \<Longrightarrow>
   coerce_utf8 s =
     (if r = rune_error \<and> n = 1 then replacement_char else take n s) @ coerce_utf8 (drop n s)"
  by (subst coerce_utf8.simps) simp

lemma coerce_utf8_eq_Nil [simp]: "coerce_utf8 s = [] \<longleftrightarrow> s = []"
proof (cases "s = []")
  case False
  obtain r n where rn: "decode_rune s = (r, n)" by (cases "decode_rune s")
  then show ?thesis
    using False decode_rune_size [OF False]
    by (simp add: coerce_utf8_unfold [OF False rn] replacement_char_def)
qed simp

lemma coerce_utf8_valid_chunk:
  assumes "decode_rune s = (r, n)" and "\<not> (r = rune_error \<and> n = 1)" and "s \<noteq> []"
  shows "coerce_utf8 (take n s @ t) = take n s @ coerce_utf8 t"
proof -
  have n: "0 < n" "n \<le> length s"
    using decode_rune_size [OF assms(3)] assms(1) by simp_all
  then have "take n s @ t \<noteq> []" using assms(3) by auto
  then show ?thesis
    using coerce_utf8_unfold [OF _ decode_rune_local [OF assms, of t]] assms(2) n by auto
qed

text \<open>Marshalling a string a second time changes nothing.\<close>

lemma coerce_utf8_idem [simp]: "coerce_utf8 (coerce_utf8 s) = coerce_utf8 s"
proof (induction s rule: coerce_utf8.induct)
  case (1 s)
  show ?case
  proof (cases "s = []")
    case False
    obtain r n where rn: "decode_rune s = (r, n)" by (cases "decode_rune s")
    have IH: "coerce_utf8 (coerce_utf8 (drop n s)) = coerce_utf8 (drop n s)"
      using 1 [OF False rn [symmetric]] by simp
    have repl: "coerce_utf8 (replacement_char @ t) = replacement_char @ coerce_utf8 t" for t
      using coerce_utf8_unfold [OF _ decode_replacement [of t]]
      by (simp add: replacement_char_def)
    show ?thesis
    proof (cases "r = rune_error \<and> n = 1")
      case True
      then show ?thesis
        using IH repl by (simp add: coerce_utf8_unfold [OF False rn])
    next
      case valid: False
      have "coerce_utf8 s = take n s @ coerce_utf8 (drop n s)"
        using coerce_utf8_unfold [OF False rn] valid by auto
      then show ?thesis
        using IH coerce_utf8_valid_chunk [OF rn valid False] by simp
    qed
  qed simp
qed

subsection \<open>EqualFold against an ASCII name\<close>

text \<open>
  \<open>strings.EqualFold\<close> compares runes up to simple case folding. Against an ASCII name
  this is ASCII case folding plus the two non-ASCII runes whose fold class meets ASCII:
  U+017F (long s) and U+212A (Kelvin sign).
\<close>

definition fold_rune :: "nat \<Rightarrow> nat" where
  "fold_rune r =
     (if 65 \<le> r \<and> r \<le> 90 then r + 32 else if r = 383 then 115 else if r = 8490 then 107 else r)"

function runes :: "bytes \<Rightarrow> nat list" where
  "runes s = (if s = [] then [] else fst (decode_rune s) # runes (drop (snd (decode_rune s)) s))"
  by pat_completeness auto
termination
  by (relation "measure length") (auto intro: diff_less)

declare runes.simps [simp del]

lemma runes_Nil [simp]: "runes [] = []"
  by (subst runes.simps) simp

lemma runes_Cons_ascii: "of_char c < (128::nat) \<Longrightarrow> runes (c # s) = of_char c # runes s"
  by (subst runes.simps) (simp add: decode_rune_ascii)

definition equal_fold :: "bytes \<Rightarrow> bytes \<Rightarrow> bool" where
  "equal_fold s name \<longleftrightarrow> map fold_rune (runes s) = map fold_rune (runes name)"

lemma equal_fold_refl [simp]: "equal_fold s s"
  by (simp add: equal_fold_def)

subsection \<open>White space and control runes\<close>

text \<open>\<open>unicode.IsSpace\<close> and \<open>unicode.IsControl\<close>.\<close>

definition rune_space :: "nat \<Rightarrow> bool" where
  "rune_space r \<longleftrightarrow>
     (9 \<le> r \<and> r \<le> 13) \<or> r = 32 \<or> r = 133 \<or> r = 160 \<or> r = 5760 \<or> (8192 \<le> r \<and> r \<le> 8202)
     \<or> r = 8232 \<or> r = 8233 \<or> r = 8239 \<or> r = 8287 \<or> r = 12288"

definition rune_control :: "nat \<Rightarrow> bool" where
  "rune_control r \<longleftrightarrow> r < 32 \<or> (127 \<le> r \<and> r \<le> 159)"

text \<open>
  \<open>bytes.TrimSpace\<close>: leading space runes, then trailing ones; every space rune has
  an encoding of at most three bytes.
\<close>

function trim_left :: "bytes \<Rightarrow> bytes" where
  "trim_left s =
     (if s = [] \<or> \<not> rune_space (fst (decode_rune s)) then s
      else trim_left (drop (snd (decode_rune s)) s))"
  by pat_completeness auto
termination
  by (relation "measure length") (auto intro: diff_less)

declare trim_left.simps [simp del]

definition space_tail :: "bytes \<Rightarrow> nat \<Rightarrow> bool" where
  "space_tail s n \<longleftrightarrow>
     n \<le> length s
     \<and> (let (r, k) = decode_rune (drop (length s - n) s) in k = n \<and> rune_space r)"

fun trim_right_fuel :: "nat \<Rightarrow> bytes \<Rightarrow> bytes" where
  "trim_right_fuel 0 s = s"
| "trim_right_fuel (Suc f) s =
     (if space_tail s 1 then trim_right_fuel f (take (length s - 1) s)
      else if space_tail s 2 then trim_right_fuel f (take (length s - 2) s)
      else if space_tail s 3 then trim_right_fuel f (take (length s - 3) s)
      else s)"

definition trim_bytes :: "bytes \<Rightarrow> bytes" where
  "trim_bytes s = (let t = trim_left s in trim_right_fuel (length t) t)"

lemma trim_left_head:
  "of_char c < (128::nat) \<Longrightarrow> \<not> rune_space (of_char c) \<Longrightarrow> trim_left (c # s) = c # s"
  by (subst trim_left.simps) (simp add: decode_rune_ascii)

text \<open>A byte string that starts and ends in visible ASCII is not changed.\<close>

lemma space_tail_ascii:
  assumes "of_char c < (128::nat)" and "\<not> rune_space (of_char c)" and "n \<in> {1, 2, 3}"
  shows "\<not> space_tail (s @ [c]) n"
proof -
  have two: "snd (decode_rune [a, c]) \<noteq> 2" for a
    using assms(1)
    by (auto simp: decode_rune.simps(2) byte_in_def second_range_def Let_def split: if_splits)
  have three: "snd (decode_rune [a, b, c]) \<noteq> 3" for a b
    using assms(1) by (auto simp: decode_rune.simps(2) cont_byte_def Let_def split: prod.splits)
  consider "n = 1" | "n = 2" | "n = 3" using assms(3) by auto
  then show ?thesis
  proof cases
    case 1
    then show ?thesis using assms(1,2) by (simp add: space_tail_def decode_rune_ascii)
  next
    case 2
    then show ?thesis
      by (cases s rule: rev_cases) (auto simp: space_tail_def split: prod.splits dest!: arg_cong [where f = snd] simp: two)
  next
    case 3
    show ?thesis
    proof (cases s rule: rev_cases)
      case (snoc t b)
      then show ?thesis using 3
        by (cases t rule: rev_cases)
          (auto simp: space_tail_def split: prod.splits dest!: arg_cong [where f = snd] simp: three)
    qed (simp add: 3 space_tail_def)
  qed
qed

lemma trim_bytes_ascii:
  assumes "s = a # t" and "s = u @ [c]"
    and "of_char a < (128::nat)" "\<not> rune_space (of_char a)"
    and "of_char c < (128::nat)" "\<not> rune_space (of_char c)"
  shows "trim_bytes s = s"
proof -
  have "trim_left s = s" using trim_left_head [OF assms(3,4)] assms(1) by simp
  moreover have "trim_right_fuel f s = s" for f
    using space_tail_ascii [OF assms(5,6), of _ u] assms(2) by (cases f) simp_all
  ultimately show ?thesis by (simp add: trim_bytes_def)
qed

end
