(* ===== verification/Json.thy ===== *)
theory Json
  imports Utf8
begin

text \<open>
  \<open>encoding/json\<close> as the code uses it. A \<open>json\<close> value is the token tree of a
  document: strings are decoded, numbers keep their source text (\<open>UseNumber\<close>,
  \<open>RawMessage\<close>), and objects keep their members in source order with duplicates, the
  way a \<open>json.RawMessage\<close> does. Go maps are sorted member lists with distinct keys:
  \<open>collect\<close> is \<open>Unmarshal\<close> into a map (the last duplicate wins) and at the same time
  the key order in which \<open>Marshal\<close> writes a map back. \<open>json_print\<close> and
  \<open>json_parse\<close> are \<open>Marshal\<close> and \<open>Unmarshal\<close> between trees and bytes.
\<close>

datatype json =
    JNull
  | JBool bool
  | JNum bytes
  | JStr bytes
  | JArr "json list"
  | JObj "(bytes \<times> json) list"

type_synonym members = "(bytes \<times> json) list"

subsection \<open>Go maps\<close>

text \<open>Insertion or replacement in a member list sorted by key (\<open>m[k] = v\<close>).\<close>

fun put :: "bytes \<Rightarrow> 'v \<Rightarrow> (bytes \<times> 'v) list \<Rightarrow> (bytes \<times> 'v) list" where
  "put k v [] = [(k, v)]"
| "put k v ((k', v') # m) =
     (if k < k' then (k, v) # (k', v') # m
      else if k = k' then (k, v) # m
      else (k', v') # put k v m)"

definition collect :: "(bytes \<times> 'v) list \<Rightarrow> (bytes \<times> 'v) list" where
  "collect ms = fold (\<lambda>(k, v) m. put k v m) ms []"

text \<open>\<open>delete(m, k)\<close>.\<close>

definition del :: "bytes \<Rightarrow> (bytes \<times> 'v) list \<Rightarrow> (bytes \<times> 'v) list" where
  "del k m = filter (\<lambda>x. fst x \<noteq> k) m"

definition canonical_map :: "(bytes \<times> 'v) list \<Rightarrow> bool" where
  "canonical_map m \<longleftrightarrow> sorted_wrt (<) (map fst m)"

lemma map_of_put [simp]: "map_of (put k v m) = (map_of m)(k \<mapsto> v)"
  by (induction k v m rule: put.induct) (auto simp: fun_eq_iff)

lemma set_fst_put [simp]: "fst ` set (put k v m) = insert k (fst ` set m)"
  by (induction k v m rule: put.induct) auto

lemma canonical_put: "canonical_map m \<Longrightarrow> canonical_map (put k v m)"
  unfolding canonical_map_def
  by (induction k v m rule: put.induct) auto

lemma canonical_map_Nil [simp]: "canonical_map []"
  by (simp add: canonical_map_def)

lemma canonical_map_Cons [simp]:
  "canonical_map ((k, v) # m) \<longleftrightarrow> (\<forall>x\<in>fst ` set m. k < x) \<and> canonical_map m"
  by (auto simp: canonical_map_def)

lemma canonical_distinct: "canonical_map m \<Longrightarrow> distinct (map fst m)"
  by (simp add: canonical_map_def strict_sorted_iff)

lemma canonical_fold_put:
  "canonical_map m \<Longrightarrow> canonical_map (fold (\<lambda>(k, v) m. put k v m) ms m)"
  by (induction ms arbitrary: m) (auto intro: canonical_put)

lemma canonical_collect [simp]: "canonical_map (collect ms)"
  by (simp add: collect_def canonical_fold_put)

lemma canonical_del: "canonical_map m \<Longrightarrow> canonical_map (del k m)"
  by (induction m) (auto simp: del_def)

lemma put_last: "\<forall>x\<in>fst ` set m. x < k \<Longrightarrow> put k v m = m @ [(k, v)]"
  by (induction m) (auto simp: less_le_not_le)

lemma collect_canonical:
  assumes "canonical_map m"
  shows "collect m = m"
proof -
  have "fold (\<lambda>(k, v) m. put k v m) m p = p @ m" if "canonical_map (p @ m)" for p
    using that
  proof (induction m arbitrary: p)
    case (Cons x m)
    obtain k v where x: "x = (k, v)" by (cases x)
    have lt: "\<forall>y\<in>fst ` set p. y < k"
      using Cons.prems x unfolding canonical_map_def
      by (auto simp: sorted_wrt_append)
    have "canonical_map ((p @ [x]) @ m)" using Cons.prems by simp
    from Cons.IH [OF this] show ?case by (simp add: x put_last [OF lt])
  qed simp
  from this [of "[]"] assms show ?thesis by (simp add: collect_def)
qed

lemma collect_collect [simp]: "collect (collect ms) = collect ms"
  by (simp add: collect_canonical)

lemma map_of_fold_put: "map_of (fold (\<lambda>(k, v) m. put k v m) ms m) = map_of m ++ map_of (rev ms)"
proof (induction ms arbitrary: m)
  case (Cons x ms)
  obtain k v where x: "x = (k, v)" by (cases x)
  show ?case using Cons [of "put k v m"] by (auto simp: x map_add_def fun_eq_iff split: option.splits)
qed simp

lemma map_of_collect [simp]: "map_of (collect ms) = map_of (rev ms)"
  by (simp add: collect_def map_of_fold_put)

lemma map_of_del: "map_of (del k m) = (map_of m)(k := None)"
  unfolding del_def by (induction m) (auto simp: fun_eq_iff)

lemma put_map:
  "put k (f v) (map (\<lambda>(k, v). (k, f v)) m) = map (\<lambda>(k, v). (k, f v)) (put k v m)"
  by (induction k v m rule: put.induct) auto

lemma collect_map:
  "collect (map (\<lambda>(k, v). (k, f v)) ms) = map (\<lambda>(k, v). (k, f v)) (collect ms)"
proof -
  have "fold (\<lambda>(k, v) m. put k v m) (map (\<lambda>(k, v). (k, f v)) ms) (map (\<lambda>(k, v). (k, f v)) m)
    = map (\<lambda>(k, v). (k, f v)) (fold (\<lambda>(k, v) m. put k v m) ms m)" for m
  proof (induction ms arbitrary: m)
    case (Cons x ms)
    obtain k v where x: "x = (k, v)" by (cases x)
    show ?case using Cons [of "put k v m"] by (simp add: x put_map)
  qed simp
  from this [of "[]"] show ?thesis by (simp add: collect_def)
qed

lemma fold_put_subset:
  "set (fold (\<lambda>(k, v) m. put k v m) ms m) \<subseteq> set m \<union> set ms"
proof (induction ms arbitrary: m)
  case (Cons x ms)
  obtain k v where x: "x = (k, v)" by (cases x)
  have "set (put k v m) \<subseteq> insert (k, v) (set m)"
    by (induction k v m rule: put.induct) auto
  then show ?case using Cons [of "put k v m"] by (auto simp: x)
qed simp

lemma collect_subset: "set (collect ms) \<subseteq> set ms"
  using fold_put_subset [of ms "[]"] by (simp add: collect_def)

subsection \<open>Decoding a tree into Go types\<close>

text \<open>Unmarshal into \<open>map[string]json.RawMessage\<close>: \<open>null\<close> gives the nil map.\<close>

fun as_map :: "json \<Rightarrow> members option option" where
  "as_map (JObj ms) = Some (Some (collect ms))"
| "as_map JNull = Some None"
| "as_map _ = None"

text \<open>Reading a nil map is reading an empty one.\<close>

definition raw_map :: "json \<Rightarrow> members option" where
  "raw_map j = map_option (\<lambda>m. case m of None \<Rightarrow> [] | Some ms \<Rightarrow> ms) (as_map j)"

text \<open>Unmarshal into a \<open>string\<close>: \<open>null\<close> leaves the empty string.\<close>

fun as_string :: "json \<Rightarrow> bytes option" where
  "as_string (JStr s) = Some s"
| "as_string JNull = Some []"
| "as_string _ = None"

text \<open>Unmarshal into \<open>[]json.RawMessage\<close>.\<close>

fun as_slice :: "json \<Rightarrow> json list option option" where
  "as_slice (JArr xs) = Some (Some xs)"
| "as_slice JNull = Some None"
| "as_slice _ = None"

text \<open>Unmarshal into \<open>int\<close> (64 bits): an integer literal in range, or \<open>null\<close>.\<close>

fun as_int :: "json \<Rightarrow> int option" where
  "as_int (JNum s) = parse_int64 s"
| "as_int JNull = Some 0"
| "as_int _ = None"

fun as_bool :: "json \<Rightarrow> bool option" where
  "as_bool (JBool b) = Some b"
| "as_bool JNull = Some False"
| "as_bool _ = None"

subsection \<open>The value a decoder into \<open>interface{}\<close> keeps\<close>

text \<open>
  \<open>norm\<close> is decoding into \<open>interface{}\<close> with \<open>UseNumber\<close>: at every level the last
  of several equal keys wins and the order is that of \<open>Marshal\<close>.
\<close>

fun norm :: "json \<Rightarrow> json" where
  "norm (JArr xs) = JArr (map norm xs)"
| "norm (JObj ms) = JObj (collect (map (\<lambda>(k, v). (k, norm v)) ms))"
| "norm j = j"

text \<open>No object of the tree has two equal keys, and every object is in key order.\<close>

fun normal :: "json \<Rightarrow> bool" where
  "normal (JArr xs) \<longleftrightarrow> list_all normal xs"
| "normal (JObj ms) \<longleftrightarrow> canonical_map ms \<and> list_all (\<lambda>(k, v). normal v) ms"
| "normal _ \<longleftrightarrow> True"

lemma normal_norm [simp]: "normal (norm j)"
proof (induction j rule: norm.induct)
  case (1 xs)
  then show ?case by (simp add: list_all_iff)
next
  case (2 ms)
  have "normal v" if "(k, v) \<in> set (collect (map (\<lambda>(k, v). (k, norm v)) ms))" for k v
    using that collect_subset [of "map (\<lambda>(k, v). (k, norm v)) ms"] 2 by auto
  then show ?case by (auto simp: list_all_iff)
qed auto

lemma norm_normal: "normal j \<Longrightarrow> norm j = j"
proof (induction j rule: norm.induct)
  case (1 xs)
  then show ?case by (simp add: list_all_iff map_idI)
next
  case (2 ms)
  have "map (\<lambda>(k, v). (k, norm v)) ms = ms"
    using 2 by (intro map_idI) (auto simp: list_all_iff)
  then show ?case using 2(2) by (simp add: collect_canonical)
qed auto

lemma norm_norm [simp]: "norm (norm j) = norm j"
  by (simp add: norm_normal)

end
