(* ===== verification/JsonText.thy ===== *)
theory JsonText
  imports Json
begin

text \<open>
  The bytes of JSON documents: \<open>json_print\<close> is \<open>json.Marshal\<close> (compact, with HTML
  escaping) and \<open>json_parse\<close> the decoder, including its nesting limit. The main lemma
  is the round trip: a printed tree is read back as itself.
\<close>

subsection \<open>Strings\<close>

definition quote_char :: char where "quote_char = char_of (34::nat)"
definition backslash :: char where "backslash = char_of (92::nat)"

text \<open>The escapes of one ASCII byte.\<close>

definition esc_ascii :: "char \<Rightarrow> bytes" where
  "esc_ascii c =
     (let n = of_char c :: nat in
      if n = 34 \<or> n = 92 then [backslash, c]
      else if n = 8 then [backslash, CHR ''b'']
      else if n = 12 then [backslash, CHR ''f'']
      else if n = 10 then [backslash, CHR ''n'']
      else if n = 13 then [backslash, CHR ''r'']
      else if n = 9 then [backslash, CHR ''t'']
      else if n < 32 \<or> n = 60 \<or> n = 62 \<or> n = 38
      then [backslash, CHR ''u'', CHR ''0'', CHR ''0'', hex_digit (n div 16), hex_digit (n mod 16)]
      else [c])"

text \<open>The text of the next rune of a string and what remains of it.\<close>

definition esc_rune :: "bytes \<Rightarrow> bytes" where
  "esc_rune s =
     (let (r, n) = decode_rune s in
      if n = 1 \<and> r < 128 then esc_ascii (hd s)
      else if r = rune_error \<and> n = 1 then backslash # ''ufffd''
      else if r = 8232 \<or> r = 8233 then [backslash] @ ''u202'' @ [hex_digit (r mod 16)]
      else take n s)"

function esc_string :: "bytes \<Rightarrow> bytes" where
  "esc_string s =
     (if s = [] then [] else esc_rune s @ esc_string (drop (snd (decode_rune s)) s))"
  by pat_completeness auto
termination
  by (relation "measure length") (auto intro: diff_less)

declare esc_string.simps [simp del]

definition quote_string :: "bytes \<Rightarrow> bytes" where
  "quote_string s = quote_char # esc_string s @ [quote_char]"

text \<open>\<open>utf8.AppendRune\<close> for the runes that a \<open>\\u\<close> escape can denote.\<close>

definition encode_rune :: "nat \<Rightarrow> bytes" where
  "encode_rune r =
     (if r < 128 then [char_of r]
      else if r < 2048 then [char_of (192 + r div 64), char_of (128 + r mod 64)]
      else if r < 65536
      then [char_of (224 + r div 4096), char_of (128 + r div 64 mod 64), char_of (128 + r mod 64)]
      else [char_of (240 + r div 262144), char_of (128 + r div 4096 mod 64),
            char_of (128 + r div 64 mod 64), char_of (128 + r mod 64)])"

text \<open>Four hexadecimal digits after \<open>\\u\<close>.\<close>

fun get_u4 :: "bytes \<Rightarrow> (nat \<times> bytes) option" where
  "get_u4 (a # b # c # d # s) =
     (case (hex_value a, hex_value b, hex_value c, hex_value d) of
        (Some w, Some x, Some y, Some z) \<Rightarrow> Some (4096 * w + 256 * x + 16 * y + z, s)
      | _ \<Rightarrow> None)"
| "get_u4 _ = None"

text \<open>
  After \<open>\\u\<close> with value \<open>r\<close>: a surrogate pair is joined, a lone surrogate becomes
  U+FFFD.
\<close>

fun second_surrogate :: "bytes \<Rightarrow> (nat \<times> bytes) option" where
  "second_surrogate (a # u # s) =
     (if a = backslash \<and> u = CHR ''u'' then get_u4 s else None)"
| "second_surrogate _ = None"

definition join_surrogate :: "nat \<Rightarrow> bytes \<Rightarrow> nat \<times> bytes" where
  "join_surrogate r s =
     (if 55296 \<le> r \<and> r < 57344 then
        (case second_surrogate s of
           Some (r1, s') \<Rightarrow>
             if r < 56320 \<and> 56320 \<le> r1 \<and> r1 < 57344
             then ((r - 55296) * 1024 + (r1 - 56320) + 65536, s') else (rune_error, s)
         | None \<Rightarrow> (rune_error, s))
      else (r, s))"

definition simple_escape :: "char \<Rightarrow> char option" where
  "simple_escape e =
     (if e = quote_char \<or> e = backslash \<or> e = CHR ''/'' then Some e
      else if e = CHR ''b'' then Some (char_of (8::nat))
      else if e = CHR ''f'' then Some (char_of (12::nat))
      else if e = CHR ''n'' then Some (char_of (10::nat))
      else if e = CHR ''r'' then Some (char_of (13::nat))
      else if e = CHR ''t'' then Some (char_of (9::nat))
      else None)"

text \<open>One step of the string scanner: the decoded bytes and the rest.\<close>

fun scan_char :: "bytes \<Rightarrow> (bytes \<times> bytes) option" where
  "scan_char [] = None"
| "scan_char (c # t) =
     (if c = backslash then
        (case t of
           [] \<Rightarrow> None
         | e # t' \<Rightarrow>
             (case simple_escape e of
                Some d \<Rightarrow> Some ([d], t')
              | None \<Rightarrow>
                  if e = CHR ''u'' then
                    (case get_u4 t' of
                       None \<Rightarrow> None
                     | Some (r, u) \<Rightarrow>
                         let (r', u') = join_surrogate r u in Some (encode_rune r', u'))
                  else None))
      else if of_char c < (32::nat) then None
      else let (r, n) = decode_rune (c # t) in
           Some (if r = rune_error \<and> n = 1 then replacement_char else take n (c # t),
                 drop n (c # t)))"

declare scan_char.simps(2) [simp del]

lemma get_u4_shorter: "get_u4 s = Some (r, t) \<Longrightarrow> length t < length s"
  by (cases s rule: get_u4.cases) (auto split: option.splits)

lemma second_surrogate_shorter: "second_surrogate s = Some (r, t) \<Longrightarrow> length t < length s"
  by (cases s rule: second_surrogate.cases) (auto split: if_splits dest!: get_u4_shorter)

lemma scan_char_shorter: "scan_char s = Some (b, t) \<Longrightarrow> length t < length s"
proof (cases s)
  case (Cons c u)
  assume *: "scan_char s = Some (b, t)"
  show ?thesis
  proof (cases "c = backslash")
    case True
    with * Cons show ?thesis
      by (auto simp: scan_char.simps(2) join_surrogate_def Let_def split: list.splits option.splits if_splits prod.splits
          dest!: get_u4_shorter second_surrogate_shorter)
  next
    case False
    obtain r n where rn: "decode_rune (c # u) = (r, n)" by (cases "decode_rune (c # u)")
    have "0 < n" using decode_rune_size_pos [of "c # u"] rn by simp
    with * Cons False rn show ?thesis by (auto simp: scan_char.simps(2) split: if_splits)
  qed
qed simp

function scan_string :: "bytes \<Rightarrow> (bytes \<times> bytes) option" where
  "scan_string s =
     (case s of
        [] \<Rightarrow> None
      | c # t \<Rightarrow>
          if c = quote_char then Some ([], t)
          else (case scan_char s of
                  None \<Rightarrow> None
                | Some (b, u) \<Rightarrow>
                    (case scan_string u of None \<Rightarrow> None | Some (v, w) \<Rightarrow> Some (b @ v, w))))"
  by pat_completeness auto
termination
  by (relation "measure length") (auto dest!: scan_char_shorter)

declare scan_string.simps [simp del]

subsection \<open>A string is read back as \<open>Marshal\<close> wrote it\<close>

lemma hex_value_zero: "hex_value (CHR ''0'') = Some 0"
  by (simp add: hex_value_def)

lemma char_of_eq_iff: "of_char c = n \<Longrightarrow> c = char_of (n::nat)"
  by auto

lemma special_chars [simp]:
  "of_char quote_char = (34::nat)" "of_char backslash = (92::nat)"
  by (simp_all add: quote_char_def backslash_def)

lemma special_neq [simp]: "quote_char \<noteq> backslash" "backslash \<noteq> quote_char"
  by (simp_all add: quote_char_def backslash_def)

lemma scan_char_plain:
  assumes "of_char c < (128::nat)" and "32 \<le> (of_char c :: nat)" and "c \<noteq> backslash"
  shows "scan_char (c # t) = Some ([c], t)"
  using assms by (auto simp: scan_char.simps(2) decode_rune_ascii rune_error_def)

lemma scan_char_esc_ascii:
  assumes "of_char c < (128::nat)"
  shows "scan_char (esc_ascii c @ t) = Some ([c], t)"
proof -
  let ?n = "of_char c :: nat"
  have simple: "scan_char (backslash # e # t) = Some ([d], t)" if "simple_escape e = Some d" for d e
    using that by (simp add: scan_char.simps(2))
  have letters: "simple_escape CHR ''b'' = Some (char_of (8::nat))"
    "simple_escape CHR ''f'' = Some (char_of (12::nat))"
    "simple_escape CHR ''n'' = Some (char_of (10::nat))"
    "simple_escape CHR ''r'' = Some (char_of (13::nat))"
    "simple_escape CHR ''t'' = Some (char_of (9::nat))"
    by (simp_all add: simple_escape_def quote_char_def backslash_def flip: of_char_eq_iff [where 'a = nat])
  have unicode: "scan_char (backslash # CHR ''u'' # CHR ''0'' # CHR ''0''
      # hex_digit (?n div 16) # hex_digit (?n mod 16) # t) = Some ([c], t)"
  proof -
    have "?n div 16 < 16" using assms by simp
    then have "get_u4 (CHR ''0'' # CHR ''0'' # hex_digit (?n div 16) # hex_digit (?n mod 16) # t)
      = Some (?n, t)"
      by (simp add: hex_value_zero)
    moreover have "simple_escape (CHR ''u'') = None"
      by (auto simp: simple_escape_def quote_char_def backslash_def simp flip: of_char_eq_iff [where 'a = nat])
    ultimately show ?thesis
      using assms by (simp add: scan_char.simps(2) join_surrogate_def encode_rune_def)
  qed
  consider "?n = 34 \<or> ?n = 92" | "?n = 8" | "?n = 12" | "?n = 10" | "?n = 13" | "?n = 9"
    | "\<not> (?n = 34 \<or> ?n = 92 \<or> ?n = 8 \<or> ?n = 12 \<or> ?n = 10 \<or> ?n = 13 \<or> ?n = 9)"
    by blast
  then show ?thesis
  proof cases
    case 1
    then have "simple_escape c = Some c"
      by (auto simp: simple_escape_def quote_char_def backslash_def dest!: char_of_eq_iff)
    with simple [of c] 1 show ?thesis by (auto simp: esc_ascii_def)
  next
    case 7
    show ?thesis
    proof (cases "?n < 32 \<or> ?n = 60 \<or> ?n = 62 \<or> ?n = 38")
      case True
      with 7 unicode show ?thesis by (simp add: esc_ascii_def Let_def)
    next
      case False
      with 7 have "esc_ascii c = [c]" by (simp add: esc_ascii_def Let_def)
      moreover have "c \<noteq> backslash" using 7 by auto
      ultimately show ?thesis using scan_char_plain assms False by simp
    qed
  qed (auto simp: esc_ascii_def intro!: simple letters dest!: char_of_eq_iff)
qed

lemma esc_ascii_head: "hd (esc_ascii c) \<noteq> quote_char" "esc_ascii c \<noteq> []"
  by (auto simp: esc_ascii_def Let_def)

text \<open>The two separators that are escaped have one encoding each.\<close>

lemma three_byte_separator:
  fixes b x y :: nat
  assumes "224 \<le> b" "b \<le> 239" "128 \<le> x" "x \<le> 191" "128 \<le> y" "y \<le> 191"
    and "(b mod 16) * 4096 + (x mod 64) * 64 + y mod 64 = r" and "r = 8232 \<or> r = 8233"
  shows "b = 226 \<and> x = 128 \<and> y = 128 + r mod 64"
proof -
  obtain b' x' y' where v: "b = 224 + b'" "x = 128 + x'" "y = 128 + y'"
    using assms(1,3,5) by (metis le_iff_add)
  have lt: "b' < 16" "x' < 64" "y' < 64" using assms(2,4,6) v by simp_all
  have "(224 + b') mod 16 = b'" "(128 + x') mod 64 = x'" "(128 + y') mod 64 = y'"
    using lt by (simp_all add: mod_if [of "224 + b'" 16] mod_if)
  then have eq: "b' * 4096 + x' * 64 + y' = r" using assms(7) v by simp
  have "b' < 3" "b' > 1" using eq lt assms(8) by linarith+
  then have b': "b' = 2" by simp
  then have "x' < 1" using eq lt assms(8) by linarith
  moreover have "r mod 64 = r - 8192" using assms(8) by auto
  ultimately have "b' = 2 \<and> x' = 0 \<and> y' = r mod 64"
    using eq b' by simp
  then show ?thesis using v by simp
qed

lemma four_byte_large:
  fixes b x :: nat
  assumes "240 \<le> b" "b \<le> 244" "128 \<le> x" "x \<le> 191" "b = 240 \<longrightarrow> 144 \<le> x"
  shows "65536 \<le> (b mod 8) * 262144 + (x mod 64) * 4096 + k + l"
proof (cases "b = 240")
  case True
  then obtain x' where x: "x = 144 + x'" using assms(5) by (metis le_iff_add)
  then have "(144 + x') mod 64 = 16 + x'" using assms(4) by (simp add: mod_if)
  then show ?thesis using x by simp
next
  case False
  then have "b = 241 \<or> b = 242 \<or> b = 243 \<or> b = 244" using assms(1,2) by linarith
  then have "b mod 8 \<ge> 1" by auto
  then show ?thesis by simp
qed

lemma second_range_bounds:
  "second_range b = (lo, hi) \<Longrightarrow> byte_in lo hi c \<Longrightarrow>
   128 \<le> (of_char c :: nat) \<and> (of_char c :: nat) \<le> 191 \<and> (b = 240 \<longrightarrow> 144 \<le> (of_char c :: nat))"
  by (auto simp: second_range_def byte_in_def Let_def split: if_splits)

lemma seq_length_cases:
  "seq_length b = 1 \<Longrightarrow> b < 128" "seq_length b = 3 \<Longrightarrow> 224 \<le> b \<and> b \<le> 239"
  "seq_length b = 4 \<Longrightarrow> 240 \<le> b \<and> b \<le> 244" "b < 128 \<Longrightarrow> seq_length b = 1"
  by (auto simp: seq_length_def split: if_splits)

lemma two_byte_small: "x mod 32 * 64 + y mod 64 < (2048::nat)"
proof -
  have "x mod 32 < 32" "y mod 64 < 64" by simp_all
  then show ?thesis by linarith
qed

lemma decode_rune_separator:
  assumes "decode_rune s = (r, n)" and "r = 8232 \<or> r = 8233"
  shows "take n s = encode_rune r"
proof -
  obtain a u where s: "s = a # u" using assms by (cases s) (auto simp: rune_error_def)
  let ?b = "of_char a :: nat"
  obtain lo hi where lh: "second_range ?b = (lo, hi)" by fastforce
  have ne: "r \<noteq> rune_error" using assms(2) by (auto simp: rune_error_def)
  have no4: "65536 \<le> (?b mod 8) * 262144 + (of_char c mod 64) * 4096 + k + l"
    if "seq_length ?b = 4" "byte_in lo hi c" for c k l
    using four_byte_large seq_length_cases(3) [OF that(1)] second_range_bounds [OF lh that(2)]
    by blast
  have no2: "(?b mod 32) * 64 + of_char c mod 64 < 2048" for c :: char
    by (rule two_byte_small)
  consider (one) "seq_length ?b = 1" | (two) "seq_length ?b = 2" | (three) "seq_length ?b = 3"
    | (four) "seq_length ?b = 4" | (none) "seq_length ?b \<notin> {1, 2, 3, 4}" by auto
  then show ?thesis
  proof cases
    case one
    then have "r < 128" using assms(1) s seq_length_cases(1)
      by (simp add: decode_rune.simps(2) lh)
    then show ?thesis using assms(2) by auto
  next
    case two
    then have "\<exists>c. r = (?b mod 32) * 64 + of_char c mod 64" using assms(1) s ne
      by (auto simp: decode_rune.simps(2) lh split: list.splits if_splits)
    then show ?thesis using no2 assms(2) by fastforce
  next
    case three
    then obtain c1 c2 v where u: "u = c1 # c2 # v" and n: "n = 3" and c: "byte_in lo hi c1" "cont_byte c2"
      and r: "(?b mod 16) * 4096 + (of_char c1 mod 64) * 64 + of_char c2 mod 64 = r"
      using assms(1) s ne
      by (auto simp: decode_rune.simps(2) lh split: list.splits if_splits)
    have "128 \<le> (of_char c2 :: nat)" "(of_char c2 :: nat) \<le> 191"
      using c(2) by (simp_all add: cont_byte_def Let_def)
    with three_byte_separator [OF _ _ _ _ _ _ r assms(2)] seq_length_cases(2) [OF three]
      second_range_bounds [OF lh c(1)]
    have "?b = 226" "of_char c1 = (128::nat)" "of_char c2 = 128 + r mod 64" by auto
    then have "a = char_of (226::nat)" "c1 = char_of (128::nat)" "c2 = char_of (128 + r mod 64)"
      by (simp_all add: char_of_eq_iff [symmetric] flip: of_char_eq_iff [where 'a = nat])
    then show ?thesis using s u n assms(2) by (auto simp: encode_rune_def)
  next
    case four
    then obtain c k l where "byte_in lo hi c" "r = (?b mod 8) * 262144 + (of_char c mod 64) * 4096 + k + l"
      using assms(1) s ne
      by (auto simp: decode_rune.simps(2) lh split: list.splits if_splits)
    then show ?thesis using no4 [OF four, of c k l] assms(2) by auto
  next
    case none
    then show ?thesis using assms(1) s ne by (auto simp: decode_rune.simps(2) lh)
  qed
qed

lemma decode_rune_small:
  assumes "decode_rune s = (r, 1)" and "r < 128" and "s \<noteq> []"
  shows "of_char (hd s) = r" "take 1 s = [hd s]"
proof -
  obtain a u where s: "s = a # u" using assms by (cases s) auto
  show "of_char (hd s) = r"
    using assms s
    by (auto simp: decode_rune.simps(2) rune_error_def Let_def
        split: prod.splits list.splits if_splits)
  show "take 1 s = [hd s]" using s by simp
qed

lemma decode_rune_large:
  assumes "decode_rune (a # u) = (r, n)" and "\<not> (n = 1 \<and> r < 128)"
  shows "128 \<le> (of_char a :: nat)"
proof (rule ccontr)
  assume small: "\<not> 128 \<le> (of_char a :: nat)"
  then have "decode_rune (a # u) = (of_char a, 1)" by (simp add: decode_rune_ascii)
  then show False using assms small by simp
qed

definition coerce_rune :: "bytes \<Rightarrow> bytes" where
  "coerce_rune s =
     (let (r, n) = decode_rune s in if r = rune_error \<and> n = 1 then replacement_char else take n s)"

lemma coerce_utf8_step:
  "s \<noteq> [] \<Longrightarrow> coerce_utf8 s = coerce_rune s @ coerce_utf8 (drop (snd (decode_rune s)) s)"
  by (subst coerce_utf8.simps) (simp add: coerce_rune_def split: prod.splits)

lemma simple_escape_u [simp]: "simple_escape CHR ''u'' = None"
  by (auto simp: simple_escape_def quote_char_def backslash_def simp flip: of_char_eq_iff [where 'a = nat])

lemma scan_char_unicode:
  assumes "get_u4 (s @ t) = Some (r, t)" and "\<not> (55296 \<le> r \<and> r < 57344)"
  shows "scan_char (backslash # CHR ''u'' # s @ t) = Some (encode_rune r, t)"
  using assms by (auto simp: scan_char.simps(2) join_surrogate_def)

lemma hex_value_202 [simp]:
  "hex_value CHR ''2'' = Some 2" "hex_value CHR ''0'' = Some 0" "hex_value CHR ''f'' = Some 15"
  "hex_value CHR ''d'' = Some 13"
  by (simp_all add: hex_value_def)

lemma scan_char_esc_rune:
  assumes "s \<noteq> []"
  shows "scan_char (esc_rune s @ t) = Some (coerce_rune s, t)
    \<and> esc_rune s \<noteq> [] \<and> hd (esc_rune s) \<noteq> quote_char"
proof -
  obtain r n where rn: "decode_rune s = (r, n)" by (cases "decode_rune s")
  obtain a u where s: "s = a # u" using assms by (cases s) auto
  have n: "0 < n" using decode_rune_size_pos [OF assms] rn by simp
  consider (ascii) "n = 1 \<and> r < 128" | (bad) "r = rune_error \<and> n = 1"
    | (sep) "r = 8232 \<or> r = 8233"
    | (plain) "\<not> (n = 1 \<and> r < 128)" "\<not> (r = rune_error \<and> n = 1)" "\<not> (r = 8232 \<or> r = 8233)"
    by blast
  then show ?thesis
  proof cases
    case ascii
    then have "coerce_rune s = [hd s]" "of_char (hd s) < (128::nat)"
      using decode_rune_small [of s r] rn assms by (auto simp: coerce_rune_def rune_error_def)
    then show ?thesis
      using ascii rn scan_char_esc_ascii [of "hd s" t] esc_ascii_head [of "hd s"]
      by (auto simp: esc_rune_def)
  next
    case bad
    then have "esc_rune s = backslash # ''ufffd''" "coerce_rune s = replacement_char"
      using rn by (simp_all add: esc_rune_def coerce_rune_def rune_error_def)
    moreover have "encode_rune 65533 = replacement_char"
      by (simp add: encode_rune_def replacement_char_def)
    ultimately show ?thesis using scan_char_unicode [of "''fffd''" t 65533] by simp
  next
    case sep
    then have "esc_rune s = backslash # CHR ''u'' # ''202'' @ [hex_digit (r mod 16)]"
      using rn by (auto simp: esc_rune_def rune_error_def)
    moreover have "coerce_rune s = encode_rune r"
      using decode_rune_separator [OF rn sep] rn sep by (auto simp: coerce_rune_def rune_error_def)
    moreover have "get_u4 ((''202'' @ [hex_digit (r mod 16)]) @ t) = Some (r, t)" using sep by auto
    ultimately show ?thesis
      using scan_char_unicode [of "''202'' @ [hex_digit (r mod 16)]" t r] sep by auto
  next
    case plain
    then have e: "esc_rune s = take n s" and c: "coerce_rune s = take n s"
      using rn by (auto simp: esc_rune_def coerce_rune_def)
    have large: "128 \<le> (of_char a :: nat)" using decode_rune_large plain(1) rn s by auto
    then have ne: "a \<noteq> backslash" "a \<noteq> quote_char" by auto
    have loc: "decode_rune (take n s @ t) = (r, n)" by (rule decode_rune_local [OF rn plain(2) assms])
    obtain v where v: "take n s = a # v" using s n by (cases n) auto
    have "length (take n s) = n" using decode_rune_size [OF assms] rn by simp
    then show ?thesis
      using e c v loc ne large plain(2) by (auto simp: scan_char.simps(2))
  qed
qed

lemma scan_string_esc: "scan_string (esc_string s @ quote_char # t) = Some (coerce_utf8 s, t)"
proof (induction s rule: esc_string.induct)
  case (1 s)
  show ?case
  proof (cases "s = []")
    case True
    then show ?thesis by (simp add: esc_string.simps scan_string.simps)
  next
    case False
    let ?rest = "esc_string (drop (snd (decode_rune s)) s) @ quote_char # t"
    have e: "esc_string s @ quote_char # t = esc_rune s @ ?rest"
      using False by (subst esc_string.simps) simp
    obtain c u where cu: "esc_rune s @ ?rest = c # u" "c \<noteq> quote_char"
      using scan_char_esc_rune [OF False, of ?rest] by (cases "esc_rune s") auto
    show ?thesis
      using 1 [OF False] scan_char_esc_rune [OF False, of ?rest] cu coerce_utf8_step [OF False]
      unfolding e by (subst scan_string.simps) simp
  qed
qed

subsection \<open>Numbers\<close>

fun scan_sign :: "bytes \<Rightarrow> bytes \<times> bytes" where
  "scan_sign (c # s) = (if c = CHR ''-'' then ([c], s) else ([], c # s))"
| "scan_sign [] = ([], [])"

fun scan_whole :: "bytes \<Rightarrow> (bytes \<times> bytes) option" where
  "scan_whole (c # s) =
     (if c = CHR ''0'' then Some ([c], s)
      else if is_digit c then Some (c # takeWhile is_digit s, dropWhile is_digit s)
      else None)"
| "scan_whole [] = None"

definition scan_digits :: "bytes \<Rightarrow> (bytes \<times> bytes) option" where
  "scan_digits s =
     (if takeWhile is_digit s = [] then None else Some (takeWhile is_digit s, dropWhile is_digit s))"

fun scan_frac :: "bytes \<Rightarrow> (bytes \<times> bytes) option" where
  "scan_frac (c # s) =
     (if c = CHR ''.'' then map_option (\<lambda>(a, b). (c # a, b)) (scan_digits s)
      else Some ([], c # s))"
| "scan_frac [] = Some ([], [])"

fun scan_exp_sign :: "bytes \<Rightarrow> bytes \<times> bytes" where
  "scan_exp_sign (c # s) = (if c = CHR ''-'' \<or> c = CHR ''+'' then ([c], s) else ([], c # s))"
| "scan_exp_sign [] = ([], [])"

fun scan_exp :: "bytes \<Rightarrow> (bytes \<times> bytes) option" where
  "scan_exp (c # s) =
     (if c = CHR ''e'' \<or> c = CHR ''E'' then
        (let (g, u) = scan_exp_sign s in
         map_option (\<lambda>(a, b). (c # g @ a, b)) (scan_digits u))
      else Some ([], c # s))"
| "scan_exp [] = Some ([], [])"

definition scan_number :: "bytes \<Rightarrow> (bytes \<times> bytes) option" where
  "scan_number s =
     (let (g, s1) = scan_sign s in
      case scan_whole s1 of None \<Rightarrow> None
      | Some (w, s2) \<Rightarrow>
          (case scan_frac s2 of None \<Rightarrow> None
           | Some (fr, s3) \<Rightarrow>
               (case scan_exp s3 of None \<Rightarrow> None
                | Some (e, s4) \<Rightarrow> Some (g @ w @ fr @ e, s4))))"

definition valid_number :: "bytes \<Rightarrow> bool" where
  "valid_number s \<longleftrightarrow> (case scan_number s of Some (_, r) \<Rightarrow> r = [] | None \<Rightarrow> False)"

text \<open>What follows a value in a document: the end, or a separator.\<close>

definition delimited :: "bytes \<Rightarrow> bool" where
  "delimited t \<longleftrightarrow> t = [] \<or> hd t \<in> set '',]}''"

lemma delimited_span:
  assumes "delimited t"
  shows "takeWhile is_digit (s @ t) = takeWhile is_digit s"
    "dropWhile is_digit (s @ t) = dropWhile is_digit s @ t"
proof -
  have t: "takeWhile is_digit t = []" "dropWhile is_digit t = t"
    using assms by (cases t; auto simp: delimited_def is_digit_def)+
  show "takeWhile is_digit (s @ t) = takeWhile is_digit s"
    "dropWhile is_digit (s @ t) = dropWhile is_digit s @ t"
    using t by (induction s) auto
qed

lemma delimited_parts:
  assumes "delimited t"
  shows "scan_digits s = Some (a, r) \<Longrightarrow> scan_digits (s @ t) = Some (a, r @ t)"
    "scan_whole s = Some (a, r) \<Longrightarrow> scan_whole (s @ t) = Some (a, r @ t)"
  using delimited_span [OF assms]
  by (auto simp: scan_digits_def split: if_splits) (cases s; auto split: if_splits)

lemma delimited_exp_sign: "s \<noteq> [] \<Longrightarrow> scan_exp_sign s = (g, r) \<Longrightarrow> scan_exp_sign (s @ t) = (g, r @ t)"
  by (cases s) (auto split: if_splits)

lemma delimited_frac:
  assumes "delimited t" and "scan_frac s = Some (a, r)"
  shows "scan_frac (s @ t) = Some (a, r @ t)"
proof (cases s)
  case Nil
  then show ?thesis using assms by (cases t) (auto simp: delimited_def)
next
  case (Cons c u)
  then show ?thesis
    using assms delimited_parts(1) [OF assms(1), of u]
    by (auto split: if_splits)
qed

lemma delimited_exp:
  assumes "delimited t" and "scan_exp s = Some (a, r)"
  shows "scan_exp (s @ t) = Some (a, r @ t)"
proof (cases s)
  case Nil
  then show ?thesis using assms by (cases t) (auto simp: delimited_def)
next
  case (Cons c u)
  show ?thesis
  proof (cases "c = CHR ''e'' \<or> c = CHR ''E''")
    case True
    obtain g v where gv: "scan_exp_sign u = (g, v)" by fastforce
    then obtain d where d: "scan_digits v = Some (d, r)" "a = c # g @ d"
      using assms(2) Cons True by auto
    then have "v \<noteq> []" by (auto simp: scan_digits_def)
    then have "u \<noteq> []" using gv by auto
    then show ?thesis
      using delimited_exp_sign [OF _ gv, of t] delimited_parts(1) [OF assms(1) d(1)] Cons True d
      by auto
  qed (use assms(2) Cons in auto)
qed

lemma scan_number_delimited:
  assumes "valid_number s" and "delimited t"
  shows "\<exists>a. scan_number (s @ t) = Some (a, t) \<and> scan_number s = Some (a, [])"
proof -
  obtain a where "scan_number s = Some (a, [])"
    using assms(1) by (auto simp: valid_number_def split: option.splits)
  moreover obtain g s1 where g: "scan_sign s = (g, s1)" by fastforce
  ultimately obtain w s2 fr s3 e where p: "scan_whole s1 = Some (w, s2)"
    "scan_frac s2 = Some (fr, s3)" "scan_exp s3 = Some (e, [])" "a = g @ w @ fr @ e"
    by (auto simp: scan_number_def split: option.splits)
  have "s \<noteq> []" using p(1) g by auto
  then have "scan_sign (s @ t) = (g, s1 @ t)" using g by (cases s) (auto split: if_splits)
  then show ?thesis
    using delimited_parts(2) [OF assms(2) p(1)] delimited_frac [OF assms(2) p(2)]
      delimited_exp [OF assms(2) p(3)] p g
    by (simp add: scan_number_def)
qed

lemma scan_whole_concat: "scan_whole s = Some (a, r) \<Longrightarrow> s = a @ r"
  by (cases s) (auto split: if_splits)

lemma scan_digits_concat: "scan_digits s = Some (a, r) \<Longrightarrow> s = a @ r"
  by (auto simp: scan_digits_def split: if_splits)

lemma scan_number_concat: "scan_number s = Some (a, r) \<Longrightarrow> s = a @ r"
proof -
  have sg: "scan_sign s = (g, s1) \<Longrightarrow> s = g @ s1" for g s1 by (cases s) (auto split: if_splits)
  have eg: "scan_exp_sign s = (g, s1) \<Longrightarrow> s = g @ s1" for g s s1
    by (cases s) (auto split: if_splits)
  have fr: "scan_frac s = Some (g, s1) \<Longrightarrow> s = g @ s1" for g s s1
    by (cases s) (auto split: if_splits dest!: scan_digits_concat)
  have ex: "scan_exp s = Some (g, s1) \<Longrightarrow> s = g @ s1" for g s s1
    by (cases s) (auto split: if_splits prod.splits dest!: scan_digits_concat eg)
  assume "scan_number s = Some (a, r)"
  then show ?thesis
    by (auto simp: scan_number_def split: prod.splits option.splits
        dest!: sg scan_whole_concat fr ex)
qed

lemma scan_valid_number:
  "valid_number s \<Longrightarrow> delimited t \<Longrightarrow> scan_number (s @ t) = Some (s, t)"
  using scan_number_delimited scan_number_concat by fastforce

subsection \<open>Documents\<close>

fun commas :: "bytes list \<Rightarrow> bytes" where
  "commas [] = []"
| "commas [x] = x"
| "commas (x # y # r) = x @ '','' @ commas (y # r)"

fun json_print :: "json \<Rightarrow> bytes" where
  "json_print JNull = ''null''"
| "json_print (JBool b) = (if b then ''true'' else ''false'')"
| "json_print (JNum s) = s"
| "json_print (JStr s) = quote_string s"
| "json_print (JArr xs) = ''['' @ commas (map json_print xs) @ '']''"
| "json_print (JObj ms) =
     ''{'' @ commas (map (\<lambda>(k, v). quote_string k @ '':'' @ json_print v) ms) @ ''}''"

definition ws_byte :: "char \<Rightarrow> bool" where
  "ws_byte c \<longleftrightarrow> (let n = of_char c :: nat in n = 32 \<or> n = 9 \<or> n = 10 \<or> n = 13)"

definition skip_ws :: "bytes \<Rightarrow> bytes" where
  "skip_ws s = dropWhile ws_byte s"

definition keyword :: "bytes \<Rightarrow> json \<Rightarrow> bytes \<Rightarrow> (json \<times> bytes) option" where
  "keyword w j s = (if has_prefix s w then Some (j, drop (length w) s) else None)"

text \<open>
  The recursive descent of the decoder. The first argument is fuel, the second the
  nesting that is still allowed.
\<close>

fun parse_value :: "nat \<Rightarrow> nat \<Rightarrow> bytes \<Rightarrow> (json \<times> bytes) option"
  and parse_elems :: "nat \<Rightarrow> nat \<Rightarrow> bytes \<Rightarrow> (json list \<times> bytes) option"
  and parse_members :: "nat \<Rightarrow> nat \<Rightarrow> bytes \<Rightarrow> (members \<times> bytes) option" where
  "parse_value 0 d s = None"
| "parse_value (Suc f) d s =
     (case skip_ws s of
        [] \<Rightarrow> None
      | c # t \<Rightarrow>
          if c = CHR ''n'' then keyword ''null'' JNull (c # t)
          else if c = CHR ''t'' then keyword ''true'' (JBool True) (c # t)
          else if c = CHR ''f'' then keyword ''false'' (JBool False) (c # t)
          else if c = quote_char then map_option (map_prod JStr id) (scan_string t)
          else if c = CHR ''['' then
            (if d = 0 then None
             else case skip_ws t of
                 [] \<Rightarrow> None
               | e # u \<Rightarrow> if e = CHR '']'' then Some (JArr [], u)
                         else map_option (map_prod JArr id) (parse_elems f (d - 1) (e # u)))
          else if c = CHR ''{'' then
            (if d = 0 then None
             else case skip_ws t of
                 [] \<Rightarrow> None
               | e # u \<Rightarrow> if e = CHR ''}'' then Some (JObj [], u)
                         else map_option (map_prod JObj id) (parse_members f (d - 1) (e # u)))
          else map_option (map_prod JNum id) (scan_number (c # t)))"
| "parse_elems 0 d s = None"
| "parse_elems (Suc f) d s =
     (case parse_value f d s of
        None \<Rightarrow> None
      | Some (j, t) \<Rightarrow>
          (case skip_ws t of
             [] \<Rightarrow> None
           | c # u \<Rightarrow>
               if c = CHR '']'' then Some ([j], u)
               else if c = CHR '','' then map_option (map_prod (Cons j) id) (parse_elems f d u)
               else None))"
| "parse_members 0 d s = None"
| "parse_members (Suc f) d s =
     (case skip_ws s of
        [] \<Rightarrow> None
      | q # s1 \<Rightarrow>
          if q \<noteq> quote_char then None
          else (case scan_string s1 of
              None \<Rightarrow> None
            | Some (k, s2) \<Rightarrow>
                (case skip_ws s2 of
                   [] \<Rightarrow> None
                 | c # s3 \<Rightarrow>
                     if c \<noteq> CHR '':'' then None
                     else (case parse_value f d s3 of
                         None \<Rightarrow> None
                       | Some (j, t) \<Rightarrow>
                           (case skip_ws t of
                              [] \<Rightarrow> None
                            | e # u \<Rightarrow>
                                if e = CHR ''}'' then Some ([(k, j)], u)
                                else if e = CHR '','' then
                                  map_option (map_prod (Cons (k, j)) id) (parse_members f d u)
                                else None)))))"

text \<open>The decoder's nesting limit.\<close>

definition max_nesting :: nat where
  "max_nesting = 10000"

definition json_parse :: "bytes \<Rightarrow> json option" where
  "json_parse s =
     (case parse_value (2 * length s + 2) max_nesting s of
        Some (j, r) \<Rightarrow> if skip_ws r = [] then Some j else None
      | None \<Rightarrow> None)"

text \<open>
  \<open>Decoder.Decode\<close>: the first value of the input, whatever follows it.
\<close>

definition json_decode_first :: "bytes \<Rightarrow> json option" where
  "json_decode_first s = map_option fst (parse_value (2 * length s + 2) max_nesting s)"

subsection \<open>The round trip\<close>

text \<open>Trees that a decoder can produce: valid numbers and valid UTF-8 in strings.\<close>

fun wf_json :: "json \<Rightarrow> bool" where
  "wf_json (JNum s) \<longleftrightarrow> valid_number s"
| "wf_json (JStr s) \<longleftrightarrow> coerce_utf8 s = s"
| "wf_json (JArr xs) \<longleftrightarrow> list_all wf_json xs"
| "wf_json (JObj ms) \<longleftrightarrow> list_all (\<lambda>(k, v). coerce_utf8 k = k \<and> wf_json v) ms"
| "wf_json _ \<longleftrightarrow> True"

fun json_depth :: "json \<Rightarrow> nat" where
  "json_depth (JArr xs) = Suc (fold max (map json_depth xs) 0)"
| "json_depth (JObj ms) = Suc (fold max (map (\<lambda>(k, v). json_depth v) ms) 0)"
| "json_depth _ = 0"

fun json_fuel :: "json \<Rightarrow> nat" where
  "json_fuel (JArr xs) = Suc (sum_list (map (\<lambda>x. Suc (json_fuel x)) xs))"
| "json_fuel (JObj ms) = Suc (sum_list (map (\<lambda>(k, v). Suc (json_fuel v)) ms))"
| "json_fuel _ = 1"

definition reads :: "json \<Rightarrow> bool" where
  "reads j \<longleftrightarrow> (\<forall>f d t. json_fuel j \<le> f \<longrightarrow> json_depth j \<le> d \<longrightarrow> delimited t \<longrightarrow>
     parse_value f d (json_print j @ t) = Some (j, t))"

lemma fold_max_le: "fold max xs (a::nat) \<le> d \<longleftrightarrow> a \<le> d \<and> (\<forall>x\<in>set xs. x \<le> d)"
  by (induction xs arbitrary: a) auto

lemma skip_ws_simps [simp]:
  "skip_ws [] = []" "\<not> ws_byte c \<Longrightarrow> skip_ws (c # s) = c # s"
  by (simp_all add: skip_ws_def)

lemma ws_byte_punct [simp]:
  "\<not> ws_byte CHR '',''" "\<not> ws_byte CHR '']''" "\<not> ws_byte CHR ''}''" "\<not> ws_byte CHR '':''"
  "\<not> ws_byte CHR ''[''" "\<not> ws_byte CHR ''{''" "\<not> ws_byte CHR ''n''" "\<not> ws_byte CHR ''t''"
  "\<not> ws_byte CHR ''f''" "\<not> ws_byte quote_char"
  by (simp_all add: ws_byte_def)

lemma quote_char_neq [simp]:
  "quote_char \<noteq> CHR ''n''" "quote_char \<noteq> CHR ''t''" "quote_char \<noteq> CHR ''f''"
  "quote_char \<noteq> CHR ''[''" "quote_char \<noteq> CHR ''{''" "quote_char \<noteq> CHR '']''" "quote_char \<noteq> CHR ''}''"
  "CHR '']'' \<noteq> quote_char" "CHR ''}'' \<noteq> quote_char" "CHR ''['' \<noteq> quote_char" "CHR ''{'' \<noteq> quote_char"
  "quote_char \<noteq> CHR ''-''" "\<not> is_digit quote_char"
  by (simp_all add: quote_char_def is_digit_def flip: of_char_eq_iff [where 'a = nat])

lemma delimited_Cons [simp]:
  "delimited (CHR '','' # t)" "delimited (CHR '']'' # t)" "delimited (CHR ''}'' # t)" "delimited []"
  by (simp_all add: delimited_def)

text \<open>The first byte of a printed value is never white space nor a closing bracket.\<close>

lemma valid_number_head:
  assumes "valid_number s"
  shows "\<exists>c u. s = c # u \<and> (c = CHR ''-'' \<or> is_digit c)"
proof -
  obtain a where "scan_number s = Some (a, [])"
    using assms by (auto simp: valid_number_def split: option.splits)
  then obtain g s1 w s2 where p: "scan_sign s = (g, s1)" "scan_whole s1 = Some (w, s2)"
    by (auto simp: scan_number_def split: prod.splits option.splits)
  then obtain c u where s: "s = c # u" by (cases s) auto
  show ?thesis
  proof (cases "c = CHR ''-''")
    case False
    then have "s1 = c # u" using p(1) s by simp
    then have "c = CHR ''0'' \<or> is_digit c" using p(2) by (auto split: if_splits)
    then show ?thesis using s by (auto simp: is_digit_def)
  qed (use s in simp)
qed

lemma print_head:
  assumes "wf_json j"
  shows "\<exists>c u. json_print j = c # u \<and> \<not> ws_byte c \<and> c \<noteq> CHR '']'' \<and> c \<noteq> CHR ''}''"
proof (cases j)
  case (JNum s)
  then obtain c u where "s = c # u" "c = CHR ''-'' \<or> is_digit c"
    using valid_number_head [of s] assms by auto
  then show ?thesis using JNum by (auto simp: ws_byte_def is_digit_def Let_def)
qed (auto simp: quote_string_def)

lemma keyword_append: "keyword w j (w @ t) = Some (j, t)"
  by (simp add: keyword_def)

lemma reads_atom: "reads JNull" "reads (JBool b)"
  using keyword_append [of "''null''" JNull] keyword_append [of "''true''" "JBool True"]
    keyword_append [of "''false''" "JBool False"]
  unfolding reads_def by (auto simp: Suc_le_eq gr0_conv_Suc)

lemma reads_string:
  assumes "coerce_utf8 s = s"
  shows "reads (JStr s)"
  using scan_string_esc [of s] assms
  unfolding reads_def by (auto simp: Suc_le_eq gr0_conv_Suc quote_string_def)

lemma reads_number:
  assumes "valid_number s"
  shows "reads (JNum s)"
proof -
  obtain c u where s: "s = c # u" "c = CHR ''-'' \<or> is_digit c"
    using valid_number_head [of s] assms by auto
  then have c: "\<not> ws_byte c" "c \<noteq> CHR ''n''" "c \<noteq> CHR ''t''" "c \<noteq> CHR ''f''" "c \<noteq> quote_char"
    "c \<noteq> CHR ''[''" "c \<noteq> CHR ''{''"
    by (auto simp: ws_byte_def is_digit_def Let_def)
  then show ?thesis
    using scan_valid_number [OF assms] s(1)
    unfolding reads_def by (auto simp: Suc_le_eq gr0_conv_Suc)
qed

lemma parse_value_ws:
  "parse_value f d (c # s) = Some r \<Longrightarrow> \<not> ws_byte c \<Longrightarrow> skip_ws (c # s) = c # s"
  by simp

lemma parse_elems_print:
  assumes "xs \<noteq> []" and "\<forall>x\<in>set xs. reads x \<and> json_depth x \<le> d"
    and "sum_list (map (\<lambda>x. Suc (json_fuel x)) xs) \<le> f"
  shows "parse_elems f d (commas (map json_print xs) @ CHR '']'' # t) = Some (xs, t)"
  using assms
proof (induction xs arbitrary: f)
  case (Cons x xs)
  obtain g where f: "f = Suc g" using Cons.prems(3) by (cases f) auto
  have fx: "json_fuel x \<le> g" using Cons.prems(3) f by simp
  have rx: "parse_value g d (json_print x @ u) = Some (x, u)" if "delimited u" for u
    using Cons.prems(2) fx that by (simp add: reads_def)
  show ?case
  proof (cases xs)
    case Nil
    then show ?thesis using rx f by simp
  next
    case (Cons y ys)
    have "sum_list (map (\<lambda>x. Suc (json_fuel x)) xs) \<le> g"
      using Cons.prems(3) f by simp
    then have IH: "parse_elems g d (commas (map json_print xs) @ CHR '']'' # t) = Some (xs, t)"
      using Cons.IH Cons.prems(2) Cons by simp
    have "commas (map json_print (x # xs)) @ CHR '']'' # t
        = json_print x @ CHR '','' # commas (map json_print xs) @ CHR '']'' # t"
      using Cons by simp
    then show ?thesis using rx f IH by (simp add: list.case_eq_if)
  qed
qed simp

lemma parse_members_print:
  assumes "ms \<noteq> []" and "\<forall>x\<in>set ms. coerce_utf8 (fst x) = fst x \<and> reads (snd x) \<and> json_depth (snd x) \<le> d"
    and "sum_list (map (\<lambda>(k, v). Suc (json_fuel v)) ms) \<le> f"
  shows "parse_members f d
    (commas (map (\<lambda>(k, v). quote_string k @ '':'' @ json_print v) ms) @ CHR ''}'' # t) = Some (ms, t)"
  using assms
proof (induction ms arbitrary: f)
  case (Cons x ms)
  obtain k v where x: "x = (k, v)" by (cases x)
  obtain g where f: "f = Suc g" using Cons.prems(3) x by (cases f) auto
  have fx: "json_fuel v \<le> g" using Cons.prems(3) f x by simp
  have rx: "parse_value g d (json_print v @ u) = Some (v, u)" if "delimited u" for u
    using Cons.prems(2) fx that x by (simp add: reads_def)
  have sx: "scan_string (esc_string k @ quote_char # u) = Some (k, u)" for u
    using scan_string_esc [of k u] Cons.prems(2) x by simp
  show ?case
  proof (cases ms)
    case Nil
    then show ?thesis using rx sx f x by (simp add: quote_string_def)
  next
    case (Cons y ys)
    let ?body = "commas (map (\<lambda>(k, v). quote_string k @ '':'' @ json_print v) ms) @ CHR ''}'' # t"
    have "sum_list (map (\<lambda>(k, v). Suc (json_fuel v)) ms) \<le> g"
      using Cons.prems(3) f x by simp
    then have IH: "parse_members g d ?body = Some (ms, t)"
      using Cons.IH Cons.prems(2) Cons by simp
    have "commas (map (\<lambda>(k, v). quote_string k @ '':'' @ json_print v) (x # ms)) @ CHR ''}'' # t
        = quote_char # esc_string k @ quote_char # CHR '':'' # json_print v @ CHR '','' # ?body"
      using Cons x by (simp add: quote_string_def)
    then show ?thesis using rx sx f IH x by simp
  qed
qed simp

lemma commas_head:
  assumes "xs \<noteq> []" and "hd xs = c # u"
  shows "\<exists>v. commas xs = c # v"
  using assms by (cases xs rule: commas.cases) auto

lemma reads_array:
  assumes "\<forall>x\<in>set xs. reads x \<and> wf_json x"
  shows "reads (JArr xs)"
  unfolding reads_def
proof (intro allI impI)
  fix f d t
  assume fd: "json_fuel (JArr xs) \<le> f" "json_depth (JArr xs) \<le> d"
  obtain g where f: "f = Suc g" using fd(1) by (cases f) auto
  obtain e where d: "d = Suc e" using fd(2) by (cases d) auto
  show "parse_value f d (json_print (JArr xs) @ t) = Some (JArr xs, t)"
  proof (cases "xs = []")
    case True
    then show ?thesis using f d by simp
  next
    case False
    have deep: "\<forall>x\<in>set xs. reads x \<and> json_depth x \<le> e"
      using fd(2) d assms by (simp add: fold_max_le)
    obtain c u where hd: "json_print (hd xs) = c # u" "\<not> ws_byte c" "c \<noteq> CHR '']''"
      using print_head [of "hd xs"] assms False by auto
    then obtain v where v: "commas (map json_print xs) = c # v"
      using commas_head [of "map json_print xs" c u] False by (auto simp: hd_map)
    have "parse_elems g e (commas (map json_print xs) @ CHR '']'' # t) = Some (xs, t)"
      using parse_elems_print [OF False deep] fd(1) f by simp
    then show ?thesis using f d v hd by simp
  qed
qed

lemma reads_object:
  assumes "\<forall>x\<in>set ms. coerce_utf8 (fst x) = fst x \<and> reads (snd x)"
  shows "reads (JObj ms)"
  unfolding reads_def
proof (intro allI impI)
  fix f d t
  assume fd: "json_fuel (JObj ms) \<le> f" "json_depth (JObj ms) \<le> d"
  obtain g where f: "f = Suc g" using fd(1) by (cases f) auto
  obtain e where d: "d = Suc e" using fd(2) by (cases d) auto
  show "parse_value f d (json_print (JObj ms) @ t) = Some (JObj ms, t)"
  proof (cases "ms = []")
    case True
    then show ?thesis using f d by simp
  next
    case False
    let ?body = "map (\<lambda>(k, v). quote_string k @ '':'' @ json_print v) ms"
    have deep: "\<forall>x\<in>set ms. coerce_utf8 (fst x) = fst x \<and> reads (snd x) \<and> json_depth (snd x) \<le> e"
      using fd(2) d assms by (auto simp: fold_max_le)
    have "\<exists>u. hd ?body = quote_char # u" using False by (cases ms) (auto simp: quote_string_def)
    then obtain v where v: "commas ?body = quote_char # v"
      using commas_head [of ?body quote_char] False by auto
    have "parse_members g e (commas ?body @ CHR ''}'' # t) = Some (ms, t)"
      using parse_members_print [OF False deep] fd(1) f by simp
    then show ?thesis using f d v by simp
  qed
qed

lemma wf_reads: "wf_json j \<Longrightarrow> reads j"
proof (induction j)
  case (JArr xs)
  then show ?case by (intro reads_array) (auto simp: list_all_iff)
next
  case (JObj ms)
  show ?case
  proof (intro reads_object ballI)
    fix x assume "x \<in> set ms"
    moreover obtain k v where "x = (k, v)" by (cases x)
    ultimately show "coerce_utf8 (fst x) = fst x \<and> reads (snd x)"
      using JObj by (fastforce simp: list_all_iff)
  qed
qed (auto intro: reads_atom reads_string reads_number)

lemma length_commas:
  "xs \<noteq> [] \<Longrightarrow> Suc (length (commas xs)) = sum_list (map (\<lambda>x. Suc (length x)) xs)"
  by (induction xs rule: commas.induct) auto

lemma json_fuel_length:
  assumes "wf_json j"
  shows "json_fuel j \<le> length (json_print j)"
  using assms
proof (induction j)
  case (JNum s)
  then show ?case using valid_number_head [of s] by auto
next
  case (JArr xs)
  show ?case
  proof (cases "xs = []")
    case False
    have "sum_list (map (\<lambda>x. Suc (json_fuel x)) xs)
      \<le> sum_list (map (\<lambda>x. Suc (length (json_print x))) xs)"
      using JArr by (intro sum_list_mono) (auto simp: list_all_iff)
    also have "\<dots> = Suc (length (commas (map json_print xs)))"
      using length_commas [of "map json_print xs"] False by (simp add: comp_def)
    finally show ?thesis by simp
  qed simp
next
  case (JObj ms)
  let ?p = "\<lambda>(k, v). quote_string k @ '':'' @ json_print v"
  show ?case
  proof (cases "ms = []")
    case False
    have "sum_list (map (\<lambda>(k, v). Suc (json_fuel v)) ms) \<le> sum_list (map (\<lambda>x. Suc (length (?p x))) ms)"
    proof (intro sum_list_mono)
      fix x assume x: "x \<in> set ms"
      obtain k v where "x = (k, v)" by (cases x)
      then show "(case x of (k, v) \<Rightarrow> Suc (json_fuel v)) \<le> Suc (length (?p x))"
        using JObj.IH [of x v] JObj.prems x by (auto simp: list_all_iff)
    qed
    also have "\<dots> = Suc (length (commas (map ?p ms)))"
      using length_commas [of "map ?p ms"] False by (simp add: comp_def)
    finally show ?thesis by simp
  qed simp
qed (auto simp: quote_string_def)

declare parse_value.simps [simp del] parse_elems.simps [simp del] parse_members.simps [simp del]

lemma readsD:
  "reads j \<Longrightarrow> json_fuel j \<le> f \<Longrightarrow> json_depth j \<le> d \<Longrightarrow> delimited t \<Longrightarrow>
   parse_value f d (json_print j @ t) = Some (j, t)"
  by (simp add: reads_def)

lemma json_roundtrip:
  assumes "wf_json j" and "json_depth j \<le> max_nesting"
  shows "json_parse (json_print j) = Some j"
proof -
  let ?s = "json_print j"
  have len: "json_fuel j \<le> 2 * length ?s + 2"
    by (rule order_trans [OF json_fuel_length [OF assms(1)]]) simp
  have "parse_value (2 * length ?s + 2) max_nesting (?s @ []) = Some (j, [])"
    by (rule readsD [OF wf_reads [OF assms(1)] len assms(2) delimited_Cons(4)])
  then have "parse_value (2 * length ?s + 2) max_nesting ?s = Some (j, [])"
    by (simp only: append_Nil2)
  then show ?thesis unfolding json_parse_def
    by (simp only: option.case prod.case skip_ws_simps(1) if_True refl)
qed

lemma decode_first_roundtrip:
  assumes "wf_json j" and "json_depth j \<le> max_nesting"
  shows "json_decode_first (json_print j) = Some j"
  using json_roundtrip [OF assms]
  by (auto simp only: json_decode_first_def json_parse_def option.map fst_conv option.inject
      split: option.splits prod.splits if_splits)

lemma json_print_inj:
  assumes "json_print i = json_print j" and "wf_json i" and "wf_json j"
    and "json_depth i \<le> max_nesting" and "json_depth j \<le> max_nesting"
  shows "i = j"
proof -
  have "Some i = json_parse (json_print i)" by (rule json_roundtrip [OF assms(2,4), symmetric])
  also have "\<dots> = Some j" unfolding assms(1) by (rule json_roundtrip [OF assms(3,5)])
  finally show ?thesis by (rule option.inject [THEN iffD1])
qed

subsection \<open>A printed document is one line\<close>

text \<open>No control byte, in particular no newline, appears in a printed document.\<close>

definition visible :: "bytes \<Rightarrow> bool" where
  "visible s \<longleftrightarrow> (\<forall>c\<in>set s. 32 \<le> (of_char c :: nat))"

lemma visible_append [simp]: "visible (s @ t) \<longleftrightarrow> visible s \<and> visible t"
  by (auto simp: visible_def)

lemma visible_Cons [simp]: "visible (c # s) \<longleftrightarrow> 32 \<le> (of_char c :: nat) \<and> visible s"
  by (simp add: visible_def)

lemma visible_Nil [simp]: "visible []"
  by (simp add: visible_def)

lemma visible_digits: "list_all is_digit s \<Longrightarrow> visible s"
  by (auto simp: visible_def list_all_iff is_digit_def Let_def)

lemma visible_hex_digit: "k < 16 \<Longrightarrow> 32 \<le> (of_char (hex_digit k) :: nat)"
  using hex_digit_range [of k] by simp

lemma visible_esc_ascii:
  assumes "of_char c < (128::nat)"
  shows "visible (esc_ascii c)"
proof -
  have "(of_char c :: nat) div 16 < 16" "(of_char c :: nat) mod 16 < 16" using assms by simp_all
  then show ?thesis using visible_hex_digit
    by (auto simp: esc_ascii_def Let_def)
qed

lemma decode_rune_bytes_large:
  assumes "decode_rune (a # u) = (r, n)" and "\<not> (n = 1 \<and> r < 128)" and "\<not> (r = rune_error \<and> n = 1)"
  shows "\<forall>c\<in>set (take n (a # u)). 128 \<le> (of_char c :: nat)"
proof -
  have large: "128 \<le> (of_char a :: nat)" by (rule decode_rune_large [OF assms(1,2)])
  obtain lo hi where lh: "second_range (of_char a) = (lo, hi)" by fastforce
  have lohi: "byte_in lo hi c \<Longrightarrow> 128 \<le> (of_char c :: nat)" for c
    using second_range_bounds [OF lh] by blast
  have cont: "cont_byte c \<Longrightarrow> 128 \<le> (of_char c :: nat)" for c
    by (simp add: cont_byte_def Let_def)
  have "seq_length (of_char a) \<noteq> 1" using seq_length_cases(1) large by fastforce
  then show ?thesis
    using assms large
    by (auto simp: decode_rune.simps(2) Let_def lh lohi cont split: list.splits if_splits)
qed

lemma visible_esc_rune: "s \<noteq> [] \<Longrightarrow> visible (esc_rune s)"
proof -
  assume ne: "s \<noteq> []"
  obtain a u where s: "s = a # u" using ne by (cases s) auto
  obtain r n where rn: "decode_rune s = (r, n)" by (cases "decode_rune s")
  consider "n = 1 \<and> r < 128" | "r = rune_error \<and> n = 1" | "r = 8232 \<or> r = 8233"
    | "\<not> (n = 1 \<and> r < 128)" "\<not> (r = rune_error \<and> n = 1)" "\<not> (r = 8232 \<or> r = 8233)" by blast
  then show ?thesis
  proof cases
    case 1
    then show ?thesis
      using rn decode_rune_small [of s r] ne visible_esc_ascii [of "hd s"] by (simp add: esc_rune_def)
  next
    case 2
    then show ?thesis using rn by (simp add: esc_rune_def rune_error_def)
  next
    case 3
    then have "esc_rune s = [backslash] @ ''u202'' @ [hex_digit (r mod 16)]"
      using rn by (auto simp: esc_rune_def rune_error_def)
    then show ?thesis using visible_hex_digit [of "r mod 16"] by simp
  next
    case 4
    then have "esc_rune s = take n s" using rn by (auto simp: esc_rune_def)
    moreover have "\<forall>c\<in>set (take n s). 128 \<le> (of_char c :: nat)"
      using decode_rune_bytes_large [of a u r n] rn 4 s by blast
    ultimately show ?thesis unfolding visible_def by fastforce
  qed
qed

lemma visible_esc_string: "visible (esc_string s)"
proof (induction s rule: esc_string.induct)
  case (1 s)
  show ?case
  proof (cases "s = []")
    case True
    then show ?thesis by (simp add: esc_string.simps)
  next
    case False
    then show ?thesis using 1 [OF False] visible_esc_rune [OF False] by (subst esc_string.simps) simp
  qed
qed

lemma visible_quote: "visible (quote_string s)"
  by (simp add: quote_string_def visible_esc_string)

lemma visible_number:
  assumes "valid_number s"
  shows "visible s"
proof -
  have tk: "visible (takeWhile is_digit u)" for u
    by (rule visible_digits) (auto simp: list_all_iff dest: set_takeWhileD)
  have dg: "scan_digits u = Some (a, b) \<Longrightarrow> visible a" for u a b
    using tk by (auto simp: scan_digits_def split: if_splits)
  have wh: "scan_whole u = Some (a, b) \<Longrightarrow> visible a" for u a b
    using tk by (cases u) (auto simp: is_digit_def Let_def split: if_splits)
  have sg: "scan_sign u = (a, b) \<Longrightarrow> visible a" for u a b
    by (cases u) (auto split: if_splits)
  have eg: "scan_exp_sign u = (a, b) \<Longrightarrow> visible a" for u a b
    by (cases u) (auto split: if_splits)
  have fr: "scan_frac u = Some (a, b) \<Longrightarrow> visible a" for u a b
    by (cases u) (auto split: if_splits dest: dg)
  have ex: "scan_exp u = Some (a, b) \<Longrightarrow> visible a" for u a b
    by (cases u) (auto split: if_splits prod.splits dest: dg eg)
  obtain a where a: "scan_number s = Some (a, [])"
    using assms by (auto simp: valid_number_def split: option.splits)
  then have "visible a"
    by (auto simp: scan_number_def split: prod.splits option.splits dest: sg wh fr ex)
  then show ?thesis using scan_number_concat [OF a] by simp
qed

lemma visible_commas: "\<forall>x\<in>set xs. visible x \<Longrightarrow> visible (commas xs)"
  by (induction xs rule: commas.induct) auto

text \<open>It is enough that the number literals are valid.\<close>

fun numbers_ok :: "json \<Rightarrow> bool" where
  "numbers_ok (JNum s) \<longleftrightarrow> valid_number s"
| "numbers_ok (JArr xs) \<longleftrightarrow> list_all numbers_ok xs"
| "numbers_ok (JObj ms) \<longleftrightarrow> list_all (\<lambda>(k, v). numbers_ok v) ms"
| "numbers_ok _ \<longleftrightarrow> True"

lemma visible_print: "numbers_ok j \<Longrightarrow> visible (json_print j)"
proof (induction j)
  case (JObj ms)
  have "visible (case x of (k, v) \<Rightarrow> quote_string k @ '':'' @ json_print v)" if "x \<in> set ms" for x
  proof -
    obtain k v where x: "x = (k, v)" by (cases x)
    then have "visible (json_print v)" using JObj that by (fastforce simp: list_all_iff)
    then show ?thesis by (simp add: x visible_quote)
  qed
  then have "visible (commas (map (\<lambda>(k, v). quote_string k @ '':'' @ json_print v) ms))"
    by (intro visible_commas) auto
  then show ?case by simp
next
  case (JArr xs)
  then have "visible (commas (map json_print xs))"
    by (intro visible_commas) (auto simp: list_all_iff)
  then show ?case by simp
qed (auto simp: visible_quote visible_number)

end
