(* ===== verification/Extract.thy ===== *)
theory Extract
  imports JsonText
begin

text \<open>
  \<^verbatim>\<open>internal/extract/extract.go\<close>: the references lifted from the arguments of known
  tools into the audit trail.
\<close>

record references =
  nock_id :: int
  pr_ref :: bytes
  review_id :: bytes

definition no_references :: references where
  "no_references = \<lparr>nock_id = 0, pr_ref = [], review_id = []\<rparr>"

text \<open>\<open>strconv.Atoi\<close>: an optional sign and decimal digits, in the range of \<open>int\<close>.\<close>

fun atoi :: "bytes \<Rightarrow> int option" where
  "atoi [] = None"
| "atoi (c # t) =
     (if c = CHR ''+'' then
        (if t \<noteq> [] \<and> list_all is_digit t \<and> digits_value t < 2 ^ 63
         then Some (int (digits_value t)) else None)
      else parse_int64 (c # t))"

text \<open>A number is tried first, then a string; anything that is not positive gives nothing.\<close>

definition extract_nock_tool_id :: "members \<Rightarrow> references" where
  "extract_nock_tool_id arguments =
     (case map_of arguments ''id'' of
        None \<Rightarrow> no_references
      | Some raw \<Rightarrow>
          (case as_int raw of
             Some n \<Rightarrow> if n > 0 then no_references\<lparr>nock_id := n\<rparr> else no_references
           | None \<Rightarrow>
               (case as_string raw of
                  Some s \<Rightarrow>
                    (case atoi s of
                       Some n \<Rightarrow> if n > 0 then no_references\<lparr>nock_id := n\<rparr> else no_references
                     | None \<Rightarrow> no_references)
                | None \<Rightarrow> no_references)))"

definition nock_tools :: "bytes list" where
  "nock_tools = [''nockcc_nock_claim'', ''nockcc_nock_update'', ''nockcc_nock_get'',
     ''nockcc_nock_release'']"

definition from_tool_call :: "bytes \<Rightarrow> bytes \<Rightarrow> references" where
  "from_tool_call tool params =
     (if params = [] then no_references
      else case Option.bind (json_parse params) raw_map of
          None \<Rightarrow> no_references
        | Some obj \<Rightarrow>
            (case map_of obj ''arguments'' of
               None \<Rightarrow> no_references
             | Some args \<Rightarrow>
                 (case raw_map args of
                    None \<Rightarrow> no_references
                  | Some arguments \<Rightarrow>
                      if tool \<in> set nock_tools then extract_nock_tool_id arguments
                      else no_references)))"

lemma extract_nock_tool_id_cases:
  "extract_nock_tool_id args = no_references \<or>
   (\<exists>n>0. extract_nock_tool_id args = no_references\<lparr>nock_id := n\<rparr> \<and> n < 2 ^ 63)"
proof -
  have bound: "parse_int64 s = Some n \<Longrightarrow> n < 2 ^ 63" for s n
    by (auto simp: parse_int64_def split: list.splits if_splits)
  have "as_int j = Some n \<Longrightarrow> n < 2 ^ 63" for j n
    by (cases j) (auto dest: bound)
  moreover have "atoi s = Some n \<Longrightarrow> n < 2 ^ 63" for s n
    by (cases s) (auto dest: bound split: if_splits)
  ultimately show ?thesis
    by (fastforce simp: extract_nock_tool_id_def split: option.splits)
qed

text \<open>An id sent as a number and as the string of its digits give the same reference.\<close>

lemma extract_number_or_string:
  assumes "0 < n" and "n < 2 ^ 63"
  shows "extract_nock_tool_id [(''id'', JNum (show_nat n))] = no_references\<lparr>nock_id := int n\<rparr>"
    "extract_nock_tool_id [(''id'', JStr (show_nat n))] = no_references\<lparr>nock_id := int n\<rparr>"
proof -
  have p: "parse_int64 (show_nat n) = Some (int n)"
    using parse_show_int [of "int n"] assms by (simp add: show_int_def)
  obtain c t where ct: "show_nat n = c # t" by (cases "show_nat n") auto
  have "is_digit c" using show_nat_digits [of n] ct by simp
  then have "c \<noteq> CHR ''+''" by (auto simp: is_digit_def)
  then have "atoi (show_nat n) = Some (int n)" using p ct by simp
  with p show "extract_nock_tool_id [(''id'', JNum (show_nat n))] = no_references\<lparr>nock_id := int n\<rparr>"
    "extract_nock_tool_id [(''id'', JStr (show_nat n))] = no_references\<lparr>nock_id := int n\<rparr>"
    using assms by (simp_all add: extract_nock_tool_id_def)
qed

end
