(* ===== verification/AuditEvent.thy ===== *)
theory AuditEvent
  imports JsonText
begin

text \<open>
  The rows of the audit trail, \<^verbatim>\<open>internal/audit/audit.go\<close>: the \<open>Event\<close>
  struct, its JSON encoding and decoding, and the envelope and schema checks that the verifier and
  the writer apply to a row. The central fact is the round trip: the event that a written line
  decodes to is the event that was written, so its canonical bytes are the signed ones.
\<close>

subsection \<open>Events\<close>

record event =
  ev_time :: bytes
  ev_agent :: bytes
  ev_tool :: bytes
  ev_decision :: bytes
  ev_reason :: bytes
  approval_actor :: bytes
  ev_nock_id :: int
  ev_pr :: bytes
  ev_review_id :: bytes
  parent_audit_seq :: int
  session_id :: bytes
  key_id :: bytes
  schema_version :: int
  record_type :: bytes
  run_id :: bytes
  run_seq :: u64
  run_event :: bytes
  run_count :: u64
  run_head :: bytes
  action_id :: bytes
  observation :: bytes
  cause :: bytes
  response_class :: bytes
  mcp_is_error :: "bool option"
  tool_hash_version :: bytes
  tool_definition_hash :: bytes
  tool_pin_hash :: bytes
  tool_pin_status :: bytes
  ev_sig :: bytes

text \<open>The fields, in the order of the struct, with their JSON names.\<close>

datatype field =
    FTs
  | FAgent
  | FTool
  | FDecision
  | FReason
  | FApprovalActor
  | FNockId
  | FPr
  | FReviewId
  | FParentAuditSeq
  | FSessionId
  | FKeyId
  | FSchemaVersion
  | FRecordType
  | FRunId
  | FRunSeq
  | FRunEvent
  | FRunCount
  | FRunHead
  | FActionId
  | FObservation
  | FCause
  | FResponseClass
  | FMcpIsError
  | FToolHashVersion
  | FToolDefinitionHash
  | FToolPinHash
  | FToolPinStatus
  | FSig

fun field_name :: "field \<Rightarrow> bytes" where
  "field_name FTs = ''ts''"
| "field_name FAgent = ''agent''"
| "field_name FTool = ''tool''"
| "field_name FDecision = ''decision''"
| "field_name FReason = ''reason''"
| "field_name FApprovalActor = ''approval_actor''"
| "field_name FNockId = ''nock_id''"
| "field_name FPr = ''pr''"
| "field_name FReviewId = ''review_id''"
| "field_name FParentAuditSeq = ''parent_audit_seq''"
| "field_name FSessionId = ''session_id''"
| "field_name FKeyId = ''key_id''"
| "field_name FSchemaVersion = ''schema_version''"
| "field_name FRecordType = ''record_type''"
| "field_name FRunId = ''run_id''"
| "field_name FRunSeq = ''run_seq''"
| "field_name FRunEvent = ''run_event''"
| "field_name FRunCount = ''run_count''"
| "field_name FRunHead = ''run_head''"
| "field_name FActionId = ''action_id''"
| "field_name FObservation = ''observation''"
| "field_name FCause = ''cause''"
| "field_name FResponseClass = ''response_class''"
| "field_name FMcpIsError = ''mcp_is_error''"
| "field_name FToolHashVersion = ''tool_hash_version''"
| "field_name FToolDefinitionHash = ''tool_definition_hash''"
| "field_name FToolPinHash = ''tool_pin_hash''"
| "field_name FToolPinStatus = ''tool_pin_status''"
| "field_name FSig = ''sig''"

definition all_fields :: "field list" where
  "all_fields =
     [FTs, FAgent, FTool, FDecision, FReason, FApprovalActor, FNockId, FPr,
      FReviewId, FParentAuditSeq, FSessionId, FKeyId, FSchemaVersion, FRecordType,
      FRunId, FRunSeq, FRunEvent, FRunCount, FRunHead, FActionId, FObservation,
      FCause, FResponseClass, FMcpIsError, FToolHashVersion, FToolDefinitionHash,
      FToolPinHash, FToolPinStatus, FSig]"

definition zero_event :: event where
  "zero_event =
     \<lparr>ev_time = [], ev_agent = [], ev_tool = [], ev_decision = [], ev_reason = [],
      approval_actor = [], ev_nock_id = 0, ev_pr = [], ev_review_id = [],
      parent_audit_seq = 0, session_id = [], key_id = [], schema_version = 0,
      record_type = [], run_id = [], run_seq = 0, run_event = [], run_count = 0,
      run_head = [], action_id = [], observation = [], cause = [],
      response_class = [], mcp_is_error = None, tool_hash_version = [],
      tool_definition_hash = [], tool_pin_hash = [], tool_pin_status = [],
      ev_sig = []\<rparr>"

text \<open>
  \<open>Marshal\<close>: the value of a field, \<^const>\<open>None\<close> when \<open>omitempty\<close> drops it.
\<close>

definition str_value :: "bytes \<Rightarrow> json option" where
  "str_value s = (if s = [] then None else Some (JStr s))"

definition int_value :: "int \<Rightarrow> json option" where
  "int_value i = (if i = 0 then None else Some (JNum (show_int i)))"

definition uint_value :: "u64 \<Rightarrow> json option" where
  "uint_value w = (if w = 0 then None else Some (JNum (show_nat (unat w))))"

fun field_value :: "field \<Rightarrow> event \<Rightarrow> json option" where
  "field_value FTs ev = Some (JStr (ev_time ev))"
| "field_value FAgent ev = Some (JStr (ev_agent ev))"
| "field_value FTool ev = Some (JStr (ev_tool ev))"
| "field_value FDecision ev = Some (JStr (ev_decision ev))"
| "field_value FReason ev = str_value (ev_reason ev)"
| "field_value FApprovalActor ev = str_value (approval_actor ev)"
| "field_value FNockId ev = int_value (ev_nock_id ev)"
| "field_value FPr ev = str_value (ev_pr ev)"
| "field_value FReviewId ev = str_value (ev_review_id ev)"
| "field_value FParentAuditSeq ev = int_value (parent_audit_seq ev)"
| "field_value FSessionId ev = str_value (session_id ev)"
| "field_value FKeyId ev = str_value (key_id ev)"
| "field_value FSchemaVersion ev = int_value (schema_version ev)"
| "field_value FRecordType ev = str_value (record_type ev)"
| "field_value FRunId ev = str_value (run_id ev)"
| "field_value FRunSeq ev = uint_value (run_seq ev)"
| "field_value FRunEvent ev = str_value (run_event ev)"
| "field_value FRunCount ev = uint_value (run_count ev)"
| "field_value FRunHead ev = str_value (run_head ev)"
| "field_value FActionId ev = str_value (action_id ev)"
| "field_value FObservation ev = str_value (observation ev)"
| "field_value FCause ev = str_value (cause ev)"
| "field_value FResponseClass ev = str_value (response_class ev)"
| "field_value FMcpIsError ev = map_option JBool (mcp_is_error ev)"
| "field_value FToolHashVersion ev = str_value (tool_hash_version ev)"
| "field_value FToolDefinitionHash ev = str_value (tool_definition_hash ev)"
| "field_value FToolPinHash ev = str_value (tool_pin_hash ev)"
| "field_value FToolPinStatus ev = str_value (tool_pin_status ev)"
| "field_value FSig ev = str_value (ev_sig ev)"

text \<open>
  \<open>Unmarshal\<close> into a field: \<open>null\<close> leaves a scalar as it is and clears a
  pointer, a value of another type is an error.
\<close>

fun read_str :: "json \<Rightarrow> bytes \<Rightarrow> bytes option" where
  "read_str (JStr s) old = Some s"
| "read_str JNull old = Some old"
| "read_str _ old = None"

fun read_int :: "json \<Rightarrow> int \<Rightarrow> int option" where
  "read_int (JNum s) old = parse_int64 s"
| "read_int JNull old = Some old"
| "read_int _ old = None"

fun read_uint :: "json \<Rightarrow> u64 \<Rightarrow> u64 option" where
  "read_uint (JNum s) old = map_option of_nat (parse_uint 64 s)"
| "read_uint JNull old = Some old"
| "read_uint _ old = None"

fun read_bool_ptr :: "json \<Rightarrow> bool option option" where
  "read_bool_ptr (JBool b) = Some (Some b)"
| "read_bool_ptr JNull = Some None"
| "read_bool_ptr _ = None"

fun put_field :: "field \<Rightarrow> json \<Rightarrow> event \<Rightarrow> event option" where
  "put_field FTs v ev = map_option (\<lambda>x. ev\<lparr>ev_time := x\<rparr>) (read_str v (ev_time ev))"
| "put_field FAgent v ev = map_option (\<lambda>x. ev\<lparr>ev_agent := x\<rparr>) (read_str v (ev_agent ev))"
| "put_field FTool v ev = map_option (\<lambda>x. ev\<lparr>ev_tool := x\<rparr>) (read_str v (ev_tool ev))"
| "put_field FDecision v ev = map_option (\<lambda>x. ev\<lparr>ev_decision := x\<rparr>) (read_str v (ev_decision ev))"
| "put_field FReason v ev = map_option (\<lambda>x. ev\<lparr>ev_reason := x\<rparr>) (read_str v (ev_reason ev))"
| "put_field FApprovalActor v ev = map_option (\<lambda>x. ev\<lparr>approval_actor := x\<rparr>) (read_str v (approval_actor ev))"
| "put_field FNockId v ev = map_option (\<lambda>x. ev\<lparr>ev_nock_id := x\<rparr>) (read_int v (ev_nock_id ev))"
| "put_field FPr v ev = map_option (\<lambda>x. ev\<lparr>ev_pr := x\<rparr>) (read_str v (ev_pr ev))"
| "put_field FReviewId v ev = map_option (\<lambda>x. ev\<lparr>ev_review_id := x\<rparr>) (read_str v (ev_review_id ev))"
| "put_field FParentAuditSeq v ev = map_option (\<lambda>x. ev\<lparr>parent_audit_seq := x\<rparr>) (read_int v (parent_audit_seq ev))"
| "put_field FSessionId v ev = map_option (\<lambda>x. ev\<lparr>session_id := x\<rparr>) (read_str v (session_id ev))"
| "put_field FKeyId v ev = map_option (\<lambda>x. ev\<lparr>key_id := x\<rparr>) (read_str v (key_id ev))"
| "put_field FSchemaVersion v ev = map_option (\<lambda>x. ev\<lparr>schema_version := x\<rparr>) (read_int v (schema_version ev))"
| "put_field FRecordType v ev = map_option (\<lambda>x. ev\<lparr>record_type := x\<rparr>) (read_str v (record_type ev))"
| "put_field FRunId v ev = map_option (\<lambda>x. ev\<lparr>run_id := x\<rparr>) (read_str v (run_id ev))"
| "put_field FRunSeq v ev = map_option (\<lambda>x. ev\<lparr>run_seq := x\<rparr>) (read_uint v (run_seq ev))"
| "put_field FRunEvent v ev = map_option (\<lambda>x. ev\<lparr>run_event := x\<rparr>) (read_str v (run_event ev))"
| "put_field FRunCount v ev = map_option (\<lambda>x. ev\<lparr>run_count := x\<rparr>) (read_uint v (run_count ev))"
| "put_field FRunHead v ev = map_option (\<lambda>x. ev\<lparr>run_head := x\<rparr>) (read_str v (run_head ev))"
| "put_field FActionId v ev = map_option (\<lambda>x. ev\<lparr>action_id := x\<rparr>) (read_str v (action_id ev))"
| "put_field FObservation v ev = map_option (\<lambda>x. ev\<lparr>observation := x\<rparr>) (read_str v (observation ev))"
| "put_field FCause v ev = map_option (\<lambda>x. ev\<lparr>cause := x\<rparr>) (read_str v (cause ev))"
| "put_field FResponseClass v ev = map_option (\<lambda>x. ev\<lparr>response_class := x\<rparr>) (read_str v (response_class ev))"
| "put_field FMcpIsError v ev = map_option (\<lambda>x. ev\<lparr>mcp_is_error := x\<rparr>) (read_bool_ptr v)"
| "put_field FToolHashVersion v ev = map_option (\<lambda>x. ev\<lparr>tool_hash_version := x\<rparr>) (read_str v (tool_hash_version ev))"
| "put_field FToolDefinitionHash v ev = map_option (\<lambda>x. ev\<lparr>tool_definition_hash := x\<rparr>) (read_str v (tool_definition_hash ev))"
| "put_field FToolPinHash v ev = map_option (\<lambda>x. ev\<lparr>tool_pin_hash := x\<rparr>) (read_str v (tool_pin_hash ev))"
| "put_field FToolPinStatus v ev = map_option (\<lambda>x. ev\<lparr>tool_pin_status := x\<rparr>) (read_str v (tool_pin_status ev))"
| "put_field FSig v ev = map_option (\<lambda>x. ev\<lparr>ev_sig := x\<rparr>) (read_str v (ev_sig ev))"

definition event_tree :: "event \<Rightarrow> json" where
  "event_tree ev =
     JObj (concat (map (\<lambda>f. case field_value f ev of None \<Rightarrow> [] | Some v \<Rightarrow> [(field_name f, v)])
       all_fields))"

text \<open>The canonical bytes: \<open>json.Marshal(ev)\<close>.\<close>

definition marshal_event :: "event \<Rightarrow> bytes" where
  "marshal_event ev = json_print (event_tree ev)"

text \<open>A member sets the field of that name, or else one it equals up to case folding.\<close>

definition resolve_field :: "bytes \<Rightarrow> field option" where
  "resolve_field key =
     (case find (\<lambda>f. field_name f = key) all_fields of
        Some f \<Rightarrow> Some f
      | None \<Rightarrow> find (\<lambda>f. equal_fold key (field_name f)) all_fields)"

fun put_members :: "members \<Rightarrow> event \<Rightarrow> event option" where
  "put_members [] ev = Some ev"
| "put_members ((k, v) # ms) ev =
     (case resolve_field k of
        None \<Rightarrow> put_members ms ev
      | Some f \<Rightarrow> (case put_field f v ev of None \<Rightarrow> None | Some ev' \<Rightarrow> put_members ms ev'))"

fun event_of_tree :: "json \<Rightarrow> event option" where
  "event_of_tree (JObj ms) = put_members ms zero_event"
| "event_of_tree JNull = Some zero_event"
| "event_of_tree _ = None"

definition unmarshal_event :: "bytes \<Rightarrow> event option" where
  "unmarshal_event s = Option.bind (json_parse s) event_of_tree"

subsection \<open>The round trip\<close>

text \<open>
  Events that encoding does not change: strings are valid UTF-8 and integers fit 64 bits.
\<close>

fun field_ok :: "field \<Rightarrow> event \<Rightarrow> bool" where
  "field_ok f ev =
     (case field_value f ev of
        Some (JStr s) \<Rightarrow> coerce_utf8 s = s
      | _ \<Rightarrow> True)"

definition encodable :: "event \<Rightarrow> bool" where
  "encodable ev \<longleftrightarrow>
     list_all (\<lambda>f. field_ok f ev) all_fields
     \<and> list_all (\<lambda>i. - (2 ^ 63) \<le> i \<and> i < 2 ^ 63) [ev_nock_id ev, parent_audit_seq ev, schema_version ev]"

text \<open>One field of an event carried over to another.\<close>

fun copy_field :: "field \<Rightarrow> event \<Rightarrow> event \<Rightarrow> event" where
  "copy_field FTs ev acc = acc\<lparr>ev_time := ev_time ev\<rparr>"
| "copy_field FAgent ev acc = acc\<lparr>ev_agent := ev_agent ev\<rparr>"
| "copy_field FTool ev acc = acc\<lparr>ev_tool := ev_tool ev\<rparr>"
| "copy_field FDecision ev acc = acc\<lparr>ev_decision := ev_decision ev\<rparr>"
| "copy_field FReason ev acc = acc\<lparr>ev_reason := ev_reason ev\<rparr>"
| "copy_field FApprovalActor ev acc = acc\<lparr>approval_actor := approval_actor ev\<rparr>"
| "copy_field FNockId ev acc = acc\<lparr>ev_nock_id := ev_nock_id ev\<rparr>"
| "copy_field FPr ev acc = acc\<lparr>ev_pr := ev_pr ev\<rparr>"
| "copy_field FReviewId ev acc = acc\<lparr>ev_review_id := ev_review_id ev\<rparr>"
| "copy_field FParentAuditSeq ev acc = acc\<lparr>parent_audit_seq := parent_audit_seq ev\<rparr>"
| "copy_field FSessionId ev acc = acc\<lparr>session_id := session_id ev\<rparr>"
| "copy_field FKeyId ev acc = acc\<lparr>key_id := key_id ev\<rparr>"
| "copy_field FSchemaVersion ev acc = acc\<lparr>schema_version := schema_version ev\<rparr>"
| "copy_field FRecordType ev acc = acc\<lparr>record_type := record_type ev\<rparr>"
| "copy_field FRunId ev acc = acc\<lparr>run_id := run_id ev\<rparr>"
| "copy_field FRunSeq ev acc = acc\<lparr>run_seq := run_seq ev\<rparr>"
| "copy_field FRunEvent ev acc = acc\<lparr>run_event := run_event ev\<rparr>"
| "copy_field FRunCount ev acc = acc\<lparr>run_count := run_count ev\<rparr>"
| "copy_field FRunHead ev acc = acc\<lparr>run_head := run_head ev\<rparr>"
| "copy_field FActionId ev acc = acc\<lparr>action_id := action_id ev\<rparr>"
| "copy_field FObservation ev acc = acc\<lparr>observation := observation ev\<rparr>"
| "copy_field FCause ev acc = acc\<lparr>cause := cause ev\<rparr>"
| "copy_field FResponseClass ev acc = acc\<lparr>response_class := response_class ev\<rparr>"
| "copy_field FMcpIsError ev acc = acc\<lparr>mcp_is_error := mcp_is_error ev\<rparr>"
| "copy_field FToolHashVersion ev acc = acc\<lparr>tool_hash_version := tool_hash_version ev\<rparr>"
| "copy_field FToolDefinitionHash ev acc = acc\<lparr>tool_definition_hash := tool_definition_hash ev\<rparr>"
| "copy_field FToolPinHash ev acc = acc\<lparr>tool_pin_hash := tool_pin_hash ev\<rparr>"
| "copy_field FToolPinStatus ev acc = acc\<lparr>tool_pin_status := tool_pin_status ev\<rparr>"
| "copy_field FSig ev acc = acc\<lparr>ev_sig := ev_sig ev\<rparr>"

lemma set_all_fields: "f \<in> set all_fields"
  by (cases f) (simp_all add: all_fields_def)

lemma distinct_all_fields: "distinct all_fields"
  by (simp add: all_fields_def)

lemma resolve_field_name [simp]: "resolve_field (field_name f) = Some f"
  unfolding resolve_field_def all_fields_def by (cases f) simp_all

lemma field_value_copy: "f \<noteq> g \<Longrightarrow> field_value g (copy_field f ev acc) = field_value g acc"
  by (cases f; cases g) simp_all

lemma copy_all: "fold (\<lambda>f acc. copy_field f ev acc) all_fields acc = ev"
  by (cases ev; cases acc) (simp add: all_fields_def)

lemma show_nat_head: "hd (show_nat n) = CHR ''0'' \<Longrightarrow> n = 0"
proof (induction n rule: show_nat.induct)
  case (1 n)
  show ?case
  proof (cases "n < 10")
    case True
    then have "hd (show_nat n) = char_of (48 + n)" by (subst show_nat.simps) simp
    then have "of_char (char_of (48 + n)) = (of_char (CHR ''0'') :: nat)" using 1(2) by metis
    then show ?thesis using of_char_digit [OF True] by simp
  next
    case False
    then have "show_nat n = show_nat (n div 10) @ [char_of (48 + n mod 10)]"
      by (subst show_nat.simps) simp
    then have "hd (show_nat (n div 10)) = CHR ''0''" using 1(2) by simp
    then show ?thesis using 1(1) [OF False] False by simp
  qed
qed

lemma valid_show_nat: "valid_number (show_nat n)" "valid_number (CHR ''-'' # show_nat n)"
proof -
  obtain c t where ct: "show_nat n = c # t" by (cases "show_nat n") auto
  have d: "is_digit c" "list_all is_digit t" using show_nat_digits [of n] ct by simp_all
  have w: "scan_whole (c # t) = Some (c # t, [])"
  proof (cases "c = CHR ''0''")
    case True
    then have "n = 0" using show_nat_head [of n] ct by simp
    then have "t = []" using ct by (simp add: show_nat.simps)
    then show ?thesis using True by simp
  next
    case False
    have "takeWhile is_digit t = t" "dropWhile is_digit t = []"
      using d(2) by (induction t) auto
    then show ?thesis using False d(1) by simp
  qed
  have "c \<noteq> CHR ''-''" using d(1) by (auto simp: is_digit_def)
  then show "valid_number (show_nat n)" "valid_number (CHR ''-'' # show_nat n)"
    using w by (simp_all add: valid_number_def scan_number_def ct)
qed

lemma valid_show_int: "valid_number (show_int i)"
  by (simp add: show_int_def valid_show_nat)

definition ints_ok :: "event \<Rightarrow> bool" where
  "ints_ok ev \<longleftrightarrow>
     list_all (\<lambda>i. - (2 ^ 63) \<le> i \<and> i < 2 ^ 63) [ev_nock_id ev, parent_audit_seq ev, schema_version ev]"

lemma read_int_value:
  assumes "- (2 ^ 63) \<le> i" "i < 2 ^ 63" "int_value i = Some v"
  shows "read_int v old = Some i"
  using assms parse_show_int [of i] by (auto simp: int_value_def split: if_splits)

lemma read_uint_value:
  assumes "uint_value w = Some v"
  shows "read_uint v old = Some w"
  using assms parse_show_nat [of "unat w" 64] unsigned_less [where 'a = nat, of w]
  by (auto simp: uint_value_def split: if_splits)

lemma read_str_value: "str_value s = Some v \<Longrightarrow> read_str v old = Some s"
  by (auto simp: str_value_def split: if_splits)

lemma put_field_copy:
  assumes "ints_ok ev" and "field_value f ev = Some v"
  shows "put_field f v acc = Some (copy_field f ev acc)"
  using assms
  by (cases f) (auto simp: ints_ok_def read_str_value read_int_value read_uint_value)

lemma value_None_iff:
  "str_value s = None \<longleftrightarrow> s = []" "int_value i = None \<longleftrightarrow> i = 0" "uint_value w = None \<longleftrightarrow> w = 0"
  by (simp_all add: str_value_def int_value_def uint_value_def)

lemma copy_field_zero:
  assumes "field_value f ev = None" and "field_value f acc = None"
  shows "copy_field f ev acc = acc"
proof (cases acc)
  case (fields)
  then show ?thesis
    using assms by (cases f) (simp_all add: value_None_iff)
qed

definition field_members :: "field list \<Rightarrow> event \<Rightarrow> members" where
  "field_members fs ev =
     concat (map (\<lambda>f. case field_value f ev of None \<Rightarrow> [] | Some v \<Rightarrow> [(field_name f, v)]) fs)"

lemma put_field_members:
  assumes "ints_ok ev" and "distinct fs" and "\<forall>f\<in>set fs. field_value f acc = None \<or> field_value f ev \<noteq> None"
  shows "put_members (field_members fs ev) acc = Some (fold (\<lambda>f acc. copy_field f ev acc) fs acc)"
  using assms(2,3)
proof (induction fs arbitrary: acc)
  case (Cons f fs)
  have keep: "\<forall>g\<in>set fs. field_value g (copy_field f ev acc) = None \<or> field_value g ev \<noteq> None"
    using Cons.prems field_value_copy by (metis distinct.simps(2) list.set_intros(2))
  have d: "distinct fs" using Cons.prems(1) by simp
  note IH = Cons.IH [OF d keep]
  show ?case
  proof (cases "field_value f ev")
    case None
    then have "copy_field f ev acc = acc" using Cons.prems(2) by (auto intro: copy_field_zero)
    then show ?thesis using IH None by (simp add: field_members_def)
  next
    case (Some v)
    then show ?thesis using IH put_field_copy [OF assms(1) Some, of acc] by (simp add: field_members_def)
  qed
qed (simp add: field_members_def)

lemma zero_field_value:
  "field_value f zero_event = None \<or> field_value f ev \<noteq> None"
  by (cases f) (simp_all add: zero_event_def str_value_def int_value_def uint_value_def)

lemma event_of_event_tree: "ints_ok ev \<Longrightarrow> event_of_tree (event_tree ev) = Some ev"
  using put_field_members [of ev all_fields zero_event] zero_field_value distinct_all_fields
  by (simp add: event_tree_def field_members_def copy_all)

lemma ascii_field_name: "coerce_utf8 (field_name f) = field_name f"
  by (cases f) (simp_all add: coerce_utf8_ascii)

lemma field_value_wf: "field_ok f ev \<Longrightarrow> field_value f ev = Some v \<Longrightarrow> wf_json v \<and> json_depth v = 0"
  by (cases f) (auto simp: str_value_def int_value_def uint_value_def valid_show_int valid_show_nat
      split: if_splits)

lemma field_members_in:
  "(k, v) \<in> set (field_members fs ev) \<longleftrightarrow> (\<exists>f\<in>set fs. k = field_name f \<and> field_value f ev = Some v)"
  by (induction fs) (auto simp: field_members_def split: option.splits)

lemma encodable_ints: "encodable ev \<Longrightarrow> ints_ok ev"
  by (simp add: encodable_def ints_ok_def)

lemma event_tree_wf:
  assumes "encodable ev"
  shows "wf_json (event_tree ev)" "json_depth (event_tree ev) = 1"
proof -
  have t: "event_tree ev = JObj (field_members all_fields ev)"
    by (simp add: event_tree_def field_members_def)
  have m: "wf_json v \<and> json_depth v = 0 \<and> coerce_utf8 k = k" if "(k, v) \<in> set (field_members all_fields ev)" for k v
    using that assms field_value_wf ascii_field_name
    by (auto simp: field_members_in encodable_def list_all_iff)
  then show "wf_json (event_tree ev)" by (auto simp: t list_all_iff)
  have "fold max (map (\<lambda>(k, v). json_depth v) (field_members all_fields ev)) 0 \<le> 0"
    unfolding fold_max_le using m by auto
  then show "json_depth (event_tree ev) = 1" by (simp add: t)
qed

lemma parse_marshal_event: "encodable ev \<Longrightarrow> json_parse (marshal_event ev) = Some (event_tree ev)"
  unfolding marshal_event_def
  by (rule json_roundtrip) (simp_all add: event_tree_wf max_nesting_def)

lemma unmarshal_marshal_event: "encodable ev \<Longrightarrow> unmarshal_event (marshal_event ev) = Some ev"
  by (simp add: unmarshal_event_def parse_marshal_event event_of_event_tree encodable_ints)

subsection \<open>Row checks\<close>

datatype row_error =
    InvalidJson | NotAnObject | DuplicateKey
  | ActorWrongRow | ActorNoPrefix | ActorNotUid | ActorNotString | ActorEmpty
  | NonCanonicalField bytes | UnknownField bytes | FieldNeedsVersion bytes | UnsupportedVersion int
  | MissingField bytes | NotString bytes | EmptyField bytes | NotPositive bytes | NotBoolean
  | BadRunId | BadRunSeq | NoTimeOrAgent
  | RunHasCallFields | BadOpen | BadHeartbeat | BadClose | BadRunEvent
  | BadDecisionRow | DispatchNeedsAction | DispatchNeedsTool
  | BadObservationRow | BadObservation | ClassMismatch | BadResponseClass | LateNeedsCause
  | BadRecordType | BadActionId | BadActionSeq | BadCause | BadHashVersion | BadDigest bytes
  | BadRunHead | BadPinStatus

definition fails :: "bool \<Rightarrow> row_error \<Rightarrow> row_error option" where
  "fails b e = (if b then Some e else None)"

definition validate_approval_actor :: "event \<Rightarrow> row_error option" where
  "validate_approval_actor ev =
     (if approval_actor ev = [] then None
      else if ev_decision ev \<noteq> ''approval-granted'' \<and> ev_decision ev \<noteq> ''approval-denied''
      then Some ActorWrongRow
      else if \<not> has_prefix (approval_actor ev) ''local:uid:'' then Some ActorNoPrefix
      else if \<not> canonical_decimal 32 (trim_prefix (approval_actor ev) ''local:uid:'') then Some ActorNotUid
      else None)"

text \<open>No object of the document repeats a member name, at any depth.\<close>

fun no_dup_keys :: "json \<Rightarrow> bool" where
  "no_dup_keys (JObj ms) \<longleftrightarrow> distinct (map fst ms) \<and> list_all (\<lambda>(k, v). no_dup_keys v) ms"
| "no_dup_keys (JArr xs) \<longleftrightarrow> list_all no_dup_keys xs"
| "no_dup_keys _ \<longleftrightarrow> True"

definition v2_only_fields :: "field list" where
  "v2_only_fields =
     [FRecordType, FRunId, FRunSeq, FRunEvent, FRunCount, FRunHead, FActionId, FObservation, FCause,
      FResponseClass, FMcpIsError, FToolHashVersion, FToolDefinitionHash, FToolPinHash, FToolPinStatus]"

definition required_fields :: "field list" where
  "required_fields = [FTs, FAgent, FTool, FDecision, FSchemaVersion, FRecordType, FRunId, FRunSeq]"

definition string_fields :: "field list" where
  "string_fields =
     [FTs, FAgent, FTool, FDecision, FReason, FApprovalActor, FPr, FReviewId, FSessionId, FKeyId, FSig,
      FRecordType, FRunId, FRunEvent, FRunHead, FActionId, FObservation, FCause, FResponseClass,
      FToolHashVersion, FToolDefinitionHash, FToolPinHash, FToolPinStatus]"

definition check_string_field :: "members \<Rightarrow> field \<Rightarrow> row_error option" where
  "check_string_field mem f =
     (case map_of mem (field_name f) of
        None \<Rightarrow> None
      | Some (JStr s) \<Rightarrow> fails (s = [] \<and> f \<noteq> FTool \<and> f \<noteq> FDecision) (EmptyField (field_name f))
      | Some _ \<Rightarrow> Some (NotString (field_name f)))"

text \<open>Decoding into a fresh \<open>uint64\<close> or \<open>int\<close> and requiring a positive value.\<close>

definition check_uint_field :: "members \<Rightarrow> field \<Rightarrow> row_error option" where
  "check_uint_field mem f =
     (case map_of mem (field_name f) of
        None \<Rightarrow> None
      | Some v \<Rightarrow>
          (case read_uint v 0 of
             None \<Rightarrow> Some (NotPositive (field_name f))
           | Some w \<Rightarrow> fails (w = 0) (NotPositive (field_name f))))"

definition check_int_field :: "members \<Rightarrow> field \<Rightarrow> row_error option" where
  "check_int_field mem f =
     (case map_of mem (field_name f) of
        None \<Rightarrow> None
      | Some v \<Rightarrow>
          (case read_int v 0 of
             None \<Rightarrow> Some (NotPositive (field_name f))
           | Some i \<Rightarrow> fails (i \<le> 0) (NotPositive (field_name f))))"

definition check_v2_fields :: "members \<Rightarrow> row_error option" where
  "check_v2_fields mem =
     first_error
       (map (\<lambda>f. fails (map_of mem (field_name f) = None) (MissingField (field_name f))) required_fields
        @ map (check_string_field mem) string_fields
        @ map (check_uint_field mem) [FRunSeq, FRunCount]
        @ map (check_int_field mem) [FNockId, FParentAuditSeq]
        @ [case map_of mem (field_name FMcpIsError) of
             None \<Rightarrow> None | Some (JBool b) \<Rightarrow> None | Some _ \<Rightarrow> Some NotBoolean])"

definition check_run_row :: "event \<Rightarrow> row_error option" where
  "check_run_row ev =
     (if ev_tool ev \<noteq> [] \<or> ev_decision ev \<noteq> [] \<or> action_id ev \<noteq> [] \<or> observation ev \<noteq> []
         \<or> cause ev \<noteq> [] \<or> response_class ev \<noteq> [] \<or> mcp_is_error ev \<noteq> None
      then Some RunHasCallFields
      else if run_event ev = ''open'' then
        fails (run_seq ev \<noteq> 1 \<or> run_count ev \<noteq> 0 \<or> run_head ev \<noteq> []) BadOpen
      else if run_event ev = ''heartbeat'' then
        fails (run_seq ev < 2 \<or> run_count ev \<noteq> 0 \<or> run_head ev \<noteq> []) BadHeartbeat
      else if run_event ev = ''close'' then
        fails (run_seq ev < 2 \<or> run_count ev = 0 \<or> run_count ev \<noteq> run_seq ev - 1 \<or> run_head ev = [])
          BadClose
      else Some BadRunEvent)"

definition check_decision_row :: "event \<Rightarrow> row_error option" where
  "check_decision_row ev =
     (if ev_decision ev = [] \<or> run_event ev \<noteq> [] \<or> observation ev \<noteq> [] \<or> cause ev \<noteq> []
         \<or> response_class ev \<noteq> [] \<or> mcp_is_error ev \<noteq> None \<or> run_count ev \<noteq> 0 \<or> run_head ev \<noteq> []
      then Some BadDecisionRow
      else if ev_decision ev = ''dispatch'' \<and> action_id ev = [] then Some DispatchNeedsAction
      else if ev_decision ev = ''dispatch'' \<and> ev_tool ev = [] then Some DispatchNeedsTool
      else None)"

definition observed_kinds :: "bytes list" where
  "observed_kinds = [''response_observed'', ''late_response_observed'']"

definition check_observation_row :: "event \<Rightarrow> row_error option" where
  "check_observation_row ev =
     (if ev_decision ev \<noteq> [] \<or> run_event ev \<noteq> [] \<or> run_count ev \<noteq> 0 \<or> run_head ev \<noteq> [] \<or> action_id ev = []
      then Some BadObservationRow
      else if observation ev \<notin> set ([''not_forwarded'', ''outcome_unknown''] @ observed_kinds)
      then Some BadObservation
      else if (observation ev \<in> set observed_kinds) \<noteq> (response_class ev \<noteq> []) then Some ClassMismatch
      else if response_class ev \<notin> {[], ''jsonrpc_result'', ''jsonrpc_error''} then Some BadResponseClass
      else if observation ev = ''late_response_observed'' \<and> cause ev \<noteq> ''late_response''
      then Some LateNeedsCause
      else None)"

definition check_action_id :: "event \<Rightarrow> row_error option" where
  "check_action_id ev =
     (if action_id ev = [] then None
      else case split_on CHR ''.'' (action_id ev) of
          [r, s] \<Rightarrow>
            if r \<noteq> run_id ev then Some BadActionId
            else fails (\<not> canonical_decimal 64 s \<or> s = ''0'') BadActionSeq
        | _ \<Rightarrow> Some BadActionId)"

definition causes :: "bytes list" where
  "causes =
     [''policy_denied'', ''validation_blocked'', ''approval_denied'', ''limit_reached'',
      ''audit_unavailable'', ''timeout'', ''client_cancel'', ''transport_lost'', ''upstream_exit'',
      ''shutdown'', ''late_response'', ''tool_catalog_refresh_required'', ''pin_mismatch'',
      ''pin_unverified'']"

definition check_digest :: "bytes \<Rightarrow> bytes \<Rightarrow> row_error option" where
  "check_digest name d = fails (d \<noteq> [] \<and> \<not> (length d = 64 \<and> lower_hex d)) (BadDigest name)"

definition validate_v2_event :: "event \<Rightarrow> members option \<Rightarrow> row_error option" where
  "validate_v2_event ev mem =
     first_error
       [case mem of None \<Rightarrow> None | Some m \<Rightarrow> check_v2_fields m,
        fails (schema_version ev \<noteq> 2 \<or> length (run_id ev) \<noteq> 32 \<or> to_lower (run_id ev) \<noteq> run_id ev) BadRunId,
        fails (hex_decode (run_id ev) = None \<or> run_seq ev = 0) BadRunSeq,
        fails (ev_time ev = [] \<or> ev_agent ev = []) NoTimeOrAgent,
        if record_type ev = ''run'' then check_run_row ev
        else if record_type ev = ''decision'' then check_decision_row ev
        else if record_type ev = ''action_observation'' then check_observation_row ev
        else Some BadRecordType,
        check_action_id ev,
        fails (cause ev \<noteq> [] \<and> cause ev \<notin> set causes) BadCause,
        fails (tool_hash_version ev \<noteq> [] \<and> tool_hash_version ev \<noteq> ''jcs-rfc8785-v1'') BadHashVersion,
        check_digest ''tool_definition_hash'' (tool_definition_hash ev),
        check_digest ''tool_pin_hash'' (tool_pin_hash ev),
        fails (run_head ev \<noteq> [] \<and> \<not> ((length (run_head ev) = 64 \<or> length (run_head ev) = 128)
                 \<and> lower_hex (run_head ev))) BadRunHead,
        fails (tool_pin_status ev \<noteq> [] \<and> tool_pin_status ev \<notin>
                 set [''matched'', ''mismatch'', ''unobserved'', ''unpinned'', ''unhashable'']) BadPinStatus,
        validate_approval_actor ev]"

definition event_field_set :: "event \<Rightarrow> field \<Rightarrow> bool" where
  "event_field_set ev f \<longleftrightarrow> f \<in> set v2_only_fields \<and> field_value f ev \<noteq> None"

definition validate_audit_event :: "event \<Rightarrow> row_error option" where
  "validate_audit_event ev =
     (if schema_version ev = 0 then
        first_error (map (\<lambda>f. fails (event_field_set ev f) (FieldNeedsVersion (field_name f))) v2_only_fields
          @ [validate_approval_actor ev])
      else if schema_version ev \<noteq> 2 then Some (UnsupportedVersion (schema_version ev))
      else validate_v2_event ev None)"

definition known_field :: "bytes \<Rightarrow> bool" where
  "known_field k \<longleftrightarrow> k \<in> set (map field_name all_fields)"

definition check_actor_field :: "members \<Rightarrow> row_error option" where
  "check_actor_field mem =
     (case map_of mem (field_name FApprovalActor) of
        None \<Rightarrow> None
      | Some (JStr s) \<Rightarrow> fails (s = []) ActorEmpty
      | Some _ \<Rightarrow> Some ActorNotString)"

definition check_field_name :: "bytes \<Rightarrow> row_error option" where
  "check_field_name k =
     (if known_field k then None
      else if list_ex (\<lambda>f. equal_fold k (field_name f)) all_fields then Some (NonCanonicalField k)
      else Some (UnknownField k))"

text \<open>The envelope checks on the document of a line, and the checks of its schema version.\<close>

definition validate_line_tree :: "json \<Rightarrow> event \<Rightarrow> row_error option" where
  "validate_line_tree j ev =
     (case j of
        JObj ms \<Rightarrow>
          if \<not> no_dup_keys j then Some DuplicateKey
          else let mem = collect ms in
            first_error
              [check_actor_field mem,
               first_error (map (check_field_name \<circ> fst) mem),
               if map_of mem (field_name FSchemaVersion) = None then
                 first_error (map (\<lambda>f. fails (map_of mem (field_name f) \<noteq> None)
                     (FieldNeedsVersion (field_name f))) v2_only_fields
                   @ [validate_approval_actor ev])
               else if schema_version ev \<noteq> 2 then Some (UnsupportedVersion (schema_version ev))
               else validate_v2_event ev (Some mem)]
      | _ \<Rightarrow> Some NotAnObject)"

definition validate_audit_line :: "bytes \<Rightarrow> event \<Rightarrow> row_error option" where
  "validate_audit_line raw ev =
     (case json_parse raw of None \<Rightarrow> Some InvalidJson | Some j \<Rightarrow> validate_line_tree j ev)"

subsection \<open>What the writer accepts, the verifier accepts\<close>

lemma fails_None [simp]: "fails b e = None \<longleftrightarrow> \<not> b"
  by (simp add: fails_def)

lemma field_name_inj [simp]: "field_name f = field_name g \<longleftrightarrow> f = g"
  using resolve_field_name by (metis option.inject)

lemma distinct_field_members: "distinct fs \<Longrightarrow> distinct (map fst (field_members fs ev))"
proof (induction fs)
  case (Cons f fs)
  have eq: "field_members (f # fs) ev
      = (case field_value f ev of None \<Rightarrow> [] | Some v \<Rightarrow> [(field_name f, v)]) @ field_members fs ev"
    by (simp add: field_members_def)
  have "field_name f \<notin> fst ` set (field_members fs ev)"
    using Cons.prems by (auto simp: field_members_in)
  then show ?case using Cons unfolding eq by (auto split: option.splits)
qed (simp add: field_members_def)

lemma map_of_event_tree:
  assumes "event_tree ev = JObj ms"
  shows "map_of (collect ms) (field_name f) = field_value f ev"
    "k \<in> fst ` set (collect ms) \<Longrightarrow> known_field k" "no_dup_keys (event_tree ev)"
proof -
  have ms: "ms = field_members all_fields ev"
    using assms by (simp add: event_tree_def field_members_def)
  have d: "distinct (map fst ms)" unfolding ms by (rule distinct_field_members [OF distinct_all_fields])
  have "map_of ms (field_name f) = field_value f ev"
  proof (cases "field_value f ev")
    case None
    then have "field_name f \<notin> fst ` set ms" by (auto simp: ms field_members_in)
    then show ?thesis using None by (simp add: map_of_eq_None_iff)
  next
    case (Some v)
    then have "(field_name f, v) \<in> set ms" using set_all_fields by (auto simp: ms field_members_in)
    then show ?thesis using Some d by simp
  qed
  moreover have "map_of (rev ms) = map_of ms" using d by (subst map_of_inject_set) (simp_all add: rev_map [symmetric])
  ultimately show "map_of (collect ms) (field_name f) = field_value f ev" by simp
  show "known_field k" if "k \<in> fst ` set (collect ms)"
    using that collect_subset [of ms] set_all_fields by (fastforce simp: ms field_members_in known_field_def)
  have "no_dup_keys v" if "(k, v) \<in> set ms" for k v
  proof -
    obtain f where "field_value f ev = Some v" using \<open>(k, v) \<in> set ms\<close> by (auto simp: ms field_members_in)
    then show ?thesis
      by (cases f) (auto simp: str_value_def int_value_def uint_value_def split: if_splits)
  qed
  then show "no_dup_keys (event_tree ev)" using assms d by (auto simp: list_all_iff)
qed

lemma field_value_Some:
  "field_value FTs ev = Some (JStr (ev_time ev))" "field_value FAgent ev = Some (JStr (ev_agent ev))"
  "field_value FTool ev = Some (JStr (ev_tool ev))" "field_value FDecision ev = Some (JStr (ev_decision ev))"
  by simp_all

lemma hex_decode_nonempty: "length s = 32 \<Longrightarrow> s \<noteq> []"
  by auto

lemma v2_event_facts:
  assumes "validate_v2_event ev None = None"
  shows "schema_version ev = 2" "length (run_id ev) = 32" "run_seq ev \<noteq> 0" "ev_time ev \<noteq> []"
    "ev_agent ev \<noteq> []" "record_type ev \<noteq> []" "validate_approval_actor ev = None"
proof -
  note all = assms [unfolded validate_v2_event_def first_error_None]
  show "schema_version ev = 2" "length (run_id ev) = 32" "run_seq ev \<noteq> 0" "ev_time ev \<noteq> []"
    "ev_agent ev \<noteq> []" "validate_approval_actor ev = None"
    using all by simp_all
  show "record_type ev \<noteq> []" using all by (cases "record_type ev = []") simp_all
qed

lemma check_string_of_event:
  assumes "map_of mem (field_name f) = field_value f ev" and "f \<in> set string_fields"
    and "ev_time ev \<noteq> []" and "ev_agent ev \<noteq> []"
  shows "check_string_field mem f = None"
  using assms
  by (cases f) (auto simp: check_string_field_def string_fields_def str_value_def)

lemma v2_fields_of_event:
  assumes "\<And>f. map_of mem (field_name f) = field_value f ev"
    and "schema_version ev = 2" "run_id ev \<noteq> []" "run_seq ev \<noteq> 0" "ev_time ev \<noteq> []"
    "ev_agent ev \<noteq> []" "record_type ev \<noteq> []" and "0 \<le> ev_nock_id ev" "0 \<le> parent_audit_seq ev"
    and "ints_ok ev"
  shows "check_v2_fields mem = None"
proof -
  have req: "\<forall>f\<in>set required_fields. map_of mem (field_name f) \<noteq> None"
    using assms(2-7) unfolding assms(1)
    by (simp add: required_fields_def str_value_def int_value_def uint_value_def)
  have str: "\<forall>f\<in>set string_fields. check_string_field mem f = None"
    using check_string_of_event [OF assms(1)] assms(5,6) by blast
  have uint: "check_uint_field mem f = None" if "field_value f ev = uint_value w" for f w
    unfolding check_uint_field_def assms(1) that
    using read_uint_value [of w "JNum (show_nat (unat w))" 0] by (auto simp: uint_value_def)
  have int: "check_int_field mem f = None"
    if "field_value f ev = int_value i" "0 \<le> i" "i < 2 ^ 63" for f i
    unfolding check_int_field_def assms(1) that(1)
    using read_int_value [of i "JNum (show_int i)" 0] that(2,3) by (auto simp: int_value_def)
  have mcp: "(case map_of mem (field_name FMcpIsError) of
       None \<Rightarrow> None | Some (JBool b) \<Rightarrow> None | Some _ \<Rightarrow> Some NotBoolean) = None"
    unfolding assms(1) by (auto split: option.splits)
  have "check_uint_field mem FRunSeq = None" "check_uint_field mem FRunCount = None"
    "check_int_field mem FNockId = None" "check_int_field mem FParentAuditSeq = None"
    using uint [of FRunSeq "run_seq ev"] uint [of FRunCount "run_count ev"]
      int [of FNockId "ev_nock_id ev"] int [of FParentAuditSeq "parent_audit_seq ev"] assms(8-10)
    by (simp_all add: ints_ok_def)
  then show ?thesis
    unfolding check_v2_fields_def first_error_None using req str mcp by auto
qed

lemma validate_line_of_event:
  assumes "encodable ev" and "validate_audit_event ev = None"
    and "schema_version ev = 2 \<longrightarrow> 0 \<le> ev_nock_id ev \<and> 0 \<le> parent_audit_seq ev"
  shows "validate_audit_line (marshal_event ev) ev = None"
proof -
  obtain ms where ms: "event_tree ev = JObj ms" by (simp add: event_tree_def)
  let ?mem = "collect ms"
  note mem = map_of_event_tree [OF ms]
  have dup: "no_dup_keys (JObj ms)" using mem(3) ms by simp
  have actor: "check_actor_field ?mem = None"
    unfolding check_actor_field_def mem(1) by (simp add: str_value_def split: option.splits)
  have names: "first_error (map (check_field_name \<circ> fst) ?mem) = None"
    using mem(2) by (auto simp: first_error_None check_field_name_def)
  have ver: "map_of ?mem (field_name FSchemaVersion) = None \<longleftrightarrow> schema_version ev = 0"
    unfolding mem(1) by (simp add: value_None_iff)
  have "(if map_of ?mem (field_name FSchemaVersion) = None then
       first_error (map (\<lambda>f. fails (map_of ?mem (field_name f) \<noteq> None)
           (FieldNeedsVersion (field_name f))) v2_only_fields @ [validate_approval_actor ev])
     else if schema_version ev \<noteq> 2 then Some (UnsupportedVersion (schema_version ev))
     else validate_v2_event ev (Some ?mem)) = None"
  proof (cases "schema_version ev = 0")
    case True
    then show ?thesis
      using assms(2) unfolding ver mem(1)
      by (simp add: validate_audit_event_def first_error_None event_field_set_def value_None_iff)
  next
    case False
    then have v2: "schema_version ev = 2" "validate_v2_event ev None = None"
      using assms(2) by (simp_all add: validate_audit_event_def split: if_splits)
    have "run_id ev \<noteq> []" using v2_event_facts(2) [OF v2(2)] by auto
    then have "check_v2_fields ?mem = None"
      using v2_event_facts [OF v2(2)] assms(3) v2(1) encodable_ints [OF assms(1)]
      by (intro v2_fields_of_event [OF mem(1)]) auto
    moreover have "validate_v2_event ev (Some ?mem) =
        (case check_v2_fields ?mem of Some e \<Rightarrow> Some e | None \<Rightarrow> validate_v2_event ev None)"
      by (simp add: validate_v2_event_def split: option.splits)
    ultimately show ?thesis unfolding ver using v2 False by simp
  qed
  then show ?thesis
    using dup actor names
    unfolding validate_audit_line_def parse_marshal_event [OF assms(1)] option.case ms
    by (simp add: validate_line_tree_def Let_def)
qed

subsection \<open>An accepted line says what its bytes say\<close>

lemma copy_field_other: "f \<noteq> g \<Longrightarrow> copy_field g (copy_field f a b) acc = copy_field g b acc"
  by (cases f; cases g) simp_all

lemma put_field_is_copy: "put_field f v ev = Some ev' \<Longrightarrow> ev' = copy_field f ev' ev"
  by (cases f) auto

lemma put_field_other:
  assumes "put_field f v ev = Some ev'" and "g \<noteq> f"
  shows "copy_field g ev' acc = copy_field g ev acc"
  using put_field_is_copy [OF assms(1)] copy_field_other [of f g ev' ev acc] assms(2) by metis

lemma put_field_alone:
  assumes "put_field f v ev = Some ev'" and "copy_field f ev zero_event = zero_event"
  shows "put_field f v zero_event = Some (copy_field f ev' zero_event)"
  using assms by (cases f; cases v) (auto simp: zero_event_def)

lemma unset_field_value: "copy_field f ev zero_event = zero_event \<Longrightarrow> field_value f ev = field_value f zero_event"
  by (cases f) (simp_all add: zero_event_def)

lemma put_members_alone:
  assumes "put_members ms acc = Some ev" and "distinct (map fst ms)"
    and "\<forall>k\<in>fst ` set ms. known_field k"
    and "\<forall>k\<in>fst ` set ms. \<forall>f. k = field_name f \<longrightarrow> copy_field f acc zero_event = zero_event"
  shows "case map_of ms (field_name f) of
      None \<Rightarrow> copy_field f ev zero_event = copy_field f acc zero_event
    | Some v \<Rightarrow> put_field f v zero_event = Some (copy_field f ev zero_event)"
  using assms
proof (induction ms arbitrary: acc)
  case (Cons m ms)
  obtain k v where m: "m = (k, v)" by (cases m)
  obtain g where g: "k = field_name g" using Cons.prems(3) m by (auto simp: known_field_def)
  then obtain acc' where p: "put_field g v acc = Some acc'" and r: "put_members ms acc' = Some ev"
    using Cons.prems(1) m resolve_field_name by (auto split: option.splits)
  have keep: "copy_field h acc' zero_event = copy_field h acc zero_event" if "h \<noteq> g" for h
    by (rule put_field_other [OF p that])
  have notin: "k \<notin> fst ` set ms" using Cons.prems(2) m by simp
  have unset: "\<forall>k\<in>fst ` set ms. \<forall>f. k = field_name f \<longrightarrow> copy_field f acc' zero_event = zero_event"
  proof (intro ballI allI impI)
    fix k' f assume k': "k' \<in> fst ` set ms" "k' = field_name f"
    then have "f \<noteq> g" using notin g by auto
    then show "copy_field f acc' zero_event = zero_event" using keep [of f] Cons.prems(4) k' by auto
  qed
  have IH: "case map_of ms (field_name h) of
      None \<Rightarrow> copy_field h ev zero_event = copy_field h acc' zero_event
    | Some v \<Rightarrow> put_field h v zero_event = Some (copy_field h ev zero_event)" if "h = f" for h
    unfolding that using Cons.IH [OF r _ _ unset] Cons.prems(2,3) by simp
  show ?case
  proof (cases "f = g")
    case True
    have "map_of ms (field_name g) = None" using notin g by (simp add: map_of_eq_None_iff)
    then have "copy_field g ev zero_event = copy_field g acc' zero_event" using IH [of g] True by simp
    moreover have "put_field g v zero_event = Some (copy_field g acc' zero_event)"
      by (rule put_field_alone [OF p]) (use Cons.prems(4) m g in auto)
    ultimately show ?thesis using True m g by simp
  next
    case False
    then have "field_name f \<noteq> k" using g by simp
    then show ?thesis using IH [of f] keep [OF False] m by (auto split: option.splits)
  qed
qed simp


lemma copy_zero: "copy_field f zero_event zero_event = zero_event"
  by (cases f) (simp_all add: zero_event_def)

end
