(* ===== verification/AuditChain.thy ===== *)
theory AuditChain
  imports AuditEvent
begin

text \<open>
  The signature chain of the audit trail, \<^verbatim>\<open>internal/audit/audit.go\<close>: signing and
  checking one entry in the HMAC and the Ed25519 mode, walking a trail, and the signed
  high-water-mark that makes tail truncation visible. The primitives are parameters:
  \<open>hm\<close> is HMAC-SHA256 (key, message), \<open>es\<close> and \<open>ev\<close> are Ed25519 signing and
  verification.
\<close>

subsection \<open>Signatures\<close>

definition chained_message :: "bytes \<Rightarrow> bytes \<Rightarrow> bytes" where
  "chained_message canonical prev = canonical @ newline # prev"

definition sign_line :: "(bytes \<Rightarrow> bytes \<Rightarrow> bytes) \<Rightarrow> bytes \<Rightarrow> bytes \<Rightarrow> bytes \<Rightarrow> bytes" where
  "sign_line hm key canonical prev = hex_encode (hm key (chained_message canonical prev))"

definition sign_line_ed25519 :: "(bytes \<Rightarrow> bytes \<Rightarrow> bytes) \<Rightarrow> bytes \<Rightarrow> bytes \<Rightarrow> bytes \<Rightarrow> bytes" where
  "sign_line_ed25519 es priv canonical prev = hex_encode (es priv (chained_message canonical prev))"

datatype key_error = BadHex | BadLength nat

text \<open>\<open>from_seed\<close> is \<open>ed25519.NewKeyFromSeed\<close>.\<close>

definition private_key_from_hex :: "(bytes \<Rightarrow> bytes) \<Rightarrow> bytes \<Rightarrow> key_error + bytes" where
  "private_key_from_hex from_seed s =
     (case hex_decode (trim_bytes s) of
        None \<Rightarrow> Inl BadHex
      | Some b \<Rightarrow>
          if length b = 32 then Inr (from_seed b)
          else if length b = 64 then Inr b
          else Inl (BadLength (length b)))"

definition public_key_from_hex :: "bytes \<Rightarrow> key_error + bytes" where
  "public_key_from_hex s =
     (case hex_decode (trim_bytes s) of
        None \<Rightarrow> Inl BadHex
      | Some b \<Rightarrow> if length b \<noteq> 32 then Inl (BadLength (length b)) else Inr b)"

text \<open>Why an entry is refused.\<close>

datatype tamper = BadJson | BadRow row_error | NotSigned | BadSigHex | SigMismatch

text \<open>A check takes the canonical bytes, the previous signature and the entry's signature.\<close>

type_synonym sig_check = "bytes \<Rightarrow> bytes \<Rightarrow> bytes \<Rightarrow> tamper option"

definition hmac_check :: "(bytes \<Rightarrow> bytes \<Rightarrow> bytes) \<Rightarrow> bytes \<Rightarrow> sig_check" where
  "hmac_check hm key canonical prev got =
     (if got = sign_line hm key canonical prev then None else Some SigMismatch)"

definition ed25519_check :: "(bytes \<Rightarrow> bytes \<Rightarrow> bytes \<Rightarrow> bool) \<Rightarrow> bytes \<Rightarrow> sig_check" where
  "ed25519_check vf pub canonical prev got =
     (case hex_decode got of
        None \<Rightarrow> Some BadSigHex
      | Some b \<Rightarrow> if vf pub (chained_message canonical prev) b then None else Some SigMismatch)"

subsection \<open>The high-water-mark\<close>

record high_water_mark =
  hwm_count :: int
  hwm_last_sig :: bytes
  hwm_sig :: bytes

definition hwm_signed_bytes :: "int \<Rightarrow> bytes \<Rightarrow> bytes" where
  "hwm_signed_bytes c ls = ''nockguard-hwm-v1'' @ [newline] @ show_int c @ [newline] @ ls"

definition marshal_hwm :: "high_water_mark \<Rightarrow> bytes" where
  "marshal_hwm h = json_print (JObj
     [(''count'', JNum (show_int (hwm_count h))), (''last_sig'', JStr (hwm_last_sig h)),
      (''sig'', JStr (hwm_sig h))])"

definition put_hwm_member :: "bytes \<Rightarrow> json \<Rightarrow> high_water_mark \<Rightarrow> high_water_mark option" where
  "put_hwm_member k v h =
     (if equal_fold k ''count'' then map_option (\<lambda>x. h\<lparr>hwm_count := x\<rparr>) (read_int v (hwm_count h))
      else if equal_fold k ''last_sig'' then map_option (\<lambda>x. h\<lparr>hwm_last_sig := x\<rparr>) (read_str v (hwm_last_sig h))
      else if equal_fold k ''sig'' then map_option (\<lambda>x. h\<lparr>hwm_sig := x\<rparr>) (read_str v (hwm_sig h))
      else Some h)"

fun put_hwm_members :: "members \<Rightarrow> high_water_mark \<Rightarrow> high_water_mark option" where
  "put_hwm_members [] h = Some h"
| "put_hwm_members ((k, v) # ms) h = Option.bind (put_hwm_member k v h) (put_hwm_members ms)"

fun hwm_of_tree :: "json \<Rightarrow> high_water_mark option" where
  "hwm_of_tree (JObj ms) = put_hwm_members ms \<lparr>hwm_count = 0, hwm_last_sig = [], hwm_sig = []\<rparr>"
| "hwm_of_tree JNull = Some \<lparr>hwm_count = 0, hwm_last_sig = [], hwm_sig = []\<rparr>"
| "hwm_of_tree _ = None"

text \<open>\<^const>\<open>None\<close> is a corrupt sidecar.\<close>

definition parse_high_water_mark :: "bytes \<Rightarrow> high_water_mark option" where
  "parse_high_water_mark data = Option.bind (json_parse (trim_bytes data)) hwm_of_tree"

datatype boundary = HwmMissing | HwmForged | Truncated | HwmMismatch

definition check_high_water_mark ::
  "high_water_mark option \<Rightarrow> nat \<Rightarrow> bytes \<Rightarrow> (bytes \<Rightarrow> bytes \<Rightarrow> bool) \<Rightarrow> boundary option" where
  "check_high_water_mark hwm n sig_at vs =
     (case hwm of
        None \<Rightarrow> if n > 0 then Some HwmMissing else None
      | Some h \<Rightarrow>
          if \<not> vs (hwm_signed_bytes (hwm_count h) (hwm_last_sig h)) (hwm_sig h) then Some HwmForged
          else if int n < hwm_count h then Some Truncated
          else if sig_at \<noteq> hwm_last_sig h then Some HwmMismatch
          else None)"

subsection \<open>Lines of a trail\<close>

definition drop_cr :: "bytes \<Rightarrow> bytes" where
  "drop_cr l = (if l \<noteq> [] \<and> last l = char_of (13::nat) then butlast l else l)"

text \<open>
  \<open>bufio.Scanner\<close> over lines: a final newline ends the last line, and a line that does not
  fit the buffer stops the scan with an error.
\<close>

fun scan_until :: "nat \<Rightarrow> bytes list \<Rightarrow> bytes list \<times> bool" where
  "scan_until cap [] = ([], False)"
| "scan_until cap (l # ls) =
     (if length l \<ge> cap then ([], True)
      else let (r, e) = scan_until cap ls in (drop_cr l # r, e))"

definition trail_lines :: "bytes \<Rightarrow> bytes list" where
  "trail_lines s =
     (let ls = split_on newline s in if last ls = [] then butlast ls else ls)"

definition scan_lines :: "nat \<Rightarrow> bytes \<Rightarrow> bytes list \<times> bool" where
  "scan_lines cap s = scan_until cap (trail_lines s)"

definition max_trail_line :: nat where
  "max_trail_line = 8 * 1024 * 1024"

definition blank_line :: "bytes \<Rightarrow> bool" where
  "blank_line l \<longleftrightarrow> trim_bytes l = []"

subsection \<open>Walking a trail\<close>

text \<open>The state of the walk: entries so far, last signature, signature at the checkpoint.\<close>

record walk_state =
  seen :: nat
  prev_sig :: bytes
  sig_at_count :: bytes

datatype verify_error = Tamper nat tamper | BoundaryTamper boundary | ScanFailed
  | TrailUnreadable | HwmUnreadable | HwmCorrupt

definition walk_line ::
  "sig_check \<Rightarrow> high_water_mark option \<Rightarrow> bytes \<Rightarrow> walk_state \<Rightarrow> verify_error + walk_state" where
  "walk_line chk hwm raw w =
     (if blank_line raw then Inr w
      else let n = Suc (seen w) in
        case unmarshal_event raw of
          None \<Rightarrow> Inl (Tamper n BadJson)
        | Some ev \<Rightarrow>
            (case validate_audit_line raw ev of
               Some e \<Rightarrow> Inl (Tamper n (BadRow e))
             | None \<Rightarrow>
                 if ev_sig ev = [] then Inl (Tamper n NotSigned)
                 else (case chk (marshal_event (ev\<lparr>ev_sig := []\<rparr>)) (prev_sig w) (ev_sig ev) of
                     Some t \<Rightarrow> Inl (Tamper n t)
                   | None \<Rightarrow> Inr \<lparr>seen = n, prev_sig = ev_sig ev,
                       sig_at_count = (case hwm of
                           None \<Rightarrow> sig_at_count w
                         | Some h \<Rightarrow> if int n = hwm_count h then ev_sig ev else sig_at_count w)\<rparr>)))"

text \<open>The result carries the number of entries read, also with an error.\<close>

fun walk_lines ::
  "sig_check \<Rightarrow> high_water_mark option \<Rightarrow> bytes list \<Rightarrow> walk_state \<Rightarrow> walk_state \<times> verify_error option" where
  "walk_lines chk hwm [] w = (w, None)"
| "walk_lines chk hwm (l # ls) w =
     (case walk_line chk hwm l w of
        Inl e \<Rightarrow> (w\<lparr>seen := Suc (seen w)\<rparr>, Some e)
      | Inr w' \<Rightarrow> walk_lines chk hwm ls w')"

definition start_walk :: walk_state where
  "start_walk = \<lparr>seen = 0, prev_sig = [], sig_at_count = []\<rparr>"

definition verify_stream ::
  "nat \<Rightarrow> sig_check \<Rightarrow> high_water_mark option \<Rightarrow> bytes \<Rightarrow> nat \<times> verify_error option" where
  "verify_stream cap chk hwm trail =
     (let (ls, too_long) = scan_lines cap trail; (w, e) = walk_lines chk hwm ls start_walk in
      case e of
        Some err \<Rightarrow> (seen w, Some err)
      | None \<Rightarrow>
          if too_long then (seen w, Some ScanFailed)
          else (seen w, map_option BoundaryTamper
                 (check_high_water_mark hwm (seen w) (sig_at_count w) (\<lambda>m s. chk m [] s = None))))"

definition verify_hmac_stream ::
  "nat \<Rightarrow> (bytes \<Rightarrow> bytes \<Rightarrow> bytes) \<Rightarrow> bytes \<Rightarrow> high_water_mark option \<Rightarrow> bytes
   \<Rightarrow> nat \<times> verify_error option" where
  "verify_hmac_stream cap hm key hwm trail = verify_stream cap (hmac_check hm key) hwm trail"

definition verify_ed25519_stream ::
  "nat \<Rightarrow> (bytes \<Rightarrow> bytes \<Rightarrow> bytes \<Rightarrow> bool) \<Rightarrow> bytes \<Rightarrow> high_water_mark option \<Rightarrow> bytes
   \<Rightarrow> nat \<times> verify_error option" where
  "verify_ed25519_stream cap vf pub hwm trail = verify_stream cap (ed25519_check vf pub) hwm trail"

text \<open>
  Verification of a snapshot, or of the files of a trail: the entries verified, the count of
  the checkpoint that was loaded, and the error.
\<close>

definition verify_with_checkpoint ::
  "nat \<Rightarrow> sig_check \<Rightarrow> bytes \<Rightarrow> bytes option \<Rightarrow> nat \<times> int \<times> verify_error option" where
  "verify_with_checkpoint cap chk trail hwm =
     (case hwm of
        None \<Rightarrow> (let (n, e) = verify_stream cap chk None trail in (n, 0, e))
      | Some data \<Rightarrow>
          (case parse_high_water_mark data of
             None \<Rightarrow> (0, 0, Some HwmCorrupt)
           | Some h \<Rightarrow> (let (n, e) = verify_stream cap chk (Some h) trail in (n, hwm_count h, e))))"

text \<open>A file is absent, unreadable, or has contents.\<close>

datatype file_state = Absent | NoAccess | Content bytes

definition verify_files :: "nat \<Rightarrow> sig_check \<Rightarrow> file_state \<Rightarrow> file_state \<Rightarrow> nat \<times> int \<times> verify_error option" where
  "verify_files cap chk trail hwm =
     (case trail of
        Content t \<Rightarrow>
          (case hwm of
             Absent \<Rightarrow> verify_with_checkpoint cap chk t None
           | NoAccess \<Rightarrow> (0, 0, Some HwmUnreadable)
           | Content h \<Rightarrow> verify_with_checkpoint cap chk t (Some h))
      | _ \<Rightarrow> (0, 0, Some TrailUnreadable))"

subsection \<open>The last signature\<close>

text \<open>\<open>lastSigInSlice\<close>: the signature of the last line that is not blank.\<close>

datatype last_line = NoLine | BadLine | LineSig bytes

fun last_sig_of_lines :: "bytes list \<Rightarrow> last_line" where
  "last_sig_of_lines [] = NoLine"
| "last_sig_of_lines (l # ls) =
     (if blank_line l then last_sig_of_lines ls
      else case unmarshal_event (trim_bytes l) of None \<Rightarrow> BadLine | Some ev \<Rightarrow> LineSig (ev_sig ev))"

definition last_sig_in_slice :: "bytes \<Rightarrow> last_line" where
  "last_sig_in_slice b = last_sig_of_lines (rev (split_on newline b))"

text \<open>
  \<open>lastSigSeek\<close>: growing windows at the end of the file. In a window that does not start
  at the beginning, everything before the first newline is skipped.
\<close>

fun after_newline :: "bytes \<Rightarrow> bytes option" where
  "after_newline [] = None"
| "after_newline (c # s) = (if c = newline then Some s else after_newline s)"

fun last_sig_windows :: "nat list \<Rightarrow> bytes \<Rightarrow> last_line" where
  "last_sig_windows [] s = NoLine"
| "last_sig_windows (w # ws) s =
     (let size = min w (length s); buf = drop (length s - size) s in
      case (if length s - size > 0 then after_newline buf else Some buf) of
        None \<Rightarrow> last_sig_windows ws s
      | Some b \<Rightarrow>
          (case last_sig_in_slice b of
             NoLine \<Rightarrow> if size = length s then NoLine else last_sig_windows ws s
           | r \<Rightarrow> r))"

definition last_sig_seek :: "bytes \<Rightarrow> last_line" where
  "last_sig_seek s =
     (if s = [] then NoLine else last_sig_windows [4 * 1024, 16 * 1024, 64 * 1024, length s] s)"

lemma split_on_suffix:
  "split_on d (s @ d # t) = split_on d s @ split_on d t"
  by (induction s) (auto split: list.splits)

lemma after_newline_split: "after_newline s = Some t \<Longrightarrow> \<exists>u. s = u @ newline # t"
proof (induction s)
  case (Cons c s)
  show ?case
  proof (cases "c = newline")
    case False
    then obtain u where "s = u @ newline # t" using Cons by auto
    then show ?thesis by (intro exI [of _ "c # u"]) simp
  qed (use Cons.prems in simp)
qed simp

lemma last_sig_of_lines_append:
  "last_sig_of_lines ls \<noteq> NoLine \<Longrightarrow> last_sig_of_lines (ls @ ms) = last_sig_of_lines ls"
  by (induction ls) (auto split: option.splits)

lemma last_sig_suffix:
  assumes "last_sig_in_slice t \<noteq> NoLine"
  shows "last_sig_in_slice (s @ newline # t) = last_sig_in_slice t"
  using assms last_sig_of_lines_append
  by (simp add: last_sig_in_slice_def split_on_suffix)

lemma last_sig_windows_eq:
  assumes "length s \<in> set ws" and "s \<noteq> []"
  shows "last_sig_windows ws s = last_sig_in_slice s"
  using assms(1)
proof (induction ws)
  case (Cons w ws)
  let ?size = "min w (length s)"
  let ?buf = "drop (length s - ?size) s"
  show ?case
  proof (cases "length s - ?size > 0")
    case False
    then have "?size = length s" "?buf = s" by simp_all
    then show ?thesis by (simp add: Let_def split: last_line.splits)
  next
    case True
    then have IH: "last_sig_windows ws s = last_sig_in_slice s" using Cons by auto
    have w: "w < length s" using True by simp
    show ?thesis
    proof (cases "after_newline ?buf")
      case None
      then show ?thesis using w IH by (simp add: Let_def)
    next
      case (Some b)
      then obtain u where "?buf = u @ newline # b" using after_newline_split by blast
      then have s: "s = (take (length s - ?size) s @ u) @ newline # b"
        by (metis append_assoc append_take_drop_id)
      show ?thesis
      proof (cases "last_sig_in_slice b = NoLine")
        case True
        then show ?thesis using w Some IH by (simp add: Let_def)
      next
        case False
        then have "last_sig_in_slice s = last_sig_in_slice b" using last_sig_suffix s by metis
        then show ?thesis using w Some False by (auto simp: Let_def split: last_line.splits)
      qed
    qed
  qed
qed simp

subsection \<open>Writing the high-water-mark\<close>

definition checkpoint_of :: "(bytes \<Rightarrow> bytes \<Rightarrow> bytes) \<Rightarrow> int \<Rightarrow> bytes \<Rightarrow> high_water_mark" where
  "checkpoint_of signer c new_sig =
     \<lparr>hwm_count = c, hwm_last_sig = new_sig, hwm_sig = signer (hwm_signed_bytes c new_sig) []\<rparr>"

definition checkpoint_file :: "high_water_mark \<Rightarrow> bytes" where
  "checkpoint_file h = marshal_hwm h @ [newline]"

lemma checkpoint_of_simps [simp]:
  "hwm_count (checkpoint_of signer c s) = c" "hwm_last_sig (checkpoint_of signer c s) = s"
  "hwm_sig (checkpoint_of signer c s) = signer (hwm_signed_bytes c s) []"
  by (simp_all add: checkpoint_of_def)

lemma trim_trailing_newline:
  assumes "s = a # t" and "s = u @ [c]"
    and "of_char a < (128::nat)" "\<not> rune_space (of_char a)"
    and "of_char c < (128::nat)" "\<not> rune_space (of_char c)"
  shows "trim_bytes (s @ [newline]) = s"
proof -
  have "trim_left (s @ [newline]) = s @ [newline]"
    using trim_left_head [OF assms(3,4), of "t @ [newline]"] assms(1) by simp
  moreover have "space_tail (s @ [newline]) 1"
    by (simp add: space_tail_def decode_rune_ascii newline_def rune_space_def)
  moreover have "trim_right_fuel f s = s" for f
    using space_tail_ascii [OF assms(5,6), of _ u] assms(2) by (cases f) simp_all
  ultimately show ?thesis by (simp add: trim_bytes_def)
qed

lemma rune_space_braces: "\<not> rune_space (of_char (CHR ''{''))" "\<not> rune_space (of_char (CHR ''}''))"
  by (simp_all add: rune_space_def)

lemma hwm_names_differ:
  "\<not> equal_fold ''last_sig'' ''count''" "\<not> equal_fold ''sig'' ''count''" "\<not> equal_fold ''sig'' ''last_sig''"
  by (simp_all add: equal_fold_def runes_Cons_ascii fold_rune_def)

text \<open>The sidecar reads back as it was written.\<close>

lemma parse_checkpoint_file:
  assumes "- (2 ^ 63) \<le> hwm_count h" "hwm_count h < 2 ^ 63"
    and "coerce_utf8 (hwm_last_sig h) = hwm_last_sig h" "coerce_utf8 (hwm_sig h) = hwm_sig h"
  shows "parse_high_water_mark (checkpoint_file h) = Some h"
proof -
  let ?j = "JObj [(''count'', JNum (show_int (hwm_count h))), (''last_sig'', JStr (hwm_last_sig h)),
      (''sig'', JStr (hwm_sig h))]"
  have wf: "wf_json ?j"
    using assms(3,4) by (simp add: valid_show_int coerce_utf8_all_ascii)
  have "json_parse (json_print ?j) = Some ?j"
    by (rule json_roundtrip [OF wf]) (simp add: max_nesting_def)
  moreover have "trim_bytes (checkpoint_file h) = json_print ?j"
  proof -
    obtain u where u: "json_print ?j = CHR ''{'' # u @ [CHR ''}'']" by simp
    show ?thesis
      unfolding checkpoint_file_def marshal_hwm_def
      by (rule trim_trailing_newline [OF u, of "CHR ''{'' # u" "CHR ''}''"])
        (use u rune_space_braces in simp_all)
  qed
  moreover have "parse_int64 (show_int (hwm_count h)) = Some (hwm_count h)"
    by (rule parse_show_int [OF assms(1,2)])
  ultimately show ?thesis
    by (simp add: parse_high_water_mark_def put_hwm_member_def hwm_names_differ del: json_print.simps)
qed

subsection \<open>Trails as the writer lays them out\<close>

definition render_trail :: "event list \<Rightarrow> bytes" where
  "render_trail evs = concat (map (\<lambda>e. marshal_event e @ [newline]) evs)"

definition seal :: "(bytes \<Rightarrow> bytes \<Rightarrow> bytes) \<Rightarrow> bytes \<Rightarrow> event \<Rightarrow> event" where
  "seal signer prev ev = ev\<lparr>ev_sig := signer (marshal_event (ev\<lparr>ev_sig := []\<rparr>)) prev\<rparr>"

fun seal_all :: "(bytes \<Rightarrow> bytes \<Rightarrow> bytes) \<Rightarrow> bytes \<Rightarrow> event list \<Rightarrow> event list" where
  "seal_all signer prev [] = []"
| "seal_all signer prev (e # es) = seal signer prev e # seal_all signer (ev_sig (seal signer prev e)) es"

text \<open>Rows that the writer's checks accept and that encoding does not change.\<close>

definition row_ok :: "event \<Rightarrow> bool" where
  "row_ok ev \<longleftrightarrow>
     encodable ev \<and> validate_audit_event ev = None
     \<and> (schema_version ev = 2 \<longrightarrow> 0 \<le> ev_nock_id ev \<and> 0 \<le> parent_audit_seq ev)"

lemma marshal_event_shape: "\<exists>u. marshal_event ev = CHR ''{'' # u @ [CHR ''}'']"
  by (simp add: marshal_event_def event_tree_def)

lemma marshal_no_newline: "newline \<notin> set (marshal_event ev)"
proof -
  have "numbers_ok v" if "field_value f ev = Some v" for f v
    using that by (cases f) (auto simp: str_value_def int_value_def uint_value_def valid_show_int
        valid_show_nat split: if_splits)
  then have "numbers_ok (event_tree ev)"
    by (auto simp: event_tree_def list_all_iff split: option.splits)
  then show ?thesis
    using visible_print [of "event_tree ev"]
    by (fastforce simp: visible_def marshal_event_def newline_def)
qed

lemma marshal_trim [simp]: "trim_bytes (marshal_event ev) = marshal_event ev"
proof -
  obtain u where "marshal_event ev = CHR ''{'' # u @ [CHR ''}'']" using marshal_event_shape by blast
  then show ?thesis
    using trim_bytes_ascii [of "marshal_event ev" "CHR ''{''" "u @ [CHR ''}'']" "CHR ''{'' # u" "CHR ''}''"]
      rune_space_braces by simp
qed

lemma marshal_not_blank [simp]: "\<not> blank_line (marshal_event ev)"
  using marshal_event_shape [of ev] by (auto simp: blank_line_def)

lemma marshal_drop_cr [simp]: "drop_cr (marshal_event ev) = marshal_event ev"
proof -
  obtain u where "marshal_event ev = CHR ''{'' # u @ [CHR ''}'']" using marshal_event_shape by blast
  moreover have "CHR ''}'' \<noteq> char_of (13::nat)" by (simp flip: of_char_eq_iff [where 'a = nat])
  ultimately show ?thesis by (simp add: drop_cr_def)
qed

lemma split_rendered:
  "split_on newline (render_trail evs) = map marshal_event evs @ [[]]"
  by (induction evs) (simp_all add: render_trail_def split_on_append marshal_no_newline)

lemma scan_rendered:
  assumes "\<forall>e\<in>set evs. length (marshal_event e) < cap"
  shows "scan_lines cap (render_trail evs) = (map marshal_event evs, False)"
proof -
  have "scan_until cap (map marshal_event evs) = (map marshal_event evs, False)"
    using assms by (induction evs) auto
  then show ?thesis
    using split_rendered [of evs]
    by (simp add: scan_lines_def trail_lines_def)
qed

lemma validate_v2_sig:
  "validate_approval_actor (ev\<lparr>ev_sig := s\<rparr>) = validate_approval_actor ev"
  "validate_v2_event (ev\<lparr>ev_sig := s\<rparr>) m = validate_v2_event ev m"
proof -
  have "check_run_row (ev\<lparr>ev_sig := s\<rparr>) = check_run_row ev"
    "check_decision_row (ev\<lparr>ev_sig := s\<rparr>) = check_decision_row ev"
    "check_observation_row (ev\<lparr>ev_sig := s\<rparr>) = check_observation_row ev"
    "check_action_id (ev\<lparr>ev_sig := s\<rparr>) = check_action_id ev"
    by (simp_all add: check_run_row_def check_decision_row_def check_observation_row_def
        check_action_id_def split: list.split)
  moreover show "validate_approval_actor (ev\<lparr>ev_sig := s\<rparr>) = validate_approval_actor ev"
    by (simp add: validate_approval_actor_def)
  ultimately show "validate_v2_event (ev\<lparr>ev_sig := s\<rparr>) m = validate_v2_event ev m"
    by (simp add: validate_v2_event_def del: first_error.simps)
qed

lemma row_ok_sig:
  assumes "row_ok ev" and "coerce_utf8 s = s"
  shows "row_ok (ev\<lparr>ev_sig := s\<rparr>)"
proof -
  let ?e = "ev\<lparr>ev_sig := s\<rparr>"
  have fv: "field_value f ?e = (if f = FSig then str_value s else field_value f ev)" for f
    by (cases f) simp_all
  have "field_ok f ?e" for f
  proof (cases "f = FSig")
    case True
    then show ?thesis using assms(2) by (simp add: str_value_def)
  next
    case False
    have "field_ok f ev" using assms(1) set_all_fields [of f] by (simp add: row_ok_def encodable_def list_all_iff)
    then show ?thesis using False fv [of f] by simp
  qed
  then have "encodable ?e" using assms(1) by (simp add: row_ok_def encodable_def list_all_iff)
  moreover have "event_field_set ?e f = event_field_set ev f" for f
    unfolding event_field_set_def fv by (auto simp: v2_only_fields_def)
  then have "validate_audit_event ?e = validate_audit_event ev"
    by (simp add: validate_audit_event_def validate_v2_sig)
  ultimately show ?thesis using assms(1) by (simp add: row_ok_def)
qed

lemma seal_simps [simp]: "(seal signer p ev)\<lparr>ev_sig := []\<rparr> = ev\<lparr>ev_sig := []\<rparr>"
  "schema_version (seal signer p ev) = schema_version ev"
  by (simp_all add: seal_def)

lemma length_seal_all [simp]: "length (seal_all signer p evs) = length evs"
  by (induction evs arbitrary: p) auto

subsection \<open>The two signing modes\<close>

text \<open>
  What the chain needs of a signing mode. A key bundles the signing and the verifying side;
  \<open>good\<close> says that the primitives behave as documented for it.
\<close>

locale chain_mode =
  fixes good :: "'k \<Rightarrow> bool"
    and signer :: "'k \<Rightarrow> bytes \<Rightarrow> bytes \<Rightarrow> bytes"
    and chk :: "'k \<Rightarrow> sig_check"
  assumes accepts: "good k \<Longrightarrow> chk k c p (signer k c p) = None"
    and nonempty: "good k \<Longrightarrow> signer k c p \<noteq> []"
    and ascii: "x \<in> set (signer k c p) \<Longrightarrow> of_char x < (128::nat)"
begin

lemma seal_row_ok: "row_ok ev \<Longrightarrow> row_ok (seal (signer k) p ev)"
  unfolding seal_def using ascii by (intro row_ok_sig) (auto intro!: coerce_utf8_all_ascii)

lemma seal_all_row_ok: "\<forall>e\<in>set evs. row_ok e \<Longrightarrow> \<forall>e\<in>set (seal_all (signer k) p evs). row_ok e"
  by (induction evs arbitrary: p) (auto intro: seal_row_ok)

lemma walk_line_sealed:
  assumes "good k" and "row_ok ev"
  shows "walk_line (chk k) hwm (marshal_event (seal (signer k) (prev_sig w) ev)) w =
    Inr \<lparr>seen = Suc (seen w), prev_sig = ev_sig (seal (signer k) (prev_sig w) ev),
      sig_at_count = (case hwm of None \<Rightarrow> sig_at_count w
        | Some h \<Rightarrow> if int (Suc (seen w)) = hwm_count h
          then ev_sig (seal (signer k) (prev_sig w) ev) else sig_at_count w)\<rparr>"
proof -
  let ?s = "seal (signer k) (prev_sig w) ev"
  have ok: "row_ok ?s" by (rule seal_row_ok [OF assms(2)])
  have u: "unmarshal_event (marshal_event ?s) = Some ?s"
    using ok by (intro unmarshal_marshal_event) (simp add: row_ok_def)
  have v: "validate_audit_line (marshal_event ?s) ?s = None"
    using ok by (intro validate_line_of_event) (simp_all add: row_ok_def)
  have sg: "ev_sig ?s = signer k (marshal_event (ev\<lparr>ev_sig := []\<rparr>)) (prev_sig w)" by (simp add: seal_def)
  then have "ev_sig ?s \<noteq> []" "chk k (marshal_event (?s\<lparr>ev_sig := []\<rparr>)) (prev_sig w) (ev_sig ?s) = None"
    using nonempty [OF assms(1)] accepts [OF assms(1)] by simp_all
  then show ?thesis by (simp add: walk_line_def u v Let_def)
qed

lemma walk_sealed:
  assumes "good k" and "\<forall>e\<in>set evs. row_ok e"
  shows "\<exists>w'. walk_lines (chk k) hwm (map marshal_event (seal_all (signer k) (prev_sig w) evs)) w = (w', None)
    \<and> seen w' = seen w + length evs
    \<and> (\<forall>h. hwm = Some h \<longrightarrow> sig_at_count w' =
         (if int (seen w) < hwm_count h \<and> hwm_count h \<le> int (seen w + length evs)
          then ev_sig (seal_all (signer k) (prev_sig w) evs ! (nat (hwm_count h) - seen w - 1))
          else sig_at_count w))"
  using assms(2)
proof (induction evs arbitrary: w)
  case (Cons e es)
  let ?s = "seal (signer k) (prev_sig w) e"
  obtain w1 where w1: "walk_line (chk k) hwm (marshal_event ?s) w = Inr w1"
    and s1: "seen w1 = Suc (seen w)" "prev_sig w1 = ev_sig ?s"
      "sig_at_count w1 = (case hwm of None \<Rightarrow> sig_at_count w
        | Some h \<Rightarrow> if int (Suc (seen w)) = hwm_count h then ev_sig ?s else sig_at_count w)"
    by (rule that [OF walk_line_sealed [OF assms(1)]]) (use Cons.prems in simp_all)
  have es: "\<forall>e\<in>set es. row_ok e" using Cons.prems by simp
  obtain w' where w': "walk_lines (chk k) hwm (map marshal_event (seal_all (signer k) (prev_sig w1) es)) w1 = (w', None)"
    "seen w' = seen w1 + length es"
    "\<forall>h. hwm = Some h \<longrightarrow> sig_at_count w' =
         (if int (seen w1) < hwm_count h \<and> hwm_count h \<le> int (seen w1 + length es)
          then ev_sig (seal_all (signer k) (prev_sig w1) es ! (nat (hwm_count h) - seen w1 - 1))
          else sig_at_count w1)"
    using Cons.IH [OF es, of w1] by blast
  have "sig_at_count w' =
         (if int (seen w) < hwm_count h \<and> hwm_count h \<le> int (seen w + length (e # es))
          then ev_sig (seal_all (signer k) (prev_sig w) (e # es) ! (nat (hwm_count h) - seen w - 1))
          else sig_at_count w)" if h: "hwm = Some h" for h
  proof (cases "int (Suc (seen w)) = hwm_count h")
    case True
    then have "nat (hwm_count h) - seen w - 1 = 0" by simp
    then show ?thesis using w'(3) h True s1 by auto
  next
    case False
    show ?thesis
    proof (cases "int (seen w) < hwm_count h")
      case lt: True
      then obtain i where i: "nat (hwm_count h) - seen w - 1 = Suc i" "nat (hwm_count h) - seen w1 - 1 = i"
        using False s1(1) by (intro that [of "nat (hwm_count h) - seen w - 2"]) linarith+
      then show ?thesis using w'(3) h False lt s1 by auto
    next
      case False
      then show ?thesis using w'(3) h s1 by auto
    qed
  qed
  then show ?case using w1 w' s1 by auto
qed auto

text \<open>A trail the writer produced verifies, with a checkpoint at any of its entries.\<close>

lemma verify_sealed:
  fixes k evs
  defines "sealed \<equiv> seal_all (signer k) [] evs"
  assumes "good k" and "\<forall>e\<in>set evs. row_ok e" and "\<forall>e\<in>set sealed. length (marshal_event e) < cap"
    and "hwm_count h = int c" and "0 < c" and "c \<le> length evs"
    and "hwm_last_sig h = ev_sig (sealed ! (c - 1))"
    and "hwm_sig h = signer k (hwm_signed_bytes (hwm_count h) (hwm_last_sig h)) []"
  shows "verify_stream cap (chk k) (Some h) (render_trail sealed) = (length evs, None)"
proof -
  obtain w' where w': "walk_lines (chk k) (Some h) (map marshal_event sealed) start_walk = (w', None)"
    "seen w' = length evs" "sig_at_count w' = ev_sig (sealed ! (c - 1))"
    using walk_sealed [OF assms(2,3), of "Some h" start_walk] assms(5-7)
    by (auto simp: start_walk_def sealed_def)
  have "chk k (hwm_signed_bytes (hwm_count h) (hwm_last_sig h)) [] (hwm_sig h) = None"
    unfolding assms(9) by (rule accepts [OF assms(2)])
  then show ?thesis
    using scan_rendered [OF assms(4)] w' assms(5,7,8)
    by (simp add: verify_stream_def check_high_water_mark_def)
qed

text \<open>The same for the files of the trail, as the writer leaves them.\<close>

lemma verify_sealed_files:
  fixes k evs
  defines "sealed \<equiv> seal_all (signer k) [] evs"
  assumes "good k" and "\<forall>e\<in>set evs. row_ok e" and "\<forall>e\<in>set sealed. length (marshal_event e) < cap"
    and "0 < c" and "c \<le> length evs" and "int c < 2 ^ 63"
  shows "verify_files cap (chk k) (Content (render_trail sealed))
      (Content (checkpoint_file (checkpoint_of (signer k) (int c) (ev_sig (sealed ! (c - 1)))))) =
    (length evs, int c, None)"
proof -
  let ?h = "checkpoint_of (signer k) (int c) (ev_sig (sealed ! (c - 1)))"
  have ascii_sig: "\<forall>e\<in>set (seal_all (signer k) p es). coerce_utf8 (ev_sig e) = ev_sig e" for p es
    by (induction es arbitrary: p) (auto simp: seal_def ascii intro!: coerce_utf8_all_ascii)
  have "sealed ! (c - 1) \<in> set sealed" using assms(5,6) by (simp add: sealed_def)
  then have "coerce_utf8 (ev_sig (sealed ! (c - 1))) = ev_sig (sealed ! (c - 1))"
    using ascii_sig by (simp add: sealed_def)
  then have h: "parse_high_water_mark (checkpoint_file ?h) = Some ?h"
    by (intro parse_checkpoint_file) (use assms(7) ascii in \<open>auto intro!: coerce_utf8_all_ascii\<close>)
  have "verify_stream cap (chk k) (Some ?h) (render_trail sealed) = (length evs, None)"
    unfolding sealed_def
    by (rule verify_sealed [OF assms(2,3) assms(4) [unfolded sealed_def] _ assms(5,6)]) simp_all
  then show ?thesis using h by (simp add: verify_files_def verify_with_checkpoint_def)
qed

lemma sealed_sig:
  "i < length evs \<Longrightarrow> ev_sig (seal_all (signer k) p evs ! i) =
    signer k (marshal_event ((seal_all (signer k) p evs ! i)\<lparr>ev_sig := []\<rparr>))
      (if i = 0 then p else ev_sig (seal_all (signer k) p evs ! (i - 1)))"
proof (induction evs arbitrary: p i)
  case (Cons e es)
  show ?case
  proof (cases i)
    case 0
    then show ?thesis by (simp add: seal_def)
  next
    case (Suc m)
    then show ?thesis using Cons.IH [of m "ev_sig (seal (signer k) p e)"] Cons.prems
      by (cases m) simp_all
  qed
qed simp

end

text \<open>HMAC-SHA256: a key is the primitive and the shared key.\<close>

definition hmac_good :: "(bytes \<Rightarrow> bytes \<Rightarrow> bytes) \<times> bytes \<Rightarrow> bool" where
  "hmac_good k \<longleftrightarrow> (\<forall>m. fst k (snd k) m \<noteq> [])"

definition hmac_sign :: "(bytes \<Rightarrow> bytes \<Rightarrow> bytes) \<times> bytes \<Rightarrow> bytes \<Rightarrow> bytes \<Rightarrow> bytes" where
  "hmac_sign k = sign_line (fst k) (snd k)"

interpretation hmac_mode: chain_mode hmac_good hmac_sign "\<lambda>k. hmac_check (fst k) (snd k)"
  by unfold_locales
    (auto simp: hmac_good_def hmac_sign_def hmac_check_def sign_line_def dest: hex_encode_range)

text \<open>Ed25519: signing, verifying, the private key and its public key.\<close>

record ed25519_keys =
  ed_sign :: "bytes \<Rightarrow> bytes \<Rightarrow> bytes"
  ed_verify :: "bytes \<Rightarrow> bytes \<Rightarrow> bytes \<Rightarrow> bool"
  ed_priv :: bytes
  ed_pub :: bytes

definition ed_good :: "ed25519_keys \<Rightarrow> bool" where
  "ed_good k \<longleftrightarrow> (\<forall>m. ed_sign k (ed_priv k) m \<noteq> [] \<and> ed_verify k (ed_pub k) m (ed_sign k (ed_priv k) m))"

definition ed_sign_line :: "ed25519_keys \<Rightarrow> bytes \<Rightarrow> bytes \<Rightarrow> bytes" where
  "ed_sign_line k = sign_line_ed25519 (ed_sign k) (ed_priv k)"

interpretation ed_mode: chain_mode ed_good ed_sign_line "\<lambda>k. ed25519_check (ed_verify k) (ed_pub k)"
  by unfold_locales
    (auto simp: ed_good_def ed_sign_line_def ed25519_check_def sign_line_ed25519_def dest: hex_encode_range)

subsection \<open>Tamper evidence\<close>

definition canonical :: "event \<Rightarrow> bytes" where
  "canonical ev = marshal_event (ev\<lparr>ev_sig := []\<rparr>)"

definition prev_of :: "event list \<Rightarrow> nat \<Rightarrow> bytes" where
  "prev_of hs i = (if i = 0 then [] else ev_sig (hs ! (i - 1)))"

text \<open>The entries of a trail: the events of its lines that are not blank.\<close>

definition line_events :: "bytes list \<Rightarrow> event list" where
  "line_events ls =
     concat (map (\<lambda>l. if blank_line l then []
        else case unmarshal_event l of None \<Rightarrow> [] | Some ev \<Rightarrow> [ev]) ls)"

definition trail_events :: "nat \<Rightarrow> bytes \<Rightarrow> event list" where
  "trail_events cap trail = line_events (fst (scan_lines cap trail))"

lemma canonical_no_newline [simp]: "newline \<notin> set (canonical ev)"
  by (simp add: canonical_def marshal_no_newline)

text \<open>
  The history the writer signed: every entry has a signature that verifies in its place and in
  no other place of the history. The trail carries no forgery: the message of every entry of it
  that verifies is one the writer signed.
\<close>

definition history :: "sig_check \<Rightarrow> event list \<Rightarrow> bool" where
  "history chk hs \<longleftrightarrow>
     (\<forall>i<length hs. ev_sig (hs ! i) \<noteq> []
       \<and> (\<forall>j<length hs. chk (canonical (hs ! j)) (prev_of hs j) (ev_sig (hs ! i)) = None \<longleftrightarrow> j = i))"

definition unforged :: "sig_check \<Rightarrow> event list \<Rightarrow> event list \<Rightarrow> bool" where
  "unforged chk hs evs \<longleftrightarrow>
     (\<forall>k<length evs. chk (canonical (evs ! k)) (prev_of evs k) (ev_sig (evs ! k)) = None \<longrightarrow>
       (\<exists>i<length hs. canonical (evs ! k) = canonical (hs ! i) \<and> prev_of evs k = prev_of hs i))"

text \<open>What a walk without an error has checked.\<close>

definition linked :: "sig_check \<Rightarrow> bytes \<Rightarrow> event list \<Rightarrow> bool" where
  "linked chk p evs \<longleftrightarrow>
     (\<forall>k<length evs. ev_sig (evs ! k) \<noteq> []
       \<and> chk (canonical (evs ! k)) (if k = 0 then p else ev_sig (evs ! (k - 1))) (ev_sig (evs ! k)) = None)"

lemma linked_Cons:
  assumes "linked chk (ev_sig e) es" and "ev_sig e \<noteq> []" and "chk (canonical e) p (ev_sig e) = None"
  shows "linked chk p (e # es)"
  unfolding linked_def
proof (intro allI impI)
  fix k assume k: "k < length (e # es)"
  show "ev_sig ((e # es) ! k) \<noteq> [] \<and>
      chk (canonical ((e # es) ! k)) (if k = 0 then p else ev_sig ((e # es) ! (k - 1))) (ev_sig ((e # es) ! k)) = None"
  proof (cases k)
    case 0
    then show ?thesis using assms by simp
  next
    case (Suc m)
    then have "(if m = 0 then ev_sig e else ev_sig (es ! (m - 1))) = ev_sig ((e # es) ! m)"
      by (cases m) simp_all
    then show ?thesis using assms(1) k Suc by (auto simp: linked_def)
  qed
qed

lemma walk_linked:
  "walk_lines chk hwm ls w = (w', None) \<Longrightarrow>
    linked chk (prev_sig w) (line_events ls) \<and> seen w' = seen w + length (line_events ls)"
proof (induction ls arbitrary: w)
  case Nil
  then show ?case by (simp add: line_events_def linked_def)
next
  case (Cons l ls)
  obtain w1 where s: "walk_line chk hwm l w = Inr w1" and r: "walk_lines chk hwm ls w1 = (w', None)"
    using Cons.prems by (auto split: sum.splits)
  note IH = Cons.IH [OF r]
  show ?case
  proof (cases "blank_line l")
    case True
    then have "w1 = w" "line_events (l # ls) = line_events ls"
      using s by (simp_all add: walk_line_def line_events_def)
    then show ?thesis using IH by simp
  next
    case False
    then obtain ev where u: "unmarshal_event l = Some ev" and sig: "ev_sig ev \<noteq> []"
      and c: "chk (canonical ev) (prev_sig w) (ev_sig ev) = None"
      and w1: "seen w1 = Suc (seen w)" "prev_sig w1 = ev_sig ev"
      using s by (auto simp: walk_line_def canonical_def Let_def split: option.splits if_splits)
    have le: "line_events (l # ls) = ev # line_events ls" using False u by (simp add: line_events_def)
    have "linked chk (ev_sig ev) (line_events ls)" using IH w1(2) by simp
    then have "linked chk (prev_sig w) (ev # line_events ls)" using sig c by (rule linked_Cons)
    then show ?thesis using IH w1(1) le by simp
  qed
qed

lemma historyD:
  assumes "history chk hs" and "i < length hs"
  shows "ev_sig (hs ! i) \<noteq> []"
    and "j < length hs \<Longrightarrow> chk (canonical (hs ! j)) (prev_of hs j) (ev_sig (hs ! i)) = None \<Longrightarrow> j = i"
  using assms unfolding history_def by blast+

text \<open>Every entry of a linked trail without a forgery is in its original place.\<close>

lemma linked_in_place:
  assumes "history chk hs" and "unforged chk hs evs" and "linked chk [] evs"
  shows "k < length evs \<Longrightarrow>
    k < length hs \<and> canonical (evs ! k) = canonical (hs ! k) \<and> prev_of evs k = prev_of hs k"
proof (induction k)
  case 0
  have "chk (canonical (evs ! 0)) (prev_of evs 0) (ev_sig (evs ! 0)) = None"
    using assms(3) [unfolded linked_def, rule_format, OF 0] by (simp add: prev_of_def)
  then obtain i where i: "i < length hs" "canonical (evs ! 0) = canonical (hs ! i)" "prev_of evs 0 = prev_of hs i"
    using assms(2) 0 unfolding unforged_def by blast
  have "i = 0"
  proof (rule ccontr)
    assume "i \<noteq> 0"
    then have "ev_sig (hs ! (i - 1)) = []" using i(3) by (simp add: prev_of_def)
    moreover have "i - 1 < length hs" using i(1) by simp
    ultimately show False using historyD(1) [OF assms(1)] by blast
  qed
  then show ?case using i by simp
next
  case (Suc m)
  have c: "ev_sig (evs ! m) \<noteq> []" "chk (canonical (evs ! m)) (prev_of evs m) (ev_sig (evs ! m)) = None"
    "chk (canonical (evs ! Suc m)) (prev_of evs (Suc m)) (ev_sig (evs ! Suc m)) = None"
    using assms(3) [unfolded linked_def, rule_format, of m] assms(3) [unfolded linked_def, rule_format, OF Suc.prems]
      Suc.prems by (simp_all add: prev_of_def)
  obtain i where i: "i < length hs" "canonical (evs ! Suc m) = canonical (hs ! i)"
    "prev_of evs (Suc m) = prev_of hs i"
    using assms(2) Suc.prems c(3) unfolding unforged_def by blast
  have i0: "i \<noteq> 0" using i(3) c(1) by (cases i) (simp_all add: prev_of_def)
  have sg: "ev_sig (evs ! m) = ev_sig (hs ! (i - 1))" using i(3) i0 by (simp add: prev_of_def)
  have IH: "m < length hs" "canonical (evs ! m) = canonical (hs ! m)" "prev_of evs m = prev_of hs m"
    using Suc.IH Suc.prems by simp_all
  have lt: "i - 1 < length hs" using i(1) by simp
  have "m = i - 1"
    by (rule historyD(2) [OF assms(1) lt IH(1)]) (use c(2) IH sg in simp)
  then have "i = Suc m" using i0 by simp
  then show ?case using i by simp
qed

lemma verified_prefix:
  assumes "history chk hs" and "unforged chk hs (trail_events cap trail)"
    and "verify_stream cap chk hwm trail = (m, None)"
  shows "length (trail_events cap trail) = m" and "m \<le> length hs"
    and "map canonical (trail_events cap trail) = map canonical (take m hs)"
    and "\<forall>k<m. prev_of (trail_events cap trail) k = prev_of hs k"
    and "case hwm of None \<Rightarrow> m = 0 | Some h \<Rightarrow> hwm_count h \<le> int m"
proof -
  let ?evs = "trail_events cap trail"
  obtain ls tl where ls: "scan_lines cap trail = (ls, tl)" by fastforce
  obtain w e where w: "walk_lines chk hwm ls start_walk = (w, e)" by fastforce
  have e: "e = None" "seen w = m" and b: "check_high_water_mark hwm m (sig_at_count w) (\<lambda>x s. chk x [] s = None) = None"
    using assms(3) ls w by (auto simp: verify_stream_def split: option.splits if_splits)
  have lk: "linked chk [] ?evs" and len: "length ?evs = m"
    using walk_linked [of chk hwm ls start_walk w] w e ls by (simp_all add: trail_events_def start_walk_def)
  note pl = linked_in_place [OF assms(1,2) lk, unfolded len]
  show "length ?evs = m" by (rule len)
  show m: "m \<le> length hs"
  proof (cases m)
    case (Suc m')
    then show ?thesis using pl [of m'] by simp
  qed simp
  show "map canonical ?evs = map canonical (take m hs)"
    by (rule nth_equalityI) (use m len pl in auto)
  show "\<forall>k<m. prev_of ?evs k = prev_of hs k" using pl by blast
  show "case hwm of None \<Rightarrow> m = 0 | Some h \<Rightarrow> hwm_count h \<le> int m"
    using b by (auto simp: check_high_water_mark_def split: option.splits if_splits)
qed

lemma marshal_event_inj:
  assumes "encodable a" and "encodable b" and "marshal_event a = marshal_event b"
  shows "a = b"
proof -
  have "Some a = unmarshal_event (marshal_event a)" by (rule unmarshal_marshal_event [OF assms(1), symmetric])
  also have "\<dots> = unmarshal_event (marshal_event b)" by (rule arg_cong [OF assms(3)])
  also have "\<dots> = Some b" by (rule unmarshal_marshal_event [OF assms(2)])
  finally show ?thesis by (rule option.inject [THEN iffD1])
qed

lemma trail_events_render:
  assumes "\<forall>e\<in>set evs. encodable e \<and> length (marshal_event e) < cap"
  shows "trail_events cap (render_trail evs) = evs"
proof -
  have "line_events (map marshal_event evs) = evs"
    using assms by (induction evs) (simp_all add: line_events_def unmarshal_marshal_event)
  then show ?thesis using scan_rendered [of evs cap] assms by (simp add: trail_events_def)
qed

lemma unforged_refl: "unforged chk hs hs"
  unfolding unforged_def by blast

text \<open>
  What a writer with the HMAC key signed is a history when the authenticator does not collide
  on its own messages.
\<close>

lemma hmac_history:
  fixes hm key evs
  defines "hs \<equiv> seal_all (hmac_sign (hm, key)) [] evs"
  assumes "hmac_good (hm, key)"
    and "\<forall>i<length hs. \<forall>j<length hs.
      hm key (chained_message (canonical (hs ! j)) (prev_of hs j)) =
      hm key (chained_message (canonical (hs ! i)) (prev_of hs i)) \<longrightarrow> j = i"
  shows "history (hmac_check hm key) hs"
  unfolding history_def
proof (intro allI impI conjI)
  fix i assume i: "i < length hs"
  then have sg: "ev_sig (hs ! i) = sign_line hm key (canonical (hs ! i)) (prev_of hs i)"
    using hmac_mode.sealed_sig [of i evs "(hm, key)" "[]"]
    by (simp add: hs_def hmac_sign_def canonical_def prev_of_def)
  show "ev_sig (hs ! i) \<noteq> []"
    using hmac_mode.nonempty [OF assms(2)] sg by (simp add: hmac_sign_def)
  fix j assume j: "j < length hs"
  show "hmac_check hm key (canonical (hs ! j)) (prev_of hs j) (ev_sig (hs ! i)) = None \<longleftrightarrow> j = i"
    using assms(3) i j sg by (auto simp: hmac_check_def sign_line_def hex_encode_inj)
qed

subsection \<open>A small trail\<close>

definition demo_mac :: "bytes \<Rightarrow> bytes \<Rightarrow> bytes" where
  "demo_mac k m = k @ m"

definition demo_events :: "event list" where
  "demo_events =
     [zero_event\<lparr>ev_time := ''t0'', ev_agent := ''a'', ev_tool := ''read'', ev_decision := ''allow''\<rparr>,
      zero_event\<lparr>ev_time := ''t1'', ev_agent := ''a'', ev_tool := ''rm'', ev_decision := ''deny''\<rparr>]"

definition demo_sealed :: "event list" where
  "demo_sealed = seal_all (hmac_sign (demo_mac, ''k'')) [] demo_events"

definition demo_checkpoint :: high_water_mark where
  "demo_checkpoint = checkpoint_of (hmac_sign (demo_mac, ''k'')) 1 (ev_sig (demo_sealed ! 0))"

lemma demo_good: "hmac_good (demo_mac, ''k'')"
  by (simp add: hmac_good_def demo_mac_def)

lemma demo_row_ok: "\<forall>e\<in>set demo_events. row_ok e"
  by (simp add: demo_events_def row_ok_def encodable_def all_fields_def zero_event_def str_value_def
      int_value_def uint_value_def coerce_utf8_ascii validate_audit_event_def event_field_set_def
      v2_only_fields_def validate_approval_actor_def fails_def)

definition demo_cap :: nat where
  "demo_cap = Suc (length (render_trail demo_sealed))"

lemma rendered_short: "e \<in> set evs \<Longrightarrow> length (marshal_event e) < Suc (length (render_trail evs))"
  by (induction evs) (auto simp: render_trail_def)

lemma demo_short: "\<forall>e\<in>set demo_sealed. length (marshal_event e) < demo_cap"
  unfolding demo_cap_def using rendered_short by blast

lemma demo_history: "history (hmac_check demo_mac ''k'') demo_sealed"
  unfolding demo_sealed_def
proof (rule hmac_history [OF demo_good], intro allI impI)
  let ?hs = "seal_all (hmac_sign (demo_mac, ''k'')) [] demo_events"
  fix i j assume ij: "i < length ?hs" "j < length ?hs"
    and eq: "demo_mac ''k'' (chained_message (canonical (?hs ! j)) (prev_of ?hs j)) =
      demo_mac ''k'' (chained_message (canonical (?hs ! i)) (prev_of ?hs i))"
  have un: "split_on newline (canonical e @ newline # p) = canonical e # split_on newline p" for e p
    by (simp add: split_on_append)
  have "split_on newline (canonical (?hs ! j) @ newline # prev_of ?hs j) =
      split_on newline (canonical (?hs ! i) @ newline # prev_of ?hs i)"
    using eq by (simp add: demo_mac_def chained_message_def)
  then have "canonical (?hs ! j) = canonical (?hs ! i)" by (simp only: un list.inject)
  then have "marshal_event (demo_events ! j) = marshal_event (demo_events ! i)"
    using ij by (auto simp: canonical_def seal_def demo_events_def marshal_event_def zero_event_def less_Suc_eq
        numeral_2_eq_2)
  moreover have "encodable (demo_events ! j)" "encodable (demo_events ! i)"
    using demo_row_ok ij by (simp_all add: row_ok_def)
  ultimately have "demo_events ! j = demo_events ! i" by (intro marshal_event_inj)
  then show "j = i"
    using ij by (auto simp: demo_events_def zero_event_def less_Suc_eq numeral_2_eq_2)
qed

lemma demo_sealed_ok: "\<forall>e\<in>set demo_sealed. encodable e \<and> length (marshal_event e) < demo_cap"
  using hmac_mode.seal_all_row_ok [OF demo_row_ok] demo_short by (simp add: demo_sealed_def row_ok_def)

lemma demo_length: "length demo_events = 2"
  by (simp add: demo_events_def)

lemma demo_verifies:
  "verify_files demo_cap (hmac_check demo_mac ''k'') (Content (render_trail demo_sealed))
     (Content (checkpoint_file demo_checkpoint)) = (2, 1, None)"
  using hmac_mode.verify_sealed_files [OF demo_good demo_row_ok, of demo_cap 1] demo_short demo_length
  by (simp add: demo_sealed_def demo_checkpoint_def)

subsection \<open>What verification establishes\<close>

text \<open>
  C11. Tamper evidence. If the files of a trail verify, and no entry of the trail carries a
  signature forged for a message the writer never signed, then the entries of the trail are
  the first entries the writer signed, each at its original position, with its original
  content and predecessor signature: nothing was edited, inserted, reordered or removed from
  the middle. At least as many entries are left as the signed checkpoint records, and without
  a checkpoint only a trail with no entry is accepted.
\<close>

theorem trail_tamper_evident:
  assumes "history chk hs" and "unforged chk hs (trail_events cap trail)"
    and "verify_files cap chk (Content trail) hwm = (m, c, None)"
  shows "length (trail_events cap trail) = m \<and> m \<le> length hs
    \<and> map canonical (trail_events cap trail) = map canonical (take m hs)
    \<and> (\<forall>k<m. prev_of (trail_events cap trail) k = prev_of hs k)
    \<and> c \<le> int m \<and> (hwm = Absent \<longrightarrow> m = 0)"
proof -
  obtain h where v: "verify_stream cap chk h trail = (m, None)"
    and c: "c = (case h of None \<Rightarrow> 0 | Some x \<Rightarrow> hwm_count x)" and a: "hwm = Absent \<longrightarrow> h = None"
    using assms(3)
    by (auto simp: verify_files_def verify_with_checkpoint_def split: file_state.splits option.splits prod.splits)
  note p = verified_prefix [OF assms(1,2) v]
  have "c \<le> int m" using p(5) c by (cases h) simp_all
  moreover have "hwm = Absent \<longrightarrow> m = 0" using p(5) a by auto
  ultimately show ?thesis using p by blast
qed

theorem trail_tamper_evident_witness:
  "map canonical (trail_events demo_cap (render_trail demo_sealed)) = map canonical (take 2 demo_sealed)
    \<and> (1::int) \<le> int 2"
proof -
  have u: "unforged (hmac_check demo_mac ''k'') demo_sealed (trail_events demo_cap (render_trail demo_sealed))"
    unfolding trail_events_render [OF demo_sealed_ok] by (rule unforged_refl)
  show ?thesis using trail_tamper_evident [OF demo_history u demo_verifies] by blast
qed

lemma verify_stream_count:
  assumes "snd (verify_stream cap chk x trail) = None"
  shows "case x of None \<Rightarrow> length (trail_events cap trail) = 0
    | Some y \<Rightarrow> hwm_count y \<le> int (length (trail_events cap trail))"
  using assms walk_linked
  by (fastforce simp: verify_stream_def trail_events_def start_walk_def check_high_water_mark_def Let_def
      split: prod.splits option.splits if_splits)

text \<open>
  C15. Truncation at the tail. A trail with fewer entries than its checkpoint records, down to none at all, is refused against that checkpoint;
  a trail that is gone is refused with any checkpoint; and removing the checkpoint does not help: a trail with an entry and no checkpoint is
  refused too, although two comments of the source still describe that case as accepted.
\<close>

theorem truncated_trail_refused:
  assumes "parse_high_water_mark hwm = Some h" and "int (length (trail_events cap trail)) < hwm_count h"
  shows "snd (snd (verify_files cap chk (Content trail) (Content hwm))) \<noteq> None
    \<and> snd (snd (verify_files cap chk Absent x)) \<noteq> None
    \<and> (trail_events cap trail \<noteq> [] \<longrightarrow> snd (snd (verify_files cap chk (Content trail) Absent)) \<noteq> None)"
proof -
  have "snd (verify_stream cap chk (Some h) trail) \<noteq> None" "trail_events cap trail \<noteq> [] \<Longrightarrow> snd (verify_stream cap chk None trail) \<noteq> None"
    using verify_stream_count [of cap chk "Some h" trail] verify_stream_count [of cap chk None trail] assms(2) by auto
  then show ?thesis
    using assms(1) by (auto simp: verify_files_def verify_with_checkpoint_def case_prod_unfold Let_def split: file_state.split option.split)
qed

lemma demo_truncated:
  "parse_high_water_mark (checkpoint_file (checkpoint_of (hmac_sign (demo_mac, ''k'')) 3 [])) =
     Some (checkpoint_of (hmac_sign (demo_mac, ''k'')) 3 [])"
  by (rule parse_checkpoint_file)
    (auto intro!: coerce_utf8_all_ascii dest: hmac_mode.ascii)

theorem truncated_trail_refused_witness:
  "snd (snd (verify_files demo_cap (hmac_check demo_mac ''k'') (Content (render_trail demo_sealed))
      (Content (checkpoint_file (checkpoint_of (hmac_sign (demo_mac, ''k'')) 3 []))))) \<noteq> None
   \<and> snd (snd (verify_files demo_cap (hmac_check demo_mac ''k'') (Content [])
      (Content (checkpoint_file (checkpoint_of (hmac_sign (demo_mac, ''k'')) 3 []))))) \<noteq> None"
proof -
  have l: "length (trail_events demo_cap (render_trail demo_sealed)) = 2"
    unfolding trail_events_render [OF demo_sealed_ok] by (simp add: demo_sealed_def demo_length)
  have e: "trail_events demo_cap [] = []" using trail_events_render [of "[]" demo_cap] by (simp add: render_trail_def)
  show ?thesis
    by (intro conjI; rule truncated_trail_refused [OF demo_truncated, THEN conjunct1]) (simp_all add: l e)
qed

text \<open>
  An honest trail verifies (HMAC mode). Whatever rows the writer accepted, the files it
  leaves behind, the chained lines and a checkpoint over any of them in their JSON encoding,
  verify byte for byte, and verification reports all entries and the checkpoint's count.
\<close>

theorem honest_hmac_trail_verifies:
  assumes "hmac_good (hm, key)" and "\<forall>e\<in>set evs. row_ok e"
    and "\<forall>e\<in>set (seal_all (sign_line hm key) [] evs). length (marshal_event e) < cap"
    and "0 < c" and "c \<le> length evs" and "int c < 2 ^ 63"
  shows "verify_files cap (hmac_check hm key) (Content (render_trail (seal_all (sign_line hm key) [] evs)))
      (Content (checkpoint_file (checkpoint_of (sign_line hm key) (int c)
        (ev_sig (seal_all (sign_line hm key) [] evs ! (c - 1)))))) =
    (length evs, int c, None)"
proof -
  have s: "hmac_sign (hm, key) = sign_line hm key" by (rule ext)+ (simp add: hmac_sign_def)
  show ?thesis
    using hmac_mode.verify_sealed_files [OF assms(1,2) _ assms(4-6), of cap] assms(3) by (simp only: s fst_conv snd_conv)
qed

theorem honest_hmac_trail_verifies_witness:
  "verify_files demo_cap (hmac_check demo_mac ''k'')
      (Content (render_trail (seal_all (sign_line demo_mac ''k'') [] demo_events)))
      (Content (checkpoint_file (checkpoint_of (sign_line demo_mac ''k'') (int 2)
        (ev_sig (seal_all (sign_line demo_mac ''k'') [] demo_events ! (2 - 1)))))) =
    (length demo_events, int 2, None)"
proof -
  have s: "hmac_sign (demo_mac, ''k'') = sign_line demo_mac ''k''" by (rule ext)+ (simp add: hmac_sign_def)
  show ?thesis
    by (rule honest_hmac_trail_verifies [OF demo_good demo_row_ok demo_short [unfolded demo_sealed_def s]])
      (simp_all add: demo_length)
qed

text \<open>
  An honest trail verifies (Ed25519 mode), with the public key alone, when verification
  accepts what the private key signed.
\<close>

theorem honest_ed25519_trail_verifies:
  assumes "ed_good k" and "\<forall>e\<in>set evs. row_ok e"
    and "\<forall>e\<in>set (seal_all (sign_line_ed25519 (ed_sign k) (ed_priv k)) [] evs). length (marshal_event e) < cap"
    and "0 < c" and "c \<le> length evs" and "int c < 2 ^ 63"
  shows "verify_files cap (ed25519_check (ed_verify k) (ed_pub k))
      (Content (render_trail (seal_all (sign_line_ed25519 (ed_sign k) (ed_priv k)) [] evs)))
      (Content (checkpoint_file (checkpoint_of (sign_line_ed25519 (ed_sign k) (ed_priv k)) (int c)
        (ev_sig (seal_all (sign_line_ed25519 (ed_sign k) (ed_priv k)) [] evs ! (c - 1)))))) =
    (length evs, int c, None)"
proof -
  have s: "ed_sign_line k = sign_line_ed25519 (ed_sign k) (ed_priv k)" by (rule ext)+ (simp add: ed_sign_line_def)
  show ?thesis
    using ed_mode.verify_sealed_files [OF assms(1,2) _ assms(4-6), of cap] assms(3) by (simp only: s)
qed

definition demo_keys :: ed25519_keys where
  "demo_keys = \<lparr>ed_sign = (\<lambda>k m. k @ rev m), ed_verify = (\<lambda>p m s. s = p @ rev m), ed_priv = ''s'', ed_pub = ''s''\<rparr>"

definition demo_ed_sealed :: "event list" where
  "demo_ed_sealed = seal_all (sign_line_ed25519 (ed_sign demo_keys) (ed_priv demo_keys)) [] demo_events"

lemma demo_ed_good: "ed_good demo_keys"
  by (simp add: ed_good_def demo_keys_def)

theorem honest_ed25519_trail_verifies_witness:
  "verify_files (Suc (length (render_trail demo_ed_sealed))) (ed25519_check (ed_verify demo_keys) (ed_pub demo_keys))
      (Content (render_trail demo_ed_sealed))
      (Content (checkpoint_file (checkpoint_of (sign_line_ed25519 (ed_sign demo_keys) (ed_priv demo_keys)) (int 1)
        (ev_sig (demo_ed_sealed ! (1 - 1)))))) =
    (length demo_events, int 1, None)"
proof -
  have short: "\<forall>e\<in>set demo_ed_sealed. length (marshal_event e) < Suc (length (render_trail demo_ed_sealed))"
    using rendered_short by blast
  show ?thesis
    unfolding demo_ed_sealed_def
    by (rule honest_ed25519_trail_verifies [OF demo_ed_good demo_row_ok short [unfolded demo_ed_sealed_def]])
      (simp_all add: demo_length)
qed

text \<open>
  Domain separation. The message signed for a checkpoint is never the message signed for an
  entry, whatever the previous signature is, so no entry signature can be replayed as a
  checkpoint signature or the other way round.
\<close>

theorem checkpoint_domain_separated:
  "chained_message (hwm_signed_bytes c s) [] \<noteq> chained_message (marshal_event ev) prev"
proof -
  obtain u where "marshal_event ev = CHR ''{'' # u" using marshal_event_shape by blast
  then show ?thesis by (simp add: chained_message_def hwm_signed_bytes_def)
qed

lemma last_sig_seek_eq: "last_sig_seek s = last_sig_in_slice s"
proof (cases "s = []")
  case True
  then show ?thesis by (simp add: last_sig_seek_def last_sig_in_slice_def blank_line_def trim_bytes_def
      trim_left.simps)
next
  case False
  then show ?thesis unfolding last_sig_seek_def by (simp add: last_sig_windows_eq del: last_sig_windows.simps)
qed

text \<open>
  C34. No parser differential. For a line the verifier accepts, every member name of its JSON
  object, at any depth, occurs once; every name is the exact name of an event field; and the
  value that a reader of the bytes sees under a field's name is the value of that field in the
  decoded event, whose canonical bytes are the ones the signature is checked on. So a duplicate
  or differently capitalised member cannot show a reader something the signature does not cover.
\<close>

theorem accepted_line_unambiguous:
  assumes "unmarshal_event raw = Some ev" and "validate_audit_line raw ev = None"
  shows "\<exists>ms. json_parse raw = Some (JObj ms) \<and> no_dup_keys (JObj ms)
    \<and> (\<forall>k\<in>fst ` set ms. known_field k)
    \<and> (\<forall>f. case map_of ms (field_name f) of
          None \<Rightarrow> field_value f ev = field_value f zero_event
        | Some v \<Rightarrow> put_field f v zero_event = Some (copy_field f ev zero_event))"
proof -
  obtain ms where ms: "json_parse raw = Some (JObj ms)" "no_dup_keys (JObj ms)"
    and names: "first_error (map (check_field_name \<circ> fst) (collect ms)) = None"
    using assms(2)
    by (auto simp: validate_audit_line_def validate_line_tree_def Let_def first_error_None
        split: option.splits json.splits if_splits)
  have put: "put_members ms zero_event = Some ev" using assms(1) ms(1) by (simp add: unmarshal_event_def)
  have d: "distinct (map fst ms)" using ms(2) by simp
  have mo: "map_of (collect ms) = map_of ms"
  proof -
    have "map_of (rev ms) = map_of ms" using d by (subst map_of_inject_set) (simp_all add: rev_map [symmetric])
    then show ?thesis by simp
  qed
  have known: "\<forall>k\<in>fst ` set ms. known_field k"
  proof
    fix k assume "k \<in> fst ` set ms"
    then have "map_of (collect ms) k \<noteq> None" by (simp add: mo map_of_eq_None_iff)
    then have "k \<in> fst ` set (collect ms)" by (simp only: map_of_eq_None_iff not_not)
    then obtain m where m: "m \<in> set (collect ms)" "k = fst m" by blast
    then have "check_field_name (fst m) = None" using names by (simp only: first_error_None) (simp only: set_map ball_simps o_def)
    then show "known_field k" using m(2) by (simp add: check_field_name_def split: if_splits)
  qed
  have "case map_of ms (field_name f) of
          None \<Rightarrow> field_value f ev = field_value f zero_event
        | Some v \<Rightarrow> put_field f v zero_event = Some (copy_field f ev zero_event)" for f
    using put_members_alone [OF put d known, of f] copy_zero unset_field_value [of f ev]
    by (auto split: option.splits)
  then show ?thesis using ms known by blast
qed

lemma demo_event_ok: "row_ok (demo_events ! 0)"
  using demo_row_ok demo_length by simp

theorem accepted_line_unambiguous_witness:
  "\<exists>ms. json_parse (marshal_event (demo_events ! 0)) = Some (JObj ms) \<and> no_dup_keys (JObj ms)"
proof -
  have r: "encodable (demo_events ! 0)" "validate_audit_event (demo_events ! 0) = None"
    "schema_version (demo_events ! 0) = 2 \<longrightarrow> 0 \<le> ev_nock_id (demo_events ! 0) \<and> 0 \<le> parent_audit_seq (demo_events ! 0)"
    using demo_event_ok by (simp_all add: row_ok_def)
  show ?thesis
    using accepted_line_unambiguous [OF unmarshal_marshal_event [OF r(1)] validate_line_of_event [OF r]] by blast
qed

text \<open>
  Writer and verifier agree. A row that the writer's validation accepts, and that encoding
  does not change, is written as one line without a newline, decodes to the same event, and
  passes the verifier's stricter checks of the line.
\<close>

theorem writer_row_accepted_by_verifier:
  assumes "encodable ev" and "validate_audit_event ev = None"
    and "schema_version ev = 2 \<longrightarrow> 0 \<le> ev_nock_id ev \<and> 0 \<le> parent_audit_seq ev"
  shows "newline \<notin> set (marshal_event ev) \<and> unmarshal_event (marshal_event ev) = Some ev
    \<and> validate_audit_line (marshal_event ev) ev = None"
  using marshal_no_newline unmarshal_marshal_event [OF assms(1)] validate_line_of_event [OF assms] by blast

theorem writer_row_accepted_by_verifier_witness:
  "unmarshal_event (marshal_event (demo_events ! 1)) = Some (demo_events ! 1)
    \<and> validate_audit_line (marshal_event (demo_events ! 1)) (demo_events ! 1) = None"
proof -
  have "row_ok (demo_events ! 1)" using demo_row_ok demo_length by simp
  then have r: "encodable (demo_events ! 1)" "validate_audit_event (demo_events ! 1) = None"
    "schema_version (demo_events ! 1) = 2 \<longrightarrow> 0 \<le> ev_nock_id (demo_events ! 1) \<and> 0 \<le> parent_audit_seq (demo_events ! 1)"
    by (simp_all add: row_ok_def)
  show ?thesis using writer_row_accepted_by_verifier [OF r] by blast
qed

text \<open>
  Seeking the chain head from the end of the file in growing windows returns exactly what
  reading the whole file would: the signature of its last entry, no entry, or an undecodable
  last line.
\<close>

theorem last_sig_seek_correct: "last_sig_seek s = last_sig_in_slice s"
  by (rule last_sig_seek_eq)

end
