(* ===== verification/Completeness.thy ===== *)
theory Completeness
  imports AuditChain "HOL-Library.AList" "HOL-Library.List_Lexorder" "HOL-Library.Char_ord"
begin

text \<open>
  Assessment of recorded runs, \<^verbatim>\<open>internal/audit/completeness.go\<close>: one pass over a verified
  trail keeps a state per run and per action, and a verdict is read off at the end. Times are
  nanoseconds since the Unix epoch.
\<close>

subsection \<open>Time stamps\<close>

text \<open>\<open>time.Parse(time.RFC3339, s)\<close>.\<close>

definition take_digits :: "nat \<Rightarrow> bytes \<Rightarrow> (nat \<times> bytes) option" where
  "take_digits n s =
     (if n \<le> length s \<and> list_all is_digit (take n s)
      then Some (digits_value (take n s), drop n s) else None)"

fun expect :: "char \<Rightarrow> bytes \<Rightarrow> bytes option" where
  "expect c (d # s) = (if c = d then Some s else None)"
| "expect c [] = None"

text \<open>The hour may have one digit; the other fields have a fixed width.\<close>

definition take_hour :: "bytes \<Rightarrow> (nat \<times> bytes) option" where
  "take_hour s = (case take_digits 2 s of None \<Rightarrow> take_digits 1 s | r \<Rightarrow> r)"

text \<open>Fractional seconds, of which nine digits count.\<close>

definition take_fraction :: "bytes \<Rightarrow> nat \<times> bytes" where
  "take_fraction s =
     (case s of
        c # t \<Rightarrow>
          let ds = takeWhile is_digit t in
          if (c = CHR ''.'' \<or> c = CHR '','') \<and> ds \<noteq> []
          then (digits_value (take 9 (ds @ replicate 9 CHR ''0'')), drop (length ds) t)
          else (0, s)
      | [] \<Rightarrow> (0, s))"

text \<open>Seconds east of UTC.\<close>

definition parse_zone :: "bytes \<Rightarrow> int option" where
  "parse_zone s =
     (if s = ''Z'' then Some 0
      else case s of
          [] \<Rightarrow> None
        | g # t \<Rightarrow>
            (case take_digits 2 t of
               None \<Rightarrow> None
             | Some (h, t1) \<Rightarrow>
                 (case Option.bind (expect CHR '':'' t1) (take_digits 2) of
                    Some (m, []) \<Rightarrow>
                      if h > 24 \<or> m > 60 then None
                      else if g = CHR ''+'' then Some (int (h * 3600 + m * 60))
                      else if g = CHR ''-'' then Some (- int (h * 3600 + m * 60))
                      else None
                  | _ \<Rightarrow> None)))"

definition leap_year :: "nat \<Rightarrow> bool" where
  "leap_year y \<longleftrightarrow> y mod 4 = 0 \<and> (y mod 100 \<noteq> 0 \<or> y mod 400 = 0)"

definition month_days :: "nat \<Rightarrow> nat list" where
  "month_days y = [31, if leap_year y then 29 else 28, 31, 30, 31, 30, 31, 31, 30, 31, 30, 31]"

definition days_before_year :: "nat \<Rightarrow> int" where
  "days_before_year y =
     (let p = int y - 1 in 365 * int y + p div 4 - p div 100 + p div 400)"

definition epoch_days :: "nat \<Rightarrow> nat \<Rightarrow> nat \<Rightarrow> int" where
  "epoch_days y m d =
     days_before_year y + int (sum_list (take (m - 1) (month_days y))) + int d - 1
     - days_before_year 1970"

definition parse_rfc3339 :: "bytes \<Rightarrow> int option" where
  "parse_rfc3339 s =
     Option.bind (take_digits 4 s) (\<lambda>(y, s).
     Option.bind (expect CHR ''-'' s) (\<lambda>s.
     Option.bind (take_digits 2 s) (\<lambda>(mo, s).
     Option.bind (expect CHR ''-'' s) (\<lambda>s.
     Option.bind (take_digits 2 s) (\<lambda>(d, s).
     Option.bind (expect CHR ''T'' s) (\<lambda>s.
     Option.bind (take_hour s) (\<lambda>(h, s).
     Option.bind (expect CHR '':'' s) (\<lambda>s.
     Option.bind (take_digits 2 s) (\<lambda>(mi, s).
     Option.bind (expect CHR '':'' s) (\<lambda>s.
     Option.bind (take_digits 2 s) (\<lambda>(se, s).
     let (ns, s) = take_fraction s in
     Option.bind (parse_zone s) (\<lambda>off.
       if mo = 0 \<or> mo > 12 \<or> h > 23 \<or> mi > 59 \<or> se > 59 \<or> d = 0 \<or> d > month_days y ! (mo - 1) then None
       else Some ((epoch_days y mo d * 86400 + int (h * 3600 + mi * 60 + se) - off) * 1000000000 + int ns)))))))))))))"

definition second :: int where
  "second = 1000000000"

subsection \<open>Runs and actions\<close>

record action_state =
  act_dispatch :: bool
  act_terminal :: bool
  act_unknown :: bool
  act_decisions :: nat
  act_late :: bool

record run_state =
  rs_count :: u64
  rs_head :: bytes
  rs_open :: bool
  rs_closed :: bool
  rs_latest :: int
  rs_future :: bool
  rs_broken :: bool
  rs_actions :: "(bytes \<times> action_state) list"

definition new_action :: action_state where
  "new_action =
     \<lparr>act_dispatch = False, act_terminal = False, act_unknown = False, act_decisions = 0, act_late = False\<rparr>"

text \<open>The zero \<open>time.Time\<close> is the first instant of year 1.\<close>

definition new_run :: run_state where
  "new_run =
     \<lparr>rs_count = 0, rs_head = [], rs_open = False, rs_closed = False,
      rs_latest = epoch_days 1 1 1 * 86400 * second, rs_future = False, rs_broken = False, rs_actions = []\<rparr>"

definition break_if :: "bool \<Rightarrow> run_state \<Rightarrow> run_state" where
  "break_if b r = (if b then r\<lparr>rs_broken := True\<rparr> else r)"

text \<open>An open or heartbeat row: the run must be open, and the stamp must parse.\<close>

definition step_beat :: "int \<Rightarrow> event \<Rightarrow> run_state \<Rightarrow> run_state" where
  "step_beat now ev r =
     (let r = break_if (\<not> rs_open r \<or> rs_closed r) r in
      case parse_rfc3339 (ev_time ev) of
        None \<Rightarrow> break_if True r
      | Some t \<Rightarrow> r\<lparr>rs_future := (rs_future r \<or> t > now + 30 * second), rs_latest := t\<rparr>)"

definition step_run_row :: "int \<Rightarrow> event \<Rightarrow> run_state \<Rightarrow> run_state" where
  "step_run_row now ev r =
     (if run_event ev = ''open'' then
        (let r = break_if (rs_open r) r in step_beat now ev (r\<lparr>rs_open := True\<rparr>))
      else if run_event ev = ''heartbeat'' then step_beat now ev r
      else if run_event ev = ''close'' then
        (break_if (\<not> rs_open r \<or> run_count ev \<noteq> rs_count r \<or> run_head ev \<noteq> rs_head r) r)\<lparr>rs_closed := True\<rparr>
      else break_if True r)"

definition find_action :: "bytes \<Rightarrow> run_state \<Rightarrow> action_state" where
  "find_action aid r = (case map_of (rs_actions r) aid of None \<Rightarrow> new_action | Some a \<Rightarrow> a)"

definition put_action :: "bytes \<Rightarrow> action_state \<Rightarrow> run_state \<Rightarrow> run_state" where
  "put_action aid a r = r\<lparr>rs_actions := AList.update aid a (rs_actions r)\<rparr>"

text \<open>A transition of one action: whether it breaks the run, and the new state.\<close>

definition step_action :: "event \<Rightarrow> action_state \<Rightarrow> bool \<times> action_state" where
  "step_action ev a =
     (if record_type ev = ''decision'' then
        (act_terminal a \<or> (ev_decision ev = ''dispatch'' \<and> act_dispatch a),
         a\<lparr>act_decisions := Suc (act_decisions a),
           act_dispatch := (act_dispatch a \<or> ev_decision ev = ''dispatch'')\<rparr>)
      else if record_type ev = ''action_observation'' then
        if observation ev = ''late_response_observed'' then
          (\<not> act_unknown a \<or> act_late a, a\<lparr>act_late := True\<rparr>)
        else
          (act_decisions a = 0 \<or> act_terminal a \<or> (observation ev = ''not_forwarded'') = act_dispatch a,
           a\<lparr>act_terminal := True, act_unknown := (observation ev = ''outcome_unknown'')\<rparr>)
      else (False, a))"

definition step_body :: "int \<Rightarrow> event \<Rightarrow> run_state \<Rightarrow> run_state" where
  "step_body now ev r =
     (if record_type ev = ''run'' then step_run_row now ev r
      else if action_id ev \<noteq> [] then
        (let (bad, a) = step_action ev (find_action (action_id ev) r) in
         put_action (action_id ev) a (break_if bad r))
      else break_if (record_type ev \<noteq> ''decision''
          \<or> ev_decision ev \<notin> {''method-allow'', ''method-deny'', ''hide''}) r)"

definition step_run :: "int \<Rightarrow> event \<Rightarrow> run_state \<Rightarrow> run_state" where
  "step_run now ev r =
     (let r1 = break_if (ev_sig ev = [] \<or> validate_audit_event ev \<noteq> None \<or> rs_closed r
             \<or> run_seq ev \<noteq> rs_count r + 1) r;
          r2 = break_if (rs_count r1 = 0 \<and> (record_type ev \<noteq> ''run'' \<or> run_event ev \<noteq> ''open'')) r1;
          r3 = step_body now ev r2 in
      r3\<lparr>rs_count := rs_count r3 + 1, rs_head := ev_sig ev\<rparr>)"

subsection \<open>The pass over the trail\<close>

record scan_state =
  sc_runs :: "(bytes \<times> run_state) list"
  sc_legacy :: bool
  sc_rows :: nat
  sc_signed :: bool

definition scan_row :: "int \<Rightarrow> bytes \<Rightarrow> scan_state \<Rightarrow> scan_state" where
  "scan_row now raw s =
     (let line = trim_bytes raw in
      if line = [] then s
      else case unmarshal_event line of
          None \<Rightarrow> s\<lparr>sc_rows := Suc (sc_rows s), sc_legacy := True\<rparr>
        | Some ev \<Rightarrow>
            let s = s\<lparr>sc_rows := Suc (sc_rows s), sc_signed := (sc_signed s \<or> ev_sig ev \<noteq> [])\<rparr> in
            if schema_version ev \<noteq> 2 then s\<lparr>sc_legacy := True\<rparr>
            else
              let r = (case map_of (sc_runs s) (run_id ev) of None \<Rightarrow> new_run | Some r \<Rightarrow> r) in
              s\<lparr>sc_runs := AList.update (run_id ev) (step_run now ev r) (sc_runs s)\<rparr>)"

definition start_scan :: scan_state where
  "start_scan = \<lparr>sc_runs = [], sc_legacy = False, sc_rows = 0, sc_signed = False\<rparr>"

datatype run_verdict = Unassessable | Unverified | Broken | Incomplete | Limited | InProgress

datatype run_reason =
    TrailUnsigned | TrailUnchecked | NoLifecycle | NotExclusivelyV2 | NoOpen bytes | BadStructure
  | FutureStamp | MissingTerminal | CompleteStream | StaleHeartbeat | RecentHeartbeat

record run_assessment =
  as_run :: bytes
  as_verdict :: run_verdict
  as_reason :: run_reason

definition incomplete :: "run_state \<Rightarrow> bool" where
  "incomplete r \<longleftrightarrow> list_ex (\<lambda>(k, a). \<not> act_terminal a) (rs_actions r)"

definition assess_run :: "bool \<Rightarrow> bool \<Rightarrow> bool \<Rightarrow> int \<Rightarrow> bytes \<Rightarrow> run_state \<Rightarrow> run_verdict \<times> run_reason" where
  "assess_run checkpointed legacy no_sigs now rid r =
     (if \<not> checkpointed \<or> legacy then (Unassessable, NotExclusivelyV2)
      else if no_sigs then (Unassessable, TrailUnsigned)
      else if \<not> rs_open r then (Broken, NoOpen rid)
      else if rs_broken r then (Broken, BadStructure)
      else if rs_future r then (Unassessable, FutureStamp)
      else if rs_closed r \<and> incomplete r then (Incomplete, MissingTerminal)
      else if rs_closed r then (Limited, CompleteStream)
      else if now - rs_latest r \<ge> 90 * second then (Incomplete, StaleHeartbeat)
      else (InProgress, RecentHeartbeat))"

definition assess_runs :: "nat \<Rightarrow> bytes \<Rightarrow> bool \<Rightarrow> int \<Rightarrow> run_assessment list" where
  "assess_runs cap trail checkpointed now =
     (let (ls, too_long) = scan_lines cap trail;
          s = fold (scan_row now) ls start_scan;
          checkpointed = (checkpointed \<and> \<not> too_long);
          no_sigs = (sc_rows s > 0 \<and> \<not> sc_signed s) in
      if sc_runs s = [] then
        [if no_sigs then \<lparr>as_run = [], as_verdict = Unassessable, as_reason = TrailUnsigned\<rparr>
         else if \<not> checkpointed then \<lparr>as_run = [], as_verdict = Unassessable, as_reason = TrailUnchecked\<rparr>
         else \<lparr>as_run = [], as_verdict = Unverified, as_reason = NoLifecycle\<rparr>]
      else map (\<lambda>rid.
             let (v, why) = assess_run checkpointed (sc_legacy s) no_sigs now rid (the (map_of (sc_runs s) rid)) in
             \<lparr>as_run = rid, as_verdict = v, as_reason = why\<rparr>)
           (sort (map fst (sc_runs s))))"

subsection \<open>One run at a time\<close>

text \<open>The rows of a trail, and those of one run.\<close>

definition trail_rows :: "bytes list \<Rightarrow> event list" where
  "trail_rows ls =
     concat (map (\<lambda>raw. if trim_bytes raw = [] then []
        else case unmarshal_event (trim_bytes raw) of None \<Rightarrow> [] | Some ev \<Rightarrow> [ev]) ls)"

definition rows_of :: "bytes \<Rightarrow> event list \<Rightarrow> event list" where
  "rows_of rid evs = filter (\<lambda>e. schema_version e = 2 \<and> run_id e = rid) evs"

lemma trail_rows_Cons: "trail_rows (raw # ls) =
    (if trim_bytes raw = [] then [] else case unmarshal_event (trim_bytes raw) of None \<Rightarrow> [] | Some ev \<Rightarrow> [ev])
    @ trail_rows ls"
  by (simp add: trail_rows_def)

lemma scan_runs:
  "map_of (sc_runs (fold (scan_row now) ls s)) rid =
    (if rows_of rid (trail_rows ls) = [] then map_of (sc_runs s) rid
     else Some (fold (step_run now) (rows_of rid (trail_rows ls))
       (case map_of (sc_runs s) rid of None \<Rightarrow> new_run | Some r \<Rightarrow> r)))"
proof (induction ls arbitrary: s)
  case Nil
  then show ?case by (simp add: trail_rows_def rows_of_def)
next
  case (Cons raw ls)
  consider "trim_bytes raw = []" | "trim_bytes raw \<noteq> []" "unmarshal_event (trim_bytes raw) = None"
    | ev where "trim_bytes raw \<noteq> []" "unmarshal_event (trim_bytes raw) = Some ev"
    by blast
  then show ?case
  proof cases
    case 1
    then have "scan_row now raw s = s" by (simp add: scan_row_def)
    then show ?thesis using Cons.IH [of s] 1 by (simp add: trail_rows_Cons)
  next
    case 2
    then have "sc_runs (scan_row now raw s) = sc_runs s" by (simp add: scan_row_def Let_def)
    then show ?thesis using Cons.IH [of "scan_row now raw s"] 2 by (simp add: trail_rows_Cons)
  next
    case 3
    have t: "trail_rows (raw # ls) = ev # trail_rows ls" using 3 by (simp add: trail_rows_Cons)
    show ?thesis
    proof (cases "schema_version ev = 2")
      case False
      then have "sc_runs (scan_row now raw s) = sc_runs s" using 3 by (simp add: scan_row_def Let_def)
      then show ?thesis using Cons.IH [of "scan_row now raw s"] False by (simp add: t rows_of_def)
    next
      case True
      let ?r = "case map_of (sc_runs s) (run_id ev) of None \<Rightarrow> new_run | Some r \<Rightarrow> r"
      have "sc_runs (scan_row now raw s) = AList.update (run_id ev) (step_run now ev ?r) (sc_runs s)"
        using 3 True by (simp add: scan_row_def Let_def)
      then have m: "map_of (sc_runs (scan_row now raw s)) = (map_of (sc_runs s))(run_id ev \<mapsto> step_run now ev ?r)"
        by (simp add: update_conv')
      show ?thesis
      proof (cases "run_id ev = rid")
        case True
        then show ?thesis
          using Cons.IH [of "scan_row now raw s"] \<open>schema_version ev = 2\<close> m by (simp add: t rows_of_def)
      next
        case False
        then show ?thesis using Cons.IH [of "scan_row now raw s"] m by (simp add: t rows_of_def)
      qed
    qed
  qed
qed

lemma scan_run_fresh:
  "map_of (sc_runs (fold (scan_row now) ls start_scan)) rid =
    (if rows_of rid (trail_rows ls) = [] then None
     else Some (fold (step_run now) (rows_of rid (trail_rows ls)) new_run))"
  by (simp add: scan_runs start_scan_def)

lemma distinct_scan_runs: "distinct (map fst (sc_runs s)) \<Longrightarrow> distinct (map fst (sc_runs (fold (scan_row now) ls s)))"
proof (induction ls arbitrary: s)
  case (Cons raw ls)
  have "distinct (map fst (sc_runs (scan_row now raw s)))"
    using Cons.prems distinct_update by (auto simp: scan_row_def Let_def split: option.splits)
  then show ?case using Cons.IH by simp
qed simp

subsection \<open>Actions\<close>

definition is_dispatch :: "event \<Rightarrow> bool" where
  "is_dispatch e \<longleftrightarrow> record_type e = ''decision'' \<and> ev_decision e = ''dispatch''"

definition is_terminal :: "event \<Rightarrow> bool" where
  "is_terminal e \<longleftrightarrow> record_type e = ''action_observation'' \<and> observation e \<noteq> ''late_response_observed''"

definition is_decision :: "event \<Rightarrow> bool" where
  "is_decision e \<longleftrightarrow> record_type e = ''decision''"

definition action_rows :: "bytes \<Rightarrow> event list \<Rightarrow> event list" where
  "action_rows aid rows = filter (\<lambda>e. record_type e \<noteq> ''run'' \<and> action_id e = aid) rows"

text \<open>What an action's state says of its rows when no transition was bad.\<close>

definition action_inv :: "event list \<Rightarrow> action_state \<Rightarrow> bool" where
  "action_inv rs a \<longleftrightarrow>
     length (filter is_dispatch rs) = (if act_dispatch a then 1 else 0)
     \<and> length (filter is_terminal rs) = (if act_terminal a then 1 else 0)
     \<and> act_decisions a = length (filter is_decision rs)
     \<and> (act_terminal a \<longrightarrow> act_decisions a > 0
         \<and> (\<forall>e\<in>set rs. is_terminal e \<longrightarrow> (observation e = ''not_forwarded'' \<longleftrightarrow> \<not> act_dispatch a)))"

lemma action_inv_new: "action_inv [] new_action"
  by (simp add: action_inv_def new_action_def)

lemma action_inv_step:
  assumes "action_inv rs a" and "step_action e a = (False, a')"
  shows "action_inv (rs @ [e]) a'"
proof -
  consider (dec) "record_type e = ''decision''"
    | (late) "record_type e = ''action_observation''" "observation e = ''late_response_observed''"
    | (final) "record_type e = ''action_observation''" "observation e \<noteq> ''late_response_observed''"
    | (other) "record_type e \<noteq> ''decision''" "record_type e \<noteq> ''action_observation''"
    by blast
  then show ?thesis
  proof cases
    case dec
    then show ?thesis using assms
      by (auto simp: step_action_def action_inv_def is_dispatch_def is_terminal_def is_decision_def)
  next
    case late
    then show ?thesis using assms
      by (auto simp: step_action_def action_inv_def is_dispatch_def is_terminal_def is_decision_def)
  next
    case final
    have n: "\<not> act_terminal a" "act_decisions a \<noteq> 0" "(observation e = ''not_forwarded'') \<noteq> act_dispatch a"
      and a': "a' = a\<lparr>act_terminal := True, act_unknown := (observation e = ''outcome_unknown'')\<rparr>"
      using assms(2) final by (auto simp: step_action_def)
    have "filter is_terminal rs = []" using assms(1) n(1) by (simp add: action_inv_def)
    then have "\<forall>x\<in>set rs. \<not> is_terminal x" by (simp add: filter_empty_conv)
    then show ?thesis using assms(1) n final
      by (auto simp: a' action_inv_def is_dispatch_def is_terminal_def is_decision_def)
  next
    case other
    then show ?thesis using assms
      by (auto simp: step_action_def action_inv_def is_dispatch_def is_terminal_def is_decision_def)
  qed
qed

subsection \<open>Runs\<close>

definition is_run_close :: "event \<Rightarrow> bool" where
  "is_run_close e \<longleftrightarrow> record_type e = ''run'' \<and> run_event e = ''close''"

definition is_run_open :: "event \<Rightarrow> bool" where
  "is_run_open e \<longleftrightarrow> record_type e = ''run'' \<and> run_event e = ''open''"

definition head_of :: "event list \<Rightarrow> bytes" where
  "head_of rows = (if rows = [] then [] else ev_sig (last rows))"

text \<open>What an unbroken state says of the rows of the run.\<close>

definition run_inv :: "event list \<Rightarrow> run_state \<Rightarrow> bool" where
  "run_inv rows r \<longleftrightarrow>
     (\<forall>e\<in>set rows. ev_sig e \<noteq> [] \<and> validate_audit_event e = None)
     \<and> map run_seq rows = map (\<lambda>i. word_of_nat (Suc i)) [0..<length rows]
     \<and> rs_count r = word_of_nat (length rows) \<and> rs_head r = head_of rows
     \<and> (rows \<noteq> [] \<longrightarrow> is_run_open (hd rows) \<and> rs_open r)
     \<and> (\<forall>e\<in>set (tl rows). \<not> is_run_open e)
     \<and> (\<forall>e\<in>set (butlast rows). \<not> is_run_close e)
     \<and> (rs_closed r \<longleftrightarrow> rows \<noteq> [] \<and> is_run_close (last rows))
     \<and> (rs_closed r \<longrightarrow> run_count (last rows) = word_of_nat (length rows - 1)
         \<and> run_head (last rows) = head_of (butlast rows))
     \<and> (\<forall>aid. aid \<noteq> [] \<longrightarrow> (if action_rows aid rows = [] then map_of (rs_actions r) aid = None
          else \<exists>a. map_of (rs_actions r) aid = Some a \<and> action_inv (action_rows aid rows) a))"

lemma run_inv_new: "run_inv [] new_run"
  by (simp add: run_inv_def new_run_def head_of_def action_rows_def)

lemma broken_mono:
  "rs_broken r \<Longrightarrow> rs_broken (break_if b r)" "rs_broken r \<Longrightarrow> rs_broken (step_beat now e r)"
  by (auto simp: break_if_def step_beat_def Let_def split: option.splits)

lemma broken_step_body: "rs_broken r \<Longrightarrow> rs_broken (step_body now e r)"
  by (auto simp: step_body_def step_run_row_def Let_def put_action_def broken_mono case_prod_unfold)

lemma broken_step_run: "rs_broken r \<Longrightarrow> rs_broken (step_run now e r)"
  unfolding step_run_def Let_def by (simp add: broken_mono broken_step_body)

lemma break_if_not: "\<not> rs_broken (break_if b r) \<Longrightarrow> \<not> b \<and> break_if b r = r"
  by (simp add: break_if_def split: if_splits)

text \<open>A step that does not break: its guards, and its effect.\<close>

lemma step_run_guards:
  assumes "\<not> rs_broken (step_run now e r)"
  shows "ev_sig e \<noteq> []" "validate_audit_event e = None" "\<not> rs_closed r" "run_seq e = rs_count r + 1"
    "rs_count r = 0 \<Longrightarrow> is_run_open e" "\<not> rs_broken (step_body now e r)"
    "step_run now e r = (step_body now e r)\<lparr>rs_count := rs_count (step_body now e r) + 1, rs_head := ev_sig e\<rparr>"
proof -
  let ?b1 = "ev_sig e = [] \<or> validate_audit_event e \<noteq> None \<or> rs_closed r \<or> run_seq e \<noteq> rs_count r + 1"
  let ?r1 = "break_if ?b1 r"
  let ?b2 = "rs_count ?r1 = 0 \<and> (record_type e \<noteq> ''run'' \<or> run_event e \<noteq> ''open'')"
  let ?r2 = "break_if ?b2 ?r1"
  have s: "step_run now e r = (step_body now e ?r2)\<lparr>rs_count := rs_count (step_body now e ?r2) + 1, rs_head := ev_sig e\<rparr>"
    by (simp only: step_run_def Let_def)
  have b: "\<not> rs_broken (step_body now e ?r2)" using assms unfolding s by simp
  then have "\<not> rs_broken ?r2" using broken_step_body by blast
  then have 2: "\<not> ?b2" "?r2 = ?r1" using break_if_not by blast+
  then have "\<not> rs_broken ?r1" using \<open>\<not> rs_broken ?r2\<close> by simp
  then have 1: "\<not> ?b1" "?r1 = r" using break_if_not by blast+
  have eq: "?r2 = r" using 1(2) 2(2) by simp
  show "ev_sig e \<noteq> []" "validate_audit_event e = None" "\<not> rs_closed r" "run_seq e = rs_count r + 1"
    using 1(1) by simp_all
  show "is_run_open e" if "rs_count r = 0" using 2(1) 1(2) that by (simp add: is_run_open_def)
  show "\<not> rs_broken (step_body now e r)" using b eq by simp
  show "step_run now e r = (step_body now e r)\<lparr>rs_count := rs_count (step_body now e r) + 1, rs_head := ev_sig e\<rparr>"
    using s eq by simp
qed

lemma step_beat_simps [simp]:
  "rs_count (step_beat now e r) = rs_count r" "rs_head (step_beat now e r) = rs_head r"
  "rs_open (step_beat now e r) = rs_open r" "rs_closed (step_beat now e r) = rs_closed r"
  "rs_actions (step_beat now e r) = rs_actions r"
  by (auto simp: step_beat_def break_if_def Let_def split: option.splits)

lemma break_if_simps [simp]:
  "rs_count (break_if b r) = rs_count r" "rs_head (break_if b r) = rs_head r" "rs_open (break_if b r) = rs_open r"
  "rs_closed (break_if b r) = rs_closed r" "rs_actions (break_if b r) = rs_actions r"
  by (simp_all add: break_if_def)

lemma step_body_simps [simp]:
  "rs_count (step_body now e r) = rs_count r" "rs_head (step_body now e r) = rs_head r"
  by (simp_all add: step_body_def step_run_row_def put_action_def Let_def case_prod_unfold)

lemma step_body_unbroken:
  assumes "\<not> rs_broken (step_body now e r)"
  shows "rs_open (step_body now e r) = (rs_open r \<or> is_run_open e)"
    and "rs_closed (step_body now e r) = (rs_closed r \<or> is_run_close e)"
    and "is_run_open e \<Longrightarrow> \<not> rs_open r"
    and "is_run_close e \<Longrightarrow> run_count e = rs_count r \<and> run_head e = rs_head r"
    and "rs_actions (step_body now e r) =
      (if record_type e \<noteq> ''run'' \<and> action_id e \<noteq> []
       then AList.update (action_id e) (snd (step_action e (find_action (action_id e) r))) (rs_actions r)
       else rs_actions r)"
    and "record_type e \<noteq> ''run'' \<Longrightarrow> action_id e \<noteq> [] \<Longrightarrow> \<not> fst (step_action e (find_action (action_id e) r))"
proof -
  show "rs_open (step_body now e r) = (rs_open r \<or> is_run_open e)"
    by (auto simp: step_body_def step_run_row_def put_action_def Let_def case_prod_unfold is_run_open_def)
  show "rs_closed (step_body now e r) = (rs_closed r \<or> is_run_close e)"
    by (auto simp: step_body_def step_run_row_def put_action_def Let_def case_prod_unfold is_run_close_def)
  show "\<not> rs_open r" if "is_run_open e"
  proof
    assume "rs_open r"
    then have "rs_broken (step_body now e r)"
      using that by (simp add: step_body_def step_run_row_def is_run_open_def Let_def break_if_def broken_mono)
    then show False using assms by simp
  qed
  show "run_count e = rs_count r \<and> run_head e = rs_head r" if "is_run_close e"
    using assms that by (auto simp: step_body_def step_run_row_def is_run_close_def break_if_def split: if_splits)
  show "rs_actions (step_body now e r) =
      (if record_type e \<noteq> ''run'' \<and> action_id e \<noteq> []
       then AList.update (action_id e) (snd (step_action e (find_action (action_id e) r))) (rs_actions r)
       else rs_actions r)"
    by (auto simp: step_body_def step_run_row_def put_action_def Let_def case_prod_unfold)
  show "\<not> fst (step_action e (find_action (action_id e) r))" if "record_type e \<noteq> ''run'' " "action_id e \<noteq> []"
    using assms that by (auto simp: step_body_def put_action_def Let_def case_prod_unfold break_if_def split: if_splits)
qed

lemma action_rows_snoc: "action_rows aid (rows @ [e]) =
    action_rows aid rows @ (if record_type e \<noteq> ''run'' \<and> action_id e = aid then [e] else [])"
  by (simp add: action_rows_def)

lemma run_inv_actions:
  assumes "run_inv rows r" and "\<not> rs_broken (step_body now e r)" and "aid \<noteq> []"
  shows "if action_rows aid (rows @ [e]) = [] then map_of (rs_actions (step_body now e r)) aid = None
    else \<exists>a. map_of (rs_actions (step_body now e r)) aid = Some a \<and> action_inv (action_rows aid (rows @ [e])) a"
proof -
  note b = step_body_unbroken(5,6) [OF assms(2)]
  have old: "if action_rows aid rows = [] then map_of (rs_actions r) aid = None
      else \<exists>a. map_of (rs_actions r) aid = Some a \<and> action_inv (action_rows aid rows) a"
    using assms(1,3) unfolding run_inv_def by blast
  show ?thesis
  proof (cases "record_type e \<noteq> ''run'' \<and> action_id e = aid")
    case False
    then have "map_of (rs_actions (step_body now e r)) aid = map_of (rs_actions r) aid"
      unfolding b(1) by (auto simp: update_conv')
    then show ?thesis using old False unfolding action_rows_snoc by auto
  next
    case True
    let ?a = "find_action aid r"
    obtain a' where st: "step_action e ?a = (False, a')" using b(2) True assms(3) by (metis prod.collapse)
    have inv: "action_inv (action_rows aid rows) ?a"
      using old action_inv_new by (auto simp: find_action_def split: if_splits)
    have "map_of (rs_actions (step_body now e r)) aid = Some a'"
      using True assms(3) st unfolding b(1) by (auto simp: update_conv')
    then show ?thesis using action_inv_step [OF inv st] True unfolding action_rows_snoc by simp
  qed
qed

lemma run_inv_step:
  assumes "run_inv rows r" and "\<not> rs_broken (step_run now e r)"
  shows "run_inv (rows @ [e]) (step_run now e r)"
proof -
  note g = step_run_guards [OF assms(2)]
  note b = step_body_unbroken [OF g(6)]
  let ?n = "length rows"
  have inv: "\<forall>e\<in>set rows. ev_sig e \<noteq> [] \<and> validate_audit_event e = None"
    "map run_seq rows = map (\<lambda>i. word_of_nat (Suc i)) [0..<?n]"
    "rs_count r = word_of_nat ?n" "rs_head r = head_of rows" "rows \<noteq> [] \<longrightarrow> is_run_open (hd rows) \<and> rs_open r"
    "\<forall>e\<in>set (tl rows). \<not> is_run_open e" "\<forall>e\<in>set (butlast rows). \<not> is_run_close e"
    "rs_closed r \<longleftrightarrow> rows \<noteq> [] \<and> is_run_close (last rows)"
    using assms(1) unfolding run_inv_def by blast+
  have zero: "rows = [] \<Longrightarrow> is_run_open e" using g(5) inv(3) by simp
  have notopen: "rows \<noteq> [] \<Longrightarrow> \<not> is_run_open e" using b(3) inv(5) by blast
  have notclose: "\<forall>x\<in>set rows. \<not> is_run_close x"
  proof (cases rows rule: rev_cases)
    case (snoc xs x)
    then show ?thesis using inv(7,8) g(3) by auto
  qed simp
  have cnt: "rs_count (step_run now e r) = word_of_nat (length (rows @ [e]))"
    using inv(3) unfolding g(7) by simp
  have hd: "rs_head (step_run now e r) = head_of (rows @ [e])" unfolding g(7) by (simp add: head_of_def)
  have closed: "rs_closed (step_run now e r) = is_run_close e" using b(2) g(3) unfolding g(7) by simp
  have tl: "\<forall>x\<in>set (tl (rows @ [e])). \<not> is_run_open x"
    using inv(6) notopen by (cases rows) auto
  have cl: "is_run_close e \<Longrightarrow> run_count e = word_of_nat ?n \<and> run_head e = head_of rows"
    using b(4) inv(3,4) by simp
  have op: "is_run_open (hd (rows @ [e])) \<and> rs_open (step_run now e r)"
    using zero inv(5) b(1) unfolding g(7) by (cases rows) auto
  have act: "\<forall>aid. aid \<noteq> [] \<longrightarrow> (if action_rows aid (rows @ [e]) = [] then map_of (rs_actions (step_run now e r)) aid = None
      else \<exists>a. map_of (rs_actions (step_run now e r)) aid = Some a \<and> action_inv (action_rows aid (rows @ [e])) a)"
    using run_inv_actions [OF assms(1) g(6)] unfolding g(7) by simp
  have seqs: "map run_seq (rows @ [e]) = map (\<lambda>i. word_of_nat (Suc i)) [0..<length (rows @ [e])]"
    using inv(2,3) g(4) by (simp add: add.commute)
  show ?thesis
    unfolding run_inv_def using inv(1) g(1,2) seqs cnt hd op tl notclose closed cl act by auto
qed

lemma run_inv_fold: "\<not> rs_broken (fold (step_run now) rows new_run) \<Longrightarrow> run_inv rows (fold (step_run now) rows new_run)"
proof (induction rows rule: rev_induct)
  case (snoc e rows)
  have b: "\<not> rs_broken (step_run now e (fold (step_run now) rows new_run))" using snoc.prems by simp
  then have "\<not> rs_broken (fold (step_run now) rows new_run)" using broken_step_run by blast
  then show ?case using run_inv_step [OF snoc.IH b] by simp
qed (simp add: run_inv_new)

subsection \<open>The assessment\<close>

definition entry_of :: "bytes \<Rightarrow> run_verdict \<times> run_reason \<Rightarrow> run_assessment" where
  "entry_of rid v = \<lparr>as_run = rid, as_verdict = fst v, as_reason = snd v\<rparr>"

lemma assess_runs_entries:
  fixes cap trail now
  defines "ls \<equiv> fst (scan_lines cap trail)" and "s \<equiv> fold (scan_row now) (fst (scan_lines cap trail)) start_scan"
  assumes "sc_runs s \<noteq> []"
  shows "assess_runs cap trail checkpointed now =
    map (\<lambda>rid. entry_of rid (assess_run (checkpointed \<and> \<not> snd (scan_lines cap trail)) (sc_legacy s)
        (sc_rows s > 0 \<and> \<not> sc_signed s) now rid (the (map_of (sc_runs s) rid))))
      (sort (map fst (sc_runs s)))"
  using assms(3) unfolding assess_runs_def s_def
  by (simp add: Let_def case_prod_unfold entry_of_def)

lemma distinct_start: "distinct (map fst (sc_runs start_scan))"
  by (simp add: start_scan_def)

lemma scan_run_dom:
  "rid \<in> fst ` set (sc_runs (fold (scan_row now) ls start_scan)) \<longleftrightarrow> rows_of rid (trail_rows ls) \<noteq> []"
  using scan_run_fresh [of now ls rid] by (simp add: map_of_eq_None_iff [symmetric] dom_map_of_conv_image_fst [symmetric] domIff split: if_splits)

lemma assess_runs_set:
  fixes cap trail now
  defines "ls \<equiv> fst (scan_lines cap trail)"
  defines "s \<equiv> fold (scan_row now) ls start_scan"
  assumes "sc_runs s \<noteq> []"
  shows "set (assess_runs cap trail checkpointed now) =
      {entry_of rid (assess_run (checkpointed \<and> \<not> snd (scan_lines cap trail)) (sc_legacy s)
          (sc_rows s > 0 \<and> \<not> sc_signed s) now rid (fold (step_run now) (rows_of rid (trail_rows ls)) new_run))
        | rid. rows_of rid (trail_rows ls) \<noteq> []}"
  unfolding assess_runs_entries [of now cap trail checkpointed, folded ls_def, folded s_def, OF assms(3)]
  using scan_run_dom [of _ now ls] unfolding s_def
  by (auto simp: scan_run_fresh image_def)

lemma run_inv_action:
  "run_inv rows r \<Longrightarrow> aid \<noteq> [] \<Longrightarrow> action_rows aid rows \<noteq> [] \<Longrightarrow>
    \<exists>x. map_of (rs_actions r) aid = Some x \<and> action_inv (action_rows aid rows) x"
  unfolding run_inv_def by meson

text \<open>
  Runs are assessed independently. When the trail has v2 rows, the result has one entry per
  run id that occurs, in increasing order, and the entry's verdict is a function of the rows of
  that run alone, replayed in trail order, and of the trail-wide flags: interleaving the rows of
  other runs does not change it.
\<close>

theorem runs_assessed_independently:
  fixes cap trail now checkpointed
  defines "ls \<equiv> fst (scan_lines cap trail)"
  defines "s \<equiv> fold (scan_row now) ls start_scan"
  assumes "sc_runs s \<noteq> []"
  shows "sorted (map as_run (assess_runs cap trail checkpointed now))
    \<and> distinct (map as_run (assess_runs cap trail checkpointed now))
    \<and> set (assess_runs cap trail checkpointed now) =
      {entry_of rid (assess_run (checkpointed \<and> \<not> snd (scan_lines cap trail)) (sc_legacy s)
          (sc_rows s > 0 \<and> \<not> sc_signed s) now rid (fold (step_run now) (rows_of rid (trail_rows ls)) new_run))
        | rid. rows_of rid (trail_rows ls) \<noteq> []}"
proof -
  note e = assess_runs_entries [of now cap trail checkpointed, folded ls_def, folded s_def, OF assms(3)]
  have ids: "map as_run (assess_runs cap trail checkpointed now) = sort (map fst (sc_runs s))"
    unfolding e by (simp add: entry_of_def o_def)
  have d: "distinct (map fst (sc_runs s))" unfolding s_def by (rule distinct_scan_runs [OF distinct_start])
  show ?thesis
    unfolding ids using d assess_runs_set [of now cap trail checkpointed, folded ls_def, folded s_def, OF assms(3)]
    by simp
qed

text \<open>
  C27. What a clean verdict means. A run is reported as internally complete only when the trail
  was checkpointed, and then its rows are all signed and valid, numbered 1, 2, 3, and so on; it
  begins with its only open row and ends with its only close row, which commits the count and
  the last signature before it; and every action of the run has exactly one terminal
  observation and at most one dispatch, and was reported as not forwarded exactly when it was
  never dispatched.
\<close>

theorem limited_run_is_complete:
  fixes cap trail now rid
  defines "rows \<equiv> rows_of rid (trail_rows (fst (scan_lines cap trail)))"
  assumes "a \<in> set (assess_runs cap trail checkpointed now)" and "as_run a = rid" and "as_verdict a = Limited"
  shows "checkpointed \<and> rows \<noteq> [] \<and> (\<forall>e\<in>set rows. ev_sig e \<noteq> [] \<and> validate_audit_event e = None)
    \<and> map run_seq rows = map (\<lambda>i. word_of_nat (Suc i)) [0..<length rows]
    \<and> is_run_open (hd rows) \<and> (\<forall>e\<in>set (tl rows). \<not> is_run_open e)
    \<and> is_run_close (last rows) \<and> (\<forall>e\<in>set (butlast rows). \<not> is_run_close e)
    \<and> run_count (last rows) = word_of_nat (length rows - 1) \<and> run_head (last rows) = head_of (butlast rows)
    \<and> (\<forall>aid. aid \<noteq> [] \<longrightarrow> action_rows aid rows \<noteq> [] \<longrightarrow>
        length (filter is_terminal (action_rows aid rows)) = 1
        \<and> length (filter is_dispatch (action_rows aid rows)) \<le> 1
        \<and> (\<forall>e\<in>set (action_rows aid rows). is_terminal e \<longrightarrow>
            (observation e = ''not_forwarded'' \<longleftrightarrow> filter is_dispatch (action_rows aid rows) = [])))"
proof -
  let ?s = "fold (scan_row now) (fst (scan_lines cap trail)) start_scan"
  let ?r = "fold (step_run now) rows new_run"
  have ne: "sc_runs ?s \<noteq> []"
    using assms(2,4) by (auto simp: assess_runs_def Let_def case_prod_unfold split: if_splits)
  note es = assess_runs_set [OF ne, of checkpointed]
  have rows: "rows \<noteq> []" and v: "fst (assess_run (checkpointed \<and> \<not> snd (scan_lines cap trail)) (sc_legacy ?s)
      (sc_rows ?s > 0 \<and> \<not> sc_signed ?s) now rid ?r) = Limited"
    using assms(2-4) unfolding es by (auto simp: rows_def entry_of_def)
  then have c: "checkpointed" "\<not> rs_broken ?r" "rs_closed ?r" "\<not> incomplete ?r"
    by (auto simp: assess_run_def split: if_splits)
  note ri = run_inv_fold [OF c(2)]
  note inv = ri [unfolded run_inv_def]
  have act: "length (filter is_terminal (action_rows aid rows)) = 1
        \<and> length (filter is_dispatch (action_rows aid rows)) \<le> 1
        \<and> (\<forall>e\<in>set (action_rows aid rows). is_terminal e \<longrightarrow>
            (observation e = ''not_forwarded'' \<longleftrightarrow> filter is_dispatch (action_rows aid rows) = []))"
    if "aid \<noteq> []" "action_rows aid rows \<noteq> []" for aid
  proof -
    note h = that
    obtain x where x: "map_of (rs_actions ?r) aid = Some x" "action_inv (action_rows aid rows) x"
      using run_inv_action [OF ri h] by blast
    have "act_terminal x"
      using c(4) map_of_SomeD [OF x(1)] by (auto simp: incomplete_def list_ex_iff)
    then show ?thesis using x(2) by (auto simp: action_inv_def split: if_splits)
  qed
  show ?thesis using c(1,3) rows inv act by blast
qed

subsection \<open>A small run\<close>

definition demo_run_id :: bytes where
  "demo_run_id = ''0123456789abcdef0123456789abcdef''"

definition demo_sig :: "char \<Rightarrow> bytes" where
  "demo_sig c = replicate 64 c"

definition demo_open_row :: event where
  "demo_open_row = zero_event\<lparr>ev_time := ''2024-02-29T23:59:59Z'', ev_agent := ''a'', schema_version := 2,
     record_type := ''run'', run_id := demo_run_id, run_seq := 1, run_event := ''open'', ev_sig := demo_sig CHR ''1''\<rparr>"

definition demo_close_row :: event where
  "demo_close_row = zero_event\<lparr>ev_time := ''2024-03-01T00:00:00Z'', ev_agent := ''a'', schema_version := 2,
     record_type := ''run'', run_id := demo_run_id, run_seq := 2, run_event := ''close'', run_count := 1,
     run_head := demo_sig CHR ''1'', ev_sig := demo_sig CHR ''2''\<rparr>"

lemma demo_run_hex: "hex_decode demo_run_id \<noteq> None" "length demo_run_id = 32" "to_lower demo_run_id = demo_run_id"
  by (simp_all add: demo_run_id_def hex_value_def to_lower_def to_lower_byte_def)

lemma demo_sig_hex: "lower_hex (demo_sig CHR ''1'')" "length (demo_sig CHR ''1'') = 64" "demo_sig CHR ''1'' \<noteq> []"
  by (simp_all add: demo_sig_def lower_hex_def numeral_eq_Suc hex_value_def to_lower_def to_lower_byte_def)

lemma demo_stamp: "parse_rfc3339 ''2024-02-29T23:59:59Z'' = Some (1709251199 * second)"
  by (simp add: parse_rfc3339_def take_digits_def digits_value_def is_digit_def take_hour_def take_fraction_def
      parse_zone_def month_days_def leap_year_def epoch_days_def days_before_year_def second_def Let_def)

lemma demo_rows_accepted: "validate_audit_event demo_open_row = None" "validate_audit_event demo_close_row = None"
  using demo_run_hex demo_sig_hex
  by (simp_all add: validate_audit_event_def validate_v2_event_def demo_open_row_def demo_close_row_def zero_event_def
      check_run_row_def check_action_id_def check_digest_def validate_approval_actor_def fails_def)

lemma demo_rows_encodable: "encodable demo_open_row" "encodable demo_close_row"
  by (simp_all add: demo_open_row_def demo_close_row_def encodable_def all_fields_def zero_event_def str_value_def
      int_value_def uint_value_def coerce_utf8_ascii demo_run_id_def demo_sig_def coerce_utf8_all_ascii)

definition demo_run_trail :: bytes where
  "demo_run_trail = render_trail [demo_open_row, demo_close_row]"

lemma demo_run_lines: "scan_lines (Suc (length demo_run_trail)) demo_run_trail =
    ([marshal_event demo_open_row, marshal_event demo_close_row], False)"
  unfolding demo_run_trail_def
  using rendered_short scan_rendered [of "[demo_open_row, demo_close_row]"] by simp

lemma demo_run_rows: "trail_rows [marshal_event demo_open_row, marshal_event demo_close_row] = [demo_open_row, demo_close_row]"
    "rows_of demo_run_id [demo_open_row, demo_close_row] = [demo_open_row, demo_close_row]"
proof -
  have ne: "marshal_event e \<noteq> []" for e using marshal_event_shape [of e] by auto
  show "trail_rows [marshal_event demo_open_row, marshal_event demo_close_row] = [demo_open_row, demo_close_row]"
    by (simp add: trail_rows_def ne unmarshal_marshal_event demo_rows_encodable)
  show "rows_of demo_run_id [demo_open_row, demo_close_row] = [demo_open_row, demo_close_row]"
    by (simp add: rows_of_def demo_open_row_def demo_close_row_def)
qed

lemma demo_scan: "sc_legacy (fold (scan_row now) [marshal_event demo_open_row, marshal_event demo_close_row] start_scan) = False"
    "sc_signed (fold (scan_row now) [marshal_event demo_open_row, marshal_event demo_close_row] start_scan) = True"
proof -
  have ne: "marshal_event e \<noteq> []" for e using marshal_event_shape [of e] by auto
  have u: "unmarshal_event (marshal_event demo_open_row) = Some demo_open_row"
    "unmarshal_event (marshal_event demo_close_row) = Some demo_close_row"
    by (simp_all add: unmarshal_marshal_event demo_rows_encodable)
  have f: "schema_version demo_open_row = 2" "schema_version demo_close_row = 2" "ev_sig demo_open_row \<noteq> []"
    by (simp_all add: demo_open_row_def demo_close_row_def demo_sig_def)
  show "sc_legacy (fold (scan_row now) [marshal_event demo_open_row, marshal_event demo_close_row] start_scan) = False"
    "sc_signed (fold (scan_row now) [marshal_event demo_open_row, marshal_event demo_close_row] start_scan) = True"
    by (simp_all add: scan_row_def ne u f Let_def start_scan_def)
qed

lemma demo_run_state:
  "fst (assess_run True False False (1709251300 * second) demo_run_id
     (fold (step_run (1709251300 * second)) [demo_open_row, demo_close_row] new_run)) = Limited"
proof -
  let ?now = "1709251300 * second"
  have t: "parse_rfc3339 (ev_time demo_open_row) = Some (1709251199 * second)"
    using demo_stamp by (simp add: demo_open_row_def)
  have o: "record_type demo_open_row = ''run''" "run_event demo_open_row = ''open''" "ev_sig demo_open_row \<noteq> []"
    "run_seq demo_open_row = 1" "ev_sig demo_open_row = demo_sig CHR ''1''"
    by (simp_all add: demo_open_row_def demo_sig_def)
  have c: "record_type demo_close_row = ''run''" "run_event demo_close_row = ''close''" "ev_sig demo_close_row \<noteq> []"
    "run_seq demo_close_row = 2" "run_count demo_close_row = 1" "run_head demo_close_row = demo_sig CHR ''1''"
    by (simp_all add: demo_close_row_def demo_sig_def)
  have s1: "step_run ?now demo_open_row new_run =
      new_run\<lparr>rs_open := True, rs_latest := 1709251199 * second, rs_count := 1, rs_head := demo_sig CHR ''1''\<rparr>"
    using o t demo_rows_accepted
    by (simp add: step_run_def step_body_def step_run_row_def step_beat_def break_if_def new_run_def Let_def second_def)
  have s2: "\<not> rs_broken (step_run ?now demo_close_row (step_run ?now demo_open_row new_run))"
    "rs_open (step_run ?now demo_close_row (step_run ?now demo_open_row new_run))"
    "rs_closed (step_run ?now demo_close_row (step_run ?now demo_open_row new_run))"
    "\<not> rs_future (step_run ?now demo_close_row (step_run ?now demo_open_row new_run))"
    "rs_actions (step_run ?now demo_close_row (step_run ?now demo_open_row new_run)) = []"
    using c demo_rows_accepted unfolding s1
    by (simp_all add: step_run_def step_body_def step_run_row_def break_if_def new_run_def Let_def)
  then show ?thesis by (simp add: assess_run_def incomplete_def)
qed

theorem limited_run_is_complete_witness:
  "run_head demo_close_row = head_of [demo_open_row]"
proof -
  let ?now = "1709251300 * second"
  let ?cap = "Suc (length demo_run_trail)"
  let ?s = "fold (scan_row ?now) [marshal_event demo_open_row, marshal_event demo_close_row] start_scan"
  have lines: "fst (scan_lines ?cap demo_run_trail) = [marshal_event demo_open_row, marshal_event demo_close_row]"
    "\<not> snd (scan_lines ?cap demo_run_trail)" by (simp_all add: demo_run_lines)
  have "map_of (sc_runs ?s) demo_run_id \<noteq> None"
    unfolding scan_run_fresh demo_run_rows by simp
  then have ne: "sc_runs (fold (scan_row ?now) (fst (scan_lines ?cap demo_run_trail)) start_scan) \<noteq> []"
    unfolding lines by auto
  obtain v where v: "assess_run True False False ?now demo_run_id
     (fold (step_run ?now) [demo_open_row, demo_close_row] new_run) = (Limited, v)"
    using demo_run_state by (metis prod.collapse)
  have "entry_of demo_run_id (Limited, v) \<in> set (assess_runs ?cap demo_run_trail True ?now)"
    unfolding assess_runs_set [OF ne] unfolding lines(1) demo_run_rows demo_scan
    using lines(2) v demo_run_rows by (intro CollectI exI [of _ demo_run_id]) simp
  from limited_run_is_complete [OF this] show ?thesis
    by (simp add: entry_of_def lines demo_run_rows)
qed

theorem runs_assessed_independently_witness:
  "set (assess_runs (Suc (length demo_run_trail)) demo_run_trail False 0) \<noteq> {}"
proof -
  let ?cap = "Suc (length demo_run_trail)"
  have lines: "fst (scan_lines ?cap demo_run_trail) = [marshal_event demo_open_row, marshal_event demo_close_row]"
    by (simp add: demo_run_lines)
  have "map_of (sc_runs (fold (scan_row 0) [marshal_event demo_open_row, marshal_event demo_close_row] start_scan)) demo_run_id \<noteq> None"
    unfolding scan_run_fresh demo_run_rows by simp
  then have ne: "sc_runs (fold (scan_row 0) (fst (scan_lines ?cap demo_run_trail)) start_scan) \<noteq> []"
    unfolding lines by auto
  have "rows_of demo_run_id (trail_rows (fst (scan_lines ?cap demo_run_trail))) \<noteq> []"
    unfolding lines demo_run_rows by simp
  then show ?thesis unfolding runs_assessed_independently [OF ne, of False, THEN conjunct2, THEN conjunct2] by blast
qed

text \<open>
  Assessment fails closed. Without a verified checkpoint, or when the trail could not be
  read to its end, no run is given any verdict but unassessable.
\<close>

theorem unchecked_trail_unassessable:
  assumes "\<not> checkpointed \<or> snd (scan_lines cap trail)"
    and "a \<in> set (assess_runs cap trail checkpointed now)"
  shows "as_verdict a = Unassessable"
  using assms by (auto simp: assess_runs_def assess_run_def Let_def case_prod_unfold split: if_splits)

theorem unchecked_trail_unassessable_witness:
  "as_verdict \<lparr>as_run = [], as_verdict = Unassessable, as_reason = TrailUnchecked\<rparr> = Unassessable"
proof (rule unchecked_trail_unassessable)
  show "\<not> False \<or> snd (scan_lines 10 [])" by simp
  show "\<lparr>as_run = [], as_verdict = Unassessable, as_reason = TrailUnchecked\<rparr> \<in> set (assess_runs 10 [] False 0)"
    by (simp add: assess_runs_def scan_lines_def trail_lines_def start_scan_def)
qed

end
