(* ===== verification/Auditor.thy ===== *)
theory Auditor
  imports AuditChain "HOL-Library.Sublist"
begin

text \<open>
  The audit writer, \<^verbatim>\<open>internal/audit/audit.go\<close>: \<open>New\<close>, \<open>record\<close>, the
  required-write latch and the checkpoint update. The disk is a value; everything the
  operating system decides (locks, writes, syncs, renames, the clock) is an argument of the
  call. The open descriptor is taken to refer to the file at the path; a replacement shows as
  the result of the identity check.
\<close>

subsection \<open>State\<close>

text \<open>The primitives: HMAC-SHA256, Ed25519, the public half of a private key, SHA-256.\<close>

record crypto =
  cr_hmac :: "bytes \<Rightarrow> bytes \<Rightarrow> bytes"
  cr_sign :: "bytes \<Rightarrow> bytes \<Rightarrow> bytes"
  cr_verify :: "bytes \<Rightarrow> bytes \<Rightarrow> bytes \<Rightarrow> bool"
  cr_public :: "bytes \<Rightarrow> bytes"
  cr_sha256 :: "bytes \<Rightarrow> bytes"

datatype audit_error =
    NilAuditor | WriterFailed audit_error | WriterClosed | WriterUnavailable
  | RejectedRow row_error | LockFailed | RunIsClosed bytes | NeedsDurableWrite | SeqAssignedByAuditor
  | SeqExhausted | BadSchemaVersion int | PathReplaced | ChainHeadUnreadable
  | CheckpointUnreadable | CheckpointForged | CheckpointUnverified verify_error
  | WriteFailed | SyncFailed | DirSyncFailed | CheckpointWriteFailed
  | MkdirFailed | FailedTrailMissing | OpenUnverified verify_error | SeedFailed | OpenFailed

record auditor =
  a_open :: bool
  a_path :: bytes
  a_key :: bytes
  a_ed :: "bytes option"
  a_key_id :: bytes
  run_seqs :: "bytes \<Rightarrow> u64"
  run_heads :: "bytes \<Rightarrow> bytes"
  run_closed :: "bytes \<Rightarrow> bool"
  a_pairing :: bool
  a_closed :: bool
  required_err :: "audit_error option"

text \<open>The trail, its sidecar, and the marker of a failed required write.\<close>

record disk =
  d_trail :: file_state
  d_hwm :: file_state
  d_failing :: bool

text \<open>What one call sees of the system. A write takes the data and returns the count and whether it failed.\<close>

record audit_io =
  io_clock :: bytes
  io_session :: bytes
  io_lock :: bool
  io_path_before :: bool
  io_path_after :: bool
  io_write :: "bytes \<Rightarrow> nat \<times> bool"
  io_sync :: bool
  io_dir_sync :: bool
  io_tmp_open :: bool
  io_tmp_write :: "bytes \<Rightarrow> nat \<times> bool"
  io_tmp_sync :: bool
  io_tmp_close :: bool
  io_rename :: bool
  io_hwm_dir_sync :: bool

subsection \<open>Writing all of a buffer\<close>

text \<open>The bytes that reached the file, and whether all of them did.\<close>

function write_all :: "(bytes \<Rightarrow> nat \<times> bool) \<Rightarrow> bytes \<Rightarrow> bytes \<times> bool" where
  "write_all w data =
     (if data = [] then ([], True)
      else let (n, failed) = w data; k = min n (length data) in
        if failed then (take k data, False)
        else if n = 0 then ([], False)
        else let (r, ok) = write_all w (drop k data) in (take k data @ r, ok))"
  by pat_completeness auto
termination
  by (relation "measure (length \<circ> snd)") auto

declare write_all.simps [simp del]

lemma write_all_prefix: "\<exists>t. data = fst (write_all w data) @ t \<and> (snd (write_all w data) \<longrightarrow> t = [])"
proof (induction w data rule: write_all.induct)
  case (1 w data)
  obtain n failed where wd: "w data = (n, failed)" by fastforce
  let ?k = "min n (length data)"
  consider "data = []" | "data \<noteq> []" "failed" | "data \<noteq> []" "\<not> failed" "n = 0" | "data \<noteq> []" "\<not> failed" "n \<noteq> 0"
    by blast
  then show ?case
  proof cases
    case 1
    then show ?thesis by (subst (1 2) write_all.simps) simp
  next
    case 2
    then have "write_all w data = (take ?k data, False)"
      using wd by (subst write_all.simps) (simp add: Let_def)
    then show ?thesis by (intro exI [of _ "drop ?k data"]) simp
  next
    case 3
    then have "write_all w data = ([], False)"
      using wd by (subst write_all.simps) (simp add: Let_def)
    then show ?thesis by simp
  next
    case 4
    have eq: "write_all w data =
        (take ?k data @ fst (write_all w (drop ?k data)), snd (write_all w (drop ?k data)))"
      using 4 wd by (subst write_all.simps) (simp add: Let_def case_prod_unfold)
    obtain t where t: "drop ?k data = fst (write_all w (drop ?k data)) @ t"
      "snd (write_all w (drop ?k data)) \<longrightarrow> t = []"
      using "1.IH" [OF 4(1) refl wd [symmetric] refl 4(2,3)] by blast
    have "data = take ?k data @ fst (write_all w (drop ?k data)) @ t"
      using t(1) by (metis append_take_drop_id)
    then show ?thesis using t(2) by (subst (1 2) eq) (intro exI [of _ t], simp)
  qed
qed

subsection \<open>Signing\<close>

definition signing_enabled :: "auditor \<Rightarrow> bool" where
  "signing_enabled a \<longleftrightarrow> a_key a \<noteq> [] \<or> a_ed a \<noteq> None"

text \<open>\<open>sign\<close>: Ed25519 takes precedence.\<close>

definition auditor_sign :: "crypto \<Rightarrow> auditor \<Rightarrow> bytes \<Rightarrow> bytes \<Rightarrow> bytes" where
  "auditor_sign cr a msg prev =
     (case a_ed a of
        Some priv \<Rightarrow> sign_line_ed25519 (cr_sign cr) priv msg prev
      | None \<Rightarrow> sign_line (cr_hmac cr) (a_key a) msg prev)"

definition auditor_check :: "crypto \<Rightarrow> auditor \<Rightarrow> sig_check" where
  "auditor_check cr a =
     (case a_ed a of
        Some priv \<Rightarrow> ed25519_check (cr_verify cr) (cr_public cr priv)
      | None \<Rightarrow> hmac_check (cr_hmac cr) (a_key a))"

text \<open>\<open>Verify\<close> or \<open>VerifyEd25519\<close> of the trail, with the key of the writer.\<close>

definition auditor_verify :: "nat \<Rightarrow> crypto \<Rightarrow> auditor \<Rightarrow> disk \<Rightarrow> nat \<times> verify_error option" where
  "auditor_verify cap cr a d =
     (let (n, c, e) = verify_files cap (auditor_check cr a) (d_trail d) (d_hwm d) in (n, e))"

text \<open>The writer's primitives do what they document for the writer's keys.\<close>

definition signing_good :: "crypto \<times> auditor \<Rightarrow> bool" where
  "signing_good k \<longleftrightarrow>
     (case a_ed (snd k) of
        Some priv \<Rightarrow> \<forall>m. cr_sign (fst k) priv m \<noteq> []
          \<and> cr_verify (fst k) (cr_public (fst k) priv) m (cr_sign (fst k) priv m)
      | None \<Rightarrow> \<forall>m. cr_hmac (fst k) (a_key (snd k)) m \<noteq> [])"

interpretation writer: chain_mode signing_good "\<lambda>k. auditor_sign (fst k) (snd k)"
    "\<lambda>k. auditor_check (fst k) (snd k)"
  by unfold_locales
    (auto simp: signing_good_def auditor_sign_def auditor_check_def sign_line_def sign_line_ed25519_def
      hmac_check_def ed25519_check_def dest: hex_encode_range split: option.splits)

subsection \<open>Opening\<close>

datatype audit_option = WithSigningKey bytes | WithEd25519Key bytes | WithActionPairing

fun apply_option :: "crypto \<Rightarrow> audit_option \<Rightarrow> auditor \<Rightarrow> auditor" where
  "apply_option cr (WithSigningKey k) a = a\<lparr>a_key := k\<rparr>"
| "apply_option cr (WithEd25519Key priv) a =
     a\<lparr>a_ed := Some priv, a_key_id := hex_encode (cr_sha256 cr (cr_public cr priv))\<rparr>"
| "apply_option cr WithActionPairing a = a\<lparr>a_pairing := True\<rparr>"

definition fresh_auditor :: auditor where
  "fresh_auditor =
     \<lparr>a_open = False, a_path = [], a_key = [], a_ed = None, a_key_id = [], run_seqs = (\<lambda>_. 0),
      run_heads = (\<lambda>_. []), run_closed = (\<lambda>_. False), a_pairing = False, a_closed = False,
      required_err = None\<rparr>"

text \<open>\<open>seedRunSequences\<close>: one line, then all lines of the trail.\<close>

definition is_close :: "event \<Rightarrow> bool" where
  "is_close ev \<longleftrightarrow> record_type ev = ''run'' \<and> run_event ev = ''close''"

definition seed_line :: "bytes \<Rightarrow> auditor \<Rightarrow> auditor" where
  "seed_line raw a =
     (let line = trim_bytes raw in
      if line = [] then a
      else case unmarshal_event line of
          None \<Rightarrow> a
        | Some ev \<Rightarrow>
            if schema_version ev \<noteq> 2 \<or> validate_audit_line line ev \<noteq> None then a
            else if run_seq ev > run_seqs a (run_id ev) then
              a\<lparr>run_seqs := (run_seqs a)(run_id ev := run_seq ev),
                run_heads := (run_heads a)(run_id ev := ev_sig ev),
                run_closed := (run_closed a)(run_id ev := is_close ev)\<rparr>
            else a)"

definition seed_cap :: nat where
  "seed_cap = 16 * 1024 * 1024"

definition seed_run_sequences :: "disk \<Rightarrow> auditor \<Rightarrow> audit_error + auditor" where
  "seed_run_sequences d a =
     (case d_trail d of
        Absent \<Rightarrow> Inr a
      | NoAccess \<Rightarrow> Inl SeedFailed
      | Content t \<Rightarrow>
          (let (ls, too_long) = scan_lines seed_cap t; a' = fold seed_line ls a in
           if too_long then Inl SeedFailed else Inr a'))"

definition verify_existing :: "nat \<Rightarrow> crypto \<Rightarrow> disk \<Rightarrow> auditor \<Rightarrow> audit_error + auditor" where
  "verify_existing cap cr d a =
     (if d_trail d = Absent then Inr a
      else case snd (auditor_verify cap cr a d) of
          Some e \<Rightarrow> Inl (OpenUnverified e)
        | None \<Rightarrow> if a_pairing a then seed_run_sequences d a else Inr a)"

text \<open>\<open>mkdir_ok\<close> and \<open>open_ok\<close> are the results of creating the directory and of opening the file.\<close>

definition open_auditor ::
  "nat \<Rightarrow> crypto \<Rightarrow> audit_option list \<Rightarrow> bytes \<Rightarrow> bool \<Rightarrow> bool \<Rightarrow> disk \<Rightarrow> (audit_error + auditor) \<times> disk" where
  "open_auditor cap cr opts path mkdir_ok open_ok d =
     (let a = fold (apply_option cr) opts fresh_auditor in
      if path = [] then (Inr a, d)
      else if \<not> mkdir_ok then (Inl MkdirFailed, d)
      else if signing_enabled a \<and> d_failing d \<and> d_trail d = Absent then (Inl FailedTrailMissing, d)
      else case (if signing_enabled a then verify_existing cap cr d a
                 else if a_pairing a then seed_run_sequences d a
                 else Inr a) of
          Inl e \<Rightarrow> (Inl e, d)
        | Inr a' \<Rightarrow>
            if \<not> open_ok then (Inl OpenFailed, d)
            else (Inr (a'\<lparr>a_open := True, a_path := path\<rparr>),
                  d\<lparr>d_trail := (if d_trail d = Absent then Content [] else d_trail d),
                    d_failing := (d_failing d \<and> \<not> signing_enabled a)\<rparr>))"

definition auditor_enabled :: "auditor option \<Rightarrow> bool" where
  "auditor_enabled a = (case a of None \<Rightarrow> False | Some x \<Rightarrow> a_open x \<and> \<not> a_closed x)"

definition auditor_signed :: "auditor option \<Rightarrow> bool" where
  "auditor_signed a = (case a of None \<Rightarrow> False | Some x \<Rightarrow> a_open x \<and> \<not> a_closed x \<and> signing_enabled x)"

definition required_error :: "auditor option \<Rightarrow> audit_error option" where
  "required_error a =
     (case a of
        None \<Rightarrow> Some NilAuditor
      | Some x \<Rightarrow>
          (case required_err x of
             Some e \<Rightarrow> Some e
           | None \<Rightarrow> if a_closed x then Some WriterClosed
               else if \<not> a_open x then Some WriterUnavailable else None))"

definition close_auditor :: "auditor \<Rightarrow> auditor" where
  "close_auditor a = a\<lparr>a_open := False, a_closed := True\<rparr>"

definition clear_failure_status :: "auditor option \<Rightarrow> disk \<Rightarrow> disk" where
  "clear_failure_status a d =
     (case a of None \<Rightarrow> d | Some x \<Rightarrow> if a_path x \<noteq> [] then d\<lparr>d_failing := False\<rparr> else d)"

subsection \<open>The checkpoint\<close>

definition last_sig :: "disk \<Rightarrow> audit_error + bytes" where
  "last_sig d =
     (case d_trail d of
        Absent \<Rightarrow> Inr []
      | NoAccess \<Rightarrow> Inl ChainHeadUnreadable
      | Content t \<Rightarrow>
          (case last_sig_seek t of BadLine \<Rightarrow> Inl ChainHeadUnreadable | NoLine \<Rightarrow> Inr [] | LineSig x \<Rightarrow> Inr x))"

definition read_high_water_mark :: "disk \<Rightarrow> audit_error + high_water_mark option" where
  "read_high_water_mark d =
     (case d_hwm d of
        Absent \<Rightarrow> Inr None
      | NoAccess \<Rightarrow> Inl CheckpointUnreadable
      | Content b \<Rightarrow>
          (case parse_high_water_mark b of None \<Rightarrow> Inl CheckpointUnreadable | Some h \<Rightarrow> Inr (Some h)))"

definition recount :: "nat \<Rightarrow> crypto \<Rightarrow> auditor \<Rightarrow> disk \<Rightarrow> audit_error + int" where
  "recount cap cr a d =
     (case auditor_verify cap cr a d of
        (n, Some e) \<Rightarrow> Inl (CheckpointUnverified e)
      | (n, None) \<Rightarrow> Inr (int n))"

definition checkpoint_count :: "nat \<Rightarrow> crypto \<Rightarrow> auditor \<Rightarrow> disk \<Rightarrow> bytes \<Rightarrow> audit_error + int" where
  "checkpoint_count cap cr a d tip =
     (case read_high_water_mark d of
        Inl e \<Rightarrow> Inl e
      | Inr None \<Rightarrow> recount cap cr a d
      | Inr (Some h) \<Rightarrow>
          if hwm_count h > 0 \<and> hwm_last_sig h = tip then
            if auditor_sign cr a (hwm_signed_bytes (hwm_count h) (hwm_last_sig h)) [] \<noteq> hwm_sig h
            then Inl CheckpointForged
            else Inr (hwm_count h)
          else recount cap cr a d)"

definition update_high_water_mark ::
  "crypto \<Rightarrow> auditor \<Rightarrow> audit_io \<Rightarrow> int \<Rightarrow> bytes \<Rightarrow> bool \<Rightarrow> disk \<Rightarrow> disk \<times> audit_error option" where
  "update_high_water_mark cr a io count new_sig durable d =
     (let data = checkpoint_file (checkpoint_of (auditor_sign cr a) count new_sig);
          d' = d\<lparr>d_hwm := Content data\<rparr> in
      if \<not> io_tmp_open io then (d, Some CheckpointWriteFailed)
      else if \<not> snd (write_all (io_tmp_write io) data) then (d, Some CheckpointWriteFailed)
      else if durable \<and> \<not> io_tmp_sync io then (d, Some CheckpointWriteFailed)
      else if \<not> io_tmp_close io then (d, Some CheckpointWriteFailed)
      else if \<not> io_rename io then (d, Some CheckpointWriteFailed)
      else if durable \<and> \<not> io_hwm_dir_sync io then (d', Some CheckpointWriteFailed)
      else (d', None))"

subsection \<open>Recording\<close>

text \<open>The checks and stamps of a row before anything is written.\<close>

definition stamp_run :: "auditor \<Rightarrow> bool \<Rightarrow> event \<Rightarrow> audit_error + event" where
  "stamp_run a required ev =
     (if schema_version ev = 2 then
        if run_closed a (run_id ev) then Inl (RunIsClosed (run_id ev))
        else if \<not> required then Inl NeedsDurableWrite
        else if run_seq ev \<noteq> 0 then Inl SeqAssignedByAuditor
        else if run_seqs a (run_id ev) = - 1 then Inl SeqExhausted
        else
          let ev' = ev\<lparr>run_seq := run_seqs a (run_id ev) + 1\<rparr> in
          Inr (if is_close ev
               then ev'\<lparr>run_count := run_seqs a (run_id ev), run_head := run_heads a (run_id ev)\<rparr>
               else ev')
      else if schema_version ev \<noteq> 0 then Inl (BadSchemaVersion (schema_version ev))
      else Inr ev)"

definition stamp_ids :: "auditor \<Rightarrow> audit_io \<Rightarrow> event \<Rightarrow> event" where
  "stamp_ids a io ev =
     ev\<lparr>session_id := (if session_id ev = [] then io_session io else session_id ev),
        key_id := (if a_ed a \<noteq> None then a_key_id a else [])\<rparr>"

definition prepare_row :: "auditor \<Rightarrow> audit_io \<Rightarrow> bool \<Rightarrow> event \<Rightarrow> audit_error + event" where
  "prepare_row a io required ev =
     (case stamp_run a required (ev\<lparr>ev_time := io_clock io, ev_sig := []\<rparr>) of
        Inl e \<Rightarrow> Inl e
      | Inr ev' \<Rightarrow>
          (case validate_audit_event ev' of
             Some e \<Rightarrow> Inl (RejectedRow e)
           | None \<Rightarrow> Inr ev'))"

text \<open>Linking the row to the chain head: the signed row and the entries before it.\<close>

definition link_row :: "nat \<Rightarrow> crypto \<Rightarrow> auditor \<Rightarrow> disk \<Rightarrow> event \<Rightarrow> audit_error + event \<times> int" where
  "link_row cap cr a d ev =
     (if \<not> signing_enabled a then Inr (ev, 0)
      else case last_sig d of
          Inl e \<Rightarrow> Inl e
        | Inr tip \<Rightarrow>
            (case checkpoint_count cap cr a d tip of
               Inl e \<Rightarrow> Inl e
             | Inr c \<Rightarrow> Inr (ev\<lparr>ev_sig := auditor_sign cr a (marshal_event ev) tip\<rparr>, c)))"

fun append_trail :: "bytes \<Rightarrow> file_state \<Rightarrow> file_state" where
  "append_trail w (Content t) = Content (t @ w)"
| "append_trail w f = f"

definition bump_run :: "event \<Rightarrow> auditor \<Rightarrow> auditor" where
  "bump_run ev a =
     (if schema_version ev = 2 then
        a\<lparr>run_seqs := (run_seqs a)(run_id ev := run_seq ev),
          run_heads := (run_heads a)(run_id ev := ev_sig ev),
          run_closed := (if is_close ev then (run_closed a)(run_id ev := True) else run_closed a)\<rparr>
      else a)"

definition append_row ::
  "nat \<Rightarrow> crypto \<Rightarrow> audit_io \<Rightarrow> bool \<Rightarrow> event \<Rightarrow> int \<Rightarrow> auditor \<Rightarrow> disk \<Rightarrow> auditor \<times> disk \<times> audit_error option" where
  "append_row cap cr io required ev c a d =
     (if required \<and> \<not> io_path_after io then (a, d, Some PathReplaced)
      else
        let (w, ok) = write_all (io_write io) (marshal_event ev @ [newline]);
            d1 = d\<lparr>d_trail := append_trail w (d_trail d)\<rparr> in
        if \<not> ok then (a, d1, Some WriteFailed)
        else if required \<and> \<not> io_sync io then (a, d1, Some SyncFailed)
        else if required \<and> \<not> io_dir_sync io then (a, d1, Some DirSyncFailed)
        else if signing_enabled a then
          (case update_high_water_mark cr a io (wrap64 (c + 1)) (ev_sig ev) required d1 of
             (d2, Some e) \<Rightarrow> (a, d2, Some e)
           | (d2, None) \<Rightarrow> (bump_run ev a, d2, None))
        else (bump_run ev a, d1, None))"

text \<open>\<open>record\<close> past the guards on the writer: a row refused before the disk is touched does not latch.\<close>

definition write_row ::
  "nat \<Rightarrow> crypto \<Rightarrow> audit_io \<Rightarrow> bool \<Rightarrow> event \<Rightarrow> auditor \<Rightarrow> disk \<Rightarrow> (auditor \<times> disk \<times> audit_error option) \<times> bool" where
  "write_row cap cr io required ev a d =
     (case validate_approval_actor ev of
        Some e \<Rightarrow> ((a, d, Some (RejectedRow e)), False)
      | None \<Rightarrow>
          if signing_enabled a \<and> \<not> io_lock io then ((a, d, Some LockFailed), True)
          else case prepare_row a io required ev of
              Inl e \<Rightarrow> ((a, d, Some e), False)
            | Inr ev1 \<Rightarrow>
                if required \<and> \<not> io_path_before io then ((a, d, Some PathReplaced), True)
                else case link_row cap cr a d (stamp_ids a io ev1) of
                    Inl e \<Rightarrow> ((a, d, Some e), True)
                  | Inr (ev2, c) \<Rightarrow> (append_row cap cr io required ev2 c a d, True))"

definition latch :: "audit_error \<Rightarrow> auditor \<Rightarrow> disk \<Rightarrow> auditor \<times> disk" where
  "latch e a d =
     (a\<lparr>required_err := (case required_err a of None \<Rightarrow> Some e | x \<Rightarrow> x)\<rparr>,
      if a_path a \<noteq> [] then d\<lparr>d_failing := True\<rparr> else d)"

definition record_event ::
  "nat \<Rightarrow> crypto \<Rightarrow> audit_io \<Rightarrow> bool \<Rightarrow> event \<Rightarrow> auditor \<Rightarrow> disk \<Rightarrow> auditor \<times> disk \<times> audit_error option" where
  "record_event cap cr io required ev a d =
     (let ((a', d', r), may_latch) =
        (if required \<and> required_err a \<noteq> None then ((a, d, map_option WriterFailed (required_err a)), True)
         else if a_closed a then ((a, d, if required then Some WriterClosed else None), True)
         else if \<not> a_open a then ((a, d, if required then Some WriterUnavailable else None), True)
         else write_row cap cr io required ev a d) in
      case r of
        Some e \<Rightarrow> if required \<and> may_latch then (let (a2, d2) = latch e a' d' in (a2, d2, r)) else (a', d', r)
      | None \<Rightarrow> (a', d', None))"

text \<open>A nil auditor drops best-effort rows and refuses required ones.\<close>

definition record_nil :: "bool \<Rightarrow> audit_error option" where
  "record_nil required = (if required then Some NilAuditor else None)"

subsection \<open>Honest trails\<close>

text \<open>
  The disk holds the lines of a list of accepted rows, chained by this writer, and a
  checkpoint over one of them; signatures do not collide within the trail.
\<close>

definition chained_rows :: "crypto \<Rightarrow> auditor \<Rightarrow> event list \<Rightarrow> event list" where
  "chained_rows cr a evs = seal_all (auditor_sign cr a) [] evs"

definition tip_sig :: "crypto \<Rightarrow> auditor \<Rightarrow> event list \<Rightarrow> bytes" where
  "tip_sig cr a evs = (if evs = [] then [] else ev_sig (last (chained_rows cr a evs)))"

definition checkpoint_at :: "crypto \<Rightarrow> auditor \<Rightarrow> event list \<Rightarrow> nat \<Rightarrow> bytes" where
  "checkpoint_at cr a evs c =
     checkpoint_file (checkpoint_of (auditor_sign cr a) (int c) (ev_sig (chained_rows cr a evs ! (c - 1))))"

definition sound_rows :: "nat \<Rightarrow> crypto \<Rightarrow> auditor \<Rightarrow> event list \<Rightarrow> bool" where
  "sound_rows cap cr a evs \<longleftrightarrow>
     list_all row_ok evs \<and> list_all (\<lambda>e. length (marshal_event e) < cap) (chained_rows cr a evs)
     \<and> distinct (map ev_sig (chained_rows cr a evs)) \<and> int (length evs) < 2 ^ 63"

definition honest :: "nat \<Rightarrow> crypto \<Rightarrow> auditor \<Rightarrow> disk \<Rightarrow> event list \<Rightarrow> bool" where
  "honest cap cr a d evs \<longleftrightarrow>
     sound_rows cap cr a evs \<and> d_trail d = Content (render_trail (chained_rows cr a evs))
     \<and> (if evs = [] then d_hwm d = Absent
        else \<exists>c. 0 < c \<and> c \<le> length evs \<and> d_hwm d = Content (checkpoint_at cr a evs c))"

lemma length_chained [simp]: "length (chained_rows cr a evs) = length evs"
  by (simp add: chained_rows_def)

lemma seal_all_snoc:
  "seal_all signer p (evs @ [e]) =
    seal_all signer p evs @ [seal signer (if evs = [] then p else ev_sig (last (seal_all signer p evs))) e]"
proof (induction evs arbitrary: p)
  case (Cons x xs)
  have "xs \<noteq> [] \<Longrightarrow> seal_all signer q xs \<noteq> []" for q by (cases xs) auto
  then show ?case using Cons by simp
qed simp

lemma chained_snoc:
  "chained_rows cr a (evs @ [e]) = chained_rows cr a evs @ [seal (auditor_sign cr a) (tip_sig cr a evs) e]"
  by (simp add: chained_rows_def tip_sig_def seal_all_snoc)

lemma render_snoc: "render_trail (evs @ [e]) = render_trail evs @ marshal_event e @ [newline]"
  by (simp add: render_trail_def)

lemma last_sig_rendered:
  assumes "list_all encodable es"
  shows "last_sig_in_slice (render_trail es) = (if es = [] then NoLine else LineSig (ev_sig (last es)))"
proof -
  have b: "blank_line []" by (simp add: blank_line_def trim_bytes_def trim_left.simps)
  have r: "last_sig_in_slice (render_trail es) = last_sig_of_lines (rev (map marshal_event es))"
    using b by (simp add: last_sig_in_slice_def split_rendered)
  show ?thesis
  proof (cases es rule: rev_cases)
    case (snoc xs x)
    then have u: "unmarshal_event (marshal_event x) = Some x" using assms by (simp add: unmarshal_marshal_event)
    have "last_sig_of_lines (rev (map marshal_event es)) = LineSig (ev_sig x)"
      unfolding snoc by (simp only: map_append rev_append list.map rev.simps append.simps last_sig_of_lines.simps
          marshal_not_blank if_False marshal_trim u option.case)
    then show ?thesis using snoc r by simp
  qed (use r in simp)
qed

lemma chained_row_ok:
  assumes "signing_good (cr, a)" and "list_all row_ok evs"
  shows "list_all row_ok (chained_rows cr a evs)"
  using writer.seal_all_row_ok [of evs "(cr, a)" "[]"] assms(2) by (simp add: chained_rows_def list_all_iff)

lemma row_ok_sig_stable: "row_ok e \<Longrightarrow> coerce_utf8 (ev_sig e) = ev_sig e"
proof -
  assume "row_ok e"
  then have "field_ok FSig e" using set_all_fields [of FSig] unfolding row_ok_def encodable_def list_all_iff by blast
  then show ?thesis
    by (cases "ev_sig e = []") (simp_all add: str_value_def coerce_utf8_all_ascii)
qed

lemma honestD:
  assumes "honest cap cr a d evs"
  shows "d_trail d = Content (render_trail (chained_rows cr a evs))" "sound_rows cap cr a evs"
    "evs = [] \<Longrightarrow> d_hwm d = Absent"
    "evs \<noteq> [] \<Longrightarrow> \<exists>c. 0 < c \<and> c \<le> length evs \<and> d_hwm d = Content (checkpoint_at cr a evs c)"
  using assms unfolding honest_def by (simp_all only: if_True if_False simp_thms)

lemma sound_rowsD:
  assumes "sound_rows cap cr a evs"
  shows "list_all row_ok evs" "\<forall>e\<in>set (chained_rows cr a evs). length (marshal_event e) < cap"
    "distinct (map ev_sig (chained_rows cr a evs))" "int (length evs) < 2 ^ 63"
  using assms unfolding sound_rows_def list_all_iff by blast+

lemma honest_last_sig:
  assumes "signing_good (cr, a)" and "honest cap cr a d evs"
  shows "last_sig d = Inr (tip_sig cr a evs)"
proof -
  let ?s = "chained_rows cr a evs"
  have "list_all row_ok ?s" by (rule chained_row_ok [OF assms(1) sound_rowsD(1) [OF honestD(2) [OF assms(2)]]])
  then have "list_all encodable ?s" unfolding list_all_iff row_ok_def by blast
  then have r: "last_sig_seek (render_trail ?s) = (if ?s = [] then NoLine else LineSig (ev_sig (last ?s)))"
    unfolding last_sig_seek_eq by (rule last_sig_rendered)
  have e: "?s = [] \<longleftrightarrow> evs = []" using length_chained [of cr a evs] by (metis length_0_conv)
  show ?thesis
    unfolding last_sig_def honestD(1) [OF assms(2)] file_state.case r e tip_sig_def
    by (simp split: if_splits)
qed

lemma verify_checkpointed:
  assumes "signing_good (cr, a)" and "sound_rows cap cr a evs" and "0 < c" and "c \<le> length evs"
  shows "verify_files cap (auditor_check cr a) (Content (render_trail (chained_rows cr a evs)))
      (Content (checkpoint_at cr a evs c)) = (length evs, int c, None)"
  using writer.verify_sealed_files [of "(cr, a)" evs cap c] assms
  by (simp add: sound_rows_def chained_rows_def checkpoint_at_def list_all_iff)

lemma verify_empty: "verify_files cap chk (Content (render_trail [])) Absent = (0, 0, None)"
  by (simp add: verify_files_def verify_with_checkpoint_def verify_stream_def scan_lines_def
      trail_lines_def render_trail_def start_walk_def check_high_water_mark_def)

lemma honest_verifies:
  assumes "signing_good (cr, a)" and "honest cap cr a d evs"
  shows "auditor_verify cap cr a d = (length evs, None)"
proof (cases "evs = []")
  case True
  then show ?thesis using honestD(1,3) [OF assms(2)] verify_empty [of cap "auditor_check cr a"]
    by (simp add: auditor_verify_def chained_rows_def)
next
  case False
  then obtain c where "0 < c" "c \<le> length evs" "d_hwm d = Content (checkpoint_at cr a evs c)"
    using honestD(4) [OF assms(2)] by blast
  then show ?thesis
    using honestD(1) [OF assms(2)] verify_checkpointed [OF assms(1) honestD(2) [OF assms(2)]]
    by (simp add: auditor_verify_def)
qed

lemma honest_checkpoint_count:
  assumes "signing_good (cr, a)" and "honest cap cr a d evs"
  shows "checkpoint_count cap cr a d (tip_sig cr a evs) = Inr (int (length evs))"
proof -
  have re: "recount cap cr a d = Inr (int (length evs))"
    using honest_verifies [OF assms] by (simp add: recount_def)
  show ?thesis
  proof (cases "evs = []")
    case True
    then show ?thesis using honestD(3) [OF assms(2)] re by (simp add: checkpoint_count_def read_high_water_mark_def)
  next
    case False
    then obtain c where c: "0 < c" "c \<le> length evs" "d_hwm d = Content (checkpoint_at cr a evs c)"
      using honestD(4) [OF assms(2)] by blast
    let ?s = "chained_rows cr a evs"
    let ?h = "checkpoint_of (auditor_sign cr a) (int c) (ev_sig (?s ! (c - 1)))"
    note snd = sound_rowsD [OF honestD(2) [OF assms(2)]]
    have "?s ! (c - 1) \<in> set ?s" using c by simp
    then have "row_ok (?s ! (c - 1))"
      using chained_row_ok [OF assms(1) snd(1)] unfolding list_all_iff by blast
    then have u: "coerce_utf8 (ev_sig (?s ! (c - 1))) = ev_sig (?s ! (c - 1))" by (rule row_ok_sig_stable)
    have "int c \<le> int (length evs)" using c(2) by simp
    then have lt: "int c < 2 ^ 63" using snd(4) by (rule le_less_trans)
    have sg: "coerce_utf8 (auditor_sign cr a m p) = auditor_sign cr a m p" for m p
      using writer.ascii [of _ "(cr, a)" m p] by (intro coerce_utf8_all_ascii) simp
    have "- (2 ^ 63) \<le> int c" by simp
    then have h: "parse_high_water_mark (checkpoint_at cr a evs c) = Some ?h"
      unfolding checkpoint_at_def
      by (intro parse_checkpoint_file) (simp_all only: checkpoint_of_simps lt u sg)
    have "?s \<noteq> []" using False length_chained [of cr a evs] by fastforce
    then have tip: "tip_sig cr a evs = ev_sig (?s ! (length evs - 1))"
      using False by (simp add: tip_sig_def last_conv_nth)
    have "c = length evs" if "hwm_last_sig ?h = tip_sig cr a evs"
    proof -
      have "map ev_sig ?s ! (c - 1) = map ev_sig ?s ! (length evs - 1)"
        using that tip c by simp
      then have "c - 1 = length evs - 1"
        using c nth_eq_iff_index_eq [OF snd(3), of "c - 1" "length evs - 1"] by simp
      then show ?thesis using c by simp
    qed
    then show ?thesis
      using c(1,3) h re by (auto simp: checkpoint_count_def read_high_water_mark_def)
  qed
qed

subsection \<open>One append\<close>

text \<open>
  Writes that leave the file with all of the buffer or none of it; a torn line is not covered.
  A trail whose very first checkpoint was not written is \<open>unanchored\<close>.
\<close>

definition whole_writes :: "audit_io \<Rightarrow> bool" where
  "whole_writes io \<longleftrightarrow> (\<forall>m. fst (write_all (io_write io) m) = [] \<or> fst (write_all (io_write io) m) = m)"

definition unanchored :: "nat \<Rightarrow> crypto \<Rightarrow> auditor \<Rightarrow> disk \<Rightarrow> event list \<Rightarrow> bool" where
  "unanchored cap cr a d evs \<longleftrightarrow>
     length evs = 1 \<and> sound_rows cap cr a evs
     \<and> d_trail d = Content (render_trail (chained_rows cr a evs)) \<and> d_hwm d = Absent"

lemma link_honest:
  assumes "signing_good (cr, a)" and "signing_enabled a" and "honest cap cr a d evs" and "ev_sig ev = []"
  shows "link_row cap cr a d ev =
    Inr (seal (auditor_sign cr a) (tip_sig cr a evs) ev, int (length evs))"
proof -
  have "ev\<lparr>ev_sig := []\<rparr> = ev" using assms(4) by (cases ev) simp
  then show ?thesis
    using assms(2) by (simp add: link_row_def honest_last_sig [OF assms(1,3)] honest_checkpoint_count [OF assms(1,3)] seal_def)
qed

lemma checkpoint_at_snoc:
  "0 < c \<Longrightarrow> c \<le> length evs \<Longrightarrow> checkpoint_at cr a (evs @ [e]) c = checkpoint_at cr a evs c"
proof -
  assume "0 < c" "c \<le> length evs"
  then have "c - 1 < length evs" by simp
  then show ?thesis by (simp only: checkpoint_at_def chained_snoc nth_append length_chained if_True)
qed

lemma update_hwm_cases:
  "update_high_water_mark cr a io n sg durable d = (d, Some CheckpointWriteFailed)
   \<or> fst (update_high_water_mark cr a io n sg durable d) =
      d\<lparr>d_hwm := Content (checkpoint_file (checkpoint_of (auditor_sign cr a) n sg))\<rparr>"
  by (simp add: update_high_water_mark_def Let_def)

lemma update_hwm_None:
  "update_high_water_mark cr a io n sg durable d = (d', None) \<Longrightarrow>
    d' = d\<lparr>d_hwm := Content (checkpoint_file (checkpoint_of (auditor_sign cr a) n sg))\<rparr>"
  by (auto simp: update_high_water_mark_def Let_def split: if_splits)

lemma honest_written:
  assumes "honest cap cr a d evs" and "sound_rows cap cr a (evs @ [e])"
    and "d_trail d' = Content (render_trail (chained_rows cr a (evs @ [e])))"
  shows "d_hwm d' = d_hwm d \<Longrightarrow> honest cap cr a d' (evs @ [e]) \<or> (evs = [] \<and> unanchored cap cr a d' (evs @ [e]))"
    and "d_hwm d' = Content (checkpoint_at cr a (evs @ [e]) (Suc (length evs))) \<Longrightarrow> honest cap cr a d' (evs @ [e])"
proof -
  show "honest cap cr a d' (evs @ [e]) \<or> (evs = [] \<and> unanchored cap cr a d' (evs @ [e]))"
    if h: "d_hwm d' = d_hwm d"
  proof (cases "evs = []")
    case True
    then show ?thesis using honestD(3) [OF assms(1)] assms(2,3) h by (simp add: unanchored_def)
  next
    case False
    then obtain c where c: "0 < c" "c \<le> length evs" "d_hwm d = Content (checkpoint_at cr a evs c)"
      using honestD(4) [OF assms(1)] by blast
    have "d_hwm d' = Content (checkpoint_at cr a (evs @ [e]) c)" using c h by (simp add: checkpoint_at_snoc)
    moreover have "c \<le> length (evs @ [e])" using c(2) by simp
    ultimately show ?thesis using assms(2,3) c(1) unfolding honest_def by auto
  qed
  show "honest cap cr a d' (evs @ [e])"
    if h: "d_hwm d' = Content (checkpoint_at cr a (evs @ [e]) (Suc (length evs)))"
    using assms(2,3) h unfolding honest_def by (auto intro: exI [of _ "Suc (length evs)"])
qed

text \<open>The ways an append can end, whatever the row.\<close>

definition written_disk :: "audit_io \<Rightarrow> event \<Rightarrow> disk \<Rightarrow> disk" where
  "written_disk io ev d =
     d\<lparr>d_trail := append_trail (fst (write_all (io_write io) (marshal_event ev @ [newline]))) (d_trail d)\<rparr>"

definition anchored_disk :: "crypto \<Rightarrow> auditor \<Rightarrow> audit_io \<Rightarrow> event \<Rightarrow> int \<Rightarrow> disk \<Rightarrow> disk" where
  "anchored_disk cr a io ev c d =
     (written_disk io ev d)
       \<lparr>d_hwm := Content (checkpoint_file (checkpoint_of (auditor_sign cr a) (wrap64 (c + 1)) (ev_sig ev)))\<rparr>"

definition written_ok :: "audit_io \<Rightarrow> event \<Rightarrow> bool" where
  "written_ok io ev = snd (write_all (io_write io) (marshal_event ev @ [newline]))"

lemma append_row_unfold:
  "append_row cap cr io required ev c a d =
     (if required \<and> \<not> io_path_after io then (a, d, Some PathReplaced)
      else if \<not> written_ok io ev then (a, written_disk io ev d, Some WriteFailed)
      else if required \<and> \<not> io_sync io then (a, written_disk io ev d, Some SyncFailed)
      else if required \<and> \<not> io_dir_sync io then (a, written_disk io ev d, Some DirSyncFailed)
      else if signing_enabled a then
        (case update_high_water_mark cr a io (wrap64 (c + 1)) (ev_sig ev) required (written_disk io ev d) of
           (d2, Some e) \<Rightarrow> (a, d2, Some e)
         | (d2, None) \<Rightarrow> (bump_run ev a, d2, None))
      else (bump_run ev a, written_disk io ev d, None))"
  by (simp only: append_row_def written_disk_def written_ok_def Let_def case_prod_unfold)

lemma append_row_cases:
  assumes "signing_enabled a" and "append_row cap cr io required ev c a d = (a', d', r)"
  shows "r = None \<Longrightarrow> written_ok io ev \<and> a' = bump_run ev a \<and> d' = anchored_disk cr a io ev c d"
    and "r \<noteq> None \<Longrightarrow> a' = a \<and>
      (d' = d \<or> d' = written_disk io ev d \<or> (written_ok io ev \<and> d' = anchored_disk cr a io ev c d))"
proof -
  let ?u = "update_high_water_mark cr a io (wrap64 (c + 1)) (ev_sig ev) required (written_disk io ev d)"
  obtain d2 x where u: "?u = (d2, x)" by fastforce
  have d2: "d2 = written_disk io ev d \<or> d2 = anchored_disk cr a io ev c d"
    using update_hwm_cases [of cr a io "wrap64 (c + 1)" "ev_sig ev" required "written_disk io ev d"] u
    by (auto simp: anchored_disk_def)
  have d2N: "x = None \<Longrightarrow> d2 = anchored_disk cr a io ev c d"
    using update_hwm_None u unfolding anchored_disk_def by blast
  show "written_ok io ev \<and> a' = bump_run ev a \<and> d' = anchored_disk cr a io ev c d" if "r = None"
    using assms(2) that d2N unfolding append_row_unfold u
    by (cases x) (simp_all add: assms(1) split: if_splits)
  show "a' = a \<and>
      (d' = d \<or> d' = written_disk io ev d \<or> (written_ok io ev \<and> d' = anchored_disk cr a io ev c d))" if "r \<noteq> None"
    using assms(2) that d2 unfolding append_row_unfold u
    by (cases x) (auto simp: assms(1) split: if_splits)
qed

lemma written_honest:
  assumes "honest cap cr a d evs" and "sound_rows cap cr a (evs @ [e])" and "whole_writes io"
    and "s = seal (auditor_sign cr a) (tip_sig cr a evs) e"
  shows "honest cap cr a (written_disk io s d) evs \<or> honest cap cr a (written_disk io s d) (evs @ [e])
      \<or> (evs = [] \<and> unanchored cap cr a (written_disk io s d) (evs @ [e]))"
    and "written_ok io s \<Longrightarrow> honest cap cr a (anchored_disk cr a io s (int (length evs)) d) (evs @ [e])
      \<and> d_hwm (anchored_disk cr a io s (int (length evs)) d) =
        Content (checkpoint_at cr a (evs @ [e]) (Suc (length evs)))"
proof -
  let ?line = "marshal_event s @ [newline]"
  let ?w = "fst (write_all (io_write io) ?line)"
  have t: "d_trail d = Content (render_trail (chained_rows cr a evs))" by (rule honestD(1) [OF assms(1)])
  have grown: "d_trail (written_disk io s d) = Content (render_trail (chained_rows cr a (evs @ [e])))" if "?w = ?line"
    using that by (simp add: written_disk_def t chained_snoc render_snoc assms(4))
  have hw: "d_hwm (written_disk io s d) = d_hwm d" by (simp add: written_disk_def)
  have same: "written_disk io s d = d" if "?w = []"
    using that t by (cases d) (simp add: written_disk_def)
  consider "?w = []" | "?w = ?line" using assms(3) unfolding whole_writes_def by blast
  then show "honest cap cr a (written_disk io s d) evs \<or> honest cap cr a (written_disk io s d) (evs @ [e])
      \<or> (evs = [] \<and> unanchored cap cr a (written_disk io s d) (evs @ [e]))"
  proof cases
    case 1
    then show ?thesis using same assms(1) by simp
  next
    case 2
    show ?thesis using honest_written(1) [OF assms(1,2) grown [OF 2] hw] by blast
  qed
  have "int (Suc (length evs)) < 2 ^ 63" using sound_rowsD(4) [OF assms(2)] by simp
  then have "wrap64 (int (Suc (length evs))) = int (Suc (length evs))" by (intro wrap64_id) simp_all
  then have wr: "wrap64 (int (length evs) + 1) = int (Suc (length evs))" by (simp add: add.commute)
  have "ev_sig (chained_rows cr a (evs @ [e]) ! (Suc (length evs) - 1)) = ev_sig s"
    by (simp add: chained_snoc nth_append assms(4))
  then have cp: "checkpoint_file (checkpoint_of (auditor_sign cr a) (wrap64 (int (length evs) + 1)) (ev_sig s))
      = checkpoint_at cr a (evs @ [e]) (Suc (length evs))"
    unfolding wr checkpoint_at_def by (simp only:)
  show "honest cap cr a (anchored_disk cr a io s (int (length evs)) d) (evs @ [e])
      \<and> d_hwm (anchored_disk cr a io s (int (length evs)) d) =
        Content (checkpoint_at cr a (evs @ [e]) (Suc (length evs)))" if "written_ok io s"
  proof -
    have "?w = ?line"
      using write_all_prefix [of ?line "io_write io"] that by (auto simp: written_ok_def)
    note g = grown [OF this]
    have h: "d_hwm (anchored_disk cr a io s (int (length evs)) d) =
        Content (checkpoint_at cr a (evs @ [e]) (Suc (length evs)))"
      by (simp only: anchored_disk_def cp) simp
    have "d_trail (anchored_disk cr a io s (int (length evs)) d) =
        Content (render_trail (chained_rows cr a (evs @ [e])))"
      using g by (simp add: anchored_disk_def)
    then show ?thesis using honest_written(2) [OF assms(1,2) _ h] h by blast
  qed
qed

lemma append_row_honest:
  assumes "signing_enabled a" and "honest cap cr a d evs" and "sound_rows cap cr a (evs @ [e])"
    and "whole_writes io" and "s = seal (auditor_sign cr a) (tip_sig cr a evs) e"
    and "append_row cap cr io required s (int (length evs)) a d = (a', d', r)"
  shows "r = None \<Longrightarrow> honest cap cr a d' (evs @ [e])
      \<and> d_hwm d' = Content (checkpoint_at cr a (evs @ [e]) (Suc (length evs))) \<and> a' = bump_run s a"
    and "r \<noteq> None \<Longrightarrow> a' = a \<and> (honest cap cr a d' evs \<or> honest cap cr a d' (evs @ [e])
      \<or> (evs = [] \<and> unanchored cap cr a d' (evs @ [e])))"
proof -
  note c = append_row_cases [OF assms(1,6)] and w = written_honest [OF assms(2-5)]
  show "honest cap cr a d' (evs @ [e])
      \<and> d_hwm d' = Content (checkpoint_at cr a (evs @ [e]) (Suc (length evs))) \<and> a' = bump_run s a" if "r = None"
    using c(1) [OF that] w(2) by blast
  show "a' = a \<and> (honest cap cr a d' evs \<or> honest cap cr a d' (evs @ [e])
      \<or> (evs = [] \<and> unanchored cap cr a d' (evs @ [e])))" if "r \<noteq> None"
    using c(2) [OF that] w assms(2) by blast
qed

subsection \<open>One record\<close>

text \<open>Only the keys of a writer matter for its trail.\<close>

definition same_keys :: "auditor \<Rightarrow> auditor \<Rightarrow> bool" where
  "same_keys a b \<longleftrightarrow> a_key a = a_key b \<and> a_ed a = a_ed b"

lemma same_keys_simps [simp]:
  "same_keys a a" "same_keys (bump_run ev a) a" "same_keys (a\<lparr>required_err := x\<rparr>) a"
  by (simp_all add: same_keys_def bump_run_def)

lemma auditor_sign_keys: "same_keys a b \<Longrightarrow> auditor_sign cr a = auditor_sign cr b"
  by (intro ext) (simp add: same_keys_def auditor_sign_def split: option.splits)

lemma sound_rows_keys: "same_keys a b \<Longrightarrow> sound_rows cap cr a evs = sound_rows cap cr b evs"
  by (simp add: sound_rows_def chained_rows_def auditor_sign_keys [of a b])

lemma honest_keys:
  assumes "same_keys a b" and "d_trail d' = d_trail d" and "d_hwm d' = d_hwm d"
  shows "honest cap cr a d' evs = honest cap cr b d evs"
    and "unanchored cap cr a d' evs = unanchored cap cr b d evs"
  using auditor_sign_keys [OF assms(1), of cr] sound_rows_keys [OF assms(1)] assms(2,3)
  by (simp_all add: honest_def unanchored_def chained_rows_def checkpoint_at_def)

lemma latch_simps:
  "latch e a d = (a2, d2) \<Longrightarrow>
    same_keys a2 a \<and> d_trail d2 = d_trail d \<and> d_hwm d2 = d_hwm d \<and> required_err a2 \<noteq> None
    \<and> run_seqs a2 = run_seqs a \<and> run_closed a2 = run_closed a"
  by (auto simp: latch_def same_keys_def split: option.splits if_splits)

text \<open>A row that gets through keeps the caller's fields.\<close>

lemma prepare_row_fields:
  assumes "prepare_row a io required ev = Inr e"
  shows "ev_sig e = []" "ev_time e = io_clock io" "ev_agent e = ev_agent ev" "ev_tool e = ev_tool ev"
    "ev_decision e = ev_decision ev" "ev_reason e = ev_reason ev" "action_id e = action_id ev"
    "schema_version e = schema_version ev" "run_id e = run_id ev" "validate_audit_event e = None"
    "record_type e = record_type ev" "run_event e = run_event ev"
  using assms
  by (auto simp: prepare_row_def stamp_run_def Let_def split: sum.splits if_splits option.splits)

lemma prepare_row_seq:
  assumes "prepare_row a io required ev = Inr e" and "schema_version ev = 2"
  shows "required" "\<not> run_closed a (run_id ev)" "run_seq e = run_seqs a (run_id ev) + 1"
    "run_seqs a (run_id ev) \<noteq> - 1"
  using assms
  by (auto simp: prepare_row_def stamp_run_def Let_def split: sum.splits if_splits option.splits)

lemma stamp_ids_simps [simp]:
  "ev_sig (stamp_ids a io e) = ev_sig e" "ev_time (stamp_ids a io e) = ev_time e"
  "ev_agent (stamp_ids a io e) = ev_agent e" "ev_tool (stamp_ids a io e) = ev_tool e"
  "ev_decision (stamp_ids a io e) = ev_decision e" "ev_reason (stamp_ids a io e) = ev_reason e"
  "action_id (stamp_ids a io e) = action_id e" "schema_version (stamp_ids a io e) = schema_version e"
  "run_id (stamp_ids a io e) = run_id e" "run_seq (stamp_ids a io e) = run_seq e"
  "record_type (stamp_ids a io e) = record_type e" "run_event (stamp_ids a io e) = run_event e"
  "key_id (stamp_ids a io e) = (if a_ed a \<noteq> None then a_key_id a else [])"
  by (simp_all add: stamp_ids_def)

text \<open>What \<open>record\<close> does of a writer that is open.\<close>

lemma write_row_cases:
  assumes "write_row cap cr io required ev a d = ((a', d', r), may)"
    and "signing_good (cr, a)" and "signing_enabled a" and "honest cap cr a d evs" and "whole_writes io"
    and "\<And>e. prepare_row a io required ev = Inr e \<Longrightarrow> sound_rows cap cr a (evs @ [stamp_ids a io e])"
  obtains e where "prepare_row a io required ev = Inr e" and "r = None"
      and "honest cap cr a d' (evs @ [stamp_ids a io e])"
      and "d_hwm d' = Content (checkpoint_at cr a (evs @ [stamp_ids a io e]) (Suc (length evs)))"
      and "a' = bump_run (seal (auditor_sign cr a) (tip_sig cr a evs) (stamp_ids a io e)) a"
  | e where "prepare_row a io required ev = Inr e" and "r \<noteq> None" and "a' = a"
      and "honest cap cr a d' (evs @ [stamp_ids a io e])
        \<or> (evs = [] \<and> unanchored cap cr a d' (evs @ [stamp_ids a io e]))" and "may"
  | "r \<noteq> None" and "a' = a" and "honest cap cr a d' evs"
proof (cases "prepare_row a io required ev")
  case (Inl err)
  then have "r \<noteq> None \<and> a' = a \<and> d' = d"
    using assms(1) by (auto simp: write_row_def split: option.splits if_splits)
  then show ?thesis using that(3) assms(4) by blast
next
  case (Inr e)
  let ?s = "seal (auditor_sign cr a) (tip_sig cr a evs) (stamp_ids a io e)"
  have "ev_sig (stamp_ids a io e) = []" using prepare_row_fields(1) [OF Inr] by simp
  note link = link_honest [OF assms(2,3,4) this]
  show ?thesis
  proof (cases "validate_approval_actor ev = None \<and> io_lock io \<and> (\<not> required \<or> io_path_before io)")
    case False
    then have "r \<noteq> None \<and> a' = a \<and> d' = d"
      using assms(1,3) Inr by (auto simp: write_row_def split: option.splits if_splits)
    then show ?thesis using that(3) assms(4) by blast
  next
    case True
    then have app: "append_row cap cr io required ?s (int (length evs)) a d = (a', d', r)" and may: may
      using assms(1) Inr link by (simp_all add: write_row_def split: if_splits)
    note ar = append_row_honest [OF assms(3,4) assms(6) [OF Inr] assms(5) refl app]
    show ?thesis
    proof (cases "r = None")
      case True
      then show ?thesis using that(1) [OF Inr] ar(1) by blast
    next
      case False
      then show ?thesis using that(2) [OF Inr False] that(3) [OF False] ar(2) may by blast
    qed
  qed
qed

text \<open>Without its checkpoint a trail with an entry takes no more rows.\<close>

lemma unanchored_refuses:
  assumes "signing_good (cr, a)" and "signing_enabled a" and "unanchored cap cr a d evs"
  shows "\<exists>e. link_row cap cr a d ev = Inl e"
proof -
  let ?s = "chained_rows cr a evs"
  have sr: "sound_rows cap cr a evs" and t: "d_trail d = Content (render_trail ?s)" and h: "d_hwm d = Absent"
    and n: "length evs = 1"
    using assms(3) unfolding unanchored_def by blast+
  have "list_all row_ok ?s" by (rule chained_row_ok [OF assms(1) sound_rowsD(1) [OF sr]])
  then have "\<forall>e\<in>set ?s. encodable e \<and> length (marshal_event e) < cap"
    using sound_rowsD(2) [OF sr] unfolding list_all_iff row_ok_def by blast
  then have "length (trail_events cap (render_trail ?s)) = 1"
    using trail_events_render [of ?s cap] n by simp
  then have "snd (verify_stream cap (auditor_check cr a) None (render_trail ?s)) \<noteq> None"
    using verify_stream_count [of cap "auditor_check cr a" None "render_trail ?s"] by auto
  then have "\<exists>e. recount cap cr a d = Inl e"
    by (auto simp: recount_def auditor_verify_def verify_files_def verify_with_checkpoint_def t h split: prod.splits)
  then obtain e where "checkpoint_count cap cr a d tip = Inl e" for tip
    by (auto simp: checkpoint_count_def read_high_water_mark_def h)
  then show ?thesis using assms(2) by (auto simp: link_row_def split: sum.splits)
qed

subsection \<open>The life of a writer\<close>

definition run_rows :: "bytes \<Rightarrow> event list \<Rightarrow> event list" where
  "run_rows r evs = filter (\<lambda>e. schema_version e = 2 \<and> run_id e = r) evs"

text \<open>The v2 rows of every run are numbered 1, 2, 3, \<dots>, and a close row is the last of its run.\<close>

definition numbered :: "event list \<Rightarrow> bool" where
  "numbered evs \<longleftrightarrow>
     (\<forall>r. map (unat \<circ> run_seq) (run_rows r evs) = [1..<Suc (length (run_rows r evs))]
       \<and> (\<forall>e\<in>set (butlast (run_rows r evs)). \<not> is_close e))"

text \<open>A writer without a latched failure knows the numbers.\<close>

definition counts_match :: "auditor \<Rightarrow> event list \<Rightarrow> bool" where
  "counts_match a evs \<longleftrightarrow>
     (\<forall>r. unat (run_seqs a r) = length (run_rows r evs)
       \<and> (run_closed a r \<longleftrightarrow> (\<exists>e\<in>set (run_rows r evs). is_close e)))"

definition trail_inv :: "nat \<Rightarrow> crypto \<Rightarrow> auditor \<Rightarrow> disk \<Rightarrow> event list \<Rightarrow> bool" where
  "trail_inv cap cr a d evs \<longleftrightarrow>
     (honest cap cr a d evs \<or> unanchored cap cr a d evs) \<and> numbered evs
     \<and> (required_err a = None \<longrightarrow> counts_match a evs)"

text \<open>
  A call whose write leaves its whole line or nothing, and whose row, if accepted, is sound: the verifier accepts it, its line is below the
  limit of the scanner, its signature is new in the trail, and the trail stays below \<open>2 ^ 63\<close> rows. Locks, checks of the path, syncs,
  the write of the checkpoint and its rename may all fail. \<open>writer_reach\<close> is a life of such calls.
\<close>

definition benign_call :: "nat \<Rightarrow> crypto \<Rightarrow> auditor \<Rightarrow> audit_io \<Rightarrow> bool \<Rightarrow> event \<Rightarrow> event list \<Rightarrow> bool" where
  "benign_call cap cr a io required ev evs \<longleftrightarrow>
     whole_writes io
     \<and> (\<forall>e. prepare_row a io required ev = Inr e \<longrightarrow> sound_rows cap cr a (evs @ [stamp_ids a io e]))"

inductive writer_reach :: "nat \<Rightarrow> crypto \<Rightarrow> auditor \<Rightarrow> disk \<Rightarrow> auditor \<Rightarrow> disk \<Rightarrow> bool"
  for cap cr a0 d0 where
  start: "writer_reach cap cr a0 d0 a0 d0"
| call: "writer_reach cap cr a0 d0 a d \<Longrightarrow>
    (\<And>evs. honest cap cr a d evs \<Longrightarrow> benign_call cap cr a io required ev evs) \<Longrightarrow>
    record_event cap cr io required ev a d = (a', d', r) \<Longrightarrow> writer_reach cap cr a0 d0 a' d'"
| closing: "writer_reach cap cr a0 d0 a d \<Longrightarrow> writer_reach cap cr a0 d0 (close_auditor a) d"
| clearing: "writer_reach cap cr a0 d0 a d \<Longrightarrow> writer_reach cap cr a0 d0 a (clear_failure_status (Some a) d)"

lemma run_rows_snoc: "run_rows r (evs @ [e]) =
    run_rows r evs @ (if schema_version e = 2 \<and> run_id e = r then [e] else [])"
  by (simp add: run_rows_def)

lemma numbered_snoc:
  assumes "numbered evs" and "counts_match a evs" and "prepare_row a io required ev = Inr e"
  shows "numbered (evs @ [stamp_ids a io e])"
    and "counts_match (bump_run (stamp_ids a io e) a) (evs @ [stamp_ids a io e])"
proof -
  let ?e = "stamp_ids a io e"
  have f: "schema_version ?e = schema_version ev" "run_id ?e = run_id ev" "is_close ?e = is_close e" "run_seq ?e = run_seq e"
    using prepare_row_fields [OF assms(3)] by (simp_all add: is_close_def)
  have v2: "\<not> run_closed a (run_id ev)" "run_seq e = run_seqs a (run_id ev) + 1" "run_seqs a (run_id ev) \<noteq> - 1"
    if "schema_version ev = 2"
    using prepare_row_seq [OF assms(3) that] by simp_all
  have un: "unat (run_seq e) = Suc (length (run_rows (run_id ev) evs))" if "schema_version ev = 2"
  proof -
    have "run_seqs a (run_id ev) + 1 \<noteq> 0" using v2(3) [OF that] by (metis add.commute eq_neg_iff_add_eq_0)
    then have "unat (run_seqs a (run_id ev) + 1) = Suc (unat (run_seqs a (run_id ev)))"
      by (metis add.commute unat_eq_zero unatSuc)
    then show ?thesis using v2(2) [OF that] assms(2) by (simp add: counts_match_def)
  qed
  have noclose: "\<forall>x\<in>set (run_rows (run_id ev) evs). \<not> is_close x" if "schema_version ev = 2"
    using v2(1) [OF that] assms(2) unfolding counts_match_def by blast
  show "numbered (evs @ [?e])"
    using assms(1) f un noclose unfolding numbered_def run_rows_snoc
    by (auto simp: butlast_append)
  show "counts_match (bump_run ?e a) (evs @ [?e])"
    using assms(2) f un noclose v2(1) unfolding counts_match_def run_rows_snoc
    by (auto simp: bump_run_def is_close_def)
qed

lemma numbered_v1_snoc:
  assumes "schema_version e \<noteq> 2"
  shows "numbered (evs @ [e]) = numbered evs" "counts_match a (evs @ [e]) = counts_match a evs"
  using assms by (simp_all add: numbered_def counts_match_def run_rows_snoc)

lemma counts_match_cong:
  "run_seqs a = run_seqs b \<Longrightarrow> run_closed a = run_closed b \<Longrightarrow> counts_match a evs = counts_match b evs"
  by (simp add: counts_match_def)

lemma bump_run_seal: "bump_run (seal s p e) a = (bump_run e a)\<lparr>run_heads := run_heads (bump_run (seal s p e) a)\<rparr>"
  by (simp add: bump_run_def seal_def is_close_def)

lemma required_err_bump [simp]: "required_err (bump_run e a) = required_err a"
  by (simp add: bump_run_def)

text \<open>The outcome of a call: what is returned, and what became of the trail.\<close>

lemma latched_record:
  assumes "((a1, d1, r), may) =
      (if required \<and> required_err a \<noteq> None then ((a, d, map_option WriterFailed (required_err a)), True)
       else if a_closed a then ((a, d, if required then Some WriterClosed else None), True)
       else if \<not> a_open a then ((a, d, if required then Some WriterUnavailable else None), True)
       else write_row cap cr io required ev a d)"
  shows "record_event cap cr io required ev a d =
    (if r \<noteq> None \<and> required \<and> may then (fst (latch (the r) a1 d1), snd (latch (the r) a1 d1), r) else (a1, d1, r))"
  unfolding record_event_def assms [symmetric] by (cases r) (simp_all add: case_prod_unfold Let_def)

lemma record_trail_inv:
  assumes "signing_good (cr, a)" and "signing_enabled a" and "trail_inv cap cr a d evs"
    and "honest cap cr a d evs \<Longrightarrow> benign_call cap cr a io required ev evs"
    and "record_event cap cr io required ev a d = (a', d', r)"
  shows "\<exists>evs'. trail_inv cap cr a' d' evs' \<and> same_keys a' a
    \<and> (evs' = evs \<or> (\<exists>e. prepare_row a io required ev = Inr e \<and> a_open a \<and> \<not> a_closed a \<and> evs' = evs @ [stamp_ids a io e]))
    \<and> (r = None \<and> a_open a \<and> \<not> a_closed a \<longrightarrow>
        (\<exists>e. prepare_row a io required ev = Inr e \<and> evs' = evs @ [stamp_ids a io e] \<and> honest cap cr a' d' evs'
          \<and> d_hwm d' = Content (checkpoint_at cr a evs' (length evs'))))"
proof -
  let ?step = "if required \<and> required_err a \<noteq> None then ((a, d, map_option WriterFailed (required_err a)), True)
       else if a_closed a then ((a, d, if required then Some WriterClosed else None), True)
       else if \<not> a_open a then ((a, d, if required then Some WriterUnavailable else None), True)
       else write_row cap cr io required ev a d"
  obtain a1 d1 r1 may where st: "((a1, d1, r1), may) = ?step" by (metis prod.exhaust)
  note rec = latched_record [OF st]
  have r: "r1 = r" using assms(5) unfolding rec by (auto split: if_splits)
  have num: "numbered evs" using assms(3) by (simp add: trail_inv_def)
  text \<open>Latching and the marker leave the trail as the step left it.\<close>
  have lift: "trail_inv cap cr a' d' evs' \<and> same_keys a' a"
    if "honest cap cr a1 d1 evs' \<or> unanchored cap cr a1 d1 evs'" "numbered evs'"
      "required_err a1 = None \<Longrightarrow> r = None \<or> \<not> required \<or> \<not> may \<Longrightarrow> counts_match a1 evs'" "same_keys a1 a" for evs'
  proof (cases "r \<noteq> None \<and> required \<and> may")
    case True
    then obtain e where e: "r = Some e" by blast
    have "latch e a1 d1 = (a', d')"
      using assms(5) True e unfolding rec r by (simp add: prod_eq_iff)
    note l = latch_simps [OF this]
    then have "same_keys a' a1" "d_trail d' = d_trail d1" "d_hwm d' = d_hwm d1" by blast+
    note hk = honest_keys [OF this]
    have "same_keys a' a" using l that(4) by (simp add: same_keys_def)
    then show ?thesis using that(1,2) l unfolding trail_inv_def hk by blast
  next
    case False
    then have "a' = a1" "d' = d1" using assms(5) unfolding rec r by auto
    then show ?thesis using that False unfolding trail_inv_def by blast
  qed
  have stay: "\<exists>evs'. trail_inv cap cr a' d' evs' \<and> same_keys a' a \<and> (evs' = evs \<or> (\<exists>e. prepare_row a io required ev = Inr e \<and> a_open a \<and> \<not> a_closed a \<and> evs' = evs @ [stamp_ids a io e]))"
    if "a1 = a" "honest cap cr a d1 evs \<or> unanchored cap cr a d1 evs"
  proof -
    have "trail_inv cap cr a' d' evs \<and> same_keys a' a"
      by (rule lift) (use that num assms(3) in \<open>simp_all add: trail_inv_def\<close>)
    then show ?thesis by blast
  qed
  have disk: "honest cap cr a d evs \<or> unanchored cap cr a d evs" using assms(3) by (simp add: trail_inv_def)
  show ?thesis
  proof (cases "(required \<and> required_err a \<noteq> None) \<or> a_closed a \<or> \<not> a_open a")
    case True
    then have "a1 = a" "d1 = d" "r = None \<longrightarrow> a_closed a \<or> \<not> a_open a"
      using st r by (auto split: if_splits)
    then show ?thesis using stay disk by blast
  next
    case False
    then have w: "write_row cap cr io required ev a d = ((a1, d1, r), may)" using st r by (auto split: if_splits)
    have err: "required \<Longrightarrow> required_err a = None" and opened: "a_open a \<and> \<not> a_closed a" using False by blast+
    show ?thesis
    proof (cases "honest cap cr a d evs")
      case True
      note b = assms(4) [OF True, unfolded benign_call_def]
      show ?thesis
      proof (rule write_row_cases [OF w assms(1,2) True])
        show "whole_writes io" using b by blast
        show "sound_rows cap cr a (evs @ [stamp_ids a io e])" if "prepare_row a io required ev = Inr e" for e
          using b that by blast
      next
        fix e assume e: "prepare_row a io required ev = Inr e" "r = None"
          and h: "honest cap cr a d1 (evs @ [stamp_ids a io e])"
          and hw: "d_hwm d1 = Content (checkpoint_at cr a (evs @ [stamp_ids a io e]) (Suc (length evs)))"
          and a1: "a1 = bump_run (seal (auditor_sign cr a) (tip_sig cr a evs) (stamp_ids a io e)) a"
        have k: "same_keys a1 a" unfolding a1 by simp
        have h1: "honest cap cr a1 d1 (evs @ [stamp_ids a io e])" using h honest_keys(1) [OF k, of d1 d1] by simp
        have c: "numbered (evs @ [stamp_ids a io e]) \<and> (required_err a = None \<longrightarrow> counts_match a1 (evs @ [stamp_ids a io e]))"
        proof (cases "schema_version ev = 2")
          case True
          have "counts_match a evs" using assms(3) err prepare_row_seq(1) [OF e(1) True] by (simp add: trail_inv_def)
          note n = numbered_snoc [OF num this e(1)]
          have "counts_match a1 (evs @ [stamp_ids a io e]) =
              counts_match (bump_run (stamp_ids a io e) a) (evs @ [stamp_ids a io e])"
            unfolding a1 by (rule counts_match_cong) (simp_all add: bump_run_def seal_def is_close_def)
          then show ?thesis using n by simp
        next
          case False
          then have v1: "schema_version (stamp_ids a io e) \<noteq> 2" using prepare_row_fields(8) [OF e(1)] by simp
          have "a1 = a" unfolding a1 using v1 by (simp add: bump_run_def)
          then show ?thesis using v1 num assms(3) by (simp add: numbered_v1_snoc trail_inv_def)
        qed
        have "trail_inv cap cr a' d' (evs @ [stamp_ids a io e]) \<and> same_keys a' a"
          by (rule lift) (use h1 c k in \<open>simp_all add: a1\<close>)
        moreover have "a' = a1 \<and> d' = d1" using assms(5) e(2) unfolding rec r by simp
        ultimately show ?thesis using e(1) h1 hw opened by auto
      next
        fix e assume e: "prepare_row a io required ev = Inr e" "r \<noteq> None" "a1 = a" may
          and h: "honest cap cr a d1 (evs @ [stamp_ids a io e])
            \<or> (evs = [] \<and> unanchored cap cr a d1 (evs @ [stamp_ids a io e]))"
        have c: "numbered (evs @ [stamp_ids a io e]) \<and> (required_err a = None \<longrightarrow> \<not> required \<longrightarrow> counts_match a (evs @ [stamp_ids a io e]))"
        proof (cases "schema_version ev = 2")
          case True
          have "counts_match a evs" using assms(3) err prepare_row_seq(1) [OF e(1) True] by (simp add: trail_inv_def)
          then show ?thesis using numbered_snoc(1) [OF num _ e(1)] prepare_row_seq(1) [OF e(1) True] by blast
        next
          case False
          then have v1: "schema_version (stamp_ids a io e) \<noteq> 2" using prepare_row_fields(8) [OF e(1)] by simp
          then show ?thesis using num assms(3) by (simp add: numbered_v1_snoc trail_inv_def)
        qed
        have "trail_inv cap cr a' d' (evs @ [stamp_ids a io e]) \<and> same_keys a' a"
          by (rule lift) (use h c e in auto)
        then show ?thesis using e(1,2) opened by blast
      next
        assume "r \<noteq> None" "a1 = a" "honest cap cr a d1 evs"
        then show ?thesis using stay by blast
      qed
    next
      case False
      then have un: "unanchored cap cr a d evs" using disk by blast
      obtain f where f: "link_row cap cr a d x = Inl (f x)" for x
        using unanchored_refuses [OF assms(1,2) un] by metis
      have "a1 = a \<and> d1 = d \<and> r \<noteq> None"
        using w
        by (auto simp: f write_row_def split: option.splits if_splits sum.splits)
      then show ?thesis using stay un by blast
    qed
  qed
qed

lemma trail_inv_cong:
  assumes "same_keys a' a" and "d_trail d' = d_trail d" and "d_hwm d' = d_hwm d"
    and "required_err a' = required_err a" and "run_seqs a' = run_seqs a" and "run_closed a' = run_closed a"
  shows "trail_inv cap cr a' d' evs = trail_inv cap cr a d evs"
  unfolding trail_inv_def honest_keys [OF assms(1-3)] counts_match_cong [OF assms(5,6)] assms(4) by (rule refl)

lemma same_keys_enabled: "same_keys a b \<Longrightarrow> signing_enabled a = signing_enabled b \<and> signing_good (cr, a) = signing_good (cr, b)"
  by (simp add: same_keys_def signing_enabled_def signing_good_def split: option.splits)

lemma writer_reach_inv:
  assumes "writer_reach cap cr a0 d0 a d" and "signing_good (cr, a0)" and "signing_enabled a0"
    and "trail_inv cap cr a0 d0 evs0"
  shows "same_keys a a0 \<and> (\<exists>evs. trail_inv cap cr a d (evs0 @ evs))"
  using assms(1)
proof (induction rule: writer_reach.induct)
  case start
  then show ?case using assms(4) by (auto intro: exI [of _ "[]"])
next
  case (call a d io required ev a' d' r)
  then obtain evs where k: "same_keys a a0" and i: "trail_inv cap cr a d (evs0 @ evs)" by blast
  have g: "signing_good (cr, a)" "signing_enabled a"
    using same_keys_enabled [OF k] assms(2,3) by blast+
  obtain evs' where "trail_inv cap cr a' d' evs'" "same_keys a' a" "evs' = evs0 @ evs \<or> (\<exists>e. evs' = (evs0 @ evs) @ [e])"
    using record_trail_inv [OF g i call.hyps(2,3)] by blast
  then show ?case using k by (auto simp: same_keys_def)
next
  case (closing a d)
  have "trail_inv cap cr (close_auditor a) d x = trail_inv cap cr a d x" for x
    by (rule trail_inv_cong) (simp_all add: close_auditor_def same_keys_def)
  then show ?case using closing by (simp add: close_auditor_def same_keys_def)
next
  case (clearing a d)
  have "d_trail (clear_failure_status (Some a) d) = d_trail d" "d_hwm (clear_failure_status (Some a) d) = d_hwm d"
    by (simp_all add: clear_failure_status_def)
  note c = trail_inv_cong [OF same_keys_simps(1) this refl refl refl]
  show ?case unfolding c by (rule clearing.IH)
qed

subsection \<open>Opening a trail\<close>

lemma seed_line_keys: "same_keys (seed_line raw a) a" "a_pairing (seed_line raw a) = a_pairing a"
    "required_err (seed_line raw a) = required_err a"
  by (auto simp: seed_line_def same_keys_def Let_def split: option.splits)

lemma fold_seed_keys: "same_keys (fold seed_line ls a) a \<and> required_err (fold seed_line ls a) = required_err a"
proof (induction ls arbitrary: a)
  case (Cons l ls)
  have "same_keys (fold seed_line ls (seed_line l a)) a"
    using Cons.IH [of "seed_line l a"] seed_line_keys(1) [of l a] unfolding same_keys_def by simp
  then show ?case using Cons.IH [of "seed_line l a"] seed_line_keys(3) [of l a] by simp
qed simp

lemma seed_keys: "seed_run_sequences d a = Inr a' \<Longrightarrow> same_keys a' a \<and> required_err a' = required_err a"
  using fold_seed_keys
  by (auto simp: seed_run_sequences_def Let_def split: file_state.splits prod.splits if_splits)

lemma verify_keys: "same_keys a b \<Longrightarrow> auditor_verify cap cr a d = auditor_verify cap cr b d"
  by (simp add: same_keys_def auditor_verify_def auditor_check_def split: option.splits)

lemma fold_options_err: "required_err (fold (apply_option cr) opts a) = required_err a"
proof (induction opts arbitrary: a)
  case (Cons x xs)
  show ?case using Cons.IH [of "apply_option cr x a"] by (cases x) simp_all
qed simp

lemma open_auditor_ok:
  assumes "open_auditor cap cr opts path mkdir_ok open_ok d = (Inr a, d')" and "path \<noteq> []"
  shows "a_open a" "d_trail d' = (if d_trail d = Absent then Content [] else d_trail d)" "d_hwm d' = d_hwm d"
    "required_err a = None"
    "signing_enabled a \<Longrightarrow> (d_trail d = Absent \<or> snd (auditor_verify cap cr a d) = None) \<and> \<not> d_failing d'
      \<and> (d_failing d \<longrightarrow> d_trail d \<noteq> Absent)"
proof -
  let ?a = "fold (apply_option cr) opts fresh_auditor"
  have e: "required_err ?a = None" by (simp add: fold_options_err fresh_auditor_def)
  obtain b where b: "(if signing_enabled ?a then verify_existing cap cr d ?a
      else if a_pairing ?a then seed_run_sequences d ?a else Inr ?a) = Inr b"
    and a: "a = b\<lparr>a_open := True, a_path := path\<rparr>"
    and d': "d' = d\<lparr>d_trail := (if d_trail d = Absent then Content [] else d_trail d),
      d_failing := (d_failing d \<and> \<not> signing_enabled ?a)\<rparr>"
    and f: "\<not> (signing_enabled ?a \<and> d_failing d \<and> d_trail d = Absent)"
    using assms by (simp add: open_auditor_def Let_def split: if_splits sum.splits)
  have "b = ?a \<or> seed_run_sequences d ?a = Inr b"
    using b by (auto simp: verify_existing_def split: if_splits option.splits)
  then have k: "same_keys b ?a \<and> required_err b = None"
    using seed_keys [of d ?a b] e by auto
  show "a_open a" "d_trail d' = (if d_trail d = Absent then Content [] else d_trail d)" "d_hwm d' = d_hwm d"
    "required_err a = None"
    using k by (simp_all add: a d')
  have ka: "same_keys a ?a" using k by (simp add: a same_keys_def)
  show "(d_trail d = Absent \<or> snd (auditor_verify cap cr a d) = None) \<and> \<not> d_failing d'
      \<and> (d_failing d \<longrightarrow> d_trail d \<noteq> Absent)" if "signing_enabled a"
  proof -
    have s: "signing_enabled ?a" using that same_keys_enabled [OF ka] by blast
    then have "d_trail d = Absent \<or> snd (auditor_verify cap cr ?a d) = None"
      using b by (auto simp: verify_existing_def split: option.splits if_splits)
    then show ?thesis using s f by (simp add: verify_keys [OF ka] d')
  qed
qed

lemma open_auditor_error:
  "open_auditor cap cr opts path mkdir_ok open_ok d = (Inl e, d') \<Longrightarrow> d' = d"
  by (auto simp: open_auditor_def Let_def split: if_splits sum.splits)

lemma open_fresh_counts:
  assumes "open_auditor cap cr opts path mkdir_ok open_ok d = (Inr a, d')" and "d_trail d = Absent"
  shows "run_seqs a r = 0" "\<not> run_closed a r"
proof -
  have o: "run_seqs (fold (apply_option cr) opts x) = run_seqs x \<and> run_closed (fold (apply_option cr) opts x) = run_closed x" for x
  proof (induction opts arbitrary: x)
    case (Cons p ps)
    show ?case using Cons.IH [of "apply_option cr p x"] by (cases p) simp_all
  qed simp
  show "run_seqs a r = 0" "\<not> run_closed a r"
    using assms o [of fresh_auditor]
    by (auto simp: open_auditor_def Let_def verify_existing_def seed_run_sequences_def fresh_auditor_def
        split: if_splits sum.splits)
qed

subsection \<open>A small writer\<close>

definition demo_crypto :: crypto where
  "demo_crypto = \<lparr>cr_hmac = demo_mac, cr_sign = (\<lambda>k m. k @ m), cr_verify = (\<lambda>k m s. s = k @ m),
     cr_public = (\<lambda>k. k), cr_sha256 = (\<lambda>m. m)\<rparr>"

definition empty_disk :: disk where
  "empty_disk = \<lparr>d_trail = Absent, d_hwm = Absent, d_failing = False\<rparr>"

definition demo_writer :: auditor where
  "demo_writer = fresh_auditor\<lparr>a_key := ''k'', a_open := True, a_path := ''t''\<rparr>"

definition demo_disk :: disk where
  "demo_disk = empty_disk\<lparr>d_trail := Content []\<rparr>"

definition demo_io :: audit_io where
  "demo_io = \<lparr>io_clock = ''t0'', io_session = [], io_lock = True, io_path_before = True, io_path_after = True,
     io_write = (\<lambda>m. (length m, False)), io_sync = True, io_dir_sync = True, io_tmp_open = True,
     io_tmp_write = (\<lambda>m. (length m, False)), io_tmp_sync = True, io_tmp_close = True, io_rename = True,
     io_hwm_dir_sync = True\<rparr>"

definition demo_row :: event where
  "demo_row = zero_event\<lparr>ev_agent := ''a'', ev_tool := ''read'', ev_decision := ''allow''\<rparr>"

lemma demo_open:
  "open_auditor cap demo_crypto [WithSigningKey ''k''] ''t'' True True empty_disk = (Inr demo_writer, demo_disk)"
  by (simp add: open_auditor_def demo_writer_def demo_disk_def empty_disk_def fresh_auditor_def signing_enabled_def
      verify_existing_def)

lemma demo_writer_facts: "signing_good (demo_crypto, demo_writer)" "signing_enabled demo_writer"
  "a_open demo_writer" "\<not> a_closed demo_writer" "required_err demo_writer = None"
  by (simp_all add: signing_good_def demo_crypto_def demo_writer_def fresh_auditor_def demo_mac_def signing_enabled_def)

lemma write_whole [simp]: "write_all (\<lambda>m. (length m, False)) data = (data, True)"
proof -
  have "write_all (\<lambda>m. (length m, False)) [] = ([], True)" by (subst write_all.simps) simp
  then show ?thesis by (subst write_all.simps) simp
qed

lemma demo_io_whole: "whole_writes demo_io"
  by (simp add: whole_writes_def demo_io_def)

lemma demo_prepared: "prepare_row demo_writer demo_io required demo_row = Inr (demo_row\<lparr>ev_time := ''t0''\<rparr>)"
  by (simp add: prepare_row_def demo_row_def stamp_run_def zero_event_def demo_io_def validate_audit_event_def
      event_field_set_def v2_only_fields_def str_value_def int_value_def uint_value_def validate_approval_actor_def fails_def)

lemma demo_stamped: "stamp_ids demo_writer demo_io (demo_row\<lparr>ev_time := ''t0''\<rparr>) = demo_row\<lparr>ev_time := ''t0''\<rparr>"
  by (simp add: stamp_ids_def demo_row_def zero_event_def demo_io_def demo_writer_def fresh_auditor_def)

lemma demo_row_sound: "row_ok (demo_row\<lparr>ev_time := ''t0''\<rparr>)"
  by (simp add: demo_row_def row_ok_def encodable_def all_fields_def zero_event_def str_value_def
      int_value_def uint_value_def coerce_utf8_ascii validate_audit_event_def event_field_set_def
      v2_only_fields_def validate_approval_actor_def fails_def)

definition demo_limit :: nat where
  "demo_limit = Suc (length (render_trail (chained_rows demo_crypto demo_writer [demo_row\<lparr>ev_time := ''t0''\<rparr>])))"

lemma demo_sound_rows: "sound_rows demo_limit demo_crypto demo_writer [demo_row\<lparr>ev_time := ''t0''\<rparr>]"
  unfolding sound_rows_def demo_limit_def
  using demo_row_sound rendered_short by (auto simp: list_all_iff chained_rows_def)

lemma demo_honest: "honest cap demo_crypto demo_writer demo_disk []"
  by (simp add: honest_def sound_rows_def chained_rows_def demo_disk_def empty_disk_def render_trail_def)

lemma demo_benign: "benign_call demo_limit demo_crypto demo_writer demo_io required demo_row []"
  unfolding benign_call_def demo_prepared using demo_io_whole demo_sound_rows by (simp add: demo_stamped)

lemma demo_benign_first:
  assumes "honest demo_limit demo_crypto demo_writer demo_disk evs"
  shows "benign_call demo_limit demo_crypto demo_writer demo_io required demo_row evs"
proof -
  have "render_trail (chained_rows demo_crypto demo_writer evs) = []" using honestD [OF assms] by (simp add: demo_disk_def)
  then have "length (chained_rows demo_crypto demo_writer evs) = 0" by (cases "chained_rows demo_crypto demo_writer evs") (simp_all add: render_trail_def)
  then show ?thesis using demo_benign by simp
qed

lemma demo_recorded:
  "snd (snd (record_event cap demo_crypto demo_io True demo_row demo_writer demo_disk)) = None"
proof -
  have a: "validate_approval_actor demo_row = None"
    by (simp add: validate_approval_actor_def demo_row_def zero_event_def)
  have io: "io_lock demo_io" "io_path_before demo_io" "io_path_after demo_io" "io_sync demo_io" "io_dir_sync demo_io"
    "io_tmp_open demo_io" "io_tmp_sync demo_io" "io_tmp_close demo_io" "io_rename demo_io" "io_hwm_dir_sync demo_io"
    "io_write demo_io = (\<lambda>m. (length m, False))" "io_tmp_write demo_io = (\<lambda>m. (length m, False))"
    by (simp_all add: demo_io_def)
  have sg: "ev_sig (demo_row\<lparr>ev_time := ''t0''\<rparr>) = []" by (simp add: demo_row_def zero_event_def)
  note link = link_honest [OF demo_writer_facts(1,2) demo_honest sg]
  show ?thesis
    by (simp add: record_event_def write_row_def demo_writer_facts a io demo_prepared demo_stamped link
        append_row_def update_high_water_mark_def Let_def)
qed

subsection \<open>What the writer guarantees\<close>

lemma honest_inv_start:
  assumes "open_auditor cap cr opts path mkdir_ok open_ok d = (Inr a, d')" and "path \<noteq> []"
    and "d_trail d = Absent" and "d_hwm d = Absent"
  shows "trail_inv cap cr a d' []"
proof -
  note ok = open_auditor_ok [OF assms(1,2)] and fresh = open_fresh_counts [OF assms(1,3)]
  have "honest cap cr a d' []"
    using ok(2,3) assms(3,4) by (simp add: honest_def sound_rows_def chained_rows_def render_trail_def)
  then show ?thesis
    using fresh by (simp add: trail_inv_def numbered_def counts_match_def run_rows_def)
qed

text \<open>
  The life of a writer with a log of its calls: for each call that finds it open and whose row it accepts, the row as it is to be written, and
  whether the call reported success. The premises on a call are those of \<open>benign_call\<close>: a write leaves the whole line or nothing, the
  row is one the verifier accepts, its line stays below the limit of the scanner, its signature is new in the trail, and the rows
  stay below \<open>2 ^ 63\<close>. Everything else may fail.
\<close>

definition call_log :: "auditor \<Rightarrow> audit_io \<Rightarrow> bool \<Rightarrow> event \<Rightarrow> audit_error option \<Rightarrow> (event \<times> bool) list" where
  "call_log a io required ev r =
     (if a_closed a \<or> \<not> a_open a then []
      else (case prepare_row a io required ev of Inl err \<Rightarrow> [] | Inr e \<Rightarrow> [(stamp_ids a io e, r = None)]))"

inductive writer_life :: "nat \<Rightarrow> crypto \<Rightarrow> auditor \<Rightarrow> disk \<Rightarrow> (event \<times> bool) list \<Rightarrow> auditor \<Rightarrow> disk \<Rightarrow> bool"
  for cap cr a0 d0 where
  start: "writer_life cap cr a0 d0 [] a0 d0"
| call: "writer_life cap cr a0 d0 log a d \<Longrightarrow>
    (\<And>evs. honest cap cr a d evs \<Longrightarrow> benign_call cap cr a io required ev evs) \<Longrightarrow>
    record_event cap cr io required ev a d = (a', d', r) \<Longrightarrow>
    writer_life cap cr a0 d0 (log @ call_log a io required ev r) a' d'"
| closing: "writer_life cap cr a0 d0 log a d \<Longrightarrow> writer_life cap cr a0 d0 log (close_auditor a) d"
| clearing: "writer_life cap cr a0 d0 log a d \<Longrightarrow> writer_life cap cr a0 d0 log a (clear_failure_status (Some a) d)"

definition reported :: "(event \<times> bool) list \<Rightarrow> event list" where
  "reported log = map fst (filter snd log)"

definition logged :: "(event \<times> bool) list \<Rightarrow> event list \<Rightarrow> bool" where
  "logged log evs \<longleftrightarrow> subseq (reported log) evs \<and> subseq evs (map fst log)"

lemma logged_skip: "logged log evs \<Longrightarrow> reported l = [] \<Longrightarrow> logged (log @ l) evs"
  by (simp add: logged_def reported_def list_emb_prefix)

lemma logged_add: "logged log evs \<Longrightarrow> logged (log @ [(e, ok)]) (evs @ [e])"
  by (auto simp: logged_def reported_def intro: list_emb_append_mono list_emb_append2)

lemma writer_life_inv:
  assumes "writer_life cap cr a0 d0 log a d" and "signing_good (cr, a0)" and "signing_enabled a0"
    and "trail_inv cap cr a0 d0 []"
  shows "same_keys a a0 \<and> (\<exists>evs. trail_inv cap cr a d evs \<and> logged log evs)"
  using assms(1)
proof (induction rule: writer_life.induct)
  case start
  then show ?case using assms(4) by (auto simp: logged_def reported_def intro: exI [of _ "[]"])
next
  case (call log a d io required ev a' d' r)
  then obtain evs where k: "same_keys a a0" and i: "trail_inv cap cr a d evs" and l: "logged log evs" by blast
  have g: "signing_good (cr, a)" "signing_enabled a"
    using same_keys_enabled [OF k] assms(2,3) by blast+
  obtain evs' where evs': "trail_inv cap cr a' d' evs'" "same_keys a' a"
    "evs' = evs \<or> (\<exists>e. prepare_row a io required ev = Inr e \<and> a_open a \<and> \<not> a_closed a \<and> evs' = evs @ [stamp_ids a io e])"
    "r = None \<and> a_open a \<and> \<not> a_closed a \<longrightarrow> (\<exists>e. prepare_row a io required ev = Inr e \<and> evs' = evs @ [stamp_ids a io e])"
    using record_trail_inv [OF g i call.hyps(2,3)] by blast
  have "logged (log @ call_log a io required ev r) evs'"
  proof (cases "\<exists>e. prepare_row a io required ev = Inr e \<and> a_open a \<and> \<not> a_closed a \<and> evs' = evs @ [stamp_ids a io e]")
    case True
    then show ?thesis using logged_add [OF l] by (auto simp: call_log_def)
  next
    case False
    then have "evs' = evs" "r = None \<longrightarrow> a_closed a \<or> \<not> a_open a" using evs'(3,4) by blast+
    then show ?thesis using logged_skip [OF l] by (auto simp: call_log_def reported_def split: sum.split)
  qed
  then show ?case using k evs'(1,2) by (auto simp: same_keys_def)
next
  case (closing log a d)
  have "trail_inv cap cr (close_auditor a) d x = trail_inv cap cr a d x" for x
    by (rule trail_inv_cong) (simp_all add: close_auditor_def same_keys_def)
  then show ?case using closing by (simp add: close_auditor_def same_keys_def)
next
  case (clearing log a d)
  have "d_trail (clear_failure_status (Some a) d) = d_trail d" "d_hwm (clear_failure_status (Some a) d) = d_hwm d"
    by (simp_all add: clear_failure_status_def)
  note c = trail_inv_cong [OF same_keys_simps(1) this refl refl refl]
  show ?case unfolding c by (rule clearing.IH)
qed

text \<open>
  C24. The trail of a signing writer is the chain of the rows it accepted, and verifies. Start a signing writer on a fresh path and let
  it live through any sequence of calls, best-effort and required, accepted or refused, with failing locks, identity checks, writes that
  leave nothing, syncs, checkpoint writes and renames, closes and marker resets, under the premises of \<open>benign_call\<close>: no write is
  torn, every row is one the verifier accepts (the writer's own check is laxer on the sign of two numbers), lines stay below the limit of
  the scanner and no two signatures of the trail collide. Then the trail is the chain of rows in the order of the calls, each of them a row the
  writer accepted, and every row reported as recorded among them; the v2 rows of every run are numbered 1, 2, 3, and so on, with a close
  row last; and the trail verifies with the writer's own key, except that a trail of one row whose checkpoint was never written does not.
\<close>

theorem writer_trail_always_verifies:
  assumes "open_auditor cap cr opts path mkdir_ok open_ok d = (Inr a0, d0)" and "path \<noteq> []"
    and "d_trail d = Absent" and "d_hwm d = Absent"
    and "signing_good (cr, a0)" and "signing_enabled a0"
    and "writer_life cap cr a0 d0 log a d'"
  shows "\<exists>evs. subseq (reported log) evs \<and> subseq evs (map fst log) \<and> numbered evs
    \<and> d_trail d' = Content (render_trail (chained_rows cr a evs))
    \<and> (auditor_verify cap cr a d' = (length evs, None) \<or> (length evs = 1 \<and> d_hwm d' = Absent))"
proof -
  obtain evs where k: "same_keys a a0" and i: "trail_inv cap cr a d' evs" and l: "logged log evs"
    using writer_life_inv [OF assms(7,5,6) honest_inv_start [OF assms(1-4)]] by auto
  have g: "signing_good (cr, a)" using same_keys_enabled [OF k] assms(5) by blast
  have n: "numbered evs" using i by (simp add: trail_inv_def)
  have "honest cap cr a d' evs \<or> unanchored cap cr a d' evs" using i by (simp add: trail_inv_def)
  then show ?thesis
  proof
    assume h: "honest cap cr a d' evs"
    then show ?thesis using n l honest_verifies [OF g h] honestD(1) [OF h] unfolding logged_def by blast
  next
    assume "unanchored cap cr a d' evs"
    then show ?thesis using n l unfolding unanchored_def logged_def by blast
  qed
qed

theorem writer_trail_always_verifies_witness:
  "\<exists>a d evs. d_trail d = Content (render_trail (chained_rows demo_crypto a evs)) \<and> map ev_tool evs = [''read'']
    \<and> (auditor_verify demo_limit demo_crypto a d = (1, None) \<or> d_hwm d = Absent)"
proof -
  obtain a' d' where r: "record_event demo_limit demo_crypto demo_io True demo_row demo_writer demo_disk = (a', d', None)"
    using demo_recorded [of demo_limit] by (metis prod.collapse)
  have l: "writer_life demo_limit demo_crypto demo_writer demo_disk ([] @ call_log demo_writer demo_io True demo_row None) a' d'"
    by (rule writer_life.call [OF writer_life.start _ r]) (rule demo_benign_first)
  have p: "''t'' \<noteq> []" "d_trail empty_disk = Absent" "d_hwm empty_disk = Absent" by (simp_all add: empty_disk_def)
  have log: "call_log demo_writer demo_io True demo_row None = [(demo_row\<lparr>ev_time := ''t0''\<rparr>, True)]"
    by (simp add: call_log_def demo_writer_facts demo_prepared demo_stamped)
  obtain evs where e: "subseq (reported ([] @ call_log demo_writer demo_io True demo_row None)) evs"
      "subseq evs (map fst ([] @ call_log demo_writer demo_io True demo_row None))"
      "d_trail d' = Content (render_trail (chained_rows demo_crypto a' evs))"
      "auditor_verify demo_limit demo_crypto a' d' = (length evs, None) \<or> (length evs = 1 \<and> d_hwm d' = Absent)"
    using writer_trail_always_verifies [OF demo_open p demo_writer_facts(1,2) l] by blast
  have "subseq [demo_row\<lparr>ev_time := ''t0''\<rparr>] evs" using e(1) unfolding log reported_def by simp
  moreover have "subseq evs [demo_row\<lparr>ev_time := ''t0''\<rparr>]" using e(2) unfolding log by simp
  ultimately have "evs = [demo_row\<lparr>ev_time := ''t0''\<rparr>]" using subseq_order.antisym by blast
  then show ?thesis using e(3,4) by (intro exI [of _ a'] exI [of _ d'] exI [of _ evs]) (auto simp: demo_row_def)
qed

text \<open>
  A recorded row is anchored. When a signing writer reports success, the trail is the old
  one plus exactly one line; it carries the caller's agent, tool, decision and reason, the
  writer's clock, and a key id that only an Ed25519 writer sets, from its own key; the signed
  checkpoint covers the new entry; and the whole trail verifies.
\<close>

theorem recorded_row_is_anchored:
  assumes "signing_good (cr, a)" and "signing_enabled a" and "a_open a" and "\<not> a_closed a"
    and "trail_inv cap cr a d evs"
    and "honest cap cr a d evs \<Longrightarrow> benign_call cap cr a io required ev evs"
    and "record_event cap cr io required ev a d = (a', d', None)"
  shows "\<exists>e. ev_agent e = ev_agent ev \<and> ev_tool e = ev_tool ev \<and> ev_decision e = ev_decision ev
    \<and> ev_reason e = ev_reason ev \<and> ev_time e = io_clock io
    \<and> key_id e = (if a_ed a \<noteq> None then a_key_id a else [])
    \<and> d_trail d' = Content (render_trail (chained_rows cr a' (evs @ [e])))
    \<and> d_hwm d' = Content (checkpoint_at cr a (evs @ [e]) (Suc (length evs)))
    \<and> auditor_verify cap cr a' d' = (Suc (length evs), None)"
proof -
  obtain evs' e where "same_keys a' a" "prepare_row a io required ev = Inr e" "evs' = evs @ [stamp_ids a io e]"
      "honest cap cr a' d' evs'" "d_hwm d' = Content (checkpoint_at cr a evs' (length evs'))"
    using record_trail_inv [OF assms(1,2,5,6,7)] assms(3,4) by blast
  then have k: "same_keys a' a" and p: "prepare_row a io required ev = Inr e"
    and h: "honest cap cr a' d' (evs @ [stamp_ids a io e])"
    and w: "d_hwm d' = Content (checkpoint_at cr a (evs @ [stamp_ids a io e]) (Suc (length evs)))"
    by simp_all
  have "signing_good (cr, a')" using same_keys_enabled [OF k] assms(1) by blast
  note v = honest_verifies [OF this h]
  show ?thesis
    using prepare_row_fields [OF p] v w honestD(1) [OF h]
    by (intro exI [of _ "stamp_ids a io e"]) (simp del: checkpoint_at_def)
qed

theorem recorded_row_is_anchored_witness:
  "\<exists>e (d' :: disk). ev_tool e = ''read'' \<and> ev_time e = ''t0''
    \<and> d_hwm d' = Content (checkpoint_at demo_crypto demo_writer [e] 1)"
proof -
  obtain a' d' where r: "record_event demo_limit demo_crypto demo_io True demo_row demo_writer demo_disk = (a', d', None)"
    using demo_recorded [of demo_limit] by (metis prod.collapse)
  have i: "trail_inv demo_limit demo_crypto demo_writer demo_disk []"
    using demo_honest by (simp add: trail_inv_def numbered_def counts_match_def run_rows_def demo_writer_def fresh_auditor_def)
  obtain e where e: "ev_tool e = ev_tool demo_row" "ev_time e = io_clock demo_io"
    "d_hwm d' = Content (checkpoint_at demo_crypto demo_writer [e] 1)"
    using recorded_row_is_anchored [OF demo_writer_facts(1-4) i demo_benign r] by auto
  then show ?thesis
    by (intro exI [of _ e] exI [of _ d']) (simp add: demo_row_def demo_io_def)
qed

text \<open>
  Whatever may come after: any records, required or not, in any environment and with any keys, closing, clearing the
  marker, and any change of the files by others. There is no operation that takes a failure back.
\<close>

inductive any_life :: "auditor \<Rightarrow> disk \<Rightarrow> auditor \<Rightarrow> disk \<Rightarrow> bool" for a0 d0 where
  start: "any_life a0 d0 a0 d0"
| recording: "any_life a0 d0 a d \<Longrightarrow> record_event cap cr io required ev a d = (a', d', r) \<Longrightarrow> any_life a0 d0 a' d'"
| closing: "any_life a0 d0 a d \<Longrightarrow> any_life a0 d0 (close_auditor a) d"
| clearing: "any_life a0 d0 a d \<Longrightarrow> any_life a0 d0 a (clear_failure_status (Some a) d)"
| disturbed: "any_life a0 d0 a d \<Longrightarrow> any_life a0 d0 a d'"

lemma append_row_keeps_error: "append_row cap cr io required f c a d = (x, y, r) \<Longrightarrow> required_err x = required_err a"
  unfolding append_row_unfold by (auto split: if_splits prod.splits option.splits)

lemma write_row_keeps_error: "write_row cap cr io required ev a d = ((x, y, r), may) \<Longrightarrow> required_err x = required_err a"
  by (auto simp: write_row_def dest: append_row_keeps_error split: option.splits if_splits sum.splits prod.splits)

lemma record_keeps_error:
  assumes "record_event cap cr io required ev a d = (a', d', r)" and "required_err a = Some err"
  shows "required_err a' = Some err"
proof -
  obtain x y q may where w: "write_row cap cr io required ev a d = ((x, y, q), may)" by (metis prod.exhaust)
  show ?thesis using assms w write_row_keeps_error [OF w]
    by (cases required) (auto simp: record_event_def latch_def Let_def split: if_splits option.splits)
qed

lemma any_life_keeps_error: "any_life a0 d0 a d \<Longrightarrow> required_err a0 = Some err \<Longrightarrow> required_err a = Some err"
  by (induction rule: any_life.induct) (auto dest: record_keeps_error simp: close_auditor_def)

text \<open>
  C13. A failed required write latches. When a required row was accepted but recording it
  failed, for whatever reason, the writer keeps the failure: after any further calls, required or best-effort,
  accepted or refused, and whatever happens to the files, every required record, with any row and in any
  environment, is refused with that failure and touches neither the trail nor its checkpoint.
\<close>

theorem failed_required_write_latches:
  assumes "record_event cap cr io True ev a d = (a', d', Some err)" and "required_err a = None"
    and "validate_approval_actor ev = None" and "prepare_row a io True ev = Inr e"
    and "any_life a' d' a2 d2"
  shows "required_error (Some a2) = Some err
    \<and> snd (snd (record_event cap' cr' io' True ev' a2 d2)) = Some (WriterFailed err)
    \<and> d_trail (fst (snd (record_event cap' cr' io' True ev' a2 d2))) = d_trail d2
    \<and> d_hwm (fst (snd (record_event cap' cr' io' True ev' a2 d2))) = d_hwm d2"
proof -
  have "required_err a' = Some err"
    using assms(1-4) append_row_keeps_error [of cap cr io True _ _ a d]
    by (auto simp: record_event_def write_row_def latch_def Let_def split: if_splits prod.splits option.splits sum.splits)
  then have "required_err a2 = Some err" by (rule any_life_keeps_error [OF assms(5)])
  then show ?thesis
    by (simp add: required_error_def record_event_def latch_def Let_def)
qed

theorem failed_required_write_latches_witness:
  "\<exists>a' d' a2 d2 err. record_event 10 demo_crypto (demo_io\<lparr>io_path_before := False\<rparr>) True demo_row demo_writer demo_disk = (a', d', Some err)
    \<and> fst (snd (record_event 10 demo_crypto demo_io False demo_row a' d')) = d2 \<and> required_error (Some a2) = Some err"
proof -
  let ?io = "demo_io\<lparr>io_path_before := False\<rparr>"
  have p: "prepare_row demo_writer ?io True demo_row = Inr (demo_row\<lparr>ev_time := ''t0''\<rparr>)"
    using demo_prepared [of True] by (simp add: prepare_row_def stamp_run_def)
  have v: "validate_approval_actor demo_row = None"
    by (simp add: validate_approval_actor_def demo_row_def zero_event_def)
  obtain a' d' where r: "record_event 10 demo_crypto ?io True demo_row demo_writer demo_disk = (a', d', Some PathReplaced)"
    using p v demo_writer_facts
    by (auto simp: record_event_def write_row_def latch_def Let_def demo_io_def)
  obtain a2 d2 q where n: "record_event 10 demo_crypto demo_io False demo_row a' d' = (a2, d2, q)" by (metis prod.exhaust)
  have l: "any_life a' d' a2 d2" by (rule any_life.recording [OF any_life.start n])
  then show ?thesis using failed_required_write_latches [OF r demo_writer_facts(5) v p l] r n
    by (intro exI [of _ a'] exI [of _ d'] exI [of _ a2] exI [of _ d2] exI [of _ PathReplaced]) simp
qed

text \<open>
  A signing writer opens only over a trail that verifies. Opening with a signing key
  succeeds only when there is no trail or the trail verifies with the writer's key, refuses
  when a failed trail has disappeared, and changes no byte of an existing trail or checkpoint;
  a refused open leaves the disk alone.
\<close>

theorem signed_open_requires_verified_trail:
  assumes "open_auditor cap cr opts path mkdir_ok open_ok d = (r, d')" and "path \<noteq> []"
  shows "case r of
      Inl e \<Rightarrow> d' = d
    | Inr a \<Rightarrow> d_hwm d' = d_hwm d \<and> d_trail d' = (if d_trail d = Absent then Content [] else d_trail d)
        \<and> (signing_enabled a \<longrightarrow>
            (d_trail d = Absent \<or> snd (auditor_verify cap cr a d) = None) \<and> \<not> d_failing d'
            \<and> (d_failing d \<longrightarrow> d_trail d \<noteq> Absent))"
proof (cases r)
  case (Inl e)
  then show ?thesis using open_auditor_error assms(1) by simp
next
  case (Inr a)
  then show ?thesis using open_auditor_ok [of cap cr opts path mkdir_ok open_ok d a d'] assms by simp
qed

theorem signed_open_requires_verified_trail_witness:
  "d_trail demo_disk = Content [] \<and> \<not> d_failing demo_disk"
  using signed_open_requires_verified_trail [OF demo_open] demo_writer_facts(2)
  by (simp add: empty_disk_def)

text \<open>
  Writing a whole buffer. The loop over partial writes always ends; it reports success only
  when every byte was written, and what reached the file is always a prefix of the buffer.
\<close>

theorem write_all_writes_prefix:
  "\<exists>t. data = fst (write_all w data) @ t \<and> (snd (write_all w data) \<longrightarrow> t = [])"
  by (rule write_all_prefix)

theorem write_all_writes_prefix_witness:
  "write_all (\<lambda>m. (1, False)) ''ab'' = (''ab'', True) \<and> (\<exists>t. ''ab'' = fst (write_all (\<lambda>m. (1, False)) ''ab'') @ t)"
proof -
  have e: "write_all (\<lambda>m. (1, False)) [] = ([], True)" by (subst write_all.simps) simp
  then have b: "write_all (\<lambda>m. (1, False)) ''b'' = (''b'', True)" by (subst write_all.simps) (simp add: Let_def)
  have "write_all (\<lambda>m. (1, False)) ''ab'' = (''ab'', True)" by (subst write_all.simps) (simp add: Let_def b [simplified])
  then show ?thesis using write_all_writes_prefix [of "''ab''" "\<lambda>m. (1, False)"] by blast
qed

end
