(* ===== verification/Float64.thy ===== *)
theory Float64
  imports Prelude "HOL-Library.Log_Nat"
begin

text \<open>
  The \<open>float64\<close> arithmetic of the code. A finite value is the rational number it denotes,
  and every operation is the exact one followed by \<open>fl\<close>, the rounding of IEEE 754 binary64:
  to nearest, ties to even, with gradual underflow. The values of the modelled code stay below
  \<open>2 ^ 64\<close>, so there are no infinities and no NaN.
\<close>

subsection \<open>The binade of a positive rational\<close>

definition binade :: "rat \<Rightarrow> int" where
  "binade x =
     (let (p, q) = quotient_of x; d = bitlen p - bitlen q in
      if 2 powi d \<le> x then d else d - 1)"

definition round_even :: "rat \<Rightarrow> int" where
  "round_even r =
     (let f = \<lfloor>r\<rfloor>; d = r - of_int f in
      if d < 1 / 2 then f else if d > 1 / 2 then f + 1 else if even f then f else f + 1)"

definition ulp_exp :: "rat \<Rightarrow> int" where
  "ulp_exp x = max (binade \<bar>x\<bar> - 52) (- 1074)"

definition fl :: "rat \<Rightarrow> rat" where
  "fl x = (if x = 0 then 0 else 2 powi ulp_exp x * of_int (round_even (x / 2 powi ulp_exp x)))"

lemma bitlen_powi:
  assumes "0 < (p::int)"
  shows "2 powi (bitlen p - 1) \<le> (of_int p :: rat)" "(of_int p :: rat) < 2 powi bitlen p"
proof -
  have b: "2 ^ nat (bitlen p - 1) \<le> p" "p < 2 ^ nat (bitlen p)"
    using bitlen_bounds [OF assms] by auto
  have n: "0 \<le> bitlen p" "0 \<le> bitlen p - 1"
    using bitlen_nonneg [of p] bitlen_eq_zero_iff [of p] assms by linarith+
  have "2 powi (bitlen p - 1) = (of_int (2 ^ nat (bitlen p - 1)) :: rat)"
    using n(2) by (simp add: power_int_def)
  also have "\<dots> \<le> of_int p" using b(1) by (simp only: of_int_le_iff)
  finally show "2 powi (bitlen p - 1) \<le> (of_int p :: rat)" .
  have "(of_int p :: rat) < of_int (2 ^ nat (bitlen p))" using b(2) by (simp only: of_int_less_iff)
  also have "\<dots> = 2 powi bitlen p" using n(1) by (simp add: power_int_def)
  finally show "(of_int p :: rat) < 2 powi bitlen p" .
qed

lemma powi_pos [simp]: "0 < (2::rat) powi n"
  by (simp add: zero_less_power_int)

lemma powi_add: "(2::rat) powi (m + n) = 2 powi m * 2 powi n"
  by (simp add: power_int_add)

lemma powi_le: "m \<le> n \<Longrightarrow> (2::rat) powi m \<le> 2 powi n"
  by (rule power_int_increasing) auto

lemma powi_less_iff [simp]: "(2::rat) powi m < 2 powi n \<longleftrightarrow> m < n"
  using powi_le [of n m] power_int_strict_increasing [of m n "2::rat"] by fastforce

lemma binade_bounds:
  assumes "0 < x"
  shows "2 powi binade x \<le> x" "x < 2 powi (binade x + 1)"
proof -
  obtain p q where pq: "quotient_of x = (p, q)" by fastforce
  have q: "0 < q" using quotient_of_denom_pos [OF pq] .
  have x: "x = of_int p / of_int q" by (rule quotient_of_div [OF pq])
  then have p: "0 < p" using assms q by (simp add: zero_less_divide_iff)
  have qr: "(0::rat) < of_int q" using q by simp
  let ?d = "bitlen p - bitlen q"
  have up: "x < 2 powi (?d + 1)"
  proof -
    have "of_int p < (2::rat) powi bitlen p" by (rule bitlen_powi(2) [OF p])
    also have "\<dots> = 2 powi (?d + 1) * 2 powi (bitlen q - 1)" by (simp flip: powi_add)
    also have "\<dots> \<le> 2 powi (?d + 1) * of_int q"
      using bitlen_powi(1) [OF q] by (simp add: mult_left_mono less_imp_le)
    finally show ?thesis using qr x by (simp add: divide_less_eq)
  qed
  have low: "2 powi (?d - 1) \<le> x"
  proof -
    have "(2::rat) powi (?d - 1) * of_int q \<le> 2 powi (?d - 1) * 2 powi bitlen q"
      using bitlen_powi(2) [OF q] by (simp add: mult_left_mono less_imp_le)
    also have "\<dots> = 2 powi (bitlen p - 1)" by (simp flip: powi_add)
    also have "\<dots> \<le> of_int p" by (rule bitlen_powi(1) [OF p])
    finally show ?thesis using qr x by (simp add: le_divide_eq)
  qed
  show "2 powi binade x \<le> x" "x < 2 powi (binade x + 1)"
    using up low by (auto simp: binade_def pq Let_def)
qed

lemma binade_eqI:
  assumes "2 powi n \<le> x" and "x < 2 powi (n + 1)"
  shows "binade x = n"
proof -
  have pos: "0 < x" using assms(1) powi_pos less_le_trans by blast
  have "(2::rat) powi n < 2 powi (binade x + 1)" "(2::rat) powi binade x < 2 powi (n + 1)"
    using binade_bounds [OF pos] assms by linarith+
  then show ?thesis by simp
qed

lemma binade_mono:
  assumes "0 < x" and "x \<le> y"
  shows "binade x \<le> binade y"
proof -
  have "(2::rat) powi binade x < 2 powi (binade y + 1)"
    using binade_bounds [of x] binade_bounds [of y] assms by linarith
  then show ?thesis by simp
qed

subsection \<open>Rounding to integers\<close>

lemma round_even_int [simp]: "round_even (of_int n) = n"
  by (simp add: round_even_def)

lemma round_even_mono:
  assumes "r \<le> s"
  shows "round_even r \<le> round_even s"
proof (cases "\<lfloor>r\<rfloor> = \<lfloor>s\<rfloor>")
  case True
  then show ?thesis using assms by (auto simp: round_even_def Let_def)
next
  case False
  then have "\<lfloor>r\<rfloor> + 1 \<le> \<lfloor>s\<rfloor>" using floor_mono [OF assms] by linarith
  moreover have "round_even r \<le> \<lfloor>r\<rfloor> + 1" "\<lfloor>s\<rfloor> \<le> round_even s"
    by (auto simp: round_even_def Let_def)
  ultimately show ?thesis by linarith
qed

lemma round_even_neg: "round_even (- r) = - round_even r"
proof (cases "r = of_int \<lfloor>r\<rfloor>")
  case True
  then show ?thesis by (metis of_int_minus round_even_int)
next
  case False
  then have lt: "of_int \<lfloor>r\<rfloor> < r" using floor_correct [of r] by linarith
  have "\<lfloor>- r\<rfloor> = - \<lfloor>r\<rfloor> - 1"
    using lt floor_correct [of r] by (intro floor_unique) auto
  then show ?thesis by (auto simp: round_even_def Let_def)
qed

subsection \<open>Rounding to a float\<close>

lemma fl_zero [simp]: "fl 0 = 0"
  by (simp add: fl_def)

lemma fl_neg: "fl (- x) = - fl x"
  by (simp add: fl_def ulp_exp_def round_even_neg)

lemma fl_exact:
  assumes "x = of_int n * 2 powi ulp_exp x"
  shows "fl x = x"
proof (cases "x = 0")
  case False
  have "x / 2 powi ulp_exp x = of_int n"
    using assms powi_pos [of "ulp_exp x"] by (metis less_irrefl nonzero_mult_div_cancel_right)
  then show ?thesis using assms False by (simp add: fl_def mult.commute)
qed simp

lemma powi_of_int: "0 \<le> n \<Longrightarrow> (2::rat) powi n = of_int (2 ^ nat n)"
  by (simp add: power_int_def)

lemma powi_diff: "(2::rat) powi (m - n) = 2 powi m / 2 powi n"
  by (simp add: power_int_diff)

text \<open>A power of two above the ulp of \<open>x\<close> separates the rounded values as well.\<close>

lemma fl_le_powi:
  assumes "0 < x" and "x \<le> 2 powi b" and "ulp_exp x \<le> b"
  shows "fl x \<le> 2 powi b"
proof -
  let ?e = "ulp_exp x"
  have "x / 2 powi ?e \<le> 2 powi b / 2 powi ?e"
    using assms(2) by (simp add: divide_right_mono less_imp_le)
  also have "\<dots> = of_int (2 ^ nat (b - ?e))"
    using assms(3) by (simp only: powi_diff [symmetric] powi_of_int [of "b - ?e"] diff_ge_0_iff_ge)
  finally have "round_even (x / 2 powi ?e) \<le> 2 ^ nat (b - ?e)"
    using round_even_mono round_even_int by metis
  then have "of_int (round_even (x / 2 powi ?e)) \<le> (of_int (2 ^ nat (b - ?e)) :: rat)"
    by (simp only: of_int_le_iff)
  also have "\<dots> = 2 powi b / 2 powi ?e"
    using assms(3) by (simp only: powi_diff [symmetric] powi_of_int [of "b - ?e"] diff_ge_0_iff_ge)
  finally show ?thesis using assms(1) by (simp add: fl_def le_divide_eq mult.commute)
qed

lemma fl_ge_powi:
  assumes "2 powi b \<le> x" and "ulp_exp x \<le> b"
  shows "2 powi b \<le> fl x"
proof -
  let ?e = "ulp_exp x"
  have pos: "0 < x" using assms(1) powi_pos less_le_trans by blast
  have "of_int (2 ^ nat (b - ?e)) = (2::rat) powi b / 2 powi ?e"
    using assms(2) by (simp only: powi_diff [symmetric] powi_of_int [of "b - ?e"] diff_ge_0_iff_ge)
  also have "\<dots> \<le> x / 2 powi ?e"
    using assms(1) by (simp add: divide_right_mono less_imp_le)
  finally have "2 ^ nat (b - ?e) \<le> round_even (x / 2 powi ?e)"
    using round_even_mono round_even_int by metis
  then have "(of_int (2 ^ nat (b - ?e)) :: rat) \<le> of_int (round_even (x / 2 powi ?e))"
    by (simp only: of_int_le_iff)
  moreover have "(of_int (2 ^ nat (b - ?e)) :: rat) = 2 powi b / 2 powi ?e"
    using assms(2) by (simp only: powi_diff [symmetric] powi_of_int [of "b - ?e"] diff_ge_0_iff_ge)
  ultimately have "(2::rat) powi b / 2 powi ?e \<le> of_int (round_even (x / 2 powi ?e))" by (simp only:)
  then show ?thesis using pos by (simp add: fl_def divide_le_eq mult.commute)
qed

lemma fl_mono_pos:
  assumes "0 < x" and "x \<le> y"
  shows "fl x \<le> fl y"
proof (cases "ulp_exp x = ulp_exp y")
  case True
  have "x / 2 powi ulp_exp x \<le> y / 2 powi ulp_exp x"
    using assms(2) by (simp add: divide_right_mono less_imp_le)
  then have "round_even (x / 2 powi ulp_exp x) \<le> round_even (y / 2 powi ulp_exp x)"
    by (rule round_even_mono)
  then show ?thesis using True assms
    by (simp add: fl_def mult_left_mono less_imp_le)
next
  case False
  have y: "0 < y" using assms by linarith
  have "binade x \<le> binade y" by (rule binade_mono [OF assms])
  moreover have u: "ulp_exp x = max (binade x - 52) (- 1074)" "ulp_exp y = max (binade y - 52) (- 1074)"
    using assms y by (simp_all add: ulp_exp_def)
  moreover have "m \<le> n \<Longrightarrow> max (m - 52) (- 1074) \<noteq> max (n - 52) (- 1074) \<Longrightarrow>
    max (n - 52) (- 1074) = n - 52 \<and> m < n \<and> max (m - 52) (- 1074) \<le> n" for m n :: int
    by (auto simp: max_def)
  ultimately have e: "ulp_exp y = binade y - 52" "binade x < binade y" "ulp_exp x \<le> binade y"
    using False by metis+
  have "x < 2 powi (binade x + 1)" by (rule binade_bounds(2) [OF assms(1)])
  also have "\<dots> \<le> 2 powi binade y" using e(2) by (intro powi_le) simp
  finally have "fl x \<le> 2 powi binade y" using fl_le_powi assms(1) e(3) by simp
  also have "\<dots> \<le> fl y" using fl_ge_powi binade_bounds(1) [OF y] e(1) by simp
  finally show ?thesis .
qed

lemma fl_nonneg:
  assumes "0 \<le> x"
  shows "0 \<le> fl x"
proof -
  have "0 \<le> x / 2 powi ulp_exp x" using assms by (simp add: less_imp_le)
  then have "0 \<le> round_even (x / 2 powi ulp_exp x)"
    using round_even_mono [of 0 "x / 2 powi ulp_exp x"] round_even_int [of 0] by simp
  then show ?thesis by (simp add: fl_def less_imp_le)
qed

lemma fl_mono:
  assumes "x \<le> y"
  shows "fl x \<le> fl y"
proof -
  consider "0 < x" | "y < 0" | "x \<le> 0" "0 \<le> y" by linarith
  then show ?thesis
  proof cases
    case 1
    then show ?thesis using fl_mono_pos assms by blast
  next
    case 2
    then show ?thesis using fl_mono_pos [of "- y" "- x"] assms by (simp add: fl_neg)
  next
    case 3
    then show ?thesis
      using fl_nonneg [of y] fl_nonneg [of "- x"] by (simp add: fl_neg)
  qed
qed

lemma powi_53: "(2::rat) powi 53 = of_int (2 ^ 53)"
  by (simp add: power_int_def)

text \<open>Every number with a significand of at most 53 bits is a float.\<close>

lemma fl_representable:
  assumes "\<bar>n\<bar> < 2 ^ 53" and "- 1074 \<le> e"
  shows "fl (of_int n * 2 powi e) = of_int n * 2 powi e"
proof (cases "n = 0")
  case False
  let ?x = "of_int n * 2 powi e :: rat"
  have pos: "0 < \<bar>?x\<bar>" using False by (simp add: less_imp_le)
  have ax: "\<bar>?x\<bar> = of_int \<bar>n\<bar> * 2 powi e" by (simp add: abs_mult less_imp_le)
  have "(2::rat) powi binade \<bar>?x\<bar> \<le> \<bar>?x\<bar>" by (rule binade_bounds(1) [OF pos])
  also have "\<dots> < 2 powi 53 * 2 powi e"
  proof -
    have "(of_int \<bar>n\<bar> :: rat) < of_int (2 ^ 53)" using assms(1) by (simp only: of_int_less_iff)
    also have "(of_int (2 ^ 53) :: rat) = 2 powi 53" by (simp add: power_int_def)
    finally show ?thesis unfolding ax by (simp add: mult_strict_right_mono)
  qed
  also have "\<dots> = 2 powi (53 + e)" by (simp add: powi_add)
  finally have "ulp_exp ?x \<le> e" using assms(2) by (simp add: ulp_exp_def)
  then have d: "0 \<le> e - ulp_exp ?x" by simp
  have "?x = of_int n * (2 powi (e - ulp_exp ?x) * 2 powi ulp_exp ?x)"
    by (simp flip: powi_add)
  also have "\<dots> = of_int (n * 2 ^ nat (e - ulp_exp ?x)) * 2 powi ulp_exp ?x"
    by (simp add: powi_of_int [OF d])
  finally show ?thesis by (rule fl_exact)
qed simp

lemma fl_representable_le:
  assumes "\<bar>n\<bar> \<le> 2 ^ 53" and "- 1074 \<le> e"
  shows "fl (of_int n * 2 powi e) = of_int n * 2 powi e"
proof (cases "\<bar>n\<bar> = 2 ^ 53")
  case True
  then have "n = 2 ^ 53 \<or> n = - (2 ^ 53)" by linarith
  then obtain m where m: "n = m * 2" "\<bar>m\<bar> < 2 ^ 53"
    by (auto intro: that [of "2 ^ 52"] that [of "- (2 ^ 52)"])
  have "of_int n * (2::rat) powi e = of_int m * 2 powi (e + 1)"
    unfolding m(1) by (simp add: powi_add)
  then show ?thesis using fl_representable [of m "e + 1"] m(2) assms(2) by simp
qed (use fl_representable assms in simp)

lemma fl_idem [simp]: "fl (fl x) = fl x"
proof (cases "x = 0")
  case False
  let ?e = "ulp_exp x" and ?n = "round_even (x / 2 powi ulp_exp x)"
  have "\<bar>x\<bar> < 2 powi (binade \<bar>x\<bar> + 1)" using binade_bounds(2) [of "\<bar>x\<bar>"] False by simp
  also have "\<dots> \<le> 2 powi (53 + ?e)" by (intro powi_le) (simp add: ulp_exp_def)
  also have "\<dots> = of_int (2 ^ 53) * 2 powi ?e" by (simp only: powi_add powi_53)
  finally have "\<bar>x\<bar> < of_int (2 ^ 53) * 2 powi ?e" .
  then have "\<bar>x / 2 powi ?e\<bar> < of_int (2 ^ 53)"
    by (simp only: abs_div_pos [symmetric] pos_divide_less_eq powi_pos)
  then have "x / 2 powi ?e \<le> of_int (2 ^ 53)" "of_int (- (2 ^ 53)) \<le> x / 2 powi ?e"
    by (simp_all only: abs_less_iff of_int_minus) linarith+
  from this [THEN round_even_mono] have "\<bar>?n\<bar> \<le> 2 ^ 53" unfolding round_even_int by linarith
  then have "fl (of_int ?n * 2 powi ?e) = of_int ?n * 2 powi ?e"
    by (rule fl_representable_le) (simp add: ulp_exp_def)
  moreover have "fl x = of_int ?n * 2 powi ?e" using False by (simp only: fl_def if_False mult.commute)
  ultimately show ?thesis by (simp only:)
qed simp

lemma fl_dyadic:
  assumes "\<bar>n\<bar> < 2 ^ 53" and "k \<le> 1000"
  shows "fl (of_int n / 2 powi k) = of_int n / 2 powi k"
  using fl_representable [of n "- k"] assms by (simp add: power_int_minus divide_inverse)

text \<open>A float in the upper half of the unit interval is a multiple of \<open>2 ^ -53\<close>.\<close>

lemma float_upper_half:
  assumes "fl x = x" and "1 / 2 \<le> x" and "x < 1"
  obtains n where "x = of_int n / 2 powi 53"
proof -
  have pos: "0 < x" "\<bar>x\<bar> = x" using assms(2) by linarith+
  have "(2::rat) powi (- 1) = 1 / 2" "(2::rat) powi (- 1 + 1) = 1"
    by (simp_all add: power_int_minus)
  then have "binade x = - 1" using assms(2,3) by (intro binade_eqI) simp_all
  then have u: "ulp_exp x = - 53" using pos by (simp add: ulp_exp_def)
  have "x = fl x" using assms(1) by simp
  also have "fl x = 2 powi (- 53) * of_int (round_even (x / 2 powi (- 53)))"
    using pos(1) by (simp only: fl_def u) simp
  also have "\<dots> = of_int (round_even (x / 2 powi (- 53))) / 2 powi 53"
    by (simp only: power_int_minus divide_inverse mult.commute)
  finally show ?thesis by (rule that)
qed

text \<open>Subtracting one half in that range is exact.\<close>

lemma fl_minus_half:
  assumes "fl x = x" and "1 / 2 \<le> x" and "x \<le> 1"
  shows "fl (x - 1 / 2) = x - 1 / 2"
proof (cases "x = 1")
  case False
  then obtain n where n: "x = of_int n / 2 powi 53"
    using float_upper_half [of x] assms by auto
  note p = powi_53
  have "of_int n < (of_int (2 ^ 53) :: rat)" "(of_int (2 ^ 52) :: rat) \<le> of_int n"
    using assms(2,3) False n unfolding p by (auto simp: field_simps)
  then have "n < 2 ^ 53" "2 ^ 52 \<le> n" by (simp_all only: of_int_less_iff of_int_le_iff)
  then have "fl (of_int (n - 2 ^ 52) / 2 powi 53) = of_int (n - 2 ^ 52) / 2 powi 53"
    by (intro fl_dyadic) auto
  moreover have "x - 1 / 2 = of_int (n - 2 ^ 52) / 2 powi 53"
    unfolding n p by (simp add: field_simps)
  ultimately show ?thesis by (simp only:)
qed (use fl_dyadic [of 1 1] in simp)

lemma fl_int: "\<bar>n\<bar> < 2 ^ 53 \<Longrightarrow> fl (of_int n) = of_int n"
  using fl_representable [of n 0] by simp

lemma fl_simps [simp]: "fl 1 = 1" "fl (1 / 2) = 1 / 2" "fl 2 = 2"
  using fl_int [of 1] fl_int [of 2] fl_dyadic [of 1 1] by simp_all

lemma fl_le_int: "x \<le> of_int n \<Longrightarrow> \<bar>n\<bar> < 2 ^ 53 \<Longrightarrow> fl x \<le> of_int n"
  using fl_mono [of x "of_int n"] fl_int by simp

lemma fl_ge_int: "of_int n \<le> x \<Longrightarrow> \<bar>n\<bar> < 2 ^ 53 \<Longrightarrow> of_int n \<le> fl x"
  using fl_mono [of "of_int n" x] fl_int by simp

end
