(* ===== verification/Trust.thy ===== *)
theory Trust
  imports Float64
begin

text \<open>
  \<^verbatim>\<open>internal/trust/trust.go\<close>: the behavioural trust score that scales the rate limit.
  Scores are \<open>float64\<close> values, every operation rounded by \<open>fl\<close>. Instants are
  nanoseconds since Go's zero time, so \<open>IsZero\<close> is \<open>= 0\<close>; a call gets its clock
  reading as an argument, and whether the write of the snapshot file succeeds as another.
  The product and the sum of \<open>decayTo\<close> are rounded separately, as on amd64 (the language
  allows an implementation to fuse them).
\<close>

subsection \<open>State\<close>

datatype outcome = OutcomeAllow | OutcomeWarn | OutcomeDeny
datatype tier = TierExcellent | TierNormal | TierReduced | TierRestricted

record snapshot =
  snap_score :: rat
  snap_updated :: int

text \<open>
  What reading the snapshot file gives. \<open>Decoded s t\<close> is a document with score \<open>s\<close>
  whose \<open>updated_at\<close> is empty, not an RFC 3339 time, or an instant.
\<close>

datatype stamp = NoStamp | BadStamp | Stamp int
datatype trust_file = Missing | Unreadable | Undecodable | Decoded rat stamp

record accumulator =
  trust_path :: bytes
  score :: rat
  updated :: int
  enabled :: bool

record trust_config =
  tc_enabled :: bool
  tc_path :: bytes
  tc_agent :: bytes

datatype trust_error = TrustReadError | TrustDecodeError | TrustStampError | TrustSaveError | TrustHomeError

definition baseline :: rat where "baseline = 1 / 2"
definition default_half :: int where "default_half = 60 * 10 ^ 9"

definition clamp :: "rat \<Rightarrow> rat" where
  "clamp v = (if v < 0 then 0 else if v > 1 then 1 else v)"

subsection \<open>Operations\<close>

definition decay_to :: "int \<Rightarrow> accumulator \<Rightarrow> accumulator" where
  "decay_to now a =
     (if updated a = 0 then a\<lparr>updated := now\<rparr>
      else if \<not> now > updated a \<or> score a = baseline then a\<lparr>updated := now\<rparr>
      else let elapsed = now - updated a in
        if elapsed \<ge> default_half then a\<lparr>score := baseline, updated := now\<rparr>
        else let progress = fl (fl (of_int elapsed) / fl (of_int default_half)) in
          a\<lparr>score := clamp (fl (baseline + fl (fl (score a - baseline) * fl (1 - progress)))),
            updated := now\<rparr>)"

text \<open>\<open>save\<close>: what is on disk afterwards; a failed write leaves the old snapshot.\<close>

definition save :: "bool \<Rightarrow> accumulator \<Rightarrow> snapshot option \<Rightarrow> snapshot option" where
  "save ok a disk =
     (if trust_path a = [] \<or> \<not> ok then disk
      else Some \<lparr>snap_score = score a, snap_updated = updated a\<rparr>)"

definition load :: "bool \<Rightarrow> trust_file \<Rightarrow> accumulator \<Rightarrow> trust_error + accumulator" where
  "load ok f a =
     (if trust_path a = [] then Inr a
      else case f of
          Missing \<Rightarrow> if ok then Inr a else Inl TrustSaveError
        | Unreadable \<Rightarrow> Inl TrustReadError
        | Undecodable \<Rightarrow> Inl TrustDecodeError
        | Decoded s BadStamp \<Rightarrow> Inl TrustStampError
        | Decoded s NoStamp \<Rightarrow> Inr (a\<lparr>score := clamp s\<rparr>)
        | Decoded s (Stamp t) \<Rightarrow> Inr (a\<lparr>score := clamp s, updated := t\<rparr>))"

text \<open>
  \<open>New\<close>: the default path needs the home directory; \<open>default_path\<close> is
  \<open>~/.nockguard/trust/<agent>.json\<close> when it resolves.
\<close>

definition new_accumulator ::
  "bytes option \<Rightarrow> bool \<Rightarrow> trust_file \<Rightarrow> int \<Rightarrow> trust_config \<Rightarrow> trust_error + accumulator" where
  "new_accumulator default_path ok f now c =
     (let a = \<lparr>trust_path = tc_path c, score = baseline, updated = 0, enabled = tc_enabled c\<rparr> in
      if \<not> enabled a then Inr a
      else if trust_path a = [] then
        (case default_path of
           None \<Rightarrow> Inl TrustHomeError
         | Some p \<Rightarrow> load ok f (a\<lparr>trust_path := p, updated := now\<rparr>))
      else load ok f (a\<lparr>updated := now\<rparr>))"

fun trust_enabled :: "accumulator option \<Rightarrow> bool" where
  "trust_enabled None = False"
| "trust_enabled (Some a) = enabled a"

text \<open>\<open>Score\<close> and \<open>ApplyOutcome\<close>: the value returned and the state left.\<close>

definition read_score ::
  "int \<Rightarrow> bool \<Rightarrow> accumulator \<times> snapshot option \<Rightarrow> rat \<times> accumulator \<times> snapshot option" where
  "read_score now ok = (\<lambda>(a, disk).
     if \<not> enabled a then (baseline, a, disk)
     else let a' = decay_to now a in (score a', a', save ok a' disk))"

fun outcome_delta :: "outcome \<Rightarrow> rat" where
  "outcome_delta OutcomeAllow = fl (1 / 100)"
| "outcome_delta OutcomeWarn = - fl (2 / 100)"
| "outcome_delta OutcomeDeny = - fl (5 / 100)"

definition apply_outcome ::
  "outcome \<Rightarrow> int \<Rightarrow> bool \<Rightarrow> accumulator \<times> snapshot option
   \<Rightarrow> rat \<times> accumulator \<times> snapshot option" where
  "apply_outcome out now ok = (\<lambda>(a, disk).
     if \<not> enabled a then (baseline, a, disk)
     else let a1 = decay_to now a;
              a2 = a1\<lparr>score := clamp (fl (score a1 + outcome_delta out))\<rparr>
          in (score a2, a2, save ok a2 disk))"

definition tier_for :: "rat \<Rightarrow> tier" where
  "tier_for s =
     (if s \<ge> fl (8 / 10) then TierExcellent
      else if s \<ge> fl (5 / 10) then TierNormal
      else if s \<ge> fl (3 / 10) then TierReduced
      else TierRestricted)"

definition multiplier_for :: "rat \<Rightarrow> rat" where
  "multiplier_for s =
     (case tier_for s of
        TierExcellent \<Rightarrow> 2 | TierNormal \<Rightarrow> 1 | TierReduced \<Rightarrow> fl (5 / 10) | TierRestricted \<Rightarrow> fl (1 / 10))"

definition rate_limit_for_score :: "int \<Rightarrow> rat \<Rightarrow> int" where
  "rate_limit_for_score base s =
     (if base \<le> 0 then base
      else let adjusted = \<lceil>fl (fl (of_int base) * multiplier_for s)\<rceil> in
        if adjusted < 1 then 1 else adjusted)"

definition rate_limit_for ::
  "int \<Rightarrow> int \<Rightarrow> bool \<Rightarrow> accumulator \<times> snapshot option \<Rightarrow> int \<times> accumulator \<times> snapshot option" where
  "rate_limit_for base now ok st =
     (if \<not> enabled (fst st) then (base, st)
      else let (s, st') = read_score now ok st in (rate_limit_for_score base s, st'))"

definition decision_to_outcome :: "bytes \<Rightarrow> outcome option" where
  "decision_to_outcome d =
     (if d \<in> {''allow'', ''approval-granted''} then Some OutcomeAllow
      else if d \<in> {''warn'', ''ratelimit'', ''block'', ''approval-denied''} then Some OutcomeWarn
      else if d = ''deny'' then Some OutcomeDeny
      else None)"

subsection \<open>The score stays a score\<close>

definition valid_score :: "accumulator \<Rightarrow> bool" where
  "valid_score a \<longleftrightarrow> 0 \<le> score a \<and> score a \<le> 1"

lemma clamp_bounds [simp]: "0 \<le> clamp v" "clamp v \<le> 1"
  by (simp_all add: clamp_def)

lemma clamp_id: "0 \<le> v \<Longrightarrow> v \<le> 1 \<Longrightarrow> clamp v = v"
  by (simp add: clamp_def)

lemma decay_valid: "valid_score a \<Longrightarrow> valid_score (decay_to now a)"
  by (simp add: valid_score_def decay_to_def Let_def baseline_def)

lemma new_valid: "new_accumulator dp ok f now c = Inr a \<Longrightarrow> valid_score a"
  by (auto simp: new_accumulator_def load_def valid_score_def baseline_def Let_def
      split: if_splits option.splits trust_file.splits stamp.splits)

text \<open>A run of the accumulator: scores read and outcomes applied, in any order.\<close>

inductive trust_step :: "accumulator \<times> snapshot option \<Rightarrow> accumulator \<times> snapshot option \<Rightarrow> bool" where
  Read: "read_score now ok st = (r, st') \<Longrightarrow> trust_step st st'"
| Apply: "apply_outcome out now ok st = (r, st') \<Longrightarrow> trust_step st st'"

inductive_cases trust_stepE: "trust_step st st'"

text \<open>Besides its bounds, a score is always a float.\<close>

definition float_score :: "accumulator \<Rightarrow> bool" where
  "float_score a \<longleftrightarrow> valid_score a \<and> fl (score a) = score a"

lemma fl_clamp_fl [simp]: "fl (clamp (fl x)) = clamp (fl x)"
  by (simp add: clamp_def)

lemma decay_float: "float_score a \<Longrightarrow> float_score (decay_to now a)"
  using decay_valid [of a now]
  by (auto simp: float_score_def decay_to_def Let_def baseline_def)

lemma step_float: "trust_step st st' \<Longrightarrow> float_score (fst st) \<Longrightarrow> float_score (fst st')"
proof (erule trust_stepE)
  fix now ok r
  assume "float_score (fst st)" "read_score now ok st = (r, st')"
  then show ?thesis using decay_float [of "fst st" now]
    by (auto simp: read_score_def Let_def split: prod.splits if_splits)
next
  fix out now ok r
  assume "float_score (fst st)" "apply_outcome out now ok st = (r, st')"
  then show ?thesis
    by (auto simp: apply_outcome_def Let_def float_score_def valid_score_def
        split: prod.splits if_splits)
qed

lemma new_float:
  assumes "new_accumulator dp ok f now c = Inr a" and "\<forall>s t. f = Decoded s t \<longrightarrow> fl s = s"
  shows "float_score a"
  using assms new_valid [OF assms(1)]
  by (auto simp: new_accumulator_def load_def float_score_def baseline_def clamp_def Let_def
      split: if_splits option.splits trust_file.splits stamp.splits)

lemma run_float: "trust_step\<^sup>*\<^sup>* st st' \<Longrightarrow> float_score (fst st) \<Longrightarrow> float_score (fst st')"
  by (induction rule: rtranclp_induct) (auto intro: step_float)

subsection \<open>Decay\<close>

lemma progress_bounds:
  assumes "0 \<le> e" and "e < default_half"
  shows "0 \<le> fl (1 - fl (fl (of_int e) / fl (of_int default_half)))"
    "fl (1 - fl (fl (of_int e) / fl (of_int default_half))) \<le> 1"
proof -
  have h: "fl (of_int default_half) = of_int default_half" "fl (of_int e) = of_int e"
    using fl_int [of default_half] fl_int [of e] assms by (simp_all add: default_half_def)
  have q: "(0::rat) \<le> of_int e / of_int default_half" "of_int e / of_int default_half \<le> (1::rat)"
    using assms by (simp_all add: default_half_def)
  have "0 \<le> fl (of_int e / of_int default_half)" "fl (of_int e / of_int default_half) \<le> 1"
    using fl_mono [OF q(1)] fl_mono [OF q(2)] by simp_all
  then show "0 \<le> fl (1 - fl (fl (of_int e) / fl (of_int default_half)))"
    "fl (1 - fl (fl (of_int e) / fl (of_int default_half))) \<le> 1"
    using fl_mono [of 0 "1 - fl (of_int e / of_int default_half)"]
      fl_mono [of "1 - fl (of_int e / of_int default_half)" 1] by (simp_all add: h)
qed

text \<open>The decayed score, above and below the baseline.\<close>

lemma decayed_above:
  assumes "fl s = s" and "1 / 2 \<le> s" and "s \<le> 1" and "0 \<le> p" and "p \<le> 1"
  shows "1 / 2 \<le> fl (1 / 2 + fl (fl (s - 1 / 2) * p))" "fl (1 / 2 + fl (fl (s - 1 / 2) * p)) \<le> s"
proof -
  have d: "fl (s - 1 / 2) = s - 1 / 2" by (rule fl_minus_half [OF assms(1-3)])
  have "0 \<le> (s - 1 / 2) * p" "(s - 1 / 2) * p \<le> s - 1 / 2"
    using assms(2,4,5) by (simp_all add: mult_left_le)
  from this [THEN fl_mono] have m: "0 \<le> fl ((s - 1 / 2) * p)" "fl ((s - 1 / 2) * p) \<le> s - 1 / 2"
    by (simp_all add: d)
  then have "1 / 2 \<le> 1 / 2 + fl ((s - 1 / 2) * p)" "1 / 2 + fl ((s - 1 / 2) * p) \<le> s" by simp_all
  from this [THEN fl_mono] show "1 / 2 \<le> fl (1 / 2 + fl (fl (s - 1 / 2) * p))"
    "fl (1 / 2 + fl (fl (s - 1 / 2) * p)) \<le> s"
    unfolding d assms(1) by simp_all
qed

lemma decayed_below:
  assumes "s \<le> 1 / 2" and "0 \<le> p"
  shows "fl (1 / 2 + fl (fl (s - 1 / 2) * p)) \<le> 1 / 2"
proof -
  have "fl (s - 1 / 2) \<le> fl 0" using assms(1) by (intro fl_mono) simp
  then have "fl (s - 1 / 2) * p \<le> 0" using assms(2) by (simp add: mult_nonpos_nonneg)
  then have "fl (fl (s - 1 / 2) * p) \<le> fl 0" by (rule fl_mono)
  then show ?thesis using fl_mono [of "1 / 2 + fl (fl (s - 1 / 2) * p)" "1 / 2"] by simp
qed

subsection \<open>Properties\<close>

text \<open>
  Whatever snapshot \<open>New\<close> loads (with a float score) and whatever outcomes, reads,
  clock readings and write failures follow, the score of the accumulator stays a float in
  \<open>[0, 1]\<close>.
\<close>

theorem trust_score_bounded:
  assumes "new_accumulator dp ok f now c = Inr a" and "\<forall>s t. f = Decoded s t \<longrightarrow> fl s = s"
    and "trust_step\<^sup>*\<^sup>* (a, disk) (a', disk')"
  shows "0 \<le> score a' \<and> score a' \<le> 1 \<and> fl (score a') = score a'"
  using run_float [OF assms(3)] new_float [OF assms(1,2)]
  by (simp add: float_score_def valid_score_def)

text \<open>
  Decay moves the score towards the baseline and never past it: a score above it stays
  between the baseline and its old value, a score below it does not rise past it, and after
  sixty seconds it is exactly the baseline. A clock that goes backwards changes nothing but the
  stamp.
\<close>

theorem decay_towards_baseline:
  assumes "float_score a" and "updated a \<noteq> 0"
  shows "(now - updated a \<ge> default_half \<longrightarrow> score (decay_to now a) = baseline)
    \<and> (if now \<le> updated a then score (decay_to now a) = score a
       else if score a \<ge> baseline
       then baseline \<le> score (decay_to now a) \<and> score (decay_to now a) \<le> score a
       else score (decay_to now a) \<le> baseline)
    \<and> updated (decay_to now a) = now"
proof -
  have b: "0 \<le> score a" "score a \<le> 1" "fl (score a) = score a"
    using assms(1) by (simp_all add: float_score_def valid_score_def)
  let ?p = "fl (1 - fl (fl (of_int (now - updated a)) / fl (of_int default_half)))"
  let ?r = "fl (1 / 2 + fl (fl (score a - 1 / 2) * ?p))"
  show ?thesis
  proof (cases "now > updated a \<and> score a \<noteq> baseline \<and> now - updated a < default_half")
    case True
    then have s: "score (decay_to now a) = clamp ?r" "updated (decay_to now a) = now"
      using assms(2) by (simp_all add: decay_to_def Let_def baseline_def)
    have p: "0 \<le> ?p" "?p \<le> 1" using progress_bounds [of "now - updated a"] True by simp_all
    show ?thesis
    proof (cases "score a \<ge> 1 / 2")
      case above: True
      note r = decayed_above [OF b(3) above b(2) p]
      then have "clamp ?r = ?r" using b(2) by (intro clamp_id) linarith+
      then show ?thesis using s r True above by (simp add: baseline_def)
    next
      case below: False
      have "?r \<le> 1 / 2" using decayed_below [of "score a" ?p] below p by simp
      then have "clamp ?r \<le> 1 / 2" by (simp add: clamp_def)
      then show ?thesis using s True below by (simp add: baseline_def)
    qed
  next
    case False
    then show ?thesis using assms(2) b by (auto simp: decay_to_def Let_def default_half_def)
  qed
qed

text \<open>A concrete decay: half a minute after a perfect score.\<close>

theorem decay_towards_baseline_witness:
  "score (decay_to (31 * 10 ^ 9) \<lparr>trust_path = [], score = 1, updated = 10 ^ 9, enabled = True\<rparr>) \<le> 1
   \<and> score (decay_to (70 * 10 ^ 9) \<lparr>trust_path = [], score = 1, updated = 10 ^ 9, enabled = True\<rparr>)
     = baseline"
  using decay_towards_baseline [of "\<lparr>trust_path = [], score = 1, updated = 10 ^ 9, enabled = True\<rparr>"
      "31 * 10 ^ 9"]
    decay_towards_baseline [of "\<lparr>trust_path = [], score = 1, updated = 10 ^ 9, enabled = True\<rparr>"
      "70 * 10 ^ 9"]
  by (simp add: float_score_def valid_score_def baseline_def default_half_def)

text \<open>A concrete run: a snapshot out of range is clamped, then a denial is charged.\<close>

theorem trust_score_bounded_witness:
  "\<exists>a st. new_accumulator None True (Decoded 7 (Stamp 5)) 9
        \<lparr>tc_enabled = True, tc_path = ''t.json'', tc_agent = ''kit''\<rparr> = Inr a
     \<and> snd (apply_outcome OutcomeDeny 9 True (a, None)) = st
     \<and> 0 \<le> score (fst st) \<and> score (fst st) \<le> 1"
proof -
  let ?c = "\<lparr>tc_enabled = True, tc_path = ''t.json'', tc_agent = ''kit''\<rparr>"
  let ?a = "\<lparr>trust_path = ''t.json'', score = 1, updated = 5, enabled = True\<rparr>"
  have n: "new_accumulator None True (Decoded 7 (Stamp 5)) 9 ?c = Inr ?a"
    by (simp add: new_accumulator_def load_def clamp_def)
  have f: "\<forall>s t. Decoded 7 (Stamp 5) = Decoded s t \<longrightarrow> fl s = s"
    using fl_int [of 7] by simp
  obtain r a' d' where s: "apply_outcome OutcomeDeny 9 True (?a, None) = (r, a', d')"
    by (metis surj_pair)
  have "trust_step\<^sup>*\<^sup>* (?a, None) (a', d')" using trust_step.Apply [OF s] by blast
  from trust_score_bounded [OF n f this] show ?thesis using n s by auto
qed

lemma multiplier_cases:
  "multiplier_for s \<in> {fl (1 / 10), 1 / 2, 1, 2}"
  by (simp add: multiplier_for_def split: tier.splits)

lemma fl_tenths: "0 < fl (1 / 10)" "fl (1 / 10) \<le> 1 / 2"
proof -
  have "fl (1 / 16) = 1 / 16" using fl_dyadic [of 1 4] by simp
  then show "0 < fl (1 / 10)" using fl_mono [of "1 / 16" "1 / 10"] by simp
  show "fl (1 / 10) \<le> 1 / 2" using fl_mono [of "1 / 10" "1 / 2"] by simp
qed

lemma multiplier_bounds: "0 < multiplier_for s" "multiplier_for s \<le> 2"
  using multiplier_cases [of s] fl_tenths by auto

lemma multiplier_mono:
  assumes "s \<le> s'"
  shows "multiplier_for s \<le> multiplier_for s'"
proof -
  have o: "fl (3 / 10) \<le> fl (5 / 10)" "fl (5 / 10) \<le> fl (8 / 10)"
    by (intro fl_mono; simp)+
  show ?thesis using assms o fl_tenths by (simp add: multiplier_for_def tier_for_def)
qed

text \<open>
  The trust-scaled cap is bounded, never zero and monotone: for a positive base cap below
  \<open>2 ^ 52\<close> the scaled cap lies between 1 and twice the base, a higher score never gives a
  lower cap, and in the upper three tiers it is exactly double, equal and half rounded up.
\<close>

theorem rate_limit_for_score_bounds:
  assumes "0 < base" and "base < 2 ^ 52"
  shows "1 \<le> rate_limit_for_score base s \<and> rate_limit_for_score base s \<le> 2 * base
    \<and> (s \<le> s' \<longrightarrow> rate_limit_for_score base s \<le> rate_limit_for_score base s')
    \<and> (tier_for s = TierExcellent \<longrightarrow> rate_limit_for_score base s = 2 * base)
    \<and> (tier_for s = TierNormal \<longrightarrow> rate_limit_for_score base s = base)
    \<and> (tier_for s = TierReduced \<longrightarrow> rate_limit_for_score base s = (base + 1) div 2)"
proof -
  let ?b = "of_int base :: rat"
  have b: "fl ?b = ?b" using fl_int [of base] assms by simp
  have r: "rate_limit_for_score base s = max 1 \<lceil>fl (?b * multiplier_for s)\<rceil>" for s
    using assms(1) b by (simp add: rate_limit_for_score_def Let_def max_def)
  have "?b * multiplier_for s \<le> of_int (base * 2)"
    using assms(1) multiplier_bounds [of s] by simp
  then have "fl (?b * multiplier_for s) \<le> of_int (base * 2)"
    by (rule fl_le_int) (use assms in simp)
  then have up: "rate_limit_for_score base s \<le> 2 * base"
    using assms(1) r [of s] by (simp add: ceiling_le_iff)
  have mono: "rate_limit_for_score base s \<le> rate_limit_for_score base s'" if "s \<le> s'"
  proof -
    have "?b * multiplier_for s \<le> ?b * multiplier_for s'"
      using multiplier_mono [OF that] assms(1) by (simp add: mult_left_mono)
    then have "\<lceil>fl (?b * multiplier_for s)\<rceil> \<le> \<lceil>fl (?b * multiplier_for s')\<rceil>"
      by (intro ceiling_mono fl_mono)
    then show ?thesis unfolding r by simp
  qed
  have "fl (?b * 2) = ?b * 2" using fl_int [of "base * 2"] assms by simp
  then have two: "tier_for s = TierExcellent \<longrightarrow> rate_limit_for_score base s = 2 * base"
    using assms(1) by (simp add: r multiplier_for_def) linarith
  have one: "tier_for s = TierNormal \<longrightarrow> rate_limit_for_score base s = base"
    using assms(1) b by (simp add: r multiplier_for_def)
  have "fl (?b / 2) = ?b / 2" using fl_dyadic [of base 1] assms by simp
  moreover have "\<lceil>?b / 2\<rceil> = (base + 1) div 2"
    by (rule ceiling_unique) (auto simp: field_simps simp flip: of_int_less_iff [where 'a = rat])
  ultimately have "\<lceil>fl (?b / 2)\<rceil> = (base + 1) div 2" by (simp only:)
  then have half: "tier_for s = TierReduced \<longrightarrow> rate_limit_for_score base s = (base + 1) div 2"
    using assms(1) by (simp add: r multiplier_for_def)
  show ?thesis using up mono two one half r by simp
qed

theorem rate_limit_for_score_bounds_witness:
  "rate_limit_for_score 11 (fl (4 / 10)) \<le> rate_limit_for_score 11 1 \<and> rate_limit_for_score 11 1 \<le> 22"
proof -
  have "fl (4 / 10) \<le> fl 1" by (rule fl_mono) simp
  then show ?thesis
    using rate_limit_for_score_bounds [of 11 "fl (4 / 10)" 1] rate_limit_for_score_bounds [of 11 1 1]
    by simp
qed

end
