(* ===== verification/AuditQueue.thy ===== *)
theory AuditQueue
  imports AuditEvent Extract Trust "HOL-Library.AList" "HOL-Library.Multiset"
begin

text \<open>
  The request-order audit queue of the proxy, \<^verbatim>\<open>internal/proxy/stdio.go\<close>: sequence
  numbers, buffered rows, the compact set of resolved sequences, the flush frontier and the
  history of the claimed card. Everything here runs under one mutex in the code. Rows reach the
  writer through \<open>recordAudit\<close>; whether it refuses a row is an argument.
\<close>

subsection \<open>Resolved sequences\<close>

record seq_range =
  rg_start :: u64
  rg_end :: u64

text \<open>\<open>sort.Search\<close>.\<close>

function search_between :: "(nat \<Rightarrow> bool) \<Rightarrow> nat \<Rightarrow> nat \<Rightarrow> nat" where
  "search_between f i j =
     (if i < j then
        (let h = (i + j) div 2 in if f h then search_between f i h else search_between f (h + 1) j)
      else i)"
  by pat_completeness auto
termination
  by (relation "measure (\<lambda>(f, i, j). j - i)") auto

declare search_between.simps [simp del]

definition seq_resolved :: "u64 \<Rightarrow> seq_range list \<Rightarrow> bool" where
  "seq_resolved s rs =
     (let i = search_between (\<lambda>i. rg_end (rs ! i) \<ge> s) 0 (length rs) in
      i < length rs \<and> rg_start (rs ! i) \<le> s)"

text \<open>The loop of \<open>markAuditSequenceResolvedLocked\<close>, with the range to insert and the flag.\<close>

fun mark_loop :: "seq_range \<Rightarrow> bool \<Rightarrow> seq_range list \<Rightarrow> seq_range list" where
  "mark_loop m inserted [] = (if inserted then [] else [m])"
| "mark_loop m inserted (c # cs) =
     (if rg_end c < rg_start m \<and> rg_end c + 1 < rg_start m then c # mark_loop m inserted cs
      else if rg_end m < rg_start c \<and> rg_end m + 1 < rg_start c then
        (if inserted then c # mark_loop m True cs else m # c # mark_loop m True cs)
      else mark_loop \<lparr>rg_start = min (rg_start m) (rg_start c), rg_end = max (rg_end m) (rg_end c)\<rparr> inserted cs)"

definition mark_resolved :: "u64 \<Rightarrow> seq_range list \<Rightarrow> seq_range list" where
  "mark_resolved s rs = mark_loop \<lparr>rg_start = s, rg_end = s\<rparr> False rs"

definition consume_sequence :: "u64 \<Rightarrow> seq_range list \<Rightarrow> seq_range list" where
  "consume_sequence s rs =
     (case rs of
        [] \<Rightarrow> []
      | r # t \<Rightarrow>
          if rg_start r \<noteq> s then rs
          else if rg_end r = s then t
          else r\<lparr>rg_start := rg_start r + 1\<rparr> # t)"

text \<open>Ranges in order with a gap between any two, and the sequences they stand for.\<close>

definition gap :: "seq_range \<Rightarrow> seq_range \<Rightarrow> bool" where
  "gap a b \<longleftrightarrow> unat (rg_end a) + 1 < unat (rg_start b)"

definition wf_ranges :: "seq_range list \<Rightarrow> bool" where
  "wf_ranges rs \<longleftrightarrow> (\<forall>r\<in>set rs. rg_start r \<le> rg_end r) \<and> sorted_wrt gap rs"

definition seqs_of :: "seq_range list \<Rightarrow> u64 set" where
  "seqs_of rs = (\<Union>r\<in>set rs. {rg_start r..rg_end r})"

lemma seqs_of_simps [simp]: "seqs_of [] = {}" "seqs_of (r # rs) = {rg_start r..rg_end r} \<union> seqs_of rs"
  by (simp_all add: seqs_of_def)

lemma wf_ranges_Cons: "wf_ranges (r # rs) \<longleftrightarrow> rg_start r \<le> rg_end r \<and> (\<forall>x\<in>set rs. gap r x) \<and> wf_ranges rs"
  by (auto simp: wf_ranges_def)

lemma wf_ranges_Nil [simp]: "wf_ranges []"
  by (simp add: wf_ranges_def)

lemma unat_succ_less:
  assumes "(e :: u64) < s"
  shows "unat (e + 1) = unat e + 1"
proof -
  have "unat e + 1 \<le> unat s" using assms by (simp add: word_less_nat_alt)
  also have "unat s < 2 ^ 64" using unsigned_less [where 'a = nat, of s] by simp
  finally show ?thesis by (simp add: unat_word_ariths)
qed

lemma gap_iff: "rg_end a < rg_start b \<and> rg_end a + 1 < rg_start b \<longleftrightarrow> gap a b"
proof (cases "rg_end a < rg_start b")
  case True
  then have "unat (rg_end a + 1) = unat (rg_end a) + 1" by (rule unat_succ_less)
  then show ?thesis using True by (simp only: gap_def word_less_nat_alt [of "rg_end a + 1"] simp_thms)
next
  case False
  then have "\<not> unat (rg_end a) < unat (rg_start b)" by (simp only: word_less_nat_alt not_False_eq_True)
  then show ?thesis using False unfolding gap_def by linarith
qed

text \<open>Searching finds the first range that ends late enough.\<close>

lemma search_between_first:
  assumes mono: "\<And>a b. a \<le> b \<Longrightarrow> f a \<Longrightarrow> b < n \<Longrightarrow> f b"
  shows "i \<le> j \<Longrightarrow> j \<le> n \<Longrightarrow> \<forall>k<i. \<not> f k \<Longrightarrow> \<forall>k. j \<le> k \<longrightarrow> k < n \<longrightarrow> f k \<Longrightarrow>
    search_between f i j \<le> n \<and> (\<forall>k < (search_between f i j). \<not> f k)
    \<and> (\<forall>k. search_between f i j \<le> k \<longrightarrow> k < n \<longrightarrow> f k)"
proof (induction "j - i" arbitrary: i j rule: less_induct)
  case less
  show ?case
  proof (cases "i < j")
    case False
    then have e: "search_between f i j = i" by (subst search_between.simps) simp
    show ?thesis unfolding e using less.prems False by auto
  next
    case True
    let ?h = "(i + j) div 2"
    have h: "i \<le> ?h" "?h < j" "?h < n" using True less.prems by auto
    show ?thesis
    proof (cases "f ?h")
      case True
      then have e: "search_between f i j = search_between f i ?h"
        using \<open>i < j\<close> by (subst search_between.simps) (simp add: Let_def)
      have "\<forall>k. ?h \<le> k \<longrightarrow> k < n \<longrightarrow> f k" using mono True by blast
      then show ?thesis unfolding e using h less.prems by (intro less.hyps) auto
    next
      case False
      then have e: "search_between f i j = search_between f (?h + 1) j"
        using \<open>i < j\<close> by (subst search_between.simps) (simp add: Let_def)
      have "\<forall>k<?h + 1. \<not> f k"
      proof (intro allI impI)
        fix k assume "k < ?h + 1"
        then show "\<not> f k" using mono [of k ?h] False h(3) by auto
      qed
      then show ?thesis unfolding e using h less.prems by (intro less.hyps) auto
    qed
  qed
qed

lemma seq_resolved_iff:
  assumes "wf_ranges rs"
  shows "seq_resolved s rs \<longleftrightarrow> s \<in> seqs_of rs"
proof -
  let ?f = "\<lambda>i. rg_end (rs ! i) \<ge> s"
  let ?i = "search_between ?f 0 (length rs)"
  have ord: "rg_end (rs ! a) \<le> rg_end (rs ! b)" if "a \<le> b" "b < length rs" for a b
  proof (cases "a = b")
    case False
    then have "gap (rs ! a) (rs ! b)"
      using that assms by (auto simp: wf_ranges_def sorted_wrt_iff_nth_less)
    moreover have "rg_start (rs ! b) \<le> rg_end (rs ! b)" using assms that by (simp add: wf_ranges_def)
    ultimately show ?thesis by (simp add: gap_def word_le_nat_alt)
  qed simp
  have mono: "a \<le> b \<Longrightarrow> ?f a \<Longrightarrow> b < length rs \<Longrightarrow> ?f b" for a b
    using ord [of a b] by auto
  have "?i \<le> length rs \<and> (\<forall>k<?i. \<not> ?f k) \<and> (\<forall>k. ?i \<le> k \<longrightarrow> k < length rs \<longrightarrow> ?f k)"
    by (rule search_between_first) (rule mono, assumption+, simp_all)
  then have i: "\<forall>k<?i. \<not> ?f k" "\<forall>k. ?i \<le> k \<longrightarrow> k < length rs \<longrightarrow> ?f k" by blast+
  show ?thesis
  proof
    assume "seq_resolved s rs"
    then have "?i < length rs" "rg_start (rs ! ?i) \<le> s" by (simp_all add: seq_resolved_def Let_def)
    then show "s \<in> seqs_of rs" using i(2) unfolding seqs_of_def by (intro UN_I [of "rs ! ?i"]) auto
  next
    assume "s \<in> seqs_of rs"
    then obtain k where k: "k < length rs" "rg_start (rs ! k) \<le> s" "s \<le> rg_end (rs ! k)"
      by (auto simp: seqs_of_def in_set_conv_nth)
    have "?i \<le> k" using i(1) k(3) by (meson not_le)
    have "?i = k"
    proof (rule ccontr)
      assume "?i \<noteq> k"
      then have lt: "?i < k" using \<open>?i \<le> k\<close> by simp
      then have "gap (rs ! ?i) (rs ! k)" using k(1) assms by (simp add: wf_ranges_def sorted_wrt_iff_nth_less)
      moreover have "s \<le> rg_end (rs ! ?i)" using i(2) lt k(1) by simp
      ultimately show False using k(2) by (simp add: gap_def word_le_nat_alt)
    qed
    then show "seq_resolved s rs" using k by (simp add: seq_resolved_def Let_def)
  qed
qed

text \<open>Marking adds one sequence and keeps the ranges apart.\<close>

lemma wf_ranges_ConsD:
  "wf_ranges (r # rs) \<Longrightarrow> rg_start r \<le> rg_end r \<and> wf_ranges rs \<and> (\<forall>x\<in>set rs. gap r x)"
  unfolding wf_ranges_Cons by blast

lemma mark_loop_Cons:
  "mark_loop m inserted (c # cs) =
     (if gap c m then c # mark_loop m inserted cs
      else if gap m c then
        (if inserted then c # mark_loop m True cs else m # c # mark_loop m True cs)
      else mark_loop \<lparr>rg_start = min (rg_start m) (rg_start c), rg_end = max (rg_end m) (rg_end c)\<rparr> inserted cs)"
  by (simp only: mark_loop.simps gap_iff)

declare mark_loop.simps(2) [simp del]

lemma gap_asym: "rg_start m \<le> rg_end m \<Longrightarrow> rg_start c \<le> rg_end c \<Longrightarrow> gap m c \<Longrightarrow> \<not> gap c m"
  unfolding gap_def word_le_nat_alt by linarith

lemma gap_trans: "rg_start b \<le> rg_end b \<Longrightarrow> gap a b \<Longrightarrow> gap b c \<Longrightarrow> gap a c"
  unfolding gap_def word_le_nat_alt by linarith

lemma mark_loop_inserted:
  assumes "wf_ranges cs" and "\<forall>c\<in>set cs. gap m c" and "rg_start m \<le> rg_end m"
  shows "mark_loop m True cs = cs"
  using assms
proof (induction cs)
  case (Cons c cs)
  have g: "gap m c" using Cons.prems(2) by simp
  have n: "\<not> gap c m" using gap_asym [OF Cons.prems(3) _ g] wf_ranges_ConsD [OF Cons.prems(1)] by blast
  have r: "mark_loop m True cs = cs"
    using Cons.IH Cons.prems wf_ranges_ConsD [OF Cons.prems(1)] by simp
  show ?case by (simp only: mark_loop_Cons n g r if_True if_False)
qed simp

text \<open>Two ranges without a gap cover one interval.\<close>

lemma merge_interval:
  fixes a b c d :: u64
  assumes "a \<le> b" "c \<le> d" and "\<not> unat b + 1 < unat c" "\<not> unat d + 1 < unat a"
  shows "{min a c..max b d} = {a..b} \<union> {c..d}"
proof (rule set_eqI)
  fix x
  have m: "min a c \<le> x \<longleftrightarrow> unat a \<le> unat x \<or> unat c \<le> unat x"
    "x \<le> max b d \<longleftrightarrow> unat x \<le> unat b \<or> unat x \<le> unat d"
    by (simp_all only: min_le_iff_disj le_max_iff_disj flip: word_le_nat_alt)
  have le: "unat a \<le> unat b" "unat c \<le> unat d" using assms(1,2) by (simp_all only: word_le_nat_alt)
  have "(unat a \<le> unat x \<or> unat c \<le> unat x) \<and> (unat x \<le> unat b \<or> unat x \<le> unat d) \<longleftrightarrow>
      (unat a \<le> unat x \<and> unat x \<le> unat b) \<or> (unat c \<le> unat x \<and> unat x \<le> unat d)"
    using le assms(3,4) by linarith
  then show "x \<in> {min a c..max b d} \<longleftrightarrow> x \<in> {a..b} \<union> {c..d}"
    unfolding atLeastAtMost_iff Un_iff m by (simp only: word_le_nat_alt)
qed

definition merge_ranges :: "seq_range \<Rightarrow> seq_range \<Rightarrow> seq_range" where
  "merge_ranges m c = \<lparr>rg_start = min (rg_start m) (rg_start c), rg_end = max (rg_end m) (rg_end c)\<rparr>"

lemma merge_ranges_ok:
  assumes "rg_start m \<le> rg_end m" "rg_start c \<le> rg_end c" "\<not> gap c m" "\<not> gap m c"
  shows "rg_start (merge_ranges m c) \<le> rg_end (merge_ranges m c)"
    "{rg_start (merge_ranges m c)..rg_end (merge_ranges m c)} = {rg_start m..rg_end m} \<union> {rg_start c..rg_end c}"
  using merge_interval [OF assms(1,2)] assms unfolding gap_def
  by (simp_all add: merge_ranges_def min_le_iff_disj le_max_iff_disj)

lemma merge_ranges_gap: "gap r m \<Longrightarrow> gap r c \<Longrightarrow> gap r (merge_ranges m c)"
  by (simp add: gap_def merge_ranges_def min_def)

lemma mark_loop_merge:
  "\<not> gap c m \<Longrightarrow> \<not> gap m c \<Longrightarrow> mark_loop m inserted (c # cs) = mark_loop (merge_ranges m c) inserted cs"
  by (simp only: mark_loop_Cons merge_ranges_def if_False)

lemma mark_loop_before: "gap c m \<Longrightarrow> mark_loop m inserted (c # cs) = c # mark_loop m inserted cs"
  by (simp only: mark_loop_Cons if_True)

lemma mark_loop_after:
  assumes "wf_ranges (c # cs)" and "rg_start m \<le> rg_end m" and "\<not> gap c m" and "gap m c"
  shows "mark_loop m False (c # cs) = m # c # cs" "\<forall>x\<in>set cs. gap m x"
proof -
  note c = wf_ranges_ConsD [OF assms(1)]
  show g: "\<forall>x\<in>set cs. gap m x" using c gap_trans [OF _ assms(4)] by blast
  show "mark_loop m False (c # cs) = m # c # cs"
    using mark_loop_inserted [of cs m] g c assms by (simp only: mark_loop_Cons if_True if_False)
qed

lemma mark_loop_gap:
  "wf_ranges cs \<Longrightarrow> rg_start m \<le> rg_end m \<Longrightarrow> gap r m \<Longrightarrow> \<forall>c\<in>set cs. gap r c \<Longrightarrow>
    x \<in> set (mark_loop m False cs) \<Longrightarrow> gap r x"
proof (induction cs arbitrary: m)
  case (Cons c cs)
  note c = wf_ranges_ConsD [OF Cons.prems(1)]
  consider "gap c m" | "\<not> gap c m" "gap m c" | "\<not> gap c m" "\<not> gap m c" by blast
  then show ?case
  proof cases
    case 1
    then have "x = c \<or> x \<in> set (mark_loop m False cs)" using Cons.prems(5) by (simp add: mark_loop_before)
    then show ?thesis using Cons.IH [of m] Cons.prems c by fastforce
  next
    case 2
    then have "x \<in> set (m # c # cs)" using mark_loop_after(1) [OF Cons.prems(1,2)] Cons.prems(5) by simp
    then show ?thesis using Cons.prems(3,4) by auto
  next
    case 3
    have "x \<in> set (mark_loop (merge_ranges m c) False cs)" using 3 Cons.prems(5) by (simp add: mark_loop_merge)
    then show ?thesis
      using Cons.IH [of "merge_ranges m c"] merge_ranges_ok(1) [OF Cons.prems(2) _ 3] merge_ranges_gap [of r m c]
        Cons.prems(3,4) c by simp
  qed
qed simp

lemma mark_loop_wf: "wf_ranges cs \<Longrightarrow> rg_start m \<le> rg_end m \<Longrightarrow> wf_ranges (mark_loop m False cs)"
proof (induction cs arbitrary: m)
  case Nil
  then show ?case by (simp add: wf_ranges_Cons)
next
  case (Cons c cs)
  note c = wf_ranges_ConsD [OF Cons.prems(1)]
  consider "gap c m" | "\<not> gap c m" "gap m c" | "\<not> gap c m" "\<not> gap m c" by blast
  then show ?case
  proof cases
    case 1
    then show ?thesis
      using Cons.IH [of m] mark_loop_gap [of cs m c] c Cons.prems(2)
      by (simp add: mark_loop_before wf_ranges_Cons)
  next
    case 2
    then show ?thesis
      using mark_loop_after [OF Cons.prems 2] Cons.prems 2(2) by (simp add: wf_ranges_Cons)
  next
    case 3
    then show ?thesis
      using Cons.IH [OF _ merge_ranges_ok(1) [OF Cons.prems(2) _ 3]] c by (simp add: mark_loop_merge)
  qed
qed

lemma mark_loop_seqs:
  "wf_ranges cs \<Longrightarrow> rg_start m \<le> rg_end m \<Longrightarrow>
    seqs_of (mark_loop m False cs) = {rg_start m..rg_end m} \<union> seqs_of cs"
proof (induction cs arbitrary: m)
  case (Cons c cs)
  note c = wf_ranges_ConsD [OF Cons.prems(1)]
  consider "gap c m" | "\<not> gap c m" "gap m c" | "\<not> gap c m" "\<not> gap m c" by blast
  then show ?case
  proof cases
    case 1
    then show ?thesis
      using Cons.IH [of m] c Cons.prems(2) by (simp only: mark_loop_before seqs_of_simps) blast
  next
    case 2
    then show ?thesis using mark_loop_after(1) [OF Cons.prems 2] by (simp only: seqs_of_simps)
  next
    case 3
    note ok = merge_ranges_ok [OF Cons.prems(2) conjunct1 [OF c] 3]
    show ?thesis
      unfolding mark_loop_merge [OF 3] seqs_of_simps
      using Cons.IH [OF _ ok(1)] c unfolding ok(2) by blast
  qed
qed simp

lemma mark_resolved_spec:
  assumes "wf_ranges rs"
  shows "wf_ranges (mark_resolved s rs)" "seqs_of (mark_resolved s rs) = insert s (seqs_of rs)"
  using mark_loop_wf [OF assms, of "\<lparr>rg_start = s, rg_end = s\<rparr>"] mark_loop_seqs [OF assms, of "\<lparr>rg_start = s, rg_end = s\<rparr>"]
  by (simp_all add: mark_resolved_def)

subsection \<open>The queue\<close>

text \<open>
  What a proxy is set up with: the pairing of actions, the required mode, whether trust and
  forwarding are on, and the run flags that \<open>recordAudit\<close> loads.
\<close>

record session =
  p_agent :: bytes
  p_pairing :: bool
  p_run_id :: bytes
  p_required :: bool
  p_trust :: bool
  p_forward :: bool
  run_active :: bool
  run_stopping :: bool

record forward_event =
  fe_agent :: bytes
  fe_tool :: bytes
  fe_decision :: bytes
  fe_reason :: bytes

text \<open>
  The maps of the code are association lists with distinct keys, its sets lists. The writer is
  any state; \<open>q_scored\<close> and \<open>q_forwarded\<close> are the calls made to the trust
  accumulator and to the forwarder, in order.
\<close>

record 'w queue =
  q_seq :: u64
  q_next :: u64
  q_todo :: "(u64 \<times> event list) list"
  q_resolved :: "seq_range list"
  q_pending :: "u64 list"
  q_failed :: "u64 list"
  q_cards :: "(u64 \<times> int) list"
  q_actions :: "(u64 \<times> bytes) list"
  q_current :: int
  q_scored :: "outcome list"
  q_forwarded :: "forward_event list"
  q_writer :: 'w

definition empty_queue :: "'w \<Rightarrow> 'w queue" where
  "empty_queue w =
     \<lparr>q_seq = 0, q_next = 0, q_todo = [], q_resolved = [], q_pending = [], q_failed = [], q_cards = [],
      q_actions = [], q_current = 0, q_scored = [], q_forwarded = [], q_writer = w\<rparr>"

definition is_enforcement :: "bytes \<Rightarrow> bool" where
  "is_enforcement d \<longleftrightarrow>
     d \<in> {''deny'', ''method-deny'', ''block'', ''ratelimit'', ''approval-granted'', ''approval-denied'', ''would-deny''}"

text \<open>A writer takes the mode and a row, and reports whether it failed.\<close>

type_synonym 'w recorder = "bool \<Rightarrow> event \<Rightarrow> 'w \<Rightarrow> 'w \<times> bool"

definition record_audit :: "session \<Rightarrow> 'w recorder \<Rightarrow> event \<Rightarrow> 'w \<Rightarrow> 'w \<times> bool" where
  "record_audit ses rec ev w =
     (if p_pairing ses \<and> \<not> run_active ses \<and> run_stopping ses then (w, True)
      else
        rec (p_required ses)
          (if run_active ses \<and> schema_version ev = 0
           then ev\<lparr>schema_version := 2, record_type := ''decision'', run_id := p_run_id ses\<rparr> else ev) w)"

definition set_action_fields :: "session \<Rightarrow> bytes \<Rightarrow> event \<Rightarrow> event" where
  "set_action_fields ses aid ev =
     ev\<lparr>schema_version := 2, record_type := ''decision'', run_id := p_run_id ses, action_id := aid\<rparr>"

definition set_refs :: "references option \<Rightarrow> event \<Rightarrow> event" where
  "set_refs refs ev =
     (case refs of
        None \<Rightarrow> ev
      | Some r \<Rightarrow>
          ev\<lparr>ev_nock_id := (if nock_id r > 0 then nock_id r else ev_nock_id ev),
             ev_pr := (if pr_ref r \<noteq> [] then pr_ref r else ev_pr ev),
             ev_review_id := (if review_id r \<noteq> [] then review_id r else ev_review_id ev)\<rparr>)"

text \<open>\<open>observe\<close> is \<open>applyToolObservation\<close> of the tool catalog.\<close>

definition audit_row ::
  "session \<Rightarrow> (event \<Rightarrow> event) \<Rightarrow> bytes \<Rightarrow> bytes \<Rightarrow> bytes \<Rightarrow> bytes \<Rightarrow> references option \<Rightarrow> bytes \<Rightarrow> event" where
  "audit_row ses observe aid tool decision reason refs actor =
     (let ev = zero_event\<lparr>ev_agent := p_agent ses, ev_tool := tool, ev_decision := decision,
          ev_reason := reason, approval_actor := actor\<rparr> in
      set_refs refs (if aid \<noteq> [] then observe (set_action_fields ses aid ev) else ev))"

definition score_decision :: "session \<Rightarrow> bytes \<Rightarrow> 'w queue \<Rightarrow> 'w queue" where
  "score_decision ses decision q =
     (if p_trust ses then
        (case decision_to_outcome decision of
           None \<Rightarrow> q | Some oc \<Rightarrow> q\<lparr>q_scored := q_scored q @ [oc]\<rparr>)
      else q)"

definition forward_decision :: "session \<Rightarrow> bytes \<Rightarrow> bytes \<Rightarrow> bytes \<Rightarrow> 'w queue \<Rightarrow> 'w queue" where
  "forward_decision ses tool decision reason q =
     (if p_forward ses \<and> is_enforcement decision then
        q\<lparr>q_forwarded := q_forwarded q @
          [\<lparr>fe_agent = p_agent ses, fe_tool = tool, fe_decision = decision, fe_reason = reason\<rparr>]\<rparr>
      else q)"

definition action_of :: "u64 \<Rightarrow> 'w queue \<Rightarrow> bytes" where
  "action_of s q = (case map_of (q_actions q) s of None \<Rightarrow> [] | Some a \<Rightarrow> a)"

definition rows_at :: "u64 \<Rightarrow> 'w queue \<Rightarrow> event list" where
  "rows_at s q = (case map_of (q_todo q) s of None \<Rightarrow> [] | Some evs \<Rightarrow> evs)"

definition push_row :: "u64 \<Rightarrow> event \<Rightarrow> 'w queue \<Rightarrow> 'w queue" where
  "push_row s ev q = q\<lparr>q_todo := AList.update s (rows_at s q @ [ev]) (q_todo q)\<rparr>"

definition append_audit ::
  "session \<Rightarrow> (event \<Rightarrow> event) \<Rightarrow> u64 \<Rightarrow> bytes \<Rightarrow> bytes \<Rightarrow> bytes \<Rightarrow> references option \<Rightarrow> bytes \<Rightarrow>
    'w queue \<Rightarrow> 'w queue" where
  "append_audit ses observe s tool decision reason refs actor q =
     (let ev = audit_row ses observe (action_of s q) tool decision reason refs actor;
          q1 = push_row s ev q;
          q2 = (if decision = ''block'' \<and> has_prefix reason ''telegram-callback-'' then q1
                else score_decision ses decision q1) in
      forward_decision ses tool decision reason q2)"

definition reserve_sequence :: "'w queue \<Rightarrow> u64 \<times> 'w queue" where
  "reserve_sequence q =
     (q_seq q, q\<lparr>q_seq := q_seq q + 1, q_pending := List.insert (q_seq q) (q_pending q)\<rparr>)"

definition queue_action_id :: "u64 \<Rightarrow> bytes \<Rightarrow> 'w queue \<Rightarrow> 'w queue" where
  "queue_action_id s aid q = q\<lparr>q_actions := AList.update s aid (q_actions q)\<rparr>"

text \<open>The card committed by the highest sequence at or below \<open>s\<close>; 0 when there is none.\<close>

fun latest_card :: "u64 \<Rightarrow> (u64 \<times> int) option \<Rightarrow> (u64 \<times> int) list \<Rightarrow> (u64 \<times> int) option" where
  "latest_card s acc [] = acc"
| "latest_card s acc ((k, c) # cs) =
     latest_card s
       (if k \<le> s \<and> (case acc of None \<Rightarrow> True | Some (k', _) \<Rightarrow> k > k') then Some (k, c) else acc) cs"

definition card_at :: "u64 \<Rightarrow> (u64 \<times> int) list \<Rightarrow> int" where
  "card_at s cs = (case latest_card s None cs of None \<Rightarrow> 0 | Some (_, c) \<Rightarrow> c)"

definition stamp_card :: "int \<Rightarrow> event \<Rightarrow> event" where
  "stamp_card c ev = (if ev_nock_id ev = 0 \<and> c > 0 then ev\<lparr>ev_nock_id := c\<rparr> else ev)"

fun record_rows :: "session \<Rightarrow> 'w recorder \<Rightarrow> event list \<Rightarrow> 'w \<Rightarrow> 'w \<times> bool" where
  "record_rows ses rec [] w = (w, False)"
| "record_rows ses rec (ev # evs) w =
     (let (w1, bad) = record_audit ses rec ev w; (w2, failed) = record_rows ses rec evs w1 in
      (w2, (bad \<and> action_id ev \<noteq> []) \<or> failed))"

definition flush_sequence :: "session \<Rightarrow> 'w recorder \<Rightarrow> u64 \<Rightarrow> 'w queue \<Rightarrow> 'w queue" where
  "flush_sequence ses rec s q =
     (case map_of (q_todo q) s of
        None \<Rightarrow> q
      | Some evs \<Rightarrow>
          (let (w, failed) = record_rows ses rec (map (stamp_card (card_at s (q_cards q))) evs) (q_writer q) in
           q\<lparr>q_writer := w, q_failed := (if failed then List.insert s (q_failed q) else q_failed q),
             q_todo := AList.delete s (q_todo q)\<rparr>))"

text \<open>The cards to keep: for each unsettled sequence, the last at or below it.\<close>

fun keep_loop :: "u64 list \<Rightarrow> u64 option \<Rightarrow> u64 list \<Rightarrow> u64 list" where
  "keep_loop cs prev [] = []"
| "keep_loop cs prev (s # ss) =
     (let passed = takeWhile (\<lambda>c. c \<le> s) cs;
          prev' = (if passed = [] then prev else Some (last passed));
          kept = keep_loop (dropWhile (\<lambda>c. c \<le> s) cs) prev' ss in
      case prev' of None \<Rightarrow> kept | Some c \<Rightarrow> c # kept)"

definition prune_cards :: "'w queue \<Rightarrow> 'w queue" where
  "prune_cards q =
     (if length (q_cards q) \<le> 1 then q
      else
        let card_seqs = sort (map fst (q_cards q));
            kept = last card_seqs # keep_loop card_seqs None (sort (q_pending q @ map fst (q_todo q))) in
        q\<lparr>q_cards := filter (\<lambda>(s, _). s \<in> set kept) (q_cards q)\<rparr>)"

definition advance_frontier :: "'w queue \<Rightarrow> 'w queue" where
  "advance_frontier q =
     prune_cards (q\<lparr>q_resolved := consume_sequence (q_next q) (q_resolved q),
       q_pending := removeAll (q_next q) (q_pending q), q_actions := AList.delete (q_next q) (q_actions q),
       q_next := q_next q + 1\<rparr>)"

text \<open>The loop of \<open>flushAuditsLocked\<close>; each round handles one resolved sequence.\<close>

fun flush_loop :: "nat \<Rightarrow> session \<Rightarrow> 'w recorder \<Rightarrow> 'w queue \<Rightarrow> 'w queue" where
  "flush_loop 0 ses rec q = q"
| "flush_loop (Suc n) ses rec q =
     (if seq_resolved (q_next q) (q_resolved q)
      then flush_loop n ses rec (advance_frontier (flush_sequence ses rec (q_next q) q))
      else q)"

definition resolved_count :: "seq_range list \<Rightarrow> nat" where
  "resolved_count rs = (\<Sum>r\<leftarrow>rs. unat (rg_end r) - unat (rg_start r) + 1)"

definition flush_audits :: "session \<Rightarrow> 'w recorder \<Rightarrow> 'w queue \<Rightarrow> 'w queue" where
  "flush_audits ses rec q = flush_loop (resolved_count (q_resolved q)) ses rec q"

definition resolve_audit :: "session \<Rightarrow> 'w recorder \<Rightarrow> u64 \<Rightarrow> 'w queue \<Rightarrow> 'w queue" where
  "resolve_audit ses rec s q =
     (if s < q_next q then q
      else
        let q1 = q\<lparr>q_resolved := mark_resolved s (q_resolved q)\<rparr>;
            q2 = (if p_pairing ses \<and> action_of s q \<noteq> []
                  then (flush_sequence ses rec s q1)\<lparr>q_actions := AList.delete s (q_actions q)\<rparr> else q1);
            q3 = prune_cards (q2\<lparr>q_pending := removeAll s (q_pending q2)\<rparr>) in
        flush_audits ses rec q3)"

text \<open>\<open>updateCardState\<close>: a claim sets the card, a release of the current card clears it.\<close>

definition update_card_state :: "u64 \<Rightarrow> bytes \<Rightarrow> references option \<Rightarrow> 'w queue \<Rightarrow> 'w queue" where
  "update_card_state s tool refs q =
     (case refs of
        None \<Rightarrow> q
      | Some r \<Rightarrow>
          if nock_id r = 0 then q
          else if tool = ''nockcc_nock_claim'' then
            q\<lparr>q_current := nock_id r, q_cards := AList.update s (nock_id r) (q_cards q)\<rparr>
          else if tool = ''nockcc_nock_release'' \<and> q_current q = nock_id r then
            q\<lparr>q_current := 0, q_cards := AList.update s 0 (q_cards q)\<rparr>
          else q)"

text \<open>\<open>audit\<close> and \<open>auditMethod\<close> write at once, outside the order of requests.\<close>

definition audit_now ::
  "session \<Rightarrow> 'w recorder \<Rightarrow> (event \<Rightarrow> event) \<Rightarrow> bytes \<Rightarrow> bytes \<Rightarrow> bytes \<Rightarrow> references option \<Rightarrow> bytes \<Rightarrow>
    'w queue \<Rightarrow> 'w queue" where
  "audit_now ses rec observe tool decision reason refs aid q =
     (let q1 = score_decision ses decision q;
          ev = stamp_card (q_current q1) (audit_row ses observe aid tool decision reason refs []) in
      forward_decision ses tool decision reason
        (q1\<lparr>q_writer := fst (record_audit ses rec ev (q_writer q1))\<rparr>))"

definition audit_method :: "session \<Rightarrow> 'w recorder \<Rightarrow> bytes \<Rightarrow> bytes \<Rightarrow> bytes \<Rightarrow> 'w queue \<Rightarrow> 'w queue" where
  "audit_method ses rec mth decision reason q =
     forward_decision ses mth decision reason
       (q\<lparr>q_writer := fst (record_audit ses rec
          (zero_event\<lparr>ev_agent := p_agent ses, ev_tool := mth, ev_decision := decision, ev_reason := reason\<rparr>)
          (q_writer q))\<rparr>)"

text \<open>Shutdown: everything queued or pending counts as resolved.\<close>

definition mark_open :: "u64 list \<Rightarrow> seq_range list \<Rightarrow> seq_range list" where
  "mark_open ss rs = fold (\<lambda>s rs. if seq_resolved s rs then rs else mark_resolved s rs) ss rs"

definition drain_audits :: "session \<Rightarrow> 'w recorder \<Rightarrow> 'w queue \<Rightarrow> 'w queue" where
  "drain_audits ses rec q =
     flush_audits ses rec
       (q\<lparr>q_resolved := mark_open (q_pending q) (mark_open (map fst (q_todo q)) (q_resolved q))\<rparr>)"

text \<open>\<open>bad\<close> tells whether the writer reports a required error.\<close>

definition sequence_durable :: "session \<Rightarrow> ('w \<Rightarrow> bool) \<Rightarrow> u64 \<Rightarrow> 'w queue \<Rightarrow> bool" where
  "sequence_durable ses bad s q \<longleftrightarrow>
     s \<notin> set (q_failed q)
     \<and> (s < q_next q \<or> (seq_resolved s (q_resolved q) \<and> map_of (q_todo q) s = None))
     \<and> (\<not> p_required ses \<or> \<not> bad (q_writer q))"

definition clear_audit_failure :: "u64 \<Rightarrow> 'w queue \<Rightarrow> 'w queue" where
  "clear_audit_failure s q = q\<lparr>q_failed := removeAll s (q_failed q)\<rparr>"

subsection \<open>Pruning keeps every stamp\<close>

text \<open>The card in force at a sequence, described by the keys alone.\<close>

definition latest_key :: "u64 \<Rightarrow> (u64 \<times> int) list \<Rightarrow> u64 option \<Rightarrow> bool" where
  "latest_key s cs r =
     (case r of
        None \<Rightarrow> (\<forall>k\<in>fst ` set cs. \<not> k \<le> s)
      | Some k \<Rightarrow> k \<in> fst ` set cs \<and> k \<le> s \<and> (\<forall>k'\<in>fst ` set cs. k' \<le> s \<longrightarrow> k' \<le> k))"

lemma latest_card_cases:
  "(case acc of None \<Rightarrow> True | Some (k, c) \<Rightarrow> k \<le> s) \<Longrightarrow>
   (case latest_card s acc cs of
      None \<Rightarrow> acc = None \<and> (\<forall>k\<in>fst ` set cs. \<not> k \<le> s)
    | Some (k, c) \<Rightarrow> k \<le> s \<and> ((k, c) \<in> set cs \<or> acc = Some (k, c))
        \<and> (\<forall>k'\<in>fst ` set cs. k' \<le> s \<longrightarrow> k' \<le> k) \<and> (\<forall>k' c'. acc = Some (k', c') \<longrightarrow> k' \<le> k))"
proof (induction cs arbitrary: acc)
  case Nil
  then show ?case by (auto split: option.splits)
next
  case (Cons x cs)
  obtain k0 c0 where x: "x = (k0, c0)" by fastforce
  show ?case
  proof (cases "k0 \<le> s \<and> (case acc of None \<Rightarrow> True | Some (k', _) \<Rightarrow> k0 > k')")
    case True
    have e: "latest_card s acc (x # cs) = latest_card s (Some (k0, c0)) cs"
      unfolding x latest_card.simps if_P [OF True] ..
    show ?thesis unfolding e using Cons.IH [of "Some (k0, c0)"] True x
      by (auto split: option.splits)
  next
    case False
    have e: "latest_card s acc (x # cs) = latest_card s acc cs"
      unfolding x latest_card.simps if_not_P [OF False] ..
    show ?thesis unfolding e using Cons.IH [of acc] Cons.prems False x
      by (auto split: option.splits)
  qed
qed

lemma card_at_filter:
  assumes d: "distinct (map fst cs)"
    and keep: "\<And>k. latest_key s cs (Some k) \<Longrightarrow> P k"
  shows "card_at s (filter (\<lambda>(k, _). P k) cs) = card_at s cs"
proof -
  let ?f = "filter (\<lambda>(k, _). P k) cs"
  note a = latest_card_cases [where acc = None and s = s and cs = cs, simplified]
    and b = latest_card_cases [where acc = None and s = s and cs = ?f, simplified]
  show ?thesis
  proof (cases "latest_card s None cs")
    case None
    then have "\<forall>k\<in>fst ` set ?f. \<not> k \<le> s" using a by auto
    then have "latest_card s None ?f = None" using b by (fastforce split: option.splits)
    then show ?thesis using None by (simp add: card_at_def)
  next
    case (Some kc)
    then obtain k c where kc: "latest_card s None cs = Some (k, c)" by (cases kc) auto
    then have k: "k \<le> s" "(k, c) \<in> set cs" "\<forall>k'\<in>fst ` set cs. k' \<le> s \<longrightarrow> k' \<le> k" using a by auto
    then have "latest_key s cs (Some k)" by (force simp: latest_key_def)
    then have inf: "(k, c) \<in> set ?f" using keep k by simp
    then obtain k2 c2 where f: "latest_card s None ?f = Some (k2, c2)" using b k(1) by (fastforce split: option.splits)
    then have k2: "k2 \<le> s" "(k2, c2) \<in> set cs" "k \<le> k2" using b k(1) inf by force+
    then have "k2 = k" using k(3) by force
    then have "c2 = c" using k2(2) k(2) d by (meson eq_key_imp_eq_value)
    then show ?thesis using kc f by (simp add: card_at_def)
  qed
qed

text \<open>What the merge of the two sorted lists keeps.\<close>

definition passed :: "u64 list \<Rightarrow> u64 option \<Rightarrow> u64 \<Rightarrow> u64 option" where
  "passed cs prev s =
     (let p = takeWhile (\<lambda>c. c \<le> s) cs in if p = [] then prev else Some (last p))"

lemma keep_loop_Cons:
  "keep_loop cs prev (s # ss) =
     (let kept = keep_loop (dropWhile (\<lambda>c. c \<le> s) cs) (passed cs prev s) ss in
      case passed cs prev s of None \<Rightarrow> kept | Some c \<Rightarrow> c # kept)"
  by (simp add: passed_def Let_def)

declare keep_loop.simps(2) [simp del]

lemma takeWhile_le_split:
  fixes s0 s :: "'a :: linorder"
  assumes "s0 \<le> s"
  shows "takeWhile (\<lambda>c. c \<le> s) cs = takeWhile (\<lambda>c. c \<le> s0) cs @ takeWhile (\<lambda>c. c \<le> s) (dropWhile (\<lambda>c. c \<le> s0) cs)"
proof (induction cs)
  case (Cons c cs)
  show ?case
  proof (cases "c \<le> s0")
    case True
    then have "c \<le> s" using assms by (rule order.trans)
    then show ?thesis using Cons True by (simp only: takeWhile.simps dropWhile.simps if_True append_Cons)
  next
    case False
    then show ?thesis by (simp only: takeWhile.simps dropWhile.simps if_False append_Nil)
  qed
qed simp

lemma passed_step: "s0 \<le> s \<Longrightarrow> passed (dropWhile (\<lambda>c. c \<le> s0) cs) (passed cs prev s0) s = passed cs prev s"
proof -
  assume "s0 \<le> s"
  note t = takeWhile_le_split [OF this, of cs]
  show ?thesis unfolding passed_def Let_def t
    by (cases "takeWhile (\<lambda>c. c \<le> s) (dropWhile (\<lambda>c. c \<le> s0) cs) = []") (simp_all only: append_Nil2 if_True
        append_is_Nil_conv simp_thms if_False last_append)
qed

lemma keep_loop_covers:
  "sorted ss \<Longrightarrow> s \<in> set ss \<Longrightarrow> passed cs prev s = Some k \<Longrightarrow> k \<in> set (keep_loop cs prev ss)"
proof (induction ss arbitrary: cs prev)
  case (Cons s0 ss)
  show ?case
  proof (cases "s = s0")
    case True
    then show ?thesis using Cons.prems(3) by (simp add: keep_loop_Cons Let_def)
  next
    case False
    then have "s \<in> set ss" "s0 \<le> s" using Cons.prems by auto
    then have "k \<in> set (keep_loop (dropWhile (\<lambda>c. c \<le> s0) cs) (passed cs prev s0) ss)"
      using Cons.IH Cons.prems(1,3) passed_step by simp
    then show ?thesis by (cases "passed cs prev s0") (simp_all add: keep_loop_Cons Let_def)
  qed
qed simp

lemma keep_loop_length: "length (keep_loop cs prev ss) \<le> length ss"
proof (induction ss arbitrary: cs prev)
  case (Cons s ss)
  show ?case using Cons [of "dropWhile (\<lambda>c. c \<le> s) cs" "passed cs prev s"]
    by (cases "passed cs prev s") (simp_all add: keep_loop_Cons Let_def)
qed simp

lemma sorted_takeWhile_le: "sorted (xs :: 'a :: linorder list) \<Longrightarrow> takeWhile (\<lambda>c. c \<le> s) xs = filter (\<lambda>c. c \<le> s) xs"
proof (induction xs)
  case (Cons x xs)
  show ?case
  proof (cases "x \<le> s")
    case False
    then have "filter (\<lambda>c. c \<le> s) (x # xs) = []" using Cons.prems by (auto simp: filter_empty_conv)
    then show ?thesis using False by simp
  qed (use Cons in simp)
qed simp

lemma sorted_last_max: "sorted (xs :: 'a :: linorder list) \<Longrightarrow> k \<in> set xs \<Longrightarrow> \<forall>x\<in>set xs. x \<le> k \<Longrightarrow> last xs = k"
  by (cases xs rule: rev_cases) (auto simp: sorted_append)

lemma passed_latest:
  assumes "latest_key s cs (Some k)"
  shows "passed (sort (map fst cs)) None s = Some k"
proof -
  let ?l = "sort (map fst cs)"
  let ?t = "filter (\<lambda>c. c \<le> s) ?l"
  have t: "takeWhile (\<lambda>c. c \<le> s) ?l = ?t" by (rule sorted_takeWhile_le) simp
  have k: "k \<in> set ?t" "\<forall>x\<in>set ?t. x \<le> k" using assms by (auto simp: latest_key_def)
  have "last ?t = k" by (rule sorted_last_max [OF sorted_wrt_filter [OF sorted_sort] k])
  moreover have "?t \<noteq> []" using k(1) by force
  ultimately show ?thesis unfolding passed_def t Let_def by simp
qed

definition tracked :: "'w queue \<Rightarrow> u64 \<Rightarrow> bool" where
  "tracked q s \<longleftrightarrow> s \<in> set (q_pending q) \<or> s \<in> fst ` set (q_todo q) \<or> (\<forall>k\<in>fst ` set (q_cards q). k \<le> s)"

lemma prune_cards_card_at:
  assumes "distinct (map fst (q_cards q))" and "tracked q s"
  shows "card_at s (q_cards (prune_cards q)) = card_at s (q_cards q)"
proof (cases "length (q_cards q) \<le> 1")
  case False
  let ?cs = "q_cards q"
  let ?l = "sort (map fst ?cs)"
  let ?ss = "sort (q_pending q @ map fst (q_todo q))"
  let ?kept = "last ?l # keep_loop ?l None ?ss"
  have e: "q_cards (prune_cards q) = filter (\<lambda>(k, _). k \<in> set ?kept) ?cs"
    using False by (simp add: prune_cards_def Let_def)
  show ?thesis unfolding e
  proof (rule card_at_filter [OF assms(1)])
    fix k assume k: "latest_key s ?cs (Some k)"
    show "k \<in> set ?kept"
    proof (cases "s \<in> set ?ss")
      case True
      then show ?thesis using keep_loop_covers [OF _ True passed_latest [OF k]] by simp
    next
      case False
      then have "\<forall>x\<in>set ?l. x \<le> s" using assms(2) by (auto simp: tracked_def)
      then have "last ?l = k" using k by (intro sorted_last_max) (auto simp: latest_key_def)
      then show ?thesis by simp
    qed
  qed
qed (simp add: prune_cards_def)

lemma prune_cards_rest [simp]:
  "q_seq (prune_cards q) = q_seq q" "q_next (prune_cards q) = q_next q" "q_todo (prune_cards q) = q_todo q"
  "q_resolved (prune_cards q) = q_resolved q" "q_pending (prune_cards q) = q_pending q"
  "q_failed (prune_cards q) = q_failed q" "q_actions (prune_cards q) = q_actions q"
  "q_current (prune_cards q) = q_current q" "q_scored (prune_cards q) = q_scored q"
  "q_forwarded (prune_cards q) = q_forwarded q" "q_writer (prune_cards q) = q_writer q"
  by (simp_all add: prune_cards_def Let_def)

lemma prune_cards_subset: "set (q_cards (prune_cards q)) \<subseteq> set (q_cards q)"
  by (auto simp: prune_cards_def Let_def)

lemma distinct_map_filter_fst: "distinct (map fst cs) \<Longrightarrow> distinct (map fst (filter P cs))"
  by (induction cs) auto

lemma prune_cards_distinct:
  "distinct (map fst (q_cards q)) \<Longrightarrow> distinct (map fst (q_cards (prune_cards q)))"
  by (simp add: prune_cards_def Let_def distinct_map_filter_fst)

lemma prune_cards_length:
  assumes "distinct (map fst (q_cards q))"
  shows "length (q_cards (prune_cards q)) \<le> length (q_pending q) + length (q_todo q) + 1"
proof (cases "length (q_cards q) \<le> 1")
  case False
  let ?ss = "sort (q_pending q @ map fst (q_todo q))"
  let ?kept = "last (sort (map fst (q_cards q))) # keep_loop (sort (map fst (q_cards q))) None ?ss"
  let ?f = "q_cards (prune_cards q)"
  have e: "?f = filter (\<lambda>(k, _). k \<in> set ?kept) (q_cards q)"
    using False by (simp add: prune_cards_def Let_def)
  have "length ?f = card (fst ` set ?f)"
    using distinct_card [OF prune_cards_distinct [OF assms]] by simp
  also have "\<dots> \<le> card (set ?kept)" unfolding e by (intro card_mono) auto
  also have "\<dots> \<le> length ?kept" by (rule card_length)
  also have "\<dots> \<le> length ?ss + 1" using keep_loop_length [of "sort (map fst (q_cards q))" None ?ss] by simp
  finally show ?thesis by simp
qed (simp add: prune_cards_def)

subsection \<open>Flushing\<close>

lemma consume_sequence_spec:
  assumes "wf_ranges rs"
  shows "wf_ranges (consume_sequence s rs)"
    "seqs_of (consume_sequence s rs) = (if rs \<noteq> [] \<and> rg_start (hd rs) = s then seqs_of rs - {s} else seqs_of rs)"
proof -
  have "wf_ranges (consume_sequence s rs) \<and>
    seqs_of (consume_sequence s rs) = (if rs \<noteq> [] \<and> rg_start (hd rs) = s then seqs_of rs - {s} else seqs_of rs)"
  proof (cases rs)
    case (Cons r t)
    note w = wf_ranges_ConsD [OF assms [unfolded Cons]]
    have far: "s \<notin> seqs_of t" if "rg_start r = s"
    proof
      assume "s \<in> seqs_of t"
      then obtain x where x: "x \<in> set t" "rg_start x \<le> s" by (auto simp: seqs_of_def)
      then have "gap r x" using w by blast
      then have "unat (rg_end r) + 1 < unat s"
        using x(2) unfolding gap_def word_le_nat_alt by linarith
      moreover have "unat s \<le> unat (rg_end r)" using w that by (simp add: word_le_nat_alt)
      ultimately show False by linarith
    qed
    consider "rg_start r \<noteq> s" | "rg_start r = s" "rg_end r = s" | "rg_start r = s" "rg_end r \<noteq> s" by blast
    then show ?thesis
    proof cases
      case 1
      then show ?thesis using assms Cons by (simp add: consume_sequence_def)
    next
      case 2
      then have "{rg_start r..rg_end r} = {s}" by simp
      then show ?thesis using 2 w far [OF 2(1)] unfolding Cons
        by (simp add: consume_sequence_def)
    next
      case 3
      have lt: "rg_start r < rg_end r" using 3 w unfolding order.strict_iff_order by metis
      have le: "rg_start r + 1 \<le> rg_end r"
        using unat_succ_less [OF lt] lt by (simp add: word_le_nat_alt word_less_nat_alt)
      have iv: "{rg_start r + 1..rg_end r} = {rg_start r..rg_end r} - {s}"
      proof (rule set_eqI)
        fix x
        have "rg_start r + 1 \<le> x \<longleftrightarrow> rg_start r \<le> x \<and> x \<noteq> rg_start r"
          using unat_succ_less [OF lt] unfolding word_le_nat_alt word_unat_eq_iff by linarith
        then show "x \<in> {rg_start r + 1..rg_end r} \<longleftrightarrow> x \<in> {rg_start r..rg_end r} - {s}"
          unfolding 3(1) [symmetric] atLeastAtMost_iff Diff_iff singleton_iff by blast
      qed
      have e: "consume_sequence s rs = r\<lparr>rg_start := rg_start r + 1\<rparr> # t"
        using 3 Cons by (simp add: consume_sequence_def)
      have "wf_ranges (r\<lparr>rg_start := rg_start r + 1\<rparr> # t)"
        using w le by (simp add: wf_ranges_Cons gap_def)
      moreover have "seqs_of (r\<lparr>rg_start := rg_start r + 1\<rparr> # t) = seqs_of rs - {s}"
        using far [OF 3(1)] iv unfolding Cons by auto
      ultimately show ?thesis using 3(1) Cons unfolding e by simp
    qed
  qed (use assms in \<open>simp_all add: consume_sequence_def\<close>)
  then show "wf_ranges (consume_sequence s rs)"
    "seqs_of (consume_sequence s rs) = (if rs \<noteq> [] \<and> rg_start (hd rs) = s then seqs_of rs - {s} else seqs_of rs)"
    by blast+
qed

definition queue_ok :: "'w queue \<Rightarrow> bool" where
  "queue_ok q \<longleftrightarrow>
     wf_ranges (q_resolved q) \<and> distinct (map fst (q_todo q)) \<and> distinct (map fst (q_cards q))"

definition replay :: "session \<Rightarrow> 'w recorder \<Rightarrow> event list \<Rightarrow> 'w \<Rightarrow> 'w" where
  "replay ses rec evs w = fst (record_rows ses rec evs w)"

lemma replay_simps [simp]:
  "replay ses rec [] w = w"
  "replay ses rec (ev # evs) w = replay ses rec evs (fst (record_audit ses rec ev w))"
  by (simp_all add: replay_def Let_def case_prod_unfold)

lemma replay_append: "replay ses rec (xs @ ys) w = replay ses rec ys (replay ses rec xs w)"
  by (induction xs arbitrary: w) simp_all

definition stamped :: "'w queue \<Rightarrow> u64 \<Rightarrow> event list" where
  "stamped q s = map (stamp_card (card_at s (q_cards q))) (rows_at s q)"

lemma flush_sequence_writer: "q_writer (flush_sequence ses rec s q) = replay ses rec (stamped q s) (q_writer q)"
  by (simp add: flush_sequence_def stamped_def rows_at_def replay_def case_prod_unfold Let_def split: option.splits)

lemma flush_sequence_todo: "q_todo (flush_sequence ses rec s q) = AList.delete s (q_todo q)"
proof (cases "map_of (q_todo q) s")
  case None
  then have "AList.delete s (q_todo q) = q_todo q" by (simp add: delete_id map_of_eq_None_iff)
  then show ?thesis using None by (simp add: flush_sequence_def)
qed (simp add: flush_sequence_def case_prod_unfold Let_def)

lemma flush_sequence_rest [simp]:
  "q_seq (flush_sequence ses rec s q) = q_seq q" "q_next (flush_sequence ses rec s q) = q_next q"
  "q_resolved (flush_sequence ses rec s q) = q_resolved q" "q_pending (flush_sequence ses rec s q) = q_pending q"
  "q_cards (flush_sequence ses rec s q) = q_cards q" "q_actions (flush_sequence ses rec s q) = q_actions q"
  "q_current (flush_sequence ses rec s q) = q_current q" "q_scored (flush_sequence ses rec s q) = q_scored q"
  "q_forwarded (flush_sequence ses rec s q) = q_forwarded q"
  by (simp_all add: flush_sequence_def case_prod_unfold Let_def split: option.splits)

lemma advance_frontier_rest [simp]:
  "q_seq (advance_frontier q) = q_seq q" "q_next (advance_frontier q) = q_next q + 1"
  "q_todo (advance_frontier q) = q_todo q" "q_resolved (advance_frontier q) = consume_sequence (q_next q) (q_resolved q)"
  "q_failed (advance_frontier q) = q_failed q" "q_current (advance_frontier q) = q_current q"
  "q_writer (advance_frontier q) = q_writer q" "q_scored (advance_frontier q) = q_scored q"
  "q_forwarded (advance_frontier q) = q_forwarded q"
  "q_pending (advance_frontier q) = removeAll (q_next q) (q_pending q)"
  "q_actions (advance_frontier q) = AList.delete (q_next q) (q_actions q)"
  by (simp_all add: advance_frontier_def)

abbreviation flush_round :: "session \<Rightarrow> 'w recorder \<Rightarrow> 'w queue \<Rightarrow> 'w queue" where
  "flush_round ses rec q \<equiv> advance_frontier (flush_sequence ses rec (q_next q) q)"

lemma flush_round_ok: "queue_ok q \<Longrightarrow> queue_ok (flush_round ses rec q)"
  unfolding queue_ok_def
  by (simp add: flush_sequence_todo consume_sequence_spec(1) distinct_delete)
     (simp add: advance_frontier_def prune_cards_distinct)

lemma rows_at_round: "rows_at s (flush_round ses rec q) = (if s = q_next q then [] else rows_at s q)"
  by (simp add: rows_at_def flush_sequence_todo delete_conv)

lemma card_at_round:
  assumes "queue_ok q" and "s \<in> fst ` set (q_todo q)" and "s \<noteq> q_next q"
  shows "card_at s (q_cards (flush_round ses rec q)) = card_at s (q_cards q)"
proof -
  let ?q = "(flush_sequence ses rec (q_next q) q)\<lparr>q_resolved := consume_sequence (q_next q) (q_resolved q),
       q_pending := removeAll (q_next q) (q_pending q), q_actions := AList.delete (q_next q) (q_actions q),
       q_next := q_next q + 1\<rparr>"
  have e: "flush_round ses rec q = prune_cards ?q" by (simp add: advance_frontier_def)
  have "s \<in> fst ` set (q_todo ?q)"
  proof -
    obtain v where "(s, v) \<in> set (q_todo q)" using assms(2) by fastforce
    then have "(s, v) \<in> set (q_todo ?q)" using assms(3) by (simp add: flush_sequence_todo AList.delete_eq)
    then show ?thesis by force
  qed
  then have t: "tracked ?q s" unfolding tracked_def by blast
  have d: "distinct (map fst (q_cards ?q))" using assms(1) by (simp add: queue_ok_def)
  show ?thesis unfolding e prune_cards_card_at [OF d t] by simp
qed

lemma stamped_round:
  assumes "queue_ok q" and "s \<noteq> q_next q"
  shows "stamped (flush_round ses rec q) s = stamped q s"
proof (cases "s \<in> fst ` set (q_todo q)")
  case True
  show ?thesis unfolding stamped_def card_at_round [OF assms(1) True assms(2)] rows_at_round
    using assms(2) by simp
next
  case False
  then have "map_of (q_todo q) s = None" by (simp only: map_of_eq_None_iff set_map not_False_eq_True)
  then have "rows_at s q = []" by (simp add: rows_at_def)
  then show ?thesis using assms(2) by (simp add: stamped_def rows_at_round)
qed

lemma seqs_of_round:
  assumes "queue_ok q" and "s \<noteq> q_next q"
  shows "s \<in> seqs_of (q_resolved (flush_round ses rec q)) \<longleftrightarrow> s \<in> seqs_of (q_resolved q)"
  using assms consume_sequence_spec(2) [of "q_resolved q" "q_next q"] by (simp add: queue_ok_def)

text \<open>A run of resolved sequences from the frontier on, and the first unresolved one.\<close>

definition run_of :: "'w queue \<Rightarrow> nat \<Rightarrow> bool" where
  "run_of q m \<longleftrightarrow>
     (\<forall>k<m. q_next q + of_nat k \<in> seqs_of (q_resolved q)) \<and> q_next q + of_nat m \<notin> seqs_of (q_resolved q)"

lemma offset_distinct: "0 < k \<Longrightarrow> k < 2 ^ 64 \<Longrightarrow> (x :: u64) + of_nat k \<noteq> x"
  by (simp add: of_nat_eq_0_iff nat_dvd_not_less word_of_nat_eq_0_iff)

lemma run_of_round:
  assumes "queue_ok q" and "run_of q (Suc m)" and "Suc m < 2 ^ 64"
  shows "run_of (flush_round ses rec q) m"
proof -
  have n: "q_next (flush_round ses rec q) + of_nat k = q_next q + of_nat (Suc k)" for k
    by simp
  have e: "q_next q + of_nat (Suc k) \<in> seqs_of (q_resolved (flush_round ses rec q)) \<longleftrightarrow>
      q_next q + of_nat (Suc k) \<in> seqs_of (q_resolved q)" if "k \<le> m" for k
    using offset_distinct [of "Suc k"] that assms(3) by (intro seqs_of_round [OF assms(1)]) auto
  show ?thesis unfolding run_of_def n using e assms(2) unfolding run_of_def by (metis Suc_less_eq order.refl less_imp_le_nat)
qed

lemma concat_upt_Suc: "concat (map f [0..<Suc m]) = f 0 @ concat (map (\<lambda>k. f (Suc k)) [0..<m])"
proof -
  have "[0..<Suc m] = 0 # map Suc [0..<m]" by (simp only: map_Suc_upt upt_conv_Cons zero_less_Suc One_nat_def)
  then show ?thesis by (simp add: comp_def)
qed

lemma ex_less_Suc_split: "(\<exists>k<Suc m. P k) \<longleftrightarrow> P 0 \<or> (\<exists>k<m. P (Suc k))"
  using Ex_less_Suc2 by blast

lemma offset_Suc: "(x :: u64) + 1 + of_nat k = x + of_nat (Suc k)"
  by simp

lemma stamped_run:
  assumes "queue_ok q" and "Suc m < 2 ^ 64"
  shows "concat (map (\<lambda>k. stamped q (q_next q + of_nat k)) [0..<Suc m]) =
    stamped q (q_next q)
      @ concat (map (\<lambda>k. stamped (flush_round ses rec q) (q_next (flush_round ses rec q) + of_nat k)) [0..<m])"
proof -
  have "stamped (flush_round ses rec q) (q_next (flush_round ses rec q) + of_nat k) = stamped q (q_next q + of_nat (Suc k))"
    if "k < m" for k
  proof -
    have "q_next q + of_nat (Suc k) \<noteq> q_next q" using that assms(2) by (intro offset_distinct) simp_all
    then show ?thesis
      using stamped_round [OF assms(1)] by (simp only: advance_frontier_rest flush_sequence_rest offset_Suc)
  qed
  then have "map (\<lambda>k. stamped (flush_round ses rec q) (q_next (flush_round ses rec q) + of_nat k)) [0..<m] =
      map (\<lambda>k. stamped q (q_next q + of_nat (Suc k))) [0..<m]"
    by (intro map_cong [OF refl]) (simp only: atLeastLessThan_upt [symmetric] atLeastLessThan_iff)
  moreover have "q_next q + of_nat 0 = q_next q" by simp
  ultimately show ?thesis by (simp only: concat_upt_Suc)
qed

lemma flush_loop_run:
  assumes "queue_ok q" and "run_of q m" and "m \<le> n" and "m < 2 ^ 64"
  shows "queue_ok (flush_loop n ses rec q)"
    and "q_next (flush_loop n ses rec q) = q_next q + of_nat m"
    and "q_next (flush_loop n ses rec q) \<notin> seqs_of (q_resolved (flush_loop n ses rec q))"
    and "q_writer (flush_loop n ses rec q) =
      replay ses rec (concat (map (\<lambda>k. stamped q (q_next q + of_nat k)) [0..<m])) (q_writer q)"
    and "rows_at s (flush_loop n ses rec q) = (if \<exists>k<m. s = q_next q + of_nat k then [] else rows_at s q)"
proof -
  let ?P = "\<lambda>q m n. queue_ok (flush_loop n ses rec q) \<and> q_next (flush_loop n ses rec q) = q_next q + of_nat m
    \<and> q_next (flush_loop n ses rec q) \<notin> seqs_of (q_resolved (flush_loop n ses rec q))
    \<and> q_writer (flush_loop n ses rec q) =
        replay ses rec (concat (map (\<lambda>k. stamped q (q_next q + of_nat k)) [0..<m])) (q_writer q)
    \<and> rows_at s (flush_loop n ses rec q) = (if \<exists>k<m. s = q_next q + of_nat k then [] else rows_at s q)"
  have "?P q m n"
    using assms
  proof (induction n arbitrary: q m)
    case 0
    then show ?case by (simp add: run_of_def)
  next
    case (Suc n)
    have r: "seq_resolved (q_next q) (q_resolved q) \<longleftrightarrow> q_next q \<in> seqs_of (q_resolved q)"
      using Suc.prems(1) by (simp add: queue_ok_def seq_resolved_iff)
    show ?case
    proof (cases m)
      case 0
      then have out: "q_next q \<notin> seqs_of (q_resolved q)"
        using Suc.prems(2) unfolding run_of_def 0 by simp
      then have e: "flush_loop (Suc n) ses rec q = q" using r by (simp only: flush_loop.simps if_False)
      show ?thesis unfolding e 0 using out Suc.prems(1) by simp
    next
      case (Suc m')
      let ?q = "flush_round ses rec q"
      have "q_next q + of_nat 0 \<in> seqs_of (q_resolved q)"
        using Suc.prems(2) unfolding run_of_def Suc by blast
      then have "q_next q \<in> seqs_of (q_resolved q)" by simp
      then have e: "flush_loop (Suc n) ses rec q = flush_loop n ses rec ?q"
        using r by (simp only: flush_loop.simps if_True)
      have m: "m' \<le> n" "m' < 2 ^ 64" "Suc m' < 2 ^ 64" using Suc.prems(3,4) unfolding Suc by linarith+
      have IH: "?P ?q m' n"
        by (rule Suc.IH [OF flush_round_ok [OF Suc.prems(1)]
              run_of_round [OF Suc.prems(1) Suc.prems(2) [unfolded Suc] m(3)] m(1,2)])
      have w: "q_writer ?q = replay ses rec (stamped q (q_next q)) (q_writer q)"
        by (simp add: flush_sequence_writer)
      have nx: "q_next ?q = q_next q + 1" by simp
      show ?thesis unfolding e Suc
      proof (intro conjI)
        show "queue_ok (flush_loop n ses rec ?q)"
          "q_next (flush_loop n ses rec ?q) \<notin> seqs_of (q_resolved (flush_loop n ses rec ?q))"
          using IH by blast+
        show "q_next (flush_loop n ses rec ?q) = q_next q + of_nat (Suc m')"
          using conjunct1 [OF conjunct2 [OF IH]] unfolding nx offset_Suc .
        show "q_writer (flush_loop n ses rec ?q) =
            replay ses rec (concat (map (\<lambda>k. stamped q (q_next q + of_nat k)) [0..<Suc m'])) (q_writer q)"
          unfolding stamped_run [where ses = ses and rec = rec, OF Suc.prems(1) m(3)] replay_append w [symmetric] using IH by blast
        show "rows_at s (flush_loop n ses rec ?q) = (if \<exists>k<Suc m'. s = q_next q + of_nat k then [] else rows_at s q)"
        proof -
          have "rows_at s (flush_loop n ses rec ?q) = (if \<exists>k<m'. s = q_next q + of_nat (Suc k) then [] else rows_at s ?q)"
            using IH unfolding nx offset_Suc by blast
          moreover have "q_next q + of_nat 0 = q_next q" by simp
          ultimately show ?thesis unfolding ex_less_Suc_split rows_at_round
            by (cases "\<exists>k<m'. s = q_next q + of_nat (Suc k)"; cases "s = q_next q"; simp only: if_True if_False simp_thms)
        qed
      qed
    qed
  qed
  then show "queue_ok (flush_loop n ses rec q)"
    "q_next (flush_loop n ses rec q) = q_next q + of_nat m"
    "q_next (flush_loop n ses rec q) \<notin> seqs_of (q_resolved (flush_loop n ses rec q))"
    "q_writer (flush_loop n ses rec q) =
      replay ses rec (concat (map (\<lambda>k. stamped q (q_next q + of_nat k)) [0..<m])) (q_writer q)"
    "rows_at s (flush_loop n ses rec q) = (if \<exists>k<m. s = q_next q + of_nat k then [] else rows_at s q)"
    by blast+
qed

subsection \<open>The loop ends\<close>

lemma card_interval: "card {a..b :: u64} \<le> unat b - unat a + 1"
proof -
  have "card {a..b} = card (unat ` {a..b})"
    by (rule card_image [symmetric], rule inj_onI) (rule word_unat_eq_iff [THEN iffD2])
  also have "\<dots> \<le> card {unat a..unat b}"
    by (rule card_mono) (auto simp: word_le_nat_alt)
  finally show ?thesis by simp
qed

lemma card_seqs_of: "card (seqs_of rs) \<le> resolved_count rs"
proof (induction rs)
  case (Cons r rs)
  have "card (seqs_of (r # rs)) \<le> card {rg_start r..rg_end r} + card (seqs_of rs)"
    by (simp add: card_Un_le)
  then show ?case using Cons card_interval [of "rg_start r" "rg_end r"] by (simp add: resolved_count_def)
qed (simp add: resolved_count_def)

lemma offset_inj: "inj_on (\<lambda>k. (x :: u64) + of_nat k) {..<2 ^ 64}"
proof (rule inj_onI)
  fix i j :: nat
  assume ij: "i \<in> {..<2 ^ 64}" "j \<in> {..<2 ^ 64}" and "x + of_nat i = x + of_nat j"
  then have "(of_nat i :: u64) = of_nat j" by simp
  then have "unat (of_nat i :: u64) = unat (of_nat j :: u64)" by (rule arg_cong)
  moreover have "unat (of_nat k :: u64) = k" if "k \<in> {..<2 ^ 64}" for k
    using that by (simp add: unat_of_nat take_bit_nat_eq_self)
  ultimately show "i = j" using ij by metis
qed

lemma run_exists:
  assumes "seqs_of (q_resolved q) \<noteq> UNIV"
  shows "\<exists>m. run_of q m \<and> m \<le> resolved_count (q_resolved q) \<and> m < 2 ^ 64"
proof -
  let ?S = "seqs_of (q_resolved q)"
  obtain x where "x \<notin> ?S" using assms by blast
  then have x: "q_next q + of_nat (unat (x - q_next q)) \<notin> ?S" by simp
  define m where "m = (LEAST m. q_next q + of_nat m \<notin> ?S)"
  have m: "q_next q + of_nat m \<notin> ?S" unfolding m_def by (rule LeastI [of "\<lambda>m. q_next q + of_nat m \<notin> ?S", OF x])
  have "m \<le> unat (x - q_next q)" unfolding m_def by (rule Least_le [of "\<lambda>m. q_next q + of_nat m \<notin> ?S", OF x])
  also have "\<dots> < 2 ^ 64" using unsigned_less [where 'a = nat, of "x - q_next q"] by simp
  finally have lt: "m < 2 ^ 64" .
  have below: "\<forall>k<m. q_next q + of_nat k \<in> ?S" using not_less_Least unfolding m_def by blast
  have "m = card ((\<lambda>k. q_next q + of_nat k) ` {..<m})"
    using card_image [OF inj_on_subset [OF offset_inj, of "{..<m}" "q_next q"]] lt by simp
  also have "\<dots> \<le> card ?S" using below by (intro card_mono) auto
  also have "\<dots> \<le> resolved_count (q_resolved q)" by (rule card_seqs_of)
  finally show ?thesis using m below lt unfolding run_of_def by blast
qed

subsection \<open>No row is lost\<close>

definition queued :: "'w queue \<Rightarrow> event list" where
  "queued q = concat (map snd (q_todo q))"

definition uncard :: "event \<Rightarrow> event" where
  "uncard ev = ev\<lparr>ev_nock_id := 0\<rparr>"

fun replay_log :: "'w recorder \<Rightarrow> (session \<times> event) list \<Rightarrow> 'w \<Rightarrow> 'w" where
  "replay_log rec [] w = w"
| "replay_log rec ((ses, ev) # l) w = replay_log rec l (fst (record_audit ses rec ev w))"

definition moves :: "'w recorder \<Rightarrow> 'w queue \<Rightarrow> event list \<Rightarrow> 'w queue \<Rightarrow> bool" where
  "moves rec q added q' \<longleftrightarrow>
     (\<exists>l. q_writer q' = replay_log rec l (q_writer q)
       \<and> mset (map uncard (map snd l)) + mset (map uncard (queued q')) = mset (map uncard (queued q @ added)))"

lemma replay_log_append: "replay_log rec (l1 @ l2) w = replay_log rec l2 (replay_log rec l1 w)"
  by (induction l1 arbitrary: w) auto

lemma replay_log_replay: "replay_log rec (map (Pair ses) evs) w = replay ses rec evs w"
  by (induction evs arbitrary: w) auto

lemma moves_refl: "q_writer q' = q_writer q \<Longrightarrow> q_todo q' = q_todo q \<Longrightarrow> moves rec q [] q'"
  unfolding moves_def queued_def by (rule exI [of _ "[]"]) simp

lemma moves_trans: "moves rec q a q' \<Longrightarrow> moves rec q' b q'' \<Longrightarrow> moves rec q (a @ b) q''"
proof -
  assume "moves rec q a q'" "moves rec q' b q''"
  then obtain l1 l2 where l: "q_writer q' = replay_log rec l1 (q_writer q)"
    "mset (map uncard (map snd l1)) + mset (map uncard (queued q')) = mset (map uncard (queued q @ a))"
    "q_writer q'' = replay_log rec l2 (q_writer q')"
    "mset (map uncard (map snd l2)) + mset (map uncard (queued q'')) = mset (map uncard (queued q' @ b))"
    unfolding moves_def by blast
  have "q_writer q'' = replay_log rec (l1 @ l2) (q_writer q)" using l(1,3) by (simp add: replay_log_append)
  moreover have "mset (map uncard (map snd (l1 @ l2))) + mset (map uncard (queued q'')) = mset (map uncard (queued q @ a @ b))"
    using l(2,4) by (simp add: union_assoc)
  ultimately show ?thesis unfolding moves_def by blast
qed

lemma moves_then: "moves rec q a q' \<Longrightarrow> q_writer q'' = q_writer q' \<Longrightarrow> q_todo q'' = q_todo q' \<Longrightarrow> moves rec q a q''"
  unfolding moves_def queued_def by simp

lemma queued_delete:
  "distinct (map fst xs) \<Longrightarrow>
    mset (concat (map snd xs)) = mset (case map_of xs s of None \<Rightarrow> [] | Some v \<Rightarrow> v) + mset (concat (map snd (AList.delete s xs)))"
proof (induction xs)
  case (Cons x xs)
  show ?case
  proof (cases "fst x = s")
    case True
    then have "s \<notin> fst ` set xs" using Cons.prems by (simp only: list.map distinct.simps set_map not_False_eq_True)
    then have "AList.delete s xs = xs" by (rule delete_id)
    then show ?thesis using True by (cases x) (simp add: AList.delete_eq)
  next
    case False
    then show ?thesis using Cons by (cases x) (simp add: AList.delete_eq ac_simps)
  qed
qed simp

lemma uncard_stamp: "uncard (stamp_card c ev) = uncard ev"
  by (simp add: uncard_def stamp_card_def)

lemma moves_flush_sequence:
  assumes "queue_ok q"
  shows "moves rec q [] (flush_sequence ses rec s q)"
proof -
  have "mset (queued q) = mset (rows_at s q) + mset (queued (flush_sequence ses rec s q))"
    using queued_delete [of "q_todo q" s] assms unfolding queue_ok_def
    by (simp add: queued_def rows_at_def flush_sequence_todo)
  then have "mset (map uncard (queued q)) =
      mset (map uncard (rows_at s q)) + mset (map uncard (queued (flush_sequence ses rec s q)))"
    by (simp only: mset_map image_mset_union)
  moreover have "map uncard (stamped q s) = map uncard (rows_at s q)"
    by (simp add: stamped_def comp_def uncard_stamp)
  moreover have "map snd (map (Pair ses) (stamped q s)) = stamped q s" by (simp add: comp_def)
  ultimately show ?thesis unfolding moves_def
    by (intro exI [of _ "map (Pair ses) (stamped q s)"])
      (simp only: replay_log_replay flush_sequence_writer append_Nil2)
qed

lemma flush_loop_moves: "queue_ok q \<Longrightarrow> moves rec q [] (flush_loop n ses rec q) \<and> queue_ok (flush_loop n ses rec q)"
proof (induction n arbitrary: q)
  case (Suc n)
  show ?case
  proof (cases "seq_resolved (q_next q) (q_resolved q)")
    case True
    have m: "moves rec q [] (flush_round ses rec q)"
      by (rule moves_then [OF moves_flush_sequence [OF Suc.prems]]) simp_all
    show ?thesis using Suc.IH [OF flush_round_ok [OF Suc.prems]] moves_trans [OF m] True by fastforce
  qed (use Suc.prems moves_refl in auto)
qed (simp add: moves_refl)

lemma delete_update_same: "AList.delete s (AList.update s v xs) = AList.delete s xs"
  by (induction xs) (auto simp: AList.delete_eq)

lemma moves_push:
  assumes "queue_ok q"
  shows "moves rec q [ev] (push_row s ev q)" "queue_ok (push_row s ev q)"
proof -
  let ?u = "AList.update s (rows_at s q @ [ev]) (q_todo q)"
  have d: "distinct (map fst (q_todo q))" using assms by (simp add: queue_ok_def)
  have "mset (concat (map snd ?u)) = mset (rows_at s q @ [ev]) + mset (concat (map snd (AList.delete s (q_todo q))))"
    using queued_delete [OF distinct_update [OF d], of s "rows_at s q @ [ev]" s] by (simp add: update_conv' delete_update_same)
  then have "mset (queued (push_row s ev q)) = mset (queued q @ [ev])"
    using queued_delete [OF d, of s] by (simp add: queued_def push_row_def rows_at_def)
  then have "mset (map uncard (queued (push_row s ev q))) = mset (map uncard (queued q @ [ev]))"
    by (simp only: mset_map)
  moreover have "q_writer (push_row s ev q) = q_writer q" by (simp add: push_row_def)
  ultimately show "moves rec q [ev] (push_row s ev q)" unfolding moves_def by (intro exI [of _ "[]"]) simp
  show "queue_ok (push_row s ev q)" using assms by (simp add: queue_ok_def push_row_def distinct_update)
qed

subsection \<open>Sequences in use\<close>

definition queue_inv :: "'w queue \<Rightarrow> bool" where
  "queue_inv q \<longleftrightarrow> queue_ok q \<and> q_next q \<le> q_seq q
     \<and> (\<forall>s\<in>seqs_of (q_resolved q) \<union> fst ` set (q_todo q) \<union> set (q_pending q). s < q_seq q)"

lemma queue_invD:
  assumes "queue_inv q"
  shows "queue_ok q" "q_next q \<le> q_seq q" "s \<in> seqs_of (q_resolved q) \<Longrightarrow> s < q_seq q"
    "s \<in> fst ` set (q_todo q) \<Longrightarrow> s < q_seq q" "s \<in> set (q_pending q) \<Longrightarrow> s < q_seq q"
  using assms unfolding queue_inv_def by blast+

lemma queue_inv_flush_sequence: "queue_inv q \<Longrightarrow> queue_inv (flush_sequence ses rec s q)"
proof -
  assume q: "queue_inv q"
  have t: "fst ` set (q_todo (flush_sequence ses rec s q)) \<subseteq> fst ` set (q_todo q)"
    by (auto simp: flush_sequence_todo AList.delete_eq)
  have "queue_ok (flush_sequence ses rec s q)"
    using queue_invD(1) [OF q] by (simp add: queue_ok_def flush_sequence_todo distinct_delete)
  then show ?thesis using q t unfolding queue_inv_def flush_sequence_rest by blast
qed

lemma queue_inv_round:
  assumes "queue_inv q" and "q_next q \<in> seqs_of (q_resolved q)"
  shows "queue_inv (flush_round ses rec q)"
proof -
  let ?q = "flush_round ses rec q"
  have lt: "q_next q < q_seq q" by (rule queue_invD(3) [OF assms])
  have "unat (q_next q + 1) \<le> unat (q_seq q)"
    using unat_succ_less [OF lt] lt unfolding word_less_nat_alt by linarith
  then have n: "q_next ?q \<le> q_seq ?q" by (simp only: advance_frontier_rest flush_sequence_rest word_le_nat_alt)
  have w: "wf_ranges (q_resolved q)" using queue_invD(1) [OF assms(1)] unfolding queue_ok_def by blast
  have r: "seqs_of (q_resolved ?q) \<subseteq> seqs_of (q_resolved q)"
    unfolding advance_frontier_rest flush_sequence_rest consume_sequence_spec(2) [OF w] by simp
  have t: "fst ` set (q_todo ?q) \<subseteq> fst ` set (q_todo q)"
    unfolding advance_frontier_rest flush_sequence_todo AList.delete_eq by auto
  have p: "set (q_pending ?q) \<subseteq> set (q_pending q)"
    unfolding advance_frontier_rest flush_sequence_rest by simp
  have sq: "q_seq ?q = q_seq q" by (simp only: advance_frontier_rest flush_sequence_rest)
  show ?thesis unfolding queue_inv_def
  proof (intro conjI ballI)
    show "queue_ok ?q" by (rule flush_round_ok [OF queue_invD(1) [OF assms(1)]])
    show "q_next ?q \<le> q_seq ?q" by (rule n)
    fix s assume "s \<in> seqs_of (q_resolved ?q) \<union> fst ` set (q_todo ?q) \<union> set (q_pending ?q)"
    then have "s \<in> seqs_of (q_resolved q) \<or> s \<in> fst ` set (q_todo q) \<or> s \<in> set (q_pending q)"
      using r t p by blast
    then show "s < q_seq ?q" unfolding sq using queue_invD(3-5) [OF assms(1)] by blast
  qed
qed

lemma queue_inv_flush_loop: "queue_inv q \<Longrightarrow> queue_inv (flush_loop n ses rec q) \<and> q_seq (flush_loop n ses rec q) = q_seq q"
proof (induction n arbitrary: q)
  case (Suc n)
  show ?case
  proof (cases "seq_resolved (q_next q) (q_resolved q)")
    case True
    then have "q_next q \<in> seqs_of (q_resolved q)"
      using queue_invD(1) [OF Suc.prems] by (simp add: queue_ok_def seq_resolved_iff)
    then show ?thesis using Suc.IH [OF queue_inv_round [OF Suc.prems]] True by simp
  qed (use Suc.prems in simp)
qed simp

lemma seqs_not_all: "queue_inv q \<Longrightarrow> seqs_of (q_resolved q) \<noteq> UNIV"
  using queue_invD(3) [of q "q_seq q"] by blast

subsection \<open>Every history of the queue\<close>

lemma mark_open_spec:
  "wf_ranges rs \<Longrightarrow> wf_ranges (mark_open ss rs) \<and> seqs_of (mark_open ss rs) = set ss \<union> seqs_of rs"
proof (induction ss arbitrary: rs)
  case (Cons s ss)
  show ?case
  proof (cases "seq_resolved s rs")
    case True
    then show ?thesis using Cons seq_resolved_iff [OF Cons.prems, of s] by (simp add: mark_open_def insert_absorb)
  next
    case False
    then show ?thesis
      using Cons.IH [OF mark_resolved_spec(1) [OF Cons.prems, of s]] mark_resolved_spec(2) [OF Cons.prems, of s]
      by (simp add: mark_open_def)
  qed
qed (simp add: mark_open_def)

inductive queue_step :: "'w recorder \<Rightarrow> 'w queue \<Rightarrow> event list \<Rightarrow> 'w queue \<Rightarrow> bool" for rec where
  step_reserve: "q_seq q + 1 \<noteq> 0 \<Longrightarrow> queue_step rec q [] (snd (reserve_sequence q))"
| step_push: "s < q_seq q \<Longrightarrow> queue_step rec q [ev] (push_row s ev q)"
| step_append: "s < q_seq q \<Longrightarrow>
    queue_step rec q [audit_row ses observe (action_of s q) tool decision reason refs actor]
      (append_audit ses observe s tool decision reason refs actor q)"
| step_resolve: "s < q_seq q \<Longrightarrow> queue_step rec q [] (resolve_audit ses rec s q)"
| step_action: "queue_step rec q [] (queue_action_id s aid q)"
| step_card: "queue_step rec q [] (update_card_state s tool refs q)"
| step_now: "queue_step rec q [audit_row ses observe aid tool decision reason refs []]
    (audit_now ses rec observe tool decision reason refs aid q)"
| step_method:
    "queue_step rec q [zero_event\<lparr>ev_agent := p_agent ses, ev_tool := mth, ev_decision := decision, ev_reason := reason\<rparr>]
      (audit_method ses rec mth decision reason q)"
| step_drain: "queue_step rec q [] (drain_audits ses rec q)"
| step_clear: "queue_step rec q [] (clear_audit_failure s q)"

text \<open>What a step preserves: the invariant, the rows, and everything below the frontier.\<close>

definition good_step :: "'w recorder \<Rightarrow> 'w queue \<Rightarrow> event list \<Rightarrow> 'w queue \<Rightarrow> bool" where
  "good_step rec q added q' \<longleftrightarrow>
     queue_inv q' \<and> moves rec q added q' \<and> q_next q \<le> q_next q'
     \<and> (\<forall>s<q_next q. \<exists>t. rows_at s q' = rows_at s q @ t)"

lemma good_trans:
  assumes "good_step rec q a q1" and "good_step rec q1 b q2"
  shows "good_step rec q (a @ b) q2"
proof -
  have n: "q_next q \<le> q_next q1" "q_next q1 \<le> q_next q2" using assms unfolding good_step_def by blast+
  have "\<exists>t. rows_at s q2 = rows_at s q @ t" if s: "s < q_next q" for s
  proof -
    obtain t where t: "rows_at s q1 = rows_at s q @ t" using assms(1) s unfolding good_step_def by blast
    have "s < q_next q1" using s n(1) by (rule less_le_trans)
    then obtain t' where "rows_at s q2 = rows_at s q1 @ t'" using assms(2) unfolding good_step_def by blast
    then show ?thesis using t by simp
  qed
  moreover have "q_next q \<le> q_next q2" using n by (rule order.trans)
  ultimately show ?thesis using assms moves_trans unfolding good_step_def by blast
qed

text \<open>Steps that leave the rows alone.\<close>

lemma good_idle:
  assumes "queue_inv q'" "q_writer q' = q_writer q" "q_todo q' = q_todo q" "q_next q' = q_next q"
  shows "good_step rec q [] q'"
proof -
  have "rows_at s q' = rows_at s q @ []" for s using assms(3) by (simp add: rows_at_def)
  then show ?thesis using assms moves_refl [OF assms(2,3)] unfolding good_step_def by (metis order.refl)
qed

lemma good_flush_loop: "queue_inv q \<Longrightarrow> good_step rec q [] (flush_loop n ses rec q)"
proof (induction n arbitrary: q)
  case (Suc n)
  show ?case
  proof (cases "seq_resolved (q_next q) (q_resolved q)")
    case True
    then have r: "q_next q \<in> seqs_of (q_resolved q)"
      using queue_invD(1) [OF Suc.prems] by (simp add: queue_ok_def seq_resolved_iff)
    have i: "queue_inv (flush_round ses rec q)" by (rule queue_inv_round [OF Suc.prems r])
    have lt: "q_next q < q_seq q" by (rule queue_invD(3) [OF Suc.prems r])
    have "unat (q_next q) \<le> unat (q_next q + 1)" using unat_succ_less [OF lt] by linarith
    then have n: "q_next q \<le> q_next (flush_round ses rec q)"
      by (simp only: advance_frontier_rest flush_sequence_rest word_le_nat_alt)
    have m: "moves rec q [] (flush_round ses rec q)"
      by (rule moves_then [OF moves_flush_sequence [OF queue_invD(1) [OF Suc.prems]]]) simp_all
    have "rows_at s (flush_round ses rec q) = rows_at s q @ []" if "s < q_next q" for s
      unfolding rows_at_round if_not_P [OF less_imp_neq [OF that]] by simp
    then have g: "good_step rec q [] (flush_round ses rec q)" unfolding good_step_def using i m n by blast
    show ?thesis using good_trans [OF g Suc.IH [OF i]] True by simp
  qed (use Suc.prems good_idle in auto)
qed (simp add: good_idle)

lemma queue_inv_mark:
  assumes "queue_inv q" and "wf_ranges rs" and "seqs_of rs \<subseteq> A \<union> seqs_of (q_resolved q)" and "\<forall>s\<in>A. s < q_seq q"
  shows "queue_inv (q\<lparr>q_resolved := rs\<rparr>)"
proof -
  have "s < q_seq q" if "s \<in> seqs_of rs" for s using that assms(3,4) queue_invD(3) [OF assms(1), of s] by blast
  then show ?thesis using assms(1,2) unfolding queue_inv_def queue_ok_def by simp blast
qed

lemma queue_inv_prune: "queue_inv q \<Longrightarrow> queue_inv (prune_cards q)"
  unfolding queue_inv_def queue_ok_def by (simp add: prune_cards_distinct)

lemma queue_inv_pending: "queue_inv q \<Longrightarrow> queue_inv (q\<lparr>q_pending := removeAll s (q_pending q)\<rparr>)"
  unfolding queue_inv_def queue_ok_def by simp blast

lemma queue_inv_actions: "queue_inv (q\<lparr>q_actions := a\<rparr>) \<longleftrightarrow> queue_inv q"
  unfolding queue_inv_def queue_ok_def by simp

lemma rows_at_flush_sequence: "rows_at k (flush_sequence ses rec s q) = (if k = s then [] else rows_at k q)"
  by (simp add: rows_at_def flush_sequence_todo delete_conv)

lemma good_flush_sequence:
  assumes "queue_inv q" and "\<not> s < q_next q"
  shows "good_step rec q [] (flush_sequence ses rec s q)"
proof -
  have "rows_at k (flush_sequence ses rec s q) = rows_at k q @ []" if "k < q_next q" for k
    using assms(2) that by (auto simp: rows_at_flush_sequence)
  then show ?thesis
    using queue_inv_flush_sequence [OF assms(1)] moves_flush_sequence [OF queue_invD(1) [OF assms(1)]]
    unfolding good_step_def flush_sequence_rest by (metis order.refl)
qed

lemma good_resolve:
  assumes "queue_inv q" and "s < q_seq q"
  shows "good_step rec q [] (resolve_audit ses rec s q)"
proof (cases "s < q_next q")
  case True
  then show ?thesis using good_idle [OF assms(1)] by (simp add: resolve_audit_def)
next
  case False
  let ?q1 = "q\<lparr>q_resolved := mark_resolved s (q_resolved q)\<rparr>"
  let ?q2 = "if p_pairing ses \<and> action_of s q \<noteq> []
    then (flush_sequence ses rec s ?q1)\<lparr>q_actions := AList.delete s (q_actions q)\<rparr> else ?q1"
  let ?q3 = "prune_cards (?q2\<lparr>q_pending := removeAll s (q_pending ?q2)\<rparr>)"
  have e: "resolve_audit ses rec s q = flush_audits ses rec ?q3"
    using False by (simp add: resolve_audit_def Let_def)
  have w: "wf_ranges (q_resolved q)" using queue_invD(1) [OF assms(1)] unfolding queue_ok_def by blast
  have i1: "queue_inv ?q1"
    by (rule queue_inv_mark [OF assms(1) mark_resolved_spec(1) [OF w], where A = "{s}"])
      (use mark_resolved_spec(2) [OF w] assms(2) in auto)
  have g1: "good_step rec q [] ?q1" by (rule good_idle [OF i1]) simp_all
  have g2: "good_step rec ?q1 [] ?q2 \<and> queue_inv ?q2"
  proof (cases "p_pairing ses \<and> action_of s q \<noteq> []")
    case True
    have f: "good_step rec ?q1 [] (flush_sequence ses rec s ?q1)" by (rule good_flush_sequence [OF i1]) (use False in simp)
    have i: "queue_inv ((flush_sequence ses rec s ?q1)\<lparr>q_actions := AList.delete s (q_actions q)\<rparr>)"
      using queue_inv_flush_sequence [OF i1] by (simp only: queue_inv_actions)
    have "good_step rec (flush_sequence ses rec s ?q1) []
        ((flush_sequence ses rec s ?q1)\<lparr>q_actions := AList.delete s (q_actions q)\<rparr>)"
      by (rule good_idle [OF i]) simp_all
    then show ?thesis using good_trans [OF f] True i by simp
  next
    case no: False
    show ?thesis unfolding if_not_P [OF no] using good_idle [OF i1] i1 by blast
  qed
  have i3: "queue_inv ?q3" by (rule queue_inv_prune [OF queue_inv_pending [OF conjunct2 [OF g2]]])
  have g3: "good_step rec ?q2 [] ?q3" by (rule good_idle [OF i3]) simp_all
  have g4: "good_step rec ?q3 [] (flush_audits ses rec ?q3)" unfolding flush_audits_def by (rule good_flush_loop [OF i3])
  show ?thesis unfolding e
    using good_trans [OF good_trans [OF good_trans [OF g1 conjunct1 [OF g2]] g3] g4] by simp
qed

lemma good_record:
  assumes "queue_inv q" and "uncard ev' = uncard ev"
  shows "good_step rec q [ev] (q\<lparr>q_writer := fst (record_audit ses rec ev' (q_writer q))\<rparr>)"
proof -
  let ?q = "q\<lparr>q_writer := fst (record_audit ses rec ev' (q_writer q))\<rparr>"
  have i: "queue_inv ?q" using assms unfolding queue_inv_def queue_ok_def by simp
  have m: "moves rec q [ev] ?q" unfolding moves_def queued_def
    by (rule exI [of _ "[(ses, ev')]"]) (simp add: assms(2))
  have "rows_at s ?q = rows_at s q @ []" for s by (simp add: rows_at_def)
  then show ?thesis using i m unfolding good_step_def by simp
qed

lemma good_push:
  assumes "queue_inv q" and "s < q_seq q"
  shows "good_step rec q [ev] (push_row s ev q)"
proof -
  have k: "fst ` set (q_todo (push_row s ev q)) = insert s (fst ` set (q_todo q))"
    by (simp add: push_row_def dom_update)
  have i: "queue_inv (push_row s ev q)"
    using moves_push(2) [OF queue_invD(1) [OF assms(1)], of s ev] assms k
    unfolding queue_inv_def by (simp add: push_row_def)
  have "\<exists>t. rows_at k (push_row s ev q) = rows_at k q @ t" for k
    by (cases "k = s") (simp_all add: rows_at_def push_row_def update_conv')
  then show ?thesis
    using i moves_push(1) [OF queue_invD(1) [OF assms(1)]] unfolding good_step_def by (simp add: push_row_def)
qed

lemma side_effects [simp]:
  "q_writer (forward_decision ses tool decision reason q) = q_writer q"
  "q_todo (forward_decision ses tool decision reason q) = q_todo q"
  "q_next (forward_decision ses tool decision reason q) = q_next q"
  "q_writer (score_decision ses decision q) = q_writer q"
  "q_todo (score_decision ses decision q) = q_todo q"
  "q_next (score_decision ses decision q) = q_next q"
  by (simp_all add: forward_decision_def score_decision_def split: option.splits)

lemma side_effects_inv [simp]:
  "queue_inv (forward_decision ses tool decision reason q) = queue_inv q"
  "queue_inv (score_decision ses decision q) = queue_inv q"
  by (simp_all add: forward_decision_def score_decision_def queue_inv_def queue_ok_def split: option.splits)

lemma maybe_score:
  "q_writer (if c then q else score_decision ses d q) = q_writer q"
  "q_todo (if c then q else score_decision ses d q) = q_todo q"
  "q_next (if c then q else score_decision ses d q) = q_next q"
  "queue_inv (if c then q else score_decision ses d q) = queue_inv q"
  by simp_all

lemma good_then_idle:
  assumes "good_step rec q a q'" "queue_inv q''" "q_writer q'' = q_writer q'" "q_todo q'' = q_todo q'" "q_next q'' = q_next q'"
  shows "good_step rec q a q''"
  using good_trans [OF assms(1) good_idle [OF assms(2-5)]] by simp

lemma good_idle_then:
  assumes "queue_inv q'" "q_writer q' = q_writer q" "q_todo q' = q_todo q" "q_next q' = q_next q" "good_step rec q' a q''"
  shows "good_step rec q a q''"
  using good_trans [OF good_idle [OF assms(1-4)] assms(5)] by simp

lemma queue_inv_cards: "queue_inv q \<Longrightarrow> queue_inv (q\<lparr>q_current := c, q_cards := AList.update s n (q_cards q)\<rparr>)"
  unfolding queue_inv_def queue_ok_def by (simp add: distinct_update)

lemma good_drain: "queue_inv q \<Longrightarrow> good_step rec q [] (drain_audits ses rec q)"
proof -
  assume q: "queue_inv q"
  let ?rs = "mark_open (q_pending q) (mark_open (map fst (q_todo q)) (q_resolved q))"
  have w: "wf_ranges (q_resolved q)" using queue_invD(1) [OF q] unfolding queue_ok_def by blast
  note m1 = mark_open_spec [OF w, of "map fst (q_todo q)"]
  note m2 = mark_open_spec [OF conjunct1 [OF m1], of "q_pending q"]
  have i: "queue_inv (q\<lparr>q_resolved := ?rs\<rparr>)"
  proof (rule queue_inv_mark [OF q])
    show "wf_ranges ?rs" using m2 by blast
    show "seqs_of ?rs \<subseteq> (set (q_pending q) \<union> fst ` set (q_todo q)) \<union> seqs_of (q_resolved q)" using m1 m2 by auto
    show "\<forall>s\<in>set (q_pending q) \<union> fst ` set (q_todo q). s < q_seq q" using queue_invD(4,5) [OF q] by blast
  qed
  show ?thesis unfolding drain_audits_def flush_audits_def
    by (rule good_idle_then [OF i _ _ _ good_flush_loop [OF i]]) simp_all
qed

lemma queue_inv_reserve:
  assumes "queue_inv q" and "q_seq q + 1 \<noteq> 0"
  shows "queue_inv (snd (reserve_sequence q))"
proof -
  let ?q = "snd (reserve_sequence q)"
  have "unat (q_seq q + 1) = unat (q_seq q) + 1" using unatSuc [of "q_seq q"] assms(2) by (simp add: add.commute)
  then have lt: "q_seq q < q_seq q + 1" unfolding word_less_nat_alt by linarith
  have up: "s < q_seq q + 1" if "s < q_seq q" for s using that lt by (rule less_trans)
  have n: "q_next q \<le> q_seq q + 1"
    by (rule order.trans [OF queue_invD(2) [OF assms(1)] less_imp_le [OF lt]])
  show ?thesis unfolding queue_inv_def
  proof (intro conjI ballI)
    show "queue_ok ?q" using queue_invD(1) [OF assms(1)] by (simp add: queue_ok_def reserve_sequence_def)
    show "q_next ?q \<le> q_seq ?q" using n by (simp add: reserve_sequence_def)
    fix s assume "s \<in> seqs_of (q_resolved ?q) \<union> fst ` set (q_todo ?q) \<union> set (q_pending ?q)"
    then have "s = q_seq q \<or> s \<in> seqs_of (q_resolved q) \<or> s \<in> fst ` set (q_todo q) \<or> s \<in> set (q_pending q)"
      unfolding reserve_sequence_def by auto
    then have "s < q_seq q + 1" using lt up queue_invD(3-5) [OF assms(1)] by blast
    then show "s < q_seq ?q" by (simp add: reserve_sequence_def)
  qed
qed

lemma queue_step_good: "queue_step rec q added q' \<Longrightarrow> queue_inv q \<Longrightarrow> good_step rec q added q'"
proof (induction rule: queue_step.induct)
  case (step_reserve q)
  show ?case
    by (rule good_idle [OF queue_inv_reserve [OF step_reserve(2,1)]]) (simp_all add: reserve_sequence_def)
next
  case (step_push s q ev)
  then show ?case by (rule good_push [rotated])
next
  case (step_append s q ses observe tool decision reason refs actor)
  let ?ev = "audit_row ses observe (action_of s q) tool decision reason refs actor"
  note g = good_push [OF step_append(2,1), of rec ?ev]
  have i: "queue_inv (push_row s ?ev q)" using g unfolding good_step_def by blast
  show ?case unfolding append_audit_def Let_def
    by (rule good_then_idle [OF g]) (simp_all only: side_effects side_effects_inv maybe_score i)
next
  case (step_resolve s q ses)
  then show ?case by (rule good_resolve [rotated])
next
  case (step_action q s aid)
  then show ?case by (intro good_idle) (simp_all add: queue_action_id_def queue_inv_actions)
next
  case (step_card q s tool refs)
  then show ?case
    by (intro good_idle) (simp_all add: update_card_state_def queue_inv_cards split: option.splits)
next
  case (step_now q ses observe aid tool decision reason refs)
  let ?q1 = "score_decision ses decision q"
  let ?ev = "audit_row ses observe aid tool decision reason refs []"
  have i: "queue_inv ?q1" using step_now by simp
  have r: "good_step rec ?q1 [?ev] (?q1\<lparr>q_writer := fst (record_audit ses rec (stamp_card (q_current ?q1) ?ev) (q_writer ?q1))\<rparr>)"
    by (rule good_record [OF i uncard_stamp])
  have i2: "queue_inv (?q1\<lparr>q_writer := fst (record_audit ses rec (stamp_card (q_current ?q1) ?ev) (q_writer ?q1))\<rparr>)"
    using r unfolding good_step_def by blast
  show ?case unfolding audit_now_def Let_def
    by (rule good_then_idle [OF good_idle_then [OF i _ _ _ r]]) (simp_all only: side_effects side_effects_inv i2 [unfolded side_effects])
next
  case (step_method q reason decision mth ses)
  let ?ev = "zero_event\<lparr>ev_agent := p_agent ses, ev_tool := mth, ev_decision := decision, ev_reason := reason\<rparr>"
  note g = good_record [OF step_method refl, of rec ?ev ses]
  have i: "queue_inv (q\<lparr>q_writer := fst (record_audit ses rec ?ev (q_writer q))\<rparr>)"
    using g unfolding good_step_def by blast
  show ?case unfolding audit_method_def
    by (rule good_then_idle [OF g]) (simp_all only: side_effects side_effects_inv i)
next
  case (step_drain ses q)
  then show ?case by (rule good_drain)
next
  case (step_clear s q)
  then show ?case by (intro good_idle) (simp_all add: clear_audit_failure_def queue_inv_def queue_ok_def)
qed

inductive queue_run :: "'w recorder \<Rightarrow> 'w queue \<Rightarrow> event list \<Rightarrow> 'w queue \<Rightarrow> bool" for rec q0 where
  run_start: "queue_run rec q0 [] q0"
| run_step: "queue_run rec q0 added q \<Longrightarrow> queue_step rec q fresh q' \<Longrightarrow> queue_run rec q0 (added @ fresh) q'"

lemma queue_run_good: "queue_run rec q0 added q \<Longrightarrow> queue_inv q0 \<Longrightarrow> good_step rec q0 added q"
proof (induction rule: queue_run.induct)
  case run_start
  then show ?case by (intro good_idle) simp_all
next
  case (run_step added q fresh q')
  have g: "good_step rec q0 added q" by (rule run_step.IH [OF run_step.prems])
  then have "queue_inv q" unfolding good_step_def by blast
  then show ?case using good_trans [OF g queue_step_good [OF run_step.hyps(2)]] by blast
qed

lemma empty_queue_inv: "queue_inv (empty_queue w)"
  by (simp add: queue_inv_def queue_ok_def empty_queue_def)

lemma consume_least:
  assumes "wf_ranges rs" and "\<forall>t\<in>seqs_of rs. s \<le> t"
  shows "seqs_of (consume_sequence s rs) = seqs_of rs - {s}"
proof (cases "rs \<noteq> [] \<and> rg_start (hd rs) = s")
  case True
  then show ?thesis using consume_sequence_spec(2) [OF assms(1)] by simp
next
  case False
  have "s \<notin> seqs_of rs"
  proof
    assume "s \<in> seqs_of rs"
    then obtain r where r: "r \<in> set rs" "rg_start r \<le> s" by (auto simp: seqs_of_def)
    then obtain h t where rs: "rs = h # t" by (cases rs) auto
    note h = wf_ranges_ConsD [OF assms(1) [unfolded rs]]
    have "rg_start h \<in> seqs_of rs" using h unfolding rs by simp
    then have "s \<le> rg_start h" using assms(2) by blast
    moreover have "rg_start h \<noteq> s" using False rs by simp
    ultimately have "unat s < unat (rg_start h)" by (simp add: word_less_nat_alt [symmetric])
    moreover have "unat (rg_start h) \<le> unat (rg_start r)"
    proof (cases "r = h")
      case False
      then have "gap h r" using r(1) h unfolding rs by simp
      moreover have "unat (rg_start h) \<le> unat (rg_end h)" using h by (simp add: word_le_nat_alt)
      ultimately show ?thesis unfolding gap_def by linarith
    qed simp
    ultimately show False using r(2) unfolding word_le_nat_alt by linarith
  qed
  then show ?thesis using consume_sequence_spec(2) [OF assms(1), of s] False by auto
qed

text \<open>A writer that keeps what it is given, and a session without trust or forwarding.\<close>

definition list_recorder :: "event list recorder" where
  "list_recorder required ev w = (w @ [ev], False)"

definition demo_session :: session where
  "demo_session =
     \<lparr>p_agent = ''a'', p_pairing = False, p_run_id = [], p_required = True, p_trust = False,
      p_forward = False, run_active = False, run_stopping = False\<rparr>"

definition demo_late :: "event list queue" where
  "demo_late =
     append_audit demo_session id 0 ''t'' ''deny'' ''unextractable-name'' None []
       (resolve_audit demo_session list_recorder 0 (snd (reserve_sequence (empty_queue []))))"

lemma demo_late_next: "q_next demo_late = 1" and demo_late_rows: "rows_at 0 demo_late \<noteq> []"
  by (simp_all add: demo_late_def append_audit_def resolve_audit_def reserve_sequence_def empty_queue_def demo_session_def
      push_row_def rows_at_def forward_decision_def score_decision_def Let_def flush_audits_def mark_resolved_def
      resolved_count_def flush_sequence_def prune_cards_def seq_resolved_def search_between.simps advance_frontier_def
      consume_sequence_def)

lemma demo_late_run: "\<exists>added. queue_run list_recorder (empty_queue []) added demo_late"
  unfolding demo_late_def
  by (rule exI, rule run_step, rule run_step, rule run_step, rule run_start, rule step_reserve, simp add: empty_queue_def,
      rule step_resolve, simp add: reserve_sequence_def empty_queue_def, rule step_append)
    (simp add: resolve_audit_def reserve_sequence_def empty_queue_def demo_session_def
      Let_def flush_audits_def mark_resolved_def
      resolved_count_def flush_sequence_def prune_cards_def seq_resolved_def search_between.simps advance_frontier_def
      consume_sequence_def)

subsection \<open>Properties\<close>

text \<open>
  C36. The compact ranges stand for a set of sequences: the binary search decides membership, marking adds
  exactly one sequence, consuming removes the first one, and all of them keep the ranges in order and apart.
\<close>

theorem ranges_refine_set:
  assumes "wf_ranges rs"
  shows "(seq_resolved s rs \<longleftrightarrow> s \<in> seqs_of rs)
    \<and> wf_ranges (mark_resolved s rs) \<and> seqs_of (mark_resolved s rs) = insert s (seqs_of rs)
    \<and> wf_ranges (consume_sequence s rs)
    \<and> ((\<forall>t\<in>seqs_of rs. s \<le> t) \<longrightarrow> seqs_of (consume_sequence s rs) = seqs_of rs - {s})"
  using seq_resolved_iff [OF assms] mark_resolved_spec [OF assms] consume_sequence_spec(1) [OF assms]
    consume_least [OF assms] by blast

lemma ranges_refine_set_witness:
  "seq_resolved 1 [\<lparr>rg_start = 1, rg_end = 3\<rparr>, \<lparr>rg_start = 5, rg_end = 5\<rparr>]
   \<and> seqs_of (mark_resolved 4 [\<lparr>rg_start = 1, rg_end = 3\<rparr>, \<lparr>rg_start = 5, rg_end = 5\<rparr>]) = insert 4 ({1..3} \<union> {5..5})
   \<and> seqs_of (consume_sequence 1 [\<lparr>rg_start = 1, rg_end = 3\<rparr>, \<lparr>rg_start = 5, rg_end = 5\<rparr>]) = {1..3} \<union> {5..5} - {1}"
proof -
  have w: "wf_ranges [\<lparr>rg_start = 1, rg_end = 3\<rparr>, \<lparr>rg_start = 5, rg_end = 5\<rparr>]"
    by (simp add: wf_ranges_Cons gap_def)
  have "\<forall>t\<in>{1..3} \<union> {5..5 :: u64}. 1 \<le> t" by (auto simp: word_le_nat_alt)
  then show ?thesis
    using ranges_refine_set [OF w, of 1] ranges_refine_set [OF w, of 4] by simp
qed

text \<open>
  C25. Whatever the order of requests and replies, every audit row queued or written is handed to the writer
  once or still queued, never lost and never written twice.
\<close>

theorem no_row_lost:
  assumes "queue_run rec (empty_queue w) added q"
  shows "\<exists>l. q_writer q = replay_log rec l w
    \<and> mset (map uncard (map snd l)) + mset (map uncard (queued q)) = mset (map uncard added)"
proof -
  have "moves rec (empty_queue w) added q"
    using queue_run_good [OF assms empty_queue_inv] unfolding good_step_def by blast
  then show ?thesis unfolding moves_def by (simp add: queued_def empty_queue_def)
qed

lemma no_row_lost_witness:
  "\<exists>added l. q_writer demo_late = replay_log list_recorder l []
    \<and> mset (map uncard (map snd l)) + mset (map uncard (queued demo_late)) = mset (map uncard added)"
proof -
  obtain added where "queue_run list_recorder (empty_queue []) added demo_late" using demo_late_run by blast
  from no_row_lost [OF this] show ?thesis by blast
qed

text \<open>
  C35. A flush ends at the first unresolved sequence and writes the rows of the resolved ones in request
  order, each stamped with the card in force at its sequence when the flush began.
\<close>

theorem flush_in_request_order:
  assumes "queue_run rec (empty_queue w) added q"
  shows "\<exists>m. (\<forall>k<m. seq_resolved (q_next q + of_nat k) (q_resolved q))
    \<and> q_next (flush_audits ses rec q) = q_next q + of_nat m
    \<and> \<not> seq_resolved (q_next (flush_audits ses rec q)) (q_resolved (flush_audits ses rec q))
    \<and> q_writer (flush_audits ses rec q) =
        replay ses rec (concat (map (\<lambda>k. stamped q (q_next q + of_nat k)) [0..<m])) (q_writer q)"
proof -
  have inv: "queue_inv q" using queue_run_good [OF assms empty_queue_inv] unfolding good_step_def by blast
  note ok = queue_invD(1) [OF inv]
  obtain m where m: "run_of q m" "m \<le> resolved_count (q_resolved q)" "m < 2 ^ 64"
    using run_exists [OF seqs_not_all [OF inv]] by blast
  note f = flush_loop_run [where ses = ses and rec = rec, OF ok m, folded flush_audits_def]
  have w: "wf_ranges (q_resolved q)" "wf_ranges (q_resolved (flush_audits ses rec q))"
    using ok f(1) unfolding queue_ok_def by blast+
  show ?thesis using f(2-4) m(1) unfolding run_of_def seq_resolved_iff [OF w(1)] seq_resolved_iff [OF w(2)] by blast
qed

lemma flush_in_request_order_witness:
  "\<not> seq_resolved (q_next (flush_audits demo_session list_recorder demo_late))
      (q_resolved (flush_audits demo_session list_recorder demo_late))"
proof -
  obtain added where "queue_run list_recorder (empty_queue []) added demo_late" using demo_late_run by blast
  from flush_in_request_order [OF this, of demo_session] show ?thesis by blast
qed

text \<open>
  Rows appended to a sequence below the flush frontier stay queued in every later state: no later step,
  the shutdown drain included, writes them.
\<close>

theorem late_rows_never_written:
  assumes "queue_run rec (empty_queue w) added q" and "s < q_next q" and "queue_run rec q later q'"
  shows "\<exists>t. rows_at s q' = rows_at s q @ t"
proof -
  have "queue_inv q" using queue_run_good [OF assms(1) empty_queue_inv] unfolding good_step_def by blast
  then show ?thesis using queue_run_good [OF assms(3)] assms(2) unfolding good_step_def by blast
qed

lemma late_rows_never_written_witness:
  "\<exists>t. rows_at 0 (drain_audits demo_session list_recorder demo_late) = rows_at 0 demo_late @ t"
proof -
  obtain added where "queue_run list_recorder (empty_queue []) added demo_late" using demo_late_run by blast
  then show ?thesis
    by (rule late_rows_never_written) (simp add: demo_late_next, rule run_step [OF run_start step_drain])
qed

text \<open>
  Pruning the card history leaves at most one card per unsettled sequence and one more, and changes no
  stamp of a sequence that is unsettled or still to come.
\<close>

theorem prune_keeps_stamps:
  assumes "distinct (map fst (q_cards q))"
  shows "length (q_cards (prune_cards q)) \<le> length (q_pending q) + length (q_todo q) + 1
    \<and> (\<forall>s. tracked q s \<longrightarrow> card_at s (q_cards (prune_cards q)) = card_at s (q_cards q))"
  using prune_cards_length [OF assms] prune_cards_card_at [OF assms] by blast

lemma prune_keeps_stamps_witness:
  "card_at 3 (q_cards (prune_cards ((empty_queue ())\<lparr>q_cards := [(2, 7), (0, 4), (1, 5)], q_pending := [3]\<rparr>))) = 7"
proof -
  let ?q = "(empty_queue ())\<lparr>q_cards := [(2, 7), (0, 4), (1, 5)], q_pending := [3]\<rparr>"
  have "distinct (map fst (q_cards ?q))" by simp
  then have "card_at 3 (q_cards (prune_cards ?q)) = card_at 3 (q_cards ?q)"
    using prune_keeps_stamps [of ?q] by (simp add: tracked_def)
  then show ?thesis by (simp add: card_at_def)
qed

end
