(* ===== verification/Message.thy ===== *)
theory Message
  imports AuditEvent
begin

text \<open>
  JSON-RPC messages and their canonical form: \<^verbatim>\<open>internal/jsonrpc/message.go\<close>,
  \<^verbatim>\<open>internal/proxy/canonical.go\<close>, and the message functions of
  \<^verbatim>\<open>internal/proxy/stdio.go\<close> and \<^verbatim>\<open>internal/proxy/required_audit.go\<close>.
  Messages are token trees; how a string of a member that is passed through spells its escapes is not
  represented.
\<close>

subsection \<open>Messages\<close>

record rpc_error =
  re_code :: int
  re_message :: bytes
  re_data :: "json option"

record message =
  m_version :: bytes
  m_id :: "json option"
  m_method :: bytes
  m_params :: "json option"
  m_result :: "json option"
  m_error :: "rpc_error option"

definition zero_message :: message where
  "zero_message =
     \<lparr>m_version = [], m_id = None, m_method = [], m_params = None, m_result = None, m_error = None\<rparr>"

text \<open>The field a member belongs to: the exact name, or else the first equal one up to case.\<close>

definition field_among :: "bytes list \<Rightarrow> bytes \<Rightarrow> bytes option" where
  "field_among names key = (if key \<in> set names then Some key else find (equal_fold key) names)"

definition put_error_member :: "bytes \<Rightarrow> json \<Rightarrow> rpc_error \<Rightarrow> rpc_error option" where
  "put_error_member k v e =
     (case field_among [''code'', ''message'', ''data''] k of
        None \<Rightarrow> Some e
      | Some f \<Rightarrow>
          if f = ''code'' then map_option (\<lambda>x. e\<lparr>re_code := x\<rparr>) (read_int v (re_code e))
          else if f = ''message'' then map_option (\<lambda>x. e\<lparr>re_message := x\<rparr>) (read_str v (re_message e))
          else Some (e\<lparr>re_data := Some v\<rparr>))"

fun put_error_members :: "members \<Rightarrow> rpc_error \<Rightarrow> rpc_error option" where
  "put_error_members [] e = Some e"
| "put_error_members ((k, v) # ms) e = Option.bind (put_error_member k v e) (put_error_members ms)"

text \<open>A pointer field: \<open>null\<close> clears it, an object fills what is there.\<close>

fun read_error :: "json \<Rightarrow> rpc_error option \<Rightarrow> rpc_error option option" where
  "read_error JNull old = Some None"
| "read_error (JObj ms) old =
     map_option Some (put_error_members ms
       (case old of None \<Rightarrow> \<lparr>re_code = 0, re_message = [], re_data = None\<rparr> | Some e \<Rightarrow> e))"
| "read_error _ old = None"

definition message_fields :: "bytes list" where
  "message_fields = [''jsonrpc'', ''id'', ''method'', ''params'', ''result'', ''error'']"

definition put_message_member :: "bytes \<Rightarrow> json \<Rightarrow> message \<Rightarrow> message option" where
  "put_message_member k v m =
     (case field_among message_fields k of
        None \<Rightarrow> Some m
      | Some f \<Rightarrow>
          if f = ''jsonrpc'' then map_option (\<lambda>x. m\<lparr>m_version := x\<rparr>) (read_str v (m_version m))
          else if f = ''id'' then Some (m\<lparr>m_id := Some v\<rparr>)
          else if f = ''method'' then map_option (\<lambda>x. m\<lparr>m_method := x\<rparr>) (read_str v (m_method m))
          else if f = ''params'' then Some (m\<lparr>m_params := Some v\<rparr>)
          else if f = ''result'' then Some (m\<lparr>m_result := Some v\<rparr>)
          else map_option (\<lambda>x. m\<lparr>m_error := x\<rparr>) (read_error v (m_error m)))"

fun put_message_members :: "members \<Rightarrow> message \<Rightarrow> message option" where
  "put_message_members [] m = Some m"
| "put_message_members ((k, v) # ms) m = Option.bind (put_message_member k v m) (put_message_members ms)"

fun message_of_tree :: "json \<Rightarrow> message option" where
  "message_of_tree (JObj ms) = put_message_members ms zero_message"
| "message_of_tree JNull = Some zero_message"
| "message_of_tree _ = None"

definition decode_message :: "bytes \<Rightarrow> message option" where
  "decode_message line = Option.bind (json_parse line) message_of_tree"

definition is_request :: "message \<Rightarrow> bool" where
  "is_request m \<longleftrightarrow> m_method m \<noteq> [] \<and> m_id m \<noteq> None"

definition is_response :: "message \<Rightarrow> bool" where
  "is_response m \<longleftrightarrow> m_method m = [] \<and> m_id m \<noteq> None"

text \<open>\<open>ErrorResponse\<close>: the members that are not empty, in the order of the struct.\<close>

definition error_response :: "json \<Rightarrow> int \<Rightarrow> bytes \<Rightarrow> json" where
  "error_response i code text =
     JObj [(''jsonrpc'', JStr ''2.0''), (''id'', i),
       (''error'', JObj [(''code'', JNum (show_int code)), (''message'', JStr text)])]"

subsection \<open>The canonical message\<close>

datatype canonical_failure = Undecodable | AmbiguousKey | MarshalFailed | DecodeFailed

text \<open>
  The loop over one field. The map is walked in an unspecified order; the outcome does not depend
  on it.
\<close>

fun fold_aliases :: "bytes \<Rightarrow> bool \<Rightarrow> members \<Rightarrow> members \<Rightarrow> members option" where
  "fold_aliases field exact [] obj = Some obj"
| "fold_aliases field exact ((k, v) # ms) obj =
     (if k = field \<or> \<not> equal_fold k field then fold_aliases field exact ms obj
      else if map_of obj field \<noteq> None then
        (if field = ''method'' \<and> exact then fold_aliases field exact ms (del k obj) else None)
      else fold_aliases field exact ms (put field v (del k obj)))"

definition fold_field :: "bytes \<Rightarrow> members \<Rightarrow> members option" where
  "fold_field field obj = fold_aliases field (map_of obj field \<noteq> None) obj obj"

text \<open>Encoding a map of decoded members cannot fail, so \<open>canonicalMessageMarshalFailed\<close> does not arise.\<close>

definition canonicalize_message :: "bytes \<Rightarrow> canonical_failure + (members \<times> json \<times> message)" where
  "canonicalize_message line =
     (case Option.bind (json_parse line) as_map of
        None \<Rightarrow> Inl Undecodable
      | Some None \<Rightarrow> Inr ([], JNull, zero_message)
      | Some (Some obj) \<Rightarrow>
          (case Option.bind (fold_field ''params'' obj) (fold_field ''method'') of
             None \<Rightarrow> Inl AmbiguousKey
           | Some obj' \<Rightarrow>
               (case message_of_tree (JObj obj') of
                  None \<Rightarrow> Inl DecodeFailed
                | Some m \<Rightarrow> Inr (obj', JObj obj', m))))"

definition drop_aliases :: "bytes \<Rightarrow> members \<Rightarrow> members" where
  "drop_aliases field ms = filter (\<lambda>(k, _). k = field \<or> \<not> equal_fold k field) ms"

fun canonical_params :: "json \<Rightarrow> json" where
  "canonical_params (JObj ms) = JObj (drop_aliases ''name'' ms)"
| "canonical_params j = j"

definition canonical_tool_call :: "json option \<Rightarrow> (bytes \<times> json) option" where
  "canonical_tool_call params =
     (case params of
        None \<Rightarrow> None
      | Some j \<Rightarrow>
          (case Option.bind (raw_map j) (\<lambda>m. Option.bind (map_of m ''name'') as_string) of
             None \<Rightarrow> None
           | Some name \<Rightarrow> Some (name, canonical_params (norm j))))"

text \<open>\<open>CanonicalizeForForward\<close>: the bytes to forward, the message and the tool name.\<close>

definition canonicalize_for_forward :: "bytes \<Rightarrow> (json \<times> message \<times> bytes) option" where
  "canonicalize_for_forward line =
     (case canonicalize_message line of
        Inl _ \<Rightarrow> None
      | Inr (obj, tree, m) \<Rightarrow>
          if m_method m \<noteq> ''tools/call'' then Some (tree, m, [])
          else (case canonical_tool_call (m_params m) of
                  None \<Rightarrow> None
                | Some (name, params) \<Rightarrow>
                    if name = [] then None
                    else Some (JObj (put ''params'' params obj), m\<lparr>m_params := Some params\<rparr>, name)))"

subsection \<open>Identifiers and responses\<close>

definition ids_equal :: "json option \<Rightarrow> json option \<Rightarrow> bool" where
  "ids_equal a b = (case (a, b) of (Some x, Some y) \<Rightarrow> norm x = norm y | _ \<Rightarrow> False)"

definition cancellation_request_id :: "message \<Rightarrow> json option" where
  "cancellation_request_id m =
     (if m_method m \<noteq> ''notifications/cancelled'' then None
      else Option.bind (Option.bind (m_params m) raw_map) (\<lambda>ms. map_of ms ''requestId''))"

fun is_int :: "json \<Rightarrow> bool" where
  "is_int (JNum s) = (parse_int64 s \<noteq> None)"
| "is_int _ = False"

fun is_string :: "json \<Rightarrow> bool" where
  "is_string (JStr s) = True"
| "is_string _ = False"

definition valid_rpc_error :: "json \<Rightarrow> bool" where
  "valid_rpc_error raw =
     (case raw_map raw of
        None \<Rightarrow> False
      | Some ms \<Rightarrow>
          (case map_of ms ''code'' of None \<Rightarrow> False | Some c \<Rightarrow> is_int c)
          \<and> (case map_of ms ''message'' of None \<Rightarrow> False | Some t \<Rightarrow> is_string t))"

definition valid_response_for :: "json \<Rightarrow> bytes \<Rightarrow> bool" where
  "valid_response_for request_id response =
     (case Option.bind (json_parse response) raw_map of
        None \<Rightarrow> False
      | Some ms \<Rightarrow>
          Option.bind (map_of ms ''jsonrpc'') as_string = Some ''2.0''
          \<and> ids_equal (Some request_id) (map_of ms ''id'')
          \<and> map_of ms ''method'' = None
          \<and> (map_of ms ''result'' = None) \<noteq> (map_of ms ''error'' = None)
          \<and> (case map_of ms ''error'' of None \<Rightarrow> True | Some e \<Rightarrow> valid_rpc_error e))"

text \<open>\<open>validToolResponse\<close>: the request is decoded first.\<close>

definition valid_tool_response :: "bytes \<Rightarrow> bytes \<Rightarrow> bool" where
  "valid_tool_response request response =
     (case decode_message request of
        None \<Rightarrow> False
      | Some m \<Rightarrow> (case m_id m of None \<Rightarrow> False | Some i \<Rightarrow> valid_response_for i response))"

definition action_response_details :: "bytes \<Rightarrow> bytes \<times> bool option" where
  "action_response_details line =
     (case Option.bind (json_parse line) raw_map of
        None \<Rightarrow> ([], None)
      | Some ms \<Rightarrow>
          if map_of ms ''error'' \<noteq> None then (''jsonrpc_error'', None)
          else (''jsonrpc_result'',
            case Option.bind (Option.bind (map_of ms ''result'') raw_map) (\<lambda>r. map_of r ''isError'') of
              Some (JBool b) \<Rightarrow> Some b
            | _ \<Rightarrow> None))"

text \<open>
  \<open>actionResponseKeyFold\<close>: keys that differ in case only have one form. \<open>fold_min\<close> gives the
  lowest rune of a simple-fold cycle (the tables of the package \<open>unicode\<close>).
\<close>

definition response_key_fold :: "(nat \<Rightarrow> nat) \<Rightarrow> bytes \<Rightarrow> bytes" where
  "response_key_fold fold_min key =
     (if list_all (\<lambda>c. (of_char c :: nat) < 128) key then to_upper key
      else concat (map (\<lambda>r. encode_rune (fold_min r)) (runes key)))"

fun last_member :: "bytes \<Rightarrow> members \<Rightarrow> json option" where
  "last_member field [] = None"
| "last_member field ((k, v) # ms) =
     (case last_member field ms of Some w \<Rightarrow> Some w | None \<Rightarrow> if equal_fold k field then Some v else None)"

text \<open>
  \<open>invalidActionResponseID\<close>: the id of a line that looks like a response, and whether it is not
  a valid one. The line is read token by token, so duplicate members are seen. \<open>undecoded\<close> tells
  that \<open>Decode\<close> failed.
\<close>

definition response_id :: "(nat \<Rightarrow> nat) \<Rightarrow> bytes \<Rightarrow> bool \<Rightarrow> (json \<times> bool) option" where
  "response_id fold_min line undecoded =
     (case json_parse line of
        Some (JObj ms) \<Rightarrow>
          (let has = (\<lambda>f. last_member f ms \<noteq> None) in
           if has ''method'' \<and> \<not> has ''result'' \<and> \<not> has ''error'' then None
           else (case last_member ''id'' ms of
               None \<Rightarrow> None
             | Some i \<Rightarrow>
                 Some (i, undecoded \<or> has ''method''
                   \<or> \<not> distinct (map (\<lambda>(k, _). response_key_fold fold_min k) ms)
                   \<or> Option.bind (last_member ''jsonrpc'' ms) as_string \<noteq> Some ''2.0''
                   \<or> has ''result'' = has ''error''
                   \<or> (case last_member ''error'' ms of None \<Rightarrow> False | Some e \<Rightarrow> \<not> valid_rpc_error e))))
      | _ \<Rightarrow> None)"

subsection \<open>One reading\<close>

text \<open>
  A member that every reader finds, whether it takes the first or the last match and whether or not it
  folds case.
\<close>

definition sole :: "bytes \<Rightarrow> members \<Rightarrow> json \<Rightarrow> bool" where
  "sole field ms v \<longleftrightarrow> filter (\<lambda>(k, _). equal_fold k field) ms = [(field, v)]"

definition no_alias :: "bytes \<Rightarrow> members \<Rightarrow> bool" where
  "no_alias field ms \<longleftrightarrow> (\<forall>k\<in>fst ` set ms. equal_fold k field \<longrightarrow> k = field)"

lemma filter_key_sole: "distinct (map fst ms) \<Longrightarrow> map_of ms k = Some v \<Longrightarrow> filter (\<lambda>x. fst x = k) ms = [(k, v)]"
proof (induction ms)
  case (Cons x ms)
  show ?case
  proof (cases "fst x = k")
    case True
    then have "k \<notin> fst ` set ms" using Cons.prems(1) by (simp only: list.map distinct.simps set_map not_False_eq_True)
    then have "filter (\<lambda>x. fst x = k) ms = []" by (auto simp: filter_empty_conv)
    then show ?thesis using True Cons.prems(2) by (cases x) simp
  next
    case False
    then show ?thesis using Cons by (cases x) simp
  qed
qed simp

lemma soleI:
  assumes "canonical_map ms" and "no_alias field ms" and "map_of ms field = Some v"
  shows "sole field ms v"
proof -
  have "filter (\<lambda>(k, _). equal_fold k field) ms = filter (\<lambda>x. fst x = field) ms"
    by (rule filter_cong) (use assms(2) in \<open>auto simp: no_alias_def\<close>)
  then show ?thesis
    unfolding sole_def using filter_key_sole [OF canonical_distinct [OF assms(1)] assms(3)] by simp
qed

text \<open>The loop over one field.\<close>

lemma fold_aliases_spec:
  assumes "fold_aliases field exact ms obj = Some obj'" and "canonical_map obj"
    and "\<forall>k\<in>fst ` set obj. equal_fold k field \<longrightarrow> k = field \<or> k \<in> fst ` set ms"
  shows "canonical_map obj' \<and> no_alias field obj' \<and> (\<forall>k. \<not> equal_fold k field \<longrightarrow> map_of obj' k = map_of obj k)
    \<and> (map_of obj field \<noteq> None \<longrightarrow> map_of obj' field = map_of obj field)"
  using assms
proof (induction ms arbitrary: obj)
  case Nil
  then show ?case by (auto simp: no_alias_def)
next
  case (Cons x ms)
  obtain k v where x: "x = (k, v)" by (cases x)
  have set_del: "fst ` set (del k obj) = fst ` set obj - {k}" by (auto simp: del_def)
  consider (skip) "k = field \<or> \<not> equal_fold k field"
    | (drop) "\<not> (k = field \<or> \<not> equal_fold k field)" "map_of obj field \<noteq> None" "field = ''method'' \<and> exact"
    | (bad) "\<not> (k = field \<or> \<not> equal_fold k field)" "map_of obj field \<noteq> None" "\<not> (field = ''method'' \<and> exact)"
    | (move) "\<not> (k = field \<or> \<not> equal_fold k field)" "map_of obj field = None"
    by blast
  then show ?case
  proof cases
    case skip
    have "fold_aliases field exact ms obj = Some obj'" using Cons.prems(1) skip x by (simp only: fold_aliases.simps if_True)
    moreover have "\<forall>k\<in>fst ` set obj. equal_fold k field \<longrightarrow> k = field \<or> k \<in> fst ` set ms"
      using Cons.prems(3) skip x by fastforce
    ultimately show ?thesis using Cons.IH Cons.prems(2) by blast
  next
    case drop
    have e: "fold_aliases field exact ms (del k obj) = Some obj'"
      using Cons.prems(1) drop x by (simp only: fold_aliases.simps if_True if_False simp_thms)
    have "\<forall>j\<in>fst ` set (del k obj). equal_fold j field \<longrightarrow> j = field \<or> j \<in> fst ` set ms"
      using Cons.prems(3) x unfolding set_del by fastforce
    then have IH: "canonical_map obj' \<and> no_alias field obj' \<and> (\<forall>j. \<not> equal_fold j field \<longrightarrow> map_of obj' j = map_of (del k obj) j)
        \<and> (map_of (del k obj) field \<noteq> None \<longrightarrow> map_of obj' field = map_of (del k obj) field)"
      using Cons.IH [OF e canonical_del [OF Cons.prems(2)]] by blast
    have "map_of (del k obj) j = map_of obj j" if "\<not> equal_fold j field \<or> j = field" for j
      using drop(1) that by (auto simp: map_of_del)
    then show ?thesis using IH drop(2) by simp
  next
    case bad
    then have "fold_aliases field exact (x # ms) obj = None" unfolding x by (simp only: fold_aliases.simps if_True if_False simp_thms)
    then show ?thesis using Cons.prems(1) by simp
  next
    case move
    let ?o = "put field v (del k obj)"
    have e: "fold_aliases field exact ms ?o = Some obj'"
      using Cons.prems(1) move x by (simp only: fold_aliases.simps if_False simp_thms)
    have "\<forall>j\<in>fst ` set ?o. equal_fold j field \<longrightarrow> j = field \<or> j \<in> fst ` set ms"
      using Cons.prems(3) x unfolding set_fst_put set_del by fastforce
    then have IH: "canonical_map obj' \<and> no_alias field obj' \<and> (\<forall>j. \<not> equal_fold j field \<longrightarrow> map_of obj' j = map_of ?o j)"
      using Cons.IH [OF e canonical_put [OF canonical_del [OF Cons.prems(2)]]] by blast
    have "map_of ?o j = map_of obj j" if "\<not> equal_fold j field" for j
      using move(1) that by (auto simp: map_of_del)
    then show ?thesis using IH move(2) by simp
  qed
qed

lemma fold_field_spec:
  assumes "fold_field field obj = Some obj'" and "canonical_map obj"
  shows "canonical_map obj'" "no_alias field obj'" "\<not> equal_fold k field \<Longrightarrow> map_of obj' k = map_of obj k"
  using fold_aliases_spec [OF assms(1) [unfolded fold_field_def] assms(2)] by blast+

lemma no_alias_other:
  assumes "no_alias g obj" and "\<And>k. \<not> equal_fold k f \<Longrightarrow> map_of obj' k = map_of obj k" and "\<And>k. equal_fold k g \<Longrightarrow> \<not> equal_fold k f"
  shows "no_alias g obj'"
proof -
  have "k = g" if k: "k \<in> fst ` set obj'" "equal_fold k g" for k
  proof -
    have "map_of obj k \<noteq> None" using assms(2) [OF assms(3) [OF k(2)]] k(1) by (metis map_of_eq_None_iff)
    then have "k \<in> fst ` set obj" by (simp add: map_of_eq_None_iff)
    then show ?thesis using assms(1) k(2) unfolding no_alias_def by blast
  qed
  then show ?thesis unfolding no_alias_def by blast
qed

lemma runes_ascii: "\<forall>c\<in>set s. (of_char c :: nat) < 128 \<Longrightarrow> runes s = map of_char s"
  by (induction s) (auto simp: runes_Cons_ascii)

lemma fold_names_differ:
  "equal_fold k ''params'' \<Longrightarrow> \<not> equal_fold k ''method''"
  by (simp add: equal_fold_def runes_ascii fold_rune_def)

lemma canonicalize_message_spec:
  assumes "canonicalize_message line = Inr (obj, tree, m)"
  shows "canonical_map obj" "no_alias ''method'' obj" "no_alias ''params'' obj"
    "message_of_tree tree = Some m" "tree = JObj obj \<or> (tree = JNull \<and> obj = [])"
proof -
  have "canonical_map obj \<and> no_alias ''method'' obj \<and> no_alias ''params'' obj \<and> message_of_tree tree = Some m
    \<and> (tree = JObj obj \<or> (tree = JNull \<and> obj = []))"
  proof (cases "Option.bind (json_parse line) as_map")
    case (Some mo)
    show ?thesis
    proof (cases mo)
      case None
      then have "obj = []" "tree = JNull" "m = zero_message"
        using assms Some by (simp_all add: canonicalize_message_def)
      then show ?thesis by (simp add: no_alias_def)
    next
      case (Some top)
      then have top: "Option.bind (json_parse line) as_map = Some (Some top)" using \<open>_ = Some mo\<close> by simp
      then obtain j where "as_map j = Some (Some top)" by (cases "json_parse line") auto
      then have c: "canonical_map top" by (cases j) auto
      obtain t1 where t1: "fold_field ''params'' top = Some t1" "fold_field ''method'' t1 = Some obj"
          "message_of_tree (JObj obj) = Some m" "tree = JObj obj"
        using assms top unfolding canonicalize_message_def
        by (auto split: option.splits bind_splits simp del: message_of_tree.simps)
      note p = fold_field_spec [OF t1(1) c]
      note q = fold_field_spec [OF t1(2) p(1)]
      have "no_alias ''params'' obj" by (rule no_alias_other [OF p(2) q(3) fold_names_differ])
      then show ?thesis using q t1 by blast
    qed
  qed (use assms in \<open>simp add: canonicalize_message_def\<close>)
  then show "canonical_map obj" "no_alias ''method'' obj" "no_alias ''params'' obj"
    "message_of_tree tree = Some m" "tree = JObj obj \<or> (tree = JNull \<and> obj = [])" by blast+
qed

text \<open>What the decoded message says of its method and its parameters.\<close>

lemma field_among_fold: "field_among names k = Some f \<Longrightarrow> equal_fold k f \<and> f \<in> set names"
proof (cases "k \<in> set names")
  case False
  assume "field_among names k = Some f"
  then have "find (equal_fold k) names = Some f" using False by (simp add: field_among_def)
  then show ?thesis by (auto simp: find_Some_iff in_set_conv_nth)
qed (simp add: field_among_def)

lemma put_member_method:
  assumes "put_message_member k v m = Some m'"
  shows "m_method m' = (if field_among message_fields k = Some ''method'' then the (read_str v (m_method m)) else m_method m)"
    "m_params m' = (if field_among message_fields k = Some ''params'' then Some v else m_params m)"
    "field_among message_fields k = Some ''method'' \<Longrightarrow> read_str v (m_method m) \<noteq> None"
  using assms unfolding put_message_member_def by (auto split: option.splits if_splits)

lemma message_members:
  assumes "put_message_members ms m = Some m'" and "distinct (map fst ms)"
    and "no_alias ''method'' ms" and "no_alias ''params'' ms"
  shows "m_method m' = (case map_of ms ''method'' of None \<Rightarrow> m_method m | Some v \<Rightarrow> the (read_str v (m_method m)))
    \<and> (\<forall>v. map_of ms ''method'' = Some v \<longrightarrow> read_str v (m_method m) \<noteq> None)
    \<and> m_params m' = (case map_of ms ''params'' of None \<Rightarrow> m_params m | Some v \<Rightarrow> Some v)"
  using assms
proof (induction ms arbitrary: m)
  case (Cons x ms)
  obtain k v where x: "x = (k, v)" by (cases x)
  obtain m1 where m1: "put_message_member k v m = Some m1" "put_message_members ms m1 = Some m'"
    using Cons.prems(1) x by (auto split: bind_splits)
  have a: "no_alias ''method'' ms" "no_alias ''params'' ms"
    using Cons.prems(3,4) by (auto simp: no_alias_def)
  have d: "distinct (map fst ms)" "k \<notin> fst ` set ms" using Cons.prems(2) x by (simp_all only: list.map distinct.simps set_map fst_conv simp_thms)
  have f: "field_among message_fields k = Some g \<longleftrightarrow> k = g" if "g = ''method'' \<or> g = ''params''" for g
  proof
    assume "field_among message_fields k = Some g"
    then have "equal_fold k g" using field_among_fold by blast
    then show "k = g" using Cons.prems(3,4) x that unfolding no_alias_def by auto
  next
    assume "k = g"
    then show "field_among message_fields k = Some g" using that by (auto simp: field_among_def message_fields_def)
  qed
  note p = put_member_method [OF m1(1)]
  note IH = Cons.IH [OF m1(2) d(1) a]
  have none: "map_of ms k = None" using d(2) by (simp only: map_of_eq_None_iff not_False_eq_True)
  consider "k = ''method''" | "k = ''params''" | "k \<noteq> ''method''" "k \<noteq> ''params''" by blast
  then show ?case
  proof cases
    case 1
    then show ?thesis using IH p f none x by (simp split: option.split)
  next
    case 2
    then show ?thesis using IH p f none x by (simp split: option.split)
  next
    case 3
    then show ?thesis using IH p f x by (simp split: option.split)
  qed
qed simp

lemma message_of_canonical:
  assumes "canonicalize_message line = Inr (obj, tree, m)" and "m_method m \<noteq> []"
  shows "tree = JObj obj" "sole ''method'' obj (JStr (m_method m))" "m_params m = map_of obj ''params''"
proof -
  note c = canonicalize_message_spec [OF assms(1)]
  show tree: "tree = JObj obj" using c(4,5) assms(2) by (auto simp: zero_message_def)
  then have "put_message_members obj zero_message = Some m" using c(4) by simp
  note mm = message_members [OF this canonical_distinct [OF c(1)] c(2,3)]
  show "m_params m = map_of obj ''params''" using mm by (cases "map_of obj ''params''") (simp_all add: zero_message_def)
  obtain v where v: "map_of obj ''method'' = Some v" "m_method m = the (read_str v [])"
    using mm assms(2) by (cases "map_of obj ''method''") (auto simp: zero_message_def)
  have "read_str v [] \<noteq> None" using mm v(1) by (simp add: zero_message_def)
  then have "v = JStr (m_method m)" using v(2) assms(2) by (cases v) auto
  then show "sole ''method'' obj (JStr (m_method m))" using soleI [OF c(1,2)] v(1) by simp
qed

text \<open>What the canonical parameters say of the tool.\<close>

lemma drop_aliases_no_alias: "no_alias field (drop_aliases field ms)"
  by (auto simp: no_alias_def drop_aliases_def)

lemma canonical_drop_aliases: "canonical_map ms \<Longrightarrow> canonical_map (drop_aliases field ms)"
  by (induction ms) (auto simp: drop_aliases_def)

lemma map_of_drop_aliases: "map_of (drop_aliases field ms) field = map_of ms field"
  by (induction ms) (auto simp: drop_aliases_def)

lemma as_string_norm: "as_string (norm j) = as_string j"
  by (cases j) simp_all

lemma canonical_tool_call_spec:
  assumes "canonical_tool_call params = Some (name, p)"
  shows "\<exists>ps. p = JObj ps \<and> canonical_map ps \<and> no_alias ''name'' ps \<and> normal p
    \<and> Option.bind (map_of ps ''name'') as_string = Some name"
proof -
  obtain j where j: "params = Some j" "Option.bind (raw_map j) (\<lambda>m. Option.bind (map_of m ''name'') as_string) = Some name"
      "p = canonical_params (norm j)"
    using assms by (auto simp: canonical_tool_call_def split: option.splits)
  then obtain ms where ms: "j = JObj ms" by (cases j) (auto simp: raw_map_def)
  let ?n = "collect (map (\<lambda>(k, v). (k, norm v)) ms)"
  have p: "p = JObj (drop_aliases ''name'' ?n)" using j(3) ms by simp
  have c: "canonical_map (drop_aliases ''name'' ?n)" by (rule canonical_drop_aliases) simp
  have nn: "normal (JObj ?n)" using normal_norm [of "JObj ms"] by simp
  then have n: "normal p" unfolding p using c by (auto simp: list_all_iff drop_aliases_def)
  have "map_of ?n ''name'' = map_option norm (map_of (collect ms) ''name'')"
    unfolding collect_map by (simp add: map_of_map)
  then have "Option.bind (map_of ?n ''name'') as_string = Some name"
    using j(2) ms by (cases "map_of (collect ms) ''name''") (simp_all add: raw_map_def as_string_norm del: map_of_collect)
  then show ?thesis using p c n drop_aliases_no_alias [of "''name''" ?n] by (simp add: map_of_drop_aliases)
qed

text \<open>
  A call that every reader takes for the same tool: one method, one set of parameters, one name, and no
  object of the parameters has a member twice.
\<close>

definition names_one_tool :: "bytes \<Rightarrow> json \<Rightarrow> bool" where
  "names_one_tool name tree \<longleftrightarrow>
     (\<exists>obj ps. tree = JObj obj \<and> sole ''method'' obj (JStr ''tools/call'') \<and> sole ''params'' obj (JObj ps)
       \<and> sole ''name'' ps (JStr name) \<and> normal (JObj ps))"

lemma no_alias_put: "no_alias f obj \<Longrightarrow> (equal_fold k f \<longrightarrow> k = f) \<Longrightarrow> no_alias f (put k v obj)"
  by (auto simp: no_alias_def)

lemma names_one_toolI:
  assumes "canonicalize_message line = Inr (obj, tree, m)" and "m_method m = ''tools/call''"
    and "canonical_map ps" and "no_alias ''name'' ps" and "map_of ps ''name'' = Some (JStr name)" and "normal (JObj ps)"
  shows "names_one_tool name (JObj (put ''params'' (JObj ps) obj))"
proof -
  let ?o = "put ''params'' (JObj ps) obj"
  note c = canonicalize_message_spec [OF assms(1)]
  have m: "m_method m \<noteq> []" using assms(2) by simp
  note s = message_of_canonical [OF assms(1) m]
  have "(''method'', JStr ''tools/call'') \<in> set (filter (\<lambda>(k, _). equal_fold k ''method'') obj)"
    using s(2) assms(2) unfolding sole_def by simp
  then have "(''method'', JStr ''tools/call'') \<in> set obj" by simp
  then have "map_of obj ''method'' = Some (JStr ''tools/call'')"
    using canonical_distinct [OF c(1)] by (simp add: map_of_is_SomeI)
  then have meth: "map_of ?o ''method'' = Some (JStr ''tools/call'')" by simp
  have nm: "no_alias ''method'' ?o"
    by (rule no_alias_put [OF c(2)]) (use fold_names_differ [of "''params''"] in auto)
  have np: "no_alias ''params'' ?o" by (rule no_alias_put [OF c(3)]) simp
  have co: "canonical_map ?o" by (rule canonical_put [OF c(1)])
  have "sole ''method'' ?o (JStr ''tools/call'')" by (rule soleI [OF co nm meth])
  moreover have "sole ''params'' ?o (JObj ps)" by (rule soleI [OF co np]) simp
  moreover have "sole ''name'' ps (JStr name)" by (rule soleI [OF assms(3-5)])
  ultimately show ?thesis using assms(6) unfolding names_one_tool_def by blast
qed

text \<open>
  C19. A tools/call canonicalized for forwarding names one tool: whichever way a reader resolves duplicate
  or differently cased members, it sees the method, the parameters and the tool name the gate returned.
\<close>

theorem forwarded_call_names_one_tool:
  assumes "canonicalize_for_forward line = Some (tree, m, name)" and "m_method m = ''tools/call''"
  shows "name \<noteq> [] \<and> names_one_tool name tree"
proof -
  obtain obj tree0 m0 where c: "canonicalize_message line = Inr (obj, tree0, m0)"
    using assms(1) by (auto simp: canonicalize_for_forward_def split: sum.splits)
  have m0: "m_method m0 = ''tools/call''"
    using assms c by (auto simp: canonicalize_for_forward_def split: if_splits option.splits)
  then obtain params where p: "canonical_tool_call (m_params m0) = Some (name, params)" "name \<noteq> []"
      "tree = JObj (put ''params'' params obj)"
    using assms(1) c by (auto simp: canonicalize_for_forward_def split: option.splits if_splits)
  obtain ps where ps: "params = JObj ps" "canonical_map ps" "no_alias ''name'' ps" "normal params"
      "Option.bind (map_of ps ''name'') as_string = Some name"
    using canonical_tool_call_spec [OF p(1)] by blast
  obtain v where v: "map_of ps ''name'' = Some v" "as_string v = Some name"
    using ps(5) by (cases "map_of ps ''name''") auto
  then have "map_of ps ''name'' = Some (JStr name)" using p(2) by (cases v) auto
  then show ?thesis
    using names_one_toolI [OF c m0 ps(2,3)] ps(1,4) p(2,3) by simp
qed

text \<open>A call with a shadow name, a shadow method and a duplicated member.\<close>

definition demo_shadow_call :: json where
  "demo_shadow_call =
     JObj [(''METHOD'', JStr ''x''), (''method'', JStr ''tools/call''),
       (''Params'', JObj [(''name'', JStr ''a''), (''Name'', JStr ''b''), (''name'', JStr ''c'')]), (''id'', JNum ''1'')]"

lemma demo_shadow_parse: "json_parse (json_print demo_shadow_call) = Some demo_shadow_call"
  by (rule json_roundtrip)
    (simp_all add: demo_shadow_call_def coerce_utf8_ascii valid_number_def scan_number_def is_digit_def max_nesting_def)

lemma demo_shadow_forward:
  "canonicalize_for_forward (json_print demo_shadow_call) =
     Some (JObj [(''id'', JNum ''1''), (''method'', JStr ''tools/call''), (''params'', JObj [(''name'', JStr ''c'')])],
       zero_message\<lparr>m_id := Some (JNum ''1''), m_method := ''tools/call'', m_params := Some (JObj [(''name'', JStr ''c'')])\<rparr>, ''c'')"
proof -
  have ef [simp]: "equal_fold s t \<longleftrightarrow> map fold_rune (map of_char s) = map fold_rune (map of_char t)"
    if "\<forall>c\<in>set s. (of_char c :: nat) < 128" "\<forall>c\<in>set t. (of_char c :: nat) < 128" for s t
    using that by (simp add: equal_fold_def runes_ascii)
  show ?thesis
    unfolding canonicalize_for_forward_def canonicalize_message_def demo_shadow_parse
    by (simp add: demo_shadow_call_def collect_def fold_field_def del_def fold_rune_def field_among_def message_fields_def
      put_message_member_def zero_message_def canonical_tool_call_def raw_map_def drop_aliases_def)
qed

lemma forwarded_call_names_one_tool_witness:
  "names_one_tool ''c'' (JObj [(''id'', JNum ''1''), (''method'', JStr ''tools/call''), (''params'', JObj [(''name'', JStr ''c'')])])"
  using forwarded_call_names_one_tool [OF demo_shadow_forward] by simp

end
