(* ===== verification/Glob.thy ===== *)
theory Glob
  imports Utf8
begin

text \<open>
  Go's \<open>path.Match\<close>, which decides every tool pattern of a policy: chunks between stars,
  character classes with ranges, \<open>?\<close>, escapes, and the rule that a star or a question
  mark never crosses a slash. \<^const>\<open>None\<close> stands for \<open>ErrBadPattern\<close>.
  The lemmas show that a pattern is malformed independently of the name it is matched
  against, which is what makes the load-time check of a policy sufficient.
\<close>

subsection \<open>Definitions\<close>

fun scan_body :: "bool \<Rightarrow> bytes \<Rightarrow> bytes \<times> bytes" where
  "scan_body inr [] = ([], [])"
| "scan_body inr (c # s) =
     (if c = CHR 0x5C then
        (case s of
           [] \<Rightarrow> ([c], [])
         | d # t \<Rightarrow> (case scan_body inr t of (a, b) \<Rightarrow> (c # d # a, b)))
      else if c = CHR ''['' then (case scan_body True s of (a, b) \<Rightarrow> (c # a, b))
      else if c = CHR '']'' then (case scan_body False s of (a, b) \<Rightarrow> (c # a, b))
      else if c = CHR ''*'' \<and> \<not> inr then ([], c # s)
      else (case scan_body inr s of (a, b) \<Rightarrow> (c # a, b)))"

definition scan_chunk :: "bytes \<Rightarrow> bool \<times> bytes \<times> bytes" where
  "scan_chunk p =
     (let q = dropWhile (\<lambda>c. c = CHR ''*'') p; (chunk, rest) = scan_body False q
      in (q \<noteq> p, chunk, rest))"

definition get_esc :: "bytes \<Rightarrow> (nat \<times> bytes) option" where
  "get_esc chunk =
     (case chunk of
        [] \<Rightarrow> None
      | c # t \<Rightarrow>
          if c = CHR ''-'' \<or> c = CHR '']'' then None
          else
            (let s = (if c = CHR 0x5C then t else chunk) in
             if s = [] then None
             else (case decode_rune s of (r, n) \<Rightarrow>
               if r = rune_error \<and> n = 1 then None
               else if drop n s = [] then None
               else Some (r, drop n s))))"

lemma get_esc_shorter: "get_esc chunk = Some (r, rest) \<Longrightarrow> length rest < length chunk"
proof (cases chunk)
  case (Cons c t)
  assume g: "get_esc chunk = Some (r, rest)"
  define s where "s = (if c = CHR 0x5C then t else chunk)"
  from g Cons have "s \<noteq> []" and r: "rest = drop (snd (decode_rune s)) s"
    by (auto simp: get_esc_def s_def Let_def split: if_splits prod.splits)
  then have "length rest < length s"
    using decode_rune_size_pos [of s] by simp
  moreover have "length s \<le> length chunk"
    using Cons by (simp add: s_def)
  ultimately show ?thesis by simp
qed (simp add: get_esc_def)

function parse_ranges :: "nat \<Rightarrow> bool \<Rightarrow> bool \<Rightarrow> bytes \<Rightarrow> (bool \<times> bytes) option" where
  "parse_ranges r m some chunk =
     (if some \<and> chunk \<noteq> [] \<and> hd chunk = CHR '']'' then Some (m, tl chunk)
      else
        (case get_esc chunk of
           None \<Rightarrow> None
         | Some (lo, c1) \<Rightarrow>
             if hd c1 = CHR ''-'' then
               (case get_esc (tl c1) of
                  None \<Rightarrow> None
                | Some (hi, c2) \<Rightarrow> parse_ranges r (m \<or> lo \<le> r \<and> r \<le> hi) True c2)
             else parse_ranges r (m \<or> lo \<le> r \<and> r \<le> lo) True c1))"
  by pat_completeness auto
termination
proof (relation "measure (\<lambda>(r, m, some, chunk). length chunk)", goal_cases)
  case (2 r m some chunk p lo c1 q hi c2)
  then have "length c1 < length chunk" "length c2 < length (tl c1)"
    by (auto dest: get_esc_shorter)
  then show ?case by simp
qed (auto dest: get_esc_shorter)

declare parse_ranges.simps [simp del]

lemma parse_ranges_shorter:
  "parse_ranges r m some chunk = Some (m', rest) \<Longrightarrow> length rest < length chunk"
proof (induction r m some chunk rule: parse_ranges.induct)
  case (1 r m some chunk)
  show ?case
  proof (cases "some \<and> chunk \<noteq> [] \<and> hd chunk = CHR '']''")
    case True
    then have "parse_ranges r m some chunk = Some (m, tl chunk)"
      by (subst parse_ranges.simps) simp
    then show ?thesis
      using "1.prems" True by (cases chunk) auto
  next
    case False
    with "1.prems" obtain lo c1 where g: "get_esc chunk = Some (lo, c1)"
      by (auto simp: parse_ranges.simps [of r m some chunk] split: option.splits if_splits)
    note l1 = get_esc_shorter [OF g]
    show ?thesis
    proof (cases "hd c1 = CHR ''-''")
      case True
      with "1.prems" False g obtain hi c2 where h: "get_esc (tl c1) = Some (hi, c2)"
        and p: "parse_ranges r (m \<or> lo \<le> r \<and> r \<le> hi) True c2 = Some (m', rest)"
        by (auto simp: parse_ranges.simps [of r m some chunk] split: option.splits if_splits)
      have "length rest < length c2"
        using "1.IH"(1) [OF False g _ True h _ p] by simp
      then show ?thesis using l1 get_esc_shorter [OF h] by simp
    next
      case no: False
      with "1.prems" False g
      have p: "parse_ranges r (m \<or> lo \<le> r \<and> r \<le> lo) True c1 = Some (m', rest)"
        by (auto simp: parse_ranges.simps [of r m some chunk])
      have "length rest < length c1"
        using "1.IH"(2) [OF False g _ no p] by simp
      then show ?thesis using l1 by simp
    qed
  qed
qed

datatype chunk_result = BadPattern | NoMatch | Rest bytes

definition split_negation :: "bytes \<Rightarrow> bool \<times> bytes" where
  "split_negation ch =
     (case ch of c # t \<Rightarrow> if c = CHR ''^'' then (True, t) else (False, ch) | [] \<Rightarrow> (False, ch))"

lemma split_negation_length: "length (snd (split_negation ch)) \<le> length ch"
  by (auto simp: split_negation_def split: list.splits)

function match_chunk :: "bool \<Rightarrow> bytes \<Rightarrow> bytes \<Rightarrow> chunk_result" where
  "match_chunk failed [] s = (if failed then NoMatch else Rest s)"
| "match_chunk failed (c # chunk) s =
     (let f = (failed \<or> s = []); (r, n) = (if f then (0, 0) else decode_rune s) in
      if c = CHR ''['' then
        (case parse_ranges r False False (snd (split_negation chunk)) of
           None \<Rightarrow> BadPattern
         | Some (m, ch) \<Rightarrow> match_chunk (f \<or> m = fst (split_negation chunk)) ch (drop n s))
      else if c = CHR ''?'' then
        match_chunk (f \<or> hd s = CHR ''/'') chunk (drop n s)
      else if c = CHR 0x5C then
        (case chunk of
           [] \<Rightarrow> BadPattern
         | d # ch \<Rightarrow> match_chunk (f \<or> d \<noteq> hd s) ch (if f then s else tl s))
      else match_chunk (f \<or> c \<noteq> hd s) chunk (if f then s else tl s))"
  by pat_completeness auto
termination
proof (relation "measure (\<lambda>(failed, chunk, s). length chunk)", goal_cases)
  case (2 failed c chunk s f p r n q m ch)
  then have "length ch < length (snd (split_negation chunk))"
    by (auto dest: parse_ranges_shorter)
  also have "\<dots> \<le> length chunk" by (rule split_negation_length)
  finally show ?case by simp
qed auto

declare match_chunk.simps(2) [simp del]

fun star_search :: "bytes \<Rightarrow> bytes \<Rightarrow> bytes \<Rightarrow> chunk_result" where
  "star_search chunk rest [] = NoMatch"
| "star_search chunk rest (c # name) =
     (if c = CHR ''/'' then NoMatch
      else (case match_chunk False chunk name of
          BadPattern \<Rightarrow> BadPattern
        | NoMatch \<Rightarrow> star_search chunk rest name
        | Rest t \<Rightarrow> if rest = [] \<and> t \<noteq> [] then star_search chunk rest name else Rest t))"

lemma scan_body_append: "scan_body inr s = (a, b) \<Longrightarrow> s = a @ b"
  by (induction inr s arbitrary: a b rule: scan_body.induct)
    (auto split: if_splits list.splits prod.splits)

lemma scan_body_nonempty:
  "scan_body False s = (a, b) \<Longrightarrow> s \<noteq> [] \<Longrightarrow> hd s \<noteq> CHR ''*'' \<Longrightarrow> a \<noteq> []"
  by (cases s) (auto split: if_splits list.splits prod.splits)

lemma scan_chunk_shorter:
  assumes "scan_chunk p = (star, chunk, rest)" and "p \<noteq> []"
  shows "length rest < length p"
proof -
  define q where "q = dropWhile (\<lambda>c. c = CHR ''*'') p"
  have sb: "scan_body False q = (chunk, rest)" and star: "star = (q \<noteq> p)"
    using assms(1) by (auto simp: scan_chunk_def q_def Let_def split: prod.splits)
  have len: "length rest \<le> length q"
    using scan_body_append [OF sb] by simp
  show ?thesis
  proof (cases "q = p")
    case True
    then have "hd p \<noteq> CHR ''*''"
      using assms(2) by (metis dropWhile_eq_self_iff q_def)
    then have "chunk \<noteq> []"
      using scan_body_nonempty [OF sb] True assms(2) by simp
    then show ?thesis using scan_body_append [OF sb] True by simp
  next
    case False
    then have "length q < length p"
      by (metis (no_types) append_eq_append_conv append_self_conv2 le_neq_implies_less
          length_dropWhile_le q_def takeWhile_dropWhile_id)
    then show ?thesis using len by simp
  qed
qed

function tail_check :: "bytes \<Rightarrow> bool option" where
  "tail_check p =
     (if p = [] then Some False
      else (case scan_chunk p of (star, chunk, rest) \<Rightarrow>
        if match_chunk False chunk [] = BadPattern then None else tail_check rest))"
  by pat_completeness auto
termination
  by (relation "measure length") (simp_all add: prod_eq_iff scan_chunk_shorter)

function path_match :: "bytes \<Rightarrow> bytes \<Rightarrow> bool option" where
  "path_match p name =
     (if p = [] then Some (name = [])
      else (case scan_chunk p of (star, chunk, rest) \<Rightarrow>
        if star \<and> chunk = [] then Some (CHR ''/'' \<notin> set name)
        else
          (case match_chunk False chunk name of
             BadPattern \<Rightarrow> None
           | NoMatch \<Rightarrow>
               (if star then (case star_search chunk rest name of
                    BadPattern \<Rightarrow> None
                  | Rest t \<Rightarrow> path_match rest t
                  | NoMatch \<Rightarrow> tail_check rest)
                else tail_check rest)
           | Rest t \<Rightarrow>
               if t = [] \<or> rest \<noteq> [] then path_match rest t
               else if star then (case star_search chunk rest name of
                    BadPattern \<Rightarrow> None
                  | Rest t' \<Rightarrow> path_match rest t'
                  | NoMatch \<Rightarrow> tail_check rest)
                else tail_check rest)))"
  by pat_completeness auto
termination
  by (relation "measure (\<lambda>(p, name). length p)")
    (simp_all add: prod_eq_iff scan_chunk_shorter)

declare tail_check.simps [simp del] path_match.simps [simp del]

subsection \<open>Malformedness does not depend on the name\<close>

lemma parse_ranges_rest:
  "map_option snd (parse_ranges r m some chunk) = map_option snd (parse_ranges r' m' some chunk)"
proof (induction r m some chunk arbitrary: m' rule: parse_ranges.induct)
  case (1 r m some chunk)
  show ?case
    unfolding parse_ranges.simps [of r m some chunk] parse_ranges.simps [of r' m' some chunk]
    using 1 by (auto split: option.split)
qed

lemma match_chunk_bad_iff:
  "match_chunk f chunk s = BadPattern \<longleftrightarrow> match_chunk f' chunk s' = BadPattern"
proof (induction "length chunk" arbitrary: chunk f f' s s' rule: less_induct)
  case less
  show ?case
  proof (cases chunk)
    case (Cons c ch)
    have IH: "match_chunk g d t = BadPattern \<longleftrightarrow> match_chunk g' d t' = BadPattern"
      if "length d \<le> length ch" for d g g' t t'
      using less that Cons by simp
    let ?sn = "snd (split_negation ch)"
    have shorter: "length d \<le> length ch" if "parse_ranges r m b ?sn = Some (k, d)" for r m b k d
      using parse_ranges_shorter [OF that] split_negation_length [of ch] by simp
    have ranges: "parse_ranges r False False ?sn = None \<and> parse_ranges r' False False ?sn = None
        \<or> (\<exists>m m' d. parse_ranges r False False ?sn = Some (m, d)
              \<and> parse_ranges r' False False ?sn = Some (m', d))" for r r'
      using parse_ranges_rest [of r False False ?sn r' False]
      by (cases "parse_ranges r False False ?sn"; cases "parse_ranges r' False False ?sn") auto
    obtain r n where rn: "(if f \<or> s = [] then (0, 0) else decode_rune s) = (r, n)"
      by (metis surj_pair)
    obtain r' n' where rn': "(if f' \<or> s' = [] then (0, 0) else decode_rune s') = (r', n')"
      by (metis surj_pair)
    note unf = match_chunk.simps(2) Let_def rn rn' prod.case
    consider "c = CHR ''[''" | "c = CHR ''?''" | "c = CHR 0x5C"
      | "c \<noteq> CHR ''[''" "c \<noteq> CHR ''?''" "c \<noteq> CHR 0x5C" by blast
    then show ?thesis
    proof cases
      case 1
      from ranges [of r r'] show ?thesis
      proof (elim disjE exE conjE)
        fix m m' d
        assume "parse_ranges r False False ?sn = Some (m, d)"
          and "parse_ranges r' False False ?sn = Some (m', d)"
        then show ?thesis
          unfolding Cons unf using 1 IH [OF shorter] by simp
      qed (unfold Cons unf, use 1 in simp)
    next
      case 2
      show ?thesis unfolding Cons unf using 2 IH [of ch] by simp
    next
      case 3
      show ?thesis
      proof (cases ch)
        case (Cons e d)
        then show ?thesis
          unfolding \<open>chunk = c # ch\<close> unf using 3 IH [of d] by simp
      qed (unfold \<open>chunk = c # ch\<close> unf, use 3 in simp)
    next
      case 4
      show ?thesis unfolding Cons unf using 4 IH [of ch] by simp
    qed
  qed simp
qed

text \<open>Some chunk of the pattern is malformed.\<close>

function pattern_bad :: "bytes \<Rightarrow> bool" where
  "pattern_bad p =
     (if p = [] then False
      else (case scan_chunk p of (star, chunk, rest) \<Rightarrow>
        if match_chunk False chunk [] = BadPattern then True else pattern_bad rest))"
  by pat_completeness auto
termination
  by (relation "measure length") (simp_all add: prod_eq_iff scan_chunk_shorter)

declare pattern_bad.simps [simp del]

lemma tail_check_None: "tail_check p = None \<longleftrightarrow> pattern_bad p"
proof (induction p rule: tail_check.induct)
  case (1 p)
  then show ?case
    by (subst tail_check.simps, subst pattern_bad.simps) (auto split: prod.splits)
qed

lemma tail_check_cases: "tail_check p = None \<or> tail_check p = Some False"
proof (induction p rule: tail_check.induct)
  case (1 p)
  then show ?case
    by (subst (1 2) tail_check.simps) (auto split: prod.splits)
qed

lemma star_search_bad:
  "star_search chunk rest name = BadPattern \<Longrightarrow> match_chunk False chunk [] = BadPattern"
proof (induction name)
  case (Cons c name)
  then show ?case
    using match_chunk_bad_iff [of False chunk name False "[]"]
    by (auto split: if_splits chunk_result.splits)
qed simp

lemma path_match_None: "path_match p name = None \<Longrightarrow> pattern_bad p"
proof (induction p name rule: path_match.induct)
  case (1 p name)
  obtain star chunk rest where sc: "scan_chunk p = (star, chunk, rest)"
    by (metis surj_pair)
  from "1.prems" have ne: "p \<noteq> []" by (auto simp: path_match.simps [of p name])
  show ?case
  proof (cases "match_chunk False chunk [] = BadPattern")
    case False
    then have good: "match_chunk False chunk name \<noteq> BadPattern"
        "star_search chunk rest name \<noteq> BadPattern"
      using match_chunk_bad_iff star_search_bad by blast+
    have "pattern_bad rest"
      using "1.prems" "1.IH" sc ne good
      by (auto simp: path_match.simps [of p name] tail_check_None
          split: if_splits chunk_result.splits)
    then show ?thesis
      using ne sc by (subst pattern_bad.simps) simp
  qed (use ne sc in \<open>subst pattern_bad.simps, simp\<close>)
qed

lemma match_chunk_empty_name: "chunk \<noteq> [] \<Longrightarrow> match_chunk False chunk [] \<noteq> Rest t"
proof -
  have failed: "match_chunk True chunk s \<noteq> Rest t" for s t
    by (induction True chunk s rule: match_chunk.induct)
      (auto simp: match_chunk.simps(2) Let_def split: option.splits list.splits prod.splits)
  assume "chunk \<noteq> []"
  then show ?thesis
    using failed
    by (cases chunk) (auto simp: match_chunk.simps(2) Let_def split: option.splits list.splits)
qed

lemma scan_chunk_star_empty:
  "scan_chunk p = (star, [], rest) \<Longrightarrow> rest = []"
proof -
  assume sc: "scan_chunk p = (star, [], rest)"
  define q where "q = dropWhile (\<lambda>c. c = CHR ''*'') p"
  have sb: "scan_body False q = ([], rest)"
    using sc by (auto simp: scan_chunk_def q_def Let_def split: prod.splits)
  have "q = []"
  proof (rule ccontr)
    assume "q \<noteq> []"
    then have "hd q \<noteq> CHR ''*''"
      by (metis (mono_tags) hd_dropWhile q_def)
    then show False
      using scan_body_nonempty [OF sb \<open>q \<noteq> []\<close>] by simp
  qed
  then show ?thesis using sb by simp
qed

lemma path_match_empty_name:
  assumes "pattern_bad p"
  shows "path_match p [] = None"
proof -
  obtain star chunk rest where sc: "scan_chunk p = (star, chunk, rest)"
    by (metis surj_pair)
  from assms have ne: "p \<noteq> []"
    and bad: "match_chunk False chunk [] = BadPattern \<or> pattern_bad rest"
    using sc by (auto simp: pattern_bad.simps [of p] split: if_splits)
  have chunk: "chunk \<noteq> []"
    using bad sc scan_chunk_star_empty [of p star rest] by (auto simp: pattern_bad.simps [of "[]"])
  have "match_chunk False chunk [] = BadPattern \<or> match_chunk False chunk [] = NoMatch"
    using match_chunk_empty_name [OF chunk] by (cases "match_chunk False chunk []") auto
  then show ?thesis
    using ne sc chunk bad tail_check_None by (auto simp: path_match.simps [of p])
qed

text \<open>The load-time check against the empty name decides malformedness for every name.\<close>

lemma path_match_malformed: "path_match p name = None \<Longrightarrow> path_match p [] = None"
  by (rule path_match_empty_name) (rule path_match_None)

subsection \<open>What simple patterns match\<close>

definition plain_byte :: "char \<Rightarrow> bool" where
  "plain_byte c \<longleftrightarrow> c \<notin> {CHR ''*'', CHR ''?'', CHR ''['', CHR '']'', CHR 0x5C}"

lemma scan_body_plain:
  "list_all plain_byte p \<Longrightarrow> scan_body False (p @ q) =
     (case scan_body False q of (a, b) \<Rightarrow> (p @ a, b))"
  by (induction p) (auto simp: plain_byte_def split: prod.splits)

lemma match_chunk_failed_plain:
  "list_all plain_byte p \<Longrightarrow> match_chunk True p s = NoMatch"
  by (induction p arbitrary: s) (auto simp: match_chunk.simps(2) plain_byte_def)

lemma match_chunk_plain:
  "list_all plain_byte p \<Longrightarrow>
   match_chunk False p s = (if has_prefix s p then Rest (drop (length p) s) else NoMatch)"
proof (induction p arbitrary: s)
  case (Cons c p)
  note prems = Cons.IH Cons.prems
  have F: "match_chunk True p t = NoMatch" for t
    using Cons.prems match_chunk_failed_plain by simp
  have c: "c \<notin> {CHR ''*'', CHR ''?'', CHR ''['', CHR '']'', CHR 0x5C}"
    using Cons.prems by (simp add: plain_byte_def)
  show ?case
  proof (cases s)
    case Nil
    then show ?thesis using c F by (simp add: match_chunk.simps(2) has_prefix_def)
  next
    case (Cons a t)
    have IH: "match_chunk False p t = (if has_prefix t p then Rest (drop (length p) t) else NoMatch)"
      using prems by simp
    show ?thesis
      using c F IH Cons
      by (cases "c = a") (auto simp: match_chunk.simps(2) has_prefix_def split: prod.splits)
  qed
qed simp

lemma scan_chunk_plain:
  "list_all plain_byte p \<Longrightarrow> p \<noteq> [] \<Longrightarrow> scan_chunk p = (False, p, [])"
  "list_all plain_byte p \<Longrightarrow> p \<noteq> [] \<Longrightarrow> scan_chunk (p @ ''*'') = (False, p, ''*'')"
  using scan_body_plain [of p "[]"] scan_body_plain [of p "''*''"]
  by (cases p; simp add: scan_chunk_def plain_byte_def)+

lemma path_match_plain:
  assumes "list_all plain_byte p"
  shows "path_match p name = Some (name = p)"
proof (cases "p = []")
  case False
  then show ?thesis
    using scan_chunk_plain(1) [OF assms False] match_chunk_plain [OF assms, of name]
    by (auto simp: path_match.simps [of p] path_match.simps [of "[]"] tail_check.simps [of "[]"]
        has_prefix_iff)
qed (simp add: path_match.simps)

lemma path_match_star: "path_match ''*'' name = Some (CHR ''/'' \<notin> set name)"
  by (simp add: path_match.simps [of "''*''"] scan_chunk_def)

lemma path_match_plain_star:
  assumes "list_all plain_byte p"
  shows "path_match (p @ ''*'') name =
    Some (has_prefix name p \<and> CHR ''/'' \<notin> set (drop (length p) name))"
proof (cases "p = []")
  case False
  then show ?thesis
    using scan_chunk_plain(2) [OF assms False] match_chunk_plain [OF assms, of name]
    by (auto simp: path_match.simps [of "p @ ''*''"] path_match_star tail_check.simps
        match_chunk.simps scan_chunk_def)
qed (simp add: path_match_star)

end
