(* ===== verification/RateLimit.thy ===== *)
theory RateLimit
  imports Prelude
begin

text \<open>
  \<^verbatim>\<open>internal/ratelimit/ratelimit.go\<close>: the sliding-window rate limit and the session spend cap.
  Instants and durations are integers (nanoseconds). A limiter that is \<^const>\<open>None\<close> is the
  code's nil limiter. The dynamic cap \<open>maxCallsFunc\<close> is read once per call, so \<open>allow\<close>
  takes its value as an argument; the clock reading is an argument as well.
\<close>

subsection \<open>State and operations\<close>

record limit_config =
  max_calls :: int
  window :: int
  spend_cap :: int

record limiter =
  cfg :: limit_config
  times :: "int list"
  total :: int

definition new_limiter :: "limit_config \<Rightarrow> limiter" where
  "new_limiter c = \<lparr>cfg = c, times = [], total = 0\<rparr>"

fun limiter_enabled :: "limiter option \<Rightarrow> bool" where
  "limiter_enabled None = False"
| "limiter_enabled (Some l) = (max_calls (cfg l) > 0 \<or> spend_cap (cfg l) > 0)"

text \<open>The loop of \<open>prune\<close>: drop the leading stamps that are not after the cutoff.\<close>

fun prune_times :: "int \<Rightarrow> int list \<Rightarrow> int list" where
  "prune_times cutoff [] = []"
| "prune_times cutoff (t # ts) = (if \<not> t > cutoff then prune_times cutoff ts else t # ts)"

definition prune :: "limiter \<Rightarrow> int \<Rightarrow> limiter" where
  "prune l now = l\<lparr>times := prune_times (now - window (cfg l)) (times l)\<rparr>"

definition allow :: "(int \<Rightarrow> int) option \<Rightarrow> int \<Rightarrow> limiter \<Rightarrow> (string \<times> bool) \<times> limiter" where
  "allow fn now l =
     (if \<not> limiter_enabled (Some l) then (('''', True), l)
      else if spend_cap (cfg l) > 0 \<and> total l \<ge> spend_cap (cfg l) then ((''spend-cap'', False), l)
      else
        (let m = (case fn of None \<Rightarrow> max_calls (cfg l) | Some f \<Rightarrow> f (max_calls (cfg l))) in
         if m > 0 then
           (let l1 = prune l now in
            if int (length (times l1)) \<ge> m then ((''rate'', False), l1)
            else (('''', True), l1\<lparr>times := times l1 @ [now], total := total l1 + 1\<rparr>))
         else (('''', True), l\<lparr>total := total l + 1\<rparr>)))"

text \<open>A session: the calls in order, each with its clock reading and dynamic cap.\<close>

fun allow_run ::
  "((int \<Rightarrow> int) option \<times> int) list \<Rightarrow> limiter \<Rightarrow> (string \<times> bool) list \<times> limiter" where
  "allow_run [] l = ([], l)"
| "allow_run ((fn, now) # cs) l =
     (let (r, l1) = allow fn now l; (rs, l2) = allow_run cs l1 in (r # rs, l2))"

subsection \<open>One call\<close>

lemma prune_cfg [simp]: "cfg (prune l now) = cfg l" "total (prune l now) = total l"
  by (simp_all add: prune_def)

lemma allow_cfg: "allow fn now l = (r, l') \<Longrightarrow> cfg l' = cfg l"
  by (auto simp: allow_def Let_def split: if_splits)

text \<open>A refused call consumes no budget: the count stays and no stamp is added.\<close>

lemma allow_refused:
  assumes "allow fn now l = ((why, False), l')"
  shows "total l' = total l \<and> set (times l') \<subseteq> set (times l) \<and> why \<in> {''spend-cap'', ''rate''}"
proof -
  have sub: "set (prune_times c ts) \<subseteq> set ts" for c ts
    by (induction ts) auto
  show ?thesis
    using assms
    by (auto simp: allow_def prune_def Let_def split: if_splits dest: subsetD [OF sub])
qed

lemma allow_total:
  assumes "allow fn now l = (r, l')" and "limiter_enabled (Some l)"
  shows "total l' = total l + (if snd r then 1 else 0)"
  using assms by (auto simp: allow_def Let_def split: if_splits)

subsection \<open>The spend cap over a session\<close>

lemma allow_run_total:
  assumes "allow_run cs l = (rs, l')" and "limiter_enabled (Some l)"
  shows "total l' = total l + int (length (filter snd rs)) \<and> cfg l' = cfg l"
  using assms
proof (induction cs arbitrary: l rs l')
  case (Cons c cs)
  obtain fn now where c: "c = (fn, now)" by (cases c)
  obtain r l1 where s: "allow fn now l = (r, l1)" by (cases "allow fn now l")
  obtain rs' l2 where rest: "allow_run cs l1 = (rs', l2)" by (cases "allow_run cs l1")
  note cfg1 = allow_cfg [OF s]
  have "limiter_enabled (Some l1)" using Cons.prems(2) cfg1 by simp
  from Cons.IH [OF rest this] show ?case
    using Cons.prems c s rest cfg1 allow_total [OF s Cons.prems(2)] by auto
qed auto

lemma allow_spend_bound:
  assumes "allow fn now l = (r, l')" and "spend_cap (cfg l) > 0" and "total l \<le> spend_cap (cfg l)"
  shows "total l' \<le> spend_cap (cfg l)"
  using assms by (auto simp: allow_def Let_def split: if_splits)

lemma allow_run_spend_bound:
  assumes "allow_run cs l = (rs, l')" and "spend_cap (cfg l) > 0" and "total l \<le> spend_cap (cfg l)"
  shows "total l' \<le> spend_cap (cfg l)"
  using assms
proof (induction cs arbitrary: l rs l')
  case (Cons c cs)
  obtain fn now where c: "c = (fn, now)" by (cases c)
  obtain r l1 where s: "allow fn now l = (r, l1)" by (cases "allow fn now l")
  obtain rs' l2 where rest: "allow_run cs l1 = (rs', l2)" by (cases "allow_run cs l1")
  show ?case
    using Cons.IH [OF rest] allow_spend_bound [OF s Cons.prems(2,3)] allow_cfg [OF s] Cons.prems c s rest
    by simp
qed auto

subsection \<open>The sliding window over a session\<close>

text \<open>The stamps of the calls a session let through, in order.\<close>

fun admitted :: "((int \<Rightarrow> int) option \<times> int) list \<Rightarrow> (string \<times> bool) list \<Rightarrow> int list" where
  "admitted ((fn, now) # cs) ((why, ok) # rs) = (if ok then now # admitted cs rs else admitted cs rs)"
| "admitted _ _ = []"

lemma prune_times_filter: "sorted ts \<Longrightarrow> prune_times c ts = filter (\<lambda>t. c < t) ts"
proof (induction ts)
  case (Cons t ts)
  show ?case
  proof (cases "c < t")
    case True
    then have "\<forall>x\<in>set (t # ts). c < x" using Cons.prems by auto
    then have "filter (\<lambda>t. c < t) (t # ts) = t # ts" by (intro filter_True)
    then show ?thesis using True by simp
  next
    case False
    then show ?thesis using Cons by simp
  qed
qed simp

text \<open>Every admitted call has at most \<open>m\<close> admitted calls in the window that ends at it.\<close>

definition window_ok :: "int \<Rightarrow> int \<Rightarrow> int list \<Rightarrow> bool" where
  "window_ok w m h \<longleftrightarrow>
     (\<forall>p e s. h = p @ e # s \<longrightarrow> int (length (filter (\<lambda>t. e - w < t) (p @ [e]))) \<le> m)"

lemma window_ok_Nil: "window_ok w m []"
  by (simp add: window_ok_def)

lemma window_ok_snoc:
  assumes "window_ok w m h" and "int (length (filter (\<lambda>t. now - w < t) (h @ [now]))) \<le> m"
  shows "window_ok w m (h @ [now])"
  unfolding window_ok_def
proof (intro allI impI)
  fix p e s
  assume eq: "h @ [now] = p @ e # s"
  show "int (length (filter (\<lambda>t. e - w < t) (p @ [e]))) \<le> m"
  proof (cases s rule: rev_cases)
    case Nil
    then show ?thesis using eq assms(2) by simp
  next
    case (snoc s' x)
    then have "h = p @ e # s'" using eq by simp
    then show ?thesis using assms(1) by (auto simp: window_ok_def)
  qed
qed

lemma window_ok_any:
  assumes "window_ok w m h" and "sorted h" and "0 \<le> m"
  shows "int (length (filter (\<lambda>x. t - w < x \<and> x \<le> t) h)) \<le> m"
proof -
  let ?in = "\<lambda>x. t - w < x \<and> x \<le> t"
  show ?thesis
  proof (cases "filter ?in h = []")
    case False
    then obtain x where x: "x \<in> set h" "?in x" by (auto simp: filter_empty_conv)
    then obtain p e s where h: "h = p @ e # s" and e: "?in e" and s: "\<forall>y\<in>set s. \<not> ?in y"
      using split_list_last_prop [of h ?in] by blast
    have "length (filter ?in h) = length (filter ?in (p @ [e]))"
      using h s by (simp add: filter_empty_conv)
    also have "\<dots> \<le> length (filter (\<lambda>y. e - w < y) (p @ [e]))"
      using e by (intro length_filter_mono) auto
    finally have "length (filter ?in h) \<le> length (filter (\<lambda>y. e - w < y) (p @ [e]))" .
    moreover have "int (length (filter (\<lambda>y. e - w < y) (p @ [e]))) \<le> m"
      using assms(1) h unfolding window_ok_def by blast
    ultimately show ?thesis by linarith
  qed (use assms(3) in simp)
qed

text \<open>
  The invariant of a session with a static cap: the kept stamps are the admitted stamps
  newer than some cutoff that no later call looks behind.
\<close>

text \<open>The cap a call is judged by: the configured one, or what the dynamic cap makes of it.\<close>

definition cap_in_force :: "limit_config \<Rightarrow> (int \<Rightarrow> int) option \<Rightarrow> int" where
  "cap_in_force c fn = (case fn of None \<Rightarrow> max_calls c | Some f \<Rightarrow> f (max_calls c))"

definition window_inv :: "int \<Rightarrow> limiter \<Rightarrow> int list \<Rightarrow> int \<Rightarrow> bool" where
  "window_inv M l h c \<longleftrightarrow>
     sorted h \<and> (\<forall>x\<in>set h. x \<le> c) \<and> window_ok (window (cfg l)) M h
     \<and> (\<exists>d\<le>c - window (cfg l). times l = filter (\<lambda>t. d < t) h)"

lemma window_inv_new: "window_inv M (new_limiter k) [] c"
  by (auto simp: window_inv_def new_limiter_def window_ok_Nil)

lemma window_inv_allow:
  assumes inv: "window_inv M l h c" and en: "limiter_enabled (Some l)" and w: "window (cfg l) > 0"
    and m: "0 < cap_in_force (cfg l) fn" "cap_in_force (cfg l) fn \<le> M"
    and now: "c \<le> now" and s: "allow fn now l = ((why, ok), l')"
  shows "window_inv M l' (if ok then h @ [now] else h) now"
proof -
  let ?W = "window (cfg l)" and ?m = "cap_in_force (cfg l) fn"
  have al: "allow fn now l = (if spend_cap (cfg l) > 0 \<and> total l \<ge> spend_cap (cfg l) then ((''spend-cap'', False), l)
      else if int (length (times (prune l now))) \<ge> ?m then ((''rate'', False), prune l now)
      else (('''', True), (prune l now)\<lparr>times := times (prune l now) @ [now], total := total (prune l now) + 1\<rparr>))"
    using en m(1) by (simp add: allow_def cap_in_force_def Let_def del: limiter_enabled.simps)
  obtain d where d: "d \<le> c - ?W" "times l = filter (\<lambda>t. d < t) h" and srt: "sorted h"
    and le: "\<forall>x\<in>set h. x \<le> c" and ok_h: "window_ok ?W M h"
    using inv by (auto simp: window_inv_def)
  have srt_t: "sorted (times l)" using d(2) srt by (simp add: sorted_wrt_filter)
  have pr: "times (prune l now) = filter (\<lambda>t. now - ?W < t) h"
  proof -
    have "times (prune l now) = filter (\<lambda>t. now - ?W < t) (times l)"
      by (simp add: prune_def prune_times_filter [OF srt_t])
    also have "\<dots> = filter (\<lambda>t. now - ?W < t) h"
      using d now by (auto intro!: filter_cong)
    finally show ?thesis .
  qed
  have keep: "window_inv M l h now"
    unfolding window_inv_def
    using srt le now ok_h d by (auto intro!: exI [of _ d] intro: order_trans)
  show ?thesis
  proof (cases "spend_cap (cfg l) > 0 \<and> total l \<ge> spend_cap (cfg l)")
    case True
    then have "l' = l" "\<not> ok" using s by (simp_all add: al)
    then show ?thesis using keep by simp
  next
    case False
    show ?thesis
    proof (cases "int (length (times (prune l now))) \<ge> ?m")
      case True
      then have "l' = prune l now" "\<not> ok"
        using s False by (simp_all add: al)
      then show ?thesis using srt le now ok_h pr by (auto simp: window_inv_def)
    next
      case lt: False
      then have l': "times l' = times (prune l now) @ [now]" "cfg l' = cfg l" and ok: ok
        using s False by (auto simp: al prune_def)
      have "window_ok ?W M (h @ [now])"
        using lt pr w m(2) by (intro window_ok_snoc [OF ok_h]) simp
      moreover have "times l' = filter (\<lambda>t. now - ?W < t) (h @ [now])"
        using l' pr w by simp
      moreover have "sorted (h @ [now])" "\<forall>x\<in>set (h @ [now]). x \<le> now"
        using srt le now by (auto simp: sorted_append intro: order_trans)
      ultimately have "window_inv M l' (h @ [now]) now"
        unfolding window_inv_def l'(2) by blast
      then show ?thesis using ok by simp
    qed
  qed
qed

lemma window_inv_run:
  assumes "window_inv M l h c" and "limiter_enabled (Some l)" and "window (cfg l) > 0" and "sorted (c # map snd cs)"
    and "\<forall>x\<in>set cs. 0 < cap_in_force (cfg l) (fst x) \<and> cap_in_force (cfg l) (fst x) \<le> M" and "allow_run cs l = (rs, l')"
  shows "window_ok (window (cfg l)) M (h @ admitted cs rs) \<and> sorted (h @ admitted cs rs)"
  using assms
proof (induction cs arbitrary: l h c rs l')
  case Nil
  then show ?case by (auto simp: window_inv_def)
next
  case (Cons x cs)
  obtain fn now where x: "x = (fn, now)" by (cases x)
  obtain why ok l1 where s: "allow fn now l = ((why, ok), l1)"
    by (metis surj_pair)
  obtain rs' l2 where rest: "allow_run cs l1 = (rs', l2)" by (cases "allow_run cs l1")
  have rs: "rs = (why, ok) # rs'" using Cons.prems(6) x s rest by simp
  have "c \<le> now" and srt: "sorted (now # map snd cs)" using Cons.prems(4) x by auto
  moreover have "0 < cap_in_force (cfg l) fn" "cap_in_force (cfg l) fn \<le> M" using Cons.prems(5) x by auto
  ultimately have step: "window_inv M l1 (if ok then h @ [now] else h) now"
    using window_inv_allow [OF Cons.prems(1-3) _ _ _ s] by blast
  have IH: "window_ok (window (cfg l1)) M ((if ok then h @ [now] else h) @ admitted cs rs')
    \<and> sorted ((if ok then h @ [now] else h) @ admitted cs rs')"
    by (rule Cons.IH [OF step _ _ srt _ rest])
      (use Cons.prems allow_cfg [OF s] in auto)
  then show ?case using allow_cfg [OF s] rs x by (cases ok) auto
qed

subsection \<open>Properties\<close>

text \<open>
  C32. In a session whose limiter has a positive window and whose clock never goes backwards, every half-open window
  \<open>(t - window, t]\<close> contains at most \<open>M\<close> admitted calls, whatever the calls and wherever the window is placed, if every
  cap in force was positive and at most \<open>M\<close>. Without a dynamic cap \<open>M\<close> is \<open>max_calls\<close>; with the caps that the
  behavioural trust computes it is twice \<open>max_calls\<close>, since they lie between 1 and that.
\<close>

theorem rate_limit_window_bound:
  assumes "limiter_enabled (Some (new_limiter c))" and "window c > 0" and "sorted (map snd calls)"
    and "\<forall>x\<in>set calls. 0 < cap_in_force c (fst x) \<and> cap_in_force c (fst x) \<le> M" and "0 \<le> M"
    and "allow_run calls (new_limiter c) = (rs, l')"
  shows "int (length (filter (\<lambda>x. t - window c < x \<and> x \<le> t) (admitted calls rs))) \<le> M"
proof -
  let ?start = "case calls of [] \<Rightarrow> 0 | x # _ \<Rightarrow> snd x"
  have "sorted (?start # map snd calls)"
    using assms(3) by (cases calls) auto
  then have "window_ok (window c) M ([] @ admitted calls rs) \<and> sorted ([] @ admitted calls rs)"
    using window_inv_run [OF window_inv_new [of M c ?start], of calls rs l'] assms
    by (simp add: new_limiter_def)
  then show ?thesis
    using window_ok_any [of "window c" M "admitted calls rs" t] assms(5) by simp
qed

definition demo_calls :: "((int \<Rightarrow> int) option \<times> int) list" where
  "demo_calls = [(None, 1), (None, 2), (Some ((*) 2), 5), (None, 12)]"

theorem rate_limit_window_bound_witness:
  "length (filter (\<lambda>x. (5::int) - 10 < x \<and> x \<le> 5)
     (admitted demo_calls (fst (allow_run demo_calls (new_limiter \<lparr>max_calls = 2, window = 10, spend_cap = 0\<rparr>))))) = 3
   \<and> int (length (filter (\<lambda>x. (5::int) - 10 < x \<and> x \<le> 5)
     (admitted demo_calls (fst (allow_run demo_calls (new_limiter \<lparr>max_calls = 2, window = 10, spend_cap = 0\<rparr>)))))) \<le> 4"
  using rate_limit_window_bound [of "\<lparr>max_calls = 2, window = 10, spend_cap = 0\<rparr>" demo_calls 4 _ _ 5, OF _ _ _ _ _ surjective_pairing]
  by (simp add: demo_calls_def cap_in_force_def allow_def prune_def new_limiter_def)

text \<open>
  C33. The spend cap is a hard ceiling: with \<open>spend_cap > 0\<close>, whatever the dynamic rate
  caps and clock readings, a session admits at most \<open>spend_cap\<close> calls, and the limiter's
  count is exactly the number of admitted calls, so refused calls consume nothing.
\<close>

theorem spend_cap_hard_ceiling:
  assumes "spend_cap c > 0" and "allow_run calls (new_limiter c) = (rs, l')"
  shows "int (length (filter snd rs)) \<le> spend_cap c \<and> total l' = int (length (filter snd rs))"
proof -
  have en: "limiter_enabled (Some (new_limiter c))" using assms(1) by (simp add: new_limiter_def)
  have "total l' = int (length (filter snd rs))"
    using allow_run_total [OF assms(2) en] by (simp add: new_limiter_def)
  moreover have "total l' \<le> spend_cap c"
    using allow_run_spend_bound [OF assms(2)] assms(1) by (simp add: new_limiter_def)
  ultimately show ?thesis by simp
qed

theorem spend_cap_hard_ceiling_witness:
  "fst (allow_run [(None, 1), (Some (\<lambda>n. 2 * n), 2), (None, 3)]
     (new_limiter \<lparr>max_calls = 5, window = 10, spend_cap = 2\<rparr>))
     = [('''', True), ('''', True), (''spend-cap'', False)]
   \<and> int (length (filter snd (fst (allow_run [(None, 1), (Some (\<lambda>n. 2 * n), 2), (None, 3)]
     (new_limiter \<lparr>max_calls = 5, window = 10, spend_cap = 2\<rparr>))))) \<le> 2"
  using spend_cap_hard_ceiling [of "\<lparr>max_calls = 5, window = 10, spend_cap = 2\<rparr>"
      "[(None, 1), (Some (\<lambda>n. 2 * n), 2), (None, 3)]", OF _ surjective_pairing]
  by (simp add: allow_def prune_def new_limiter_def)

end
