(* ===== verification/Policy.thy ===== *)
theory Policy
  imports Glob RateLimit Validate Trust
begin

text \<open>
  \<^verbatim>\<open>internal/policy/policy.go\<close>: the policy file's data, its validation at load time, and
  the policy engine. A Go map is the list of its entries in the order in which the code ranges
  over it. YAML decoding is the work of \<^verbatim>\<open>gopkg.in/yaml.v3\<close>: \<open>load_from\<close>
  starts from its result, \<^const>\<open>None\<close> when it failed. \<open>time.ParseDuration\<close> is
  the parameter \<open>pd\<close>. Reasons are values; the code renders them with \<open>%q\<close>.
\<close>

subsection \<open>Configuration\<close>

record tool_pin =
  hash_version :: bytes
  sha256_hex :: bytes

record rate_limit_policy =
  rl_max_calls :: int
  rl_window :: bytes

record spend_cap_policy =
  sc_max_calls :: int

record inject_rule =
  tools :: "bytes list"
  ref :: bytes
  arg :: bytes
  template :: bytes

record trust_policy =
  tp_enabled :: bool
  tp_path :: bytes

record forward_policy =
  fwd_enabled :: bool
  fwd_url :: bytes
  api_key_env :: bytes

record audit_policy =
  audit_enabled :: bool
  audit_path :: bytes
  action_pairing :: bool
  sign_key_env :: bytes
  sign_ed25519_key_env :: bytes
  forward_to :: "forward_policy option"

record agent_policy =
  tool_pins :: "(bytes \<times> (bytes \<times> tool_pin) list) list"
  strict_pins :: bool
  deny_methods :: "bytes list"
  allow_rules :: "bytes list"
  deny_rules :: "bytes list"
  shadow_rules :: "bytes list"
  ask_rules :: "bytes list"
  fail_mode :: bytes
  mode :: bytes
  validate_input :: "bytes list"
  block_params :: "bytes list"
  rate_limit :: "rate_limit_policy option"
  spend_limit :: "spend_cap_policy option"
  trust :: "trust_policy option"
  require_approval :: "bytes list"
  inject :: "inject_rule list"

definition empty_policy :: agent_policy where
  "empty_policy =
     \<lparr>tool_pins = [], strict_pins = False, deny_methods = [], allow_rules = [], deny_rules = [],
      shadow_rules = [], ask_rules = [], fail_mode = [], mode = [], validate_input = [],
      block_params = [], rate_limit = None, spend_limit = None, trust = None,
      require_approval = [], inject = []\<rparr>"

record config =
  agents :: "(bytes \<times> agent_policy) list"
  audit :: "audit_policy option"

record engine =
  config :: config
  warnings :: "(bytes \<times> bytes \<times> nat) list"

subsection \<open>Patterns\<close>

definition is_glob_pattern :: "bytes \<Rightarrow> bool" where
  "is_glob_pattern p = contains_any p ''*?[''"

text \<open>\<^const>\<open>None\<close> is \<open>ErrBadPattern\<close>.\<close>

definition match_pattern_err :: "bytes \<Rightarrow> bytes \<Rightarrow> bool option" where
  "match_pattern_err p tool = (if is_glob_pattern p then path_match p tool else Some (p = tool))"

definition match_pattern :: "bytes \<Rightarrow> bytes \<Rightarrow> bool" where
  "match_pattern p tool \<longleftrightarrow> match_pattern_err p tool = Some True"

definition matches_any :: "bytes list \<Rightarrow> bytes \<Rightarrow> bool" where
  "matches_any ps tool = list_ex (\<lambda>p. match_pattern p tool) ps"

definition validate_glob :: "bytes \<Rightarrow> bool" where
  "validate_glob p \<longleftrightarrow> (if is_glob_pattern p then path_match p [] \<noteq> None else True)"

definition glob_disjoint :: "bytes \<Rightarrow> bytes \<Rightarrow> bool" where
  "glob_disjoint p q =
     (if \<not> is_glob_pattern p \<and> \<not> is_glob_pattern q then p \<noteq> q
      else if \<not> is_glob_pattern p \<and> is_glob_pattern q then path_match q p \<noteq> Some True
      else if is_glob_pattern p \<and> \<not> is_glob_pattern q then path_match p q \<noteq> Some True
      else False)"

subsection \<open>Identifiers\<close>

definition valid_upstream_id :: "bytes \<Rightarrow> bool" where
  "valid_upstream_id i \<longleftrightarrow>
     i \<noteq> [] \<and> length i \<le> 128 \<and> list_all (\<lambda>r. \<not> rune_space r \<and> \<not> rune_control r) (runes i)"

definition agent_byte :: "char \<Rightarrow> bool" where
  "agent_byte c \<longleftrightarrow>
     (let n = of_char c :: nat in
      (97 \<le> n \<and> n \<le> 122) \<or> (65 \<le> n \<and> n \<le> 90) \<or> (48 \<le> n \<and> n \<le> 57) \<or> n = 45 \<or> n = 46)"

definition valid_agent_name :: "bytes \<Rightarrow> bool" where
  "valid_agent_name a \<longleftrightarrow> a \<noteq> [] \<and> a \<noteq> ''.'' \<and> \<not> contains a ''..'' \<and> list_all agent_byte a"

definition env_infix :: "bytes \<Rightarrow> bytes" where
  "env_infix a = to_upper (map (\<lambda>c. if c = CHR ''-'' \<or> c = CHR ''.'' then CHR ''_'' else c) a)"

definition agent_key_env_name :: "bytes \<Rightarrow> bytes" where
  "agent_key_env_name a = ''NOCKGUARD_AGENT_'' @ env_infix a @ ''_ED25519_KEY''"

definition agent_pub_key_env_name :: "bytes \<Rightarrow> bytes" where
  "agent_pub_key_env_name a = ''NOCKGUARD_AGENT_'' @ env_infix a @ ''_ED25519_PUB''"

definition known_scheme :: "bytes \<Rightarrow> bool" where
  "known_scheme r \<longleftrightarrow> has_prefix r ''env:'' \<or> has_prefix r ''file:'' \<or> has_prefix r ''nockcc:''"

subsection \<open>Validation at load time\<close>

datatype load_error =
    YamlError
  | PairingNeedsAudit
  | PinsNeedPairing bytes
  | BadUpstreamId bytes bytes
  | EmptyPinSet bytes bytes
  | BadToolPin bytes bytes bytes
  | BadDenyMethod bytes bytes
  | NoWindow bytes
  | BadWindow bytes bytes
  | BadGlob bytes bytes bytes
  | BadCategory bytes bytes
  | InjectNoTools bytes
  | InjectNoRef bytes
  | InjectNoArg bytes
  | InjectBadArg bytes bytes
  | InjectBareGlob bytes bytes
  | InjectBadGlob bytes bytes
  | InjectUnknownScheme bytes bytes
  | InjectBadTemplate bytes nat
  | InjectOverlap bytes bytes bytes bytes
  | InjectDuplicate bytes bytes bytes

definition check_pin :: "bytes \<Rightarrow> bytes \<Rightarrow> bytes \<times> tool_pin \<Rightarrow> load_error option" where
  "check_pin agent upstream = (\<lambda>(tool, pin).
     if tool = [] \<or> hash_version pin \<noteq> ''jcs-rfc8785-v1'' \<or> length (sha256_hex pin) \<noteq> 64
        \<or> to_lower (sha256_hex pin) \<noteq> sha256_hex pin
     then Some (BadToolPin agent tool upstream)
     else if hex_decode (sha256_hex pin) = None then Some (BadToolPin agent tool upstream)
     else None)"

definition check_pins :: "audit_policy option \<Rightarrow> bytes \<times> agent_policy \<Rightarrow> load_error option" where
  "check_pins aud = (\<lambda>(agent, pol).
     if tool_pins pol = [] \<and> \<not> strict_pins pol then None
     else if (case aud of None \<Rightarrow> True | Some a \<Rightarrow> \<not> action_pairing a) then Some (PinsNeedPairing agent)
     else first_error (map (\<lambda>(upstream, ts).
            if \<not> valid_upstream_id upstream then Some (BadUpstreamId agent upstream)
            else if ts = [] then Some (EmptyPinSet agent upstream)
            else first_error (map (check_pin agent upstream) ts)) (tool_pins pol)))"

text \<open>Byte 92 is the backslash.\<close>

definition check_deny_method :: "bytes \<Rightarrow> bytes \<Rightarrow> load_error option" where
  "check_deny_method agent m =
     (if trim_space m \<noteq> m \<or> m = [] \<or> contains_any m (''*?['' @ [byte 92, byte 32, byte 9, byte 13, byte 10])
         \<or> m = ''tools/call''
      then Some (BadDenyMethod agent m) else None)"

definition rate_limit_window ::
  "(bytes \<Rightarrow> int option) \<Rightarrow> bytes \<Rightarrow> rate_limit_policy \<Rightarrow> load_error + int" where
  "rate_limit_window pd agent p =
     (if rl_window p = [] then Inl (NoWindow agent)
      else case pd (rl_window p) of
          None \<Rightarrow> Inl (BadWindow (rl_window p) agent)
        | Some w \<Rightarrow> if w \<le> 0 then Inl (BadWindow (rl_window p) agent) else Inr w)"

definition glob_fields :: "agent_policy \<Rightarrow> (bytes \<times> bytes list) list" where
  "glob_fields pol =
     [(''allow'', allow_rules pol), (''deny'', deny_rules pol), (''ask'', ask_rules pol),
      (''shadow'', shadow_rules pol), (''require_approval'', require_approval pol)]"

definition check_globs :: "bytes \<Rightarrow> agent_policy \<Rightarrow> load_error option" where
  "check_globs agent pol =
     first_error (concat (map (\<lambda>(field, ps).
       map (\<lambda>p. if validate_glob p then None else Some (BadGlob agent field p)) ps) (glob_fields pol)))"

definition check_inject_tool :: "bytes \<Rightarrow> bytes \<Rightarrow> load_error option" where
  "check_inject_tool agent t =
     (if t = ''*'' \<or> t = ''**'' then Some (InjectBareGlob agent t)
      else if \<not> validate_glob t then Some (InjectBadGlob agent t) else None)"

definition secret_mark :: bytes where "secret_mark = ''{secret}''"

definition check_inject_rule :: "bytes \<Rightarrow> inject_rule \<Rightarrow> load_error option" where
  "check_inject_rule agent r =
     (if tools r = [] then Some (InjectNoTools agent)
      else if ref r = [] then Some (InjectNoRef agent)
      else if arg r = [] then Some (InjectNoArg agent)
      else if arg r = ''.'' \<or> has_prefix (arg r) ''.'' \<or> has_suffix (arg r) ''.''
      then Some (InjectBadArg agent (arg r))
      else case first_error (map (check_inject_tool agent) (tools r)) of
          Some e \<Rightarrow> Some e
        | None \<Rightarrow>
            if \<not> known_scheme (ref r) then Some (InjectUnknownScheme agent (ref r))
            else if template r \<noteq> [] \<and> count_sub (template r) secret_mark \<noteq> 1
            then Some (InjectBadTemplate agent (count_sub (template r) secret_mark))
            else None)"

text \<open>Two rules that write the same argument must be proven disjoint.\<close>

definition rule_conflict :: "bytes \<Rightarrow> inject_rule \<Rightarrow> inject_rule \<Rightarrow> load_error option" where
  "rule_conflict agent r1 r2 =
     (if arg r1 \<noteq> arg r2 then None
      else first_error (concat (map (\<lambda>t1. map (\<lambda>t2.
             if glob_disjoint t1 t2 then None else Some (InjectOverlap agent (arg r1) t1 t2))
           (tools r2)) (tools r1))))"

fun check_conflicts :: "bytes \<Rightarrow> inject_rule list \<Rightarrow> load_error option" where
  "check_conflicts agent [] = None"
| "check_conflicts agent (r # rs) =
     (case first_error (map (rule_conflict agent r) rs) of
        Some e \<Rightarrow> Some e | None \<Rightarrow> check_conflicts agent rs)"

definition inject_keys :: "inject_rule list \<Rightarrow> (bytes \<times> bytes) list" where
  "inject_keys rs = concat (map (\<lambda>r. map (\<lambda>t. (t, arg r)) (tools r)) rs)"

fun check_duplicates :: "bytes \<Rightarrow> (bytes \<times> bytes) list \<Rightarrow> (bytes \<times> bytes) list \<Rightarrow> load_error option" where
  "check_duplicates agent seen [] = None"
| "check_duplicates agent seen (k # ks) =
     (if k \<in> set seen then Some (InjectDuplicate agent (fst k) (snd k))
      else check_duplicates agent (k # seen) ks)"

definition check_agent :: "(bytes \<Rightarrow> int option) \<Rightarrow> bytes \<times> agent_policy \<Rightarrow> load_error option" where
  "check_agent pd = (\<lambda>(agent, pol). first_error
     (map (check_deny_method agent) (deny_methods pol)
      @ [case rate_limit pol of
           None \<Rightarrow> None
         | Some p \<Rightarrow> (case rate_limit_window pd agent p of Inl e \<Rightarrow> Some e | Inr _ \<Rightarrow> None),
         check_globs agent pol]
      @ map (\<lambda>c. if known_category c then None else Some (BadCategory agent c)) (validate_input pol)
      @ map (check_inject_rule agent) (inject pol)
      @ [check_conflicts agent (inject pol), check_duplicates agent [] (inject_keys (inject pol))]))"

definition inject_warnings :: "bytes \<times> agent_policy \<Rightarrow> (bytes \<times> bytes \<times> nat) list" where
  "inject_warnings = (\<lambda>(agent, pol).
     let ts = concat (map tools (inject pol)) in
     map (\<lambda>t. (agent, t, count_list ts t)) (filter (\<lambda>t. count_list ts t > 1) (remdups ts)))"

definition check_pairing :: "audit_policy option \<Rightarrow> load_error option" where
  "check_pairing aud =
     (case aud of
        Some a \<Rightarrow> if action_pairing a \<and> \<not> audit_enabled a then Some PairingNeedsAudit else None
      | None \<Rightarrow> None)"

definition load_from :: "(bytes \<Rightarrow> int option) \<Rightarrow> config option \<Rightarrow> load_error + engine" where
  "load_from pd decoded =
     (case decoded of
        None \<Rightarrow> Inl YamlError
      | Some c \<Rightarrow>
          (case first_error (check_pairing (audit c) # map (check_pins (audit c)) (agents c)
                  @ map (check_agent pd) (agents c)) of
             Some e \<Rightarrow> Inl e
           | None \<Rightarrow> Inr \<lparr>config = c, warnings = concat (map inject_warnings (agents c))\<rparr>))"

subsection \<open>The engine\<close>

definition action_pairing_enabled :: "engine option \<Rightarrow> bool" where
  "action_pairing_enabled e \<longleftrightarrow>
     (case e of
        None \<Rightarrow> False
      | Some e \<Rightarrow> (case audit (config e) of None \<Rightarrow> False | Some a \<Rightarrow> audit_enabled a \<and> action_pairing a))"

definition signing_key_env_names :: "engine \<Rightarrow> bytes list" where
  "signing_key_env_names e =
     (case audit (config e) of
        None \<Rightarrow> []
      | Some a \<Rightarrow> filter (\<lambda>n. n \<noteq> []) [sign_ed25519_key_env a, sign_key_env a])"

definition is_agent_key_name :: "bytes \<Rightarrow> bool" where
  "is_agent_key_name n \<longleftrightarrow> has_prefix n ''NOCKGUARD_AGENT_'' \<and> has_suffix n ''_ED25519_KEY''"

definition signing_key_env_names_for :: "bytes list \<Rightarrow> engine \<Rightarrow> bytes list" where
  "signing_key_env_names_for environ e =
     signing_key_env_names e @ filter is_agent_key_name (map (before_byte CHR ''='') environ)"

definition forwarder_key_env_names :: "engine \<Rightarrow> bytes list" where
  "forwarder_key_env_names e =
     (case audit (config e) of
        None \<Rightarrow> []
      | Some a \<Rightarrow>
          (case forward_to a of
             None \<Rightarrow> []
           | Some f \<Rightarrow> if api_key_env f = [] then [] else [api_key_env f]))"

definition inject_env_names :: "engine \<Rightarrow> bytes list" where
  "inject_env_names e =
     rev (remdups (rev (map (\<lambda>r. trim_prefix (ref r) ''env:'')
       (filter (\<lambda>r. has_prefix (ref r) ''env:'') (concat (map (inject \<circ> snd) (agents (config e))))))))"

definition agent_count :: "engine \<Rightarrow> nat" where
  "agent_count e = length (agents (config e))"

definition agent_policy_of :: "engine \<Rightarrow> bytes \<Rightarrow> agent_policy option" where
  "agent_policy_of e agent =
     (case map_of (agents (config e)) agent of
        Some p \<Rightarrow> Some p
      | None \<Rightarrow> map_of (agents (config e)) ''default'')"

definition has_policy_for :: "engine \<Rightarrow> bytes \<Rightarrow> bool" where
  "has_policy_for e agent \<longleftrightarrow> agent_policy_of e agent \<noteq> None"

text \<open>The callers that ignore the flag see the zero policy.\<close>

definition policy_or_zero :: "engine \<Rightarrow> bytes \<Rightarrow> agent_policy" where
  "policy_or_zero e agent = (case agent_policy_of e agent of None \<Rightarrow> empty_policy | Some p \<Rightarrow> p)"

definition upstream_pins :: "agent_policy \<Rightarrow> bytes \<Rightarrow> (bytes \<times> tool_pin) list" where
  "upstream_pins pol upstream = (case map_of (tool_pins pol) upstream of None \<Rightarrow> [] | Some m \<Rightarrow> m)"

definition tool_pin_of :: "engine \<Rightarrow> bytes \<Rightarrow> bytes \<Rightarrow> bytes \<Rightarrow> tool_pin option" where
  "tool_pin_of e agent upstream tool = map_of (upstream_pins (policy_or_zero e agent) upstream) tool"

definition has_tool_pin_constraints :: "engine \<Rightarrow> bytes \<Rightarrow> bool" where
  "has_tool_pin_constraints e agent \<longleftrightarrow>
     strict_pins (policy_or_zero e agent) \<or> tool_pins (policy_or_zero e agent) \<noteq> []"

definition strict_tool_pins :: "engine \<Rightarrow> bytes \<Rightarrow> bool" where
  "strict_tool_pins e agent = strict_pins (policy_or_zero e agent)"

datatype scope_error = NeedUpstreamId | NoPinsForUpstream

definition validate_tool_pin_scope :: "engine \<Rightarrow> bytes \<Rightarrow> bytes \<Rightarrow> scope_error option" where
  "validate_tool_pin_scope e agent upstream =
     (let pol = policy_or_zero e agent in
      if \<not> strict_pins pol \<and> tool_pins pol = [] then None
      else if \<not> valid_upstream_id upstream then Some NeedUpstreamId
      else if tool_pins pol \<noteq> [] \<and> upstream_pins pol upstream = [] then Some NoPinsForUpstream
      else None)"

definition denies_method :: "engine \<Rightarrow> bytes \<Rightarrow> bytes \<Rightarrow> bool" where
  "denies_method e agent m = list_ex (\<lambda>d. m = d) (deny_methods (policy_or_zero e agent))"

subsection \<open>Decisions\<close>

datatype verdict = Allow | Deny | Ask

datatype reason =
    NoPolicy
  | DenyMalformed bytes
  | DenyRule bytes
  | AskRule bytes
  | AllowRule bytes
  | NoAllowMatched
  | ModeDeny
  | DefaultAllow
  | DefaultDeny
  | ShadowMiss reason
  | Basis bytes

record decision =
  verdict :: verdict
  reason :: reason
  shadow_would_deny :: bool

definition decide_as :: "verdict \<Rightarrow> reason \<Rightarrow> decision" where
  "decide_as v r = \<lparr>verdict = v, reason = r, shadow_would_deny = False\<rparr>"

definition with_shadow :: "bool \<Rightarrow> decision \<Rightarrow> decision" where
  "with_shadow miss d =
     (if miss \<and> verdict d = Allow
      then d\<lparr>shadow_would_deny := True, reason := ShadowMiss (reason d)\<rparr> else d)"

text \<open>The three loops over rules; \<^const>\<open>None\<close> when no rule decides.\<close>

fun scan_deny :: "bytes list \<Rightarrow> bytes \<Rightarrow> decision option" where
  "scan_deny [] tool = None"
| "scan_deny (p # ps) tool =
     (case match_pattern_err p tool of
        None \<Rightarrow> Some (decide_as Deny (DenyMalformed p))
      | Some True \<Rightarrow> Some (decide_as Deny (DenyRule p))
      | Some False \<Rightarrow> scan_deny ps tool)"

fun first_match :: "bytes list \<Rightarrow> bytes \<Rightarrow> bytes option" where
  "first_match [] tool = None"
| "first_match (p # ps) tool = (if match_pattern p tool then Some p else first_match ps tool)"

definition evaluate_policy :: "agent_policy \<Rightarrow> bytes \<Rightarrow> decision" where
  "evaluate_policy pol tool =
     (let miss = (shadow_rules pol \<noteq> [] \<and> \<not> matches_any (shadow_rules pol) tool) in
      case scan_deny (deny_rules pol) tool of
        Some d \<Rightarrow> d
      | None \<Rightarrow>
          (case first_match (ask_rules pol) tool of
             Some p \<Rightarrow> decide_as Ask (AskRule p)
           | None \<Rightarrow>
               if allow_rules pol \<noteq> [] then
                 (case first_match (allow_rules pol) tool of
                    Some p \<Rightarrow> with_shadow miss (decide_as Allow (AllowRule p))
                  | None \<Rightarrow> decide_as Deny NoAllowMatched)
               else if mode pol = ''deny'' then with_shadow miss (decide_as Deny ModeDeny)
               else if mode pol = ''allow'' then with_shadow miss (decide_as Allow DefaultAllow)
               else with_shadow miss (decide_as Deny DefaultDeny)))"

definition evaluate :: "engine \<Rightarrow> bytes \<Rightarrow> bytes \<Rightarrow> decision" where
  "evaluate e agent tool =
     (case agent_policy_of e agent of
        None \<Rightarrow> decide_as Deny NoPolicy
      | Some pol \<Rightarrow> evaluate_policy pol tool)"

definition check :: "engine \<Rightarrow> bytes \<Rightarrow> bytes \<Rightarrow> bool" where
  "check e agent tool \<longleftrightarrow> verdict (evaluate e agent tool) = Allow"

definition requires_approval :: "engine \<Rightarrow> bytes \<Rightarrow> bytes \<Rightarrow> bool" where
  "requires_approval e agent tool =
     (case agent_policy_of e agent of
        None \<Rightarrow> False
      | Some pol \<Rightarrow> list_ex (\<lambda>p. match_pattern p tool) (require_approval pol))"

definition inject_rules_for :: "engine \<Rightarrow> bytes \<Rightarrow> bytes \<Rightarrow> inject_rule list" where
  "inject_rules_for e agent tool =
     (case agent_policy_of e agent of
        None \<Rightarrow> []
      | Some pol \<Rightarrow> filter (\<lambda>r. list_ex (\<lambda>p. match_pattern p tool) (tools r)) (inject pol))"

definition fail_mode_verdict :: "engine \<Rightarrow> bytes \<Rightarrow> bytes \<Rightarrow> decision" where
  "fail_mode_verdict e agent why =
     (case agent_policy_of e agent of
        None \<Rightarrow> decide_as Deny (Basis why)
      | Some pol \<Rightarrow> if fail_mode pol = ''ask'' then decide_as Ask (Basis why) else decide_as Deny (Basis why))"

definition validator_for ::
  "(bytes \<Rightarrow> bool) \<Rightarrow> engine \<Rightarrow> bytes \<Rightarrow> validator_error + validator option" where
  "validator_for cp e agent =
     (let pol = policy_or_zero e agent in
      if validate_input pol = [] \<and> block_params pol = [] then Inr None
      else case new_validator cp (validate_input pol) (block_params pol) of
          Inl err \<Rightarrow> Inl err
        | Inr v \<Rightarrow> Inr (Some v))"

definition limiter_for ::
  "(bytes \<Rightarrow> int option) \<Rightarrow> engine \<Rightarrow> bytes \<Rightarrow> load_error + limiter option" where
  "limiter_for pd e agent =
     (let pol = policy_or_zero e agent;
          cap = (case spend_limit pol of None \<Rightarrow> 0 | Some s \<Rightarrow> sc_max_calls s) in
      if rate_limit pol = None \<and> spend_limit pol = None then Inr None
      else case rate_limit pol of
          None \<Rightarrow> Inr (Some (new_limiter \<lparr>max_calls = 0, window = 0, spend_cap = cap\<rparr>))
        | Some p \<Rightarrow>
            (case rate_limit_window pd agent p of
               Inl err \<Rightarrow> Inl err
             | Inr w \<Rightarrow> Inr (Some (new_limiter \<lparr>max_calls = rl_max_calls p, window = w, spend_cap = cap\<rparr>))))"

text \<open>\<open>TrustFor\<close>: the configuration handed to \<open>trust.New\<close>; \<^const>\<open>Inl\<close> for a bad name.\<close>

definition trust_for :: "engine \<Rightarrow> bytes \<Rightarrow> unit + trust_config option" where
  "trust_for e agent =
     (if \<not> valid_agent_name agent then Inl ()
      else case trust (policy_or_zero e agent) of
          None \<Rightarrow> Inr None
        | Some t \<Rightarrow>
            if \<not> tp_enabled t then Inr None
            else Inr (Some \<lparr>tc_enabled = True, tc_path = tp_path t, tc_agent = agent\<rparr>))"

datatype forwarder_error = ForwardNeedsUrl | ForwardKeyUnset bytes

text \<open>
  \<open>Forwarder\<close>: \<^const>\<open>None\<close> is the disabled forwarder, otherwise its URL and key.
\<close>

definition forwarder ::
  "(bytes \<Rightarrow> bytes) \<Rightarrow> engine \<Rightarrow> forwarder_error + (bytes \<times> bytes) option" where
  "forwarder getenv e =
     (case (case audit (config e) of None \<Rightarrow> None | Some a \<Rightarrow> forward_to a) of
        None \<Rightarrow> Inr None
      | Some f \<Rightarrow>
          if \<not> fwd_enabled f then Inr None
          else if fwd_url f = [] then Inl ForwardNeedsUrl
          else if api_key_env f = [] then Inr (Some (fwd_url f, []))
          else if getenv (api_key_env f) = [] then Inl (ForwardKeyUnset (api_key_env f))
          else Inr (Some (fwd_url f, getenv (api_key_env f))))"

subsection \<open>Patterns that passed validation\<close>

lemma validated_pattern:
  assumes "validate_glob p"
  shows "match_pattern_err p tool \<noteq> None"
  using assms path_match_malformed [of p tool]
  by (auto simp: validate_glob_def match_pattern_err_def split: if_splits)

lemma literal_match: "\<not> is_glob_pattern p \<Longrightarrow> match_pattern p tool \<longleftrightarrow> p = tool"
  by (auto simp: match_pattern_def match_pattern_err_def)

lemma glob_match: "is_glob_pattern p \<Longrightarrow> match_pattern p tool \<longleftrightarrow> path_match p tool = Some True"
  by (simp add: match_pattern_def match_pattern_err_def)

text \<open>Patterns that \<open>isGlobPatternDisjoint\<close> accepts share no tool name.\<close>

lemma glob_disjoint_sound:
  "glob_disjoint p q \<Longrightarrow> \<not> (match_pattern p tool \<and> match_pattern q tool)"
  by (auto simp: glob_disjoint_def literal_match glob_match split: if_splits)

subsection \<open>What loading guarantees\<close>

lemma load_from_Inr:
  assumes "load_from pd dec = Inr e"
  shows "dec = Some (config e)" "(agent, pol) \<in> set (agents (config e)) \<Longrightarrow> check_agent pd (agent, pol) = None"
    "(agent, pol) \<in> set (agents (config e)) \<Longrightarrow> check_pins (audit (config e)) (agent, pol) = None"
    "check_pairing (audit (config e)) = None"
  using assms by (auto simp: load_from_def first_error_None split: option.splits)

text \<open>The part of a loaded policy on which its evaluation depends.\<close>

definition policy_ok :: "(bytes \<Rightarrow> int option) \<Rightarrow> bytes \<Rightarrow> agent_policy \<Rightarrow> bool" where
  "policy_ok pd agent pol \<longleftrightarrow>
     list_all validate_glob (allow_rules pol @ deny_rules pol @ ask_rules pol @ shadow_rules pol
       @ require_approval pol)
     \<and> list_all (\<lambda>r. check_inject_rule agent r = None) (inject pol)
     \<and> check_conflicts agent (inject pol) = None
     \<and> list_all known_category (validate_input pol)
     \<and> (\<forall>p. rate_limit pol = Some p \<longrightarrow> (\<exists>w>0. rate_limit_window pd agent p = Inr w))"

lemma check_agent_ok:
  assumes "check_agent pd (agent, pol) = None"
  shows "policy_ok pd agent pol"
proof -
  note all = assms [unfolded check_agent_def prod.case first_error_None set_append list.set set_map]
  have globs: "check_globs agent pol = None"
    and win0: "(case rate_limit pol of None \<Rightarrow> None
      | Some p \<Rightarrow> (case rate_limit_window pd agent p of Inl e \<Rightarrow> Some e | Inr _ \<Rightarrow> None)) = None"
    and inj: "\<forall>r\<in>set (inject pol). check_inject_rule agent r = None"
      "check_conflicts agent (inject pol) = None"
    using all by blast+
  have cat: "list_all known_category (validate_input pol)"
  proof -
    have "known_category c" if c: "c \<in> set (validate_input pol)" for c
    proof -
      have "(if known_category c then None else Some (BadCategory agent c)) = None"
        using all c by blast
      then show ?thesis by (cases "known_category c") simp_all
    qed
    then show ?thesis by (simp add: list_all_iff)
  qed
  have win: "\<exists>w>0. rate_limit_window pd agent p = Inr w" if "rate_limit pol = Some p" for p
  proof -
    have "(case rate_limit_window pd agent p of Inl e \<Rightarrow> Some e | Inr _ \<Rightarrow> None) = None"
      using win0 that by simp
    then show ?thesis
      by (cases "rate_limit_window pd agent p") (auto simp: rate_limit_window_def split: option.splits if_splits)
  qed
  have "validate_glob p" if "(f, ps) \<in> set (glob_fields pol)" "p \<in> set ps" for f ps p
  proof -
    have "(if validate_glob p then None else Some (BadGlob agent f p))
        \<in> set (concat (map (\<lambda>(field, ps).
            map (\<lambda>p. if validate_glob p then None else Some (BadGlob agent field p)) ps) (glob_fields pol)))"
      using that by fastforce
    then have "(if validate_glob p then None else Some (BadGlob agent f p)) = None"
      using globs unfolding check_globs_def first_error_None by blast
    then show ?thesis by (cases "validate_glob p") simp_all
  qed
  note this [unfolded glob_fields_def list.set]
  then have "list_all validate_glob (allow_rules pol @ deny_rules pol @ ask_rules pol @ shadow_rules pol
      @ require_approval pol)"
    unfolding list_all_append by (simp add: list_all_iff) blast
  then show ?thesis using inj cat win by (simp add: policy_ok_def list_all_iff)
qed

lemma loaded_policy:
  assumes "load_from pd dec = Inr e" and "agent_policy_of e agent = Some pol"
  obtains name where "policy_ok pd name pol" "(name, pol) \<in> set (agents (config e))"
proof -
  have "\<exists>name. (name, pol) \<in> set (agents (config e))"
    using assms(2) by (auto simp: agent_policy_of_def split: option.splits dest: map_of_SomeD)
  then obtain name where n: "(name, pol) \<in> set (agents (config e))" by blast
  then show ?thesis using load_from_Inr(2) [OF assms(1) n] check_agent_ok that by blast
qed

subsection \<open>The verdict as a specification\<close>

text \<open>
  The documented precedence: no policy denies, then deny rules (a rule that cannot be matched
  counts as a match), then ask rules, then the allow list, then the mode.
\<close>

definition verdict_spec :: "agent_policy option \<Rightarrow> bytes \<Rightarrow> verdict" where
  "verdict_spec pol tool =
     (case pol of
        None \<Rightarrow> Deny
      | Some p \<Rightarrow>
          if list_ex (\<lambda>r. match_pattern_err r tool \<noteq> Some False) (deny_rules p) then Deny
          else if matches_any (ask_rules p) tool then Ask
          else if allow_rules p \<noteq> [] then (if matches_any (allow_rules p) tool then Allow else Deny)
          else if mode p = ''allow'' then Allow else Deny)"

lemma scan_deny_None:
  "scan_deny ps tool = None \<longleftrightarrow> \<not> list_ex (\<lambda>r. match_pattern_err r tool \<noteq> Some False) ps"
  by (induction ps) (auto split: option.splits bool.splits)

lemma scan_deny_Some:
  "scan_deny ps tool = Some d \<Longrightarrow> \<exists>p\<in>set ps. d = decide_as Deny (DenyRule p) \<and> match_pattern p tool
    \<or> d = decide_as Deny (DenyMalformed p) \<and> match_pattern_err p tool = None"
  by (induction ps) (auto simp: match_pattern_def split: option.splits bool.splits)

lemma scan_deny_Deny: "scan_deny ps tool = Some d \<Longrightarrow> verdict d = Deny \<and> \<not> shadow_would_deny d"
  by (induction ps) (auto simp: decide_as_def split: option.splits bool.splits)

lemma first_match_None: "first_match ps tool = None \<longleftrightarrow> \<not> matches_any ps tool"
  by (induction ps) (auto simp: matches_any_def)

lemma first_match_Some: "first_match ps tool = Some p \<Longrightarrow> p \<in> set ps \<and> match_pattern p tool"
  by (induction ps) (auto split: if_splits)

lemma decide_as_simps [simp]:
  "verdict (decide_as v r) = v" "reason (decide_as v r) = r" "shadow_would_deny (decide_as v r) = False"
  by (simp_all add: decide_as_def)

lemma with_shadow_verdict [simp]: "verdict (with_shadow m d) = verdict d"
  by (simp add: with_shadow_def)

lemma evaluate_policy_verdict: "verdict (evaluate_policy pol tool) = verdict_spec (Some pol) tool"
proof (cases "scan_deny (deny_rules pol) tool")
  case (Some d)
  then show ?thesis
    using scan_deny_Deny [OF Some] scan_deny_None [of "deny_rules pol" tool]
    by (simp add: evaluate_policy_def verdict_spec_def)
next
  case None
  have ask: "matches_any (ask_rules pol) tool \<longleftrightarrow> first_match (ask_rules pol) tool \<noteq> None"
    and alw: "matches_any (allow_rules pol) tool \<longleftrightarrow> first_match (allow_rules pol) tool \<noteq> None"
    by (simp_all add: first_match_None)
  show ?thesis
    unfolding verdict_spec_def ask alw option.case
    using None scan_deny_None [of "deny_rules pol" tool]
    by (auto simp: evaluate_policy_def Let_def split: option.splits)
qed

lemma evaluate_verdict: "verdict (evaluate e agent tool) = verdict_spec (agent_policy_of e agent) tool"
  by (cases "agent_policy_of e agent")
    (simp_all add: evaluate_def evaluate_policy_verdict, simp add: verdict_spec_def)

subsection \<open>Run-time consequences\<close>

lemma check_conflicts_pairs:
  "check_conflicts agent rs = None \<Longrightarrow> i < j \<Longrightarrow> j < length rs \<Longrightarrow> rule_conflict agent (rs ! i) (rs ! j) = None"
proof (induction rs arbitrary: i j)
  case (Cons r rs)
  have h: "\<forall>x\<in>set rs. rule_conflict agent r x = None" and t: "check_conflicts agent rs = None"
    using Cons.prems(1) by (auto simp: first_error_None split: option.splits)
  obtain j' where j: "j = Suc j'" "j' < length rs" using Cons.prems(2,3) by (cases j) auto
  show ?case
    using h t j Cons.IH [of _ j'] Cons.prems(2) by (cases i) auto
qed simp

lemma rule_conflict_None:
  assumes "rule_conflict agent r1 r2 = None" and "arg r1 = arg r2"
    and "t1 \<in> set (tools r1)" and "t2 \<in> set (tools r2)"
  shows "glob_disjoint t1 t2"
proof -
  have "(if glob_disjoint t1 t2 then None else Some (InjectOverlap agent (arg r1) t1 t2))
    \<in> set (concat (map (\<lambda>t1. map (\<lambda>t2. if glob_disjoint t1 t2 then None
        else Some (InjectOverlap agent (arg r1) t1 t2)) (tools r2)) (tools r1)))"
    using assms(3,4) by fastforce
  then have "(if glob_disjoint t1 t2 then None else Some (InjectOverlap agent (arg r1) t1 t2)) = None"
    using assms(1,2) unfolding rule_conflict_def by (simp only: first_error_None simp_thms if_False)
  then show ?thesis by (cases "glob_disjoint t1 t2") simp_all
qed

definition applies :: "bytes \<Rightarrow> inject_rule \<Rightarrow> bool" where
  "applies tool r \<longleftrightarrow> list_ex (\<lambda>p. match_pattern p tool) (tools r)"

lemma applying_rules_distinct:
  assumes "check_conflicts agent rs = None"
  shows "distinct (map arg (filter (applies tool) rs))"
  using assms
proof (induction rs)
  case (Cons r rs)
  have h: "\<forall>x\<in>set rs. rule_conflict agent r x = None" and t: "check_conflicts agent rs = None"
    using Cons.prems by (auto simp: first_error_None split: option.splits)
  have "arg r \<noteq> arg x" if x: "x \<in> set rs" "applies tool x" "applies tool r" for x
  proof
    assume "arg r = arg x"
    moreover obtain p q where pq: "p \<in> set (tools r)" "match_pattern p tool" "q \<in> set (tools x)"
      "match_pattern q tool"
      using x by (auto simp: applies_def list_ex_iff)
    moreover have "rule_conflict agent r x = None" using h x(1) by simp
    ultimately have "glob_disjoint p q" using rule_conflict_None by blast
    then show False using glob_disjoint_sound pq(2,4) by blast
  qed
  then show ?case using Cons.IH [OF t] by auto
qed simp

lemma match_deny_mono:
  "set ps \<subseteq> set qs \<Longrightarrow> list_ex P ps \<Longrightarrow> list_ex P qs"
  by (auto simp: list_ex_iff)

subsection \<open>A concrete policy\<close>

definition demo_policy :: agent_policy where
  "demo_policy = empty_policy\<lparr>allow_rules := [''nockcc_*''], deny_rules := [''*delete*''],
     ask_rules := [''nockcc_pay''], shadow_rules := [''nockcc_get''],
     rate_limit := Some \<lparr>rl_max_calls = 2, rl_window = ''1m''\<rparr>,
     inject := [\<lparr>tools = [''nockcc_get''], ref = ''env:TOKEN'', arg = ''headers.auth'', template = []\<rparr>,
                \<lparr>tools = [''nockcc_put''], ref = ''env:TOKEN'', arg = ''headers.auth'', template = []\<rparr>]\<rparr>"

definition demo_config :: config where
  "demo_config = \<lparr>agents = [(''default'', demo_policy)], audit = None\<rparr>"

definition demo_engine :: engine where
  "demo_engine = \<lparr>config = demo_config, warnings = []\<rparr>"

definition demo_duration :: "bytes \<Rightarrow> int option" where
  "demo_duration s = (if s = ''1m'' then Some 60000000000 else None)"

lemma demo_glob_match:
  "path_match ''nockcc_*'' [] \<noteq> None" "path_match ''*delete*'' [] \<noteq> None"
  by code_simp+

lemma demo_loads: "load_from demo_duration (Some demo_config) = Inr demo_engine"
  using demo_glob_match
  by (simp add: load_from_def demo_config_def demo_engine_def demo_policy_def empty_policy_def
      check_pairing_def check_pins_def check_agent_def check_globs_def glob_fields_def
      validate_glob_def is_glob_pattern_def contains_any_def rate_limit_window_def demo_duration_def
      check_inject_rule_def check_inject_tool_def known_scheme_def has_prefix_def has_suffix_def
      rule_conflict_def glob_disjoint_def inject_keys_def inject_warnings_def)

lemma demo_evaluate:
  "evaluate demo_engine ''kit'' ''nockcc_delete'' = decide_as Deny (DenyRule ''*delete*'')"
  "evaluate demo_engine ''kit'' ''nockcc_pay'' = decide_as Ask (AskRule ''nockcc_pay'')"
  "verdict (evaluate demo_engine ''kit'' ''nockcc_put'') = Allow"
  by code_simp+

subsection \<open>Properties\<close>

text \<open>
  C23. \<open>Evaluate\<close> implements the documented precedence: for every engine, agent and tool its
  verdict is that of the specification (no policy: deny; then deny rules, failing closed on a
  rule that cannot be matched; then ask rules; then the allow list; then the mode), and
  \<open>Check\<close> is exactly the allow verdict.
\<close>

theorem evaluate_refines_spec:
  "verdict (evaluate e agent tool) = verdict_spec (agent_policy_of e agent) tool
   \<and> check e agent tool = (verdict_spec (agent_policy_of e agent) tool = Allow)"
  by (simp add: evaluate_verdict check_def)

text \<open>
  C12. In a policy that passed \<open>Load\<close>, a matching deny rule always denies, whatever the
  ask, allow, shadow and mode entries say, and the recorded basis names a deny rule of the
  policy that does match; the malformed-pattern fallback is never reached.
\<close>

theorem loaded_deny_rule_denies:
  assumes "load_from pd dec = Inr e" and "agent_policy_of e agent = Some pol"
    and "p \<in> set (deny_rules pol)" and "match_pattern p tool"
  shows "\<exists>q\<in>set (deny_rules pol). evaluate e agent tool = decide_as Deny (DenyRule q) \<and> match_pattern q tool"
proof -
  obtain name where ok: "policy_ok pd name pol" using loaded_policy [OF assms(1,2)] by blast
  have good: "match_pattern_err q tool \<noteq> None" if "q \<in> set (deny_rules pol)" for q
    using validated_pattern ok that by (auto simp: policy_ok_def list_all_iff)
  have "list_ex (\<lambda>r. match_pattern_err r tool \<noteq> Some False) (deny_rules pol)"
    using assms(3,4) by (auto simp: list_ex_iff match_pattern_def intro!: bexI [of _ p])
  then obtain d where d: "scan_deny (deny_rules pol) tool = Some d"
    using scan_deny_None by blast
  then have "evaluate e agent tool = d" using assms(2) by (simp add: evaluate_def evaluate_policy_def)
  then show ?thesis using scan_deny_Some [OF d] good by blast
qed

theorem loaded_deny_rule_denies_witness:
  "\<exists>q\<in>set (deny_rules demo_policy).
     evaluate demo_engine ''kit'' ''nockcc_delete'' = decide_as Deny (DenyRule q)
     \<and> match_pattern q ''nockcc_delete''"
proof -
  have p: "agent_policy_of demo_engine ''kit'' = Some demo_policy"
    by (simp add: agent_policy_of_def demo_engine_def demo_config_def)
  have "''*delete*'' \<in> set (deny_rules demo_policy)" by (simp add: demo_policy_def empty_policy_def)
  moreover have "match_pattern ''*delete*'' ''nockcc_delete''" by code_simp
  ultimately show ?thesis by (rule loaded_deny_rule_denies [OF demo_loads p])
qed

text \<open>
  Shadow rules are a dry run: replacing them by any others never changes the verdict, and
  the would-deny mark is set exactly on an allowed call that a non-empty shadow list misses.
\<close>

theorem shadow_never_changes_verdict:
  "verdict (evaluate_policy (pol\<lparr>shadow_rules := s\<rparr>) tool) = verdict (evaluate_policy pol tool)
   \<and> shadow_would_deny (evaluate_policy pol tool) =
       (verdict (evaluate_policy pol tool) = Allow \<and> shadow_rules pol \<noteq> []
        \<and> \<not> matches_any (shadow_rules pol) tool)"
proof -
  have "verdict_spec (Some (pol\<lparr>shadow_rules := s\<rparr>)) tool = verdict_spec (Some pol) tool"
    by (simp add: verdict_spec_def)
  moreover have "shadow_would_deny (evaluate_policy pol tool) =
       (verdict (evaluate_policy pol tool) = Allow \<and> shadow_rules pol \<noteq> []
        \<and> \<not> matches_any (shadow_rules pol) tool)"
    by (auto simp: evaluate_policy_def with_shadow_def Let_def split: option.splits
        dest: scan_deny_Deny)
  ultimately show ?thesis by (simp add: evaluate_policy_verdict)
qed

text \<open>
  Adding deny rules only tightens a policy: wherever they are inserted, every verdict
  becomes a denial or stays what it was.
\<close>

theorem deny_rules_only_tighten:
  "verdict (evaluate_policy (pol\<lparr>deny_rules := before @ deny_rules pol @ after\<rparr>) tool)
     \<in> {Deny, verdict (evaluate_policy pol tool)}"
  by (simp add: evaluate_policy_verdict verdict_spec_def)

text \<open>
  In a policy that passed \<open>Load\<close>, the injection rules that apply to any one tool call
  write pairwise different arguments: load-time disjointness makes the run-time conflict check
  unreachable.
\<close>

theorem loaded_inject_rules_never_conflict:
  assumes "load_from pd dec = Inr e"
  shows "distinct (map arg (inject_rules_for e agent tool))"
proof (cases "agent_policy_of e agent")
  case (Some pol)
  obtain name where "policy_ok pd name pol" using loaded_policy [OF assms Some] by blast
  then have "distinct (map arg (filter (applies tool) (inject pol)))"
    by (intro applying_rules_distinct [of name]) (simp add: policy_ok_def)
  then show ?thesis using Some by (simp add: inject_rules_for_def applies_def [abs_def])
qed (simp add: inject_rules_for_def)

theorem loaded_inject_rules_never_conflict_witness:
  "length (inject_rules_for demo_engine ''kit'' ''nockcc_get'') = 1
   \<and> distinct (map arg (inject_rules_for demo_engine ''kit'' ''nockcc_get''))"
  using loaded_inject_rules_never_conflict [OF demo_loads, of "''kit''" "''nockcc_get''"]
  by (simp add: inject_rules_for_def agent_policy_of_def demo_engine_def demo_config_def
      demo_policy_def empty_policy_def match_pattern_def match_pattern_err_def is_glob_pattern_def
      contains_any_def)

text \<open>
  For a policy that passed \<open>Load\<close>, building an agent's limiter never fails, and every
  rate limit it enforces has a positive window, which is what the sliding-window bound needs.
\<close>

theorem loaded_limiter_well_formed:
  assumes "load_from pd dec = Inr e"
  shows "\<exists>l. limiter_for pd e agent = Inr l \<and>
    (case l of None \<Rightarrow> True
     | Some k \<Rightarrow> k = new_limiter (cfg k) \<and> (max_calls (cfg k) > 0 \<longrightarrow> window (cfg k) > 0))"
proof (cases "agent_policy_of e agent")
  case None
  then show ?thesis by (simp add: limiter_for_def policy_or_zero_def empty_policy_def)
next
  case (Some pol)
  obtain name where "policy_ok pd name pol" using loaded_policy [OF assms Some] by blast
  then have w: "\<exists>w>0. rate_limit_window pd agent p = Inr w" if "rate_limit pol = Some p" for p
    using that by (auto simp: policy_ok_def rate_limit_window_def split: option.splits if_splits)
  show ?thesis
  proof (cases "rate_limit pol")
    case None
    then show ?thesis using Some
      by (cases "spend_limit pol") (auto simp: limiter_for_def policy_or_zero_def new_limiter_def)
  next
    case r: (Some p)
    obtain w where "w > 0" "rate_limit_window pd agent p = Inr w" using w [OF r] by blast
    then show ?thesis using Some r
      by (auto simp: limiter_for_def policy_or_zero_def new_limiter_def Let_def)
  qed
qed

theorem loaded_limiter_well_formed_witness:
  "\<exists>l. limiter_for demo_duration demo_engine ''kit'' = Inr (Some l)
     \<and> max_calls (cfg l) = 2 \<and> window (cfg l) > 0"
proof -
  obtain l where l: "limiter_for demo_duration demo_engine ''kit'' = Inr l"
    "case l of None \<Rightarrow> True
     | Some k \<Rightarrow> k = new_limiter (cfg k) \<and> (max_calls (cfg k) > 0 \<longrightarrow> window (cfg k) > 0)"
    using loaded_limiter_well_formed [OF demo_loads] by blast
  moreover have "\<exists>k. l = Some k \<and> max_calls (cfg k) = 2"
    using l(1) by (auto simp: limiter_for_def policy_or_zero_def agent_policy_of_def demo_engine_def
        demo_config_def demo_policy_def empty_policy_def rate_limit_window_def demo_duration_def
        new_limiter_def)
  ultimately show ?thesis by auto
qed

end
