(* ===== verification/ToolCatalog.thy ===== *)
theory ToolCatalog
  imports Message Policy
begin

text \<open>
  The catalog of advertised tool definitions and the pins, \<^verbatim>\<open>internal/proxy/tool_catalog.go\<close>:
  the generations of a listing, its pages and bounds, what a call may be bound to, and the check of
  an observed definition against its pin. The digest of a definition is an argument.
\<close>

subsection \<open>State\<close>

definition max_catalog_pages :: nat where "max_catalog_pages = 32"
definition max_catalog_tools :: nat where "max_catalog_tools = 4096"
definition max_catalog_bytes :: nat where "max_catalog_bytes = 10 * 2 ^ 20"
definition max_catalog_cursor :: nat where "max_catalog_cursor = 4096"

record tool_observation =
  ob_hash :: bytes
  ob_pin_hash :: bytes
  ob_status :: bytes

definition observed_as :: "bytes \<Rightarrow> tool_observation" where
  "observed_as status = \<lparr>ob_hash = [], ob_pin_hash = [], ob_status = status\<rparr>"

type_synonym observations = "(bytes \<times> tool_observation) list"

record catalog_build =
  cb_id :: u64
  cb_in_flight :: bool
  cb_paginated :: bool
  cb_pages :: nat
  cb_bytes :: nat
  cb_next :: bytes
  cb_seen :: "bytes list"
  cb_tools :: observations

record tool_catalog =
  cat_next_id :: u64
  cat_build :: "catalog_build option"
  cat_published :: observations
  cat_paginated :: bool

definition empty_catalog :: tool_catalog where
  "empty_catalog = \<lparr>cat_next_id = 0, cat_build = None, cat_published = [], cat_paginated = False\<rparr>"

subsection \<open>Strict reading\<close>

text \<open>
  \<open>validateJSONStringLiterals\<close>: valid UTF-8, complete escapes and paired surrogates. The first
  argument tells whether the scan is inside a string.
\<close>

text \<open>The rest of the input after the prefix of a Unicode escape; \<^const>\<open>None\<close> for an error.\<close>

definition unicode_escape :: "bytes \<Rightarrow> bytes option" where
  "unicode_escape s =
     (case get_u4 s of
        None \<Rightarrow> None
      | Some (unit, t) \<Rightarrow>
          if 55296 \<le> unit \<and> unit \<le> 56319 then
            (case t of
               x # y # t' \<Rightarrow>
                 if x = backslash \<and> y = CHR ''u'' then
                   (case get_u4 t' of
                      None \<Rightarrow> None
                    | Some (low, r) \<Rightarrow> if 56320 \<le> low \<and> low \<le> 57343 then Some r else None)
                 else None
             | _ \<Rightarrow> None)
          else if 56320 \<le> unit \<and> unit \<le> 57343 then None
          else Some t)"

function string_literals :: "bool \<Rightarrow> bytes \<Rightarrow> bool" where
  "string_literals False [] = True"
| "string_literals False (c # t) = string_literals (c = quote_char) t"
| "string_literals True [] = False"
| "string_literals True (c # t) =
     (if c = backslash then
        (case t of
           [] \<Rightarrow> False
         | e # r \<Rightarrow>
             if e = quote_char \<or> e = backslash \<or> e \<in> set ''/bfnrt'' then string_literals True r
             else if e = CHR ''u'' then
               (case unicode_escape r of
                  None \<Rightarrow> False
                | Some r' \<Rightarrow> if length r' < length t then string_literals True r' else False)
             else False)
      else if c = quote_char then string_literals False t
      else if (of_char c :: nat) < 32 then False
      else string_literals True t)"
  by pat_completeness auto
termination
  by (relation "measure (length \<circ> snd)") auto

definition valid_literals :: "bytes \<Rightarrow> bool" where
  "valid_literals raw \<longleftrightarrow> coerce_utf8 raw = raw \<and> string_literals False raw"

text \<open>\<open>readJCSValue\<close>: no duplicate members, at most 128 levels.\<close>

fun jcs_ok :: "nat \<Rightarrow> json \<Rightarrow> bool" where
  "jcs_ok d (JArr xs) \<longleftrightarrow> d \<le> 128 \<and> list_all (jcs_ok (Suc d)) xs"
| "jcs_ok d (JObj ms) \<longleftrightarrow> d \<le> 128 \<and> distinct (map fst ms) \<and> list_all (\<lambda>(k, v). jcs_ok (Suc d) v) ms"
| "jcs_ok d _ \<longleftrightarrow> d \<le> 128"

subsection \<open>Operations\<close>

definition invalidate :: "tool_catalog \<Rightarrow> tool_catalog" where
  "invalidate c = c\<lparr>cat_build := None, cat_published := [], cat_paginated := False\<rparr>"

definition unpublish :: "tool_catalog \<Rightarrow> tool_catalog" where
  "unpublish c = c\<lparr>cat_published := [], cat_paginated := False\<rparr>"

definition start_list :: "tool_catalog \<Rightarrow> u64 \<times> tool_catalog" where
  "start_list c =
     (let i = cat_next_id c + 1 in
      (i, unpublish (c\<lparr>cat_next_id := i, cat_build := Some \<lparr>cb_id = i, cb_in_flight = True,
         cb_paginated = False, cb_pages = 0, cb_bytes = 0, cb_next = [], cb_seen = [], cb_tools = []\<rparr>\<rparr>)))"

definition continue_list :: "bytes \<Rightarrow> tool_catalog \<Rightarrow> u64 \<times> tool_catalog" where
  "continue_list cursor c =
     (case cat_build c of
        None \<Rightarrow> (0, unpublish c)
      | Some b \<Rightarrow>
          if \<not> cb_in_flight b \<and> cb_next b = cursor
          then (cb_id b, c\<lparr>cat_build := Some (b\<lparr>cb_in_flight := True\<rparr>)\<rparr>)
          else (0, unpublish c))"

text \<open>\<open>beginList\<close>. Its literals were checked with the whole line by \<open>exactListParams\<close>.\<close>

definition begin_list :: "json option \<Rightarrow> tool_catalog \<Rightarrow> u64 \<times> tool_catalog" where
  "begin_list params c =
     (case params of
        None \<Rightarrow> start_list c
      | Some JNull \<Rightarrow> start_list c
      | Some (JObj ms) \<Rightarrow>
          if \<not> jcs_ok 0 (JObj ms) then (0, invalidate c)
          else if list_ex (\<lambda>(k, _). k \<noteq> ''cursor'' \<and> equal_fold k ''cursor'') ms then (0, invalidate c)
          else (case map_of ms ''cursor'' of
                  None \<Rightarrow> start_list c
                | Some (JStr cursor) \<Rightarrow>
                    if cursor = [] \<or> length cursor > max_catalog_cursor then (0, invalidate c)
                    else continue_list cursor c
                | Some _ \<Rightarrow> (0, invalidate c))
      | Some _ \<Rightarrow> (0, invalidate c))"

text \<open>The parameters of a list request without aliases or duplicates, \<^const>\<open>None\<close> if there are some.\<close>

definition exact_list_params :: "bytes \<Rightarrow> json option option" where
  "exact_list_params raw =
     (if \<not> valid_literals raw then None
      else case json_parse raw of
          Some (JObj ms) \<Rightarrow>
            if \<not> jcs_ok 0 (JObj ms) then None
            else if list_ex (\<lambda>(k, _). k \<noteq> ''params'' \<and> equal_fold k ''params'') ms then None
            else Some (map_of ms ''params'')
        | _ \<Rightarrow> None)"

definition discard :: "u64 \<Rightarrow> tool_catalog \<Rightarrow> bool \<times> tool_catalog" where
  "discard i c =
     (case cat_build c of
        Some b \<Rightarrow> if cb_id b = i then (True, c\<lparr>cat_build := None\<rparr>) else (False, c)
      | None \<Rightarrow> (False, c))"

definition catalog_observe :: "tool_catalog \<Rightarrow> bytes \<Rightarrow> tool_observation" where
  "catalog_observe c name =
     (if cat_paginated c then observed_as ''unobserved''
      else case map_of (cat_published c) name of
          Some ob \<Rightarrow> ob
        | None \<Rightarrow> observed_as ''unobserved'')"

definition active_build :: "u64 \<Rightarrow> tool_catalog \<Rightarrow> catalog_build option" where
  "active_build i c =
     (case cat_build c of
        Some b \<Rightarrow> if cb_id b = i \<and> cb_in_flight b then Some b else None
      | None \<Rightarrow> None)"

text \<open>Active, within bounds, paginated.\<close>

definition page_within_bounds :: "u64 \<Rightarrow> nat \<Rightarrow> nat \<Rightarrow> tool_catalog \<Rightarrow> bool \<times> bool \<times> bool" where
  "page_within_bounds i sz count c =
     (case active_build i c of
        None \<Rightarrow> (False, False, False)
      | Some b \<Rightarrow>
          (True, cb_pages b < max_catalog_pages \<and> cb_bytes b + sz \<le> max_catalog_bytes
             \<and> length (cb_tools b) + count \<le> max_catalog_tools, cb_paginated b))"

datatype page_error = StalePage | PageBound | CursorTooLong | CursorCycle | DuplicateTool

definition check_page :: "nat \<Rightarrow> observations \<Rightarrow> bytes \<Rightarrow> catalog_build \<Rightarrow> page_error option" where
  "check_page sz obs next b =
     (if cb_pages b \<ge> max_catalog_pages \<or> cb_bytes b + sz > max_catalog_bytes
         \<or> length (cb_tools b) + length obs > max_catalog_tools then Some PageBound
      else if length next > max_catalog_cursor then Some CursorTooLong
      else if next \<noteq> [] \<and> next \<in> set (cb_seen b) then Some CursorCycle
      else if list_ex (\<lambda>(n, _). map_of (cb_tools b) n \<noteq> None) obs then Some DuplicateTool
      else None)"

definition add_page ::
  "u64 \<Rightarrow> nat \<Rightarrow> observations \<Rightarrow> bytes \<Rightarrow> tool_catalog \<Rightarrow> page_error option \<times> tool_catalog" where
  "add_page i sz obs next c =
     (if i = 0 then (None, c)
      else case active_build i c of
          None \<Rightarrow> (Some StalePage, c)
        | Some b \<Rightarrow>
            (case check_page sz obs next b of
               Some e \<Rightarrow> (Some e, c\<lparr>cat_build := None\<rparr>)
             | None \<Rightarrow>
                 let b' = b\<lparr>cb_tools := cb_tools b @ obs, cb_pages := cb_pages b + 1,
                     cb_bytes := cb_bytes b + sz, cb_in_flight := False\<rparr> in
                 if next = [] then
                   (None, c\<lparr>cat_published := cb_tools b', cat_paginated := cb_paginated b, cat_build := None\<rparr>)
                 else
                   (None, c\<lparr>cat_build := Some (b'\<lparr>cb_paginated := True, cb_seen := next # cb_seen b,
                      cb_next := next\<rparr>)\<rparr>)))"

text \<open>The observations of a page; \<open>digest\<close> is the hash of a definition, if it has one.\<close>

fun page_observations :: "(json \<Rightarrow> bytes option) \<Rightarrow> observations \<Rightarrow> json list \<Rightarrow> observations option" where
  "page_observations digest acc [] = Some acc"
| "page_observations digest acc (raw # raws) =
     (case as_map raw of
        Some (Some ms) \<Rightarrow>
          (case Option.bind (map_of ms ''name'') as_string of
             None \<Rightarrow> None
           | Some name \<Rightarrow>
               if name = [] then None
               else if map_of acc name \<noteq> None then None
               else page_observations digest
                 (acc @ [(name, case digest raw of
                    None \<Rightarrow> observed_as ''unhashable''
                  | Some h \<Rightarrow> \<lparr>ob_hash = h, ob_pin_hash = [], ob_status = ''unpinned''\<rparr>)]) raws)
      | _ \<Rightarrow> None)"

subsection \<open>Pins\<close>

text \<open>The observation with its status, and the cause of a refusal, empty for none.\<close>

definition pin_observation ::
  "engine \<Rightarrow> bytes \<Rightarrow> bytes \<Rightarrow> bytes \<Rightarrow> tool_observation \<Rightarrow> tool_observation \<times> bytes" where
  "pin_observation e agent upstream tool ob =
     (case tool_pin_of e agent upstream tool of
        None \<Rightarrow>
          if strict_tool_pins e agent \<or> (upstream = [] \<and> has_tool_pin_constraints e agent)
          then (ob\<lparr>ob_status := ''unpinned''\<rparr>, ''pin_unverified'') else (ob, [])
      | Some pin \<Rightarrow>
          let ob' = ob\<lparr>ob_pin_hash := sha256_hex pin\<rparr> in
          if ob_status ob = [] \<or> ob_status ob = ''unobserved''
          then (ob'\<lparr>ob_status := ''unobserved''\<rparr>, ''tool_catalog_refresh_required'')
          else if ob_status ob = ''unhashable'' then (ob', ''pin_unverified'')
          else if ob_hash ob \<noteq> sha256_hex pin then (ob'\<lparr>ob_status := ''mismatch''\<rparr>, ''pin_mismatch'')
          else (ob'\<lparr>ob_status := ''matched''\<rparr>, []))"

definition jcs_version :: bytes where
  "jcs_version = ''jcs-rfc8785-v1''"

definition set_observation_fields :: "tool_observation \<Rightarrow> event \<Rightarrow> event" where
  "set_observation_fields ob ev =
     ev\<lparr>tool_pin_status := ob_status ob, tool_pin_hash := ob_pin_hash ob,
        tool_hash_version :=
          (if ob_hash ob \<noteq> [] \<or> ob_pin_hash ob \<noteq> [] then jcs_version else tool_hash_version ev),
        tool_definition_hash := ob_hash ob\<rparr>"

subsection \<open>Histories of the catalog\<close>

datatype catalog_event =
    CBegin "json option"
  | CPage u64 nat observations bytes
  | CDiscard u64
  | CInvalidate

fun catalog_apply :: "catalog_event \<Rightarrow> tool_catalog \<Rightarrow> tool_catalog" where
  "catalog_apply (CBegin params) c = snd (begin_list params c)"
| "catalog_apply (CPage i sz obs next) c = snd (add_page i sz obs next c)"
| "catalog_apply (CDiscard i) c = snd (discard i c)"
| "catalog_apply CInvalidate c = invalidate c"

definition catalog_run :: "catalog_event list \<Rightarrow> tool_catalog" where
  "catalog_run evs = fold catalog_apply evs empty_catalog"

lemma catalog_run_simps [simp]:
  "catalog_run [] = empty_catalog"
  "catalog_run (evs @ [e]) = catalog_apply e (catalog_run evs)"
  by (simp_all add: catalog_run_def)

text \<open>A list request begins a generation, continues the active one, or leaves nothing published.\<close>

lemma begin_list_cases:
  "begin_list params c = start_list c
   \<or> begin_list params c = (0, invalidate c)
   \<or> begin_list params c = (0, unpublish c)
   \<or> (\<exists>b. cat_build c = Some b \<and> \<not> cb_in_flight b
        \<and> begin_list params c = (cb_id b, c\<lparr>cat_build := Some (b\<lparr>cb_in_flight := True\<rparr>)\<rparr>))"
  by (auto simp: begin_list_def continue_list_def split: option.split json.split)

lemma add_page_cases:
  "add_page i sz obs next c = (e, c') \<Longrightarrow>
     c' = c \<or> c' = c\<lparr>cat_build := None\<rparr>
     \<or> (\<exists>b. active_build i c = Some b \<and> check_page sz obs next b = None
          \<and> (if next = []
             then c' = c\<lparr>cat_published := cb_tools b @ obs, cat_paginated := cb_paginated b, cat_build := None\<rparr>
             else c' = c\<lparr>cat_build := Some (b\<lparr>cb_tools := cb_tools b @ obs, cb_pages := cb_pages b + 1,
               cb_bytes := cb_bytes b + sz, cb_in_flight := False, cb_paginated := True,
               cb_seen := next # cb_seen b, cb_next := next\<rparr>)\<rparr>))"
  by (auto simp: add_page_def Let_def split: option.splits if_splits)

lemma discard_cases: "snd (discard i c) = c \<or> snd (discard i c) = c\<lparr>cat_build := None\<rparr>"
  by (auto simp: discard_def split: option.split)

lemma active_build_Some: "active_build i c = Some b \<Longrightarrow> cat_build c = Some b \<and> cb_id b = i \<and> cb_in_flight b"
  by (auto simp: active_build_def split: option.splits if_splits)

text \<open>A generation that a list request of this history began and nothing invalidated since.\<close>

definition begun :: "catalog_event list \<Rightarrow> u64 \<Rightarrow> bool" where
  "begun evs i \<longleftrightarrow>
     (\<exists>pre params mid. evs = pre @ CBegin params # mid \<and> fst (begin_list params (catalog_run pre)) = i
        \<and> CInvalidate \<notin> set mid)"

text \<open>The page that published: the whole listing of such a generation, with no list request since.\<close>

definition published_by :: "catalog_event list \<Rightarrow> observations \<Rightarrow> bool" where
  "published_by evs obs \<longleftrightarrow>
     (\<exists>pre i sz post. evs = pre @ CPage i sz obs [] # post \<and> begun pre i
        \<and> CInvalidate \<notin> set post \<and> (\<forall>params. CBegin params \<notin> set post))"

lemma begun_snoc:
  assumes "begun evs i" and "e \<noteq> CInvalidate"
  shows "begun (evs @ [e]) i"
proof -
  obtain pre params mid where p: "evs = pre @ CBegin params # mid" "fst (begin_list params (catalog_run pre)) = i"
      "CInvalidate \<notin> set mid"
    using assms(1) unfolding begun_def by blast
  have "evs @ [e] = pre @ CBegin params # (mid @ [e])" using p(1) by simp
  moreover have "CInvalidate \<notin> set (mid @ [e])" using p(3) assms(2) by simp
  ultimately show ?thesis using p(2) unfolding begun_def by blast
qed

lemma begun_now: "begun (evs @ [CBegin params]) (fst (begin_list params (catalog_run evs)))"
  unfolding begun_def by (intro exI [of _ evs] exI [of _ params] exI [of _ "[]"]) simp

lemma published_snoc:
  assumes "published_by evs obs" and "e \<noteq> CInvalidate" and "\<forall>params. e \<noteq> CBegin params"
  shows "published_by (evs @ [e]) obs"
proof -
  obtain pre i sz post where p: "evs = pre @ CPage i sz obs [] # post" "begun pre i"
      "CInvalidate \<notin> set post" "\<forall>params. CBegin params \<notin> set post"
    using assms(1) unfolding published_by_def by blast
  have "evs @ [e] = pre @ CPage i sz obs [] # (post @ [e])" using p(1) by simp
  moreover have "CInvalidate \<notin> set (post @ [e])" "\<forall>params. CBegin params \<notin> set (post @ [e])"
    using p(3,4) assms(2,3) by (simp_all, metis)
  ultimately show ?thesis using p(2) unfolding published_by_def by blast
qed

lemma published_now: "begun evs i \<Longrightarrow> published_by (evs @ [CPage i sz obs []]) obs"
  unfolding published_by_def by (intro exI [of _ evs] exI [of _ i] exI [of _ sz] exI [of _ "[]"]) simp

definition traced :: "catalog_event list \<Rightarrow> tool_catalog \<Rightarrow> bool" where
  "traced evs c \<longleftrightarrow>
     (case cat_build c of
        None \<Rightarrow> True
      | Some b \<Rightarrow> begun evs (cb_id b) \<and> (\<not> cb_paginated b \<longrightarrow> cb_tools b = []) \<and> cat_published c = [])
     \<and> (\<not> cat_paginated c \<longrightarrow> cat_published c = [] \<or> published_by evs (cat_published c))"

lemma traced_cleared: "traced evs c' \<Longrightarrow> traced evs (c'\<lparr>cat_build := None\<rparr>)"
  by (simp add: traced_def split: option.splits)

lemma traced_keep:
  assumes "traced evs c" and "e \<noteq> CInvalidate" and "\<forall>params. e \<noteq> CBegin params"
  shows "traced (evs @ [e]) c"
  using assms begun_snoc [OF _ assms(2)] published_snoc [OF _ assms(2,3)]
  unfolding traced_def by (auto split: option.splits)

lemma traced_unpublish:
  assumes "traced evs c"
  shows "traced (evs @ [CBegin params]) (unpublish c)"
  using assms begun_snoc [of evs _ "CBegin params"] by (auto simp: traced_def unpublish_def split: option.splits)

lemma catalog_traced: "traced evs (catalog_run evs)"
proof (induction evs rule: rev_induct)
  case Nil
  then show ?case by (simp add: traced_def empty_catalog_def)
next
  case (snoc e evs)
  let ?c = "catalog_run evs"
  show ?case
  proof (cases e)
    case (CBegin params)
    consider (start) "begin_list params ?c = start_list ?c" | (inv) "begin_list params ?c = (0, invalidate ?c)"
      | (unp) "begin_list params ?c = (0, unpublish ?c)"
      | (cont) b where "cat_build ?c = Some b" "begin_list params ?c = (cb_id b, ?c\<lparr>cat_build := Some (b\<lparr>cb_in_flight := True\<rparr>)\<rparr>)"
      using begin_list_cases [of params ?c] by blast
    then show ?thesis
    proof cases
      case start
      have "begun (evs @ [CBegin params]) (fst (start_list ?c))" using begun_now [of evs params] start by simp
      then show ?thesis using start CBegin by (simp add: traced_def start_list_def unpublish_def Let_def)
    next
      case inv
      then show ?thesis using CBegin by (simp add: traced_def invalidate_def)
    next
      case unp
      then show ?thesis using CBegin traced_unpublish [OF snoc] by simp
    next
      case cont
      then have "traced (evs @ [CBegin params]) (?c\<lparr>cat_build := Some (b\<lparr>cb_in_flight := True\<rparr>)\<rparr>)"
        using snoc begun_snoc [of evs "cb_id b" "CBegin params"] by (simp add: traced_def)
      then show ?thesis using cont CBegin by simp
    qed
  next
    case (CPage i sz obs nxt)
    have k: "traced (evs @ [e]) ?c" by (rule traced_keep [OF snoc]) (simp_all add: CPage)
    obtain er c' where a: "add_page i sz obs nxt ?c = (er, c')" by fastforce
    consider (same) "c' = ?c" | (gone) "c' = ?c\<lparr>cat_build := None\<rparr>"
      | (page) b where "active_build i ?c = Some b"
          "if nxt = []
             then c' = ?c\<lparr>cat_published := cb_tools b @ obs, cat_paginated := cb_paginated b, cat_build := None\<rparr>
             else c' = ?c\<lparr>cat_build := Some (b\<lparr>cb_tools := cb_tools b @ obs, cb_pages := cb_pages b + 1,
               cb_bytes := cb_bytes b + sz, cb_in_flight := False, cb_paginated := True,
               cb_seen := nxt # cb_seen b, cb_next := nxt\<rparr>)\<rparr>"
      using add_page_cases [OF a] by blast
    then have "traced (evs @ [e]) c'"
    proof cases
      case same
      then show ?thesis using k by simp
    next
      case gone
      then show ?thesis using traced_cleared [OF k] by simp
    next
      case page
      note b = active_build_Some [OF page(1)]
      then have t: "begun evs i" "\<not> cb_paginated b \<longrightarrow> cb_tools b = []" "cat_published ?c = []"
        using snoc by (simp_all add: traced_def)
      show ?thesis
      proof (cases "nxt = []")
        case True
        then have c': "c' = ?c\<lparr>cat_published := cb_tools b @ obs, cat_paginated := cb_paginated b, cat_build := None\<rparr>"
          using page(2) by simp
        have "published_by (evs @ [e]) obs" unfolding CPage True by (rule published_now [OF t(1)])
        then show ?thesis unfolding c' traced_def using t(2) by simp
      next
        case False
        then show ?thesis
          using page(2) begun_snoc [OF t(1), of e] CPage b t(3) k by (simp add: traced_def)
      qed
    qed
    then show ?thesis using a CPage by simp
  next
    case (CDiscard i)
    have k: "traced (evs @ [e]) ?c" by (rule traced_keep [OF snoc]) (simp_all add: CDiscard)
    then show ?thesis using discard_cases [of i ?c] traced_cleared [OF k] CDiscard by auto
  next
    case CInvalidate
    then show ?thesis by (simp add: traced_def invalidate_def)
  qed
qed

subsection \<open>Bounds\<close>

definition tools_ok :: "observations \<Rightarrow> bool" where
  "tools_ok obs \<longleftrightarrow> distinct (map fst obs) \<and> length obs \<le> max_catalog_tools"

definition build_ok :: "catalog_build \<Rightarrow> bool" where
  "build_ok b \<longleftrightarrow> tools_ok (cb_tools b) \<and> cb_pages b \<le> max_catalog_pages \<and> cb_bytes b \<le> max_catalog_bytes
     \<and> distinct (cb_seen b) \<and> length (cb_seen b) = cb_pages b
     \<and> (cb_in_flight b \<or> cb_next b \<in> set (cb_seen b))"

definition catalog_ok :: "tool_catalog \<Rightarrow> bool" where
  "catalog_ok c \<longleftrightarrow> tools_ok (cat_published c) \<and> (case cat_build c of None \<Rightarrow> True | Some b \<Rightarrow> build_ok b)"

text \<open>The pages that the proxy hands over carry each name once.\<close>

fun page_event_ok :: "catalog_event \<Rightarrow> bool" where
  "page_event_ok (CPage i sz obs next) = distinct (map fst obs)"
| "page_event_ok _ = True"

lemma check_page_ok:
  assumes "check_page sz obs nxt b = None" and "build_ok b" and "distinct (map fst obs)"
  shows "tools_ok (cb_tools b @ obs)" "cb_pages b + 1 \<le> max_catalog_pages" "cb_bytes b + sz \<le> max_catalog_bytes"
    "nxt \<noteq> [] \<Longrightarrow> nxt \<notin> set (cb_seen b)"
proof -
  have c: "\<not> cb_pages b \<ge> max_catalog_pages" "\<not> cb_bytes b + sz > max_catalog_bytes"
      "\<not> length (cb_tools b) + length obs > max_catalog_tools" "\<not> (nxt \<noteq> [] \<and> nxt \<in> set (cb_seen b))"
      "\<not> list_ex (\<lambda>(n, _). map_of (cb_tools b) n \<noteq> None) obs"
    using assms(1) unfolding check_page_def by (auto split: if_splits)
  show "cb_pages b + 1 \<le> max_catalog_pages" "cb_bytes b + sz \<le> max_catalog_bytes"
    "nxt \<noteq> [] \<Longrightarrow> nxt \<notin> set (cb_seen b)" using c(1,2,4) by auto
  have "set (map fst (cb_tools b)) \<inter> set (map fst obs) = {}"
  proof (rule ccontr)
    assume "set (map fst (cb_tools b)) \<inter> set (map fst obs) \<noteq> {}"
    then obtain n where n1: "n \<in> fst ` set (cb_tools b)" "n \<in> fst ` set obs" by auto
    then obtain v where n: "n \<in> fst ` set (cb_tools b)" "(n, v) \<in> set obs" by force
    then have "map_of (cb_tools b) n \<noteq> None" by (simp only: map_of_eq_None_iff not_not)
    then show False using c(5) n(2) by (auto simp: list_ex_iff)
  qed
  then show "tools_ok (cb_tools b @ obs)"
    using assms(2,3) c(3) by (simp add: tools_ok_def build_ok_def)
qed

lemma catalog_ok_cleared: "catalog_ok c \<Longrightarrow> catalog_ok (c\<lparr>cat_build := None\<rparr>)"
  by (simp add: catalog_ok_def)

lemma catalog_ok_apply:
  assumes "catalog_ok c" and "page_event_ok e"
  shows "catalog_ok (catalog_apply e c)"
proof (cases e)
  case (CBegin params)
  have "catalog_ok (snd (start_list c))"
    by (simp add: start_list_def Let_def unpublish_def catalog_ok_def build_ok_def tools_ok_def)
  moreover have "catalog_ok (invalidate c)" by (simp add: invalidate_def catalog_ok_def tools_ok_def)
  moreover have "catalog_ok (unpublish c)"
    using assms(1) by (simp add: unpublish_def catalog_ok_def tools_ok_def)
  moreover have "catalog_ok (c\<lparr>cat_build := Some (b\<lparr>cb_in_flight := True\<rparr>)\<rparr>)" if "cat_build c = Some b" for b
    using assms(1) that by (simp add: catalog_ok_def build_ok_def)
  ultimately show ?thesis using begin_list_cases [of params c] CBegin by fastforce
next
  case (CPage i sz obs nxt)
  obtain er c' where a: "add_page i sz obs nxt c = (er, c')" by fastforce
  have d: "distinct (map fst obs)" using assms(2) CPage by simp
  have "catalog_ok c'"
    using add_page_cases [OF a]
  proof (elim disjE exE conjE)
    fix b
    assume b: "active_build i c = Some b" "check_page sz obs nxt b = None"
      and n: "if nxt = [] then c' = c\<lparr>cat_published := cb_tools b @ obs, cat_paginated := cb_paginated b, cat_build := None\<rparr>
             else c' = c\<lparr>cat_build := Some (b\<lparr>cb_tools := cb_tools b @ obs, cb_pages := cb_pages b + 1,
               cb_bytes := cb_bytes b + sz, cb_in_flight := False, cb_paginated := True,
               cb_seen := nxt # cb_seen b, cb_next := nxt\<rparr>)\<rparr>"
    have ok: "build_ok b" using assms(1) active_build_Some [OF b(1)] by (simp add: catalog_ok_def)
    note p = check_page_ok [OF b(2) ok d]
    show "catalog_ok c'"
      using n p ok assms(1) by (cases "nxt = []") (simp_all add: catalog_ok_def build_ok_def)
  qed (use assms(1) catalog_ok_cleared in auto)
  then show ?thesis using a CPage by simp
next
  case (CDiscard i)
  then show ?thesis using discard_cases [of i c] assms(1) catalog_ok_cleared by auto
next
  case CInvalidate
  then show ?thesis by (simp add: invalidate_def catalog_ok_def tools_ok_def)
qed

lemma page_observations_distinct:
  "page_observations digest acc raws = Some obs \<Longrightarrow> distinct (map fst acc) \<Longrightarrow>
    distinct (map fst obs) \<and> (\<forall>ob\<in>set obs. ob \<in> set acc \<or> ob_status (snd ob) \<noteq> ''unobserved'')
    \<and> length obs = length acc + length raws"
proof (induction digest acc raws rule: page_observations.induct)
  case (2 digest acc raw raws)
  obtain ms name where n: "as_map raw = Some (Some ms)" "Option.bind (map_of ms ''name'') as_string = Some name"
      "name \<noteq> []" "map_of acc name = None"
    using 2(2) by (auto split: option.splits if_splits)
  let ?ob = "case digest raw of None \<Rightarrow> observed_as ''unhashable''
                  | Some h \<Rightarrow> \<lparr>ob_hash = h, ob_pin_hash = [], ob_status = ''unpinned''\<rparr>"
  have r: "page_observations digest (acc @ [(name, ?ob)]) raws = Some obs" using 2(2) n by simp
  have d: "distinct (map fst (acc @ [(name, ?ob)]))"
    using 2(3) n(4) by (simp add: map_of_eq_None_iff)
  have s: "ob_status ?ob \<noteq> ''unobserved''" by (simp add: observed_as_def split: option.split)
  show ?case using "2.IH" [OF n(1) refl n(2,3) _ r d] n(4) s by auto
qed simp

subsection \<open>Properties\<close>

lemma catalog_stays_ok:
  assumes "list_all page_event_ok evs"
  shows "catalog_ok (catalog_run evs)"
  using assms
proof (induction evs rule: rev_induct)
  case Nil
  then show ?case by (simp add: empty_catalog_def catalog_ok_def tools_ok_def)
next
  case (snoc e evs)
  then show ?case using catalog_ok_apply by simp
qed

text \<open>
  Over every history of list requests, pages, discards and invalidations, the catalog holds at most
  4096 tools, 32 pages and 10 MiB of listing, names each tool once, and its cursors do not repeat.
\<close>

theorem catalog_bounded:
  assumes "list_all page_event_ok evs"
  shows "catalog_ok (catalog_run evs)"
  by (rule catalog_stays_ok [OF assms])

lemma catalog_bounded_witness:
  "catalog_ok (catalog_run [CBegin None, CPage 1 10 [(''t'', observed_as ''unhashable'')] ''c'',
     CBegin (Some (JObj [(''cursor'', JStr ''c'')])), CPage 1 10 [(''u'', observed_as ''unhashable'')] []])"
  by (rule catalog_bounded) simp

text \<open>
  C26. A call to a pinned tool passes the pin check only when the latest listing was asked for and answered
  in one page, nothing invalidated it and no listing was asked for since, and the definition it
  advertised has exactly the pinned hash.
\<close>

theorem pinned_call_matches_latest_listing:
  assumes "pin_observation e agent upstream tool (catalog_observe (catalog_run evs) tool) = (ob, [])"
    and "tool_pin_of e agent upstream tool = Some pin"
  shows "\<exists>pre i sz obs post adv. evs = pre @ CPage i sz obs [] # post \<and> begun pre i
    \<and> CInvalidate \<notin> set post \<and> (\<forall>params. CBegin params \<notin> set post)
    \<and> map_of obs tool = Some adv \<and> ob_hash adv = sha256_hex pin \<and> ob_status ob = ''matched''"
proof -
  let ?c = "catalog_run evs"
  let ?o = "catalog_observe ?c tool"
  have o: "ob_status ?o \<noteq> ''unobserved''" "ob_hash ?o = sha256_hex pin" "ob_status ob = ''matched''"
    using assms by (auto simp: pin_observation_def Let_def split: if_splits)
  then have np: "\<not> cat_paginated ?c" and adv: "map_of (cat_published ?c) tool = Some ?o"
    by (auto simp: catalog_observe_def observed_as_def split: if_splits option.splits)
  then have "published_by evs (cat_published ?c)"
    using catalog_traced [of evs] unfolding traced_def by auto
  then show ?thesis unfolding published_by_def using adv o(2,3) by blast
qed

definition demo_pin_engine :: engine where
  "demo_pin_engine =
     \<lparr>config = \<lparr>agents = [(''a'', empty_policy\<lparr>tool_pins := [(''u'', [(''t'', \<lparr>hash_version = ''v'', sha256_hex = ''h''\<rparr>)])]\<rparr>)],
        audit = None\<rparr>, warnings = []\<rparr>"

lemma pinned_call_matches_latest_listing_witness:
  "\<exists>pre i sz obs post adv.
     [CBegin None, CPage 1 10 [(''t'', \<lparr>ob_hash = ''h'', ob_pin_hash = [], ob_status = ''unpinned''\<rparr>)] []] = pre @ CPage i sz obs [] # post
     \<and> begun pre i \<and> CInvalidate \<notin> set post \<and> (\<forall>params. CBegin params \<notin> set post)
     \<and> map_of obs ''t'' = Some adv \<and> ob_hash adv = ''h'' \<and> ''matched'' = ''matched''"
proof -
  let ?evs = "[CBegin None, CPage 1 10 [(''t'', \<lparr>ob_hash = ''h'', ob_pin_hash = [], ob_status = ''unpinned''\<rparr>)] []]"
  have run: "catalog_run ?evs = \<lparr>cat_next_id = 1, cat_build = None,
      cat_published = [(''t'', \<lparr>ob_hash = ''h'', ob_pin_hash = [], ob_status = ''unpinned''\<rparr>)], cat_paginated = False\<rparr>"
    by (simp add: catalog_run_def begin_list_def start_list_def unpublish_def empty_catalog_def add_page_def
      active_build_def check_page_def Let_def max_catalog_pages_def max_catalog_bytes_def max_catalog_tools_def)
  have p: "tool_pin_of demo_pin_engine ''a'' ''u'' ''t'' = Some \<lparr>hash_version = ''v'', sha256_hex = ''h''\<rparr>"
    by (simp add: demo_pin_engine_def tool_pin_of_def upstream_pins_def policy_or_zero_def agent_policy_of_def
      empty_policy_def)
  have "pin_observation demo_pin_engine ''a'' ''u'' ''t'' (catalog_observe (catalog_run ?evs) ''t'') =
      (\<lparr>ob_hash = ''h'', ob_pin_hash = ''h'', ob_status = ''matched''\<rparr>, [])"
    unfolding pin_observation_def p run by (simp add: catalog_observe_def)
  from pinned_call_matches_latest_listing [OF this p] show ?thesis by simp
qed

end
