(* ===== verification/Inject.thy ===== *)
theory Inject
  imports Message Policy
begin

text \<open>
  Credential injection and redaction: \<^verbatim>\<open>internal/proxy/inject.go\<close> and
  \<^verbatim>\<open>internal/proxy/scrub.go\<close>. The resolver of secret references is an argument,
  \<^const>\<open>None\<close> for an error.
\<close>

subsection \<open>Setting an argument\<close>

text \<open>\<open>setAtPathRaw\<close>: the string at a path, with the objects on the way created as needed.\<close>

fun set_at_path :: "bytes list \<Rightarrow> bytes \<Rightarrow> members \<Rightarrow> members option" where
  "set_at_path [] v obj = None"
| "set_at_path [k] v obj = Some (put k (JStr (coerce_utf8 v)) obj)"
| "set_at_path (k # p # ps) v obj =
     (case (case map_of obj k of None \<Rightarrow> Some [] | Some raw \<Rightarrow> raw_map raw) of
        None \<Rightarrow> None
      | Some nxt \<Rightarrow> map_option (\<lambda>n. put k (JObj n) obj) (set_at_path (p # ps) v nxt))"

definition set_arg_path :: "bytes \<Rightarrow> bytes \<Rightarrow> members \<Rightarrow> members option" where
  "set_arg_path path v params =
     (case (case map_of params ''arguments'' of None \<Rightarrow> Some [] | Some raw \<Rightarrow> raw_map raw) of
        None \<Rightarrow> None
      | Some args \<Rightarrow>
          map_option (\<lambda>a. put ''arguments'' (JObj a) params) (set_at_path (split_on CHR ''.'' path) v args))"

subsection \<open>Applying the rules\<close>

datatype inject_failure =
    InjectInternal | InjectUnresolved bytes | InjectTooShort bytes | InjectConflict bytes | InjectUnsettable bytes

fun failure_text :: "inject_failure \<Rightarrow> bytes" where
  "failure_text InjectInternal = ''inject-internal-error''"
| "failure_text (InjectUnresolved r) = ''inject-unresolved ref='' @ r"
| "failure_text (InjectTooShort r) = ''inject-too-short ref='' @ r"
| "failure_text (InjectConflict a) = ''inject-conflict arg='' @ a"
| "failure_text (InjectUnsettable a) = ''inject-unsettable arg='' @ a"

fun resolve_rules :: "(bytes \<Rightarrow> bytes option) \<Rightarrow> inject_rule list \<Rightarrow> inject_failure + (inject_rule \<times> bytes) list" where
  "resolve_rules resolver [] = Inr []"
| "resolve_rules resolver (r # rs) =
     (case resolver (ref r) of
        None \<Rightarrow> Inl (InjectUnresolved (ref r))
      | Some v \<Rightarrow>
          if length v < 8 then Inl (InjectTooShort (ref r))
          else (case resolve_rules resolver rs of Inl e \<Rightarrow> Inl e | Inr xs \<Rightarrow> Inr ((r, v) # xs)))"

text \<open>The value that a rule writes.\<close>

definition inject_value :: "inject_rule \<Rightarrow> bytes \<Rightarrow> bytes" where
  "inject_value r v = (if template r \<noteq> [] then replace_all (template r) ''{secret}'' v else v)"

text \<open>
  An argument that two rules write. The code counts in a map and reports any of them; this is the
  first in the order of the rules.
\<close>

fun repeated_arg :: "bytes list \<Rightarrow> bytes option" where
  "repeated_arg [] = None"
| "repeated_arg (a # as) = (if a \<in> set as then Some a else repeated_arg as)"

fun apply_resolved :: "(inject_rule \<times> bytes) list \<Rightarrow> members \<Rightarrow> inject_failure + members" where
  "apply_resolved [] params = Inr params"
| "apply_resolved ((r, v) # rs) params =
     (case set_arg_path (arg r) (inject_value r v) params of
        None \<Rightarrow> Inl (InjectUnsettable (arg r))
      | Some p \<Rightarrow> apply_resolved rs p)"

definition apply_inject ::
  "(bytes \<Rightarrow> bytes option) \<Rightarrow> inject_rule list \<Rightarrow> json \<Rightarrow> inject_failure + (json \<times> (inject_rule \<times> bytes) list)" where
  "apply_inject resolver rules params =
     (if rules = [] then Inr (params, [])
      else case raw_map params of
          None \<Rightarrow> Inl InjectInternal
        | Some ms \<Rightarrow>
            (case resolve_rules resolver rules of
               Inl e \<Rightarrow> Inl e
             | Inr resolved \<Rightarrow>
                 (case repeated_arg (map (\<lambda>(r, v). arg r) resolved) of
                    Some a \<Rightarrow> Inl (InjectConflict a)
                  | None \<Rightarrow>
                      (case apply_resolved resolved ms of
                         Inl e \<Rightarrow> Inl e
                       | Inr ms' \<Rightarrow> Inr (JObj ms', resolved)))))"

text \<open>The values to redact afterwards, in the order they are added.\<close>

definition scrub_values :: "(inject_rule \<times> bytes) list \<Rightarrow> bytes list" where
  "scrub_values resolved =
     concat (map (\<lambda>(r, v). if template r \<noteq> [] then [v, inject_value r v] else [v]) resolved)"

subsection \<open>Encodings of a secret\<close>

definition url_safe :: "char \<Rightarrow> bool" where
  "url_safe c \<longleftrightarrow>
     (let n = of_char c :: nat in
      (65 \<le> n \<and> n \<le> 90) \<or> (97 \<le> n \<and> n \<le> 122) \<or> (48 \<le> n \<and> n \<le> 57) \<or> c \<in> set ''-_.~'')"

definition hex_byte :: "char \<Rightarrow> bytes" where
  "hex_byte c = hex_encode [c]"

text \<open>\<open>url.QueryEscape\<close> and \<open>lowercaseHexEscape\<close>.\<close>

definition query_escape :: "bytes \<Rightarrow> bytes" where
  "query_escape v =
     concat (map (\<lambda>c. if url_safe c then [c] else if c = CHR '' '' then ''+'' else CHR ''%'' # to_upper (hex_byte c)) v)"

definition lowercase_hex_escape :: "bytes \<Rightarrow> bytes" where
  "lowercase_hex_escape v = concat (map (\<lambda>c. if url_safe c then [c] else CHR ''%'' # hex_byte c) v)"

definition base64_digit :: "bytes \<Rightarrow> nat \<Rightarrow> char" where
  "base64_digit extra n =
     (if n < 26 then char_of (65 + n) else if n < 52 then char_of (71 + n)
      else if n < 62 then char_of (n - 4) else extra ! (n - 62))"

text \<open>Base64 with the two last digits of the alphabet and the padding as arguments.\<close>

fun base64 :: "bytes \<Rightarrow> bytes \<Rightarrow> bytes \<Rightarrow> bytes" where
  "base64 extra pad [] = []"
| "base64 extra pad [a] =
     (let n = 65536 * of_char a in
      [base64_digit extra (n div 262144), base64_digit extra (n div 4096 mod 64)] @ pad @ pad)"
| "base64 extra pad [a, b] =
     (let n = 65536 * of_char a + 256 * of_char b in
      [base64_digit extra (n div 262144), base64_digit extra (n div 4096 mod 64),
       base64_digit extra (n div 64 mod 64)] @ pad)"
| "base64 extra pad (a # b # c # s) =
     (let n = 65536 * of_char a + 256 * of_char b + of_char c in
      [base64_digit extra (n div 262144), base64_digit extra (n div 4096 mod 64),
       base64_digit extra (n div 64 mod 64), base64_digit extra (n mod 64)] @ base64 extra pad s)"

text \<open>The fields of \<open>scrubEncodings\<close>, in the order in which \<open>scrub\<close> replaces them.\<close>

definition encodings :: "bytes \<Rightarrow> bytes list" where
  "encodings v =
     [v, esc_string v, query_escape v, lowercase_hex_escape v, base64 ''+/'' ''='' v, base64 ''+/'' [] v,
      base64 ''-_'' ''='' v, base64 ''-_'' [] v]"

subsection \<open>The scrub set\<close>

text \<open>The tracked values, most recently used first.\<close>

record scrub_set =
  sc_max :: nat
  sc_values :: "bytes list"

definition scrub_add :: "bytes \<Rightarrow> scrub_set \<Rightarrow> scrub_set" where
  "scrub_add v s =
     (if v \<in> set (sc_values s) then s\<lparr>sc_values := v # remove1 v (sc_values s)\<rparr>
      else if length (sc_values s) \<ge> sc_max s then s\<lparr>sc_values := v # butlast (sc_values s)\<rparr>
      else s\<lparr>sc_values := v # sc_values s\<rparr>)"

definition marker :: bytes where
  "marker = ''[nockguard:redacted]''"

text \<open>
  \<open>bytes.ReplaceAll\<close>. An empty pattern, which no tracked value of eight bytes or more has, would
  match between all runes.
\<close>

definition scrub_value :: "bytes \<Rightarrow> bytes \<Rightarrow> bytes" where
  "scrub_value v line = fold (\<lambda>e l. replace_all l e marker) (encodings v) line"

text \<open>\<open>scrub\<close> walks the map in an unspecified order, given here as a list of the tracked values.\<close>

definition scrub :: "bytes list \<Rightarrow> bytes \<Rightarrow> bytes" where
  "scrub order line = fold scrub_value order line"

definition max_encoding_length :: "scrub_set \<Rightarrow> nat" where
  "max_encoding_length s = fold max (map length (concat (map encodings (sc_values s)))) 0"

text \<open>The longest proper prefix of an encoding that the data ends with.\<close>

fun longest_tail :: "nat \<Rightarrow> nat \<Rightarrow> bytes \<Rightarrow> bytes \<Rightarrow> nat" where
  "longest_tail 0 best data e = best"
| "longest_tail (Suc n) best data e =
     (if Suc n \<le> best then best
      else if has_suffix data (take (Suc n) e) then Suc n
      else longest_tail n best data e)"

definition stream_tail :: "scrub_set \<Rightarrow> bytes \<Rightarrow> nat" where
  "stream_tail s data =
     fold (\<lambda>e best. longest_tail (min (length data) (length e - 1)) best data e)
       (concat (map encodings (sc_values s))) 0"

subsection \<open>Replacing leaves nothing behind\<close>

lemma contains_prefix: "has_prefix s p \<Longrightarrow> contains s p"
  by (cases s) (auto simp: has_prefix_def)

lemma contains_Cons: "contains (c # s) p \<longleftrightarrow> has_prefix (c # s) p \<or> contains s p"
  by simp

lemma has_prefix_Cons: "has_prefix (c # s) (d # p) \<longleftrightarrow> c = d \<and> has_prefix s p"
  by (auto simp: has_prefix_def)

text \<open>A text without the separator does not span it.\<close>

lemma contains_sep:
  assumes "x \<notin> set p" and "p \<noteq> []"
  shows "contains (u @ x # t) p \<Longrightarrow> contains u p \<or> contains t p"
proof (induction u)
  case Nil
  then show ?case using assms by (cases p) (auto simp: has_prefix_Cons)
next
  case (Cons c u)
  show ?case
  proof (cases "has_prefix (c # u @ x # t) p")
    case True
    then obtain r where r: "c # u @ x # t = p @ r" by (auto simp: has_prefix_iff)
    have "length p \<le> length (c # u)"
    proof (rule ccontr)
      assume "\<not> length p \<le> length (c # u)"
      then have "length (c # u) < length p" by simp
      moreover have "(p @ r) ! length (c # u) = x" unfolding r [symmetric] by (simp add: nth_append)
      ultimately have "x \<in> set p" by (metis nth_append nth_mem)
      then show False using assms(1) by simp
    qed
    then have "take (length p) (c # u) = p" using r by (metis append_Cons append_eq_conv_conj take_append take_all_iff diff_is_0_eq' append_Nil2 take0)
    then have "has_prefix (c # u) p" by (simp only: has_prefix_def)
    then show ?thesis by simp
  next
    case False
    then show ?thesis using Cons by simp
  qed
qed

definition plain :: "bytes \<Rightarrow> bool" where
  "plain p \<longleftrightarrow> p \<noteq> [] \<and> CHR ''['' \<notin> set p \<and> CHR '']'' \<notin> set p \<and> \<not> contains ''nockguard:redacted'' p"

lemma marker_split: "marker @ t = [] @ CHR ''['' # ''nockguard:redacted'' @ CHR '']'' # t"
  by (simp add: marker_def)

lemma contains_marker:
  assumes "plain p" and "contains (marker @ t) p"
  shows "contains t p"
proof -
  have p: "p \<noteq> []" "CHR ''['' \<notin> set p" "CHR '']'' \<notin> set p" "\<not> contains ''nockguard:redacted'' p"
    using assms(1) unfolding plain_def by blast+
  have "\<not> contains [] p" using p(1) by (simp only: contains.simps not_False_eq_True)
  then have "contains (''nockguard:redacted'' @ CHR '']'' # t) p"
    using contains_sep [OF p(2,1), of "[]" "''nockguard:redacted'' @ CHR '']'' # t"] assms(2) unfolding marker_split by blast
  then show ?thesis using contains_sep [OF p(3,1), of "''nockguard:redacted''" t] p(4) by blast
qed

lemma prefix_replaced:
  "CHR ''['' \<notin> set p \<Longrightarrow> has_prefix (replace_fuel k s q marker) p \<Longrightarrow> has_prefix s p"
proof (induction k arbitrary: s p)
  case (Suc k)
  show ?case
  proof (cases s)
    case (Cons c t)
    show ?thesis
    proof (cases "has_prefix s q")
      case True
      then have "has_prefix (marker @ replace_fuel k (drop (length q) s) q marker) p"
        using Suc.prems(2) Cons by simp
      then have "p = []" using Suc.prems(1) by (cases p) (auto simp: marker_def has_prefix_Cons)
      then show ?thesis by simp
    next
      case False
      then have h: "has_prefix (c # replace_fuel k t q marker) p" using Suc.prems(2) Cons by simp
      show ?thesis
      proof (cases p)
        case (Cons d p')
        then show ?thesis using h Suc.IH [of p' t] Suc.prems(1) \<open>s = c # t\<close> by (simp add: has_prefix_Cons)
      qed simp
    qed
  qed (use Suc.prems in simp)
qed simp

lemma contains_replaced: "plain p \<Longrightarrow> contains (replace_fuel k s q marker) p \<Longrightarrow> contains s p"
proof (induction k arbitrary: s)
  case (Suc k)
  show ?case
  proof (cases s)
    case (Cons c t)
    show ?thesis
    proof (cases "has_prefix s q")
      case True
      then have "contains (marker @ replace_fuel k (drop (length q) s) q marker) p" using Suc.prems(2) Cons by simp
      then have "contains (replace_fuel k (drop (length q) s) q marker) p" by (rule contains_marker [OF Suc.prems(1)])
      then have d: "contains (drop (length q) s) p" using Suc.IH Suc.prems(1) by blast
      have mono: "contains (drop n r) p \<Longrightarrow> contains r p" for n r
        by (induction n arbitrary: r) (auto simp: drop_Suc split: list.splits, (case_tac r; simp)+)
      show ?thesis by (rule mono [OF d])
    next
      case False
      then have "contains (c # replace_fuel k t q marker) p" using Suc.prems(2) Cons by simp
      then consider "has_prefix (c # replace_fuel k t q marker) p" | "contains (replace_fuel k t q marker) p" by auto
      then show ?thesis
      proof cases
        case 1
        have "replace_fuel (Suc k) s q marker = c # replace_fuel k t q marker" using False Cons by simp
        then have "has_prefix s p" using prefix_replaced [of p "Suc k" s q] 1 Suc.prems(1) by (simp add: plain_def)
        then show ?thesis by (rule contains_prefix)
      next
        case 2
        then show ?thesis using Suc.IH Suc.prems(1) Cons by auto
      qed
    qed
  qed (use Suc.prems in simp)
qed simp

lemma replaced_gone: "plain p \<Longrightarrow> length s \<le> k \<Longrightarrow> \<not> contains (replace_fuel k s p marker) p"
proof (induction k arbitrary: s)
  case 0
  then show ?case by (simp add: plain_def)
next
  case (Suc k)
  show ?case
  proof (cases s)
    case Nil
    then show ?thesis using Suc.prems(1) by (simp add: plain_def)
  next
    case (Cons c t)
    have ne: "p \<noteq> []" using Suc.prems(1) by (simp add: plain_def)
    show ?thesis
    proof (cases "has_prefix s p")
      case True
      have "length (drop (length p) s) \<le> k" using ne Suc.prems(2) Cons by (cases p) auto
      then have "\<not> contains (replace_fuel k (drop (length p) s) p marker) p" using Suc.IH Suc.prems(1) by blast
      then have "\<not> contains (marker @ replace_fuel k (drop (length p) s) p marker) p"
        using contains_marker [OF Suc.prems(1)] by blast
      then show ?thesis using True Cons by simp
    next
      case False
      have "\<not> contains (replace_fuel k t p marker) p" using Suc Cons by simp
      moreover have "\<not> has_prefix (c # replace_fuel k t p marker) p"
      proof
        assume "has_prefix (c # replace_fuel k t p marker) p"
        then have "has_prefix (replace_fuel (Suc k) s p marker) p" using False Cons by simp
        then show False using prefix_replaced [of p "Suc k" s p] Suc.prems(1) False by (simp add: plain_def)
      qed
      ultimately show ?thesis using False Cons by simp
    qed
  qed
qed

lemma replace_all_gone: "plain p \<Longrightarrow> \<not> contains (replace_all s p marker) p"
  by (simp add: replace_all_def replaced_gone)

lemma replace_all_keeps: "plain p \<Longrightarrow> \<not> contains s p \<Longrightarrow> \<not> contains (replace_all s q marker) p"
  using contains_replaced unfolding replace_all_def by blast

lemma fold_replace_keeps:
  "plain p \<Longrightarrow> \<not> contains l p \<Longrightarrow> \<not> contains (fold (\<lambda>e l. replace_all l e marker) es l) p"
  by (induction es arbitrary: l) (auto simp: replace_all_keeps)

lemma fold_replace_gone:
  "plain p \<Longrightarrow> p \<in> set es \<Longrightarrow> \<not> contains (fold (\<lambda>e l. replace_all l e marker) es l) p"
proof (induction es arbitrary: l)
  case (Cons e es)
  then show ?case using fold_replace_keeps [OF Cons.prems(1) replace_all_gone] by (cases "p = e") auto
qed simp

lemma scrub_keeps: "plain p \<Longrightarrow> \<not> contains l p \<Longrightarrow> \<not> contains (scrub order l) p"
  by (induction order arbitrary: l) (auto simp: scrub_def scrub_value_def fold_replace_keeps)

lemma scrub_gone: "plain p \<Longrightarrow> v \<in> set order \<Longrightarrow> p \<in> set (encodings v) \<Longrightarrow> \<not> contains (scrub order l) p"
proof (induction order arbitrary: l)
  case (Cons w order)
  have s: "scrub (w # order) l = scrub order (scrub_value w l)" by (simp add: scrub_def)
  show ?case
  proof (cases "v = w")
    case True
    then have "\<not> contains (scrub_value w l) p"
      using fold_replace_gone [OF Cons.prems(1)] Cons.prems(3) by (simp add: scrub_value_def)
    then show ?thesis unfolding s by (rule scrub_keeps [OF Cons.prems(1)])
  qed (use Cons s in auto)
qed simp

text \<open>The set keeps the most recent values.\<close>

lemma scrub_add_spec:
  assumes "0 < sc_max s" and "length (sc_values s) \<le> sc_max s" and "distinct (sc_values s)"
  shows "length (sc_values (scrub_add v s)) \<le> sc_max s \<and> distinct (sc_values (scrub_add v s))
    \<and> hd (sc_values (scrub_add v s)) = v \<and> sc_max (scrub_add v s) = sc_max s
    \<and> (length (sc_values s) < sc_max s \<longrightarrow> set (sc_values (scrub_add v s)) = insert v (set (sc_values s)))"
proof -
  have "length (remove1 v (sc_values s)) = length (sc_values s) - 1" if "v \<in> set (sc_values s)"
    using that by (simp add: length_remove1)
  moreover have "v \<in> set (sc_values s) \<Longrightarrow> 0 < length (sc_values s)" by (cases "sc_values s") auto
  moreover have "distinct (butlast (sc_values s))" "v \<notin> set (sc_values s) \<Longrightarrow> v \<notin> set (butlast (sc_values s))"
    using assms(3) by (auto simp: distinct_butlast dest: in_set_butlastD)
  ultimately show ?thesis using assms by (auto simp: scrub_add_def)
qed

subsection \<open>Where a secret is written\<close>

fun get_at_path :: "bytes list \<Rightarrow> members \<Rightarrow> json option" where
  "get_at_path [] obj = None"
| "get_at_path [k] obj = map_of obj k"
| "get_at_path (k # p # ps) obj =
     Option.bind (Option.bind (map_of obj k) raw_map) (get_at_path (p # ps))"

lemma set_at_path_canonical:
  "set_at_path ps v obj = Some obj' \<Longrightarrow> canonical_map obj \<Longrightarrow> canonical_map obj'"
  by (cases "(ps, v, obj)" rule: set_at_path.cases) (auto intro: canonical_put split: option.splits)

lemma raw_map_canonical: "raw_map j = Some ms \<Longrightarrow> canonical_map ms"
  by (cases j) (auto simp: raw_map_def)

lemma set_at_path_get:
  "set_at_path ps v obj = Some obj' \<Longrightarrow> get_at_path ps obj' = Some (JStr (coerce_utf8 v))"
proof (induction ps v obj arbitrary: obj' rule: set_at_path.induct)
  case (3 k p ps v obj)
  let ?n = "case map_of obj k of None \<Rightarrow> Some [] | Some raw \<Rightarrow> raw_map raw"
  obtain nxt n where n: "?n = Some nxt" "set_at_path (p # ps) v nxt = Some n" "obj' = put k (JObj n) obj"
    using "3.prems" by (auto split: option.splits)
  have "canonical_map nxt" using n(1) raw_map_canonical by (cases "map_of obj k") auto
  then have "canonical_map n" by (rule set_at_path_canonical [OF n(2)])
  then have "raw_map (JObj n) = Some n" by (simp add: raw_map_def collect_canonical)
  then show ?case using "3.IH" [OF n(1,2)] n(3) by simp
qed auto

text \<open>A path that leaves the written one at some member is not touched.\<close>

lemma set_at_path_other:
  "set_at_path ps v obj = Some obj' \<Longrightarrow> \<not> (\<exists>t. qs = ps @ t) \<Longrightarrow> \<not> (\<exists>t. ps = qs @ t) \<Longrightarrow>
    get_at_path qs obj' = get_at_path qs obj"
proof (induction ps v obj arbitrary: obj' qs rule: set_at_path.induct)
  case (2 k v obj)
  obtain q qs' where q: "qs = q # qs'" using "2.prems"(3) by (cases qs) auto
  then have "q \<noteq> k" using "2.prems"(2) by auto
  then show ?case using "2.prems"(1) q by (cases qs') auto
next
  case (3 k p ps v obj)
  let ?n = "case map_of obj k of None \<Rightarrow> Some [] | Some raw \<Rightarrow> raw_map raw"
  obtain nxt n where n: "?n = Some nxt" "set_at_path (p # ps) v nxt = Some n" "obj' = put k (JObj n) obj"
    using "3.prems"(1) by (auto split: option.splits)
  obtain q qs' where q: "qs = q # qs'" using "3.prems"(3) by (cases qs) auto
  show ?case
  proof (cases "q = k")
    case False
    then show ?thesis using n(3) q by (cases qs') auto
  next
    case True
    obtain r rs where r: "qs' = r # rs" using "3.prems"(3) q True by (cases qs') auto
    have "canonical_map nxt" using n(1) raw_map_canonical by (cases "map_of obj k") auto
    then have "canonical_map n" by (rule set_at_path_canonical [OF n(2)])
    then have c: "raw_map (JObj n) = Some n" by (simp add: raw_map_def collect_canonical)
    have "get_at_path qs' n = get_at_path qs' nxt"
      by (rule "3.IH" [OF n(1,2)]) (use "3.prems"(2,3) q True in auto)
    moreover have "get_at_path (r # rs) [] = None" by (cases rs) auto
    ultimately show ?thesis using n(1,3) c q r True by (cases "map_of obj k") auto
  qed
qed simp

lemma set_arg_path_at: "set_arg_path path v params = set_at_path (''arguments'' # split_on CHR ''.'' path) v params"
proof -
  obtain p ps where e: "split_on CHR ''.'' path = p # ps" by (cases "split_on CHR ''.'' path") auto
  show ?thesis unfolding set_arg_path_def e set_at_path.simps ..
qed

definition arg_path :: "inject_rule \<Rightarrow> bytes list" where
  "arg_path r = ''arguments'' # split_on CHR ''.'' (arg r)"

text \<open>No argument of one rule lies on the way to that of another.\<close>

definition apart :: "bytes list \<Rightarrow> bytes list \<Rightarrow> bool" where
  "apart p q \<longleftrightarrow> \<not> (\<exists>t. p = q @ t) \<and> \<not> (\<exists>t. q = p @ t)"

lemma apply_resolved_other:
  "apply_resolved rs params = Inr params' \<Longrightarrow> \<forall>(r, v)\<in>set rs. apart q (arg_path r) \<Longrightarrow>
    get_at_path q params' = get_at_path q params"
proof (induction rs params rule: apply_resolved.induct)
  case (2 r v rs params)
  obtain p where p: "set_arg_path (arg r) (inject_value r v) params = Some p" "apply_resolved rs p = Inr params'"
    using 2(2) by (auto split: option.splits)
  have "get_at_path q p = get_at_path q params"
    using p(1) 2(3) unfolding set_arg_path_at apart_def arg_path_def by (intro set_at_path_other) auto
  then show ?case using "2.IH" [OF p] 2(3) by simp
qed simp

lemma apply_resolved_writes:
  "apply_resolved rs params = Inr params' \<Longrightarrow> distinct (map (\<lambda>(r, v). arg r) rs) \<Longrightarrow>
   \<forall>x\<in>set rs. \<forall>y\<in>set rs. arg (fst x) \<noteq> arg (fst y) \<longrightarrow> apart (arg_path (fst x)) (arg_path (fst y)) \<Longrightarrow>
   (r, v) \<in> set rs \<Longrightarrow> get_at_path (arg_path r) params' = Some (JStr (coerce_utf8 (inject_value r v)))"
proof (induction rs params rule: apply_resolved.induct)
  case (2 r0 v0 rs params)
  obtain p where p: "set_arg_path (arg r0) (inject_value r0 v0) params = Some p" "apply_resolved rs p = Inr params'"
    using 2(2) by (auto split: option.splits)
  show ?case
  proof (cases "(r, v) = (r0, v0)")
    case True
    have "get_at_path (arg_path r) p = Some (JStr (coerce_utf8 (inject_value r v)))"
      using p(1) True set_at_path_get unfolding set_arg_path_at arg_path_def by blast
    moreover have "\<forall>(r', v')\<in>set rs. apart (arg_path r) (arg_path r')"
    proof clarify
      fix r' v' assume r': "(r', v') \<in> set rs"
      then have "arg r' \<noteq> arg r0" using 2(3) by force
      then show "apart (arg_path r) (arg_path r')" using 2(4) r' True by fastforce
    qed
    ultimately show ?thesis using apply_resolved_other [OF p(2)] by simp
  next
    case False
    then have "(r, v) \<in> set rs" using 2(5) by auto
    then show ?thesis using "2.IH" [OF p] 2(3,4) by simp
  qed
qed simp

lemma repeated_arg_None: "repeated_arg xs = None \<longleftrightarrow> distinct xs"
  by (induction xs) auto

lemma resolve_rules_Inr:
  "resolve_rules resolver rules = Inr xs \<Longrightarrow>
    map fst xs = rules \<and> (\<forall>(r, v)\<in>set xs. resolver (ref r) = Some v \<and> 8 \<le> length v)"
  by (induction rules arbitrary: xs) (auto split: option.splits if_splits sum.splits)

lemma apply_inject_Inr:
  assumes "apply_inject resolver rules params = Inr (params', resolved)" and "rules \<noteq> []"
  obtains ms ms' where "raw_map params = Some ms" "resolve_rules resolver rules = Inr resolved"
    "distinct (map (\<lambda>(r, v). arg r) resolved)" "apply_resolved resolved ms = Inr ms'" "params' = JObj ms'"
  using assms by (auto simp: apply_inject_def repeated_arg_None split: option.splits sum.splits)

lemma apply_resolved_canonical:
  "apply_resolved rs params = Inr params' \<Longrightarrow> canonical_map params \<Longrightarrow> canonical_map params'"
  by (induction rs params rule: apply_resolved.induct)
    (auto simp: set_arg_path_at split: option.splits intro: set_at_path_canonical)

text \<open>What is tracked after a call.\<close>

lemma take_remove1: "set (take i xs) \<subseteq> insert v (set (take i (remove1 v xs)))"
proof (induction xs arbitrary: i)
  case (Cons x xs)
  show ?case
  proof (cases i)
    case (Suc j)
    have "set (take j xs) \<subseteq> set (take (Suc j) xs)" by (rule set_take_subset_set_take) simp
    then show ?thesis using Suc Cons [of j] by (cases "x = v") auto
  qed simp
qed simp

lemma scrub_add_recent:
  assumes "Suc i \<le> sc_max s"
  shows "insert v (set (take i (sc_values s))) \<subseteq> set (take (Suc i) (sc_values (scrub_add v s)))"
proof -
  have "take i (butlast (sc_values s)) = take i (sc_values s)" if "length (sc_values s) \<ge> sc_max s"
    using assms that by (simp add: take_butlast)
  then show ?thesis using take_remove1 [of i "sc_values s" v] by (auto simp: scrub_add_def)
qed

lemma scrub_add_max [simp]: "sc_max (scrub_add v s) = sc_max s"
  by (simp add: scrub_add_def)

lemma scrub_add_all:
  "i + length vs \<le> sc_max s \<Longrightarrow>
    set vs \<union> set (take i (sc_values s)) \<subseteq> set (take (i + length vs) (sc_values (fold scrub_add vs s)))"
proof (induction vs arbitrary: i s)
  case (Cons v vs)
  have "insert v (set (take i (sc_values s))) \<subseteq> set (take (Suc i) (sc_values (scrub_add v s)))"
    by (rule scrub_add_recent) (use Cons.prems in simp)
  moreover have "set vs \<union> set (take (Suc i) (sc_values (scrub_add v s)))
      \<subseteq> set (take (Suc i + length vs) (sc_values (fold scrub_add vs (scrub_add v s))))"
    by (rule Cons.IH) (use Cons.prems in simp)
  ultimately show ?case by auto
qed simp

subsection \<open>Properties\<close>

text \<open>
  C39. An injection that succeeds resolved every rule to a secret of at least eight bytes, wrote each secret
  (through its template) at its argument, and changed nothing else: where no argument lies on the way
  to another, every path apart from the written ones reads as before, the tool name included.
\<close>

theorem inject_writes_exactly:
  assumes "apply_inject resolver rules params = Inr (params', resolved)" and "rules \<noteq> []"
    and "\<forall>x\<in>set rules. \<forall>y\<in>set rules. arg x \<noteq> arg y \<longrightarrow> apart (arg_path x) (arg_path y)"
  shows "map fst resolved = rules
    \<and> (\<exists>ms ms'. raw_map params = Some ms \<and> params' = JObj ms'
        \<and> (\<forall>(r, v)\<in>set resolved. resolver (ref r) = Some v \<and> 8 \<le> length v
            \<and> get_at_path (arg_path r) ms' = Some (JStr (coerce_utf8 (inject_value r v))))
        \<and> (\<forall>q. (\<forall>r\<in>set rules. apart q (arg_path r)) \<longrightarrow> get_at_path q ms' = get_at_path q ms)
        \<and> map_of ms' ''name'' = map_of ms ''name'')"
proof -
  obtain ms ms' where m: "raw_map params = Some ms" "resolve_rules resolver rules = Inr resolved"
      "distinct (map (\<lambda>(r, v). arg r) resolved)" "apply_resolved resolved ms = Inr ms'" "params' = JObj ms'"
    by (rule apply_inject_Inr [OF assms(1,2)])
  note r = resolve_rules_Inr [OF m(2)]
  have mem: "fst x \<in> set rules" if "x \<in> set resolved" for x
  proof -
    have "fst x \<in> set (map fst resolved)" using that by simp
    then show ?thesis unfolding conjunct1 [OF r] .
  qed
  have w: "get_at_path (arg_path a) ms' = Some (JStr (coerce_utf8 (inject_value a v)))" if "(a, v) \<in> set resolved" for a v
  proof (rule apply_resolved_writes [OF m(4,3) _ that], intro ballI impI)
    fix x y assume "x \<in> set resolved" "y \<in> set resolved" "arg (fst x) \<noteq> arg (fst y)"
    then show "apart (arg_path (fst x)) (arg_path (fst y))" using assms(3) mem by blast
  qed
  have o: "get_at_path q ms' = get_at_path q ms" if "\<forall>r\<in>set rules. apart q (arg_path r)" for q
  proof (rule apply_resolved_other [OF m(4)], intro ballI)
    fix x assume "x \<in> set resolved"
    then have "apart q (arg_path (fst x))" using that mem by blast
    then show "case x of (r, v) \<Rightarrow> apart q (arg_path r)" by (simp add: case_prod_unfold)
  qed
  have "get_at_path [''name''] ms' = get_at_path [''name''] ms"
    by (rule o) (auto simp: apart_def arg_path_def)
  then have n: "map_of ms' ''name'' = map_of ms ''name''" by simp
  have each: "\<forall>(r, v)\<in>set resolved. resolver (ref r) = Some v \<and> 8 \<le> length v
      \<and> get_at_path (arg_path r) ms' = Some (JStr (coerce_utf8 (inject_value r v)))"
  proof clarify
    fix a v assume a: "(a, v) \<in> set resolved"
    then show "resolver (ref a) = Some v \<and> 8 \<le> length v
        \<and> get_at_path (arg_path a) ms' = Some (JStr (coerce_utf8 (inject_value a v)))"
      using r w [OF a] by blast
  qed
  show ?thesis using conjunct1 [OF r] m(1,5) each o n by blast
qed

definition demo_rule :: inject_rule where
  "demo_rule = \<lparr>tools = [''t''], ref = ''env:T'', arg = ''h.a'', template = ''B {secret}''\<rparr>"

definition demo_call :: json where
  "demo_call = JObj [(''arguments'', JObj [(''x'', JNum ''1'')]), (''name'', JStr ''t'')]"

lemma demo_inject:
  "apply_inject (\<lambda>_. Some ''12345678'') [demo_rule] demo_call =
     Inr (JObj [(''arguments'', JObj [(''h'', JObj [(''a'', JStr ''B 12345678'')]), (''x'', JNum ''1'')]), (''name'', JStr ''t'')],
       [(demo_rule, ''12345678'')])"
  by (simp add: apply_inject_def demo_call_def demo_rule_def raw_map_def collect_def set_arg_path_def inject_value_def
      replace_all_def has_prefix_def coerce_utf8_all_ascii)

lemma inject_writes_exactly_witness:
  "get_at_path [''arguments'', ''h'', ''a'']
     [(''arguments'', JObj [(''h'', JObj [(''a'', JStr ''B 12345678'')]), (''x'', JNum ''1'')]), (''name'', JStr ''t'')]
   = Some (JStr (coerce_utf8 ''B 12345678''))"
proof -
  have v: "inject_value demo_rule ''12345678'' = ''B 12345678''" "arg_path demo_rule = [''arguments'', ''h'', ''a'']"
    by (simp_all add: inject_value_def demo_rule_def replace_all_def has_prefix_def arg_path_def)
  show ?thesis using inject_writes_exactly [OF demo_inject] v by auto
qed

text \<open>
  After an injection no line sent to the agent contains an injected secret, its templated form, or their
  JSON, URL or base64 encodings, as long as the text is not itself part of the marker or contains one
  of its brackets; the order in which the tracked values are replaced does not matter.
\<close>

theorem injected_secrets_are_scrubbed:
  assumes "apply_inject resolver rules params = Inr (params', resolved)"
    and "length (scrub_values resolved) \<le> sc_max s"
    and "set order = set (sc_values (fold scrub_add (scrub_values resolved) s))"
    and "(r, v) \<in> set resolved" and "e \<in> set (encodings v) \<union> set (encodings (if template r \<noteq> [] then inject_value r v else v))"
    and "plain e"
  shows "\<not> contains (scrub order line) e"
proof -
  have "set (scrub_values resolved) \<subseteq> set order"
    using scrub_add_all [of 0 "scrub_values resolved" s] assms(2) set_take_subset unfolding assms(3) by fastforce
  moreover have "v \<in> set (scrub_values resolved)" "template r \<noteq> [] \<Longrightarrow> inject_value r v \<in> set (scrub_values resolved)"
    using assms(4) by (force simp: scrub_values_def)+
  ultimately have "v \<in> set order" "template r \<noteq> [] \<Longrightarrow> inject_value r v \<in> set order" by auto
  then show ?thesis using scrub_gone [OF assms(6)] assms(5) by (cases "template r = []") auto
qed

lemma injected_secrets_are_scrubbed_witness:
  "\<not> contains (scrub [''B 12345678'', ''12345678''] ''token 12345678 leaked'') ''12345678''"
proof -
  have v: "scrub_values [(demo_rule, ''12345678'')] = [''12345678'', ''B 12345678'']"
    by (simp add: scrub_values_def inject_value_def demo_rule_def replace_all_def has_prefix_def)
  show ?thesis
    by (rule injected_secrets_are_scrubbed [OF demo_inject, where s = "\<lparr>sc_max = 256, sc_values = []\<rparr>" and v = "''12345678''" and r = demo_rule])
      (unfold v, simp_all add: scrub_add_def encodings_def plain_def has_prefix_def)
qed

end
