(* ===== verification/Gate.thy ===== *)
theory Gate
  imports AuditQueue ToolCatalog Inject
begin

text \<open>
  The enforcement gate, \<^verbatim>\<open>internal/proxy/stdio.go\<close>: the decision on one inbound
  message, in the order policy, pin, approval rule, input validation, limits, approval, injection,
  and the audit rows each outcome leaves. The approver, the resolver of secrets, the regular
  expressions, the quoting of \<^verbatim>\<open>%q\<close>, the clock and the audit writer are arguments;
  \<open>w_required\<close> is \<open>RequiredError\<close> of the writer.
\<close>

subsection \<open>State and surroundings\<close>

record gate_config =
  c_session :: session
  c_engine :: engine
  c_upstream :: bytes
  c_validator :: "validator option"

text \<open>The answer of an approver; \<open>an_taps\<close> are the rejected taps it reported while it was asked.\<close>

record approval_answer =
  an_approved :: bool
  an_reason :: bytes
  an_actor :: bytes
  an_taps :: "bytes list"

record approval_request =
  ap_agent :: bytes
  ap_tool :: bytes
  ap_params :: json
  ap_reason :: bytes

record 'w world =
  w_quote :: "bytes \<Rightarrow> bytes"
  w_match :: "bytes \<Rightarrow> bytes \<Rightarrow> bool"
  w_now :: int
  w_cap :: "(int \<Rightarrow> int) option"
  w_approver :: "(approval_request \<Rightarrow> approval_answer) option"
  w_resolve :: "bytes \<Rightarrow> bytes option"
  w_record :: "'w recorder"
  w_required :: "'w \<Rightarrow> bool"

text \<open>\<open>g_observed\<close> is \<open>actionObserved\<close>: the definition observed when an action was decided.\<close>

record 'w gate =
  g_queue :: "'w queue"
  g_limiter :: "limiter option"
  g_catalog :: tool_catalog
  g_observed :: "(bytes \<times> tool_observation) list"
  g_scrub :: scrub_set

definition c_agent :: "gate_config \<Rightarrow> bytes" where
  "c_agent gc = p_agent (c_session gc)"

definition em_dash :: bytes where
  "em_dash = [char_of (226 :: nat), char_of (128 :: nat), char_of (148 :: nat)]"

text \<open>The reason of a policy decision as it is written to the trail.\<close>

fun reason_text :: "(bytes \<Rightarrow> bytes) \<Rightarrow> reason \<Rightarrow> bytes" where
  "reason_text q NoPolicy = ''no policy for agent (fail-closed)''"
| "reason_text q (DenyMalformed p) = ''deny-rule '' @ q p @ '' malformed (fail-closed): syntax error in pattern''"
| "reason_text q (DenyRule p) = ''deny-rule '' @ q p"
| "reason_text q (AskRule p) = ''ask-rule '' @ q p"
| "reason_text q (AllowRule p) = ''allow-rule '' @ q p"
| "reason_text q NoAllowMatched = ''no allow-rule matched''"
| "reason_text q ModeDeny = ''mode '' @ [quote_char] @ ''deny'' @ [quote_char] @ '', no allow list''"
| "reason_text q DefaultAllow = ''default-allow (no allow list)''"
| "reason_text q DefaultDeny = ''default-deny (no allow list)''"
| "reason_text q (ShadowMiss r) = reason_text q r @ ''; would-deny shadow (no shadow-rule matched)''"
| "reason_text q (Basis b) = b"

record mcp_decision =
  d_forward :: "json option"
  d_reject :: bool
  d_reject_id :: "json option"
  d_reject_code :: int
  d_reject_msg :: bytes
  d_tools_list_id :: "json option"
  d_tool :: bytes
  d_forward_id :: "json option"
  d_state_tool :: bytes
  d_state_refs :: "references option"
  d_deferred :: "(bytes \<times> bytes) list"
  d_refs :: "references option"
  d_cause :: bytes

definition no_decision :: mcp_decision where
  "no_decision =
     \<lparr>d_forward = None, d_reject = False, d_reject_id = None, d_reject_code = 0, d_reject_msg = [],
      d_tools_list_id = None, d_tool = [], d_forward_id = None, d_state_tool = [], d_state_refs = None,
      d_deferred = [], d_refs = None, d_cause = []\<rparr>"

definition rejecting :: "json option \<Rightarrow> int \<Rightarrow> bytes \<Rightarrow> bytes \<Rightarrow> bytes \<Rightarrow> mcp_decision" where
  "rejecting i code msg tool cz =
     no_decision\<lparr>d_reject := True, d_reject_id := i, d_reject_code := code, d_reject_msg := msg,
       d_tool := tool, d_cause := cz\<rparr>"

subsection \<open>Audit rows of the gate\<close>

text \<open>\<open>applyToolObservation\<close>: the fields of the row, and what is remembered for the action.\<close>

definition current_observation :: "gate_config \<Rightarrow> 'w gate \<Rightarrow> bytes \<Rightarrow> tool_observation" where
  "current_observation gc g tool =
     fst (pin_observation (c_engine gc) (c_agent gc) (c_upstream gc) tool (catalog_observe (g_catalog g) tool))"

definition apply_observation :: "gate_config \<Rightarrow> 'w gate \<Rightarrow> event \<Rightarrow> event" where
  "apply_observation gc g ev =
     (if schema_version ev \<noteq> 2 \<or> ev_tool ev = [] then ev
      else set_observation_fields
        (case (if action_id ev = [] then None else map_of (g_observed g) (action_id ev)) of
           Some ob \<Rightarrow> ob
         | None \<Rightarrow> current_observation gc g (ev_tool ev)) ev)"

definition remember_observation :: "gate_config \<Rightarrow> bytes \<Rightarrow> bytes \<Rightarrow> 'w gate \<Rightarrow> 'w gate" where
  "remember_observation gc aid tool g =
     (if aid = [] \<or> tool = [] \<or> map_of (g_observed g) aid \<noteq> None then g
      else g\<lparr>g_observed := AList.update aid (current_observation gc g tool) (g_observed g)\<rparr>)"

definition gate_append ::
  "gate_config \<Rightarrow> u64 \<Rightarrow> bytes \<Rightarrow> bytes \<Rightarrow> bytes \<Rightarrow> references option \<Rightarrow> bytes \<Rightarrow> 'w gate \<Rightarrow> 'w gate" where
  "gate_append gc s tool decision rsn refs actor g =
     (let q = append_audit (c_session gc) (apply_observation gc g) s tool decision rsn refs actor (g_queue g) in
      (remember_observation gc (action_of s (g_queue g)) tool g)\<lparr>g_queue := q\<rparr>)"

definition gate_resolve :: "gate_config \<Rightarrow> 'w world \<Rightarrow> u64 \<Rightarrow> 'w gate \<Rightarrow> 'w gate" where
  "gate_resolve gc w s g = g\<lparr>g_queue := resolve_audit (c_session gc) (w_record w) s (g_queue g)\<rparr>"

definition gate_method :: "gate_config \<Rightarrow> 'w world \<Rightarrow> bytes \<Rightarrow> bytes \<Rightarrow> bytes \<Rightarrow> 'w gate \<Rightarrow> 'w gate" where
  "gate_method gc w mth decision rsn g =
     g\<lparr>g_queue := audit_method (c_session gc) (w_record w) mth decision rsn (g_queue g)\<rparr>"

subsection \<open>Names\<close>

definition max_request_name :: nat where
  "max_request_name = 256"

text \<open>\<open>strings.ToValidUTF8\<close>: one replacement for each run of invalid bytes.\<close>

function to_valid_utf8 :: "bool \<Rightarrow> bytes \<Rightarrow> bytes" where
  "to_valid_utf8 run s =
     (if s = [] then []
      else let (r, n) = decode_rune s in
        if r = rune_error \<and> n = 1 then (if run then [] else replacement_char) @ to_valid_utf8 True (drop 1 s)
        else take n s @ to_valid_utf8 False (drop n s))"
  by pat_completeness auto
termination
proof (relation "measure (length \<circ> snd)", goal_cases)
  case (3 run s x r n)
  then have "0 < n" using decode_rune_size_pos [of s] by (metis snd_conv)
  then show ?case using 3(1) by (cases s) auto
qed auto

declare to_valid_utf8.simps [simp del]

definition reject_oversized ::
  "gate_config \<Rightarrow> 'w world \<Rightarrow> bytes \<Rightarrow> bytes \<Rightarrow> json option \<Rightarrow> 'w gate \<Rightarrow> (mcp_decision \<times> 'w gate) option" where
  "reject_oversized gc w kind name i g =
     (if length name \<le> max_request_name then None
      else
        let shown = to_valid_utf8 False (take 32 name) in
        Some (rejecting i (- 32600) ''nockguard: method or tool name exceeds 256 bytes'' [] [],
          gate_method gc w shown ''method-deny''
            (''oversized-'' @ kind @ ''-name bytes='' @ show_nat (length name) @ '' prefix='' @ w_quote w shown) g))"

subsection \<open>Approval\<close>

text \<open>\<open>approveAsk\<close>: only the first rejected tap of an approval leaves a row.\<close>

definition approve_ask ::
  "gate_config \<Rightarrow> 'w world \<Rightarrow> bytes \<Rightarrow> json \<Rightarrow> references option \<Rightarrow> decision \<Rightarrow> u64 \<Rightarrow> 'w gate \<Rightarrow> bool \<times> 'w gate" where
  "approve_ask gc w tool params refs dec s g =
     (case w_approver w of
        None \<Rightarrow>
          (False, gate_resolve gc w s
            (gate_append gc s tool ''approval-denied'' ''no-approver-configured'' refs [] g))
      | Some ask \<Rightarrow>
          let a = ask \<lparr>ap_agent = c_agent gc, ap_tool = tool, ap_params = params,
                ap_reason = reason_text (w_quote w) (reason dec)\<rparr>;
              g1 = (case an_taps a of [] \<Rightarrow> g | t # _ \<Rightarrow> gate_append gc s tool ''block'' t refs [] g) in
          if \<not> an_approved a then
            (False, gate_resolve gc w s
              (gate_append gc s tool ''approval-denied'' (an_reason a) refs (an_actor a) g1))
          else (True, gate_append gc s tool ''approval-granted'' (an_reason a) refs (an_actor a) g1))"

definition handle_fail_mode_ask ::
  "gate_config \<Rightarrow> 'w world \<Rightarrow> bytes \<Rightarrow> json \<Rightarrow> bytes \<Rightarrow> u64 \<Rightarrow> 'w gate \<Rightarrow> bool \<times> 'w gate" where
  "handle_fail_mode_ask gc w tool params why s g =
     (let dec = fail_mode_verdict (c_engine gc) (c_agent gc) why in
      if verdict dec \<noteq> Ask then (False, g)
      else approve_ask gc w tool params None dec s g)"

subsection \<open>The decision on a call\<close>

definition limit_label :: "bytes \<Rightarrow> bytes" where
  "limit_label r = (if r = ''spend-cap'' then ''spend cap'' else if r = ''rate'' then ''rate limit'' else r)"

text \<open>A row, the end of the sequence, and the rejection.\<close>

definition refuse ::
  "gate_config \<Rightarrow> 'w world \<Rightarrow> u64 \<Rightarrow> bytes \<Rightarrow> bytes \<Rightarrow> bytes \<Rightarrow> references option \<Rightarrow> mcp_decision \<Rightarrow> 'w gate \<Rightarrow> mcp_decision \<times> 'w gate" where
  "refuse gc w s tool decision rsn refs d g =
     (d, gate_resolve gc w s (gate_append gc s tool decision rsn refs [] g))"

text \<open>Phase 3: the verdict of the limiter, and the limiter after it.\<close>

definition take_budget :: "'w world \<Rightarrow> 'w gate \<Rightarrow> (bytes \<times> bool) \<times> 'w gate" where
  "take_budget w g =
     (case g_limiter g of
        None \<Rightarrow> (([], True), g)
      | Some l \<Rightarrow>
          if \<not> limiter_enabled (Some l) then (([], True), g)
          else let (r, l') = allow (w_cap w) (w_now w) l in (r, g\<lparr>g_limiter := Some l'\<rparr>))"

text \<open>Phase 6: the parameters to forward, or why there are none, with the audit rows and tracked secrets.\<close>

definition inject_call ::
  "gate_config \<Rightarrow> 'w world \<Rightarrow> bytes \<Rightarrow> json \<Rightarrow> u64 \<Rightarrow> 'w gate \<Rightarrow> (bytes + json) \<times> 'w gate" where
  "inject_call gc w tool params s g =
     (case apply_inject (w_resolve w) (inject_rules_for (c_engine gc) (c_agent gc) tool) params of
        Inl InjectInternal \<Rightarrow> (Inl (failure_text InjectInternal), g)
      | Inl e \<Rightarrow> (Inl (''nockguard: tool '' @ w_quote w tool @ '' injection failed''), gate_resolve gc w s (gate_append gc s tool ''block'' (failure_text e) None [] g))
      | Inr (params', resolved) \<Rightarrow>
          (Inr params',
            fold (\<lambda>(r, v) g.
                gate_append gc s tool ''inject'' (''ref='' @ ref r @ '' arg='' @ arg r) None []
                  (g\<lparr>g_scrub := fold scrub_add (scrub_values [(r, v)]) (g_scrub g)\<rparr>))
              resolved g))"

definition card_tools :: "bytes list" where
  "card_tools = [''nockcc_nock_claim'', ''nockcc_nock_release'']"

text \<open>The forward of a cleared call.\<close>

definition forward_call ::
  "gate_config \<Rightarrow> 'w world \<Rightarrow> message \<Rightarrow> json \<Rightarrow> bytes \<Rightarrow> references \<Rightarrow> decision \<Rightarrow> u64 \<Rightarrow> 'w gate \<Rightarrow> mcp_decision \<times> 'w gate" where
  "forward_call gc w m tree name refs dec s g =
     (let why = reason_text (w_quote w) (reason dec);
          g1 = (if shadow_would_deny dec then gate_append gc s name ''would-deny'' why (Some refs) [] g else g);
          g2 = gate_append gc s name ''allow'' why (Some refs) [] g1;
          g3 = (if verdict dec = Ask then gate_resolve gc w s g2 else g2);
          state_tool = (if name \<in> set card_tools then name else []) in
      (no_decision\<lparr>d_forward := Some tree, d_tool := name, d_forward_id := m_id m,
         d_state_tool := state_tool,
         d_state_refs := (if state_tool = [] then None else Some refs),
         d_deferred := (if shadow_would_deny dec then [(''would-deny'', why)] else []) @ [(''allow'', why)],
         d_refs := Some refs\<rparr>, g3))"

text \<open>Past policy and pin: validation, limits, approval, injection, forward.\<close>

definition clear_call ::
  "gate_config \<Rightarrow> 'w world \<Rightarrow> message \<Rightarrow> members \<Rightarrow> bytes \<Rightarrow> json \<Rightarrow> references \<Rightarrow> decision \<Rightarrow> u64 \<Rightarrow>
    'w gate \<Rightarrow> mcp_decision \<times> 'w gate" where
  "clear_call gc w m obj name params refs dec s g =
     (let hit = (if validator_enabled (c_validator gc)
                 then check_params (w_match w) (c_validator gc) (json_print params) else []);
          tool = w_quote w name in
      if hit \<noteq> [] then
        refuse gc w s name ''block'' hit (Some refs)
          (rejecting (m_id m) (- 32600)
             (''nockguard: tool '' @ tool @ '' arguments blocked by input validation ('' @ hit @ '')'') name ''validation_blocked'') g
      else
        (case take_budget w g of
           ((why, False), g1) \<Rightarrow>
             refuse gc w s name ''ratelimit'' why (Some refs)
               (rejecting (m_id m) (- 32600)
                  (''nockguard: tool '' @ tool @ '' blocked: '' @ limit_label why @ '' exceeded'') name ''limit_reached'') g1
         | ((_, True), g1) \<Rightarrow>
             (case (if verdict dec = Ask then approve_ask gc w name params (Some refs) dec s g1 else (True, g1)) of
                (False, g2) \<Rightarrow>
                  (rejecting (m_id m) (- 32600) (''nockguard: tool '' @ tool @ '' denied by approval gate'') name ''approval_denied'', g2)
              | (True, g2) \<Rightarrow>
                  (case inject_call gc w name params s g2 of
                     (Inl msg, g3) \<Rightarrow> (rejecting (m_id m) (- 32600) msg name ''policy_denied'', g3)
                   | (Inr params', g3) \<Rightarrow>
                       forward_call gc w m (JObj (put ''params'' params' obj)) name refs dec s g3))))"

text \<open>A call whose tool name the gate could read.\<close>

definition decide_named ::
  "gate_config \<Rightarrow> 'w world \<Rightarrow> message \<Rightarrow> members \<Rightarrow> bytes \<Rightarrow> json \<Rightarrow> u64 \<Rightarrow> 'w gate \<Rightarrow> mcp_decision \<times> 'w gate" where
  "decide_named gc w m obj name params s g =
     (let refs = from_tool_call name (json_print params);
          dec = evaluate (c_engine gc) (c_agent gc) name;
          (ob, cz) = pin_observation (c_engine gc) (c_agent gc) (c_upstream gc) name
            (catalog_observe (g_catalog g) name) in
      if verdict dec = Deny then
        refuse gc w s name ''deny'' (reason_text (w_quote w) (reason dec)) (Some refs)
          (rejecting (m_id m) (- 32600) (''nockguard: tool '' @ w_quote w name @ '' denied by policy'') name ''policy_denied'') g
      else if cz \<noteq> [] then
        refuse gc w s name ''block'' cz (Some refs)
          (rejecting (m_id m) (- 32600) ''nockguard: tool definition is not approved'' name cz) g
      else
        clear_call gc w m obj name params refs
          (if verdict dec = Allow \<and> requires_approval (c_engine gc) (c_agent gc) name
           then dec\<lparr>verdict := Ask\<rparr> else dec) s g)"

text \<open>A call without a readable name: refused, unless \<open>fail_mode: ask\<close> and a human let it through.\<close>

definition decide_unnamed ::
  "gate_config \<Rightarrow> 'w world \<Rightarrow> message \<Rightarrow> json \<Rightarrow> u64 \<Rightarrow> 'w gate \<Rightarrow> mcp_decision \<times> 'w gate" where
  "decide_unnamed gc w m tree s g =
     (let dec = fail_mode_verdict (c_engine gc) (c_agent gc) ''unextractable-name'';
          (ok, g1) = (if \<not> p_pairing (c_session gc) \<and> verdict dec = Ask
                      then approve_ask gc w [] tree None dec s g else (False, g)) in
      if ok then (no_decision\<lparr>d_forward := Some tree\<rparr>, gate_resolve gc w s g1)
      else
        refuse gc w s [] ''deny'' ''unextractable-name'' None
          (rejecting (m_id m) (- 32600) (''nockguard: tools/call rejected '' @ em_dash @ '' tool name could not be extracted'') []
            ''policy_denied'') g1)"

definition decide_tool_call ::
  "gate_config \<Rightarrow> 'w world \<Rightarrow> message \<Rightarrow> members \<Rightarrow> json \<Rightarrow> u64 \<Rightarrow> 'w gate \<Rightarrow> mcp_decision \<times> 'w gate" where
  "decide_tool_call gc w m obj tree s g =
     (let call = canonical_tool_call (m_params m);
          name = (case call of None \<Rightarrow> [] | Some (n, _) \<Rightarrow> n) in
      case reject_oversized gc w ''tool'' name (m_id m) g of
        Some r \<Rightarrow> r
      | None \<Rightarrow>
          (case call of
             None \<Rightarrow> decide_unnamed gc w m tree s g
           | Some (n, params) \<Rightarrow>
               if n = [] then decide_unnamed gc w m tree s g
               else decide_named gc w m obj n params s g))"

subsection \<open>The decision on a message\<close>

definition reject_undecoded :: "canonical_failure \<Rightarrow> mcp_decision" where
  "reject_undecoded f =
     (case f of
        Undecodable \<Rightarrow> rejecting (Some JNull) (- 32700)
          (''nockguard: rejected '' @ em_dash @ '' only single well-formed JSON-RPC objects are accepted (batch arrays are not gated)'') [] []
      | AmbiguousKey \<Rightarrow> rejecting (Some JNull) (- 32600) (''nockguard: rejected '' @ em_dash @ '' ambiguous message key'') [] []
      | MarshalFailed \<Rightarrow> rejecting (Some JNull) (- 32603) (''nockguard: rejected '' @ em_dash @ '' message could not be canonicalized'') [] []
      | DecodeFailed \<Rightarrow> rejecting (Some JNull) (- 32700)
          (''nockguard: rejected '' @ em_dash @ '' message is not a well-formed JSON-RPC object'') [] [])"

definition decide_method ::
  "gate_config \<Rightarrow> 'w world \<Rightarrow> message \<Rightarrow> json \<Rightarrow> 'w gate \<Rightarrow> mcp_decision \<times> 'w gate" where
  "decide_method gc w m tree g =
     (let d = no_decision\<lparr>d_forward := Some tree,
            d_tools_list_id := (if is_request m \<and> m_method m = ''tools/list'' then m_id m else None),
            d_forward_id := (if is_request m \<and> m_method m \<noteq> ''tools/list'' then m_id m else None)\<rparr> in
      if m_method m = [] then (d, g)
      else if denies_method (c_engine gc) (c_agent gc) (m_method m) then
        (rejecting (m_id m) (- 32601) ''nockguard: method denied by policy'' [] [],
         gate_method gc w (m_method m) ''method-deny'' ''deny-method'' g)
      else (d, gate_method gc w (m_method m) ''method-allow'' ''method-pass-through'' g))"

definition decide_canonical ::
  "gate_config \<Rightarrow> 'w world \<Rightarrow> canonical_failure + (members \<times> json \<times> message) \<Rightarrow> u64 \<Rightarrow> 'w gate \<Rightarrow> mcp_decision \<times> 'w gate" where
  "decide_canonical gc w c s g =
     (case c of
        Inl f \<Rightarrow>
          (reject_undecoded f,
           if f = MarshalFailed then snd (handle_fail_mode_ask gc w [] JNull ''canonical-marshal-failed'' s g) else g)
      | Inr (obj, tree, m) \<Rightarrow>
          (case reject_oversized gc w ''method'' (m_method m) (m_id m) g of
             Some r \<Rightarrow> r
           | None \<Rightarrow>
               if m_method m = ''tools/call'' then decide_tool_call gc w m obj tree s g
               else decide_method gc w m tree g))"

definition decide :: "gate_config \<Rightarrow> 'w world \<Rightarrow> bytes \<Rightarrow> u64 \<Rightarrow> 'w gate \<Rightarrow> mcp_decision \<times> 'w gate" where
  "decide gc w line s g = decide_canonical gc w (canonicalize_message line) s g"

subsection \<open>The environment of the child\<close>

text \<open>\<open>sanitizedEnv\<close> on the parent's environment.\<close>

definition sanitized_env :: "bytes list \<Rightarrow> bytes list \<Rightarrow> bytes list" where
  "sanitized_env strip parent =
     (if strip = [] then parent else filter (\<lambda>kv. before_byte CHR ''='' kv \<notin> set strip) parent)"

definition approval_env_names :: "bytes list" where
  "approval_env_names =
     [''NOCKGUARD_APPROVAL_BOT_TOKEN'', ''NOCKGUARD_APPROVAL_CHAT_ID'', ''NOCKGUARD_APPROVER_IDS'',
      ''NOCKGUARD_APPROVAL_TEST'', ''NOCKGUARD_APPROVER'']"

text \<open>The names that \<open>Run\<close> strips; \<open>environ\<close> is the environment of the parent.\<close>

definition child_strip :: "bytes list \<Rightarrow> engine \<Rightarrow> bytes list" where
  "child_strip environ e =
     signing_key_env_names_for environ e @ approval_env_names @ inject_env_names e @ forwarder_key_env_names e
       @ [''NOCKCC_BASE_URL'', ''NOCKGUARD_VAULT_AGENT_TOKEN'']"

subsection \<open>What the steps of a decision leave alone\<close>

lemma gate_append_frame [simp]:
  "g_limiter (gate_append gc s tool decision rsn refs actor g) = g_limiter g"
  "g_catalog (gate_append gc s tool decision rsn refs actor g) = g_catalog g"
  "g_scrub (gate_append gc s tool decision rsn refs actor g) = g_scrub g"
  by (simp_all add: gate_append_def remember_observation_def)

lemma gate_resolve_frame [simp]:
  "g_limiter (gate_resolve gc w s g) = g_limiter g" "g_catalog (gate_resolve gc w s g) = g_catalog g"
  "g_scrub (gate_resolve gc w s g) = g_scrub g"
  by (simp_all add: gate_resolve_def)

lemma gate_method_frame [simp]:
  "g_limiter (gate_method gc w mth decision rsn g) = g_limiter g"
  "g_catalog (gate_method gc w mth decision rsn g) = g_catalog g"
  by (simp_all add: gate_method_def)

lemma approve_ask_scrub [simp]: "g_scrub (snd (approve_ask gc w tool params refs dec s g)) = g_scrub g"
  by (simp add: approve_ask_def Let_def split: option.splits list.splits)

lemma approve_ask_limiter [simp]: "g_limiter (snd (approve_ask gc w tool params refs dec s g)) = g_limiter g"
  by (simp add: approve_ask_def Let_def split: option.splits list.splits)

lemma inject_rows_limiter [simp]:
  "g_limiter (fold (\<lambda>(r, v) g. gate_append gc s tool ''inject'' (txt r) None [] (g\<lparr>g_scrub := sc r v g\<rparr>)) xs g) = g_limiter g"
  by (induction xs arbitrary: g) (auto simp: case_prod_beta)

lemma inject_call_limiter [simp]: "g_limiter (snd (inject_call gc w tool params s g)) = g_limiter g"
  unfolding inject_call_def
  by (cases "apply_inject (w_resolve w) (inject_rules_for (c_engine gc) (c_agent gc) tool) params")
    (auto split: inject_failure.split simp: case_prod_beta)

lemma forward_call_limiter [simp]: "g_limiter (snd (forward_call gc w m tree name refs dec s g)) = g_limiter g"
  by (simp add: forward_call_def Let_def)

lemma refuse_simps [simp]:
  "fst (refuse gc w s tool decision rsn refs d g) = d"
  "g_limiter (snd (refuse gc w s tool decision rsn refs d g)) = g_limiter g"
  by (simp_all add: refuse_def)

lemma rejecting_simps [simp]:
  "d_forward (rejecting i code msg tool cz) = None" "d_reject (rejecting i code msg tool cz)"
  "d_reject_id (rejecting i code msg tool cz) = i" "d_tool (rejecting i code msg tool cz) = tool"
  "d_tools_list_id (rejecting i code msg tool cz) = None" "d_forward_id (rejecting i code msg tool cz) = None"
  by (simp_all add: rejecting_def no_decision_def)

lemma no_decision_simps [simp]:
  "d_forward no_decision = None" "\<not> d_reject no_decision" "d_reject_id no_decision = None" "d_tool no_decision = []"
  "d_tools_list_id no_decision = None" "d_forward_id no_decision = None"
  by (simp_all add: no_decision_def)

subsection \<open>The gates a call has to pass\<close>

text \<open>A human said yes to this call.\<close>

definition approved :: "gate_config \<Rightarrow> 'w world \<Rightarrow> bytes \<Rightarrow> json \<Rightarrow> reason \<Rightarrow> bool" where
  "approved gc w tool params rsn \<longleftrightarrow>
     (\<exists>ask. w_approver w = Some ask
       \<and> an_approved (ask \<lparr>ap_agent = c_agent gc, ap_tool = tool, ap_params = params, ap_reason = reason_text (w_quote w) rsn\<rparr>))"

definition policy_clears :: "gate_config \<Rightarrow> 'w gate \<Rightarrow> bytes \<Rightarrow> bool" where
  "policy_clears gc g name \<longleftrightarrow>
     name \<noteq> [] \<and> length name \<le> max_request_name \<and> verdict (evaluate (c_engine gc) (c_agent gc) name) \<noteq> Deny
     \<and> snd (pin_observation (c_engine gc) (c_agent gc) (c_upstream gc) name (catalog_observe (g_catalog g) name)) = []"

definition arguments_clean :: "gate_config \<Rightarrow> 'w world \<Rightarrow> json \<Rightarrow> bool" where
  "arguments_clean gc w params \<longleftrightarrow>
     validator_enabled (c_validator gc) \<longrightarrow> check_params (w_match w) (c_validator gc) (json_print params) = []"

definition within_limits :: "'w world \<Rightarrow> 'w gate \<Rightarrow> bool" where
  "within_limits w g \<longleftrightarrow>
     (\<forall>l. g_limiter g = Some l \<longrightarrow> limiter_enabled (Some l) \<longrightarrow> snd (fst (allow (w_cap w) (w_now w) l)))"

definition needs_human :: "gate_config \<Rightarrow> bytes \<Rightarrow> bool" where
  "needs_human gc name \<longleftrightarrow>
     verdict (evaluate (c_engine gc) (c_agent gc) name) = Ask \<or> requires_approval (c_engine gc) (c_agent gc) name"

definition passed_gates :: "gate_config \<Rightarrow> 'w world \<Rightarrow> 'w gate \<Rightarrow> bytes \<Rightarrow> json \<Rightarrow> bool" where
  "passed_gates gc w g name params \<longleftrightarrow>
     policy_clears gc g name \<and> arguments_clean gc w params \<and> within_limits w g
     \<and> (needs_human gc name \<longrightarrow> approved gc w name params (reason (evaluate (c_engine gc) (c_agent gc) name)))"

lemma take_budget_cases:
  obtains (admitted) why g1 where "take_budget w g = ((why, True), g1)" "within_limits w g"
  | (refused) why g1 where "take_budget w g = ((why, False), g1)"
proof (cases "take_budget w g")
  case (Pair r g1)
  obtain why b where r: "r = (why, b)" by (cases r)
  have "within_limits w g" if b
    using that Pair r unfolding take_budget_def within_limits_def
    by (auto split: option.splits if_splits prod.splits)
  then show ?thesis using that Pair r by (cases b) auto
qed

lemma approve_ask_True: "fst (approve_ask gc w tool params refs dec s g) \<longleftrightarrow> approved gc w tool params (reason dec)"
  by (simp add: approve_ask_def approved_def Let_def split: option.splits list.splits)

lemma inject_call_Inr:
  assumes "inject_call gc w tool params s g = (Inr params', g')"
  shows "\<exists>resolved. apply_inject (w_resolve w) (inject_rules_for (c_engine gc) (c_agent gc) tool) params = Inr (params', resolved)"
  using assms unfolding inject_call_def
  by (cases "apply_inject (w_resolve w) (inject_rules_for (c_engine gc) (c_agent gc) tool) params")
    (auto split: inject_failure.splits prod.splits)

text \<open>A call that leaves the gate has passed every check on the way.\<close>

definition injected :: "gate_config \<Rightarrow> 'w world \<Rightarrow> bytes \<Rightarrow> json \<Rightarrow> json \<Rightarrow> bool" where
  "injected gc w name params params' \<longleftrightarrow>
     (\<exists>resolved. apply_inject (w_resolve w) (inject_rules_for (c_engine gc) (c_agent gc) name) params = Inr (params', resolved))"

lemma clear_call_forward:
  assumes "clear_call gc w m obj name params refs dec s g = (d, g')" and "d_forward d = Some tree"
  shows "arguments_clean gc w params \<and> within_limits w g
    \<and> (verdict dec = Ask \<longrightarrow> approved gc w name params (reason dec)) \<and> d_tool d = name \<and> d_forward_id d = m_id m
    \<and> (\<exists>params'. injected gc w name params params' \<and> tree = JObj (put ''params'' params' obj))"
proof -
  let ?hit = "if validator_enabled (c_validator gc) then check_params (w_match w) (c_validator gc) (json_print params) else []"
  have hit: "?hit = []"
  proof (rule ccontr)
    assume "?hit \<noteq> []"
    then have "d_forward (fst (clear_call gc w m obj name params refs dec s g)) = None"
      unfolding clear_call_def Let_def by (simp only: if_True not_False_eq_True refuse_simps rejecting_simps)
    then show False using assms by simp
  qed
  show ?thesis
  proof (cases rule: take_budget_cases [of w g])
    case (refused why g1)
    have "d_forward (fst (clear_call gc w m obj name params refs dec s g)) = None"
      unfolding clear_call_def Let_def hit by (simp add: refused)
    then show ?thesis using assms by simp
  next
    case (admitted why g1)
    let ?a = "if verdict dec = Ask then approve_ask gc w name params (Some refs) dec s g1 else (True, g1)"
    obtain ok g2 where a: "?a = (ok, g2)" by (cases ?a)
    have e: "clear_call gc w m obj name params refs dec s g =
        (if ok then (case inject_call gc w name params s g2 of
             (Inl msg, g3) \<Rightarrow> (rejecting (m_id m) (- 32600) msg name ''policy_denied'', g3)
           | (Inr params', g3) \<Rightarrow> forward_call gc w m (JObj (put ''params'' params' obj)) name refs dec s g3)
         else (rejecting (m_id m) (- 32600)
             (''nockguard: tool '' @ w_quote w name @ '' denied by approval gate'') name ''approval_denied'', g2))"
      unfolding clear_call_def Let_def hit admitted
      by (cases ok) (simp_all only: a prod.case bool.case simp_thms if_True if_False)
    have ok: ok using e assms by (cases ok) auto
    obtain params' g3 where i: "inject_call gc w name params s g2 = (Inr params', g3)"
      using e ok assms by (cases "inject_call gc w name params s g2"; cases "fst (inject_call gc w name params s g2)") auto
    have d: "(d, g') = forward_call gc w m (JObj (put ''params'' params' obj)) name refs dec s g3"
      using e ok assms(1) i by simp
    have "d_forward d = Some (JObj (put ''params'' params' obj)) \<and> d_tool d = name \<and> d_forward_id d = m_id m"
      using d by (simp add: forward_call_def Let_def)
    moreover have "verdict dec = Ask \<longrightarrow> approved gc w name params (reason dec)"
      using a ok approve_ask_True [of gc w name params "Some refs" dec s g1] by (auto split: if_splits)
    moreover have "injected gc w name params params'" using inject_call_Inr [OF i] unfolding injected_def .
    moreover have "arguments_clean gc w params" using hit unfolding arguments_clean_def by (auto split: if_splits)
    ultimately show ?thesis using admitted(2) assms(2) by auto
  qed
qed

lemma decide_named_forward:
  assumes "decide_named gc w m obj name params s g = (d, g')" and "d_forward d = Some tree"
    and "name \<noteq> []" and "length name \<le> max_request_name"
  shows "passed_gates gc w g name params \<and> d_tool d = name \<and> d_forward_id d = m_id m
    \<and> (\<exists>params'. injected gc w name params params' \<and> tree = JObj (put ''params'' params' obj))"
proof -
  let ?dec = "evaluate (c_engine gc) (c_agent gc) name"
  obtain ob cz where ob: "pin_observation (c_engine gc) (c_agent gc) (c_upstream gc) name (catalog_observe (g_catalog g) name) = (ob, cz)"
    by (cases "pin_observation (c_engine gc) (c_agent gc) (c_upstream gc) name (catalog_observe (g_catalog g) name)")
  let ?dec' = "if verdict ?dec = Allow \<and> requires_approval (c_engine gc) (c_agent gc) name then ?dec\<lparr>verdict := Ask\<rparr> else ?dec"
  have v: "verdict ?dec \<noteq> Deny"
  proof
    assume "verdict ?dec = Deny"
    then have "d_forward (fst (decide_named gc w m obj name params s g)) = None"
      by (simp add: decide_named_def Let_def ob)
    then show False using assms by simp
  qed
  have c: "cz = []"
  proof (rule ccontr)
    assume "cz \<noteq> []"
    then have "d_forward (fst (decide_named gc w m obj name params s g)) = None"
      using v by (simp add: decide_named_def Let_def ob)
    then show False using assms by simp
  qed
  have e: "clear_call gc w m obj name params (from_tool_call name (json_print params)) ?dec' s g = (d, g')"
    using assms(1) v c by (simp add: decide_named_def Let_def ob)
  note f = clear_call_forward [OF e assms(2)]
  have r: "reason ?dec' = reason ?dec" by simp
  have "verdict ?dec' = Ask" if "needs_human gc name"
    using that v unfolding needs_human_def by (cases "verdict ?dec") auto
  then show ?thesis
    using f v c assms(3,4) unfolding passed_gates_def policy_clears_def ob snd_conv r by blast
qed

text \<open>Injection only writes below \<open>arguments\<close>.\<close>

lemma set_put_subset: "set (put k v obj) \<subseteq> insert (k, v) (set obj)"
  by (induction k v obj rule: put.induct) auto

lemma normal_JObj_put: "normal (JObj obj) \<Longrightarrow> normal v \<Longrightarrow> normal (JObj (put k v obj))"
  using set_put_subset [of k v obj] by (auto simp: list_all_iff canonical_put)

lemma set_at_path_normal:
  "set_at_path ps v obj = Some obj' \<Longrightarrow> normal (JObj obj) \<Longrightarrow> normal (JObj obj')"
proof (induction ps v obj arbitrary: obj' rule: set_at_path.induct)
  case (2 k v obj)
  then show ?case using normal_JObj_put [of obj "JStr (coerce_utf8 v)" k] by simp
next
  case (3 k p ps v obj)
  let ?n = "case map_of obj k of None \<Rightarrow> Some [] | Some raw \<Rightarrow> raw_map raw"
  obtain nxt n where n: "?n = Some nxt" "set_at_path (p # ps) v nxt = Some n" "obj' = put k (JObj n) obj"
    using "3.prems"(1) by (auto split: option.splits)
  have "normal (JObj nxt)"
  proof (cases "map_of obj k")
    case (Some raw)
    then have "(k, raw) \<in> set obj" by (rule map_of_SomeD)
    then have "normal raw" using "3.prems"(2) by (auto simp: list_all_iff)
    then show ?thesis using n(1) Some by (cases raw) (auto simp: raw_map_def collect_canonical)
  qed (use n(1) in simp)
  then show ?case using "3.IH" [OF n(1,2)] normal_JObj_put [OF "3.prems"(2), of "JObj n" k] n(3) by simp
qed simp

lemma set_at_path_keys:
  assumes "set_at_path (k # ps) v obj = Some obj'"
  shows "fst ` set obj' \<subseteq> insert k (fst ` set obj)"
proof -
  obtain x where "obj' = put k x obj" using assms by (cases ps) (auto split: option.splits)
  then show ?thesis by (simp only: set_fst_put order.refl)
qed

lemma apply_resolved_keeps:
  "apply_resolved rs params = Inr params' \<Longrightarrow> normal (JObj params) \<Longrightarrow>
    normal (JObj params') \<and> fst ` set params' \<subseteq> insert ''arguments'' (fst ` set params)"
proof (induction rs params rule: apply_resolved.induct)
  case (2 r v rs params)
  obtain p where p: "set_arg_path (arg r) (inject_value r v) params = Some p" "apply_resolved rs p = Inr params'"
    using 2(2) by (auto split: option.splits)
  note q = p(1) [unfolded set_arg_path_at]
  have "normal (JObj p)" by (rule set_at_path_normal [OF q 2(3)])
  from "2.IH" [OF p this] set_at_path_keys [OF q] show ?case by blast
qed auto

lemma arguments_not_name: "\<not> equal_fold ''arguments'' ''name''"
  by (simp add: equal_fold_def runes_ascii fold_rune_def)

lemma no_alias_keys:
  assumes "fst ` set ms' \<subseteq> insert x (fst ` set ms)" and "no_alias k ms" and "\<not> equal_fold x k"
  shows "no_alias k ms'"
  unfolding no_alias_def
proof (intro ballI impI)
  fix y assume y: "y \<in> fst ` set ms'" "equal_fold y k"
  then consider "y = x" | "y \<in> fst ` set ms" using assms(1) by blast
  then show "y = k" using y(2) assms(2,3) by cases (auto simp: no_alias_def)
qed

lemma injected_names_one_tool:
  assumes "canonicalize_message line = Inr (obj, t, m)" and "m_method m = ''tools/call''"
    and "canonical_tool_call (m_params m) = Some (name, params)" and "name \<noteq> []"
    and "injected gc w name params params'"
  shows "names_one_tool name (JObj (put ''params'' params' obj))"
proof -
  obtain ps where ps: "params = JObj ps" "canonical_map ps" "no_alias ''name'' ps" "normal params"
      "Option.bind (map_of ps ''name'') as_string = Some name"
    using canonical_tool_call_spec [OF assms(3)] by blast
  obtain v where v: "map_of ps ''name'' = Some v" "as_string v = Some name"
    using ps(5) by (cases "map_of ps ''name''") auto
  then have name: "map_of ps ''name'' = Some (JStr name)" using assms(4) by (cases v) auto
  obtain resolved where r: "apply_inject (w_resolve w) (inject_rules_for (c_engine gc) (c_agent gc) name) params = Inr (params', resolved)"
    using assms(5) unfolding injected_def by blast
  show ?thesis
  proof (cases "inject_rules_for (c_engine gc) (c_agent gc) name = []")
    case True
    then have "params' = JObj ps" using r ps(1) by (simp add: apply_inject_def)
    then show ?thesis using names_one_toolI [OF assms(1,2) ps(2,3) name] ps(1,4) by simp
  next
    case False
    obtain ms ms' where ms: "raw_map params = Some ms" "apply_resolved resolved ms = Inr ms'" "params' = JObj ms'"
      by (rule apply_inject_Inr [OF r False])
    have m: "ms = ps" using ms(1) ps(1,2) by (simp add: raw_map_def collect_canonical)
    note k = apply_resolved_keeps [OF ms(2) [unfolded m] ps(4) [unfolded ps(1)]]
    have "apart [''name''] (arg_path rl)" for rl by (simp add: apart_def arg_path_def)
    then have "get_at_path [''name''] ms' = get_at_path [''name''] ps"
      using apply_resolved_other [OF ms(2) [unfolded m]] by blast
    then have name': "map_of ms' ''name'' = Some (JStr name)" using name by simp
    have na: "no_alias ''name'' ms'" by (rule no_alias_keys [OF conjunct2 [OF k] ps(3) arguments_not_name])
    have "canonical_map ms'" using conjunct1 [OF k] by simp
    from names_one_toolI [OF assms(1,2) this na name' conjunct1 [OF k]] show ?thesis unfolding ms(3) .
  qed
qed

subsection \<open>The outcome of a decision\<close>

lemma oversized_None: "reject_oversized gc w kind name i g = None \<longleftrightarrow> length name \<le> max_request_name"
  by (simp add: reject_oversized_def Let_def)

lemma oversized_Some:
  "reject_oversized gc w kind name i g = Some (d, g') \<Longrightarrow>
    d_forward d = None \<and> d_reject d \<and> d_reject_id d = i \<and> g_limiter g' = g_limiter g"
  by (auto simp: reject_oversized_def Let_def split: if_splits)

definition fail_mode_asks :: "gate_config \<Rightarrow> bool" where
  "fail_mode_asks gc \<longleftrightarrow>
     \<not> p_pairing (c_session gc) \<and> verdict (fail_mode_verdict (c_engine gc) (c_agent gc) ''unextractable-name'') = Ask"

lemma decide_unnamed_forward:
  assumes "decide_unnamed gc w m tree s g = (d, g')" and "d_forward d = Some t"
  shows "t = tree \<and> fail_mode_asks gc \<and> approved gc w [] tree (Basis ''unextractable-name'') \<and> d_tool d = []"
proof -
  let ?dec = "fail_mode_verdict (c_engine gc) (c_agent gc) ''unextractable-name''"
  have r: "reason ?dec = Basis ''unextractable-name''"
    by (simp add: fail_mode_verdict_def decide_as_def split: option.split)
  let ?a = "if \<not> p_pairing (c_session gc) \<and> verdict ?dec = Ask then approve_ask gc w [] tree None ?dec s g else (False, g)"
  obtain ok g1 where a: "?a = (ok, g1)" by (cases ?a)
  have e: "decide_unnamed gc w m tree s g =
      (if ok then (no_decision\<lparr>d_forward := Some tree\<rparr>, gate_resolve gc w s g1)
       else refuse gc w s [] ''deny'' ''unextractable-name'' None
          (rejecting (m_id m) (- 32600) (''nockguard: tools/call rejected '' @ em_dash @ '' tool name could not be extracted'') []
            ''policy_denied'') g1)"
    unfolding decide_unnamed_def Let_def a prod.case ..
  have ok: ok
  proof (rule ccontr)
    assume "\<not> ok"
    then have "d_forward (fst (decide_unnamed gc w m tree s g)) = None" unfolding e by (simp only: if_False refuse_simps rejecting_simps)
    then show False using assms by simp
  qed
  have asks: "fail_mode_asks gc" using a ok unfolding fail_mode_asks_def by (cases "\<not> p_pairing (c_session gc) \<and> verdict ?dec = Ask") auto
  then have "approve_ask gc w [] tree None ?dec s g = (True, g1)" using a ok unfolding fail_mode_asks_def by simp
  then have "approved gc w [] tree (reason ?dec)" using approve_ask_True [of gc w "[]" tree None ?dec s g] by simp
  then show ?thesis using asks e ok assms r by (auto simp: no_decision_def)
qed

text \<open>The five ways a line is decided.\<close>

lemma decide_cases:
  obtains (undecoded) f where "canonicalize_message line = Inl f" "decide gc w line s g = (reject_undecoded f, g)"
  | (oversized) obj tree m kind name where "canonicalize_message line = Inr (obj, tree, m)"
      "reject_oversized gc w kind name (m_id m) g = Some (decide gc w line s g)"
  | (plain) obj tree m where "canonicalize_message line = Inr (obj, tree, m)" "m_method m \<noteq> ''tools/call''"
      "length (m_method m) \<le> max_request_name" "decide gc w line s g = decide_method gc w m tree g"
  | (unnamed) obj tree m where "canonicalize_message line = Inr (obj, tree, m)" "m_method m = ''tools/call''"
      "decide gc w line s g = decide_unnamed gc w m tree s g"
  | (named) obj tree m name params where "canonicalize_message line = Inr (obj, tree, m)" "m_method m = ''tools/call''"
      "canonical_tool_call (m_params m) = Some (name, params)" "name \<noteq> []" "length name \<le> max_request_name"
      "decide gc w line s g = decide_named gc w m obj name params s g"
proof (cases "canonicalize_message line")
  case (Inl f)
  have "f \<noteq> MarshalFailed" using Inl by (auto simp: canonicalize_message_def split: option.splits)
  then have "decide gc w line s g = (reject_undecoded f, g)" using Inl by (simp add: decide_def decide_canonical_def)
  then show ?thesis by (rule undecoded [OF Inl])
next
  case (Inr c)
  obtain obj tree m where c: "c = (obj, tree, m)" by (cases c)
  note e = Inr [unfolded c]
  show ?thesis
  proof (cases "reject_oversized gc w ''method'' (m_method m) (m_id m) g")
    case (Some r)
    then have "decide gc w line s g = r" by (simp add: decide_def decide_canonical_def e)
    then show ?thesis using oversized [OF e] Some by metis
  next
    case n: None
    show ?thesis
    proof (cases "m_method m = ''tools/call''")
      case False
      then have "decide gc w line s g = decide_method gc w m tree g" using n by (simp add: decide_def decide_canonical_def e)
      then show ?thesis by (rule plain [OF e False n [unfolded oversized_None]])
    next
      case call: True
      then have d: "decide gc w line s g = decide_tool_call gc w m obj tree s g"
        using n by (simp add: decide_def decide_canonical_def e)
      have o: "reject_oversized gc w ''tool'' [] (m_id m) g = None" by (simp only: oversized_None) simp
      show ?thesis
      proof (cases "canonical_tool_call (m_params m)")
        case None
        then have "decide gc w line s g = decide_unnamed gc w m tree s g" using d o by (simp add: decide_tool_call_def)
        then show ?thesis by (rule unnamed [OF e call])
      next
        case (Some np)
        obtain name params where np: "np = (name, params)" by (cases np)
        consider (big) r where "reject_oversized gc w ''tool'' name (m_id m) g = Some r"
          | (empty) "reject_oversized gc w ''tool'' name (m_id m) g = None" "name = []"
          | (ok) "reject_oversized gc w ''tool'' name (m_id m) g = None" "name \<noteq> []" by blast
        then show ?thesis
        proof cases
          case big
          then have "decide gc w line s g = r" using d Some np by (simp add: decide_tool_call_def)
          then show ?thesis using oversized [OF e] big by metis
        next
          case empty
          then have "decide gc w line s g = decide_unnamed gc w m tree s g" using d Some np by (simp add: decide_tool_call_def)
          then show ?thesis by (rule unnamed [OF e call])
        next
          case ok
          then have "decide gc w line s g = decide_named gc w m obj name params s g"
            using d Some np by (simp add: decide_tool_call_def)
          then show ?thesis by (rule named [OF e call Some [unfolded np] ok(2) ok(1) [unfolded oversized_None]])
        qed
      qed
    qed
  qed
qed

lemma decide_method_forward:
  assumes "decide_method gc w m tree g = (d, g')" and "d_forward d = Some t"
  shows "t = tree \<and> (m_method m \<noteq> [] \<longrightarrow> \<not> denies_method (c_engine gc) (c_agent gc) (m_method m))"
  using assms by (auto simp: decide_method_def Let_def split: if_splits)

lemma reject_undecoded_forward [simp]: "d_forward (reject_undecoded f) = None"
  by (cases f) (simp_all add: reject_undecoded_def)

lemma forwarded_call_cleared:
  assumes "decide gc w line s g = (d, g')" and "d_forward d = Some t"
    and "message_of_tree t = Some m" and "m_method m = ''tools/call''"
  shows "(names_one_tool (d_tool d) t
      \<and> (\<exists>obj params params'. passed_gates gc w g (d_tool d) params \<and> injected gc w (d_tool d) params params'
          \<and> t = JObj (put ''params'' params' obj)))
    \<or> (d_tool d = [] \<and> fail_mode_asks gc \<and> approved gc w [] t (Basis ''unextractable-name''))"
proof (cases rule: decide_cases [of line gc w s g])
  case (undecoded f)
  then show ?thesis using assms(1,2) reject_undecoded_forward [of f] by simp
next
  case (oversized obj tree m0 kind name)
  then show ?thesis using oversized_Some [of gc w kind name "m_id m0" g d g'] assms(1,2) by simp
next
  case (plain obj tree m0)
  have "t = tree" using decide_method_forward [OF _ assms(2)] plain(4) assms(1) by metis
  then have "m0 = m" using canonicalize_message_spec(4) [OF plain(1)] assms(3) by simp
  then show ?thesis using plain(2) assms(4) by simp
next
  case (unnamed obj tree m0)
  from decide_unnamed_forward [OF _ assms(2), of gc w m0 tree s g g'] unnamed(3) assms(1) show ?thesis by simp
next
  case (named obj tree m0 name params)
  from decide_named_forward [OF _ assms(2) named(4,5), of gc w m0 obj params s g g'] named(6) assms(1)
  obtain params' where p: "passed_gates gc w g name params" "d_tool d = name" "injected gc w name params params'"
      "t = JObj (put ''params'' params' obj)" by auto
  from injected_names_one_tool [OF named(1-4) p(3)] p show ?thesis by blast
qed

text \<open>
  C10. Whatever the gate forwards and an upstream reads as a tools/call has one name for every reader, was allowed
  or put to a human by the policy, has a matching pinned definition, clean arguments and budget left, was approved
  where the policy or require_approval asks for a human, and carries exactly the gated parameters with the
  configured secrets written in. The one other way out is a call without a readable name, which needs
  fail_mode ask and an approval.
\<close>

theorem forwarded_call_passed_every_gate:
  assumes "decide gc w line s g = (d, g')" and "d_forward d = Some t"
    and "message_of_tree t = Some m" and "m_method m = ''tools/call''"
  shows "(names_one_tool (d_tool d) t
      \<and> (\<exists>obj params params'. passed_gates gc w g (d_tool d) params \<and> injected gc w (d_tool d) params params'
          \<and> t = JObj (put ''params'' params' obj)))
    \<or> (d_tool d = [] \<and> fail_mode_asks gc \<and> approved gc w [] t (Basis ''unextractable-name''))"
  by (rule forwarded_call_cleared [OF assms])

subsection \<open>Budget\<close>

lemma take_budget_limiter:
  "g_limiter (snd (take_budget w g)) = g_limiter g
    \<or> (\<exists>l. g_limiter g = Some l \<and> limiter_enabled (Some l)
        \<and> g_limiter (snd (take_budget w g)) = Some (snd (allow (w_cap w) (w_now w) l)))"
  by (auto simp: take_budget_def split: option.splits prod.splits)

lemma approve_ask_pair: "approve_ask gc w tool params refs dec s g = (ok, g') \<Longrightarrow> g_limiter g' = g_limiter g"
  using approve_ask_limiter [of gc w tool params refs dec s g] by (simp del: approve_ask_limiter)

lemma clear_call_limiter:
  "g_limiter (snd (clear_call gc w m obj name params refs dec s g)) =
     (if arguments_clean gc w params then g_limiter (snd (take_budget w g)) else g_limiter g)"
proof -
  let ?hit = "if validator_enabled (c_validator gc) then check_params (w_match w) (c_validator gc) (json_print params) else []"
  have clean: "arguments_clean gc w params \<longleftrightarrow> ?hit = []" by (simp add: arguments_clean_def)
  show ?thesis
  proof (cases "?hit = []")
    case False
    then show ?thesis unfolding clean clear_call_def Let_def
      by (simp only: if_True if_False not_False_eq_True refuse_simps)
  next
    case hit: True
    obtain why b g1 where tb: "take_budget w g = ((why, b), g1)" by (metis prod.exhaust)
    show ?thesis
    proof (cases b)
      case False
      then show ?thesis unfolding clean clear_call_def Let_def hit tb by simp
    next
      case True
      let ?a = "if verdict dec = Ask then approve_ask gc w name params (Some refs) dec s g1 else (True, g1)"
      obtain ok g2 where a: "?a = (ok, g2)" by (cases ?a)
      have g2: "g_limiter g2 = g_limiter g1" using a by (auto split: if_splits dest: approve_ask_pair)
      obtain r g3 where i: "inject_call gc w name params s g2 = (r, g3)" by fastforce
      have g3: "g_limiter g3 = g_limiter g2" using inject_call_limiter [of gc w name params s g2] i by simp
      have "g_limiter (snd (clear_call gc w m obj name params refs dec s g)) = g_limiter g1"
        unfolding clear_call_def Let_def hit tb
        by (cases ok; cases r)
          (simp_all only: a i True prod.case bool.case sum.case simp_thms if_True if_False forward_call_limiter snd_conv g2 g3)
      then show ?thesis unfolding clean hit tb by simp
    qed
  qed
qed

lemma decide_unnamed_limiter [simp]: "g_limiter (snd (decide_unnamed gc w m tree s g)) = g_limiter g"
proof -
  let ?dec = "fail_mode_verdict (c_engine gc) (c_agent gc) ''unextractable-name''"
  let ?a = "if \<not> p_pairing (c_session gc) \<and> verdict ?dec = Ask then approve_ask gc w [] tree None ?dec s g else (False, g)"
  obtain ok g1 where a: "?a = (ok, g1)" by (cases ?a)
  have "g_limiter g1 = g_limiter g" using a by (auto split: if_splits dest: approve_ask_pair)
  then show ?thesis unfolding decide_unnamed_def Let_def a prod.case by (cases ok) simp_all
qed

lemma decide_named_limiter:
  assumes "name \<noteq> []" and "length name \<le> max_request_name"
  shows "g_limiter (snd (decide_named gc w m obj name params s g)) =
     (if policy_clears gc g name \<and> arguments_clean gc w params then g_limiter (snd (take_budget w g)) else g_limiter g)"
proof -
  obtain ob cz where ob: "pin_observation (c_engine gc) (c_agent gc) (c_upstream gc) name (catalog_observe (g_catalog g) name) = (ob, cz)"
    by fastforce
  have p: "policy_clears gc g name \<longleftrightarrow> verdict (evaluate (c_engine gc) (c_agent gc) name) \<noteq> Deny \<and> cz = []"
    using assms by (simp add: policy_clears_def ob)
  show ?thesis
    by (cases "verdict (evaluate (c_engine gc) (c_agent gc) name) = Deny"; cases "cz = []")
      (simp_all add: p decide_named_def Let_def ob clear_call_limiter)
qed

text \<open>
  C29. Budget is spent only by a tools/call whose name the policy allows, whose pin matches and whose arguments are
  clean, and then exactly as the limiter decides; every other message leaves the limiter as it was.
\<close>

theorem refused_calls_spend_nothing:
  "g_limiter (snd (decide gc w line s g)) = g_limiter g
   \<or> (\<exists>obj tree m name params l. canonicalize_message line = Inr (obj, tree, m) \<and> m_method m = ''tools/call''
        \<and> canonical_tool_call (m_params m) = Some (name, params) \<and> policy_clears gc g name \<and> arguments_clean gc w params
        \<and> g_limiter g = Some l \<and> limiter_enabled (Some l)
        \<and> g_limiter (snd (decide gc w line s g)) = Some (snd (allow (w_cap w) (w_now w) l)))"
proof (cases rule: decide_cases [of line gc w s g])
  case (undecoded f)
  then show ?thesis by simp
next
  case (oversized obj tree m kind name)
  obtain d g' where d: "decide gc w line s g = (d, g')" by fastforce
  then show ?thesis using oversized_Some [of gc w kind name "m_id m" g d g'] oversized(2) by simp
next
  case (plain obj tree m)
  then show ?thesis by (simp add: decide_method_def Let_def)
next
  case (unnamed obj tree m)
  then show ?thesis by simp
next
  case (named obj tree m name params)
  show ?thesis
  proof (cases "policy_clears gc g name \<and> arguments_clean gc w params")
    case True
    have "g_limiter (snd (decide gc w line s g)) = g_limiter (snd (take_budget w g))"
      unfolding named(6) decide_named_limiter [OF named(4,5)] if_P [OF True] ..
    then show ?thesis using take_budget_limiter [of w g] named(1-3) True by metis
  next
    case False
    have "g_limiter (snd (decide gc w line s g)) = g_limiter g"
      unfolding named(6) decide_named_limiter [OF named(4,5)] if_not_P [OF False] ..
    then show ?thesis by blast
  qed
qed

subsection \<open>Audit rows\<close>

text \<open>\<open>ds\<close> are the decisions of the rows added between two states.\<close>

definition logged :: "'w world \<Rightarrow> 'w gate \<Rightarrow> bytes list \<Rightarrow> 'w gate \<Rightarrow> bool" where
  "logged w g ds g' \<longleftrightarrow>
     (\<exists>rows. map ev_decision rows = ds \<and> good_step (w_record w) (g_queue g) rows (g_queue g')
       \<and> q_seq (g_queue g') = q_seq (g_queue g))"

definition ready :: "u64 \<Rightarrow> 'w gate \<Rightarrow> bool" where
  "ready s g \<longleftrightarrow> queue_inv (g_queue g) \<and> s < q_seq (g_queue g)"

lemma logged_ready: "logged w g ds g' \<Longrightarrow> ready s g \<Longrightarrow> ready s g'"
  unfolding logged_def ready_def good_step_def by metis

lemma logged_refl: "ready s g \<Longrightarrow> g_queue g' = g_queue g \<Longrightarrow> logged w g [] g'"
  unfolding logged_def ready_def using good_idle [of "g_queue g'" "g_queue g" "w_record w"] by auto

lemma logged_trans: "logged w g ds g1 \<Longrightarrow> logged w g1 es g' \<Longrightarrow> logged w g (ds @ es) g'"
  unfolding logged_def by (metis good_trans map_append)

lemma flush_loop_seq: "q_seq (flush_loop n ses rec q) = q_seq q"
  by (induction n arbitrary: q) auto

lemma queue_seqs [simp]:
  "q_seq (append_audit ses observe s tool decision rsn refs actor q) = q_seq q"
  "q_seq (resolve_audit ses rec s q) = q_seq q"
  "q_seq (audit_method ses rec mth decision rsn q) = q_seq q"
  by (simp_all add: append_audit_def resolve_audit_def audit_method_def push_row_def forward_decision_def score_decision_def
      flush_audits_def flush_loop_seq Let_def split: option.split)

lemma audit_row_decision: "(\<And>ev. ev_decision (f ev) = ev_decision ev) \<Longrightarrow>
    ev_decision (audit_row ses f aid tool decision rsn refs actor) = decision"
  by (simp add: audit_row_def Let_def set_refs_def set_action_fields_def split: option.split)

lemma apply_observation_decision: "ev_decision (apply_observation gc g ev) = ev_decision ev"
  by (simp add: apply_observation_def set_observation_fields_def)

lemma gate_append_queue:
  "g_queue (gate_append gc s tool decision rsn refs actor g) =
     append_audit (c_session gc) (apply_observation gc g) s tool decision rsn refs actor (g_queue g)"
  by (simp add: gate_append_def Let_def)

lemma logged_append: "ready s g \<Longrightarrow> logged w g [decision] (gate_append gc s tool decision rsn refs actor g)"
  unfolding logged_def gate_append_queue
  by (rule exI [of _ "[audit_row (c_session gc) (apply_observation gc g) (action_of s (g_queue g)) tool decision rsn refs actor]"])
    (auto simp: ready_def audit_row_decision apply_observation_decision intro: queue_step_good queue_step.step_append)

lemma logged_resolve: "ready s g \<Longrightarrow> logged w g [] (gate_resolve gc w s g)"
  unfolding logged_def gate_resolve_def
  by (rule exI [of _ "[]"]) (auto simp: ready_def intro: queue_step_good queue_step.step_resolve)

lemma logged_method: "ready s g \<Longrightarrow> logged w g [decision] (gate_method gc w mth decision rsn g)"
  unfolding logged_def gate_method_def
  by (rule exI [of _ "[zero_event\<lparr>ev_agent := c_agent gc, ev_tool := mth, ev_decision := decision, ev_reason := rsn\<rparr>]"])
    (use queue_step_good [OF queue_step.step_method] in \<open>auto simp: ready_def c_agent_def\<close>)

lemma logged_append_then: "ready s g0 \<Longrightarrow> logged w g0 ds g \<Longrightarrow>
    logged w g0 (ds @ [decision]) (gate_append gc s tool decision rsn refs actor g)"
  by (rule logged_trans [OF _ logged_append [OF logged_ready]])

lemma logged_resolve_then: "ready s g0 \<Longrightarrow> logged w g0 ds g \<Longrightarrow> logged w g0 ds (gate_resolve gc w s g)"
  using logged_trans [OF _ logged_resolve [OF logged_ready]] by fastforce

lemma logged_same: "logged w g0 ds g \<Longrightarrow> g_queue g' = g_queue g \<Longrightarrow> logged w g0 ds g'"
  by (simp add: logged_def)

text \<open>A refusal ends with the row of the refusal, a forward with the row of the forward.\<close>

definition refusals :: "bytes set" where
  "refusals = {''deny'', ''block'', ''ratelimit'', ''approval-denied'', ''method-deny''}"

definition outcome_logged :: "'w world \<Rightarrow> 'w gate \<Rightarrow> bytes \<Rightarrow> bool \<Rightarrow> 'w gate \<Rightarrow> bool" where
  "outcome_logged w g pass refused g' \<longleftrightarrow>
     (\<exists>ds d. logged w g (ds @ [d]) g' \<and> (if refused then d \<in> refusals else d = pass))"

lemma outcome_loggedI: "logged w g (ds @ [d]) g' \<Longrightarrow> (if refused then d \<in> refusals else d = pass) \<Longrightarrow> outcome_logged w g pass refused g'"
  unfolding outcome_logged_def by blast

lemma outcome_extend: "logged w g es g1 \<Longrightarrow> outcome_logged w g1 pass refused g' \<Longrightarrow> outcome_logged w g pass refused g'"
  unfolding outcome_logged_def using logged_trans [of w g es g1] by (metis append.assoc)

lemma outcome_resolve: "ready s g \<Longrightarrow> outcome_logged w g pass refused g' \<Longrightarrow> outcome_logged w g pass refused (gate_resolve gc w s g')"
  unfolding outcome_logged_def using logged_resolve_then by blast

lemma outcome_ex: "outcome_logged w g pass refused g' \<Longrightarrow> \<exists>ds. logged w g ds g'"
  unfolding outcome_logged_def by blast

lemma outcome_refused: "outcome_logged w g pass True g' \<Longrightarrow> outcome_logged w g pass' True g'"
  unfolding outcome_logged_def by simp

lemma refuse_logged:
  assumes "ready s g" and "decision \<in> refusals"
  shows "outcome_logged w g pass True (snd (refuse gc w s tool decision rsn refs d g))"
  unfolding refuse_def snd_conv
  by (rule outcome_loggedI [OF logged_resolve_then [OF assms(1) logged_append_then [OF assms(1) logged_refl [OF assms(1)]]]])
    (simp_all add: assms(2))

lemma approve_ask_logged:
  assumes "ready s g"
  shows "outcome_logged w g ''approval-granted'' (\<not> fst (approve_ask gc w tool params refs dec s g))
    (snd (approve_ask gc w tool params refs dec s g))"
proof -
  note a = logged_append_then [OF assms] and r = logged_resolve_then [OF assms] and n = logged_refl [OF assms refl]
  have d: "''approval-denied'' \<in> refusals" by (simp add: refusals_def)
  show ?thesis
  proof (cases "w_approver w")
    case None
    show ?thesis unfolding approve_ask_def None option.case fst_conv snd_conv
      by (rule outcome_loggedI [OF r [OF a [OF n]]]) (simp add: d)
  next
    case (Some ask)
    let ?v = "ask \<lparr>ap_agent = c_agent gc, ap_tool = tool, ap_params = params, ap_reason = reason_text (w_quote w) (reason dec)\<rparr>"
    obtain ds g1 where g1: "(case an_taps ?v of [] \<Rightarrow> g | t # _ \<Rightarrow> gate_append gc s tool ''block'' t refs [] g) = g1"
        "logged w g ds g1"
    proof (cases "an_taps ?v")
      case Nil
      then show ?thesis using that [of g "[]"] n by simp
    next
      case (Cons t ts)
      have "logged w g ([] @ [''block'']) (gate_append gc s tool ''block'' t refs [] g)" by (rule a [OF n])
      then show ?thesis using that Cons by simp
    qed
    show ?thesis
    proof (cases "an_approved ?v")
      case True
      then show ?thesis unfolding approve_ask_def Some option.case Let_def g1(1)
        using outcome_loggedI [OF a [OF g1(2)], of False "''approval-granted''" "''approval-granted''"] by simp
    next
      case False
      then show ?thesis unfolding approve_ask_def Some option.case Let_def g1(1)
        using outcome_loggedI [OF r [OF a [OF g1(2)]], of True "''approval-denied''"] d by simp
    qed
  qed
qed

lemma inject_rows_logged:
  "ready s g0 \<Longrightarrow> logged w g0 ds g \<Longrightarrow>
    \<exists>es. logged w g0 es (fold (\<lambda>(r, v) g. gate_append gc s tool ''inject'' (txt r) None [] (g\<lparr>g_scrub := sc r v g\<rparr>)) xs g)"
proof (induction xs arbitrary: g ds)
  case (Cons x xs)
  obtain r v where x: "x = (r, v)" by (cases x)
  have "logged w g0 ds (g\<lparr>g_scrub := sc r v g\<rparr>)" by (rule logged_same [OF Cons.prems(2)]) simp
  from logged_append_then [OF Cons.prems(1) this]
  have "logged w g0 (ds @ [''inject'']) (gate_append gc s tool ''inject'' (txt r) None [] (g\<lparr>g_scrub := sc r v g\<rparr>))" .
  from Cons.IH [OF Cons.prems(1) this] show ?case unfolding x by simp
qed auto

lemma resolve_rules_not_internal: "resolve_rules resolver rs \<noteq> Inl InjectInternal"
  by (induction rs) (auto split: option.splits sum.splits)

lemma apply_resolved_not_internal: "apply_resolved rs params \<noteq> Inl InjectInternal"
  by (induction rs params rule: apply_resolved.induct) (auto split: option.splits)

lemma inject_call_logged:
  assumes "ready s g" and "inject_call gc w tool (JObj ps) s g = (r, g')"
  shows "(\<exists>params' ds. r = Inr params' \<and> logged w g ds g') \<or> (\<exists>msg. r = Inl msg \<and> outcome_logged w g pass True g')"
proof (cases "apply_inject (w_resolve w) (inject_rules_for (c_engine gc) (c_agent gc) tool) (JObj ps)")
  case (Inl e)
  have "e \<noteq> InjectInternal"
    using Inl resolve_rules_not_internal apply_resolved_not_internal
    by (auto simp: apply_inject_def raw_map_def split: if_splits sum.splits option.splits)
  then have i: "r = Inl (''nockguard: tool '' @ w_quote w tool @ '' injection failed'')"
      "g' = gate_resolve gc w s (gate_append gc s tool ''block'' (failure_text e) None [] g)"
    using assms(2) Inl unfolding inject_call_def by (cases e; simp)+
  have "outcome_logged w g pass True g'" unfolding i(2)
    by (rule outcome_loggedI [OF logged_resolve_then [OF assms(1) logged_append_then [OF assms(1) logged_refl [OF assms(1) refl]]]])
      (simp add: refusals_def)
  then show ?thesis using i(1) by blast
next
  case (Inr pr)
  obtain params' resolved where pr: "pr = (params', resolved)" by (cases pr)
  show ?thesis
    using inject_rows_logged [OF assms(1) logged_refl [OF assms(1) refl], of w gc tool _ _ resolved]
      assms(2) Inr pr unfolding inject_call_def by auto
qed

lemma forward_call_logged:
  assumes "ready s g"
  shows "outcome_logged w g ''allow'' False (snd (forward_call gc w m tree name refs dec s g))"
proof -
  let ?why = "reason_text (w_quote w) (reason dec)"
  let ?g1 = "if shadow_would_deny dec then gate_append gc s name ''would-deny'' ?why (Some refs) [] g else g"
  note n = logged_refl [OF assms refl]
  have "logged w g (if shadow_would_deny dec then [''would-deny''] else []) ?g1"
    using n logged_append [OF assms] by simp
  then obtain ds where g1: "logged w g ds ?g1" ..
  from logged_append_then [OF assms this]
  have g2: "logged w g (ds @ [''allow'']) (gate_append gc s name ''allow'' ?why (Some refs) [] ?g1)" .
  show ?thesis unfolding forward_call_def Let_def snd_conv
    by (cases "verdict dec = Ask") (simp_all only: if_True if_False simp_thms,
      (rule outcome_loggedI [OF logged_resolve_then [OF assms g2]] outcome_loggedI [OF g2], simp)+)
qed

text \<open>Every way out of a call has logged its outcome.\<close>

definition settled :: "'w world \<Rightarrow> bytes \<Rightarrow> 'w gate \<Rightarrow> mcp_decision \<times> 'w gate \<Rightarrow> bool" where
  "settled w pass g r \<longleftrightarrow> outcome_logged w g pass (d_forward (fst r) = None) (snd r)"

lemma settled_refuse:
  "ready s g \<Longrightarrow> decision \<in> refusals \<Longrightarrow> d_forward d = None \<Longrightarrow> settled w pass g (refuse gc w s tool decision rsn refs d g)"
  unfolding settled_def using refuse_logged [of s g decision w pass gc tool rsn refs d] by simp

lemma settled_extend: "logged w g es g1 \<Longrightarrow> settled w pass g1 r \<Longrightarrow> settled w pass g r"
  unfolding settled_def by (rule outcome_extend)

lemma take_budget_queue: "g_queue (snd (take_budget w g)) = g_queue g"
  by (auto simp: take_budget_def split: option.splits prod.splits)

lemma clear_call_settled:
  assumes "ready s g"
  shows "settled w ''allow'' g (clear_call gc w m obj name (JObj ps) refs dec s g)"
proof -
  let ?hit = "if validator_enabled (c_validator gc) then check_params (w_match w) (c_validator gc) (json_print (JObj ps)) else []"
  have r: "''block'' \<in> refusals" "''ratelimit'' \<in> refusals" by (simp_all add: refusals_def)
  obtain why b g1 where tb: "take_budget w g = ((why, b), g1)" by (metis prod.exhaust)
  have l1: "logged w g [] g1" by (rule logged_refl [OF assms]) (use take_budget_queue [of w g] tb in simp)
  note r1 = logged_ready [OF l1 assms]
  let ?a = "if verdict dec = Ask then approve_ask gc w name (JObj ps) (Some refs) dec s g1 else (True, g1)"
  obtain ok g2 where a: "?a = (ok, g2)" by (cases ?a)
  have al: "(\<exists>ds. logged w g1 ds g2) \<and> (\<not> ok \<longrightarrow> outcome_logged w g1 ''allow'' True g2)"
  proof (cases "verdict dec = Ask")
    case True
    then have "outcome_logged w g1 ''approval-granted'' (\<not> ok) g2"
      using approve_ask_logged [OF r1, of w gc name "JObj ps" "Some refs" dec] a by simp
    from outcome_ex [OF this] outcome_refused [of w g1 "''approval-granted''" g2] this show ?thesis by (cases ok) simp_all
  next
    case False
    have "logged w g1 [] g1" by (rule logged_refl [OF r1 refl])
    then show ?thesis using a False by auto
  qed
  obtain d2 where l2: "logged w g1 d2 g2" using al by blast
  note r2 = logged_ready [OF l2 r1]
  obtain r g3 where i: "inject_call gc w name (JObj ps) s g2 = (r, g3)" by fastforce
  consider (hit) "?hit \<noteq> []" | (limit) "?hit = []" "\<not> b" | (ask) "?hit = []" b "\<not> ok"
    | (inject) msg where "?hit = []" b ok "r = Inl msg" | (pass) params' where "?hit = []" b ok "r = Inr params'"
    by (cases r) auto
  then show ?thesis
  proof cases
    case hit
    show ?thesis unfolding clear_call_def Let_def if_P [OF hit] by (rule settled_refuse [OF assms r(1)]) simp
  next
    case limit
    have "settled w ''allow'' g1 (refuse gc w s name ''ratelimit'' why (Some refs)
        (rejecting (m_id m) (- 32600)
          (''nockguard: tool '' @ w_quote w name @ '' blocked: '' @ limit_label why @ '' exceeded'') name ''limit_reached'') g1)"
      by (rule settled_refuse [OF r1 r(2)]) simp
    then show ?thesis
      using settled_extend [OF l1] limit(2) unfolding clear_call_def Let_def limit(1) tb by simp
  next
    case ask
    have "outcome_logged w g ''allow'' True g2" using outcome_extend [OF l1] al ask(3) by blast
    then show ?thesis using ask(2,3) unfolding settled_def clear_call_def Let_def ask(1) tb
      by (simp_all only: a prod.case bool.case simp_thms if_True if_False fst_conv snd_conv rejecting_simps)
  next
    case inject
    have "outcome_logged w g2 ''allow'' True g3" using inject_call_logged [OF r2 i] inject(4) by auto
    then have "outcome_logged w g ''allow'' True g3" using outcome_extend [OF logged_trans [OF l1 l2]] by blast
    then show ?thesis using inject(2-4) unfolding settled_def clear_call_def Let_def inject(1) tb
      by (simp_all only: a i prod.case bool.case sum.case simp_thms if_True if_False fst_conv snd_conv rejecting_simps)
  next
    case pass
    obtain ds where l3: "logged w g2 ds g3" using inject_call_logged [OF r2 i] pass(4) by auto
    let ?f = "forward_call gc w m (JObj (put ''params'' params' obj)) name refs dec s g3"
    have "outcome_logged w g3 ''allow'' False (snd ?f)" by (rule forward_call_logged [OF logged_ready [OF l3 r2]])
    moreover have "(d_forward (fst ?f) = None) = False" by (simp add: forward_call_def Let_def)
    ultimately have "settled w ''allow'' g3 ?f" unfolding settled_def by (simp only:)
    then have "settled w ''allow'' g ?f" by (rule settled_extend [OF logged_trans [OF logged_trans [OF l1 l2] l3]])
    then show ?thesis using pass(2-4) unfolding clear_call_def Let_def pass(1) tb
      by (simp_all only: a i prod.case bool.case sum.case simp_thms if_True if_False)
  qed
qed

lemma decide_named_settled:
  assumes "ready s g"
  shows "settled w ''allow'' g (decide_named gc w m obj name (JObj ps) s g)"
proof -
  obtain ob cz where ob: "pin_observation (c_engine gc) (c_agent gc) (c_upstream gc) name (catalog_observe (g_catalog g) name) = (ob, cz)"
    by fastforce
  have r: "''deny'' \<in> refusals" "''block'' \<in> refusals" by (simp_all add: refusals_def)
  show ?thesis unfolding decide_named_def Let_def ob prod.case
    using settled_refuse [OF assms r(1)] settled_refuse [OF assms r(2)] clear_call_settled [OF assms]
    by (cases "verdict (evaluate (c_engine gc) (c_agent gc) name) = Deny"; cases "cz = []") simp_all
qed

lemma decide_unnamed_settled:
  assumes "ready s g"
  shows "settled w ''approval-granted'' g (decide_unnamed gc w m tree s g)"
proof -
  let ?dec = "fail_mode_verdict (c_engine gc) (c_agent gc) ''unextractable-name''"
  let ?a = "if \<not> p_pairing (c_session gc) \<and> verdict ?dec = Ask then approve_ask gc w [] tree None ?dec s g else (False, g)"
  obtain ok g1 where a: "?a = (ok, g1)" by (cases ?a)
  have d: "''deny'' \<in> refusals" by (simp add: refusals_def)
  have al: "(\<exists>ds. logged w g ds g1) \<and> (ok \<longrightarrow> outcome_logged w g ''approval-granted'' False g1)"
  proof (cases "\<not> p_pairing (c_session gc) \<and> verdict ?dec = Ask")
    case True
    then have "outcome_logged w g ''approval-granted'' (\<not> ok) g1"
      using approve_ask_logged [OF assms, of w gc "[]" tree None ?dec] a by simp
    from outcome_ex [OF this] this show ?thesis by (cases ok) simp_all
  next
    case False
    have "logged w g [] g" by (rule logged_refl [OF assms refl])
    then show ?thesis unfolding if_not_P [OF False, of "approve_ask gc w [] tree None ?dec s g"] using a False by auto
  qed
  then obtain ds where l: "logged w g ds g1" by blast
  show ?thesis
  proof (cases ok)
    case True
    then show ?thesis unfolding settled_def decide_unnamed_def Let_def a prod.case
      using outcome_resolve [OF assms] al by simp
  next
    case False
    have "settled w ''approval-granted'' g (refuse gc w s [] ''deny'' ''unextractable-name'' None
        (rejecting (m_id m) (- 32600) (''nockguard: tools/call rejected '' @ em_dash @ '' tool name could not be extracted'') []
          ''policy_denied'') g1)"
      by (rule settled_extend [OF l settled_refuse [OF logged_ready [OF l assms] d]]) simp
    then show ?thesis using False unfolding decide_unnamed_def Let_def a prod.case by simp
  qed
qed

lemma decide_settled:
  assumes r: "ready s g" and c: "canonicalize_message line = Inr (obj, tree, m)" and n: "m_method m \<noteq> []"
  shows "\<exists>pass\<in>{''allow'', ''method-allow'', ''approval-granted''}. settled w pass g (decide gc w line s g)"
proof -
  have md: "''method-deny'' \<in> refusals" by (simp add: refusals_def)
  show ?thesis
  proof (cases rule: decide_cases [of line gc w s g])
    case (undecoded f)
    then show ?thesis using c by simp
  next
    case (oversized obj' tree' m' kind name)
    obtain d1 g1 where e: "decide gc w line s g = (d1, g1)" by fastforce
    have "d_forward d1 = None" using oversized_Some [of gc w kind name "m_id m'" g d1 g1] oversized(2) e by simp
    moreover have "outcome_logged w g ''allow'' True g1"
      using oversized(2) e outcome_loggedI [of w g "[]" "''method-deny''" _ True, OF _] logged_method [OF r] md
      by (auto simp: reject_oversized_def Let_def split: if_splits)
    ultimately show ?thesis unfolding e settled_def by simp
  next
    case (plain obj' tree' m')
    have m: "m' = m" using plain(1) c by simp
    have "settled w ''method-allow'' g (decide_method gc w m tree' g)"
    proof (cases "denies_method (c_engine gc) (c_agent gc) (m_method m)")
      case True
      have "outcome_logged w g ''method-allow'' True (gate_method gc w (m_method m) ''method-deny'' ''deny-method'' g)"
        by (rule outcome_loggedI [of w g "[]"]) (use logged_method [OF r] md in simp_all)
      then show ?thesis using True n by (simp add: settled_def decide_method_def Let_def)
    next
      case False
      have "outcome_logged w g ''method-allow'' False (gate_method gc w (m_method m) ''method-allow'' ''method-pass-through'' g)"
        by (rule outcome_loggedI [of w g "[]"]) (use logged_method [OF r] in simp_all)
      then show ?thesis using False n by (simp add: settled_def decide_method_def Let_def)
    qed
    then show ?thesis using plain(4) m by simp
  next
    case (unnamed obj' tree' m')
    then show ?thesis using decide_unnamed_settled [OF r] by simp
  next
    case (named obj' tree' m' name params)
    obtain ps where "params = JObj ps" using canonical_tool_call_spec [OF named(3)] by blast
    then show ?thesis using decide_named_settled [OF r] named(6) by simp
  qed
qed

text \<open>
  C18. Every message with a method leaves audit rows, written or queued in its sequence, and the last of them names
  the outcome: allow, method-allow or (without a readable name) approval-granted when it is forwarded, and otherwise
  deny, block, ratelimit, approval-denied or method-deny.
\<close>

theorem every_decision_is_audited:
  assumes "queue_inv (g_queue g)" and "s < q_seq (g_queue g)"
    and "canonicalize_message line = Inr (obj, tree, m)" and "m_method m \<noteq> []"
    and "decide gc w line s g = (d, g')"
  shows "queue_inv (g_queue g')
    \<and> (\<exists>rows row. moves (w_record w) (g_queue g) (rows @ [row]) (g_queue g')
        \<and> (if d_forward d = None then ev_decision row \<in> refusals
           else ev_decision row \<in> {''allow'', ''method-allow'', ''approval-granted''}))"
proof -
  have r: "ready s g" using assms(1,2) unfolding ready_def by blast
  from decide_settled [OF r assms(3,4), of w gc] obtain pass ds x where p: "pass \<in> {''allow'', ''method-allow'', ''approval-granted''}" "logged w g (ds @ [x]) g'"
      "if d_forward d = None then x \<in> refusals else x = pass"
    unfolding settled_def assms(5) outcome_logged_def fst_conv snd_conv by blast
  obtain rows where rows: "map ev_decision rows = ds @ [x]" "good_step (w_record w) (g_queue g) rows (g_queue g')"
    using p(2) unfolding logged_def by blast
  obtain rs row where rs: "rows = rs @ [row]" using rows(1) by (cases rows rule: rev_cases) auto
  have x: "ev_decision row = x" using rows(1) rs by simp
  have "queue_inv (g_queue g')" "moves (w_record w) (g_queue g) (rs @ [row]) (g_queue g')"
    using rows(2) rs unfolding good_step_def by blast+
  then show ?thesis using p(1,3) x by metis
qed

subsection \<open>A call that needs a human\<close>

definition demo_gc :: gate_config where
  "demo_gc =
     \<lparr>c_session = demo_session,
      c_engine = \<lparr>config = \<lparr>agents = [(''a'', empty_policy\<lparr>allow_rules := [''c''], require_approval := [''c'']\<rparr>)], audit = None\<rparr>,
        warnings = []\<rparr>,
      c_upstream = [], c_validator = None\<rparr>"

definition demo_world :: "event list world" where
  "demo_world =
     \<lparr>w_quote = id, w_match = (\<lambda>_ _. False), w_now = 0, w_cap = None,
      w_approver = Some (\<lambda>_. \<lparr>an_approved = True, an_reason = ''ok'', an_actor = ''h'', an_taps = []\<rparr>),
      w_resolve = (\<lambda>_. None), w_record = list_recorder, w_required = (\<lambda>_. False)\<rparr>"

definition demo_gate :: "event list gate" where
  "demo_gate =
     \<lparr>g_queue = snd (reserve_sequence (empty_queue [])), g_limiter = None, g_catalog = empty_catalog, g_observed = [],
      g_scrub = \<lparr>sc_max = 1, sc_values = []\<rparr>\<rparr>"

lemma demo_gate_limiter: "g_limiter demo_gate = None"
  by (simp add: demo_gate_def)

lemma demo_call_canonical:
  "\<exists>obj tree m. canonicalize_message (json_print demo_shadow_call) = Inr (obj, tree, m) \<and> m_method m = ''tools/call''"
  using demo_shadow_forward unfolding canonicalize_for_forward_def by (auto split: sum.splits if_splits option.splits)

lemma demo_forwards_under:
  assumes lim: "g_limiter g = None" and ask: "w_approver w = Some ask" "\<And>r. an_approved (ask r)"
  shows "d_forward (fst (decide demo_gc w (json_print demo_shadow_call) s g)) =
     Some (JObj [(''id'', JNum ''1''), (''method'', JStr ''tools/call''), (''params'', JObj [(''name'', JStr ''c'')])])"
    "d_tool (fst (decide demo_gc w (json_print demo_shadow_call) s g)) = ''c''"
    "g_scrub (snd (decide demo_gc w (json_print demo_shadow_call) s g)) = g_scrub g"
proof -
  obtain obj t m ps where c0: "canonicalize_message (json_print demo_shadow_call) = Inr (obj, t, m)" "m_method m = ''tools/call''"
      "canonical_tool_call (m_params m) = Some (''c'', ps)"
      "JObj (put ''params'' ps obj) =
        JObj [(''id'', JNum ''1''), (''method'', JStr ''tools/call''), (''params'', JObj [(''name'', JStr ''c'')])]"
      "m\<lparr>m_params := Some ps\<rparr> = zero_message\<lparr>m_id := Some (JNum ''1''), m_method := ''tools/call'',
        m_params := Some (JObj [(''name'', JStr ''c'')])\<rparr>"
    using demo_shadow_forward unfolding canonicalize_for_forward_def
    by (auto split: sum.splits if_splits option.splits)
  have "m_params (m\<lparr>m_params := Some ps\<rparr>) = Some (JObj [(''name'', JStr ''c'')])" unfolding c0(5) by simp
  then have "ps = JObj [(''name'', JStr ''c'')]" by simp
  with c0 have c: "canonicalize_message (json_print demo_shadow_call) = Inr (obj, t, m)" "m_method m = ''tools/call''"
      "canonical_tool_call (m_params m) = Some (''c'', JObj [(''name'', JStr ''c'')])"
      "JObj (put ''params'' (JObj [(''name'', JStr ''c'')]) obj) =
        JObj [(''id'', JNum ''1''), (''method'', JStr ''tools/call''), (''params'', JObj [(''name'', JStr ''c'')])]"
    by simp_all
  let ?d = "decide demo_gc w (json_print demo_shadow_call) s g"
  have d: "?d = decide_named demo_gc w m obj ''c'' (JObj [(''name'', JStr ''c'')]) s g"
    using c(1-3) by (simp add: decide_def decide_canonical_def reject_oversized_def max_request_name_def decide_tool_call_def Let_def)
  have e: "evaluate (c_engine demo_gc) (c_agent demo_gc) ''c'' = decide_as Allow (AllowRule ''c'')"
    "requires_approval (c_engine demo_gc) (c_agent demo_gc) ''c''"
    "inject_rules_for (c_engine demo_gc) (c_agent demo_gc) ''c'' = []"
    "pin_observation (c_engine demo_gc) (c_agent demo_gc) (c_upstream demo_gc) ''c'' ob = (ob, [])" for ob
    by (simp_all add: demo_gc_def c_agent_def demo_session_def evaluate_def agent_policy_of_def evaluate_policy_def
        empty_policy_def match_pattern_def match_pattern_err_def is_glob_pattern_def contains_any_def with_shadow_def
        decide_as_def requires_approval_def inject_rules_for_def pin_observation_def tool_pin_of_def upstream_pins_def
        policy_or_zero_def strict_tool_pins_def has_tool_pin_constraints_def)
  obtain ok g2 where a: "approve_ask demo_gc w ''c'' (JObj [(''name'', JStr ''c'')])
      (Some (from_tool_call ''c'' (json_print (JObj [(''name'', JStr ''c'')])))) ((decide_as Allow (AllowRule ''c''))\<lparr>verdict := Ask\<rparr>) s g = (ok, g2)"
    by fastforce
  have ok: "ok" using a ask by (simp add: approve_ask_def Let_def)
  have v: "c_validator demo_gc = None" "g_limiter g = None" using lim by (simp_all add: demo_gc_def)
  have n: "verdict (decide_as Allow r) = Allow" for r by (simp add: decide_as_def)
  have f: "?d = forward_call demo_gc w m (JObj (put ''params'' (JObj [(''name'', JStr ''c'')]) obj)) ''c''
      (from_tool_call ''c'' (json_print (JObj [(''name'', JStr ''c'')]))) ((decide_as Allow (AllowRule ''c''))\<lparr>verdict := Ask\<rparr>) s g2"
    unfolding d decide_named_def Let_def e prod.case clear_call_def take_budget_def v n
    using a ok by (simp add: e inject_call_def apply_inject_def)
  show "d_forward (fst ?d) =
      Some (JObj [(''id'', JNum ''1''), (''method'', JStr ''tools/call''), (''params'', JObj [(''name'', JStr ''c'')])])"
    "d_tool (fst ?d) = ''c''"
    unfolding f by (simp_all only: forward_call_def Let_def fst_conv mcp_decision.simps no_decision_def c(4))
  have "g_scrub g2 = g_scrub g" using approve_ask_scrub a by (metis snd_conv)
  then show "g_scrub (snd ?d) = g_scrub g" unfolding f by (simp add: forward_call_def Let_def)
qed

lemma demo_forwards:
  assumes lim: "g_limiter g = None"
  shows "d_forward (fst (decide demo_gc demo_world (json_print demo_shadow_call) s g)) =
     Some (JObj [(''id'', JNum ''1''), (''method'', JStr ''tools/call''), (''params'', JObj [(''name'', JStr ''c'')])])"
    "d_tool (fst (decide demo_gc demo_world (json_print demo_shadow_call) s g)) = ''c''"
    "g_scrub (snd (decide demo_gc demo_world (json_print demo_shadow_call) s g)) = g_scrub g"
proof -
  have "w_approver demo_world = Some (\<lambda>_. \<lparr>an_approved = True, an_reason = ''ok'', an_actor = ''h'', an_taps = []\<rparr>)"
    by (simp add: demo_world_def)
  note f = demo_forwards_under [OF lim this]
  show "d_forward (fst (decide demo_gc demo_world (json_print demo_shadow_call) s g)) =
     Some (JObj [(''id'', JNum ''1''), (''method'', JStr ''tools/call''), (''params'', JObj [(''name'', JStr ''c'')])])"
    "d_tool (fst (decide demo_gc demo_world (json_print demo_shadow_call) s g)) = ''c''"
    "g_scrub (snd (decide demo_gc demo_world (json_print demo_shadow_call) s g)) = g_scrub g"
    using f by simp_all
qed

lemmas demo_gate_forwards = demo_forwards [of demo_gate 0, OF demo_gate_limiter]

lemma demo_gate_ready: "queue_inv (g_queue demo_gate)" "0 < q_seq (g_queue demo_gate)"
  using queue_inv_reserve [OF empty_queue_inv, of "[]"]
  by (simp_all add: demo_gate_def, simp_all add: reserve_sequence_def empty_queue_def)

lemma forwarded_call_passed_every_gate_witness:
  "names_one_tool ''c'' (JObj [(''id'', JNum ''1''), (''method'', JStr ''tools/call''), (''params'', JObj [(''name'', JStr ''c'')])])
   \<and> (\<exists>params. passed_gates demo_gc demo_world demo_gate ''c'' params)"
proof -
  let ?t = "JObj [(''id'', JNum ''1''), (''method'', JStr ''tools/call''), (''params'', JObj [(''name'', JStr ''c'')])]"
  obtain d g' where d: "decide demo_gc demo_world (json_print demo_shadow_call) 0 demo_gate = (d, g')" by fastforce
  have f: "d_forward d = Some ?t" "d_tool d = ''c''" using demo_gate_forwards d by simp_all
  have m: "message_of_tree ?t = Some (zero_message\<lparr>m_id := Some (JNum ''1''), m_method := ''tools/call'',
      m_params := Some (JObj [(''name'', JStr ''c'')])\<rparr>)"
    by (simp add: put_message_member_def field_among_def message_fields_def zero_message_def)
  from forwarded_call_passed_every_gate [OF d f(1) m] f(2) show ?thesis by simp blast
qed

lemma every_decision_is_audited_witness:
  "\<exists>(g' :: event list gate) rows row. moves (w_record demo_world) (g_queue demo_gate) (rows @ [row]) (g_queue g')
     \<and> ev_decision row \<in> {''allow'', ''method-allow'', ''approval-granted''}"
proof -
  obtain obj t m where c: "canonicalize_message (json_print demo_shadow_call) = Inr (obj, t, m)" "m_method m = ''tools/call''"
    using demo_shadow_forward unfolding canonicalize_for_forward_def
    by (auto split: sum.splits if_splits option.splits)
  obtain d g' where d: "decide demo_gc demo_world (json_print demo_shadow_call) 0 demo_gate = (d, g')" by fastforce
  have f: "d_forward d \<noteq> None" using demo_gate_forwards d by simp
  have "m_method m \<noteq> []" using c(2) by simp
  from every_decision_is_audited [OF demo_gate_ready c(1) this d, unfolded if_not_P [OF f]] show ?thesis
    by blast
qed

subsection \<open>What the child sees\<close>

lemma inject_env_names_complete:
  assumes "(agent, pol) \<in> set (agents (config e))" and "r \<in> set (inject pol)" and "ref r = ''env:'' @ n"
  shows "n \<in> set (inject_env_names e)"
proof -
  have "r \<in> set (filter (\<lambda>r. has_prefix (ref r) ''env:'') (concat (map (inject \<circ> snd) (agents (config e)))))"
    using assms by (force simp: has_prefix_def)
  then have "trim_prefix (ref r) ''env:'' \<in> set (inject_env_names e)" unfolding inject_env_names_def by (simp del: set_filter)
  then show ?thesis using assms(3) by (simp add: trim_prefix_def has_prefix_def)
qed

text \<open>
  C30. The wrapped server's environment is the proxy's, in order, without any credential of the proxy: no signing
  key, no per-agent key, no approval credential, no forwarder key and no variable an injection rule of any agent reads.
\<close>

theorem child_sees_no_credential:
  assumes "kv \<in> set (sanitized_env (child_strip parent e) parent)" and "n = before_byte CHR ''='' kv"
  shows "kv \<in> set parent \<and> n \<notin> set approval_env_names \<and> \<not> is_agent_key_name n
    \<and> n \<noteq> ''NOCKCC_BASE_URL'' \<and> n \<noteq> ''NOCKGUARD_VAULT_AGENT_TOKEN''
    \<and> (\<forall>a. audit (config e) = Some a \<longrightarrow>
        (n \<noteq> [] \<longrightarrow> n \<noteq> sign_key_env a \<and> n \<noteq> sign_ed25519_key_env a \<and> (\<forall>f. forward_to a = Some f \<longrightarrow> n \<noteq> api_key_env f)))
    \<and> (\<forall>(agent, pol)\<in>set (agents (config e)). \<forall>r\<in>set (inject pol). ref r \<noteq> ''env:'' @ n)"
proof -
  have s: "child_strip parent e \<noteq> []" by (simp add: child_strip_def approval_env_names_def)
  have k: "kv \<in> set parent" "n \<notin> set (child_strip parent e)" using assms s unfolding sanitized_env_def by auto
  have p: "n \<in> set (map (before_byte CHR ''='') parent)" using k(1) assms(2) by simp
  have parts: "n \<notin> set (signing_key_env_names_for parent e)" "n \<notin> set approval_env_names"
      "n \<notin> set (inject_env_names e)" "n \<notin> set (forwarder_key_env_names e)"
      "n \<noteq> ''NOCKCC_BASE_URL''" "n \<noteq> ''NOCKGUARD_VAULT_AGENT_TOKEN''"
    using k(2) unfolding child_strip_def set_append Un_iff list.set insert_iff by blast+
  have "\<not> is_agent_key_name n" using parts(1) p unfolding signing_key_env_names_for_def by (simp only: set_append Un_iff set_filter mem_Collect_eq) blast
  moreover have "\<forall>a. audit (config e) = Some a \<longrightarrow>
        (n \<noteq> [] \<longrightarrow> n \<noteq> sign_key_env a \<and> n \<noteq> sign_ed25519_key_env a \<and> (\<forall>f. forward_to a = Some f \<longrightarrow> n \<noteq> api_key_env f))"
  proof (intro allI impI)
    fix a assume a: "audit (config e) = Some a" "n \<noteq> []"
    have "n \<notin> set (signing_key_env_names e)" using parts(1) unfolding signing_key_env_names_for_def set_append by blast
    then have "n \<noteq> sign_key_env a \<and> n \<noteq> sign_ed25519_key_env a" using a unfolding signing_key_env_names_def by (auto split: if_splits)
    moreover have "\<forall>f. forward_to a = Some f \<longrightarrow> n \<noteq> api_key_env f" using parts(4) a unfolding forwarder_key_env_names_def by auto
    ultimately show "n \<noteq> sign_key_env a \<and> n \<noteq> sign_ed25519_key_env a \<and> (\<forall>f. forward_to a = Some f \<longrightarrow> n \<noteq> api_key_env f)" by blast
  qed
  moreover have "\<forall>(agent, pol)\<in>set (agents (config e)). \<forall>r\<in>set (inject pol). ref r \<noteq> ''env:'' @ n"
    using inject_env_names_complete parts(3) by fast
  ultimately show ?thesis using k(1) parts by blast
qed

lemma child_sees_no_credential_witness:
  "sanitized_env (child_strip [''PATH=x'', ''NOCKGUARD_AGENT_KIT_ED25519_KEY=s'', ''NOCKGUARD_APPROVER_IDS=1''] demo_engine)
     [''PATH=x'', ''NOCKGUARD_AGENT_KIT_ED25519_KEY=s'', ''NOCKGUARD_APPROVER_IDS=1''] = [''PATH=x''] \<and> ''PATH'' \<notin> set approval_env_names"
proof -
  let ?p = "[''PATH=x'', ''NOCKGUARD_AGENT_KIT_ED25519_KEY=s'', ''NOCKGUARD_APPROVER_IDS=1'']"
  have e: "sanitized_env (child_strip ?p demo_engine) ?p = [''PATH=x'']" by code_simp
  have "''PATH=x'' \<in> set (sanitized_env (child_strip ?p demo_engine) ?p)" unfolding e by simp
  from child_sees_no_credential [OF this refl] have "before_byte CHR ''='' ''PATH=x'' \<notin> set approval_env_names" by blast
  moreover have "before_byte CHR ''='' ''PATH=x'' = ''PATH''" by code_simp
  ultimately show ?thesis using e by simp
qed

end
