(* ===== verification/Actions.thy ===== *)
theory Actions
  imports Gate
begin

text \<open>
  Action pairing, \<^verbatim>\<open>internal/proxy/stdio.go\<close>: the identifiers of actions, the requests in
  flight, and the observation that ends each action. A pending card is a shared pointer in the code; here
  it is a value kept in the map of pending requests and written back after each change. The walk of
  \<open>sync.Map\<close> has no specified order, this one has the order of the list. Request identifiers are
  trees, so the map's key does not see how a string in them spells its escapes.
\<close>

subsection \<open>State\<close>

record pending_card =
  pc_tool :: bytes
  pc_refs :: references
  pc_state_tool :: bytes
  pc_state_refs :: references
  pc_seq :: u64
  pc_action :: bytes
  pc_request :: "json option"
  pc_observed :: tool_observation
  pc_observation :: bytes
  pc_late :: bool
  pc_suppress :: bool
  pc_answered :: bool

datatype pending = Listing u64 u64 | Waiting pending_card

text \<open>\<open>x_replies\<close> are the lines written to the agent, \<open>x_sent\<close> the messages sent upstream.\<close>

record 'w proxy =
  x_gate :: "'w gate"
  x_pending :: "(json \<times> pending) list"
  x_active :: "(u64 \<times> json) list"
  x_action_seq :: u64
  x_replies :: "bytes list"
  x_sent :: "json list"

definition x_queue :: "'w proxy \<Rightarrow> 'w queue" where
  "x_queue p = g_queue (x_gate p)"

definition on_gate :: "('w gate \<Rightarrow> 'w gate) \<Rightarrow> 'w proxy \<Rightarrow> 'w proxy" where
  "on_gate f p = p\<lparr>x_gate := f (x_gate p)\<rparr>"

definition on_queue :: "('w queue \<Rightarrow> 'w queue) \<Rightarrow> 'w proxy \<Rightarrow> 'w proxy" where
  "on_queue f = on_gate (\<lambda>g. g\<lparr>g_queue := f (g_queue g)\<rparr>)"

text \<open>\<open>actionCard\<close>.\<close>

definition action_card :: "mcp_decision \<Rightarrow> u64 \<Rightarrow> bytes \<Rightarrow> pending_card" where
  "action_card d s aid =
     \<lparr>pc_tool = d_tool d, pc_refs = (case d_refs d of None \<Rightarrow> no_references | Some r \<Rightarrow> r),
      pc_state_tool = [], pc_state_refs = no_references, pc_seq = s, pc_action = aid, pc_request = None,
      pc_observed = observed_as [], pc_observation = [], pc_late = False, pc_suppress = False, pc_answered = False\<rparr>"

text \<open>\<open>newActionID\<close>; \<^const>\<open>None\<close> when the counter is exhausted.\<close>

definition new_action_id :: "session \<Rightarrow> u64 \<Rightarrow> (bytes \<times> u64) option" where
  "new_action_id ses n =
     (if n = - 1 then None else Some (p_run_id ses @ ''.'' @ show_nat (unat (n + 1)), n + 1))"

subsection \<open>Observations\<close>

text \<open>Whether the audit writer has latched a failure; the code checks in required mode only.\<close>

definition audit_failing :: "gate_config \<Rightarrow> 'w world \<Rightarrow> 'w proxy \<Rightarrow> bool" where
  "audit_failing gc w p \<longleftrightarrow> p_required (c_session gc) \<and> w_required w (q_writer (x_queue p))"

definition observation_row ::
  "gate_config \<Rightarrow> pending_card \<Rightarrow> bytes \<Rightarrow> bytes \<Rightarrow> bytes \<Rightarrow> bool option \<Rightarrow> event" where
  "observation_row gc pc obs why class mcp =
     set_observation_fields (pc_observed pc)
       (zero_event\<lparr>ev_agent := c_agent gc, ev_tool := pc_tool pc, schema_version := 2,
          record_type := ''action_observation'', run_id := p_run_id (c_session gc), action_id := pc_action pc,
          observation := obs, cause := why, response_class := class, mcp_is_error := mcp,
          ev_pr := pr_ref (pc_refs pc), ev_review_id := review_id (pc_refs pc),
          ev_nock_id := (if nock_id (pc_refs pc) > 0 then nock_id (pc_refs pc) else 0)\<rparr>)"

text \<open>The observation a card carries: its own, the one of the first decision, or the current one.\<close>

definition settle_observed :: "gate_config \<Rightarrow> 'w gate \<Rightarrow> pending_card \<Rightarrow> pending_card" where
  "settle_observed gc g pc =
     (if ob_status (pc_observed pc) = [] then
        pc\<lparr>pc_observed := (case map_of (g_observed g) (pc_action pc) of
           Some ob \<Rightarrow> ob | None \<Rightarrow> current_observation gc g (pc_tool pc))\<rparr>
      else pc)"

text \<open>
  \<open>appendActionObservation\<close>: written at once when the sequence is settled, queued and resolved
  otherwise. The first component tells whether it failed.
\<close>

definition append_observation ::
  "gate_config \<Rightarrow> 'w world \<Rightarrow> u64 \<Rightarrow> event \<Rightarrow> 'w proxy \<Rightarrow> bool \<times> 'w proxy" where
  "append_observation gc w s ev p =
     (let q = x_queue p in
      if s < q_next q \<or> seq_resolved s (q_resolved q) then
        (let (wr, bad) = record_audit (c_session gc) (w_record w) ev (q_writer q) in
         (bad, on_queue (\<lambda>q. q\<lparr>q_writer := wr, q_failed := (if bad then List.insert s (q_failed q) else q_failed q)\<rparr>) p))
      else
        (let p' = on_queue (\<lambda>q. resolve_audit (c_session gc) (w_record w) s (push_row s ev q)) p in
         (audit_failing gc w p', p')))"

text \<open>Which observation is recorded, if any, given what the card has seen: \<open>observeAction\<close>.\<close>

definition next_observation :: "pending_card \<Rightarrow> bytes \<Rightarrow> bytes \<Rightarrow> (bytes \<times> bytes \<times> pending_card) option" where
  "next_observation pc obs why =
     (if pc_observation pc = [] then Some (obs, why, pc\<lparr>pc_observation := obs\<rparr>)
      else if pc_observation pc = ''outcome_unknown'' \<and> obs = ''response_observed'' \<and> \<not> pc_late pc then
        Some (''late_response_observed'', ''late_response'', pc\<lparr>pc_late := True\<rparr>)
      else None)"

definition observe_action ::
  "gate_config \<Rightarrow> 'w world \<Rightarrow> bytes \<Rightarrow> bytes \<Rightarrow> bytes \<Rightarrow> bool option \<Rightarrow> pending_card \<Rightarrow> 'w proxy \<Rightarrow>
    bool \<times> pending_card \<times> 'w proxy" where
  "observe_action gc w obs why class mcp pc p =
     (if pc_action pc = [] then (False, pc, p)
      else case next_observation pc obs why of
          None \<Rightarrow> (False, pc, p)
        | Some (obs', why', pc1) \<Rightarrow>
            let pc2 = settle_observed gc (x_gate p) pc1;
                (bad, p') = append_observation gc w (pc_seq pc2)
                  (observation_row gc pc2 obs' why' class mcp) p in
            (bad, pc2,
             if obs' = ''late_response_observed'' then p'
             else on_gate (\<lambda>g. g\<lparr>g_observed := AList.delete (pc_action pc2) (g_observed g)\<rparr>) p'))"

definition mark_unknown ::
  "gate_config \<Rightarrow> 'w world \<Rightarrow> bytes \<Rightarrow> pending_card \<Rightarrow> 'w proxy \<Rightarrow> pending_card \<times> 'w proxy" where
  "mark_unknown gc w why pc p = snd (observe_action gc w ''outcome_unknown'' why [] None pc p)"

subsection \<open>Requests in flight\<close>

definition same_id :: "json \<Rightarrow> json \<Rightarrow> bool" where
  "same_id a b \<longleftrightarrow> ids_equal (Some a) (Some b)"

definition pending_in_use :: "json \<Rightarrow> 'w proxy \<Rightarrow> bool" where
  "pending_in_use i p \<longleftrightarrow> map_of (x_pending p) i \<noteq> None \<or> list_ex (\<lambda>(k, _). same_id k i) (x_pending p)"

definition request_in_use :: "json \<Rightarrow> 'w proxy \<Rightarrow> bool" where
  "request_in_use i p \<longleftrightarrow> pending_in_use i p \<or> list_ex (\<lambda>(_, k). same_id k i) (x_active p)"

definition track_request :: "u64 \<Rightarrow> json \<Rightarrow> 'w proxy \<Rightarrow> 'w proxy" where
  "track_request s i p = p\<lparr>x_active := AList.update s i (x_active p)\<rparr>"

definition release_request :: "u64 \<Rightarrow> 'w proxy \<Rightarrow> 'w proxy" where
  "release_request s p = p\<lparr>x_active := AList.delete s (x_active p)\<rparr>"

definition store_pending :: "json \<Rightarrow> pending \<Rightarrow> 'w proxy \<Rightarrow> 'w proxy" where
  "store_pending i v p = p\<lparr>x_pending := AList.update i v (x_pending p)\<rparr>"

definition drop_pending :: "json \<Rightarrow> 'w proxy \<Rightarrow> 'w proxy" where
  "drop_pending i p = p\<lparr>x_pending := AList.delete i (x_pending p)\<rparr>"

text \<open>\<open>loadPendingResponse\<close>: the entry with the id of a response, taken out of the map.\<close>

definition load_pending :: "json \<Rightarrow> 'w proxy \<Rightarrow> (pending \<times> 'w proxy) option" where
  "load_pending i p =
     (case map_of (x_pending p) i of
        Some v \<Rightarrow> Some (v, drop_pending i p)
      | None \<Rightarrow> map_option (\<lambda>(k, v). (v, drop_pending k p)) (find (\<lambda>(k, _). same_id k i) (x_pending p)))"

text \<open>\<open>findActionPendingResponse\<close>: the card stays in the map.\<close>

definition is_action :: "pending \<Rightarrow> bool" where
  "is_action v \<longleftrightarrow> (case v of Waiting pc \<Rightarrow> pc_action pc \<noteq> [] | Listing _ _ \<Rightarrow> False)"

definition find_action_pending :: "json \<Rightarrow> 'w proxy \<Rightarrow> (json \<times> pending_card) option" where
  "find_action_pending i p =
     (case map_of (filter (\<lambda>(_, v). is_action v) (x_pending p)) i of
        Some (Waiting pc) \<Rightarrow> Some (i, pc)
      | _ \<Rightarrow>
          (case find (\<lambda>(k, v). is_action v \<and> same_id k i) (x_pending p) of
             Some (k, Waiting pc) \<Rightarrow> Some (k, pc)
           | _ \<Rightarrow> None))"

text \<open>\<open>markCancelledAction\<close> and \<open>finishPendingActions\<close> change cards inside the map.\<close>

definition cancel_action :: "gate_config \<Rightarrow> 'w world \<Rightarrow> json option \<Rightarrow> 'w proxy \<Rightarrow> 'w proxy" where
  "cancel_action gc w request p =
     (case find (\<lambda>(_, v). case v of
          Waiting pc \<Rightarrow> pc_action pc \<noteq> [] \<and> ids_equal (pc_request pc) request | Listing _ _ \<Rightarrow> False) (x_pending p) of
        Some (k, Waiting pc) \<Rightarrow>
          let (pc1, p') = mark_unknown gc w ''client_cancel'' pc p in store_pending k (Waiting pc1) p'
      | _ \<Rightarrow> p)"

definition finish_entry :: "gate_config \<Rightarrow> 'w world \<Rightarrow> bytes \<Rightarrow> json \<times> pending \<Rightarrow> 'w proxy \<Rightarrow> 'w proxy" where
  "finish_entry gc w why e p =
     (case e of
        (k, Waiting pc) \<Rightarrow>
          if pc_action pc = [] then p
          else (let (pc1, p') = mark_unknown gc w why pc p in store_pending k (Waiting pc1) p')
      | _ \<Rightarrow> p)"

definition finish_pending :: "gate_config \<Rightarrow> 'w world \<Rightarrow> bytes \<Rightarrow> 'w proxy \<Rightarrow> 'w proxy" where
  "finish_pending gc w why p = fold (finish_entry gc w why) (x_pending p) p"

subsection \<open>Answers\<close>

text \<open>\<open>writeAgentLine\<close> to a channel that does not fail, scrubbed of the tracked secrets.\<close>

definition write_agent :: "bytes \<Rightarrow> 'w proxy \<Rightarrow> 'w proxy" where
  "write_agent line p = p\<lparr>x_replies := x_replies p @ [scrub (sc_values (g_scrub (x_gate p))) line]\<rparr>"

definition reply_error :: "json \<Rightarrow> int \<Rightarrow> bytes \<Rightarrow> 'w proxy \<Rightarrow> 'w proxy" where
  "reply_error i code msg p = write_agent (json_print (error_response i code msg)) p"

definition reject_to_agent :: "json option \<Rightarrow> int \<Rightarrow> bytes \<Rightarrow> 'w proxy \<Rightarrow> 'w proxy" where
  "reject_to_agent i code msg p = (case i of None \<Rightarrow> p | Some j \<Rightarrow> reply_error j code msg p)"

definition reply_at_shutdown :: "'w proxy \<Rightarrow> 'w proxy" where
  "reply_at_shutdown p =
     fold (\<lambda>(k, v) p. case v of
         Waiting pc \<Rightarrow> if pc_answered pc then p else reject_to_agent (Some k) (- 32603) ''upstream exited'' p
       | Listing _ _ \<Rightarrow> reject_to_agent (Some k) (- 32603) ''upstream exited'' p) (x_pending p) p"

definition audit_before_forward :: bytes where
  "audit_before_forward = ''nockguard: audit unavailable; request was not forwarded''"

definition audit_after_forward :: bytes where
  "audit_after_forward =
     ''nockguard: audit failed after forwarding; tool may have executed; do not retry automatically''"

definition unverified_response :: bytes where
  "unverified_response =
     ''nockguard: upstream response could not be verified; tool may have executed; do not retry automatically''"


subsection \<open>What each operation leaves alone\<close>

lemma on_gate_frame [simp]:
  "x_gate (on_gate f p) = f (x_gate p)" "x_pending (on_gate f p) = x_pending p" "x_active (on_gate f p) = x_active p"
  "x_action_seq (on_gate f p) = x_action_seq p" "x_replies (on_gate f p) = x_replies p" "x_sent (on_gate f p) = x_sent p"
  by (simp_all add: on_gate_def)

lemma on_queue_frame [simp]:
  "x_queue (on_queue f p) = f (x_queue p)" "x_pending (on_queue f p) = x_pending p" "x_active (on_queue f p) = x_active p"
  "x_action_seq (on_queue f p) = x_action_seq p" "x_replies (on_queue f p) = x_replies p" "x_sent (on_queue f p) = x_sent p"
  "g_catalog (x_gate (on_queue f p)) = g_catalog (x_gate p)" "g_scrub (x_gate (on_queue f p)) = g_scrub (x_gate p)"
  by (simp_all add: on_queue_def x_queue_def)

lemma x_queue_update [simp]:
  "x_queue (p\<lparr>x_pending := a\<rparr>) = x_queue p" "x_queue (p\<lparr>x_active := b\<rparr>) = x_queue p"
  "x_queue (p\<lparr>x_action_seq := c\<rparr>) = x_queue p" "x_queue (p\<lparr>x_replies := l\<rparr>) = x_queue p"
  "x_queue (p\<lparr>x_sent := k\<rparr>) = x_queue p" "x_queue (p\<lparr>x_gate := g\<rparr>) = g_queue g" "x_queue (on_gate f p) = g_queue (f (x_gate p))"
  by (simp_all add: x_queue_def)

lemma request_frame [simp]:
  "x_gate (track_request s i p) = x_gate p" "x_pending (track_request s i p) = x_pending p"
  "x_replies (track_request s i p) = x_replies p" "x_sent (track_request s i p) = x_sent p"
  "x_action_seq (track_request s i p) = x_action_seq p"
  "x_gate (release_request s p) = x_gate p" "x_pending (release_request s p) = x_pending p"
  "x_replies (release_request s p) = x_replies p" "x_sent (release_request s p) = x_sent p"
  "x_action_seq (release_request s p) = x_action_seq p"
  by (simp_all add: track_request_def release_request_def)

lemma pending_frame [simp]:
  "x_gate (store_pending i v p) = x_gate p" "x_action_seq (store_pending i v p) = x_action_seq p"
  "x_replies (store_pending i v p) = x_replies p" "x_sent (store_pending i v p) = x_sent p"
  "x_active (store_pending i v p) = x_active p"
  "x_gate (drop_pending i p) = x_gate p" "x_action_seq (drop_pending i p) = x_action_seq p"
  "x_replies (drop_pending i p) = x_replies p" "x_sent (drop_pending i p) = x_sent p"
  "x_active (drop_pending i p) = x_active p"
  "map_of (x_pending (store_pending i v p)) = (map_of (x_pending p))(i \<mapsto> v)"
  "map_of (x_pending (drop_pending i p)) = (map_of (x_pending p))(i := None)"
  by (simp_all add: store_pending_def drop_pending_def update_conv' delete_conv')

lemma x_queue_frame [simp]:
  "x_queue (track_request s i p) = x_queue p" "x_queue (release_request s p) = x_queue p"
  "x_queue (store_pending i v p) = x_queue p" "x_queue (drop_pending i p) = x_queue p"
  by (simp_all add: x_queue_def)

lemma reply_frame [simp]:
  "x_gate (write_agent line p) = x_gate p" "x_pending (write_agent line p) = x_pending p"
  "x_active (write_agent line p) = x_active p" "x_action_seq (write_agent line p) = x_action_seq p"
  "x_sent (write_agent line p) = x_sent p" "x_queue (write_agent line p) = x_queue p"
  "x_gate (reject_to_agent j code msg p) = x_gate p" "x_pending (reject_to_agent j code msg p) = x_pending p"
  "x_active (reject_to_agent j code msg p) = x_active p" "x_action_seq (reject_to_agent j code msg p) = x_action_seq p"
  "x_sent (reject_to_agent j code msg p) = x_sent p" "x_queue (reject_to_agent j code msg p) = x_queue p"
  by (simp_all add: write_agent_def reject_to_agent_def reply_error_def x_queue_def split: option.split)

lemma append_observation_frame [simp]:
  "x_pending (snd (append_observation gc w s ev p)) = x_pending p"
  "x_active (snd (append_observation gc w s ev p)) = x_active p"
  "x_action_seq (snd (append_observation gc w s ev p)) = x_action_seq p"
  "x_replies (snd (append_observation gc w s ev p)) = x_replies p"
  "x_sent (snd (append_observation gc w s ev p)) = x_sent p"
  "g_catalog (x_gate (snd (append_observation gc w s ev p))) = g_catalog (x_gate p)"
  "g_scrub (x_gate (snd (append_observation gc w s ev p))) = g_scrub (x_gate p)"
  by (simp_all add: append_observation_def Let_def case_prod_unfold)

text \<open>The state and the card after an observation.\<close>

definition observed_state ::
  "gate_config \<Rightarrow> 'w world \<Rightarrow> bytes \<Rightarrow> bytes \<Rightarrow> bytes \<Rightarrow> bool option \<Rightarrow> pending_card \<Rightarrow> 'w proxy \<Rightarrow> 'w proxy" where
  "observed_state gc w obs why class mcp pc p = snd (snd (observe_action gc w obs why class mcp pc p))"

definition observed_card ::
  "gate_config \<Rightarrow> 'w world \<Rightarrow> bytes \<Rightarrow> bytes \<Rightarrow> bytes \<Rightarrow> bool option \<Rightarrow> pending_card \<Rightarrow> 'w proxy \<Rightarrow> pending_card" where
  "observed_card gc w obs why class mcp pc p = fst (snd (observe_action gc w obs why class mcp pc p))"

lemma observe_action_frame [simp]:
  "x_pending (observed_state gc w obs why class mcp pc p) = x_pending p"
  "x_active (observed_state gc w obs why class mcp pc p) = x_active p"
  "x_action_seq (observed_state gc w obs why class mcp pc p) = x_action_seq p"
  "x_replies (observed_state gc w obs why class mcp pc p) = x_replies p"
  "x_sent (observed_state gc w obs why class mcp pc p) = x_sent p"
  "g_catalog (x_gate (observed_state gc w obs why class mcp pc p)) = g_catalog (x_gate p)"
  "g_scrub (x_gate (observed_state gc w obs why class mcp pc p)) = g_scrub (x_gate p)"
  by (simp_all add: observed_state_def observe_action_def Let_def case_prod_unfold split: option.split)

lemma settle_observed_simps [simp]:
  "pc_action (settle_observed gc g pc) = pc_action pc" "pc_request (settle_observed gc g pc) = pc_request pc"
  "pc_observation (settle_observed gc g pc) = pc_observation pc" "pc_late (settle_observed gc g pc) = pc_late pc"
  "pc_seq (settle_observed gc g pc) = pc_seq pc" "pc_suppress (settle_observed gc g pc) = pc_suppress pc"
  "pc_answered (settle_observed gc g pc) = pc_answered pc"
  by (simp_all add: settle_observed_def)

lemma next_observation_simps:
  assumes "next_observation pc obs why = Some (o', why', pc1)"
  shows "pc_action pc1 = pc_action pc" "pc_request pc1 = pc_request pc" "pc_seq pc1 = pc_seq pc"
    "pc_suppress pc1 = pc_suppress pc" "pc_answered pc1 = pc_answered pc"
  using assms by (auto simp: next_observation_def split: if_splits)

lemma observed_card_simps [simp]:
  "pc_action (observed_card gc w obs why class mcp pc p) = pc_action pc"
  "pc_request (observed_card gc w obs why class mcp pc p) = pc_request pc"
  "pc_seq (observed_card gc w obs why class mcp pc p) = pc_seq pc"
  "pc_suppress (observed_card gc w obs why class mcp pc p) = pc_suppress pc"
  "pc_answered (observed_card gc w obs why class mcp pc p) = pc_answered pc"
  by (auto simp: observed_card_def observe_action_def Let_def case_prod_unfold next_observation_simps split: option.split)

lemma mark_unknown_eq:
  "mark_unknown gc w why pc p =
     (observed_card gc w ''outcome_unknown'' why [] None pc p, observed_state gc w ''outcome_unknown'' why [] None pc p)"
  by (simp add: mark_unknown_def observed_card_def observed_state_def)

end
