(* ===== verification/Listing.thy ===== *)
theory Listing
  imports Gate
begin

text \<open>
  The filter of tool listings, \<^verbatim>\<open>filterToolListResponse\<close> of
  \<^verbatim>\<open>internal/proxy/stdio.go\<close>: what an agent is shown of a page that the upstream
  advertised, the rows of what it is not shown, and the commit of the page to the catalog. The digest of a
  definition is an argument.
\<close>

subsection \<open>The parts of a page\<close>

definition error_reply :: "json option \<Rightarrow> int \<Rightarrow> bytes \<Rightarrow> json" where
  "error_reply i code msg =
     (case i of
        Some j \<Rightarrow> error_response j code msg
      | None \<Rightarrow> JObj [(''jsonrpc'', JStr ''2.0''), (''error'', JObj [(''code'', JNum (show_int code)), (''message'', JStr msg)])])"

definition invalid_listing :: bytes where
  "invalid_listing = ''nockguard: invalid tools/list response''"

definition gate_discard :: "u64 \<Rightarrow> 'w gate \<Rightarrow> 'w gate" where
  "gate_discard build g = (if build = 0 then g else g\<lparr>g_catalog := snd (discard build (g_catalog g))\<rparr>)"

text \<open>The closure \<open>invalid\<close>: the error, and its row where pins make a listing matter.\<close>

definition refuse_listing :: "gate_config \<Rightarrow> u64 \<Rightarrow> members \<Rightarrow> 'w gate \<Rightarrow> json option \<times> 'w gate" where
  "refuse_listing gc s resp g =
     (Some (error_reply (map_of resp ''id'') (- 32603) invalid_listing),
      if has_tool_pin_constraints (c_engine gc) (c_agent gc)
      then gate_append gc s ''tools/list'' ''method-deny'' ''tool_catalog_refresh_required'' None [] g else g)"

text \<open>The cursor of a page; the outer \<^const>\<open>None\<close> for one that is not a non-empty string.\<close>

definition next_cursor :: "members \<Rightarrow> bytes option" where
  "next_cursor result =
     (case map_of result ''nextCursor'' of
        None \<Rightarrow> Some []
      | Some JNull \<Rightarrow> Some []
      | Some (JStr c) \<Rightarrow> if c = [] then None else Some c
      | Some _ \<Rightarrow> None)"

text \<open>
  What the catalog makes of a page: the generation it still belongs to (0 for none), its observations,
  its cursor, and whether the listing is paginated.
\<close>

definition read_page ::
  "(json \<Rightarrow> bytes option) \<Rightarrow> u64 \<Rightarrow> nat \<Rightarrow> json list \<Rightarrow> members \<Rightarrow> 'w gate \<Rightarrow> (u64 \<times> observations \<times> bytes \<times> bool) \<times> 'w gate" where
  "read_page digest build sz listed result g =
     (if build = 0 then ((0, [], [], False), g)
      else
        case page_within_bounds build sz (length listed) (g_catalog g) of
          (active, bounded, paginated) \<Rightarrow>
            if \<not> active then ((0, [], [], paginated), g)
            else if \<not> bounded then ((0, [], [], paginated), gate_discard build g)
            else (case page_observations digest [] listed of
                None \<Rightarrow> ((0, [], [], paginated), gate_discard build g)
              | Some obs \<Rightarrow>
                  (case next_cursor result of
                     None \<Rightarrow> ((0, obs, [], paginated), gate_discard build g)
                   | Some cursor \<Rightarrow> ((build, obs, cursor, paginated), g))))"

definition listed_name :: "json \<Rightarrow> (bytes \<times> members) option" where
  "listed_name raw =
     (case as_map raw of
        Some (Some ms) \<Rightarrow>
          (case Option.bind (map_of ms ''name'') as_string of
             Some name \<Rightarrow> if name = [] then None else Some (name, ms)
           | None \<Rightarrow> None)
      | _ \<Rightarrow> None)"

text \<open>The observation a listed tool is judged by.\<close>

definition page_observation :: "u64 \<Rightarrow> observations \<Rightarrow> bytes \<Rightarrow> bool \<Rightarrow> bytes \<Rightarrow> tool_observation" where
  "page_observation build obs cursor paginated name =
     (if paginated \<or> cursor \<noteq> [] then observed_as ''unobserved''
      else if build \<noteq> 0 then (case map_of obs name of Some ob \<Rightarrow> ob | None \<Rightarrow> observed_as ''unobserved'')
      else observed_as ''unobserved'')"

text \<open>Why a tool is hidden; empty when it is shown.\<close>

definition hidden_because :: "gate_config \<Rightarrow> 'w world \<Rightarrow> bytes \<Rightarrow> tool_observation \<Rightarrow> bytes option" where
  "hidden_because gc w name ob =
     (let dec = evaluate (c_engine gc) (c_agent gc) name;
          cz = snd (pin_observation (c_engine gc) (c_agent gc) (c_upstream gc) name ob) in
      if verdict dec = Deny then Some (reason_text (w_quote w) (reason dec))
      else if cz \<noteq> [] then Some cz else None)"

text \<open>The loop: \<^const>\<open>None\<close> when a definition cannot be read, after the rows so far.\<close>

fun filter_tools ::
  "gate_config \<Rightarrow> 'w world \<Rightarrow> u64 \<Rightarrow> (bytes \<Rightarrow> tool_observation) \<Rightarrow> json list \<Rightarrow> members list \<Rightarrow> 'w gate \<Rightarrow>
    members list option \<times> 'w gate" where
  "filter_tools gc w s see [] kept g = (Some kept, g)"
| "filter_tools gc w s see (raw # raws) kept g =
     (case listed_name raw of
        None \<Rightarrow> (None, g)
      | Some (name, ms) \<Rightarrow>
          (case hidden_because gc w name (see name) of
             None \<Rightarrow> filter_tools gc w s see raws (kept @ [ms]) g
           | Some why \<Rightarrow> filter_tools gc w s see raws kept (gate_append gc s name ''hide'' why None [] g)))"

subsection \<open>The filter\<close>

text \<open>The tools of a page, filtered, and the page committed.\<close>

definition show_page ::
  "gate_config \<Rightarrow> 'w world \<Rightarrow> (json \<Rightarrow> bytes option) \<Rightarrow> nat \<Rightarrow> u64 \<Rightarrow> u64 \<Rightarrow> members \<Rightarrow> members \<Rightarrow> json list \<Rightarrow>
    'w gate \<Rightarrow> json option \<times> 'w gate" where
  "show_page gc w digest sz s build resp result listed g =
     (let ((build', obs, cursor, paginated), g1) = read_page digest build sz listed result g in
      if build' = 0 \<and> has_tool_pin_constraints (c_engine gc) (c_agent gc) then refuse_listing gc s resp g1
      else
        (case filter_tools gc w s (page_observation build' obs cursor paginated) listed [] g1 of
           (None, g2) \<Rightarrow> refuse_listing gc s resp g2
         | (Some kept, g2) \<Rightarrow>
             (let (err, cat) = (if build' = 0 then (None, g_catalog g2)
                    else add_page build' sz obs cursor (g_catalog g2));
                  g3 = g2\<lparr>g_catalog := cat\<rparr> in
              if err \<noteq> None \<and> has_tool_pin_constraints (c_engine gc) (c_agent gc)
              then refuse_listing gc s resp g3
              else (Some (JObj (put ''result'' (JObj (put ''tools'' (JArr (map JObj kept)) result)) resp)), g3))))"

text \<open>The answer to show, \<^const>\<open>None\<close> for the line as it came.\<close>

definition filter_tool_list ::
  "gate_config \<Rightarrow> 'w world \<Rightarrow> (json \<Rightarrow> bytes option) \<Rightarrow> bytes \<Rightarrow> u64 \<Rightarrow> u64 \<Rightarrow> 'w gate \<Rightarrow> json option \<times> 'w gate" where
  "filter_tool_list gc w digest line s build g =
     (case Option.bind (json_parse line) as_map of
        Some (Some resp) \<Rightarrow>
          if map_of resp ''error'' \<noteq> None then
            (if map_of resp ''result'' \<noteq> None then refuse_listing gc s resp (gate_discard build g)
             else (None, gate_discard build g))
          else
            (case Option.bind (map_of resp ''result'') as_map of
               Some (Some result) \<Rightarrow>
                 (case Option.bind (map_of result ''tools'') as_slice of
                    Some (Some listed) \<Rightarrow> show_page gc w digest (length line) s build resp result listed g
                  | _ \<Rightarrow> refuse_listing gc s resp (gate_discard build g))
             | _ \<Rightarrow> refuse_listing gc s resp (gate_discard build g))
      | _ \<Rightarrow> (Some (error_response JNull (- 32603) invalid_listing), gate_discard build g))"

text \<open>Whether a call to a tool would pass its pin against a catalog, and its policy besides.\<close>

definition pin_holds :: "gate_config \<Rightarrow> tool_catalog \<Rightarrow> bytes \<Rightarrow> bool" where
  "pin_holds gc c tool \<longleftrightarrow>
     snd (pin_observation (c_engine gc) (c_agent gc) (c_upstream gc) tool (catalog_observe c tool)) = []"

definition callable :: "gate_config \<Rightarrow> tool_catalog \<Rightarrow> bytes \<Rightarrow> bool" where
  "callable gc c tool \<longleftrightarrow> verdict (evaluate (c_engine gc) (c_agent gc) tool) \<noteq> Deny \<and> pin_holds gc c tool"

text \<open>The ways out of a page.\<close>

lemma show_page_cases:
  assumes "show_page gc w digest sz s build resp result listed g = (out, g')"
  obtains (refused) g1 where "(out, g') = refuse_listing gc s resp g1"
      "\<And>x. read_page digest build sz listed result g = x \<Longrightarrow>
        g1 = snd x \<or> (\<exists>see r g2. filter_tools gc w s see listed [] (snd x) = (r, g2) \<and> g_queue g1 = g_queue g2)"
  | (shown) build' obs cursor paginated g1 kept g2 cat err where
      "read_page digest build sz listed result g = ((build', obs, cursor, paginated), g1)"
      "build' = 0 \<longrightarrow> \<not> has_tool_pin_constraints (c_engine gc) (c_agent gc)"
      "filter_tools gc w s (page_observation build' obs cursor paginated) listed [] g1 = (Some kept, g2)"
      "out = Some (JObj (put ''result'' (JObj (put ''tools'' (JArr (map JObj kept)) result)) resp))"
      "g' = g2\<lparr>g_catalog := cat\<rparr>"
      "(if build' = 0 then (None, g_catalog g2) else add_page build' sz obs cursor (g_catalog g2)) = (err, cat)"
      "has_tool_pin_constraints (c_engine gc) (c_agent gc) \<longrightarrow> err = None"
proof -
  obtain build' obs cursor paginated g1 where r: "read_page digest build sz listed result g = ((build', obs, cursor, paginated), g1)"
    by (metis prod.exhaust)
  obtain k g2 where f: "filter_tools gc w s (page_observation build' obs cursor paginated) listed [] g1 = (k, g2)" by fastforce
  let ?pins = "has_tool_pin_constraints (c_engine gc) (c_agent gc)"
  show thesis
  proof (cases "build' = 0 \<and> ?pins")
    case True
    then have "(out, g') = refuse_listing gc s resp g1" using assms r by (simp add: show_page_def)
    then show thesis by (rule refused) (use r in auto)
  next
    case np: False
    show thesis
    proof (cases k)
      case None
      then have "(out, g') = refuse_listing gc s resp g2" using assms r f np by (auto simp: show_page_def)
      then show thesis by (rule refused) (use r f in auto)
    next
      case (Some kept)
      obtain err cat where c: "(if build' = 0 then (None, g_catalog g2) else add_page build' sz obs cursor (g_catalog g2)) = (err, cat)"
        by fastforce
      show thesis
      proof (cases "err \<noteq> None \<and> ?pins")
        case True
        then have "(out, g') = refuse_listing gc s resp (g2\<lparr>g_catalog := cat\<rparr>)"
          using assms r f np c Some by (auto simp: show_page_def Let_def)
        then show thesis by (rule refused) (use r f in auto)
      next
        case False
        have "out = Some (JObj (put ''result'' (JObj (put ''tools'' (JArr (map JObj kept)) result)) resp))" "g' = g2\<lparr>g_catalog := cat\<rparr>"
          using assms r f np c Some False by (auto simp: show_page_def Let_def)
        then show thesis using shown [OF r _ f [unfolded Some] _ _ c] np False by blast
      qed
    qed
  qed
qed

end
