(* ===== verification/Session.thy ===== *)
theory Session
  imports Actions Listing
begin

text \<open>
  One session of the stdio proxy, \<^verbatim>\<open>agentToUpstream\<close> and
  \<^verbatim>\<open>upstreamToAgent\<close> of \<^verbatim>\<open>internal/proxy/stdio.go\<close>: what the proxy does
  with one line from the agent and one line from the upstream. The code runs the two loops in two
  goroutines; here their lines interleave as whole steps. Writing to the agent does not fail;
  \<open>sent\<close> tells whether writing upstream succeeded. The first component of a step of the agent
  tells that the loop ends.
\<close>

subsection \<open>A line from the agent\<close>

definition gate_audit_now ::
  "gate_config \<Rightarrow> 'w world \<Rightarrow> bytes \<Rightarrow> bytes \<Rightarrow> bytes \<Rightarrow> references option \<Rightarrow> bytes \<Rightarrow> 'w gate \<Rightarrow> 'w gate" where
  "gate_audit_now gc w tool decision why refs aid g =
     (if aid = [] then g else remember_observation gc aid tool g)
       \<lparr>g_queue := audit_now (c_session gc) (w_record w) (apply_observation gc g) tool decision why refs aid (g_queue g)\<rparr>"

definition x_resolve :: "gate_config \<Rightarrow> 'w world \<Rightarrow> u64 \<Rightarrow> 'w proxy \<Rightarrow> 'w proxy" where
  "x_resolve gc w s = on_gate (gate_resolve gc w s)"

definition x_invalidate :: "'w proxy \<Rightarrow> 'w proxy" where
  "x_invalidate = on_gate (\<lambda>g. g\<lparr>g_catalog := invalidate (g_catalog g)\<rparr>)"

definition forget_observed :: "bytes \<Rightarrow> 'w proxy \<Rightarrow> 'w proxy" where
  "forget_observed aid = on_gate (\<lambda>g. g\<lparr>g_observed := AList.delete aid (g_observed g)\<rparr>)"

definition store_observed :: "bytes \<Rightarrow> tool_observation \<Rightarrow> 'w proxy \<Rightarrow> 'w proxy" where
  "store_observed aid ob p =
     (if aid = [] then p else on_gate (\<lambda>g. g\<lparr>g_observed := AList.update aid ob (g_observed g)\<rparr>) p)"

text \<open>The id a failed audit is answered under, and the request that is forwarded.\<close>

definition decision_id :: "mcp_decision \<Rightarrow> json option" where
  "decision_id d =
     (case d_forward d of
        None \<Rightarrow> d_reject_id d
      | Some t \<Rightarrow> (case message_of_tree t of None \<Rightarrow> d_reject_id d | Some m \<Rightarrow> m_id m))"

definition request_of :: "json \<Rightarrow> message" where
  "request_of t = (case message_of_tree t of None \<Rightarrow> zero_message | Some m \<Rightarrow> m)"

text \<open>Tracking a \<open>tools/list\<close> request; \<^const>\<open>None\<close> when it is refused instead.\<close>

definition start_listing :: "gate_config \<Rightarrow> 'w world \<Rightarrow> bytes \<Rightarrow> u64 \<Rightarrow> json \<Rightarrow> 'w proxy \<Rightarrow> 'w proxy option \<times> 'w proxy" where
  "start_listing gc w line s i p =
     (if \<not> p_pairing (c_session gc) then (Some (store_pending i (Listing s 0) p), p)
      else
        let (build, cat) = (case exact_list_params line of
               None \<Rightarrow> (0, invalidate (g_catalog (x_gate p)))
             | Some params \<Rightarrow> begin_list params (g_catalog (x_gate p)));
            p1 = on_gate (\<lambda>g. g\<lparr>g_catalog := cat\<rparr>) p in
        if build = 0 \<and> has_tool_pin_constraints (c_engine gc) (c_agent gc) then
          (None, reject_to_agent (Some i) (- 32603) ''nockguard: tool catalog refresh required''
            (x_resolve gc w s (on_gate (gate_append gc s ''tools/list'' ''method-deny'' ''tool_catalog_refresh_required'' None []) p1)))
        else (Some (track_request s i (store_pending i (Listing s build) p1)), p1))"

text \<open>The end of a refused message.\<close>

definition reject_line :: "gate_config \<Rightarrow> 'w world \<Rightarrow> bool \<Rightarrow> u64 \<Rightarrow> bytes \<Rightarrow> mcp_decision \<Rightarrow> 'w proxy \<Rightarrow> 'w proxy" where
  "reject_line gc w listing s aid d p =
     (let p1 = x_resolve gc w s (if listing then x_invalidate p else p);
          (bad, p2) = (if aid = [] then (False, p1)
             else case observe_action gc w ''not_forwarded'' (d_cause d) [] None (action_card d s aid) p1 of
                 (bad, _, p2) \<Rightarrow> (bad, p2));
          (code, msg) = (if bad \<or> audit_failing gc w p2 then (- 32603, audit_before_forward)
             else (d_reject_code d, d_reject_msg d)) in
      reject_to_agent (d_reject_id d) code msg p2)"

text \<open>The check of the pin at dispatch, under the lock of the catalog; \<^const>\<open>None\<close> when it fails.\<close>

definition recheck_pin ::
  "gate_config \<Rightarrow> 'w world \<Rightarrow> u64 \<Rightarrow> bytes \<Rightarrow> mcp_decision \<Rightarrow> message \<Rightarrow> 'w proxy \<Rightarrow> 'w proxy option \<times> 'w proxy" where
  "recheck_pin gc w s aid d m p =
     (let (ob, cz) = pin_observation (c_engine gc) (c_agent gc) (c_upstream gc) (d_tool d)
            (catalog_observe (g_catalog (x_gate p)) (d_tool d)) in
      if cz = [] then (Some (store_observed aid ob p), p)
      else
        let p1 = on_gate (gate_audit_now gc w (d_tool d) ''block'' cz (d_refs d) aid) (x_resolve gc w s (store_observed aid ob p));
            p2 = (if aid = [] then p1
                  else snd (snd (observe_action gc w ''not_forwarded'' cz [] None ((action_card d s aid)\<lparr>pc_observed := ob\<rparr>) p1)));
            (code, msg) = (if audit_failing gc w p2 then (- 32603, audit_before_forward)
               else (- 32600, ''nockguard: tool definition is not approved'')) in
        (None, reject_to_agent (m_id m) code msg p2))"

text \<open>The row that required auditing writes before the call leaves; \<^const>\<open>None\<close> when that fails.\<close>

definition record_dispatch ::
  "gate_config \<Rightarrow> 'w world \<Rightarrow> u64 \<Rightarrow> bytes \<Rightarrow> mcp_decision \<Rightarrow> message \<Rightarrow> 'w proxy \<Rightarrow> 'w proxy option \<times> 'w proxy" where
  "record_dispatch gc w s aid d m p =
     (if \<not> p_required (c_session gc) \<or> m_method m \<noteq> ''tools/call'' then (Some p, p)
      else
        let p1 = on_gate (gate_audit_now gc w (d_tool d) ''dispatch'' ''required-audit-before-forward'' (d_refs d) aid) p in
        if audit_failing gc w p1 then
          (None, reject_to_agent (m_id m) (- 32603) audit_before_forward (forget_observed aid (x_resolve gc w s p1)))
        else (Some p1, p1))"

definition store_card :: "gate_config \<Rightarrow> u64 \<Rightarrow> bytes \<Rightarrow> mcp_decision \<Rightarrow> 'w proxy \<Rightarrow> 'w proxy" where
  "store_card gc s aid d p =
     (case d_forward_id d of
        None \<Rightarrow> p
      | Some i \<Rightarrow>
          store_pending i
            (Waiting ((action_card d s aid)\<lparr>pc_state_tool := d_state_tool d,
               pc_state_refs := (case d_state_refs d of None \<Rightarrow> no_references | Some r \<Rightarrow> r), pc_request := Some i\<rparr>))
            (if p_pairing (c_session gc) then track_request s i p else p))"

text \<open>The upstream did not take the message: its entry leaves the map and its action is unknown.\<close>

definition lose_entry :: "gate_config \<Rightarrow> 'w world \<Rightarrow> json \<Rightarrow> 'w proxy \<Rightarrow> 'w proxy" where
  "lose_entry gc w i p =
     (case map_of (x_pending p) i of
        Some (Waiting pc) \<Rightarrow>
          if pc_action pc = [] then drop_pending i p
          else snd (mark_unknown gc w ''transport_lost'' pc (drop_pending i p))
      | _ \<Rightarrow> drop_pending i p)"

definition tracked_id :: "mcp_decision \<Rightarrow> json option" where
  "tracked_id d = (case d_forward_id d of None \<Rightarrow> d_tools_list_id d | Some i \<Rightarrow> Some i)"

definition lose_transport :: "gate_config \<Rightarrow> 'w world \<Rightarrow> u64 \<Rightarrow> bytes \<Rightarrow> mcp_decision \<Rightarrow> message \<Rightarrow> 'w proxy \<Rightarrow> 'w proxy" where
  "lose_transport gc w s aid d m p =
     (let p1 = (if m_method m = ''tools/list'' then x_invalidate p else p);
          loaded = (case tracked_id d of None \<Rightarrow> False | Some i \<Rightarrow> map_of (x_pending p1) i \<noteq> None);
          p2 = (case tracked_id d of None \<Rightarrow> p1 | Some i \<Rightarrow> lose_entry gc w i p1);
          p3 = (if loaded \<and> p_pairing (c_session gc) then release_request s p2 else p2);
          p4 = (if aid \<noteq> [] \<and> m_method m = ''tools/call'' \<and> d_forward_id d = None
                then snd (mark_unknown gc w ''transport_lost'' (action_card d s aid) p3) else p3) in
      if tracked_id d = None \<or> loaded then x_resolve gc w s p4 else p4)"

text \<open>
  Forwarding: cancellation, pin, dispatch row, tracking, and the write. The components tell that the loop
  ends, and that the message was handled to its end here.
\<close>

definition forward_line ::
  "gate_config \<Rightarrow> 'w world \<Rightarrow> bool \<Rightarrow> u64 \<Rightarrow> bytes \<Rightarrow> mcp_decision \<Rightarrow> json \<Rightarrow> 'w proxy \<Rightarrow> (bool \<times> bool) \<times> 'w proxy" where
  "forward_line gc w sent s aid d t p =
     (let m = request_of t;
          p1 = (if p_pairing (c_session gc) \<and> m_method m = ''notifications/cancelled''
                then cancel_action gc w (cancellation_request_id m) p else p) in
      case (if m_method m = ''tools/call'' \<and> has_tool_pin_constraints (c_engine gc) (c_agent gc)
            then recheck_pin gc w s aid d m p1 else (Some p1, p1)) of
        (None, p2) \<Rightarrow> ((False, True), p2)
      | (Some p2, _) \<Rightarrow>
          (case record_dispatch gc w s aid d m p2 of
             (None, p3) \<Rightarrow> ((False, True), p3)
           | (Some p3, _) \<Rightarrow>
               let p4 = store_card gc s aid d p3 in
               if \<not> sent then ((True, True), lose_transport gc w s aid d m p4)
               else
                 let p5 = p4\<lparr>x_sent := x_sent p4 @ [t]\<rparr> in
                 ((False, False),
                  if aid \<noteq> [] \<and> m_method m = ''tools/call'' \<and> d_forward_id d = None
                  then snd (mark_unknown gc w [] (action_card d s aid) (x_resolve gc w s p5)) else p5)))"

text \<open>The rest of the loop body, from the decision on.\<close>

definition decided_line ::
  "gate_config \<Rightarrow> 'w world \<Rightarrow> bool \<Rightarrow> bool \<Rightarrow> bytes \<Rightarrow> u64 \<Rightarrow> bytes \<Rightarrow> mcp_decision \<Rightarrow> 'w proxy \<Rightarrow> bool \<times> 'w proxy" where
  "decided_line gc w sent listing line s aid d p =
     (if audit_failing gc w p then
        (False, reject_to_agent (decision_id d) (- 32603) audit_before_forward (forget_observed aid (x_resolve gc w s p)))
      else
        case (case d_tools_list_id d of None \<Rightarrow> (Some p, p) | Some i \<Rightarrow> start_listing gc w line s i p) of
          (None, p1) \<Rightarrow> (False, p1)
        | (Some p1, _) \<Rightarrow>
            let p2 = (if d_reject d then reject_line gc w listing s aid d p1 else p1);
                ((ends, handled), p3) = (case d_forward d of
                    None \<Rightarrow> ((False, False), p2)
                  | Some t \<Rightarrow> forward_line gc w sent s aid d t p2) in
            (ends,
             if \<not> handled \<and> d_tools_list_id d = None \<and> (d_reject d \<or> d_forward d = None \<or> d_forward_id d = None)
             then x_resolve gc w s p3 else p3))"

text \<open>A paired session checks names and identifiers before anything else; \<open>kind_name\<close> is what it checks.\<close>

definition kind_name :: "message \<Rightarrow> bytes \<times> bytes" where
  "kind_name m =
     (if m_method m = ''tools/call''
      then (''tool'', case canonical_tool_call (m_params m) of None \<Rightarrow> [] | Some (n, _) \<Rightarrow> n)
      else (''method'', m_method m))"

definition refuse_duplicate ::
  "gate_config \<Rightarrow> 'w world \<Rightarrow> bool \<Rightarrow> u64 \<Rightarrow> bytes \<Rightarrow> message \<Rightarrow> 'w proxy \<Rightarrow> 'w proxy" where
  "refuse_duplicate gc w listing s aid m p =
     (let p1 = (if listing then x_invalidate p else p);
          (tool, params) = (case canonical_tool_call (m_params m) of None \<Rightarrow> ([], []) | Some (n, ps) \<Rightarrow> (n, json_print ps));
          refs = from_tool_call tool params;
          pc = (action_card no_decision s aid)\<lparr>pc_tool := tool, pc_refs := refs\<rparr>;
          p2 = (if aid = [] then p1
                else snd (snd (observe_action gc w ''not_forwarded'' [] [] None pc
                  (x_resolve gc w s (on_gate (gate_append gc s tool ''block'' ''duplicate-active-request-id'' (Some refs) []) p1)))));
          p3 = x_resolve gc w s p2 in
      reject_to_agent (m_id m) (- 32600)
        (if audit_failing gc w p3 then audit_before_forward else ''nockguard: duplicate active JSON-RPC request id'') p3)"

definition decide_line ::
  "gate_config \<Rightarrow> 'w world \<Rightarrow> bool \<Rightarrow> bool \<Rightarrow> bytes \<Rightarrow> u64 \<Rightarrow> bytes \<Rightarrow> 'w proxy \<Rightarrow> bool \<times> 'w proxy" where
  "decide_line gc w sent listing line s aid p =
     (let (d, g) = decide gc w line s (x_gate p) in decided_line gc w sent listing line s aid d (p\<lparr>x_gate := g\<rparr>))"

text \<open>The message of a paired session, whose canonical form is checked and then decided on.\<close>

definition paired_message ::
  "gate_config \<Rightarrow> 'w world \<Rightarrow> bool \<Rightarrow> bool \<Rightarrow> bytes \<Rightarrow> u64 \<Rightarrow> message \<Rightarrow> 'w proxy \<Rightarrow> bool \<times> 'w proxy" where
  "paired_message gc w sent listing line s m p =
     (case reject_oversized gc w (fst (kind_name m)) (snd (kind_name m)) (m_id m) (x_gate p) of
        Some (d, g) \<Rightarrow>
          (let p1 = x_resolve gc w s (let p' = p\<lparr>x_gate := g\<rparr> in if listing then x_invalidate p' else p');
               (code, msg) = (if audit_failing gc w p1 then (- 32603, audit_before_forward)
                  else (d_reject_code d, d_reject_msg d)) in
           (False, reject_to_agent (d_reject_id d) code msg p1))
      | None \<Rightarrow>
          (case (if m_method m = ''tools/call'' then map_option Some (new_action_id (c_session gc) (x_action_seq p)) else Some None) of
             None \<Rightarrow> (True, reject_to_agent (m_id m) (- 32603) audit_before_forward p)
           | Some fresh \<Rightarrow>
               let (aid, p1) = (case fresh of
                      None \<Rightarrow> ([], p)
                    | Some (a, n) \<Rightarrow> (a, on_queue (queue_action_id s a) (p\<lparr>x_action_seq := n\<rparr>))) in
               if is_request m \<and> request_in_use (the (m_id m)) p1
               then (False, refuse_duplicate gc w listing s aid m p1)
               else decide_line gc w sent listing line s aid p1))"

definition is_listing :: "gate_config \<Rightarrow> bytes \<Rightarrow> bool" where
  "is_listing gc line \<longleftrightarrow>
     p_pairing (c_session gc) \<and> (case decode_message line of None \<Rightarrow> False | Some m \<Rightarrow> m_method m = ''tools/list'')"

definition agent_line :: "gate_config \<Rightarrow> 'w world \<Rightarrow> bool \<Rightarrow> bytes \<Rightarrow> 'w proxy \<Rightarrow> bool \<times> 'w proxy" where
  "agent_line gc w sent line p =
     (if p_pairing (c_session gc) \<and> run_stopping (c_session gc) then (True, p)
      else
        let listing = is_listing gc line;
            p0 = (if listing \<and> exact_list_params line = None then x_invalidate p else p) in
        if audit_failing gc w p0 then
          (False, reject_to_agent (case decode_message line of None \<Rightarrow> Some JNull | Some m \<Rightarrow> m_id m) (- 32603)
             audit_before_forward (if listing then x_invalidate p0 else p0))
        else
          let s = fst (reserve_sequence (x_queue p0));
              p1 = on_queue (\<lambda>q. snd (reserve_sequence q)) p0 in
          if \<not> p_pairing (c_session gc) then decide_line gc w sent listing line s [] p1
          else (case canonicalize_message line of
              Inl _ \<Rightarrow> decide_line gc w sent listing line s [] p1
            | Inr (obj, tree, m) \<Rightarrow> paired_message gc w sent listing line s m p1))"

subsection \<open>A line from the upstream\<close>

definition set_card :: "json option \<Rightarrow> pending_card \<Rightarrow> 'w proxy \<Rightarrow> 'w proxy" where
  "set_card i pc p = (case i of None \<Rightarrow> p | Some k \<Rightarrow> store_pending k (Waiting pc) p)"

text \<open>An invalid response to an action: the action is unknown, and the agent is told so once.\<close>

definition answer_invalid :: "gate_config \<Rightarrow> 'w world \<Rightarrow> json \<Rightarrow> pending_card \<Rightarrow> 'w proxy \<Rightarrow> 'w proxy" where
  "answer_invalid gc w k pc p =
     (if pc_suppress pc then p
      else
        let (pc1, p1) = mark_unknown gc w [] (pc\<lparr>pc_suppress := True\<rparr>) p;
            p2 = x_resolve gc w (pc_seq pc1) p1;
            p3 = reject_to_agent (pc_request pc1) (- 32603)
              (if audit_failing gc w p2 then audit_after_forward else unverified_response) p2;
            p4 = on_queue (clear_audit_failure (pc_seq pc1)) p3 in
        store_pending k (Waiting (pc1\<lparr>pc_answered := True\<rparr>)) p4)"

text \<open>
  A number in the text of a document that rounds to a finite float64: \<open>json.Unmarshal\<close> into an untyped
  value fails on any other, and then the flag of a tool's error is not looked at.
\<close>

definition float_fits :: "bytes \<Rightarrow> bool" where
  "float_fits s =
     (let t = (case s of [] \<Rightarrow> [] | c # u \<Rightarrow> if c = CHR ''-'' then u else s);
          mant = takeWhile (\<lambda>c. c \<noteq> CHR ''e'' \<and> c \<noteq> CHR ''E'') t; ex = drop (Suc (length mant)) t;
          whole = takeWhile (\<lambda>c. c \<noteq> CHR ''.'') mant; frac = drop (Suc (length whole)) mant;
          (neg, es) = (case ex of [] \<Rightarrow> (False, []) | c # u \<Rightarrow>
              if c = CHR ''-'' then (True, u) else if c = CHR ''+'' then (False, u) else (False, ex));
          d = digits_value (whole @ frac); e = digits_value es; overflow = 2 ^ 1024 - 2 ^ 970 in
      if neg then d < overflow * 10 ^ (length frac + e) else d * 10 ^ e < overflow * 10 ^ length frac)"

fun floats_fit :: "json \<Rightarrow> bool" where
  "floats_fit (JNum s) = float_fits s"
| "floats_fit (JArr xs) = list_all floats_fit xs"
| "floats_fit (JObj ms) = list_all (\<lambda>x. floats_fit (snd x)) ms"
| "floats_fit j = True"

lemma float_fits_examples: "float_fits ''12.5''" "float_fits ''-1e-40''" "\<not> float_fits ''1.8e+308''"
  by (simp_all add: float_fits_def digits_value_def)

text \<open>Whether a response commits the card: no JSON-RPC error and no error of the tool.\<close>

definition succeeded :: "message \<Rightarrow> bool" where
  "succeeded m \<longleftrightarrow>
     m_error m = None
     \<and> (case m_result m of
          None \<Rightarrow> True
        | Some r \<Rightarrow>
            (case as_map r of
               Some (Some ms) \<Rightarrow> \<not> (floats_fit r \<and> map_of ms ''isError'' = Some (JBool True))
             | _ \<Rightarrow> True))"

text \<open>The release of a request whose answer was delivered.\<close>

definition release :: "u64 \<Rightarrow> 'w proxy \<Rightarrow> 'w proxy" where
  "release s p = release_request s (on_queue (clear_audit_failure s) p)"

text \<open>Whether the line is a valid response to the request of the card; calls of no action are not checked.\<close>

definition valid_card :: "pending_card \<Rightarrow> bytes \<Rightarrow> bool" where
  "valid_card pc line \<longleftrightarrow>
     pc_action pc = [] \<or> (case pc_request pc of None \<Rightarrow> False | Some i \<Rightarrow> valid_response_for i line)"

definition suppressed :: "pending_card \<Rightarrow> bool" where
  "suppressed pc \<longleftrightarrow> pc_action pc \<noteq> [] \<and> pc_suppress pc"

text \<open>The card state, the observation and the rows of the sequence.\<close>

definition settle_card :: "gate_config \<Rightarrow> 'w world \<Rightarrow> bytes \<Rightarrow> message \<Rightarrow> pending_card \<Rightarrow> 'w proxy \<Rightarrow> pending_card \<times> 'w proxy" where
  "settle_card gc w line m pc p =
     (let p1 = (if valid_card pc line \<and> \<not> suppressed pc \<and> succeeded m
            then on_queue (update_card_state (pc_seq pc) (pc_state_tool pc) (Some (pc_state_refs pc))) p else p);
          (pc2, p2) = (if pc_action pc = [] then (pc, p1)
             else if valid_card pc line then
               (let (class, mcp) = action_response_details line in
                snd (observe_action gc w ''response_observed'' [] class mcp pc p1))
             else mark_unknown gc w [] (pc\<lparr>pc_suppress := True\<rparr>) p1) in
      (pc2, x_resolve gc w (pc_seq pc) p2))"

text \<open>The line for the agent.\<close>

definition card_answer :: "gate_config \<Rightarrow> 'w world \<Rightarrow> bytes \<Rightarrow> pending_card \<Rightarrow> 'w proxy \<Rightarrow> bytes" where
  "card_answer gc w line pc p =
     (if audit_failing gc w p then json_print (error_reply (pc_request pc) (- 32603) audit_after_forward)
      else if pc_action pc \<noteq> [] \<and> \<not> suppressed pc
          \<and> (\<not> valid_card pc line \<or> \<not> sequence_durable (c_session gc) (w_required w) (pc_seq pc) (x_queue p)) then
        json_print (error_reply (pc_request pc) (- 32603) unverified_response)
      else line)"

text \<open>The response to a tracked call; the entry is out of the map already.\<close>

definition card_response :: "gate_config \<Rightarrow> 'w world \<Rightarrow> bytes \<Rightarrow> message \<Rightarrow> pending_card \<Rightarrow> 'w proxy \<Rightarrow> 'w proxy" where
  "card_response gc w line m pc p =
     (if \<not> valid_card pc line \<and> suppressed pc then set_card (pc_request pc) pc p
      else
        let (pc2, p3) = settle_card gc w line m pc p;
            p4 = (if suppressed pc then p3 else write_agent (card_answer gc w line pc p3) p3) in
        if valid_card pc line then release (pc_seq pc) p4
        else set_card (pc_request pc) (pc2\<lparr>pc_answered := True\<rparr>) (on_queue (clear_audit_failure (pc_seq pc)) p4))"

definition listing_response ::
  "gate_config \<Rightarrow> 'w world \<Rightarrow> (json \<Rightarrow> bytes option) \<Rightarrow> bytes \<Rightarrow> u64 \<Rightarrow> u64 \<Rightarrow> 'w proxy \<Rightarrow> 'w proxy" where
  "listing_response gc w digest line s build p =
     (let (out, g) = filter_tool_list gc w digest line s build (x_gate p) in
      release s (write_agent (case out of None \<Rightarrow> line | Some t \<Rightarrow> json_print t) (x_resolve gc w s (p\<lparr>x_gate := g\<rparr>))))"

text \<open>A line that is not an invalid response to an action.\<close>

definition relay_line ::
  "gate_config \<Rightarrow> 'w world \<Rightarrow> (json \<Rightarrow> bytes option) \<Rightarrow> bytes \<Rightarrow> message option \<Rightarrow> 'w proxy \<Rightarrow> 'w proxy" where
  "relay_line gc w digest line msg p =
     (case msg of
        None \<Rightarrow> write_agent line p
      | Some m \<Rightarrow>
          if \<not> is_response m then write_agent line p
          else (case load_pending (the (m_id m)) p of
              None \<Rightarrow> if p_pairing (c_session gc) \<and> request_in_use (the (m_id m)) p then p else write_agent line p
            | Some (Listing s build, p1) \<Rightarrow> listing_response gc w digest line s build p1
            | Some (Waiting pc, p1) \<Rightarrow> card_response gc w line m pc p1))"

definition upstream_line ::
  "gate_config \<Rightarrow> 'w world \<Rightarrow> (json \<Rightarrow> bytes option) \<Rightarrow> (nat \<Rightarrow> nat) \<Rightarrow> bytes \<Rightarrow> 'w proxy \<Rightarrow> 'w proxy" where
  "upstream_line gc w digest fold_min line p =
     (let msg = decode_message line;
          p0 = (case msg of
             Some m \<Rightarrow> if m_method m = ''notifications/tools/list_changed'' then x_invalidate p else p
           | None \<Rightarrow> p) in
      case (if p_pairing (c_session gc) then response_id fold_min line (msg = None) else None) of
        Some (i, True) \<Rightarrow>
          (case find_action_pending i p0 of
             Some (k, pc) \<Rightarrow> answer_invalid gc w k pc p0
           | None \<Rightarrow> if request_in_use i p0 then p0 else relay_line gc w digest line msg p0)
      | _ \<Rightarrow> relay_line gc w digest line msg p0)"

text \<open>The end of the upstream.\<close>

definition upstream_eof :: "gate_config \<Rightarrow> 'w world \<Rightarrow> bool \<Rightarrow> 'w proxy \<Rightarrow> 'w proxy" where
  "upstream_eof gc w scan_failed p =
     on_queue (drain_audits (c_session gc) (w_record w))
       (finish_pending gc w (if scan_failed then ''transport_lost'' else ''upstream_exit'') p)"

subsection \<open>The probe of the self test\<close>

text \<open>
  \<open>Probe\<close>: one line through the same gate, with a pending map of its own, whose calls are then settled
  as if the upstream had gone. The results are whether anything reached the upstream, the replies, and
  whether the loop ended.
\<close>

definition probe_entry :: "gate_config \<Rightarrow> 'w world \<Rightarrow> json \<times> pending \<Rightarrow> 'w proxy \<Rightarrow> 'w proxy" where
  "probe_entry gc w e p =
     (case e of
        (k, Waiting pc) \<Rightarrow>
          let p1 = (if pc_state_tool pc = [] then p
                else on_queue (update_card_state (pc_seq pc) (pc_state_tool pc) (Some (pc_state_refs pc))) p);
              p2 = (if pc_action pc = [] then p1
                else (let (pc1, q) = mark_unknown gc w ''upstream_exit'' pc p1 in store_pending k (Waiting pc1) q)) in
          x_resolve gc w (pc_seq pc) p2
      | _ \<Rightarrow> p)"

definition probe :: "gate_config \<Rightarrow> 'w world \<Rightarrow> bytes \<Rightarrow> 'w proxy \<Rightarrow> (bool \<times> bytes list \<times> bool) \<times> 'w proxy" where
  "probe gc w line p =
     (let (ends, p1) = agent_line gc w True line (p\<lparr>x_pending := [], x_replies := [], x_sent := []\<rparr>);
          p2 = fold (probe_entry gc w) (x_pending p1) p1 in
      ((x_sent p1 \<noteq> [], x_replies p1, ends), p2))"

subsection \<open>Sessions\<close>

text \<open>
  A run has one configuration and one world: the clock reading, the approver, the resolver and the writer function are the same functions
  at every step, so that a call's answers depend on the call and not on when it is asked.
\<close>

inductive session_step ::
  "gate_config \<Rightarrow> 'w world \<Rightarrow> (json \<Rightarrow> bytes option) \<Rightarrow> (nat \<Rightarrow> nat) \<Rightarrow> 'w proxy \<Rightarrow> 'w proxy \<Rightarrow> bool"
  for gc w digest fold_min where
  session_agent: "session_step gc w digest fold_min p (snd (agent_line gc w sent line p))"
| session_upstream: "session_step gc w digest fold_min p (upstream_line gc w digest fold_min line p)"
| session_eof: "session_step gc w digest fold_min p (upstream_eof gc w scan_failed p)"

definition new_proxy :: "limiter option \<Rightarrow> 'w \<Rightarrow> 'w proxy" where
  "new_proxy lm wr =
     \<lparr>x_gate = \<lparr>g_queue = empty_queue wr, g_limiter = lm, g_catalog = empty_catalog, g_observed = [],
        g_scrub = \<lparr>sc_max = 256, sc_values = []\<rparr>\<rparr>,
      x_pending = [], x_active = [], x_action_seq = 0, x_replies = [], x_sent = []\<rparr>"

inductive session_run ::
  "gate_config \<Rightarrow> 'w world \<Rightarrow> (json \<Rightarrow> bytes option) \<Rightarrow> (nat \<Rightarrow> nat) \<Rightarrow> 'w proxy \<Rightarrow> 'w proxy \<Rightarrow> bool"
  for gc w digest fold_min where
  session_start: "session_run gc w digest fold_min p p"
| session_more: "session_run gc w digest fold_min p p' \<Longrightarrow> session_step gc w digest fold_min p' p'' \<Longrightarrow>
    session_run gc w digest fold_min p p''"

end
