(* ===== verification/Ledger.thy ===== *)
theory Ledger
  imports Session
begin

text \<open>
  What the operations of a session enter into the audit trail. Rows are counted when they enter the
  queue or the writer; the observations among them are followed one by one, since the outcome of an
  action is the observation recorded for it. A relation between gates that every primitive change
  respects holds across a whole decision; the locale \<open>gate_preorder\<close> says so once.
\<close>

subsection \<open>Rows entering the queue\<close>

definition is_observation :: "event \<Rightarrow> bool" where
  "is_observation ev \<longleftrightarrow> record_type ev = ''action_observation''"

text \<open>The observations among some rows: the action and what was observed.\<close>

definition observations_in :: "event list \<Rightarrow> (bytes \<times> bytes) list" where
  "observations_in evs = map (\<lambda>ev. (action_id ev, observation ev)) (filter is_observation evs)"

lemma observations_in_simps [simp]:
  "observations_in [] = []" "observations_in (xs @ ys) = observations_in xs @ observations_in ys"
  by (simp_all add: observations_in_def)

definition noted :: "'w recorder \<Rightarrow> 'w queue \<Rightarrow> (bytes \<times> bytes) list \<Rightarrow> 'w queue \<Rightarrow> bool" where
  "noted rec q os q' \<longleftrightarrow>
     (queue_ok q \<longrightarrow> queue_ok q' \<and> (\<exists>rows. moves rec q rows q' \<and> observations_in rows = os))"

lemma notedI: "(queue_ok q \<Longrightarrow> queue_ok q' \<and> moves rec q rows q') \<Longrightarrow> observations_in rows = os \<Longrightarrow> noted rec q os q'"
  unfolding noted_def by blast

lemma noted_trans:
  assumes "noted rec q os q1" and "noted rec q1 os' q'"
  shows "noted rec q (os @ os') q'"
  unfolding noted_def
proof
  assume "queue_ok q"
  then obtain rows where r: "queue_ok q1" "moves rec q rows q1" "observations_in rows = os" using assms(1) unfolding noted_def by blast
  then obtain rows' where r': "queue_ok q'" "moves rec q1 rows' q'" "observations_in rows' = os'" using assms(2) unfolding noted_def by blast
  show "queue_ok q' \<and> (\<exists>rows. moves rec q rows q' \<and> observations_in rows = os @ os')"
    using moves_trans [OF r(2) r'(2)] r(3) r' by (intro conjI exI [of _ "rows @ rows'"]) simp_all
qed

lemma noted_idle:
  assumes "q_writer q' = q_writer q" "q_todo q' = q_todo q" "queue_ok q \<Longrightarrow> queue_ok q'"
  shows "noted rec q [] q'"
  by (rule notedI [where rows = "[]"]) (use assms moves_refl in auto)

lemma noted_refl [simp, intro]: "noted rec q [] q"
  by (rule noted_idle) simp_all

lemma noted_then_idle:
  "noted rec q os q1 \<Longrightarrow> q_writer q' = q_writer q1 \<Longrightarrow> q_todo q' = q_todo q1 \<Longrightarrow> (queue_ok q1 \<Longrightarrow> queue_ok q') \<Longrightarrow>
    noted rec q os q'"
  using noted_trans [OF _ noted_idle, of rec q os q1 q'] by simp

lemma queue_ok_resolved: "queue_ok q \<Longrightarrow> wf_ranges rs \<Longrightarrow> queue_ok (q\<lparr>q_resolved := rs\<rparr>)"
  by (simp add: queue_ok_def)

lemma queue_ok_flush_sequence: "queue_ok q \<Longrightarrow> queue_ok (flush_sequence ses rec s q)"
  by (simp add: queue_ok_def flush_sequence_todo distinct_delete)

lemma queue_ok_prune: "queue_ok q \<Longrightarrow> queue_ok (prune_cards q)"
  by (simp add: queue_ok_def prune_cards_distinct)

lemma noted_flush_sequence: "noted rec q [] (flush_sequence ses rec s q)"
  by (rule notedI [where rows = "[]"]) (simp_all add: queue_ok_flush_sequence moves_flush_sequence)

lemma noted_flush: "noted rec q [] (flush_audits ses rec q)"
  by (rule notedI [where rows = "[]"]) (use flush_loop_moves in \<open>auto simp: flush_audits_def\<close>)

lemma noted_mark: "noted rec q [] (q\<lparr>q_resolved := mark_resolved s (q_resolved q)\<rparr>)"
  by (rule noted_idle) (auto simp: queue_ok_def mark_resolved_spec)

lemma noted_resolve: "noted rec q [] (resolve_audit ses rec s q)"
proof (cases "s < q_next q")
  case True
  then show ?thesis by (simp add: resolve_audit_def)
next
  case False
  let ?q1 = "q\<lparr>q_resolved := mark_resolved s (q_resolved q)\<rparr>"
  let ?q2 = "if p_pairing ses \<and> action_of s q \<noteq> []
    then (flush_sequence ses rec s ?q1)\<lparr>q_actions := AList.delete s (q_actions q)\<rparr> else ?q1"
  let ?q3 = "prune_cards (?q2\<lparr>q_pending := removeAll s (q_pending ?q2)\<rparr>)"
  have e: "resolve_audit ses rec s q = flush_audits ses rec ?q3"
    using False by (simp add: resolve_audit_def Let_def)
  have f: "noted rec ?q1 [] ((flush_sequence ses rec s ?q1)\<lparr>q_actions := AList.delete s (q_actions q)\<rparr>)"
    by (rule noted_then_idle [OF noted_flush_sequence [of rec ?q1 ses s]]) (simp_all add: queue_ok_def)
  have g2: "noted rec ?q1 [] ?q2"
  proof (cases "p_pairing ses \<and> action_of s q \<noteq> []")
    case True
    show ?thesis unfolding if_P [OF True] by (rule f)
  next
    case False
    show ?thesis unfolding if_not_P [OF False] by (rule noted_refl)
  qed
  have g3: "noted rec ?q2 [] ?q3"
  proof (rule noted_idle)
    show "queue_ok ?q2 \<Longrightarrow> queue_ok ?q3" by (rule queue_ok_prune) (simp add: queue_ok_def)
  qed simp_all
  show ?thesis unfolding e
    using noted_trans [OF noted_trans [OF noted_trans [OF noted_mark g2] g3] noted_flush] by simp
qed

lemma noted_push: "noted rec q (observations_in [ev]) (push_row s ev q)"
  by (rule notedI [where rows = "[ev]"]) (simp_all add: moves_push)

lemma noted_record:
  assumes "uncard ev' = uncard ev"
  shows "noted rec q (observations_in [ev]) (q\<lparr>q_writer := fst (record_audit ses rec ev' (q_writer q))\<rparr>)"
proof (rule notedI [where rows = "[ev]"])
  let ?q = "q\<lparr>q_writer := fst (record_audit ses rec ev' (q_writer q))\<rparr>"
  assume "queue_ok q"
  then have "queue_ok ?q" by (simp add: queue_ok_def)
  moreover have "moves rec q [ev] ?q" unfolding moves_def queued_def
    by (rule exI [of _ "[(ses, ev')]"]) (simp add: assms)
  ultimately show "queue_ok ?q \<and> moves rec q [ev] ?q" ..
qed simp

lemma queue_ok_effects [simp]:
  "queue_ok (forward_decision ses tool decision why q) = queue_ok q"
  "queue_ok (score_decision ses decision q) = queue_ok q"
  by (simp_all add: forward_decision_def score_decision_def queue_ok_def split: option.splits)

text \<open>The rows of decisions are not observations.\<close>

lemma audit_row_type:
  assumes "\<And>ev. record_type (f ev) = record_type ev"
  shows "\<not> is_observation (audit_row ses f aid tool decision why refs actor)"
  by (simp add: is_observation_def audit_row_def Let_def set_refs_def set_action_fields_def assms zero_event_def split: option.split)

lemma apply_observation_type: "record_type (apply_observation gc g ev) = record_type ev"
  by (simp add: apply_observation_def set_observation_fields_def)

lemma gate_row_type: "observations_in [audit_row ses (apply_observation gc g) aid tool decision why refs actor] = []"
  using audit_row_type [of "apply_observation gc g", OF apply_observation_type] by (simp add: observations_in_def)

lemma noted_append:
  "noted rec q [] (append_audit ses (apply_observation gc g) s tool decision why refs actor q)"
proof -
  let ?ev = "audit_row ses (apply_observation gc g) (action_of s q) tool decision why refs actor"
  have n: "noted rec q [] (push_row s ?ev q)" using noted_push [of rec q ?ev s] unfolding gate_row_type .
  show ?thesis unfolding append_audit_def Let_def by (rule noted_then_idle [OF n]) auto
qed

lemma noted_now: "noted rec q [] (audit_now ses rec (apply_observation gc g) tool decision why refs aid q)"
proof -
  let ?q1 = "score_decision ses decision q"
  let ?ev = "audit_row ses (apply_observation gc g) aid tool decision why refs []"
  have a: "noted rec q [] ?q1" by (rule noted_idle) simp_all
  have b: "noted rec ?q1 [] (?q1\<lparr>q_writer := fst (record_audit ses rec (stamp_card (q_current ?q1) ?ev) (q_writer ?q1))\<rparr>)"
    using noted_record [OF uncard_stamp [of "q_current ?q1" ?ev], of rec ?q1 ses] by (simp only: gate_row_type)
  show ?thesis unfolding audit_now_def Let_def
    by (rule noted_then_idle [OF noted_trans [OF a b, unfolded append_Nil]]) (simp_all only: side_effects queue_ok_effects)
qed

lemma noted_method: "noted rec q [] (audit_method ses rec mth decision why q)"
proof -
  let ?ev = "zero_event\<lparr>ev_agent := p_agent ses, ev_tool := mth, ev_decision := decision, ev_reason := why\<rparr>"
  have t: "observations_in [?ev] = []" by (simp add: observations_in_def is_observation_def zero_event_def)
  show ?thesis unfolding audit_method_def
    by (rule noted_then_idle [OF noted_record [OF refl, where ev = ?ev and rec = rec and q = q and ses = ses, unfolded t]])
      (simp_all only: side_effects queue_ok_effects)
qed

lemma noted_drain: "noted rec q [] (drain_audits ses rec q)"
proof -
  have "noted rec q [] (q\<lparr>q_resolved := mark_open (q_pending q) (mark_open (map fst (q_todo q)) (q_resolved q))\<rparr>)"
    by (rule noted_idle) (auto simp: queue_ok_def mark_open_spec)
  from noted_trans [OF this noted_flush] show ?thesis unfolding drain_audits_def by simp
qed

subsection \<open>Relations that a decision respects\<close>

locale gate_preorder =
  fixes gc :: gate_config and w :: "'w world" and R :: "'w gate \<Rightarrow> 'w gate \<Rightarrow> bool"
  assumes refl: "R g g"
    and trans: "R g g1 \<Longrightarrow> R g1 g' \<Longrightarrow> R g g'"
    and row: "R g (gate_append gc s tool decision why refs actor g)"
    and settle: "R g (gate_resolve gc w s g)"
    and method_row: "R g (gate_method gc w mth decision why g)"
    and budget: "R g (g\<lparr>g_limiter := l\<rparr>)"
    and track: "R g (g\<lparr>g_scrub := fold scrub_add vs (g_scrub g)\<rparr>)"
begin

lemma row_then: "R g g1 \<Longrightarrow> R g (gate_append gc s tool decision why refs actor g1)"
  by (rule trans [OF _ row])

lemma settle_then: "R g g1 \<Longrightarrow> R g (gate_resolve gc w s g1)"
  by (rule trans [OF _ settle])

lemma refused: "R g (snd (refuse gc w s tool decision why refs d g))"
  unfolding refuse_def snd_conv by (rule settle_then [OF row])

lemma asked: "R g (snd (approve_ask gc w tool params refs dec s g))"
proof (cases "w_approver w")
  case None
  show ?thesis unfolding approve_ask_def None option.case snd_conv by (rule settle_then [OF row])
next
  case (Some ask)
  let ?v = "ask \<lparr>ap_agent = c_agent gc, ap_tool = tool, ap_params = params, ap_reason = reason_text (w_quote w) (reason dec)\<rparr>"
  have t: "R g (case an_taps ?v of [] \<Rightarrow> g | t # _ \<Rightarrow> gate_append gc s tool ''block'' t refs [] g)"
    using refl row by (cases "an_taps ?v") simp_all
  show ?thesis unfolding approve_ask_def Some option.case Let_def
    by (cases "an_approved ?v") (simp_all add: row_then [OF t] settle_then [OF row_then [OF t]])
qed

lemma budgeted: "R g (snd (take_budget w g))"
proof -
  have "R g (snd (let (r, l') = allow (w_cap w) (w_now w) l in (r, g\<lparr>g_limiter := Some l'\<rparr>)))" for l
    using budget by (simp add: case_prod_unfold Let_def)
  then show ?thesis unfolding take_budget_def using refl by (auto split: option.split)
qed

lemma injected_rows:
  "R g g1 \<Longrightarrow>
    R g (fold (\<lambda>(r, v) g. gate_append gc s tool ''inject'' (txt r) None [] (g\<lparr>g_scrub := fold scrub_add (vals r v) (g_scrub g)\<rparr>)) xs g1)"
proof (induction xs arbitrary: g1)
  case (Cons x xs)
  obtain r v where x: "x = (r, v)" by (cases x)
  show ?case unfolding x using Cons.IH [OF row_then [OF trans [OF Cons.prems track]]] by simp
qed simp

lemma injecting: "R g (snd (inject_call gc w tool params s g))"
proof (cases "apply_inject (w_resolve w) (inject_rules_for (c_engine gc) (c_agent gc) tool) params")
  case (Inl e)
  then show ?thesis unfolding inject_call_def using refl settle_then [OF row] by (cases e) simp_all
next
  case (Inr pr)
  then show ?thesis unfolding inject_call_def
    using injected_rows [OF refl, where vals = "\<lambda>r v. scrub_values [(r, v)]"] by (simp add: case_prod_unfold)
qed

lemma forwarding: "R g (snd (forward_call gc w m tree name refs dec s g))"
proof -
  let ?why = "reason_text (w_quote w) (reason dec)"
  have "R g (if shadow_would_deny dec then gate_append gc s name ''would-deny'' ?why (Some refs) [] g else g)"
    using refl row by simp
  from row_then [OF this] show ?thesis unfolding forward_call_def Let_def
    by (cases "verdict dec = Ask") (simp_all add: settle_then)
qed

lemma cleared: "R g (snd (clear_call gc w m obj name params refs dec s g))"
proof -
  let ?hit = "if validator_enabled (c_validator gc) then check_params (w_match w) (c_validator gc) (json_print params) else []"
  obtain why b g1 where tb: "take_budget w g = ((why, b), g1)" by (metis prod.exhaust)
  have b1: "R g g1" using budgeted [of g] tb by simp
  let ?a = "if verdict dec = Ask then approve_ask gc w name params (Some refs) dec s g1 else (True, g1)"
  obtain ok g2 where a: "?a = (ok, g2)" by (cases ?a)
  have "R g1 g2" using asked [of g1 name params "Some refs" dec s] refl a by (cases "verdict dec = Ask") auto
  note b2 = trans [OF b1 this]
  obtain r g3 where i: "inject_call gc w name params s g2 = (r, g3)" by fastforce
  have b3: "R g g3" using trans [OF b2 injecting [of g2 name params s]] i by simp
  show ?thesis
  proof (cases "?hit = []")
    case False
    show ?thesis unfolding clear_call_def Let_def if_P [OF False] by (rule refused)
  next
    case True
    show ?thesis
    proof (cases b)
      case False
      then show ?thesis unfolding clear_call_def Let_def True tb using trans [OF b1 refused] by simp
    next
      case b: True
      show ?thesis
      proof (cases r)
        case (Inl msg)
        then show ?thesis unfolding clear_call_def Let_def True tb using b b2 b3
          by (cases ok) (simp_all only: a i prod.case bool.case sum.case simp_thms if_True if_False snd_conv)
      next
        case (Inr params')
        then show ?thesis unfolding clear_call_def Let_def True tb using b b2 trans [OF b3 forwarding]
          by (cases ok) (simp_all only: a i prod.case bool.case sum.case simp_thms if_True if_False snd_conv)
      qed
    qed
  qed
qed

lemma name_decided: "R g (snd (decide_named gc w m obj name params s g))"
proof -
  obtain ob cz where ob: "pin_observation (c_engine gc) (c_agent gc) (c_upstream gc) name (catalog_observe (g_catalog g) name) = (ob, cz)"
    by fastforce
  show ?thesis unfolding decide_named_def Let_def ob prod.case using refused cleared
    by (cases "verdict (evaluate (c_engine gc) (c_agent gc) name) = Deny"; cases "cz = []") simp_all
qed

lemma nameless: "R g (snd (decide_unnamed gc w m tree s g))"
proof -
  let ?dec = "fail_mode_verdict (c_engine gc) (c_agent gc) ''unextractable-name''"
  let ?a = "if \<not> p_pairing (c_session gc) \<and> verdict ?dec = Ask then approve_ask gc w [] tree None ?dec s g else (False, g)"
  obtain ok g1 where a: "?a = (ok, g1)" by (cases ?a)
  have b: "R g g1"
  proof (cases "\<not> p_pairing (c_session gc) \<and> verdict ?dec = Ask")
    case True
    then show ?thesis using asked [of g "[]" tree None ?dec s] a by simp
  next
    case False
    show ?thesis using a unfolding if_not_P [OF False] by (simp add: refl)
  qed
  show ?thesis unfolding decide_unnamed_def Let_def a prod.case using settle_then [OF b] trans [OF b refused]
    by (cases ok) simp_all
qed

lemma too_long: "reject_oversized gc w kind name i g = Some (d, g') \<Longrightarrow> R g g'"
  using method_row by (auto simp: reject_oversized_def Let_def split: if_splits)

lemma decided: "R g (snd (decide gc w line s g))"
proof (cases rule: decide_cases [of line gc w s g])
  case (undecoded f)
  then show ?thesis by (simp add: refl)
next
  case (oversized obj tree m kind name)
  then have "reject_oversized gc w kind name (m_id m) g = Some (fst (decide gc w line s g), snd (decide gc w line s g))" by simp
  then show ?thesis by (rule too_long)
next
  case (plain obj tree m)
  show ?thesis unfolding plain(4) decide_method_def Let_def using refl method_row by simp
next
  case (unnamed obj tree m)
  show ?thesis unfolding unnamed(3) by (rule nameless)
next
  case (named obj tree m name params)
  show ?thesis unfolding named(6) by (rule name_decided)
qed

end

interpretation unnoted: gate_preorder gc w "\<lambda>g g'. noted (w_record w) (g_queue g) [] (g_queue g')" for gc w
proof
  show "noted (w_record w) (g_queue g) [] (g_queue g1) \<Longrightarrow> noted (w_record w) (g_queue g1) [] (g_queue g') \<Longrightarrow>
      noted (w_record w) (g_queue g) [] (g_queue g')" for g g1 g' :: "'a gate"
    using noted_trans by fastforce
qed (simp_all add: gate_append_queue gate_resolve_def gate_method_def noted_append noted_resolve noted_method)

interpretation same_catalog: gate_preorder gc w "\<lambda>g g'. g_catalog g' = g_catalog g" for gc w
  by unfold_locales (simp_all)

end
