(* ===== verification/Outcomes.thy ===== *)
theory Outcomes
  imports Ledger
begin

text \<open>
  The outcome of each action over a whole session: however the lines of the agent and of the upstream
  interleave, the observations recorded for an action never contradict each other. The proof keeps the
  books of all actions: what was recorded for each, which card stands for it, and which names were
  issued; a card that is being worked on is \<open>in hand\<close>.
\<close>

subsection \<open>The books\<close>

definition history :: "(bytes \<times> bytes) list \<Rightarrow> bytes \<Rightarrow> bytes list" where
  "history os aid = map snd (filter (\<lambda>x. fst x = aid) os)"

lemma history_simps [simp]:
  "history [] aid = []" "history (xs @ ys) aid = history xs aid @ history ys aid"
  "history ((a, b) # xs) aid = (if a = aid then b # history xs aid else history xs aid)"
  by (simp_all add: history_def)

text \<open>What may be recorded for one action, in order.\<close>

definition sound_outcome :: "bytes list \<Rightarrow> bool" where
  "sound_outcome h \<longleftrightarrow>
     h \<in> {[], [''not_forwarded''], [''outcome_unknown''], [''response_observed''],
       [''outcome_unknown'', ''late_response_observed'']}"

text \<open>What the card of an action says was recorded for it.\<close>

definition card_history :: "pending_card \<Rightarrow> bytes list" where
  "card_history pc =
     (if pc_observation pc = [] then [] else [pc_observation pc])
       @ (if pc_late pc then [''late_response_observed''] else [])"

definition issued :: "session \<Rightarrow> u64 \<Rightarrow> bytes \<Rightarrow> bool" where
  "issued ses n aid \<longleftrightarrow> (\<exists>k. 0 < k \<and> k \<le> unat n \<and> aid = p_run_id ses @ ''.'' @ show_nat k)"

definition card_ok :: "session \<Rightarrow> (bytes \<times> bytes) list \<Rightarrow> u64 \<Rightarrow> pending_card \<Rightarrow> bool" where
  "card_ok ses os n pc \<longleftrightarrow>
     pc_action pc = []
     \<or> history os (pc_action pc) = card_history pc \<and> (pc_late pc \<longrightarrow> pc_observation pc = ''outcome_unknown'')
       \<and> issued ses n (pc_action pc)"

definition accounted ::
  "session \<Rightarrow> (bytes \<times> bytes) list \<Rightarrow> u64 \<Rightarrow> (json \<rightharpoonup> pending) \<Rightarrow> pending_card option \<Rightarrow> bool" where
  "accounted ses os n m hand \<longleftrightarrow>
     (\<forall>aid. sound_outcome (history os aid) \<and> (history os aid \<noteq> [] \<longrightarrow> issued ses n aid))
     \<and> (\<forall>k pc. m k = Some (Waiting pc) \<longrightarrow> pc_request pc = Some k \<and> card_ok ses os n pc)
     \<and> (\<forall>k k' pc pc'. m k = Some (Waiting pc) \<longrightarrow> m k' = Some (Waiting pc') \<longrightarrow> pc_action pc = pc_action pc' \<longrightarrow>
          pc_action pc \<noteq> [] \<longrightarrow> k = k')
     \<and> (\<forall>pc. hand = Some pc \<longrightarrow> card_ok ses os n pc
          \<and> (\<forall>k pc'. m k = Some (Waiting pc') \<longrightarrow> pc_action pc \<noteq> [] \<longrightarrow> pc_action pc' \<noteq> pc_action pc))"

lemma accountedD:
  assumes "accounted ses os n m hand"
  shows "sound_outcome (history os aid)" "history os aid \<noteq> [] \<Longrightarrow> issued ses n aid"
    "m k = Some (Waiting pc) \<Longrightarrow> pc_request pc = Some k" "m k = Some (Waiting pc) \<Longrightarrow> card_ok ses os n pc"
    "m k = Some (Waiting pc) \<Longrightarrow> m k' = Some (Waiting pc') \<Longrightarrow> pc_action pc = pc_action pc' \<Longrightarrow> pc_action pc \<noteq> [] \<Longrightarrow> k = k'"
    "hand = Some pc \<Longrightarrow> card_ok ses os n pc"
    "hand = Some pc \<Longrightarrow> m k = Some (Waiting pc') \<Longrightarrow> pc_action pc \<noteq> [] \<Longrightarrow> pc_action pc' \<noteq> pc_action pc"
  using assms unfolding accounted_def by blast+

lemma accountedI:
  assumes "\<And>aid. sound_outcome (history os aid)" "\<And>aid. history os aid \<noteq> [] \<Longrightarrow> issued ses n aid"
    and "\<And>k pc. m k = Some (Waiting pc) \<Longrightarrow> pc_request pc = Some k" "\<And>k pc. m k = Some (Waiting pc) \<Longrightarrow> card_ok ses os n pc"
    and "\<And>k k' pc pc'. m k = Some (Waiting pc) \<Longrightarrow> m k' = Some (Waiting pc') \<Longrightarrow> pc_action pc = pc_action pc' \<Longrightarrow>
      pc_action pc \<noteq> [] \<Longrightarrow> k = k'"
    and "\<And>pc. hand = Some pc \<Longrightarrow> card_ok ses os n pc"
    and "\<And>pc k pc'. hand = Some pc \<Longrightarrow> m k = Some (Waiting pc') \<Longrightarrow> pc_action pc \<noteq> [] \<Longrightarrow> pc_action pc' \<noteq> pc_action pc"
  shows "accounted ses os n m hand"
  unfolding accounted_def
  by (intro conjI allI impI) (rule assms; assumption)+

lemma issued_mono:
  assumes "issued ses n aid" and "unat n \<le> unat n'"
  shows "issued ses n' aid"
proof -
  obtain k where k: "0 < k" "k \<le> unat n" "aid = p_run_id ses @ ''.'' @ show_nat k" using assms(1) unfolding issued_def by blast
  from k(2) assms(2) have "k \<le> unat n'" by (rule order.trans)
  with k(1,3) show ?thesis unfolding issued_def by blast
qed

lemma card_ok_mono: "card_ok ses os n pc \<Longrightarrow> unat n \<le> unat n' \<Longrightarrow> card_ok ses os n' pc"
  unfolding card_ok_def using issued_mono by blast

lemma accounted_new:
  assumes a: "accounted ses os n m None" and f: "new_action_id ses n = Some (aid, n')"
    and c: "pc_action pc = aid" "card_history pc = []" "\<not> pc_late pc"
  shows "accounted ses os n' m (Some pc)"
proof -
  have n: "n \<noteq> - 1" "n' = n + 1" "aid = p_run_id ses @ ''.'' @ show_nat (unat n')"
    using f unfolding new_action_id_def by (auto split: if_splits)
  have "n + 1 \<noteq> 0" using n(1) by (metis add_diff_cancel_right' diff_0)
  then have u: "unat n' = unat n + 1" unfolding n(2) using unatSuc [of n] by (simp add: add.commute)
  then have le: "unat n \<le> unat n'" by simp
  have fresh: "\<not> issued ses n aid" unfolding issued_def n(3) u by auto
  have h: "history os aid = []" using accountedD(2) [OF a] fresh by blast
  have new: "issued ses n' aid" unfolding issued_def by (rule exI [of _ "unat n'"]) (simp add: u n(3))
  show ?thesis
  proof (rule accountedI)
    show "card_ok ses os n' x" if "Some pc = Some x" for x
    proof -
      have x: "x = pc" using that by simp
      show ?thesis unfolding x card_ok_def c(1) c(2) h using new c(3) by simp
    qed
    show "pc_action y \<noteq> pc_action x" if "Some pc = Some x" "m k = Some (Waiting y)" "pc_action x \<noteq> []" for x k y
    proof -
      have x: "x = pc" using that(1) by simp
      show ?thesis using accountedD(4) [OF a that(2)] fresh that(3) unfolding card_ok_def x c by metis
    qed
    show "issued ses n' aid'" if "history os aid' \<noteq> []" for aid' by (rule issued_mono [OF accountedD(2) [OF a that] le])
    show "card_ok ses os n' x" if "m k = Some (Waiting x)" for k x by (rule card_ok_mono [OF accountedD(4) [OF a that] le])
  qed (fact accountedD [OF a])+
qed

lemma accounted_subset:
  assumes a: "accounted ses os n m hand" and s: "\<And>k v. m' k = Some v \<Longrightarrow> m k = Some v" and h: "hand' = hand \<or> hand' = None"
  shows "accounted ses os n m' hand'"
proof (rule accountedI)
  have h': "hand = Some pc" if "hand' = Some pc" for pc using h that by auto
  show "card_ok ses os n pc" if "hand' = Some pc" for pc by (rule accountedD(6) [OF a h' [OF that]])
  show "pc_action pc' \<noteq> pc_action pc" if "hand' = Some pc" "m' k = Some (Waiting pc')" "pc_action pc \<noteq> []" for pc k pc'
    by (rule accountedD(7) [OF a h' [OF that(1)] s [OF that(2)] that(3)])
  show "k = k'" if "m' k = Some (Waiting pc)" "m' k' = Some (Waiting pc')" "pc_action pc = pc_action pc'" "pc_action pc \<noteq> []"
    for k k' pc pc' by (rule accountedD(5) [OF a s [OF that(1)] s [OF that(2)] that(3,4)])
qed (use s in \<open>auto intro: accountedD [OF a]\<close>)

lemma accounted_forget: "accounted ses os n m hand \<Longrightarrow> accounted ses os n m None"
  by (rule accounted_subset) auto

lemma accounted_drop: "accounted ses os n m hand \<Longrightarrow> accounted ses os n (m(k := None)) hand"
  by (erule accounted_subset [where hand' = hand]) (simp_all split: if_splits)

lemma accounted_take:
  assumes a: "accounted ses os n m None" and k: "m k = Some (Waiting pc)"
  shows "accounted ses os n (m(k := None)) (Some pc)"
proof (rule accountedI)
  show "card_ok ses os n x" if "Some pc = Some x" for x using accountedD(4) [OF a k] that by simp
  show "pc_action y \<noteq> pc_action x" if "Some pc = Some x" "(m(k := None)) j = Some (Waiting y)" "pc_action x \<noteq> []" for x j y
    using accountedD(5) [OF a k, of j y] that by (auto split: if_splits)
qed (fact accountedD [OF accounted_drop [OF a, of k]])+

lemma accounted_put:
  assumes a: "accounted ses os n m hand"
    and v: "\<And>pc. v = Waiting pc \<Longrightarrow> pc_request pc = Some k \<and> card_ok ses os n pc"
    and o: "\<And>pc j y. v = Waiting pc \<Longrightarrow> pc_action pc \<noteq> [] \<Longrightarrow> m j = Some (Waiting y) \<Longrightarrow> pc_action y \<noteq> pc_action pc"
  shows "accounted ses os n (m(k \<mapsto> v)) None"
proof (rule accountedI)
  note d = accountedD [OF a]
  show "sound_outcome (history os aid)" for aid by (rule d(1))
  show "issued ses n aid" if "history os aid \<noteq> []" for aid by (rule d(2) [OF that])
  have at: "v = Waiting x" if "(m(k \<mapsto> v)) k = Some (Waiting x)" for x using that by simp
  have off: "m j = Some (Waiting x)" if "(m(k \<mapsto> v)) j = Some (Waiting x)" "j \<noteq> k" for j x using that by simp
  show "pc_request x = Some j" if "(m(k \<mapsto> v)) j = Some (Waiting x)" for j x
    using that v [OF at] d(3) [OF off] by (cases "j = k") blast+
  show "card_ok ses os n x" if "(m(k \<mapsto> v)) j = Some (Waiting x)" for j x
    using that v [OF at] d(4) [OF off] by (cases "j = k") blast+
  show "i = j" if x: "(m(k \<mapsto> v)) i = Some (Waiting x)" and y: "(m(k \<mapsto> v)) j = Some (Waiting y)"
      and e: "pc_action x = pc_action y" "pc_action x \<noteq> []" for i j x y
  proof (rule ccontr)
    assume ne: "i \<noteq> j"
    consider "i = k" "j \<noteq> k" | "i \<noteq> k" "j = k" | "i \<noteq> k" "j \<noteq> k" using ne by blast
    then show False
    proof cases
      case 1
      have "pc_action y \<noteq> pc_action x" by (rule o [OF at e(2) off [OF y 1(2)]]) (use x 1(1) in simp)
      then show False using e(1) by simp
    next
      case 2
      have "pc_action x \<noteq> pc_action y" by (rule o [OF at _ off [OF x 2(1)]]) (use y 2(2) e in simp_all)
      then show False using e(1) by simp
    next
      case 3
      show False using d(5) [OF off [OF x 3(1)] off [OF y 3(2)] e] ne by simp
    qed
  qed
qed simp_all

lemma accounted_store:
  assumes a: "accounted ses os n m (Some pc)" and k: "pc_request pc = Some k"
  shows "accounted ses os n (m(k \<mapsto> Waiting pc)) None"
  by (rule accounted_put [OF a]) (use k accountedD(6,7) [OF a] in auto)

lemma accounted_store_plain:
  assumes a: "accounted ses os n m hand" and v: "\<And>pc. v = Waiting pc \<Longrightarrow> pc_request pc = Some k \<and> pc_action pc = []"
  shows "accounted ses os n (m(k \<mapsto> v)) hand"
proof -
  have n: "accounted ses os n (m(k \<mapsto> v)) None" by (rule accounted_put [OF a]) (use v in \<open>auto simp: card_ok_def\<close>)
  show ?thesis
  proof (rule accountedI)
    show "card_ok ses os n x" if "hand = Some x" for x by (rule accountedD(6) [OF a that])
    show "pc_action y \<noteq> pc_action x" if h: "hand = Some x" "(m(k \<mapsto> v)) j = Some (Waiting y)" "pc_action x \<noteq> []" for x j y
    proof (cases "j = k")
      case True
      then have "pc_action y = []" using h(2) v by simp
      then show ?thesis using h(3) by simp
    next
      case False
      then show ?thesis using accountedD(7) [OF a h(1) _ h(3)] h(2) by simp
    qed
  qed (fact accountedD [OF n])+
qed

text \<open>One observation of the card in hand.\<close>

lemma next_observation_history:
  assumes "next_observation pc obs why = Some (o', why', pc1)" and "pc_late pc \<longrightarrow> pc_observation pc = ''outcome_unknown''"
    and "obs \<in> {''not_forwarded'', ''outcome_unknown'', ''response_observed''}"
  shows "card_history pc1 = card_history pc @ [o']" "sound_outcome (card_history pc1)"
    "pc_late pc1 \<longrightarrow> pc_observation pc1 = ''outcome_unknown''" "pc_action pc1 = pc_action pc" "pc_request pc1 = pc_request pc"
  using assms by (auto simp: next_observation_def card_history_def sound_outcome_def split: if_splits)

lemma accounted_observe:
  assumes a: "accounted ses os n m (Some pc)" and o: "next_observation pc obs why = Some (o', why', pc1)"
    and k: "obs \<in> {''not_forwarded'', ''outcome_unknown'', ''response_observed''}" and act: "pc_action pc \<noteq> []"
    and c: "pc_action pc2 = pc_action pc1" "card_history pc2 = card_history pc1" "pc_late pc2 = pc_late pc1"
      "pc_observation pc2 = pc_observation pc1"
  shows "accounted ses (os @ [(pc_action pc, o')]) n m (Some pc2)"
proof -
  note d = accountedD [OF a]
  have p: "history os (pc_action pc) = card_history pc" "pc_late pc \<longrightarrow> pc_observation pc = ''outcome_unknown''" "issued ses n (pc_action pc)"
    using d(6) [OF refl] act unfolding card_ok_def by blast+
  note nx = next_observation_history [OF o p(2) k]
  let ?os = "os @ [(pc_action pc, o')]"
  have h: "history ?os aid = (if aid = pc_action pc then card_history pc1 else history os aid)" for aid
    using p(1) nx(1) by auto
  have o: "pc_action x \<noteq> pc_action pc" if "m j = Some (Waiting x)" for j x by (rule d(7) [OF refl that act])
  show ?thesis
  proof (rule accountedI)
    show "sound_outcome (history ?os aid)" for aid unfolding h using d(1) nx(2) by simp
    show "issued ses n aid" if "history ?os aid \<noteq> []" for aid using that d(2) p(3) unfolding h by (simp split: if_splits)
    show "card_ok ses ?os n x" if "m j = Some (Waiting x)" for j x
      using d(4) [OF that] o [OF that] unfolding card_ok_def h by (simp only: if_False)
    show "card_ok ses ?os n x" if "Some pc2 = Some x" for x
      using that nx p(3) c unfolding card_ok_def h by auto
    show "pc_action y \<noteq> pc_action x" if "Some pc2 = Some x" "m k = Some (Waiting y)" "pc_action x \<noteq> []" for x k y
      using that o [OF that(2)] c(1) nx(4) by simp
  qed (fact d)+
qed

subsection \<open>Nothing forgotten\<close>

text \<open>Every name that was issued has an outcome, or a card that stands for it.\<close>

definition covered ::
  "session \<Rightarrow> (bytes \<times> bytes) list \<Rightarrow> u64 \<Rightarrow> (json \<rightharpoonup> pending) \<Rightarrow> pending_card option \<Rightarrow> bool" where
  "covered ses os n m hand \<longleftrightarrow>
     (\<forall>aid. issued ses n aid \<longrightarrow>
        history os aid \<noteq> [] \<or> (\<exists>k pc. m k = Some (Waiting pc) \<and> pc_action pc = aid) \<or> (\<exists>pc. hand = Some pc \<and> pc_action pc = aid))"

lemma issued_nonempty: "issued ses n aid \<Longrightarrow> aid \<noteq> []"
  unfolding issued_def by auto

lemma covered_change:
  assumes c: "covered ses os n m hand" and h: "\<And>aid. history os aid \<noteq> [] \<Longrightarrow> history os' aid \<noteq> []"
    and m: "\<And>k pc. m k = Some (Waiting pc) \<Longrightarrow> pc_action pc \<noteq> [] \<Longrightarrow> history os' (pc_action pc) \<noteq> []
      \<or> (\<exists>k' pc'. m' k' = Some (Waiting pc') \<and> pc_action pc' = pc_action pc)
      \<or> (\<exists>pc'. hand' = Some pc' \<and> pc_action pc' = pc_action pc)"
    and d: "\<And>pc. hand = Some pc \<Longrightarrow> pc_action pc \<noteq> [] \<Longrightarrow> history os' (pc_action pc) \<noteq> []
      \<or> (\<exists>k' pc'. m' k' = Some (Waiting pc') \<and> pc_action pc' = pc_action pc)
      \<or> (\<exists>pc'. hand' = Some pc' \<and> pc_action pc' = pc_action pc)"
  shows "covered ses os' n m' hand'"
  unfolding covered_def
proof (intro allI impI)
  fix aid assume i: "issued ses n aid"
  consider "history os aid \<noteq> []" | k pc where "m k = Some (Waiting pc)" "pc_action pc = aid" | pc where "hand = Some pc" "pc_action pc = aid"
    using c i unfolding covered_def by blast
  then show "history os' aid \<noteq> [] \<or> (\<exists>k pc. m' k = Some (Waiting pc) \<and> pc_action pc = aid) \<or> (\<exists>pc. hand' = Some pc \<and> pc_action pc = aid)"
  proof cases
    case 1
    then show ?thesis using h by blast
  next
    case 2
    then show ?thesis using m [OF 2(1)] issued_nonempty [OF i] by simp
  next
    case 3
    then show ?thesis using d [OF 3(1)] issued_nonempty [OF i] by simp
  qed
qed

lemma covered_hand:
  assumes "covered ses os n m (Some pc)" and "pc_action pc' = pc_action pc"
  shows "covered ses (os @ x) n m (Some pc')"
  by (rule covered_change [OF assms(1)]) (use assms(2) in auto)

lemma covered_any: "covered ses os n m None \<Longrightarrow> covered ses os n m hand"
  unfolding covered_def by blast

lemma covered_new:
  assumes c: "covered ses os n m None" and f: "new_action_id ses n = Some (aid, n')" and a: "pc_action pc = aid"
  shows "covered ses os n' m (Some pc)"
  unfolding covered_def
proof (intro allI impI)
  have n: "n' = n + 1" "n + 1 \<noteq> 0" "aid = p_run_id ses @ ''.'' @ show_nat (unat n')"
    using f unfolding new_action_id_def by (auto split: if_splits) (metis add_diff_cancel_right' diff_0)
  then have u: "unat n' = unat n + 1" using unatSuc [of n] by (simp add: add.commute)
  fix x assume "issued ses n' x"
  then obtain k where k: "0 < k" "k \<le> unat n + 1" "x = p_run_id ses @ ''.'' @ show_nat k" unfolding issued_def u by blast
  show "history os x \<noteq> [] \<or> (\<exists>k pc. m k = Some (Waiting pc) \<and> pc_action pc = x) \<or> (\<exists>pc'. Some pc = Some pc' \<and> pc_action pc' = x)"
  proof (cases "k = unat n'")
    case True
    then have "x = aid" using k(3) n(3) by simp
    then show ?thesis using a by simp
  next
    case False
    then have "k \<le> unat n" using k(2) u by simp
    then have "issued ses n x" using k(1,3) unfolding issued_def by blast
    then show ?thesis using c unfolding covered_def by blast
  qed
qed

subsection \<open>Observations of a card\<close>

definition outcome_kinds :: "bytes set" where
  "outcome_kinds = {''not_forwarded'', ''outcome_unknown'', ''response_observed''}"

definition entry_of :: "pending_card \<Rightarrow> bytes \<Rightarrow> (bytes \<times> bytes) list" where
  "entry_of pc obs =
     (if pc_action pc = [] then []
      else case next_observation pc obs [] of None \<Rightarrow> [] | Some (obs', _, _) \<Rightarrow> [(pc_action pc, obs')])"

lemma next_observation_cause:
  "next_observation pc obs why = None \<longleftrightarrow> next_observation pc obs [] = None"
  "next_observation pc obs why = Some (obs', why', pc1) \<Longrightarrow> \<exists>y. next_observation pc obs [] = Some (obs', y, pc1)"
  by (auto simp: next_observation_def split: if_splits)

text \<open>Two cards that the books do not tell apart.\<close>

definition same_card :: "pending_card \<Rightarrow> pending_card \<Rightarrow> bool" where
  "same_card a b \<longleftrightarrow> pc_action a = pc_action b \<and> pc_observation a = pc_observation b \<and> pc_late a = pc_late b"

lemma same_cardD: "same_card a b \<Longrightarrow> pc_action a = pc_action b"
    "same_card a b \<Longrightarrow> card_history a = card_history b" "same_card a b \<Longrightarrow> card_ok ses os n a = card_ok ses os n b"
  by (simp_all add: same_card_def card_history_def card_ok_def)

lemma same_card_refl [simp]: "same_card pc pc" "same_card (pc\<lparr>pc_suppress := b\<rparr>) pc" "same_card (pc\<lparr>pc_answered := c\<rparr>) pc"
    "same_card (pc\<lparr>pc_observed := x\<rparr>) pc"
  by (simp_all add: same_card_def)

lemma accounted_same:
  assumes a: "accounted ses os n m (Some pc)" and s: "same_card pc' pc"
  shows "accounted ses os n m (Some pc')"
proof (rule accountedI)
  show "card_ok ses os n x" if "Some pc' = Some x" for x
    using that accountedD(6) [OF a refl] same_cardD(3) [OF s] by simp
  show "pc_action y \<noteq> pc_action x" if "Some pc' = Some x" "m k = Some (Waiting y)" "pc_action x \<noteq> []" for x k y
    using that accountedD(7) [OF a refl that(2)] same_cardD(1) [OF s] by simp
qed (fact accountedD [OF a])+

lemma accounted_observed:
  assumes a: "accounted ses os n m (Some pc)" and k: "obs \<in> outcome_kinds"
  shows "accounted ses (os @ entry_of pc obs) n m (Some (observed_card gc w obs why class mcp pc p))"
proof (cases "pc_action pc = []")
  case True
  then show ?thesis using a by (simp add: entry_of_def observed_card_def observe_action_def)
next
  case act: False
  show ?thesis
  proof (cases "next_observation pc obs why")
    case None
    then show ?thesis using a act next_observation_cause(1) [of pc obs why]
      by (simp add: entry_of_def observed_card_def observe_action_def)
  next
    case (Some r)
    obtain obs' why' pc1 where r: "r = (obs', why', pc1)" by (cases r)
    note nx = Some [unfolded r]
    obtain y where y: "next_observation pc obs [] = Some (obs', y, pc1)" using next_observation_cause(2) [OF nx] by blast
    have c: "observed_card gc w obs why class mcp pc p = settle_observed gc (x_gate p) pc1"
      using act nx by (simp add: observed_card_def observe_action_def Let_def case_prod_unfold)
    have "accounted ses (os @ [(pc_action pc, obs')]) n m (Some (settle_observed gc (x_gate p) pc1))"
      by (rule accounted_observe [OF a nx _ act]) (use k in \<open>simp_all add: outcome_kinds_def card_history_def\<close>)
    then show ?thesis unfolding c using act y by (simp add: entry_of_def)
  qed
qed

lemma observation_row_key:
  "observations_in [observation_row gc pc obs why class mcp] = [(pc_action pc, obs)]"
  by (simp add: observations_in_def is_observation_def observation_row_def set_observation_fields_def)

lemma noted_append_observation:
  "noted (w_record w) (x_queue p) (observations_in [ev]) (x_queue (snd (append_observation gc w s ev p)))"
proof (cases "s < q_next (x_queue p) \<or> seq_resolved s (q_resolved (x_queue p))")
  case True
  have "noted (w_record w) (x_queue p) (observations_in [ev])
      ((x_queue p)\<lparr>q_writer := fst (record_audit (c_session gc) (w_record w) ev (q_writer (x_queue p)))\<rparr>)"
    by (rule noted_record) simp
  then show ?thesis unfolding append_observation_def Let_def if_P [OF True]
    by (auto simp: case_prod_unfold queue_ok_def elim: noted_then_idle)
next
  case False
  show ?thesis unfolding append_observation_def Let_def if_not_P [OF False] snd_conv on_queue_frame
    using noted_trans [OF noted_push noted_resolve] by fastforce
qed

lemma noted_observed:
  "noted (w_record w) (x_queue p) (entry_of pc obs) (x_queue (observed_state gc w obs why class mcp pc p))"
proof (cases "pc_action pc = []")
  case True
  then show ?thesis by (simp add: entry_of_def observed_state_def observe_action_def)
next
  case act: False
  show ?thesis
  proof (cases "next_observation pc obs why")
    case None
    then show ?thesis using act next_observation_cause(1) [of pc obs why]
      by (simp add: entry_of_def observed_state_def observe_action_def)
  next
    case (Some r)
    obtain obs' why' pc1 where r: "r = (obs', why', pc1)" by (cases r)
    note nx = Some [unfolded r]
    obtain y where y: "next_observation pc obs [] = Some (obs', y, pc1)" using next_observation_cause(2) [OF nx] by blast
    let ?c = "settle_observed gc (x_gate p) pc1"
    let ?p = "snd (append_observation gc w (pc_seq ?c) (observation_row gc ?c obs' why' class mcp) p)"
    have q: "x_queue (observed_state gc w obs why class mcp pc p) = x_queue ?p"
      using act nx by (simp add: observed_state_def observe_action_def Let_def case_prod_unfold x_queue_def)
    have "noted (w_record w) (x_queue p) [(pc_action ?c, obs')] (x_queue ?p)"
      using noted_append_observation [of w p "observation_row gc ?c obs' why' class mcp"] unfolding observation_row_key .
    then show ?thesis unfolding q using act y next_observation_simps(1) [OF nx] by (simp add: entry_of_def)
  qed
qed

subsection \<open>Identifiers in flight\<close>

lemma same_id_iff: "same_id a b \<longleftrightarrow> Json.norm a = Json.norm b"
  by (simp add: same_id_def ids_equal_def)

definition apart_ids :: "(json \<rightharpoonup> 'v) \<Rightarrow> pending_card option \<Rightarrow> bool" where
  "apart_ids m hand \<longleftrightarrow>
     (\<forall>k\<in>dom m. \<forall>k'\<in>dom m. same_id k k' \<longrightarrow> k = k')
     \<and> (\<forall>pc k. hand = Some pc \<longrightarrow> pc_request pc = Some k \<longrightarrow> (\<forall>k'\<in>dom m. \<not> same_id k k'))"

lemma apart_ids_subset:
  assumes "apart_ids m hand" and "dom m' \<subseteq> dom m" and "hand' = hand \<or> hand' = None"
  shows "apart_ids m' hand'"
  unfolding apart_ids_def
proof (intro conjI ballI allI impI)
  from assms(1) have a: "\<forall>k\<in>dom m. \<forall>k'\<in>dom m. same_id k k' \<longrightarrow> k = k'" unfolding apart_ids_def by (rule conjunct1)
  show "k = k'" if "k \<in> dom m'" "k' \<in> dom m'" "same_id k k'" for k k'
    by (rule mp [OF bspec [OF bspec [OF a subsetD [OF assms(2) that(1)]] subsetD [OF assms(2) that(2)]] that(3)])
  fix pc k k' assume h: "hand' = Some pc" "pc_request pc = Some k" "k' \<in> dom m'"
  have "hand = Some pc" using h(1) assms(3) by auto
  moreover have "k' \<in> dom m" by (rule subsetD [OF assms(2) h(3)])
  ultimately show "\<not> same_id k k'" using assms(1) h(2) unfolding apart_ids_def by blast
qed

lemma apart_ids_put:
  assumes "apart_ids m hand" and "\<And>k'. k' \<in> dom m \<Longrightarrow> same_id k k' \<Longrightarrow> k = k'"
  shows "apart_ids (m(k \<mapsto> v)) None"
proof -
  from assms(1) have h: "\<forall>a\<in>dom m. \<forall>b\<in>dom m. same_id a b \<longrightarrow> a = b" unfolding apart_ids_def by (rule conjunct1)
  have e: "a = b" if "a \<in> dom m" "b \<in> dom m" "same_id a b" for a b
    by (rule mp [OF bspec [OF bspec [OF h that(1)] that(2)] that(3)])
  have put: "a = b" if d: "a \<in> dom (m(k \<mapsto> v))" "b \<in> dom (m(k \<mapsto> v))" and id: "same_id a b" for a b
  proof -
    have r: "same_id b a" using id unfolding same_id_iff by (rule sym)
    have ab: "x = k \<or> x \<in> dom m" if "x \<in> dom (m(k \<mapsto> v))" for x using that by (simp add: domIff)
    from ab [OF d(1)] ab [OF d(2)]
    consider "a = k" "b = k" | "a = k" "b \<in> dom m" | "b = k" "a \<in> dom m" | "a \<in> dom m" "b \<in> dom m" by (elim disjE) simp_all
    then show ?thesis
    proof cases
      case 2
      show ?thesis unfolding 2(1) by (rule assms(2) [OF 2(2) id [unfolded 2(1)]])
    next
      case 3
      show ?thesis unfolding 3(1) by (rule sym [OF assms(2) [OF 3(2) r [unfolded 3(1)]]])
    next
      case 4
      then show ?thesis by (rule e [OF _ _ id])
    qed simp
  qed
  show ?thesis unfolding apart_ids_def
  proof (intro conjI ballI allI impI)
    fix a b assume "a \<in> dom (m(k \<mapsto> v))" "b \<in> dom (m(k \<mapsto> v))" "same_id a b"
    then show "a = b" by (rule put)
  qed simp
qed

lemma apart_ids_take:
  assumes "apart_ids m None" and "k \<in> dom m" and "pc_request pc = Some k"
  shows "apart_ids (m(k := None)) (Some pc)"
proof -
  from assms(1) have a: "\<forall>a\<in>dom m. \<forall>b\<in>dom m. same_id a b \<longrightarrow> a = b" unfolding apart_ids_def by (rule conjunct1)
  then have "\<not> same_id k k'" if "k' \<in> dom m" "k' \<noteq> k" for k' using assms(2) that by blast
  then show ?thesis using a assms(3) unfolding apart_ids_def by simp
qed

text \<open>A request whose identifier is not in use.\<close>

definition free_id :: "json \<Rightarrow> 'w proxy \<Rightarrow> bool" where
  "free_id i p \<longleftrightarrow> (\<forall>k\<in>dom (map_of (x_pending p)). \<not> same_id k i)"

lemma free_idI: "\<not> request_in_use i p \<Longrightarrow> free_id i p"
  by (force simp: free_id_def request_in_use_def pending_in_use_def list_ex_iff dest: map_of_SomeD)

subsection \<open>Steps that keep the books\<close>

text \<open>A session that pairs actions and whose writer never fails it.\<close>

definition unfailing :: "gate_config \<Rightarrow> 'w world \<Rightarrow> bool" where
  "unfailing gc w \<longleftrightarrow> p_pairing (c_session gc) \<and> (p_required (c_session gc) \<longrightarrow> (\<forall>x. \<not> w_required w x))"

lemma unfailing_not_failing: "unfailing gc w \<Longrightarrow> \<not> audit_failing gc w p"
  by (simp add: unfailing_def audit_failing_def)

definition book :: "gate_config \<Rightarrow> 'w world \<Rightarrow> (bytes \<times> bytes) list \<Rightarrow> 'w proxy \<Rightarrow> pending_card option \<Rightarrow> bool" where
  "book gc w os p hand \<longleftrightarrow>
     distinct (map fst (x_pending p)) \<and> accounted (c_session gc) os (x_action_seq p) (map_of (x_pending p)) hand
     \<and> (p_pairing (c_session gc) \<longrightarrow> apart_ids (map_of (x_pending p)) hand)
     \<and> (unfailing gc w \<longrightarrow> covered (c_session gc) os (x_action_seq p) (map_of (x_pending p)) hand)"

text \<open>A hand that may be put down: nothing is left to record for it.\<close>

definition closable :: "gate_config \<Rightarrow> 'w world \<Rightarrow> pending_card option \<Rightarrow> bool" where
  "closable gc w h \<longleftrightarrow> (unfailing gc w \<longrightarrow> (\<forall>pc. h = Some pc \<longrightarrow> pc_action pc = [] \<or> card_history pc \<noteq> []))"

lemma closable_None [simp]: "closable gc w None"
  by (simp add: closable_def)

definition goes ::
  "gate_config \<Rightarrow> 'w world \<Rightarrow> pending_card option \<Rightarrow> 'w proxy \<Rightarrow> pending_card option \<Rightarrow> 'w proxy \<Rightarrow> bool" where
  "goes gc w h p h' p' \<longleftrightarrow>
     (\<forall>os. book gc w os p h \<longrightarrow>
        (\<exists>os'. noted (w_record w) (x_queue p) os' (x_queue p') \<and> book gc w (os @ os') p' h'))"

lemma goesI:
  "(\<And>os. book gc w os p h \<Longrightarrow> noted (w_record w) (x_queue p) os' (x_queue p') \<and> book gc w (os @ os') p' h') \<Longrightarrow> goes gc w h p h' p'"
  unfolding goes_def by blast

lemma goes_trans [trans]:
  assumes "goes gc w h p h1 p1" and "goes gc w h1 p1 h' p'"
  shows "goes gc w h p h' p'"
  unfolding goes_def
proof (intro allI impI)
  fix os assume "book gc w os p h"
  then obtain a where a: "noted (w_record w) (x_queue p) a (x_queue p1)" "book gc w (os @ a) p1 h1"
    using assms(1) unfolding goes_def by blast
  then obtain b where b: "noted (w_record w) (x_queue p1) b (x_queue p')" "book gc w ((os @ a) @ b) p' h'"
    using assms(2) unfolding goes_def by blast
  show "\<exists>os'. noted (w_record w) (x_queue p) os' (x_queue p') \<and> book gc w (os @ os') p' h'"
    using noted_trans [OF a(1) b(1)] b(2) by (intro exI [of _ "a @ b"]) simp
qed

lemma goes_frame:
  assumes "noted (w_record w) (x_queue p) [] (x_queue p')" "x_pending p' = x_pending p" "x_action_seq p' = x_action_seq p"
  shows "goes gc w h p h p'"
  by (rule goesI [where os' = "[]"]) (use assms in \<open>simp add: book_def\<close>)

lemma goes_refl [simp, intro]: "goes gc w h p h p"
  by (rule goes_frame) simp_all

lemma goes_forget:
  assumes "closable gc w h"
  shows "goes gc w h p None p"
proof (rule goesI [where os' = "[]"])
  fix os assume b: "book gc w os p h"
  have a: "accounted (c_session gc) os (x_action_seq p) (map_of (x_pending p)) h" using b unfolding book_def by blast
  have "covered (c_session gc) os (x_action_seq p) (map_of (x_pending p)) None" if c: "unfailing gc w"
  proof (rule covered_change)
    show "covered (c_session gc) os (x_action_seq p) (map_of (x_pending p)) h" using b c unfolding book_def by blast
    fix pc assume "h = Some pc" "pc_action pc \<noteq> []"
    then show "history os (pc_action pc) \<noteq> [] \<or> (\<exists>k' pc'. map_of (x_pending p) k' = Some (Waiting pc') \<and> pc_action pc' = pc_action pc)
        \<or> (\<exists>pc'. None = Some pc' \<and> pc_action pc' = pc_action pc)"
      using accountedD(6) [OF a] assms c unfolding closable_def card_ok_def by metis
  qed auto
  then show "noted (w_record w) (x_queue p) [] (x_queue p) \<and> book gc w (os @ []) p None"
    using b unfolding book_def by (auto elim: accounted_forget intro: apart_ids_subset)
qed

lemma goes_same:
  assumes "same_card pc' pc" "pc_request pc' = None \<or> pc_request pc' = pc_request pc"
  shows "goes gc w (Some pc) p (Some pc') p"
proof (rule goesI [where os' = "[]"])
  fix os assume b: "book gc w os p (Some pc)"
  have "apart_ids m (Some pc')" if "apart_ids m (Some pc)" for m :: "json \<rightharpoonup> pending"
    using that assms(2) unfolding apart_ids_def by (metis option.inject option.distinct(1))
  then show "noted (w_record w) (x_queue p) [] (x_queue p) \<and> book gc w (os @ []) p (Some pc')"
    using b assms(1) covered_hand [of "c_session gc" os "x_action_seq p" "map_of (x_pending p)" pc pc' "[]"] same_cardD(1) [OF assms(1)]
    unfolding book_def by (auto intro: accounted_same)
qed

lemma goes_observe:
  assumes "obs \<in> outcome_kinds"
  shows "goes gc w (Some pc) p (Some (observed_card gc w obs why class mcp pc p)) (observed_state gc w obs why class mcp pc p)"
proof (rule goesI [where os' = "entry_of pc obs"])
  fix os assume b: "book gc w os p (Some pc)"
  have "apart_ids m (Some (observed_card gc w obs why class mcp pc p))" if "apart_ids m (Some pc)" for m :: "json \<rightharpoonup> pending"
    using that unfolding apart_ids_def by simp
  then show "noted (w_record w) (x_queue p) (entry_of pc obs) (x_queue (observed_state gc w obs why class mcp pc p))
      \<and> book gc w (os @ entry_of pc obs) (observed_state gc w obs why class mcp pc p) (Some (observed_card gc w obs why class mcp pc p))"
    using b noted_observed assms unfolding book_def by (auto intro: accounted_observed covered_hand)
qed

lemma observed_closable: "obs \<in> outcome_kinds \<Longrightarrow> closable gc w (Some (observed_card gc w' obs why class mcp pc p))"
  by (auto simp: closable_def observed_card_def observe_action_def Let_def case_prod_unfold next_observation_def
      card_history_def outcome_kinds_def split: option.split)

lemma closable_same: "closable gc w (Some pc) \<Longrightarrow> same_card pc' pc \<Longrightarrow> closable gc w (Some pc')"
  using same_cardD by (simp add: closable_def)

lemma goes_observe_end: "obs \<in> outcome_kinds \<Longrightarrow> goes gc w (Some pc) p None (observed_state gc w obs why class mcp pc p)"
  by (rule goes_trans [OF goes_observe goes_forget [OF observed_closable]])

lemma distinct_store: "distinct (map fst (x_pending p)) \<Longrightarrow> distinct (map fst (x_pending (store_pending k v p)))"
  by (simp add: store_pending_def distinct_update)

lemma distinct_drop: "distinct (map fst (x_pending p)) \<Longrightarrow> distinct (map fst (x_pending (drop_pending k p)))"
  by (simp add: drop_pending_def distinct_delete)

lemma goes_drop:
  assumes "\<And>pc. map_of (x_pending p) k = Some (Waiting pc) \<Longrightarrow> pc_action pc = []"
  shows "goes gc w h p h (drop_pending k p)"
proof (rule goesI [where os' = "[]"])
  fix os assume b: "book gc w os p h"
  let ?m = "map_of (x_pending p)"
  have "apart_ids (?m(k := None)) h" if "apart_ids ?m h"
    by (rule apart_ids_subset [OF that]) auto
  moreover have "covered (c_session gc) os (x_action_seq p) (?m(k := None)) h" if "covered (c_session gc) os (x_action_seq p) ?m h"
  proof (rule covered_change [OF that])
    fix j pc assume j: "?m j = Some (Waiting pc)" "pc_action pc \<noteq> []"
    then have "j \<noteq> k" using assms by auto
    then have "(?m(k := None)) j = Some (Waiting pc)" using j(1) by simp
    then show "history os (pc_action pc) \<noteq> [] \<or> (\<exists>k' pc'. (?m(k := None)) k' = Some (Waiting pc') \<and> pc_action pc' = pc_action pc)
        \<or> (\<exists>pc'. h = Some pc' \<and> pc_action pc' = pc_action pc)" by blast
  qed auto
  ultimately show "noted (w_record w) (x_queue p) [] (x_queue (drop_pending k p)) \<and> book gc w (os @ []) (drop_pending k p) h"
    using b by (auto simp: book_def distinct_drop intro: accounted_drop)
qed

lemma goes_take:
  assumes k: "map_of (x_pending p) k = Some (Waiting pc)"
  shows "goes gc w None p (Some pc) (drop_pending k p)"
proof (rule goesI [where os' = "[]"])
  fix os assume b: "book gc w os p None"
  let ?m = "map_of (x_pending p)"
  have "pc_request pc = Some k" using b accountedD(3) k unfolding book_def by blast
  moreover have "covered (c_session gc) os (x_action_seq p) (?m(k := None)) (Some pc)" if "covered (c_session gc) os (x_action_seq p) ?m None"
  proof (rule covered_change [OF that])
    fix j pc' assume j: "?m j = Some (Waiting pc')" "pc_action pc' \<noteq> []"
    show "history os (pc_action pc') \<noteq> [] \<or> (\<exists>k' x. (?m(k := None)) k' = Some (Waiting x) \<and> pc_action x = pc_action pc')
        \<or> (\<exists>x. Some pc = Some x \<and> pc_action x = pc_action pc')"
    proof (cases "j = k")
      case True
      then show ?thesis using j(1) k by simp
    next
      case False
      then have "(?m(k := None)) j = Some (Waiting pc')" using j(1) by simp
      then show ?thesis by blast
    qed
  qed auto
  ultimately show "noted (w_record w) (x_queue p) [] (x_queue (drop_pending k p)) \<and> book gc w (os @ []) (drop_pending k p) (Some pc)"
    using b k unfolding book_def by (auto simp: distinct_drop domIff intro: accounted_take apart_ids_take)
qed

lemma covered_store:
  assumes c: "covered ses os n m (Some pc)" and k: "k \<notin> dom m" and a: "pc_action pc' = pc_action pc"
  shows "covered ses os n (m(k \<mapsto> Waiting pc')) None"
proof (rule covered_change [OF c])
  fix j x assume j: "m j = Some (Waiting x)"
  then have "j \<noteq> k" using k by auto
  then have "(m(k \<mapsto> Waiting pc')) j = Some (Waiting x)" using j by simp
  then show "history os (pc_action x) \<noteq> [] \<or> (\<exists>k' y. (m(k \<mapsto> Waiting pc')) k' = Some (Waiting y) \<and> pc_action y = pc_action x)
      \<or> (\<exists>y. None = Some y \<and> pc_action y = pc_action x)" by blast
next
  fix x assume "Some pc = Some x"
  then have "(m(k \<mapsto> Waiting pc')) k = Some (Waiting pc') \<and> pc_action pc' = pc_action x" using a by simp
  then show "history os (pc_action x) \<noteq> [] \<or> (\<exists>k' y. (m(k \<mapsto> Waiting pc')) k' = Some (Waiting y) \<and> pc_action y = pc_action x)
      \<or> (\<exists>y. None = Some y \<and> pc_action y = pc_action x)" by blast
qed auto

lemma unfailing_pairing: "unfailing gc w \<Longrightarrow> p_pairing (c_session gc)"
  by (simp add: unfailing_def)

lemma goes_store:
  assumes r: "pc_request pc = Some k"
  shows "goes gc w (Some pc) p None (store_pending k (Waiting pc) p)"
proof (rule goesI [where os' = "[]"])
  fix os assume b: "book gc w os p (Some pc)"
  let ?m = "map_of (x_pending p)"
  have n: "\<not> same_id k k'" if "apart_ids ?m (Some pc)" "k' \<in> dom ?m" for k'
    using that r unfolding apart_ids_def by blast
  have "apart_ids (?m(k \<mapsto> Waiting pc)) None" if "apart_ids ?m (Some pc)"
    by (rule apart_ids_put [OF that]) (use n [OF that] in blast)
  moreover have "k \<notin> dom ?m" if "apart_ids ?m (Some pc)"
    using n [OF that, of k] by (auto simp: same_id_iff)
  ultimately show "noted (w_record w) (x_queue p) [] (x_queue (store_pending k (Waiting pc) p))
      \<and> book gc w (os @ []) (store_pending k (Waiting pc) p) None"
    using b r unfolding book_def by (auto simp: distinct_store unfailing_pairing intro: accounted_store covered_store)
qed

text \<open>The card of a request whose identifier is free.\<close>

lemma free_id_notin: "free_id k p \<Longrightarrow> k \<notin> dom (map_of (x_pending p))"
  unfolding free_id_def same_id_iff by blast

lemma free_id_apart: "free_id k p \<Longrightarrow> k' \<in> dom (map_of (x_pending p)) \<Longrightarrow> \<not> same_id k k'"
  unfolding free_id_def same_id_iff by metis

lemma goes_store_new:
  assumes f: "p_pairing (c_session gc) \<longrightarrow> free_id k p" and r: "pc_request pc' = Some k" and s: "same_card pc' pc"
  shows "goes gc w (Some pc) p None (store_pending k (Waiting pc') p)"
proof (rule goesI [where os' = "[]"])
  fix os assume b: "book gc w os p (Some pc)"
  let ?m = "map_of (x_pending p)"
  have "accounted (c_session gc) os (x_action_seq p) (?m(k \<mapsto> Waiting pc')) None"
    by (rule accounted_store [OF accounted_same [OF _ s] r]) (use b in \<open>simp add: book_def\<close>)
  moreover have "apart_ids (?m(k \<mapsto> Waiting pc')) None" if "free_id k p" "apart_ids ?m (Some pc)"
    by (rule apart_ids_put [OF that(2)]) (use free_id_apart [OF that(1)] in blast)
  ultimately show "noted (w_record w) (x_queue p) [] (x_queue (store_pending k (Waiting pc') p))
      \<and> book gc w (os @ []) (store_pending k (Waiting pc') p) None"
    using b f same_cardD(1) [OF s] unfolding book_def
    by (auto simp: distinct_store unfailing_pairing intro: covered_store [OF _ free_id_notin])
qed

text \<open>An observation of a card that stays in the map.\<close>

lemma history_entry: "aid \<noteq> pc_action pc \<Longrightarrow> history (os @ entry_of pc obs) aid = history os aid"
  by (auto simp: entry_of_def split: option.split)

lemma accounted_hand:
  assumes a: "accounted ses os n m (Some hc)" and n: "accounted ses os' n m' None"
    and h: "pc_action hc \<noteq> [] \<Longrightarrow> history os' (pc_action hc) = history os (pc_action hc)"
    and o: "\<And>k y. m' k = Some (Waiting y) \<Longrightarrow> pc_action hc \<noteq> [] \<Longrightarrow> pc_action y \<noteq> pc_action hc"
  shows "accounted ses os' n m' (Some hc)"
proof (rule accountedI)
  show "card_ok ses os' n x" if "Some hc = Some x" for x
    using accountedD(6) [OF a refl] h that unfolding card_ok_def by auto
  show "pc_action y \<noteq> pc_action x" if "Some hc = Some x" "m' k = Some (Waiting y)" "pc_action x \<noteq> []" for x k y
    using o [OF that(2)] that by simp
qed (fact accountedD [OF n])+

lemma goes_in_place:
  assumes k: "map_of (x_pending p) k = Some (Waiting pc)" and obs: "obs \<in> outcome_kinds"
    and c: "same_card pc0 pc" "same_card pc1 (observed_card gc w obs why class mcp pc0 p0)" "pc_request pc1 = pc_request pc"
    and p: "x_pending p1 = x_pending p" "x_action_seq p1 = x_action_seq p"
      "noted (w_record w) (x_queue p) (entry_of pc obs) (x_queue p1)"
  shows "goes gc w h p h (store_pending k (Waiting pc1) p1)"
proof (rule goesI [where os' = "entry_of pc obs"])
  fix os assume b: "book gc w os p h"
  let ?m = "map_of (x_pending p)"
  have ah: "accounted (c_session gc) os (x_action_seq p) ?m h" using b unfolding book_def by blast
  note a = accounted_forget [OF ah]
  have r: "pc_request pc1 = Some k" using accountedD(3) [OF a k] c(3) by simp
  have act: "pc_action pc1 = pc_action pc" using same_cardD(1) [OF c(1)] same_cardD(1) [OF c(2)] by simp
  have e: "entry_of pc0 obs = entry_of pc obs"
    using c(1) by (simp add: same_card_def entry_of_def next_observation_def)
  have "accounted (c_session gc) (os @ entry_of pc0 obs) (x_action_seq p) (?m(k := None)) (Some pc1)"
    by (rule accounted_same [OF accounted_observed [OF accounted_same [OF accounted_take [OF a k] c(1)] obs] c(2)])
  from accounted_store [OF this r]
  have n: "accounted (c_session gc) (os @ entry_of pc obs) (x_action_seq p) (?m(k \<mapsto> Waiting pc1)) None" unfolding e by simp
  have "accounted (c_session gc) (os @ entry_of pc obs) (x_action_seq p) (?m(k \<mapsto> Waiting pc1)) h"
  proof (cases h)
    case None
    then show ?thesis using n by simp
  next
    case (Some hc)
    note d = accountedD(7) [OF ah Some]
    show ?thesis unfolding Some
    proof (rule accounted_hand [OF ah [unfolded Some] n])
      show "history (os @ entry_of pc obs) (pc_action hc) = history os (pc_action hc)" if "pc_action hc \<noteq> []"
        using history_entry d [OF k that] by simp
      show "pc_action y \<noteq> pc_action hc" if "(?m(k \<mapsto> Waiting pc1)) j = Some (Waiting y)" "pc_action hc \<noteq> []" for j y
        using that d [OF k that(2)] d [of j y] act by (cases "j = k") simp_all
    qed
  qed
  moreover have "apart_ids (?m(k \<mapsto> Waiting pc1)) h" if "apart_ids ?m h"
    by (rule apart_ids_subset [OF that]) (use k in auto)
  moreover have "covered (c_session gc) (os @ entry_of pc obs) (x_action_seq p) (?m(k \<mapsto> Waiting pc1)) h"
    if "covered (c_session gc) os (x_action_seq p) ?m h"
  proof (rule covered_change [OF that])
    fix j x assume j: "?m j = Some (Waiting x)"
    have "\<exists>k' y. (?m(k \<mapsto> Waiting pc1)) k' = Some (Waiting y) \<and> pc_action y = pc_action x"
    proof (cases "j = k")
      case True
      then have "(?m(k \<mapsto> Waiting pc1)) k = Some (Waiting pc1) \<and> pc_action pc1 = pc_action x" using j k act by simp
      then show ?thesis by blast
    next
      case False
      then have "(?m(k \<mapsto> Waiting pc1)) j = Some (Waiting x)" using j by simp
      then show ?thesis by blast
    qed
    then show "history (os @ entry_of pc obs) (pc_action x) \<noteq> []
        \<or> (\<exists>k' y. (?m(k \<mapsto> Waiting pc1)) k' = Some (Waiting y) \<and> pc_action y = pc_action x)
        \<or> (\<exists>y. h = Some y \<and> pc_action y = pc_action x)" by blast
  qed auto
  ultimately show "noted (w_record w) (x_queue p) (entry_of pc obs) (x_queue (store_pending k (Waiting pc1) p1))
      \<and> book gc w (os @ entry_of pc obs) (store_pending k (Waiting pc1) p1) h"
    using b p unfolding book_def by (auto simp: store_pending_def update_conv' distinct_update)
qed

subsection \<open>Lines from the upstream\<close>

lemma goes_under: "(\<And>os. book gc w os p h \<Longrightarrow> goes gc w h p h' p') \<Longrightarrow> goes gc w h p h' p'"
  unfolding goes_def by blast

lemma goes_quiet:
  "x_queue p' = x_queue p \<Longrightarrow> x_pending p' = x_pending p \<Longrightarrow> x_action_seq p' = x_action_seq p \<Longrightarrow> goes gc w h p h p'"
  by (rule goes_frame) simp_all

lemma observe_action_snd:
  "snd (observe_action gc w obs why class mcp pc p) =
     (observed_card gc w obs why class mcp pc p, observed_state gc w obs why class mcp pc p)"
  by (simp add: observed_card_def observed_state_def)

lemma x_resolve_frame [simp]:
  "x_pending (x_resolve gc w s p) = x_pending p" "x_active (x_resolve gc w s p) = x_active p"
  "x_action_seq (x_resolve gc w s p) = x_action_seq p" "x_replies (x_resolve gc w s p) = x_replies p"
  "x_sent (x_resolve gc w s p) = x_sent p" "g_catalog (x_gate (x_resolve gc w s p)) = g_catalog (x_gate p)"
  "g_scrub (x_gate (x_resolve gc w s p)) = g_scrub (x_gate p)"
  by (simp_all add: x_resolve_def)

lemma goes_resolve: "goes gc w h p h (x_resolve gc w s p)"
  by (rule goes_frame) (simp_all add: x_resolve_def gate_resolve_def x_queue_def noted_resolve)

lemma goes_clear: "goes gc w h p h (on_queue (clear_audit_failure s) p)"
  by (rule goes_frame) (auto simp: clear_audit_failure_def queue_ok_def intro: noted_idle)

lemma goes_card_state: "goes gc w h p h (on_queue (update_card_state s tool refs) p)"
  by (rule goes_frame)
    (auto simp: update_card_state_def queue_ok_def distinct_update intro!: noted_idle split: option.split)

lemma goes_invalidate: "goes gc w h p h (x_invalidate p)"
  by (rule goes_quiet) (simp_all add: x_invalidate_def x_queue_def)

lemma goes_write: "goes gc w h p h (write_agent line p)" "goes gc w h p h (reject_to_agent i code msg p)"
  by (rule goes_quiet, simp_all)+

lemma goes_release: "goes gc w h p h (release s p)"
  unfolding release_def by (rule goes_trans [OF goes_clear goes_quiet]) simp_all

lemma outcome_kinds_mem [simp]: "''not_forwarded'' \<in> outcome_kinds" "''outcome_unknown'' \<in> outcome_kinds" "''response_observed'' \<in> outcome_kinds"
  by (simp_all add: outcome_kinds_def)

lemmas goes_quietly = goes_resolve goes_clear goes_card_state goes_invalidate goes_write goes_release

lemma goes_answer_invalid:
  assumes k: "map_of (x_pending p) k = Some (Waiting pc)"
  shows "goes gc w None p None (answer_invalid gc w k pc p)"
proof (cases "pc_suppress pc")
  case False
  let ?pc = "pc\<lparr>pc_suppress := True\<rparr>"
  let ?p1 = "observed_state gc w ''outcome_unknown'' [] [] None ?pc p"
  let ?c = "observed_card gc w ''outcome_unknown'' [] [] None ?pc p"
  let ?p2 = "x_resolve gc w (pc_seq ?c) ?p1"
  let ?p3 = "reject_to_agent (pc_request ?c) (- 32603) (if audit_failing gc w ?p2 then audit_after_forward else unverified_response) ?p2"
  let ?p4 = "on_queue (clear_audit_failure (pc_seq ?c)) ?p3"
  have n: "noted (w_record w) (x_queue p) (entry_of pc ''outcome_unknown'') (x_queue ?p4)"
  proof -
    have e: "entry_of ?pc ''outcome_unknown'' = entry_of pc ''outcome_unknown''" by (simp add: entry_of_def next_observation_def)
    have "noted (w_record w) (x_queue p) (entry_of pc ''outcome_unknown'') (x_queue ?p1)" 
      unfolding e [symmetric] by (rule noted_observed)
    moreover have "noted (w_record w) (x_queue ?p1) [] (x_queue ?p2)"
      by (simp add: x_resolve_def gate_resolve_def x_queue_def noted_resolve)
    ultimately have "noted (w_record w) (x_queue p) (entry_of pc ''outcome_unknown'') (x_queue ?p2)"
      using noted_trans by fastforce
    then show ?thesis by (rule noted_then_idle) (simp_all add: clear_audit_failure_def queue_ok_def)
  qed
  have e: "answer_invalid gc w k pc p = store_pending k (Waiting (?c\<lparr>pc_answered := True\<rparr>)) ?p4"
    using False by (simp add: answer_invalid_def mark_unknown_eq Let_def)
  show ?thesis unfolding e
    by (rule goes_in_place [OF k outcome_kinds_mem(2) same_card_refl(2) same_card_refl(3) _ _ _ n]) simp_all
qed (simp add: answer_invalid_def)

lemma goes_set_card:
  assumes "pc_request pc = None \<Longrightarrow> closable gc w (Some pc)"
  shows "goes gc w (Some pc) p None (set_card (pc_request pc) pc p)"
proof (cases "pc_request pc")
  case None
  show ?thesis unfolding set_card_def None option.case by (rule goes_forget [OF assms [OF None]])
next
  case (Some k)
  show ?thesis unfolding set_card_def Some option.case by (rule goes_store [OF Some])
qed


lemma goes_settle_card:
  "goes gc w (Some pc) p (Some (fst (settle_card gc w line m pc p))) (snd (settle_card gc w line m pc p))"
  "pc_request (fst (settle_card gc w line m pc p)) = pc_request pc"
proof -
  let ?p1 = "if valid_card pc line \<and> \<not> suppressed pc \<and> succeeded m
    then on_queue (update_card_state (pc_seq pc) (pc_state_tool pc) (Some (pc_state_refs pc))) p else p"
  obtain p1 where e1: "?p1 = p1" by blast
  have g1: "goes gc w (Some pc) p (Some pc) p1" unfolding e1 [symmetric] by (simp add: goes_card_state)
  have s: "goes gc w (Some pc) p1 (Some (pc\<lparr>pc_suppress := True\<rparr>)) p1" by (rule goes_same) simp_all
  note r = goes_trans [OF _ goes_resolve]
  note o = r [OF goes_trans [OF g1 goes_observe [OF outcome_kinds_mem(3)]]]
    and u = r [OF goes_trans [OF goes_trans [OF g1 s] goes_observe [OF outcome_kinds_mem(2)]]]
  show "goes gc w (Some pc) p (Some (fst (settle_card gc w line m pc p))) (snd (settle_card gc w line m pc p))"
    unfolding settle_card_def Let_def case_prod_unfold observe_action_snd mark_unknown_eq snd_conv fst_conv e1
    using r [OF g1] o u by simp
  show "pc_request (fst (settle_card gc w line m pc p)) = pc_request pc"
    by (simp add: settle_card_def Let_def case_prod_unfold observe_action_snd mark_unknown_eq)
qed

lemma settle_card_closable: "closable gc w (Some (fst (settle_card gc w' line m pc p)))"
proof (cases "pc_action pc = []")
  case True
  then show ?thesis by (simp add: settle_card_def closable_def case_prod_unfold Let_def)
next
  case False
  have "\<exists>obs why class mcp pc' p'. obs \<in> outcome_kinds \<and> fst (settle_card gc w' line m pc p) = observed_card gc w' obs why class mcp pc' p'"
    unfolding settle_card_def Let_def case_prod_unfold observe_action_snd mark_unknown_eq snd_conv fst_conv if_not_P [OF False]
    using outcome_kinds_mem(2,3) by (cases "valid_card pc line") (simp_all only: if_True if_False fst_conv, blast+)
  then show ?thesis using observed_closable by metis
qed

lemma goes_card_response:
  assumes "pc_request pc \<noteq> None"
  shows "goes gc w (Some pc) p None (card_response gc w line m pc p)"
proof (cases "\<not> valid_card pc line \<and> suppressed pc")
  case True
  have "goes gc w (Some pc) p None (set_card (pc_request pc) pc p)" by (rule goes_set_card) (use assms in simp)
  then show ?thesis using True by (simp add: card_response_def)
next
  case False
  obtain pc2 p3 where s: "settle_card gc w line m pc p = (pc2, p3)" by fastforce
  let ?p4 = "if suppressed pc then p3 else write_agent (card_answer gc w line pc p3) p3"
  have g: "goes gc w (Some pc) p (Some pc2) ?p4" and r: "pc_request pc2 = pc_request pc"
    using goes_settle_card [where gc = gc and w = w and pc = pc and p = p and line = line and m = m] unfolding s
    by (auto intro: goes_trans [OF _ goes_write(1)])
  have c: "goes gc w (Some pc2) ?p4 (Some (pc2\<lparr>pc_answered := True\<rparr>)) (on_queue (clear_audit_failure (pc_seq pc)) ?p4)"
    by (rule goes_trans [OF goes_clear goes_same]) simp_all
  have e: "pc_request pc = pc_request (pc2\<lparr>pc_answered := True\<rparr>)" using r by simp
  have cl: "closable gc w (Some pc2)" using settle_card_closable [of gc w w line m pc p] unfolding s by simp
  show ?thesis
  proof (cases "valid_card pc line")
    case True
    then show ?thesis using goes_trans [OF goes_trans [OF g goes_release] goes_forget [OF cl]] by (simp add: card_response_def s)
  next
    case nv: False
    have "goes gc w (Some pc2) ?p4 None (set_card (pc_request pc) (pc2\<lparr>pc_answered := True\<rparr>) (on_queue (clear_audit_failure (pc_seq pc)) ?p4))"
      unfolding e by (rule goes_trans [OF c goes_set_card]) (use assms r in simp)
    from goes_trans [OF g this] show ?thesis using nv False by (simp add: card_response_def s)
  qed
qed

text \<open>The entry that a response takes out of the map.\<close>

lemma find_SomeD: "find P xs = Some x \<Longrightarrow> x \<in> set xs \<and> P x"
  by (auto simp: find_Some_iff)

lemma load_pending_Some:
  assumes "load_pending i p = Some (v, p1)" and "distinct (map fst (x_pending p))"
  shows "\<exists>k. map_of (x_pending p) k = Some v \<and> p1 = drop_pending k p \<and> same_id k i"
proof (cases "map_of (x_pending p) i")
  case None
  then obtain k where "find (\<lambda>(k, _). same_id k i) (x_pending p) = Some (k, v)" "p1 = drop_pending k p"
    using assms(1) by (auto simp: load_pending_def)
  moreover from this(1) have "(k, v) \<in> set (x_pending p)" "same_id k i" using find_SomeD by fastforce+
  ultimately show ?thesis using assms(2) by auto
next
  case (Some v')
  then show ?thesis using assms(1) by (auto simp: load_pending_def same_id_iff)
qed

lemma find_action_pending_Some:
  assumes "find_action_pending i p = Some (k, pc)" and "distinct (map fst (x_pending p))"
  shows "map_of (x_pending p) k = Some (Waiting pc) \<and> pc_action pc \<noteq> []"
proof -
  let ?a = "filter (\<lambda>(_, v). is_action v) (x_pending p)"
  have m: "(k, v) \<in> set ?a \<Longrightarrow> map_of (x_pending p) k = Some v \<and> is_action v" for k v using assms(2) by auto
  show ?thesis
  proof (cases "map_of ?a i")
    case None
    then obtain e where f: "find (\<lambda>(k, v). is_action v \<and> same_id k i) (x_pending p) = Some e"
      using assms(1) by (auto simp: find_action_pending_def split: option.splits)
    then have "e = (k, Waiting pc)" using assms(1) None by (cases e) (auto simp: find_action_pending_def split: pending.splits)
    moreover have "e \<in> set ?a" using find_SomeD [OF f] by auto
    ultimately show ?thesis using m by (auto simp: is_action_def)
  next
    case (Some v)
    note v = m [OF map_of_SomeD [OF Some]]
    then obtain pc' where "v = Waiting pc'" "pc_action pc' \<noteq> []" by (auto simp: is_action_def split: pending.splits)
    then show ?thesis using assms(1) Some v by (auto simp: find_action_pending_def)
  qed
qed

lemma noted_discard: "g_queue (gate_discard build g) = g_queue g"
  by (simp add: gate_discard_def)

lemma noted_refuse_listing: "noted (w_record w) (g_queue g) [] (g_queue (snd (refuse_listing gc s resp g)))"
  using noted_append by (auto simp: refuse_listing_def gate_append_queue)

lemma read_page_queue: "g_queue (snd (read_page digest build sz listed result g)) = g_queue g"
  by (auto simp: read_page_def noted_discard split: option.splits prod.splits)

lemma noted_filter_tools: "noted (w_record w) (g_queue g) [] (g_queue (snd (filter_tools gc w s see raws kept g)))"
proof (induction raws arbitrary: kept g)
  case (Cons raw raws)
  show ?case
  proof (cases "listed_name raw")
    case (Some nm)
    obtain name ms where nm: "nm = (name, ms)" by (cases nm)
    show ?thesis
    proof (cases "hidden_because gc w name (see name)")
      case None
      then show ?thesis using Cons Some nm by simp
    next
      case h: (Some why)
      have "noted (w_record w) (g_queue g) [] (g_queue (gate_append gc s name ''hide'' why None [] g))"
        by (simp add: gate_append_queue noted_append)
      from noted_trans [OF this Cons] show ?thesis using Some nm h by simp
    qed
  qed simp
qed simp

lemma noted_show_page: "noted (w_record w) (g_queue g) [] (g_queue (snd (show_page gc w digest sz s build resp result listed g)))"
proof -
  obtain out g' where e: "show_page gc w digest sz s build resp result listed g = (out, g')" by fastforce
  obtain x g1 where r: "read_page digest build sz listed result g = (x, g1)" by fastforce
  have q: "g_queue g1 = g_queue g" using read_page_queue [of digest build sz listed result g] r by simp
  have f: "noted (w_record w) (g_queue g) [] (g_queue g2)" if "filter_tools gc w s see listed [] g1 = (k, g2)" for see k g2
    using noted_filter_tools [of w g1 gc s see listed "[]"] that q by simp
  from e have "noted (w_record w) (g_queue g) [] (g_queue g')"
  proof (cases rule: show_page_cases)
    case (refused g3)
    have "noted (w_record w) (g_queue g) [] (g_queue g3)" using refused(2) [OF r] q f by auto
    from noted_trans [OF this noted_refuse_listing] show ?thesis using refused(1) by (metis append_Nil snd_conv)
  next
    case shown
    then show ?thesis using r f by simp
  qed
  then show ?thesis unfolding e by simp
qed

lemma noted_filter_tool_list:
  "noted (w_record w) (g_queue g) [] (g_queue (snd (filter_tool_list gc w digest line s build g)))"
proof -
  have d: "noted (w_record w) (g_queue g) [] (g_queue (gate_discard build g))" by (simp add: noted_discard)
  have r: "noted (w_record w) (g_queue g) [] (g_queue (snd (refuse_listing gc s resp (gate_discard build g))))" for resp
    using noted_trans [OF d noted_refuse_listing] by simp
  show ?thesis unfolding filter_tool_list_def
    by (simp add: d r noted_show_page split: option.split)
qed

lemma goes_gate: "noted (w_record w) (x_queue p) [] (g_queue g) \<Longrightarrow> goes gc w h p h (p\<lparr>x_gate := g\<rparr>)"
  by (rule goes_frame) simp_all

lemma goes_listing: "goes gc w None p None (listing_response gc w digest line s build p)"
proof -
  obtain out g where f: "filter_tool_list gc w digest line s build (x_gate p) = (out, g)" by fastforce
  have "goes gc w None p None (p\<lparr>x_gate := g\<rparr>)"
    using noted_filter_tool_list [of w "x_gate p" gc digest line s build] f by (intro goes_gate) (simp add: x_queue_def)
  from goes_trans [OF goes_trans [OF goes_trans [OF this goes_resolve] goes_write(1)] goes_release]
  show ?thesis unfolding listing_response_def f prod.case Let_def .
qed

lemma goes_relay: "goes gc w None p None (relay_line gc w digest line msg p)"
proof (rule goes_under)
  fix os assume b: "book gc w os p None"
  have w: "goes gc w None p None (write_agent line p)" by (rule goes_write)
  show "goes gc w None p None (relay_line gc w digest line msg p)"
  proof (cases msg)
    case None
    then show ?thesis using w by (simp add: relay_line_def)
  next
    case (Some m)
    show ?thesis
    proof (cases "is_response m \<and> load_pending (the (m_id m)) p \<noteq> None")
      case False
      then show ?thesis using w Some by (cases "load_pending (the (m_id m)) p") (auto simp: relay_line_def)
    next
      case True
      then obtain v p1 where l: "load_pending (the (m_id m)) p = Some (v, p1)" by auto
      then obtain k where k: "map_of (x_pending p) k = Some v" "p1 = drop_pending k p"
        using load_pending_Some b unfolding book_def by blast
      show ?thesis
      proof (cases v)
        case (Listing s build)
        have "goes gc w None p None (listing_response gc w digest line s build (drop_pending k p))"
          by (rule goes_trans [OF goes_drop goes_listing]) (use k(1) Listing in simp)
        then show ?thesis unfolding relay_line_def Some option.case
          using True l Listing by (simp add: k(2))
      next
        case (Waiting pc)
        have "pc_request pc = Some k" using b k(1) accountedD(3) unfolding book_def Waiting by blast
        then have "goes gc w None p None (card_response gc w line m pc (drop_pending k p))"
          by (intro goes_trans [OF goes_take [OF k(1) [unfolded Waiting]] goes_card_response]) simp
        then show ?thesis unfolding relay_line_def Some option.case
          using True l Waiting by (simp add: k(2))
      qed
    qed
  qed
qed

lemma goes_upstream: "goes gc w None p None (upstream_line gc w digest fold_min line p)"
proof -
  let ?msg = "decode_message line"
  let ?p0 = "case ?msg of Some m \<Rightarrow> if m_method m = ''notifications/tools/list_changed'' then x_invalidate p else p | None \<Rightarrow> p"
  have g0: "goes gc w None p None ?p0" using goes_invalidate by (auto split: option.split)
  have r: "goes gc w None ?p0 None (relay_line gc w digest line ?msg ?p0)" by (rule goes_relay)
  have "goes gc w None ?p0 None (upstream_line gc w digest fold_min line p)"
  proof (cases "if p_pairing (c_session gc) then response_id fold_min line (?msg = None) else None")
    case None
    then show ?thesis unfolding upstream_line_def Let_def None using r by simp
  next
    case (Some iv)
    obtain i v where iv: "iv = (i, v)" by (cases iv)
    show ?thesis
    proof (cases v)
      case False
      then show ?thesis unfolding upstream_line_def Let_def Some iv using r by simp
    next
      case True
      show ?thesis
      proof (rule goes_under)
        fix os assume b: "book gc w os ?p0 None"
        show "goes gc w None ?p0 None (upstream_line gc w digest fold_min line p)"
        proof (cases "find_action_pending i ?p0")
          case None
          then show ?thesis unfolding upstream_line_def Let_def Some iv using r True by simp
        next
          case f: (Some kpc)
          obtain k pc where kpc: "kpc = (k, pc)" by (cases kpc)
          have "map_of (x_pending ?p0) k = Some (Waiting pc)"
            using find_action_pending_Some [OF f [unfolded kpc]] b unfolding book_def by blast
          from goes_answer_invalid [OF this] show ?thesis
            unfolding upstream_line_def Let_def Some iv using f kpc True by simp
        qed
      qed
    qed
  qed
  from goes_trans [OF g0 this] show ?thesis .
qed

text \<open>The end of the upstream ends every action in flight.\<close>

lemma goes_unknown_in_place:
  assumes "map_of (x_pending p) k = Some (Waiting pc)"
  shows "goes gc w h p h (case mark_unknown gc w why pc p of (pc1, p') \<Rightarrow> store_pending k (Waiting pc1) p')"
  unfolding mark_unknown_eq prod.case
  by (rule goes_in_place [OF assms outcome_kinds_mem(2) same_card_refl(1) same_card_refl(1)]) (simp_all add: noted_observed)

lemma goes_finish_entry: "map_of (x_pending p) k = Some v \<Longrightarrow> goes gc w None p None (finish_entry gc w why (k, v) p)"
  using goes_unknown_in_place by (cases v) (auto simp: finish_entry_def)

lemma finish_entry_other: "j \<noteq> k \<Longrightarrow> map_of (x_pending (finish_entry gc w why (k, v) p)) j = map_of (x_pending p) j"
  by (cases v) (simp_all add: finish_entry_def mark_unknown_eq)

lemma goes_finish:
  "distinct (map fst es) \<Longrightarrow> \<forall>(k, v)\<in>set es. map_of (x_pending p) k = Some v \<Longrightarrow>
    goes gc w None p None (fold (finish_entry gc w why) es p)"
proof (induction es arbitrary: p)
  case (Cons e es)
  obtain k v where e: "e = (k, v)" by (cases e)
  have k: "map_of (x_pending p) k = Some v" using Cons.prems(2) e by simp
  have o: "map_of (x_pending (finish_entry gc w why (k, v) p)) j = Some u" if "(j, u) \<in> set es" for j u
  proof -
    have "j \<noteq> k" using Cons.prems(1) e that by force
    then show ?thesis using Cons.prems(2) that by (subst finish_entry_other) auto
  qed
  have "goes gc w None (finish_entry gc w why (k, v) p) None (fold (finish_entry gc w why) es (finish_entry gc w why (k, v) p))"
    by (rule Cons.IH) (use Cons.prems(1) o in auto)
  from goes_trans [OF goes_finish_entry [OF k] this] show ?case unfolding e by simp
qed simp

lemma goes_eof: "goes gc w None p None (upstream_eof gc w scan_failed p)"
proof (rule goes_under)
  fix os assume "book gc w os p None"
  then have d: "distinct (map fst (x_pending p))" unfolding book_def by blast
  have f: "goes gc w None p None (finish_pending gc w why p)" for why
    unfolding finish_pending_def by (rule goes_finish [OF d]) (use d in auto)
  have "goes gc w None p' None (on_queue (drain_audits (c_session gc) (w_record w)) p')" for p'
    by (rule goes_frame) (simp_all add: noted_drain)
  from goes_trans [OF f this] show "goes gc w None p None (upstream_eof gc w scan_failed p)" unfolding upstream_eof_def .
qed

subsection \<open>Lines from the agent\<close>

lemma action_card_simps [simp]:
  "pc_action (action_card d s aid) = aid" "pc_request (action_card d s aid) = None" "pc_seq (action_card d s aid) = s"
  "card_history (action_card d s aid) = []" "pc_late (action_card d s aid) = False" "pc_observation (action_card d s aid) = []"
  "pc_answered (action_card d s aid) = False" "pc_suppress (action_card d s aid) = False"
  by (simp_all add: action_card_def card_history_def)

text \<open>A card that stands for the action and has no observation yet.\<close>

definition blank :: "bytes \<Rightarrow> pending_card \<Rightarrow> bool" where
  "blank aid pc \<longleftrightarrow> pc_action pc = aid \<and> pc_request pc = None \<and> pc_observation pc = [] \<and> \<not> pc_late pc"

lemma blank_action_card [simp]: "blank aid (action_card d s aid)"
  by (simp add: blank_def)

lemma goes_blank: "blank aid pc \<Longrightarrow> blank aid pc' \<Longrightarrow> goes gc w (Some pc) p (Some pc') p"
  by (rule goes_same) (simp_all add: blank_def same_card_def)

lemma goes_new:
  assumes "new_action_id (c_session gc) (x_action_seq p) = Some (aid, n)" and "blank aid pc"
  shows "goes gc w None p (Some pc) (on_queue (queue_action_id s aid) (p\<lparr>x_action_seq := n\<rparr>))"
proof (rule goesI [where os' = "[]"])
  fix os assume b: "book gc w os p None"
  have "accounted (c_session gc) os n (map_of (x_pending p)) (Some pc)"
    by (rule accounted_new [OF _ assms(1)]) (use b assms(2) in \<open>simp_all add: book_def blank_def card_history_def\<close>)
  moreover have "apart_ids m (Some pc)" if "apart_ids m None" for m :: "json \<rightharpoonup> pending"
    using that assms(2) by (simp add: apart_ids_def blank_def)
  moreover have "noted (w_record w) q [] (queue_action_id s aid q)" for q
    by (rule noted_idle) (simp_all add: queue_action_id_def queue_ok_def)
  moreover have "covered (c_session gc) os n (map_of (x_pending p)) (Some pc)" if "unfailing gc w"
    by (rule covered_new [OF _ assms(1)]) (use b assms(2) that in \<open>simp_all add: book_def blank_def\<close>)
  ultimately show "noted (w_record w) (x_queue p) [] (x_queue (on_queue (queue_action_id s aid) (p\<lparr>x_action_seq := n\<rparr>)))
      \<and> book gc w (os @ []) (on_queue (queue_action_id s aid) (p\<lparr>x_action_seq := n\<rparr>)) (Some pc)"
    using b by (simp add: book_def)
qed

lemma goes_no_action:
  assumes "blank [] pc"
  shows "goes gc w None p (Some pc) p"
proof (rule goesI [where os' = "[]"])
  fix os assume b: "book gc w os p None"
  then have a: "accounted (c_session gc) os (x_action_seq p) (map_of (x_pending p)) None" unfolding book_def by blast
  have "accounted (c_session gc) os (x_action_seq p) (map_of (x_pending p)) (Some pc)"
  proof (rule accountedI)
    show "card_ok (c_session gc) os (x_action_seq p) x" if "Some pc = Some x" for x
      using that assms by (simp add: blank_def card_ok_def)
    show "pc_action y \<noteq> pc_action x" if "Some pc = Some x" "map_of (x_pending p) k = Some (Waiting y)" "pc_action x \<noteq> []" for x k y
      using that assms by (simp add: blank_def)
  qed (fact accountedD [OF a])+
  moreover have "apart_ids m (Some pc)" if "apart_ids m None" for m :: "json \<rightharpoonup> pending"
    using that assms by (simp add: apart_ids_def blank_def)
  moreover have "covered (c_session gc) os (x_action_seq p) (map_of (x_pending p)) (Some pc)" if "unfailing gc w"
    by (rule covered_any) (use b that in \<open>simp add: book_def\<close>)
  ultimately show "noted (w_record w) (x_queue p) [] (x_queue p) \<and> book gc w (os @ []) p (Some pc)"
    using b by (simp add: book_def)
qed

lemma goes_row: "goes gc w h p h (on_gate (gate_append gc s tool decision why refs actor) p)"
  by (rule goes_frame) (simp_all add: gate_append_queue x_queue_def noted_append)

lemma goes_row_now: "goes gc w h p h (on_gate (gate_audit_now gc w tool decision why refs aid) p)"
  by (rule goes_frame) (simp_all add: gate_audit_now_def remember_observation_def x_queue_def noted_now)

lemma goes_observed_map: "goes gc w h p h (store_observed aid ob p)" "goes gc w h p h (forget_observed aid p)"
  by (rule goes_quiet, simp_all add: store_observed_def forget_observed_def x_queue_def)+

lemma goes_track: "goes gc w h p h (track_request s i p)"
  by (rule goes_quiet) simp_all

lemma goes_catalog: "goes gc w h p h (on_gate (\<lambda>g. g\<lparr>g_catalog := c\<rparr>) p)"
  by (rule goes_quiet) (simp_all add: x_queue_def)

lemma goes_decide: "goes gc w h p h (p\<lparr>x_gate := snd (decide gc w line s (x_gate p))\<rparr>)"
  by (rule goes_gate) (simp add: x_queue_def unnoted.decided)

lemmas goes_quietly' = goes_quietly goes_row goes_row_now goes_observed_map goes_track goes_catalog

text \<open>Two quiet steps in a row, and one before the rest.\<close>

lemma goes_end: "goes gc w h p h1 p1 \<Longrightarrow> closable gc w h1 \<Longrightarrow> goes gc w h p None p1"
  by (rule goes_trans [OF _ goes_forget])

lemma closable_no_action: "blank [] pc \<Longrightarrow> closable gc w (Some pc)"
  by (simp add: closable_def blank_def)

lemma closable_failing: "audit_failing gc w p \<Longrightarrow> closable gc w h"
  using unfailing_not_failing [of gc w p] by (auto simp: closable_def)

lemma goes_reject_line:
  assumes "blank aid pc"
  shows "goes gc w (Some pc) p None (reject_line gc w listing s aid d p)"
proof -
  let ?p1 = "x_resolve gc w s (if listing then x_invalidate p else p)"
  let ?c = "action_card d s aid"
  have "goes gc w (Some pc) p (Some pc) (if listing then x_invalidate p else p)" by (simp add: goes_invalidate)
  from goes_trans [OF goes_trans [OF this goes_resolve] goes_blank [OF assms blank_action_card]]
  have g1: "goes gc w (Some pc) p (Some ?c) ?p1" .
  have g2: "goes gc w (Some pc) p None (if aid = [] then ?p1 else observed_state gc w ''not_forwarded'' (d_cause d) [] None ?c ?p1)"
    using goes_end [OF g1] closable_no_action [of ?c gc w] goes_trans [OF g1 goes_observe_end [OF outcome_kinds_mem(1)]]
    by (cases "aid = []") simp_all
  show ?thesis
  proof (cases "aid = []")
    case True
    from goes_trans [OF g2 goes_write(2)] show ?thesis unfolding reject_line_def Let_def using True
      by (simp add: case_prod_unfold)
  next
    case False
    have "goes gc w (Some pc) p None (observed_state gc w ''not_forwarded'' (d_cause d) [] None ?c ?p1)" using g2 False by simp
    from goes_trans [OF this goes_write(2)] show ?thesis unfolding reject_line_def Let_def using False
      by (simp add: case_prod_unfold observed_state_def)
  qed
qed

lemma goes_recheck:
  assumes "blank aid pc" and "recheck_pin gc w s aid d m p = (r, p')"
  shows "case r of Some p1 \<Rightarrow> goes gc w (Some pc) p (Some pc) p1 | None \<Rightarrow> goes gc w (Some pc) p None p'"
proof -
  obtain ob cz where o: "pin_observation (c_engine gc) (c_agent gc) (c_upstream gc) (d_tool d)
      (catalog_observe (g_catalog (x_gate p)) (d_tool d)) = (ob, cz)" by fastforce
  show ?thesis
  proof (cases "cz = []")
    case True
    then have "r = Some (store_observed aid ob p)" using assms(2) by (auto simp: recheck_pin_def o)
    then show ?thesis by (simp add: goes_observed_map)
  next
    case False
    let ?p1 = "on_gate (gate_audit_now gc w (d_tool d) ''block'' cz (d_refs d) aid) (x_resolve gc w s (store_observed aid ob p))"
    let ?c = "(action_card d s aid)\<lparr>pc_observed := ob\<rparr>"
    let ?p2 = "if aid = [] then ?p1 else observed_state gc w ''not_forwarded'' cz [] None ?c ?p1"
    have c: "blank aid ?c" by (simp add: blank_def)
    have g1: "goes gc w (Some pc) p (Some ?c) ?p1"
      by (rule goes_trans [OF goes_observed_map(1)], rule goes_trans [OF goes_resolve], rule goes_trans [OF goes_row_now])
        (rule goes_blank [OF assms(1) c])
    have g2: "goes gc w (Some pc) p None ?p2"
      using goes_end [OF g1] goes_trans [OF g1 goes_observe_end [OF outcome_kinds_mem(1)]] closable_no_action [of ?c gc w] c by (cases "aid = []") simp_all
    have e: "recheck_pin gc w s aid d m p = (None, reject_to_agent (m_id m)
        (if audit_failing gc w ?p2 then - 32603 else - 32600)
        (if audit_failing gc w ?p2 then audit_before_forward else ''nockguard: tool definition is not approved'') ?p2)"
      using False by (simp add: recheck_pin_def o Let_def observe_action_snd)
    show ?thesis using assms(2) goes_trans [OF g2 goes_write(2)] unfolding e by auto
  qed
qed

lemma goes_dispatch:
  assumes "record_dispatch gc w s aid d m p = (r, p')"
  shows "case r of Some p1 \<Rightarrow> goes gc w h p h p1 | None \<Rightarrow> goes gc w h p None p'"
proof -
  let ?p1 = "on_gate (gate_audit_now gc w (d_tool d) ''dispatch'' ''required-audit-before-forward'' (d_refs d) aid) p"
  have "goes gc w h p None (reject_to_agent i c t (forget_observed aid (x_resolve gc w s ?p1)))" if "audit_failing gc w ?p1" for i c t
    by (rule goes_end [OF _ closable_failing [OF that]], rule goes_trans [OF goes_row_now], rule goes_trans [OF goes_resolve],
        rule goes_trans [OF goes_observed_map(2)], rule goes_write)
  then show ?thesis using assms by (auto simp: record_dispatch_def Let_def goes_row_now split: if_splits)
qed

text \<open>What a decision may ask for.\<close>

definition asks_id :: "mcp_decision \<Rightarrow> json \<Rightarrow> bool" where
  "asks_id d i \<longleftrightarrow> d_forward_id d = Some i \<or> d_tools_list_id d = Some i"

definition sane_decision :: "mcp_decision \<Rightarrow> bool" where
  "sane_decision d \<longleftrightarrow>
     (d_reject d \<longleftrightarrow> d_forward d = None) \<and> (d_tools_list_id d \<noteq> None \<longrightarrow> d_forward d \<noteq> None \<and> d_forward_id d = None)"

lemma sane_basic [simp]: "sane_decision (rejecting i code msg tool cz)" "sane_decision (reject_undecoded f)"
  "\<not> asks_id (rejecting i code msg tool cz) j" "\<not> asks_id (reject_undecoded f) j"
  by (simp_all add: sane_decision_def no_decision_def rejecting_def asks_id_def)
    (cases f; simp add: reject_undecoded_def rejecting_def no_decision_def)+

lemma decide_named_asks:
  "sane_decision (fst (decide_named gc w m obj name params s g)) \<and>
    (asks_id (fst (decide_named gc w m obj name params s g)) i \<longrightarrow> m_id m = Some i)"
proof -
  have f: "sane_decision (fst (forward_call gc w m tree name refs dec s g)) \<and>
      (asks_id (fst (forward_call gc w m tree name refs dec s g)) i \<longrightarrow> m_id m = Some i)" for tree refs dec g
    by (simp add: forward_call_def Let_def sane_decision_def asks_id_def no_decision_def)
  have c: "sane_decision (fst (clear_call gc w m obj name params refs dec s g)) \<and>
      (asks_id (fst (clear_call gc w m obj name params refs dec s g)) i \<longrightarrow> m_id m = Some i)" for refs dec g
    unfolding clear_call_def Let_def using f by (auto simp: refuse_def split: prod.split sum.split bool.split)
  show ?thesis unfolding decide_named_def Let_def using c by (auto simp: refuse_def split: prod.split)
qed

lemma oversized_fst:
  "reject_oversized gc w kind name i g = Some r \<Longrightarrow>
    fst r = rejecting i (- 32600) ''nockguard: method or tool name exceeds 256 bytes'' [] []"
  by (auto simp: reject_oversized_def Let_def split: if_splits)

lemma decide_asks:
  "sane_decision (fst (decide gc w line s g)) \<and>
    (asks_id (fst (decide gc w line s g)) i \<longrightarrow>
      (\<exists>obj tree m. canonicalize_message line = Inr (obj, tree, m) \<and> is_request m \<and> m_id m = Some i))"
proof (cases rule: decide_cases [of line gc w s g])
  case (undecoded f)
  then show ?thesis by simp
next
  case (oversized obj tree m kind name)
  show ?thesis using oversized_fst [OF oversized(2)] by simp
next
  case (plain obj tree m)
  have "sane_decision (fst (decide_method gc w m tree g)) \<and>
      (asks_id (fst (decide_method gc w m tree g)) i \<longrightarrow> is_request m \<and> m_id m = Some i)"
    by (auto simp: decide_method_def Let_def sane_decision_def asks_id_def no_decision_def is_request_def split: if_splits)
  then show ?thesis using plain(1,4) by auto
next
  case (unnamed obj tree m)
  have "sane_decision (fst (decide_unnamed gc w m tree s g)) \<and> \<not> asks_id (fst (decide_unnamed gc w m tree s g)) i"
    by (auto simp: decide_unnamed_def Let_def refuse_def sane_decision_def asks_id_def no_decision_def rejecting_def split: prod.split)
  then show ?thesis using unnamed(3) by simp
next
  case (named obj tree m name params)
  show ?thesis unfolding named(6)
    using decide_named_asks [of gc w m obj name params s g i] named(1,2) by (auto simp: is_request_def)
qed

lemma free_id_pending: "x_pending p' = x_pending p \<Longrightarrow> free_id i p' = free_id i p"
  by (simp add: free_id_def)

lemma goes_store_listing:
  assumes f: "p_pairing (c_session gc) \<longrightarrow> free_id k p" and c: "pc_request pc = None"
  shows "goes gc w (Some pc) p (Some pc) (store_pending k (Listing s b) p)"
proof (rule goesI [where os' = "[]"])
  fix os assume b: "book gc w os p (Some pc)"
  have a: "accounted (c_session gc) os (x_action_seq p) ((map_of (x_pending p))(k \<mapsto> Listing s b)) (Some pc)"
    using accounted_store_plain [of "c_session gc" os "x_action_seq p" "map_of (x_pending p)" "Some pc" "Listing s b" k] b
    unfolding book_def by simp
  have "apart_ids ((map_of (x_pending p))(k \<mapsto> Listing s b)) (Some pc)" if "p_pairing (c_session gc)"
  proof -
    have "free_id k p" "apart_ids (map_of (x_pending p)) (Some pc)" using f b that unfolding book_def by blast+
    then have "apart_ids ((map_of (x_pending p))(k \<mapsto> Listing s b)) None"
      using free_id_apart by (intro apart_ids_put) blast+
    then show ?thesis using c unfolding apart_ids_def by simp
  qed
  moreover have "covered (c_session gc) os (x_action_seq p) ((map_of (x_pending p))(k \<mapsto> Listing s b)) (Some pc)" if u: "unfailing gc w"
  proof (rule covered_change)
    show "covered (c_session gc) os (x_action_seq p) (map_of (x_pending p)) (Some pc)" using b u unfolding book_def by blast
    fix j x assume j: "map_of (x_pending p) j = Some (Waiting x)"
    have "k \<notin> dom (map_of (x_pending p))" using f unfailing_pairing [OF u] by (intro free_id_notin) simp
    then have "j \<noteq> k" using j by auto
    then have "((map_of (x_pending p))(k \<mapsto> Listing s b)) j = Some (Waiting x)" using j by simp
    then show "history os (pc_action x) \<noteq> []
        \<or> (\<exists>k' y. ((map_of (x_pending p))(k \<mapsto> Listing s b)) k' = Some (Waiting y) \<and> pc_action y = pc_action x)
        \<or> (\<exists>y. Some pc = Some y \<and> pc_action y = pc_action x)" by blast
  qed auto
  ultimately show "noted (w_record w) (x_queue p) [] (x_queue (store_pending k (Listing s b) p))
      \<and> book gc w (os @ []) (store_pending k (Listing s b) p) (Some pc)"
    using a b unfolding book_def by (simp add: distinct_store)
qed

lemma goes_start_listing:
  assumes bl: "blank [] pc" and f: "p_pairing (c_session gc) \<longrightarrow> free_id i p"
    and e: "start_listing gc w line s i p = (r, p')"
  shows "case r of Some p1 \<Rightarrow> goes gc w (Some pc) p (Some pc) p1 | None \<Rightarrow> goes gc w (Some pc) p None p'"
proof (cases "p_pairing (c_session gc)")
  have c: "pc_request pc = None" using bl by (simp add: blank_def)
  case False
  then show ?thesis using e goes_store_listing [OF f c] by (auto simp: start_listing_def)
next
  case pair: True
  have c: "pc_request pc = None" using bl by (simp add: blank_def)
  obtain build cat where b: "(case exact_list_params line of None \<Rightarrow> (0, invalidate (g_catalog (x_gate p)))
      | Some params \<Rightarrow> begin_list params (g_catalog (x_gate p))) = (build, cat)" by fastforce
  let ?p1 = "on_gate (\<lambda>g. g\<lparr>g_catalog := cat\<rparr>) p"
  have f1: "p_pairing (c_session gc) \<longrightarrow> free_id i ?p1" using f by (simp add: free_id_def)
  have refuse: "goes gc w (Some pc) p None (reject_to_agent j code t (x_resolve gc w s (on_gate (gate_append gc s tl dc why rf ac) ?p1)))"
    for j code t tl dc why rf ac
    by (rule goes_end [OF _ closable_no_action [OF bl]], rule goes_trans [OF goes_catalog], rule goes_trans [OF goes_row], rule goes_trans [OF goes_resolve], rule goes_write)
  have keep: "goes gc w (Some pc) p (Some pc) (track_request s i (store_pending i (Listing s build) ?p1))"
    by (rule goes_trans [OF goes_catalog], rule goes_trans [OF goes_store_listing [OF f1 c]], rule goes_track)
  show ?thesis using e pair unfolding start_listing_def b
    by (auto simp: refuse keep Let_def split: if_splits)
qed

lemma goes_store_card:
  assumes c: "blank aid pc" and f: "p_pairing (c_session gc) \<longrightarrow> (\<forall>i. d_forward_id d = Some i \<longrightarrow> free_id i p)"
  shows "goes gc w (Some pc) p (if d_forward_id d = None then Some pc else None) (store_card gc s aid d p)"
proof (cases "d_forward_id d")
  case None
  then show ?thesis by (simp add: store_card_def)
next
  case (Some i)
  let ?c = "(action_card d s aid)\<lparr>pc_state_tool := d_state_tool d,
    pc_state_refs := (case d_state_refs d of None \<Rightarrow> no_references | Some r \<Rightarrow> r), pc_request := Some i\<rparr>"
  let ?p = "if p_pairing (c_session gc) then track_request s i p else p"
  have s: "same_card ?c pc" using c by (simp add: blank_def same_card_def)
  have g: "goes gc w (Some pc) p (Some pc) ?p" by (simp add: goes_track)
  have "goes gc w (Some pc) ?p None (store_pending i (Waiting ?c) ?p)"
    by (rule goes_store_new [OF _ _ s]) (use f Some in \<open>simp_all add: free_id_def\<close>)
  from goes_trans [OF g this] show ?thesis by (simp add: store_card_def Some)
qed

lemma goes_lose_entry: "goes gc w None p None (lose_entry gc w i p)"
proof (cases "\<exists>pc. map_of (x_pending p) i = Some (Waiting pc) \<and> pc_action pc \<noteq> []")
  case True
  then obtain pc where k: "map_of (x_pending p) i = Some (Waiting pc)" "pc_action pc \<noteq> []" by blast
  have "goes gc w None p None (observed_state gc w ''outcome_unknown'' ''transport_lost'' [] None pc (drop_pending i p))"
    by (rule goes_trans [OF goes_take [OF k(1)] goes_observe_end [OF outcome_kinds_mem(2)]])
  then show ?thesis using k by (simp add: lose_entry_def mark_unknown_eq)
next
  case False
  then have "lose_entry gc w i p = drop_pending i p" by (auto simp: lose_entry_def split: option.split pending.split)
  then show ?thesis using goes_drop [of p i gc w None] False by auto
qed

lemma goes_lose:
  assumes "blank aid pc" and "d_forward_id d = None \<Longrightarrow> h = Some pc" and "d_forward_id d \<noteq> None \<Longrightarrow> h = None"
    and "d_tools_list_id d \<noteq> None \<Longrightarrow> aid = []" and "aid \<noteq> [] \<Longrightarrow> m_method m = ''tools/call''"
  shows "goes gc w h p None (lose_transport gc w s aid d m p)"
proof -
  let ?p1 = "if m_method m = ''tools/list'' then x_invalidate p else p"
  let ?loaded = "case tracked_id d of None \<Rightarrow> False | Some i \<Rightarrow> map_of (x_pending ?p1) i \<noteq> None"
  let ?c = "action_card d s aid"
  let ?own = "aid \<noteq> [] \<and> m_method m = ''tools/call'' \<and> d_forward_id d = None"
  obtain p2 where p2: "(case tracked_id d of None \<Rightarrow> ?p1 | Some i \<Rightarrow> lose_entry gc w i ?p1) = p2" by blast
  obtain p3 where p3: "(if ?loaded \<and> p_pairing (c_session gc) then release_request s p2 else p2) = p3" by blast
  obtain p4 where p4: "(if ?own then observed_state gc w ''outcome_unknown'' ''transport_lost'' [] None ?c p3 else p3) = p4" by blast
  have e: "lose_transport gc w s aid d m p = (if tracked_id d = None \<or> ?loaded then x_resolve gc w s p4 else p4)"
    unfolding lose_transport_def Let_def mark_unknown_eq snd_conv p2 p3 p4 by (rule refl)
  have v: "goes gc w h' p h' ?p1" for h' by (simp add: goes_invalidate)
  have r: "goes gc w h' p2 h' p3" for h' unfolding p3 [symmetric] by (auto intro: goes_quiet)
  have f: "goes gc w h p None p4 \<Longrightarrow> goes gc w h p None (lose_transport gc w s aid d m p)"
    unfolding e by (auto intro: goes_trans [OF _ goes_resolve])
  show ?thesis
  proof (rule f, cases ?own)
    case True
    then have "tracked_id d = None" and h: "h = Some pc" using assms(2,4) by (cases "d_tools_list_id d"; simp add: tracked_id_def)+
    then have p1: "p2 = ?p1" using p2 by simp
    have "goes gc w (Some pc) p (Some pc) p2" unfolding p1 by (rule v)
    from goes_trans [OF goes_trans [OF goes_trans [OF this r] goes_blank [OF assms(1) blank_action_card]] goes_observe_end [OF outcome_kinds_mem(2)]]
    show "goes gc w h p None p4" unfolding h p4 [symmetric] if_P [OF True] .
  next
    case False
    have "goes gc w None ?p1 None p2" unfolding p2 [symmetric] by (simp add: goes_lose_entry split: option.split)
    have "closable gc w h"
    proof (cases "d_forward_id d")
      case None
      then have "aid = []" using False assms(5) by auto
      then show ?thesis using closable_no_action assms(1,2) None by simp
    next
      case (Some i)
      then show ?thesis using assms(3) by simp
    qed
    from goes_trans [OF goes_trans [OF goes_trans [OF goes_forget [OF this] v] \<open>goes gc w None ?p1 None p2\<close>] r]
    show "goes gc w h p None p4" unfolding p4 [symmetric] if_not_P [OF False] .
  qed
qed

lemma cancel_found:
  assumes "find (\<lambda>(_, v). case v of
      Waiting pc \<Rightarrow> pc_action pc \<noteq> [] \<and> ids_equal (pc_request pc) request | Listing _ _ \<Rightarrow> False) (x_pending p) = Some (k, Waiting pc)"
    and "distinct (map fst (x_pending p))"
  shows "map_of (x_pending p) k = Some (Waiting pc)"
  using find_SomeD [OF assms(1)] assms(2) by simp

lemma cancel_cases:
  assumes "distinct (map fst (x_pending p))"
  shows "cancel_action gc w request p = p
    \<or> (\<exists>k pc. map_of (x_pending p) k = Some (Waiting pc) \<and> cancel_action gc w request p =
        (case mark_unknown gc w ''client_cancel'' pc p of (pc1, p') \<Rightarrow> store_pending k (Waiting pc1) p'))"
proof (cases "find (\<lambda>(_, v). case v of
      Waiting pc \<Rightarrow> pc_action pc \<noteq> [] \<and> ids_equal (pc_request pc) request | Listing _ _ \<Rightarrow> False) (x_pending p)")
  case None
  then show ?thesis by (simp add: cancel_action_def)
next
  case (Some e)
  obtain k v where e: "e = (k, v)" by (cases e)
  show ?thesis
  proof (cases v)
    case Listing
    then show ?thesis using Some e by (simp add: cancel_action_def)
  next
    case (Waiting pc)
    then have k: "map_of (x_pending p) k = Some (Waiting pc)" using cancel_found [OF _ assms] Some e by simp
    have "cancel_action gc w request p =
        (case mark_unknown gc w ''client_cancel'' pc p of (pc1, p') \<Rightarrow> store_pending k (Waiting pc1) p')"
      using Some e Waiting by (simp add: cancel_action_def)
    then show ?thesis using k by blast
  qed
qed

lemma goes_cancel: "goes gc w h p h (cancel_action gc w request p)"
proof (rule goes_under)
  fix os assume "book gc w os p h"
  then have d: "distinct (map fst (x_pending p))" unfolding book_def by blast
  show "goes gc w h p h (cancel_action gc w request p)"
    using cancel_cases [OF d, of gc w request] goes_unknown_in_place by (metis goes_refl)
qed

lemma free_id_cancel: "distinct (map fst (x_pending p)) \<Longrightarrow> free_id i (cancel_action gc w request p) = free_id i p"
proof -
  assume d: "distinct (map fst (x_pending p))"
  have "dom (map_of (x_pending (cancel_action gc w request p))) = dom (map_of (x_pending p))"
    using cancel_cases [OF d, of gc w request]
    by (elim disjE exE conjE) (simp_all only: mark_unknown_eq prod.case pending_frame observe_action_frame dom_fun_upd
        option.distinct if_False insert_absorb [OF domI])
  then show ?thesis unfolding free_id_def by (simp only:)
qed

lemma goes_forward:
  assumes c: "blank aid pc" and f: "p_pairing (c_session gc) \<longrightarrow> (\<forall>i. d_forward_id d = Some i \<longrightarrow> free_id i p)"
    and l: "d_tools_list_id d \<noteq> None \<Longrightarrow> aid = []" and dist: "distinct (map fst (x_pending p))"
    and meth: "aid \<noteq> [] \<Longrightarrow> m_method (request_of t) = ''tools/call''"
  shows "goes gc w (Some pc) p None (snd (forward_line gc w sent s aid d t p))"
proof -
  let ?m = "request_of t"
  let ?p1 = "if p_pairing (c_session gc) \<and> m_method ?m = ''notifications/cancelled''
    then cancel_action gc w (cancellation_request_id ?m) p else p"
  have g1: "goes gc w (Some pc) p (Some pc) ?p1" by (simp add: goes_cancel)
  have f1: "p_pairing (c_session gc) \<longrightarrow> (\<forall>i. d_forward_id d = Some i \<longrightarrow> free_id i ?p1)" using f free_id_cancel [OF dist] by simp
  obtain r q where r: "(if m_method ?m = ''tools/call'' \<and> has_tool_pin_constraints (c_engine gc) (c_agent gc)
      then recheck_pin gc w s aid d ?m ?p1 else (Some ?p1, ?p1)) = (r, q)" by fastforce
  have g2: "case r of Some p2 \<Rightarrow> goes gc w (Some pc) ?p1 (Some pc) p2 | None \<Rightarrow> goes gc w (Some pc) ?p1 None q"
    using goes_recheck [OF c, of gc w s d ?m ?p1 r q] r by (auto split: if_splits)
  have k2: "x_pending p2 = x_pending ?p1" if "r = Some p2" for p2
    using r that by (auto simp: recheck_pin_def store_observed_def Let_def split: if_splits prod.splits)
  show ?thesis
  proof (cases r)
    case None
    have e: "forward_line gc w sent s aid d t p = ((False, True), q)" using r None by (simp add: forward_line_def Let_def)
    show ?thesis unfolding e using goes_trans [OF g1] g2 None by simp
  next
    case (Some p2)
    have g2': "goes gc w (Some pc) p (Some pc) p2" using goes_trans [OF g1] g2 Some by simp
    obtain r3 q3 where r3: "record_dispatch gc w s aid d ?m p2 = (r3, q3)" by fastforce
    note g3 = goes_dispatch [OF r3, where h = "Some pc"]
    show ?thesis
    proof (cases r3)
      case None
      have e: "forward_line gc w sent s aid d t p = ((False, True), q3)" using r Some r3 None by (simp add: forward_line_def Let_def)
      show ?thesis unfolding e using goes_trans [OF g2'] g3 None by simp
    next
      case p3: (Some p3)
      have g3': "goes gc w (Some pc) p (Some pc) p3" using goes_trans [OF g2'] g3 p3 by simp
      have k3: "x_pending p3 = x_pending ?p1" using r3 p3 k2 [OF Some] by (auto simp: record_dispatch_def Let_def split: if_splits)
      have f3: "p_pairing (c_session gc) \<longrightarrow> (\<forall>i. d_forward_id d = Some i \<longrightarrow> free_id i p3)" using f1 k3 by (simp add: free_id_def)
      let ?p4 = "store_card gc s aid d p3"
      let ?h = "if d_forward_id d = None then Some pc else None"
      have g4: "goes gc w (Some pc) p ?h ?p4" by (rule goes_trans [OF g3' goes_store_card [OF c f3]])
      have e: "snd (forward_line gc w sent s aid d t p) =
          (if \<not> sent then lose_transport gc w s aid d ?m ?p4
           else if aid \<noteq> [] \<and> m_method ?m = ''tools/call'' \<and> d_forward_id d = None
           then observed_state gc w ''outcome_unknown'' [] [] None (action_card d s aid) (x_resolve gc w s (?p4\<lparr>x_sent := x_sent ?p4 @ [t]\<rparr>))
           else ?p4\<lparr>x_sent := x_sent ?p4 @ [t]\<rparr>)"
        using r Some r3 p3 by (simp add: forward_line_def Let_def mark_unknown_eq)
      have lost: "goes gc w ?h ?p4 None (lose_transport gc w s aid d ?m ?p4)"
        by (rule goes_lose [OF c _ _ l meth]) simp_all
      have put: "goes gc w ?h ?p4 ?h (?p4\<lparr>x_sent := x_sent ?p4 @ [t]\<rparr>)" by (rule goes_quiet) simp_all
      have note_it: "goes gc w ?h ?p4 None
          (observed_state gc w ''outcome_unknown'' [] [] None (action_card d s aid) (x_resolve gc w s (?p4\<lparr>x_sent := x_sent ?p4 @ [t]\<rparr>)))"
        if "d_forward_id d = None"
      proof -
        have h: "?h = Some pc" using that by simp
        show ?thesis unfolding h
          by (rule goes_trans [OF put [unfolded h]], rule goes_trans [OF goes_resolve], rule goes_trans [OF goes_blank [OF c blank_action_card]])
            (rule goes_observe_end [OF outcome_kinds_mem(2)])
      qed
      have close: "closable gc w ?h" if "\<not> (aid \<noteq> [] \<and> m_method ?m = ''tools/call'' \<and> d_forward_id d = None)"
      proof (cases "d_forward_id d")
        case None
        then have "aid = []" using that meth by auto
        then show ?thesis using closable_no_action c None by simp
      qed simp
      show ?thesis unfolding e
        using goes_trans [OF g4 lost] goes_trans [OF g4 note_it] goes_trans [OF g4 goes_end [OF put close]] by simp
    qed
  qed
qed

lemma goes_decided:
  assumes c: "blank aid pc" and f: "p_pairing (c_session gc) \<longrightarrow> (\<forall>i. asks_id d i \<longrightarrow> free_id i p)"
    and l: "d_tools_list_id d \<noteq> None \<Longrightarrow> aid = []" and sane: "sane_decision d"
    and meth: "\<And>t. d_forward d = Some t \<Longrightarrow> aid \<noteq> [] \<Longrightarrow> m_method (request_of t) = ''tools/call''"
  shows "goes gc w (Some pc) p None (snd (decided_line gc w sent listing line s aid d p))"
proof (cases "audit_failing gc w p")
  case True
  have "goes gc w (Some pc) p None (reject_to_agent (decision_id d) (- 32603) audit_before_forward (forget_observed aid (x_resolve gc w s p)))"
    by (rule goes_end [OF _ closable_failing [OF True]], rule goes_trans [OF goes_resolve], rule goes_trans [OF goes_observed_map(2)])
      (rule goes_write)
  then show ?thesis using True by (simp add: decided_line_def)
next
  case af: False
  obtain r q where r: "(case d_tools_list_id d of None \<Rightarrow> (Some p, p) | Some i \<Rightarrow> start_listing gc w line s i p) = (r, q)" by fastforce
  have g1: "case r of Some p1 \<Rightarrow> goes gc w (Some pc) p (Some pc) p1 | None \<Rightarrow> goes gc w (Some pc) p None q"
  proof (cases "d_tools_list_id d")
    case None
    then have "r = Some p" using r by auto
    then show ?thesis by simp
  next
    case (Some i)
    then have "p_pairing (c_session gc) \<longrightarrow> free_id i p" using f by (simp add: asks_id_def)
    moreover have "blank [] pc" using c l Some by simp
    ultimately show ?thesis using goes_start_listing r Some by simp
  qed
  show ?thesis
  proof (cases r)
    case None
    then show ?thesis using g1 r af by (simp add: decided_line_def)
  next
    case (Some p1)
    note g1' = g1 [unfolded Some option.case]
    have tail: "goes gc w h p' h (if b then x_resolve gc w s p' else p')" for h p' b by (simp add: goes_resolve)
    show ?thesis
    proof (rule goes_under)
      fix os assume b: "book gc w os p (Some pc)"
      show "goes gc w (Some pc) p None (snd (decided_line gc w sent listing line s aid d p))"
      proof (cases "d_reject d")
        case True
        then have n: "d_forward d = None" using sane by (simp add: sane_decision_def)
        have "goes gc w (Some pc) p1 None (reject_line gc w listing s aid d p1)" by (rule goes_reject_line [OF c])
        from goes_trans [OF g1' goes_trans [OF this tail]] show ?thesis
          unfolding decided_line_def Let_def if_not_P [OF af] r Some n using True by simp
      next
        case nr: False
        show ?thesis
        proof (cases "d_forward d")
          case None
          then show ?thesis using nr sane by (simp add: sane_decision_def)
        next
          case t: (Some t)
          obtain e hd p3 where fl: "forward_line gc w sent s aid d t p1 = ((e, hd), p3)" by (metis prod.exhaust)
          have dist: "distinct (map fst (x_pending p1))"
            using b g1' unfolding goes_def book_def by blast
          have f1: "p_pairing (c_session gc) \<longrightarrow> (\<forall>i. d_forward_id d = Some i \<longrightarrow> free_id i p1)"
          proof (cases "d_tools_list_id d")
            case None
            then have "p1 = p" using r Some by auto
            then show ?thesis using f by (simp add: asks_id_def)
          next
            case (Some j)
            then show ?thesis using sane by (simp add: sane_decision_def)
          qed
          have "goes gc w (Some pc) p1 None p3" using goes_forward [OF c f1 l dist meth [OF t], of w sent s] fl by simp
          from goes_trans [OF g1' goes_trans [OF this tail]] show ?thesis
            unfolding decided_line_def Let_def if_not_P [OF af] r Some t using nr by (simp add: fl)
        qed
      qed
    qed
  qed
qed

lemma goes_duplicate:
  assumes "blank aid pc"
  shows "goes gc w (Some pc) p None (refuse_duplicate gc w listing s aid m p)"
proof -
  obtain tool params where t: "(case canonical_tool_call (m_params m) of None \<Rightarrow> ([], []) | Some (n, ps) \<Rightarrow> (n, json_print ps)) = (tool, params)"
    by fastforce
  let ?refs = "from_tool_call tool params"
  let ?c = "(action_card no_decision s aid)\<lparr>pc_tool := tool, pc_refs := ?refs\<rparr>"
  let ?p1 = "if listing then x_invalidate p else p"
  let ?q = "x_resolve gc w s (on_gate (gate_append gc s tool ''block'' ''duplicate-active-request-id'' (Some ?refs) []) ?p1)"
  let ?p2 = "if aid = [] then ?p1 else observed_state gc w ''not_forwarded'' [] [] None ?c ?q"
  have c: "blank aid ?c" by (simp add: blank_def)
  have g1: "goes gc w (Some pc) p (Some pc) ?p1" by (simp add: goes_invalidate)
  have "goes gc w (Some pc) ?p1 None (observed_state gc w ''not_forwarded'' [] [] None ?c ?q)"
    by (rule goes_trans [OF goes_row], rule goes_trans [OF goes_resolve], rule goes_trans [OF goes_blank [OF assms c]])
      (rule goes_observe_end [OF outcome_kinds_mem(1)])
  then have "goes gc w (Some pc) ?p1 None ?p2"
    using goes_forget [of gc w "Some pc" ?p1] closable_no_action [of pc gc w] assms by (cases "aid = []") simp_all
  from goes_trans [OF goes_trans [OF goes_trans [OF g1 this] goes_resolve] goes_write(2)]
  show ?thesis unfolding refuse_duplicate_def Let_def t prod.case observe_action_snd snd_conv by simp
qed

lemma decide_no_listing:
  assumes "canonicalize_message line = Inr (obj, tree, m)" and "m_method m = ''tools/call''"
  shows "d_tools_list_id (fst (decide gc w line s g)) = None"
proof -
  have f: "d_tools_list_id (fst (forward_call gc w m tree name refs dec s g)) = None" for m tree name refs dec g
    by (simp add: forward_call_def Let_def no_decision_def)
  have c: "d_tools_list_id (fst (clear_call gc w m obj name params refs dec s g)) = None" for m obj name params refs dec g
    unfolding clear_call_def Let_def using f by (auto simp: refuse_def rejecting_def no_decision_def split: prod.split sum.split bool.split)
  have n: "d_tools_list_id (fst (decide_named gc w m obj name params s g)) = None" for m obj name params g
    unfolding decide_named_def Let_def using c by (auto simp: refuse_def rejecting_def no_decision_def split: prod.split)
  show ?thesis
  proof (cases rule: decide_cases [of line gc w s g])
    case (oversized obj tree m kind name)
    show ?thesis using oversized_fst [OF oversized(2)] by (simp add: rejecting_def no_decision_def)
  next
    case (unnamed obj' tree' m')
    show ?thesis unfolding unnamed(3)
      by (auto simp: decide_unnamed_def Let_def refuse_def rejecting_def no_decision_def split: prod.split)
  next
    case (named obj' tree' m' name params)
    show ?thesis unfolding named(6) by (rule n)
  qed (use assms in simp_all)
qed

text \<open>The forward of a call is read as a call.\<close>

lemma put_error_member_total: "put_error_member k v e = None \<longleftrightarrow> put_error_member k v e' = None"
  by (cases v) (auto simp: put_error_member_def split: option.split)

lemma put_error_members_total: "put_error_members ms e = None \<longleftrightarrow> put_error_members ms e' = None"
proof (induction ms arbitrary: e e')
  case (Cons x ms)
  obtain k v where x: "x = (k, v)" by (cases x)
  show ?case using put_error_member_total [of k v e e'] Cons.IH unfolding x
    by (cases "put_error_member k v e"; cases "put_error_member k v e'") auto
qed simp

lemma put_message_member_total: "put_message_member k v m = None \<longleftrightarrow> put_message_member k v m' = None"
proof -
  have "read_error v x = None \<longleftrightarrow> read_error v y = None" for x y
    using put_error_members_total by (cases v) auto
  moreover have "read_str v x = None \<longleftrightarrow> read_str v y = None" for x y by (cases v) auto
  ultimately show ?thesis by (auto simp: put_message_member_def split: option.split)
qed

lemma put_message_members_total:
  "put_message_members ms m \<noteq> None \<longleftrightarrow> (\<forall>(k, v)\<in>set ms. put_message_member k v m0 \<noteq> None)"
proof (induction ms arbitrary: m)
  case (Cons x ms)
  obtain k v where x: "x = (k, v)" by (cases x)
  show ?case using put_message_member_total [of k v m m0] Cons.IH unfolding x
    by (cases "put_message_member k v m") auto
qed simp

lemma forwarded_method:
  assumes c: "canonicalize_message line = Inr (obj, tree, m)" and meth: "m_method m = ''tools/call''"
    and d: "decide gc w line s g = (d, g')" "d_forward d = Some t"
  shows "m_method (request_of t) = ''tools/call''"
proof -
  have ne: "m_method m \<noteq> []" using meth by simp
  note s = canonicalize_message_spec [OF c] and tree = message_of_canonical [OF c ne]
  consider (whole) "t = tree" | (named) params' where "t = JObj (put ''params'' params' obj)"
  proof (cases rule: decide_cases [of line gc w s g])
    case (undecoded f)
    then show thesis using c by simp
  next
    case (oversized obj tree m kind name)
    then show thesis using oversized_Some [of gc w kind name "m_id m" g d g'] d by simp
  next
    case (plain obj' tree' m')
    then show thesis using c meth by simp
  next
    case (unnamed obj' tree' m')
    then show thesis using decide_unnamed_forward [of gc w m' tree' s g d g' t] d c that(1) by auto
  next
    case (named obj' tree' m' name params)
    then show thesis using decide_named_forward [of gc w m' obj' name params s g d g' t] d c that(2) by auto
  qed
  then show ?thesis
  proof cases
    case whole
    then show ?thesis using s(4) meth by (simp add: request_of_def)
  next
    case (named params')
    note t = named
    let ?o = "put ''params'' params' obj"
    have "put_message_members obj zero_message \<noteq> None" using s(4) tree(1) by simp
    then have all: "put_message_member k v zero_message \<noteq> None" if "(k, v) \<in> set obj" for k v
      using that put_message_members_total [of obj zero_message zero_message] by auto
    have "put_message_member ''params'' params' zero_message \<noteq> None"
      by (simp add: put_message_member_def field_among_def message_fields_def)
    then have "put_message_members ?o zero_message \<noteq> None"
      unfolding put_message_members_total [of _ _ zero_message] using set_put_subset [of "''params''" params' obj] all by blast
    then obtain m' where m': "put_message_members ?o zero_message = Some m'" by blast
    have nm: "no_alias ''method'' ?o"
      by (rule no_alias_put [OF s(2)]) (use fold_names_differ [of "''params''"] in auto)
    have np: "no_alias ''params'' ?o" by (rule no_alias_put [OF s(3)]) simp
    note mm = message_members [OF m' canonical_distinct [OF canonical_put [OF s(1)]] nm np]
    have "(''method'', JStr ''tools/call'') \<in> set (filter (\<lambda>(k, _). equal_fold k ''method'') obj)"
      using tree(2) meth unfolding sole_def by simp
    then have "map_of obj ''method'' = Some (JStr ''tools/call'')"
      using canonical_distinct [OF s(1)] by (simp add: map_of_is_SomeI)
    then have "m_method m' = ''tools/call''" using mm by simp
    then show ?thesis unfolding t request_of_def using m' by simp
  qed
qed

lemma goes_decide_line:
  assumes c: "blank aid pc" and a: "aid \<noteq> [] \<Longrightarrow> p_pairing (c_session gc)
      \<and> (\<exists>obj tree m. canonicalize_message line = Inr (obj, tree, m) \<and> m_method m = ''tools/call'')"
    and f: "\<And>obj tree m i. p_pairing (c_session gc) \<Longrightarrow> canonicalize_message line = Inr (obj, tree, m) \<Longrightarrow> is_request m \<Longrightarrow>
      m_id m = Some i \<Longrightarrow> free_id i p"
  shows "goes gc w (Some pc) p None (snd (decide_line gc w sent listing line s aid p))"
proof -
  obtain d g where d: "decide gc w line s (x_gate p) = (d, g)" by fastforce
  have f': "p_pairing (c_session gc) \<longrightarrow> (\<forall>i. asks_id d i \<longrightarrow> free_id i (p\<lparr>x_gate := g\<rparr>))"
  proof (intro impI allI)
    fix i assume i: "p_pairing (c_session gc)" "asks_id d i"
    then obtain obj tree m where "canonicalize_message line = Inr (obj, tree, m)" "is_request m" "m_id m = Some i"
      using decide_asks [of gc w line s "x_gate p" i] d by auto
    from f [OF i(1) this] show "free_id i (p\<lparr>x_gate := g\<rparr>)" by (simp add: free_id_def)
  qed
  have l: "aid = []" if "d_tools_list_id d \<noteq> None"
  proof (rule ccontr)
    assume "aid \<noteq> []"
    from a [OF this] decide_no_listing [of line _ _ _ gc w s "x_gate p"] d that show False by auto
  qed
  have mt: "m_method (request_of t) = ''tools/call''" if "d_forward d = Some t" "aid \<noteq> []" for t
    using a [OF that(2)] forwarded_method [OF _ _ d that(1)] by blast
  have s: "sane_decision d" using decide_asks [of gc w line s "x_gate p"] d by simp
  have g: "goes gc w (Some pc) p (Some pc) (p\<lparr>x_gate := g\<rparr>)" using goes_decide [of gc w "Some pc" p line s] d by simp
  show ?thesis unfolding decide_line_def d Let_def prod.case by (rule goes_trans [OF g goes_decided [OF c f' l s mt]])
qed

lemma goes_paired:
  assumes pair: "p_pairing (c_session gc)" and m: "canonicalize_message line = Inr (obj, tree, m)"
  shows "goes gc w None p None (snd (paired_message gc w sent listing line s m p))"
proof (cases "reject_oversized gc w (fst (kind_name m)) (snd (kind_name m)) (m_id m) (x_gate p)")
  case (Some r)
  obtain d g where r: "r = (d, g)" by (cases r)
  have n: "noted (w_record w) (g_queue (x_gate p)) [] (g_queue g)" by (rule unnoted.too_long [OF Some [unfolded r]])
  have "goes gc w None p None (p\<lparr>x_gate := g\<rparr>)" by (rule goes_gate) (simp add: x_queue_def n)
  moreover have "goes gc w None (p\<lparr>x_gate := g\<rparr>) None (if listing then x_invalidate (p\<lparr>x_gate := g\<rparr>) else p\<lparr>x_gate := g\<rparr>)"
    by (simp add: goes_invalidate)
  ultimately have "goes gc w None p None (x_resolve gc w s (if listing then x_invalidate (p\<lparr>x_gate := g\<rparr>) else p\<lparr>x_gate := g\<rparr>))"
    by (rule goes_trans [OF goes_trans goes_resolve])
  from goes_trans [OF this goes_write(2)] show ?thesis unfolding paired_message_def Some option.case r Let_def
    by (cases listing) (simp_all add: case_prod_unfold)
next
  case None
  let ?fresh = "if m_method m = ''tools/call'' then map_option Some (new_action_id (c_session gc) (x_action_seq p)) else Some None"
  have rest: "goes gc w h p None (snd (if is_request m \<and> request_in_use (the (m_id m)) p1
      then (False, refuse_duplicate gc w listing s aid m p1) else decide_line gc w sent listing line s aid p1))"
    if g: "goes gc w h p (Some (action_card no_decision s aid)) p1"
      and a: "aid \<noteq> [] \<Longrightarrow> m_method m = ''tools/call''" for h aid p1
  proof (cases "is_request m \<and> request_in_use (the (m_id m)) p1")
    case True
    then show ?thesis using goes_trans [OF g goes_duplicate [OF blank_action_card]] by simp
  next
    case False
    have "goes gc w (Some (action_card no_decision s aid)) p1 None (snd (decide_line gc w sent listing line s aid p1))"
    proof (rule goes_decide_line [OF blank_action_card])
      show "p_pairing (c_session gc) \<and> (\<exists>obj tree m. canonicalize_message line = Inr (obj, tree, m) \<and> m_method m = ''tools/call'')"
        if "aid \<noteq> []" using m a [OF that] pair by blast
      show "free_id i p1" if "canonicalize_message line = Inr (obj', tree', m')" "is_request m'" "m_id m' = Some i" for obj' tree' m' i
        using that m False by (auto intro: free_idI)
    qed
    from goes_trans [OF g this] show ?thesis unfolding if_not_P [OF False] .
  qed
  show ?thesis
  proof (cases ?fresh)
    case none: None
    show ?thesis unfolding paired_message_def None option.case none by (simp add: goes_write)
  next
    case (Some fr)
    show ?thesis
    proof (cases fr)
      case n: None
      have "goes gc w None p (Some (action_card no_decision s [])) p" by (rule goes_no_action) simp
      from rest [OF this] show ?thesis unfolding paired_message_def None option.case Some n by simp
    next
      case a: (Some an)
      obtain aid n where an: "an = (aid, n)" by (cases an)
      have new: "new_action_id (c_session gc) (x_action_seq p) = Some (aid, n)" "m_method m = ''tools/call''"
        using Some a an by (auto split: if_splits)
      have "goes gc w None p (Some (action_card no_decision s aid)) (on_queue (queue_action_id s aid) (p\<lparr>x_action_seq := n\<rparr>))"
        by (rule goes_new [OF new(1)]) simp
      from rest [OF this new(2)] show ?thesis unfolding paired_message_def None option.case Some a an by simp
    qed
  qed
qed

lemma goes_agent: "goes gc w None p None (snd (agent_line gc w sent line p))"
proof (cases "p_pairing (c_session gc) \<and> run_stopping (c_session gc)")
  case True
  then show ?thesis by (simp add: agent_line_def)
next
  case run: False
  let ?l = "is_listing gc line"
  let ?p0 = "if ?l \<and> exact_list_params line = None then x_invalidate p else p"
  have g0: "goes gc w None p None ?p0" by (simp add: goes_invalidate)
  show ?thesis
  proof (cases "audit_failing gc w ?p0")
    case True
    have "goes gc w None ?p0 None (if ?l then x_invalidate ?p0 else ?p0)" by (simp add: goes_invalidate)
    from goes_trans [OF g0 goes_trans [OF this goes_write(2)]] show ?thesis
      unfolding agent_line_def if_not_P [OF run] Let_def if_P [OF True] snd_conv .
  next
    case af: False
    let ?p1 = "on_queue (\<lambda>q. snd (reserve_sequence q)) ?p0"
    let ?s = "fst (reserve_sequence (x_queue ?p0))"
    have "goes gc w None ?p0 None ?p1"
      by (rule goes_frame) (auto simp: reserve_sequence_def queue_ok_def intro!: noted_idle)
    then have g1: "goes gc w None p None ?p1" by (rule goes_trans [OF g0])
    have blank: "goes gc w None ?p1 (Some (action_card no_decision ?s [])) ?p1" by (rule goes_no_action) simp
    have e: "agent_line gc w sent line p = (if \<not> p_pairing (c_session gc) then decide_line gc w sent ?l line ?s [] ?p1
        else (case canonicalize_message line of Inl _ \<Rightarrow> decide_line gc w sent ?l line ?s [] ?p1
            | Inr (obj, tree, m) \<Rightarrow> paired_message gc w sent ?l line ?s m ?p1))"
      unfolding agent_line_def if_not_P [OF run] Let_def if_not_P [OF af] by (rule refl)
    show ?thesis
    proof (cases "p_pairing (c_session gc) \<and> (\<exists>c. canonicalize_message line = Inr c)")
      case True
      then obtain obj tree m where m: "canonicalize_message line = Inr (obj, tree, m)" by (metis prod.exhaust)
      show ?thesis unfolding e m using goes_trans [OF g1 goes_paired] True m by simp
    next
      case False
      have "goes gc w (Some (action_card no_decision ?s [])) ?p1 None (snd (decide_line gc w sent ?l line ?s [] ?p1))"
        by (rule goes_decide_line [OF blank_action_card]) (use False in auto)
      from goes_trans [OF g1 goes_trans [OF blank this]]
      show ?thesis unfolding e using False by (cases "canonicalize_message line") auto
    qed
  qed
qed

lemma goes_step: "session_step gc w digest fold_min p p' \<Longrightarrow> goes gc w None p None p'"
  by (induction rule: session_step.induct) (rule goes_agent goes_upstream goes_eof)+

lemma goes_run: "session_run gc w digest fold_min p p' \<Longrightarrow> goes gc w None p None p'"
  by (induction rule: session_run.induct) (auto intro: goes_trans goes_step)

subsection \<open>What a session leaves\<close>

text \<open>The observations of one action among some rows.\<close>

definition outcomes_of :: "bytes \<Rightarrow> event list \<Rightarrow> bytes list" where
  "outcomes_of aid evs =
     map observation (filter (\<lambda>ev. record_type ev = ''action_observation'' \<and> action_id ev = aid) evs)"

lemma outcomes_history: "outcomes_of aid evs = history (observations_in evs) aid"
  by (induction evs) (simp_all add: outcomes_of_def observations_in_def is_observation_def)

lemma outcomes_uncard: "outcomes_of aid (map uncard evs) = outcomes_of aid evs"
  by (induction evs) (simp_all add: outcomes_of_def uncard_def)

lemma outcomes_mset:
  assumes "mset (map uncard xs) = mset (map uncard ys)"
  shows "mset (outcomes_of aid xs) = mset (outcomes_of aid ys)"
proof -
  have f: "mset (outcomes_of aid zs) =
      image_mset observation (filter_mset (\<lambda>ev. record_type ev = ''action_observation'' \<and> action_id ev = aid) (mset zs))" for zs
    by (simp add: outcomes_of_def)
  show ?thesis using f [of "map uncard xs"] f [of "map uncard ys"] assms by (simp only: outcomes_uncard)
qed

lemma book_new: "book gc w [] (new_proxy lm wr) None"
  by (simp add: book_def new_proxy_def accounted_def sound_outcome_def apart_ids_def covered_def issued_def)

lemma run_queue_ok:
  assumes "session_run gc w digest fold_min (new_proxy lm wr) p"
  shows "queue_ok (x_queue p)"
proof -
  let ?q = "x_queue (new_proxy lm wr) :: 'a queue"
  have "queue_ok ?q" by (simp add: x_queue_def new_proxy_def queue_ok_def empty_queue_def)
  moreover obtain os where "noted (w_record w) ?q os (x_queue p)"
    using goes_run [OF assms] book_new unfolding goes_def by (metis append_Nil)
  ultimately show ?thesis unfolding noted_def by blast
qed

text \<open>What the books of a run say of its trail.\<close>

lemma run_book:
  assumes "session_run gc w digest fold_min (new_proxy lm wr) p"
  obtains os l where "book gc w os p None" "q_writer (x_queue p) = replay_log (w_record w) l wr"
    "\<And>aid. mset (outcomes_of aid (map snd l @ queued (x_queue p))) = mset (history os aid)"
proof -
  let ?q = "x_queue (new_proxy lm wr) :: 'a queue"
  obtain os where os: "noted (w_record w) ?q os (x_queue p)" "book gc w os p None"
    using goes_run [OF assms] book_new unfolding goes_def by (metis append_Nil)
  have q: "?q = empty_queue wr" by (simp add: new_proxy_def x_queue_def)
  have "queue_ok ?q" unfolding q by (simp add: queue_ok_def empty_queue_def)
  then obtain rows where r: "moves (w_record w) ?q rows (x_queue p)" "observations_in rows = os"
    using os(1) unfolding noted_def by blast
  then obtain l where l: "q_writer (x_queue p) = replay_log (w_record w) l wr"
      "mset (map uncard (map snd l)) + mset (map uncard (queued (x_queue p))) = mset (map uncard rows)"
    unfolding moves_def q by (auto simp: queued_def empty_queue_def)
  have "mset (map uncard (map snd l @ queued (x_queue p))) = mset (map uncard rows)" using l(2) by simp
  from outcomes_mset [OF this] have "mset (outcomes_of aid (map snd l @ queued (x_queue p))) = mset (history os aid)" for aid
    using r(2) by (simp add: outcomes_history)
  from that [OF os(2) l(1) this] show thesis .
qed






text \<open>
  C3. However the lines of the agent and the upstream interleave, the observations recorded for one action never
  contradict each other: at most one terminal outcome, and a late response only after an unknown outcome.
\<close>

theorem one_outcome_per_action:
  assumes "session_run gc w digest fold_min (new_proxy lm wr) p"
  shows "\<exists>l. q_writer (x_queue p) = replay_log (w_record w) l wr
    \<and> (\<forall>aid. \<exists>h. sound_outcome h \<and> mset (outcomes_of aid (map snd l @ queued (x_queue p))) = mset h)"
proof -
  obtain os l where r: "book gc w os p None" "q_writer (x_queue p) = replay_log (w_record w) l wr"
      "\<And>aid. mset (outcomes_of aid (map snd l @ queued (x_queue p))) = mset (history os aid)"
    using run_book [OF assms] by blast
  have "sound_outcome (history os aid)" for aid using r(1) accountedD(1) unfolding book_def by blast
  then show ?thesis using r(2,3) by blast
qed


text \<open>
  C31. In every state of a session the map of requests in flight is well formed: one entry per identifier, each card
  under the identifier of its request, no two cards for one action, every action named by this session, and in a
  session that pairs actions no two identifiers that JSON takes for the same.
\<close>

theorem requests_in_flight_well_formed:
  assumes "session_run gc w digest fold_min (new_proxy lm wr) p"
  shows "distinct (map fst (x_pending p))
    \<and> (\<forall>(k, v)\<in>set (x_pending p). \<forall>pc. v = Waiting pc \<longrightarrow>
        pc_request pc = Some k \<and> (pc_action pc \<noteq> [] \<longrightarrow> issued (c_session gc) (x_action_seq p) (pc_action pc)))
    \<and> distinct [pc_action pc. (k, Waiting pc) \<leftarrow> x_pending p, pc_action pc \<noteq> []]
    \<and> (p_pairing (c_session gc) \<longrightarrow> distinct (map (\<lambda>(k, v). Json.norm k) (x_pending p)))"
proof -
  obtain os where b: "book gc w os p None" using run_book [OF assms] by blast
  note d = conjunct1 [OF b [unfolded book_def]]
  have a: "accounted (c_session gc) os (x_action_seq p) (map_of (x_pending p)) None" using b unfolding book_def by blast
  have m: "map_of (x_pending p) k = Some v" if "(k, v) \<in> set (x_pending p)" for k v using d that by simp
  have 1: "pc_request pc = Some k \<and> (pc_action pc \<noteq> [] \<longrightarrow> issued (c_session gc) (x_action_seq p) (pc_action pc))"
    if "(k, Waiting pc) \<in> set (x_pending p)" for k pc
    using accountedD(3,4) [OF a m [OF that]] unfolding card_ok_def by blast
  have 2: "distinct [pc_action pc. (k, Waiting pc) \<leftarrow> xs, pc_action pc \<noteq> []]" if "distinct (map fst xs)" "set xs \<subseteq> set (x_pending p)" for xs
    using that
  proof (induction xs)
    case (Cons x xs)
    obtain k v where x: "x = (k, v)" by (cases x)
    show ?case
    proof (cases "\<exists>pc. v = Waiting pc \<and> pc_action pc \<noteq> []")
      case True
      then obtain pc where v: "v = Waiting pc" "pc_action pc \<noteq> []" by blast
      have ne: "pc_action pc' \<noteq> pc_action pc" if "(k', Waiting pc') \<in> set xs" for k' pc'
      proof
        assume e: "pc_action pc' = pc_action pc"
        have "(k, Waiting pc) \<in> set (x_pending p)" "(k', Waiting pc') \<in> set (x_pending p)" using Cons.prems(2) that x v(1) by auto
        then have "k = k'" using accountedD(5) [OF a m m, of k pc k' pc'] e v(2) by simp
        then show False using Cons.prems(1) that x by force
      qed
      have "distinct [pc_action pc. (k, Waiting pc) \<leftarrow> xs, pc_action pc \<noteq> []]" using Cons by simp
      then show ?thesis unfolding x v(1) using v(2) by (auto split: pending.splits dest: ne [symmetric])
    next
      case False
      then show ?thesis using Cons x by (cases v) auto
    qed
  qed simp
  have 3: "distinct (map (\<lambda>(k, v). Json.norm k) xs)" if "distinct (map fst xs)" "set xs \<subseteq> set (x_pending p)" "p_pairing (c_session gc)" for xs
    using that
  proof (induction xs)
    case (Cons x xs)
    obtain k v where x: "x = (k, v)" by (cases x)
    have "apart_ids (map_of (x_pending p)) None" using b Cons.prems(3) unfolding book_def by blast
    then have ap: "\<forall>a\<in>dom (map_of (x_pending p)). \<forall>b\<in>dom (map_of (x_pending p)). same_id a b \<longrightarrow> a = b"
      unfolding apart_ids_def by (rule conjunct1)
    have "Json.norm k' \<noteq> Json.norm k" if "(k', v') \<in> set xs" for k' v'
    proof
      assume "Json.norm k' = Json.norm k"
      moreover have "k \<in> dom (map_of (x_pending p))" "k' \<in> dom (map_of (x_pending p))"
        using m [of k v] m [of k' v'] Cons.prems(2) x that by auto
      ultimately have "k' = k" using ap unfolding same_id_iff by blast
      then show False using Cons.prems(1) that x by force
    qed
    then show ?case using Cons x by force
  qed simp
  show ?thesis using d 1 2 [OF d order.refl] 3 [OF d order.refl] by auto
qed

subsection \<open>A session\<close>

text \<open>An agent without a policy calls a tool: the call is refused, and its action has the outcome of that.\<close>

definition demo_pair_gc :: gate_config where
  "demo_pair_gc =
     \<lparr>c_session = demo_session\<lparr>p_pairing := True, p_run_id := ''r'', p_required := False, run_active := True\<rparr>,
      c_engine = \<lparr>config = \<lparr>agents = [], audit = None\<rparr>, warnings = []\<rparr>, c_upstream = [], c_validator = None\<rparr>"

definition demo_refused :: "event list proxy" where
  "demo_refused = snd (agent_line demo_pair_gc demo_world True (json_print demo_shadow_call) (new_proxy None []))"

lemma demo_refused_run: "session_run demo_pair_gc demo_world (\<lambda>_. None) id (new_proxy None []) demo_refused"
  unfolding demo_refused_def by (rule session_more [OF session_start session_agent])

lemma quiet_seq [simp]:
  "x_action_seq (reject_to_agent i code msg p) = x_action_seq p" "x_action_seq (x_invalidate p) = x_action_seq p"
  "x_action_seq (forget_observed aid p) = x_action_seq p"
  by (cases i, simp_all add: reject_to_agent_def reply_error_def x_invalidate_def forget_observed_def)

lemma observe_action_seq: "observe_action gc w obs why class mcp pc p = (bad, pc', p') \<Longrightarrow> x_action_seq p' = x_action_seq p"
  using observe_action_frame(3) [of gc w obs why "class" mcp pc p] unfolding observed_state_def by simp

lemma reject_line_seq [simp]: "x_action_seq (reject_line gc w listing s aid d p) = x_action_seq p"
proof -
  obtain bad pc q where o: "observe_action gc w ''not_forwarded'' (d_cause d) [] None (action_card d s aid)
      (x_resolve gc w s (if listing then x_invalidate p else p)) = (bad, pc, q)" by (rule prod_cases3)
  from observe_action_seq [OF o] have "x_action_seq q = x_action_seq p" by simp
  then show ?thesis unfolding reject_line_def Let_def o by (simp add: case_prod_unfold)
qed

lemma refuse_duplicate_seq [simp]: "x_action_seq (refuse_duplicate gc w listing s aid m p) = x_action_seq p"
  unfolding refuse_duplicate_def observed_state_def [symmetric] by (simp add: Let_def case_prod_unfold)




lemma one_outcome_per_action_witness:
  "\<exists>l. q_writer (x_queue demo_refused) = replay_log (w_record demo_world) l []
    \<and> (\<forall>aid. \<exists>h. sound_outcome h \<and> mset (outcomes_of aid (map snd l @ queued (x_queue demo_refused))) = mset h)"
  by (rule one_outcome_per_action [OF demo_refused_run])

lemma requests_in_flight_well_formed_witness:
  "distinct (map (\<lambda>(k, v). Json.norm k) (x_pending demo_refused))"
  using requests_in_flight_well_formed [OF demo_refused_run] by (simp add: demo_pair_gc_def)


end
