(* ===== verification/Conduct.thy ===== *)
theory Conduct
  imports Session
begin

text \<open>
  What every step of a session keeps. A session changes its state through few primitive updates: rows and
  settlements of the audit queue, observations, the catalog, the requests in flight, a line to the agent, a
  message sent. The locale holds for any preorder that those keep, and concludes that every step and
  every run keeps it; its interpretations say what the agent is told and how the catalog evolves.
\<close>

subsection \<open>The primitive updates\<close>

locale session_preorder =
  fixes gc :: gate_config and w :: "'w world" and R :: "'w proxy \<Rightarrow> 'w proxy \<Rightarrow> bool"
  assumes refl: "R p p"
    and trans: "R p q \<Longrightarrow> R q r \<Longrightarrow> R p r"
    and decided: "R p (p\<lparr>x_gate := snd (decide gc w line s (x_gate p))\<rparr>)"
    and oversized: "reject_oversized gc w kind name i (x_gate p) = Some (d, g) \<Longrightarrow> R p (p\<lparr>x_gate := g\<rparr>)"
    and filtered: "R p (p\<lparr>x_gate := snd (filter_tool_list gc w digest line s build (x_gate p))\<rparr>)"
    and queue: "R p (on_queue f p)"
    and row: "R p (on_gate (gate_append gc s tool decision why refs actor) p)"
    and row_now: "R p (on_gate (gate_audit_now gc w tool decision why refs aid) p)"
    and observed: "R p (on_gate (\<lambda>g. g\<lparr>g_observed := obs g\<rparr>) p)"
    and began: "R p (on_gate (\<lambda>g. g\<lparr>g_catalog := snd (begin_list params (g_catalog g))\<rparr>) p)"
    and invalidated: "R p (x_invalidate p)"
    and pending: "R p (p\<lparr>x_pending := ps\<rparr>)"
    and active: "R p (p\<lparr>x_active := as\<rparr>)"
    and numbered: "R p (p\<lparr>x_action_seq := n\<rparr>)"
    and told: "R p (write_agent line p)"
    and sent: "R p (p\<lparr>x_sent := x_sent p @ [t]\<rparr>)"
begin

lemma queue_then: "R p q \<Longrightarrow> R p (on_queue f q)" by (rule trans [OF _ queue])
lemma row_then: "R p q \<Longrightarrow> R p (on_gate (gate_append gc s tool decision why refs actor) q)" by (rule trans [OF _ row])
lemma row_now_then: "R p q \<Longrightarrow> R p (on_gate (gate_audit_now gc w tool decision why refs aid) q)" by (rule trans [OF _ row_now])
lemma told_then: "R p q \<Longrightarrow> R p (write_agent line q)" by (rule trans [OF _ told])
lemma invalidated_then: "R p q \<Longrightarrow> R p (x_invalidate q)" by (rule trans [OF _ invalidated])

lemma settled_then: "R p q \<Longrightarrow> R p (x_resolve gc w s q)"
proof -
  have "x_resolve gc w s q = on_queue (resolve_audit (c_session gc) (w_record w) s) q"
    by (simp add: x_resolve_def on_queue_def gate_resolve_def on_gate_def)
  then show "R p q \<Longrightarrow> R p (x_resolve gc w s q)" using queue_then by simp
qed

lemma forgotten_then: "R p q \<Longrightarrow> R p (forget_observed aid q)"
  unfolding forget_observed_def by (rule trans [OF _ observed])

lemma noted_then: "R p q \<Longrightarrow> R p (store_observed aid ob q)"
  unfolding store_observed_def using trans [OF _ observed] by simp

lemma stored_then: "R p q \<Longrightarrow> R p (store_pending i v q)"
  unfolding store_pending_def by (rule trans [OF _ pending])

lemma dropped_then: "R p q \<Longrightarrow> R p (drop_pending i q)"
  unfolding drop_pending_def by (rule trans [OF _ pending])

lemma tracked_then: "R p q \<Longrightarrow> R p (track_request s i q)"
  unfolding track_request_def by (rule trans [OF _ active])

lemma released_then: "R p q \<Longrightarrow> R p (release_request s q)"
  unfolding release_request_def by (rule trans [OF _ active])

lemma rejected_then: "R p q \<Longrightarrow> R p (reject_to_agent i code msg q)"
  unfolding reject_to_agent_def reply_error_def by (cases i) (auto intro: told_then)

lemma appended_then: "R p q \<Longrightarrow> R p (snd (append_observation gc w s ev q))"
  unfolding append_observation_def Let_def by (auto simp: case_prod_unfold intro: queue_then)

lemma seen_then: "R p q \<Longrightarrow> R p (observed_state gc w obs why class mcp pc q)"
  unfolding observed_state_def observe_action_def Let_def
  by (auto simp: case_prod_unfold intro: appended_then trans [OF appended_then observed] split: option.split)

lemma unknown_then: "R p q \<Longrightarrow> R p (snd (mark_unknown gc w why pc q))"
  unfolding mark_unknown_eq snd_conv by (rule seen_then)

lemmas quiet_then =
  queue_then row_then row_now_then invalidated_then settled_then forgotten_then noted_then stored_then dropped_then
  tracked_then released_then rejected_then told_then seen_then unknown_then

text \<open>The steps of a line from the agent.\<close>

lemma rejecting: "R p (reject_line gc w listing s aid d p)"
proof -
  let ?q = "x_resolve gc w s (if listing then x_invalidate p else p)"
  obtain bad pc q where o: "observe_action gc w ''not_forwarded'' (d_cause d) [] None (action_card d s aid) ?q = (bad, pc, q)"
    by (rule prod_cases3)
  have "R p ?q" by (rule settled_then) (simp add: refl invalidated)
  moreover from seen_then [OF this, of "''not_forwarded''" "d_cause d" "[]" None "action_card d s aid"] have "R p q"
    unfolding observed_state_def o by simp
  ultimately show ?thesis unfolding reject_line_def Let_def o by (auto simp: case_prod_unfold intro: rejected_then)
qed

lemma listing_started:
  assumes "start_listing gc w line s i p = (r, q)"
  shows "R p q" "r = Some q' \<Longrightarrow> R p q'"
proof -
  have b: "R p (on_gate (\<lambda>g. g\<lparr>g_catalog := snd (case exact_list_params line of
               None \<Rightarrow> (0, invalidate (g_catalog (x_gate p)))
             | Some params \<Rightarrow> begin_list params (g_catalog (x_gate p)))\<rparr>) p)"
  proof (cases "exact_list_params line")
    case None
    have "on_gate (\<lambda>g. g\<lparr>g_catalog := invalidate (g_catalog (x_gate p))\<rparr>) p = x_invalidate p"
      by (simp add: x_invalidate_def on_gate_def)
    then show ?thesis using invalidated [of p] None by simp
  next
    case (Some params)
    then show ?thesis using began [of p params] by (simp add: on_gate_def)
  qed
  show "R p q" "r = Some q' \<Longrightarrow> R p q'"
    using assms b by (auto simp: start_listing_def Let_def case_prod_unfold refl split: if_splits
        intro!: rejected_then settled_then tracked_then stored_then trans [OF _ row])
qed

lemma rechecked:
  assumes "recheck_pin gc w s aid d m p = (r, q)"
  shows "R p q" "r = Some q' \<Longrightarrow> R p q'"
  using assms unfolding recheck_pin_def observed_state_def [symmetric]
  by (auto simp: Let_def case_prod_unfold refl split: if_splits
      intro!: rejected_then noted_then seen_then row_now_then settled_then)

lemma dispatch_recorded:
  assumes "record_dispatch gc w s aid d m p = (r, q)"
  shows "R p q" "r = Some q' \<Longrightarrow> R p q'"
  using assms unfolding record_dispatch_def
  by (auto simp: Let_def refl split: if_splits intro!: rejected_then forgotten_then row_now_then settled_then)

lemma card_stored_then: "R p q \<Longrightarrow> R p (store_card gc s aid d q)"
  unfolding store_card_def by (auto intro: stored_then tracked_then split: option.split)

lemma entry_lost_then: "R p q \<Longrightarrow> R p (lose_entry gc w i q)"
  unfolding lose_entry_def by (auto intro: dropped_then unknown_then split: option.split pending.split)

lemma transport_lost_then: "R p q \<Longrightarrow> R p (lose_transport gc w s aid d m q)"
  unfolding lose_transport_def Let_def
  by (auto intro: settled_then unknown_then released_then entry_lost_then invalidated_then split: option.split)

lemma cancelled: "R p (cancel_action gc w i p)"
  unfolding cancel_action_def mark_unknown_eq by (auto simp: Let_def intro: refl stored_then seen_then split: option.split pending.split)

lemma forwarding: "R p (snd (forward_line gc w sends s aid d t p))"
proof -
  let ?m = "request_of t"
  let ?p1 = "if p_pairing (c_session gc) \<and> m_method ?m = ''notifications/cancelled''
    then cancel_action gc w (cancellation_request_id ?m) p else p"
  have c: "R p ?p1" by (simp add: refl cancelled)
  obtain r q where r: "(if m_method ?m = ''tools/call'' \<and> has_tool_pin_constraints (c_engine gc) (c_agent gc)
        then recheck_pin gc w s aid d ?m ?p1 else (Some ?p1, ?p1)) = (r, q)" by fastforce
  have rq: "R ?p1 q" "\<And>q'. r = Some q' \<Longrightarrow> R ?p1 q'"
    using r rechecked [of s aid d ?m ?p1 r q] refl by (cases "m_method ?m = ''tools/call'' \<and> has_tool_pin_constraints (c_engine gc) (c_agent gc)"; simp)+
  show ?thesis
  proof (cases r)
    case None
    then show ?thesis unfolding forward_line_def Let_def r using trans [OF c rq(1)] by simp
  next
    case (Some p2)
    obtain r' q' where d: "record_dispatch gc w s aid d ?m p2 = (r', q')" by fastforce
    have p2: "R p p2" by (rule trans [OF c rq(2) [OF Some]])
    note dq = trans [OF p2 dispatch_recorded(1) [OF d]]
    show ?thesis
    proof (cases r')
      case None
      then show ?thesis unfolding forward_line_def Let_def r Some using dq d by simp
    next
      case (Some p3)
      have p3: "R p p3" by (rule trans [OF p2 dispatch_recorded(2) [OF d Some]])
      show ?thesis unfolding forward_line_def Let_def r \<open>r = Some p2\<close> option.case prod.case d Some
        using p3 by (auto intro: card_stored_then transport_lost_then unknown_then settled_then trans [OF card_stored_then sent])
    qed
  qed
qed

lemma decided_line: "R p (snd (decided_line gc w sends listing line s aid d p))"
proof (cases "audit_failing gc w p")
  case True
  then show ?thesis by (auto simp: decided_line_def intro: rejected_then forgotten_then settled_then refl)
next
  case af: False
  obtain r q where r: "(case d_tools_list_id d of None \<Rightarrow> (Some p, p) | Some i \<Rightarrow> start_listing gc w line s i p) = (r, q)" by fastforce
  have rq: "R p q \<and> (\<forall>q'. r = Some q' \<longrightarrow> R p q')"
  proof (cases "d_tools_list_id d")
    case None
    then show ?thesis using r refl by auto
  next
    case (Some i)
    then have "start_listing gc w line s i p = (r, q)" using r by simp
    then show ?thesis using listing_started by blast
  qed
  show ?thesis
  proof (cases r)
    case None
    then show ?thesis using rq r af by (simp add: decided_line_def)
  next
    case (Some p1)
    then have p1: "R p p1" using rq by blast
    let ?p2 = "if d_reject d then reject_line gc w listing s aid d p1 else p1"
    have p2: "R p ?p2" using p1 trans [OF p1 rejecting] by simp
    have f: "R p (snd (forward_line gc w sends s aid d t ?p2))" for t by (rule trans [OF p2 forwarding])
    show ?thesis
      unfolding decided_line_def Let_def if_not_P [OF af] r Some option.case prod.case
      using p2 f by (auto simp: case_prod_unfold intro: settled_then split: option.split)
  qed
qed

lemma duplicate_refused: "R p (refuse_duplicate gc w listing s aid m p)"
  unfolding refuse_duplicate_def observed_state_def [symmetric]
  by (auto simp: Let_def case_prod_unfold intro!: rejected_then settled_then seen_then row_then invalidated refl)

lemma decide_line: "R p (snd (decide_line gc w sends listing line s aid p))"
  unfolding decide_line_def using trans [OF decided decided_line] by (simp add: case_prod_unfold Let_def)

lemma paired_message: "R p (snd (paired_message gc w sends listing line s m p))"
proof (cases "reject_oversized gc w (fst (kind_name m)) (snd (kind_name m)) (m_id m) (x_gate p)")
  case (Some r)
  obtain d g where r: "r = (d, g)" by fastforce
  have "R p (p\<lparr>x_gate := g\<rparr>)" by (rule oversized [OF Some [unfolded r]])
  then show ?thesis unfolding paired_message_def Some r
    by (auto simp: Let_def case_prod_unfold intro!: rejected_then settled_then invalidated_then)
next
  case n: None
  let ?fresh = "if m_method m = ''tools/call'' then map_option Some (new_action_id (c_session gc) (x_action_seq p)) else Some None"
  show ?thesis
  proof (cases ?fresh)
    case None
    then show ?thesis unfolding paired_message_def n option.case None by (auto intro: rejected_then refl)
  next
    case (Some f)
    obtain aid p1 where f: "(case f of None \<Rightarrow> ([], p) | Some (a, n) \<Rightarrow> (a, on_queue (queue_action_id s a) (p\<lparr>x_action_seq := n\<rparr>))) = (aid, p1)"
      by fastforce
    have p1: "R p p1" using f queue_then [OF numbered] refl by (auto split: option.splits prod.splits)
    show ?thesis unfolding paired_message_def n option.case Some f
      using trans [OF p1 decide_line] trans [OF p1 duplicate_refused] by simp
  qed
qed

lemma agent: "R p (snd (agent_line gc w sends line p))"
proof (cases "p_pairing (c_session gc) \<and> run_stopping (c_session gc)")
  case True
  then show ?thesis by (simp add: agent_line_def refl)
next
  case run: False
  let ?l = "is_listing gc line"
  let ?p0 = "if ?l \<and> exact_list_params line = None then x_invalidate p else p"
  have p0: "R p ?p0" by (simp add: refl invalidated)
  show ?thesis
  proof (cases "audit_failing gc w ?p0")
    case True
    show ?thesis unfolding agent_line_def if_not_P [OF run] Let_def if_P [OF True] snd_conv
      by (rule rejected_then) (use p0 invalidated_then [OF p0] in \<open>cases ?l; simp only: if_True if_False\<close>)
  next
    case af: False
    let ?p1 = "on_queue (\<lambda>q. snd (reserve_sequence q)) ?p0"
    have p1: "R p ?p1" by (rule queue_then [OF p0])
    note d = trans [OF p1 decide_line] and m = trans [OF p1 paired_message]
    show ?thesis
    proof (cases "p_pairing (c_session gc) \<and> (\<exists>c. canonicalize_message line = Inr c)")
      case True
      then obtain obj tree msg where c: "canonicalize_message line = Inr (obj, tree, msg)" by (metis prod.exhaust)
      show ?thesis unfolding agent_line_def if_not_P [OF run] Let_def if_not_P [OF af] c using m True by simp
    next
      case False
      then show ?thesis unfolding agent_line_def if_not_P [OF run] Let_def if_not_P [OF af] using d
        by (cases "canonicalize_message line") auto
    qed
  qed
qed

text \<open>The steps of a line from the upstream, and of its end.\<close>

lemma loaded: "load_pending i p = Some (v, q) \<Longrightarrow> R p q"
  unfolding load_pending_def using dropped_then [OF refl] by (auto split: option.splits)

lemma invalid_answered: "R p (answer_invalid gc w k pc p)"
  unfolding answer_invalid_def mark_unknown_eq Let_def
  by (auto intro!: refl stored_then queue_then rejected_then settled_then seen_then)

lemma card_settled: "R p (snd (settle_card gc w line m pc p))"
  unfolding settle_card_def mark_unknown_def Let_def
  by (auto simp: case_prod_unfold intro!: settled_then seen_then [unfolded observed_state_def] queue refl)

lemma card_set_then: "R p q \<Longrightarrow> R p (set_card i pc q)"
  unfolding set_card_def by (auto intro: stored_then split: option.split)

lemma answer_released_then: "R p q \<Longrightarrow> R p (release s q)"
  unfolding release_def by (intro released_then queue_then)

lemma card_answered: "R p (card_response gc w line m pc p)"
  unfolding card_response_def Let_def
  by (auto simp: case_prod_unfold intro!: card_set_then answer_released_then queue_then told_then card_settled refl)

lemma listing_answered: "R p (listing_response gc w digest line s build p)"
  unfolding listing_response_def Let_def
  by (auto simp: case_prod_unfold intro!: answer_released_then told_then settled_then filtered)

lemma relayed: "R p (relay_line gc w digest line msg p)"
  unfolding relay_line_def
  by (auto split: option.split pending.split intro: told refl trans [OF loaded listing_answered] trans [OF loaded card_answered])

lemma upstream: "R p (upstream_line gc w digest fold_min line p)"
proof -
  obtain q where q: "(case decode_message line of
      Some m \<Rightarrow> if m_method m = ''notifications/tools/list_changed'' then x_invalidate p else p | None \<Rightarrow> p) = q" by blast
  have p0: "R p q" unfolding q [symmetric] by (auto simp: refl invalidated split: option.split)
  note r = trans [OF p0 relayed] and a = trans [OF p0 invalid_answered]
  show ?thesis unfolding upstream_line_def Let_def q
    by (auto simp: p0 r a split: option.split prod.split bool.split)
qed

lemma finished: "R p (finish_pending gc w why p)"
proof -
  have "R p (fold (finish_entry gc w why) es q)" if "R p q" for es q
    using that
  proof (induction es arbitrary: q)
    case (Cons e es)
    have "R p (finish_entry gc w why e q)"
      using Cons.prems unfolding finish_entry_def mark_unknown_eq
      by (auto simp: Let_def case_prod_unfold intro: stored_then seen_then split: pending.split)
    then show ?case using Cons.IH by simp
  qed simp
  then show ?thesis unfolding finish_pending_def using refl by blast
qed

lemma ended: "R p (upstream_eof gc w scan_failed p)"
  unfolding upstream_eof_def by (rule queue_then [OF finished])

text \<open>Every step and every run keeps the relation.\<close>

lemma step: "session_step gc w digest fold_min p p' \<Longrightarrow> R p p'"
  by (induction rule: session_step.induct) (rule agent upstream ended)+

lemma run: "session_run gc w digest fold_min p p' \<Longrightarrow> R p p'"
  by (induction rule: session_run.induct) (auto intro: refl trans step)

end

end
