(* ===== verification/Replies.thy ===== *)
theory Replies
  imports Conduct Ledger
begin

text \<open>
  What the agent is told. Every line to the agent is scrubbed of the secrets tracked at that moment, and a
  secret that was injected stays tracked for the rest of the session as long as the set has room: then no
  later line holds it, in any of the encodings that are scrubbed.
\<close>

subsection \<open>The tracked secrets over time\<close>

definition roomy :: "scrub_set \<Rightarrow> bool" where
  "roomy s \<longleftrightarrow> length (sc_values s) < sc_max s"

text \<open>A set that still has room has lost nothing.\<close>

definition hides :: "scrub_set \<Rightarrow> scrub_set \<Rightarrow> bool" where
  "hides s s' \<longleftrightarrow> (roomy s' \<longrightarrow> roomy s \<and> set (sc_values s) \<subseteq> set (sc_values s'))"

lemma hides_refl: "hides s s"
  by (simp add: hides_def)

lemma hides_trans: "hides s s1 \<Longrightarrow> hides s1 s' \<Longrightarrow> hides s s'"
  unfolding hides_def by blast

lemma hides_add: "hides s (scrub_add v s)"
proof (cases "v \<in> set (sc_values s)")
  case True
  then have "Suc (length (remove1 v (sc_values s))) = length (sc_values s)"
    using length_pos_if_in_set [OF True] by (simp add: length_remove1)
  moreover have "set (sc_values s) \<subseteq> insert v (set (remove1 v (sc_values s)))"
    by (metis in_set_remove1 insertCI insertI1 subsetI)
  ultimately show ?thesis using True by (simp add: hides_def roomy_def scrub_add_def)
next
  case False
  then show ?thesis by (cases "sc_values s") (auto simp: hides_def roomy_def scrub_add_def)
qed

lemma hides_fold: "hides s (fold scrub_add vs s)"
proof (induction vs arbitrary: s)
  case (Cons v vs)
  show ?case using hides_trans [OF hides_add Cons.IH] by simp
qed (simp add: hides_refl)

lemma hides_added: "roomy (fold scrub_add vs s) \<Longrightarrow> set vs \<subseteq> set (sc_values (fold scrub_add vs s))"
proof (induction vs arbitrary: s)
  case (Cons v vs)
  have "v \<in> set (sc_values (scrub_add v s))" by (simp add: scrub_add_def)
  then show ?case using Cons hides_fold [of "scrub_add v s" vs] unfolding hides_def by auto
qed simp

interpretation hiding: gate_preorder gc w "\<lambda>g g'. hides (g_scrub g) (g_scrub g')" for gc w
  by unfold_locales (auto simp: hides_refl hides_fold gate_method_def intro: hides_trans)

lemma filter_tools_scrub: "g_scrub (snd (filter_tools gc w s see raws kept g)) = g_scrub g"
  by (induction gc w s see raws kept g rule: filter_tools.induct) (auto split: option.split)

lemma refuse_listing_scrub: "g_scrub (snd (refuse_listing gc s resp g)) = g_scrub g"
  by (simp add: refuse_listing_def)

lemma discard_scrub: "g_scrub (gate_discard build g) = g_scrub g"
  by (simp add: gate_discard_def)

lemma read_page_scrub: "g_scrub (snd (read_page digest build sz listed result g)) = g_scrub g"
  by (auto simp: read_page_def discard_scrub split: option.split prod.split)

lemma show_page_scrub: "g_scrub (snd (show_page gc w digest sz s build resp result listed g)) = g_scrub g"
proof -
  obtain build' obs cursor paginated g1 where r: "read_page digest build sz listed result g = ((build', obs, cursor, paginated), g1)"
    by (metis prod.exhaust)
  have g1: "g_scrub g1 = g_scrub g" using read_page_scrub [of digest build sz listed result g] r by simp
  obtain k g2 where f: "filter_tools gc w s (page_observation build' obs cursor paginated) listed [] g1 = (k, g2)" by fastforce
  have g2: "g_scrub g2 = g_scrub g"
    using filter_tools_scrub [of gc w s "page_observation build' obs cursor paginated" listed "[]" g1] f g1 by simp
  show ?thesis unfolding show_page_def r Let_def prod.case f
    by (simp add: case_prod_unfold refuse_listing_scrub g1 g2 split: option.split)
qed

lemma filter_tool_list_scrub: "g_scrub (snd (filter_tool_list gc w digest line s build g)) = g_scrub g"
  unfolding filter_tool_list_def
  by (simp add: refuse_listing_scrub discard_scrub show_page_scrub split: option.split)

subsection \<open>What is written to the agent\<close>

abbreviation scrub_of :: "'w proxy \<Rightarrow> scrub_set" where
  "scrub_of p \<equiv> g_scrub (x_gate p)"

text \<open>Lines written on the way from one state to another, each scrubbed by a set in between.\<close>

definition talks :: "'w proxy \<Rightarrow> 'w proxy \<Rightarrow> bool" where
  "talks p p' \<longleftrightarrow>
     hides (scrub_of p) (scrub_of p')
     \<and> (\<exists>new. x_replies p' = x_replies p @ new
         \<and> (\<forall>line\<in>set new. \<exists>raw sc. line = scrub (sc_values sc) raw \<and> hides (scrub_of p) sc \<and> hides sc (scrub_of p')))"

lemma talks_silent: "x_replies p' = x_replies p \<Longrightarrow> hides (scrub_of p) (scrub_of p') \<Longrightarrow> talks p p'"
  by (simp add: talks_def)

lemma talks_trans:
  assumes "talks p q" and "talks q r"
  shows "talks p r"
proof -
  obtain l1 where 1: "hides (scrub_of p) (scrub_of q)" "x_replies q = x_replies p @ l1"
      "\<forall>line\<in>set l1. \<exists>raw sc. line = scrub (sc_values sc) raw \<and> hides (scrub_of p) sc \<and> hides sc (scrub_of q)"
    using assms(1) unfolding talks_def by blast
  obtain l2 where 2: "hides (scrub_of q) (scrub_of r)" "x_replies r = x_replies q @ l2"
      "\<forall>line\<in>set l2. \<exists>raw sc. line = scrub (sc_values sc) raw \<and> hides (scrub_of q) sc \<and> hides sc (scrub_of r)"
    using assms(2) unfolding talks_def by blast
  have "\<exists>raw sc. line = scrub (sc_values sc) raw \<and> hides (scrub_of p) sc \<and> hides sc (scrub_of r)"
    if "line \<in> set (l1 @ l2)" for line
    using that 1(1,3) 2(1,3) hides_trans by (metis UnE set_append)
  then show ?thesis unfolding talks_def using 1(2) 2(2) hides_trans [OF 1(1) 2(1)] by (intro conjI exI [of _ "l1 @ l2"]) auto
qed

lemma talks_told: "talks p (write_agent line p)"
  unfolding talks_def using hides_refl by (auto simp: write_agent_def)

interpretation talking: session_preorder gc w talks for gc w
proof
  show "talks p (p\<lparr>x_gate := snd (decide gc w line s (x_gate p))\<rparr>)" for p :: "'a proxy" and line s
    by (rule talks_silent) (simp_all add: hiding.decided)
  show "talks p (p\<lparr>x_gate := g\<rparr>)" if "reject_oversized gc w kind name i (x_gate p) = Some (d, g)"
    for p :: "'a proxy" and kind name i d g
    by (rule talks_silent) (simp_all add: hiding.too_long [OF that])
qed (auto simp: talks_silent talks_told hides_refl filter_tool_list_scrub x_invalidate_def gate_audit_now_def
    remember_observation_def intro: talks_trans)

subsection \<open>Injected secrets are tracked\<close>

lemma inject_rows_scrub:
  "g_scrub (fold (\<lambda>(r, v) g. gate_append gc s tool ''inject'' (txt r) None []
      (g\<lparr>g_scrub := fold scrub_add (scrub_values [(r, v)]) (g_scrub g)\<rparr>)) xs g) = fold scrub_add (scrub_values xs) (g_scrub g)"
proof (induction xs arbitrary: g)
  case (Cons x xs)
  have "scrub_values (x # xs) = scrub_values [x] @ scrub_values xs" by (simp add: scrub_values_def)
  then show ?case using Cons.IH by (simp add: case_prod_unfold)
qed (simp add: scrub_values_def)

text \<open>The injection that produced some parameters, its values tracked as long as the set has room.\<close>

definition injected_tracked :: "gate_config \<Rightarrow> 'w world \<Rightarrow> bytes \<Rightarrow> json \<Rightarrow> json \<Rightarrow> scrub_set \<Rightarrow> bool" where
  "injected_tracked gc w tool params params' sc \<longleftrightarrow>
     (\<exists>resolved. apply_inject (w_resolve w) (inject_rules_for (c_engine gc) (c_agent gc) tool) params = Inr (params', resolved)
        \<and> (roomy sc \<longrightarrow> set (scrub_values resolved) \<subseteq> set (sc_values sc)))"

lemma injected_tracked_later:
  "injected_tracked gc w tool params params' sc \<Longrightarrow> hides sc sc' \<Longrightarrow> injected_tracked gc w tool params params' sc'"
  unfolding injected_tracked_def hides_def by blast

lemma inject_call_tracks:
  assumes "inject_call gc w tool params s g = (Inr params', g')"
  shows "injected_tracked gc w tool params params' (g_scrub g')"
proof -
  obtain resolved where a: "apply_inject (w_resolve w) (inject_rules_for (c_engine gc) (c_agent gc) tool) params = Inr (params', resolved)"
    using inject_call_Inr [OF assms] by blast
  have "g_scrub g' = fold scrub_add (scrub_values resolved) (g_scrub g)"
    using assms inject_rows_scrub unfolding inject_call_def a by auto
  then show ?thesis unfolding injected_tracked_def using a hides_added by metis
qed

lemma clear_call_tracks:
  assumes "clear_call gc w m obj name params refs dec s g = (d, g')" and f: "d_forward d = Some t"
  shows "\<exists>params'. injected_tracked gc w name params params' (g_scrub g') \<and> t = JObj (put ''params'' params' obj)"
proof -
  let ?hit = "if validator_enabled (c_validator gc) then check_params (w_match w) (c_validator gc) (json_print params) else []"
  obtain why b g1 where tb: "take_budget w g = ((why, b), g1)" by (metis prod.exhaust)
  let ?a = "if verdict dec = Ask then approve_ask gc w name params (Some refs) dec s g1 else (True, g1)"
  obtain ok g2 where a: "?a = (ok, g2)" by (cases ?a)
  obtain r g3 where i: "inject_call gc w name params s g2 = (r, g3)" by fastforce
  have hit: "?hit = []"
  proof (rule ccontr)
    assume "?hit \<noteq> []"
    then have "d_forward (fst (clear_call gc w m obj name params refs dec s g)) = None"
      unfolding clear_call_def Let_def by (simp only: if_True not_False_eq_True refuse_simps rejecting_simps)
    then show False using assms by simp
  qed
  note e = assms(1) [unfolded clear_call_def Let_def hit tb]
  obtain params' where p: "b" "ok" "r = Inr params'"
      "forward_call gc w m (JObj (put ''params'' params' obj)) name refs dec s g3 = (d, g')"
  proof (cases "b \<and> ok")
    case True
    show thesis
    proof (cases r)
      case (Inl msg)
      then show thesis using e f True by (auto simp: a i)
    next
      case (Inr params')
      then show thesis using that e True by (simp add: a i)
    qed
  next
    case False
    then show thesis using e f by (cases b; cases ok) (auto simp: a refuse_def)
  qed
  have "g_scrub g' = g_scrub g3" "t = JObj (put ''params'' params' obj)"
    using p(4) f by (auto simp: forward_call_def Let_def split: if_splits)
  moreover have "injected_tracked gc w name params params' (g_scrub g3)" by (rule inject_call_tracks [OF i [unfolded p(3)]])
  ultimately show ?thesis by auto
qed

lemma decide_tracks:
  assumes d: "decide gc w line s g = (d, g')" "d_forward d = Some t"
    and t: "message_of_tree t = Some m" "m_method m = ''tools/call''"
  shows "(\<exists>obj params params'. injected_tracked gc w (d_tool d) params params' (g_scrub g') \<and> t = JObj (put ''params'' params' obj))
    \<or> d_tool d = []"
proof (cases rule: decide_cases [of line gc w s g])
  case (undecoded f)
  then show ?thesis using d reject_undecoded_forward [of f] by simp
next
  case (oversized obj tree m0 kind name)
  then show ?thesis using oversized_Some [of gc w kind name "m_id m0" g d g'] d by simp
next
  case (plain obj tree m0)
  have "t = tree" using decide_method_forward [OF _ d(2)] plain(4) d(1) by metis
  then have "m0 = m" using canonicalize_message_spec(4) [OF plain(1)] t(1) by simp
  then show ?thesis using plain(2) t(2) by simp
next
  case (unnamed obj tree m0)
  then show ?thesis using decide_unnamed_forward [of gc w m0 tree s g d g' t] d by simp
next
  case (named obj tree m0 name params)
  obtain ob cz where ob: "pin_observation (c_engine gc) (c_agent gc) (c_upstream gc) name (catalog_observe (g_catalog g) name) = (ob, cz)"
    by fastforce
  have e: "decide_named gc w m0 obj name params s g = (d, g')" using named(6) d(1) by simp
  have n: "d_tool d = name" using decide_named_forward [OF e d(2) named(4,5)] by blast
  obtain dec where "clear_call gc w m0 obj name params (from_tool_call name (json_print params)) dec s g = (d, g')"
    using e d(2) unfolding decide_named_def Let_def ob refuse_def by (auto split: if_splits)
  from clear_call_tracks [OF this d(2)] show ?thesis using n by blast
qed

subsection \<open>Replies after a secret is tracked\<close>

text \<open>A tracked secret is in no line written later, as long as the set never fills.\<close>

lemma tracked_stays_hidden:
  assumes run: "session_run gc w digest fold_min p p'" and room: "roomy (scrub_of p')"
    and v: "v \<in> set (sc_values (scrub_of p))" "e \<in> set (encodings v)" "plain e"
  shows "\<exists>new. x_replies p' = x_replies p @ new \<and> (\<forall>line\<in>set new. \<not> contains line e)"
proof -
  from talking.run [OF run] obtain new where n: "x_replies p' = x_replies p @ new"
      "\<forall>line\<in>set new. \<exists>raw sc. line = scrub (sc_values sc) raw \<and> hides (scrub_of p) sc \<and> hides sc (scrub_of p')"
    unfolding talks_def by blast
  have "\<not> contains line e" if l: "line \<in> set new" for line
  proof -
    obtain raw sc where sc: "line = scrub (sc_values sc) raw" "hides (scrub_of p) sc" "hides sc (scrub_of p')" using n(2) l by blast
    have "v \<in> set (sc_values sc)" using sc(2,3) room v(1) unfolding hides_def by blast
    then show ?thesis unfolding sc(1) by (rule scrub_gone [OF v(3) _ v(2)])
  qed
  then show ?thesis using n(1) by blast
qed

end
