(* ===== verification/Dispatch.thy ===== *)
theory Dispatch
  imports Outcomes Replies
begin

text \<open>
  What leaves a session for the upstream. A line from the agent sends at most one message, the one the gate
  decided to forward; a tool call among them passed its pin again at dispatch, and where auditing is
  required its row was on record, with the writer sound, before it was sent.
\<close>

subsection \<open>Steps that send nothing\<close>

lemma quiet_sent [simp]:
  "x_sent (x_resolve gc w s p) = x_sent p" "x_sent (x_invalidate p) = x_sent p"
  "x_sent (forget_observed aid p) = x_sent p" "x_sent (store_observed aid ob p) = x_sent p"
  "x_sent (store_card gc s aid d p) = x_sent p"
  by (simp_all add: x_resolve_def x_invalidate_def forget_observed_def store_observed_def store_card_def split: option.split)

lemma quiet_catalog [simp]:
  "g_catalog (x_gate (x_resolve gc w s p)) = g_catalog (x_gate p)"
  "g_catalog (x_gate (forget_observed aid p)) = g_catalog (x_gate p)"
  "g_catalog (x_gate (store_observed aid ob p)) = g_catalog (x_gate p)"
  "g_catalog (x_gate (store_card gc s aid d p)) = g_catalog (x_gate p)"
  by (simp_all add: x_resolve_def forget_observed_def store_observed_def store_card_def split: option.split)

lemma quiet_queue [simp]:
  "x_queue (store_observed aid ob p) = x_queue p" "x_queue (store_card gc s aid d p) = x_queue p"
  "x_queue (forget_observed aid p) = x_queue p" "x_queue (x_invalidate p) = x_queue p"
  by (simp_all add: x_queue_def store_observed_def store_card_def forget_observed_def x_invalidate_def split: option.split)

lemma quiet_limiter [simp]:
  "g_limiter (x_gate (on_queue f p)) = g_limiter (x_gate p)" "g_limiter (x_gate (x_invalidate p)) = g_limiter (x_gate p)"
  by (simp_all add: on_queue_def x_invalidate_def)

lemma observed_sent: "x_sent (snd (snd (observe_action gc w obs why class mcp pc p))) = x_sent p"
  unfolding observed_state_def [symmetric] by simp

lemma unknown_sent [simp]:
  "x_sent (snd (mark_unknown gc w why pc p)) = x_sent p"
  "g_catalog (x_gate (snd (mark_unknown gc w why pc p))) = g_catalog (x_gate p)"
  by (simp_all add: mark_unknown_eq)

lemma cancel_sent [simp]: "x_sent (cancel_action gc w i p) = x_sent p"
  by (simp add: cancel_action_def case_prod_unfold Let_def split: option.split pending.split)

lemma lose_sent [simp]: "x_sent (lose_transport gc w s aid d m p) = x_sent p"
  by (simp add: lose_transport_def Let_def lose_entry_def case_prod_unfold split: option.split pending.split)

lemma reject_line_sent [simp]: "x_sent (reject_line gc w listing s aid d p) = x_sent p"
proof -
  obtain bad pc q where o: "observe_action gc w ''not_forwarded'' (d_cause d) [] None (action_card d s aid)
      (x_resolve gc w s (if listing then x_invalidate p else p)) = (bad, pc, q)" by (rule prod_cases3)
  from observed_sent [of gc w "''not_forwarded''" "d_cause d" "[]" None "action_card d s aid"
      "x_resolve gc w s (if listing then x_invalidate p else p)"]
  have "x_sent q = x_sent p" unfolding o by simp
  then show ?thesis unfolding reject_line_def Let_def o by (simp add: case_prod_unfold)
qed

lemma refuse_duplicate_sent [simp]: "x_sent (refuse_duplicate gc w listing s aid m p) = x_sent p"
  unfolding refuse_duplicate_def by (simp add: Let_def case_prod_unfold observed_sent)

lemma start_listing_sent:
  "start_listing gc w line s i p = (r, q) \<Longrightarrow> x_sent q = x_sent p \<and> (\<forall>q'. r = Some q' \<longrightarrow> x_sent q' = x_sent p)"
  by (auto simp: start_listing_def Let_def case_prod_unfold split: if_splits)

subsection \<open>The checks at dispatch\<close>

lemma recheck_pin_cases:
  obtains (passed) ob where "recheck_pin gc w s aid d m p = (Some (store_observed aid ob p), p)"
      "pin_holds gc (g_catalog (x_gate p)) (d_tool d)"
  | (blocked) q where "recheck_pin gc w s aid d m p = (None, q)" "x_sent q = x_sent p"
proof (cases "pin_observation (c_engine gc) (c_agent gc) (c_upstream gc) (d_tool d)
            (catalog_observe (g_catalog (x_gate p)) (d_tool d))")
  case (Pair ob cz)
  show thesis
  proof (cases "cz = []")
    case True
    then show thesis using Pair passed [of ob] unfolding recheck_pin_def pin_holds_def by simp
  next
    case False
    then show thesis
      by (intro blocked [of "snd (recheck_pin gc w s aid d m p)"])
        (simp_all add: recheck_pin_def Pair Let_def case_prod_unfold observed_sent)
  qed
qed

text \<open>The dispatch row of a tool is on record, the writer sound after it.\<close>

definition dispatch_recorded :: "gate_config \<Rightarrow> 'w world \<Rightarrow> bytes \<Rightarrow> 'w proxy \<Rightarrow> 'w proxy \<Rightarrow> bool" where
  "dispatch_recorded gc w tool p p' \<longleftrightarrow>
     (\<exists>l1 row l2. q_writer (x_queue p') = replay_log (w_record w) (l1 @ (c_session gc, row) # l2) (q_writer (x_queue p))
       \<and> ev_decision row = ''dispatch'' \<and> ev_tool row = tool
       \<and> \<not> w_required w (replay_log (w_record w) (l1 @ [(c_session gc, row)]) (q_writer (x_queue p))))"

lemma dispatch_row:
  assumes "x_gate q = gate_audit_now gc w tool ''dispatch'' why refs aid (x_gate p)"
  shows "\<exists>row. q_writer (x_queue q) = replay_log (w_record w) [(c_session gc, row)] (q_writer (x_queue p))
    \<and> ev_decision row = ''dispatch'' \<and> ev_tool row = tool"
proof -
  have o: "ev_decision (apply_observation gc g ev) = ev_decision ev" "ev_tool (apply_observation gc g ev) = ev_tool ev" for g ev
    by (simp_all add: apply_observation_def set_observation_fields_def)
  have s: "q_writer (score_decision ses dec z) = q_writer z" "q_writer (forward_decision ses t dec why' z) = q_writer z"
    for ses dec t why' and z :: "'a queue"
    by (simp_all add: score_decision_def forward_decision_def split: option.split)
  let ?row = "stamp_card (q_current (score_decision (c_session gc) ''dispatch'' (x_queue p)))
    (audit_row (c_session gc) (apply_observation gc (x_gate p)) aid tool ''dispatch'' why refs [])"
  have "q_writer (x_queue q) = replay_log (w_record w) [(c_session gc, ?row)] (q_writer (x_queue p))"
    unfolding x_queue_def assms by (simp add: gate_audit_now_def remember_observation_def audit_now_def Let_def s)
  moreover have "ev_decision ?row = ''dispatch''" "ev_tool ?row = tool"
    by (simp_all add: stamp_card_def audit_row_def Let_def set_refs_def set_action_fields_def o split: option.split)
  ultimately show ?thesis by blast
qed

lemma record_dispatch_cases:
  obtains (unneeded) "record_dispatch gc w s aid d m p = (Some p, p)" "\<not> (p_required (c_session gc) \<and> m_method m = ''tools/call'')"
  | (recorded) q where "record_dispatch gc w s aid d m p = (Some q, q)" "x_sent q = x_sent p"
      "g_catalog (x_gate q) = g_catalog (x_gate p)" "dispatch_recorded gc w (d_tool d) p q"
      "noted (w_record w) (x_queue p) [] (x_queue q)"
  | (failed) q where "record_dispatch gc w s aid d m p = (None, q)" "x_sent q = x_sent p"
proof (cases "p_required (c_session gc) \<and> m_method m = ''tools/call''")
  case False
  then show thesis by (intro unneeded) (auto simp: record_dispatch_def)
next
  case True
  let ?q = "on_gate (gate_audit_now gc w (d_tool d) ''dispatch'' ''required-audit-before-forward'' (d_refs d) aid) p"
  show thesis
  proof (cases "audit_failing gc w ?q")
    case f: True
    show thesis using True f by (intro failed [of "snd (record_dispatch gc w s aid d m p)"]) (auto simp: record_dispatch_def Let_def)
  next
    case f: False
    obtain row where row: "q_writer (x_queue ?q) = replay_log (w_record w) [(c_session gc, row)] (q_writer (x_queue p))"
      "ev_decision row = ''dispatch''" "ev_tool row = d_tool d" using dispatch_row [of ?q gc w "d_tool d" _ "d_refs d" aid p, OF on_gate_frame(1)] by blast
    have "\<not> w_required w (q_writer (x_queue ?q))" using f True unfolding audit_failing_def by blast
    then have "dispatch_recorded gc w (d_tool d) p ?q"
      unfolding dispatch_recorded_def using row by (intro exI [of _ "[]"] exI [of _ row]) simp
    moreover have "g_catalog (x_gate ?q) = g_catalog (x_gate p)" by (simp add: gate_audit_now_def remember_observation_def)
    moreover have "noted (w_record w) (x_queue p) [] (x_queue ?q)"
      by (simp add: gate_audit_now_def remember_observation_def x_queue_def noted_now)
    ultimately show thesis using True f by (intro recorded [of ?q]) (auto simp: record_dispatch_def Let_def)
  qed
qed

text \<open>What the log of the writer grew by on either side of the row.\<close>

lemma noted_log: "noted rec q os q' \<Longrightarrow> queue_ok q \<Longrightarrow> queue_ok q' \<and> (\<exists>l. q_writer q' = replay_log rec l (q_writer q))"
  unfolding noted_def moves_def by blast

lemma dispatch_recorded_grow:
  assumes "dispatch_recorded gc w tool p p'"
    and "q_writer (x_queue p) = replay_log (w_record w) l (q_writer (x_queue p0))"
    and "q_writer (x_queue p1) = replay_log (w_record w) l' (q_writer (x_queue p'))"
  shows "dispatch_recorded gc w tool p0 p1"
proof -
  obtain l1 row l2 where r: "q_writer (x_queue p') = replay_log (w_record w) (l1 @ (c_session gc, row) # l2) (q_writer (x_queue p))"
      "ev_decision row = ''dispatch''" "ev_tool row = tool"
      "\<not> w_required w (replay_log (w_record w) (l1 @ [(c_session gc, row)]) (q_writer (x_queue p)))"
    using assms(1) unfolding dispatch_recorded_def by blast
  have "q_writer (x_queue p1) = replay_log (w_record w) ((l @ l1) @ (c_session gc, row) # (l2 @ l')) (q_writer (x_queue p0))"
    unfolding assms(3) r(1) assms(2) by (simp add: replay_log_append)
  moreover have "\<not> w_required w (replay_log (w_record w) ((l @ l1) @ [(c_session gc, row)]) (q_writer (x_queue p0)))"
    using r(4) unfolding assms(2) by (simp add: replay_log_append)
  ultimately show ?thesis unfolding dispatch_recorded_def using r(2,3) by blast
qed

subsection \<open>Forwarding\<close>

text \<open>What is owed to a message that leaves: a tool call was checked and recorded at dispatch.\<close>

definition dispatched :: "gate_config \<Rightarrow> 'w world \<Rightarrow> bytes \<Rightarrow> json \<Rightarrow> 'w proxy \<Rightarrow> 'w proxy \<Rightarrow> bool" where
  "dispatched gc w tool t p p' \<longleftrightarrow>
     (m_method (request_of t) = ''tools/call'' \<longrightarrow>
       (has_tool_pin_constraints (c_engine gc) (c_agent gc) \<longrightarrow> pin_holds gc (g_catalog (x_gate p')) tool)
       \<and> (p_required (c_session gc) \<longrightarrow> dispatch_recorded gc w tool p p'))"

lemma noted_unknown: "\<exists>os. noted (w_record w) (x_queue p) os (x_queue (snd (mark_unknown gc w why pc p)))"
  unfolding mark_unknown_eq by (auto intro: noted_observed)

lemma noted_settled: "noted (w_record w) (x_queue p) [] (x_queue (x_resolve gc w s p))"
  by (simp add: x_resolve_def gate_resolve_def x_queue_def noted_resolve)

text \<open>The tail of a forward, once the message is out: settling, and the outcome of a call nobody answers.\<close>

lemma forward_tail:
  fixes p :: "'w proxy"
  assumes "q = (if b then snd (mark_unknown gc w why pc (x_resolve gc w s p)) else p)"
  shows "x_sent q = x_sent p" "g_catalog (x_gate q) = g_catalog (x_gate p)"
    "\<exists>os. noted (w_record w) (x_queue p) os (x_queue q)"
proof -
  show "x_sent q = x_sent p" "g_catalog (x_gate q) = g_catalog (x_gate p)" unfolding assms by simp_all
  obtain os where "noted (w_record w) (x_queue (x_resolve gc w s p)) os
      (x_queue (snd (mark_unknown gc w why pc (x_resolve gc w s p))))" using noted_unknown by blast
  from noted_trans [OF noted_settled this] show "\<exists>os. noted (w_record w) (x_queue p) os (x_queue q)"
    unfolding assms by auto
qed

lemma dispatched_later:
  assumes "dispatched gc w tool t p p'" and "g_catalog (x_gate q) = g_catalog (x_gate p')"
    and "queue_ok (x_queue p')" and "noted (w_record w) (x_queue p') os (x_queue q)"
  shows "dispatched gc w tool t p q"
proof -
  obtain l where l: "q_writer (x_queue q) = replay_log (w_record w) l (q_writer (x_queue p'))"
    using noted_log [OF assms(4,3)] by blast
  have "dispatch_recorded gc w tool p q" if "dispatch_recorded gc w tool p p'"
    by (rule dispatch_recorded_grow [OF that _ l, where l = "[]"]) simp
  then show ?thesis using assms(1,2) unfolding dispatched_def by simp
qed

lemma noted_cancel: "\<exists>os. noted (w_record w) (x_queue p) os (x_queue (cancel_action gc w i p))"
  unfolding cancel_action_def mark_unknown_eq
  by (auto simp: Let_def intro: noted_observed split: option.split pending.split)

lemma noted_ok: "noted rec q os q' \<Longrightarrow> queue_ok q \<Longrightarrow> queue_ok q'"
  using noted_log by blast

text \<open>The checks at dispatch together: refused without sending, or passed, and then owed nothing.\<close>

definition dispatch_checks ::
  "gate_config \<Rightarrow> 'w world \<Rightarrow> u64 \<Rightarrow> bytes \<Rightarrow> mcp_decision \<Rightarrow> message \<Rightarrow> 'w proxy \<Rightarrow> 'w proxy option \<times> 'w proxy" where
  "dispatch_checks gc w s aid d m p =
     (case (if m_method m = ''tools/call'' \<and> has_tool_pin_constraints (c_engine gc) (c_agent gc)
            then recheck_pin gc w s aid d m p else (Some p, p)) of
        (None, p2) \<Rightarrow> (None, p2)
      | (Some p2, _) \<Rightarrow> record_dispatch gc w s aid d m p2)"

lemma dispatch_checks_cases:
  assumes ok: "queue_ok (x_queue p)"
  obtains (refused) q where "dispatch_checks gc w s aid d (request_of t) p = (None, q)" "x_sent q = x_sent p"
  | (passed) q r where "dispatch_checks gc w s aid d (request_of t) p = (Some q, r)" "x_sent q = x_sent p" "queue_ok (x_queue q)"
      "dispatched gc w (d_tool d) t p q"
proof -
  let ?m = "request_of t"
  let ?pins = "m_method ?m = ''tools/call'' \<and> has_tool_pin_constraints (c_engine gc) (c_agent gc)"
  let ?re = "if ?pins then recheck_pin gc w s aid d ?m p else (Some p, p)"
  consider (blocked) q where "?re = (None, q)" "x_sent q = x_sent p"
    | (clear) p2 r where "?re = (Some p2, r)" "x_queue p2 = x_queue p" "x_sent p2 = x_sent p"
      "g_catalog (x_gate p2) = g_catalog (x_gate p)" "?pins \<Longrightarrow> pin_holds gc (g_catalog (x_gate p2)) (d_tool d)"
  proof (cases ?pins)
    case True
    show thesis
    proof (cases rule: recheck_pin_cases [of gc w s aid d ?m p])
      case (passed ob)
      then show thesis using True by (intro clear [of "store_observed aid ob p" p]) simp_all
    next
      case (blocked q)
      then show thesis using True that(1) [of q] by simp
    qed
  next
    case False
    show thesis by (rule clear [of p p]) (simp_all only: if_not_P [OF False] False if_False)
  qed
  then show thesis
  proof cases
    case blocked
    then show thesis using refused [of q] unfolding dispatch_checks_def by simp
  next
    case clear
    have e: "dispatch_checks gc w s aid d ?m p = record_dispatch gc w s aid d ?m p2" unfolding dispatch_checks_def clear(1) by simp
    have l: "q_writer (x_queue p2) = replay_log (w_record w) [] (q_writer (x_queue p))" unfolding clear(2) by simp
    show thesis
    proof (cases rule: record_dispatch_cases [of gc w s aid d ?m p2])
      case unneeded
      show thesis by (rule passed [OF e [unfolded unneeded(1)]]) (use clear ok unneeded(2) in \<open>auto simp: dispatched_def\<close>)
    next
      case (recorded q)
      have "dispatch_recorded gc w (d_tool d) p q" by (rule dispatch_recorded_grow [OF recorded(4) l, where l' = "[]"]) simp
      moreover have "queue_ok (x_queue q)" using noted_ok [OF recorded(5)] ok clear(2) by simp
      ultimately show thesis
        by (intro passed [OF e [unfolded recorded(1)]]) (use clear recorded in \<open>auto simp: dispatched_def\<close>)
    next
      case (failed q)
      then show thesis using refused [of q] e clear(3) by simp
    qed
  qed
qed

lemma noted_cancel_if: "\<exists>os. noted (w_record w) (x_queue p) os (x_queue (if b then cancel_action gc w i p else p))"
  by (cases b) (use noted_cancel noted_refl in simp_all, blast+)

lemma checks_chain:
  "(case x of (None, q) \<Rightarrow> f q | (Some q, _) \<Rightarrow> (case rest q of (None, z) \<Rightarrow> f z | (Some z, _) \<Rightarrow> g z)) =
   (case (case x of (None, q) \<Rightarrow> (None, q) | (Some q, _) \<Rightarrow> rest q) of (None, z) \<Rightarrow> f z | (Some z, _) \<Rightarrow> g z)"
  by (simp split: prod.split option.split)

lemma forward_line_sends:
  assumes f: "forward_line gc w sent s aid d t p = (r, p')" and ok: "queue_ok (x_queue p)"
  shows "x_sent p' = x_sent p \<or> x_sent p' = x_sent p @ [t] \<and> sent \<and> dispatched gc w (d_tool d) t p p' \<and> queue_ok (x_queue p')"
proof -
  let ?m = "request_of t"
  let ?p1 = "if p_pairing (c_session gc) \<and> m_method ?m = ''notifications/cancelled''
    then cancel_action gc w (cancellation_request_id ?m) p else p"
  obtain os where os: "noted (w_record w) (x_queue p) os (x_queue ?p1)"
    using noted_cancel_if by blast
  have ok1: "queue_ok (x_queue ?p1)" by (rule noted_ok [OF os ok])
  have e: "forward_line gc w sent s aid d t p =
    (case dispatch_checks gc w s aid d ?m ?p1 of
       (None, p3) \<Rightarrow> ((False, True), p3)
     | (Some p3, _) \<Rightarrow>
         let p4 = store_card gc s aid d p3 in
         if \<not> sent then ((True, True), lose_transport gc w s aid d ?m p4)
         else
           let p5 = p4\<lparr>x_sent := x_sent p4 @ [t]\<rparr> in
           ((False, False),
            if aid \<noteq> [] \<and> m_method ?m = ''tools/call'' \<and> d_forward_id d = None
            then snd (mark_unknown gc w [] (action_card d s aid) (x_resolve gc w s p5)) else p5))"
    unfolding forward_line_def Let_def dispatch_checks_def by (rule checks_chain)
  from ok1 show ?thesis
  proof (cases rule: dispatch_checks_cases [where gc = gc and w = w and s = s and aid = aid and d = d and t = t])
    case (refused q)
    then show ?thesis using f unfolding e by auto
  next
    case (passed q r')
    note c = passed(1)
    show ?thesis
    proof (cases sent)
      case False
      then show ?thesis using f passed(2) unfolding e c by (auto simp: Let_def)
    next
      case True
      let ?p4 = "store_card gc s aid d q"
      let ?p5 = "?p4\<lparr>x_sent := x_sent ?p4 @ [t]\<rparr>"
      have q': "p' = (if aid \<noteq> [] \<and> m_method ?m = ''tools/call'' \<and> d_forward_id d = None
            then snd (mark_unknown gc w [] (action_card d s aid) (x_resolve gc w s ?p5)) else ?p5)"
        using f True unfolding e c by (auto simp: Let_def)
      obtain os' where n: "noted (w_record w) (x_queue ?p5) os' (x_queue p')" using forward_tail(3) [OF q'] by blast
      have n': "noted (w_record w) (x_queue q) os' (x_queue p')" using n by simp
      have "dispatched gc w (d_tool d) t ?p1 p'"
        by (rule dispatched_later [OF passed(4) _ passed(3) n']) (simp add: forward_tail(2) [OF q'])
      then have "dispatched gc w (d_tool d) t p p'" unfolding dispatched_def by (cases "m_method ?m = ''notifications/cancelled''") auto
      moreover have "x_sent p' = x_sent p @ [t]" unfolding forward_tail(1) [OF q'] using passed(2) by simp
      ultimately show ?thesis using True noted_ok [OF n' passed(3)] by blast
    qed
  qed
qed

text \<open>A message left, the one decided on, and nothing is owed to it.\<close>

definition left ::
  "gate_config \<Rightarrow> 'w world \<Rightarrow> bool \<Rightarrow> mcp_decision \<Rightarrow> 'w proxy \<Rightarrow> 'w proxy \<Rightarrow> bool" where
  "left gc w sent d p p' \<longleftrightarrow>
     (\<exists>t. d_forward d = Some t \<and> x_sent p' = x_sent p @ [t] \<and> sent \<and> dispatched gc w (d_tool d) t p p')"

lemma start_listing_queue:
  "start_listing gc w line s i p = (Some p1, q) \<Longrightarrow> x_queue p1 = x_queue p"
  by (auto simp: start_listing_def Let_def case_prod_unfold x_queue_def split: if_splits)

lemma decided_line_sends:
  assumes sane: "sane_decision d" and ok: "queue_ok (x_queue p)"
  shows "x_sent (snd (decided_line gc w sent listing line s aid d p)) = x_sent p
    \<or> left gc w sent d p (snd (decided_line gc w sent listing line s aid d p))"
proof (cases "audit_failing gc w p")
  case True
  then show ?thesis by (simp add: decided_line_def)
next
  case af: False
  obtain r q where r: "(case d_tools_list_id d of None \<Rightarrow> (Some p, p) | Some i \<Rightarrow> start_listing gc w line s i p) = (r, q)" by fastforce
  have q: "x_sent q = x_sent p \<and> (\<forall>p1. r = Some p1 \<longrightarrow> x_sent p1 = x_sent p \<and> x_queue p1 = x_queue p)"
  proof (cases "d_tools_list_id d")
    case None
    then show ?thesis using r by auto
  next
    case (Some i)
    then have "start_listing gc w line s i p = (r, q)" using r by simp
    then show ?thesis using start_listing_sent [of gc w line s i p r q] start_listing_queue [of gc w line s i p _ q] by blast
  qed
  show ?thesis
  proof (cases r)
    case None
    then show ?thesis using r af q by (simp add: decided_line_def)
  next
    case (Some p1)
    have q1: "x_sent p1 = x_sent p" "x_queue p1 = x_queue p" using q Some by blast+
    show ?thesis
    proof (cases "d_forward d")
      case None
      then show ?thesis unfolding decided_line_def Let_def if_not_P [OF af] r Some using q1 by simp
    next
      case t: (Some t)
      then have nr: "\<not> d_reject d" using sane by (simp add: sane_decision_def)
      obtain e hd p3 where fl: "forward_line gc w sent s aid d t p1 = ((e, hd), p3)" by (metis prod.exhaust)
      let ?b = "\<not> hd \<and> d_tools_list_id d = None \<and> (d_reject d \<or> d_forward d = None \<or> d_forward_id d = None)"
      have e: "snd (decided_line gc w sent listing line s aid d p) = (if ?b then x_resolve gc w s p3 else p3)"
        unfolding decided_line_def Let_def if_not_P [OF af] r Some t using nr fl by simp
      have "x_sent p3 = x_sent p1 \<or> x_sent p3 = x_sent p1 @ [t] \<and> sent \<and> dispatched gc w (d_tool d) t p1 p3 \<and> queue_ok (x_queue p3)"
        using forward_line_sends [OF fl] ok q1 by simp
      then show ?thesis
      proof (elim disjE conjE)
        assume "x_sent p3 = x_sent p1"
        then show ?thesis unfolding e using q1 by simp
      next
        assume s: "x_sent p3 = x_sent p1 @ [t]" "sent" "dispatched gc w (d_tool d) t p1 p3" "queue_ok (x_queue p3)"
        let ?p4 = "if ?b then x_resolve gc w s p3 else p3"
        have n: "noted (w_record w) (x_queue p3) [] (x_queue ?p4)" by (simp add: noted_settled)
        have "dispatched gc w (d_tool d) t p1 ?p4" by (rule dispatched_later [OF s(3) _ s(4) n]) simp
        then have "dispatched gc w (d_tool d) t p ?p4" using q1 unfolding dispatched_def dispatch_recorded_def by simp
        then show ?thesis unfolding left_def e using t s q1 by simp
      qed
    qed
  qed
qed

subsection \<open>A line from the agent\<close>

text \<open>
  The decision behind what left: taken on a gate with the budget of the state before the line, and what it
  tracked as secret still tracked after the line.
\<close>

definition decided_on ::
  "gate_config \<Rightarrow> 'w world \<Rightarrow> bytes \<Rightarrow> limiter option \<Rightarrow> scrub_set \<Rightarrow> mcp_decision \<Rightarrow> bool" where
  "decided_on gc w line budget sc d \<longleftrightarrow>
     (\<exists>s g g'. g_limiter g = budget \<and> decide gc w line s g = (d, g') \<and> hides (g_scrub g') sc)"

lemma left_earlier:
  assumes "left gc w sent d p1 p'" and "x_sent p1 = x_sent p"
    and "q_writer (x_queue p1) = replay_log (w_record w) l (q_writer (x_queue p))"
  shows "left gc w sent d p p'"
  using assms(1,2) dispatch_recorded_grow [OF _ assms(3), of gc _ p' p' "[]"]
  unfolding left_def dispatched_def by fastforce

definition sends :: "gate_config \<Rightarrow> 'w world \<Rightarrow> bool \<Rightarrow> bytes \<Rightarrow> 'w proxy \<Rightarrow> 'w proxy \<Rightarrow> bool" where
  "sends gc w sent line p p' \<longleftrightarrow>
     x_sent p' = x_sent p
     \<or> (\<exists>d. decided_on gc w line (g_limiter (x_gate p)) (scrub_of p') d \<and> left gc w sent d p p')"

lemma sends_nothing: "x_sent p' = x_sent p \<Longrightarrow> sends gc w sent line p p'"
  by (simp add: sends_def)

lemma sends_earlier:
  assumes "sends gc w sent line p1 p'" and "x_sent p1 = x_sent p" "g_limiter (x_gate p1) = g_limiter (x_gate p)"
    and "q_writer (x_queue p1) = q_writer (x_queue p)"
  shows "sends gc w sent line p p'"
  using assms(1-3) left_earlier [OF _ assms(2), of gc w sent _ p' "[]"] assms(4) unfolding sends_def by auto

lemma decide_line_sends:
  assumes ok: "queue_ok (x_queue p)"
  shows "sends gc w sent line p (snd (decide_line gc w sent listing line s aid p))"
proof -
  obtain d g where d: "decide gc w line s (x_gate p) = (d, g)" by fastforce
  let ?q = "p\<lparr>x_gate := g\<rparr>"
  have e: "decide_line gc w sent listing line s aid p = decided_line gc w sent listing line s aid d ?q"
    unfolding decide_line_def d by simp
  have n: "noted (w_record w) (x_queue p) [] (x_queue ?q)"
    using unnoted.decided [of w "x_gate p" gc line s] d by (simp add: x_queue_def)
  obtain l where l: "queue_ok (x_queue ?q)" "q_writer (x_queue ?q) = replay_log (w_record w) l (q_writer (x_queue p))"
    using noted_log [OF n ok] by blast
  have sane: "sane_decision d" using decide_asks [of gc w line s "x_gate p"] d by simp
  from decided_line_sends [OF sane l(1), of gc w sent listing line s aid]
  show ?thesis
  proof
    assume "left gc w sent d ?q (snd (decided_line gc w sent listing line s aid d ?q))"
    then have "left gc w sent d p (snd (decided_line gc w sent listing line s aid d ?q))"
      by (rule left_earlier [OF _ _ l(2)]) simp
    moreover have "hides g_s (scrub_of (snd (decided_line gc w sent listing line s aid d ?q)))" if "g_s = g_scrub g" for g_s
      using talking.decided_line [of ?q gc w sent listing line s aid d] that unfolding talks_def by simp
    ultimately show ?thesis unfolding e sends_def decided_on_def using d by blast
  qed (simp add: e sends_def)
qed

lemma paired_message_sends:
  assumes ok: "queue_ok (x_queue p)"
  shows "sends gc w sent line p (snd (paired_message gc w sent listing line s m p))"
proof (cases "reject_oversized gc w (fst (kind_name m)) (snd (kind_name m)) (m_id m) (x_gate p)")
  case (Some r)
  show ?thesis by (rule sends_nothing) (simp add: paired_message_def Some Let_def case_prod_unfold split: prod.split)
next
  case n: None
  let ?fresh = "if m_method m = ''tools/call'' then map_option Some (new_action_id (c_session gc) (x_action_seq p)) else Some None"
  show ?thesis
  proof (cases ?fresh)
    case None
    then show ?thesis unfolding paired_message_def n option.case None by (simp add: sends_def)
  next
    case (Some f)
    obtain aid p1 where f: "(case f of None \<Rightarrow> ([], p) | Some (a, n) \<Rightarrow> (a, on_queue (queue_action_id s a) (p\<lparr>x_action_seq := n\<rparr>))) = (aid, p1)"
      by fastforce
    have p1: "x_sent p1 = x_sent p" "q_writer (x_queue p1) = q_writer (x_queue p)" "queue_ok (x_queue p1)"
        "g_limiter (x_gate p1) = g_limiter (x_gate p)"
      using f ok by (auto simp: queue_action_id_def queue_ok_def split: option.splits prod.splits)
    have e: "snd (paired_message gc w sent listing line s m p) =
        (if is_request m \<and> request_in_use (the (m_id m)) p1 then refuse_duplicate gc w listing s aid m p1
         else snd (decide_line gc w sent listing line s aid p1))"
      unfolding paired_message_def n option.case Some f by simp
    show ?thesis unfolding e using sends_earlier [OF decide_line_sends [OF p1(3)] p1(1,4,2)] by (simp add: sends_nothing p1(1))
  qed
qed

lemma agent_line_sends:
  assumes ok: "queue_ok (x_queue p)"
  shows "sends gc w sent line p (snd (agent_line gc w sent line p))"
proof (cases "p_pairing (c_session gc) \<and> run_stopping (c_session gc)")
  case True
  then show ?thesis by (simp add: agent_line_def sends_nothing)
next
  case run: False
  let ?l = "is_listing gc line"
  let ?p0 = "if ?l \<and> exact_list_params line = None then x_invalidate p else p"
  show ?thesis
  proof (cases "audit_failing gc w ?p0")
    case True
    then show ?thesis unfolding agent_line_def if_not_P [OF run] Let_def if_P [OF True] by (simp add: sends_nothing)
  next
    case af: False
    let ?p1 = "on_queue (\<lambda>q. snd (reserve_sequence q)) ?p0"
    let ?s = "fst (reserve_sequence (x_queue ?p0))"
    have p1: "x_sent ?p1 = x_sent p" "q_writer (x_queue ?p1) = q_writer (x_queue p)" "queue_ok (x_queue ?p1)"
        "g_limiter (x_gate ?p1) = g_limiter (x_gate p)"
      using ok by (simp_all add: reserve_sequence_def queue_ok_def)
    have e: "agent_line gc w sent line p = (if \<not> p_pairing (c_session gc) then decide_line gc w sent ?l line ?s [] ?p1
        else (case canonicalize_message line of Inl _ \<Rightarrow> decide_line gc w sent ?l line ?s [] ?p1
            | Inr (obj, tree, m) \<Rightarrow> paired_message gc w sent ?l line ?s m ?p1))"
      unfolding agent_line_def if_not_P [OF run] Let_def if_not_P [OF af] by (rule refl)
    show ?thesis
    proof (cases "p_pairing (c_session gc) \<and> (\<exists>c. canonicalize_message line = Inr c)")
      case True
      then obtain obj tree m where m: "canonicalize_message line = Inr (obj, tree, m)" by (metis prod.exhaust)
      show ?thesis unfolding e m using sends_earlier [OF paired_message_sends [OF p1(3)] p1(1,4,2)] True by simp
    next
      case False
      then have "agent_line gc w sent line p = decide_line gc w sent ?l line ?s [] ?p1"
        unfolding e by (cases "canonicalize_message line") auto
      then show ?thesis using sends_earlier [OF decide_line_sends [OF p1(3)] p1(1,4,2)] by simp
    qed
  qed
qed

subsection \<open>What left was authorized\<close>

text \<open>
  The gate's clearance of a tool call: it names one tool to every reader and passed every gate, on a gate
  with the budget given, or a human let a call without a readable name through.
\<close>

definition cleared_call :: "gate_config \<Rightarrow> 'w world \<Rightarrow> limiter option \<Rightarrow> bytes \<Rightarrow> json \<Rightarrow> bool" where
  "cleared_call gc w budget tool t \<longleftrightarrow>
     (\<exists>g obj params params'. g_limiter g = budget \<and> names_one_tool tool t \<and> passed_gates gc w g tool params
        \<and> injected gc w tool params params' \<and> t = JObj (put ''params'' params' obj))
     \<or> tool = [] \<and> fail_mode_asks gc \<and> approved gc w [] t (Basis ''unextractable-name'')"

lemma decided_call_cleared:
  assumes "decided_on gc w line budget sc d" and "d_forward d = Some t" and "m_method (request_of t) = ''tools/call''"
  shows "cleared_call gc w budget (d_tool d) t"
proof -
  obtain s g g' where d: "g_limiter g = budget" "decide gc w line s g = (d, g')" using assms(1) unfolding decided_on_def by blast
  obtain m where m: "message_of_tree t = Some m" "m_method m = ''tools/call''"
    using assms(3) by (cases "message_of_tree t") (simp_all add: request_of_def zero_message_def)
  from forwarded_call_cleared [OF d(2) assms(2) m] d(1) show ?thesis unfolding cleared_call_def by blast
qed

lemma decided_method_allowed:
  assumes "decided_on gc w line budget sc d" and "d_forward d = Some t"
    and "m_method (request_of t) \<noteq> ''tools/call''" "m_method (request_of t) \<noteq> []"
  shows "\<not> denies_method (c_engine gc) (c_agent gc) (m_method (request_of t))"
proof -
  obtain s g g' where d: "decide gc w line s g = (d, g')" using assms(1) unfolding decided_on_def by blast
  obtain obj tree m where c: "canonicalize_message line = Inr (obj, tree, m)"
    using assms(2) d by (cases rule: decide_cases [of line gc w s g]) auto
  have call: "m_method m \<noteq> ''tools/call''" using forwarded_method [OF c _ d assms(2)] assms(3) by blast
  show ?thesis
  proof (cases rule: decide_cases [of line gc w s g])
    case (oversized obj' tree' m' kind name)
    then show ?thesis using oversized_Some [of gc w kind name "m_id m'" g d g'] d assms(2) by simp
  next
    case (plain obj' tree' m')
    have e: "decide_method gc w m' tree' g = (d, g')" using plain(4) d by simp
    have "message_of_tree t = Some m'"
      using canonicalize_message_spec(4) [OF plain(1)] decide_method_forward [OF e assms(2)] by simp
    then have "request_of t = m'" by (simp add: request_of_def)
    then show ?thesis using decide_method_forward [OF e assms(2)] assms(4) by simp
  qed (use c call in auto)
qed

text \<open>
  C1. A line from the agent, in any reachable state of a session, sends at most one message. If it is read as a
  tools/call it names one tool to every reader and passed the policy, the pin, the validator, the budget of that
  moment and the approval it needs; its pin also holds against the catalog at dispatch, and in required mode its
  dispatch row was handed to the writer, and the writer sound after it, before the message left. Any other method is
  one that the policy does not deny.
\<close>

theorem sent_message_was_authorized:
  assumes run: "session_run gc w digest fold_min (new_proxy lm wr) p"
    and p': "p' = snd (agent_line gc w sent line p)" and new: "x_sent p' \<noteq> x_sent p"
  shows "\<exists>t tool. x_sent p' = x_sent p @ [t] \<and>
    (if m_method (request_of t) = ''tools/call'' then
       cleared_call gc w (g_limiter (x_gate p)) tool t
       \<and> (has_tool_pin_constraints (c_engine gc) (c_agent gc) \<longrightarrow> pin_holds gc (g_catalog (x_gate p')) tool)
       \<and> (p_required (c_session gc) \<longrightarrow> dispatch_recorded gc w tool p p')
     else m_method (request_of t) = [] \<or> \<not> denies_method (c_engine gc) (c_agent gc) (m_method (request_of t)))"
proof -
  have "queue_ok (x_queue p)" by (rule run_queue_ok [OF run])
  from agent_line_sends [OF this, of gc w sent line] new obtain d where
    d: "decided_on gc w line (g_limiter (x_gate p)) (scrub_of p') d" "left gc w sent d p p'" unfolding sends_def p' by blast
  then obtain t where t: "d_forward d = Some t" "x_sent p' = x_sent p @ [t]" "dispatched gc w (d_tool d) t p p'"
    unfolding left_def by blast
  show ?thesis
    using t(2,3) decided_call_cleared [OF d(1) t(1)] decided_method_allowed [OF d(1) t(1)] unfolding dispatched_def
    by (intro exI [of _ t] exI [of _ "d_tool d"]) auto
qed

text \<open>A call that a human approves, in a session whose writer never fails.\<close>

lemma plain_forward:
  assumes "\<And>x. \<not> w_required w x" and "\<not> has_tool_pin_constraints (c_engine gc) (c_agent gc)" and "\<not> p_pairing (c_session gc)"
  shows "x_sent (snd (forward_line gc w True s aid d t p)) = x_sent p @ [t]"
    "scrub_of (snd (forward_line gc w True s aid d t p)) = scrub_of p"
  unfolding forward_line_def record_dispatch_def mark_unknown_eq using assms
  by (simp_all add: Let_def audit_failing_def x_resolve_def store_card_def gate_audit_now_def remember_observation_def
      split: option.split)

lemma plain_agent_line:
  fixes p :: "'w proxy"
  assumes gc: "\<And>x. \<not> w_required w x" "\<not> has_tool_pin_constraints (c_engine gc) (c_agent gc)" "\<not> p_pairing (c_session gc)"
    and c: "\<exists>obj tree m. canonicalize_message line = Inr (obj, tree, m) \<and> m_method m = ''tools/call''"
    and d: "\<And>s g. g_limiter g = g_limiter (x_gate p) \<Longrightarrow> d_forward (fst (decide gc w line s g)) = Some t"
      "\<And>s g. g_limiter g = g_limiter (x_gate p) \<Longrightarrow> g_scrub (snd (decide gc w line s g)) = f (g_scrub g)"
  shows "x_sent (snd (agent_line gc w True line p)) = x_sent p @ [t]" "scrub_of (snd (agent_line gc w True line p)) = f (scrub_of p)"
proof -
  let ?p = "on_queue (\<lambda>q. snd (reserve_sequence q)) p"
  let ?s = "fst (reserve_sequence (x_queue p))"
  obtain dc g where dg: "decide gc w line ?s (x_gate ?p) = (dc, g)" by fastforce
  have lim: "g_limiter (x_gate ?p) = g_limiter (x_gate p)" by simp
  have f: "d_forward dc = Some t" "g_scrub g = f (scrub_of p)" using d [OF lim, of ?s] dg by simp_all
  have sane: "\<not> d_reject dc" using decide_asks [of gc w line ?s "x_gate ?p"] dg f(1) by (simp add: sane_decision_def)
  have l: "d_tools_list_id dc = None" using c decide_no_listing [of line _ _ _ gc w ?s "x_gate ?p"] dg by auto
  have e: "snd (agent_line gc w True line p) = snd (decided_line gc w True False line ?s [] dc (?p\<lparr>x_gate := g\<rparr>))"
    using gc dg by (simp add: agent_line_def is_listing_def audit_failing_def Let_def decide_line_def)
  note pf = plain_forward [OF gc, of ?s "[]" dc t "?p\<lparr>x_gate := g\<rparr>"]
  show "x_sent (snd (agent_line gc w True line p)) = x_sent p @ [t]" "scrub_of (snd (agent_line gc w True line p)) = f (scrub_of p)"
    unfolding e using f sane gc l pf
    by (simp_all add: decided_line_def audit_failing_def Let_def case_prod_unfold x_resolve_def)
qed

lemma demo_plain: "\<not> w_required demo_world x" "\<not> has_tool_pin_constraints (c_engine demo_gc) (c_agent demo_gc)"
    "\<not> p_pairing (c_session demo_gc)"
  by (simp_all add: demo_world_def demo_gc_def demo_session_def has_tool_pin_constraints_def c_agent_def strict_tool_pins_def
      policy_or_zero_def agent_policy_of_def empty_policy_def upstream_pins_def)

lemma demo_call_sent: "x_sent (snd (agent_line demo_gc demo_world True (json_print demo_shadow_call) (new_proxy None [] :: event list proxy)))
    = [JObj [(''id'', JNum ''1''), (''method'', JStr ''tools/call''), (''params'', JObj [(''name'', JStr ''c'')])]]"
proof -
  have lim: "g_limiter (x_gate (new_proxy None [] :: event list proxy)) = None" by (simp add: new_proxy_def)
  show ?thesis
    using plain_agent_line(1) [OF demo_plain demo_call_canonical, where f = "\<lambda>s. s" and p = "new_proxy None []", unfolded lim,
        OF demo_forwards(1) demo_forwards(3)]
    by (simp add: new_proxy_def)
qed

lemma sent_message_was_authorized_witness:
  "\<exists>t. x_sent (snd (agent_line demo_gc demo_world True (json_print demo_shadow_call) (new_proxy None []))) = [t]"
  using sent_message_was_authorized [OF session_start refl, of demo_gc demo_world True "json_print demo_shadow_call" None "[]"] demo_call_sent
  by (simp add: new_proxy_def)

subsection \<open>Secrets after they left\<close>











end
