(* ===== verification/Shown.thy ===== *)
theory Shown
  imports Conduct Ledger
begin

text \<open>
  What a filtered listing shows the agent: exactly the tools of the upstream that a call would not be refused
  for by policy or pin in the state the listing leaves, in the order of the upstream and unchanged, each
  hidden one with a row in the audit queue. Over a session the catalog behind it only moves by its own
  operations, so what holds of every history of the catalog holds of it.
\<close>

subsection \<open>The page and the catalog it leaves\<close>

lemma read_page_active:
  assumes "read_page digest build sz listed result g = ((build', obs, cursor, paginated), g1)"
  shows "g_queue g1 = g_queue g" "build' \<noteq> 0 \<Longrightarrow> build' = build \<and> g1 = g
    \<and> (\<exists>b. active_build build (g_catalog g) = Some b \<and> paginated = cb_paginated b)"
proof -
  show "g_queue g1 = g_queue g"
    using assms by (auto simp: read_page_def gate_discard_def split: if_splits option.splits prod.splits)
  show "build' \<noteq> 0 \<Longrightarrow> build' = build \<and> g1 = g \<and> (\<exists>b. active_build build (g_catalog g) = Some b \<and> paginated = cb_paginated b)"
    using assms by (auto simp: read_page_def page_within_bounds_def split: if_splits option.splits)
qed

lemma no_pins_no_cause: "\<not> has_tool_pin_constraints e a \<Longrightarrow> snd (pin_observation e a u name ob) = []"
  by (simp add: has_tool_pin_constraints_def pin_observation_def tool_pin_of_def upstream_pins_def strict_tool_pins_def)

text \<open>What the page says of a tool is what the catalog says once the page is in.\<close>

lemma page_observation_published:
  assumes "traced evs c" and "active_build i c = Some b" "i \<noteq> 0" and "add_page i sz obs cursor c = (None, c')"
  shows "page_observation i obs cursor (cb_paginated b) name = catalog_observe c' name"
proof -
  have b: "cat_build c = Some b" using active_build_Some [OF assms(2)] by blast
  have t: "cat_published c = []" "\<not> cb_paginated b \<Longrightarrow> cb_tools b = []" using assms(1) b by (simp_all add: traced_def)
  have ck: "check_page sz obs cursor b = None" using assms(2-4) by (auto simp: add_page_def split: option.splits if_splits)
  show ?thesis
  proof (cases "cursor = []")
    case True
    then have "c' = c\<lparr>cat_published := cb_tools b @ obs, cat_paginated := cb_paginated b, cat_build := None\<rparr>"
      using assms(2-4) ck by (simp add: add_page_def Let_def)
    then show ?thesis using t(2) assms(3) True by (simp add: page_observation_def catalog_observe_def)
  next
    case False
    then have "cat_published c' = []" using assms(2-4) ck t(1) by (auto simp: add_page_def Let_def)
    then show ?thesis using False by (simp add: page_observation_def catalog_observe_def)
  qed
qed

subsection \<open>The loop over the tools\<close>

definition hide_row :: "event \<Rightarrow> bytes \<Rightarrow> bool" where
  "hide_row ev name \<longleftrightarrow> ev_decision ev = ''hide'' \<and> ev_tool ev = name"

lemma append_rows:
  "\<exists>row. rows_at s (g_queue (gate_append gc s tool decision why refs actor g)) = rows_at s (g_queue g) @ [row]
    \<and> ev_decision row = decision \<and> ev_tool row = tool"
proof -
  let ?row = "audit_row (c_session gc) (apply_observation gc g) (action_of s (g_queue g)) tool decision why refs actor"
  have o: "ev_decision (apply_observation gc g ev) = ev_decision ev" "ev_tool (apply_observation gc g ev) = ev_tool ev" for ev
    by (simp_all add: apply_observation_def set_observation_fields_def)
  have f: "rows_at s (score_decision ses dec q) = rows_at s q" "rows_at s (forward_decision ses t dec y q) = rows_at s q"
    for ses dec t y and q :: "'a queue"
    by (simp_all add: score_decision_def forward_decision_def rows_at_def split: option.split)
  have "rows_at s (g_queue (gate_append gc s tool decision why refs actor g)) = rows_at s (g_queue g) @ [?row]"
    unfolding gate_append_queue append_audit_def Let_def by (simp add: f push_row_def rows_at_def update_conv')
  moreover have "ev_decision ?row = decision" "ev_tool ?row = tool"
    by (simp_all add: audit_row_def Let_def set_refs_def set_action_fields_def o split: option.split)
  ultimately show ?thesis by blast
qed

text \<open>The loop keeps what is not hidden, in order, and leaves a row for the rest.\<close>

lemma filter_tools_spec:
  assumes "filter_tools gc w s see raws kept g = (Some shown, g')"
  shows "g_catalog g' = g_catalog g
    \<and> (\<exists>entries rows. map listed_name raws = map Some entries
        \<and> shown = kept @ map snd (filter (\<lambda>(n, _). hidden_because gc w n (see n) = None) entries)
        \<and> rows_at s (g_queue g') = rows_at s (g_queue g) @ rows
        \<and> list_all2 hide_row rows (map fst (filter (\<lambda>(n, _). hidden_because gc w n (see n) \<noteq> None) entries)))"
  using assms
proof (induction raws arbitrary: kept g)
  case Nil
  then show ?case by (auto intro!: exI [of _ "[]"])
next
  case (Cons raw raws)
  obtain n ms where l: "listed_name raw = Some (n, ms)" using Cons.prems by (auto split: option.splits)
  show ?case
  proof (cases "hidden_because gc w n (see n)")
    case None
    then have "filter_tools gc w s see raws (kept @ [ms]) g = (Some shown, g')" using Cons.prems l by simp
    from Cons.IH [OF this] obtain es rows where e: "g_catalog g' = g_catalog g" "map listed_name raws = map Some es"
        "shown = (kept @ [ms]) @ map snd (filter (\<lambda>(n, _). hidden_because gc w n (see n) = None) es)"
        "rows_at s (g_queue g') = rows_at s (g_queue g) @ rows"
        "list_all2 hide_row rows (map fst (filter (\<lambda>(n, _). hidden_because gc w n (see n) \<noteq> None) es))" by blast
    show ?thesis using e l None by (intro conjI exI [of _ "(n, ms) # es"] exI [of _ rows]) auto
  next
    case (Some why)
    let ?g = "gate_append gc s n ''hide'' why None [] g"
    have "filter_tools gc w s see raws kept ?g = (Some shown, g')" using Cons.prems l Some by simp
    from Cons.IH [OF this] obtain es rows where e: "g_catalog g' = g_catalog ?g" "map listed_name raws = map Some es"
        "shown = kept @ map snd (filter (\<lambda>(n, _). hidden_because gc w n (see n) = None) es)"
        "rows_at s (g_queue g') = rows_at s (g_queue ?g) @ rows"
        "list_all2 hide_row rows (map fst (filter (\<lambda>(n, _). hidden_because gc w n (see n) \<noteq> None) es))" by blast
    obtain row where r: "rows_at s (g_queue ?g) = rows_at s (g_queue g) @ [row]" "hide_row row n"
      using append_rows [of s gc n "''hide''" why None "[]" g] unfolding hide_row_def by blast
    show ?thesis using e l r Some by (intro conjI exI [of _ "(n, ms) # es"] exI [of _ "row # rows"]) auto
  qed
qed

lemma hidden_because_None:
  "hidden_because gc w name ob = None \<longleftrightarrow>
    verdict (evaluate (c_engine gc) (c_agent gc) name) \<noteq> Deny
    \<and> snd (pin_observation (c_engine gc) (c_agent gc) (c_upstream gc) name ob) = []"
  by (simp add: hidden_because_def Let_def)

subsection \<open>What the agent is shown\<close>

text \<open>
  C28. When a filtered listing reaches the agent, it is the upstream's with the tools replaced: exactly those that a
  call would not be refused for by policy or pin in the state the listing leaves, unchanged and in order. Every other
  tool of the page has its own hide row in the audit queue of the request, in order too.
\<close>

theorem listing_shows_callable_tools:
  assumes f: "filter_tool_list gc w digest line s build g = (Some (JObj out), g')" and ne: "map_of out ''error'' = None"
    and c: "g_catalog g = catalog_run evs"
  shows "\<exists>resp result listed entries rows.
    Option.bind (json_parse line) as_map = Some (Some resp)
    \<and> Option.bind (map_of resp ''result'') as_map = Some (Some result)
    \<and> Option.bind (map_of result ''tools'') as_slice = Some (Some listed)
    \<and> map listed_name listed = map Some entries
    \<and> out = put ''result'' (JObj (put ''tools'' (JArr
        (map (JObj \<circ> snd) (filter (\<lambda>(n, _). callable gc (g_catalog g') n) entries))) result)) resp
    \<and> rows_at s (g_queue g') = rows_at s (g_queue g) @ rows
    \<and> list_all2 hide_row rows (map fst (filter (\<lambda>(n, _). \<not> callable gc (g_catalog g') n) entries))"
proof -
  have no: "out' \<noteq> Some (JObj out)" if "(out', h) = refuse_listing gc s resp h'" for out' h resp h'
    using that ne by (auto simp: refuse_listing_def error_reply_def error_response_def split: option.splits)
  have no': "error_response JNull (- 32603) invalid_listing \<noteq> JObj out" using ne by (auto simp: error_response_def)
  obtain resp where resp: "Option.bind (json_parse line) as_map = Some (Some resp)"
    using f no' by (auto simp: filter_tool_list_def split: option.splits)
  have nr: "refuse_listing gc s resp h \<noteq> (Some (JObj out), g')" for h using no by metis
  obtain result where result: "map_of resp ''error'' = None" "Option.bind (map_of resp ''result'') as_map = Some (Some result)"
    using f nr by (auto simp: filter_tool_list_def resp split: if_splits option.splits)
  obtain listed where listed: "Option.bind (map_of result ''tools'') as_slice = Some (Some listed)"
    using f nr by (auto simp: filter_tool_list_def resp result split: option.splits)
  have "show_page gc w digest (length line) s build resp result listed g = (Some (JObj out), g')"
    using f by (simp add: filter_tool_list_def resp result listed)
  then show ?thesis
  proof (cases rule: show_page_cases)
    case (refused g1)
    then show ?thesis using nr by metis
  next
    case (shown build' obs cursor paginated g1 kept g2 cat err)
    note see = filter_tools_spec [OF shown(3)]
    have agrees: "hidden_because gc w n (page_observation build' obs cursor paginated n) = None \<longleftrightarrow> callable gc (g_catalog g') n" for n
    proof (cases "has_tool_pin_constraints (c_engine gc) (c_agent gc)")
      case False
      then show ?thesis by (simp add: hidden_because_None callable_def pin_holds_def no_pins_no_cause)
    next
      case True
      then have b: "build' \<noteq> 0" "err = None" using shown(2,7) by blast+
      note r = read_page_active(2) [OF shown(1) b(1)]
      obtain bd where bd: "active_build build' (catalog_run evs) = Some bd" "paginated = cb_paginated bd" using r c by metis
      have "g_catalog g2 = catalog_run evs" using see r c by simp
      then have a: "add_page build' (length line) obs cursor (catalog_run evs) = (None, cat)" using shown(6) b by simp
      have "g_catalog g' = cat" using shown(5) by simp
      then show ?thesis
        using page_observation_published [OF catalog_traced bd(1) b(1) a] bd(2)
        by (simp add: hidden_because_None callable_def pin_holds_def)
    qed
    obtain entries rows where e: "map listed_name listed = map Some entries"
        "kept = map snd (filter (\<lambda>(n, _). callable gc (g_catalog g') n) entries)"
        "rows_at s (g_queue g2) = rows_at s (g_queue g1) @ rows"
        "list_all2 hide_row rows (map fst (filter (\<lambda>(n, _). \<not> callable gc (g_catalog g') n) entries))"
      using see unfolding agrees by auto
    have "out = put ''result'' (JObj (put ''tools'' (JArr (map JObj kept)) result)) resp" using shown(4) by simp
    moreover have "rows_at s (g_queue g') = rows_at s (g_queue g) @ rows"
      using e(3) shown(5) read_page_active(1) [OF shown(1)] by simp
    ultimately show ?thesis using resp result(2) listed e by (intro exI) (auto simp: comp_def)
  qed
qed

text \<open>A listing of two tools, of which the policy allows one.\<close>

definition demo_listing :: json where
  "demo_listing =
     JObj [(''id'', JNum ''1''), (''result'', JObj [(''tools'', JArr [JObj [(''name'', JStr ''c'')], JObj [(''name'', JStr ''x'')]])])]"

lemma demo_listing_parse: "json_parse (json_print demo_listing) = Some demo_listing"
  by (rule json_roundtrip)
    (simp_all add: demo_listing_def coerce_utf8_ascii valid_number_def scan_number_def is_digit_def max_nesting_def)

lemma demo_listing_members: "Option.bind (json_parse (json_print demo_listing)) as_map = Some (Some [(''id'', JNum ''1''),
      (''result'', JObj [(''tools'', JArr [JObj [(''name'', JStr ''c'')], JObj [(''name'', JStr ''x'')]])])])"
  unfolding demo_listing_parse by (simp add: demo_listing_def collect_def)

lemma demo_listing_filtered:
  "\<exists>g'. filter_tool_list demo_gc demo_world (\<lambda>_. None) (json_print demo_listing) 0 0 demo_gate =
     (Some (JObj [(''id'', JNum ''1''), (''result'', JObj [(''tools'', JArr [JObj [(''name'', JStr ''c'')]])])]), g')"
proof -
  have p: "\<not> has_tool_pin_constraints (c_engine demo_gc) (c_agent demo_gc)"
    by (simp add: demo_gc_def demo_session_def has_tool_pin_constraints_def c_agent_def policy_or_zero_def agent_policy_of_def empty_policy_def)
  have e: "verdict (evaluate (c_engine demo_gc) (c_agent demo_gc) ''c'') = Allow"
      "verdict (evaluate (c_engine demo_gc) (c_agent demo_gc) ''x'') = Deny"
    by (simp_all add: demo_gc_def c_agent_def demo_session_def evaluate_def agent_policy_of_def evaluate_policy_def
        empty_policy_def match_pattern_def match_pattern_err_def is_glob_pattern_def contains_any_def with_shadow_def decide_as_def)
  have h: "hidden_because demo_gc demo_world ''c'' ob = None" "\<exists>why. hidden_because demo_gc demo_world ''x'' ob = Some why" for ob
    using e no_pins_no_cause [OF p] by (simp_all add: hidden_because_def Let_def)
  then obtain why where w: "hidden_because demo_gc demo_world ''x'' (page_observation 0 [] [] False ''x'') = Some why" by blast
  show ?thesis
    unfolding filter_tool_list_def demo_listing_members
    by (simp add: collect_def show_page_def read_page_def p listed_name_def h(1) w Let_def)
qed

lemma listing_shows_callable_tools_witness:
  "\<exists>row\<in>set (rows_at 0 (g_queue (snd (filter_tool_list demo_gc demo_world (\<lambda>_. None) (json_print demo_listing) 0 0 demo_gate)))).
     hide_row row ''x''"
proof -
  obtain g' where f: "filter_tool_list demo_gc demo_world (\<lambda>_. None) (json_print demo_listing) 0 0 demo_gate =
     (Some (JObj [(''id'', JNum ''1''), (''result'', JObj [(''tools'', JArr [JObj [(''name'', JStr ''c'')]])])]), g')"
    using demo_listing_filtered by blast
  have c: "g_catalog demo_gate = catalog_run []" by (simp add: demo_gate_def)
  obtain resp result listed entries rows where
    r: "Option.bind (json_parse (json_print demo_listing)) as_map = Some (Some resp)"
      "Option.bind (map_of resp ''result'') as_map = Some (Some result)"
      "Option.bind (map_of result ''tools'') as_slice = Some (Some listed)" "map listed_name listed = map Some entries"
      "rows_at 0 (g_queue g') = rows_at 0 (g_queue demo_gate) @ rows"
      "list_all2 hide_row rows (map fst (filter (\<lambda>(n, _). \<not> callable demo_gc (g_catalog g') n) entries))"
    using listing_shows_callable_tools [OF f _ c] by auto
  have "listed = [JObj [(''name'', JStr ''c'')], JObj [(''name'', JStr ''x'')]]"
    using r(1-3) unfolding demo_listing_members by (auto simp: collect_def)
  then have "entries = [(''c'', [(''name'', JStr ''c'')]), (''x'', [(''name'', JStr ''x'')])]"
    using r(4) by (auto simp: listed_name_def collect_def)
  moreover have "\<not> callable demo_gc (g_catalog g') ''x''"
    by (simp add: callable_def demo_gc_def c_agent_def demo_session_def evaluate_def agent_policy_of_def evaluate_policy_def
        empty_policy_def match_pattern_def match_pattern_err_def is_glob_pattern_def contains_any_def with_shadow_def decide_as_def)
  ultimately have "\<exists>row\<in>set rows. hide_row row ''x''" using r(6) by (auto simp: list_all2_Cons2 split: if_splits)
  then show ?thesis unfolding f snd_conv r(5) by auto
qed

subsection \<open>The catalog of a session\<close>

text \<open>A catalog that its operations lead to from another, with pages that name each tool once.\<close>

definition moves_to :: "tool_catalog \<Rightarrow> tool_catalog \<Rightarrow> bool" where
  "moves_to c c' \<longleftrightarrow> (\<exists>evs. list_all page_event_ok evs \<and> c' = fold catalog_apply evs c)"

lemma moves_to_refl: "moves_to c c"
  unfolding moves_to_def by (intro exI [of _ "[]"]) simp

lemma moves_to_trans: "moves_to c c1 \<Longrightarrow> moves_to c1 c' \<Longrightarrow> moves_to c c'"
  unfolding moves_to_def by (metis fold_append comp_apply list_all_append)

lemma moves_to_one: "page_event_ok e \<Longrightarrow> moves_to c (catalog_apply e c)"
  unfolding moves_to_def by (intro exI [of _ "[e]"]) simp

lemma discard_moves: "moves_to (g_catalog g) (g_catalog (gate_discard build g))"
  using moves_to_one [of "CDiscard build"] moves_to_refl by (simp add: gate_discard_def)

lemma refuse_listing_catalog: "g_catalog (snd (refuse_listing gc s resp g)) = g_catalog g"
  by (simp add: refuse_listing_def)

lemma filter_tools_catalog: "g_catalog (snd (filter_tools gc w s see raws kept g)) = g_catalog g"
  by (induction gc w s see raws kept g rule: filter_tools.induct) (auto split: option.split)

lemma read_page_moves:
  assumes "read_page digest build sz listed result g = ((build', obs, cursor, paginated), g1)"
  shows "moves_to (g_catalog g) (g_catalog g1)" "distinct (map fst obs)"
proof -
  show "moves_to (g_catalog g) (g_catalog g1)"
    using assms moves_to_refl discard_moves by (auto simp: read_page_def split: if_splits option.splits prod.splits)
  have "distinct (map fst o')" if "page_observations digest [] listed = Some o'" for o'
    using page_observations_distinct [OF that] by simp
  then show "distinct (map fst obs)"
    using assms by (auto simp: read_page_def split: if_splits option.splits prod.splits)
qed

lemma show_page_moves: "moves_to (g_catalog g) (g_catalog (snd (show_page gc w digest sz s build resp result listed g)))"
proof -
  obtain build' obs cursor paginated g1 where r: "read_page digest build sz listed result g = ((build', obs, cursor, paginated), g1)"
    by (metis prod.exhaust)
  note m = read_page_moves [OF r]
  obtain k g2 where f: "filter_tools gc w s (page_observation build' obs cursor paginated) listed [] g1 = (k, g2)" by fastforce
  have g2: "g_catalog g2 = g_catalog g1"
    using filter_tools_catalog [of gc w s "page_observation build' obs cursor paginated" listed "[]" g1] f by simp
  obtain err cat where c: "(if build' = 0 then (None, g_catalog g2) else add_page build' sz obs cursor (g_catalog g2)) = (err, cat)"
    by fastforce
  have "moves_to (g_catalog g1) cat"
    using c moves_to_one [of "CPage build' sz obs cursor" "g_catalog g1"] moves_to_refl m(2) unfolding g2
    by (auto split: if_splits)
  then have cat: "moves_to (g_catalog g) cat" using moves_to_trans m(1) by blast
  show ?thesis unfolding show_page_def r Let_def prod.case f c
    by (simp add: refuse_listing_catalog g2 m(1) cat split: option.split)
qed

lemma filter_tool_list_moves: "moves_to (g_catalog g) (g_catalog (snd (filter_tool_list gc w digest line s build g)))"
  unfolding filter_tool_list_def
  by (simp add: refuse_listing_catalog discard_moves show_page_moves split: option.split)

interpretation listing: session_preorder gc w "\<lambda>p p'. moves_to (g_catalog (x_gate p)) (g_catalog (x_gate p'))" for gc w
proof
  show "moves_to (g_catalog (x_gate p)) (g_catalog (x_gate (p\<lparr>x_gate := snd (decide gc w line s (x_gate p))\<rparr>)))"
    for p :: "'a proxy" and line s
    using same_catalog.decided [where g = "x_gate p"] moves_to_refl by simp
  show "moves_to (g_catalog (x_gate p)) (g_catalog (x_gate (p\<lparr>x_gate := g\<rparr>)))"
    if "reject_oversized gc w kind name i (x_gate p) = Some (d, g)" for p :: "'a proxy" and kind name i d g
    using same_catalog.too_long [OF that] moves_to_refl by simp
  show "moves_to (g_catalog (x_gate p)) (g_catalog (x_gate (on_gate (\<lambda>g. g\<lparr>g_catalog := snd (begin_list params (g_catalog g))\<rparr>) p)))"
    for p :: "'a proxy" and params
    using moves_to_one [of "CBegin params"] by simp
  show "moves_to (g_catalog (x_gate p)) (g_catalog (x_gate (x_invalidate p)))" for p :: "'a proxy"
    using moves_to_one [of CInvalidate] by (simp add: x_invalidate_def)
qed (auto simp: moves_to_refl filter_tool_list_moves gate_audit_now_def remember_observation_def intro: moves_to_trans)

text \<open>
  In every reachable state of a session the tool catalog holds at most 4096 tools, 32 pages and 10 MiB of
  listing, names each tool once, and the cursors of its listing do not repeat, whatever the upstream sends.
\<close>

theorem session_catalog_bounded:
  assumes "session_run gc w digest fold_min (new_proxy lm wr) p"
  shows "catalog_ok (g_catalog (x_gate p))"
proof -
  obtain evs where "list_all page_event_ok evs" "g_catalog (x_gate p) = fold catalog_apply evs (empty_catalog)"
    using listing.run [OF assms] unfolding moves_to_def by (auto simp: new_proxy_def)
  then show ?thesis using catalog_stays_ok unfolding catalog_run_def by metis
qed

lemma session_catalog_bounded_witness:
  "catalog_ok (g_catalog (x_gate (upstream_line demo_gc demo_world (\<lambda>_. None) id (json_print demo_listing) (new_proxy None []))))"
  by (rule session_catalog_bounded [OF session_more [OF session_start session_upstream]])

end
