(* ===== verification/Approval.thy ===== *)
theory Approval
  imports Gate
begin

text \<open>
  What a human is shown when a call is held, \<^verbatim>\<open>internal/approval/summary.go\<close> and the
  prompt of \<^verbatim>\<open>internal/approval/telegram.go\<close>, and the approver that always gives the same
  answer (\<^verbatim>\<open>approval.go\<close>). Parameters of a call are trees: the length shown for text that is no
  object is that of the tree printed. \<open>mt\<close> matches a regular expression, \<open>quote\<close> is the
  format verb for quoted strings.
\<close>

subsection \<open>The summary of the parameters\<close>

definition sensitive_key :: bytes where
  "sensitive_key = ''(?i)(secret|token|key|password|passwd|pwd|auth|credential|cookie|session|private|signature)''"

definition max_value_len :: nat where "max_value_len = 40"

definition max_summary_len :: nat where "max_summary_len = 280"

definition ellipsis :: bytes where
  "ellipsis = [byte 226, byte 128, byte 166]"

definition redacted_chars :: "bytes \<Rightarrow> bytes" where
  "redacted_chars s = ''[redacted, '' @ show_nat (length s) @ '' chars]''"

definition summarize_value :: "(bytes \<Rightarrow> bytes \<Rightarrow> bool) \<Rightarrow> (bytes \<Rightarrow> bytes) \<Rightarrow> bytes \<Rightarrow> json \<Rightarrow> bytes" where
  "summarize_value mt quote key v =
     (if mt sensitive_key key then ''[redacted]''
      else case v of
          JNull \<Rightarrow> ''null''
        | JBool b \<Rightarrow> if b then ''true'' else ''false''
        | JNum s \<Rightarrow> if looks_like_secret mt s then ''[redacted]'' else s
        | JStr s \<Rightarrow>
            if looks_like_secret mt s then redacted_chars s
            else if length s \<le> max_value_len then quote s
            else redacted_chars s
        | JObj _ \<Rightarrow> ''{'' @ ellipsis @ ''}''
        | JArr _ \<Rightarrow> ''['' @ ellipsis @ '']'')"

text \<open>The loop over the sorted keys; \<open>b\<close> is what the builder holds.\<close>

fun summary_lines :: "(bytes \<Rightarrow> bytes \<Rightarrow> bool) \<Rightarrow> (bytes \<Rightarrow> bytes) \<Rightarrow> members \<Rightarrow> bytes \<Rightarrow> bytes" where
  "summary_lines mt quote [] b = b"
| "summary_lines mt quote ((k, v) # ms) b =
     (if length b > max_summary_len then b @ newline # ''  '' @ ellipsis
      else summary_lines mt quote ms (b @ newline # ''  '' @ k @ '': '' @ summarize_value mt quote k v))"

definition summarize_params :: "(bytes \<Rightarrow> bytes \<Rightarrow> bool) \<Rightarrow> (bytes \<Rightarrow> bytes) \<Rightarrow> json \<Rightarrow> bytes" where
  "summarize_params mt quote params =
     (case params of
        JObj ms \<Rightarrow> if ms = [] then [] else summary_lines mt quote (collect ms) ''Args:''
      | JNull \<Rightarrow> []
      | _ \<Rightarrow> ''Args: ['' @ show_nat (length (json_print params)) @ '' bytes, not shown]'')"

subsection \<open>The prompt\<close>

text \<open>The \<open>arguments\<close> of a tools/call envelope; the field is matched up to case, the last one counts.\<close>

definition envelope_arguments :: "json \<Rightarrow> json option" where
  "envelope_arguments params =
     (case params of
        JObj ms \<Rightarrow>
          (case last_member ''arguments'' ms of
             Some v \<Rightarrow> if v = JNull then None else Some v
           | None \<Rightarrow> None)
      | _ \<Rightarrow> None)"

definition summarized :: "json \<Rightarrow> json" where
  "summarized params = (case envelope_arguments params of Some a \<Rightarrow> a | None \<Rightarrow> params)"

definition prompt_heading :: bytes where
  "prompt_heading =
     [byte 240, byte 159, byte 148, byte 146] @ '' NockGuard '' @ [byte 226, byte 128, byte 148] @ '' approval needed''"

definition telegram_prompt :: "(bytes \<Rightarrow> bytes \<Rightarrow> bool) \<Rightarrow> (bytes \<Rightarrow> bytes) \<Rightarrow> approval_request \<Rightarrow> bytes" where
  "telegram_prompt mt quote req =
     (let head_text = prompt_heading @ [newline, newline] @ ''Agent: '' @ ap_agent req @ newline # ''Tool: '' @ ap_tool req;
          summary = summarize_params mt quote (summarized (ap_params req)) in
      head_text @ (if summary = [] then [] else newline # summary) @ [newline, newline] @ ''Approve this call?'')"

subsection \<open>The static approver\<close>

definition static_approver :: "bool \<Rightarrow> bytes \<Rightarrow> approval_request \<Rightarrow> approval_answer" where
  "static_approver ok why req = \<lparr>an_approved = ok, an_reason = why, an_actor = [], an_taps = []\<rparr>"

subsection \<open>What the prompt depends on\<close>

text \<open>Two members that the summary does not tell apart: one key, and values it shows alike.\<close>

definition hidden_text :: "(bytes \<Rightarrow> bytes \<Rightarrow> bool) \<Rightarrow> bytes \<Rightarrow> bool" where
  "hidden_text mt s \<longleftrightarrow> looks_like_secret mt s \<or> length s > max_value_len"

fun alike :: "(bytes \<Rightarrow> bytes \<Rightarrow> bool) \<Rightarrow> json \<Rightarrow> json \<Rightarrow> bool" where
  "alike mt (JStr s) (JStr t) \<longleftrightarrow> s = t \<or> (hidden_text mt s \<and> hidden_text mt t \<and> length s = length t)"
| "alike mt (JNum s) (JNum t) \<longleftrightarrow> s = t \<or> (looks_like_secret mt s \<and> looks_like_secret mt t)"
| "alike mt (JObj a) (JObj b) \<longleftrightarrow> True"
| "alike mt (JArr a) (JArr b) \<longleftrightarrow> True"
| "alike mt a b \<longleftrightarrow> a = b"

definition alike_member :: "(bytes \<Rightarrow> bytes \<Rightarrow> bool) \<Rightarrow> bytes \<times> json \<Rightarrow> bytes \<times> json \<Rightarrow> bool" where
  "alike_member mt x y \<longleftrightarrow> fst x = fst y \<and> (mt sensitive_key (fst x) \<or> alike mt (snd x) (snd y))"

lemma summarize_value_alike:
  assumes "alike mt v v'"
  shows "summarize_value mt quote k v = summarize_value mt quote k v'"
  using assms
  by (cases "(mt, v, v')" rule: alike.cases)
    (auto simp: summarize_value_def hidden_text_def redacted_chars_def)

lemma summarize_alike_member:
  assumes "alike_member mt (k, v) (k', v')"
  shows "k' = k" "summarize_value mt quote k v = summarize_value mt quote k v'"
proof -
  show "k' = k" using assms by (simp add: alike_member_def)
  show "summarize_value mt quote k v = summarize_value mt quote k v'"
  proof (cases "mt sensitive_key k")
    case False
    then show ?thesis using assms summarize_value_alike by (simp add: alike_member_def)
  qed (simp add: summarize_value_def)
qed

lemma summary_lines_alike:
  assumes "list_all2 (alike_member mt) ms ms'"
  shows "summary_lines mt quote ms b = summary_lines mt quote ms' b"
  using assms
proof (induction ms ms' arbitrary: b rule: list_all2_induct)
  case (Cons x ms y ms')
  obtain k v k' v' where xy: "x = (k, v)" "y = (k', v')" by (cases x, cases y)
  note eq = summarize_alike_member [OF Cons.hyps(1) [unfolded xy]]
  show ?case using Cons.IH eq(2) [of quote] by (simp add: xy eq(1))
qed simp

lemma put_alike:
  assumes "list_all2 (alike_member mt) m m'" and "alike_member mt (k, v) (k, v')"
  shows "list_all2 (alike_member mt) (put k v m) (put k v' m')"
  using assms
proof (induction m m' rule: list_all2_induct)
  case (Cons x m y m')
  obtain a b c d where xy: "x = (a, b)" "y = (c, d)" by (cases x, cases y)
  have "c = a" using Cons.hyps(1) by (simp add: xy alike_member_def)
  then show ?case using Cons by (auto simp: xy)
qed simp

lemma collect_alike:
  assumes "list_all2 (alike_member mt) ms ms'"
  shows "list_all2 (alike_member mt) (collect ms) (collect ms')"
proof -
  have "list_all2 (alike_member mt) (fold (\<lambda>(k, v) m. put k v m) ms m) (fold (\<lambda>(k, v) m. put k v m) ms' m')"
    if "list_all2 (alike_member mt) m m'" for m m'
    using assms that
  proof (induction ms ms' arbitrary: m m' rule: list_all2_induct)
    case (Cons x ms y ms')
    obtain k v k' v' where xy: "x = (k, v)" "y = (k', v')" by (cases x, cases y)
    have "k' = k" using Cons.hyps(1) by (simp add: xy alike_member_def)
    then show ?case using Cons put_alike [OF Cons.prems, of k v v'] by (simp add: xy)
  qed simp
  then show ?thesis by (simp add: collect_def)
qed

text \<open>Arguments that the prompt does not tell apart; of anything but an object and null only the size is shown.\<close>

definition alike_args :: "(bytes \<Rightarrow> bytes \<Rightarrow> bool) \<Rightarrow> json \<Rightarrow> json \<Rightarrow> bool" where
  "alike_args mt v v' \<longleftrightarrow>
     (case (v, v') of
        (JObj ms, JObj ms') \<Rightarrow> list_all2 (alike_member mt) ms ms'
      | (JObj _, _) \<Rightarrow> False
      | (_, JObj _) \<Rightarrow> False
      | _ \<Rightarrow> (v = JNull \<longleftrightarrow> v' = JNull) \<and> length (json_print v) = length (json_print v'))"

lemma summarize_params_alike:
  assumes "alike_args mt v v'"
  shows "summarize_params mt quote v = summarize_params mt quote v'"
proof (cases v)
  case (JObj ms)
  then obtain ms' where v': "v' = JObj ms'" "list_all2 (alike_member mt) ms ms'" using assms by (cases v') (auto simp: alike_args_def)
  have "ms = [] \<longleftrightarrow> ms' = []" using v'(2) by auto
  then show ?thesis using summary_lines_alike [OF collect_alike [OF v'(2)]] by (simp add: summarize_params_def JObj v'(1))
qed (use assms in \<open>cases v'; simp add: alike_args_def summarize_params_def\<close>)+

text \<open>
  C20. The prompt shows no secret but its length: two calls of one tool whose arguments differ only in values under sensitive
  keys, in strings that have the shape of a secret or are long and have the same length (which the prompt gives), in numbers of such shape,
  or inside nested objects and arrays, give the human the same text; so do arguments that are no object and have the same size.
\<close>

theorem prompt_hides_secrets:
  assumes "alike_args mt (summarized (ap_params req)) (summarized (ap_params req'))"
    and "ap_agent req' = ap_agent req" and "ap_tool req' = ap_tool req"
  shows "telegram_prompt mt quote req = telegram_prompt mt quote req'"
  using summarize_params_alike [OF assms(1)] assms(2,3) by (simp add: telegram_prompt_def)

definition demo_match :: "bytes \<Rightarrow> bytes \<Rightarrow> bool" where
  "demo_match p s \<longleftrightarrow> (if p = sensitive_key then s = ''token'' else has_prefix s ''AKIA'')"

definition demo_transfer :: "bytes \<Rightarrow> bytes \<Rightarrow> approval_request" where
  "demo_transfer token note =
     \<lparr>ap_agent = ''a'', ap_tool = ''pay'',
      ap_params = JObj [(''name'', JStr ''pay''),
        (''arguments'', JObj [(''token'', JStr token), (''note'', JStr note), (''sum'', JNum ''5'')])],
      ap_reason = ''r''\<rparr>"

lemma equal_fold_name_arguments: "\<not> equal_fold ''name'' ''arguments''" "equal_fold ''arguments'' ''arguments''"
  by (simp_all add: equal_fold_def runes_ascii fold_rune_def)

lemma demo_transfer_arguments:
  "envelope_arguments (ap_params (demo_transfer t n)) = Some (JObj [(''token'', JStr t), (''note'', JStr n), (''sum'', JNum ''5'')])"
  by (simp add: demo_transfer_def envelope_arguments_def equal_fold_name_arguments)

lemma demo_transfer_simps:
  "summarized (ap_params (demo_transfer t n)) = JObj [(''token'', JStr t), (''note'', JStr n), (''sum'', JNum ''5'')]"
  "ap_agent (demo_transfer t n) = ''a''" "ap_tool (demo_transfer t n) = ''pay''"
  by (simp_all add: summarized_def demo_transfer_arguments) (simp_all add: demo_transfer_def)

theorem prompt_hides_secrets_witness:
  "telegram_prompt demo_match id (demo_transfer ''abc'' ''AKIA1'') = telegram_prompt demo_match id (demo_transfer ''x'' ''AKIA2'')"
  by (rule prompt_hides_secrets, unfold demo_transfer_simps)
    (simp_all add: alike_args_def alike_member_def demo_match_def hidden_text_def looks_like_secret_def secrets_rules_def mk_rule_def
      re_rule_def has_prefix_def sensitive_key_def)

text \<open>
  The documentation calls the summary capped. The cap is tested before a line is added and covers no key and
  no number: for every bound there are arguments whose summary is longer.
\<close>

theorem summary_not_capped:
  "\<exists>ms. length (summarize_params mt quote (JObj ms)) > n"
proof -
  have "length (summarize_params mt quote (JObj [(replicate n CHR ''a'', JNull)])) > n"
    by (simp add: summarize_params_def collect_def max_summary_len_def)
  then show ?thesis by blast
qed

end
