(* ===== verification/Telegram.thy ===== *)
theory Telegram
  imports Approval
begin

text \<open>
  The approver over Telegram, \<^verbatim>\<open>internal/approval/telegram.go\<close>. Several calls may be held
  at once: each \<open>Ask\<close> is a goroutine, one poller reads the bot's updates and hands each to the
  waiter whose nonce it names. A goroutine is an element of \<open>tg_asks\<close> with the point it has
  reached; a step is what runs between two points where another goroutine may come in. What the network
  answers and the clock are arguments of the steps, so a list of steps is one schedule. The text of the
  messages is modelled, their transport is not.
\<close>

subsection \<open>Configuration\<close>

datatype telegram_error = BadChatId | NoApproverIds | BadApproverIds

fun approver_ids :: "bytes list \<Rightarrow> int list option" where
  "approver_ids [] = Some []"
| "approver_ids (raw # rest) =
     (case atoi (trim_bytes raw) of
        None \<Rightarrow> None
      | Some i \<Rightarrow> if i \<le> 0 then None else map_option (Cons i) (approver_ids rest))"

record tg_config =
  tg_chat :: int
  tg_approvers :: "int list"
  tg_timeout :: int

definition new_telegram_approver :: "bytes \<Rightarrow> bytes \<Rightarrow> int \<Rightarrow> telegram_error + tg_config" where
  "new_telegram_approver chat ids timeout =
     (case atoi chat of
        None \<Rightarrow> Inl BadChatId
      | Some c \<Rightarrow>
          if trim_bytes ids = [] then Inl NoApproverIds
          else (case approver_ids (split_on CHR '','' ids) of
              None \<Rightarrow> Inl BadApproverIds
            | Some l \<Rightarrow> Inr \<lparr>tg_chat = c, tg_approvers = l, tg_timeout = timeout\<rparr>))"

subsection \<open>State\<close>

record tg_callback =
  cb_id :: bytes
  cb_data :: bytes
  cb_from :: int
  cb_chat :: int

record tg_update =
  up_id :: int
  up_callback :: "tg_callback option"

record tg_waiter =
  wt_ready :: bool
  wt_updates :: "tg_update list"

text \<open>
  Where an \<open>Ask\<close> stands: its prompt is on the way; it waits in \<open>select\<close> until its
  deadline; it has received from \<open>ready\<close> and takes the lock next; it has returned.
\<close>

datatype ask_point = Sending | Waiting int | Woken int | Returned approval_answer | Panicked

record tg_ask =
  ak_nonce :: bytes
  ak_prompt :: bytes
  ak_point :: ask_point
  ak_taps :: "bytes list"

record telegram =
  tg_waiters :: "(bytes \<times> tg_waiter) list"
  tg_polling :: bool
  tg_offset :: int
  tg_inbox :: "tg_update list"
  tg_asks :: "tg_ask list"
  tg_answers :: "(bytes \<times> bytes) list"

definition new_telegram :: telegram where
  "new_telegram = \<lparr>tg_waiters = [], tg_polling = False, tg_offset = 0, tg_inbox = [], tg_asks = [], tg_answers = []\<rparr>"

subsection \<open>Asking\<close>

definition verdict_of :: "bool \<Rightarrow> bytes \<Rightarrow> bytes list \<Rightarrow> approval_answer" where
  "verdict_of ok why taps = \<lparr>an_approved = ok, an_reason = why, an_actor = [], an_taps = taps\<rparr>"

definition set_point :: "nat \<Rightarrow> ask_point \<Rightarrow> telegram \<Rightarrow> telegram" where
  "set_point i pt t = t\<lparr>tg_asks := (tg_asks t)[i := (tg_asks t ! i)\<lparr>ak_point := pt\<rparr>]\<rparr>"

text \<open>Returning runs the deferred removal of the waiter.\<close>

definition ask_return :: "nat \<Rightarrow> bool \<Rightarrow> bytes \<Rightarrow> telegram \<Rightarrow> telegram" where
  "ask_return i ok why t =
     set_point i (Returned (verdict_of ok why (ak_taps (tg_asks t ! i))))
       (t\<lparr>tg_waiters := del (ak_nonce (tg_asks t ! i)) (tg_waiters t)\<rparr>)"

definition ask_begin :: "(bytes \<Rightarrow> bytes \<Rightarrow> bool) \<Rightarrow> (bytes \<Rightarrow> bytes) \<Rightarrow> approval_request \<Rightarrow> bytes \<Rightarrow> telegram \<Rightarrow> telegram" where
  "ask_begin mt quote req nonce t =
     (if map_of (tg_waiters t) nonce \<noteq> None then
        t\<lparr>tg_asks := tg_asks t @ [\<lparr>ak_nonce = nonce, ak_prompt = [],
            ak_point = Returned (verdict_of False ''nonce-collision'' []), ak_taps = []\<rparr>]\<rparr>
      else
        t\<lparr>tg_waiters := put nonce \<lparr>wt_ready = False, wt_updates = []\<rparr> (tg_waiters t),
          tg_asks := tg_asks t @ [\<lparr>ak_nonce = nonce, ak_prompt = telegram_prompt mt quote req,
            ak_point = Sending, ak_taps = []\<rparr>]\<rparr>)"

definition ask_sent :: "tg_config \<Rightarrow> nat \<Rightarrow> bool \<Rightarrow> int \<Rightarrow> telegram \<Rightarrow> telegram" where
  "ask_sent tc i ok now t =
     (if \<not> ok then ask_return i False ''send-failed'' t
      else set_point i (Waiting (now + tg_timeout tc)) (t\<lparr>tg_polling := True\<rparr>))"

definition ask_signalled :: "nat \<Rightarrow> int \<Rightarrow> telegram \<Rightarrow> telegram" where
  "ask_signalled i deadline t =
     (let n = ak_nonce (tg_asks t ! i) in
      case map_of (tg_waiters t) n of
        Some wt \<Rightarrow>
          if wt_ready wt
          then set_point i (Woken deadline) (t\<lparr>tg_waiters := put n (wt\<lparr>wt_ready := False\<rparr>) (tg_waiters t)\<rparr>)
          else t
      | None \<Rightarrow> t)"

definition reject_tap :: "nat \<Rightarrow> int \<Rightarrow> tg_callback \<Rightarrow> bytes \<Rightarrow> telegram \<Rightarrow> telegram" where
  "reject_tap i deadline c why t =
     t\<lparr>tg_asks := (tg_asks t)[i := (tg_asks t ! i)\<lparr>ak_point := Waiting deadline, ak_taps := ak_taps (tg_asks t ! i) @ [why]\<rparr>],
       tg_answers := tg_answers t @ [(cb_id c, ''Approval not allowed'')]\<rparr>"

definition judge_tap :: "tg_config \<Rightarrow> nat \<Rightarrow> int \<Rightarrow> tg_callback \<Rightarrow> telegram \<Rightarrow> telegram" where
  "judge_tap tc i deadline c t =
     (let n = ak_nonce (tg_asks t ! i) in
      if cb_data c \<noteq> ''approve:'' @ n \<and> cb_data c \<noteq> ''deny:'' @ n then set_point i (Waiting deadline) t
      else if cb_chat c \<noteq> tg_chat tc then reject_tap i deadline c ''telegram-callback-wrong-chat'' t
      else if cb_from c \<notin> set (tg_approvers tc) then reject_tap i deadline c ''telegram-callback-unlisted-sender'' t
      else if cb_data c = ''approve:'' @ n then
        ask_return i True ''approved by human'' (t\<lparr>tg_answers := tg_answers t @ [(cb_id c, ''Approved'')]\<rparr>)
      else ask_return i False ''denied by human'' (t\<lparr>tg_answers := tg_answers t @ [(cb_id c, ''Denied'')]\<rparr>))"

text \<open>Taking from an empty queue is an index out of range.\<close>

definition ask_takes :: "tg_config \<Rightarrow> nat \<Rightarrow> int \<Rightarrow> int \<Rightarrow> telegram \<Rightarrow> telegram" where
  "ask_takes tc i deadline now t =
     (let n = ak_nonce (tg_asks t ! i) in
      case map_of (tg_waiters t) n of
        Some wt \<Rightarrow>
          (case wt_updates wt of
             [] \<Rightarrow> set_point i Panicked t
           | u # us \<Rightarrow>
               let t1 = t\<lparr>tg_waiters := put n \<lparr>wt_ready = wt_ready wt \<or> us \<noteq> [], wt_updates = us\<rparr> (tg_waiters t)\<rparr> in
               if \<not> now < deadline then ask_return i False ''timeout'' t1
               else (case up_callback u of
                   None \<Rightarrow> set_point i (Waiting deadline) t1
                 | Some c \<Rightarrow> judge_tap tc i deadline c t1))
      | None \<Rightarrow> set_point i Panicked t)"

subsection \<open>Polling\<close>

fun next_offset :: "tg_update list \<Rightarrow> int \<Rightarrow> int" where
  "next_offset [] n = n"
| "next_offset (u # us) n = next_offset us (if up_id u \<ge> n then wrap64 (up_id u + 1) else n)"

fun cut :: "char \<Rightarrow> bytes \<Rightarrow> (bytes \<times> bytes) option" where
  "cut d [] = None"
| "cut d (c # s) = (if c = d then Some ([], s) else map_option (map_prod (Cons c) id) (cut d s))"

definition deliver :: "tg_update \<Rightarrow> telegram \<Rightarrow> telegram" where
  "deliver u t =
     (case up_callback u of
        None \<Rightarrow> t
      | Some c \<Rightarrow>
          (case cut CHR '':'' (cb_data c) of
             None \<Rightarrow> t
           | Some (act, n) \<Rightarrow>
               if act \<noteq> ''approve'' \<and> act \<noteq> ''deny'' then t
               else (case map_of (tg_waiters t) n of
                   None \<Rightarrow> t
                 | Some wt \<Rightarrow>
                     t\<lparr>tg_waiters := put n \<lparr>wt_ready = True, wt_updates = wt_updates wt @ [u]\<rparr> (tg_waiters t)\<rparr>)))"

text \<open>The poller between two requests: it stops when no call is held.\<close>

definition poll_idle :: "telegram \<Rightarrow> telegram" where
  "poll_idle t = (if tg_polling t \<and> tg_inbox t = [] \<and> tg_waiters t = [] then t\<lparr>tg_polling := False\<rparr> else t)"

definition poll_got :: "tg_update list option \<Rightarrow> telegram \<Rightarrow> telegram" where
  "poll_got r t =
     (if tg_polling t \<and> tg_inbox t = [] then
        (case r of None \<Rightarrow> t | Some us \<Rightarrow> t\<lparr>tg_offset := next_offset us (tg_offset t), tg_inbox := us\<rparr>)
      else t)"

definition poll_delivers :: "telegram \<Rightarrow> telegram" where
  "poll_delivers t =
     (case tg_inbox t of [] \<Rightarrow> t | u # us \<Rightarrow> deliver u (t\<lparr>tg_inbox := us\<rparr>))"

subsection \<open>Schedules\<close>

datatype tg_step =
    AskBegins approval_request bytes
  | AskSent nat bool int
  | AskSignalled nat
  | AskTakes nat int
  | AskTimer nat int
  | PollIdle
  | PollGot "tg_update list option"
  | PollDelivers

definition ask_at :: "nat \<Rightarrow> telegram \<Rightarrow> ask_point option" where
  "ask_at i t = (if i < length (tg_asks t) then Some (ak_point (tg_asks t ! i)) else None)"

definition telegram_step :: "tg_config \<Rightarrow> (bytes \<Rightarrow> bytes \<Rightarrow> bool) \<Rightarrow> (bytes \<Rightarrow> bytes) \<Rightarrow> tg_step \<Rightarrow> telegram \<Rightarrow> telegram" where
  "telegram_step tc mt quote e t =
     (case e of
        AskBegins req n \<Rightarrow> ask_begin mt quote req n t
      | AskSent i ok now \<Rightarrow> if ask_at i t = Some Sending then ask_sent tc i ok now t else t
      | AskSignalled i \<Rightarrow> (case ask_at i t of Some (Waiting dl) \<Rightarrow> ask_signalled i dl t | _ \<Rightarrow> t)
      | AskTakes i now \<Rightarrow> (case ask_at i t of Some (Woken dl) \<Rightarrow> ask_takes tc i dl now t | _ \<Rightarrow> t)
      | AskTimer i now \<Rightarrow>
          (case ask_at i t of
             Some (Waiting dl) \<Rightarrow> if dl \<le> now then ask_return i False ''timeout'' t else t
           | _ \<Rightarrow> t)
      | PollIdle \<Rightarrow> poll_idle t
      | PollGot r \<Rightarrow> poll_got r t
      | PollDelivers \<Rightarrow> poll_delivers t)"

definition telegram_run :: "tg_config \<Rightarrow> (bytes \<Rightarrow> bytes \<Rightarrow> bool) \<Rightarrow> (bytes \<Rightarrow> bytes) \<Rightarrow> tg_step list \<Rightarrow> telegram" where
  "telegram_run tc mt quote es = fold (telegram_step tc mt quote) es new_telegram"

lemma telegram_run_snoc [simp]:
  "telegram_run tc mt quote (es @ [e]) = telegram_step tc mt quote e (telegram_run tc mt quote es)"
  by (simp add: telegram_run_def)

subsection \<open>No held call is stranded\<close>

text \<open>
  A held call has its waiter, and \<open>ready\<close> is signalled exactly while updates wait, but for the
  moment between the receive and the lock.
\<close>

definition held :: "tg_ask \<Rightarrow> bool" where
  "held a \<longleftrightarrow> (case ak_point a of Sending \<Rightarrow> True | Waiting _ \<Rightarrow> True | Woken _ \<Rightarrow> True | _ \<Rightarrow> False)"

definition wakes :: "ask_point \<Rightarrow> tg_waiter \<Rightarrow> bool" where
  "wakes pt wt \<longleftrightarrow>
     (case pt of
        Woken _ \<Rightarrow> wt_updates wt \<noteq> [] \<and> (wt_ready wt \<longrightarrow> length (wt_updates wt) \<ge> 2)
      | _ \<Rightarrow> wt_ready wt \<longleftrightarrow> wt_updates wt \<noteq> [])"

definition ask_sound :: "bool \<Rightarrow> (bytes \<rightharpoonup> tg_waiter) \<Rightarrow> tg_ask \<Rightarrow> bool" where
  "ask_sound polling ws a \<longleftrightarrow>
     ak_point a \<noteq> Panicked
     \<and> (held a \<longrightarrow> (\<exists>wt. ws (ak_nonce a) = Some wt \<and> wakes (ak_point a) wt \<and> (ak_point a = Sending \<or> polling)))"

definition nonces_apart :: "tg_ask list \<Rightarrow> bool" where
  "nonces_apart l \<longleftrightarrow> distinct (map ak_nonce (filter held l))"

definition tg_sound :: "telegram \<Rightarrow> bool" where
  "tg_sound t \<longleftrightarrow>
     (\<forall>a\<in>set (tg_asks t). ask_sound (tg_polling t) (map_of (tg_waiters t)) a) \<and> nonces_apart (tg_asks t)"

lemma held_simps [simp]:
  "held (a\<lparr>ak_point := Sending\<rparr>)" "held (a\<lparr>ak_point := Waiting d\<rparr>)" "held (a\<lparr>ak_point := Woken d\<rparr>)"
  "\<not> held (a\<lparr>ak_point := Returned v\<rparr>)" "\<not> held (a\<lparr>ak_point := Panicked\<rparr>)"
  "held (a\<lparr>ak_taps := ts\<rparr>) = held a"
  by (simp_all add: held_def)

lemma nonces_apart_nth:
  "nonces_apart l \<Longrightarrow> i < length l \<Longrightarrow> j < length l \<Longrightarrow> held (l ! i) \<Longrightarrow> held (l ! j)
    \<Longrightarrow> ak_nonce (l ! i) = ak_nonce (l ! j) \<Longrightarrow> i = j"
proof (induction l arbitrary: i j)
  case (Cons x l)
  have tl: "nonces_apart l" and hd: "held x \<Longrightarrow> ak_nonce x \<notin> ak_nonce ` (set l \<inter> {a. held a})"
    using Cons.prems(1) by (auto simp: nonces_apart_def split: if_splits)
  have out: False if "held x" "k < length l" "held (l ! k)" "ak_nonce (l ! k) = ak_nonce x" for k
    using hd [OF that(1)] imageI [of "l ! k" "set l \<inter> {a. held a}" ak_nonce] nth_mem [OF that(2)] that(3,4) by simp
  show ?case
  proof (cases i; cases j)
    fix m n assume "i = Suc m" "j = Suc n"
    then show ?thesis using Cons tl by simp
  next
    fix n assume "i = 0" "j = Suc n"
    then show ?thesis using Cons.prems out [of n] by simp
  next
    fix m assume "i = Suc m" "j = 0"
    then show ?thesis using Cons.prems out [of m] by simp
  qed simp
qed simp

lemma nonces_apart_update:
  assumes "nonces_apart l" and "i < length l" and "ak_nonce a = ak_nonce (l ! i)" and "held a \<longrightarrow> held (l ! i)"
  shows "nonces_apart (l[i := a])"
proof -
  obtain p q where l: "l = p @ l ! i # q" "length p = i" using assms(2) id_take_nth_drop [of i l] by fastforce
  have "l[i := a] = p @ a # q" using l by (metis list_update_length)
  moreover have "nonces_apart (p @ l ! i # q)" using assms(1) l(1) by simp
  ultimately show ?thesis using assms(3,4) by (auto simp: nonces_apart_def split: if_splits)
qed

text \<open>A step of one call touches its own waiter only.\<close>

lemma sound_update:
  assumes t: "tg_sound t" and i: "i < length (tg_asks t)" and h: "held (tg_asks t ! i)"
    and asks: "tg_asks t' = (tg_asks t)[i := a]" and n: "ak_nonce a = ak_nonce (tg_asks t ! i)"
    and ws: "\<And>m. m \<noteq> ak_nonce a \<Longrightarrow> map_of (tg_waiters t') m = map_of (tg_waiters t) m"
    and p: "tg_polling t \<Longrightarrow> tg_polling t'"
    and a: "ask_sound (tg_polling t') (map_of (tg_waiters t')) a"
  shows "tg_sound t'"
proof -
  have ap: "nonces_apart (tg_asks t)" using t by (simp add: tg_sound_def)
  have "ask_sound (tg_polling t') (map_of (tg_waiters t')) b" if "b \<in> set (tg_asks t')" for b
  proof -
    obtain j where j: "j < length (tg_asks t)" "b = (tg_asks t)[i := a] ! j"
      using \<open>b \<in> _\<close> asks by (metis in_set_conv_nth length_list_update)
    show ?thesis
    proof (cases "j = i")
      case False
      then have b: "b = tg_asks t ! j" using j by simp
      have old: "ask_sound (tg_polling t) (map_of (tg_waiters t)) b" using t j(1) b by (simp add: tg_sound_def)
      have "ak_nonce b \<noteq> ak_nonce a" if "held b"
        using nonces_apart_nth [OF ap i j(1) h] that b False n by auto
      then show ?thesis using old ws p by (auto simp: ask_sound_def)
    qed (use a j i in simp)
  qed
  then show ?thesis using nonces_apart_update [OF ap i n] asks h by (simp add: tg_sound_def)
qed

lemma ask_at_held:
  "ask_at i t = Some (Waiting d) \<or> ask_at i t = Some (Woken d) \<or> ask_at i t = Some Sending
    \<Longrightarrow> i < length (tg_asks t) \<and> held (tg_asks t ! i)"
  by (auto simp: ask_at_def held_def split: if_splits)

lemma set_point_asks [simp]:
  "tg_asks (set_point i pt t) = (tg_asks t)[i := (tg_asks t ! i)\<lparr>ak_point := pt\<rparr>]"
  "tg_waiters (set_point i pt t) = tg_waiters t" "tg_polling (set_point i pt t) = tg_polling t"
  "tg_inbox (set_point i pt t) = tg_inbox t" "tg_offset (set_point i pt t) = tg_offset t"
  by (simp_all add: set_point_def)

lemma ask_return_simps [simp]:
  "tg_waiters (ask_return i ok why t) = del (ak_nonce (tg_asks t ! i)) (tg_waiters t)"
  "tg_polling (ask_return i ok why t) = tg_polling t" "tg_inbox (ask_return i ok why t) = tg_inbox t"
  "tg_asks (ask_return i ok why t) =
     (tg_asks t)[i := (tg_asks t ! i)\<lparr>ak_point := Returned (verdict_of ok why (ak_taps (tg_asks t ! i)))\<rparr>]"
  by (simp_all add: ask_return_def)

lemma returned_sound:
  assumes "tg_sound t" and "i < length (tg_asks t)" and "held (tg_asks t ! i)"
    and "\<And>m. m \<noteq> ak_nonce (tg_asks t ! i) \<Longrightarrow> map_of (tg_waiters t1) m = map_of (tg_waiters t) m"
    and "tg_asks t1 = tg_asks t" and "tg_polling t1 = tg_polling t"
  shows "tg_sound (ask_return i ok why t1)"
  by (rule sound_update [OF assms(1-3), where a = "(tg_asks t ! i)\<lparr>ak_point := Returned (verdict_of ok why (ak_taps (tg_asks t ! i)))\<rparr>"])
    (use assms(4-6) in \<open>auto simp: map_of_del ask_sound_def\<close>)

lemma held_waiter:
  assumes "tg_sound t" and "i < length (tg_asks t)" and "held (tg_asks t ! i)"
  obtains wt where "map_of (tg_waiters t) (ak_nonce (tg_asks t ! i)) = Some wt" "wakes (ak_point (tg_asks t ! i)) wt"
    "ak_point (tg_asks t ! i) = Sending \<or> tg_polling t"
  using assms by (auto simp: tg_sound_def ask_sound_def all_set_conv_all_nth)

lemma begin_sound:
  assumes "tg_sound t"
  shows "tg_sound (ask_begin mt quote req n t)"
proof (cases "map_of (tg_waiters t) n")
  case None
  have out: "n \<notin> ak_nonce ` set (filter held (tg_asks t))"
    using assms None by (force simp: tg_sound_def ask_sound_def)
  have "ask_sound (tg_polling t) (map_of (put n w (tg_waiters t))) a"
    if "a \<in> set (tg_asks t)" for a w
    using assms that out by (auto simp: tg_sound_def ask_sound_def)
  then show ?thesis using assms None out
    by (auto simp: ask_begin_def tg_sound_def nonces_apart_def ask_sound_def held_def wakes_def)
qed (use assms in \<open>auto simp: ask_begin_def tg_sound_def nonces_apart_def ask_sound_def held_def\<close>)

lemma sent_sound:
  assumes t: "tg_sound t" and s: "ask_at i t = Some Sending"
  shows "tg_sound (ask_sent tc i ok now t)"
proof -
  have i: "i < length (tg_asks t)" "held (tg_asks t ! i)" "ak_point (tg_asks t ! i) = Sending"
    using ask_at_held [of i t] s by (auto simp: ask_at_def)
  obtain wt where wt: "map_of (tg_waiters t) (ak_nonce (tg_asks t ! i)) = Some wt" "wakes (ak_point (tg_asks t ! i)) wt"
    using held_waiter [OF t i(1,2)] .
  show ?thesis
  proof (cases ok)
    case True
    then show ?thesis using wt i
      by (auto simp: ask_sent_def intro!: sound_update [OF t i(1,2)] simp: ask_sound_def wakes_def)
  qed (use returned_sound [OF t i(1,2)] in \<open>simp add: ask_sent_def\<close>)
qed

lemma signalled_sound:
  assumes t: "tg_sound t" and s: "ask_at i t = Some (Waiting d)"
  shows "tg_sound (ask_signalled i d t)"
proof -
  have i: "i < length (tg_asks t)" "held (tg_asks t ! i)" "ak_point (tg_asks t ! i) = Waiting d"
    using ask_at_held [of i t d] s by (auto simp: ask_at_def split: if_splits)
  obtain wt where wt: "map_of (tg_waiters t) (ak_nonce (tg_asks t ! i)) = Some wt" "wakes (ak_point (tg_asks t ! i)) wt" "tg_polling t"
    using held_waiter [OF t i(1,2)] i(3) by auto
  then show ?thesis using t i(3)
    by (auto simp: ask_signalled_def Let_def ask_sound_def wakes_def intro!: sound_update [OF t i(1,2)])
qed

lemma takes_sound:
  assumes t: "tg_sound t" and s: "ask_at i t = Some (Woken d)"
  shows "tg_sound (ask_takes tc i d now t)"
proof -
  have i: "i < length (tg_asks t)" "held (tg_asks t ! i)" "ak_point (tg_asks t ! i) = Woken d"
    using ask_at_held [of i t d] s by (auto simp: ask_at_def split: if_splits)
  let ?n = "ak_nonce (tg_asks t ! i)"
  obtain wt where wt: "map_of (tg_waiters t) ?n = Some wt" "wakes (ak_point (tg_asks t ! i)) wt" "tg_polling t"
    using held_waiter [OF t i(1,2)] i(3) by auto
  obtain u us where u: "wt_updates wt = u # us" using wt(2) i(3) by (cases "wt_updates wt") (auto simp: wakes_def)
  let ?t1 = "t\<lparr>tg_waiters := put ?n \<lparr>wt_ready = wt_ready wt \<or> us \<noteq> [], wt_updates = us\<rparr> (tg_waiters t)\<rparr>"
  have ret: "tg_sound (ask_return i b why (?t1\<lparr>tg_answers := ans\<rparr>))" "tg_sound (ask_return i b why ?t1)" for b why ans
    by (rule returned_sound [OF t i(1,2)]; simp)+
  have again: "tg_sound (set_point i (Waiting d) ?t1)" "tg_sound (reject_tap i d c why ?t1)" for c why
    using wt(2,3) i(3) u by (auto simp: reject_tap_def ask_sound_def wakes_def intro!: sound_update [OF t i(1,2)])
  show ?thesis
    using ret again u wt(1)
    by (simp add: ask_takes_def Let_def judge_tap_def split: option.split)
qed

lemma deliver_sound:
  assumes t: "tg_sound t"
  shows "tg_sound (deliver u t)"
proof -
  have "tg_sound (t\<lparr>tg_waiters := put n \<lparr>wt_ready = True, wt_updates = wt_updates wt @ [u]\<rparr> (tg_waiters t)\<rparr>)"
    if "map_of (tg_waiters t) n = Some wt" for n wt
  proof -
    let ?wt = "\<lparr>wt_ready = True, wt_updates = wt_updates wt @ [u]\<rparr>"
    have "wakes pt wt \<Longrightarrow> wakes pt ?wt" for pt
      by (cases pt) (auto simp: wakes_def Suc_le_eq)
    then have "ask_sound p (map_of (tg_waiters t)) a \<Longrightarrow> ask_sound p (map_of (put n ?wt (tg_waiters t))) a" for p a
      using that by (auto simp: ask_sound_def)
    then show ?thesis using t by (simp add: tg_sound_def)
  qed
  then show ?thesis using t by (auto simp: deliver_def split: option.split prod.split)
qed

lemma polled_sound:
  assumes t: "tg_sound t"
  shows "tg_sound (poll_idle t)" "tg_sound (poll_got r t)" "tg_sound (poll_delivers t)"
proof -
  have "\<not> held a" if "tg_waiters t = []" "a \<in> set (tg_asks t)" for a
    using t that by (auto simp: tg_sound_def ask_sound_def)
  then show "tg_sound (poll_idle t)" using t by (auto simp: poll_idle_def tg_sound_def ask_sound_def)
  show "tg_sound (poll_got r t)" using t by (auto simp: poll_got_def tg_sound_def split: option.split)
  have "tg_sound (t\<lparr>tg_inbox := us\<rparr>)" for us using t by (simp add: tg_sound_def)
  then show "tg_sound (poll_delivers t)" using t by (auto simp: poll_delivers_def deliver_sound split: list.split)
qed

lemma step_sound:
  assumes t: "tg_sound t"
  shows "tg_sound (telegram_step tc mt quote e t)"
proof (cases e)
  case (AskTimer i now)
  then show ?thesis using t ask_at_held [of i t] returned_sound [OF t]
    by (auto simp: telegram_step_def split: option.split ask_point.split)
qed (use t begin_sound sent_sound signalled_sound takes_sound polled_sound in
    \<open>auto simp: telegram_step_def split: option.split ask_point.split\<close>)

lemma run_sound: "tg_sound (telegram_run tc mt quote es)"
proof (induction es rule: rev_induct)
  case Nil
  show ?case by (simp add: telegram_run_def new_telegram_def tg_sound_def nonces_apart_def)
qed (simp add: step_sound)

subsection \<open>Who approved\<close>

fun fetched :: "tg_step list \<Rightarrow> tg_update list" where
  "fetched [] = []"
| "fetched (PollGot (Some us) # es) = us @ fetched es"
| "fetched (_ # es) = fetched es"

lemma fetched_append [simp]: "fetched (es @ es') = fetched es @ fetched es'"
  by (induction es rule: fetched.induct) auto

definition allowed_tap :: "tg_config \<Rightarrow> bytes \<Rightarrow> tg_update \<Rightarrow> bool" where
  "allowed_tap tc n u \<longleftrightarrow>
     (\<exists>c. up_callback u = Some c \<and> cb_data c = ''approve:'' @ n \<and> cb_chat c = tg_chat tc \<and> cb_from c \<in> set (tg_approvers tc))"

text \<open>Call \<open>i\<close> was approved by a tap that was fetched, allowed, and taken before the deadline set when the prompt went out.\<close>

definition tapped :: "tg_config \<Rightarrow> tg_step list \<Rightarrow> nat \<Rightarrow> bytes \<Rightarrow> bool" where
  "tapped tc es i n \<longleftrightarrow>
     (\<exists>es1 now es2 sent u. es = es1 @ AskTakes i now # es2 \<and> u \<in> set (fetched es1) \<and> allowed_tap tc n u
        \<and> AskSent i True sent \<in> set es1 \<and> now < sent + tg_timeout tc)"

definition ask_backed :: "tg_config \<Rightarrow> tg_step list \<Rightarrow> nat \<Rightarrow> tg_ask \<Rightarrow> bool" where
  "ask_backed tc es i a \<longleftrightarrow>
     (case ak_point a of
        Waiting dl \<Rightarrow> \<exists>sent. AskSent i True sent \<in> set es \<and> dl = sent + tg_timeout tc
      | Woken dl \<Rightarrow> \<exists>sent. AskSent i True sent \<in> set es \<and> dl = sent + tg_timeout tc
      | Returned v \<Rightarrow> an_approved v \<longrightarrow> tapped tc es i (ak_nonce a)
      | _ \<Rightarrow> True)"

definition tg_backed :: "tg_config \<Rightarrow> tg_step list \<Rightarrow> telegram \<Rightarrow> bool" where
  "tg_backed tc es t \<longleftrightarrow>
     (\<forall>n wt. map_of (tg_waiters t) n = Some wt \<longrightarrow> set (wt_updates wt) \<subseteq> set (fetched es))
     \<and> set (tg_inbox t) \<subseteq> set (fetched es)
     \<and> (\<forall>i<length (tg_asks t). ask_backed tc es i (tg_asks t ! i))"

lemma ask_backed_later:
  assumes "ask_backed tc es i a"
  shows "ask_backed tc (es @ [e]) i a"
proof -
  have "tapped tc (es @ [e]) i n" if t: "tapped tc es i n" for n
  proof -
    obtain es1 now es2 sent u where "es = es1 @ AskTakes i now # es2" "u \<in> set (fetched es1)" "allowed_tap tc n u"
      "AskSent i True sent \<in> set es1" "now < sent + tg_timeout tc" using t unfolding tapped_def by blast
    then show ?thesis unfolding tapped_def
      by (intro exI [of _ es1] exI [of _ now] exI [of _ "es2 @ [e]"] exI [of _ sent] exI [of _ u]) simp
  qed
  then show ?thesis using assms by (auto simp: ask_backed_def split: ask_point.splits)
qed

lemma backed_later: "tg_backed tc es t \<Longrightarrow> tg_backed tc (es @ [e]) t"
  by (fastforce simp: tg_backed_def ask_backed_later)

lemma backed_update:
  assumes "tg_backed tc es t" and "i < length (tg_asks t)" and "tg_asks t' = (tg_asks t)[i := a]"
    and "ask_backed tc es i a" and "tg_inbox t' = tg_inbox t"
    and "\<And>n wt. map_of (tg_waiters t') n = Some wt \<Longrightarrow>
      \<exists>m wt'. map_of (tg_waiters t) m = Some wt' \<and> set (wt_updates wt) \<subseteq> set (wt_updates wt')"
  shows "tg_backed tc es t'"
proof -
  have "ask_backed tc es j (tg_asks t' ! j)" if "j < length (tg_asks t')" for j
    using that assms(1-4) by (cases "j = i") (simp_all add: tg_backed_def)
  moreover have "set (wt_updates wt) \<subseteq> set (fetched es)" if "map_of (tg_waiters t') n = Some wt" for n wt
    using assms(6) [OF that] assms(1) unfolding tg_backed_def by blast
  ultimately show ?thesis using assms(1,5) by (simp add: tg_backed_def)
qed

lemma backed_return:
  assumes "tg_backed tc es t" and "i < length (tg_asks t)" and "tg_asks t1 = tg_asks t" "tg_inbox t1 = tg_inbox t"
    and "\<And>n wt. map_of (tg_waiters t1) n = Some wt \<Longrightarrow>
      \<exists>m wt'. map_of (tg_waiters t) m = Some wt' \<and> set (wt_updates wt) \<subseteq> set (wt_updates wt')"
    and "ok \<Longrightarrow> tapped tc es i (ak_nonce (tg_asks t ! i))"
  shows "tg_backed tc es (ask_return i ok why t1)"
  by (rule backed_update [OF assms(1,2), where a = "(tg_asks t ! i)\<lparr>ak_point := Returned (verdict_of ok why (ak_taps (tg_asks t ! i)))\<rparr>"])
    (use assms(3-6) in \<open>auto simp: ask_backed_def verdict_of_def map_of_del split: if_splits\<close>)

lemma ask_backed_new:
  "ask_backed tc es i \<lparr>ak_nonce = n, ak_prompt = p, ak_point = Sending, ak_taps = ts\<rparr>"
  "ask_backed tc es i \<lparr>ak_nonce = n, ak_prompt = p, ak_point = Returned (verdict_of False why []), ak_taps = ts\<rparr>"
  by (simp_all add: ask_backed_def verdict_of_def)

lemma begin_backed: "tg_backed tc es t \<Longrightarrow> tg_backed tc es (ask_begin mt quote req n t)"
  by (auto simp: ask_begin_def tg_backed_def ask_backed_new nth_append less_Suc_eq split: if_splits)

lemma takes_backed:
  assumes b: "tg_backed tc es t" and at: "ask_at i t = Some (Woken d)"
  shows "tg_backed tc (es @ [AskTakes i now]) (ask_takes tc i d now t)"
proof -
  let ?es = "es @ [AskTakes i now]" and ?n = "ak_nonce (tg_asks t ! i)"
  have i: "i < length (tg_asks t)" "ak_point (tg_asks t ! i) = Woken d"
    using at by (auto simp: ask_at_def split: if_splits)
  obtain sent where sent: "AskSent i True sent \<in> set es" "d = sent + tg_timeout tc"
    using b i unfolding tg_backed_def ask_backed_def by fastforce
  note b' = backed_later [OF b, of "AskTakes i now"]
  have still: "ask_backed tc ?es i ((tg_asks t ! i)\<lparr>ak_point := Waiting d, ak_taps := ts\<rparr>)" for ts
    using sent by (auto simp: ask_backed_def)
  have panic: "tg_backed tc ?es (set_point i Panicked t)"
    by (rule backed_update [OF b' i(1), where a = "(tg_asks t ! i)\<lparr>ak_point := Panicked\<rparr>"]) (auto simp: ask_backed_def)
  show ?thesis
  proof (cases "map_of (tg_waiters t) ?n")
    case (Some wt)
    show ?thesis
    proof (cases "wt_updates wt")
      case (Cons u us)
      let ?t1 = "t\<lparr>tg_waiters := put ?n \<lparr>wt_ready = wt_ready wt \<or> us \<noteq> [], wt_updates = us\<rparr> (tg_waiters t)\<rparr>"
      have ws: "\<exists>m wt'. map_of (tg_waiters t) m = Some wt' \<and> set (wt_updates w) \<subseteq> set (wt_updates wt')"
        if "map_of (tg_waiters ?t1) m = Some w" for m w
        using that Some Cons by (cases "m = ?n") (auto intro!: exI [of _ ?n] exI [of _ m])
      have u: "u \<in> set (fetched es)"
        using b Some Cons by (fastforce simp: tg_backed_def)
      have yes: "tapped tc ?es i ?n" if "allowed_tap tc ?n u" "now < d"
        using that u sent unfolding tapped_def
        by (intro exI [of _ es] exI [of _ now] exI [of _ "[]"] exI [of _ sent] exI [of _ u]) simp
      have ret: "tg_backed tc ?es (ask_return i ok why (?t1\<lparr>tg_answers := ans\<rparr>))"
        if "ok \<Longrightarrow> allowed_tap tc ?n u \<and> now < d" for ok why ans
        by (rule backed_return [OF b' i(1)]) (use ws that yes in auto)
      have late: "tg_backed tc ?es (ask_return i False why ?t1)" for why
        by (rule backed_return [OF b' i(1)]) (use ws in auto)
      have wait: "tg_backed tc ?es (set_point i (Waiting d) ?t1)"
        by (rule backed_update [OF b' i(1), where a = "(tg_asks t ! i)\<lparr>ak_point := Waiting d\<rparr>"])
          (use ws still [of "ak_taps (tg_asks t ! i)"] in auto)
      have rejected: "tg_backed tc ?es (reject_tap i d c why ?t1)" for c why
        by (rule backed_update [OF b' i(1), where a = "(tg_asks t ! i)\<lparr>ak_point := Waiting d, ak_taps := ak_taps (tg_asks t ! i) @ [why]\<rparr>"])
          (use ws still in \<open>auto simp: reject_tap_def\<close>)
      show ?thesis using Some Cons ret late wait rejected
        by (simp add: ask_takes_def Let_def judge_tap_def allowed_tap_def split: option.split)
    qed (use Some panic in \<open>simp add: ask_takes_def\<close>)
  qed (use panic in \<open>simp add: ask_takes_def\<close>)
qed


lemma deliver_backed:
  assumes "tg_backed tc es t" and "u \<in> set (fetched es)"
  shows "tg_backed tc es (deliver u t)"
proof -
  have "tg_backed tc es (t\<lparr>tg_waiters := put n \<lparr>wt_ready = True, wt_updates = wt_updates wt @ [u]\<rparr> (tg_waiters t)\<rparr>)"
    if "map_of (tg_waiters t) n = Some wt" for n wt
    using assms that by (simp add: tg_backed_def)
  then show ?thesis using assms(1) by (simp add: deliver_def split: option.split)
qed

lemma waiting_backed:
  assumes b: "tg_backed tc es t" and i: "i < length (tg_asks t)" and s: "AskSent i True s \<in> set es"
  shows "tg_backed tc es (set_point i (Waiting (s + tg_timeout tc)) (t\<lparr>tg_polling := True\<rparr>))"
proof -
  have "ask_backed tc es i ((tg_asks t ! i)\<lparr>ak_point := Waiting (s + tg_timeout tc)\<rparr>)"
    using s by (auto simp: ask_backed_def)
  then show ?thesis by (rule backed_update [OF b i, rotated]) (simp_all, blast)
qed

lemma sent_backed:
  assumes b: "tg_backed tc es t" and at: "ask_at i t = Some Sending"
  shows "tg_backed tc (es @ [AskSent i ok now]) (ask_sent tc i ok now t)"
proof -
  have i: "i < length (tg_asks t)" using at by (simp add: ask_at_def split: if_splits)
  have "tg_backed tc (es @ [AskSent i False now]) (ask_return i False ''send-failed'' t)"
    by (rule backed_return [OF backed_later [OF b] i refl refl]) blast+
  then show ?thesis using waiting_backed [OF backed_later [OF b] i] by (cases ok) (simp_all add: ask_sent_def)
qed

lemma timer_backed:
  assumes b: "tg_backed tc es t" and at: "ask_at i t = Some (Waiting d)"
  shows "tg_backed tc es (ask_return i False why t)"
proof -
  have i: "i < length (tg_asks t)" using at by (simp add: ask_at_def split: if_splits)
  show ?thesis by (rule backed_return [OF b i refl refl]) blast+
qed

lemma signalled_backed:
  assumes b: "tg_backed tc es t" and at: "ask_at i t = Some (Waiting d)"
  shows "tg_backed tc es (ask_signalled i d t)"
proof (cases "map_of (tg_waiters t) (ak_nonce (tg_asks t ! i))")
  case (Some wt)
  have i: "i < length (tg_asks t)" "ak_point (tg_asks t ! i) = Waiting d"
    using at by (simp_all add: ask_at_def split: if_splits)
  have "ask_backed tc es i (tg_asks t ! i)" using b i by (simp add: tg_backed_def)
  then have w: "ask_backed tc es i ((tg_asks t ! i)\<lparr>ak_point := Woken d\<rparr>)" using i by (simp add: ask_backed_def)
  let ?t1 = "t\<lparr>tg_waiters := put (ak_nonce (tg_asks t ! i)) (wt\<lparr>wt_ready := False\<rparr>) (tg_waiters t)\<rparr>"
  have "\<exists>m wt'. map_of (tg_waiters t) m = Some wt' \<and> set (wt_updates v) \<subseteq> set (wt_updates wt')"
    if "map_of (tg_waiters (set_point i (Woken d) ?t1)) n = Some v" for n v
  proof (cases "n = ak_nonce (tg_asks t ! i)")
    case True
    then have "v = wt\<lparr>wt_ready := False\<rparr>" using that Some by simp
    then show ?thesis using Some by (intro exI [of _ "ak_nonce (tg_asks t ! i)"] exI [of _ wt]) simp
  next
    case False
    then have "map_of (tg_waiters t) n = Some v" using that by simp
    then show ?thesis by blast
  qed
  then have "tg_backed tc es (set_point i (Woken d) ?t1)"
    by (rule backed_update [OF b i(1) _ w, rotated 2]) simp_all
  then show ?thesis using Some b by (simp add: ask_signalled_def)
qed (use b in \<open>simp add: ask_signalled_def\<close>)

lemma polled_backed:
  assumes b: "tg_backed tc es t"
  shows "tg_backed tc es (poll_idle t)" "tg_backed tc (es @ [PollGot r]) (poll_got r t)" "tg_backed tc es (poll_delivers t)"
proof -
  show "tg_backed tc es (poll_idle t)" using b by (simp add: poll_idle_def tg_backed_def)
  note b' = backed_later [OF b, of "PollGot r"]
  show "tg_backed tc (es @ [PollGot r]) (poll_got r t)"
  proof (cases r)
    case (Some us)
    have "tg_backed tc (es @ [PollGot r]) (t\<lparr>tg_offset := n, tg_inbox := us\<rparr>)" for n
      using b' Some by (simp add: tg_backed_def)
    then show ?thesis using b' Some by (simp add: poll_got_def)
  qed (use b' in \<open>simp add: poll_got_def\<close>)
  show "tg_backed tc es (poll_delivers t)"
  proof (cases "tg_inbox t")
    case (Cons u us)
    have "tg_backed tc es (t\<lparr>tg_inbox := us\<rparr>)" "u \<in> set (fetched es)"
      using b Cons by (auto simp: tg_backed_def)
    then show ?thesis using deliver_backed Cons by (simp add: poll_delivers_def)
  qed (use b in \<open>simp add: poll_delivers_def\<close>)
qed

lemma step_backed:
  assumes b: "tg_backed tc es t"
  shows "tg_backed tc (es @ [e]) (telegram_step tc mt quote e t)"
proof -
  note same = backed_later [OF b, of e]
  show ?thesis
  proof (cases e)
    case (AskSignalled i)
    then show ?thesis using same backed_later [OF signalled_backed [OF b]]
      by (simp add: telegram_step_def split: option.split ask_point.split)
  next
    case (AskTakes i now)
    then show ?thesis using same takes_backed [OF b]
      by (simp add: telegram_step_def split: option.split ask_point.split)
  next
    case (AskTimer i now)
    then show ?thesis using same backed_later [OF timer_backed [OF b]]
      by (simp add: telegram_step_def split: option.split ask_point.split)
  qed (use same begin_backed sent_backed [OF b] polled_backed [OF b] backed_later b in \<open>simp_all add: telegram_step_def\<close>)
qed

lemma run_backed: "tg_backed tc es (telegram_run tc mt quote es)"
proof (induction es rule: rev_induct)
  case Nil
  show ?case by (simp add: telegram_run_def new_telegram_def tg_backed_def)
qed (simp add: step_backed)

subsection \<open>Properties\<close>

lemma served_at:
  "case ask_at i (telegram_run tc mt quote es) of
     Some Panicked \<Rightarrow> False
   | Some (Waiting d) \<Rightarrow>
       tg_polling (telegram_run tc mt quote es)
       \<and> (\<exists>wt. map_of (tg_waiters (telegram_run tc mt quote es)) (ak_nonce (tg_asks (telegram_run tc mt quote es) ! i)) = Some wt
            \<and> (wt_ready wt \<longleftrightarrow> wt_updates wt \<noteq> []))
   | _ \<Rightarrow> True"
proof -
  let ?t = "telegram_run tc mt quote es"
  have "ask_sound (tg_polling ?t) (map_of (tg_waiters ?t)) (tg_asks ?t ! i)" if "i < length (tg_asks ?t)"
    using run_sound [of tc mt quote es] that by (simp add: tg_sound_def)
  then show ?thesis
    by (auto simp: ask_at_def ask_sound_def held_def wakes_def split: option.split ask_point.split if_splits)
qed

text \<open>
  Fail safe: however several held calls, the poller and the network interleave, an \<open>Ask\<close> returns
  approval only after its prompt went out and it took, before its deadline, a fetched callback that names its
  nonce and comes from a listed approver in the configured chat.
\<close>

theorem approval_needs_allowed_tap:
  assumes "ask_at i (telegram_run tc mt quote es) = Some (Returned v)" and "an_approved v"
  shows "tapped tc es i (ak_nonce (tg_asks (telegram_run tc mt quote es) ! i))"
proof -
  have "ask_backed tc es i (tg_asks (telegram_run tc mt quote es) ! i)"
    using run_backed [of tc es mt quote] assms(1) by (auto simp: tg_backed_def ask_at_def split: if_splits)
  then show ?thesis using assms by (auto simp: ask_backed_def ask_at_def split: if_splits)
qed

text \<open>
  C21. No held call is stranded: in every reachable state no goroutine has indexed an empty queue, and for a call
  that waits the poller runs, its waiter is registered, and \<open>ready\<close> is signalled exactly when an update
  is queued for it.
\<close>

theorem held_calls_are_served:
  "case ask_at i (telegram_run tc mt quote es) of
     Some Panicked \<Rightarrow> False
   | Some (Waiting d) \<Rightarrow>
       tg_polling (telegram_run tc mt quote es)
       \<and> (\<exists>wt. map_of (tg_waiters (telegram_run tc mt quote es)) (ak_nonce (tg_asks (telegram_run tc mt quote es) ! i)) = Some wt
            \<and> (wt_ready wt \<longleftrightarrow> wt_updates wt \<noteq> []))
   | _ \<Rightarrow> True"
  by (rule served_at)

lemma cut_action: "CHR '':'' \<notin> set p \<Longrightarrow> cut CHR '':'' (p @ CHR '':'' # n) = Some (p, n)"
  by (induction p) auto

subsection \<open>A tap is never lost\<close>

text \<open>
  A tap on its way to call \<open>i\<close>: the poller has fetched it and not handed it on yet, or it is in the queue
  of the call's waiter. A denial that counts is an allowed tap on the other button.
\<close>

definition on_its_way :: "nat \<Rightarrow> tg_update \<Rightarrow> telegram \<Rightarrow> bool" where
  "on_its_way i u t \<longleftrightarrow>
     u \<in> set (tg_inbox t)
     \<or> (\<exists>wt. map_of (tg_waiters t) (ak_nonce (tg_asks t ! i)) = Some wt \<and> u \<in> set (wt_updates wt))"

definition allowed_denial :: "tg_config \<Rightarrow> bytes \<Rightarrow> tg_update \<Rightarrow> bool" where
  "allowed_denial tc n u \<longleftrightarrow>
     (\<exists>c. up_callback u = Some c \<and> cb_data c = ''deny:'' @ n \<and> cb_chat c = tg_chat tc \<and> cb_from c \<in> set (tg_approvers tc))"

text \<open>A step that does not run call \<open>i\<close> at or after its deadline.\<close>

fun in_time :: "nat \<Rightarrow> int \<Rightarrow> tg_step \<Rightarrow> bool" where
  "in_time i d (AskTakes j now) \<longleftrightarrow> (j = i \<longrightarrow> now < d)"
| "in_time i d (AskTimer j now) \<longleftrightarrow> (j = i \<longrightarrow> now < d)"
| "in_time i d _ \<longleftrightarrow> True"

definition tap_kept :: "nat \<Rightarrow> bytes \<Rightarrow> int \<Rightarrow> tg_update \<Rightarrow> telegram \<Rightarrow> bool" where
  "tap_kept i n d u t \<longleftrightarrow>
     i < length (tg_asks t) \<and> ak_nonce (tg_asks t ! i) = n
     \<and> ((ak_point (tg_asks t ! i) = Waiting d \<or> ak_point (tg_asks t ! i) = Woken d) \<and> on_its_way i u t
        \<or> (\<exists>v. ak_point (tg_asks t ! i) = Returned v \<and> an_approved v))"

lemma kept_frame:
  assumes "tap_kept i n d u t" and "length (tg_asks t) \<le> length (tg_asks t')" and "tg_asks t' ! i = tg_asks t ! i"
    and "held (tg_asks t ! i) \<Longrightarrow> on_its_way i u t \<Longrightarrow> on_its_way i u t'"
  shows "tap_kept i n d u t'"
  using assms by (auto simp: tap_kept_def held_def)

definition only_ask :: "nat \<Rightarrow> telegram \<Rightarrow> telegram \<Rightarrow> bool" where
  "only_ask j t t' \<longleftrightarrow>
     (\<exists>a. tg_asks t' = (tg_asks t)[j := a]) \<and> tg_inbox t' = tg_inbox t
     \<and> (\<forall>m. m \<noteq> ak_nonce (tg_asks t ! j) \<longrightarrow> map_of (tg_waiters t') m = map_of (tg_waiters t) m)"

lemma only_ask_same: "only_ask j t t" "only_ask j t (t\<lparr>tg_answers := ans\<rparr>)" "only_ask j t (t\<lparr>tg_polling := p\<rparr>)"
  by (auto simp: only_ask_def intro: exI [of _ "tg_asks t ! j"])

lemma only_ask_steps:
  "only_ask j t t' \<Longrightarrow> only_ask j t (t'\<lparr>tg_answers := ans\<rparr>)"
  "only_ask j t t' \<Longrightarrow> only_ask j t (set_point j p t')"
  "only_ask j t t' \<Longrightarrow> only_ask j t (reject_tap j dl c why t')"
  "only_ask j t t' \<Longrightarrow> j < length (tg_asks t) \<Longrightarrow> ak_nonce (tg_asks t' ! j) = ak_nonce (tg_asks t ! j) \<Longrightarrow> only_ask j t (ask_return j ok why t')"
  by (auto simp: only_ask_def reject_tap_def map_of_del)

lemma only_ask_put: "only_ask j t (t\<lparr>tg_waiters := put (ak_nonce (tg_asks t ! j)) w (tg_waiters t)\<rparr>)"
  by (auto simp: only_ask_def intro: exI [of _ "tg_asks t ! j"])

lemma only_ask_judge:
  assumes "only_ask j t t'" and "j < length (tg_asks t)" and "ak_nonce (tg_asks t' ! j) = ak_nonce (tg_asks t ! j)"
  shows "only_ask j t (judge_tap tc j dl c t')"
  unfolding judge_tap_def Let_def using assms by (simp add: only_ask_steps)

lemma only_ask_takes:
  assumes "j < length (tg_asks t)"
  shows "only_ask j t (ask_takes tc j dl now t)"
  unfolding ask_takes_def Let_def using assms
  by (auto simp: only_ask_judge only_ask_put only_ask_same intro!: only_ask_steps split: option.split list.split)

lemma only_ask_others:
  assumes "j < length (tg_asks t)"
  shows "only_ask j t (ask_signalled j dl t)" "only_ask j t (ask_sent tc j ok now t)" "only_ask j t (ask_return j ok why t)"
  using assms by (auto simp: ask_signalled_def ask_sent_def Let_def only_ask_put only_ask_same intro!: only_ask_steps split: option.split)

lemma kept_other:
  assumes k: "tap_kept i n d u t" and s: "tg_sound t" and j: "j < length (tg_asks t)" "held (tg_asks t ! j)" "j \<noteq> i"
    and o: "only_ask j t t'"
  shows "tap_kept i n d u t'"
proof -
  obtain a where a: "tg_asks t' = (tg_asks t)[j := a]" using o by (auto simp: only_ask_def)
  show ?thesis
  proof (rule kept_frame [OF k])
    assume h: "held (tg_asks t ! i)" and w: "on_its_way i u t"
    have i: "i < length (tg_asks t)" using k by (simp add: tap_kept_def)
    have "nonces_apart (tg_asks t)" using s by (simp add: tg_sound_def)
    from nonces_apart_nth [OF this i j(1) h j(2)] j(3) have "ak_nonce (tg_asks t ! i) \<noteq> ak_nonce (tg_asks t ! j)" by auto
    then show "on_its_way i u t'" using w o a j(3) by (simp add: on_its_way_def only_ask_def)
  qed (use a j(3) in simp_all)
qed

lemma kept_held:
  assumes "tap_kept i n d u t" and "ask_at i t = Some (Waiting d') \<or> ask_at i t = Some (Woken d')"
  shows "d' = d" "on_its_way i u t" "i < length (tg_asks t)" "ak_nonce (tg_asks t ! i) = n"
  using assms by (auto simp: tap_kept_def ask_at_def split: if_splits)

lemma kept_sound_waiter:
  assumes "tap_kept i n d u t" and "tg_sound t" and "held (tg_asks t ! i)"
  obtains wt where "map_of (tg_waiters t) n = Some wt" "wakes (ak_point (tg_asks t ! i)) wt"
  using assms held_waiter [OF assms(2) _ assms(3)] by (auto simp: tap_kept_def)

lemma kept_deliver:
  assumes k: "tap_kept i n d u (t\<lparr>tg_inbox := v # us\<rparr>)" and s: "tg_sound t" and a: "allowed_tap tc n u"
  shows "tap_kept i n d u (deliver v (t\<lparr>tg_inbox := us\<rparr>))"
proof (rule kept_frame [OF k])
  show "tg_asks (deliver v (t\<lparr>tg_inbox := us\<rparr>)) ! i = tg_asks (t\<lparr>tg_inbox := v # us\<rparr>) ! i"
    "length (tg_asks (t\<lparr>tg_inbox := v # us\<rparr>)) \<le> length (tg_asks (deliver v (t\<lparr>tg_inbox := us\<rparr>)))"
    by (simp_all add: deliver_def split: option.split prod.split)
  assume h: "held (tg_asks (t\<lparr>tg_inbox := v # us\<rparr>) ! i)" and w: "on_its_way i u (t\<lparr>tg_inbox := v # us\<rparr>)"
  have n: "ak_nonce (tg_asks t ! i) = n" "i < length (tg_asks t)" using k by (simp_all add: tap_kept_def)
  obtain wt where wt: "map_of (tg_waiters t) n = Some wt" using held_waiter [OF s n(2)] h n(1) by auto
  show "on_its_way i u (deliver v (t\<lparr>tg_inbox := us\<rparr>))"
  proof (cases "v = u")
    case True
    obtain c where c: "up_callback u = Some c" "cb_data c = ''approve:'' @ n" using a by (auto simp: allowed_tap_def)
    have "cut CHR '':'' (cb_data c) = Some (''approve'', n)" by (simp add: c(2))
    then show ?thesis using True c wt n by (simp add: deliver_def on_its_way_def)
  next
    case False
    then show ?thesis using w n wt by (auto simp: deliver_def on_its_way_def split: option.split prod.split)
  qed
qed

lemma kept_takes:
  assumes k: "tap_kept i n d u t" and s: "tg_sound t" and b: "tg_backed tc es t" and a: "allowed_tap tc n u"
    and at: "ask_at i t = Some (Woken d')" and now: "now < d"
    and no: "\<forall>x\<in>set (fetched es). \<not> allowed_denial tc n x"
  shows "tap_kept i n d u (ask_takes tc i d' now t)"
proof -
  have d: "d' = d" "on_its_way i u t" and i: "i < length (tg_asks t)" and n: "ak_nonce (tg_asks t ! i) = n" using kept_held [OF k] at by auto
  have pt: "ak_point (tg_asks t ! i) = Woken d'" using at by (simp add: ask_at_def split: if_splits)
  obtain wt where wt: "map_of (tg_waiters t) n = Some wt" "wakes (Woken d') wt"
    using kept_sound_waiter [OF k s] pt by (auto simp: held_def)
  obtain x us where x: "wt_updates wt = x # us" using wt(2) by (cases "wt_updates wt") (auto simp: wakes_def)
  have "x \<in> set (fetched es)" using b wt(1) x by (fastforce simp: tg_backed_def)
  then have nd: "\<not> allowed_denial tc n x" using no by blast
  let ?t1 = "t\<lparr>tg_waiters := put n \<lparr>wt_ready = wt_ready wt \<or> us \<noteq> [], wt_updates = us\<rparr> (tg_waiters t)\<rparr>"
  have w: "x \<noteq> u \<Longrightarrow> u \<in> set (tg_inbox t) \<or> u \<in> set us" using d(2) wt(1) x n by (auto simp: on_its_way_def)
  have again: "x \<noteq> u \<Longrightarrow> tap_kept i n d u (set_point i (Waiting d) ?t1)"
      "x \<noteq> u \<Longrightarrow> tap_kept i n d u (reject_tap i d c why ?t1)" for c why
    using w i n by (auto simp: tap_kept_def on_its_way_def reject_tap_def)
  have yes: "tap_kept i n d u (ask_return i True why (?t1\<lparr>tg_answers := ans\<rparr>))" for why ans
    using i n by (simp add: tap_kept_def verdict_of_def)
  have u: "x = u \<Longrightarrow> \<exists>c. up_callback x = Some c \<and> cb_data c = ''approve:'' @ n \<and> cb_chat c = tg_chat tc \<and> cb_from c \<in> set (tg_approvers tc)"
    using a by (simp add: allowed_tap_def)
  show ?thesis
  proof (cases "up_callback x")
    case None
    then have "x \<noteq> u" using u by auto
    then show ?thesis using None again(1) wt(1) x n now d(1) by (simp add: ask_takes_def Let_def)
  next
    case (Some c)
    then have e: "ask_takes tc i d' now t = judge_tap tc i d c ?t1" using wt(1) x n now d(1) by (simp add: ask_takes_def Let_def)
    show ?thesis
    proof (cases "x = u")
      case True
      then have "judge_tap tc i d c ?t1 = ask_return i True ''approved by human'' (?t1\<lparr>tg_answers := tg_answers ?t1 @ [(cb_id c, ''Approved'')]\<rparr>)"
        using u [OF True] Some n by (simp add: judge_tap_def Let_def)
      then show ?thesis unfolding e by (simp only: yes)
    next
      case False
      define t1 where "t1 = ?t1"
      have n1: "ak_nonce (tg_asks t1 ! i) = n" using n by (simp add: t1_def)
      note kept = again(1) [OF False, folded t1_def] again(2) [OF False, folded t1_def] yes [folded t1_def]
      show ?thesis unfolding e t1_def [symmetric] judge_tap_def Let_def n1
        using nd Some kept by (simp only: allowed_denial_def option.inject split: if_split) blast
    qed
  qed
qed

lemma kept_signalled:
  assumes k: "tap_kept i n d u t" and at: "ask_at i t = Some (Waiting dl)"
  shows "tap_kept i n d u (ask_signalled i dl t)"
proof (cases "map_of (tg_waiters t) n")
  case (Some wt)
  have h: "dl = d" "on_its_way i u t" "i < length (tg_asks t)" "ak_nonce (tg_asks t ! i) = n" using kept_held [OF k] at by auto
  let ?t = "set_point i (Woken d) (t\<lparr>tg_waiters := put n (wt\<lparr>wt_ready := False\<rparr>) (tg_waiters t)\<rparr>)"
  have "on_its_way i u ?t" using h Some by (auto simp: on_its_way_def)
  then have "tap_kept i n d u ?t" using h by (simp add: tap_kept_def)
  then show ?thesis using h Some k by (simp add: ask_signalled_def Let_def)
qed (use k kept_held(4) [OF k] at in \<open>simp add: ask_signalled_def Let_def\<close>)

lemma kept_begin:
  assumes k: "tap_kept i n d u t" and s: "tg_sound t"
  shows "tap_kept i n d u (ask_begin mt quote req m t)"
proof (rule kept_frame [OF k])
  have i: "i < length (tg_asks t)" "ak_nonce (tg_asks t ! i) = n" using k by (simp_all add: tap_kept_def)
  show "length (tg_asks t) \<le> length (tg_asks (ask_begin mt quote req m t))" by (simp add: ask_begin_def)
  show a: "tg_asks (ask_begin mt quote req m t) ! i = tg_asks t ! i" using i by (simp add: ask_begin_def nth_append)
  assume h: "held (tg_asks t ! i)" and w: "on_its_way i u t"
  obtain wt where wt: "map_of (tg_waiters t) n = Some wt" using kept_sound_waiter [OF k s h] .
  have "map_of (tg_waiters (ask_begin mt quote req m t)) n = Some wt" using wt by (auto simp: ask_begin_def)
  moreover have "tg_inbox (ask_begin mt quote req m t) = tg_inbox t" by (simp add: ask_begin_def)
  ultimately show "on_its_way i u (ask_begin mt quote req m t)" using w wt i unfolding on_its_way_def a by simp
qed

lemma step_same:
  "ask_at j t \<noteq> Some Sending \<Longrightarrow> telegram_step tc mt quote (AskSent j ok now) t = t"
  "\<nexists>dl. ask_at j t = Some (Waiting dl) \<Longrightarrow> telegram_step tc mt quote (AskSignalled j) t = t"
  "\<nexists>dl. ask_at j t = Some (Woken dl) \<Longrightarrow> telegram_step tc mt quote (AskTakes j now) t = t"
  "\<nexists>dl. ask_at j t = Some (Waiting dl) \<and> dl \<le> now \<Longrightarrow> telegram_step tc mt quote (AskTimer j now) t = t"
  by (simp_all add: telegram_step_def split: option.split ask_point.split)

lemma kept_step:
  assumes k: "tap_kept i n d u t" and s: "tg_sound t" and b: "tg_backed tc es t" and a: "allowed_tap tc n u"
    and e: "in_time i d e" and no: "\<forall>x\<in>set (fetched es). \<not> allowed_denial tc n x"
  shows "tap_kept i n d u (telegram_step tc mt quote e t)"
proof (cases e)
  case (AskBegins req m)
  then show ?thesis using kept_begin [OF k s] by (simp add: telegram_step_def)
next
  case (AskSent j ok now)
  show ?thesis
  proof (cases "ask_at j t = Some Sending")
    case True
    then have j: "j < length (tg_asks t)" and pt: "ak_point (tg_asks t ! j) = Sending" by (simp_all add: ask_at_def split: if_splits)
    have h: "held (tg_asks t ! j)" using pt by (simp add: held_def)
    have ji: "j \<noteq> i" using k pt by (auto simp: tap_kept_def)
    show ?thesis
      using kept_other [OF k s j h ji only_ask_others(2) [OF j]] True by (simp add: AskSent telegram_step_def)
  qed (use k step_same in \<open>simp add: AskSent\<close>)
next
  case (AskSignalled j)
  show ?thesis
  proof (cases "\<exists>dl. ask_at j t = Some (Waiting dl)")
    case True
    then obtain dl where dl: "ask_at j t = Some (Waiting dl)" by blast
    have j: "j < length (tg_asks t)" "held (tg_asks t ! j)" using ask_at_held [of j t dl] dl by auto
    have st: "telegram_step tc mt quote e t = ask_signalled j dl t" by (simp add: AskSignalled telegram_step_def dl)
    show ?thesis
    proof (cases "j = i")
      case False
      show ?thesis unfolding st by (rule kept_other [OF k s j False only_ask_others(1) [OF j(1)]])
    next
      case True
      then show ?thesis unfolding st using kept_signalled [OF k] dl by simp
    qed
  qed (use k step_same in \<open>simp add: AskSignalled\<close>)
next
  case (AskTakes j now)
  show ?thesis
  proof (cases "\<exists>dl. ask_at j t = Some (Woken dl)")
    case True
    then obtain dl where dl: "ask_at j t = Some (Woken dl)" by blast
    have j: "j < length (tg_asks t)" "held (tg_asks t ! j)" using ask_at_held [of j t dl] dl by auto
    have st: "telegram_step tc mt quote e t = ask_takes tc j dl now t" by (simp add: AskTakes telegram_step_def dl)
    show ?thesis
    proof (cases "j = i")
      case False
      show ?thesis unfolding st by (rule kept_other [OF k s j False only_ask_takes [OF j(1)]])
    next
      case True
      then show ?thesis unfolding st using kept_takes [OF k s b a _ _ no, of dl now] dl e AskTakes by simp
    qed
  qed (use k step_same in \<open>simp add: AskTakes\<close>)
next
  case (AskTimer j now)
  show ?thesis
  proof (cases "\<exists>dl. ask_at j t = Some (Waiting dl) \<and> dl \<le> now")
    case True
    then obtain dl where dl: "ask_at j t = Some (Waiting dl)" "dl \<le> now" by blast
    have j: "j < length (tg_asks t)" "held (tg_asks t ! j)" using ask_at_held [of j t dl] dl by auto
    have ji: "j \<noteq> i" using kept_held(1) [OF k, of dl] dl e AskTimer by auto
    show ?thesis
      using kept_other [OF k s j ji only_ask_others(3) [OF j(1)]] dl by (simp add: AskTimer telegram_step_def)
  qed (use k step_same in \<open>simp add: AskTimer\<close>)
next
  case PollIdle
  show ?thesis
    by (rule kept_frame [OF k]) (auto simp: PollIdle telegram_step_def poll_idle_def on_its_way_def)
next
  case (PollGot r)
  show ?thesis
    by (rule kept_frame [OF k]) (auto simp: PollGot telegram_step_def poll_got_def on_its_way_def split: option.split)
next
  case PollDelivers
  show ?thesis
  proof (cases "tg_inbox t")
    case (Cons v us)
    have "tap_kept i n d u (t\<lparr>tg_inbox := v # us\<rparr>)" using k Cons by (cases t) simp
    from kept_deliver [OF this s a] show ?thesis by (simp add: PollDelivers telegram_step_def poll_delivers_def Cons)
  qed (use k in \<open>simp add: PollDelivers telegram_step_def poll_delivers_def\<close>)
qed

lemma kept_run:
  assumes "tap_kept i n d u (telegram_run tc mt quote es)" and "allowed_tap tc n u" and "list_all (in_time i d) es'"
    and "\<forall>x\<in>set (fetched (es @ es')). \<not> allowed_denial tc n x"
  shows "tap_kept i n d u (telegram_run tc mt quote (es @ es'))"
  using assms(3,4)
proof (induction es' rule: rev_induct)
  case (snoc e es')
  then have "tap_kept i n d u (telegram_run tc mt quote (es @ es'))" "\<forall>x\<in>set (fetched (es @ es')). \<not> allowed_denial tc n x" "in_time i d e"
    by auto
  from kept_step [OF this(1) run_sound run_backed assms(2) this(3,2)] show ?case
    by (simp only: append_assoc [symmetric] telegram_run_snoc)
qed (use assms(1) in simp)
text \<open>The poller hands on what it has, then the call takes update after update.\<close>

definition drained :: "nat \<Rightarrow> int \<Rightarrow> nat \<Rightarrow> nat \<Rightarrow> tg_step list" where
  "drained i now m k = replicate m PollDelivers @ concat (replicate k [AskSignalled i, AskTakes i now])"

definition queue_within :: "nat \<Rightarrow> bytes \<Rightarrow> int \<Rightarrow> nat \<Rightarrow> telegram \<Rightarrow> bool" where
  "queue_within i n d q t \<longleftrightarrow>
     (ak_point (tg_asks t ! i) = Waiting d \<or> ak_point (tg_asks t ! i) = Woken d)
     \<and> (\<exists>wt. map_of (tg_waiters t) n = Some wt \<and> length (wt_updates wt) \<le> q)"

definition finished :: "nat \<Rightarrow> bytes \<Rightarrow> telegram \<Rightarrow> bool" where
  "finished i n t \<longleftrightarrow> (\<exists>v. ak_point (tg_asks t ! i) = Returned v) \<and> map_of (tg_waiters t) n = None"

lemma delivers_within:
  assumes "queue_within i n d q t"
  shows "queue_within i n d (Suc q) (poll_delivers t) \<and> tg_inbox (poll_delivers t) = tl (tg_inbox t)"
proof -
  have d: "map_of (tg_waiters (deliver u x)) n = Some wt \<Longrightarrow> map_of (tg_waiters x) n = Some w \<Longrightarrow>
      length (wt_updates wt) \<le> Suc (length (wt_updates w))"
    "map_of (tg_waiters x) n = Some w \<Longrightarrow> map_of (tg_waiters (deliver u x)) n \<noteq> None"
    "tg_asks (deliver u x) = tg_asks x" "tg_inbox (deliver u x) = tg_inbox x" for u x w wt
    by (auto simp: deliver_def split: option.splits prod.splits if_splits)
  show ?thesis
  proof (cases "tg_inbox t")
    case (Cons u us)
    obtain w where w: "map_of (tg_waiters (t\<lparr>tg_inbox := us\<rparr>)) n = Some w" "length (wt_updates w) \<le> q"
      using assms by (auto simp: queue_within_def)
    obtain wt where "map_of (tg_waiters (deliver u (t\<lparr>tg_inbox := us\<rparr>))) n = Some wt" using d(2) [OF w(1)] by blast
    then show ?thesis using assms w(2) d(1) [OF _ w(1)] by (fastforce simp: poll_delivers_def Cons queue_within_def d(3,4))
  qed (use assms in \<open>auto simp: poll_delivers_def queue_within_def\<close>)
qed

lemma judge_within:
  assumes "ak_nonce (tg_asks t ! i) = n" and "i < length (tg_asks t)" and "map_of (tg_waiters t) n = Some w" and "length (wt_updates w) \<le> q"
  shows "(finished i n (judge_tap tc i d c t) \<or> queue_within i n d q (judge_tap tc i d c t)) \<and> tg_inbox (judge_tap tc i d c t) = tg_inbox t"
  using assms by (simp add: judge_tap_def Let_def finished_def queue_within_def reject_tap_def map_of_del)

lemma takes_within:
  assumes w: "queue_within i n d (Suc q) t" and n: "ak_nonce (tg_asks t ! i) = n" and i: "i < length (tg_asks t)" and s: "tg_sound t"
    and p: "ak_point (tg_asks t ! i) = Woken d"
  shows "(finished i n (ask_takes tc i d now t) \<or> queue_within i n d q (ask_takes tc i d now t)) \<and> tg_inbox (ask_takes tc i d now t) = tg_inbox t"
proof -
  have h: "held (tg_asks t ! i)" using p by (simp add: held_def)
  obtain wt where wt: "map_of (tg_waiters t) n = Some wt" "wakes (Woken d) wt" using held_waiter [OF s i h] unfolding n p .
  have "length (wt_updates wt) \<le> Suc q" using w wt(1) by (auto simp: queue_within_def)
  note wt = wt this
  obtain x us where x: "wt_updates wt = x # us" using wt(2) by (cases "wt_updates wt") (auto simp: wakes_def)
  let ?w = "\<lparr>wt_ready = wt_ready wt \<or> us \<noteq> [], wt_updates = us\<rparr>"
  define t1 where "t1 = t\<lparr>tg_waiters := put n ?w (tg_waiters t)\<rparr>"
  have t1: "ak_nonce (tg_asks t1 ! i) = n" "i < length (tg_asks t1)" "map_of (tg_waiters t1) n = Some ?w" "length (wt_updates ?w) \<le> q"
    "tg_inbox t1 = tg_inbox t" using n i wt(3) x by (simp_all add: t1_def)
  have e: "ask_takes tc i d now t = (if \<not> now < d then ask_return i False ''timeout'' t1 else (case up_callback x of None \<Rightarrow> set_point i (Waiting d) t1 | Some c \<Rightarrow> judge_tap tc i d c t1))"
    unfolding ask_takes_def Let_def n t1_def using wt(1) x by simp
  show ?thesis unfolding e using t1 judge_within [OF t1(1-4), of tc d]
    by (auto simp: finished_def queue_within_def map_of_del split: option.split)
qed

lemma round_within:
  assumes k: "tap_kept i n d u t" and s: "tg_sound t" and inbox: "tg_inbox t = []"
    and w: "finished i n t \<or> queue_within i n d (Suc q) t"
    and t2_def: "t2 = telegram_step tc mt quote (AskTakes i now) (telegram_step tc mt quote (AskSignalled i) t)"
  shows "(finished i n t2 \<or> queue_within i n d q t2) \<and> tg_inbox t2 = []"
proof -
  have i: "i < length (tg_asks t)" "ak_nonce (tg_asks t ! i) = n" using k by (simp_all add: tap_kept_def)
  show ?thesis
  proof (cases "finished i n t")
    case True
    then obtain v where "ask_at i t = Some (Returned v)" using i by (auto simp: finished_def ask_at_def)
    then have "t2 = t" by (simp add: t2_def telegram_step_def)
    then show ?thesis using True inbox by simp
  next
    case False
    then have w: "queue_within i n d (Suc q) t" using w by blast
    define t1 where "t1 = telegram_step tc mt quote (AskSignalled i) t"
    have t1: "ask_at i t1 = Some (Woken d)" "queue_within i n d (Suc q) t1" "ak_nonce (tg_asks t1 ! i) = n" "i < length (tg_asks t1)" "tg_inbox t1 = []"
    proof -
      have pt: "ak_point (tg_asks t ! i) = Waiting d \<or> ak_point (tg_asks t ! i) = Woken d" using w by (simp add: queue_within_def)
      have "ask_at i t1 = Some (Woken d) \<and> queue_within i n d (Suc q) t1 \<and> ak_nonce (tg_asks t1 ! i) = n \<and> i < length (tg_asks t1) \<and> tg_inbox t1 = []"
      proof (cases "ak_point (tg_asks t ! i) = Woken d")
        case True
        then have "t1 = t" "ask_at i t = Some (Woken d)" using i by (simp_all add: t1_def telegram_step_def ask_at_def)
        then show ?thesis using w i inbox by simp
      next
        case False
        then have p: "ak_point (tg_asks t ! i) = Waiting d" using pt by blast
        have h: "held (tg_asks t ! i)" using p by (simp add: held_def)
        obtain wt where wt: "map_of (tg_waiters t) n = Some wt" "wakes (Waiting d) wt" using kept_sound_waiter [OF k s h] unfolding p .
        have "on_its_way i u t" using k p by (simp add: tap_kept_def)
        then have "wt_updates wt \<noteq> []" using wt(1) i(2) inbox by (auto simp: on_its_way_def)
        then have r: "wt_ready wt" using wt(2) by (simp add: wakes_def)
        have "t1 = set_point i (Woken d) (t\<lparr>tg_waiters := put n (wt\<lparr>wt_ready := False\<rparr>) (tg_waiters t)\<rparr>)"
          using p i wt(1) r by (simp add: t1_def telegram_step_def ask_at_def ask_signalled_def Let_def)
        then show ?thesis using i inbox w wt(1) by (simp add: ask_at_def queue_within_def)
      qed
      then show "ask_at i t1 = Some (Woken d)" "queue_within i n d (Suc q) t1" "ak_nonce (tg_asks t1 ! i) = n" "i < length (tg_asks t1)" "tg_inbox t1 = []"
        by simp_all
    qed
    have "tg_sound t1" unfolding t1_def by (rule step_sound [OF s])
    moreover have "t2 = ask_takes tc i d now t1" using t1(1) by (simp add: t2_def t1_def telegram_step_def)
    moreover have "ak_point (tg_asks t1 ! i) = Woken d" using t1(1) by (simp add: ask_at_def split: if_splits)
    ultimately show ?thesis using takes_within [OF t1(2,3,4)] t1(5) by simp
  qed
qed

lemma drained_in_time: "now < d \<Longrightarrow> list_all (in_time i d) (drained i now m k)" "set (fetched (drained i now m k)) = {}"
proof -
  have f: "fetched (concat (replicate k [AskSignalled i, AskTakes i now])) = []" by (induction k) simp_all
  have g: "fetched (replicate m PollDelivers) = []" by (induction m) simp_all
  show "set (fetched (drained i now m k)) = {}" by (simp add: drained_def f g)
  show "now < d \<Longrightarrow> list_all (in_time i d) (drained i now m k)" by (auto simp: drained_def list_all_iff)
qed

lemma drained_finishes:
  assumes k: "tap_kept i n d u t" and t: "t = telegram_run tc mt quote es" and a: "allowed_tap tc n u" and now: "now < d"
    and no: "\<forall>x\<in>set (fetched es). \<not> allowed_denial tc n x"
    and w: "queue_within i n d q t"
  shows "finished i n (telegram_run tc mt quote (es @ drained i now (length (tg_inbox t)) (q + length (tg_inbox t))))"
proof -
  let ?m = "length (tg_inbox t)" and ?run = "telegram_run tc mt quote"
  have del: "queue_within i n d (q + j) (?run (es @ replicate j PollDelivers)) \<and> tg_inbox (?run (es @ replicate j PollDelivers)) = drop j (tg_inbox t)" for j
  proof (induction j)
    case (Suc j)
    have "?run (es @ replicate (Suc j) PollDelivers) = poll_delivers (?run (es @ replicate j PollDelivers))"
      by (simp only: replicate_Suc replicate_append_same [symmetric] append_assoc [symmetric] telegram_run_snoc) (simp add: telegram_step_def)
    then show ?case using delivers_within [of i n d "q + j" "?run (es @ replicate j PollDelivers)"] Suc by (simp add: drop_Suc tl_drop)
  qed (use w t in simp)
  define es1 where "es1 = es @ replicate ?m PollDelivers"
  let ?at = "\<lambda>j. ?run (es1 @ concat (replicate j [AskSignalled i, AskTakes i now]))"
  have kept: "tap_kept i n d u (?at j)" for j
  proof -
    have "tap_kept i n d u (?run (es @ drained i now ?m j))"
      by (rule kept_run [OF k [unfolded t] a]) (use drained_in_time now no in auto)
    then show ?thesis by (simp add: es1_def drained_def)
  qed
  have "j \<le> q + ?m \<Longrightarrow> (finished i n (?at j) \<or> queue_within i n d (q + ?m - j) (?at j)) \<and> tg_inbox (?at j) = []" for j
  proof (induction j)
    case 0
    then show ?case using del [of ?m] by (simp add: es1_def)
  next
    case (Suc j)
    then have q: "q + ?m - j = Suc (q + ?m - Suc j)" by simp
    have "?at (Suc j) = telegram_step tc mt quote (AskTakes i now) (telegram_step tc mt quote (AskSignalled i) (?at j))"
      by (simp add: replicate_append_same [symmetric] telegram_run_def)
    from round_within [OF kept [of j] run_sound _ _ this, of "q + ?m - Suc j"] show ?case using Suc q by simp
  qed
  from this [of "q + ?m"] have e: "finished i n (?at (q + ?m)) \<or> queue_within i n d 0 (?at (q + ?m))" "tg_inbox (?at (q + ?m)) = []" by simp_all
  have "\<not> queue_within i n d 0 (?at (q + ?m))"
  proof
    assume "queue_within i n d 0 (?at (q + ?m))"
    then show False using kept [of "q + ?m"] e(2) by (auto simp: queue_within_def tap_kept_def on_its_way_def)
  qed
  then show ?thesis using e(1) by (simp add: es1_def drained_def)
qed

text \<open>What the poller fetches while a call is held is on its way to it.\<close>

lemma fetched_on_its_way:
  assumes "ask_at i (telegram_run tc mt quote es) = Some (Waiting d)" and "tg_inbox (telegram_run tc mt quote es) = []" and "u \<in> set us"
  shows "on_its_way i u (telegram_run tc mt quote (es @ [PollGot (Some us)]))"
proof -
  have "tg_polling (telegram_run tc mt quote es)" using served_at [where i = i and tc = tc and mt = mt and quote = quote and es = es] assms(1) by simp
  then show ?thesis using assms(2,3) by (simp add: telegram_step_def poll_got_def on_its_way_def)
qed

text \<open>
  C22. A tap that counts is honored. From every reachable state in which a call is held and an allowed tap for it is on its way, fetched and
  not yet handed on or queued behind others, with no allowed denial: whatever else happens, as long as the call is not run past its deadline, it
  either still has the tap coming or has returned approval; and at any moment the poller and the call can finish by themselves, with approval and
  the nonce freed.
\<close>

theorem allowed_tap_is_honored:
  assumes "t = telegram_run tc mt quote es" and "ask_at i t = Some (Waiting d) \<or> ask_at i t = Some (Woken d)"
    and "on_its_way i u t" and "n = ak_nonce (tg_asks t ! i)" and "allowed_tap tc n u"
    and "list_all (in_time i d) es'" and "\<forall>x\<in>set (fetched (es @ es')). \<not> allowed_denial tc n x" and "now < d"
  defines "t' \<equiv> telegram_run tc mt quote (es @ es')"
  shows "(case ask_at i t' of
      Some (Returned v) \<Rightarrow> an_approved v
    | Some (Waiting d') \<Rightarrow> d' = d \<and> on_its_way i u t'
    | Some (Woken d') \<Rightarrow> d' = d \<and> on_its_way i u t'
    | _ \<Rightarrow> False)
    \<and> (\<exists>m k v. let t2 = telegram_run tc mt quote (es @ es' @ drained i now m k) in
        ask_at i t2 = Some (Returned v) \<and> an_approved v
        \<and> (ask_at i t' = Some (Waiting d) \<or> ask_at i t' = Some (Woken d) \<longrightarrow> map_of (tg_waiters t2) n = None))"
proof -
  have k: "tap_kept i n d u (telegram_run tc mt quote es)"
    using assms(2-4) by (auto simp: tap_kept_def ask_at_def assms(1) [symmetric] split: if_splits)
  have k': "tap_kept i n d u t'" unfolding t'_def by (rule kept_run [OF k assms(5-7)])
  have i: "i < length (tg_asks t')" using k' by (simp add: tap_kept_def)
  show ?thesis
  proof (cases "\<exists>v. ak_point (tg_asks t' ! i) = Returned v")
    case True
    then obtain v where v: "ask_at i t' = Some (Returned v)" "an_approved v" using k' by (auto simp: tap_kept_def ask_at_def)
    then have "ask_at i (telegram_run tc mt quote (es @ es' @ drained i now 0 0)) = Some (Returned v)" by (simp add: drained_def t'_def)
    then show ?thesis using v by (auto simp: Let_def)
  next
    case False
    then have p: "ak_point (tg_asks t' ! i) = Waiting d \<or> ak_point (tg_asks t' ! i) = Woken d" "on_its_way i u t'"
      using k' by (auto simp: tap_kept_def)
    have n: "ak_nonce (tg_asks t' ! i) = n" using k' by (simp add: tap_kept_def)
    have h: "held (tg_asks t' ! i)" using p(1) by (auto simp: held_def)
    obtain wt where "map_of (tg_waiters t') n = Some wt"
      using kept_sound_waiter [OF k' run_sound [of tc mt quote "es @ es'", folded t'_def] h] .
    then have w: "queue_within i n d (length (wt_updates wt)) t'" using p(1) by (auto simp: queue_within_def)
    let ?ds = "drained i now (length (tg_inbox t')) (length (wt_updates wt) + length (tg_inbox t'))"
    let ?t2 = "telegram_run tc mt quote ((es @ es') @ ?ds)"
    have f: "finished i n ?t2"
      by (rule drained_finishes [OF k' _ assms(5,8,7) w]) (simp add: t'_def)
    have "tap_kept i n d u ?t2"
      by (rule kept_run [OF k' [unfolded t'_def] assms(5)]) (use drained_in_time [where i = i] assms(7,8) in auto)
    then obtain v where "ask_at i ?t2 = Some (Returned v)" "an_approved v" using f by (auto simp: finished_def tap_kept_def ask_at_def)
    then have "\<exists>m k v. let t2 = telegram_run tc mt quote (es @ es' @ drained i now m k) in
        ask_at i t2 = Some (Returned v) \<and> an_approved v
        \<and> (ask_at i t' = Some (Waiting d) \<or> ask_at i t' = Some (Woken d) \<longrightarrow> map_of (tg_waiters t2) n = None)"
      using f unfolding finished_def append_assoc Let_def by blast
    then show ?thesis using p i by (auto simp: ask_at_def)
  qed
qed

text \<open>
  The configuration is checked: an approver exists only with a numeric chat and at least one approver id, all
  of them positive, and every entry of the list is one.
\<close>

theorem telegram_configuration_checked:
  assumes "new_telegram_approver chat ids timeout = Inr tc"
  shows "atoi chat = Some (tg_chat tc) \<and> tg_approvers tc \<noteq> [] \<and> (\<forall>i\<in>set (tg_approvers tc). 0 < i)
    \<and> map Some (tg_approvers tc) = map (\<lambda>raw. atoi (trim_bytes raw)) (split_on CHR '','' ids)"
proof -
  have ids: "map Some l = map (\<lambda>raw. atoi (trim_bytes raw)) raws \<and> (\<forall>i\<in>set l. 0 < i)" if "approver_ids raws = Some l" for raws l
    using that by (induction raws arbitrary: l rule: approver_ids.induct) (auto split: option.splits if_splits)
  obtain l where l: "approver_ids (split_on CHR '','' ids) = Some l" "atoi chat = Some (tg_chat tc)" "tg_approvers tc = l"
    using assms by (auto simp: new_telegram_approver_def split: option.splits if_splits)
  show ?thesis using ids [OF l(1)] l(2,3) by auto
qed

subsection \<open>The gate behind this approver\<close>

text \<open>
  An approver function answers the way some schedule of Telegram does: for each request there is a schedule
  in which an \<open>Ask\<close> with the prompt of that request returned this answer.
\<close>

definition answers_as :: "tg_config \<Rightarrow> (bytes \<Rightarrow> bytes \<Rightarrow> bool) \<Rightarrow> (bytes \<Rightarrow> bytes)
    \<Rightarrow> (approval_request \<Rightarrow> tg_step list \<times> nat) \<Rightarrow> (approval_request \<Rightarrow> approval_answer) \<Rightarrow> bool" where
  "answers_as tc mt quote sched ask \<longleftrightarrow>
     (\<forall>req. let (es, i) = sched req; t = telegram_run tc mt quote es in
        ask_at i t = Some (Returned (ask req)) \<and> (an_approved (ask req) \<longrightarrow> ak_prompt (tg_asks t ! i) = telegram_prompt mt quote req))"

text \<open>A human in the configured chat tapped on a prompt for this tool with these parameters.\<close>

definition human_tapped :: "tg_config \<Rightarrow> (bytes \<Rightarrow> bytes \<Rightarrow> bool) \<Rightarrow> (bytes \<Rightarrow> bytes) \<Rightarrow> bytes \<Rightarrow> bytes \<Rightarrow> json \<Rightarrow> bool" where
  "human_tapped tc mt quote agent tool params \<longleftrightarrow>
     (\<exists>req es i. ap_agent req = agent \<and> ap_tool req = tool \<and> ap_params req = params
        \<and> ak_prompt (tg_asks (telegram_run tc mt quote es) ! i) = telegram_prompt mt quote req
        \<and> tapped tc es i (ak_nonce (tg_asks (telegram_run tc mt quote es) ! i)))"

lemma approved_tapped:
  assumes "w_approver w = Some ask" and "answers_as tc mt quote sched ask" and "approved gc w tool params rsn"
  shows "human_tapped tc mt quote (c_agent gc) tool params"
proof -
  let ?req = "\<lparr>ap_agent = c_agent gc, ap_tool = tool, ap_params = params, ap_reason = reason_text (w_quote w) rsn\<rparr>"
  obtain es i where s: "sched ?req = (es, i)" by fastforce
  have y: "an_approved (ask ?req)" using assms(1,3) by (auto simp: approved_def)
  have at: "ask_at i (telegram_run tc mt quote es) = Some (Returned (ask ?req))"
    "ak_prompt (tg_asks (telegram_run tc mt quote es) ! i) = telegram_prompt mt quote ?req"
    using assms(2) s y by (auto simp: answers_as_def Let_def dest!: spec [of _ ?req])
  have "ask_backed tc es i (tg_asks (telegram_run tc mt quote es) ! i)"
    using run_backed [of tc es mt quote] at(1) by (auto simp: tg_backed_def ask_at_def split: if_splits)
  then have "tapped tc es i (ak_nonce (tg_asks (telegram_run tc mt quote es) ! i))"
    using at(1) y by (auto simp: ask_backed_def ask_at_def split: if_splits)
  then show ?thesis using at(2) unfolding human_tapped_def by (intro exI [of _ ?req] exI [of _ es] exI [of _ i]) simp
qed

text \<open>
  C4. End to end: with the Telegram approver behind the gate, a tools/call that needs a human is forwarded only
  after an allowed person in the configured chat tapped, in time, on a prompt made from this tool and these
  parameters, and what is forwarded are these parameters with the configured secrets written in; a call without a
  readable name is forwarded as it was shown.
\<close>

theorem call_forwarded_after_human_tap:
  assumes "decide gc w line s g = (d, g')" and "d_forward d = Some t"
    and "message_of_tree t = Some m" and "m_method m = ''tools/call''"
    and "needs_human gc (d_tool d) \<or> d_tool d = []"
    and "w_approver w = Some ask" and "answers_as tc mt quote sched ask"
  shows "\<exists>params. human_tapped tc mt quote (c_agent gc) (d_tool d) params
    \<and> ((\<exists>obj params'. injected gc w (d_tool d) params params' \<and> t = JObj (put ''params'' params' obj))
        \<or> (d_tool d = [] \<and> params = t))"
proof -
  consider obj params params' where "passed_gates gc w g (d_tool d) params" "injected gc w (d_tool d) params params'"
      "t = JObj (put ''params'' params' obj)"
    | "d_tool d = []" "approved gc w [] t (Basis ''unextractable-name'')"
    using forwarded_call_cleared [OF assms(1-4)] by blast
  then show ?thesis
  proof cases
    case 1
    then have "approved gc w (d_tool d) params (reason (evaluate (c_engine gc) (c_agent gc) (d_tool d)))"
      using assms(5) by (auto simp: passed_gates_def policy_clears_def)
    from approved_tapped [OF assms(6,7) this] 1(2,3) show ?thesis by blast
  next
    case 2
    from approved_tapped [OF assms(6,7) 2(2)] 2(1) show ?thesis by auto
  qed
qed

subsection \<open>A call approved over Telegram\<close>

definition demo_tg :: tg_config where
  "demo_tg = \<lparr>tg_chat = 5, tg_approvers = [7], tg_timeout = 60\<rparr>"

definition demo_tap :: "int \<Rightarrow> tg_update" where
  "demo_tap who = \<lparr>up_id = 1, up_callback = Some \<lparr>cb_id = ''c'', cb_data = ''approve:n'', cb_from = who, cb_chat = 5\<rparr>\<rparr>"

definition served :: "nat \<Rightarrow> tg_update \<Rightarrow> int \<Rightarrow> tg_step list" where
  "served i u now = [PollGot (Some [u]), PollDelivers, AskSignalled i, AskTakes i now]"

definition demo_held :: "approval_request \<Rightarrow> tg_step list" where
  "demo_held req = [AskBegins req ''n'', AskSent 0 True 10] @ served 0 (demo_tap 8) 20"

lemmas tg_eval =
  telegram_run_def new_telegram_def telegram_step_def ask_begin_def ask_sent_def ask_at_def set_point_def poll_got_def
  poll_delivers_def deliver_def ask_signalled_def ask_takes_def judge_tap_def reject_tap_def ask_return_def verdict_of_def
  served_def demo_tg_def demo_tap_def demo_held_def wrap64_def del_def Let_def

lemma demo_held_run:
  "telegram_run demo_tg mt quote (demo_held req) =
     \<lparr>tg_waiters = [(''n'', \<lparr>wt_ready = False, wt_updates = []\<rparr>)], tg_polling = True, tg_offset = 2, tg_inbox = [],
      tg_asks = [\<lparr>ak_nonce = ''n'', ak_prompt = telegram_prompt mt quote req, ak_point = Waiting 70,
        ak_taps = [''telegram-callback-unlisted-sender'']\<rparr>],
      tg_answers = [(''c'', ''Approval not allowed'')]\<rparr>"
  by (simp add: tg_eval)

theorem allowed_tap_is_honored_witness:
  "\<forall>mt quote req. \<exists>m k v. ask_at 0 (telegram_run demo_tg mt quote
      ((demo_held req @ [PollGot (Some [demo_tap 8, demo_tap 7])]) @ [PollDelivers] @ drained 0 30 m k)) = Some (Returned v) \<and> an_approved v"
proof (intro allI)
  fix mt quote req
  let ?es = "demo_held req @ [PollGot (Some [demo_tap 8, demo_tap 7])]"
  let ?t = "telegram_run demo_tg mt quote ?es"
  have at: "ask_at 0 ?t = Some (Waiting 70)" by (simp add: demo_held_run ask_at_def telegram_step_def poll_got_def)
  have way: "on_its_way 0 (demo_tap 7) ?t" by (rule fetched_on_its_way) (simp_all add: demo_held_run ask_at_def)
  have n: "''n'' = ak_nonce (tg_asks ?t ! 0)" by (simp add: demo_held_run telegram_step_def poll_got_def)
  have tap: "allowed_tap demo_tg ''n'' (demo_tap 7)" by (simp add: allowed_tap_def demo_tap_def demo_tg_def)
  have no: "\<forall>x\<in>set (fetched (?es @ [PollDelivers])). \<not> allowed_denial demo_tg ''n'' x"
    by (simp add: demo_held_def served_def allowed_denial_def demo_tap_def)
  show "\<exists>m k v. ask_at 0 (telegram_run demo_tg mt quote (?es @ [PollDelivers] @ drained 0 30 m k)) = Some (Returned v) \<and> an_approved v"
    using allowed_tap_is_honored [OF refl disjI1 [OF at] way n tap _ no, of 30, THEN conjunct2] unfolding Let_def by (simp del: append_assoc) blast
qed

lemma demo_approved:
  "ask_at 0 (telegram_run demo_tg mt quote (demo_held req @ served 0 (demo_tap 7) 30)) =
     Some (Returned (verdict_of True ''approved by human'' [''telegram-callback-unlisted-sender'']))"
  "ak_prompt (tg_asks (telegram_run demo_tg mt quote (demo_held req @ served 0 (demo_tap 7) 30)) ! 0) = telegram_prompt mt quote req"
  "ak_nonce (tg_asks (telegram_run demo_tg mt quote (demo_held req @ served 0 (demo_tap 7) 30)) ! 0) = ''n''"
  by (simp_all add: tg_eval)

theorem approval_needs_allowed_tap_witness:
  "tapped demo_tg (demo_held req @ served 0 (demo_tap 7) 30) 0 ''n''"
  using approval_needs_allowed_tap [OF demo_approved(1)] demo_approved(3)
  by (simp add: verdict_of_def)

lemma trim_digit:
  assumes "is_digit c"
  shows "trim_bytes [c] = [c]"
  by (rule trim_bytes_ascii [where u = "[]"]) (use assms in \<open>auto simp: is_digit_def rune_space_def Let_def\<close>)

lemma demo_digits: "is_digit CHR ''7''" "is_digit CHR ''8''" "is_digit CHR ''1''"
  by (simp_all add: is_digit_def)

theorem telegram_configuration_checked_witness:
  "\<exists>tc. new_telegram_approver ''1'' ''7,8'' 60 = Inr tc \<and> atoi ''1'' = Some (tg_chat tc) \<and> (\<forall>i\<in>set (tg_approvers tc). 0 < i)"
proof -
  have t: "trim_bytes ''7'' = ''7''" "trim_bytes ''8'' = ''8''" using trim_digit demo_digits by simp_all
  have "trim_bytes ''7,8'' = ''7,8''"
    by (rule trim_bytes_ascii [where a = "CHR ''7''" and t = "'',8''" and u = "''7,''" and c = "CHR ''8''"]) (simp_all add: rune_space_def)
  then have "new_telegram_approver ''1'' ''7,8'' 60 = Inr \<lparr>tg_chat = 1, tg_approvers = [7, 8], tg_timeout = 60\<rparr>"
    by (simp add: new_telegram_approver_def t demo_digits parse_int64_def digits_value_def)
  from telegram_configuration_checked [OF this] this show ?thesis by simp
qed

theorem call_forwarded_after_human_tap_witness:
  "\<exists>params. human_tapped demo_tg demo_match id (c_agent demo_gc) ''c'' params"
proof -
  let ?ask = "\<lambda>req :: approval_request. verdict_of True ''approved by human'' [''telegram-callback-unlisted-sender'']"
  let ?w = "demo_world\<lparr>w_approver := Some ?ask\<rparr>"
  let ?t = "JObj [(''id'', JNum ''1''), (''method'', JStr ''tools/call''), (''params'', JObj [(''name'', JStr ''c'')])]"
  obtain d g' where d: "decide demo_gc ?w (json_print demo_shadow_call) 0 demo_gate = (d, g')" by fastforce
  have f: "d_forward d = Some ?t" "d_tool d = ''c''"
    using demo_forwards_under [OF demo_gate_limiter, of ?w ?ask 0] d by (simp_all add: verdict_of_def)
  have m: "message_of_tree ?t = Some (zero_message\<lparr>m_id := Some (JNum ''1''), m_method := ''tools/call'',
      m_params := Some (JObj [(''name'', JStr ''c'')])\<rparr>)"
    by (simp add: put_message_member_def field_among_def message_fields_def zero_message_def)
  have h: "needs_human demo_gc (d_tool d)"
    by (simp add: f(2) needs_human_def demo_gc_def c_agent_def demo_session_def requires_approval_def policy_or_zero_def
        agent_policy_of_def empty_policy_def match_pattern_def match_pattern_err_def is_glob_pattern_def contains_any_def)
  have s: "answers_as demo_tg demo_match id (\<lambda>req. (demo_held req @ served 0 (demo_tap 7) 30, 0)) ?ask"
    by (simp add: answers_as_def demo_approved)
  from call_forwarded_after_human_tap [OF d f(1) m _ disjI1 [OF h] _ s] show ?thesis unfolding f(2) by fastforce
qed

end
