(* ===== verification/LocalApprover.thy ===== *)
theory LocalApprover
  imports Approval
begin

text \<open>
  The approver over a unix socket, \<^verbatim>\<open>internal/approval/local.go\<close>: held calls, the handler
  of operator commands, and the race between a decision and the timeout. A held call and a handler are goroutines,
  kept in lists with the point each has reached; a step is what runs under one lock, or one channel
  operation. The peer's user id, the bytes it sends and the clock (in nanoseconds) are arguments of the steps.
  The file system, the socket and the timers themselves are not modelled.
\<close>

subsection \<open>Names of sockets and of held calls\<close>

definition local_base :: "nat \<Rightarrow> bytes \<Rightarrow> bytes" where
  "local_base pid rnd = show_nat pid @ CHR ''-'' # hex_encode rnd"

definition hold_id :: "bytes \<Rightarrow> int \<Rightarrow> bytes" where
  "hold_id base n = base @ CHR ''-'' # show_int n"

definition hex_lower_byte :: "char \<Rightarrow> bool" where
  "hex_lower_byte c \<longleftrightarrow> is_digit c \<or> (let n = of_char c :: nat in 97 \<le> n \<and> n \<le> 102)"

text \<open>The regular expression \<open>sockBase\<close>, written out: digits, a hyphen, sixteen hexadecimal digits.\<close>

definition sock_base :: "bytes \<Rightarrow> bool" where
  "sock_base s \<longleftrightarrow>
     takeWhile is_digit s \<noteq> []
     \<and> (case dropWhile is_digit s of
          [] \<Rightarrow> False
        | c # h \<Rightarrow> c = CHR ''-'' \<and> length h = 16 \<and> list_all hex_lower_byte h)"

text \<open>What precedes the last hyphen.\<close>

definition before_last_hyphen :: "bytes \<Rightarrow> bytes option" where
  "before_last_hyphen s =
     (case dropWhile (\<lambda>c. c \<noteq> CHR ''-'') (rev s) of [] \<Rightarrow> None | c # r \<Rightarrow> Some (rev r))"

text \<open>The socket that \<open>Decide\<close> talks to, below its directory.\<close>

definition decide_socket :: "bytes \<Rightarrow> bytes option" where
  "decide_socket i =
     (case before_last_hyphen i of
        None \<Rightarrow> None
      | Some b \<Rightarrow> if sock_base b then Some (b @ ''.sock'') else None)"

subsection \<open>Requests of an operator\<close>

record local_request =
  lr_op :: bytes
  lr_id :: bytes
  lr_approve :: bool

definition put_request_member :: "bytes \<Rightarrow> json \<Rightarrow> local_request \<Rightarrow> local_request option" where
  "put_request_member k v r =
     (case field_among [''op'', ''id'', ''approve''] k of
        None \<Rightarrow> None
      | Some f \<Rightarrow>
          if f = ''op'' then map_option (\<lambda>x. r\<lparr>lr_op := x\<rparr>) (read_str v (lr_op r))
          else if f = ''id'' then map_option (\<lambda>x. r\<lparr>lr_id := x\<rparr>) (read_str v (lr_id r))
          else (case v of
              JBool b \<Rightarrow> Some (r\<lparr>lr_approve := b\<rparr>)
            | JNull \<Rightarrow> Some r
            | _ \<Rightarrow> None))"

fun put_request_members :: "members \<Rightarrow> local_request \<Rightarrow> local_request option" where
  "put_request_members [] r = Some r"
| "put_request_members ((k, v) # ms) r = Option.bind (put_request_member k v r) (put_request_members ms)"

text \<open>The decoder reads at most 4096 bytes and refuses unknown fields.\<close>

definition read_request :: "bytes \<Rightarrow> local_request option" where
  "read_request input =
     (case json_decode_first (take 4096 input) of
        Some (JObj ms) \<Rightarrow> put_request_members ms \<lparr>lr_op = [], lr_id = [], lr_approve = False\<rparr>
      | Some JNull \<Rightarrow> Some \<lparr>lr_op = [], lr_id = [], lr_approve = False\<rparr>
      | _ \<Rightarrow> None)"

subsection \<open>State\<close>

datatype hold_point = Holding | TimedOut | Decided approval_answer

record local_hold =
  lh_id :: bytes
  lh_agent :: bytes
  lh_tool :: bytes
  lh_reason :: bytes
  lh_since :: int
  lh_chan :: "approval_answer option"
  lh_point :: hold_point

text \<open>A handler that took a held call off the map, and whether it has sent the verdict.\<close>

record local_handler =
  hd_hold :: nat
  hd_verdict :: approval_answer
  hd_sent :: bool

record pending_call =
  pd_id :: bytes
  pd_agent :: bytes
  pd_tool :: bytes
  pd_reason :: bytes
  pd_age :: int

datatype local_reply = Listed "pending_call list" | DecisionTaken | NoSuchCall | UnknownOp

record local_config =
  lc_uid :: nat
  lc_base :: bytes
  lc_timeout :: int

record local_approver =
  la_n :: int
  la_pending :: "(bytes \<times> nat) list"
  la_holds :: "local_hold list"
  la_handlers :: "local_handler list"
  la_replies :: "local_reply list"

definition new_local :: local_approver where
  "new_local = \<lparr>la_n = 0, la_pending = [], la_holds = [], la_handlers = [], la_replies = []\<rparr>"

subsection \<open>Operations\<close>

definition answer_local :: "bool \<Rightarrow> bytes \<Rightarrow> bytes \<Rightarrow> approval_answer" where
  "answer_local ok why who = \<lparr>an_approved = ok, an_reason = why, an_actor = who, an_taps = []\<rparr>"

definition operator_verdict :: "nat \<Rightarrow> bool \<Rightarrow> approval_answer" where
  "operator_verdict uid ok =
     answer_local ok ((if ok then ''approved'' else ''denied'') @ '' by local:'' @ show_nat uid) (''local:uid:'' @ show_nat uid)"

definition timeout_verdict :: approval_answer where
  "timeout_verdict = answer_local False ''timeout'' []"

definition hold_call :: "local_config \<Rightarrow> approval_request \<Rightarrow> int \<Rightarrow> local_approver \<Rightarrow> local_approver" where
  "hold_call lc req now l =
     (let i = hold_id (lc_base lc) (la_n l + 1) in
      l\<lparr>la_n := la_n l + 1, la_pending := put i (length (la_holds l)) (la_pending l),
        la_holds := la_holds l @ [\<lparr>lh_id = i, lh_agent = ap_agent req, lh_tool = ap_tool req, lh_reason = ap_reason req,
          lh_since = now, lh_chan = None, lh_point = Holding\<rparr>]\<rparr>)"

definition shown_call :: "int \<Rightarrow> local_hold \<Rightarrow> pending_call" where
  "shown_call now h =
     \<lparr>pd_id = lh_id h, pd_agent = lh_agent h, pd_tool = lh_tool h, pd_reason = lh_reason h,
      pd_age = (now - lh_since h) div 10 ^ 9\<rparr>"

definition say :: "local_reply \<Rightarrow> local_approver \<Rightarrow> local_approver" where
  "say r l = l\<lparr>la_replies := la_replies l @ [r]\<rparr>"

text \<open>\<open>handle\<close> up to the end of its critical section: a peer that is not this user gets no answer.\<close>

definition handle_request :: "local_config \<Rightarrow> nat option \<Rightarrow> bytes \<Rightarrow> int \<Rightarrow> local_approver \<Rightarrow> local_approver" where
  "handle_request lc peer input now l =
     (if peer \<noteq> Some (lc_uid lc) then l
      else case read_request input of
          None \<Rightarrow> l
        | Some r \<Rightarrow>
            if lr_op r = ''list'' then say (Listed (map (\<lambda>(i, k). shown_call now (la_holds l ! k)) (la_pending l))) l
            else if lr_op r = ''decide'' then
              (case map_of (la_pending l) (lr_id r) of
                 None \<Rightarrow> say NoSuchCall l
               | Some k \<Rightarrow>
                   l\<lparr>la_pending := del (lr_id r) (la_pending l),
                     la_handlers := la_handlers l @
                       [\<lparr>hd_hold = k, hd_verdict = operator_verdict (lc_uid lc) (lr_approve r), hd_sent = False\<rparr>]\<rparr>)
            else say UnknownOp l)"

definition update_hold :: "nat \<Rightarrow> (local_hold \<Rightarrow> local_hold) \<Rightarrow> local_approver \<Rightarrow> local_approver" where
  "update_hold k f l = l\<lparr>la_holds := (la_holds l)[k := f (la_holds l ! k)]\<rparr>"

text \<open>The handler sends its verdict on the channel of capacity one, and answers the operator.\<close>

definition send_verdict :: "nat \<Rightarrow> local_approver \<Rightarrow> local_approver" where
  "send_verdict j l =
     (let h = la_handlers l ! j in
      if hd_sent h \<or> lh_chan (la_holds l ! hd_hold h) \<noteq> None then l
      else say DecisionTaken (update_hold (hd_hold h) (lh_chan_update (\<lambda>_. Some (hd_verdict h)))
        (l\<lparr>la_handlers := (la_handlers l)[j := h\<lparr>hd_sent := True\<rparr>]\<rparr>)))"

text \<open>The held call receives, and its deferred call removes it from the map.\<close>

definition receive_verdict :: "nat \<Rightarrow> local_approver \<Rightarrow> local_approver" where
  "receive_verdict k l =
     (let h = la_holds l ! k in
      case (lh_point h, lh_chan h) of
        (Decided _, _) \<Rightarrow> l
      | (_, None) \<Rightarrow> l
      | (_, Some v) \<Rightarrow>
          update_hold k (\<lambda>h. h\<lparr>lh_chan := None, lh_point := Decided v\<rparr>) (l\<lparr>la_pending := del (lh_id h) (la_pending l)\<rparr>))"

text \<open>The timer fires: check and removal are one critical section.\<close>

definition hold_timeout :: "local_config \<Rightarrow> nat \<Rightarrow> int \<Rightarrow> local_approver \<Rightarrow> local_approver" where
  "hold_timeout lc k now l =
     (let h = la_holds l ! k in
      if lh_point h \<noteq> Holding \<or> now < lh_since h + lc_timeout lc then l
      else
        let still = map_of (la_pending l) (lh_id h) \<noteq> None in
        update_hold k (lh_point_update (\<lambda>_. if still then Decided timeout_verdict else TimedOut))
          (l\<lparr>la_pending := del (lh_id h) (la_pending l)\<rparr>))"

datatype local_move =
    HoldBegins approval_request int
  | OperatorSends "nat option" bytes int
  | VerdictSent nat
  | HoldReceives nat
  | HoldTimer nat int

definition local_step :: "local_config \<Rightarrow> local_move \<Rightarrow> local_approver \<Rightarrow> local_approver" where
  "local_step lc e l =
     (case e of
        HoldBegins req now \<Rightarrow> hold_call lc req now l
      | OperatorSends peer input now \<Rightarrow> handle_request lc peer input now l
      | VerdictSent j \<Rightarrow> if j < length (la_handlers l) then send_verdict j l else l
      | HoldReceives k \<Rightarrow> if k < length (la_holds l) then receive_verdict k l else l
      | HoldTimer k now \<Rightarrow> if k < length (la_holds l) then hold_timeout lc k now l else l)"

definition local_run :: "local_config \<Rightarrow> local_move list \<Rightarrow> local_approver" where
  "local_run lc es = fold (local_step lc) es new_local"

lemma local_run_snoc [simp]: "local_run lc (es @ [e]) = local_step lc e (local_run lc es)"
  by (simp add: local_run_def)

subsection \<open>Every decision is honored, at most one is taken\<close>

definition open_hold :: "local_hold \<Rightarrow> bool" where
  "open_hold x \<longleftrightarrow> (\<forall>v. lh_point x \<noteq> Decided v)"

text \<open>What a handler that took a held call knows about it.\<close>

definition hold_taken :: "local_hold \<Rightarrow> local_handler \<Rightarrow> bool" where
  "hold_taken x h \<longleftrightarrow>
     (if hd_sent h
      then (lh_chan x = Some (hd_verdict h) \<and> open_hold x) \<or> (lh_chan x = None \<and> lh_point x = Decided (hd_verdict h))
      else lh_chan x = None \<and> open_hold x)"

definition hold_free :: "(bytes \<rightharpoonup> nat) \<Rightarrow> nat \<Rightarrow> local_hold \<Rightarrow> bool" where
  "hold_free m k x \<longleftrightarrow>
     lh_chan x = None \<and> ((lh_point x = Holding \<and> m (lh_id x) = Some k) \<or> lh_point x = Decided timeout_verdict)"

definition taken_holds :: "local_approver \<Rightarrow> nat set" where
  "taken_holds l = hd_hold ` set (la_handlers l)"

definition local_inv :: "local_config \<Rightarrow> local_approver \<Rightarrow> bool" where
  "local_inv lc l \<longleftrightarrow>
     la_n l = int (length (la_holds l))
     \<and> (\<forall>k<length (la_holds l). lh_id (la_holds l ! k) = hold_id (lc_base lc) (int (k + 1)))
     \<and> (\<forall>i k. map_of (la_pending l) i = Some k \<longrightarrow>
          k < length (la_holds l) \<and> i = lh_id (la_holds l ! k) \<and> lh_point (la_holds l ! k) = Holding \<and> k \<notin> taken_holds l)
     \<and> distinct (map hd_hold (la_handlers l))
     \<and> (\<forall>h\<in>set (la_handlers l). hd_hold h < length (la_holds l) \<and> hold_taken (la_holds l ! hd_hold h) h)
     \<and> (\<forall>k<length (la_holds l). k \<notin> taken_holds l \<longrightarrow> hold_free (map_of (la_pending l)) k (la_holds l ! k))"

lemma hold_id_inj [simp]: "hold_id b (1 + int m) = hold_id b (1 + int n) \<longleftrightarrow> m = n"
  by (auto simp: hold_id_def show_int_def nat_add_distrib)

lemma local_inv_ids:
  "local_inv lc l \<Longrightarrow> k < length (la_holds l) \<Longrightarrow> lh_id (la_holds l ! k) = hold_id (lc_base lc) (1 + int k)"
  by (simp add: local_inv_def add.commute)

lemma local_inv_pending:
  "local_inv lc l \<Longrightarrow> map_of (la_pending l) i = Some k \<Longrightarrow>
    k < length (la_holds l) \<and> i = hold_id (lc_base lc) (1 + int k) \<and> lh_point (la_holds l ! k) = Holding \<and> k \<notin> taken_holds l"
  by (auto simp: local_inv_def add.commute)

lemma local_inv_taken:
  "local_inv lc l \<Longrightarrow> h \<in> set (la_handlers l) \<Longrightarrow> hd_hold h < length (la_holds l) \<and> hold_taken (la_holds l ! hd_hold h) h"
  by (simp add: local_inv_def)

lemma local_inv_free:
  "local_inv lc l \<Longrightarrow> k < length (la_holds l) \<Longrightarrow> k \<notin> taken_holds l \<Longrightarrow> hold_free (map_of (la_pending l)) k (la_holds l ! k)"
  by (simp add: local_inv_def)

lemma local_invI:
  assumes "la_n l = int (length (la_holds l))"
    and ids: "\<And>k. k < length (la_holds l) \<Longrightarrow> lh_id (la_holds l ! k) = hold_id (lc_base lc) (1 + int k)"
    and "\<And>i k. map_of (la_pending l) i = Some k \<Longrightarrow>
      k < length (la_holds l) \<and> i = hold_id (lc_base lc) (1 + int k) \<and> lh_point (la_holds l ! k) = Holding \<and> k \<notin> taken_holds l"
    and "distinct (map hd_hold (la_handlers l))"
    and "\<And>h. h \<in> set (la_handlers l) \<Longrightarrow> hd_hold h < length (la_holds l) \<and> hold_taken (la_holds l ! hd_hold h) h"
    and "\<And>k. k < length (la_holds l) \<Longrightarrow> k \<notin> taken_holds l \<Longrightarrow> hold_free (map_of (la_pending l)) k (la_holds l ! k)"
  shows "local_inv lc l"
  unfolding local_inv_def using assms by (auto simp: add.commute)

lemma say_inv [simp]: "local_inv lc (say r l) = local_inv lc l"
  by (simp add: local_inv_def say_def taken_holds_def)

lemma hold_call_inv:
  assumes inv: "local_inv lc l"
  shows "local_inv lc (hold_call lc req now l)"
proof -
  let ?k = "length (la_holds l)" and ?i = "hold_id (lc_base lc) (1 + int (length (la_holds l)))"
  let ?x = "\<lparr>lh_id = ?i, lh_agent = ap_agent req, lh_tool = ap_tool req, lh_reason = ap_reason req,
      lh_since = now, lh_chan = None, lh_point = Holding\<rparr>"
  let ?l = "l\<lparr>la_n := 1 + int ?k, la_pending := put ?i ?k (la_pending l), la_holds := la_holds l @ [?x]\<rparr>"
  have n: "la_n l = int ?k" "distinct (map hd_hold (la_handlers l))" using inv by (auto simp: local_inv_def)
  have t: "taken_holds ?l = taken_holds l" "?k \<notin> taken_holds l"
    using local_inv_taken [OF inv] by (force simp: taken_holds_def)+
  have ids: "lh_id (la_holds ?l ! k) = hold_id (lc_base lc) (1 + int k)" if "k < length (la_holds ?l)" for k
    using that local_inv_ids [OF inv, of k] by (cases "k = ?k") (simp_all add: nth_append)
  have p: "k < length (la_holds ?l) \<and> i = hold_id (lc_base lc) (1 + int k) \<and> lh_point (la_holds ?l ! k) = Holding \<and> k \<notin> taken_holds l"
    if "map_of (la_pending ?l) i = Some k" for i k
    using that local_inv_pending [OF inv, of i k] t(2)
    by (auto simp: nth_append split: if_splits)
  have h: "hd_hold h < length (la_holds ?l) \<and> hold_taken (la_holds ?l ! hd_hold h) h" if "h \<in> set (la_handlers l)" for h
    using local_inv_taken [OF inv that] by (simp add: nth_append)
  have f: "hold_free (map_of (la_pending ?l)) k (la_holds ?l ! k)" if k: "k < length (la_holds ?l)" "k \<notin> taken_holds l" for k
  proof (cases "k = ?k")
    case True
    then show ?thesis by (simp add: hold_free_def)
  next
    case False
    then have "k < ?k" using k by simp
    then show ?thesis using local_inv_free [OF inv _ k(2)] local_inv_ids [OF inv, of k] False
      by (simp add: hold_free_def nth_append)
  qed
  have "local_inv lc ?l"
  proof (rule local_invI; (unfold t(1))?)
    show "la_n ?l = int (length (la_holds ?l))" "distinct (map hd_hold (la_handlers ?l))" using n by simp_all
    show "hd_hold h < length (la_holds ?l) \<and> hold_taken (la_holds ?l ! hd_hold h) h" if "h \<in> set (la_handlers ?l)" for h
      using h that by simp
  qed (fact ids p f)+
  then show ?thesis by (simp add: hold_call_def Let_def n(1) add.commute)
qed

lemma handle_request_inv:
  assumes "local_inv lc l"
  shows "local_inv lc (handle_request lc peer input now l)"
proof -
  have same: "local_inv lc (say r l)" for r using assms by simp
  have dec: "local_inv lc (l\<lparr>la_pending := del i (la_pending l),
      la_handlers := la_handlers l @ [\<lparr>hd_hold = k, hd_verdict = v, hd_sent = False\<rparr>]\<rparr>)"
    if m: "map_of (la_pending l) i = Some k" for i k v
  proof -
    let ?l = "l\<lparr>la_pending := del i (la_pending l), la_handlers := la_handlers l @ [\<lparr>hd_hold = k, hd_verdict = v, hd_sent = False\<rparr>]\<rparr>"
    have k: "k < length (la_holds l)" "i = hold_id (lc_base lc) (1 + int k)" "lh_point (la_holds l ! k) = Holding" "k \<notin> taken_holds l"
      using local_inv_pending [OF assms m] by auto
    have free: "lh_chan (la_holds l ! k) = None" using local_inv_free [OF assms k(1,4)] by (simp add: hold_free_def)
    have t: "taken_holds ?l = insert k (taken_holds l)" by (simp add: taken_holds_def)
    have f: "hold_free (map_of (la_pending ?l)) j (la_holds l ! j)" if "j < length (la_holds l)" "j \<notin> insert k (taken_holds l)" for j
      using local_inv_free [OF assms that(1)] local_inv_ids [OF assms that(1)] that(2) k(2)
      by (simp add: hold_free_def map_of_del)
    have p: "j < length (la_holds l) \<and> i' = hold_id (lc_base lc) (1 + int j) \<and> lh_point (la_holds l ! j) = Holding \<and> j \<notin> insert k (taken_holds l)"
      if "map_of (la_pending ?l) i' = Some j" for i' j
      using that local_inv_pending [OF assms, of i' j] local_inv_ids [OF assms, of j] k(2)
      by (auto simp: map_of_del split: if_splits)
    have hd: "distinct (map hd_hold (la_handlers ?l))" "la_n ?l = int (length (la_holds ?l))"
      using assms k by (auto simp: local_inv_def taken_holds_def)
    have new: "hold_taken (la_holds l ! k) \<lparr>hd_hold = k, hd_verdict = v, hd_sent = False\<rparr>"
      using k free by (simp add: hold_taken_def open_hold_def)
    have h: "hd_hold h < length (la_holds ?l) \<and> hold_taken (la_holds ?l ! hd_hold h) h" if "h \<in> set (la_handlers ?l)" for h
      using that new local_inv_taken [OF assms, of h] k(1) by auto
    show ?thesis
    proof (rule local_invI; (unfold t)?)
      show "lh_id (la_holds ?l ! j) = hold_id (lc_base lc) (1 + int j)" if "j < length (la_holds ?l)" for j
        using that local_inv_ids [OF assms] by simp
      show "hold_free (map_of (la_pending ?l)) j (la_holds ?l ! j)" if "j < length (la_holds ?l)" "j \<notin> insert k (taken_holds l)" for j
        using that f by simp
      show "j < length (la_holds ?l) \<and> i' = hold_id (lc_base lc) (1 + int j) \<and> lh_point (la_holds ?l ! j) = Holding \<and> j \<notin> insert k (taken_holds l)"
        if "map_of (la_pending ?l) i' = Some j" for i' j using p [OF that] by simp
    qed (fact hd h)+
  qed
  show ?thesis using assms same dec by (simp add: handle_request_def split: option.split)
qed

text \<open>Changing a call that a handler took, in the way of that handler.\<close>

lemma taken_update_inv:
  assumes inv: "local_inv lc l" and k: "k < length (la_holds l)" "k \<in> taken_holds l"
    and f: "lh_id x = lh_id (la_holds l ! k)"
    and l': "la_n l' = la_n l" "la_holds l' = (la_holds l)[k := x]"
    and hs: "map hd_hold (la_handlers l') = map hd_hold (la_handlers l)"
    and own: "\<And>h. h \<in> set (la_handlers l') \<Longrightarrow> if hd_hold h = k then hold_taken x h else h \<in> set (la_handlers l)"
    and pend: "\<And>i. i \<noteq> lh_id x \<Longrightarrow> map_of (la_pending l') i = map_of (la_pending l) i" "map_of (la_pending l') (lh_id x) = None"
  shows "local_inv lc l'"
proof -
  let ?l = l' and ?hs = "la_handlers l'" and ?m = "map_of (la_pending l')"
  note [simp] = l'
  have "hd_hold ` set ?hs = hd_hold ` set (la_handlers l)" using arg_cong [OF hs, of set] by simp
  then have t: "taken_holds ?l = taken_holds l" by (simp add: taken_holds_def)
  have x: "lh_id x = hold_id (lc_base lc) (1 + int k)" using f local_inv_ids [OF inv k(1)] by simp
  have p: "j < length (la_holds ?l) \<and> i = hold_id (lc_base lc) (1 + int j) \<and> lh_point (la_holds ?l ! j) = Holding \<and> j \<notin> taken_holds l"
    if m: "?m i = Some j" for i j
  proof -
    have "i \<noteq> lh_id x" using m pend(2) by auto
    then have "map_of (la_pending l) i = Some j" using m pend(1) by simp
    from local_inv_pending [OF inv this] local_inv_ids [OF inv, of j] k(2) show ?thesis
      by (cases "j = k") auto
  qed
  have h: "hd_hold h < length (la_holds ?l) \<and> hold_taken (la_holds ?l ! hd_hold h) h" if "h \<in> set ?hs" for h
    using own [OF that] local_inv_taken [OF inv, of h] k(1) by (cases "hd_hold h = k") auto
  have free: "hold_free ?m j (la_holds ?l ! j)" if "j < length (la_holds l)" "j \<notin> taken_holds l" for j
  proof -
    have j: "j \<noteq> k" using that(2) k(2) by auto
    then have "lh_id (la_holds l ! j) \<noteq> lh_id x" using local_inv_ids [OF inv that(1)] x by simp
    then show ?thesis using local_inv_free [OF inv that] j pend(1) by (simp add: hold_free_def)
  qed
  have ids: "lh_id (la_holds ?l ! j) = hold_id (lc_base lc) (1 + int j)" if "j < length (la_holds l)" for j
    using local_inv_ids [OF inv that] f k(1) by (simp add: nth_list_update)
  have d: "distinct (map hd_hold ?hs)" "la_n ?l = int (length (la_holds ?l))" using inv hs by (simp_all add: local_inv_def)
  show ?thesis
    by (rule local_invI; (unfold t)?) (use p h free ids d in simp_all)
qed


lemma handler_unique:
  "local_inv lc l \<Longrightarrow> i < length (la_handlers l) \<Longrightarrow> j < length (la_handlers l)
    \<Longrightarrow> hd_hold (la_handlers l ! i) = hd_hold (la_handlers l ! j) \<Longrightarrow> i = j"
  using nth_eq_iff_index_eq [of "map hd_hold (la_handlers l)" i j] by (simp add: local_inv_def)

lemma taken_absent:
  assumes "local_inv lc l" and "k < length (la_holds l)" and "k \<in> taken_holds l"
  shows "map_of (la_pending l) (lh_id (la_holds l ! k)) = None"
proof (cases "map_of (la_pending l) (lh_id (la_holds l ! k))")
  case (Some j)
  from local_inv_pending [OF assms(1) this] local_inv_ids [OF assms(1,2)] assms(3) show ?thesis by simp
qed

text \<open>A handler finds the channel empty: sending never blocks.\<close>

lemma unsent_chan:
  assumes "local_inv lc l" and "j < length (la_handlers l)" and "\<not> hd_sent (la_handlers l ! j)"
  shows "lh_chan (la_holds l ! hd_hold (la_handlers l ! j)) = None" "open_hold (la_holds l ! hd_hold (la_handlers l ! j))"
  using local_inv_taken [OF assms(1), of "la_handlers l ! j"] assms(2,3) by (simp_all add: hold_taken_def)

lemma send_verdict_inv:
  assumes inv: "local_inv lc l" and j: "j < length (la_handlers l)"
  shows "local_inv lc (send_verdict j l)"
proof (cases "hd_sent (la_handlers l ! j)")
  case False
  let ?h = "la_handlers l ! j" and ?k = "hd_hold (la_handlers l ! j)"
  let ?x = "lh_chan_update (\<lambda>_. Some (hd_verdict ?h)) (la_holds l ! ?k)" and ?hs = "(la_handlers l)[j := ?h\<lparr>hd_sent := True\<rparr>]"
  have k: "?k < length (la_holds l)" "?k \<in> taken_holds l"
    using local_inv_taken [OF inv, of ?h] j by (auto simp: taken_holds_def)
  have own: "if hd_hold h = ?k then hold_taken ?x h else h \<in> set (la_handlers l)" if h: "h \<in> set ?hs" for h
  proof -
    obtain i where i: "i < length (la_handlers l)" "h = ?hs ! i" using h by (metis in_set_conv_nth length_list_update)
    show ?thesis
    proof (cases "i = j")
      case True
      then show ?thesis using i j unsent_chan [OF inv j False] by (simp add: hold_taken_def open_hold_def)
    next
      case neq: False
      then show ?thesis using i handler_unique [OF inv i(1) j] by auto
    qed
  qed
  have "map hd_hold ?hs = map hd_hold (la_handlers l)"
    using j by (simp add: map_update list_update_same_conv)
  moreover have "send_verdict j l = l\<lparr>la_handlers := ?hs, la_holds := (la_holds l)[?k := ?x], la_replies := la_replies l @ [DecisionTaken]\<rparr>"
    using False unsent_chan [OF inv j False] by (simp add: send_verdict_def say_def update_hold_def Let_def)
  ultimately show ?thesis
    using taken_absent [OF inv k] by (intro taken_update_inv [OF inv k, of ?x]) (simp_all add: own)
qed (use inv in \<open>simp add: send_verdict_def\<close>)

lemma untaken_chan: "local_inv lc l \<Longrightarrow> k < length (la_holds l) \<Longrightarrow> lh_chan (la_holds l ! k) \<noteq> None \<Longrightarrow> k \<in> taken_holds l"
  using local_inv_free [of lc l k] by (cases "k \<in> taken_holds l") (auto simp: hold_free_def)

lemma receive_verdict_inv:
  assumes inv: "local_inv lc l" and k: "k < length (la_holds l)"
  shows "local_inv lc (receive_verdict k l)"
proof (cases "open_hold (la_holds l ! k) \<and> lh_chan (la_holds l ! k) \<noteq> None")
  case True
  then obtain v where v: "lh_chan (la_holds l ! k) = Some v" "open_hold (la_holds l ! k)" by auto
  have t: "k \<in> taken_holds l" using untaken_chan [OF inv k] True by simp
  let ?x = "(la_holds l ! k)\<lparr>lh_chan := None, lh_point := Decided v\<rparr>"
  have own: "if hd_hold h = k then hold_taken ?x h else h \<in> set (la_handlers l)" if "h \<in> set (la_handlers l)" for h
    using local_inv_taken [OF inv that] v that by (auto simp: hold_taken_def open_hold_def split: if_splits)
  have "receive_verdict k l = l\<lparr>la_pending := del (lh_id (la_holds l ! k)) (la_pending l), la_holds := (la_holds l)[k := ?x]\<rparr>"
    using v by (cases "lh_point (la_holds l ! k)") (simp_all add: receive_verdict_def Let_def update_hold_def open_hold_def)
  then show ?thesis by (intro taken_update_inv [OF inv k t, of ?x]) (simp_all add: own map_of_del)
next
  case False
  then have "receive_verdict k l = l"
    by (cases "lh_point (la_holds l ! k)"; cases "lh_chan (la_holds l ! k)")
      (simp_all add: receive_verdict_def Let_def open_hold_def)
  then show ?thesis using inv by simp
qed

lemma hold_timeout_inv:
  assumes inv: "local_inv lc l" and k: "k < length (la_holds l)"
  shows "local_inv lc (hold_timeout lc k now l)"
proof (cases "lh_point (la_holds l ! k) \<noteq> Holding \<or> now < lh_since (la_holds l ! k) + lc_timeout lc")
  case False
  let ?i = "lh_id (la_holds l ! k)" and ?m = "del (lh_id (la_holds l ! k)) (la_pending l)"
  show ?thesis
  proof (cases "k \<in> taken_holds l")
    case True
    let ?x = "lh_point_update (\<lambda>_. TimedOut) (la_holds l ! k)"
    have own: "if hd_hold h = k then hold_taken ?x h else h \<in> set (la_handlers l)" if "h \<in> set (la_handlers l)" for h
      using local_inv_taken [OF inv that] False that by (auto simp: hold_taken_def open_hold_def split: if_splits)
    have "hold_timeout lc k now l = l\<lparr>la_pending := ?m, la_holds := (la_holds l)[k := ?x]\<rparr>"
      using False taken_absent [OF inv k True] by (simp add: hold_timeout_def Let_def update_hold_def)
    then show ?thesis by (intro taken_update_inv [OF inv k True, of ?x]) (simp_all add: own map_of_del)
  next
    case untaken: False
    let ?x = "lh_point_update (\<lambda>_. Decided timeout_verdict) (la_holds l ! k)"
    let ?l = "l\<lparr>la_pending := ?m, la_holds := (la_holds l)[k := ?x]\<rparr>"
    have fr: "hold_free (map_of (la_pending l)) k (la_holds l ! k)" using local_inv_free [OF inv k untaken] .
    have t: "taken_holds ?l = taken_holds l" by (simp add: taken_holds_def)
    have "local_inv lc ?l"
    proof (rule local_invI; (unfold t)?)
      show "la_n ?l = int (length (la_holds ?l))" "distinct (map hd_hold (la_handlers ?l))" using inv by (simp_all add: local_inv_def)
      show "lh_id (la_holds ?l ! j) = hold_id (lc_base lc) (1 + int j)" if "j < length (la_holds ?l)" for j
        using that local_inv_ids [OF inv, of j] by (cases "j = k") simp_all
      show "j < length (la_holds ?l) \<and> i = hold_id (lc_base lc) (1 + int j) \<and> lh_point (la_holds ?l ! j) = Holding \<and> j \<notin> taken_holds l"
        if "map_of (la_pending ?l) i = Some j" for i j
      proof -
        have "i \<noteq> ?i" "map_of (la_pending l) i = Some j" using that by (auto simp: map_of_del split: if_splits)
        then show ?thesis using local_inv_pending [OF inv, of i j] local_inv_ids [OF inv k] by (cases "j = k") auto
      qed
      show "hd_hold h < length (la_holds ?l) \<and> hold_taken (la_holds ?l ! hd_hold h) h" if "h \<in> set (la_handlers ?l)" for h
        using that local_inv_taken [OF inv, of h] untaken by (cases "hd_hold h = k") (auto simp: taken_holds_def)
      show "hold_free (map_of (la_pending ?l)) j (la_holds ?l ! j)" if "j < length (la_holds ?l)" "j \<notin> taken_holds l" for j
        using that local_inv_free [OF inv, of j] local_inv_ids [OF inv] k fr
        by (cases "j = k") (simp_all add: hold_free_def map_of_del)
    qed
    moreover have "hold_timeout lc k now l = ?l"
      using False fr by (simp add: hold_timeout_def Let_def update_hold_def hold_free_def)
    ultimately show ?thesis by simp
  qed
qed (use inv in \<open>simp add: hold_timeout_def\<close>)

lemma local_run_inv: "local_inv lc (local_run lc es)"
proof (induction es rule: rev_induct)
  case Nil
  show ?case by (simp add: local_run_def new_local_def local_inv_def taken_holds_def)
next
  case (snoc e es)
  then show ?case
    by (cases e) (simp_all add: local_step_def hold_call_inv handle_request_inv send_verdict_inv receive_verdict_inv hold_timeout_inv)
qed

text \<open>Where the verdicts come from.\<close>

definition requested :: "local_config \<Rightarrow> local_move list \<Rightarrow> local_handler \<Rightarrow> bool" where
  "requested lc es h \<longleftrightarrow>
     (\<exists>input now r. OperatorSends (Some (lc_uid lc)) input now \<in> set es \<and> read_request input = Some r
        \<and> lr_op r = ''decide'' \<and> lr_id r = hold_id (lc_base lc) (1 + int (hd_hold h))
        \<and> hd_verdict h = operator_verdict (lc_uid lc) (lr_approve r))"

lemma requested_later: "requested lc es h \<Longrightarrow> requested lc (es @ [e]) h"
  unfolding requested_def by (metis UnCI set_append)

lemma requested_same: "requested lc es (h\<lparr>hd_sent := b\<rparr>) = requested lc es h"
  by (simp add: requested_def)

lemma handlers_requested: "h \<in> set (la_handlers (local_run lc es)) \<Longrightarrow> requested lc es h"
proof (induction es arbitrary: h rule: rev_induct)
  case Nil
  then show ?case by (simp add: local_run_def new_local_def)
next
  case (snoc e es)
  let ?l = "local_run lc es"
  have old: "requested lc (es @ [e]) h'" if "h' \<in> set (la_handlers ?l)" for h'
    using requested_later [OF snoc.IH [OF that]] .
  show ?case
  proof (cases e)
    case (OperatorSends peer input now)
    then have "h \<in> set (la_handlers ?l) \<or> (\<exists>r k. peer = Some (lc_uid lc) \<and> read_request input = Some r \<and> lr_op r = ''decide''
        \<and> map_of (la_pending ?l) (lr_id r) = Some k
        \<and> h = \<lparr>hd_hold = k, hd_verdict = operator_verdict (lc_uid lc) (lr_approve r), hd_sent = False\<rparr>)"
      using snoc.prems by (auto simp: local_step_def handle_request_def say_def split: if_splits option.splits)
    then show ?thesis
    proof
      assume "\<exists>r k. peer = Some (lc_uid lc) \<and> read_request input = Some r \<and> lr_op r = ''decide''
        \<and> map_of (la_pending ?l) (lr_id r) = Some k
        \<and> h = \<lparr>hd_hold = k, hd_verdict = operator_verdict (lc_uid lc) (lr_approve r), hd_sent = False\<rparr>"
      then obtain r k where r: "peer = Some (lc_uid lc)" "read_request input = Some r" "lr_op r = ''decide''"
          "map_of (la_pending ?l) (lr_id r) = Some k"
          "h = \<lparr>hd_hold = k, hd_verdict = operator_verdict (lc_uid lc) (lr_approve r), hd_sent = False\<rparr>"
        by blast
      have "lr_id r = hold_id (lc_base lc) (1 + int k)" using local_inv_pending [OF local_run_inv r(4)] by simp
      then show ?thesis unfolding requested_def using r OperatorSends
        by (intro exI [of _ input] exI [of _ now] exI [of _ r]) simp
    qed (rule old)
  next
    case (VerdictSent j)
    then have "h \<in> set (la_handlers ?l) \<or> (j < length (la_handlers ?l) \<and> h = (la_handlers ?l ! j)\<lparr>hd_sent := True\<rparr>)"
      using snoc.prems by (auto simp: local_step_def send_verdict_def say_def update_hold_def Let_def
          split: if_splits dest!: set_update_subset_insert [THEN subsetD])
    then show ?thesis using old requested_same by (metis nth_mem)
  qed (use snoc.prems old in \<open>auto simp: local_step_def hold_call_def receive_verdict_def hold_timeout_def update_hold_def Let_def
      split: if_splits option.splits hold_point.splits\<close>)
qed

subsection \<open>Properties\<close>

definition hold_at :: "nat \<Rightarrow> local_approver \<Rightarrow> hold_point option" where
  "hold_at k l = (if k < length (la_holds l) then Some (lh_point (la_holds l ! k)) else None)"

lemma decided_cases:
  assumes "hold_at k (local_run lc es) = Some (Decided v)"
  obtains (timeout) "v = timeout_verdict" "k \<notin> taken_holds (local_run lc es)"
  | (taken) h where "h \<in> set (la_handlers (local_run lc es))" "hd_hold h = k" "hd_verdict h = v"
proof (cases "k \<in> taken_holds (local_run lc es)")
  case True
  then obtain h where h: "h \<in> set (la_handlers (local_run lc es))" "hd_hold h = k" by (auto simp: taken_holds_def)
  have "hd_verdict h = v"
    using local_inv_taken [OF local_run_inv h(1)] h(2) assms
    by (auto simp: hold_taken_def open_hold_def hold_at_def split: if_splits)
  with h show ?thesis by (rule taken)
next
  case False
  have "k < length (la_holds (local_run lc es))" using assms by (simp add: hold_at_def split: if_splits)
  from local_inv_free [OF local_run_inv this False] assms False show ?thesis
    by (intro timeout) (auto simp: hold_free_def hold_at_def split: if_splits)
qed

text \<open>
  Only the operator approves: a held call returns approval only if a peer with the user id of the proxy sent a
  decide command with exactly the id of this call and approve set, and the recorded actor is that user id; a request
  cannot name another.
\<close>

theorem local_approval_from_operator:
  assumes "hold_at k (local_run lc es) = Some (Decided v)" and "an_approved v"
  shows "v = operator_verdict (lc_uid lc) True
    \<and> (\<exists>input now r. OperatorSends (Some (lc_uid lc)) input now \<in> set es \<and> read_request input = Some r
         \<and> lr_op r = ''decide'' \<and> lr_approve r \<and> lr_id r = hold_id (lc_base lc) (1 + int k))"
  using assms(1)
proof (cases rule: decided_cases)
  case (taken h)
  from handlers_requested [OF taken(1)] show ?thesis
    using taken(2,3) assms(2) unfolding requested_def by (auto simp: operator_verdict_def answer_local_def)
qed (use assms(2) in \<open>simp add: timeout_verdict_def answer_local_def\<close>)

text \<open>
  C5. Agreement of operator and held call: at most one decision is taken for a call; a call whose decision was taken
  ends with that decision and never with the timeout, also when the timer fires in between; a call that ends
  without a decision ends with the timeout, not approved.
\<close>

theorem decision_and_timeout_agree:
  "distinct (map hd_hold (la_handlers (local_run lc es)))
   \<and> (case hold_at k (local_run lc es) of
        Some (Decided v) \<Rightarrow>
          if k \<in> taken_holds (local_run lc es)
          then \<forall>h\<in>set (la_handlers (local_run lc es)). hd_hold h = k \<longrightarrow> hd_verdict h = v
          else v = timeout_verdict
      | Some TimedOut \<Rightarrow> k \<in> taken_holds (local_run lc es)
      | _ \<Rightarrow> True)"
proof -
  let ?l = "local_run lc es"
  have d: "distinct (map hd_hold (la_handlers ?l))" using local_run_inv [of lc es] by (simp add: local_inv_def)
  have e: "hd_verdict h = v" if "hold_at k ?l = Some (Decided v)" "h \<in> set (la_handlers ?l)" "hd_hold h = k" for h v
    using local_inv_taken [OF local_run_inv that(2)] that(1,3)
    by (auto simp: hold_taken_def open_hold_def hold_at_def split: if_splits)
  have f: "v = timeout_verdict" if "hold_at k ?l = Some (Decided v)" "k \<notin> taken_holds ?l" for v
    using that(1)
  proof (cases rule: decided_cases)
    case (taken h)
    then show ?thesis using that(2) by (auto simp: taken_holds_def)
  qed
  have t: "k \<in> taken_holds ?l" if "hold_at k ?l = Some TimedOut"
    using local_inv_free [OF local_run_inv [of lc es], of k] that by (cases "k \<in> taken_holds ?l") (auto simp: hold_free_def hold_at_def split: if_splits)
  show ?thesis using d e f t by (auto split: option.split hold_point.split)
qed

text \<open>
  A decision that was taken is delivered: in every reachable state a handler that holds a verdict can send it
  without blocking, and once it is sent and received the call has returned exactly that verdict.
\<close>

theorem taken_decision_is_delivered:
  assumes "j < length (la_handlers (local_run lc es))"
  shows "hold_at (hd_hold (la_handlers (local_run lc es) ! j))
      (local_run lc (es @ [VerdictSent j, HoldReceives (hd_hold (la_handlers (local_run lc es) ! j))]))
    = Some (Decided (hd_verdict (la_handlers (local_run lc es) ! j)))"
proof -
  define l where "l = local_run lc es"
  let ?h = "la_handlers l ! j" and ?k = "hd_hold (la_handlers l ! j)"
  have j: "j < length (la_handlers l)" using assms by (simp add: l_def)
  have inv: "local_inv lc l" by (simp add: l_def local_run_inv)
  have h: "?k < length (la_holds l)" "hold_taken (la_holds l ! ?k) ?h" using local_inv_taken [OF inv, of ?h] j by auto
  let ?l1 = "send_verdict j l"
  have l1: "length (la_holds ?l1) = length (la_holds l)"
    "open_hold (la_holds ?l1 ! ?k) \<and> lh_chan (la_holds ?l1 ! ?k) = Some (hd_verdict ?h)
      \<or> lh_chan (la_holds ?l1 ! ?k) = None \<and> lh_point (la_holds ?l1 ! ?k) = Decided (hd_verdict ?h)"
    using h by (auto simp: send_verdict_def Let_def say_def update_hold_def hold_taken_def open_hold_def split: if_splits)
  have "lh_point (la_holds (receive_verdict ?k ?l1) ! ?k) = Decided (hd_verdict ?h)"
    using l1 h(1) by (auto simp: receive_verdict_def Let_def update_hold_def open_hold_def split: hold_point.split)
  moreover have "length (la_holds (receive_verdict ?k ?l1)) = length (la_holds l)"
    using l1(1) by (auto simp: receive_verdict_def Let_def update_hold_def split: hold_point.split option.split)
  moreover have "local_run lc (es @ [VerdictSent j, HoldReceives ?k]) = receive_verdict ?k ?l1"
    using j h(1) l1(1) by (simp add: local_run_def local_step_def l_def)
  ultimately show ?thesis using h(1) by (simp add: hold_at_def l_def)
qed

subsection \<open>Ids lead back to their socket\<close>

lemma hex_lower_digit: "k < 16 \<Longrightarrow> hex_lower_byte (hex_digit k)"
  by (auto simp: hex_lower_byte_def hex_digit_def is_digit_def Let_def)

lemma hex_encode_lower: "list_all hex_lower_byte (hex_encode s)" "length (hex_encode s) = 2 * length s"
proof -
  have e: "hex_encode [] = []" by simp
  show "list_all hex_lower_byte (hex_encode s)"
    by (induction s) (simp_all only: e hex_encode_Cons list.pred_inject append_Cons append_Nil hex_lower_digit nibbles)
  show "length (hex_encode s) = 2 * length s"
    by (induction s) (simp_all only: e hex_encode_Cons length_append, simp_all)
qed

lemma takeWhile_base: "list_all P s \<Longrightarrow> \<not> P c \<Longrightarrow> takeWhile P (s @ c # t) = s \<and> dropWhile P (s @ c # t) = c # t"
  by (induction s) auto

lemma digit_hyphen: "\<not> is_digit CHR ''-''"
  by (simp add: is_digit_def)

lemma sock_base_local: "length rnd = 8 \<Longrightarrow> sock_base (local_base pid rnd)"
  using takeWhile_base [OF show_nat_digits digit_hyphen, of pid "hex_encode rnd"] hex_encode_lower [of rnd]
  by (simp add: sock_base_def local_base_def)

lemma sock_base_no_slash:
  assumes "sock_base b"
  shows "CHR ''/'' \<notin> set b"
proof -
  obtain h where h: "dropWhile is_digit b = CHR ''-'' # h" "list_all hex_lower_byte h"
    using assms by (auto simp: sock_base_def split: list.splits)
  have slash: "\<not> hex_lower_byte CHR ''/''" "\<not> is_digit CHR ''/''"
    by (simp_all add: hex_lower_byte_def is_digit_def)
  have "CHR ''/'' \<notin> set (takeWhile is_digit b)" using set_takeWhileD slash(2) by fast
  moreover have "CHR ''/'' \<notin> set (CHR ''-'' # h)" using h(2) slash(1) by (auto simp: list_all_iff)
  moreover have "set b = set (takeWhile is_digit b) \<union> set (CHR ''-'' # h)"
    using h(1) by (metis set_append takeWhile_dropWhile_id)
  ultimately show ?thesis by blast
qed

lemma before_last_hyphen_append: "CHR ''-'' \<notin> set t \<Longrightarrow> before_last_hyphen (s @ CHR ''-'' # t) = Some s"
proof -
  assume t: "CHR ''-'' \<notin> set t"
  have "dropWhile (\<lambda>c. c \<noteq> CHR ''-'') (rev t @ CHR ''-'' # rev s) = CHR ''-'' # rev s"
    using t by (subst dropWhile_append2) auto
  then show ?thesis by (simp add: before_last_hyphen_def)
qed

lemma show_nat_hyphen: "CHR ''-'' \<notin> set (show_nat n)"
  using show_nat_digits [of n] digit_hyphen by (auto simp: list_all_iff)

text \<open>
  Round trip of ids: the id that a listing shows for a held call leads the decide command to the socket of the
  approver that holds it; and whatever id is given, the socket name has no path separator.
\<close>

theorem hold_ids_name_their_socket:
  "(length rnd = 8 \<longrightarrow> decide_socket (hold_id (local_base pid rnd) (1 + int k)) = Some (local_base pid rnd @ ''.sock''))
   \<and> (\<forall>i s. decide_socket i = Some s \<longrightarrow> CHR ''/'' \<notin> set s)"
proof -
  have "CHR ''-'' \<notin> set (show_int (1 + int k))" using show_nat_hyphen by (simp add: show_int_def)
  then have "length rnd = 8 \<longrightarrow> decide_socket (hold_id (local_base pid rnd) (1 + int k)) = Some (local_base pid rnd @ ''.sock'')"
    using before_last_hyphen_append [of "show_int (1 + int k)" "local_base pid rnd"] sock_base_local
    by (simp add: decide_socket_def hold_id_def)
  moreover have "\<forall>i s. decide_socket i = Some s \<longrightarrow> CHR ''/'' \<notin> set s"
    using sock_base_no_slash by (auto simp: decide_socket_def split: option.splits if_splits)
  ultimately show ?thesis by blast
qed

definition demo_decide :: json where
  "demo_decide = JObj [(''op'', JStr ''decide''), (''id'', JStr ''b-1''), (''approve'', JBool True)]"

lemma demo_decide_length: "length (json_print demo_decide) \<le> 4096"
  by code_simp

lemma demo_decide_read:
  "read_request (json_print demo_decide) = Some \<lparr>lr_op = ''decide'', lr_id = ''b-1'', lr_approve = True\<rparr>"
proof -
  have "json_decode_first (json_print demo_decide) = Some demo_decide"
    by (rule decode_first_roundtrip) (simp_all add: demo_decide_def coerce_utf8_ascii max_nesting_def)
  then show ?thesis using demo_decide_length
    by (simp add: read_request_def demo_decide_def put_request_member_def field_among_def)
qed

lemma demo_hold_id: "hold_id ''b'' 1 = ''b-1''"
  by code_simp

definition demo_local :: local_config where
  "demo_local = \<lparr>lc_uid = 501, lc_base = ''b'', lc_timeout = 60\<rparr>"

definition demo_held_call :: approval_request where
  "demo_held_call = \<lparr>ap_agent = ''a'', ap_tool = ''pay'', ap_params = JNull, ap_reason = ''r''\<rparr>"

text \<open>The timer fires between the decision and its arrival.\<close>

definition demo_race :: "local_move list" where
  "demo_race =
     [HoldBegins demo_held_call 0, OperatorSends (Some 501) (json_print demo_decide) 5, HoldTimer 0 60]"

lemmas local_eval =
  local_run_def new_local_def local_step_def hold_call_def handle_request_def hold_timeout_def send_verdict_def
  receive_verdict_def say_def update_hold_def hold_at_def demo_race_def demo_local_def demo_held_call_def demo_hold_id
  demo_decide_read del_def Let_def

theorem taken_decision_is_delivered_witness:
  "hold_at 0 (local_run demo_local demo_race) = Some TimedOut
   \<and> hold_at 0 (local_run demo_local (demo_race @ [VerdictSent 0, HoldReceives 0])) = Some (Decided (operator_verdict 501 True))"
proof -
  have "la_handlers (local_run demo_local demo_race) = [\<lparr>hd_hold = 0, hd_verdict = operator_verdict 501 True, hd_sent = False\<rparr>]"
    by (simp add: local_eval)
  with taken_decision_is_delivered [of 0 demo_local demo_race]
  have "hold_at 0 (local_run demo_local (demo_race @ [VerdictSent 0, HoldReceives 0])) = Some (Decided (operator_verdict 501 True))"
    by simp
  moreover have "hold_at 0 (local_run demo_local demo_race) = Some TimedOut" by (simp add: local_eval)
  ultimately show ?thesis by blast
qed

theorem local_approval_from_operator_witness:
  "\<exists>input now r. OperatorSends (Some 501) input now \<in> set (demo_race @ [VerdictSent 0, HoldReceives 0])
     \<and> read_request input = Some r \<and> lr_approve r \<and> lr_id r = ''b-1''"
proof -
  have "hold_at 0 (local_run demo_local (demo_race @ [VerdictSent 0, HoldReceives 0])) = Some (Decided (operator_verdict 501 True))"
    by (simp add: local_eval)
  from local_approval_from_operator [OF this]
  show ?thesis by (simp add: operator_verdict_def answer_local_def demo_local_def demo_hold_id) blast
qed

theorem decision_and_timeout_agree_witness:
  "hold_at 0 (local_run demo_local [HoldBegins demo_held_call 0, HoldTimer 0 60]) = Some (Decided timeout_verdict)
   \<and> distinct (map hd_hold (la_handlers (local_run demo_local demo_race)))"
  using decision_and_timeout_agree [of demo_local demo_race 0] by (simp add: local_eval)

theorem hold_ids_name_their_socket_witness:
  "decide_socket (hold_id (local_base 7 (replicate 8 CHR ''a'')) 3) = Some (local_base 7 (replicate 8 CHR ''a'') @ ''.sock'')"
  using hold_ids_name_their_socket [of "replicate 8 CHR ''a''" 7 2] by simp

end
