(* ===== verification/Pool.thy ===== *)
theory Pool
  imports Float64 Json
begin

text \<open>
  The pool of subscription accounts, \<^verbatim>\<open>internal/pool\<close>: the check of its configuration
  (\<^verbatim>\<open>config.go\<close>), the router (\<^verbatim>\<open>router.go\<close>) and the budget
  (\<^verbatim>\<open>budget.go\<close>). Every method runs under the router's mutex, so it is one step. Costs and
  headroom are float64 values that may be infinite or NaN, since YAML can write both. Times are
  nanoseconds; the zero time of a missing map entry is a missing entry. Decoding YAML is not modelled.
\<close>

subsection \<open>float64 with its special values\<close>

datatype f64 = Fin rat | PosInf | NegInf | NaN

definition f_round :: "rat \<Rightarrow> f64" where
  "f_round x = (let r = fl x in if r \<ge> 2 ^ 1024 then PosInf else if r \<le> - (2 ^ 1024) then NegInf else Fin r)"

fun f_add :: "f64 \<Rightarrow> f64 \<Rightarrow> f64" where
  "f_add NaN _ = NaN"
| "f_add _ NaN = NaN"
| "f_add PosInf NegInf = NaN"
| "f_add NegInf PosInf = NaN"
| "f_add PosInf _ = PosInf"
| "f_add NegInf _ = NegInf"
| "f_add _ PosInf = PosInf"
| "f_add _ NegInf = NegInf"
| "f_add (Fin x) (Fin y) = f_round (x + y)"

fun f_less :: "f64 \<Rightarrow> f64 \<Rightarrow> bool" where
  "f_less NaN _ \<longleftrightarrow> False"
| "f_less _ NaN \<longleftrightarrow> False"
| "f_less (Fin x) (Fin y) \<longleftrightarrow> x < y"
| "f_less NegInf y \<longleftrightarrow> y \<noteq> NegInf"
| "f_less x PosInf \<longleftrightarrow> x \<noteq> PosInf"
| "f_less _ _ \<longleftrightarrow> False"

definition f_eq :: "f64 \<Rightarrow> f64 \<Rightarrow> bool" where
  "f_eq x y \<longleftrightarrow> x = y \<and> x \<noteq> NaN"

definition f_le :: "f64 \<Rightarrow> f64 \<Rightarrow> bool" where
  "f_le x y \<longleftrightarrow> f_less x y \<or> f_eq x y"

text \<open>The verb \<open>%.2f\<close>: the exact value rounded to two decimals, ties to even.\<close>

fun fmt2 :: "f64 \<Rightarrow> bytes" where
  "fmt2 NaN = ''NaN''"
| "fmt2 PosInf = ''+Inf''"
| "fmt2 NegInf = ''-Inf''"
| "fmt2 (Fin x) =
     (let n = nat (round_even (\<bar>x\<bar> * 100)) in
      (if x < 0 then ''-'' else []) @ show_nat (n div 100) @ CHR ''.'' # show_nat (n div 10 mod 10) @ show_nat (n mod 10))"

subsection \<open>Paths\<close>

text \<open>\<open>filepath.Clean\<close> and \<open>filepath.Join\<close> of two elements.\<close>

fun clean_parts :: "bool \<Rightarrow> bytes list \<Rightarrow> bytes list \<Rightarrow> bytes list" where
  "clean_parts rooted [] out = rev out"
| "clean_parts rooted (c # cs) out =
     (if c = [] \<or> c = ''.'' then clean_parts rooted cs out
      else if c = ''..'' then
        (case out of
           d # ds \<Rightarrow> if d = ''..'' then clean_parts rooted cs (''..'' # out) else clean_parts rooted cs ds
         | [] \<Rightarrow> if rooted then clean_parts rooted cs [] else clean_parts rooted cs [''..''])
      else clean_parts rooted cs (c # out))"

fun join_with :: "char \<Rightarrow> bytes list \<Rightarrow> bytes" where
  "join_with d [] = []"
| "join_with d [s] = s"
| "join_with d (s # ss) = s @ d # join_with d ss"

definition path_clean :: "bytes \<Rightarrow> bytes" where
  "path_clean p =
     (let rooted = has_prefix p ''/''; parts = clean_parts rooted (split_on CHR ''/'' p) [] in
      if rooted then CHR ''/'' # join_with CHR ''/'' parts
      else if parts = [] then ''.'' else join_with CHR ''/'' parts)"

definition path_join :: "bytes \<Rightarrow> bytes \<Rightarrow> bytes" where
  "path_join a b = (if a \<noteq> [] then path_clean (a @ CHR ''/'' # b) else if b \<noteq> [] then path_clean b else [])"

subsection \<open>Configuration\<close>

record upstream_config =
  up_label :: bytes
  up_provider :: bytes
  up_home :: bytes
  up_tier :: bytes
  up_cost :: f64

record pool_config =
  pl_listen :: bytes
  pl_allow_non_local :: bool
  pl_upstreams :: "upstream_config list"
  pl_strategy :: bytes
  pl_cooldown_seconds :: int
  pl_max_cost :: f64
  pl_thresholds :: "f64 list"

definition valid_tier :: "bytes \<Rightarrow> bool" where
  "valid_tier t \<longleftrightarrow> t \<in> {[], ''cheap'', ''standard'', ''expensive''}"

definition effective_tier :: "upstream_config \<Rightarrow> bytes" where
  "effective_tier u = (if up_tier u = [] then ''expensive'' else up_tier u)"

definition budget_enabled :: "pool_config \<Rightarrow> bool" where
  "budget_enabled p \<longleftrightarrow> f_less (Fin 0) (pl_max_cost p)"

definition cooldown_of :: "pool_config \<Rightarrow> int" where
  "cooldown_of p =
     (if pl_cooldown_seconds p \<le> 0 then 60 * 10 ^ 9 else wrap64 (pl_cooldown_seconds p * 10 ^ 9))"

text \<open>\<open>home\<close> is the answer of \<open>os.UserHomeDir\<close>.\<close>

definition expand_home :: "bytes option \<Rightarrow> bytes \<Rightarrow> bytes option" where
  "expand_home home p =
     (if p = ''~'' \<or> has_prefix p ''~/''
      then map_option (\<lambda>h. path_join h (trim_prefix (trim_prefix p ''~'') ''/'')) home
      else Some p)"

definition auth_json_path :: "bytes option \<Rightarrow> upstream_config \<Rightarrow> bytes option" where
  "auth_json_path home u = map_option (\<lambda>h. path_join h ''auth.json'') (expand_home home (up_home u))"

text \<open>The host is what precedes the last colon.\<close>

definition listen_host :: "bytes \<Rightarrow> bytes" where
  "listen_host addr =
     (case dropWhile (\<lambda>c. c \<noteq> CHR '':'') (rev addr) of [] \<Rightarrow> addr | c # r \<Rightarrow> rev r)"

definition is_loopback :: "bytes \<Rightarrow> bool" where
  "is_loopback addr \<longleftrightarrow>
     listen_host addr \<in> {''127.0.0.1'', ''::1'', ''[::1]'', ''localhost''} \<or> has_prefix (listen_host addr) ''127.''"

datatype pool_error =
    NoListen | NotLoopback bytes | NoUpstream | NoLabel nat | ReservedProvider nat | UnknownProvider nat bytes
  | NoHome nat | UnknownTier nat bytes | NegativeCost nat | DuplicateLabel bytes | BadHome nat | DuplicateHome bytes
  | UnknownStrategy bytes | NegativeMax | NegativeThreshold nat

text \<open>One turn of the loop over the upstreams, up to the two entries it makes.\<close>

definition check_upstream :: "bytes option \<Rightarrow> nat \<Rightarrow> upstream_config \<Rightarrow> bytes list \<Rightarrow> bytes list \<Rightarrow> pool_error + bytes" where
  "check_upstream home i u labels homes =
     (if up_label u = [] then Inl (NoLabel i)
      else if up_provider u = ''claude'' then Inl (ReservedProvider i)
      else if up_provider u \<noteq> [] \<and> up_provider u \<noteq> ''codex'' then Inl (UnknownProvider i (up_provider u))
      else if up_home u = [] then Inl (NoHome i)
      else if \<not> valid_tier (up_tier u) then Inl (UnknownTier i (up_tier u))
      else if f_less (up_cost u) (Fin 0) then Inl (NegativeCost i)
      else if up_label u \<in> set labels then Inl (DuplicateLabel (up_label u))
      else (case expand_home home (up_home u) of
          None \<Rightarrow> Inl (BadHome i)
        | Some h \<Rightarrow> if h \<in> set homes then Inl (DuplicateHome (up_home u)) else Inr h))"

fun check_upstreams :: "bytes option \<Rightarrow> nat \<Rightarrow> upstream_config list \<Rightarrow> bytes list \<Rightarrow> bytes list \<Rightarrow> pool_error option" where
  "check_upstreams home i [] labels homes = None"
| "check_upstreams home i (u # us) labels homes =
     (case check_upstream home i u labels homes of
        Inl e \<Rightarrow> Some e
      | Inr h \<Rightarrow> check_upstreams home (Suc i) us (up_label u # labels) (h # homes))"

fun check_thresholds :: "nat \<Rightarrow> f64 list \<Rightarrow> pool_error option" where
  "check_thresholds i [] = None"
| "check_thresholds i (t # ts) = (if f_less t (Fin 0) then Some (NegativeThreshold i) else check_thresholds (Suc i) ts)"

definition pool_validate :: "bytes option \<Rightarrow> pool_config \<Rightarrow> pool_error option" where
  "pool_validate home p =
     (if pl_listen p = [] then Some NoListen
      else if \<not> pl_allow_non_local p \<and> \<not> is_loopback (pl_listen p) then Some (NotLoopback (pl_listen p))
      else if pl_upstreams p = [] then Some NoUpstream
      else (case check_upstreams home 0 (pl_upstreams p) [] [] of
          Some e \<Rightarrow> Some e
        | None \<Rightarrow>
            if pl_strategy p \<noteq> [] \<and> pl_strategy p \<noteq> ''headroom'' then Some (UnknownStrategy (pl_strategy p))
            else if f_less (pl_max_cost p) (Fin 0) then Some NegativeMax
            else check_thresholds 0 (pl_thresholds p)))"

definition pool_normalize :: "pool_config \<Rightarrow> pool_config" where
  "pool_normalize p =
     p\<lparr>pl_strategy := (if pl_strategy p = [] then ''headroom'' else pl_strategy p),
       pl_upstreams := map (\<lambda>u. if up_provider u = [] then u\<lparr>up_provider := ''codex''\<rparr> else u) (pl_upstreams p)\<rparr>"

subsection \<open>The router\<close>

record budget_state =
  bg_max :: f64
  bg_thresholds :: "f64 list"
  bg_upstreams :: "(bytes \<times> (bytes \<times> f64)) list"
  bg_spend :: "(bytes \<times> f64) list"
  bg_asked :: "(bytes \<times> f64 list) list"

record router =
  rt_upstreams :: "bytes list"
  rt_sessions :: "(bytes \<times> bytes) list"
  rt_headroom :: "(bytes \<times> f64) list"
  rt_cool :: "(bytes \<times> int) list"
  rt_cooldown :: int
  rt_budget :: "budget_state option"

definition new_router :: "bytes list \<Rightarrow> int \<Rightarrow> router" where
  "new_router labels cooldown =
     \<lparr>rt_upstreams = labels, rt_sessions = [], rt_headroom = [], rt_cool = [], rt_cooldown = cooldown, rt_budget = None\<rparr>"

definition new_budget :: "pool_config \<Rightarrow> budget_state option" where
  "new_budget p =
     (if \<not> budget_enabled p then None
      else Some \<lparr>bg_max = pl_max_cost p, bg_thresholds = pl_thresholds p,
        bg_upstreams = collect (map (\<lambda>u. (up_label u, (effective_tier u, up_cost u))) (pl_upstreams p)),
        bg_spend = [], bg_asked = []\<rparr>)"

definition router_of :: "pool_config \<Rightarrow> router" where
  "router_of p = (new_router (map up_label (pl_upstreams p)) (cooldown_of p))\<lparr>rt_budget := new_budget p\<rparr>"

definition cooling :: "router \<Rightarrow> int \<Rightarrow> bytes \<Rightarrow> bool" where
  "cooling r now l \<longleftrightarrow> (case map_of (rt_cool r) l of None \<Rightarrow> False | Some t \<Rightarrow> now < t)"

definition headroom_of :: "router \<Rightarrow> bytes \<Rightarrow> f64" where
  "headroom_of r l = (case map_of (rt_headroom r) l of None \<Rightarrow> Fin 1 | Some h \<Rightarrow> h)"

text \<open>The headroom pass of \<open>Route\<close>: best label so far (empty for none), its headroom, whether one was skipped.\<close>

fun route_pass :: "router \<Rightarrow> int \<Rightarrow> bytes list \<Rightarrow> bytes \<times> f64 \<times> bool \<Rightarrow> bytes \<times> f64 \<times> bool" where
  "route_pass r now [] s = s"
| "route_pass r now (l # ls) (best, best_h, cooled) =
     (if cooling r now l then route_pass r now ls (best, best_h, True)
      else if best = [] \<or> f_less best_h (headroom_of r l) then route_pass r now ls (l, headroom_of r l, cooled)
      else route_pass r now ls (best, best_h, cooled))"

datatype routed = Routed bytes bytes | Exhausted bytes

definition route_end :: "bytes \<times> f64 \<times> bool \<Rightarrow> routed" where
  "route_end s =
     (case s of (best, _, cooled) \<Rightarrow>
        if best = [] then Exhausted ''all-upstreams-exhausted''
        else if cooled then Routed best (''cooldown-skip '' @ best)
        else Routed best (''max-headroom '' @ best))"

definition route :: "router \<Rightarrow> bytes \<Rightarrow> int \<Rightarrow> routed" where
  "route r session now =
     (case (if session = [] then None else map_of (rt_sessions r) session) of
        Some l \<Rightarrow> Routed l (''sticky-session '' @ l)
      | None \<Rightarrow> route_end (route_pass r now (rt_upstreams r) ([], Fin (- 1), False)))"

definition pin :: "bytes \<Rightarrow> bytes \<Rightarrow> router \<Rightarrow> router" where
  "pin session l r = r\<lparr>rt_sessions := put session l (rt_sessions r)\<rparr>"

definition unpin :: "bytes \<Rightarrow> router \<Rightarrow> router" where
  "unpin session r = r\<lparr>rt_sessions := del session (rt_sessions r)\<rparr>"

definition record_headroom :: "bytes \<Rightarrow> f64 \<Rightarrow> router \<Rightarrow> router" where
  "record_headroom l h r = r\<lparr>rt_headroom := put l h (rt_headroom r)\<rparr>"

definition record_failure :: "bytes \<Rightarrow> int \<Rightarrow> router \<Rightarrow> router" where
  "record_failure l now r = r\<lparr>rt_cool := put l (now + rt_cooldown r) (rt_cool r)\<rparr>"

record upstream_status =
  us_label :: bytes
  us_headroom :: "f64 option"
  us_cooldown :: "int option"

definition router_status :: "router \<Rightarrow> int \<Rightarrow> upstream_status list" where
  "router_status r now =
     map (\<lambda>l. \<lparr>us_label = l, us_headroom = map_of (rt_headroom r) l,
       us_cooldown = (if cooling r now l then map_option (\<lambda>t. t - now) (map_of (rt_cool r) l) else None)\<rparr>) (rt_upstreams r)"

subsection \<open>Routing with a budget\<close>

text \<open>The pass with a filter; \<open>None\<close> is the nil filter.\<close>

fun candidates_pass :: "router \<Rightarrow> int \<Rightarrow> (bytes \<Rightarrow> bool) option \<Rightarrow> bytes list \<Rightarrow> bytes \<times> f64 \<times> bool \<Rightarrow> bytes \<times> f64 \<times> bool" where
  "candidates_pass r now allow_only [] s = s"
| "candidates_pass r now allow_only (l # ls) (best, best_h, cooled) =
     (if (case allow_only of None \<Rightarrow> False | Some f \<Rightarrow> \<not> f l) then candidates_pass r now allow_only ls (best, best_h, cooled)
      else if cooling r now l then candidates_pass r now allow_only ls (best, best_h, True)
      else if best = [] \<or> f_less best_h (headroom_of r l)
      then candidates_pass r now allow_only ls (l, headroom_of r l, cooled)
      else candidates_pass r now allow_only ls (best, best_h, cooled))"

definition route_candidates :: "router \<Rightarrow> bytes \<Rightarrow> int \<Rightarrow> (bytes \<Rightarrow> bool) option \<Rightarrow> routed" where
  "route_candidates r session now allow_only =
     (case (if session = [] then None else map_of (rt_sessions r) session) of
        Some l \<Rightarrow>
          if (case allow_only of None \<Rightarrow> True | Some f \<Rightarrow> f l) then Routed l (''sticky-session '' @ l)
          else route_end (candidates_pass r now allow_only (rt_upstreams r) ([], Fin (- 1), False))
      | None \<Rightarrow> route_end (candidates_pass r now allow_only (rt_upstreams r) ([], Fin (- 1), False)))"

definition budget_root :: "bytes \<Rightarrow> bytes \<Rightarrow> bytes" where
  "budget_root tree session = (if tree \<noteq> [] then tree else if session \<noteq> [] then session else ''default'')"

definition spend_of :: "budget_state \<Rightarrow> bytes \<Rightarrow> f64" where
  "spend_of b tree = (case map_of (bg_spend b) tree of None \<Rightarrow> Fin 0 | Some s \<Rightarrow> s)"

definition cheap_only :: "budget_state \<Rightarrow> bytes \<Rightarrow> bool" where
  "cheap_only b l \<longleftrightarrow> (case map_of (bg_upstreams b) l of None \<Rightarrow> False | Some (tr, _) \<Rightarrow> tr = ''cheap'')"

definition cost_of :: "budget_state \<Rightarrow> bytes \<Rightarrow> f64" where
  "cost_of b l = (case map_of (bg_upstreams b) l of None \<Rightarrow> Fin 0 | Some (_, c) \<Rightarrow> c)"

text \<open>\<open>routeLocked\<close>: the route, and whether it is a downgrade.\<close>

definition route_locked :: "budget_state \<Rightarrow> router \<Rightarrow> bytes \<Rightarrow> bytes \<Rightarrow> int \<Rightarrow> routed \<times> bool" where
  "route_locked b r session tree now =
     (if \<not> f_le (bg_max b) (spend_of b (budget_root tree session)) then (route_candidates r session now None, False)
      else (case route_candidates r [] now (Some (cheap_only b)) of
          Exhausted _ \<Rightarrow> (Exhausted ''budget-no-cheap-upstreams'', False)
        | Routed l _ \<Rightarrow> (Routed l (''budget-downgrade '' @ l), True)))"

fun new_asks :: "bytes \<Rightarrow> f64 \<Rightarrow> f64 \<Rightarrow> f64 list \<Rightarrow> (bytes \<times> f64 list) list \<Rightarrow> f64 list \<times> (bytes \<times> f64 list) list" where
  "new_asks tree before after [] asked = ([], asked)"
| "new_asks tree before after (t # ts) asked =
     (if f_le t before \<or> f_less after t then new_asks tree before after ts asked
      else
        let seen = (case map_of asked tree of None \<Rightarrow> [] | Some l \<Rightarrow> l) in
        if list_ex (f_eq t) seen then new_asks tree before after ts (put tree seen asked)
        else
          let (out, asked') = new_asks tree before after ts (put tree (t # seen) asked) in (t # out, asked'))"

record pool_event =
  be_agent :: bytes
  be_decision :: bytes
  be_reason :: bytes

record route_result =
  rr_routed :: routed
  rr_downgraded :: bool
  rr_asks :: "f64 list"

definition budget_event :: "bytes \<Rightarrow> bytes \<Rightarrow> bytes \<Rightarrow> pool_event" where
  "budget_event agent decision why =
     \<lparr>be_agent = (if agent = [] then ''pool'' else agent), be_decision = decision, be_reason = why\<rparr>"

definition budget_events ::
  "budget_state \<Rightarrow> bytes \<Rightarrow> bytes \<Rightarrow> bytes \<Rightarrow> f64 \<Rightarrow> f64 \<Rightarrow> f64 list \<Rightarrow> bool \<Rightarrow> pool_event list" where
  "budget_events b agent k l before after asks down =
     map (\<lambda>t. budget_event agent ''budget-ask''
       (''rootSessionID='' @ k @ '' threshold='' @ fmt2 t @ '' spend='' @ fmt2 after)) asks
     @ (if down then [budget_event agent ''downgrade''
         (''rootSessionID='' @ k @ '' spend='' @ fmt2 before @ '' cap='' @ fmt2 (bg_max b) @ '' upstream='' @ l)] else [])"

definition route_with_budget ::
  "bytes \<Rightarrow> bytes \<Rightarrow> bytes \<Rightarrow> int \<Rightarrow> router \<Rightarrow> (route_result \<times> pool_event list) \<times> router" where
  "route_with_budget session tree agent now r =
     (case rt_budget r of
        None \<Rightarrow> ((\<lparr>rr_routed = route r session now, rr_downgraded = False, rr_asks = []\<rparr>, []), r)
      | Some b \<Rightarrow>
          if f_le (bg_max b) (Fin 0) then ((\<lparr>rr_routed = route r session now, rr_downgraded = False, rr_asks = []\<rparr>, []), r)
          else (case route_locked b r session tree now of
              (Exhausted why, _) \<Rightarrow> ((\<lparr>rr_routed = Exhausted why, rr_downgraded = False, rr_asks = []\<rparr>, []), r)
            | (Routed l why, down) \<Rightarrow>
                let k = budget_root tree session; before = spend_of b k; after = f_add before (cost_of b l);
                    (asks, asked) = new_asks k before after (bg_thresholds b) (bg_asked b) in
                ((\<lparr>rr_routed = Routed l why, rr_downgraded = down, rr_asks = asks\<rparr>,
                  budget_events b agent k l before after asks down),
                 r\<lparr>rt_budget := Some (b\<lparr>bg_spend := put k after (bg_spend b), bg_asked := asked\<rparr>)\<rparr>)))"

definition record_spend :: "bytes \<Rightarrow> f64 \<Rightarrow> router \<Rightarrow> router" where
  "record_spend tree cost r =
     (case rt_budget r of
        None \<Rightarrow> r
      | Some b \<Rightarrow>
          if f_le cost (Fin 0) then r
          else let k = budget_root tree [] in
            r\<lparr>rt_budget := Some (b\<lparr>bg_spend := put k (f_add (spend_of b k) cost) (bg_spend b)\<rparr>)\<rparr>)"

definition spend_usd :: "bytes \<Rightarrow> router \<Rightarrow> f64" where
  "spend_usd tree r = (case rt_budget r of None \<Rightarrow> Fin 0 | Some b \<Rightarrow> spend_of b (budget_root tree []))"

subsection \<open>What validation promises\<close>

definition upstream_valid :: "bytes option \<Rightarrow> upstream_config \<Rightarrow> bool" where
  "upstream_valid home u \<longleftrightarrow>
     up_label u \<noteq> [] \<and> up_provider u \<in> {[], ''codex''} \<and> up_home u \<noteq> [] \<and> valid_tier (up_tier u)
     \<and> \<not> f_less (up_cost u) (Fin 0) \<and> expand_home home (up_home u) \<noteq> None"

text \<open>The documented contract of a configuration, without an order of checks.\<close>

definition pool_valid :: "bytes option \<Rightarrow> pool_config \<Rightarrow> bool" where
  "pool_valid home p \<longleftrightarrow>
     pl_listen p \<noteq> [] \<and> (pl_allow_non_local p \<or> is_loopback (pl_listen p)) \<and> pl_upstreams p \<noteq> []
     \<and> list_all (upstream_valid home) (pl_upstreams p)
     \<and> distinct (map up_label (pl_upstreams p))
     \<and> distinct (map (\<lambda>u. expand_home home (up_home u)) (pl_upstreams p))
     \<and> pl_strategy p \<in> {[], ''headroom''} \<and> \<not> f_less (pl_max_cost p) (Fin 0)
     \<and> list_all (\<lambda>t. \<not> f_less t (Fin 0)) (pl_thresholds p)"

lemma check_upstream_Inr:
  "check_upstream home i u labels homes = Inr h \<longleftrightarrow>
     upstream_valid home u \<and> up_label u \<notin> set labels \<and> expand_home home (up_home u) = Some h \<and> h \<notin> set homes"
  by (auto simp: check_upstream_def upstream_valid_def split: option.splits)

lemma check_upstream_Inl:
  "check_upstream home i u labels homes = Inl e \<Longrightarrow>
     \<not> (upstream_valid home u \<and> up_label u \<notin> set labels \<and> (\<forall>h. expand_home home (up_home u) = Some h \<longrightarrow> h \<notin> set homes))"
  by (auto simp: check_upstream_def upstream_valid_def split: option.splits if_splits)

lemma check_upstreams_None:
  "check_upstreams home i us labels homes = None \<longleftrightarrow>
     list_all (upstream_valid home) us
     \<and> distinct (map up_label us) \<and> set (map up_label us) \<inter> set labels = {}
     \<and> distinct (map (\<lambda>u. expand_home home (up_home u)) us)
     \<and> set (map (\<lambda>u. expand_home home (up_home u)) us) \<inter> Some ` set homes = {}"
proof (induction home i us labels homes rule: check_upstreams.induct)
  case (2 home i u us labels homes)
  show ?case
  proof (cases "check_upstream home i u labels homes")
    case (Inl e)
    then show ?thesis using check_upstream_Inl [OF Inl] by (auto simp: image_iff)
  next
    case (Inr h)
    then show ?thesis using 2 [OF Inr] check_upstream_Inr [of home i u labels homes h] by auto
  qed
qed simp

lemma check_thresholds_None: "check_thresholds i ts = None \<longleftrightarrow> list_all (\<lambda>t. \<not> f_less t (Fin 0)) ts"
  by (induction i ts rule: check_thresholds.induct) auto

text \<open>
  Validate accepts a configuration exactly when it meets the contract: a loopback listener unless the operator
  allowed another, upstreams with distinct labels and distinct homes, known tiers and providers, nothing negative.
\<close>

theorem pool_validate_iff: "pool_validate home p = None \<longleftrightarrow> pool_valid home p"
proof -
  let ?A = "list_all (upstream_valid home) (pl_upstreams p) \<and> distinct (map up_label (pl_upstreams p))
    \<and> distinct (map (\<lambda>u. expand_home home (up_home u)) (pl_upstreams p))"
  have c: "check_upstreams home 0 (pl_upstreams p) [] [] = None \<longleftrightarrow> ?A"
    using check_upstreams_None [of home 0 "pl_upstreams p" "[]" "[]"] by simp
  show ?thesis
  proof (cases "check_upstreams home 0 (pl_upstreams p) [] []")
    case None
    then have ?A using c by simp
    then show ?thesis using None by (simp add: pool_validate_def pool_valid_def check_thresholds_None)
  next
    case (Some e)
    then have "\<not> ?A" using c by simp
    then have "\<not> pool_valid home p" unfolding pool_valid_def by blast
    moreover have "pool_validate home p \<noteq> None" using Some by (simp add: pool_validate_def)
    ultimately show ?thesis by simp
  qed
qed

subsection \<open>Maximum headroom\<close>

definition no_nan :: "router \<Rightarrow> bool" where
  "no_nan r \<longleftrightarrow> (\<forall>(l, h)\<in>set (rt_headroom r). h \<noteq> NaN)"

lemma headroom_not_nan: "no_nan r \<Longrightarrow> headroom_of r l \<noteq> NaN"
  by (auto simp: no_nan_def headroom_of_def dest: map_of_SomeD split: option.split)

lemma f_less_trans: "f_less x y \<Longrightarrow> f_less y z \<Longrightarrow> f_less x z"
  by (cases x; cases y; cases z) auto

lemma f_less_irrefl [simp]: "\<not> f_less x x"
  by (cases x) auto

lemma f_less_total: "x \<noteq> NaN \<Longrightarrow> y \<noteq> NaN \<Longrightarrow> f_less x y \<or> x = y \<or> f_less y x"
  by (cases x; cases y) auto

text \<open>\<open>l\<close> is the first of the labels with the largest headroom.\<close>

definition first_best :: "router \<Rightarrow> bytes list \<Rightarrow> bytes \<Rightarrow> bool" where
  "first_best r ls l \<longleftrightarrow>
     (\<exists>pre post. ls = pre @ l # post \<and> (\<forall>x\<in>set pre. f_less (headroom_of r x) (headroom_of r l))
        \<and> (\<forall>x\<in>set post. \<not> f_less (headroom_of r l) (headroom_of r x)))"

lemma first_best_snoc:
  assumes "no_nan r" and "first_best r ls l"
  shows "first_best r (ls @ [x]) (if f_less (headroom_of r l) (headroom_of r x) then x else l)"
proof -
  obtain pre post where s: "ls = pre @ l # post" "\<forall>x\<in>set pre. f_less (headroom_of r x) (headroom_of r l)"
      "\<forall>x\<in>set post. \<not> f_less (headroom_of r l) (headroom_of r x)"
    using assms(2) unfolding first_best_def by blast
  show ?thesis
  proof (cases "f_less (headroom_of r l) (headroom_of r x)")
    case True
    have "f_less (headroom_of r y) (headroom_of r x)" if y: "y \<in> set ls" for y
    proof -
      have "f_less (headroom_of r y) (headroom_of r l) \<or> headroom_of r y = headroom_of r l"
        using y s f_less_total [OF headroom_not_nan [OF assms(1)] headroom_not_nan [OF assms(1)], of y l] by auto
      then show ?thesis using True f_less_trans by metis
    qed
    then show ?thesis using True unfolding first_best_def by (intro exI [of _ ls] exI [of _ "[]"]) simp
  next
    case False
    then show ?thesis using s unfolding first_best_def by (intro exI [of _ pre] exI [of _ "post @ [x]"]) auto
  qed
qed

definition available :: "router \<Rightarrow> int \<Rightarrow> (bytes \<Rightarrow> bool) option \<Rightarrow> bytes list \<Rightarrow> bytes list" where
  "available r now allow_only ls =
     filter (\<lambda>l. (case allow_only of None \<Rightarrow> True | Some f \<Rightarrow> f l) \<and> \<not> cooling r now l) ls"

lemma candidates_pass_best:
  assumes "no_nan r" and "[] \<notin> set ls"
    and "if seen = [] then best = [] else first_best r seen best \<and> best_h = headroom_of r best \<and> best \<noteq> []"
  shows "if seen @ available r now allow_only ls = [] then fst (candidates_pass r now allow_only ls (best, best_h, cooled)) = []
    else first_best r (seen @ available r now allow_only ls) (fst (candidates_pass r now allow_only ls (best, best_h, cooled)))
      \<and> fst (candidates_pass r now allow_only ls (best, best_h, cooled)) \<noteq> []"
  using assms(2,3)
proof (induction ls arbitrary: seen best best_h cooled)
  case Nil
  then show ?case by (simp add: available_def split: if_splits)
next
  case (Cons l ls)
  show ?case
  proof (cases "(case allow_only of None \<Rightarrow> False | Some f \<Rightarrow> \<not> f l) \<or> cooling r now l")
    case True
    then have "available r now allow_only (l # ls) = available r now allow_only ls"
      "candidates_pass r now allow_only (l # ls) (best, best_h, cooled) \<in>
        {candidates_pass r now allow_only ls (best, best_h, cooled), candidates_pass r now allow_only ls (best, best_h, True)}"
      by (auto simp: available_def split: option.splits)
    moreover have "[] \<notin> set ls" using Cons.prems(1) by simp
    ultimately show ?thesis using Cons.IH [OF _ Cons.prems(2)] by (auto simp del: candidates_pass.simps split: if_splits)
  next
    case False
    have av: "available r now allow_only (l # ls) = l # available r now allow_only ls"
      using False by (auto simp: available_def split: option.splits)
    let ?better = "best = [] \<or> f_less best_h (headroom_of r l)"
    let ?b = "if ?better then l else best"
    have new: "first_best r (seen @ [l]) ?b \<and> (if ?better then headroom_of r l else best_h) = headroom_of r ?b \<and> ?b \<noteq> []"
    proof (cases "seen = []")
      case True
      then have "best = []" using Cons.prems by simp
      moreover have "first_best r [l] l" unfolding first_best_def by (intro exI [of _ "[]"]) simp
      ultimately show ?thesis using True Cons.prems(1) by auto
    next
      case seen: False
      then have "first_best r seen best" "best_h = headroom_of r best" "best \<noteq> []" using Cons.prems by auto
      then show ?thesis using first_best_snoc [OF assms(1), of seen best l] Cons.prems(1) by auto
    qed
    have "candidates_pass r now allow_only (l # ls) (best, best_h, cooled) =
        candidates_pass r now allow_only ls (?b, if ?better then headroom_of r l else best_h, cooled)"
      using False by (simp split: option.splits)
    then show ?thesis
      using Cons.IH [of "seen @ [l]" ?b "if ?better then headroom_of r l else best_h" cooled] new Cons.prems(1) av by auto
  qed
qed

text \<open>A filtered route without a pin: the first best of what is allowed and not cooling, or the error when there is none.\<close>

lemma route_candidates_best:
  assumes "no_nan r" and "[] \<notin> set (rt_upstreams r)" and "session = [] \<or> map_of (rt_sessions r) session = None"
  shows "case route_candidates r session now allow_only of
      Exhausted why \<Rightarrow> why = ''all-upstreams-exhausted'' \<and> available r now allow_only (rt_upstreams r) = []
    | Routed l why \<Rightarrow> first_best r (available r now allow_only (rt_upstreams r)) l
        \<and> why \<in> {''max-headroom '' @ l, ''cooldown-skip '' @ l}"
proof -
  obtain b h c where p: "candidates_pass r now allow_only (rt_upstreams r) ([], Fin (- 1), False) = (b, h, c)"
    by (cases "candidates_pass r now allow_only (rt_upstreams r) ([], Fin (- 1), False)")
  have "(if session = [] then None else map_of (rt_sessions r) session) = None" using assms(3) by auto
  then have "route_candidates r session now allow_only = route_end (b, h, c)" using p by (simp add: route_candidates_def)
  then show ?thesis using candidates_pass_best [OF assms(1,2), of "[]" "[]" "Fin (- 1)" now allow_only False] p
    by (auto simp: route_end_def split: if_splits)
qed

lemma candidates_pass_route: "candidates_pass r now None ls s = route_pass r now ls s"
  by (induction ls arbitrary: s) auto

lemma unfiltered_route: "route_candidates r session now None = route r session now"
  by (simp add: route_candidates_def route_def candidates_pass_route split: option.split)

text \<open>
  The two copies of the algorithm agree: routing of candidates without a filter is \<open>Route\<close>, so an account
  below its cap is routed as if there were no budget.
\<close>

theorem route_candidates_is_route: "route_candidates r session now None = route r session now"
  by (rule unfiltered_route)

text \<open>
  Without a pin \<open>Route\<close> returns the first upstream with the largest headroom among those not cooling down,
  an unknown headroom counting as full, and the error exactly when all are cooling down.
\<close>

theorem route_picks_max_headroom:
  assumes "no_nan r" and "[] \<notin> set (rt_upstreams r)" and "session = [] \<or> map_of (rt_sessions r) session = None"
  shows "case route r session now of
      Exhausted why \<Rightarrow> why = ''all-upstreams-exhausted'' \<and> (\<forall>l\<in>set (rt_upstreams r). cooling r now l)
    | Routed l why \<Rightarrow> first_best r (filter (\<lambda>l. \<not> cooling r now l) (rt_upstreams r)) l
        \<and> why \<in> {''max-headroom '' @ l, ''cooldown-skip '' @ l}"
proof -
  show ?thesis unfolding unfiltered_route [symmetric] using route_candidates_best [OF assms, of now None]
    by (auto simp: available_def filter_empty_conv split: routed.splits)
qed


subsection \<open>The cap\<close>

lemma first_best_in: "first_best r ls l \<Longrightarrow> l \<in> set ls"
  by (auto simp: first_best_def)

lemma spend_of_put: "spend_of (b\<lparr>bg_spend := put k s (bg_spend b)\<rparr>) j = (if j = k then s else spend_of b j)"
  by (simp add: spend_of_def)

lemma route_with_budget_cases:
  assumes "rt_budget r = Some b" and "\<not> f_le (bg_max b) (Fin 0)"
  obtains (exhausted) why where "fst (route_locked b r session tree now) = Exhausted why"
      "route_with_budget session tree agent now r = ((\<lparr>rr_routed = Exhausted why, rr_downgraded = False, rr_asks = []\<rparr>, []), r)"
  | (routed) l why asks asked evs where "fst (route_locked b r session tree now) = Routed l why"
      "new_asks (budget_root tree session) (spend_of b (budget_root tree session))
         (f_add (spend_of b (budget_root tree session)) (cost_of b l)) (bg_thresholds b) (bg_asked b) = (asks, asked)"
      "route_with_budget session tree agent now r =
        ((\<lparr>rr_routed = Routed l why, rr_downgraded = snd (route_locked b r session tree now), rr_asks = asks\<rparr>, evs),
         r\<lparr>rt_budget := Some (b\<lparr>bg_spend := put (budget_root tree session)
             (f_add (spend_of b (budget_root tree session)) (cost_of b l)) (bg_spend b), bg_asked := asked\<rparr>)\<rparr>)"
proof (cases "fst (route_locked b r session tree now)")
  case (Exhausted why)
  then show ?thesis using assms exhausted by (cases "route_locked b r session tree now") (simp add: route_with_budget_def)
next
  case (Routed l why)
  obtain asks asked where n: "new_asks (budget_root tree session) (spend_of b (budget_root tree session))
      (f_add (spend_of b (budget_root tree session)) (cost_of b l)) (bg_thresholds b) (bg_asked b) = (asks, asked)" by fastforce
  show ?thesis
    by (rule routed [OF Routed n, where evs = "budget_events b agent (budget_root tree session) l
          (spend_of b (budget_root tree session)) (f_add (spend_of b (budget_root tree session)) (cost_of b l)) asks
          (snd (route_locked b r session tree now))"]) (use assms Routed n in
      \<open>cases "route_locked b r session tree now"; simp add: route_with_budget_def Let_def\<close>)
qed

text \<open>
  C37. The budget: at or above its cap a root is only ever routed to a cheap upstream that is not cooling down, with
  the largest headroom of those, pin or not, and is refused only when there is none; below the cap it is routed as
  without a budget. A routed call adds exactly its configured cost to its root, and nothing to any other.
\<close>

theorem cap_downgrades_to_cheap:
  assumes "no_nan r" and "[] \<notin> set (rt_upstreams r)" and "rt_budget r = Some b" and "\<not> f_le (bg_max b) (Fin 0)"
    and "route_with_budget session tree agent now r = ((res, evs), r')"
    and k: "k = budget_root tree session"
  shows "(if f_le (bg_max b) (spend_of b k)
    then (case rr_routed res of
        Routed l why \<Rightarrow> first_best r (filter (\<lambda>l. cheap_only b l \<and> \<not> cooling r now l) (rt_upstreams r)) l
          \<and> why = ''budget-downgrade '' @ l \<and> rr_downgraded res
      | Exhausted why \<Rightarrow> why = ''budget-no-cheap-upstreams'' \<and> (\<forall>l\<in>set (rt_upstreams r). cheap_only b l \<longrightarrow> cooling r now l))
    else rr_routed res = route r session now \<and> \<not> rr_downgraded res)
    \<and> (case rr_routed res of
        Routed l why \<Rightarrow> \<exists>b'. rt_budget r' = Some b' \<and> (\<forall>j. spend_of b' j = (if j = k then f_add (spend_of b k) (cost_of b l) else spend_of b j))
      | Exhausted why \<Rightarrow> r' = r)"
proof -
  let ?c = "route_candidates r [] now (Some (cheap_only b))"
  have best: "case ?c of
      Exhausted why \<Rightarrow> why = ''all-upstreams-exhausted'' \<and> available r now (Some (cheap_only b)) (rt_upstreams r) = []
    | Routed l why \<Rightarrow> first_best r (available r now (Some (cheap_only b)) (rt_upstreams r)) l \<and> why \<in> {''max-headroom '' @ l, ''cooldown-skip '' @ l}"
    by (rule route_candidates_best [OF assms(1,2)]) simp
  have av: "available r now (Some (cheap_only b)) ls = filter (\<lambda>l. cheap_only b l \<and> \<not> cooling r now l) ls" for ls
    by (simp add: available_def)
  have locked: "if f_le (bg_max b) (spend_of b k)
      then (case fst (route_locked b r session tree now) of
          Routed l why \<Rightarrow> first_best r (filter (\<lambda>l. cheap_only b l \<and> \<not> cooling r now l) (rt_upstreams r)) l
            \<and> why = ''budget-downgrade '' @ l \<and> snd (route_locked b r session tree now)
        | Exhausted why \<Rightarrow> why = ''budget-no-cheap-upstreams'' \<and> (\<forall>l\<in>set (rt_upstreams r). cheap_only b l \<longrightarrow> cooling r now l))
      else fst (route_locked b r session tree now) = route r session now \<and> \<not> snd (route_locked b r session tree now)"
    using best by (auto simp: route_locked_def k unfiltered_route av filter_empty_conv split: routed.splits)
  have "if f_le (bg_max b) (spend_of b k)
    then (case rr_routed res of
        Routed l why \<Rightarrow> first_best r (filter (\<lambda>l. cheap_only b l \<and> \<not> cooling r now l) (rt_upstreams r)) l
          \<and> why = ''budget-downgrade '' @ l \<and> rr_downgraded res
      | Exhausted why \<Rightarrow> why = ''budget-no-cheap-upstreams'' \<and> (\<forall>l\<in>set (rt_upstreams r). cheap_only b l \<longrightarrow> cooling r now l))
    else rr_routed res = route r session now \<and> \<not> rr_downgraded res"
    using assms(3,4)
  proof (cases rule: route_with_budget_cases [of r b session tree now agent])
    case (exhausted why)
    then show ?thesis using locked assms(5) by auto
  next
    case (routed l why asks asked evs')
    then show ?thesis using locked assms(5) by auto
  qed
  moreover have "case rr_routed res of
        Routed l why \<Rightarrow> \<exists>b'. rt_budget r' = Some b' \<and> (\<forall>j. spend_of b' j = (if j = k then f_add (spend_of b k) (cost_of b l) else spend_of b j))
      | Exhausted why \<Rightarrow> r' = r"
    using assms(3,4)
  proof (cases rule: route_with_budget_cases [of r b session tree now agent])
    case (routed l why asks asked evs')
    then show ?thesis using assms(5) by (auto simp: k spend_of_def)
  qed (use assms(5) in auto)
  ultimately show ?thesis by blast
qed

subsection \<open>Threshold asks\<close>

definition seen_asks :: "(bytes \<times> f64 list) list \<Rightarrow> bytes \<Rightarrow> f64 set" where
  "seen_asks asked k = set (case map_of asked k of None \<Rightarrow> [] | Some l \<Rightarrow> l)"

lemma seen_asks_put: "seen_asks (put k l asked) j = (if j = k then set l else seen_asks asked j)"
  by (simp add: seen_asks_def)

lemma list_ex_f_eq: "t \<noteq> NaN \<Longrightarrow> list_ex (f_eq t) l \<longleftrightarrow> t \<in> set l"
  by (auto simp: list_ex_iff f_eq_def)

abbreviation numbers :: "f64 list \<Rightarrow> f64 list" where
  "numbers \<equiv> filter (\<lambda>t. t \<noteq> NaN)"

lemma f_less_nan: "\<not> f_less x NaN"
  by (cases x) simp_all

lemma nan_not_seen: "\<not> list_ex (f_eq NaN) l"
  by (induction l) (simp_all add: f_eq_def)

lemma new_asks_once:
  assumes "new_asks k before after ts asked = (asks, asked')"
  shows "distinct (numbers asks) \<and> set (numbers asks) \<inter> seen_asks asked k = {} \<and> seen_asks asked' k = seen_asks asked k \<union> set asks
    \<and> (\<forall>j. j \<noteq> k \<longrightarrow> seen_asks asked' j = seen_asks asked j)
    \<and> set asks \<subseteq> {t \<in> set ts. \<not> f_le t before \<and> \<not> f_less after t}"
  using assms
proof (induction k before after ts asked arbitrary: asks asked' rule: new_asks.induct)
  case (2 k before after t ts asked)
  let ?seen = "case map_of asked k of None \<Rightarrow> [] | Some l \<Rightarrow> l"
  have seen: "set ?seen = seen_asks asked k" by (simp add: seen_asks_def)
  have old: "list_ex (f_eq t) ?seen \<longleftrightarrow> t \<noteq> NaN \<and> t \<in> seen_asks asked k"
    using list_ex_f_eq [of t ?seen] nan_not_seen [of ?seen] seen by (cases "t = NaN") simp_all
  consider (skip) "f_le t before \<or> f_less after t"
    | (old) "\<not> (f_le t before \<or> f_less after t)" "list_ex (f_eq t) ?seen"
    | (new) "\<not> (f_le t before \<or> f_less after t)" "\<not> list_ex (f_eq t) ?seen" by blast
  then show ?case
  proof cases
    case skip
    then show ?thesis using "2.IH"(1) [OF skip] "2.prems" by auto
  next
    case old
    then have n: "new_asks k before after ts (put k ?seen asked) = (asks, asked')" using "2.prems"(1) old(1) by (simp add: Let_def)
    from "2.IH"(2) [OF old(1) refl old(2) n]
    show ?thesis by (auto simp: seen_asks_put seen)
  next
    case new
    obtain out asked1 where n: "new_asks k before after ts (put k (t # ?seen) asked) = (out, asked1)" by fastforce
    have r: "asks = t # out" "asked' = asked1" using "2.prems"(1) new n by (auto simp: Let_def)
    from "2.IH"(3) [OF new(1) refl new(2) n]
    show ?thesis using new r old by (auto simp: seen_asks_put seen)
  qed
qed simp

lemma new_asks_nan: "new_asks k before after ts asked = (asks, asked') \<Longrightarrow> NaN \<in> set ts \<Longrightarrow> NaN \<in> set asks"
proof (induction k before after ts asked arbitrary: asks asked' rule: new_asks.induct)
  case (2 k before after t ts asked)
  then show ?case
    by (cases "t = NaN")
      (auto simp: Let_def nan_not_seen f_le_def f_eq_def f_less_nan split: if_splits prod.splits)
qed simp

datatype pool_move =
    RouteCall bytes bytes bytes int
  | SpendSeen bytes f64
  | PinSession bytes bytes
  | UnpinSession bytes
  | HeadroomSeen bytes f64
  | FailureSeen bytes int

definition pool_step :: "pool_move \<Rightarrow> router \<Rightarrow> (bytes \<times> f64) list \<times> router" where
  "pool_step e r =
     (case e of
        RouteCall session tree agent now \<Rightarrow>
          (let ((res, evs), r') = route_with_budget session tree agent now r in
           (map (Pair (budget_root tree session)) (rr_asks res), r'))
      | SpendSeen tree c \<Rightarrow> ([], record_spend tree c r)
      | PinSession s l \<Rightarrow> ([], pin s l r)
      | UnpinSession s \<Rightarrow> ([], unpin s r)
      | HeadroomSeen l h \<Rightarrow> ([], record_headroom l h r)
      | FailureSeen l now \<Rightarrow> ([], record_failure l now r))"

text \<open>The asks of a run, each with its root.\<close>

fun pool_asks :: "pool_move list \<Rightarrow> router \<Rightarrow> (bytes \<times> f64) list" where
  "pool_asks [] r = []"
| "pool_asks (e # es) r = (let (asks, r') = pool_step e r in asks @ pool_asks es r')"

definition asked_pairs :: "router \<Rightarrow> (bytes \<times> f64) set" where
  "asked_pairs r = (case rt_budget r of None \<Rightarrow> {} | Some b \<Rightarrow> {(k, t). t \<in> seen_asks (bg_asked b) k})"

definition thresholds_of :: "router \<Rightarrow> f64 set" where
  "thresholds_of r = (case rt_budget r of None \<Rightarrow> {} | Some b \<Rightarrow> set (bg_thresholds b))"

abbreviation number_asks :: "(bytes \<times> f64) list \<Rightarrow> (bytes \<times> f64) list" where
  "number_asks \<equiv> filter (\<lambda>x. snd x \<noteq> NaN)"

lemma pool_step_asks:
  assumes "pool_step e r = (asks, r')"
  shows "distinct (number_asks asks) \<and> set (number_asks asks) \<inter> asked_pairs r = {} \<and> asked_pairs r' = asked_pairs r \<union> set asks
    \<and> thresholds_of r' = thresholds_of r \<and> snd ` set asks \<subseteq> thresholds_of r"
proof (cases e)
  case (RouteCall session tree agent now)
  let ?k = "budget_root tree session"
  obtain res evs where r: "route_with_budget session tree agent now r = ((res, evs), r')" "asks = map (Pair ?k) (rr_asks res)"
    using assms RouteCall by (auto simp: pool_step_def split: prod.splits)
  show ?thesis
  proof (cases "\<exists>b. rt_budget r = Some b \<and> \<not> f_le (bg_max b) (Fin 0)")
    case False
    then have "rr_asks res = []" "r' = r" using r(1) by (auto simp: route_with_budget_def split: option.splits)
    then show ?thesis using r(2) by simp
  next
    case True
    then obtain b where b: "rt_budget r = Some b" "\<not> f_le (bg_max b) (Fin 0)" by blast
    then show ?thesis
    proof (cases rule: route_with_budget_cases [of r b session tree now agent])
      case (exhausted why)
      then show ?thesis using r by simp
    next
      case (routed l why as asked evs')
      note once = new_asks_once [OF routed(2)]
      have a: "rr_asks res = as" "rt_budget r' = Some (b\<lparr>bg_spend := put ?k (f_add (spend_of b ?k) (cost_of b l)) (bg_spend b), bg_asked := asked\<rparr>)"
        using r(1) routed(3) by auto
      have "t \<in> seen_asks asked j \<longleftrightarrow> t \<in> seen_asks (bg_asked b) j \<or> (j = ?k \<and> t \<in> set as)" for t j
        using once by (cases "j = ?k") auto
      then have "asked_pairs r' = asked_pairs r \<union> Pair ?k ` set as"
        using b(1) by (auto simp: asked_pairs_def a(2))
      moreover have "set (number_asks (map (Pair ?k) as)) \<inter> asked_pairs r = {}" using once b(1) by (auto simp: asked_pairs_def)
      moreover have "distinct (number_asks (map (Pair ?k) as))" using once by (simp add: filter_map distinct_map inj_on_def comp_def)
      moreover have "set as \<subseteq> set (bg_thresholds b)" using once by blast
      ultimately show ?thesis using r(2) b(1) by (auto simp: a thresholds_of_def)
    qed
  qed
qed (use assms in \<open>auto simp: pool_step_def record_spend_def pin_def unpin_def record_headroom_def record_failure_def
    asked_pairs_def thresholds_of_def Let_def split: option.splits if_splits\<close>)

lemma pool_asks_once:
  "distinct (number_asks (pool_asks es r)) \<and> set (number_asks (pool_asks es r)) \<inter> asked_pairs r = {}
    \<and> snd ` set (pool_asks es r) \<subseteq> thresholds_of r"
proof (induction es arbitrary: r)
  case (Cons e es)
  obtain asks r' where s: "pool_step e r = (asks, r')" by fastforce
  note st = pool_step_asks [OF s]
  from Cons.IH [of r'] st s show ?case by auto
qed simp

text \<open>
  C38. A human is asked at most once: over any sequence of routes, observed spends, pins, headroom readings and failures
  no configured threshold that is a number is asked twice for one root, and only configured thresholds are asked. A threshold that is not a
  number, which the check of the configuration lets through, is instead asked again on every routed call.
\<close>

theorem thresholds_asked_once:
  "distinct (filter (\<lambda>x. snd x \<noteq> NaN) (pool_asks es (router_of p)))
    \<and> snd ` set (pool_asks es (router_of p)) \<subseteq> set (pl_thresholds p)"
proof -
  have "thresholds_of (router_of p) \<subseteq> set (pl_thresholds p)"
    by (simp add: thresholds_of_def router_of_def new_budget_def)
  then show ?thesis using pool_asks_once [of es "router_of p"] by blast
qed

subsection \<open>What the checks let through\<close>

text \<open>A threshold \<open>.nan\<close> is not below zero either, so it passes validation; it is asked on every routed call.\<close>

theorem nan_threshold_always_asked:
  assumes "NaN \<in> set (bg_thresholds b)" and b: "rt_budget r = Some b" "\<not> f_le (bg_max b) (Fin 0)"
    and r: "route_with_budget session tree agent now r = ((res, evs), r')" and "rr_routed res = Routed l why"
  shows "NaN \<in> set (rr_asks res)"
  using b
proof (cases rule: route_with_budget_cases [of r b session tree now agent])
  case (exhausted why)
  then show ?thesis using r assms(5) by simp
next
  case (routed l why as asked evs')
  then show ?thesis using r new_asks_nan [OF routed(2) assms(1)] by simp
qed

text \<open>
  YAML can write \<open>.nan\<close>, which is not below zero: a cost of NaN passes validation, makes the spend of
  its root NaN, and a spend of NaN never reaches a cap again.
\<close>

theorem nan_spend_never_capped:
  assumes "rt_budget r = Some b" and "spend_of b (budget_root tree session) = NaN"
    and "route_with_budget session tree agent now r = ((res, evs), r')"
  shows "\<not> rr_downgraded res \<and> (\<exists>b'. rt_budget r' = Some b' \<and> spend_of b' (budget_root tree session) = NaN)"
proof (cases "f_le (bg_max b) (Fin 0)")
  case True
  then show ?thesis using assms by (auto simp: route_with_budget_def)
next
  case False
  have "\<not> snd (route_locked b r session tree now)"
    using assms(2) by (cases "bg_max b") (simp_all add: route_locked_def f_le_def f_eq_def)
  note flat = this
  show ?thesis using assms(1) False
  proof (cases rule: route_with_budget_cases [of r b session tree now agent])
    case (exhausted why)
    then show ?thesis using assms by auto
  next
    case (routed l why asks asked evs')
    then show ?thesis using assms flat by (auto simp: spend_of_def)
  qed
qed


definition demo_upstream :: "bytes \<Rightarrow> bytes \<Rightarrow> bytes \<Rightarrow> f64 \<Rightarrow> upstream_config" where
  "demo_upstream l home tr c = \<lparr>up_label = l, up_provider = [], up_home = home, up_tier = tr, up_cost = c\<rparr>"

definition demo_pool :: "upstream_config list \<Rightarrow> pool_config" where
  "demo_pool us =
     \<lparr>pl_listen = ''127.0.0.1:1'', pl_allow_non_local = False, pl_upstreams = us, pl_strategy = [],
      pl_cooldown_seconds = 0, pl_max_cost = Fin 1, pl_thresholds = [Fin (1 / 2)]\<rparr>"

lemma demo_upstream_simps [simp]:
  "up_label (demo_upstream l h tr c) = l" "up_provider (demo_upstream l h tr c) = []" "up_home (demo_upstream l h tr c) = h"
  "up_tier (demo_upstream l h tr c) = tr" "up_cost (demo_upstream l h tr c) = c"
  by (simp_all add: demo_upstream_def)

text \<open>
  The configuration below is valid: its two homes are spellings of one directory, since only homes under a tilde
  are cleaned, and one cost is NaN. After one call the cap is out of reach for its root.
\<close>

definition demo_careless :: pool_config where
  "demo_careless = demo_pool [demo_upstream ''a'' ''/c'' ''expensive'' NaN, demo_upstream ''b'' ''/c/'' ''cheap'' (Fin 0)]"

lemma demo_careless_valid: "pool_valid home demo_careless"
  by (simp add: pool_valid_def demo_careless_def demo_pool_def is_loopback_def listen_host_def upstream_valid_def
      valid_tier_def expand_home_def has_prefix_def)

theorem one_account_under_two_labels:
  "pool_validate home demo_careless = None
   \<and> map (\<lambda>u. map_option path_clean (expand_home home (up_home u))) (pl_upstreams demo_careless) = [Some ''/c'', Some ''/c'']"
proof -
  have "check_upstreams home 0 (pl_upstreams demo_careless) [] [] = None"
    by (simp add: demo_careless_def demo_pool_def check_upstream_def valid_tier_def expand_home_def has_prefix_def)
  moreover have "is_loopback (pl_listen demo_careless)"
    by (simp add: demo_careless_def demo_pool_def is_loopback_def listen_host_def has_prefix_def)
  ultimately have "pool_validate home demo_careless = None"
    by (simp add: pool_validate_def) (simp add: demo_careless_def demo_pool_def)
  moreover have "path_clean ''/c'' = ''/c''" "path_clean ''/c/'' = ''/c''" by (simp_all add: path_clean_def has_prefix_def)
  ultimately show ?thesis by (simp add: demo_careless_def demo_pool_def expand_home_def has_prefix_def)
qed

text \<open>Any host name that begins with \<open>127.\<close> counts as loopback, whatever it resolves to.\<close>

theorem loopback_test_accepts_names: "is_loopback ''127.example.com:80''"
  by (simp add: is_loopback_def listen_host_def has_prefix_def)

lemmas route_eval =
  route_with_budget_def route_locked_def route_candidates_def route_end_def cooling_def headroom_of_def
  router_of_def new_router_def new_budget_def budget_enabled_def budget_root_def spend_of_def cheap_only_def cost_of_def
  f_le_def f_eq_def effective_tier_def collect_def demo_pool_def Let_def

theorem nan_spend_never_capped_witness:
  "pool_validate home demo_careless = None
   \<and> (let r = snd (route_with_budget ''s'' [] [] 0 (router_of demo_careless)) in
      \<not> rr_downgraded (fst (fst (route_with_budget ''s'' [] [] 9 r))))"
proof -
  let ?r = "snd (route_with_budget ''s'' [] [] 0 (router_of demo_careless))"
  obtain b where b: "rt_budget ?r = Some b" "spend_of b (budget_root [] ''s'') = NaN"
    by (auto simp: route_eval demo_careless_def)
  obtain res evs r' where r: "route_with_budget ''s'' [] [] 9 ?r = ((res, evs), r')" by (metis surj_pair)
  from nan_spend_never_capped [OF b r] r one_account_under_two_labels [of home] show ?thesis by (simp add: Let_def)
qed

definition demo_budget :: pool_config where
  "demo_budget = demo_pool [demo_upstream ''a'' ''/a'' [] (Fin 1), demo_upstream ''b'' ''/b'' ''cheap'' (Fin 0)]"

lemma f_round_one: "f_round 1 = Fin 1"
  by (simp add: f_round_def)

lemma demo_first_call:
  "route_with_budget ''s'' [] [] 0 (router_of demo_budget) =
    ((\<lparr>rr_routed = Routed ''a'' ''max-headroom a'', rr_downgraded = False, rr_asks = [Fin (1 / 2)]\<rparr>,
      budget_events (the (new_budget demo_budget)) [] ''s'' ''a'' (Fin 0) (Fin 1) [Fin (1 / 2)] False),
     (router_of demo_budget)\<lparr>rt_budget := Some ((the (new_budget demo_budget))
       \<lparr>bg_spend := [(''s'', Fin 1)], bg_asked := [(''s'', [Fin (1 / 2)])]\<rparr>)\<rparr>)"
  by (simp add: route_eval demo_budget_def f_round_one)

theorem cap_downgrades_to_cheap_witness:
  "\<exists>res evs r'. route_with_budget ''s'' [] [] 1 (snd (route_with_budget ''s'' [] [] 0 (router_of demo_budget))) = ((res, evs), r')
     \<and> (case rr_routed res of Routed l why \<Rightarrow> why = ''budget-downgrade '' @ l \<and> rr_downgraded res
        | Exhausted why \<Rightarrow> why = ''budget-no-cheap-upstreams'')"
proof -
  let ?r = "snd (route_with_budget ''s'' [] [] 0 (router_of demo_budget))"
  let ?b = "(the (new_budget demo_budget))\<lparr>bg_spend := [(''s'', Fin 1)], bg_asked := [(''s'', [Fin (1 / 2)])]\<rparr>"
  obtain res evs r' where r: "route_with_budget ''s'' [] [] 1 ?r = ((res, evs), r')" by (metis surj_pair)
  have p: "no_nan ?r" "[] \<notin> set (rt_upstreams ?r)" "rt_budget ?r = Some ?b" "\<not> f_le (bg_max ?b) (Fin 0)"
    "f_le (bg_max ?b) (spend_of ?b (budget_root [] ''s''))"
    by (simp_all add: demo_first_call no_nan_def route_eval demo_budget_def f_round_one)
  from cap_downgrades_to_cheap [OF p(1-4) r refl] p(5) have "case rr_routed res of
      Routed l why \<Rightarrow> why = ''budget-downgrade '' @ l \<and> rr_downgraded res | Exhausted why \<Rightarrow> why = ''budget-no-cheap-upstreams''"
    by (auto split: routed.splits)
  with r show ?thesis by blast
qed

theorem route_picks_max_headroom_witness:
  "\<exists>l why. route (record_headroom ''a'' (Fin (1 / 4)) (router_of demo_budget)) [] 0 = Routed l why \<and> l = ''b''"
proof -
  let ?r = "record_headroom ''a'' (Fin (1 / 4)) (router_of demo_budget)"
  have r: "rt_upstreams ?r = [''a'', ''b'']" "rt_headroom ?r = [(''a'', Fin (1 / 4))]" "rt_cool ?r = []"
    by (simp_all add: record_headroom_def router_of_def new_router_def demo_budget_def demo_pool_def)
  have p: "no_nan ?r" "[] \<notin> set (rt_upstreams ?r)" by (simp_all add: no_nan_def r)
  have c: "\<not> cooling ?r 0 l" for l by (simp add: cooling_def r)
  have "\<not> first_best ?r [''a'', ''b''] ''a''"
    by (auto simp: first_best_def headroom_of_def r Cons_eq_append_conv)
  moreover obtain l why where "route ?r [] 0 = Routed l why" "first_best ?r [''a'', ''b''] l"
    using route_picks_max_headroom [OF p, of "[]" 0] by (auto simp: r c split: routed.splits)
  ultimately show ?thesis using first_best_in by fastforce
qed

lemma demo_asked: "pool_asks [RouteCall ''s'' [] [] 0] (router_of demo_budget) = [(''s'', Fin (1 / 2))]"
  by (simp add: pool_step_def demo_first_call budget_root_def)

end
