(* ===== verification/Handshake.thy ===== *)
theory Handshake
  imports Message
begin

text \<open>
  The initialize handshake of the gateway, \<open>initWriter\<close> of
  \<^verbatim>\<open>internal/gateway/gateway.go\<close>: the reply of the upstream is held back and read as it
  arrives, and the client gets a session only if it is a success response to its own request. Headers are
  member lists under their canonical names. The rest of the gateway is in \<open>Gateway\<close>.
\<close>

subsection \<open>Ids\<close>

text \<open>Numbers are compared by their literals; a number never equals a string.\<close>

fun compare_ids :: "json \<Rightarrow> json \<Rightarrow> bool" where
  "compare_ids (JNum a) (JNum b) \<longleftrightarrow> a = b"
| "compare_ids (JStr a) (JStr b) \<longleftrightarrow> a = b"
| "compare_ids JNull JNull \<longleftrightarrow> True"
| "compare_ids _ _ \<longleftrightarrow> False"

definition id_matches :: "json \<Rightarrow> json option \<Rightarrow> bool" where
  "id_matches req resp = (case resp of None \<Rightarrow> False | Some r \<Rightarrow> compare_ids req r)"

subsection \<open>A complete response\<close>

fun first_sse_data :: "bytes list \<Rightarrow> bytes" where
  "first_sse_data [] = []"
| "first_sse_data (l # ls) =
     (let t = trim_bytes l in
      if has_prefix t ''data:'' then trim_bytes (trim_prefix t ''data:'') else first_sse_data ls)"

definition extract_first_sse :: "bytes \<Rightarrow> bytes" where
  "extract_first_sse body = first_sse_data (split_on newline body)"

text \<open>The fields of the struct: names up to case, the last member of a field counts.\<close>

abbreviation reply_fields :: "bytes list" where
  "reply_fields \<equiv> [''jsonrpc'', ''id'', ''result'', ''error'']"

definition reply_member :: "bytes \<Rightarrow> members \<Rightarrow> json option" where
  "reply_member field ms =
     map_of (rev (map (\<lambda>(k, v). (the (field_among reply_fields k), v))
       (filter (\<lambda>(k, v). field_among reply_fields k \<noteq> None) ms))) field"

fun reply_version :: "members \<Rightarrow> bytes \<Rightarrow> bytes option" where
  "reply_version [] old = Some old"
| "reply_version ((k, v) # ms) old =
     (if field_among reply_fields k = Some ''jsonrpc''
      then Option.bind (read_str v old) (reply_version ms)
      else reply_version ms old)"

definition validate_initialize :: "int \<Rightarrow> bytes \<Rightarrow> bytes \<Rightarrow> json \<Rightarrow> bool" where
  "validate_initialize status ctype body req =
     (if status < 200 \<or> status \<ge> 300 then False
      else
        let sse = has_prefix ctype ''text/event-stream'';
            b = (if sse then extract_first_sse body else body) in
        if sse \<and> b = [] then False
        else (case json_parse b of
            Some (JObj ms) \<Rightarrow>
              (case reply_version ms [] of
                 None \<Rightarrow> False
               | Some ver \<Rightarrow>
                   ver = ''2.0'' \<and> map_of ms ''error'' = None \<and> map_of ms ''result'' \<noteq> None
                   \<and> id_matches req (reply_member ''id'' ms))
          | _ \<Rightarrow> False))"

subsection \<open>One event\<close>

definition event_part :: "bytes \<Rightarrow> bytes option" where
  "event_part line0 =
     (let l = (if line0 \<noteq> [] \<and> List.last line0 = byte 13 then butlast line0 else line0) in
      if has_prefix l ''data:'' then
        (let d = trim_prefix l ''data:'' in Some (if has_prefix d '' '' then drop 1 d else d))
      else if has_prefix l '':'' then None
      else if contains l '':'' then None
      else if l \<noteq> [] then Some l
      else None)"

datatype event_verdict = SkipEvent | RefuseEvent | AcceptEvent

fun join_lines :: "bytes list \<Rightarrow> bytes" where
  "join_lines [] = []"
| "join_lines [s] = s"
| "join_lines (s # ss) = s @ newline # join_lines ss"

definition judge_reply :: "json \<Rightarrow> members \<Rightarrow> event_verdict" where
  "judge_reply req ms =
     (let get = map_of (collect ms) in
      if get ''method'' \<noteq> None then SkipEvent
      else if \<not> id_matches req (get ''id'') then SkipEvent
      else if get ''jsonrpc'' \<noteq> Some (JStr ''2.0'') then SkipEvent
      else if get ''error'' \<noteq> None then RefuseEvent
      else if get ''result'' = None then SkipEvent
      else AcceptEvent)"

definition judge_event :: "json \<Rightarrow> bytes list \<Rightarrow> event_verdict" where
  "judge_event req ls =
     (let parts = List.map_filter event_part ls in
      if parts = [] then SkipEvent
      else (case json_parse (join_lines parts) of
          Some (JObj ms) \<Rightarrow> judge_reply req ms
        | _ \<Rightarrow> SkipEvent))"

subsection \<open>The writer\<close>

datatype init_mode = Undecided | Buffered | Streaming

record init_writer =
  iw_id :: json
  iw_sid :: bytes
  iw_header :: "(bytes \<times> bytes) list"
  iw_status :: int
  iw_mode :: init_mode
  iw_held :: bytes
  iw_pos :: nat
  iw_line :: nat
  iw_search :: nat
  iw_skip_lf :: bool
  iw_committed :: bool
  iw_rejected :: bool
  iw_upstream :: bytes
  iw_overflow :: bool

definition body_limit :: nat where "body_limit = 10 * 1024 * 1024"

definition header_get :: "(bytes \<times> bytes) list \<Rightarrow> bytes \<Rightarrow> bytes" where
  "header_get h k = (case map_of h k of None \<Rightarrow> [] | Some v \<Rightarrow> v)"

definition new_init_writer :: "json \<Rightarrow> bytes \<Rightarrow> (bytes \<times> bytes) list \<Rightarrow> init_writer" where
  "new_init_writer req sid h =
     \<lparr>iw_id = req, iw_sid = sid, iw_header = h, iw_status = 0, iw_mode = Undecided, iw_held = [], iw_pos = 0, iw_line = 0,
      iw_search = 0, iw_skip_lf = False, iw_committed = False, iw_rejected = False, iw_upstream = [], iw_overflow = False\<rparr>"

definition write_header :: "int \<Rightarrow> init_writer \<Rightarrow> init_writer" where
  "write_header code w =
     (if iw_status w \<noteq> 0 then w
      else w\<lparr>iw_status := code,
        iw_mode := (if 200 \<le> code \<and> code < 300 \<and> has_prefix (header_get (iw_header w) ''Content-Type'') ''text/event-stream''
          then Streaming else Buffered)\<rparr>)"

definition commit_init :: "init_writer \<Rightarrow> init_writer" where
  "commit_init w = w\<lparr>iw_upstream := header_get (iw_header w) ''Mcp-Session-Id'', iw_committed := True\<rparr>"

definition reject_init :: "init_writer \<Rightarrow> init_writer" where
  "reject_init w = w\<lparr>iw_rejected := True\<rparr>"

abbreviation CR :: char where "CR \<equiv> byte 13"

text \<open>Line endings of one event, made uniform.\<close>

definition event_lines :: "bytes \<Rightarrow> bytes list" where
  "event_lines s = split_on newline (replace_all (replace_all s [CR, newline] [newline]) [CR] [newline])"

text \<open>The length of a line terminator at \<open>i\<close>, zero for none, and whether a line feed must be skipped next.\<close>

definition terminator :: "bytes \<Rightarrow> nat \<Rightarrow> nat \<times> bool" where
  "terminator d i =
     (if d ! i = newline then (1, False)
      else if d ! i = CR then
        (if i + 1 < length d \<and> d ! (i + 1) = newline then (2, False)
         else if i + 1 = length d then (1, True)
         else (1, False))
      else (0, False))"

definition part :: "bytes \<Rightarrow> nat \<Rightarrow> nat \<Rightarrow> bytes" where
  "part d a b = take (b - a) (drop a d)"

text \<open>The scan of what is held, from \<open>i\<close>.\<close>

function scan_sse :: "nat \<Rightarrow> init_writer \<Rightarrow> init_writer" where
  "scan_sse i w =
     (let d = iw_held w in
      if i \<ge> length d then w\<lparr>iw_search := length d\<rparr>
      else if iw_skip_lf w \<and> d ! i = newline then
        scan_sse (Suc i) (w\<lparr>iw_skip_lf := False, iw_pos := (if iw_pos w = i then Suc i else iw_pos w),
          iw_line := (if iw_line w = i then Suc i else iw_line w), iw_search := Suc i\<rparr>)
      else
        let w1 = w\<lparr>iw_skip_lf := False\<rparr>; (n, skip) = terminator d i in
        if n = 0 then scan_sse (Suc i) w1
        else
          let w2 = w1\<lparr>iw_skip_lf := skip\<rparr> in
          if iw_line w = i then
            (case (if iw_line w > iw_pos w
                   then judge_event (iw_id w) (event_lines (part d (iw_pos w) (iw_line w))) else SkipEvent) of
               AcceptEvent \<Rightarrow> commit_init w2
             | v \<Rightarrow>
                 scan_sse (i + n) ((if v = RefuseEvent then reject_init w2 else w2)
                   \<lparr>iw_pos := i + n, iw_line := i + n, iw_search := i + n\<rparr>))
          else scan_sse (i + n) (w2\<lparr>iw_line := i + n, iw_search := i + n\<rparr>))"
  by pat_completeness auto
termination
  by (relation "measure (\<lambda>(i, w). length (iw_held w) - i)")
    (auto simp: terminator_def reject_init_def split: if_splits)

declare scan_sse.simps [simp del]

definition parse_sse :: "init_writer \<Rightarrow> init_writer" where
  "parse_sse w =
     (if iw_committed w \<or> iw_rejected w \<or> iw_held w = [] then w else scan_sse (iw_search w) w)"

text \<open>\<open>Write\<close>; the flag tells whether it succeeded.\<close>

definition init_write :: "bytes \<Rightarrow> init_writer \<Rightarrow> bool \<times> init_writer" where
  "init_write p w0 =
     (let w = (if iw_status w0 = 0 then write_header 200 w0 else w0) in
      if iw_rejected w then (False, w)
      else if iw_committed w then (True, w)
      else if iw_mode w = Buffered then
        (if iw_overflow w then (False, w)
         else if length (iw_held w) + length p > body_limit then (False, reject_init (w\<lparr>iw_overflow := True\<rparr>))
         else (True, w\<lparr>iw_held := iw_held w @ p\<rparr>))
      else if length (iw_held w) + length p > body_limit then (False, reject_init (w\<lparr>iw_overflow := True\<rparr>))
      else
        let w1 = parse_sse (w\<lparr>iw_held := iw_held w @ p\<rparr>) in
        (iw_committed w1 \<or> \<not> iw_rejected w1, w1))"

subsection \<open>The end of the handshake\<close>

record http_reply =
  hr_status :: int
  hr_headers :: "(bytes \<times> bytes) list"
  hr_body :: bytes

definition allowed_headers :: "(bytes \<times> bytes) list \<Rightarrow> (bytes \<times> bytes) list" where
  "allowed_headers h =
     filter (\<lambda>(k, v). v \<noteq> []) (map (\<lambda>k. (k, header_get h k)) [''Content-Type'', ''Content-Length'', ''Mcp-Protocol-Version''])
     @ [(''Cache-Control'', ''no-store'')]"

definition with_session :: "init_writer \<Rightarrow> http_reply" where
  "with_session w = \<lparr>hr_status = iw_status w, hr_headers = allowed_headers (iw_header w) @ [(''Mcp-Session-Id'', iw_sid w)], hr_body = iw_held w\<rparr>"

definition without_session :: "init_writer \<Rightarrow> http_reply" where
  "without_session w = \<lparr>hr_status = iw_status w, hr_headers = allowed_headers (iw_header w), hr_body = iw_held w\<rparr>"

text \<open>
  What the client gets, if anything, and the id of the upstream's session if the client's session is established
  (\<open>onReady\<close>).
\<close>

definition finish_init :: "init_writer \<Rightarrow> http_reply option \<times> bytes option" where
  "finish_init w =
     (if iw_committed w then (Some (with_session w), Some (iw_upstream w))
      else (case iw_mode w of
          Buffered \<Rightarrow>
            if iw_overflow w then (Some \<lparr>hr_status = 502, hr_headers = [(''Cache-Control'', ''no-store'')], hr_body = ''response too large''\<rparr>, None)
            else if validate_initialize (iw_status w) (header_get (iw_header w) ''Content-Type'') (iw_held w) (iw_id w)
            then (Some (with_session w), Some (iw_upstream (commit_init w)))
            else (Some (without_session w), None)
        | Streaming \<Rightarrow> (Some (without_session w), None)
        | Undecided \<Rightarrow> (None, None)))"

text \<open>A handler that sets its headers and status and then writes some chunks; it stops at a failed write.\<close>

fun init_writes :: "bytes list \<Rightarrow> init_writer \<Rightarrow> init_writer" where
  "init_writes [] w = w"
| "init_writes (p # ps) w = (let (ok, w') = init_write p w in if ok then init_writes ps w' else w')"

definition handshake :: "json \<Rightarrow> bytes \<Rightarrow> (bytes \<times> bytes) list \<Rightarrow> int \<Rightarrow> bytes list \<Rightarrow> http_reply option \<times> bytes option" where
  "handshake req sid h status ps = finish_init (init_writes ps (write_header status (new_init_writer req sid h)))"

subsection \<open>The events of a stream\<close>

text \<open>
  The reference: one byte at a time, a state of the lines of the event so far, the line so far, and whether the
  last byte was a carriage return that ended a line. An empty line ends an event.
\<close>

fun sse_feed :: "bytes \<Rightarrow> bytes list \<times> bytes \<times> bool \<Rightarrow> bytes list list \<times> (bytes list \<times> bytes \<times> bool)" where
  "sse_feed [] st = ([], st)"
| "sse_feed (c # s) (ls, cur, cr) =
     (if cr \<and> c = newline then sse_feed s (ls, cur, False)
      else if c = newline \<or> c = CR then
        (if cur \<noteq> [] then sse_feed s (ls @ [cur], [], c = CR)
         else if ls = [] then sse_feed s ([], [], c = CR)
         else (let (es, st) = sse_feed s ([], [], c = CR) in (ls # es, st)))
      else sse_feed s (ls, cur @ [c], False))"

definition sse_events :: "bytes \<Rightarrow> bytes list list" where
  "sse_events s = fst (sse_feed s ([], [], False))"

fun events_verdict :: "json \<Rightarrow> bytes list list \<Rightarrow> bool \<Rightarrow> bool \<times> bool" where
  "events_verdict req [] rej = (False, rej)"
| "events_verdict req (e # es) rej =
     (case judge_event req e of
        AcceptEvent \<Rightarrow> (True, rej)
      | RefuseEvent \<Rightarrow> events_verdict req es True
      | SkipEvent \<Rightarrow> events_verdict req es rej)"

lemma sse_feed_append:
  "sse_feed (s @ t) st =
     (let (es, st1) = sse_feed s st; (es', st2) = sse_feed t st1 in (es @ es', st2))"
proof (induction s st rule: sse_feed.induct)
  case (2 c s ls cur cr)
  then show ?case by (auto simp: Let_def split: prod.splits)
qed (simp split: prod.split)

lemma newline_not_CR [simp]: "newline \<noteq> CR" "CR \<noteq> newline"
  by (simp_all add: newline_def)

lemma sse_feed_flag: "s \<noteq> [] \<Longrightarrow> hd s \<noteq> newline \<Longrightarrow> sse_feed s (ls, cur, True) = sse_feed s (ls, cur, False)"
  by (cases s) auto

lemma sse_feed_crlf: "sse_feed (CR # newline # s) (ls, cur, f) = sse_feed (newline # s) (ls, cur, False)"
proof -
  have "sse_feed (newline # s) (ls', cur', True) = sse_feed s (ls', cur', False)" for ls' cur' by simp
  moreover have "sse_feed (CR # t) (ls, cur, f) = sse_feed (CR # t) (ls, cur, False)" for t by simp
  ultimately show ?thesis by (simp split: prod.split)
qed

subsection \<open>Uniform line endings\<close>

fun join_crlf :: "bytes \<Rightarrow> bytes" where
  "join_crlf [] = []"
| "join_crlf (c # s) = (if c = CR \<and> s \<noteq> [] \<and> hd s = newline then newline # join_crlf (tl s) else c # join_crlf s)"

definition uniform :: "bytes \<Rightarrow> bytes" where
  "uniform s = map (\<lambda>c. if c = CR then newline else c) (join_crlf s)"

lemma replace_crlf: "length s \<le> k \<Longrightarrow> replace_fuel k s [CR, newline] [newline] = join_crlf s"
proof (induction s arbitrary: k rule: join_crlf.induct)
  case 1
  then show ?case by (cases k) simp_all
next
  case (2 c s)
  obtain j where k: "k = Suc j" using 2(3) by (cases k) simp_all
  show ?case
  proof (cases "c = CR \<and> s \<noteq> [] \<and> hd s = newline")
    case True
    then obtain t where s: "s = newline # t" by (cases s) auto
    then show ?thesis using True 2(1) [OF True, of j] 2(3) k by (simp add: has_prefix_def)
  next
    case False
    then have "\<not> has_prefix (c # s) [CR, newline]" by (cases s) (auto simp: has_prefix_def)
    then show ?thesis using False 2(2) [OF False, of j] 2(3) k by simp
  qed
qed

lemma replace_cr: "length s \<le> k \<Longrightarrow> replace_fuel k s [CR] [newline] = map (\<lambda>c. if c = CR then newline else c) s"
proof (induction k arbitrary: s)
  case (Suc k)
  then show ?case by (cases s) (auto simp: has_prefix_def)
qed simp

lemma event_lines_uniform: "event_lines s = split_on newline (uniform s)"
  by (simp add: event_lines_def replace_all_def replace_crlf replace_cr uniform_def)

lemma join_crlf_append:
  "\<not> (x \<noteq> [] \<and> List.last x = CR \<and> y \<noteq> [] \<and> hd y = newline) \<Longrightarrow> join_crlf (x @ y) = join_crlf x @ join_crlf y"
proof (induction x rule: join_crlf.induct)
  case (2 c s)
  show ?case
  proof (cases "c = CR \<and> s \<noteq> [] \<and> hd s = newline")
    case True
    then obtain t where "s = newline # t" by (cases s) auto
    then show ?thesis using True 2(1) [OF True] "2.prems" by (auto split: if_splits)
  next
    case False
    then have "\<not> (c = CR \<and> s @ y \<noteq> [] \<and> hd (s @ y) = newline)" using "2.prems" by (cases s) auto
    then show ?thesis using False 2(2) [OF False] "2.prems" by (auto split: if_splits)
  qed
qed simp

lemma uniform_append:
  "\<not> (x \<noteq> [] \<and> List.last x = CR \<and> y \<noteq> [] \<and> hd y = newline) \<Longrightarrow> uniform (x @ y) = uniform x @ uniform y"
  by (simp add: uniform_def join_crlf_append)

lemma uniform_terminators [simp]: "uniform [newline] = [newline]" "uniform [CR] = [newline]" "uniform [CR, newline] = [newline]" "uniform [] = []"
  by (simp_all add: uniform_def)

lemma uniform_CR: "uniform (x @ [CR]) = uniform x @ [newline]"
  by (simp add: uniform_append)

lemma uniform_crlf: "uniform (x @ [CR, newline]) = uniform x @ [newline]"
  by (simp add: uniform_append)

lemma uniform_plain: "newline \<notin> set s \<Longrightarrow> CR \<notin> set s \<Longrightarrow> uniform s = s"
proof -
  assume a: "newline \<notin> set s" "CR \<notin> set s"
  then have "join_crlf s = s" by (induction s) auto
  moreover have "map (\<lambda>c. if c = CR then newline else c) s = s" using a(2) by (induction s) auto
  ultimately show ?thesis by (simp add: uniform_def)
qed

definition ends_line :: "bytes \<Rightarrow> bool" where
  "ends_line x \<longleftrightarrow> x = [] \<or> List.last x \<in> {newline, CR}"

lemma ends_line_uniform: "ends_line x \<Longrightarrow> uniform x = [] \<or> (\<exists>z. uniform x = z @ [newline])"
proof (cases x rule: rev_cases)
  case (snoc y c)
  assume "ends_line x"
  then have c: "c = newline \<or> c = CR" using snoc by (simp add: ends_line_def)
  show ?thesis
  proof (cases "y \<noteq> [] \<and> List.last y = CR \<and> c = newline")
    case True
    then obtain z where "y = z @ [CR]" by (metis append_butlast_last_id)
    then show ?thesis using snoc True uniform_crlf [of z] by simp
  next
    case False
    then show ?thesis using snoc c uniform_append [of y "[c]"] by auto
  qed
qed simp

definition full_lines :: "bytes \<Rightarrow> bytes list" where
  "full_lines x = filter (\<lambda>l. l \<noteq> []) (event_lines x)"

lemma split_on_at: "split_on d (z @ d # r) = split_on d z @ split_on d r"
proof (induction z)
  case (Cons c z)
  then show ?case by (auto split: list.splits)
qed simp

lemma full_lines_line:
  assumes "ends_line x" and "cur \<noteq> []" and "newline \<notin> set cur" "CR \<notin> set cur" and "t \<in> {[newline], [CR], [CR, newline]}"
  shows "full_lines (x @ cur @ t) = full_lines x @ [cur]"
proof -
  have h: "hd (cur @ t) \<noteq> newline" using assms(2,3) by (cases cur) auto
  have l: "List.last cur \<noteq> CR" using assms(2,4) by (metis last_in_set)
  have u: "uniform (x @ cur @ t) = uniform x @ cur @ [newline]"
    using uniform_append [of x "cur @ t"] uniform_append [of cur t] h l assms(5) uniform_plain [OF assms(3,4)] by auto
  have s: "split_on newline (cur @ [newline]) = [cur, []]" using split_on_append [OF assms(3), of "[]"] by simp
  from ends_line_uniform [OF assms(1)] show ?thesis
  proof
    assume "uniform x = []"
    then show ?thesis using u s assms(2) by (simp add: full_lines_def event_lines_uniform)
  next
    assume "\<exists>z. uniform x = z @ [newline]"
    then obtain z where z: "uniform x = z @ [newline]" by blast
    have "uniform (x @ cur @ t) = z @ newline # (cur @ [newline])" using u z by simp
    then have "split_on newline (uniform (x @ cur @ t)) = split_on newline z @ [cur, []]" using split_on_at s by metis
    moreover have "split_on newline (uniform x) = split_on newline z @ [[]]" using split_on_at [of newline z "[]"] z by simp
    ultimately show ?thesis using assms(2) by (simp add: full_lines_def event_lines_uniform)
  qed
qed

lemma full_lines_lf: "x \<noteq> [] \<Longrightarrow> List.last x = CR \<Longrightarrow> full_lines (x @ [newline]) = full_lines x"
proof -
  assume "x \<noteq> []" "List.last x = CR"
  then obtain z where "x = z @ [CR]" by (metis append_butlast_last_id)
  then show ?thesis using uniform_crlf [of z] uniform_CR [of z] by (simp add: full_lines_def event_lines_uniform)
qed

lemma full_lines_Nil [simp]: "full_lines [] = []"
  by (simp add: full_lines_def event_lines_uniform)

lemma event_part_Nil [simp]: "event_part [] = None"
  by (simp add: event_part_def has_prefix_def)

lemma judge_full_lines: "judge_event req (full_lines x) = judge_event req (event_lines x)"
proof -
  have "List.map_filter event_part (filter (\<lambda>l. l \<noteq> []) ls) = List.map_filter event_part ls" for ls
    by (induction ls) (auto simp: map_filter_simps split: option.splits)
  then show ?thesis by (simp add: judge_event_def full_lines_def)
qed

subsection \<open>The scan against the events\<close>

lemma part_same [simp]: "part d a a = []"
  by (simp add: part_def)

lemma part_snoc: "a \<le> b \<Longrightarrow> b < length d \<Longrightarrow> part d a (Suc b) = part d a b @ [d ! b]"
  by (simp add: part_def Suc_diff_le take_Suc_conv_app_nth)

lemma part_split:
  assumes "a \<le> b" and "b \<le> c"
  shows "part d a c = part d a b @ part d b c"
proof -
  have "c - a = (b - a) + (c - b)" using assms by simp
  then have "part d a c = take (b - a) (drop a d) @ take (c - b) (drop (b - a) (drop a d))" by (simp only: part_def take_add)
  then show ?thesis using assms by (simp add: part_def)
qed

lemma part_append [simp]: "b \<le> length d \<Longrightarrow> part (d @ e) a b = part d a b"
  by (cases "a \<le> b") (simp_all add: part_def)

lemma part_eq_Nil: "a \<le> b \<Longrightarrow> b \<le> length d \<Longrightarrow> part d a b = [] \<longleftrightarrow> a = b"
  by (auto simp: part_def)

lemma part_last: "a < b \<Longrightarrow> b \<le> length d \<Longrightarrow> List.last (part d a b) = d ! (b - 1)"
  using part_snoc [of a "b - 1" d] by simp

lemma terminator_part:
  assumes "i < length d" and "terminator d i = (n, sk)" and "0 < n"
  shows "i + n \<le> length d \<and> part d i (i + n) \<in> {[newline], [CR], [CR, newline]} \<and> (sk \<longrightarrow> d ! (i + n - 1) = CR)"
proof -
  have "part d i (Suc i) = [d ! i]" using part_snoc [of i i d] assms(1) by simp
  moreover have "Suc i < length d \<Longrightarrow> part d i (Suc (Suc i)) = [d ! i, d ! Suc i]"
    using part_snoc [of i "Suc i" d] part_snoc [of i i d] assms(1) by simp
  ultimately show ?thesis using assms by (auto simp: terminator_def split: if_splits)
qed

lemma feed_terminator:
  assumes "i < length d" and "terminator d i = (n, sk)" and "0 < n" and "\<not> (f \<and> d ! i = newline)"
  shows "sse_feed (drop i d) (ls, cur, f) =
    (if cur \<noteq> [] then sse_feed (drop (i + n) d) (ls @ [cur], [], sk)
     else if ls = [] then sse_feed (drop (i + n) d) ([], [], sk)
     else (let (es, st) = sse_feed (drop (i + n) d) ([], [], sk) in (ls # es, st)))"
proof -
  have d: "drop i d = d ! i # drop (Suc i) d" using assms(1) by (simp add: Cons_nth_drop_Suc)
  have flag: "sse_feed (drop (Suc i) d) (l, [], d ! i = CR) = sse_feed (drop (i + n) d) (l, [], sk)" for l
  proof (cases "Suc i < length d")
    case True
    then have "drop (Suc i) d = d ! Suc i # drop (Suc (Suc i)) d" by (simp add: Cons_nth_drop_Suc)
    then show ?thesis using assms(2,3) True by (auto simp: terminator_def sse_feed_flag split: if_splits)
  next
    case False
    then show ?thesis using assms(1-3) by (auto simp: terminator_def split: if_splits)
  qed
  have "d ! i = newline \<or> d ! i = CR" using assms(2,3) by (auto simp: terminator_def split: if_splits)
  then show ?thesis
  proof
    assume n: "d ! i = newline"
    then have "sse_feed (drop (Suc i) d) (l, [], False) = sse_feed (drop (i + n) d) (l, [], sk)" for l using flag [of l] by simp
    then show ?thesis using assms(4) n by (simp add: d)
  next
    assume c: "d ! i = CR"
    then have "sse_feed (drop (Suc i) d) (l, [], True) = sse_feed (drop (i + n) d) (l, [], sk)" for l using flag [of l] by simp
    then show ?thesis using c by (simp add: d)
  qed
qed

text \<open>What the positions of the writer say of the stream.\<close>

definition scan_inv :: "init_writer \<Rightarrow> nat \<Rightarrow> bool" where
  "scan_inv w i \<longleftrightarrow> iw_pos w \<le> iw_line w \<and> iw_line w \<le> i \<and> i \<le> length (iw_held w)
     \<and> newline \<notin> set (part (iw_held w) (iw_line w) i) \<and> CR \<notin> set (part (iw_held w) (iw_line w) i)
     \<and> ends_line (part (iw_held w) (iw_pos w) (iw_line w))
     \<and> (iw_pos w < iw_line w \<longrightarrow> full_lines (part (iw_held w) (iw_pos w) (iw_line w)) \<noteq> [])
     \<and> (iw_skip_lf w \<longrightarrow> iw_line w = i \<and> (iw_pos w < i \<longrightarrow> iw_held w ! (i - 1) = CR))"

definition read_state :: "init_writer \<Rightarrow> nat \<Rightarrow> bytes list \<times> bytes \<times> bool" where
  "read_state w i = (full_lines (part (iw_held w) (iw_pos w) (iw_line w)), part (iw_held w) (iw_line w) i, iw_skip_lf w)"

definition scanned :: "init_writer \<Rightarrow> bytes list list \<times> (bytes list \<times> bytes \<times> bool) \<Rightarrow> init_writer \<Rightarrow> bool" where
  "scanned w r w' = (case events_verdict (iw_id w) (fst r) (iw_rejected w) of (acc, rej) \<Rightarrow>
     iw_committed w' = acc \<and> iw_rejected w' = rej
     \<and> (\<not> acc \<longrightarrow> iw_search w' = length (iw_held w) \<and> scan_inv w' (length (iw_held w)) \<and> read_state w' (length (iw_held w)) = snd r))"

lemma scan_end: "i \<ge> length (iw_held w) \<Longrightarrow> scan_sse i w = w\<lparr>iw_search := length (iw_held w)\<rparr>"
  by (subst scan_sse.simps) simp

lemma scan_lf:
  assumes "i < length (iw_held w)" and "iw_skip_lf w" and "iw_held w ! i = newline" and "iw_line w = i"
  shows "scan_sse i w = scan_sse (Suc i) (w\<lparr>iw_skip_lf := False, iw_pos := (if iw_pos w = i then Suc i else iw_pos w),
    iw_line := Suc i, iw_search := Suc i\<rparr>)"
  using assms by (subst scan_sse.simps) simp

lemma scan_other:
  assumes "i < length (iw_held w)" and "iw_held w ! i \<noteq> newline" and "iw_held w ! i \<noteq> CR"
  shows "scan_sse i w = scan_sse (Suc i) (w\<lparr>iw_skip_lf := False\<rparr>)"
  using assms by (subst scan_sse.simps) (simp add: terminator_def)

lemma scan_line:
  assumes "i < length (iw_held w)" and "terminator (iw_held w) i = (n, sk)" and "0 < n"
    and "\<not> (iw_skip_lf w \<and> iw_held w ! i = newline)" and "iw_line w \<noteq> i"
  shows "scan_sse i w = scan_sse (i + n) (w\<lparr>iw_skip_lf := sk, iw_line := i + n, iw_search := i + n\<rparr>)"
  using assms by (subst scan_sse.simps) (auto simp: Let_def)

lemma scan_blank:
  assumes "i < length (iw_held w)" and "terminator (iw_held w) i = (n, sk)" and "0 < n"
    and "\<not> (iw_skip_lf w \<and> iw_held w ! i = newline)" and "iw_line w = i"
    and "v = (if iw_pos w < i then judge_event (iw_id w) (event_lines (part (iw_held w) (iw_pos w) i)) else SkipEvent)"
  shows "scan_sse i w =
    (if v = AcceptEvent then commit_init (w\<lparr>iw_skip_lf := sk\<rparr>)
     else scan_sse (i + n) (w\<lparr>iw_skip_lf := sk, iw_rejected := iw_rejected w \<or> v = RefuseEvent,
       iw_pos := i + n, iw_line := i + n, iw_search := i + n\<rparr>))"
  using assms by (subst scan_sse.simps) (auto simp: Let_def reject_init_def split: event_verdict.split)

lemma scanned_cong:
  "iw_id w1 = iw_id w \<Longrightarrow> iw_held w1 = iw_held w \<Longrightarrow> iw_rejected w1 = iw_rejected w \<Longrightarrow> scanned w1 r w' \<Longrightarrow> scanned w r w'"
  by (simp add: scanned_def)

lemma scanned_event:
  assumes "judge_event (iw_id w) ls = v" and "v \<noteq> AcceptEvent"
    and "iw_id w1 = iw_id w" "iw_held w1 = iw_held w" "iw_rejected w1 = (iw_rejected w \<or> v = RefuseEvent)"
    and "scanned w1 (es, st) w'"
  shows "scanned w (ls # es, st) w'"
  using assms by (cases v) (simp_all add: scanned_def)

lemma scan_sse_scanned:
  assumes "scan_inv w i" and "\<not> iw_committed w"
  shows "scanned w (sse_feed (drop i (iw_held w)) (read_state w i)) (scan_sse i w)"
  using assms
proof (induction "length (iw_held w) - i" arbitrary: i w rule: less_induct)
  case less
  let ?d = "iw_held w"
  have inv: "iw_pos w \<le> iw_line w" "iw_line w \<le> i" "i \<le> length ?d" using less.prems(1) by (simp_all add: scan_inv_def)
  show ?case
  proof (cases "i < length ?d")
    case False
    then show ?thesis using less.prems inv by (simp add: scan_end scanned_def scan_inv_def read_state_def)
  next
    case i: True
    then have d: "drop i ?d = ?d ! i # drop (Suc i) ?d" by (simp add: Cons_nth_drop_Suc)
    consider (lf) "iw_skip_lf w" "?d ! i = newline"
      | (other) "?d ! i \<noteq> newline" "?d ! i \<noteq> CR"
      | (brk) "\<not> (iw_skip_lf w \<and> ?d ! i = newline)" "?d ! i = newline \<or> ?d ! i = CR" by blast
    then show ?thesis
    proof cases
      case lf
      then have l: "iw_line w = i" using less.prems(1) by (simp add: scan_inv_def)
      let ?w = "w\<lparr>iw_skip_lf := False, iw_pos := (if iw_pos w = i then Suc i else iw_pos w), iw_line := Suc i, iw_search := Suc i\<rparr>"
      have s: "scan_sse i w = scan_sse (Suc i) ?w" by (rule scan_lf [OF i lf l])
      have e: "iw_pos w \<noteq> i \<Longrightarrow> part ?d (iw_pos w) (Suc i) = part ?d (iw_pos w) i @ [newline]
          \<and> part ?d (iw_pos w) i \<noteq> [] \<and> List.last (part ?d (iw_pos w) i) = CR"
        using part_snoc [of "iw_pos w" i ?d] part_last [of "iw_pos w" i ?d] part_eq_Nil [of "iw_pos w" i ?d] inv l i lf less.prems(1)
        by (simp add: scan_inv_def)
      have a: "read_state ?w (Suc i) = (full_lines (part ?d (iw_pos w) i), [], False)"
        using e by (auto simp: read_state_def full_lines_lf)
      have v: "scan_inv ?w (Suc i)" using less.prems(1) i l inv e by (auto simp: scan_inv_def ends_line_def full_lines_lf)
      have "scanned ?w (sse_feed (drop (Suc i) ?d) (read_state ?w (Suc i))) (scan_sse (Suc i) ?w)"
        using less.hyps [of ?w "Suc i"] i v less.prems(2) by simp
      then have "scanned w (sse_feed (drop (Suc i) ?d) (read_state ?w (Suc i))) (scan_sse (Suc i) ?w)" by (rule scanned_cong [rotated 3]) simp_all
      then show ?thesis unfolding s a using lf l by (simp add: d read_state_def)
    next
      case other
      let ?w = "w\<lparr>iw_skip_lf := False\<rparr>"
      have s: "scan_sse i w = scan_sse (Suc i) ?w" by (rule scan_other [OF i other])
      have p: "part ?d (iw_line w) (Suc i) = part ?d (iw_line w) i @ [?d ! i]" using inv i by (simp add: part_snoc)
      have "scan_inv ?w (Suc i)" using less.prems(1) i other p by (auto simp: scan_inv_def)
      then have "scanned ?w (sse_feed (drop (Suc i) ?d) (read_state ?w (Suc i))) (scan_sse (Suc i) ?w)"
        using less.hyps [of ?w "Suc i"] i less.prems(2) by simp
      then have "scanned w (sse_feed (drop (Suc i) ?d) (read_state ?w (Suc i))) (scan_sse (Suc i) ?w)" by (rule scanned_cong [rotated 3]) simp_all
      then show ?thesis unfolding s using other p by (simp add: d read_state_def)
    next
      case brk
      obtain n sk where t: "terminator ?d i = (n, sk)" by fastforce
      then have n: "0 < n" using brk by (auto simp: terminator_def split: if_splits)
      have tp: "i + n \<le> length ?d" "part ?d i (i + n) \<in> {[newline], [CR], [CR, newline]}" "sk \<Longrightarrow> ?d ! (i + n - 1) = CR"
        using terminator_part [OF i t n] by auto
      note feed = feed_terminator [OF i t n brk(1)]
      show ?thesis
      proof (cases "iw_line w = i")
        case False
        let ?w = "w\<lparr>iw_skip_lf := sk, iw_line := i + n, iw_search := i + n\<rparr>"
        let ?cur = "part ?d (iw_line w) i"
        have c: "?cur \<noteq> []" using False inv by (simp add: part_eq_Nil)
        have p: "part ?d (iw_pos w) (i + n) = part ?d (iw_pos w) (iw_line w) @ ?cur @ part ?d i (i + n)"
          using inv part_split [of "iw_pos w" i "i + n" ?d] part_split [of "iw_pos w" "iw_line w" i ?d] by simp
        have f: "full_lines (part ?d (iw_pos w) (i + n)) = full_lines (part ?d (iw_pos w) (iw_line w)) @ [?cur]"
          unfolding p using less.prems(1) c tp(2) by (intro full_lines_line) (simp_all add: scan_inv_def)
        have "ends_line (part ?d (iw_pos w) (i + n))" unfolding p using tp(2) by (auto simp: ends_line_def)
        then have v: "scan_inv ?w (i + n)" using tp inv f by (auto simp: scan_inv_def)
        have "scanned ?w (sse_feed (drop (i + n) ?d) (read_state ?w (i + n))) (scan_sse (i + n) ?w)"
          using less.hyps [of ?w "i + n"] i n v less.prems(2) by simp
        then have "scanned w (sse_feed (drop (i + n) ?d) (read_state ?w (i + n))) (scan_sse (i + n) ?w)"
          by (rule scanned_cong [rotated 3]) simp_all
        then show ?thesis unfolding scan_line [OF i t n brk(1) False] using feed c f by (simp add: read_state_def)
      next
        case True
        let ?ls = "full_lines (part ?d (iw_pos w) i)"
        define v where "v = (if iw_pos w < i then judge_event (iw_id w) (event_lines (part ?d (iw_pos w) i)) else SkipEvent)"
        let ?w = "w\<lparr>iw_skip_lf := sk, iw_rejected := iw_rejected w \<or> v = RefuseEvent,
          iw_pos := i + n, iw_line := i + n, iw_search := i + n\<rparr>"
        note s = scan_blank [OF i t n brk(1) True v_def]
        have st: "read_state w i = (?ls, [], iw_skip_lf w)" using True by (simp add: read_state_def)
        have l: "?ls = [] \<longleftrightarrow> iw_pos w = i" using less.prems(1) True inv by (auto simp: scan_inv_def)
        have "scan_inv ?w (i + n)" using tp by (simp add: scan_inv_def ends_line_def)
        then have w: "scanned ?w (sse_feed (drop (i + n) ?d) ([], [], sk)) (scan_sse (i + n) ?w)"
          using less.hyps [of ?w "i + n"] i n less.prems(2) by (simp add: read_state_def)
        obtain es st' where r: "sse_feed (drop (i + n) ?d) ([], [], sk) = (es, st')" by (metis surj_pair)
        show ?thesis
        proof (cases "?ls = []")
          case True
          then have "v = SkipEvent" using l by (simp add: v_def)
          moreover from this have "scanned w (es, st') (scan_sse (i + n) ?w)"
            using w unfolding r by (intro scanned_cong [OF _ _ _ w [unfolded r]]) simp_all
          ultimately show ?thesis using s st feed True r by simp
        next
          case False
          then have j: "judge_event (iw_id w) ?ls = v" using l inv True by (simp add: v_def judge_full_lines)
          show ?thesis
          proof (cases "v = AcceptEvent")
            case True
            then show ?thesis using s st feed False r j by (simp add: scanned_def commit_init_def)
          next
            case na: False
            have "scanned w (?ls # es, st') (scan_sse (i + n) ?w)"
              by (rule scanned_event [OF j na _ _ _ w [unfolded r]]) simp_all
            then show ?thesis using s st feed False r na by simp
          qed
        qed
      qed
    qed
  qed
qed

subsection \<open>Writes\<close>

lemma scan_sse_frame [simp]:
  "iw_id (scan_sse i w) = iw_id w" "iw_sid (scan_sse i w) = iw_sid w" "iw_header (scan_sse i w) = iw_header w"
  "iw_status (scan_sse i w) = iw_status w" "iw_mode (scan_sse i w) = iw_mode w" "iw_held (scan_sse i w) = iw_held w"
  "iw_overflow (scan_sse i w) = iw_overflow w"
proof -
  have "iw_id (scan_sse i w) = iw_id w \<and> iw_sid (scan_sse i w) = iw_sid w \<and> iw_header (scan_sse i w) = iw_header w
    \<and> iw_status (scan_sse i w) = iw_status w \<and> iw_mode (scan_sse i w) = iw_mode w \<and> iw_held (scan_sse i w) = iw_held w
    \<and> iw_overflow (scan_sse i w) = iw_overflow w"
  proof (induction "length (iw_held w) - i" arbitrary: i w rule: less_induct)
    case less
    obtain n sk where t: "terminator (iw_held w) i = (n, sk)" by fastforce
    show ?case
      by (subst (1 2 3 4 5 6 7) scan_sse.simps)
        (auto simp: Let_def t less.hyps commit_init_def reject_init_def split: event_verdict.split)
  qed
  then show "iw_id (scan_sse i w) = iw_id w" "iw_sid (scan_sse i w) = iw_sid w" "iw_header (scan_sse i w) = iw_header w"
    "iw_status (scan_sse i w) = iw_status w" "iw_mode (scan_sse i w) = iw_mode w" "iw_held (scan_sse i w) = iw_held w"
    "iw_overflow (scan_sse i w) = iw_overflow w"
    by simp_all
qed

lemma parse_sse_frame [simp]:
  "iw_id (parse_sse w) = iw_id w" "iw_sid (parse_sse w) = iw_sid w" "iw_header (parse_sse w) = iw_header w"
  "iw_status (parse_sse w) = iw_status w" "iw_mode (parse_sse w) = iw_mode w" "iw_held (parse_sse w) = iw_held w"
  "iw_overflow (parse_sse w) = iw_overflow w"
  by (simp_all add: parse_sse_def)

lemma init_write_frame:
  assumes "iw_status w \<noteq> 0"
  shows "iw_id (snd (init_write p w)) = iw_id w \<and> iw_sid (snd (init_write p w)) = iw_sid w
    \<and> iw_header (snd (init_write p w)) = iw_header w \<and> iw_status (snd (init_write p w)) = iw_status w
    \<and> iw_mode (snd (init_write p w)) = iw_mode w"
  using assms by (simp add: init_write_def reject_init_def Let_def)

lemma init_writes_frame:
  "iw_status w \<noteq> 0 \<Longrightarrow> iw_id (init_writes ps w) = iw_id w \<and> iw_sid (init_writes ps w) = iw_sid w
    \<and> iw_header (init_writes ps w) = iw_header w \<and> iw_status (init_writes ps w) = iw_status w \<and> iw_mode (init_writes ps w) = iw_mode w"
proof (induction ps arbitrary: w)
  case (Cons p ps)
  then show ?case using init_write_frame [of w p] by (simp add: case_prod_beta)
qed simp

lemma scan_upstream: "iw_committed (scan_sse i w) \<Longrightarrow> \<not> iw_committed w \<Longrightarrow> iw_upstream (scan_sse i w) = header_get (iw_header w) ''Mcp-Session-Id''"
proof (induction "length (iw_held w) - i" arbitrary: i w rule: less_induct)
  case less
  obtain n sk where t: "terminator (iw_held w) i = (n, sk)" by fastforce
  show ?case using less.prems
    by (subst (asm) (1) scan_sse.simps, subst scan_sse.simps)
      (auto simp: Let_def t less.hyps commit_init_def reject_init_def split: event_verdict.splits if_splits)
qed

lemma events_verdict_append:
  "events_verdict req (a @ b) rej = (case events_verdict req a rej of (acc, rej') \<Rightarrow> if acc then (True, rej') else events_verdict req b rej')"
  by (induction a arbitrary: rej) (auto split: event_verdict.split)

lemma events_verdict_accepts: "fst (events_verdict req es rej) \<longleftrightarrow> AcceptEvent \<in> judge_event req ` set es"
  by (induction es arbitrary: rej) (auto split: event_verdict.split)

lemma events_verdict_rejects:
  "\<not> fst (events_verdict req es rej) \<Longrightarrow> snd (events_verdict req es rej) \<longleftrightarrow> rej \<or> RefuseEvent \<in> judge_event req ` set es"
  by (induction es arbitrary: rej) (auto split: event_verdict.splits)

text \<open>A writer that has read a stream without deciding.\<close>

definition reading :: "init_writer \<Rightarrow> bool" where
  "reading w \<longleftrightarrow> iw_status w \<noteq> 0 \<and> iw_mode w = Streaming \<and> \<not> iw_committed w \<and> \<not> iw_rejected w \<and> iw_search w = length (iw_held w)
     \<and> scan_inv w (length (iw_held w)) \<and> read_state w (length (iw_held w)) = snd (sse_feed (iw_held w) ([], [], False))
     \<and> events_verdict (iw_id w) (sse_events (iw_held w)) False = (False, False)"

lemma scan_inv_append: "scan_inv w i \<Longrightarrow> i = length (iw_held w) \<Longrightarrow> scan_inv (w\<lparr>iw_held := iw_held w @ p\<rparr>) i"
  by (auto simp: scan_inv_def nth_append)

lemma read_state_append: "scan_inv w i \<Longrightarrow> i = length (iw_held w) \<Longrightarrow> read_state (w\<lparr>iw_held := iw_held w @ p\<rparr>) i = read_state w i"
  by (auto simp: read_state_def scan_inv_def)

lemma sse_events_append: "sse_events (s @ t) = sse_events s @ fst (sse_feed t (snd (sse_feed s ([], [], False))))"
  by (simp add: sse_events_def sse_feed_append Let_def case_prod_beta)

lemma parse_sse_reads:
  assumes "reading w" and "w' = parse_sse (w\<lparr>iw_held := iw_held w @ p\<rparr>)"
  shows "(iw_committed w', iw_rejected w') = events_verdict (iw_id w) (sse_events (iw_held w @ p)) False"
    and "\<not> iw_committed w' \<Longrightarrow> \<not> iw_rejected w' \<Longrightarrow> reading w'"
proof -
  let ?w = "w\<lparr>iw_held := iw_held w @ p\<rparr>"
  let ?n = "length (iw_held w)"
  let ?r = "sse_feed p (snd (sse_feed (iw_held w) ([], [], False)))"
  note r = assms(1) [unfolded reading_def]
  have v: "events_verdict (iw_id w) (sse_events (iw_held w @ p)) False = events_verdict (iw_id w) (fst ?r) False"
    using r by (simp add: sse_events_append events_verdict_append)
  have st: "snd (sse_feed (iw_held w @ p) ([], [], False)) = snd ?r" by (simp add: sse_feed_append Let_def case_prod_beta)
  have "w' = scan_sse ?n ?w"
  proof (cases "iw_held w @ p = []")
    case True
    then have "iw_held w = []" "p = []" by simp_all
    then show ?thesis using r True assms(2) by (simp add: parse_sse_def scan_end)
  next
    case False
    then show ?thesis using r assms(2) by (auto simp: parse_sse_def)
  qed
  moreover have "scanned ?w (sse_feed (drop ?n (iw_held ?w)) (read_state ?w ?n)) (scan_sse ?n ?w)"
    using r by (intro scan_sse_scanned) (simp_all add: scan_inv_append)
  ultimately have s: "scanned ?w ?r w'" using r read_state_append [of w ?n p] by simp
  then show "(iw_committed w', iw_rejected w') = events_verdict (iw_id w) (sse_events (iw_held w @ p)) False"
    using r unfolding v by (auto simp: scanned_def split: prod.splits)
  then show "\<not> iw_committed w' \<Longrightarrow> \<not> iw_rejected w' \<Longrightarrow> reading w'"
    using s r unfolding reading_def by (auto simp: assms(2) scanned_def st split: prod.splits)
qed

lemma events_undecided: "events_verdict req es False = (False, False) \<longleftrightarrow> (\<forall>v\<in>judge_event req ` set es. v = SkipEvent)"
proof -
  have "events_verdict req es False = (False, False) \<longleftrightarrow> AcceptEvent \<notin> judge_event req ` set es \<and> RefuseEvent \<notin> judge_event req ` set es"
    using events_verdict_accepts [of req es False] events_verdict_rejects [of req es False] by (metis prod.collapse fst_conv snd_conv)
  then show ?thesis by (metis event_verdict.exhaust event_verdict.distinct)
qed

text \<open>The decision the writer takes, from what it holds and the chunks to come.\<close>

fun chunks_accepted :: "json \<Rightarrow> bytes \<Rightarrow> bytes list \<Rightarrow> bool" where
  "chunks_accepted req s [] = False"
| "chunks_accepted req s (p # ps) =
     (length s + length p \<le> body_limit
      \<and> (case events_verdict req (sse_events (s @ p)) False of
           (True, _) \<Rightarrow> True
         | (False, True) \<Rightarrow> False
         | (False, False) \<Rightarrow> chunks_accepted req (s @ p) ps))"

lemma init_writes_committed: "iw_committed w \<Longrightarrow> iw_status w \<noteq> 0 \<Longrightarrow> init_writes ps w = w"
  by (induction ps) (simp_all add: init_write_def)

lemma init_writes_decision:
  "reading w \<Longrightarrow> iw_committed (init_writes ps w) = chunks_accepted (iw_id w) (iw_held w) ps
    \<and> (iw_committed (init_writes ps w) \<longrightarrow> iw_upstream (init_writes ps w) = header_get (iw_header w) ''Mcp-Session-Id'')"
proof (induction ps arbitrary: w)
  case Nil
  then show ?case by (simp add: reading_def)
next
  case (Cons p ps)
  note r = Cons.prems [unfolded reading_def]
  show ?case
  proof (cases "length (iw_held w) + length p \<le> body_limit")
    case False
    then show ?thesis using r by (simp add: init_write_def reject_init_def)
  next
    case True
    define w' where "w' = parse_sse (w\<lparr>iw_held := iw_held w @ p\<rparr>)"
    have wr: "init_write p w = (iw_committed w' \<or> \<not> iw_rejected w', w')" using r True by (simp add: init_write_def w'_def Let_def)
    note p = parse_sse_reads [OF Cons.prems w'_def]
    have f: "iw_id w' = iw_id w" "iw_held w' = iw_held w @ p" "iw_header w' = iw_header w" "iw_status w' \<noteq> 0" using r by (simp_all add: w'_def)
    show ?thesis
    proof (cases "iw_committed w'")
      case c: True
      then have "iw_upstream w' = header_get (iw_header w) ''Mcp-Session-Id''"
        using r scan_upstream by (auto simp: w'_def parse_sse_def)
      then show ?thesis using wr p(1) [symmetric] True c f by (simp add: init_writes_committed split: prod.splits bool.splits)
    next
      case c: False
      show ?thesis
      proof (cases "iw_rejected w'")
        case j: True
        then show ?thesis using wr p(1) [symmetric] True c by (simp split: prod.splits bool.splits)
      next
        case False
        then show ?thesis using wr p(1) [symmetric] True c f Cons.IH [OF p(2) [OF c False]] by (simp split: prod.splits bool.splits)
      qed
    qed
  qed
qed

definition stream_verdicts :: "json \<Rightarrow> bytes \<Rightarrow> event_verdict list" where
  "stream_verdicts req s = map (judge_event req) (sse_events s)"

definition first_verdict :: "event_verdict list \<Rightarrow> event_verdict option" where
  "first_verdict vs = List.find (\<lambda>v. v \<noteq> SkipEvent) vs"

lemma first_verdict_cases:
  "first_verdict vs = Some AcceptEvent \<or> first_verdict vs = Some RefuseEvent \<or> (\<forall>v\<in>set vs. v = SkipEvent)"
proof (cases "first_verdict vs")
  case None
  then show ?thesis by (auto simp: first_verdict_def find_None_iff)
next
  case (Some v)
  then have "v \<noteq> SkipEvent" by (auto simp: first_verdict_def find_Some_iff)
  then show ?thesis using Some by (cases v) auto
qed

lemma stream_verdicts_append: "\<exists>vs. stream_verdicts req (s @ t) = stream_verdicts req s @ vs"
  by (simp add: stream_verdicts_def sse_events_append)

lemma chunks_accepted_sound: "chunks_accepted req s ps \<Longrightarrow> AcceptEvent \<in> set (stream_verdicts req (s @ concat ps))"
proof (induction ps arbitrary: s)
  case (Cons p ps)
  obtain vs where vs: "stream_verdicts req (s @ p @ concat ps) = stream_verdicts req (s @ p) @ vs"
    using stream_verdicts_append [of req "s @ p" "concat ps"] by auto
  show ?case
  proof (cases "fst (events_verdict req (sse_events (s @ p)) False)")
    case True
    then show ?thesis using vs by (simp add: events_verdict_accepts stream_verdicts_def)
  next
    case False
    then have "chunks_accepted req (s @ p) ps" using Cons.prems by (auto split: prod.splits bool.splits)
    then show ?thesis using Cons.IH [of "s @ p"] by simp
  qed
qed simp

lemma find_append: "List.find P (xs @ ys) = (case List.find P xs of None \<Rightarrow> List.find P ys | Some x \<Rightarrow> Some x)"
  by (induction xs) simp_all

lemma chunks_accepted_first:
  assumes "first_verdict (stream_verdicts req (s @ concat ps)) = Some AcceptEvent"
    and "length (s @ concat ps) \<le> body_limit" and "\<forall>v\<in>set (stream_verdicts req s). v = SkipEvent"
  shows "chunks_accepted req s ps"
  using assms
proof (induction ps arbitrary: s)
  case Nil
  then show ?case by (auto simp: first_verdict_def find_Some_iff) (metis event_verdict.distinct(3) nth_mem)
next
  case (Cons p ps)
  obtain vs where vs: "stream_verdicts req (s @ p @ concat ps) = stream_verdicts req (s @ p) @ vs"
    using stream_verdicts_append [of req "s @ p" "concat ps"] by auto
  obtain acc rej where e: "events_verdict req (sse_events (s @ p)) False = (acc, rej)" by fastforce
  have ap: "\<not> acc \<Longrightarrow> AcceptEvent \<notin> set (stream_verdicts req (s @ p))"
    using events_verdict_accepts [of req "sse_events (s @ p)" False] e by (simp add: stream_verdicts_def)
  have "\<not> acc \<Longrightarrow> first_verdict (stream_verdicts req (s @ p)) = None"
  proof (rule ccontr)
    assume a: "\<not> acc" and "first_verdict (stream_verdicts req (s @ p)) \<noteq> None"
    then obtain v where v: "first_verdict (stream_verdicts req (s @ p)) = Some v" by blast
    then have "v \<in> set (stream_verdicts req (s @ p))" by (auto simp: first_verdict_def find_Some_iff)
    moreover have "v = AcceptEvent" using Cons.prems(1) v vs by (simp add: first_verdict_def find_append)
    ultimately show False using ap a by blast
  qed
  then have skip: "\<not> acc \<Longrightarrow> \<forall>v\<in>set (stream_verdicts req (s @ p)). v = SkipEvent" by (auto simp: first_verdict_def find_None_iff)
  then have "\<not> acc \<Longrightarrow> \<not> rej"
    using e events_undecided [of req "sse_events (s @ p)"] by (auto simp: stream_verdicts_def)
  moreover have "\<not> acc \<Longrightarrow> chunks_accepted req (s @ p) ps" using Cons skip by simp
  ultimately show ?case using Cons.prems(2) e by (auto split: bool.split)
qed

text \<open>The write that decides is the first that completes an event that is not skipped.\<close>

definition all_skipped :: "json \<Rightarrow> bytes \<Rightarrow> bool" where
  "all_skipped req s \<longleftrightarrow> (\<forall>v\<in>set (stream_verdicts req s). v = SkipEvent)"

lemma all_skipped_prefix: "all_skipped req (s @ t) \<Longrightarrow> all_skipped req s"
  using stream_verdicts_append [of req s t] by (auto simp: all_skipped_def)

lemma chunks_accepted_iff:
  "chunks_accepted req s ps \<longleftrightarrow>
    (\<exists>k<length ps. length (s @ concat (take (Suc k) ps)) \<le> body_limit
      \<and> AcceptEvent \<in> set (stream_verdicts req (s @ concat (take (Suc k) ps)))
      \<and> (k = 0 \<or> all_skipped req (s @ concat (take k ps))))"
proof (induction ps arbitrary: s)
  case (Cons p ps)
  obtain acc rej where e: "events_verdict req (sse_events (s @ p)) False = (acc, rej)" by fastforce
  have acc: "acc \<longleftrightarrow> AcceptEvent \<in> set (stream_verdicts req (s @ p))"
    using events_verdict_accepts [of req "sse_events (s @ p)" False] e by (simp add: stream_verdicts_def)
  have skip: "\<not> acc \<Longrightarrow> \<not> rej \<longleftrightarrow> all_skipped req (s @ p)"
    using e events_undecided [of req "sse_events (s @ p)"] by (auto simp: all_skipped_def stream_verdicts_def)
  let ?P = "\<lambda>s ps k. length (s @ concat (take (Suc k) ps)) \<le> body_limit
      \<and> AcceptEvent \<in> set (stream_verdicts req (s @ concat (take (Suc k) ps))) \<and> (k = 0 \<or> all_skipped req (s @ concat (take k ps)))"
  have first: "?P s (p # ps) 0 \<longleftrightarrow> length (s @ p) \<le> body_limit \<and> acc" by (simp add: acc)
  have later: "?P s (p # ps) (Suc k) \<longleftrightarrow> all_skipped req (s @ p) \<and> ?P (s @ p) ps k" for k
    using all_skipped_prefix [of req "s @ p" "concat (take k ps)"] by auto
  have fits: "?P (s @ p) ps k \<Longrightarrow> length (s @ p) \<le> body_limit" for k by simp
  have "(\<exists>k<length (p # ps). ?P s (p # ps) k) \<longleftrightarrow> ?P s (p # ps) 0 \<or> (\<exists>k<length ps. ?P s (p # ps) (Suc k))"
    using Ex_less_Suc2 [of "length ps" "?P s (p # ps)"] by (simp only: list.size(4) add_Suc_right add_0_right)
  also have "\<dots> \<longleftrightarrow> (length (s @ p) \<le> body_limit \<and> acc) \<or> (all_skipped req (s @ p) \<and> chunks_accepted req (s @ p) ps)"
    unfolding first later using Cons.IH [of "s @ p"] by blast
  also have "\<dots> \<longleftrightarrow> chunks_accepted req s (p # ps)"
  proof -
    have "chunks_accepted req (s @ p) ps \<Longrightarrow> length (s @ p) \<le> body_limit" using Cons.IH [of "s @ p"] fits by blast
    moreover have "all_skipped req (s @ p) \<Longrightarrow> \<not> acc" by (auto simp: acc all_skipped_def)
    ultimately show ?thesis using skip e by (cases acc; cases rej) auto
  qed
  finally show ?case by (rule sym)
qed simp

subsection \<open>Who gets a session\<close>

definition event_payload :: "bytes list \<Rightarrow> bytes" where
  "event_payload e = join_lines (List.map_filter event_part e)"

definition success_reply :: "json \<Rightarrow> members \<Rightarrow> bool" where
  "success_reply req ms \<longleftrightarrow> map_of ms ''error'' = None \<and> map_of ms ''result'' \<noteq> None
     \<and> (\<exists>k v. (k, v) \<in> set ms \<and> field_among reply_fields k = Some ''id'' \<and> id_matches req (Some v))
     \<and> (\<exists>k. (k, JStr ''2.0'') \<in> set ms \<and> field_among reply_fields k = Some ''jsonrpc'')"

definition reply_payloads :: "(bytes \<times> bytes) list \<Rightarrow> bytes \<Rightarrow> bytes list" where
  "reply_payloads h s =
     (if has_prefix (header_get h ''Content-Type'') ''text/event-stream'' then map event_payload (sse_events s) else [s])"

lemma buffered_writes:
  "iw_mode w = Buffered \<Longrightarrow> iw_status w \<noteq> 0 \<Longrightarrow> \<not> iw_committed w \<Longrightarrow> \<not> iw_rejected w \<Longrightarrow> \<not> iw_overflow w \<Longrightarrow>
    \<not> iw_committed (init_writes ps w) \<and> (iw_overflow (init_writes ps w) \<or> iw_held (init_writes ps w) = iw_held w @ concat ps)"
proof (induction ps arbitrary: w)
  case (Cons p ps)
  show ?case
  proof (cases "length (iw_held w) + length p > body_limit")
    case True
    then show ?thesis using Cons.prems by (simp add: init_write_def reject_init_def)
  next
    case False
    then show ?thesis using Cons.prems Cons.IH [of "w\<lparr>iw_held := iw_held w @ p\<rparr>"] by (simp add: init_write_def)
  qed
qed simp

lemma start_writer [simp]:
  "iw_id (write_header st (new_init_writer req sid h)) = req" "iw_sid (write_header st (new_init_writer req sid h)) = sid"
  "iw_header (write_header st (new_init_writer req sid h)) = h" "iw_held (write_header st (new_init_writer req sid h)) = []"
  "iw_status (write_header st (new_init_writer req sid h)) = st"
  "\<not> iw_committed (write_header st (new_init_writer req sid h))" "\<not> iw_rejected (write_header st (new_init_writer req sid h))"
  "\<not> iw_overflow (write_header st (new_init_writer req sid h))"
  "iw_mode (write_header st (new_init_writer req sid h)) =
     (if 200 \<le> st \<and> st < 300 \<and> has_prefix (header_get h ''Content-Type'') ''text/event-stream'' then Streaming else Buffered)"
  by (simp_all add: write_header_def new_init_writer_def)

lemma start_reading:
  "200 \<le> st \<Longrightarrow> st < 300 \<Longrightarrow> has_prefix (header_get h ''Content-Type'') ''text/event-stream'' \<Longrightarrow>
    reading (write_header st (new_init_writer req sid h))"
  by (simp add: reading_def scan_inv_def read_state_def sse_events_def ends_line_def write_header_def new_init_writer_def)

lemma map_of_SomeD2: "map_of ms k \<noteq> None \<Longrightarrow> \<exists>v. (k, v) \<in> set ms"
  by (metis map_of_SomeD not_None_eq)

lemma reply_version_source:
  "reply_version ms old = Some v \<Longrightarrow> v \<noteq> old \<Longrightarrow>
    \<exists>k. (k, JStr v) \<in> set ms \<and> field_among reply_fields k = Some ''jsonrpc''"
proof (induction ms old rule: reply_version.induct)
  case (2 k x ms old)
  show ?case
  proof (cases "field_among reply_fields k = Some ''jsonrpc''")
    case True
    then obtain y where y: "read_str x old = Some y" "reply_version ms y = Some v" using 2 by (auto simp: bind_eq_Some_conv)
    show ?thesis
    proof (cases "v = y")
      case True
      then have "x = JStr v" using y(1) 2 by (cases x) (auto split: if_splits)
      then show ?thesis using \<open>field_among _ k = _\<close> by auto
    next
      case False
      then show ?thesis using 2(1) [OF True y(1) y(2)] by auto
    qed
  qed (use 2 in auto)
qed simp

lemma reply_field_names: "field_among reply_fields ''id'' = Some ''id''"
  "field_among reply_fields ''jsonrpc'' = Some ''jsonrpc''"
  by (simp_all add: field_among_def)

lemma map_of_rev_None: "map_of (rev ms) k = None \<longleftrightarrow> map_of ms k = None"
  by (simp add: map_of_eq_None_iff)

lemma judged_success: "judge_reply req ms = AcceptEvent \<Longrightarrow> success_reply req ms"
proof -
  assume a: "judge_reply req ms = AcceptEvent"
  have g: "map_of (collect ms) ''method'' = None" "id_matches req (map_of (collect ms) ''id'')"
    "map_of (collect ms) ''jsonrpc'' = Some (JStr ''2.0'')" "map_of (collect ms) ''error'' = None" "map_of (collect ms) ''result'' \<noteq> None"
    using a by (simp_all add: judge_reply_def Let_def split: if_splits)
  obtain v where v: "map_of (collect ms) ''id'' = Some v" using g(2) by (auto simp: id_matches_def split: option.splits)
  then have "(''id'', v) \<in> set ms" by (auto dest: map_of_SomeD)
  moreover have "id_matches req (Some v)" using g(2) v by simp
  moreover have "(''jsonrpc'', JStr ''2.0'') \<in> set ms" using g(3) by (auto dest: map_of_SomeD)
  moreover have "map_of ms ''error'' = None" "map_of ms ''result'' \<noteq> None" using g(4,5) by (simp_all add: map_of_rev_None)
  ultimately show ?thesis unfolding success_reply_def using reply_field_names by blast
qed

lemma judged_event_success:
  assumes "judge_event req e = AcceptEvent"
  shows "\<exists>ms. json_parse (event_payload e) = Some (JObj ms) \<and> success_reply req ms"
  using assms judged_success
  by (auto simp: judge_event_def event_payload_def Let_def split: if_splits option.splits json.splits)

lemma validated_success:
  assumes "validate_initialize st ct body req" and "\<not> has_prefix ct ''text/event-stream''"
  shows "200 \<le> st \<and> st < 300 \<and> (\<exists>ms. json_parse body = Some (JObj ms) \<and> success_reply req ms)"
proof -
  have st: "200 \<le> st" "st < 300" using assms by (simp_all add: validate_initialize_def split: if_splits)
  then obtain ms where ms: "json_parse body = Some (JObj ms)"
    using assms by (auto simp: validate_initialize_def split: option.splits json.splits)
  then obtain ver where m: "reply_version ms [] = Some ver" using assms st by (auto simp: validate_initialize_def split: option.splits)
  then have f: "ver = ''2.0''" "map_of ms ''error'' = None" "map_of ms ''result'' \<noteq> None" "id_matches req (reply_member ''id'' ms)"
    using assms st ms by (simp_all add: validate_initialize_def)
  then obtain v where v: "reply_member ''id'' ms = Some v" "id_matches req (Some v)"
    by (cases "reply_member ''id'' ms") (simp_all add: id_matches_def)
  then obtain k where "(k, v) \<in> set ms" "field_among reply_fields k = Some ''id''"
    by (fastforce simp: reply_member_def dest!: map_of_SomeD)
  then show ?thesis unfolding success_reply_def using reply_version_source [OF m] st ms f v by auto
qed

lemma session_success_reply:
  assumes "handshake req sid h status ps = (reply, Some u)" and "status \<noteq> 0"
  shows "u = header_get h ''Mcp-Session-Id'' \<and> 200 \<le> status \<and> status < 300
    \<and> (\<exists>payload ms. payload \<in> set (reply_payloads h (concat ps)) \<and> json_parse payload = Some (JObj ms) \<and> success_reply req ms)"
proof (cases "200 \<le> status \<and> status < 300 \<and> has_prefix (header_get h ''Content-Type'') ''text/event-stream''")
  case True
  let ?w = "write_header status (new_init_writer req sid h)"
  note d = init_writes_decision [of ?w ps, OF start_reading]
  have m: "iw_mode (init_writes ps ?w) = Streaming" using True init_writes_frame [of ?w ps] assms(2) by simp
  then have c: "iw_committed (init_writes ps ?w)" using assms(1) by (simp add: handshake_def finish_init_def split: if_splits)
  then have "chunks_accepted req [] ps" using d True by simp
  then obtain e where e: "e \<in> set (sse_events (concat ps))" "judge_event req e = AcceptEvent"
    using chunks_accepted_sound [of req "[]" ps] by (auto simp: stream_verdicts_def)
  then show ?thesis using judged_event_success [OF e(2)] True d c assms(1)
    by (auto simp: reply_payloads_def handshake_def finish_init_def)
next
  case False
  let ?w = "write_header status (new_init_writer req sid h)"
  have b: "\<not> iw_committed (init_writes ps ?w) \<and> (iw_overflow (init_writes ps ?w) \<or> iw_held (init_writes ps ?w) = concat ps)"
    using buffered_writes [of ?w ps] False assms(2) by auto
  have m: "iw_mode (init_writes ps ?w) = Buffered" "iw_header (init_writes ps ?w) = h" "iw_id (init_writes ps ?w) = req"
      "iw_status (init_writes ps ?w) = status"
    using False init_writes_frame [of ?w ps] assms(2) by auto
  have v: "validate_initialize status (header_get h ''Content-Type'') (concat ps) req" "u = header_get h ''Mcp-Session-Id''"
    using assms(1) b m by (auto simp: handshake_def finish_init_def commit_init_def split: if_splits)
  have "200 \<le> status" "status < 300" using v(1) by (simp_all add: validate_initialize_def split: if_splits)
  then have "\<not> has_prefix (header_get h ''Content-Type'') ''text/event-stream''" using False by simp
  then show ?thesis using validated_success [OF v(1)] v(2) by (auto simp: reply_payloads_def)
qed

text \<open>
  C9. A session is granted only for a success response: the status is 2xx, and the reply, or one event of its stream, is a
  JSON object of version 2.0 with a result, without an error, whose id is the id of the request; the upstream's session is the one its headers name.
\<close>

theorem session_needs_success_reply:
  assumes "handshake req sid h status ps = (reply, Some u)" and "status \<noteq> 0"
  shows "u = header_get h ''Mcp-Session-Id'' \<and> 200 \<le> status \<and> status < 300
    \<and> (\<exists>payload ms. payload \<in> set (reply_payloads h (concat ps)) \<and> json_parse payload = Some (JObj ms) \<and> success_reply req ms)"
  by (rule session_success_reply [OF assms])

text \<open>
  The client sees the gateway's own session id in the reply exactly when the session is granted, and never the upstream's.
\<close>

theorem reply_names_granted_session:
  assumes "handshake req sid h status ps = (Some r, granted)" and "status \<noteq> 0"
  shows "map_of (hr_headers r) ''Mcp-Session-Id'' = (if granted = None then None else Some sid)"
proof -
  let ?w = "init_writes ps (write_header status (new_init_writer req sid h))"
  have s: "iw_sid ?w = sid" using init_writes_frame [of "write_header status (new_init_writer req sid h)" ps] assms(2) by simp
  have a: "map_of (allowed_headers x) ''Mcp-Session-Id'' = None" for x by (auto simp: allowed_headers_def map_of_eq_None_iff)
  have "map_of (allowed_headers x @ [(''Mcp-Session-Id'', y)]) ''Mcp-Session-Id'' = Some y" for x y by (simp add: map_add_def a)
  then show ?thesis using assms(1) s a
    by (auto simp: handshake_def finish_init_def with_session_def without_session_def split: if_splits init_mode.splits)
qed

lemma stream_granted:
  assumes "200 \<le> status" and "status < 300" and "has_prefix (header_get h ''Content-Type'') ''text/event-stream''"
  shows "snd (handshake req sid h status ps) = (if chunks_accepted req [] ps then Some (header_get h ''Mcp-Session-Id'') else None)"
proof -
  let ?w = "write_header status (new_init_writer req sid h)"
  have d: "iw_committed (init_writes ps ?w) = chunks_accepted req [] ps"
      "iw_committed (init_writes ps ?w) \<Longrightarrow> iw_upstream (init_writes ps ?w) = header_get h ''Mcp-Session-Id''"
    using init_writes_decision [of ?w ps, OF start_reading] assms by simp_all
  have m: "iw_mode (init_writes ps ?w) = Streaming" using assms init_writes_frame [of ?w ps] by simp
  then show ?thesis using d by (simp add: handshake_def finish_init_def)
qed

text \<open>
  C8. A streamed reply is decided by its events. The session is granted exactly if some write, within the limit, completes a success
  and no earlier write completed an event that decides: the first write with a decisive event decides, a success among its events before
  or after a refusal. So unless a refusal is the first decisive event, the decision is that of the events alone, however the stream is
  cut into writes; after a refusal it depends on the cut whether a later success still counts.
\<close>

theorem streamed_session_decision:
  assumes "200 \<le> status" and "status < 300" and "has_prefix (header_get h ''Content-Type'') ''text/event-stream''"
    and granted_def: "granted \<longleftrightarrow> snd (handshake req sid h status ps) = Some (header_get h ''Mcp-Session-Id'')"
  shows "(granted \<or> snd (handshake req sid h status ps) = None)
    \<and> (granted \<longleftrightarrow> (\<exists>k<length ps. length (concat (take (Suc k) ps)) \<le> body_limit
          \<and> AcceptEvent \<in> set (stream_verdicts req (concat (take (Suc k) ps)))
          \<and> (k = 0 \<or> all_skipped req (concat (take k ps)))))
    \<and> (length (concat ps) \<le> body_limit \<and> first_verdict (stream_verdicts req (concat ps)) \<noteq> Some RefuseEvent \<longrightarrow>
         (granted \<longleftrightarrow> first_verdict (stream_verdicts req (concat ps)) = Some AcceptEvent))"
proof -
  let ?vs = "stream_verdicts req (concat ps)"
  have g: "snd (handshake req sid h status ps) = (if chunks_accepted req [] ps then Some (header_get h ''Mcp-Session-Id'') else None)"
    by (rule stream_granted [OF assms(1-3)])
  then have gr: "granted \<longleftrightarrow> chunks_accepted req [] ps" by (simp add: granted_def)
  moreover have "chunks_accepted req [] ps \<Longrightarrow> AcceptEvent \<in> set ?vs"
    using chunks_accepted_sound [of req "[]" ps] by simp
  moreover have "length (concat ps) \<le> body_limit \<Longrightarrow> first_verdict ?vs = Some AcceptEvent \<Longrightarrow> chunks_accepted req [] ps"
    using chunks_accepted_first [of req "[]" ps] by (simp add: stream_verdicts_def sse_events_def)
  moreover have "AcceptEvent \<in> set ?vs \<Longrightarrow> first_verdict ?vs \<noteq> Some RefuseEvent \<Longrightarrow> first_verdict ?vs = Some AcceptEvent"
    using first_verdict_cases [of ?vs] by blast
  ultimately show ?thesis using chunks_accepted_iff [of req "[]" ps] g by auto
qed

subsection \<open>Examples\<close>

definition event_line :: "json \<Rightarrow> bytes" where
  "event_line j = ''data: '' @ json_print j"

definition sse_event :: "json \<Rightarrow> bytes" where
  "sse_event j = event_line j @ [newline, newline]"

definition demo_success :: json where
  "demo_success = JObj [(''id'', JNum ''1''), (''jsonrpc'', JStr ''2.0''), (''result'', JBool True)]"

definition demo_refusal :: json where
  "demo_refusal = JObj [(''error'', JBool True), (''id'', JNum ''1''), (''jsonrpc'', JStr ''2.0'')]"

definition demo_stream :: "(bytes \<times> bytes) list" where
  "demo_stream = [(''Content-Type'', ''text/event-stream''), (''Mcp-Session-Id'', ''up'')]"

lemma sse_feed_plain: "newline \<notin> set t \<Longrightarrow> CR \<notin> set t \<Longrightarrow> t \<noteq> [] \<Longrightarrow> sse_feed (t @ s) (ls, cur, f) = sse_feed s (ls, cur @ t, False)"
proof (induction t arbitrary: cur f)
  case (Cons c t)
  then show ?case by (cases "t = []") auto
qed simp

lemma visible_no_breaks: "visible s \<Longrightarrow> newline \<notin> set s \<and> CR \<notin> set s"
  by (force simp: visible_def newline_def)

lemma sse_events_one:
  assumes "s = sse_event j @ t" and "numbers_ok j"
  shows "sse_events s = [event_line j] # sse_events t"
proof -
  have "newline \<notin> set (event_line j)" "CR \<notin> set (event_line j)"
    using visible_no_breaks [of "event_line j"] visible_print [OF assms(2)] by (simp_all add: event_line_def)
  then have "sse_feed s ([], [], False) = sse_feed (newline # newline # t) ([], event_line j, False)"
    using sse_feed_plain [of "event_line j" "newline # newline # t" "[]" "[]" False] by (simp add: assms sse_event_def event_line_def)
  then show ?thesis by (simp add: sse_events_def event_line_def split: prod.split)
qed

lemma judge_json_event:
  assumes "wf_json (JObj ms)" and "json_depth (JObj ms) \<le> max_nesting" and "numbers_ok (JObj ms)"
  shows "judge_event req [event_line (JObj ms)] = judge_reply req ms"
proof -
  have "CR \<notin> set (json_print (JObj ms))" using visible_no_breaks [OF visible_print [OF assms(3)]] by blast
  then have "List.last (json_print (JObj ms)) \<noteq> CR" by (metis last_in_set list.discI json_print.simps append_Cons append_Nil)
  then have "event_part (event_line (JObj ms)) = Some (json_print (JObj ms))"
    by (simp add: event_part_def has_prefix_def trim_prefix_def event_line_def)
  then show ?thesis using json_roundtrip [OF assms(1,2)] by (simp add: judge_event_def)
qed

lemmas demo_reply_eval = demo_success_def demo_refusal_def judge_reply_def id_matches_def valid_number_def scan_number_def is_digit_def
  max_nesting_def coerce_utf8_ascii

lemma demo_judged:
  "judge_event (JNum ''1'') [event_line demo_success] = AcceptEvent"
  "judge_event (JNum ''1'') [event_line demo_refusal] = RefuseEvent"
  unfolding demo_success_def demo_refusal_def by (subst judge_json_event; simp add: demo_reply_eval)+

lemma demo_numbers [simp]: "numbers_ok demo_success" "numbers_ok demo_refusal"
  by (simp_all add: demo_reply_eval)

lemma demo_stream_text [simp]: "header_get demo_stream ''Mcp-Session-Id'' = ''up''"
  "has_prefix (header_get demo_stream ''Content-Type'') ''text/event-stream''"
  by (simp_all add: header_get_def demo_stream_def has_prefix_def)

lemma demo_events:
  "sse_events [] = []" "sse_events (sse_event demo_success) = [[event_line demo_success]]"
  "sse_events (sse_event demo_refusal @ s) = [event_line demo_refusal] # sse_events s"
  using sse_events_one [of _ demo_success "[]"] sse_events_one [of _ demo_refusal] by (simp_all add: sse_events_def)

lemma demo_lengths:
  "length (sse_event demo_refusal) + length (sse_event demo_success) \<le> body_limit"
proof -
  have "length (json_print demo_refusal) = 37" "length (json_print demo_success) = 38" by code_simp+
  then show ?thesis by (simp add: body_limit_def sse_event_def event_line_def)
qed

text \<open>
  Two replies to the request in one stream, an error and then a success: in one write the session is granted, in two writes it is refused.
\<close>

theorem refusal_depends_on_chunking:
  "snd (handshake (JNum ''1'') sid demo_stream 200 [sse_event demo_refusal @ sse_event demo_success]) = Some ''up''
   \<and> snd (handshake (JNum ''1'') sid demo_stream 200 [sse_event demo_refusal, sse_event demo_success]) = None"
  using demo_events(3) [of "[]"] demo_lengths by (simp add: stream_granted demo_events demo_judged)

theorem streamed_session_decision_witness:
  "\<forall>sid. snd (handshake (JNum ''1'') sid demo_stream 200 [sse_event demo_success]) = Some ''up''
    \<and> snd (handshake (JNum ''1'') sid demo_stream 200 [sse_event demo_refusal]) \<noteq> Some ''up''"
  using streamed_session_decision [OF _ _ _ refl, of 200 demo_stream "JNum ''1''" _ "[sse_event demo_success]"]
    streamed_session_decision [OF _ _ _ refl, of 200 demo_stream "JNum ''1''" _ "[sse_event demo_refusal]"] demo_lengths demo_events(3) [of "[]"]
  by (simp add: demo_events demo_judged stream_verdicts_def first_verdict_def)

theorem session_needs_success_reply_witness:
  "\<exists>ms. json_parse (event_payload [event_line demo_success]) = Some (JObj ms) \<and> success_reply (JNum ''1'') ms"
proof -
  let ?h = "handshake (JNum ''1'') ''s'' demo_stream 200 [sse_event demo_success]"
  have "snd ?h = Some ''up''" using demo_lengths by (simp add: stream_granted demo_events demo_judged)
  then obtain r where "?h = (r, Some ''up'')" by (metis prod.collapse)
  from session_needs_success_reply [OF this] show ?thesis by (simp add: reply_payloads_def demo_events)
qed

theorem reply_names_granted_session_witness:
  "\<exists>r. fst (handshake (JNum ''1'') ''s'' demo_stream 200 [sse_event demo_success]) = Some r \<and> map_of (hr_headers r) ''Mcp-Session-Id'' = Some ''s''"
proof -
  let ?h = "handshake (JNum ''1'') ''s'' demo_stream 200 [sse_event demo_success]"
  have s: "snd ?h = Some ''up''" using demo_lengths by (simp add: stream_granted demo_events demo_judged)
  then obtain r where r: "fst ?h = Some r" by (auto simp: handshake_def finish_init_def split: if_splits init_mode.splits)
  then have "?h = (Some r, Some ''up'')" using s by (metis prod.collapse)
  from reply_names_granted_session [OF this] r show ?thesis by simp
qed

end
