(* ===== verification/Gateway.thy ===== *)
theory Gateway
  imports Handshake Inject
begin

text \<open>
  The OAuth front of \<^verbatim>\<open>internal/gateway\<close>: the guards of \<open>ServeHTTP\<close>, the introspected token of
  \<^verbatim>\<open>auth.go\<close>, the session table, and the life of a request as atomic steps, each a critical section or a
  semaphore operation, so that requests interleave in every order. Headers are lists of values, times are nanoseconds
  (seconds in a token), and the answer of the introspection endpoint, the random bytes of a new session and what the
  session's handler writes are arguments of the steps. The handshake is in \<open>Handshake\<close>.
\<close>

subsection \<open>Tokens\<close>

record claims =
  tk_active :: bool
  tk_issuer :: bytes
  tk_subject :: bytes
  tk_client :: bytes
  tk_audience :: "json option"
  tk_scope :: bytes
  tk_expires :: int
  tk_not_before :: int
  tk_type :: bytes

definition no_claims :: claims where
  "no_claims = \<lparr>tk_active = False, tk_issuer = [], tk_subject = [], tk_client = [], tk_audience = None, tk_scope = [],
     tk_expires = 0, tk_not_before = 0, tk_type = []\<rparr>"

fun read_bool :: "json \<Rightarrow> bool \<Rightarrow> bool option" where
  "read_bool (JBool b) old = Some b"
| "read_bool JNull old = Some old"
| "read_bool _ old = None"

definition put_claim :: "bytes \<Rightarrow> json \<Rightarrow> claims \<Rightarrow> claims option" where
  "put_claim k v c =
     (case field_among [''active'', ''iss'', ''sub'', ''client_id'', ''aud'', ''scope'', ''exp'', ''nbf'', ''token_type''] k of
        None \<Rightarrow> Some c
      | Some f \<Rightarrow>
          if f = ''active'' then map_option (\<lambda>x. c\<lparr>tk_active := x\<rparr>) (read_bool v (tk_active c))
          else if f = ''iss'' then map_option (\<lambda>x. c\<lparr>tk_issuer := x\<rparr>) (read_str v (tk_issuer c))
          else if f = ''sub'' then map_option (\<lambda>x. c\<lparr>tk_subject := x\<rparr>) (read_str v (tk_subject c))
          else if f = ''client_id'' then map_option (\<lambda>x. c\<lparr>tk_client := x\<rparr>) (read_str v (tk_client c))
          else if f = ''aud'' then Some (c\<lparr>tk_audience := Some v\<rparr>)
          else if f = ''scope'' then map_option (\<lambda>x. c\<lparr>tk_scope := x\<rparr>) (read_str v (tk_scope c))
          else if f = ''exp'' then map_option (\<lambda>x. c\<lparr>tk_expires := x\<rparr>) (read_int v (tk_expires c))
          else if f = ''nbf'' then map_option (\<lambda>x. c\<lparr>tk_not_before := x\<rparr>) (read_int v (tk_not_before c))
          else map_option (\<lambda>x. c\<lparr>tk_type := x\<rparr>) (read_str v (tk_type c)))"

fun put_claims :: "members \<Rightarrow> claims \<Rightarrow> claims option" where
  "put_claims [] c = Some c"
| "put_claims ((k, v) # ms) c = Option.bind (put_claim k v c) (put_claims ms)"

definition read_claims :: "bytes \<Rightarrow> claims option" where
  "read_claims body =
     (case json_parse body of
        Some (JObj ms) \<Rightarrow> put_claims ms no_claims
      | Some JNull \<Rightarrow> Some no_claims
      | _ \<Rightarrow> None)"

text \<open>The audience is a string or a list of strings.\<close>

fun read_strings :: "json list \<Rightarrow> bytes list option" where
  "read_strings [] = Some []"
| "read_strings (v # vs) = Option.bind (read_str v []) (\<lambda>s. map_option ((#) s) (read_strings vs))"

definition audiences :: "json option \<Rightarrow> bytes list option" where
  "audiences aud =
     (case aud of
        None \<Rightarrow> None
      | Some v \<Rightarrow>
          (case read_str v [] of
             Some s \<Rightarrow> Some [s]
           | None \<Rightarrow> (case v of JArr xs \<Rightarrow> read_strings xs | _ \<Rightarrow> None)))"

text \<open>\<open>strings.Fields\<close>.\<close>

function words_from :: "bytes \<Rightarrow> bytes \<Rightarrow> bytes list" where
  "words_from cur s =
     (if s = [] then (if cur = [] then [] else [cur])
      else let (r, n) = decode_rune s in
        if rune_space r then (if cur = [] then words_from [] (drop n s) else cur # words_from [] (drop n s))
        else words_from (cur @ take n s) (drop n s))"
  by pat_completeness auto
termination
  by (relation "measure (\<lambda>(cur, s). length s)") (auto simp: prod_eq_iff intro: diff_less)

declare words_from.simps [simp del]

definition words :: "bytes \<Rightarrow> bytes list" where
  "words s = words_from [] s"

record gateway_config =
  gc_host :: bytes
  gc_resource :: bytes
  gc_issuer :: bytes
  gc_subject :: bytes
  gc_client :: bytes
  gc_scope :: bytes
  gc_origins :: "bytes list"

text \<open>The one bearer token of a request.\<close>

definition bearer :: "bytes list \<Rightarrow> bytes option" where
  "bearer auths =
     (case auths of
        [a] \<Rightarrow>
          (case words a of
             [kind, token] \<Rightarrow> if equal_fold kind ''Bearer'' \<and> length token \<le> 8192 then Some token else None
           | _ \<Rightarrow> None)
      | _ \<Rightarrow> None)"

definition claims_ok :: "gateway_config \<Rightarrow> int \<Rightarrow> claims \<Rightarrow> bool" where
  "claims_ok cf now c =
     (case audiences (tk_audience c) of
        None \<Rightarrow> False
      | Some auds \<Rightarrow>
          \<not> (\<not> tk_active c \<or> tk_expires c \<le> now \<or> tk_not_before c > now \<or> tk_issuer c \<noteq> gc_issuer cf \<or> tk_subject c \<noteq> gc_subject cf
             \<or> tk_client c \<noteq> gc_client cf \<or> gc_resource cf \<notin> set auds \<or> gc_scope cf \<notin> set (words (tk_scope c))
             \<or> \<not> equal_fold (tk_type c) ''Bearer''))"

text \<open>The answer of the introspection endpoint is \<open>None\<close> if it could not be asked or read.\<close>

definition authenticate :: "gateway_config \<Rightarrow> bytes list \<Rightarrow> int \<Rightarrow> (int \<times> bytes) option \<Rightarrow> claims option" where
  "authenticate cf auths now ans =
     (case bearer auths of
        None \<Rightarrow> None
      | Some token \<Rightarrow>
          (case ans of
             None \<Rightarrow> None
           | Some (st, body) \<Rightarrow>
               if st \<noteq> 200 \<or> length body > 64 * 1024 then None
               else (case read_claims body of
                   None \<Rightarrow> None
                 | Some c \<Rightarrow> if claims_ok cf now c then Some c else None)))"

text \<open>What is asked of the endpoint.\<close>

definition introspection_headers :: "bytes \<Rightarrow> bytes \<Rightarrow> (bytes \<times> bytes) list" where
  "introspection_headers header secret =
     put header (if header = ''Authorization'' then ''Bearer '' @ secret else secret)
       (put ''Accept'' ''application/json'' (put ''Content-Type'' ''application/x-www-form-urlencoded'' []))"

definition introspection_body :: "bytes \<Rightarrow> bytes" where
  "introspection_body token = ''token='' @ query_escape token @ ''&token_type_hint=access_token''"

text \<open>\<open>Secret\<close>: a token of printable characters without spaces.\<close>

definition secret_ok :: "bytes \<Rightarrow> bool" where
  "secret_ok s \<longleftrightarrow> s \<noteq> [] \<and> list_all (\<lambda>r. \<not> (r < 33 \<or> r > 126)) (runes s)"

subsection \<open>Requests\<close>

record http_request =
  rq_host :: bytes
  rq_origins :: "bytes list"
  rq_raw_query :: bytes
  rq_force_query :: bool
  rq_raw_path :: bytes
  rq_path :: bytes
  rq_method :: bytes
  rq_auths :: "bytes list"
  rq_sessions :: "bytes list"
  rq_version :: bytes
  rq_event_id :: bytes
  rq_body :: "bytes option"

datatype front = FrontRefused int | FrontMetadata | FrontProceed

definition serve_front :: "gateway_config \<Rightarrow> http_request \<Rightarrow> front" where
  "serve_front cf r =
     (if rq_host r \<noteq> gc_host cf then FrontRefused 421
      else if rq_origins r \<noteq> [] \<and> (length (rq_origins r) \<noteq> 1 \<or> hd (rq_origins r) \<notin> set (gc_origins cf)) then FrontRefused 403
      else if rq_raw_query r \<noteq> [] \<or> rq_force_query r \<or> rq_raw_path r \<noteq> [] then FrontRefused 404
      else if rq_path r = ''/.well-known/oauth-protected-resource/mcp'' \<and> rq_method r = ''GET'' then FrontMetadata
      else if rq_path r \<noteq> ''/mcp'' then FrontRefused 404
      else if rq_method r \<noteq> ''POST'' then FrontRefused 405
      else FrontProceed)"

text \<open>The method and the id of the message, by the field names of the struct.\<close>

fun put_call_members :: "members \<Rightarrow> bytes \<times> json option \<Rightarrow> (bytes \<times> json option) option" where
  "put_call_members [] x = Some x"
| "put_call_members ((k, v) # ms) (meth, i) =
     (case field_among [''method'', ''id''] k of
        None \<Rightarrow> put_call_members ms (meth, i)
      | Some f \<Rightarrow>
          if f = ''method'' then Option.bind (read_str v meth) (\<lambda>s. put_call_members ms (s, i))
          else put_call_members ms (meth, Some v))"

definition read_call :: "bytes \<Rightarrow> (bytes \<times> json option) option" where
  "read_call body =
     (case json_parse body of
        Some (JObj ms) \<Rightarrow> put_call_members ms ([], None)
      | Some JNull \<Rightarrow> Some ([], None)
      | _ \<Rightarrow> None)"

text \<open>The checks between reading the body and the session: the session id, empty for a new one, and the id of the message.\<close>

definition serve_body :: "http_request \<Rightarrow> int + (bytes \<times> json)" where
  "serve_body r =
     (case rq_body r of
        None \<Rightarrow> Inl 400
      | Some body \<Rightarrow>
          if length body > body_limit then Inl 413
          else (case read_call body of
              None \<Rightarrow> Inl 400
            | Some (meth, i) \<Rightarrow>
                if length (rq_sessions r) > 1 then Inl 400
                else
                  let sid = (case rq_sessions r of [] \<Rightarrow> [] | s # _ \<Rightarrow> s); initializing = (sid = []) in
                  if (initializing \<and> (meth \<noteq> ''initialize'' \<or> i = None \<or> i = Some JNull)) \<or> (\<not> initializing \<and> meth = ''initialize'')
                  then Inl 400
                  else Inr (sid, (case i of None \<Rightarrow> JNull | Some v \<Rightarrow> v))))"

text \<open>The headers that cross to the upstream.\<close>

definition forward_headers :: "http_request \<Rightarrow> bytes \<Rightarrow> (bytes \<times> bytes) list" where
  "forward_headers r upstream =
     [(''Content-Type'', ''application/json''), (''Accept'', ''application/json, text/event-stream'')]
     @ (if rq_version r \<noteq> [] then [(''Mcp-Protocol-Version'', rq_version r)] else [])
     @ (if rq_event_id r \<noteq> [] then [(''Last-Event-Id'', rq_event_id r)] else [])
     @ (if upstream \<noteq> [] then [(''Mcp-Session-Id'', upstream)] else [])"

text \<open>The headers of a reply to a later request, when its status is written.\<close>

definition relay_headers :: "bytes \<Rightarrow> (bytes \<times> bytes) list \<Rightarrow> (bytes \<times> bytes) list" where
  "relay_headers sid h =
     put ''Mcp-Session-Id'' sid (put ''Cache-Control'' ''no-store''
       (filter (\<lambda>(k, v). k \<in> {''Content-Type'', ''Content-Length'', ''Mcp-Protocol-Version''}) h))"

subsection \<open>Sessions\<close>

definition session_limit :: nat where "session_limit = 64"
definition auth_limit :: nat where "auth_limit = 16"
definition session_ttl :: int where "session_ttl = 30 * 60 * 10 ^ 9"

record gw_session =
  gs_upstream :: bytes
  gs_last :: int
  gs_busy :: bool

text \<open>A request and the variables of its handler: \<open>s\<close>, \<open>id\<close>, \<open>initializing\<close>, \<open>success\<close>, \<open>released\<close>.\<close>

datatype call_point = Authenticating | Admitted | Handling | Replying | Refused int | Finished

record gw_call =
  gl_request :: http_request
  gl_point :: call_point
  gl_rpc_id :: json
  gl_session :: nat
  gl_id :: bytes
  gl_initializing :: bool
  gl_success :: bool
  gl_released :: bool

text \<open>The table maps a session id to the index of its session.\<close>

record gateway =
  gw_table :: "(bytes \<times> nat) list"
  gw_sessions :: "gw_session list"
  gw_auth :: nat
  gw_inflight :: nat
  gw_calls :: "gw_call list"

definition new_gateway :: gateway where
  "new_gateway = \<lparr>gw_table = [], gw_sessions = [], gw_auth = 0, gw_inflight = 0, gw_calls = []\<rparr>"

definition update_session :: "nat \<Rightarrow> (gw_session \<Rightarrow> gw_session) \<Rightarrow> gateway \<Rightarrow> gateway" where
  "update_session a f g = g\<lparr>gw_sessions := (gw_sessions g)[a := f (gw_sessions g ! a)]\<rparr>"

definition update_call :: "nat \<Rightarrow> (gw_call \<Rightarrow> gw_call) \<Rightarrow> gateway \<Rightarrow> gateway" where
  "update_call i f g = g\<lparr>gw_calls := (gw_calls g)[i := f (gw_calls g ! i)]\<rparr>"

definition purge :: "int \<Rightarrow> gateway \<Rightarrow> gateway" where
  "purge now g =
     g\<lparr>gw_table := filter (\<lambda>(k, a). \<not> (\<not> gs_busy (gw_sessions g ! a) \<and> now - gs_last (gw_sessions g ! a) \<ge> session_ttl)) (gw_table g)\<rparr>"

definition session_id :: "bytes \<Rightarrow> bytes" where
  "session_id rand = base64 ''-_'' [] rand"

definition acquire :: "bytes \<Rightarrow> int \<Rightarrow> bytes option \<Rightarrow> gateway \<Rightarrow> (int + nat \<times> bytes) \<times> gateway" where
  "acquire sid now rand g0 =
     (let g = purge now g0 in
      if sid \<noteq> [] then
        (case map_of (gw_table g) sid of
           None \<Rightarrow> (Inl 404, g)
         | Some a \<Rightarrow>
             if gs_busy (gw_sessions g ! a) then (Inl 429, g)
             else (Inr (a, sid), update_session a (gs_busy_update (\<lambda>_. True)) g))
      else if length (gw_table g) \<ge> session_limit then (Inl 429, g)
      else (case rand of
          None \<Rightarrow> (Inl 503, g)
        | Some b \<Rightarrow>
            let k = session_id b; a = length (gw_sessions g) in
            (Inr (a, k), g\<lparr>gw_table := put k a (gw_table g),
               gw_sessions := gw_sessions g @ [\<lparr>gs_upstream = [], gs_last = now, gs_busy = True\<rparr>]\<rparr>)))"

subsection \<open>Steps\<close>

definition add_call :: "http_request \<Rightarrow> call_point \<Rightarrow> gateway \<Rightarrow> gateway" where
  "add_call r p g = g\<lparr>gw_calls := gw_calls g @ [\<lparr>gl_request = r, gl_point = p, gl_rpc_id = JNull, gl_session = 0, gl_id = [],
     gl_initializing = False, gl_success = False, gl_released = False\<rparr>]\<rparr>"

definition set_call_point :: "nat \<Rightarrow> call_point \<Rightarrow> gateway \<Rightarrow> gateway" where
  "set_call_point i p g = update_call i (gl_point_update (\<lambda>_. p)) g"

definition arrive :: "gateway_config \<Rightarrow> http_request \<Rightarrow> gateway \<Rightarrow> gateway" where
  "arrive cf r g =
     (case serve_front cf r of
        FrontRefused st \<Rightarrow> add_call r (Refused st) g
      | FrontMetadata \<Rightarrow> add_call r (Refused 200) g
      | FrontProceed \<Rightarrow>
          if gw_auth g \<ge> auth_limit then add_call r (Refused 429) g
          else add_call r Authenticating (g\<lparr>gw_auth := gw_auth g + 1\<rparr>))"

definition answered :: "gateway_config \<Rightarrow> nat \<Rightarrow> int \<Rightarrow> (int \<times> bytes) option \<Rightarrow> gateway \<Rightarrow> gateway" where
  "answered cf i now ans g0 =
     (let g = g0\<lparr>gw_auth := gw_auth g0 - 1\<rparr> in
      case authenticate cf (rq_auths (gl_request (gw_calls g ! i))) now ans of
        None \<Rightarrow> set_call_point i (Refused 401) g
      | Some c \<Rightarrow>
          if gw_inflight g \<ge> session_limit then set_call_point i (Refused 429) g
          else set_call_point i Admitted (g\<lparr>gw_inflight := gw_inflight g + 1\<rparr>))"

definition entered :: "nat \<Rightarrow> int \<Rightarrow> bytes option \<Rightarrow> gateway \<Rightarrow> gateway" where
  "entered i now rand g =
     (let leave = (\<lambda>st g. set_call_point i (Refused st) (g\<lparr>gw_inflight := gw_inflight g - 1\<rparr>)) in
      case serve_body (gl_request (gw_calls g ! i)) of
        Inl st \<Rightarrow> leave st g
      | Inr (sid, rpc) \<Rightarrow>
          (case acquire sid now rand g of
             (Inl st, g1) \<Rightarrow> leave st g1
           | (Inr (a, k), g1) \<Rightarrow>
               update_call i (\<lambda>c. c\<lparr>gl_point := Handling, gl_rpc_id := rpc, gl_session := a, gl_id := k,
                 gl_initializing := (sid = []), gl_success := (sid \<noteq> []), gl_released := False\<rparr>) g1))"

text \<open>The handler of the session returned; an initialize whose reply is validated releases its session at once (\<open>onReady\<close>).\<close>

definition session_ready :: "nat \<Rightarrow> bytes \<Rightarrow> int \<Rightarrow> gateway \<Rightarrow> gateway" where
  "session_ready i u now g =
     update_call i (\<lambda>c. c\<lparr>gl_success := True, gl_released := True\<rparr>)
       (update_session (gl_session (gw_calls g ! i)) (\<lambda>s. s\<lparr>gs_upstream := u, gs_busy := False, gs_last := now\<rparr>) g)"

definition handled :: "nat \<Rightarrow> int \<Rightarrow> int \<Rightarrow> (bytes \<times> bytes) list \<Rightarrow> bytes list \<Rightarrow> gateway \<Rightarrow> gateway" where
  "handled i now status h ps g =
     (let c = gw_calls g ! i in
      set_call_point i Replying
        (if gl_initializing c then
           (case snd (handshake (gl_rpc_id c) (gl_id c) h status ps) of
              None \<Rightarrow> g
            | Some u \<Rightarrow> session_ready i u now g)
         else g))"

text \<open>The deferred functions.\<close>

definition returned :: "nat \<Rightarrow> int \<Rightarrow> gateway \<Rightarrow> gateway" where
  "returned i now g0 =
     (let c = gw_calls g0 ! i; a = gl_session c;
          g = set_call_point i Finished (g0\<lparr>gw_inflight := gw_inflight g0 - 1\<rparr>) in
      if gl_released c then
        (if map_of (gw_table g) (gl_id c) = Some a \<and> \<not> gs_busy (gw_sessions g ! a)
         then update_session a (gs_last_update (\<lambda>_. now)) g else g)
      else
        let g1 = update_session a (\<lambda>s. s\<lparr>gs_busy := False, gs_last := now\<rparr>) g in
        if gl_success c then g1 else g1\<lparr>gw_table := del (gl_id c) (gw_table g1)\<rparr>)"

datatype gw_move =
    Arrives http_request
  | Answered nat int "(int \<times> bytes) option"
  | Enters nat int "bytes option"
  | Handled nat int int "(bytes \<times> bytes) list" "bytes list"
  | Returns nat int

definition at_point :: "call_point \<Rightarrow> nat \<Rightarrow> gateway \<Rightarrow> bool" where
  "at_point p i g \<longleftrightarrow> i < length (gw_calls g) \<and> gl_point (gw_calls g ! i) = p"

definition gateway_step :: "gateway_config \<Rightarrow> gw_move \<Rightarrow> gateway \<Rightarrow> gateway" where
  "gateway_step cf e g =
     (case e of
        Arrives r \<Rightarrow> arrive cf r g
      | Answered i now ans \<Rightarrow> if at_point Authenticating i g then answered cf i now ans g else g
      | Enters i now rand \<Rightarrow> if at_point Admitted i g then entered i now rand g else g
      | Handled i now st h ps \<Rightarrow> if at_point Handling i g then handled i now st h ps g else g
      | Returns i now \<Rightarrow> if at_point Replying i g then returned i now g else g)"

definition gateway_run :: "gateway_config \<Rightarrow> gw_move list \<Rightarrow> gateway" where
  "gateway_run cf es = fold (gateway_step cf) es new_gateway"

lemma gateway_run_snoc [simp]: "gateway_run cf (es @ [e]) = gateway_step cf e (gateway_run cf es)"
  by (simp add: gateway_run_def)

text \<open>The ids of the sessions a run makes.\<close>

fun made_ids :: "gw_move list \<Rightarrow> bytes list" where
  "made_ids [] = []"
| "made_ids (Enters i now (Some b) # es) = session_id b # made_ids es"
| "made_ids (_ # es) = made_ids es"

lemma made_ids_append [simp]: "made_ids (es @ fs) = made_ids es @ made_ids fs"
  by (induction es rule: made_ids.induct) simp_all

subsection \<open>Bounds\<close>

definition at_points :: "call_point set \<Rightarrow> gateway \<Rightarrow> nat" where
  "at_points P g = length (filter (\<lambda>c. gl_point c \<in> P) (gw_calls g))"

definition slots_ok :: "gateway \<Rightarrow> bool" where
  "slots_ok g \<longleftrightarrow> at_points {Authenticating} g = gw_auth g \<and> gw_auth g \<le> auth_limit
     \<and> at_points {Admitted, Handling, Replying} g = gw_inflight g \<and> gw_inflight g \<le> session_limit
     \<and> length (gw_table g) \<le> session_limit"

lemma length_filter_update:
  "i < length xs \<Longrightarrow> length (filter P (xs[i := y])) + of_bool (P (xs ! i)) = length (filter P xs) + of_bool (P y)"
proof (induction xs arbitrary: i)
  case (Cons x xs)
  then show ?case by (cases i) (auto simp: of_bool_def)
qed simp

lemma length_put: "length (put k v m) \<le> Suc (length m)"
  by (induction k v m rule: put.induct) auto

lemma length_del: "length (del k m) \<le> length m"
  by (simp add: del_def)

lemma update_session_simps [simp]:
  "gw_calls (update_session a f g) = gw_calls g" "gw_auth (update_session a f g) = gw_auth g"
  "gw_inflight (update_session a f g) = gw_inflight g" "gw_table (update_session a f g) = gw_table g"
  "gw_sessions (update_session a f g) = (gw_sessions g)[a := f (gw_sessions g ! a)]"
  by (simp_all add: update_session_def)

lemma update_call_simps [simp]:
  "gw_calls (update_call i f g) = (gw_calls g)[i := f (gw_calls g ! i)]" "gw_auth (update_call i f g) = gw_auth g"
  "gw_inflight (update_call i f g) = gw_inflight g" "gw_table (update_call i f g) = gw_table g"
  "gw_sessions (update_call i f g) = gw_sessions g"
  by (simp_all add: update_call_def)

lemma acquire_frame:
  assumes "acquire sid now rand g = (r, g')"
  shows "gw_calls g' = gw_calls g \<and> gw_auth g' = gw_auth g \<and> gw_inflight g' = gw_inflight g
    \<and> (length (gw_table g) \<le> session_limit \<longrightarrow> length (gw_table g') \<le> session_limit)"
proof -
  have p: "gw_calls (purge now g) = gw_calls g" "gw_auth (purge now g) = gw_auth g" "gw_inflight (purge now g) = gw_inflight g"
    "length (gw_table (purge now g)) \<le> length (gw_table g)"
    by (simp_all add: purge_def)
  have l: "length (put k v (gw_table (purge now g))) \<le> session_limit" if "length (gw_table (purge now g)) < session_limit" for k and v :: nat
    using length_put [of k v "gw_table (purge now g)"] that by linarith
  show ?thesis using assms p l by (auto simp: acquire_def Let_def split: if_splits option.splits)
qed

definition in_flight :: "call_point \<Rightarrow> bool" where
  "in_flight p \<longleftrightarrow> p \<in> {Admitted, Handling, Replying}"

lemma slots_move:
  assumes "slots_ok g" and "i < length (gw_calls g)" and "gl_point (gw_calls g ! i) = p"
    and "\<exists>c. gw_calls g' = (gw_calls g)[i := c] \<and> gl_point c = q"
    and "gw_auth g' + of_bool (p = Authenticating) = gw_auth g + of_bool (q = Authenticating)"
    and "gw_inflight g' + of_bool (in_flight p) = gw_inflight g + of_bool (in_flight q)"
    and "gw_auth g' \<le> auth_limit" and "gw_inflight g' \<le> session_limit" and "length (gw_table g') \<le> session_limit"
  shows "slots_ok g'"
proof -
  obtain c where c: "gw_calls g' = (gw_calls g)[i := c]" "gl_point c = q" using assms(4) by blast
  have "at_points P g' + of_bool (p \<in> P) = at_points P g + of_bool (q \<in> P)" for P
    using length_filter_update [OF assms(2), of "\<lambda>c. gl_point c \<in> P" c] assms(3) c by (simp add: at_points_def)
  from this [of "{Authenticating}"] this [of "{Admitted, Handling, Replying}"] show ?thesis
    using assms(1,5-9) unfolding slots_ok_def in_flight_def by simp
qed

lemma slots_answered:
  assumes "slots_ok g" and "at_point Authenticating i g"
  shows "slots_ok (answered cf i now ans g)"
proof -
  have i: "i < length (gw_calls g)" "gl_point (gw_calls g ! i) = Authenticating" using assms(2) by (simp_all add: at_point_def)
  have s: "at_points {Authenticating} g = gw_auth g" "gw_auth g \<le> auth_limit" "gw_inflight g \<le> session_limit" "length (gw_table g) \<le> session_limit"
    using assms(1) by (simp_all add: slots_ok_def)
  have "gw_calls g ! i \<in> set (filter (\<lambda>c. gl_point c \<in> {Authenticating}) (gw_calls g))" using i by simp
  then have "0 < gw_auth g" using s(1) by (metis at_points_def length_pos_if_in_set)
  then have "slots_ok (set_call_point i q (g\<lparr>gw_auth := gw_auth g - 1, gw_inflight := n\<rparr>))"
    if "n = gw_inflight g + of_bool (in_flight q)" "n \<le> session_limit" "q \<noteq> Authenticating" for q n
    using that i s by (intro slots_move [OF assms(1) i, where q = q]) (auto simp: set_call_point_def in_flight_def)
  from this [of "gw_inflight g" "Refused 401"] this [of "gw_inflight g" "Refused 429"] this [of "gw_inflight g + 1" Admitted] s
  show ?thesis by (auto simp: answered_def Let_def in_flight_def split: option.split)
qed

lemma in_flight_pos:
  assumes "slots_ok g" and "i < length (gw_calls g)" and "in_flight (gl_point (gw_calls g ! i))"
  shows "0 < gw_inflight g"
proof -
  have "gw_calls g ! i \<in> set (filter (\<lambda>c. gl_point c \<in> {Admitted, Handling, Replying}) (gw_calls g))"
    using assms(2,3) by (simp add: in_flight_def)
  then show ?thesis using assms(1) by (metis at_points_def length_pos_if_in_set slots_ok_def)
qed

lemma slots_entered:
  assumes "slots_ok g" and "at_point Admitted i g"
  shows "slots_ok (entered i now rand g)"
proof -
  have i: "i < length (gw_calls g)" "gl_point (gw_calls g ! i) = Admitted" using assms(2) by (simp_all add: at_point_def)
  have s: "gw_auth g \<le> auth_limit" "gw_inflight g \<le> session_limit" "length (gw_table g) \<le> session_limit"
    using assms(1) by (simp_all add: slots_ok_def)
  have pos: "0 < gw_inflight g" using in_flight_pos [OF assms(1) i(1)] i(2) by (simp add: in_flight_def)
  have leave: "slots_ok (set_call_point i (Refused st) (g'\<lparr>gw_inflight := gw_inflight g' - 1\<rparr>))"
    if "gw_calls g' = gw_calls g" "gw_auth g' = gw_auth g" "gw_inflight g' = gw_inflight g" "length (gw_table g') \<le> session_limit" for g' st
    using that i s pos by (intro slots_move [OF assms(1) i, where q = "Refused st"]) (auto simp: set_call_point_def in_flight_def)
  show ?thesis
  proof (cases "serve_body (gl_request (gw_calls g ! i))")
    case (Inl st)
    then show ?thesis using leave [of g st] s by (simp add: entered_def)
  next
    case (Inr x)
    obtain sid rpc where x: "x = (sid, rpc)" by (cases x)
    obtain r g' where a: "acquire sid now rand g = (r, g')" by fastforce
    note f = acquire_frame [OF a]
    show ?thesis
    proof (cases r)
      case (Inl st)
      then show ?thesis using leave [of g' st] s f a \<open>serve_body _ = Inr x\<close> by (simp add: entered_def x)
    next
      case (Inr y)
      then show ?thesis using f a s i \<open>serve_body _ = Inr x\<close>
        by (intro slots_move [OF assms(1) i, where q = Handling]) (auto simp: entered_def in_flight_def x split: prod.split)
    qed
  qed
qed

lemma slots_handled:
  assumes "slots_ok g" and "at_point Handling i g"
  shows "slots_ok (handled i now st h ps g)"
proof -
  have i: "i < length (gw_calls g)" "gl_point (gw_calls g ! i) = Handling" using assms(2) by (simp_all add: at_point_def)
  have s: "gw_auth g \<le> auth_limit" "gw_inflight g \<le> session_limit" "length (gw_table g) \<le> session_limit"
    using assms(1) by (simp_all add: slots_ok_def)
  have "slots_ok (set_call_point i Replying g)" "slots_ok (set_call_point i Replying (session_ready i u now g))" for u
    using s i by (intro slots_move [OF assms(1) i, where q = Replying]; fastforce simp: set_call_point_def session_ready_def in_flight_def)+
  then show ?thesis by (simp add: handled_def Let_def split: option.split)
qed

lemma slots_returned:
  assumes "slots_ok g" and "at_point Replying i g"
  shows "slots_ok (returned i now g)"
proof -
  have i: "i < length (gw_calls g)" "gl_point (gw_calls g ! i) = Replying" using assms(2) by (simp_all add: at_point_def)
  have s: "gw_auth g \<le> auth_limit" "gw_inflight g \<le> session_limit" "length (gw_table g) \<le> session_limit"
    using assms(1) by (simp_all add: slots_ok_def)
  have pos: "0 < gw_inflight g" using in_flight_pos [OF assms(1) i(1)] i(2) by (simp add: in_flight_def)
  have "length (del k (gw_table g)) \<le> session_limit" for k using length_del [of k "gw_table g"] s(3) by linarith
  then show ?thesis
    using s i pos by (intro slots_move [OF assms(1) i, where q = Finished])
      (auto simp: returned_def Let_def set_call_point_def in_flight_def)
qed

lemma slots_ok_step:
  assumes "slots_ok g"
  shows "slots_ok (gateway_step cf e g)"
proof (cases e)
  case (Arrives r)
  then show ?thesis using assms by (auto simp: gateway_step_def arrive_def add_call_def slots_ok_def at_points_def split: front.split)
qed (use assms in \<open>simp_all add: gateway_step_def slots_answered slots_entered slots_handled slots_returned\<close>)

subsection \<open>Who holds a session\<close>

definition holding :: "gw_call \<Rightarrow> bool" where
  "holding c \<longleftrightarrow> gl_point c \<in> {Handling, Replying} \<and> \<not> gl_released c"

text \<open>The initialize of the session was granted, for the upstream session it now names.\<close>

definition granted :: "gw_move list \<Rightarrow> gateway \<Rightarrow> bytes \<Rightarrow> nat \<Rightarrow> bool" where
  "granted es g k a \<longleftrightarrow>
     (\<exists>j<length (gw_calls g). let c = gw_calls g ! j in
        gl_initializing c \<and> gl_success c \<and> gl_session c = a \<and> gl_id c = k
        \<and> (\<exists>now st h ps. Handled j now st h ps \<in> set es
             \<and> snd (handshake (gl_rpc_id c) k h st ps) = Some (gs_upstream (gw_sessions g ! a))))"

definition admitted_by :: "gateway_config \<Rightarrow> gw_move list \<Rightarrow> nat \<Rightarrow> gw_call \<Rightarrow> bool" where
  "admitted_by cf es i c \<longleftrightarrow> (\<exists>now ans. Answered i now ans \<in> set es \<and> authenticate cf (rq_auths (gl_request c)) now ans \<noteq> None)"

definition call_ok :: "gateway_config \<Rightarrow> gw_move list \<Rightarrow> gateway \<Rightarrow> nat \<Rightarrow> gw_call \<Rightarrow> bool" where
  "call_ok cf es g i c \<longleftrightarrow>
     (gl_point c \<in> {Admitted, Handling, Replying, Finished} \<longrightarrow> admitted_by cf es i c)
     \<and> (gl_initializing c \<longrightarrow> gl_session c < length (gw_sessions g) \<and> gl_success c = gl_released c
          \<and> gl_point c \<in> {Handling, Replying, Finished})
     \<and> (gl_point c = Handling \<longrightarrow> \<not> gl_released c)
     \<and> (holding c \<longrightarrow> gl_session c < length (gw_sessions g) \<and> gs_busy (gw_sessions g ! gl_session c)
          \<and> map_of (gw_table g) (gl_id c) = Some (gl_session c))
     \<and> (gl_point c \<in> {Handling, Replying} \<and> \<not> gl_initializing c \<longrightarrow>
          gl_success c \<and> \<not> gl_released c \<and> granted es g (gl_id c) (gl_session c))"

definition table_ok :: "gw_move list \<Rightarrow> gateway \<Rightarrow> bool" where
  "table_ok es g \<longleftrightarrow> canonical_map (gw_table g) \<and> fst ` set (gw_table g) \<subseteq> set (made_ids es)
     \<and> (\<forall>k a. map_of (gw_table g) k = Some a \<longrightarrow> a < length (gw_sessions g))
     \<and> (\<forall>k k' a. map_of (gw_table g) k = Some a \<longrightarrow> map_of (gw_table g) k' = Some a \<longrightarrow> k = k')
     \<and> (\<forall>k a. map_of (gw_table g) k = Some a \<longrightarrow> \<not> gs_busy (gw_sessions g ! a) \<longrightarrow> granted es g k a)"

definition calls_apart :: "gw_call list \<Rightarrow> bool" where
  "calls_apart cs \<longleftrightarrow> (\<forall>i j. i < length cs \<longrightarrow> j < length cs \<longrightarrow> i \<noteq> j \<longrightarrow>
     (holding (cs ! i) \<and> holding (cs ! j)) \<or> (gl_initializing (cs ! i) \<and> gl_initializing (cs ! j)) \<longrightarrow>
     gl_session (cs ! i) \<noteq> gl_session (cs ! j))"

definition busy_held :: "gateway \<Rightarrow> bool" where
  "busy_held g \<longleftrightarrow> (\<forall>a<length (gw_sessions g). gs_busy (gw_sessions g ! a) \<longrightarrow>
     (\<exists>i<length (gw_calls g). holding (gw_calls g ! i) \<and> gl_session (gw_calls g ! i) = a))"

definition gateway_inv :: "gateway_config \<Rightarrow> gw_move list \<Rightarrow> gateway \<Rightarrow> bool" where
  "gateway_inv cf es g \<longleftrightarrow> table_ok es g \<and> calls_apart (gw_calls g) \<and> busy_held g
     \<and> (\<forall>i<length (gw_calls g). call_ok cf es g i (gw_calls g ! i))"

lemma gateway_invD:
  assumes "gateway_inv cf es g"
  shows "table_ok es g" "calls_apart (gw_calls g)" "busy_held g" "i < length (gw_calls g) \<Longrightarrow> call_ok cf es g i (gw_calls g ! i)"
  using assms by (simp_all add: gateway_inv_def)

definition same_call :: "gw_call \<Rightarrow> gw_call \<Rightarrow> bool" where
  "same_call c c' \<longleftrightarrow> gl_initializing c' = gl_initializing c \<and> gl_success c' = gl_success c \<and> gl_session c' = gl_session c
     \<and> gl_id c' = gl_id c \<and> gl_rpc_id c' = gl_rpc_id c"

lemma same_call_refl [simp]: "same_call c c"
  by (simp add: same_call_def)

definition later_calls :: "gw_call list \<Rightarrow> gw_call list \<Rightarrow> bool" where
  "later_calls cs cs' \<longleftrightarrow> length cs \<le> length cs'
     \<and> (\<forall>j<length cs. gl_initializing (cs ! j) \<and> gl_success (cs ! j) \<longrightarrow> same_call (cs ! j) (cs' ! j))"

lemma later_calls_refl [simp]: "later_calls cs cs"
  by (simp add: later_calls_def)

lemma later_calls_append [simp]: "later_calls cs (cs @ ds)"
  by (simp add: later_calls_def nth_append)

lemma later_calls_update:
  "(gl_initializing (cs ! i) \<Longrightarrow> gl_success (cs ! i) \<Longrightarrow> same_call (cs ! i) c) \<Longrightarrow> later_calls cs (cs[i := c])"
  unfolding later_calls_def by (metis length_list_update nth_list_update nth_list_update_neq order_refl same_call_refl)

lemma granted_mono:
  assumes "granted es g k a" and "set es \<subseteq> set es'" and "gs_upstream (gw_sessions g' ! a) = gs_upstream (gw_sessions g ! a)"
    and "later_calls (gw_calls g) (gw_calls g')"
  shows "granted es' g' k a"
proof -
  obtain j now st h ps where j: "j < length (gw_calls g)" "gl_initializing (gw_calls g ! j)" "gl_success (gw_calls g ! j)"
      "gl_session (gw_calls g ! j) = a" "gl_id (gw_calls g ! j) = k" "Handled j now st h ps \<in> set es"
      "snd (handshake (gl_rpc_id (gw_calls g ! j)) k h st ps) = Some (gs_upstream (gw_sessions g ! a))"
    using assms(1) by (auto simp: granted_def Let_def)
  have m: "j < length (gw_calls g')" "same_call (gw_calls g ! j) (gw_calls g' ! j)"
    using assms(4) j(1-3) by (auto simp: later_calls_def)
  have "snd (handshake (gl_rpc_id (gw_calls g' ! j)) k h st ps) = Some (gs_upstream (gw_sessions g' ! a))"
    using m(2) j(7) assms(3) by (simp add: same_call_def)
  then show ?thesis unfolding granted_def Let_def using m j assms(2) unfolding same_call_def by blast
qed

text \<open>A step of a call that has no session, and the arrival of one.\<close>

definition idle :: "gw_call \<Rightarrow> bool" where
  "idle c \<longleftrightarrow> gl_point c \<in> {Authenticating, Admitted} \<or> (\<exists>st. gl_point c = Refused st)"

lemma inv_more_events: 
  assumes "gateway_inv cf es g" and "set es \<subseteq> set es'" and "set (made_ids es) \<subseteq> set (made_ids es')"
  shows "gateway_inv cf es' g"
proof -
  have g: "granted es' g k a" if "granted es g k a" for k a by (rule granted_mono [OF that assms(2)]) simp_all
  have "admitted_by cf es i c \<Longrightarrow> admitted_by cf es' i c" for i c using assms(2) by (auto simp: admitted_by_def)
  then have "call_ok cf es g i c \<Longrightarrow> call_ok cf es' g i c" for i c using g by (auto simp: call_ok_def)
  moreover have "table_ok es g \<Longrightarrow> table_ok es' g" using g assms(3) by (auto simp: table_ok_def)
  ultimately show ?thesis using assms(1) by (auto simp: gateway_inv_def)
qed

lemma inv_add_call:
  assumes "gateway_inv cf es g" and "p = Authenticating \<or> (\<exists>st. p = Refused st)"
  shows "gateway_inv cf es (add_call r p (g\<lparr>gw_auth := n\<rparr>))"
proof -
  let ?g = "add_call r p (g\<lparr>gw_auth := n\<rparr>)"
  let ?c = "gw_calls ?g ! length (gw_calls g)"
  have c: "\<not> holding ?c" "\<not> gl_initializing ?c" "gl_point ?c = p" using assms(2) by (auto simp: add_call_def holding_def)
  have n: "gw_calls ?g ! i = gw_calls g ! i" if "i < length (gw_calls g)" for i using that by (simp add: add_call_def nth_append)
  have l: "length (gw_calls ?g) = Suc (length (gw_calls g))" by (simp add: add_call_def)
  have s: "gw_sessions ?g = gw_sessions g" "gw_table ?g = gw_table g" by (simp_all add: add_call_def)
  have gr: "granted es ?g k a" if "granted es g k a" for k a
    by (rule granted_mono [OF that]) (simp_all add: add_call_def)
  have k: "call_ok cf es g i c \<Longrightarrow> call_ok cf es ?g i c" for i c using gr by (auto simp: call_ok_def s)
  have kc: "call_ok cf es ?g i ?c" for i using c assms(2) by (auto simp: call_ok_def holding_def)
  have "call_ok cf es ?g i (gw_calls ?g ! i)" if "i < length (gw_calls ?g)" for i
    using that k [OF gateway_invD(4) [OF assms(1)]] n [of i] kc by (cases "i = length (gw_calls g)") (simp_all add: l)
  moreover have "table_ok es ?g" using gateway_invD(1) [OF assms(1)] gr by (simp add: table_ok_def s)
  moreover have "calls_apart (gw_calls ?g)" unfolding calls_apart_def l
    using gateway_invD(2) [OF assms(1)] n c by (auto simp: less_Suc_eq calls_apart_def)
  moreover have "busy_held ?g" unfolding busy_held_def s l
    using gateway_invD(3) [OF assms(1)] n less_Suc_eq unfolding busy_held_def by metis
  ultimately show ?thesis by (simp add: gateway_inv_def)
qed

lemma inv_move_idle:
  assumes "gateway_inv cf es g" and "i < length (gw_calls g)" and "idle (gw_calls g ! i)"
    and "idle ((gw_calls g ! i)\<lparr>gl_point := p\<rparr>)" and "p = Admitted \<longrightarrow> admitted_by cf es i (gw_calls g ! i)"
    and "gw_calls g' = (gw_calls g)[i := (gw_calls g ! i)\<lparr>gl_point := p\<rparr>]" and "gw_sessions g' = gw_sessions g" and "gw_table g' = gw_table g"
  shows "gateway_inv cf es g'"
proof -
  have i: "\<not> holding (gw_calls g ! i)" "\<not> gl_initializing (gw_calls g ! i)"
    using assms(3) gateway_invD(4) [OF assms(1,2)] by (auto simp: idle_def holding_def call_ok_def)
  have n: "gw_calls g' ! j = gw_calls g ! j" if "j \<noteq> i" for j using that assms(6) by simp
  have ii: "gw_calls g' ! i = (gw_calls g ! i)\<lparr>gl_point := p\<rparr>" "length (gw_calls g') = length (gw_calls g)" using assms(2,6) by simp_all
  have i': "\<not> holding (gw_calls g' ! i)" "\<not> gl_initializing (gw_calls g' ! i)" using assms(4) i(2) ii by (auto simp: idle_def holding_def)
  have gr: "granted es g' k a" if "granted es g k a" for k a
    by (rule granted_mono [OF that]) (simp_all add: assms(6,7) later_calls_update same_call_def)
  have k: "call_ok cf es g j c \<Longrightarrow> call_ok cf es g' j c" for j c using gr assms(7,8) by (auto simp: call_ok_def)
  have ki: "call_ok cf es g' i (gw_calls g' ! i)"
    using i' assms(4,5) by (auto simp: ii(1) call_ok_def idle_def admitted_by_def)
  have "call_ok cf es g' j (gw_calls g' ! j)" if "j < length (gw_calls g')" for j
    using that k [OF gateway_invD(4) [OF assms(1)]] n [of j] ki by (cases "j = i") (simp_all add: ii(2))
  moreover have "table_ok es g'" using gateway_invD(1) [OF assms(1)] gr assms(7,8) by (simp add: table_ok_def)
  moreover have "calls_apart (gw_calls g')" unfolding calls_apart_def ii(2)
    using gateway_invD(2) [OF assms(1)] n i' unfolding calls_apart_def by metis
  moreover have "busy_held g'" unfolding busy_held_def ii(2) assms(7)
    using gateway_invD(3) [OF assms(1)] n i unfolding busy_held_def by metis
  ultimately show ?thesis by (simp add: gateway_inv_def)
qed

lemma map_of_filter_canonical:
  "canonical_map m \<Longrightarrow> map_of (filter P m) k = (case map_of m k of None \<Rightarrow> None | Some a \<Rightarrow> if P (k, a) then Some a else None)"
proof (induction m)
  case (Cons x m)
  obtain k' a' where x: "x = (k', a')" by (cases x)
  have n: "k = k' \<Longrightarrow> map_of m k = None" using Cons.prems x by (auto simp: map_of_eq_None_iff)
  have IH: "map_of (filter P m) k = (case map_of m k of None \<Rightarrow> None | Some a \<Rightarrow> if P (k, a) then Some a else None)"
    using Cons x by simp
  show ?case using n IH by (cases "k = k'") (simp_all add: x)
qed simp

lemma canonical_filter: "canonical_map m \<Longrightarrow> canonical_map (filter P m)"
  by (induction m) auto

lemma purge_lookup:
  assumes "table_ok es g"
  shows "map_of (gw_table (purge now g)) k = Some a \<longleftrightarrow>
    map_of (gw_table g) k = Some a \<and> \<not> (\<not> gs_busy (gw_sessions g ! a) \<and> now - gs_last (gw_sessions g ! a) \<ge> session_ttl)"
  using assms by (auto simp: purge_def table_ok_def map_of_filter_canonical split: option.splits if_splits)

lemma purge_simps [simp]: "gw_calls (purge now g) = gw_calls g" "gw_sessions (purge now g) = gw_sessions g"
  by (simp_all add: purge_def)

lemma inv_purge:
  assumes "gateway_inv cf es g"
  shows "gateway_inv cf es (purge now g)"
proof -
  have t: "table_ok es g" by (rule gateway_invD(1) [OF assms])
  have gr: "granted es (purge now g) k a" if "granted es g k a" for k a by (rule granted_mono [OF that]) simp_all
  have k: "call_ok cf es (purge now g) i c" if "call_ok cf es g i c" for i c
    using that gr purge_lookup [OF t] unfolding call_ok_def by auto
  have "canonical_map (gw_table (purge now g))" "fst ` set (gw_table (purge now g)) \<subseteq> set (made_ids es)"
    using t by (auto simp: purge_def table_ok_def canonical_filter)
  then have "table_ok es (purge now g)"
    using t gr unfolding table_ok_def purge_lookup [OF t] purge_simps by blast
  then show ?thesis using assms k by (simp add: gateway_inv_def busy_held_def)
qed

lemma admitted_idle:
  assumes "gateway_inv cf es g" and "at_point Admitted i g"
  shows "i < length (gw_calls g)" "\<not> holding (gw_calls g ! i)" "\<not> gl_initializing (gw_calls g ! i)" "admitted_by cf es i (gw_calls g ! i)"
  using assms(2) gateway_invD(4) [OF assms(1), of i] by (auto simp: at_point_def holding_def call_ok_def)

lemma inv_reuse:
  assumes inv: "gateway_inv cf es g" and at: "at_point Admitted i g"
    and k: "map_of (gw_table g) k = Some a" and b: "\<not> gs_busy (gw_sessions g ! a)"
    and g': "gw_sessions g' = (gw_sessions g)[a := (gw_sessions g ! a)\<lparr>gs_busy := True\<rparr>]" "gw_table g' = gw_table g"
    "gw_calls g' = (gw_calls g)[i := (gw_calls g ! i)\<lparr>gl_point := Handling, gl_rpc_id := rpc, gl_session := a,
      gl_id := k, gl_initializing := False, gl_success := True, gl_released := False\<rparr>]"
  shows "gateway_inv cf es g'"
proof -
  note i = admitted_idle [OF inv at]
  note t = gateway_invD(1) [OF inv, unfolded table_ok_def]
  have a: "a < length (gw_sessions g)" using t k by blast
  have l: "length (gw_sessions g') = length (gw_sessions g)" by (simp add: g')
  have up: "gs_upstream (gw_sessions g' ! x) = gs_upstream (gw_sessions g ! x)" for x
    using a by (cases "x = a") (simp_all add: g')
  have bz: "gs_busy (gw_sessions g' ! x) \<longleftrightarrow> x = a \<or> gs_busy (gw_sessions g ! x)" for x
    using a by (cases "x = a") (simp_all add: g')
  have n: "gw_calls g' ! j = gw_calls g ! j" if "j \<noteq> i" for j using that by (simp add: g')
  define c where "c = gw_calls g' ! i"
  have ii: "gw_calls g' ! i = c" "length (gw_calls g') = length (gw_calls g)" using i(1) by (simp_all add: c_def g')
  have c: "holding c" "gl_session c = a" "gl_id c = k" "\<not> gl_initializing c" "gl_success c" "\<not> gl_released c" "gl_point c = Handling"
      "gl_request c = gl_request (gw_calls g ! i)"
    using i(1) by (simp_all add: c_def holding_def g')
  have lc: "later_calls (gw_calls g) (gw_calls g')"
    using later_calls_update [of "gw_calls g" i] i(3) by (simp add: g')
  have gr: "granted es g' k a" if "granted es g k a" for k a
    by (rule granted_mono [OF that order_refl up lc])
  have g: "granted es g k a" using t k b by blast
  have nh: "gl_session (gw_calls g ! j) \<noteq> a" if "j < length (gw_calls g)" "holding (gw_calls g ! j)" for j
    using gateway_invD(4) [OF inv that(1)] that(2) b by (auto simp: call_ok_def)
  have ko: "call_ok cf es g' j x" if "call_ok cf es g j x" for j x
    using that gr bz unfolding call_ok_def g'(2) l by blast
  have ki: "call_ok cf es g' i c"
    using c i(4) gr [OF g] a k bz [of a] by (simp add: call_ok_def g'(2) l admitted_by_def)
  have "call_ok cf es g' j (gw_calls g' ! j)" if "j < length (gw_calls g')" for j
    using that ko [OF gateway_invD(4) [OF inv]] n ki ii by metis
  moreover have "table_ok es g'" unfolding table_ok_def g'(2) bz l
    using t gr by blast
  moreover have "calls_apart (gw_calls g')" unfolding calls_apart_def ii(2)
    using gateway_invD(2) [OF inv] n c nh i ii(1) unfolding calls_apart_def by metis
  moreover have "busy_held g'" unfolding busy_held_def ii(2) bz
    using gateway_invD(3) [OF inv] n c ii(1) i unfolding busy_held_def l by metis
  ultimately show ?thesis by (simp add: gateway_inv_def)
qed

lemma inv_create:
  assumes inv: "gateway_inv cf es g" and at: "at_point Admitted i g"
    and k: "k \<in> set (made_ids es)" "k \<notin> fst ` set (gw_table g)" and x: "gs_busy x"
    and g': "gw_sessions g' = gw_sessions g @ [x]" "gw_table g' = put k (length (gw_sessions g)) (gw_table g)"
    "gw_calls g' = (gw_calls g)[i := (gw_calls g ! i)\<lparr>gl_point := Handling, gl_rpc_id := rpc, gl_session := length (gw_sessions g),
      gl_id := k, gl_initializing := True, gl_success := False, gl_released := False\<rparr>]"
  shows "gateway_inv cf es g'"
proof -
  note i = admitted_idle [OF inv at]
  note t = gateway_invD(1) [OF inv, unfolded table_ok_def]
  let ?a = "length (gw_sessions g)"
  have s: "gw_sessions g' = gw_sessions g @ [x]" "map_of (gw_table g') = (map_of (gw_table g))(k \<mapsto> ?a)" using g' by simp_all
  have old: "gw_sessions g' ! b = gw_sessions g ! b" if "b < ?a" for b using that by (simp add: nth_append g')
  have new: "gw_sessions g' ! ?a = x" by (simp add: g')
  have kn: "map_of (gw_table g) k = None" using k(2) by (simp add: map_of_eq_None_iff)
  have n: "gw_calls g' ! j = gw_calls g ! j" if "j \<noteq> i" for j using that by (simp add: g')
  define c where "c = gw_calls g' ! i"
  have ii: "gw_calls g' ! i = c" "length (gw_calls g') = length (gw_calls g)" using i(1) by (simp_all add: c_def g')
  have c: "holding c" "gl_session c = ?a" "gl_id c = k" "gl_initializing c" "\<not> gl_success c" "\<not> gl_released c" "gl_point c = Handling"
      "gl_request c = gl_request (gw_calls g ! i)"
    using i(1) by (simp_all add: c_def holding_def g')
  have lc: "later_calls (gw_calls g) (gw_calls g')"
    using later_calls_update [of "gw_calls g" i] i(3) by (simp add: g')
  have gr: "granted es g' l b" if "granted es g l b" "b < ?a" for l b
    using old [OF that(2)] by (intro granted_mono [OF that(1) order_refl _ lc]) simp
  have sess: "gl_session (gw_calls g ! j) < ?a" if "j < length (gw_calls g)" "holding (gw_calls g ! j) \<or> gl_initializing (gw_calls g ! j)" for j
    using gateway_invD(4) [OF inv that(1)] that(2) by (auto simp: call_ok_def)
  have ko: "call_ok cf es g' j y" if y: "call_ok cf es g j y" for j y
  proof -
    have h: "holding y \<Longrightarrow> gl_session y < ?a \<and> gl_id y \<noteq> k" using y kn by (auto simp: call_ok_def)
    have g: "gl_point y \<in> {Handling, Replying} \<Longrightarrow> \<not> gl_initializing y \<Longrightarrow> holding y \<and> granted es g (gl_id y) (gl_session y)"
      using y by (auto simp: call_ok_def holding_def)
    have b: "holding y \<Longrightarrow> gs_busy (gw_sessions g' ! gl_session y) \<and> map_of (gw_table g') (gl_id y) = Some (gl_session y)"
      using y h old [of "gl_session y"] by (simp add: call_ok_def s(2))
    have gr': "gl_point y \<in> {Handling, Replying} \<Longrightarrow> \<not> gl_initializing y \<Longrightarrow> granted es g' (gl_id y) (gl_session y)"
      using g h gr by blast
    show ?thesis using y b gr' unfolding call_ok_def s(1) by (simp add: less_Suc_eq)
  qed
  have ki: "call_ok cf es g' i c"
    using c i(4) new x by (simp add: call_ok_def s admitted_by_def)
  have "call_ok cf es g' j (gw_calls g' ! j)" if "j < length (gw_calls g')" for j
    using that ko [OF gateway_invD(4) [OF inv]] n ki ii by metis
  moreover have "table_ok es g'"
  proof -
    have "canonical_map (gw_table g')" "fst ` set (gw_table g') \<subseteq> set (made_ids es)" using t k(1) by (auto simp: canonical_put g')
    moreover have lt: "b < ?a" if "map_of (gw_table g) l = Some b" for l b using t that by blast
    have inj: "l = l'" if "map_of (gw_table g) l = Some b" "map_of (gw_table g) l' = Some b" for l l' b using t that by blast
    have gt: "granted es g l b" if "map_of (gw_table g) l = Some b" "\<not> gs_busy (gw_sessions g ! b)" for l b using t that by blast
    moreover have "granted es g' l b" if "map_of (gw_table g') l = Some b" "\<not> gs_busy (gw_sessions g' ! b)" for l b
    proof -
      have "l \<noteq> k" using that new x unfolding s by auto
      then have "map_of (gw_table g) l = Some b" using that(1) unfolding s by simp
      then show ?thesis using gt gr lt [of l b] that(2) old [of b] by simp
    qed
    moreover have "l = l'" if "map_of (gw_table g') l = Some b" "map_of (gw_table g') l' = Some b" for l l' b
      using that inj lt [of l b] lt [of l' b] unfolding s(2) by (cases "l = k"; cases "l' = k") auto
    moreover have "b < length (gw_sessions g')" if "map_of (gw_table g') l = Some b" for l b
      using that lt [of l b] by (auto simp: g' split: if_splits)
    ultimately show ?thesis unfolding table_ok_def by simp
  qed
  moreover have "calls_apart (gw_calls g')"
  proof -
    have ai: "gl_session (gw_calls g' ! j) \<noteq> ?a" if "j < length (gw_calls g)" "j \<noteq> i"
        "holding (gw_calls g' ! j) \<or> gl_initializing (gw_calls g' ! j)" for j
      using sess [of j] that n [of j] by auto
    show ?thesis unfolding calls_apart_def ii(2)
      using gateway_invD(2) [OF inv] n c ii(1) ai unfolding calls_apart_def by metis
  qed
  moreover have "busy_held g'"
  proof -
    have "\<exists>j<length (gw_calls g). holding (gw_calls g' ! j) \<and> gl_session (gw_calls g' ! j) = b"
      if "b < Suc ?a" "gs_busy (gw_sessions g' ! b)" for b
    proof (cases "b = ?a")
      case True
      then show ?thesis using c ii i(1) by metis
    next
      case False
      then have "b < ?a" "gs_busy (gw_sessions g ! b)" using that old [of b] by auto
      then obtain j where "j < length (gw_calls g)" "holding (gw_calls g ! j)" "gl_session (gw_calls g ! j) = b"
        using gateway_invD(3) [OF inv] unfolding busy_held_def by blast
      then show ?thesis using n i(2) by metis
    qed
    then show ?thesis by (simp add: busy_held_def ii(2) s(1))
  qed
  ultimately show ?thesis by (simp add: gateway_inv_def)
qed

text \<open>Steps of the call that holds session \<open>a\<close>: its handler, and its return.\<close>

lemma holder_facts:
  assumes "gateway_inv cf es g" and "i < length (gw_calls g)" and "holding (gw_calls g ! i)"
  shows "gl_session (gw_calls g ! i) < length (gw_sessions g)" "gs_busy (gw_sessions g ! gl_session (gw_calls g ! i))"
    "map_of (gw_table g) (gl_id (gw_calls g ! i)) = Some (gl_session (gw_calls g ! i))"
    "\<And>j. j < length (gw_calls g) \<Longrightarrow> j \<noteq> i \<Longrightarrow> holding (gw_calls g ! j) \<Longrightarrow> gl_session (gw_calls g ! j) \<noteq> gl_session (gw_calls g ! i)"
  using gateway_invD(4) [OF assms(1,2)] gateway_invD(2) [OF assms(1)] assms(2,3) by (simp_all add: call_ok_def calls_apart_def)

lemma inv_set_point:
  assumes inv: "gateway_inv cf es g" and i: "i < length (gw_calls g)" "gl_point (gw_calls g ! i) = Handling"
    and g': "gw_sessions g' = gw_sessions g" "gw_table g' = gw_table g"
    "gw_calls g' = (gw_calls g)[i := (gw_calls g ! i)\<lparr>gl_point := Replying\<rparr>]"
  shows "gateway_inv cf es g'"
proof -
  let ?c = "(gw_calls g ! i)\<lparr>gl_point := Replying\<rparr>"
  have h: "holding ?c = holding (gw_calls g ! i)" using i by (simp add: holding_def)
  have n: "gw_calls g' ! j = (if j = i then ?c else gw_calls g ! j)" for j using i(1) by (simp add: g')
  have l: "length (gw_calls g') = length (gw_calls g)" by (simp add: g')
  have same: "holding (gw_calls g' ! j) = holding (gw_calls g ! j)" "gl_session (gw_calls g' ! j) = gl_session (gw_calls g ! j)"
      "gl_initializing (gw_calls g' ! j) = gl_initializing (gw_calls g ! j)" for j
    using h by (simp_all add: n)
  have lc: "later_calls (gw_calls g) (gw_calls g')" using later_calls_update [of "gw_calls g" i ?c] by (simp add: g' same_call_def)
  have gr: "granted es g' k a" if "granted es g k a" for k a by (rule granted_mono [OF that order_refl _ lc]) (simp add: g')
  have k: "call_ok cf es g' j c" if "call_ok cf es g j c" for j c using that gr by (simp add: call_ok_def g'(1,2))
  have "call_ok cf es g' i ?c"
    using k [OF gateway_invD(4) [OF inv i(1)]] i(2) h by (auto simp: call_ok_def admitted_by_def)
  then have "call_ok cf es g' j (gw_calls g' ! j)" if "j < length (gw_calls g')" for j
    using that k [OF gateway_invD(4) [OF inv]] by (simp add: n l)
  moreover have "table_ok es g'" using gateway_invD(1) [OF inv] gr by (simp add: table_ok_def g'(1,2))
  moreover have "calls_apart (gw_calls g')" using gateway_invD(2) [OF inv] by (simp add: calls_apart_def l same)
  moreover have "busy_held g'" using gateway_invD(3) [OF inv] by (simp add: busy_held_def l same g'(1))
  ultimately show ?thesis by (simp add: gateway_inv_def)
qed

text \<open>\<open>onReady\<close> and the end of the handler, for an initialize whose reply was granted.\<close>

lemma inv_ready:
  assumes inv: "gateway_inv cf es g" and i: "i < length (gw_calls g)" "gl_point (gw_calls g ! i) = Handling"
    and init: "gl_initializing (gw_calls g ! i)" and a: "a = gl_session (gw_calls g ! i)"
    and e: "Handled i now st h ps \<in> set es"
      "snd (handshake (gl_rpc_id (gw_calls g ! i)) (gl_id (gw_calls g ! i)) h st ps) = Some (gs_upstream x)"
    and x: "\<not> gs_busy x"
    and g': "gw_sessions g' = (gw_sessions g)[a := x]" "gw_table g' = gw_table g"
    "gw_calls g' = (gw_calls g)[i := (gw_calls g ! i)\<lparr>gl_success := True, gl_released := True, gl_point := Replying\<rparr>]"
  shows "gateway_inv cf es g'"
proof -
  let ?c = "(gw_calls g ! i)\<lparr>gl_success := True, gl_released := True, gl_point := Replying\<rparr>"
  note ok = gateway_invD(4) [OF inv i(1), unfolded call_ok_def]
  have hi: "holding (gw_calls g ! i)" "\<not> gl_success (gw_calls g ! i)" using ok i init by (auto simp: holding_def)
  note hf = holder_facts [OF inv i(1) hi(1), folded a]
  have n: "gw_calls g' ! j = (if j = i then ?c else gw_calls g ! j)" for j using i(1) by (simp add: g')
  have l: "length (gw_calls g') = length (gw_calls g)" "length (gw_sessions g') = length (gw_sessions g)" by (simp_all add: g')
  have old: "gw_sessions g' ! b = (if b = a then x else gw_sessions g ! b)" for b using hf(1) by (simp add: g')
  have nc: "\<not> holding ?c" "gl_initializing ?c" "gl_session ?c = a" "gl_id ?c = gl_id (gw_calls g ! i)" using init a by (simp_all add: holding_def)
  have lc: "later_calls (gw_calls g) (gw_calls g')" using later_calls_update [of "gw_calls g" i ?c] hi(2) by (simp add: g')
  have na: "\<not> granted es g k a" for k
  proof
    assume "granted es g k a"
    then obtain j where j: "j < length (gw_calls g)" "gl_initializing (gw_calls g ! j)" "gl_success (gw_calls g ! j)" "gl_session (gw_calls g ! j) = a"
      by (auto simp: granted_def Let_def)
    then have "j \<noteq> i" using hi(2) by auto
    then show False using gateway_invD(2) [OF inv] j i(1) init a by (auto simp: calls_apart_def)
  qed
  have gr: "granted es g' k b" if g: "granted es g k b" for k b
  proof -
    have "b \<noteq> a" using g na by auto
    then show ?thesis by (intro granted_mono [OF g order_refl _ lc]) (simp add: old)
  qed
  have new: "granted es g' (gl_id (gw_calls g ! i)) a"
    unfolding granted_def Let_def l(1) using i(1) init a e by (intro exI [of _ i]) (auto simp: n old)
  have k: "call_ok cf es g' j (gw_calls g ! j)" if j: "j < length (gw_calls g)" "j \<noteq> i" for j
  proof -
    have "holding (gw_calls g ! j) \<Longrightarrow> gl_session (gw_calls g ! j) \<noteq> a" by (rule hf(4) [OF j])
    then show ?thesis using gateway_invD(4) [OF inv j(1)] gr unfolding call_ok_def l(2) g'(2) old by simp
  qed
  have "call_ok cf es g' i ?c" using ok nc hf(1) i by (simp add: call_ok_def l(2) admitted_by_def a)
  then have "call_ok cf es g' j (gw_calls g' ! j)" if "j < length (gw_calls g')" for j using that k by (simp add: n l(1))
  moreover have "table_ok es g'"
  proof -
    note t = gateway_invD(1) [OF inv, unfolded table_ok_def]
    have "k = gl_id (gw_calls g ! i)" if "map_of (gw_table g) k = Some a" for k using that hf(3) t by blast
    then have "granted es g' k b" if "map_of (gw_table g) k = Some b" "\<not> gs_busy (gw_sessions g' ! b)" for k b
      using that new t gr old [of b] by (cases "b = a") auto
    then show ?thesis using t unfolding table_ok_def l(2) g'(2) by blast
  qed
  moreover have "calls_apart (gw_calls g')" unfolding calls_apart_def l(1) n
    using gateway_invD(2) [OF inv] nc init a unfolding calls_apart_def by (auto split: if_splits)
  moreover have "busy_held g'"
  proof -
    have "\<exists>j<length (gw_calls g). holding (gw_calls g' ! j) \<and> gl_session (gw_calls g' ! j) = b"
      if "b < length (gw_sessions g)" "gs_busy (gw_sessions g' ! b)" for b
    proof -
      have b: "b \<noteq> a" "b < length (gw_sessions g)" "gs_busy (gw_sessions g ! b)" using that x old [of b] by (auto split: if_splits)
      then obtain j where "j < length (gw_calls g)" "holding (gw_calls g ! j)" "gl_session (gw_calls g ! j) = b"
        using gateway_invD(3) [OF inv] unfolding busy_held_def by blast
      then show ?thesis using b(1) a n by metis
    qed
    then show ?thesis by (simp add: busy_held_def l)
  qed
  ultimately show ?thesis by (simp add: gateway_inv_def)
qed

lemma inv_touch:
  assumes inv: "gateway_inv cf es g" and x: "gs_busy x = gs_busy (gw_sessions g ! a)" "gs_upstream x = gs_upstream (gw_sessions g ! a)"
    and g': "gw_sessions g' = (gw_sessions g)[a := x]" "gw_table g' = gw_table g" "gw_calls g' = gw_calls g"
  shows "gateway_inv cf es g'"
proof -
  have b: "gs_busy (gw_sessions g' ! b) = gs_busy (gw_sessions g ! b) \<and> gs_upstream (gw_sessions g' ! b) = gs_upstream (gw_sessions g ! b)" for b
  proof (cases "a < length (gw_sessions g)")
    case True
    then show ?thesis using x by (cases "b = a") (simp_all add: g')
  next
    case False
    then show ?thesis by (simp add: g' list_update_beyond)
  qed
  have up: "gs_upstream (gw_sessions g' ! b) = gs_upstream (gw_sessions g ! b)" for b using b by blast
  have bz: "gs_busy (gw_sessions g' ! b) = gs_busy (gw_sessions g ! b)" for b using b by blast
  have l: "length (gw_sessions g') = length (gw_sessions g)" by (simp add: g')
  have gr: "granted es g' k b" if "granted es g k b" for k b by (rule granted_mono [OF that order_refl up]) (simp add: g')
  have k: "call_ok cf es g' i c" if "call_ok cf es g i c" for i c using that gr unfolding call_ok_def bz l g'(2) by blast
  have "table_ok es g'" using gateway_invD(1) [OF inv] gr unfolding table_ok_def bz l g'(2) by blast
  moreover have "busy_held g'" using gateway_invD(3) [OF inv] unfolding busy_held_def bz l g'(3) .
  ultimately show ?thesis using inv k by (simp add: gateway_inv_def g'(3))
qed

lemma inv_finish:
  assumes inv: "gateway_inv cf es g" and i: "i < length (gw_calls g)" "gl_point (gw_calls g ! i) = Replying"
    and a: "a = gl_session (gw_calls g ! i)" and k: "k = gl_id (gw_calls g ! i)"
    and x: "\<not> gs_busy x" "gs_upstream x = gs_upstream (gw_sessions g ! a)"
    and g': "gw_sessions g' = (if gl_released (gw_calls g ! i) then gw_sessions g else (gw_sessions g)[a := x])"
      "gw_table g' = (if gl_released (gw_calls g ! i) \<or> gl_success (gw_calls g ! i) then gw_table g else del k (gw_table g))"
      "gw_calls g' = (gw_calls g)[i := (gw_calls g ! i)\<lparr>gl_point := Finished\<rparr>]"
  shows "gateway_inv cf es g'"
proof -
  let ?c = "(gw_calls g ! i)\<lparr>gl_point := Finished\<rparr>"
  note ok = gateway_invD(4) [OF inv i(1), unfolded call_ok_def]
  note t = gateway_invD(1) [OF inv, unfolded table_ok_def]
  have n: "gw_calls g' ! j = (if j = i then ?c else gw_calls g ! j)" for j using i(1) by (simp add: g')
  have l: "length (gw_calls g') = length (gw_calls g)" "length (gw_sessions g') = length (gw_sessions g)" by (simp_all add: g')
  have h: "holding (gw_calls g ! i) \<longleftrightarrow> \<not> gl_released (gw_calls g ! i)" using i by (simp add: holding_def)
  note hf = holder_facts [OF inv i(1), folded a k]
  have busy: "gs_busy (gw_sessions g' ! b) \<longleftrightarrow> gs_busy (gw_sessions g ! b) \<and> (gl_released (gw_calls g ! i) \<or> b \<noteq> a)" for b
    using hf(1) h x by (cases "b = a") (auto simp: g')
  have up: "gs_upstream (gw_sessions g' ! b) = gs_upstream (gw_sessions g ! b)" for b
    using hf(1) h x by (cases "b = a") (auto simp: g')
  have tab: "map_of (gw_table g') m = Some b \<longleftrightarrow>
      map_of (gw_table g) m = Some b \<and> (gl_released (gw_calls g ! i) \<or> gl_success (gw_calls g ! i) \<or> m \<noteq> k)" for m b
    by (auto simp: g'(2) map_of_del)
  have lc: "later_calls (gw_calls g) (gw_calls g')" using later_calls_update [of "gw_calls g" i ?c] by (simp add: g' same_call_def)
  have gr: "granted es g' m b" if "granted es g m b" for m b by (rule granted_mono [OF that order_refl up lc])
  have ko: "call_ok cf es g' j (gw_calls g ! j)" if j: "j < length (gw_calls g)" "j \<noteq> i" for j
  proof -
    have "holding (gw_calls g ! j) \<Longrightarrow> gl_released (gw_calls g ! i) \<or> gl_session (gw_calls g ! j) \<noteq> a \<and> gl_id (gw_calls g ! j) \<noteq> k"
      using hf h j gateway_invD(4) [OF inv j(1)] by (auto simp: call_ok_def)
    then show ?thesis using gateway_invD(4) [OF inv j(1)] gr unfolding call_ok_def l(2) busy tab by blast
  qed
  have "call_ok cf es g' i ?c" using ok i(2) by (simp add: call_ok_def l(2) admitted_by_def holding_def)
  then have "call_ok cf es g' j (gw_calls g' ! j)" if "j < length (gw_calls g')" for j using that ko by (simp add: n l(1))
  moreover have "table_ok es g'"
  proof -
    have lt: "b < length (gw_sessions g)" and gt: "\<not> gs_busy (gw_sessions g ! b) \<Longrightarrow> granted es g m b"
      if "map_of (gw_table g) m = Some b" for m b using t that by blast+
    have inj: "m = m'" if "map_of (gw_table g) m = Some b" "map_of (gw_table g) m' = Some b" for m m' b using t that by blast
    have ng: "granted es g' m b" if m: "map_of (gw_table g') m = Some b" "\<not> gs_busy (gw_sessions g' ! b)" for m b
    proof (cases "gl_released (gw_calls g ! i) \<or> b \<noteq> a")
      case True
      then show ?thesis using m gt [of m b] gr by (simp add: busy tab)
    next
      case False
      then have "m = k" using m(1) hf(3) h inj unfolding tab by blast
      then have "gl_success (gw_calls g ! i)" using m(1) False unfolding tab by simp
      then show ?thesis using ok i(2) False gr \<open>m = k\<close> a k by auto
    qed
    have "canonical_map (gw_table g')" using t by (simp add: g'(2) canonical_del)
    moreover have "fst ` set (gw_table g') \<subseteq> set (made_ids es)" using t by (auto simp: g'(2) del_def)
    moreover have "b < length (gw_sessions g)" if "map_of (gw_table g') m = Some b" for m b using that lt tab by blast
    moreover have "m = m'" if "map_of (gw_table g') m = Some b" "map_of (gw_table g') m' = Some b" for m m' b using that inj tab by blast
    ultimately show ?thesis using ng unfolding table_ok_def l(2) by simp
  qed
  moreover have "calls_apart (gw_calls g')"
  proof -
    have "holding (gw_calls g' ! j) \<Longrightarrow> holding (gw_calls g ! j)" "gl_initializing (gw_calls g' ! j) = gl_initializing (gw_calls g ! j)"
      "gl_session (gw_calls g' ! j) = gl_session (gw_calls g ! j)" for j
      by (auto simp: n holding_def split: if_splits)
    then show ?thesis using gateway_invD(2) [OF inv] unfolding calls_apart_def l(1) by metis
  qed
  moreover have "busy_held g'"
  proof -
    have "\<exists>j<length (gw_calls g). holding (gw_calls g' ! j) \<and> gl_session (gw_calls g' ! j) = b"
      if "b < length (gw_sessions g)" "gs_busy (gw_sessions g' ! b)" for b
    proof -
      obtain j where "j < length (gw_calls g)" "holding (gw_calls g ! j)" "gl_session (gw_calls g ! j) = b"
        using gateway_invD(3) [OF inv] \<open>b < _\<close> \<open>gs_busy _\<close> unfolding busy_held_def busy by blast
      moreover have "j \<noteq> i" using calculation \<open>gs_busy _\<close> h a unfolding busy by blast
      ultimately show ?thesis using n by metis
    qed
    then show ?thesis by (simp add: busy_held_def l)
  qed
  ultimately show ?thesis by (simp add: gateway_inv_def)
qed

text \<open>The random ids of a run do not repeat.\<close>

lemma set_made_ids: "set es \<subseteq> set es' \<Longrightarrow> set (made_ids es) \<subseteq> set (made_ids es')"
proof -
  have m: "k \<in> set (made_ids xs) \<longleftrightarrow> (\<exists>i now b. Enters i now (Some b) \<in> set xs \<and> k = session_id b)" for k xs
    by (induction xs rule: made_ids.induct) auto
  show "set es \<subseteq> set es' \<Longrightarrow> ?thesis" using m by blast
qed

lemma inv_more:
  assumes "gateway_inv cf es g"
  shows "gateway_inv cf (es @ [e]) g"
  by (rule inv_more_events [OF assms]) (auto intro: set_made_ids [THEN subsetD, rotated])

lemma answered_inv:
  assumes "gateway_inv cf es g" and "at_point Authenticating i g" and "Answered i now ans \<in> set es"
  shows "gateway_inv cf es (answered cf i now ans g)"
proof -
  have i: "i < length (gw_calls g)" "idle (gw_calls g ! i)" using assms(2) by (simp_all add: at_point_def idle_def)
  let ?au = "authenticate cf (rq_auths (gl_request (gw_calls g ! i))) now ans"
  have a: "?au \<noteq> None \<Longrightarrow> admitted_by cf es i (gw_calls g ! i)" using assms(3) by (auto simp: admitted_by_def)
  have mv: "gateway_inv cf es (set_call_point i p (g\<lparr>gw_auth := n, gw_inflight := m\<rparr>))"
    if "p = Admitted \<and> ?au \<noteq> None \<or> (\<exists>st. p = Refused st)" for p n m
    by (rule inv_move_idle [OF assms(1) i]) (use that a in \<open>auto simp: idle_def set_call_point_def\<close>)
  note mv = mv [where n = "gw_auth g - 1"]
  show ?thesis
    using mv [where p = "Refused 401" and m = "gw_inflight g"] mv [where p = "Refused 429" and m = "gw_inflight g"]
      mv [where p = Admitted and m = "gw_inflight g + 1"]
    by (auto simp: answered_def Let_def split: option.split)
qed

lemma entered_inv:
  assumes inv: "gateway_inv cf es g" and at: "at_point Admitted i g"
    and ids: "\<And>b. rand = Some b \<Longrightarrow> session_id b \<in> set (made_ids es) \<and> session_id b \<notin> fst ` set (gw_table g)"
  shows "gateway_inv cf es (entered i now rand g)"
proof -
  note i = admitted_idle [OF inv at]
  have id: "idle (gw_calls g ! i)" using at by (simp add: at_point_def idle_def)
  let ?p = "purge now g"
  have pinv: "gateway_inv cf es ?p" by (rule inv_purge [OF inv])
  have pat: "at_point Admitted i ?p" using at by (simp add: at_point_def)
  have leave: "gateway_inv cf es (set_call_point i (Refused st) (g'\<lparr>gw_inflight := n\<rparr>))" if "g' = g \<or> g' = ?p" for g' st n
  proof -
    have "gateway_inv cf es g'" "i < length (gw_calls g')" "idle (gw_calls g' ! i)" using that inv pinv i(1) id by auto
    then show ?thesis by (rule inv_move_idle) (auto simp: idle_def set_call_point_def)
  qed
  show ?thesis
  proof (cases "serve_body (gl_request (gw_calls g ! i))")
    case (Inl st)
    then show ?thesis using leave [of g] by (simp add: entered_def)
  next
    case (Inr y)
    obtain sid rpc where y: "y = (sid, rpc)" by (cases y)
    note b = Inr [unfolded y]
    show ?thesis
    proof (cases "sid = []")
      case False
      show ?thesis
      proof (cases "map_of (gw_table ?p) sid")
        case None
        then show ?thesis using b False leave [of ?p] by (simp add: entered_def acquire_def Let_def)
      next
        case (Some a)
        show ?thesis
        proof (cases "gs_busy (gw_sessions g ! a)")
          case True
          then show ?thesis using b False Some leave [of ?p] by (simp add: entered_def acquire_def Let_def)
        next
          case nb: False
          have "gateway_inv cf es (entered i now rand g)"
            by (rule inv_reuse [OF pinv pat Some]) (use b False Some nb in \<open>simp_all add: entered_def acquire_def Let_def\<close>)
          then show ?thesis .
        qed
      qed
    next
      case True
      show ?thesis
      proof (cases "length (gw_table ?p) \<ge> session_limit \<or> rand = None")
        case full: True
        then show ?thesis using b True leave [of ?p] by (auto simp: entered_def acquire_def Let_def)
      next
        case room: False
        then obtain r where r: "rand = Some r" by blast
        have "session_id r \<notin> fst ` set (gw_table ?p)" using ids [OF r] by (auto simp: purge_def)
        then show ?thesis using ids [OF r] b True room
          by (intro inv_create [OF pinv pat, of "session_id r"
              "\<lparr>gs_upstream = [], gs_last = now, gs_busy = True\<rparr>"]) (simp_all add: entered_def acquire_def Let_def r)
      qed
    qed
  qed
qed

lemma handled_inv:
  assumes inv: "gateway_inv cf es g" and at: "at_point Handling i g" and e: "Handled i now st h ps \<in> set es"
  shows "gateway_inv cf es (handled i now st h ps g)"
proof -
  have i: "i < length (gw_calls g)" "gl_point (gw_calls g ! i) = Handling" using at by (simp_all add: at_point_def)
  show ?thesis
  proof (cases "gl_initializing (gw_calls g ! i) \<and> snd (handshake (gl_rpc_id (gw_calls g ! i)) (gl_id (gw_calls g ! i)) h st ps) \<noteq> None")
    case False
    then show ?thesis by (intro inv_set_point [OF inv i]) (auto simp: handled_def set_call_point_def Let_def)
  next
    case True
    then obtain u where u: "snd (handshake (gl_rpc_id (gw_calls g ! i)) (gl_id (gw_calls g ! i)) h st ps) = Some u" by blast
    let ?x = "(gw_sessions g ! gl_session (gw_calls g ! i))\<lparr>gs_upstream := u, gs_busy := False, gs_last := now\<rparr>"
    show ?thesis
      by (rule inv_ready [OF inv i _ refl e, of ?x])
        (use True u i(1) in \<open>simp_all add: handled_def session_ready_def set_call_point_def Let_def\<close>)
  qed
qed

lemma returned_inv:
  assumes inv: "gateway_inv cf es g" and at: "at_point Replying i g"
  shows "gateway_inv cf es (returned i now g)"
proof -
  have i: "i < length (gw_calls g)" "gl_point (gw_calls g ! i) = Replying" using at by (simp_all add: at_point_def)
  let ?c = "gw_calls g ! i" let ?a = "gl_session ?c"
  let ?g = "set_call_point i Finished (g\<lparr>gw_inflight := gw_inflight g - 1\<rparr>)"
  let ?x = "(gw_sessions g ! ?a)\<lparr>gs_busy := False, gs_last := now\<rparr>"
  note fin = inv_finish [OF inv i refl refl, of ?x]
  show ?thesis
  proof (cases "gl_released ?c")
    case False
    then show ?thesis by (intro fin) (simp_all add: returned_def set_call_point_def Let_def)
  next
    case True
    have g: "gateway_inv cf es ?g" by (rule fin) (simp_all add: True set_call_point_def)
    have "gateway_inv cf es (update_session ?a (gs_last_update (\<lambda>_. now)) ?g)"
      by (rule inv_touch [OF g, of "(gw_sessions ?g ! ?a)\<lparr>gs_last := now\<rparr>"]) simp_all
    then show ?thesis using g True by (simp add: returned_def Let_def)
  qed
qed

lemma step_inv:
  assumes "gateway_inv cf es g" and "distinct (made_ids (es @ [e]))"
  shows "gateway_inv cf (es @ [e]) (gateway_step cf e g)"
proof -
  note inv = inv_more [OF assms(1), of e]
  show ?thesis
  proof (cases e)
    case (Arrives r)
    have "gateway_inv cf (es @ [e]) (add_call r p (g\<lparr>gw_auth := n\<rparr>))" if "p = Authenticating \<or> (\<exists>st. p = Refused st)" for p n
      by (rule inv_add_call [OF inv that])
    from this [of _ "gw_auth g"] this [of _ "gw_auth g + 1"] show ?thesis
      by (auto simp: Arrives gateway_step_def arrive_def split: front.split)
  next
    case (Answered i now ans)
    then show ?thesis using inv answered_inv [OF inv, of i now ans] by (simp add: gateway_step_def)
  next
    case (Enters i now rand)
    have "session_id b \<in> set (made_ids (es @ [e])) \<and> session_id b \<notin> fst ` set (gw_table g)" if "rand = Some b" for b
      using gateway_invD(1) [OF assms(1)] assms(2) that Enters by (auto simp: table_ok_def)
    then show ?thesis using inv entered_inv [OF inv, of i rand now] Enters by (simp add: gateway_step_def)
  next
    case (Handled i now st h ps)
    then show ?thesis using inv handled_inv [OF inv, of i now st h ps] by (simp add: gateway_step_def)
  next
    case (Returns i now)
    then show ?thesis using inv returned_inv [OF inv, of i now] by (simp add: gateway_step_def)
  qed
qed

lemma run_inv: "distinct (made_ids es) \<Longrightarrow> gateway_inv cf es (gateway_run cf es)"
proof (induction es rule: rev_induct)
  case Nil
  then show ?case by (simp add: gateway_run_def new_gateway_def gateway_inv_def table_ok_def calls_apart_def busy_held_def)
next
  case (snoc e es)
  then show ?case using step_inv [of cf es "gateway_run cf es" e] by simp
qed

lemma run_slots: "slots_ok (gateway_run cf es)"
  by (induction es rule: rev_induct) (simp_all add: slots_ok_step, simp add: gateway_run_def new_gateway_def slots_ok_def at_points_def)

subsection \<open>What the gateway promises\<close>

lemma handshake_status:
  assumes "snd (handshake req sid h st ps) = Some u"
  shows "\<exists>st'. st' \<noteq> 0 \<and> snd (handshake req sid h st' ps) = Some u"
proof (cases "st = 0")
  case True
  let ?w = "write_header 0 (new_init_writer req sid h)"
  have w: "write_header 200 ?w = write_header 200 (new_init_writer req sid h)" by (simp add: write_header_def new_init_writer_def)
  show ?thesis
  proof (cases ps)
    case Nil
    have "iw_mode ?w = Buffered" "iw_status ?w = 0" "\<not> iw_committed ?w" "\<not> iw_overflow ?w" by simp_all
    then have "snd (finish_init ?w) = None" by (simp add: finish_init_def validate_initialize_def)
    then show ?thesis using assms True Nil by (simp add: handshake_def)
  next
    case (Cons p qs)
    have "init_write p ?w = init_write p (write_header 200 ?w)" by (simp add: init_write_def w)
    then have "init_write p ?w = init_write p (write_header 200 (new_init_writer req sid h))" by (simp only: w)
    then have "handshake req sid h 200 ps = handshake req sid h 0 ps" by (simp add: handshake_def Cons)
    then show ?thesis using assms True by (intro exI [of _ 200]) simp
  qed
qed (use assms in blast)

text \<open>
  C6. Whatever the order of the steps, a session is busy exactly while one request uses it: no two requests share a session, and no
  session stays busy without a request.
\<close>

theorem busy_session_has_one_request:
  assumes "distinct (made_ids es)" and "a < length (gw_sessions (gateway_run cf es))"
  shows "gs_busy (gw_sessions (gateway_run cf es) ! a) \<longleftrightarrow>
    (\<exists>!i. i < length (gw_calls (gateway_run cf es)) \<and> holding (gw_calls (gateway_run cf es) ! i)
       \<and> gl_session (gw_calls (gateway_run cf es) ! i) = a)"
proof -
  let ?g = "gateway_run cf es"
  note inv = run_inv [OF assms(1), of cf]
  have "\<exists>i<length (gw_calls ?g). holding (gw_calls ?g ! i) \<and> gl_session (gw_calls ?g ! i) = a" if "gs_busy (gw_sessions ?g ! a)"
    using gateway_invD(3) [OF inv] assms(2) that unfolding busy_held_def by blast
  then show ?thesis using holder_facts(2,4) [OF inv] by (metis (no_types, lifting))
qed

text \<open>
  At most 16 requests are in authentication and 64 in service, and the table never has more than 64 sessions.\<close>

theorem gateway_never_overcommits:
  "at_points {Authenticating} (gateway_run cf es) \<le> auth_limit
   \<and> at_points {Admitted, Handling, Replying} (gateway_run cf es) \<le> session_limit
   \<and> length (gw_table (gateway_run cf es)) \<le> session_limit"
  using run_slots [of cf es] by (simp add: slots_ok_def)

lemma forwarded_session: "header_get (forward_headers r u) ''Mcp-Session-Id'' = u"
  by (simp add: header_get_def forward_headers_def)

text \<open>
  C7. A request reaches the handler of a session only after the introspection endpoint confirmed its token for this gateway, and, unless
  it is the initialize that makes the session, only after the reply to that initialize was a success response; the headers it is forwarded
  with name the session that the headers of that reply named.
\<close>

theorem handled_request_is_entitled:
  assumes "distinct (made_ids es)" and "at_point Handling i (gateway_run cf es)" and "c = gw_calls (gateway_run cf es) ! i"
  shows "(\<exists>now ans tok. Answered i now ans \<in> set es \<and> authenticate cf (rq_auths (gl_request c)) now ans = Some tok \<and> claims_ok cf now tok)
    \<and> (gl_initializing c \<or>
       (\<exists>j now st h ps payload ms. Handled j now st h ps \<in> set es
          \<and> gl_initializing (gw_calls (gateway_run cf es) ! j) \<and> gl_session (gw_calls (gateway_run cf es) ! j) = gl_session c
          \<and> payload \<in> set (reply_payloads h (concat ps)) \<and> json_parse payload = Some (JObj ms)
          \<and> success_reply (gl_rpc_id (gw_calls (gateway_run cf es) ! j)) ms
          \<and> gs_upstream (gw_sessions (gateway_run cf es) ! gl_session c) = header_get h ''Mcp-Session-Id''
          \<and> header_get (forward_headers (gl_request c) (gs_upstream (gw_sessions (gateway_run cf es) ! gl_session c))) ''Mcp-Session-Id''
              = header_get h ''Mcp-Session-Id''))"
proof -
  let ?g = "gateway_run cf es"
  have i: "i < length (gw_calls ?g)" "gl_point c = Handling" using assms(2,3) by (simp_all add: at_point_def)
  have ok: "call_ok cf es ?g i c" using gateway_invD(4) [OF run_inv [OF assms(1)] i(1)] assms(3) by simp
  have "admitted_by cf es i c" using ok i(2) by (simp add: call_ok_def)
  then obtain now ans tok where t: "Answered i now ans \<in> set es" "authenticate cf (rq_auths (gl_request c)) now ans = Some tok"
    by (auto simp: admitted_by_def)
  then have "claims_ok cf now tok" by (auto simp: authenticate_def split: option.splits if_splits)
  moreover have "\<exists>j now st h ps payload ms. Handled j now st h ps \<in> set es
          \<and> gl_initializing (gw_calls ?g ! j) \<and> gl_session (gw_calls ?g ! j) = gl_session c
          \<and> payload \<in> set (reply_payloads h (concat ps)) \<and> json_parse payload = Some (JObj ms)
          \<and> success_reply (gl_rpc_id (gw_calls ?g ! j)) ms
          \<and> gs_upstream (gw_sessions ?g ! gl_session c) = header_get h ''Mcp-Session-Id''" if "\<not> gl_initializing c"
  proof -
    have "granted es ?g (gl_id c) (gl_session c)" using ok i(2) that by (simp add: call_ok_def)
    then obtain j now' st h ps where j: "gl_initializing (gw_calls ?g ! j)" "gl_session (gw_calls ?g ! j) = gl_session c"
        "Handled j now' st h ps \<in> set es"
        "snd (handshake (gl_rpc_id (gw_calls ?g ! j)) (gl_id c) h st ps) = Some (gs_upstream (gw_sessions ?g ! gl_session c))"
      by (auto simp: granted_def Let_def)
    obtain st' where "st' \<noteq> 0" "snd (handshake (gl_rpc_id (gw_calls ?g ! j)) (gl_id c) h st' ps) = Some (gs_upstream (gw_sessions ?g ! gl_session c))"
      using handshake_status [OF j(4)] by blast
    then show ?thesis using session_success_reply j(1-3) by (metis prod.collapse)
  qed
  ultimately show ?thesis using t unfolding forwarded_session by blast
qed

subsection \<open>A run\<close>

definition demo_gateway :: gateway_config where
  "demo_gateway = \<lparr>gc_host = ''h'', gc_resource = ''https://h/mcp'', gc_issuer = ''i'', gc_subject = ''s'', gc_client = ''c'',
     gc_scope = ''m'', gc_origins = []\<rparr>"

definition demo_claims :: json where
  "demo_claims = JObj [(''active'', JBool True), (''aud'', JStr ''https://h/mcp''), (''client_id'', JStr ''c''), (''exp'', JNum ''9''),
     (''iss'', JStr ''i''), (''scope'', JStr ''m''), (''sub'', JStr ''s''), (''token_type'', JStr ''Bearer'')]"

definition demo_token :: claims where
  "demo_token = \<lparr>tk_active = True, tk_issuer = ''i'', tk_subject = ''s'', tk_client = ''c'', tk_audience = Some (JStr ''https://h/mcp''),
     tk_scope = ''m'', tk_expires = 9, tk_not_before = 0, tk_type = ''Bearer''\<rparr>"

definition demo_request :: "bytes list \<Rightarrow> json \<Rightarrow> http_request" where
  "demo_request sids j = \<lparr>rq_host = ''h'', rq_origins = [], rq_raw_query = [], rq_force_query = False, rq_raw_path = [], rq_path = ''/mcp'',
     rq_method = ''POST'', rq_auths = [''Bearer t''], rq_sessions = sids, rq_version = [], rq_event_id = [], rq_body = Some (json_print j)\<rparr>"

definition demo_initialize :: json where
  "demo_initialize = JObj [(''id'', JNum ''1''), (''method'', JStr ''initialize'')]"

definition demo_list :: json where
  "demo_list = JObj [(''id'', JNum ''2''), (''method'', JStr ''tools/list'')]"

lemma demo_words: "words ''Bearer t'' = [''Bearer'', ''t'']" "words ''m'' = [''m'']"
  by (simp_all add: words_def words_from.simps decode_rune_ascii rune_space_def)

lemma demo_parses:
  "json_parse (json_print demo_claims) = Some demo_claims" "json_parse (json_print demo_initialize) = Some demo_initialize"
  "json_parse (json_print demo_list) = Some demo_list"
  by (rule json_roundtrip;
      simp add: demo_claims_def demo_initialize_def demo_list_def coerce_utf8_ascii valid_number_def scan_number_def is_digit_def max_nesting_def)+

lemma demo_sizes: "length (json_print demo_claims) \<le> 64 * 1024" "length (json_print demo_initialize) \<le> body_limit"
  "length (json_print demo_list) \<le> body_limit"
proof -
  have "length (json_print demo_claims) = 115" "length (json_print demo_initialize) = 30" "length (json_print demo_list) = 30" by code_simp+
  then show "length (json_print demo_claims) \<le> 64 * 1024" "length (json_print demo_initialize) \<le> body_limit"
    "length (json_print demo_list) \<le> body_limit" by (simp_all add: body_limit_def)
qed

lemma demo_read: "read_claims (json_print demo_claims) = Some demo_token"
  by (simp add: read_claims_def demo_parses, simp add: demo_claims_def demo_token_def no_claims_def put_claim_def field_among_def
    parse_int64_def parse_uint_def is_digit_def digits_value_def)

lemma demo_authenticated: "authenticate demo_gateway [''Bearer t''] 1 (Some (200, json_print demo_claims)) = Some demo_token"
  using demo_sizes(1)
  by (simp add: authenticate_def bearer_def demo_words demo_read claims_ok_def demo_token_def demo_gateway_def audiences_def)

lemma demo_bodies:
  "serve_body (demo_request [] demo_initialize) = Inr ([], JNum ''1'')"
  "serve_body (demo_request [''YWJj''] demo_list) = Inr (''YWJj'', JNum ''2'')"
  using demo_sizes
  by (simp_all add: serve_body_def demo_request_def read_call_def demo_parses Let_def)
    (simp_all add: demo_initialize_def demo_list_def field_among_def)

lemma demo_front: "serve_front demo_gateway (demo_request sids j) = FrontProceed" "rq_auths (demo_request sids j) = [''Bearer t'']"
  by (simp_all add: serve_front_def demo_request_def demo_gateway_def)

lemma demo_session_id: "session_id ''abc'' = ''YWJj''"
  by (simp add: session_id_def base64_digit_def, simp add: char_of_def bit_0)

lemma demo_granted: "snd (handshake (JNum ''1'') sid demo_stream 200 [sse_event demo_success]) = Some ''up''"
  using demo_lengths by (simp add: stream_granted demo_events demo_judged)

definition demo_visit :: "gw_move list" where
  "demo_visit =
     [Arrives (demo_request [] demo_initialize), Answered 0 1 (Some (200, json_print demo_claims)), Enters 0 2 (Some ''abc''),
      Handled 0 3 200 demo_stream [sse_event demo_success], Returns 0 4,
      Arrives (demo_request [''YWJj''] demo_list), Answered 1 1 (Some (200, json_print demo_claims)), Enters 1 5 None]"

lemmas gateway_eval = gateway_step_def arrive_def add_call_def answered_def entered_def acquire_def purge_def handled_def session_ready_def
  returned_def set_call_point_def update_call_def update_session_def at_point_def auth_limit_def session_limit_def session_ttl_def Let_def
  demo_front demo_authenticated demo_bodies demo_session_id demo_granted

lemma demo_visit_ids: "distinct (made_ids demo_visit)"
  by (simp add: demo_visit_def)

lemma demo_visit_state:
  "gateway_run demo_gateway demo_visit =
     \<lparr>gw_table = [(''YWJj'', 0)], gw_sessions = [\<lparr>gs_upstream = ''up'', gs_last = 4, gs_busy = True\<rparr>], gw_auth = 0, gw_inflight = 1,
      gw_calls = [
        \<lparr>gl_request = demo_request [] demo_initialize, gl_point = Finished, gl_rpc_id = JNum ''1'', gl_session = 0, gl_id = ''YWJj'',
         gl_initializing = True, gl_success = True, gl_released = True\<rparr>,
        \<lparr>gl_request = demo_request [''YWJj''] demo_list, gl_point = Handling, gl_rpc_id = JNum ''2'', gl_session = 0, gl_id = ''YWJj'',
         gl_initializing = False, gl_success = True, gl_released = False\<rparr>]\<rparr>"
  unfolding gateway_run_def demo_visit_def new_gateway_def by (simp add: gateway_eval)

theorem busy_session_has_one_request_witness:
  "gs_busy (gw_sessions (gateway_run demo_gateway demo_visit) ! 0)
   \<and> (\<exists>!i. i < length (gw_calls (gateway_run demo_gateway demo_visit)) \<and> holding (gw_calls (gateway_run demo_gateway demo_visit) ! i)
       \<and> gl_session (gw_calls (gateway_run demo_gateway demo_visit) ! i) = 0)"
proof -
  have b: "0 < length (gw_sessions (gateway_run demo_gateway demo_visit))" "gs_busy (gw_sessions (gateway_run demo_gateway demo_visit) ! 0)"
    by (simp_all add: demo_visit_state)
  from busy_session_has_one_request [OF demo_visit_ids b(1)] b(2) show ?thesis by blast
qed

theorem handled_request_is_entitled_witness:
  "\<exists>j h ps payload ms. gl_initializing (gw_calls (gateway_run demo_gateway demo_visit) ! j)
     \<and> payload \<in> set (reply_payloads h (concat ps)) \<and> json_parse payload = Some (JObj ms)
     \<and> success_reply (gl_rpc_id (gw_calls (gateway_run demo_gateway demo_visit) ! j)) ms \<and> header_get h ''Mcp-Session-Id'' = ''up''"
proof -
  let ?g = "gateway_run demo_gateway demo_visit"
  have p: "at_point Handling 1 ?g" "\<not> gl_initializing (gw_calls ?g ! 1)" "gs_upstream (gw_sessions ?g ! gl_session (gw_calls ?g ! 1)) = ''up''"
    by (simp_all add: demo_visit_state at_point_def)
  from handled_request_is_entitled [OF demo_visit_ids p(1) refl] p(2,3) show ?thesis by metis
qed

end
