(* ===== verification/SessionVerify.thy ===== *)
theory SessionVerify
  imports Auditor
begin

text \<open>
  One verdict for a session (\<^verbatim>\<open>internal/sessionverify/sessionverify.go\<close>): the snapshots of a Guard trail
  and its sidecar, the check of the whole trail, the rows of one session, and the combination with the result of the
  NockLock chain, which its own package computes and which is an argument here. The texts of reasons are left out; the
  hash that names a key is an argument.
\<close>

subsection \<open>Verdicts\<close>

definition fail_rank :: "bytes \<Rightarrow> nat option" where
  "fail_rank v =
     map_of [(''TAMPERED'', 5), (''UNVERIFIABLE'', 4), (''UNSIGNED'', 3), (''NO_ROWS'', 2), (''UNANCHORED'', 1)] v"

record chain_result =
  ch_verdict :: bytes
  ch_key_id :: bytes
  ch_rows :: int
  ch_entries :: nat
  ch_tail :: bool
  ch_bad_row :: int

definition no_result :: "bytes \<Rightarrow> chain_result" where
  "no_result kid = \<lparr>ch_verdict = [], ch_key_id = kid, ch_rows = 0, ch_entries = 0, ch_tail = False, ch_bad_row = 0\<rparr>"

text \<open>One round of the loop of \<open>combine\<close>, on the worst verdict so far and its rank.\<close>

definition combine_step :: "chain_result \<Rightarrow> bytes \<times> nat \<Rightarrow> bytes \<times> nat" where
  "combine_step c acc =
     (let v = ch_verdict c;
          judged = (if v = ''INTACT'' then
              (if ch_rows c < 1 then Some ''NO_ROWS'' else if \<not> ch_tail c then Some ''UNANCHORED'' else None)
            else Some v) in
      case judged of
        None \<Rightarrow> acc
      | Some v1 \<Rightarrow>
          let (v2, r) = (case fail_rank v1 of None \<Rightarrow> (''UNVERIFIABLE'', the (fail_rank ''UNVERIFIABLE'')) | Some r \<Rightarrow> (v1, r)) in
          if r > snd acc then (v2, r) else acc)"

definition combine :: "chain_result list \<Rightarrow> bytes" where
  "combine cs = (let (worst, r) = fold combine_step cs ([], 0) in if worst = [] then ''PROTECTED'' else worst)"

text \<open>What the package of the Lock chain reports, and whether it failed.\<close>

record receipt =
  rc_verdict :: bytes
  rc_key_id :: bytes
  rc_rows :: int
  rc_tail :: bool
  rc_bad_row :: int
  rc_failed :: bool

definition verify_lock :: "bool \<Rightarrow> bytes \<Rightarrow> receipt \<Rightarrow> chain_result" where
  "verify_lock regular kid r =
     (if \<not> regular then (no_result kid)\<lparr>ch_verdict := ''UNVERIFIABLE''\<rparr>
      else
        let c = (no_result kid)\<lparr>ch_verdict := (if rc_failed r then ''UNVERIFIABLE'' else rc_verdict r), ch_rows := rc_rows r,
          ch_tail := rc_tail r, ch_bad_row := rc_bad_row r\<rparr> in
        if rc_key_id r \<noteq> [] \<and> rc_key_id r \<noteq> kid then c\<lparr>ch_verdict := ''TAMPERED''\<rparr> else c)"

subsection \<open>Snapshots\<close>

text \<open>
  A path as it is found: missing, not readable as metadata, a symbolic link, another irregular file, or a regular
  file, whose contents are \<open>None\<close> if opening, the identity check or reading fails.
\<close>

datatype guard_file = NoFile | NoStat | Symlink | Irregular | Regular "bytes option"

datatype guard_snapshot = SnapshotError | SnapshotAbsent | Snapshot bytes

definition read_guard_snapshot :: "nat \<Rightarrow> guard_file \<Rightarrow> guard_snapshot" where
  "read_guard_snapshot limit f =
     (case f of
        NoFile \<Rightarrow> SnapshotAbsent
      | Regular (Some data) \<Rightarrow> if length data > limit then SnapshotError else Snapshot data
      | _ \<Rightarrow> SnapshotError)"

definition hwm_snapshot_cap :: nat where
  "hwm_snapshot_cap = 64 * 1024"

text \<open>The sidecar first, then the trail.\<close>

definition read_guard :: "nat \<Rightarrow> guard_file \<Rightarrow> guard_file \<Rightarrow> (bytes \<times> bytes option) option" where
  "read_guard limit trail hwm =
     (case read_guard_snapshot hwm_snapshot_cap hwm of
        SnapshotError \<Rightarrow> None
      | h \<Rightarrow>
          (case read_guard_snapshot limit trail of
             Snapshot t \<Rightarrow> Some (t, (case h of Snapshot d \<Rightarrow> Some d | _ \<Rightarrow> None))
           | _ \<Rightarrow> None))"

subsection \<open>The Guard chain\<close>

definition guard_verdict :: "int \<Rightarrow> bool \<Rightarrow> bytes" where
  "guard_verdict rows tail = (if rows = 0 then ''NO_ROWS'' else if \<not> tail then ''UNANCHORED'' else ''PROTECTED'')"

text \<open>Errors that are a \<open>TamperError\<close>, with their line; the others only say that the walk could not be finished.\<close>

fun tamper_line :: "verify_error \<Rightarrow> nat option" where
  "tamper_line (Tamper n t) = Some n"
| "tamper_line (BoundaryTamper b) = Some 0"
| "tamper_line _ = None"

text \<open>The count of the checkpoint, read a second time.\<close>

fun put_mark :: "members \<Rightarrow> int \<Rightarrow> int option" where
  "put_mark [] c = Some c"
| "put_mark ((k, v) # ms) c = (if equal_fold k ''count'' then Option.bind (read_int v c) (put_mark ms) else put_mark ms c)"

definition read_mark :: "bytes \<Rightarrow> int option" where
  "read_mark data =
     (case json_parse (trim_bytes data) of
        Some (JObj ms) \<Rightarrow> put_mark ms 0
      | Some JNull \<Rightarrow> Some 0
      | _ \<Rightarrow> None)"

definition check_guard :: "nat \<Rightarrow> sig_check \<Rightarrow> bytes \<Rightarrow> bytes \<Rightarrow> bytes option \<Rightarrow> chain_result" where
  "check_guard cap chk kid trail hwm =
     (let (n, count, e) = verify_with_checkpoint cap chk trail hwm; c = (no_result kid)\<lparr>ch_entries := n\<rparr> in
      case e of
        Some err \<Rightarrow>
          (case tamper_line err of
             Some l \<Rightarrow> c\<lparr>ch_verdict := ''TAMPERED'', ch_bad_row := int l\<rparr>
           | None \<Rightarrow> c\<lparr>ch_verdict := ''UNVERIFIABLE''\<rparr>)
      | None \<Rightarrow>
          (case hwm of
             None \<Rightarrow> c
           | Some data \<Rightarrow>
               if n = 0 then c
               else (case read_mark data of
                   None \<Rightarrow> c\<lparr>ch_verdict := ''UNVERIFIABLE''\<rparr>
                 | Some m \<Rightarrow>
                     if m = int n then c\<lparr>ch_tail := True\<rparr>
                     else if m < int n then c
                     else c\<lparr>ch_verdict := ''TAMPERED''\<rparr>)))"

definition guard_trail :: "chain_result \<Rightarrow> chain_result" where
  "guard_trail base =
     (if ch_verdict base \<noteq> [] then base
      else base\<lparr>ch_rows := int (ch_entries base), ch_verdict := guard_verdict (int (ch_entries base)) (ch_tail base)\<rparr>)"

text \<open>The scan for the rows of a session; the flag tells that it returned early.\<close>

fun session_scan :: "bytes \<Rightarrow> bytes list \<Rightarrow> chain_result \<Rightarrow> bool \<times> chain_result" where
  "session_scan s [] c = (False, c)"
| "session_scan s (raw # ls) c =
     (if blank_line raw then session_scan s ls c
      else (case unmarshal_event raw of
          None \<Rightarrow> (True, c\<lparr>ch_verdict := ''TAMPERED''\<rparr>)
        | Some ev \<Rightarrow>
            if key_id ev \<noteq> [] \<and> key_id ev \<noteq> ch_key_id c then (True, c\<lparr>ch_verdict := ''TAMPERED''\<rparr>)
            else if session_id ev \<noteq> s then session_scan s ls c
            else
              let c1 = c\<lparr>ch_rows := ch_rows c + 1\<rparr> in
              if ev_sig ev = [] then (True, c1\<lparr>ch_verdict := ''UNSIGNED''\<rparr>) else session_scan s ls c1))"

definition guard_session :: "nat \<Rightarrow> bytes \<Rightarrow> chain_result \<Rightarrow> bytes \<Rightarrow> chain_result" where
  "guard_session cap trail base s =
     (if ch_verdict base \<noteq> [] then base
      else
        let (ls, too_long) = scan_lines cap trail; (early, c) = session_scan s ls base in
        if early then c
        else if too_long then c\<lparr>ch_verdict := ''UNVERIFIABLE''\<rparr>
        else let v = guard_verdict (ch_rows c) (ch_tail c) in
          c\<lparr>ch_verdict := (if v = ''NO_ROWS'' \<or> v = ''UNANCHORED'' then v else ''INTACT'')\<rparr>)"

text \<open>\<open>Verify\<close>: both chains of a session.\<close>

definition verify_session ::
  "nat \<Rightarrow> sig_check \<Rightarrow> bytes \<Rightarrow> nat \<Rightarrow> guard_file \<Rightarrow> guard_file \<Rightarrow> chain_result \<Rightarrow> bytes \<Rightarrow> bytes" where
  "verify_session cap chk kid limit trail hwm lock s =
     combine [lock,
       (case read_guard limit trail hwm of
          None \<Rightarrow> (no_result kid)\<lparr>ch_verdict := ''UNVERIFIABLE''\<rparr>
        | Some (t, h) \<Rightarrow> guard_session cap t (check_guard cap chk kid t h) s)]"

subsection \<open>Combination\<close>

definition chain_good :: "chain_result \<Rightarrow> bool" where
  "chain_good c \<longleftrightarrow> ch_verdict c = ''INTACT'' \<and> 1 \<le> ch_rows c \<and> ch_tail c"

text \<open>The verdict a chain contributes, and how bad it is.\<close>

definition failing :: "chain_result \<Rightarrow> bytes" where
  "failing c =
     (if ch_verdict c = ''INTACT'' then (if ch_rows c < 1 then ''NO_ROWS'' else ''UNANCHORED'')
      else if fail_rank (ch_verdict c) = None then ''UNVERIFIABLE'' else ch_verdict c)"

definition severity :: "bytes \<Rightarrow> nat" where
  "severity v = (case fail_rank v of None \<Rightarrow> 0 | Some r \<Rightarrow> r)"

lemma fail_rank_cases: "fail_rank v = Some r \<Longrightarrow> 0 < r \<and> v \<noteq> [] \<and> v \<noteq> ''INTACT'' \<and> v \<noteq> ''PROTECTED''"
  by (auto simp: fail_rank_def split: if_splits)

lemma failing_rank: "0 < severity (failing c) \<and> failing c \<noteq> [] \<and> failing c \<noteq> ''PROTECTED''"
proof (cases "fail_rank (ch_verdict c)")
  case None
  then show ?thesis by (auto simp: failing_def severity_def fail_rank_def)
next
  case (Some r)
  then show ?thesis using fail_rank_cases [OF Some] by (simp add: failing_def severity_def)
qed

lemma combine_step_spec:
  "combine_step c acc = (if chain_good c then acc
     else if severity (failing c) > snd acc then (failing c, severity (failing c)) else acc)"
proof (cases "ch_verdict c = ''INTACT''")
  case True
  then show ?thesis by (auto simp: combine_step_def chain_good_def failing_def severity_def fail_rank_def Let_def)
next
  case False
  then show ?thesis
    by (cases "fail_rank (ch_verdict c)")
      (simp_all add: combine_step_def chain_good_def failing_def severity_def Let_def, simp_all add: fail_rank_def)
qed

lemma combine_fold:
  "fold combine_step cs acc = acc \<and> (\<forall>c\<in>set cs. chain_good c \<or> severity (failing c) \<le> snd acc)
   \<or> (\<exists>c\<in>set cs. \<not> chain_good c \<and> fold combine_step cs acc = (failing c, severity (failing c))
        \<and> snd acc < severity (failing c)
        \<and> (\<forall>c'\<in>set cs. chain_good c' \<or> severity (failing c') \<le> severity (failing c)))"
proof (induction cs arbitrary: acc)
  case (Cons x cs)
  show ?case
  proof (cases "chain_good x \<or> severity (failing x) \<le> snd acc")
    case True
    then have "combine_step x acc = acc" by (auto simp: combine_step_spec)
    then show ?thesis using Cons.IH [of acc] True by (auto intro: order_trans)
  next
    case False
    then have s: "combine_step x acc = (failing x, severity (failing x))" by (simp add: combine_step_spec)
    from Cons.IH [of "(failing x, severity (failing x))"] show ?thesis
    proof
      assume "fold combine_step cs (failing x, severity (failing x)) = (failing x, severity (failing x)) \<and>
        (\<forall>c\<in>set cs. chain_good c \<or> severity (failing c) \<le> snd (failing x, severity (failing x)))"
      then show ?thesis using False s by (intro disjI2 bexI [of _ x]) auto
    qed (use False s in \<open>auto intro!: disjI2\<close>)
  qed
qed simp

lemma combine_protected: "combine cs = ''PROTECTED'' \<longleftrightarrow> (\<forall>c\<in>set cs. chain_good c)"
proof
  assume p: "combine cs = ''PROTECTED''"
  show "\<forall>c\<in>set cs. chain_good c"
  proof (rule ccontr)
    assume a: "\<not> (\<forall>c\<in>set cs. chain_good c)"
    then have "\<not> (\<forall>c\<in>set cs. chain_good c \<or> severity (failing c) \<le> 0)" using failing_rank by (metis le_zero_eq not_gr_zero)
    then obtain c where "fold combine_step cs ([], 0) = (failing c, severity (failing c))" using combine_fold [of cs "([], 0)"] by auto
    then show False using p failing_rank [of c] by (simp add: combine_def)
  qed
qed (use combine_fold [of cs "([], 0)"] in \<open>auto simp: combine_def\<close>)

text \<open>
  The combined verdict is PROTECTED exactly when every chain is intact with a row and a verified tail; otherwise it is the worst
  verdict of a failing chain, where a verdict this build does not know counts as unverifiable.
\<close>

theorem combine_is_worst:
  "if \<forall>c\<in>set cs. chain_good c then combine cs = ''PROTECTED''
   else \<exists>c\<in>set cs. \<not> chain_good c \<and> combine cs = failing c
     \<and> (\<forall>c'\<in>set cs. chain_good c' \<or> severity (failing c') \<le> severity (failing c))"
proof (cases "\<forall>c\<in>set cs. chain_good c")
  case True
  then show ?thesis using combine_fold [of cs "([], 0)"] by (auto simp: combine_def)
next
  case False
  then have "\<not> (\<forall>c\<in>set cs. chain_good c \<or> severity (failing c) \<le> 0)" using failing_rank by (metis le_zero_eq not_gr_zero)
  then obtain c where "c \<in> set cs" "\<not> chain_good c" "fold combine_step cs ([], 0) = (failing c, severity (failing c))"
      "\<forall>c'\<in>set cs. chain_good c' \<or> severity (failing c') \<le> severity (failing c)"
    using combine_fold [of cs "([], 0)"] by auto
  then show ?thesis using False failing_rank [of c] by (auto simp: combine_def intro!: bexI [of _ c])
qed

theorem combine_is_worst_witness:
  "combine [(no_result [])\<lparr>ch_verdict := ''INTACT'', ch_rows := 1, ch_tail := True\<rparr>,
      (no_result [])\<lparr>ch_verdict := ''INTACT'', ch_rows := 2\<rparr>] = ''UNANCHORED''"
  using combine_is_worst [of "[(no_result [])\<lparr>ch_verdict := ''INTACT'', ch_rows := 1, ch_tail := True\<rparr>,
      (no_result [])\<lparr>ch_verdict := ''INTACT'', ch_rows := 2\<rparr>]"]
  by (simp add: chain_good_def failing_def no_result_def)

subsection \<open>The whole trail\<close>

lemma put_mark_count: "put_hwm_members ms h = Some h' \<Longrightarrow> put_mark ms (hwm_count h) = Some (hwm_count h')"
proof (induction ms arbitrary: h)
  case (Cons x ms)
  obtain k v where x: "x = (k, v)" by (cases x)
  obtain h1 where h1: "put_hwm_member k v h = Some h1" "put_hwm_members ms h1 = Some h'"
    using Cons.prems by (auto simp: x bind_eq_Some_conv)
  have "if equal_fold k ''count'' then read_int v (hwm_count h) = Some (hwm_count h1) else hwm_count h1 = hwm_count h"
    using h1(1) by (auto simp: put_hwm_member_def split: if_splits)
  then show ?case using Cons.IH [OF h1(2)] by (auto simp: x split: if_splits)
qed simp

lemma read_mark_count: "parse_high_water_mark data = Some h \<Longrightarrow> read_mark data = Some (hwm_count h)"
proof -
  assume "parse_high_water_mark data = Some h"
  then obtain j where j: "json_parse (trim_bytes data) = Some j" "hwm_of_tree j = Some h"
    by (auto simp: parse_high_water_mark_def bind_eq_Some_conv)
  then show ?thesis
    using put_mark_count [of _ "\<lparr>hwm_count = 0, hwm_last_sig = [], hwm_sig = []\<rparr>" h] by (cases j) (auto simp: read_mark_def)
qed

lemma verify_with_countD:
  assumes "verify_with_checkpoint cap chk trail hwm = (n, count, None)"
  shows "case hwm of None \<Rightarrow> count = 0 \<and> n = 0
    | Some data \<Rightarrow> (\<exists>h. parse_high_water_mark data = Some h \<and> count = hwm_count h \<and> count \<le> int n
        \<and> verify_stream cap chk (Some h) trail = (n, None))"
proof (cases hwm)
  case None
  then have v: "verify_stream cap chk None trail = (n, None)" "count = 0" using assms by (auto simp: verify_with_checkpoint_def split: prod.splits)
  then have "n = 0"
    by (auto simp: verify_stream_def check_high_water_mark_def split: prod.splits option.splits if_splits)
  then show ?thesis using None v by simp
next
  case (Some data)
  then obtain h where h: "parse_high_water_mark data = Some h" "count = hwm_count h" "verify_stream cap chk (Some h) trail = (n, None)"
    using assms by (auto simp: verify_with_checkpoint_def split: option.splits prod.splits)
  then have "hwm_count h \<le> int n"
    by (auto simp: verify_stream_def check_high_water_mark_def split: prod.splits option.splits if_splits)
  then show ?thesis using Some h by simp
qed

lemma check_guard_ok:
  assumes "verify_with_checkpoint cap chk trail hwm = (n, count, None)"
  shows "check_guard cap chk kid trail hwm = (no_result kid)\<lparr>ch_entries := n, ch_tail := (0 < n \<and> count = int n)\<rparr>"
proof (cases hwm)
  case None
  then show ?thesis using assms verify_with_countD [OF assms] by (simp add: check_guard_def no_result_def)
next
  case (Some data)
  then obtain h where "parse_high_water_mark data = Some h" "count = hwm_count h" "count \<le> int n"
    using verify_with_countD [OF assms] by auto
  then show ?thesis using assms Some read_mark_count by (auto simp: check_guard_def no_result_def Let_def)
qed

lemma check_guard_failed:
  "verify_with_checkpoint cap chk trail hwm = (n, count, Some e) \<Longrightarrow> ch_verdict (check_guard cap chk kid trail hwm) \<noteq> []"
  by (auto simp: check_guard_def Let_def split: option.split)

lemma check_guard_clean:
  assumes "ch_verdict (check_guard cap chk kid trail hwm) = []"
  shows "\<exists>n count. verify_with_checkpoint cap chk trail hwm = (n, count, None)"
proof -
  obtain n count e where v: "verify_with_checkpoint cap chk trail hwm = (n, count, e)" by (metis prod_cases3)
  then show ?thesis using check_guard_failed [of cap chk trail hwm n count _ kid] assms by (cases e) auto
qed

text \<open>
  The report of a whole trail and the command line, which compares the verifier's count with the count of the checkpoint itself,
  give the same verdict on every trail and sidecar that verify.
\<close>

theorem trail_verdict_agrees_with_command:
  assumes "verify_with_checkpoint cap chk trail hwm = (n, count, None)"
  shows "ch_verdict (guard_trail (check_guard cap chk kid trail hwm)) = guard_verdict (int n) (count = int n)"
  using verify_with_countD [OF assms]
  by (auto simp: check_guard_ok [OF assms] guard_trail_def no_result_def guard_verdict_def)

theorem trail_verdict_agrees_with_command_witness:
  "ch_verdict (guard_trail (check_guard demo_cap (hmac_check demo_mac ''k'') [] (render_trail demo_sealed)
      (Some (checkpoint_file demo_checkpoint)))) = ''UNANCHORED''"
  using trail_verdict_agrees_with_command [of demo_cap "hmac_check demo_mac ''k''" "render_trail demo_sealed"
      "Some (checkpoint_file demo_checkpoint)" 2 1 "[]"] demo_verifies
  by (simp add: verify_files_def guard_verdict_def)

subsection \<open>The rows of a session\<close>

definition rows_of :: "bytes \<Rightarrow> event list \<Rightarrow> event list" where
  "rows_of s evs = filter (\<lambda>e. session_id e = s) evs"

lemma session_scan_clean:
  "session_scan s ls c = (False, c') \<Longrightarrow>
    c' = c\<lparr>ch_rows := ch_rows c + int (length (rows_of s (line_events ls)))\<rparr>
    \<and> (\<forall>e\<in>set (line_events ls). key_id e = [] \<or> key_id e = ch_key_id c)"
proof (induction ls arbitrary: c)
  case (Cons raw ls)
  show ?case
  proof (cases "blank_line raw")
    case True
    then show ?thesis using Cons by (simp add: line_events_def)
  next
    case False
    then obtain ev where ev: "unmarshal_event raw = Some ev" using Cons.prems by (cases "unmarshal_event raw") auto
    have l: "line_events (raw # ls) = ev # line_events ls" using False ev by (simp add: line_events_def)
    have k: "key_id ev = [] \<or> key_id ev = ch_key_id c" using Cons.prems False ev by (auto split: if_splits)
    show ?thesis
    proof (cases "session_id ev = s")
      case True
      then have "session_scan s ls (c\<lparr>ch_rows := ch_rows c + 1\<rparr>) = (False, c')"
        using Cons.prems False ev k by (auto simp: Let_def split: if_splits)
      from Cons.IH [OF this] show ?thesis using True k by (simp add: l rows_of_def)
    next
      case other: False
      then have "session_scan s ls c = (False, c')" using Cons.prems False ev k by (auto split: if_splits)
      from Cons.IH [OF this] show ?thesis using other k by (simp add: l rows_of_def)
    qed
  qed
qed (simp add: line_events_def rows_of_def)

text \<open>
  An intact verdict against the history the writer signed: the trail is its first entries, up to the count of the signed checkpoint, and the
  rows of the session among them are all counted.
\<close>

lemma intact_session_complete:
  assumes "history chk hs" and "unforged chk hs (trail_events cap trail)"
    and "ch_verdict (guard_session cap trail (check_guard cap chk kid trail hwm) s) = ''INTACT''"
  shows "\<exists>n h. hwm \<noteq> None \<and> parse_high_water_mark (the hwm) = Some h \<and> hwm_count h = int n \<and> n \<le> length hs
    \<and> map canonical (trail_events cap trail) = map canonical (take n hs)
    \<and> ch_rows (guard_session cap trail (check_guard cap chk kid trail hwm) s) = int (length (rows_of s (trail_events cap trail)))
    \<and> rows_of s (trail_events cap trail) \<noteq> []"
proof -
  let ?b = "check_guard cap chk kid trail hwm"
  have fine: "ch_verdict ?b = []"
  proof (rule ccontr)
    assume a: "ch_verdict ?b \<noteq> []"
    have "ch_verdict ?b \<noteq> ''INTACT''" by (auto simp: check_guard_def no_result_def Let_def split: prod.split option.split)
    then show False using a assms(3) by (simp add: guard_session_def)
  qed
  obtain n count where v: "verify_with_checkpoint cap chk trail hwm = (n, count, None)" using check_guard_clean [OF fine] by blast
  note b = check_guard_ok [OF v, of kid]
  obtain ls tl where ls: "scan_lines cap trail = (ls, tl)" by fastforce
  obtain stop c where c: "session_scan s ls ?b = (stop, c)" by fastforce
  have nd: "\<not> stop"
  proof
    assume stop
    then have "ch_verdict c = ''INTACT''" using assms(3) fine ls c by (simp add: guard_session_def)
    moreover have "session_scan s ls x = (True, y) \<Longrightarrow> ch_verdict y = ''TAMPERED'' \<or> ch_verdict y = ''UNSIGNED''" for x y
      by (induction s ls x rule: session_scan.induct) (auto simp: Let_def split: if_splits option.splits)
    ultimately show False using c \<open>stop\<close> by fastforce
  qed
  have r: "c = ?b\<lparr>ch_rows := int (length (rows_of s (trail_events cap trail)))\<rparr>"
    using session_scan_clean [of s ls ?b c] c nd ls by (simp add: b trail_events_def no_result_def)
  have g: "guard_verdict (ch_rows c) (ch_tail c) \<notin> {''NO_ROWS'', ''UNANCHORED''}" and res: "guard_session cap trail ?b s = c\<lparr>ch_verdict := ''INTACT''\<rparr>"
    using assms(3) fine ls c nd by (auto simp: guard_session_def Let_def split: if_splits)
  have t: "0 < n" "count = int n" "rows_of s (trail_events cap trail) \<noteq> []"
    using g by (auto simp: guard_verdict_def r b no_result_def split: if_splits)
  obtain data h where h: "hwm = Some data" "parse_high_water_mark data = Some h" "count = hwm_count h" "verify_stream cap chk (Some h) trail = (n, None)"
    using verify_with_countD [OF v] t(1) by (cases hwm) auto
  have "ch_rows (guard_session cap trail ?b s) = int (length (rows_of s (trail_events cap trail)))" by (simp only: res) (simp add: r)
  then show ?thesis
    using verified_prefix(2,3) [OF assms(1,2) h(4)] t h by (intro exI [of _ n] exI [of _ h]) simp
qed

lemma session_scan_rows:
  assumes "\<forall>e\<in>set evs. encodable e \<and> key_id e = [] \<and> ev_sig e \<noteq> []"
  shows "session_scan s (map marshal_event evs) c = (False, c\<lparr>ch_rows := ch_rows c + int (length (rows_of s evs))\<rparr>)"
  using assms by (induction evs arbitrary: c) (simp_all add: unmarshal_marshal_event rows_of_def Let_def)

lemma demo_rows: "\<forall>e\<in>set demo_sealed. encodable e \<and> key_id e = [] \<and> ev_sig e \<noteq> []"
proof -
  have "\<forall>e\<in>set demo_sealed. key_id e = [] \<and> ev_sig e \<noteq> []"
    using hmac_mode.nonempty [OF demo_good]
    by (simp add: demo_sealed_def demo_events_def seal_def zero_event_def hmac_sign_def)
  then show ?thesis using demo_sealed_ok by blast
qed

text \<open>
  C16. What the verdict PROTECTED for a session is worth, against the history the writer signed and with no forged entry: the Lock chain is
  intact with a row and a verified tail; the trail and its sidecar are regular files within the caps; the trail is exactly the first entries the
  writer signed, up to the count of the sidecar, which covers all of them; and the session has a row among them.
\<close>

theorem protected_session_is_complete:
  assumes "verify_session cap chk kid limit trail hwm lock s = ''PROTECTED''" and "history chk hs"
    and "\<And>t h. read_guard limit trail hwm = Some (t, h) \<Longrightarrow> unforged chk hs (trail_events cap t)"
  shows "chain_good lock \<and> (\<exists>t mark n h. trail = Regular (Some t) \<and> length t \<le> limit
    \<and> hwm = Regular (Some mark) \<and> length mark \<le> hwm_snapshot_cap
    \<and> parse_high_water_mark mark = Some h \<and> hwm_count h = int n \<and> n \<le> length hs
    \<and> map canonical (trail_events cap t) = map canonical (take n hs) \<and> rows_of s (trail_events cap t) \<noteq> [])"
proof -
  obtain t h where g: "read_guard limit trail hwm = Some (t, h)"
      and good: "chain_good lock" "chain_good (guard_session cap t (check_guard cap chk kid t h) s)"
    using assms(1) by (cases "read_guard limit trail hwm")
      (auto simp: verify_session_def combine_protected chain_good_def no_result_def)
  have i: "ch_verdict (guard_session cap t (check_guard cap chk kid t h) s) = ''INTACT''" using good(2) by (simp add: chain_good_def)
  obtain mark where m: "h = Some mark" using intact_session_complete [OF assms(2) assms(3) [OF g] i] by blast
  have "trail = Regular (Some t) \<and> length t \<le> limit \<and> hwm = Regular (Some mark) \<and> length mark \<le> hwm_snapshot_cap"
    using g by (auto simp: m read_guard_def read_guard_snapshot_def split: guard_file.splits option.splits if_splits guard_snapshot.splits)
  then show ?thesis using good(1) intact_session_complete [OF assms(2) assms(3) [OF g] i] m by auto
qed

lemma esc_string_length: "length (esc_string s) \<le> 6 * length s"
proof (induction s rule: esc_string.induct)
  case (1 s)
  let ?n = "snd (decode_rune s)"
  show ?case
  proof (cases "s = []")
    case True
    then show ?thesis by (simp add: esc_string.simps)
  next
    case False
    then have n: "0 < ?n" "0 < length s" by simp_all
    have "length (esc_rune s) \<le> (if length (esc_rune s) \<le> 6 then 6 else min ?n (length s))"
      by (auto simp: esc_rune_def esc_ascii_def Let_def split: prod.splits)
    moreover have "6 \<le> 6 * min ?n (length s)" using n by (simp add: Suc_le_eq)
    ultimately have "length (esc_rune s) \<le> 6 * min ?n (length s)" by (simp only: split: if_splits)
    moreover have "esc_string s = esc_rune s @ esc_string (drop ?n s)" using False by (subst esc_string.simps) simp
    ultimately show ?thesis using 1 [OF False] by (simp add: min_def split: if_splits)
  qed
qed

lemma checkpoint_length:
  "length (checkpoint_file h) \<le> 200 + length (show_int (hwm_count h)) + 6 * (length (hwm_last_sig h) + length (hwm_sig h))"
  using esc_string_length [of "hwm_last_sig h"] esc_string_length [of "hwm_sig h"]
    esc_string_length [of "''count''"] esc_string_length [of "''last_sig''"] esc_string_length [of "''sig''"]
  by (simp add: checkpoint_file_def marshal_hwm_def quote_string_def)

lemma demo_small:
  "length (checkpoint_file (checkpoint_of (hmac_sign (demo_mac, ''k'')) 2 (ev_sig (demo_sealed ! 1)))) \<le> hwm_snapshot_cap"
proof -
  have hx: "length (hex_encode s) = 2 * length s" for s by (induction s) (simp_all add: hex_encode_def Let_def)
  have l: "length (marshal_event (demo_events ! 0)) \<le> 100" "length (marshal_event (demo_events ! 1)) \<le> 100" by code_simp+
  have z: "(demo_events ! 0)\<lparr>ev_sig := []\<rparr> = demo_events ! 0" "(demo_events ! 1)\<lparr>ev_sig := []\<rparr> = demo_events ! 1"
    by (simp_all add: demo_events_def zero_event_def)
  have d: "demo_events = [demo_events ! 0, demo_events ! 1]" by (simp add: demo_events_def)
  have "ev_sig (demo_sealed ! 1) = hmac_sign (demo_mac, ''k'') (marshal_event (demo_events ! 1))
      (hmac_sign (demo_mac, ''k'') (marshal_event (demo_events ! 0)) [])"
    unfolding demo_sealed_def by (subst d) (simp add: seal_def z [unfolded One_nat_def])
  moreover have sg: "length (hmac_sign (demo_mac, ''k'') m p) = 4 + 2 * (length m + length p)" for m p
    by (simp add: hmac_sign_def sign_line_def demo_mac_def chained_message_def hx)
  ultimately have "length (ev_sig (demo_sealed ! 1)) \<le> 1000" using l by simp
  moreover have "length (show_int 2) = 1" by code_simp
  ultimately show ?thesis
    using checkpoint_length [of "checkpoint_of (hmac_sign (demo_mac, ''k'')) 2 (ev_sig (demo_sealed ! 1))"]
    by (simp add: hwm_signed_bytes_def sg hwm_snapshot_cap_def)
qed

theorem protected_session_is_complete_witness:
  "\<exists>n h. hwm_count (h :: high_water_mark) = int n \<and> map canonical (trail_events demo_cap (render_trail demo_sealed)) = map canonical (take n demo_sealed)
    \<and> rows_of [] (trail_events demo_cap (render_trail demo_sealed)) \<noteq> []"
proof -
  let ?chk = "hmac_check demo_mac ''k''" and ?t = "render_trail demo_sealed"
  let ?h = "checkpoint_file (checkpoint_of (hmac_sign (demo_mac, ''k'')) 2 (ev_sig (demo_sealed ! 1)))"
  have u: "unforged ?chk demo_sealed (trail_events demo_cap ?t)"
    unfolding trail_events_render [OF demo_sealed_ok] by (rule unforged_refl)
  have v: "verify_with_checkpoint demo_cap ?chk ?t (Some ?h) = (2, 2, None)"
    using hmac_mode.verify_sealed_files [OF demo_good demo_row_ok, of demo_cap 2] demo_short demo_length
    by (simp add: demo_sealed_def verify_files_def)
  have sc: "scan_lines demo_cap ?t = (map marshal_event demo_sealed, False)" using scan_rendered demo_short by blast
  have r: "length (rows_of [] demo_sealed) = 2"
    by (simp add: rows_of_def demo_sealed_def demo_events_def seal_def zero_event_def)
  let ?lock = "(no_result [])\<lparr>ch_verdict := ''INTACT'', ch_rows := 1, ch_tail := True\<rparr>"
  let ?tf = "Regular (Some ?t)" and ?hf = "Regular (Some ?h)"
  have g: "read_guard (length ?t) ?tf ?hf = Some (?t, Some ?h)" using demo_small by (simp add: read_guard_def read_guard_snapshot_def)
  have "chain_good (guard_session demo_cap ?t (check_guard demo_cap ?chk [] ?t (Some ?h)) [])"
    unfolding check_guard_ok [OF v] by (simp add: guard_session_def no_result_def sc session_scan_rows [OF demo_rows] guard_verdict_def r chain_good_def)
  then have p: "verify_session demo_cap ?chk [] (length ?t) ?tf ?hf ?lock [] = ''PROTECTED''"
    unfolding verify_session_def g by (simp add: combine_protected chain_good_def no_result_def)
  have c: "\<exists>t mark n h. ?tf = Regular (Some t) \<and> length t \<le> length ?t \<and> ?hf = Regular (Some mark) \<and> length mark \<le> hwm_snapshot_cap
    \<and> parse_high_water_mark mark = Some h \<and> hwm_count h = int n \<and> n \<le> length demo_sealed
    \<and> map canonical (trail_events demo_cap t) = map canonical (take n demo_sealed) \<and> rows_of [] (trail_events demo_cap t) \<noteq> []"
  proof (rule protected_session_is_complete [OF p demo_history, THEN conjunct2])
    fix t h assume "read_guard (length ?t) ?tf ?hf = Some (t, h)"
    then show "unforged ?chk demo_sealed (trail_events demo_cap t)" using u by (simp only: g option.inject prod.inject)
  qed
  obtain t n h where t: "?tf = Regular (Some t)" and k: "hwm_count (h :: high_water_mark) = int n"
      "map canonical (trail_events demo_cap t) = map canonical (take n demo_sealed)" "rows_of [] (trail_events demo_cap t) \<noteq> []"
    using c by (elim exE conjE)
  have "t = ?t" using t by (simp only: guard_file.inject option.inject)
  show ?thesis using k unfolding \<open>t = ?t\<close> by (intro exI conjI)
qed

subsection \<open>Reading while the writer runs\<close>

lemma chained_prefix: "\<exists>ys. chained_rows cr a (evs @ fs) = chained_rows cr a evs @ ys"
proof (induction fs rule: rev_induct)
  case (snoc x xs)
  then obtain ys where "chained_rows cr a (evs @ xs) = chained_rows cr a evs @ ys" by blast
  then have "chained_rows cr a (evs @ xs @ [x]) = chained_rows cr a evs @ ys @ [seal (auditor_sign cr a) (tip_sig cr a (evs @ xs)) x]"
    using chained_snoc [of cr a "evs @ xs" x] by simp
  then show ?case by blast
qed simp

lemma checkpoint_prefix:
  assumes "0 < c" and "c \<le> length evs" and "same_keys b a"
  shows "checkpoint_at cr a evs c = checkpoint_at cr b (evs @ fs) c"
proof -
  obtain ys where "chained_rows cr a (evs @ fs) = chained_rows cr a evs @ ys" using chained_prefix by blast
  then have "chained_rows cr a (evs @ fs) ! (c - 1) = chained_rows cr a evs ! (c - 1)" using assms(1,2) by (simp add: nth_append)
  moreover have "chained_rows cr b (evs @ fs) = chained_rows cr a (evs @ fs)" "auditor_sign cr b = auditor_sign cr a"
    using auditor_sign_keys [OF assms(3)] by (simp_all add: chained_rows_def)
  ultimately show ?thesis by (simp add: checkpoint_at_def)
qed

lemma auditor_check_keys: "same_keys a b \<Longrightarrow> auditor_check cr a = auditor_check cr b"
  by (simp add: same_keys_def auditor_check_def split: option.splits)

text \<open>The rows of a writer that is reached from a fresh path, and of the same writer later.\<close>

lemma two_snapshots:
  assumes "open_auditor cap cr opts path mkdir_ok open_ok d = (Inr a0, d0)" and "path \<noteq> []"
    and "d_trail d = Absent" and "d_hwm d = Absent" and "signing_good (cr, a0)" and "signing_enabled a0"
    and "writer_reach cap cr a0 d0 a1 d1" and "writer_reach cap cr a1 d1 a2 d2"
  obtains evs fs where "same_keys a1 a0" "same_keys a2 a1" "trail_inv cap cr a1 d1 evs" "trail_inv cap cr a2 d2 (evs @ fs)"
proof -
  obtain evs where 1: "same_keys a1 a0" "trail_inv cap cr a1 d1 evs"
    using writer_reach_inv [OF assms(7,5,6) honest_inv_start [OF assms(1-4)]] by auto
  have g: "signing_good (cr, a1)" "signing_enabled a1" using same_keys_enabled [OF 1(1)] assms(5,6) by blast+
  obtain fs where "same_keys a2 a1" "trail_inv cap cr a2 d2 (evs @ fs)" using writer_reach_inv [OF assms(8) g 1(2)] by blast
  then show thesis using 1 that by blast
qed

lemma trail_inv_files:
  assumes "trail_inv cap cr a d evs"
  shows "sound_rows cap cr a evs" "d_trail d = Content (render_trail (chained_rows cr a evs))"
    "d_hwm d = Absent \<or> (\<exists>c. 0 < c \<and> c \<le> length evs \<and> d_hwm d = Content (checkpoint_at cr a evs c))"
    "d_hwm d = Absent \<Longrightarrow> length evs \<le> 1"
proof -
  consider (h) "honest cap cr a d evs" | (u) "unanchored cap cr a d evs" using assms by (auto simp: trail_inv_def)
  then have "sound_rows cap cr a evs \<and> d_trail d = Content (render_trail (chained_rows cr a evs))
    \<and> (d_hwm d = Absent \<or> (\<exists>c. 0 < c \<and> c \<le> length evs \<and> d_hwm d = Content (checkpoint_at cr a evs c)))
    \<and> (d_hwm d = Absent \<longrightarrow> length evs \<le> 1)"
  proof cases
    case h
    then show ?thesis using honestD [OF h] by (cases "evs = []") auto
  next
    case u
    then show ?thesis by (auto simp: unanchored_def)
  qed
  then show "sound_rows cap cr a evs" "d_trail d = Content (render_trail (chained_rows cr a evs))"
    "d_hwm d = Absent \<or> (\<exists>c. 0 < c \<and> c \<le> length evs \<and> d_hwm d = Content (checkpoint_at cr a evs c))"
    "d_hwm d = Absent \<Longrightarrow> length evs \<le> 1"
    by blast+
qed

text \<open>
  C17. The order of the two reads. A sidecar that exists when it is read, followed at any later time by the trail of the same honest writer,
  never looks tampered or unreadable: every entry verifies, and the tail counts as verified exactly if the checkpoint covers the trail that was read.
\<close>

theorem sidecar_first_is_never_tampered:
  assumes "open_auditor cap cr opts path mkdir_ok open_ok d = (Inr a0, d0)" and "path \<noteq> []"
    and "d_trail d = Absent" and "d_hwm d = Absent" and "signing_good (cr, a0)" and "signing_enabled a0"
    and "writer_reach cap cr a0 d0 a1 d1" and "writer_reach cap cr a1 d1 a2 d2"
    and "d_hwm d1 = Content mark" and "d_trail d2 = Content trail"
  shows "\<exists>n c. 0 < c \<and> c \<le> n
    \<and> check_guard cap (auditor_check cr a0) kid trail (Some mark) = (no_result kid)\<lparr>ch_entries := n, ch_tail := (c = n)\<rparr>"
proof -
  obtain evs fs where k: "same_keys a1 a0" "same_keys a2 a1" "trail_inv cap cr a1 d1 evs" "trail_inv cap cr a2 d2 (evs @ fs)"
    by (rule two_snapshots [OF assms(1-8)])
  obtain c where c: "0 < c" "c \<le> length evs" "mark = checkpoint_at cr a1 evs c" using trail_inv_files(3) [OF k(3)] assms(9) by auto
  have m: "mark = checkpoint_at cr a2 (evs @ fs) c" using checkpoint_prefix [OF c(1,2) k(2)] c(3) by simp
  have t: "trail = render_trail (chained_rows cr a2 (evs @ fs))" "sound_rows cap cr a2 (evs @ fs)"
    using trail_inv_files(1,2) [OF k(4)] assms(10) by simp_all
  have g: "signing_good (cr, a2)" using same_keys_enabled [OF k(1)] same_keys_enabled [OF k(2)] assms(5) by blast
  have ch: "auditor_check cr a2 = auditor_check cr a0" using auditor_check_keys [OF k(1)] auditor_check_keys [OF k(2)] by metis
  have "verify_files cap (auditor_check cr a2) (Content trail) (Content mark) = (length (evs @ fs), int c, None)"
    unfolding t(1) m by (rule verify_checkpointed [OF g t(2) c(1)]) (use c(2) in simp)
  then have "verify_with_checkpoint cap (auditor_check cr a0) trail (Some mark) = (length (evs @ fs), int c, None)"
    by (simp add: verify_files_def ch)
  note guard = check_guard_ok [OF this, of kid]
  have tail: "(0 < length (evs @ fs) \<and> int c = int (length (evs @ fs))) = (c = length (evs @ fs))" using c(1) by auto
  have "c \<le> length (evs @ fs)" using c(2) by simp
  then show ?thesis using c(1) guard [unfolded tail] by blast
qed

theorem sidecar_first_is_never_tampered_witness:
  "\<exists>trail mark n c. 0 < c \<and> c \<le> n
    \<and> check_guard demo_limit (auditor_check demo_crypto demo_writer) [] trail (Some mark) = (no_result [])\<lparr>ch_entries := n, ch_tail := (c = n)\<rparr>"
proof -
  obtain a' d' where r: "record_event demo_limit demo_crypto demo_io True demo_row demo_writer demo_disk = (a', d', None)"
    using demo_recorded [of demo_limit] by (metis prod.collapse)
  have w: "writer_reach demo_limit demo_crypto demo_writer demo_disk a' d'"
    by (rule writer_reach.call [OF writer_reach.start _ r]) (rule demo_benign_first)
  have i: "trail_inv demo_limit demo_crypto demo_writer demo_disk []"
    using demo_honest by (simp add: trail_inv_def numbered_def counts_match_def run_rows_def demo_writer_def fresh_auditor_def)
  obtain evs' e where "evs' = [] @ [stamp_ids demo_writer demo_io e]" "honest demo_limit demo_crypto a' d' evs'"
      "d_hwm d' = Content (checkpoint_at demo_crypto demo_writer evs' (length evs'))"
    using record_trail_inv [OF demo_writer_facts(1,2) i demo_benign r] demo_writer_facts(3,4) by blast
  then have h: "honest demo_limit demo_crypto a' d' [stamp_ids demo_writer demo_io e]"
      "d_hwm d' = Content (checkpoint_at demo_crypto demo_writer [stamp_ids demo_writer demo_io e] 1)"
    by simp_all
  obtain trail where t: "d_trail d' = Content trail" using honestD [OF h(1)] by auto
  have p: "''t'' \<noteq> []" "d_trail empty_disk = Absent" "d_hwm empty_disk = Absent" by (simp_all add: empty_disk_def)
  show ?thesis
    using sidecar_first_is_never_tampered [OF demo_open p demo_writer_facts(1,2) w writer_reach.start h(2) t, of "[]"] by blast
qed

lemma walk_any_mark:
  "walk_lines chk x ls w = (w1, e) \<Longrightarrow> seen v = seen w \<Longrightarrow> prev_sig v = prev_sig w \<Longrightarrow>
    \<exists>v1. walk_lines chk y ls v = (v1, e) \<and> seen v1 = seen w1"
proof (induction ls arbitrary: w v)
  case (Cons l ls)
  show ?case
  proof (cases "walk_line chk x l w")
    case (Inl err)
    then have "walk_line chk y l v = Inl err" using Cons.prems(2,3)
      by (auto simp: walk_line_def Let_def split: if_splits option.splits)
    then show ?thesis using Inl Cons.prems by auto
  next
    case (Inr w2)
    then obtain v2 where v2: "walk_line chk y l v = Inr v2" "seen v2 = seen w2" "prev_sig v2 = prev_sig w2"
      using Cons.prems(2,3) by (auto simp: walk_line_def Let_def split: if_splits option.splits)
    then show ?thesis using Inr Cons.prems(1) Cons.IH [OF _ v2(2,3), of] by auto
  qed
qed auto

text \<open>
  Only an absent sidecar is different: one read before the first row, with the trail read after it, looks tampered, although the writer is honest.
\<close>

theorem first_row_race_looks_tampered:
  assumes "open_auditor cap cr opts path mkdir_ok open_ok d = (Inr a0, d0)" and "path \<noteq> []"
    and "d_trail d = Absent" and "d_hwm d = Absent" and "signing_good (cr, a0)" and "signing_enabled a0"
    and "writer_reach cap cr a0 d0 a2 d2" and "d_hwm d2 \<noteq> Absent" and "d_trail d2 = Content trail"
  shows "ch_verdict (check_guard cap (auditor_check cr a0) kid trail None) = ''TAMPERED''"
proof -
  obtain evs fs where k: "same_keys a0 a0" "same_keys a2 a0" "trail_inv cap cr a0 d0 evs" "trail_inv cap cr a2 d2 (evs @ fs)"
    by (rule two_snapshots [OF assms(1-6) writer_reach.start assms(7)])
  obtain c where c: "0 < c" "c \<le> length (evs @ fs)" "d_hwm d2 = Content (checkpoint_at cr a2 (evs @ fs) c)"
    using trail_inv_files(3) [OF k(4)] assms(8) by auto
  have t: "trail = render_trail (chained_rows cr a2 (evs @ fs))" "sound_rows cap cr a2 (evs @ fs)"
    using trail_inv_files(1,2) [OF k(4)] assms(9) by simp_all
  have g: "signing_good (cr, a2)" using same_keys_enabled [OF k(2)] assms(5) by blast
  have "verify_files cap (auditor_check cr a2) (Content trail) (Content (checkpoint_at cr a2 (evs @ fs) c)) = (length (evs @ fs), int c, None)"
    unfolding t(1) by (rule verify_checkpointed [OF g t(2) c(1,2)])
  then obtain h where "verify_stream cap (auditor_check cr a0) (Some h) trail = (length (evs @ fs), None)"
    by (auto simp: verify_files_def verify_with_checkpoint_def auditor_check_keys [OF k(2)] split: option.splits prod.splits)
  then obtain ls w where "scan_lines cap trail = (ls, False)" "walk_lines (auditor_check cr a0) (Some h) ls start_walk = (w, None)"
      "seen w = length (evs @ fs)"
    by (auto simp: verify_stream_def split: prod.splits option.splits if_splits)
  moreover have ne: "0 < length (evs @ fs)" using c(1,2) by (rule less_le_trans)
  moreover from calculation obtain v where "walk_lines (auditor_check cr a0) None ls start_walk = (v, None)" "seen v = length (evs @ fs)"
    using walk_any_mark [of "auditor_check cr a0" "Some h" ls start_walk w None start_walk None] by auto
  ultimately have "verify_with_checkpoint cap (auditor_check cr a0) trail None = (length (evs @ fs), 0, Some (BoundaryTamper HwmMissing))"
    using ne by (simp add: verify_with_checkpoint_def verify_stream_def check_high_water_mark_def)
  then show ?thesis by (simp add: check_guard_def Let_def)
qed

end
