(* ===== verification/Spec2Isabelle.thy ===== *)
theory Spec2Isabelle
  imports Extract Completeness Auditor Dispatch Shown Telegram LocalApprover Pool Gateway SessionVerify
begin

text \<open>
  NockGuard: a gate between an AI agent and the MCP servers it calls.

  The agent speaks JSON-RPC lines to a proxy (\<^verbatim>\<open>internal/proxy\<close>), which decides on
  every message and forwards it to an upstream server or answers with an error. A decision asks the
  policy engine (\<^verbatim>\<open>internal/policy\<close>) for a verdict, checks the tool definition that
  the upstream advertised against a pin, scans the arguments (\<^verbatim>\<open>internal/validate\<close>),
  charges a rate limit and a spend cap (\<^verbatim>\<open>internal/ratelimit\<close>, scaled by a
  behavioural trust score, \<^verbatim>\<open>internal/trust\<close>), asks a human where the policy says so
  (\<^verbatim>\<open>internal/approval\<close>), and writes configured secrets into the arguments. Every
  decision leaves rows in a signed audit trail (\<^verbatim>\<open>internal/audit\<close>), in the order of the
  requests, and verifiers read that trail later. Beside the proxy there is a router over a pool of model
  accounts with a budget (\<^verbatim>\<open>internal/pool\<close>), and in front of it, for remote agents, an OAuth gateway
  (\<^verbatim>\<open>internal/gateway\<close>).

  \<^bold>\<open>Theories and sources.\<close>

  \<^item> \<open>Prelude\<close>: bytes as character lists, 64-bit words, the string functions of Go's
    \<^verbatim>\<open>strings\<close> and \<^verbatim>\<open>strconv\<close> the code uses, and shared lemmas.
    \<open>Utf8\<close>: rune decoding, case folding. \<open>Glob\<close>: \<^verbatim>\<open>path.Match\<close>.
    \<open>Json\<close>, \<open>JsonText\<close>: \<^verbatim>\<open>encoding/json\<close> on token trees and on text, with the
    round trip of printing and parsing. \<open>Float64\<close>: correctly rounded binary64 arithmetic as
    rationals.
  \<^item> \<open>Policy\<close> (\<^verbatim>\<open>policy/policy.go\<close>): configuration, the load-time checks and the
    queries of the engine. \<open>Validate\<close> (\<^verbatim>\<open>validate/validate.go\<close>),
    \<open>RateLimit\<close> (\<^verbatim>\<open>ratelimit/ratelimit.go\<close>),
    \<open>Trust\<close> (\<^verbatim>\<open>trust/trust.go\<close>), \<open>Extract\<close>
    (\<^verbatim>\<open>extract/extract.go\<close>): one operation of the source per definition.
  \<^item> \<open>Message\<close> (\<^verbatim>\<open>jsonrpc/message.go\<close>, \<^verbatim>\<open>proxy/canonical.go\<close>,
    \<^verbatim>\<open>canonicalizeMessage\<close> and \<^verbatim>\<open>canonicalToolCall\<close> of
    \<^verbatim>\<open>proxy/stdio.go\<close>): messages and the canonical form in which they are gated and
    forwarded. \<open>ToolCatalog\<close> (\<^verbatim>\<open>proxy/tool_catalog.go\<close> and the strict readers of
    \<^verbatim>\<open>proxy/tool_digest.go\<close>): listings, pages and pins.
    \<open>Inject\<close> (\<^verbatim>\<open>proxy/inject.go\<close>, \<^verbatim>\<open>proxy/scrub.go\<close>):
    secrets into arguments and out of responses.
    \<open>Gate\<close> (\<^verbatim>\<open>decide\<close>, \<^verbatim>\<open>decideToolCall\<close>, \<^verbatim>\<open>approveAsk\<close>
    and \<^verbatim>\<open>sanitizedEnv\<close> of \<^verbatim>\<open>proxy/stdio.go\<close>): the decision itself,
    composed from the components above as the code composes them.
  \<^item> \<open>Actions\<close>, \<open>Listing\<close>, \<open>Session\<close> (the rest of the message path of
    \<^verbatim>\<open>proxy/stdio.go\<close>): requests in flight and the observation that ends each action; the filter
    of tool listings; one line from the agent (\<^verbatim>\<open>agentToUpstream\<close>), one line from the upstream
    (\<^verbatim>\<open>upstreamToAgent\<close>), its end, and \<^verbatim>\<open>Probe\<close>. A session is a fold of
    \<open>session_step\<close> over any interleaving of such lines.
  \<^item> \<open>AuditQueue\<close> (the audit part of \<^verbatim>\<open>proxy/stdio.go\<close>): the buffer that puts rows
    in request order. \<open>AuditEvent\<close>, \<open>AuditChain\<close>, \<open>Auditor\<close>
    (\<^verbatim>\<open>audit/audit.go\<close>): the row and its encoding, the signature chain with its
    checkpoint and verifiers, and the writer over a disk that may fail.
    \<open>Completeness\<close> (\<^verbatim>\<open>audit/completeness.go\<close>): runs and actions assessed from a
    verified trail. \<open>SessionVerify\<close> (\<^verbatim>\<open>sessionverify/sessionverify.go\<close>): one verdict
    for a session from a snapshot of the trail and the report of the NockLock chain.
  \<^item> \<open>Approval\<close> (\<^verbatim>\<open>approval/summary.go\<close>, the prompt of
    \<^verbatim>\<open>approval/telegram.go\<close>, \<^verbatim>\<open>approval/approval.go\<close>): what a human is shown.
    \<open>Telegram\<close> (\<^verbatim>\<open>approval/telegram.go\<close>) and \<open>LocalApprover\<close>
    (\<^verbatim>\<open>approval/local.go\<close>): the two approvers as goroutines whose critical sections and channel
    operations interleave; a run is a fold over any schedule of them.
  \<^item> \<open>Pool\<close> (\<^verbatim>\<open>pool/config.go\<close>, \<^verbatim>\<open>pool/router.go\<close>,
    \<^verbatim>\<open>pool/budget.go\<close>): the check of the configuration, routing and the budget.
  \<^item> \<open>Handshake\<close> (\<open>initWriter\<close> of \<^verbatim>\<open>gateway/gateway.go\<close>): the reply to an initialize, held
    back and read as it arrives. \<open>Gateway\<close> (the rest of \<^verbatim>\<open>gateway/gateway.go\<close>,
    \<^verbatim>\<open>gateway/auth.go\<close>): the guards, the token, the session table, and requests as interleaved steps.
  \<^item> Theories without code of their own: \<open>Ledger\<close> (what the operations of a session enter into the
    trail), \<open>Outcomes\<close> (the books of all actions), \<open>Conduct\<close> (what every step of a session
    keeps), \<open>Replies\<close> (what the agent is told), \<open>Dispatch\<close> (what leaves for the upstream),
    \<open>Shown\<close> (what a listing shows).

  \<^bold>\<open>How state is modelled.\<close> A struct is a \<^theory_text>\<open>record\<close>, a method a function from the old
  state to the new one. What the code reads from outside is an argument: the clock, the regular
  expressions, the approver, the resolver of secrets, signatures, the results of system calls. In a run of a session these functions are fixed once. Errors are values of
  \<^theory_text>\<open>datatype\<close>s or \<open>None\<close>. Sequence numbers and run counters are 64-bit words, Go's
  \<^verbatim>\<open>int\<close> is \<open>int\<close> with its range checked where the code parses it and wrapped
  (\<open>wrap64\<close>) where a sum may leave it. Concurrent goroutines are lists of records with the point each
  has reached.

  \<^bold>\<open>What the lemmas show.\<close>

  \<^item> The gate: whatever reaches the upstream as a tools/call passed policy, pin, validation, limits and
    approval under the one name every reader sees; every decision leaves its row; refused calls spend
    nothing; the wrapped server inherits no credential.
  \<^item> A session: each line sends at most one message, and that one was authorized, had its pin checked again and its
    row on record where auditing is required; an injected secret never comes back to the agent; the observations of
    an action never contradict each other, and every action ends; a listing shows exactly the tools that may be
    called.
  \<^item> The approvers: approval needs an allowed person who tapped on this prompt in time, or the operator who named
    this call; no held call is stranded and no tap lost; a decision and a timeout never disagree; the prompt shows no secret but its length; and,
    with the gate, a call that needs a human is forwarded only after such a tap.
  \<^item> The policy: evaluation refines a declarative specification; a rule accepted at load time is
    enforced; shadow rules change nothing; added deny rules only tighten.
  \<^item> The trail: a change of any entry, an insertion, a deletion or a truncation below the checkpoint is
    detected, given that the signature scheme cannot be forged on the strings at hand; the trail
    of a writer is the chain of the rows it accepted and verifies, under the premises of \<open>benign_call\<close> (no torn write, rows
    the verifier accepts, no equal signatures) and but for a first row without a checkpoint; a failed required write latches for good.
  \<^item> The queue: a step relation over all its operations, whose invariant gives that no row is lost or
    written twice; the flush order; the compact ranges as a set.
  \<^item> Limits, trust and budget: the sliding window under any dynamic caps and the ceiling of the session; a score that stays a float
    in the unit interval; at its cap a root is routed to cheap accounts only, and no threshold but NaN is asked twice.

  \<^item> The gateway: in every interleaving a session serves one request at a time and only after its initialize was
    answered with success to an introspected caller; a streamed reply is decided by the first write that completes a
    success or a refusal, so only a refusal before a success makes the decision depend on how the stream is cut.
  \<^item> A session reported PROTECTED: both chains are intact to their tails, and the trail is exactly what the writer
    signed; a snapshot of a running writer's files never looks tampered once its sidecar exists, and does before.

  \<^bold>\<open>Interfaces.\<close> The signature scheme of the chain is a locale with the laws the
  verifier relies on, interpreted for both modes (HMAC and Ed25519) on the model's own signing and
  checking functions. \<open>gate_preorder\<close> (\<open>Ledger\<close>) and \<open>session_preorder\<close>
  (\<open>Conduct\<close>) are contracts of the primitive updates of a gate and of a session: a relation that all of
  them keep is kept by a whole decision, a whole line, a whole run. They are interpreted for the tracked secrets
  (\<open>hiding\<close>), the replies (\<open>talking\<close>), the catalog (\<open>listing\<close>) and the rows.

  \<^bold>\<open>Bounds and fuel.\<close> Parsing recurses on the text with fuel equal to its length plus one, and
  a lemma shows that each step consumes input, so the fuel never runs out; \<open>replace_all\<close> and the flush
  of the queue use the same scheme (length of the text, number of resolved sequences). All other
  loops are structural or have a measure.

  \<^bold>\<open>Not modelled.\<close> Goroutines, locks and I/O as such: the code runs the modelled steps under its mutexes,
  and the theorems are about their sequences. Transports (pipes, HTTP, SSE, the Telegram API, sockets and peer
  credentials), starting and stopping the child process, the HTTP listener, the configuration check and the HTTP server of the gateway, evidence reports and exports, the NockLock chain,
  command lines, the terminal dashboard and platform code. Regular expressions, SHA-256, HMAC, Ed25519, the digest
  of a tool definition and YAML decoding are arguments. Strings that pass through a message keep their value, not
  the spelling of their escapes.
\<close>

end
